(* ===== verification/Lunar_Prelude.thy ===== *)
theory Lunar_Prelude
  imports Main "HOL-Library.Word"
begin

unbundle bit_operations_syntax

text \<open>
  Shared vocabulary of the LunarCore development: the machine types of the C code, byte
  slices and \<^verbatim>\<open>memcpy\<close>, the outcome type of the wire decoders, and the little- and
  big-endian byte codecs with their inverse laws.

  A C array of bytes is a \<open>byte list\<close> whose length is the array's size; \<open>size_t\<close> is
  \<open>nat\<close>. A write through \<^verbatim>\<open>memcpy\<close> that would run past the end of the array makes the
  list longer, so that an overrun is visible as a broken length invariant. A read that
  would run past the end of its source is the outcome \<open>Oob\<close> of the decoders.
\<close>

section \<open>Types\<close>

type_synonym byte = "8 word"
type_synonym bytes = "byte list"
type_synonym u16 = "16 word"
type_synonym u32 = "32 word"
type_synonym u64 = "64 word"

named_theorems vec_simps \<open>rewrite rules for the bounded byte vectors\<close>
named_theorems codec_simps \<open>rewrite rules for the byte codecs\<close>

text \<open>The outcome of a decoder: a value, an error code of the source, or a read outside the
  object it was given (which C leaves undefined).\<close>

datatype ('e, 'a) cresult = Ok 'a | Err 'e | Oob

section \<open>Slices and copies\<close>

definition slice :: "'a list \<Rightarrow> nat \<Rightarrow> nat \<Rightarrow> 'a list" where
  "slice xs pos n = take n (drop pos xs)"

definition memcpy :: "'a list \<Rightarrow> nat \<Rightarrow> 'a list \<Rightarrow> 'a list" where
  "memcpy dst off src = take off dst @ src @ drop (off + length src) dst"

text \<open>A checked read of \<open>n\<close> elements: \<open>Oob\<close> when the range leaves the source.\<close>

definition read_n :: "'a list \<Rightarrow> nat \<Rightarrow> nat \<Rightarrow> ('a list \<Rightarrow> ('e, 'b) cresult) \<Rightarrow> ('e, 'b) cresult" where
  "read_n xs pos n k = (if pos + n \<le> length xs then k (slice xs pos n) else Oob)"

definition zeros :: "nat \<Rightarrow> bytes" where
  "zeros n = replicate n 0"

lemma length_slice [simp]: "length (slice xs pos n) = min n (length xs - pos)"
  by (simp add: slice_def)

lemma length_zeros [simp]: "length (zeros n) = n"
  by (simp add: zeros_def)

lemma length_memcpy [simp]:
  "off + length src \<le> length dst \<Longrightarrow> length (memcpy dst off src) = length dst"
  by (simp add: memcpy_def)

lemma take_memcpy [simp]:
  "off \<le> length dst \<Longrightarrow> take (off + length src) (memcpy dst off src) = take off dst @ src"
  by (simp add: memcpy_def)

lemma memcpy_Nil [simp]: "memcpy dst off [] = dst"
  by (simp add: memcpy_def)

lemma slice_append_exact [codec_simps]:
  "length pre = pos \<Longrightarrow> length xs = n \<Longrightarrow> slice (pre @ xs @ post) pos n = xs"
  by (simp add: slice_def)

lemma slice_0_take: "slice xs 0 n = take n xs"
  by (simp add: slice_def)

lemma slice_append_right [simp]:
  "length pre \<le> pos \<Longrightarrow> slice (pre @ xs) pos n = slice xs (pos - length pre) n"
  by (simp add: slice_def)

lemma slice_append_left [simp]:
  "pos + n \<le> length xs \<Longrightarrow> slice (xs @ post) pos n = slice xs pos n"
  by (simp add: slice_def)

lemma slice_all [simp]: "length xs \<le> n \<Longrightarrow> slice xs 0 n = xs"
  by (simp add: slice_def)

lemma slice_Cons [simp]:
  "0 < pos \<Longrightarrow> slice (x # xs) pos n = slice xs (pos - 1) n"
  "slice (x # xs) 0 (Suc n) = x # slice xs 0 n" "slice xs pos 0 = []"
  by (simp_all add: slice_def drop_Cons')

lemma slice_nth: "pos < length xs \<Longrightarrow> slice xs pos (Suc 0) = [xs ! pos]"
  by (simp add: slice_def take_Suc hd_drop_conv_nth)

lemma read_n_ok: "pos + n \<le> length xs \<Longrightarrow> read_n xs pos n k = k (slice xs pos n)"
  by (simp add: read_n_def)

section \<open>Byte codecs\<close>

text \<open>\<open>le_bytes n w\<close> is the \<open>n\<close> low bytes of \<open>w\<close>, least significant first; \<open>le_word\<close> reads
  them back by the shifts and \<open>OR\<close>s of the source. The big-endian ones are their reversals.\<close>

fun le_bytes :: "nat \<Rightarrow> 'a::len word \<Rightarrow> bytes" where
  "le_bytes 0 w = []"
| "le_bytes (Suc n) w = ucast w # le_bytes n (drop_bit 8 w)"

fun le_word :: "bytes \<Rightarrow> 'a::len word" where
  "le_word [] = 0"
| "le_word (b # bs) = ucast b OR push_bit 8 (le_word bs)"

definition be_bytes :: "nat \<Rightarrow> 'a::len word \<Rightarrow> bytes" where
  "be_bytes n w = rev (le_bytes n w)"

definition be_word :: "bytes \<Rightarrow> 'a::len word" where
  "be_word bs = le_word (rev bs)"

lemma length_le_bytes [simp]: "length (le_bytes n w) = n"
  by (induction n arbitrary: w) auto

lemma length_be_bytes [simp]: "length (be_bytes n w) = n"
  by (simp add: be_bytes_def)

lemma byte_bit_high [simp]: "8 \<le> n \<Longrightarrow> \<not> bit (b :: byte) n"
  using bit_imp_le_length [of b n] by auto

lemma low_byte_split: "(ucast (ucast w :: byte) :: 'a::len word) OR push_bit 8 (take_bit m (drop_bit 8 w)) = take_bit (8 + m) w"
proof (rule bit_word_eqI)
  fix n
  assume "n < LENGTH('a)"
  then show "bit ((ucast (ucast w :: byte) :: 'a word) OR push_bit 8 (take_bit m (drop_bit 8 w))) n
    \<longleftrightarrow> bit (take_bit (8 + m) w) n"
    by (cases "n < 8") (auto simp: bit_simps)
qed

lemma ucast_ucast_byte [simp]: "8 \<le> LENGTH('a) \<Longrightarrow> ucast (ucast (b :: byte) :: 'a::len word) = b"
  by (rule bit_word_eqI) (auto simp: bit_simps)

lemma ucast_ucast_small:
  assumes "unat (w :: 'a::len word) < 256"
  shows "ucast (ucast w :: byte) = w"
proof -
  have "ucast (ucast w :: byte) = take_bit 8 w"
    by (rule bit_word_eqI) (auto simp: bit_simps)
  also have "\<dots> = w"
    using assms by (simp add: word_unat_eq_iff unsigned_take_bit_eq take_bit_nat_eq_self)
  finally show ?thesis .
qed

lemma le_word_le_bytes: "le_word (le_bytes n w) = take_bit (8 * n) w"
proof (induction n arbitrary: w)
  case 0
  show ?case by simp
next
  case (Suc n)
  then show ?case by (simp add: low_byte_split)
qed

lemma le_word_le_bytes_id [simp]:
  "LENGTH('a) \<le> 8 * n \<Longrightarrow> le_word (le_bytes n (w :: 'a::len word)) = w"
  by (simp add: le_word_le_bytes take_bit_word_eq_self)

lemma ucast_le_join:
  assumes "8 \<le> LENGTH('a)"
  shows "(ucast ((ucast (b :: byte) :: 'a::len word) OR push_bit 8 w) :: byte) = b"
  by (rule bit_word_eqI) (use assms in \<open>auto simp: bit_simps\<close>)

lemma drop_le_join:
  assumes "8 + m \<le> LENGTH('a)"
  shows "drop_bit 8 ((ucast (b :: byte) :: 'a::len word) OR push_bit 8 (take_bit m w)) = take_bit m w"
  by (rule bit_word_eqI) (use assms in \<open>auto simp: bit_simps\<close>)

lemma le_word_take_bit:
  "take_bit (8 * length bs) (le_word bs :: 'a::len word) = le_word bs"
proof (induction bs)
  case Nil
  show ?case by simp
next
  case (Cons b bs)
  have "bit (take_bit (8 * length (b # bs)) (le_word (b # bs) :: 'a word)) n
      \<longleftrightarrow> bit (le_word (b # bs) :: 'a word) n" for n
  proof (cases "n < 8")
    case True
    then show ?thesis by (auto simp: bit_simps)
  next
    case False
    have "bit (le_word bs :: 'a word) (n - 8) \<longrightarrow> n - 8 < 8 * length bs"
      using Cons.IH by (metis bit_take_bit_iff)
    with False show ?thesis by (auto simp: bit_simps)
  qed
  then show ?case by (simp add: bit_eq_iff)
qed

lemma le_bytes_le_word:
  "8 * length bs \<le> LENGTH('a) \<Longrightarrow> le_bytes (length bs) (le_word bs :: 'a::len word) = bs"
proof (induction bs)
  case Nil
  show ?case by simp
next
  case (Cons b bs)
  have *: "(le_word bs :: 'a word) = take_bit (8 * length bs) (le_word bs)"
    by (simp add: le_word_take_bit)
  have "drop_bit 8 ((ucast b :: 'a word) OR push_bit 8 (le_word bs)) = le_word bs"
    using Cons.prems by (subst (1 2) *, intro drop_le_join) simp
  moreover have "(ucast ((ucast b :: 'a word) OR push_bit 8 (le_word bs)) :: byte) = b"
    using Cons.prems by (intro ucast_le_join) simp
  ultimately show ?case using Cons by simp
qed

lemma be_word_be_bytes_id [simp]:
  "LENGTH('a) \<le> 8 * n \<Longrightarrow> be_word (be_bytes n (w :: 'a::len word)) = w"
  by (simp add: be_word_def be_bytes_def)

lemma be_bytes_be_word:
  "8 * length bs \<le> LENGTH('a) \<Longrightarrow> be_bytes (length bs) (be_word bs :: 'a::len word) = bs"
  using le_bytes_le_word [of "rev bs", where ?'a = 'a] by (simp add: be_word_def be_bytes_def)

lemma le_word_inj:
  assumes "length bs = length cs" "8 * length bs \<le> LENGTH('a)"
    and "(le_word bs :: 'a::len word) = le_word cs"
  shows "bs = cs"
  by (metis assms le_bytes_le_word)

text \<open>A byte read from a word and put back: the low byte.\<close>

lemma of_nat_unat_byte [simp]: "of_nat (unat (b :: byte)) = b"
  by simp

lemma unat_of_nat_byte: "n < 256 \<Longrightarrow> unat (of_nat n :: byte) = n"
  by (simp add: unat_of_nat take_bit_nat_eq_self)

lemma unat_lt2p: "unat (w :: 'a::len word) < 2 ^ LENGTH('a)"
  by (rule unsigned_less)

lemma unat_plus_one:
  assumes "(w :: 'a::len word) < u"
  shows "unat (w + 1) = unat w + 1"
proof -
  have "unat w + 1 \<le> unat u" using assms by (simp add: word_less_nat_alt)
  also have "unat u < 2 ^ LENGTH('a)" by (rule unsigned_less)
  finally have "unat w + 1 < 2 ^ LENGTH('a)" .
  then show ?thesis by (simp add: unat_word_ariths)
qed

lemma bit_of_nat_small: "i < 2 ^ k \<Longrightarrow> \<not> bit (of_nat i :: 'a::len word) k"
  by (simp only: bit_of_nat_iff) (simp add: bit_iff_odd)

lemma mask8: "(0xFF :: 'a::len word) = mask 8"
  by (simp add: mask_eq_exp_minus_1)

lemma ucast_and_mask8 [simp]: "(ucast (w AND 0xFF) :: byte) = ucast (w :: 'a::len word)"
  unfolding mask8 by (rule bit_word_eqI) (auto simp: bit_simps dest: bit_imp_le_length)

section \<open>Lists\<close>

lemma take_Suc_nth: "n < length xs \<Longrightarrow> take (Suc n) xs = take n xs @ [xs ! n]"
  by (rule take_Suc_conv_app_nth)

lemma list_update_take: "take n (xs[n := x]) = take n xs"
  by simp

text \<open>The first index a loop \<^verbatim>\<open>for (i = 0; i < N; i++) if (P(a[i])) ...\<close> stops at.\<close>

fun find_index :: "('a \<Rightarrow> bool) \<Rightarrow> 'a list \<Rightarrow> nat option" where
  "find_index P [] = None"
| "find_index P (x # xs) = (if P x then Some 0 else map_option Suc (find_index P xs))"

lemma find_index_SomeD:
  "find_index P xs = Some i \<Longrightarrow> i < length xs \<and> P (xs ! i) \<and> (\<forall>j<i. \<not> P (xs ! j))"
proof (induction xs arbitrary: i)
  case Nil
  then show ?case by simp
next
  case (Cons x xs)
  then show ?case
    by (auto simp: less_Suc_eq_0_disj split: if_splits)
qed

lemma find_index_None_iff: "find_index P xs = None \<longleftrightarrow> (\<forall>x\<in>set xs. \<not> P x)"
  by (induction xs) auto

lemma find_index_None_nth: "find_index P xs = None \<longleftrightarrow> (\<forall>i<length xs. \<not> P (xs ! i))"
  by (simp add: find_index_None_iff all_set_conv_all_nth)

lemma find_index_SomeI:
  "i < length xs \<Longrightarrow> P (xs ! i) \<Longrightarrow> (\<And>j. j < i \<Longrightarrow> \<not> P (xs ! j)) \<Longrightarrow> find_index P xs = Some i"
proof (induction xs arbitrary: i)
  case Nil
  then show ?case by simp
next
  case (Cons x xs)
  show ?case
  proof (cases i)
    case 0
    with Cons.prems show ?thesis by simp
  next
    case (Suc k)
    have "\<not> P x" using Cons.prems(3) [of 0] Suc by simp
    moreover have "find_index P xs = Some k"
      using Cons.prems Suc by (intro Cons.IH) force+
    ultimately show ?thesis using Suc by simp
  qed
qed

lemma find_index_update_other:
  "i < length xs \<Longrightarrow> \<not> P (xs ! i) \<Longrightarrow> \<not> P x \<Longrightarrow> find_index P (xs[i := x]) = find_index P xs"
proof (induction xs arbitrary: i)
  case Nil
  then show ?case by simp
next
  case (Cons y ys)
  then show ?case by (cases i) auto
qed

text \<open>Counting the entries of a table that satisfy a flag.\<close>

lemma length_filter_update:
  "i < length xs \<Longrightarrow> length (filter P (xs[i := x])) + (if P (xs ! i) then 1 else 0)
    = length (filter P xs) + (if P x then 1 else 0)"
proof (induction xs arbitrary: i)
  case Nil
  then show ?case by simp
next
  case (Cons y ys)
  then show ?case by (cases i) (auto split: if_splits)
qed

lemma length_filter_all: "length (filter P xs) = length xs \<longleftrightarrow> (\<forall>i<length xs. P (xs ! i))"
proof -
  have "length (filter P xs) = length xs \<longleftrightarrow> (\<forall>x\<in>set xs. P x)"
    by (auto simp: filter_id_conv dest: length_filter_less)
  then show ?thesis by (simp add: all_set_conv_all_nth)
qed

text \<open>Probing from any start visits every slot.\<close>

lemma probe_surj:
  assumes "j < (n :: nat)"
  shows "\<exists>i<n. (h + i) mod n = j"
proof -
  have "h mod n < n" using assms by simp
  then have "h + (j + n - h mod n) = j + n * (h div n + 1)"
    using mult_div_mod_eq [of n h] by (simp only: distrib_left mult_1_right)
  then have "(h + (j + n - h mod n)) mod n = j" using assms by (metis mod_less mod_mult_self2)
  then have "(h + (j + n - h mod n) mod n) mod n = j" by (simp add: mod_add_right_eq)
  then show ?thesis using assms by (metis mod_less_divisor bot_nat_0.not_eq_extremum not_less0)
qed

lemma find_probe_None:
  "find_index (\<lambda>i. P ((h + i) mod n)) [0..<n] = None \<longleftrightarrow> (\<forall>j<n. \<not> P j)"
  using probe_surj [of _ n h] by (fastforce simp: find_index_None_iff)

end
