(* ===== verification/Vec_Helpers.thy ===== *)
theory Vec_Helpers
  imports Lunar_Prelude
begin

text \<open>
  The bounded byte vectors of \<^verbatim>\<open>lunar/vec_helpers.c\<close> (the C stand-ins for Rust's
  heapless vectors): a fixed array and a length. The \<open>vec\<close> record keeps the whole array,
  so that the part beyond the length (stale bytes of earlier contents) is part of the
  state, as in C. \<open>vec_bytes\<close> is the contents a reader sees.

  The contract all of them share is the locale \<open>bounded_vec\<close>: an extension that fits
  appends, one that does not fit leaves the vector as it was, and the array is never
  overrun. The clients' facts about sequences of extensions are proved once inside it.
\<close>

section \<open>State\<close>

record vec =
  vdata :: bytes
  vlen :: nat

text \<open>\<^verbatim>\<open>HeaplessVec_u8_256\<close> and \<^verbatim>\<open>HeaplessVec_u8_320\<close> carry their capacity at run time.\<close>

record cvec = vec +
  vcapacity :: nat

datatype contact_hello_error =
    CONTACT_HELLO_ERROR_NONE
  | CONTACT_HELLO_ERROR_INVALID_VERSION
  | CONTACT_HELLO_ERROR_INVALID_FORMAT
  | CONTACT_HELLO_ERROR_SIGNATURE_INVALID
  | CONTACT_HELLO_ERROR_BUFFER_TOO_SMALL
  | CONTACT_HELLO_ERROR_DID_TOO_LONG
  | CONTACT_HELLO_ERROR_NAME_TOO_LONG

abbreviation MAX_DID_LENGTH :: nat where "MAX_DID_LENGTH \<equiv> 128"
abbreviation MAX_NAME_LENGTH :: nat where "MAX_NAME_LENGTH \<equiv> 64"

definition vec_bytes :: "'a vec_scheme \<Rightarrow> bytes" where
  "vec_bytes v = take (vlen v) (vdata v)"

definition vec_wf :: "nat \<Rightarrow> 'a vec_scheme \<Rightarrow> bool" where
  "vec_wf cap v \<longleftrightarrow> length (vdata v) = cap \<and> vlen v \<le> cap"

definition cvec_wf :: "nat \<Rightarrow> cvec \<Rightarrow> bool" where
  "cvec_wf cap v \<longleftrightarrow> vec_wf cap v \<and> vcapacity v = cap"

section \<open>Operations\<close>

definition heapless_vec128_init :: "vec \<Rightarrow> vec" where
  "heapless_vec128_init v = v\<lparr>vlen := 0, vdata := zeros MAX_DID_LENGTH\<rparr>"

definition heapless_vec64_init :: "vec \<Rightarrow> vec" where
  "heapless_vec64_init v = v\<lparr>vlen := 0, vdata := zeros MAX_NAME_LENGTH\<rparr>"

definition heapless_vec256_init :: "vec \<Rightarrow> vec" where
  "heapless_vec256_init v = v\<lparr>vlen := 0, vdata := zeros 256\<rparr>"

definition heapless_vec512_init :: "vec \<Rightarrow> vec" where
  "heapless_vec512_init v = v\<lparr>vlen := 0, vdata := zeros 512\<rparr>"

definition heapless_vec128_extend_from_slice :: "vec \<Rightarrow> bytes \<Rightarrow> contact_hello_error \<times> vec" where
  "heapless_vec128_extend_from_slice v xs =
     (if vlen v + length xs > MAX_DID_LENGTH then (CONTACT_HELLO_ERROR_DID_TOO_LONG, v)
      else (CONTACT_HELLO_ERROR_NONE,
            v\<lparr>vdata := memcpy (vdata v) (vlen v) xs, vlen := vlen v + length xs\<rparr>))"

definition heapless_vec64_extend_from_slice :: "vec \<Rightarrow> bytes \<Rightarrow> contact_hello_error \<times> vec" where
  "heapless_vec64_extend_from_slice v xs =
     (if vlen v + length xs > MAX_NAME_LENGTH then (CONTACT_HELLO_ERROR_NAME_TOO_LONG, v)
      else (CONTACT_HELLO_ERROR_NONE,
            v\<lparr>vdata := memcpy (vdata v) (vlen v) xs, vlen := vlen v + length xs\<rparr>))"

definition heapless_vec256_extend_from_slice :: "vec \<Rightarrow> bytes \<Rightarrow> vec" where
  "heapless_vec256_extend_from_slice v xs =
     (if vlen v + length xs \<le> 256
      then v\<lparr>vdata := memcpy (vdata v) (vlen v) xs, vlen := vlen v + length xs\<rparr> else v)"

definition heapless_vec512_extend_from_slice :: "vec \<Rightarrow> bytes \<Rightarrow> vec" where
  "heapless_vec512_extend_from_slice v xs =
     (if vlen v + length xs \<le> 512
      then v\<lparr>vdata := memcpy (vdata v) (vlen v) xs, vlen := vlen v + length xs\<rparr> else v)"

definition heapless_vec256_push :: "vec \<Rightarrow> byte \<Rightarrow> vec" where
  "heapless_vec256_push v b =
     (if vlen v < 256 then v\<lparr>vdata := (vdata v)[vlen v := b], vlen := vlen v + 1\<rparr> else v)"

definition heapless_vec512_push :: "vec \<Rightarrow> byte \<Rightarrow> vec" where
  "heapless_vec512_push v b =
     (if vlen v < 512 then v\<lparr>vdata := (vdata v)[vlen v := b], vlen := vlen v + 1\<rparr> else v)"

definition heapless_vec64_clear :: "vec \<Rightarrow> vec" where
  "heapless_vec64_clear v = v\<lparr>vlen := 0\<rparr>"

definition heapless_vec_u8_256_init :: "cvec \<Rightarrow> bool \<times> cvec" where
  "heapless_vec_u8_256_init v = (True, v\<lparr>vlen := 0, vcapacity := 256, vdata := zeros 256\<rparr>)"

definition heapless_vec_u8_256_push :: "cvec \<Rightarrow> byte \<Rightarrow> bool \<times> cvec" where
  "heapless_vec_u8_256_push v b =
     (if vlen v \<ge> vcapacity v then (False, v)
      else (True, v\<lparr>vdata := (vdata v)[vlen v := b], vlen := vlen v + 1\<rparr>))"

definition heapless_vec_u8_256_extend_from_slice :: "cvec \<Rightarrow> bytes \<Rightarrow> bool \<times> cvec" where
  "heapless_vec_u8_256_extend_from_slice v xs =
     (if vlen v + length xs > vcapacity v then (False, v)
      else (True, v\<lparr>vdata := memcpy (vdata v) (vlen v) xs, vlen := vlen v + length xs\<rparr>))"

definition heapless_vec_u8_256_as_slice :: "cvec \<Rightarrow> bytes" where
  "heapless_vec_u8_256_as_slice v = vdata v"

definition heapless_vec_u8_256_len :: "cvec \<Rightarrow> nat" where
  "heapless_vec_u8_256_len v = vlen v"

definition heapless_vec_u8_320_init :: "cvec \<Rightarrow> bool \<times> cvec" where
  "heapless_vec_u8_320_init v = (True, v\<lparr>vlen := 0, vcapacity := 320, vdata := zeros 320\<rparr>)"

definition heapless_vec_u8_320_extend_from_slice :: "cvec \<Rightarrow> bytes \<Rightarrow> bool \<times> cvec" where
  "heapless_vec_u8_320_extend_from_slice v xs =
     (if vlen v + length xs > vcapacity v then (False, v)
      else (True, v\<lparr>vdata := memcpy (vdata v) (vlen v) xs, vlen := vlen v + length xs\<rparr>))"

section \<open>The shared contract\<close>

locale bounded_vec =
  fixes cap :: nat
    and wf :: "'v \<Rightarrow> bool"
    and content :: "'v \<Rightarrow> bytes"
    and extend :: "'v \<Rightarrow> bytes \<Rightarrow> 'v"
  assumes content_bound: "wf v \<Longrightarrow> length (content v) \<le> cap"
    and extend_wf: "wf v \<Longrightarrow> wf (extend v xs)"
    and extend_fits: "wf v \<Longrightarrow> length (content v) + length xs \<le> cap \<Longrightarrow>
          content (extend v xs) = content v @ xs"
    and extend_full: "wf v \<Longrightarrow> cap < length (content v) + length xs \<Longrightarrow> extend v xs = v"
begin

lemma extends_wf: "wf v \<Longrightarrow> wf (foldl extend v xss)"
  by (induction xss arbitrary: v) (auto intro: extend_wf)

text \<open>A run of extensions whose total fits appends everything.\<close>

lemma extends_fit:
  "wf v \<Longrightarrow> length (content v) + length (concat xss) \<le> cap \<Longrightarrow>
   content (foldl extend v xss) = content v @ concat xss"
proof (induction xss arbitrary: v)
  case Nil
  then show ?case by simp
next
  case (Cons xs xss)
  from Cons.prems have "content (extend v xs) = content v @ xs"
    by (intro extend_fits) auto
  with Cons show ?case by (simp add: extend_wf)
qed

text \<open>What a run of extensions leaves in general: each piece that does not fit is skipped, and
  the ones after it are still tried.\<close>

fun accepted :: "nat \<Rightarrow> bytes list \<Rightarrow> bytes" where
  "accepted n [] = []"
| "accepted n (xs # xss) =
     (if n + length xs \<le> cap then xs @ accepted (n + length xs) xss else accepted n xss)"

lemma extends_accepted:
  "wf v \<Longrightarrow> content (foldl extend v xss) = content v @ accepted (length (content v)) xss"
proof (induction xss arbitrary: v)
  case Nil
  then show ?case by simp
next
  case (Cons xs xss)
  show ?case
  proof (cases "length (content v) + length xs \<le> cap")
    case True
    with Cons.prems have "content (extend v xs) = content v @ xs" by (rule_tac extend_fits)
    with Cons True show ?thesis by (simp add: extend_wf)
  next
    case False
    with Cons.prems have "extend v xs = v" by (intro extend_full) auto
    with Cons False show ?thesis by simp
  qed
qed

lemma extends_bound: "wf v \<Longrightarrow> length (content (foldl extend v xss)) \<le> cap"
  by (intro content_bound extends_wf)

end

text \<open>A vector that also has a one-byte push.\<close>

locale bounded_vec_push = bounded_vec cap wf content extend
  for cap :: nat and wf :: "'v \<Rightarrow> bool" and content :: "'v \<Rightarrow> bytes"
    and extend :: "'v \<Rightarrow> bytes \<Rightarrow> 'v" +
  fixes push :: "'v \<Rightarrow> byte \<Rightarrow> 'v"
  assumes push_extend: "wf v \<Longrightarrow> push v b = extend v [b]"
begin

lemma push_wf: "wf v \<Longrightarrow> wf (push v b)"
  by (simp add: push_extend extend_wf)

lemma push_fits: "wf v \<Longrightarrow> length (content v) < cap \<Longrightarrow> content (push v b) = content v @ [b]"
  using extend_fits [of v "[b]"] by (simp add: push_extend)

end

section \<open>Every vector of the file meets the contract\<close>

lemma length_vec_bytes [simp]: "vec_wf cap v \<Longrightarrow> length (vec_bytes v) = vlen v"
  by (simp add: vec_wf_def vec_bytes_def)

lemma vec_append_bytes [vec_simps]:
  "vec_wf cap v \<Longrightarrow> vlen v + length xs \<le> cap \<Longrightarrow>
   vec_bytes (v\<lparr>vdata := memcpy (vdata v) (vlen v) xs, vlen := vlen v + length xs\<rparr>) = vec_bytes v @ xs"
  by (simp add: vec_bytes_def vec_wf_def)

lemma vec_append_wf [vec_simps]:
  "vec_wf cap v \<Longrightarrow> vlen v + length xs \<le> cap \<Longrightarrow>
   vec_wf cap (v\<lparr>vdata := memcpy (vdata v) (vlen v) xs, vlen := vlen v + length xs\<rparr>)"
  by (simp add: vec_wf_def)

lemma memcpy_one: "off < length dst \<Longrightarrow> memcpy dst off [b] = dst[off := b]"
  by (simp add: memcpy_def upd_conv_take_nth_drop)

lemma memcpy_one_wf [vec_simps]:
  "vec_wf cap v \<Longrightarrow> vlen v < cap \<Longrightarrow> memcpy (vdata v) (vlen v) [b] = (vdata v)[vlen v := b]"
  by (simp add: vec_wf_def memcpy_one)

lemma vec_init_wf [vec_simps]: "vec_wf n (v\<lparr>vlen := 0, vdata := zeros n\<rparr>)"
  by (simp add: vec_wf_def)

lemma vec_init_bytes [vec_simps]: "vec_bytes (v\<lparr>vlen := 0, vdata := d\<rparr>) = []"
  by (simp add: vec_bytes_def)

lemma vec_len_le: "vec_wf cap v \<Longrightarrow> vlen v \<le> cap"
  by (simp add: vec_wf_def)

interpretation v128: bounded_vec MAX_DID_LENGTH "vec_wf MAX_DID_LENGTH" vec_bytes
    "\<lambda>v xs. snd (heapless_vec128_extend_from_slice v xs)"
  by unfold_locales (auto simp: heapless_vec128_extend_from_slice_def vec_simps vec_len_le)

interpretation v64: bounded_vec MAX_NAME_LENGTH "vec_wf MAX_NAME_LENGTH" vec_bytes
    "\<lambda>v xs. snd (heapless_vec64_extend_from_slice v xs)"
  by unfold_locales (auto simp: heapless_vec64_extend_from_slice_def vec_simps vec_len_le)

interpretation v256: bounded_vec_push 256 "vec_wf 256" vec_bytes
    heapless_vec256_extend_from_slice heapless_vec256_push
  by unfold_locales (auto simp: heapless_vec256_extend_from_slice_def heapless_vec256_push_def
      vec_simps vec_len_le)

interpretation v512: bounded_vec_push 512 "vec_wf 512" vec_bytes
    heapless_vec512_extend_from_slice heapless_vec512_push
  by unfold_locales (auto simp: heapless_vec512_extend_from_slice_def heapless_vec512_push_def
      vec_simps vec_len_le)

lemma cvec_wfD [dest]: "cvec_wf cap v \<Longrightarrow> vec_wf cap v \<and> vcapacity v = cap"
  by (simp add: cvec_wf_def)

interpretation u256: bounded_vec_push 256 "cvec_wf 256" vec_bytes
    "\<lambda>v xs. snd (heapless_vec_u8_256_extend_from_slice v xs)"
    "\<lambda>v b. snd (heapless_vec_u8_256_push v b)"
  by unfold_locales (auto simp: heapless_vec_u8_256_extend_from_slice_def
      heapless_vec_u8_256_push_def cvec_wf_def vec_simps vec_len_le)

interpretation u320: bounded_vec 320 "cvec_wf 320" vec_bytes
    "\<lambda>v xs. snd (heapless_vec_u8_320_extend_from_slice v xs)"
  by unfold_locales (auto simp: heapless_vec_u8_320_extend_from_slice_def cvec_wf_def
      vec_simps vec_len_le)

lemma vec_inits_wf [simp]:
  "vec_wf 128 (heapless_vec128_init v)" "vec_wf 64 (heapless_vec64_init v)"
  "vec_wf 256 (heapless_vec256_init v)" "vec_wf 512 (heapless_vec512_init v)"
  "cvec_wf 256 (snd (heapless_vec_u8_256_init w))"
  "cvec_wf 320 (snd (heapless_vec_u8_320_init w))"
  by (simp_all add: heapless_vec128_init_def heapless_vec64_init_def heapless_vec256_init_def
      heapless_vec512_init_def heapless_vec_u8_256_init_def heapless_vec_u8_320_init_def
      cvec_wf_def vec_wf_def)

lemma vec_inits_bytes [simp]:
  "vec_bytes (heapless_vec128_init v) = []" "vec_bytes (heapless_vec64_init v) = []"
  "vec_bytes (heapless_vec256_init v) = []" "vec_bytes (heapless_vec512_init v) = []"
  "vec_bytes (snd (heapless_vec_u8_256_init w)) = []"
  "vec_bytes (snd (heapless_vec_u8_320_init w)) = []"
  by (simp_all add: heapless_vec128_init_def heapless_vec64_init_def heapless_vec256_init_def
      heapless_vec512_init_def heapless_vec_u8_256_init_def heapless_vec_u8_320_init_def vec_bytes_def)

text \<open>The error code of the two checked extensions tells exactly whether the bytes fit.\<close>

lemma vec128_extend_error:
  "fst (heapless_vec128_extend_from_slice v xs) = CONTACT_HELLO_ERROR_NONE
   \<longleftrightarrow> vlen v + length xs \<le> MAX_DID_LENGTH"
  by (simp add: heapless_vec128_extend_from_slice_def)

lemma vec64_extend_error:
  "fst (heapless_vec64_extend_from_slice v xs) = CONTACT_HELLO_ERROR_NONE
   \<longleftrightarrow> vlen v + length xs \<le> MAX_NAME_LENGTH"
  by (simp add: heapless_vec64_extend_from_slice_def)

lemma vec64_clear_wf [simp]: "vec_wf 64 v \<Longrightarrow> vec_wf 64 (heapless_vec64_clear v)"
  by (simp add: heapless_vec64_clear_def vec_wf_def)

lemma vec64_clear_bytes [simp]: "vec_bytes (heapless_vec64_clear v) = []"
  by (simp add: heapless_vec64_clear_def vec_bytes_def)

end
