(* ===== verification/Frame_Protocol.thy ===== *)
theory Frame_Protocol
  imports Vec_Helpers
begin

unbundle bit_operations_syntax

text \<open>
  The host protocol of \<^verbatim>\<open>lunar/protocol.c\<close>: commands, the frame record, the table-driven
  CRC-16, the frame encoder, the frame builders and the configuration parser. The byte
  parser is in \<open>Frame_Parser\<close>.

  Writes through \<^verbatim>\<open>buf->data[buf->len++] = b\<close> have no bounds check in the source; \<open>put_byte\<close>
  models them, and would make the array longer if one ran past its end.
\<close>

section \<open>Commands\<close>

abbreviation SYNC0 :: byte where "SYNC0 \<equiv> 0xAA"
abbreviation SYNC1 :: byte where "SYNC1 \<equiv> 0x55"
abbreviation END_BYTE :: byte where "END_BYTE \<equiv> 0x0D"
abbreviation MAX_DATA_SIZE :: nat where "MAX_DATA_SIZE \<equiv> 255"
abbreviation MAX_FRAME_SIZE :: nat where "MAX_FRAME_SIZE \<equiv> 264"

datatype command =
    COMMAND_PING | COMMAND_PONG | COMMAND_CONFIGURE | COMMAND_CONFIG_ACK
  | COMMAND_TRANSMIT | COMMAND_TX_DONE | COMMAND_TX_ERROR | COMMAND_RECEIVE
  | COMMAND_GET_STATS | COMMAND_STATS_RESPONSE | COMMAND_CAD | COMMAND_CAD_RESULT
  | COMMAND_RESET | COMMAND_VERSION | COMMAND_VERSION_RESPONSE | COMMAND_ERROR

fun command_byte :: "command \<Rightarrow> byte" where
  "command_byte COMMAND_PING = 0x01"
| "command_byte COMMAND_PONG = 0x02"
| "command_byte COMMAND_CONFIGURE = 0x10"
| "command_byte COMMAND_CONFIG_ACK = 0x11"
| "command_byte COMMAND_TRANSMIT = 0x20"
| "command_byte COMMAND_TX_DONE = 0x21"
| "command_byte COMMAND_TX_ERROR = 0x22"
| "command_byte COMMAND_RECEIVE = 0x30"
| "command_byte COMMAND_GET_STATS = 0x40"
| "command_byte COMMAND_STATS_RESPONSE = 0x41"
| "command_byte COMMAND_CAD = 0x50"
| "command_byte COMMAND_CAD_RESULT = 0x51"
| "command_byte COMMAND_RESET = 0xF0"
| "command_byte COMMAND_VERSION = 0xF1"
| "command_byte COMMAND_VERSION_RESPONSE = 0xF2"
| "command_byte COMMAND_ERROR = 0xFF"

definition command_from_byte :: "byte \<Rightarrow> command option" where
  "command_from_byte b =
     (if b = 0x01 then Some COMMAND_PING
      else if b = 0x02 then Some COMMAND_PONG
      else if b = 0x10 then Some COMMAND_CONFIGURE
      else if b = 0x11 then Some COMMAND_CONFIG_ACK
      else if b = 0x20 then Some COMMAND_TRANSMIT
      else if b = 0x21 then Some COMMAND_TX_DONE
      else if b = 0x22 then Some COMMAND_TX_ERROR
      else if b = 0x30 then Some COMMAND_RECEIVE
      else if b = 0x40 then Some COMMAND_GET_STATS
      else if b = 0x41 then Some COMMAND_STATS_RESPONSE
      else if b = 0x50 then Some COMMAND_CAD
      else if b = 0x51 then Some COMMAND_CAD_RESULT
      else if b = 0xF0 then Some COMMAND_RESET
      else if b = 0xF1 then Some COMMAND_VERSION
      else if b = 0xF2 then Some COMMAND_VERSION_RESPONSE
      else if b = 0xFF then Some COMMAND_ERROR
      else None)"

lemma command_from_byte_command_byte [simp]: "command_from_byte (command_byte c) = Some c"
  by (cases c) (simp_all add: command_from_byte_def)

lemma command_from_byte_SomeD: "command_from_byte b = Some c \<Longrightarrow> command_byte c = b"
  by (auto simp: command_from_byte_def split: if_splits)

section \<open>Frames\<close>

record frame =
  fr_command :: command
  fr_sequence :: byte
  fr_data :: vec

definition frame_wf :: "frame \<Rightarrow> bool" where
  "frame_wf f \<longleftrightarrow> vec_wf MAX_DATA_SIZE (fr_data f)"

text \<open>\<open>junk\<close> is what the uninitialised array of the local \<^verbatim>\<open>Frame\<close> happens to hold.\<close>

definition frame_new :: "bytes \<Rightarrow> command \<Rightarrow> byte \<Rightarrow> frame" where
  "frame_new junk cmd sq =
     \<lparr>fr_command = cmd, fr_sequence = sq, fr_data = \<lparr>vdata = junk, vlen = 0\<rparr>\<rparr>"

definition frame_with_data :: "command \<Rightarrow> byte \<Rightarrow> bytes \<Rightarrow> frame \<Rightarrow> frame option" where
  "frame_with_data cmd sq xs out =
     (if length xs > MAX_DATA_SIZE then None
      else Some (out\<lparr>fr_command := cmd, fr_sequence := sq,
                     fr_data := \<lparr>vdata = memcpy (vdata (fr_data out)) 0 xs, vlen = length xs\<rparr>\<rparr>))"

section \<open>CRC-16\<close>

definition CRC16_TABLE :: "u16 list" where
  "CRC16_TABLE =
  [0x0000, 0x1021, 0x2042, 0x3063, 0x4084, 0x50A5, 0x60C6, 0x70E7,
   0x8108, 0x9129, 0xA14A, 0xB16B, 0xC18C, 0xD1AD, 0xE1CE, 0xF1EF,
   0x1231, 0x0210, 0x3273, 0x2252, 0x52B5, 0x4294, 0x72F7, 0x62D6,
   0x9339, 0x8318, 0xB37B, 0xA35A, 0xD3BD, 0xC39C, 0xF3FF, 0xE3DE,
   0x2462, 0x3443, 0x0420, 0x1401, 0x64E6, 0x74C7, 0x44A4, 0x5485,
   0xA56A, 0xB54B, 0x8528, 0x9509, 0xE5EE, 0xF5CF, 0xC5AC, 0xD58D,
   0x3653, 0x2672, 0x1611, 0x0630, 0x76D7, 0x66F6, 0x5695, 0x46B4,
   0xB75B, 0xA77A, 0x9719, 0x8738, 0xF7DF, 0xE7FE, 0xD79D, 0xC7BC,
   0x48C4, 0x58E5, 0x6886, 0x78A7, 0x0840, 0x1861, 0x2802, 0x3823,
   0xC9CC, 0xD9ED, 0xE98E, 0xF9AF, 0x8948, 0x9969, 0xA90A, 0xB92B,
   0x5AF5, 0x4AD4, 0x7AB7, 0x6A96, 0x1A71, 0x0A50, 0x3A33, 0x2A12,
   0xDBFD, 0xCBDC, 0xFBBF, 0xEB9E, 0x9B79, 0x8B58, 0xBB3B, 0xAB1A,
   0x6CA6, 0x7C87, 0x4CE4, 0x5CC5, 0x2C22, 0x3C03, 0x0C60, 0x1C41,
   0xEDAE, 0xFD8F, 0xCDEC, 0xDDCD, 0xAD2A, 0xBD0B, 0x8D68, 0x9D49,
   0x7E97, 0x6EB6, 0x5ED5, 0x4EF4, 0x3E13, 0x2E32, 0x1E51, 0x0E70,
   0xFF9F, 0xEFBE, 0xDFDD, 0xCFFC, 0xBF1B, 0xAF3A, 0x9F59, 0x8F78,
   0x9188, 0x81A9, 0xB1CA, 0xA1EB, 0xD10C, 0xC12D, 0xF14E, 0xE16F,
   0x1080, 0x00A1, 0x30C2, 0x20E3, 0x5004, 0x4025, 0x7046, 0x6067,
   0x83B9, 0x9398, 0xA3FB, 0xB3DA, 0xC33D, 0xD31C, 0xE37F, 0xF35E,
   0x02B1, 0x1290, 0x22F3, 0x32D2, 0x4235, 0x5214, 0x6277, 0x7256,
   0xB5EA, 0xA5CB, 0x95A8, 0x8589, 0xF56E, 0xE54F, 0xD52C, 0xC50D,
   0x34E2, 0x24C3, 0x14A0, 0x0481, 0x7466, 0x6447, 0x5424, 0x4405,
   0xA7DB, 0xB7FA, 0x8799, 0x97B8, 0xE75F, 0xF77E, 0xC71D, 0xD73C,
   0x26D3, 0x36F2, 0x0691, 0x16B0, 0x6657, 0x7676, 0x4615, 0x5634,
   0xD94C, 0xC96D, 0xF90E, 0xE92F, 0x99C8, 0x89E9, 0xB98A, 0xA9AB,
   0x5844, 0x4865, 0x7806, 0x6827, 0x18C0, 0x08E1, 0x3882, 0x28A3,
   0xCB7D, 0xDB5C, 0xEB3F, 0xFB1E, 0x8BF9, 0x9BD8, 0xABBB, 0xBB9A,
   0x4A75, 0x5A54, 0x6A37, 0x7A16, 0x0AF1, 0x1AD0, 0x2AB3, 0x3A92,
   0xFD2E, 0xED0F, 0xDD6C, 0xCD4D, 0xBDAA, 0xAD8B, 0x9DE8, 0x8DC9,
   0x7C26, 0x6C07, 0x5C64, 0x4C45, 0x3CA2, 0x2C83, 0x1CE0, 0x0CC1,
   0xEF1F, 0xFF3E, 0xCF5D, 0xDF7C, 0xAF9B, 0xBFBA, 0x8FD9, 0x9FF8,
   0x6E17, 0x7E36, 0x4E55, 0x5E74, 0x2E93, 0x3EB2, 0x0ED1, 0x1EF0]"

definition crc16_step :: "u16 \<Rightarrow> byte \<Rightarrow> u16" where
  "crc16_step crc b =
     (let index = (drop_bit 8 crc XOR ucast b) AND 0xFF
      in push_bit 8 crc XOR CRC16_TABLE ! unat index)"

definition crc16 :: "bytes \<Rightarrow> u16" where
  "crc16 xs = foldl crc16_step 0xFFFF xs"

text \<open>Reference: long division by \<open>x\<^sup>1\<^sup>6 + x\<^sup>1\<^sup>2 + x\<^sup>5 + 1\<close>, one bit at a time.\<close>

definition crc_shift :: "u16 \<Rightarrow> u16" where
  "crc_shift c = (if bit c 15 then push_bit 1 c XOR 0x1021 else push_bit 1 c)"

definition crc_ref_step :: "u16 \<Rightarrow> byte \<Rightarrow> u16" where
  "crc_ref_step c b = (crc_shift ^^ 8) (c XOR push_bit 8 (ucast b))"

definition crc_ref :: "bytes \<Rightarrow> u16" where
  "crc_ref xs = foldl crc_ref_step 0xFFFF xs"

section \<open>Encoder\<close>

definition put_byte :: "vec \<Rightarrow> byte \<Rightarrow> vec" where
  "put_byte v b = v\<lparr>vdata := memcpy (vdata v) (vlen v) [b], vlen := vlen v + 1\<rparr>"

definition frame_encode :: "frame \<Rightarrow> vec \<Rightarrow> vec" where
  "frame_encode f out =
     (let out = out\<lparr>vlen := 0\<rparr>;
          out = put_byte out SYNC0;
          out = put_byte out SYNC1;
          len = (of_nat (vlen (fr_data f)) :: u16);
          out = put_byte out (ucast len);
          out = put_byte out (ucast (drop_bit 8 len));
          out = put_byte out (command_byte (fr_command f));
          out = put_byte out (fr_sequence f);
          out = foldl put_byte out (take (vlen (fr_data f)) (vdata (fr_data f)));
          crc = crc16 (slice (vdata out) 4 (vlen out - 4));
          out = put_byte out (ucast crc);
          out = put_byte out (ucast (drop_bit 8 crc))
      in put_byte out END_BYTE)"

section \<open>Builders\<close>

definition build_pong :: "bytes \<Rightarrow> byte \<Rightarrow> frame" where
  "build_pong junk sq = frame_new junk COMMAND_PONG sq"

definition build_config_ack :: "bytes \<Rightarrow> byte \<Rightarrow> frame" where
  "build_config_ack junk sq = frame_new junk COMMAND_CONFIG_ACK sq"

definition build_tx_done :: "bytes \<Rightarrow> byte \<Rightarrow> frame" where
  "build_tx_done junk sq = frame_new junk COMMAND_TX_DONE sq"

definition build_tx_error :: "byte \<Rightarrow> byte \<Rightarrow> frame \<Rightarrow> frame option" where
  "build_tx_error sq error_code out = frame_with_data COMMAND_TX_ERROR sq [error_code] out"

definition build_receive :: "u16 \<Rightarrow> byte \<Rightarrow> bytes \<Rightarrow> frame \<Rightarrow> frame option" where
  "build_receive rssi snr xs out =
     (if length xs > MAX_DATA_SIZE - 4 then None
      else
        (let d = (fr_data out)\<lparr>vlen := 0\<rparr>;
             d = put_byte d (ucast rssi);
             d = put_byte d (ucast (signed_drop_bit 8 rssi));
             d = put_byte d snr;
             d = put_byte d 0;
             d = foldl put_byte d xs
         in Some (out\<lparr>fr_command := COMMAND_RECEIVE, fr_sequence := 0, fr_data := d\<rparr>)))"

definition build_cad_result :: "byte \<Rightarrow> bool \<Rightarrow> frame \<Rightarrow> frame option" where
  "build_cad_result sq detected out =
     frame_with_data COMMAND_CAD_RESULT sq [if detected then 1 else 0] out"

text \<open>A C string argument is its bytes before the terminating zero, so \<^verbatim>\<open>strlen\<close> is \<open>length\<close>.\<close>

definition build_version_response :: "byte \<Rightarrow> bytes \<Rightarrow> frame \<Rightarrow> frame option" where
  "build_version_response sq version out = frame_with_data COMMAND_VERSION_RESPONSE sq version out"

definition build_error :: "byte \<Rightarrow> bytes \<Rightarrow> frame \<Rightarrow> frame option" where
  "build_error sq message out = frame_with_data COMMAND_ERROR sq message out"

definition u32_le :: "u32 \<Rightarrow> bytes" where
  "u32_le w = [ucast (w AND 0xFF), ucast (drop_bit 8 w AND 0xFF),
               ucast (drop_bit 16 w AND 0xFF), ucast (drop_bit 24 w AND 0xFF)]"

definition build_stats_response :: "byte \<Rightarrow> u32 \<Rightarrow> u32 \<Rightarrow> u32 \<Rightarrow> u32 \<Rightarrow> frame \<Rightarrow> frame option" where
  "build_stats_response sq tx_packets rx_packets tx_errors rx_errors out =
     frame_with_data COMMAND_STATS_RESPONSE sq
       (u32_le tx_packets @ u32_le rx_packets @ u32_le tx_errors @ u32_le rx_errors) out"

section \<open>Radio configuration\<close>

record radio_config =
  rc_frequency :: u32
  rc_spreading_factor :: byte
  rc_bandwidth :: byte
  rc_coding_rate :: byte
  rc_tx_power :: byte
  rc_sync_word :: byte
  rc_preamble_length :: u16
  rc_crc_enabled :: bool
  rc_implicit_header :: bool
  rc_ldro :: bool

definition parse_config :: "bytes \<Rightarrow> radio_config option" where
  "parse_config d =
     (if length d < 14 then None
      else
        (let bandwidth_raw = (ucast (d ! 5) :: u16) OR push_bit 8 (ucast (d ! 6));
             bandwidth = (ucast (bandwidth_raw div 125) :: byte);
             flags = d ! 12
         in Some \<lparr>
           rc_frequency = (ucast (d ! 0) :: u32) OR push_bit 8 (ucast (d ! 1))
             OR push_bit 16 (ucast (d ! 2)) OR push_bit 24 (ucast (d ! 3)),
           rc_spreading_factor = d ! 4,
           rc_bandwidth = (if bandwidth < 2 then bandwidth else 2),
           rc_coding_rate = d ! 7,
           rc_tx_power = d ! 8,
           rc_sync_word = d ! 9,
           rc_preamble_length = (ucast (d ! 10) :: u16) OR push_bit 8 (ucast (d ! 11)),
           rc_crc_enabled = (flags AND 0x01 \<noteq> 0),
           rc_implicit_header = (flags AND 0x02 \<noteq> 0),
           rc_ldro = (flags AND 0x04 \<noteq> 0)\<rparr>))"

section \<open>The table computes the polynomial division\<close>

lemma crc_shift_xor: "crc_shift (x XOR y) = crc_shift x XOR crc_shift y"
  by (rule bit_word_eqI) (auto simp: crc_shift_def bit_simps)

lemma crc_shift_pow_xor: "(crc_shift ^^ n) (x XOR y) = (crc_shift ^^ n) x XOR (crc_shift ^^ n) y"
  by (induction n) (simp_all add: crc_shift_xor)

text \<open>The table doubles: entry \<open>2 * i\<close> is entry \<open>i\<close> shifted once more, and the odd entries
  differ from their even neighbours by the polynomial.\<close>

fun crc_rows :: "u16 list \<Rightarrow> u16 list" where
  "crc_rows [] = []"
| "crc_rows (x # xs) = crc_shift x # (crc_shift x XOR 0x1021) # crc_rows xs"

lemma CRC16_TABLE_rows: "CRC16_TABLE = crc_rows (take 128 CRC16_TABLE)"
  by (simp add: CRC16_TABLE_def crc_shift_def)

lemma length_CRC16_TABLE [simp]: "length CRC16_TABLE = 256"
  by (simp add: CRC16_TABLE_def)

lemma crc_rows_nth:
  "i < length xs \<Longrightarrow> crc_rows xs ! (2 * i) = crc_shift (xs ! i)
     \<and> crc_rows xs ! Suc (2 * i) = crc_shift (xs ! i) XOR 0x1021"
proof (induction xs arbitrary: i)
  case Nil
  then show ?case by simp
next
  case (Cons x xs)
  then show ?case by (cases i) auto
qed

lemma CRC16_TABLE_double:
  assumes "i < 128"
  shows "CRC16_TABLE ! (2 * i) = crc_shift (CRC16_TABLE ! i)"
    and "CRC16_TABLE ! Suc (2 * i) = crc_shift (CRC16_TABLE ! i) XOR 0x1021"
proof -
  have i: "i < length (take 128 CRC16_TABLE)" using assms by simp
  have nth: "take 128 CRC16_TABLE ! i = CRC16_TABLE ! i" using assms by simp
  show "CRC16_TABLE ! (2 * i) = crc_shift (CRC16_TABLE ! i)"
    by (subst CRC16_TABLE_rows) (use crc_rows_nth [OF i] nth in auto)
  show "CRC16_TABLE ! Suc (2 * i) = crc_shift (CRC16_TABLE ! i) XOR 0x1021"
    by (subst CRC16_TABLE_rows) (use crc_rows_nth [OF i] nth in auto)
qed

lemma crc_shift_small: "i < 128 \<Longrightarrow> crc_shift (push_bit 8 (of_nat i)) = push_bit 8 (of_nat (2 * i))"
proof -
  assume "i < 128"
  then have "\<not> bit (of_nat i :: u16) 7" using bit_of_nat_small [of i 7] by simp
  then have "\<not> bit (push_bit 8 (of_nat i :: u16)) 15" by (simp add: bit_push_bit_iff)
  then have "crc_shift (push_bit 8 (of_nat i)) = push_bit 1 (push_bit 8 (of_nat i))"
    by (simp only: crc_shift_def if_False)
  then show ?thesis by (simp add: push_bit_eq_mult)
qed

lemma crc_shift_8: "(crc_shift ^^ 8) c = crc_shift (crc_shift (crc_shift (crc_shift
    (crc_shift (crc_shift (crc_shift (crc_shift c)))))))"
  by (simp add: numeral_eq_Suc)

lemma crc_shift8_256: "(crc_shift ^^ 8) (push_bit 8 1) = 0x1021"
  by (simp add: numeral_eq_Suc) (simp add: crc_shift_def)

lemma of_nat_odd_xor: "(of_nat (Suc (2 * i)) :: u16) = of_nat (2 * i) XOR 1"
  by (simp add: xor_one_eq)

lemma CRC16_TABLE_nth: "i < 256 \<Longrightarrow> CRC16_TABLE ! i = (crc_shift ^^ 8) (push_bit 8 (of_nat i))"
proof (induction i rule: less_induct)
  case (less i)
  show ?case
  proof (cases "i = 0")
    case True
    then show ?thesis by (simp add: CRC16_TABLE_def numeral_eq_Suc crc_shift_def)
  next
    case False
    define k where "k = i div 2"
    have k: "k < i" "k < 128" using False less.prems by (auto simp: k_def)
    then have IH: "CRC16_TABLE ! k = (crc_shift ^^ 8) (push_bit 8 (of_nat k))"
      using less by simp
    have even: "CRC16_TABLE ! (2 * k) = (crc_shift ^^ 8) (push_bit 8 (of_nat (2 * k)))"
      by (simp only: CRC16_TABLE_double [OF k(2)] IH funpow_swap1 crc_shift_small [OF k(2), symmetric])
    show ?thesis
    proof (cases "even i")
      case True
      then have "i = 2 * k" by (simp add: k_def)
      with even show ?thesis by simp
    next
      case odd: False
      then have i: "i = Suc (2 * k)" by (simp add: k_def)
      have "CRC16_TABLE ! i = (crc_shift ^^ 8) (push_bit 8 (of_nat (2 * k))) XOR 0x1021"
        using CRC16_TABLE_double [OF k(2)] even i by simp
      also have "\<dots> = (crc_shift ^^ 8) (push_bit 8 (of_nat i))"
        by (simp only: i of_nat_odd_xor push_bit_xor crc_shift_pow_xor crc_shift8_256)
      finally show ?thesis .
    qed
  qed
qed

lemma crc_shift_low: "(crc_shift ^^ 8) (ucast (b :: byte)) = push_bit 8 (ucast b)"
proof -
  have "n \<le> 8 \<Longrightarrow> (crc_shift ^^ n) (ucast b) = push_bit n (ucast b)" for n
  proof (induction n)
    case (Suc n)
    then show ?case by (simp add: crc_shift_def bit_simps)
  qed simp
  then show ?thesis by simp
qed

lemma crc16_step_ref: "crc16_step c b = crc_ref_step c b"
proof -
  define i where "i = unat ((drop_bit 8 c XOR ucast b) AND 0xFF)"
  have "(drop_bit 8 c XOR ucast b) AND 0xFF \<le> (0xFF :: u16)"
    by (rule word_and_le1)
  then have i: "i < 256" by (simp add: i_def word_le_nat_alt)
  have "(of_nat i :: u16) = (drop_bit 8 c XOR ucast b) AND 0xFF" by (simp add: i_def)
  moreover have "c XOR push_bit 8 (ucast b)
      = push_bit 8 ((drop_bit 8 c XOR ucast b) AND 0xFF) XOR ucast (ucast c :: byte)"
    unfolding mask8 by (rule bit_word_eqI) (auto simp: bit_simps)
  ultimately have "crc_ref_step c b = CRC16_TABLE ! i XOR push_bit 8 (ucast (ucast c :: byte))"
    by (simp add: crc_ref_step_def crc_shift_pow_xor crc_shift_low CRC16_TABLE_nth [OF i])
  also have "push_bit 8 (ucast (ucast c :: byte)) = push_bit 8 c"
    by (rule bit_word_eqI) (auto simp: bit_simps)
  finally show ?thesis by (simp add: crc16_step_def i_def ac_simps)
qed

lemma crc16_ref: "crc16 xs = crc_ref xs"
proof -
  have "crc16_step = crc_ref_step" by (intro ext crc16_step_ref)
  then show ?thesis by (simp add: crc16_def crc_ref_def)
qed

section \<open>The encoder writes the wire format\<close>

text \<open>The wire format: sync, length, command, sequence, data, CRC, end marker.\<close>

definition frame_body :: "frame \<Rightarrow> bytes" where
  "frame_body f = command_byte (fr_command f) # fr_sequence f # vec_bytes (fr_data f)"

definition frame_bytes :: "frame \<Rightarrow> bytes" where
  "frame_bytes f =
     [SYNC0, SYNC1] @ le_bytes 2 (of_nat (vlen (fr_data f)) :: u16) @ frame_body f
       @ le_bytes 2 (crc16 (frame_body f)) @ [END_BYTE]"

lemma put_byte_wf: "vec_wf cap v \<Longrightarrow> vlen v < cap \<Longrightarrow> vec_wf cap (put_byte v b)"
  by (simp add: put_byte_def vec_wf_def)

lemma put_byte_bytes: "vec_wf cap v \<Longrightarrow> vlen v < cap \<Longrightarrow> vec_bytes (put_byte v b) = vec_bytes v @ [b]"
  using vec_append_bytes [of cap v "[b]"] by (simp add: put_byte_def)

lemma puts:
  "vec_wf cap v \<Longrightarrow> vlen v + length xs \<le> cap \<Longrightarrow>
   vec_wf cap (foldl put_byte v xs) \<and> vec_bytes (foldl put_byte v xs) = vec_bytes v @ xs
   \<and> vlen (foldl put_byte v xs) = vlen v + length xs"
proof (induction xs arbitrary: v)
  case Nil
  then show ?case by simp
next
  case (Cons b xs)
  then have "vec_wf cap (put_byte v b)" "vec_bytes (put_byte v b) = vec_bytes v @ [b]"
    by (auto intro: put_byte_wf put_byte_bytes)
  moreover have "vlen (put_byte v b) = Suc (vlen v)" by (simp add: put_byte_def)
  ultimately show ?case using Cons by simp
qed

lemmas puts_wf = puts [THEN conjunct1]
  and puts_bytes = puts [THEN conjunct2, THEN conjunct1]
  and puts_len = puts [THEN conjunct2, THEN conjunct2]

lemma vec_wf_reset: "vec_wf cap v \<Longrightarrow> vec_wf cap (v\<lparr>vlen := 0\<rparr>)"
  by (simp add: vec_wf_def)

lemma vec_bytes_reset [simp]: "vec_bytes (v\<lparr>vlen := 0\<rparr>) = []"
  by (simp add: vec_bytes_def)

lemma slice_vdata: "vec_wf cap v \<Longrightarrow> slice (vdata v) k (vlen v - k) = drop k (vec_bytes v)"
  by (simp add: slice_def vec_bytes_def drop_take)

lemma length_frame_body: "frame_wf f \<Longrightarrow> length (frame_body f) = vlen (fr_data f) + 2"
  by (simp add: frame_wf_def frame_body_def)

lemma length_frame_bytes: "frame_wf f \<Longrightarrow> length (frame_bytes f) = vlen (fr_data f) + 9"
  by (simp add: frame_bytes_def length_frame_body)

lemma frame_wf_len: "frame_wf f \<Longrightarrow> vlen (fr_data f) \<le> MAX_DATA_SIZE"
  by (simp add: frame_wf_def vec_wf_def)

lemma frame_encode_puts:
  "frame_encode f out =
     (let v = foldl put_byte (out\<lparr>vlen := 0\<rparr>)
                ([SYNC0, SYNC1] @ le_bytes 2 (of_nat (vlen (fr_data f)) :: u16) @ frame_body f)
      in foldl put_byte v (le_bytes 2 (crc16 (slice (vdata v) 4 (vlen v - 4))) @ [END_BYTE]))"
  by (simp add: frame_encode_def frame_body_def vec_bytes_def numeral_2_eq_2 Let_def)

lemma frame_encode_bytes:
  assumes f: "frame_wf f" and out: "vec_wf MAX_FRAME_SIZE out"
  shows "vec_wf MAX_FRAME_SIZE (frame_encode f out)" "vec_bytes (frame_encode f out) = frame_bytes f"
proof -
  let ?head = "[SYNC0, SYNC1] @ le_bytes 2 (of_nat (vlen (fr_data f)) :: u16) @ frame_body f"
  let ?v0 = "out\<lparr>vlen := 0\<rparr>"
  define v where "v = foldl put_byte ?v0 ?head"
  let ?tail = "le_bytes 2 (crc16 (frame_body f)) @ [END_BYTE]"
  have hl: "length ?head = vlen (fr_data f) + 6" by (simp add: length_frame_body f)
  have fits: "vlen ?v0 + length ?head \<le> MAX_FRAME_SIZE" using frame_wf_len [OF f] hl by simp
  note v0 = vec_wf_reset [OF out]
  note v = puts_wf [OF v0 fits, folded v_def] puts_bytes [OF v0 fits, folded v_def]
    puts_len [OF v0 fits, folded v_def]
  have "slice (vdata v) 4 (vlen v - 4) = frame_body f"
    using slice_vdata [OF v(1), of 4] v(2) by (simp add: numeral_eq_Suc)
  then have enc: "frame_encode f out = foldl put_byte v ?tail"
    unfolding frame_encode_puts Let_def v_def [symmetric] by simp
  have fits': "vlen v + length ?tail \<le> MAX_FRAME_SIZE" using frame_wf_len [OF f] hl v(3) by simp
  show "vec_wf MAX_FRAME_SIZE (frame_encode f out)"
    unfolding enc by (rule puts_wf [OF v(1) fits'])
  show "vec_bytes (frame_encode f out) = frame_bytes f"
    unfolding enc puts_bytes [OF v(1) fits'] v(2) by (simp add: frame_bytes_def)
qed

section \<open>Builders\<close>

lemma frame_new_wf: "length junk = MAX_DATA_SIZE \<Longrightarrow> frame_wf (frame_new junk cmd sq)"
  by (simp add: frame_new_def frame_wf_def vec_wf_def)

lemma frame_with_data_spec:
  assumes "frame_wf out"
  shows "frame_with_data cmd sq xs out = None \<longleftrightarrow> MAX_DATA_SIZE < length xs"
    and "frame_with_data cmd sq xs out = Some f \<Longrightarrow>
           frame_wf f \<and> fr_command f = cmd \<and> fr_sequence f = sq \<and> vec_bytes (fr_data f) = xs"
  using assms
  by (auto simp: frame_with_data_def frame_wf_def vec_wf_def vec_bytes_def memcpy_def split: if_splits)

lemma build_receive_spec:
  assumes "frame_wf out"
  shows "build_receive rssi snr xs out = None \<longleftrightarrow> 251 < length xs"
    and "build_receive rssi snr xs out = Some f \<Longrightarrow> frame_wf f \<and> fr_command f = COMMAND_RECEIVE
      \<and> vec_bytes (fr_data f) = [ucast rssi, ucast (signed_drop_bit 8 rssi), snr, 0] @ xs"
proof -
  let ?d = "(fr_data out)\<lparr>vlen := 0\<rparr>"
  let ?h = "[ucast rssi, ucast (signed_drop_bit 8 rssi), snr, 0] @ xs"
  have puts_eq: "build_receive rssi snr xs out =
     (if length xs > 251 then None else
       Some (out\<lparr>fr_command := COMMAND_RECEIVE, fr_sequence := 0, fr_data := foldl put_byte ?d ?h\<rparr>))"
    by (simp add: build_receive_def Let_def)
  then show "build_receive rssi snr xs out = None \<longleftrightarrow> 251 < length xs" by simp
  assume "build_receive rssi snr xs out = Some f"
  with puts_eq have len: "length xs \<le> 251"
    and f: "f = out\<lparr>fr_command := COMMAND_RECEIVE, fr_sequence := 0, fr_data := foldl put_byte ?d ?h\<rparr>"
    by (auto split: if_splits)
  have d: "vec_wf MAX_DATA_SIZE ?d" using assms by (simp add: frame_wf_def vec_wf_reset)
  have fits: "vlen ?d + length ?h \<le> MAX_DATA_SIZE" using len by simp
  show "frame_wf f \<and> fr_command f = COMMAND_RECEIVE \<and> vec_bytes (fr_data f) = ?h"
    using puts_wf [OF d fits] puts_bytes [OF d fits] by (simp add: f frame_wf_def)
qed

end
