(* ===== verification/Frame_Parser.thy ===== *)
theory Frame_Parser
  imports Frame_Protocol "HOL-Library.Sublist"
begin

unbundle bit_operations_syntax

text \<open>
  The byte-at-a-time frame parser of \<^verbatim>\<open>lunar/protocol.c\<close>: its ten states, one
  \<open>frame_parser_feed\<close> step, and runs over a received byte stream. The invariant
  \<open>parser_wf\<close> bounds the unchecked write into the data array; \<open>pending\<close> says which bytes of
  the wire format the parser has accepted so far.
\<close>

section \<open>State and step\<close>

datatype parser_state =
    PARSER_STATE_WAIT_SYNC1 | PARSER_STATE_WAIT_SYNC2
  | PARSER_STATE_WAIT_LEN_LOW | PARSER_STATE_WAIT_LEN_HIGH
  | PARSER_STATE_WAIT_COMMAND | PARSER_STATE_WAIT_SEQUENCE
  | PARSER_STATE_WAIT_DATA
  | PARSER_STATE_WAIT_CRC_LOW | PARSER_STATE_WAIT_CRC_HIGH
  | PARSER_STATE_WAIT_END

record frame_parser =
  ps_state :: parser_state
  ps_data_len :: u16
  ps_data_idx :: u16
  ps_command :: byte
  ps_sequence :: byte
  ps_data :: vec
  ps_crc_low :: byte

definition frame_parser_new :: "bytes \<Rightarrow> frame_parser" where
  "frame_parser_new junk =
     \<lparr>ps_state = PARSER_STATE_WAIT_SYNC1, ps_data_len = 0, ps_data_idx = 0,
      ps_command = 0, ps_sequence = 0, ps_data = \<lparr>vdata = junk, vlen = 0\<rparr>, ps_crc_low = 0\<rparr>"

definition frame_parser_reset :: "frame_parser \<Rightarrow> frame_parser" where
  "frame_parser_reset p =
     p\<lparr>ps_state := PARSER_STATE_WAIT_SYNC1, ps_data := (ps_data p)\<lparr>vlen := 0\<rparr>,
       ps_data_len := 0, ps_data_idx := 0\<rparr>"

definition frame_parser_feed :: "frame_parser \<Rightarrow> byte \<Rightarrow> frame \<Rightarrow> frame_parser \<times> frame option" where
  "frame_parser_feed p b out =
    (case ps_state p of
       PARSER_STATE_WAIT_SYNC1 \<Rightarrow>
         (if b = SYNC0 then p\<lparr>ps_state := PARSER_STATE_WAIT_SYNC2\<rparr> else p, None)
     | PARSER_STATE_WAIT_SYNC2 \<Rightarrow>
         (if b = SYNC1 then p\<lparr>ps_state := PARSER_STATE_WAIT_LEN_LOW\<rparr>
          else if b = SYNC0 then p
          else frame_parser_reset p, None)
     | PARSER_STATE_WAIT_LEN_LOW \<Rightarrow>
         (p\<lparr>ps_data_len := ucast b, ps_state := PARSER_STATE_WAIT_LEN_HIGH\<rparr>, None)
     | PARSER_STATE_WAIT_LEN_HIGH \<Rightarrow>
         (let dl = ps_data_len p OR push_bit 8 (ucast b)
          in if unat dl > MAX_DATA_SIZE then (frame_parser_reset (p\<lparr>ps_data_len := dl\<rparr>), None)
             else (p\<lparr>ps_data_len := dl, ps_state := PARSER_STATE_WAIT_COMMAND\<rparr>, None))
     | PARSER_STATE_WAIT_COMMAND \<Rightarrow>
         (p\<lparr>ps_command := b, ps_state := PARSER_STATE_WAIT_SEQUENCE\<rparr>, None)
     | PARSER_STATE_WAIT_SEQUENCE \<Rightarrow>
         (p\<lparr>ps_sequence := b, ps_data := (ps_data p)\<lparr>vlen := 0\<rparr>, ps_data_idx := 0,
            ps_state := (if ps_data_len p = 0 then PARSER_STATE_WAIT_CRC_LOW
                         else PARSER_STATE_WAIT_DATA)\<rparr>, None)
     | PARSER_STATE_WAIT_DATA \<Rightarrow>
         (p\<lparr>ps_data := put_byte (ps_data p) b, ps_data_idx := ps_data_idx p + 1,
            ps_state := (if ps_data_idx p + 1 \<ge> ps_data_len p then PARSER_STATE_WAIT_CRC_LOW
                         else PARSER_STATE_WAIT_DATA)\<rparr>, None)
     | PARSER_STATE_WAIT_CRC_LOW \<Rightarrow>
         (p\<lparr>ps_crc_low := b, ps_state := PARSER_STATE_WAIT_CRC_HIGH\<rparr>, None)
     | PARSER_STATE_WAIT_CRC_HIGH \<Rightarrow>
         (let received_crc = (ucast (ps_crc_low p) :: u16) OR push_bit 8 (ucast b);
              crc_data = ps_command p # ps_sequence p # vec_bytes (ps_data p);
              calculated_crc = crc16 crc_data
          in (if received_crc = calculated_crc then p\<lparr>ps_state := PARSER_STATE_WAIT_END\<rparr>
              else frame_parser_reset p, None))
     | PARSER_STATE_WAIT_END \<Rightarrow>
         (frame_parser_reset p,
          if b = END_BYTE then
            (case command_from_byte (ps_command p) of
               None \<Rightarrow> None
             | Some cmd \<Rightarrow>
                 Some (out\<lparr>fr_command := cmd, fr_sequence := ps_sequence p,
                           fr_data := \<lparr>vdata = memcpy (vdata (fr_data out)) 0 (vec_bytes (ps_data p)),
                                       vlen = vlen (ps_data p)\<rparr>\<rparr>))
          else None))"

text \<open>The receive loop: feed every byte, collect the completed frames. The same \<^verbatim>\<open>out_frame\<close>
  object is passed each time.\<close>

fun feed_all :: "frame_parser \<Rightarrow> frame \<Rightarrow> bytes \<Rightarrow> frame_parser \<times> frame list" where
  "feed_all p out [] = (p, [])"
| "feed_all p out (b # bs) =
     (case frame_parser_feed p b out of
        (p', None) \<Rightarrow> feed_all p' out bs
      | (p', Some f) \<Rightarrow> (case feed_all p' f bs of (p'', fs) \<Rightarrow> (p'', f # fs)))"

section \<open>The parser's invariant\<close>

fun parser_wf :: "frame_parser \<Rightarrow> bool" where
  "parser_wf p \<longleftrightarrow> vec_wf MAX_DATA_SIZE (ps_data p) \<and>
    (case ps_state p of
       PARSER_STATE_WAIT_SYNC1 \<Rightarrow> True
     | PARSER_STATE_WAIT_SYNC2 \<Rightarrow> True
     | PARSER_STATE_WAIT_LEN_LOW \<Rightarrow> True
     | PARSER_STATE_WAIT_LEN_HIGH \<Rightarrow> unat (ps_data_len p) \<le> 255
     | PARSER_STATE_WAIT_COMMAND \<Rightarrow> unat (ps_data_len p) \<le> 255
     | PARSER_STATE_WAIT_SEQUENCE \<Rightarrow> unat (ps_data_len p) \<le> 255
     | PARSER_STATE_WAIT_DATA \<Rightarrow>
         vlen (ps_data p) = unat (ps_data_idx p) \<and> ps_data_idx p < ps_data_len p
         \<and> unat (ps_data_len p) \<le> 255
     | _ \<Rightarrow> vlen (ps_data p) = unat (ps_data_len p) \<and> unat (ps_data_len p) \<le> 255)"

declare parser_wf.simps [simp del]

lemmas parser_wf_def = parser_wf.simps

lemma parser_wf_new: "length junk = MAX_DATA_SIZE \<Longrightarrow> parser_wf (frame_parser_new junk)"
  by (simp add: parser_wf_def frame_parser_new_def vec_wf_def)

lemma parser_wf_reset: "vec_wf MAX_DATA_SIZE (ps_data p) \<Longrightarrow> parser_wf (frame_parser_reset p)"
  by (simp add: parser_wf_def frame_parser_reset_def vec_wf_def)

lemma ucast_byte_le: "unat (ucast (b :: byte) :: u16) \<le> 255"
  using unsigned_less [of b, where ?'a = nat] by (simp add: unsigned_ucast_eq take_bit_nat_eq_self)

lemma idx_step:
  assumes "i < l" "unat (l :: u16) \<le> 255"
  shows "unat (i + 1) = Suc (unat i)" "\<not> l \<le> i + 1 \<Longrightarrow> i + 1 < l" "l \<le> i + 1 \<Longrightarrow> Suc (unat i) = unat l"
proof -
  have "unat i < unat l" using assms(1) by (simp add: word_less_nat_alt)
  then have i: "unat i + 1 < 65536" using assms(2) by simp
  show s: "unat (i + 1) = Suc (unat i)" using i by (simp add: unat_word_ariths)
  show "\<not> l \<le> i + 1 \<Longrightarrow> i + 1 < l" by simp
  assume "l \<le> i + 1"
  then have "unat l \<le> Suc (unat i)" using s by (simp add: word_le_nat_alt)
  with \<open>unat i < unat l\<close> show "Suc (unat i) = unat l" by simp
qed

lemma feed_data_wf:
  assumes "parser_wf p" "ps_state p = PARSER_STATE_WAIT_DATA"
  shows "parser_wf (fst (frame_parser_feed p b out))"
proof -
  from assms have wf: "vec_wf MAX_DATA_SIZE (ps_data p)"
    and len: "vlen (ps_data p) = unat (ps_data_idx p)" "ps_data_idx p < ps_data_len p"
      "unat (ps_data_len p) \<le> 255"
    by (auto simp: parser_wf_def)
  have "unat (ps_data_idx p) < unat (ps_data_len p)" using len(2) by (simp add: word_less_nat_alt)
  then have "vlen (ps_data p) < MAX_DATA_SIZE" using len by simp
  with wf have "vec_wf MAX_DATA_SIZE (put_byte (ps_data p) b)" by (rule put_byte_wf)
  moreover have "vlen (put_byte (ps_data p) b) = Suc (vlen (ps_data p))" by (simp add: put_byte_def)
  ultimately show ?thesis
    using assms(2) len idx_step [OF len(2,3)]
    by (auto simp: frame_parser_feed_def parser_wf_def)
qed

lemma feed_wf:
  assumes "parser_wf p"
  shows "parser_wf (fst (frame_parser_feed p b out))"
proof (cases "ps_state p = PARSER_STATE_WAIT_DATA")
  case True
  with assms show ?thesis by (rule feed_data_wf)
next
  case False
  with assms show ?thesis
    by (cases "ps_state p")
      (auto simp: frame_parser_feed_def frame_parser_reset_def parser_wf_def vec_wf_def Let_def
        ucast_byte_le word_neq_0_conv)
qed

lemma feed_frame_wf:
  "parser_wf p \<Longrightarrow> frame_wf out \<Longrightarrow> frame_parser_feed p b out = (p', Some f) \<Longrightarrow> frame_wf f"
  by (auto simp: frame_parser_feed_def parser_wf_def frame_wf_def vec_wf_def vec_bytes_def Let_def
      memcpy_def split: parser_state.splits if_splits option.splits)

lemma feed_all_wf:
  "parser_wf p \<Longrightarrow> frame_wf out \<Longrightarrow>
   parser_wf (fst (feed_all p out bs)) \<and> (\<forall>f \<in> set (snd (feed_all p out bs)). frame_wf f)"
proof (induction bs arbitrary: p out)
  case Nil
  then show ?case by simp
next
  case (Cons b bs)
  obtain p' r where step: "frame_parser_feed p b out = (p', r)" by (cases "frame_parser_feed p b out")
  have p': "parser_wf p'" using feed_wf [OF Cons.prems(1), of b out] step by simp
  show ?case
  proof (cases r)
    case None
    with Cons.IH [OF p' Cons.prems(2)] step show ?thesis by simp
  next
    case (Some f)
    have "frame_wf f" using feed_frame_wf Cons.prems step Some by blast
    with Cons.IH [OF p' this] step Some show ?thesis by (auto split: prod.splits)
  qed
qed

lemma feed_all_append:
  "feed_all p out (xs @ ys) =
     (case feed_all p out xs of (p', fs) \<Rightarrow>
        case feed_all p' (if fs = [] then out else last fs) ys of (p'', gs) \<Rightarrow> (p'', fs @ gs))"
  by (induction xs arbitrary: p out) (auto split: prod.splits option.splits)

section \<open>Feeding an encoded frame\<close>

lemma le16_join:
  "(ucast (ucast w :: byte) :: u16) OR push_bit 8 (ucast (ucast (drop_bit 8 w) :: byte)) = w"
  using le_word_le_bytes_id [of 2 w] by (simp add: numeral_2_eq_2)

lemma le_bytes_2: "le_bytes 2 (w :: 'a::len word) = [ucast w, ucast (drop_bit 8 w)]"
  by (simp add: numeral_2_eq_2)

definition after_header :: "frame_parser \<Rightarrow> u16 \<Rightarrow> byte \<Rightarrow> byte \<Rightarrow> frame_parser" where
  "after_header p dl cmd sq =
     p\<lparr>ps_data_len := dl, ps_command := cmd, ps_sequence := sq,
       ps_data := (ps_data p)\<lparr>vlen := 0\<rparr>, ps_data_idx := 0,
       ps_state := (if dl = 0 then PARSER_STATE_WAIT_CRC_LOW else PARSER_STATE_WAIT_DATA)\<rparr>"

lemma feed_header:
  assumes "ps_state p = PARSER_STATE_WAIT_SYNC1" "unat (dl :: u16) \<le> 255"
  shows "feed_all p out (SYNC0 # SYNC1 # le_bytes 2 dl @ cmd # sq # rest)
     = feed_all (after_header p dl cmd sq) out rest"
  using assms by (simp add: frame_parser_feed_def le_bytes_2 le16_join after_header_def)

lemma feed_data:
  assumes "vec_wf MAX_DATA_SIZE (ps_data p)" "ps_state p = PARSER_STATE_WAIT_DATA"
    and "vlen (ps_data p) = unat (ps_data_idx p)" "xs \<noteq> []"
    and "unat (ps_data_idx p) + length xs = unat (ps_data_len p)" "unat (ps_data_len p) \<le> 255"
  shows "feed_all p out (xs @ rest) =
     feed_all (p\<lparr>ps_data := foldl put_byte (ps_data p) xs, ps_data_idx := ps_data_len p,
                 ps_state := PARSER_STATE_WAIT_CRC_LOW\<rparr>) out rest"
  using assms
proof (induction xs arbitrary: p)
  case Nil
  then show ?case by simp
next
  case (Cons x xs)
  let ?i = "ps_data_idx p" and ?l = "ps_data_len p"
  have lt: "?i < ?l" using Cons.prems(5) by (simp add: word_less_nat_alt)
  note step = idx_step [OF lt Cons.prems(6)]
  show ?case
  proof (cases "xs = []")
    case True
    then have "?i + 1 = ?l" using Cons.prems(5) step(1) by (simp add: word_unat_eq_iff)
    with True Cons.prems(2) show ?thesis by (simp add: frame_parser_feed_def)
  next
    case False
    let ?p = "p\<lparr>ps_data := put_byte (ps_data p) x, ps_data_idx := ?i + 1, ps_state := PARSER_STATE_WAIT_DATA\<rparr>"
    have nle: "\<not> ?l \<le> ?i + 1"
      using Cons.prems(5) step(1) False by (cases xs) (auto simp: word_le_nat_alt)
    have "feed_all p out ((x # xs) @ rest) = feed_all ?p out (xs @ rest)"
      using Cons.prems(2) nle by (simp add: frame_parser_feed_def)
    also have "\<dots> = feed_all (?p\<lparr>ps_data := foldl put_byte (ps_data ?p) xs, ps_data_idx := ps_data_len ?p,
                 ps_state := PARSER_STATE_WAIT_CRC_LOW\<rparr>) out rest"
    proof (rule Cons.IH)
      have "vlen (ps_data p) < MAX_DATA_SIZE" using Cons.prems(3,5,6) by simp
      then show "vec_wf MAX_DATA_SIZE (ps_data ?p)" using Cons.prems(1) by (simp add: put_byte_wf)
    qed (use Cons.prems False step(1) in \<open>auto simp: put_byte_def\<close>)
    finally show ?thesis by simp
  qed
qed

text \<open>The frame the parser delivers has the sent command, sequence and data bytes.\<close>

definition same_frame :: "frame \<Rightarrow> frame \<Rightarrow> bool" where
  "same_frame f g \<longleftrightarrow> fr_command f = fr_command g \<and> fr_sequence f = fr_sequence g
     \<and> vec_bytes (fr_data f) = vec_bytes (fr_data g)"

lemma feed_trailer:
  assumes "vec_wf MAX_DATA_SIZE (ps_data p)" "ps_state p = PARSER_STATE_WAIT_CRC_LOW" "frame_wf out"
    and "ps_command p = command_byte cmd"
  shows "\<exists>g p'. feed_all p out (le_bytes 2 (crc16 (ps_command p # ps_sequence p # vec_bytes (ps_data p))) @ END_BYTE # rest)
      = (case feed_all p' g rest of (p'', fs) \<Rightarrow> (p'', g # fs))
     \<and> fr_command g = cmd \<and> fr_sequence g = ps_sequence p \<and> vec_bytes (fr_data g) = vec_bytes (ps_data p)
     \<and> ps_state p' = PARSER_STATE_WAIT_SYNC1 \<and> vec_wf MAX_DATA_SIZE (ps_data p') \<and> frame_wf g"
proof -
  define g where "g = out\<lparr>fr_command := cmd, fr_sequence := ps_sequence p,
      fr_data := \<lparr>vdata = memcpy (vdata (fr_data out)) 0 (vec_bytes (ps_data p)),
                  vlen = vlen (ps_data p)\<rparr>\<rparr>"
  define p' where "p' = frame_parser_reset (p\<lparr>ps_crc_low := ucast (crc16 (ps_command p # ps_sequence p # vec_bytes (ps_data p))),
      ps_state := PARSER_STATE_WAIT_END\<rparr>)"
  have "feed_all p out (le_bytes 2 (crc16 (ps_command p # ps_sequence p # vec_bytes (ps_data p))) @ END_BYTE # rest)
      = (case feed_all p' g rest of (p'', fs) \<Rightarrow> (p'', g # fs))"
    using assms(2,4) by (simp add: frame_parser_feed_def le_bytes_2 le16_join Let_def p'_def g_def)
  moreover have "vec_bytes (fr_data g) = vec_bytes (ps_data p) \<and> frame_wf g"
    using assms(1,3) by (auto simp: g_def frame_wf_def vec_wf_def vec_bytes_def memcpy_def)
  moreover have "ps_state p' = PARSER_STATE_WAIT_SYNC1 \<and> vec_wf MAX_DATA_SIZE (ps_data p')"
    using assms(1) by (simp add: p'_def frame_parser_reset_def vec_wf_def)
  moreover have "fr_command g = cmd \<and> fr_sequence g = ps_sequence p" by (simp add: g_def)
  ultimately show ?thesis by blast
qed

lemma feed_frame:
  assumes "vec_wf MAX_DATA_SIZE (ps_data p)" "ps_state p = PARSER_STATE_WAIT_SYNC1"
    and "frame_wf out" "frame_wf f"
  shows "\<exists>g p'. feed_all p out (frame_bytes f @ rest) = (case feed_all p' g rest of (p'', fs) \<Rightarrow> (p'', g # fs))
     \<and> same_frame g f \<and> ps_state p' = PARSER_STATE_WAIT_SYNC1
     \<and> vec_wf MAX_DATA_SIZE (ps_data p') \<and> frame_wf g"
proof -
  let ?n = "vlen (fr_data f)" and ?d = "vec_bytes (fr_data f)"
  let ?dl = "of_nat ?n :: u16"
  let ?trail = "le_bytes 2 (crc16 (frame_body f)) @ END_BYTE # rest"
  have n: "?n \<le> 255" "length ?d = ?n" using assms(4) frame_wf_len by (auto simp: frame_wf_def)
  then have dl: "unat ?dl = ?n" by (simp add: unat_of_nat take_bit_nat_eq_self)
  let ?p1 = "after_header p ?dl (command_byte (fr_command f)) (fr_sequence f)"
  have 1: "feed_all p out (frame_bytes f @ rest) = feed_all ?p1 out (?d @ ?trail)"
    using feed_header [of p ?dl out] assms(2) dl n(1) by (simp add: frame_bytes_def frame_body_def)
  have wf1: "vec_wf MAX_DATA_SIZE (ps_data ?p1)" using assms(1) by (simp add: after_header_def vec_wf_def)
  define p2 where "p2 = (if ?d = [] then ?p1 else ?p1\<lparr>ps_data := foldl put_byte (ps_data ?p1) ?d,
      ps_data_idx := ?dl, ps_state := PARSER_STATE_WAIT_CRC_LOW\<rparr>)"
  have 2: "feed_all ?p1 out (?d @ ?trail) = feed_all p2 out ?trail"
  proof (cases "?d = []")
    case True
    then show ?thesis by (simp add: p2_def)
  next
    case False
    then have "?dl \<noteq> 0" using n dl by (metis length_greater_0_conv less_numeral_extra(3) unat_0)
    then show ?thesis
      using feed_data [OF wf1, of ?d out ?trail] False n dl by (simp add: p2_def after_header_def)
  qed
  have p1: "vlen (ps_data ?p1) = 0" "vec_bytes (ps_data ?p1) = []" by (simp_all add: after_header_def vec_bytes_def)
  have p2: "vec_wf MAX_DATA_SIZE (ps_data p2)" "vec_bytes (ps_data p2) = ?d"
    using puts_wf [OF wf1, of ?d] puts_bytes [OF wf1, of ?d] p1 wf1 n by (auto simp: p2_def)
  have st: "ps_state p2 = PARSER_STATE_WAIT_CRC_LOW" "ps_command p2 = command_byte (fr_command f)"
    "ps_sequence p2 = fr_sequence f"
    using n dl by (auto simp: p2_def after_header_def)
  from feed_trailer [OF p2(1) st(1) assms(3) st(2), of rest] show ?thesis
    unfolding 1 2 by (simp add: st p2 same_frame_def frame_body_def)
qed

lemma feed_stream:
  assumes "\<forall>f \<in> set fs. frame_wf f"
    and "vec_wf MAX_DATA_SIZE (ps_data p)" "ps_state p = PARSER_STATE_WAIT_SYNC1" "frame_wf out"
  shows "list_all2 same_frame (snd (feed_all p out (concat (map frame_bytes fs)))) fs
     \<and> ps_state (fst (feed_all p out (concat (map frame_bytes fs)))) = PARSER_STATE_WAIT_SYNC1"
  using assms
proof (induction fs arbitrary: p out)
  case Nil
  then show ?case by simp
next
  case (Cons f fs)
  from feed_frame [OF Cons.prems(2,3,4), of f "concat (map frame_bytes fs)"] Cons.prems(1)
  obtain g p' where "feed_all p out (concat (map frame_bytes (f # fs)))
      = (case feed_all p' g (concat (map frame_bytes fs)) of (p'', gs) \<Rightarrow> (p'', g # gs))"
    and "same_frame g f" "ps_state p' = PARSER_STATE_WAIT_SYNC1"
    and "vec_wf MAX_DATA_SIZE (ps_data p')" "frame_wf g"
    by auto
  with Cons.IH [of p' g] Cons.prems(1) show ?case by (auto split: prod.splits)
qed

section \<open>What the parser has accepted\<close>

definition pending :: "frame_parser \<Rightarrow> bytes" where
  "pending p =
    (let head = [SYNC0, SYNC1] @ le_bytes 2 (ps_data_len p);
         body = [ps_command p, ps_sequence p] @ vec_bytes (ps_data p)
     in case ps_state p of
          PARSER_STATE_WAIT_SYNC1 \<Rightarrow> []
        | PARSER_STATE_WAIT_SYNC2 \<Rightarrow> [SYNC0]
        | PARSER_STATE_WAIT_LEN_LOW \<Rightarrow> [SYNC0, SYNC1]
        | PARSER_STATE_WAIT_LEN_HIGH \<Rightarrow> [SYNC0, SYNC1, ucast (ps_data_len p)]
        | PARSER_STATE_WAIT_COMMAND \<Rightarrow> head
        | PARSER_STATE_WAIT_SEQUENCE \<Rightarrow> head @ [ps_command p]
        | PARSER_STATE_WAIT_DATA \<Rightarrow> head @ body
        | PARSER_STATE_WAIT_CRC_LOW \<Rightarrow> head @ body
        | PARSER_STATE_WAIT_CRC_HIGH \<Rightarrow> head @ body @ [ps_crc_low p]
        | PARSER_STATE_WAIT_END \<Rightarrow> head @ body @ le_bytes 2 (crc16 body))"

text \<open>Feeding a byte extends the accepted bytes by it, or starts over.\<close>

lemma suffix_append_one: "suffix xs ys \<Longrightarrow> suffix (xs @ [b]) (ys @ [b])"
  by (auto simp: suffix_def)

lemma len_high_bytes:
  assumes "unat (w :: u16) \<le> 255"
  shows "le_bytes 2 (w OR push_bit 8 (ucast (b :: byte))) = [ucast w, b]"
proof -
  have w: "ucast (ucast w :: byte) = w" using assms by (intro ucast_ucast_small) simp
  show ?thesis using le_bytes_le_word [of "[ucast w, b]", where ?'a = 16] by (simp add: w le_bytes_2)
qed

lemma feed_pending_data:
  assumes "parser_wf p" "ps_state p = PARSER_STATE_WAIT_DATA"
  shows "pending (fst (frame_parser_feed p b out)) = pending p @ [b]"
proof -
  from assms have wf: "vec_wf MAX_DATA_SIZE (ps_data p)" and "vlen (ps_data p) < MAX_DATA_SIZE"
    by (auto simp: parser_wf_def word_less_nat_alt)
  then have "vec_bytes (put_byte (ps_data p) b) = vec_bytes (ps_data p) @ [b]" by (rule put_byte_bytes)
  then show ?thesis using assms(2) by (simp add: frame_parser_feed_def pending_def Let_def)
qed

lemma crc_high_bytes:
  assumes "(ucast (lo :: byte) :: u16) OR push_bit 8 (ucast (hi :: byte)) = c"
  shows "le_bytes 2 c = [lo, hi]"
  using le_bytes_le_word [of "[lo, hi]", where ?'a = 16] assms by (simp add: le_bytes_2)

lemma feed_pending:
  assumes "parser_wf p"
  shows "pending (fst (frame_parser_feed p b out)) \<in> {pending p @ [b], [], [SYNC0]}
     \<and> (pending (fst (frame_parser_feed p b out)) = [SYNC0] \<longrightarrow> b = SYNC0)"
proof (cases "ps_state p = PARSER_STATE_WAIT_DATA")
  case True
  with assms feed_pending_data [OF assms True] show ?thesis by (auto simp: pending_def Let_def)
next
  case False
  then show ?thesis using assms
    by (cases "ps_state p")
      (auto simp: frame_parser_feed_def frame_parser_reset_def pending_def Let_def parser_wf_def
        le_bytes_2 [symmetric] len_high_bytes crc_high_bytes)
qed

lemma feed_delivers:
  assumes "parser_wf p" "frame_wf out" "frame_parser_feed p b out = (p', Some f)"
  shows "frame_bytes f = pending p @ [b]" "pending p' = []"
proof -
  from assms(3) have st: "ps_state p = PARSER_STATE_WAIT_END"
    by (auto simp: frame_parser_feed_def Let_def split: parser_state.splits if_splits)
  with assms(3) obtain cmd where b: "b = END_BYTE" and cmd: "command_from_byte (ps_command p) = Some cmd"
    and f: "f = out\<lparr>fr_command := cmd, fr_sequence := ps_sequence p,
       fr_data := \<lparr>vdata = memcpy (vdata (fr_data out)) 0 (vec_bytes (ps_data p)), vlen = vlen (ps_data p)\<rparr>\<rparr>"
    and p': "p' = frame_parser_reset p"
    by (auto simp: frame_parser_feed_def split: if_splits option.splits)
  show "pending p' = []" by (simp add: p' pending_def frame_parser_reset_def)
  have len: "of_nat (vlen (ps_data p)) = ps_data_len p" and "vec_wf MAX_DATA_SIZE (ps_data p)"
    using assms(1) st by (auto simp: parser_wf_def)
  then have "frame_body f = [ps_command p, ps_sequence p] @ vec_bytes (ps_data p)"
    using command_from_byte_SomeD [OF cmd]
    by (simp add: f frame_body_def vec_bytes_def memcpy_def vec_wf_def)
  then show "frame_bytes f = pending p @ [b]"
    by (simp add: frame_bytes_def pending_def st b len f)
qed

lemma feed_all_delivers:
  assumes "parser_wf p" "frame_wf out" "suffix (pending p) pre"
    and "f \<in> set (snd (feed_all p out bs))"
  shows "sublist (frame_bytes f) (pre @ bs)"
  using assms
proof (induction bs arbitrary: p out pre)
  case Nil
  then show ?case by simp
next
  case (Cons b bs)
  obtain p' r where step: "frame_parser_feed p b out = (p', r)" by (cases "frame_parser_feed p b out")
  have p': "parser_wf p'" using feed_wf [OF Cons.prems(1), of b out] step by simp
  have suf: "suffix (pending p') (pre @ [b])"
    using feed_pending [OF Cons.prems(1), of b out] step suffix_append_one [OF Cons.prems(3), of b]
    by (auto simp: suffix_def)
  show ?case
  proof (cases r)
    case None
    with Cons.prems(4) step have "f \<in> set (snd (feed_all p' out bs))" by simp
    from Cons.IH [OF p' Cons.prems(2) suf this] show ?thesis by simp
  next
    case (Some g)
    note dl = feed_delivers [OF Cons.prems(1,2) step [unfolded Some]]
    from Cons.prems(4) step Some consider "f = g" | "f \<in> set (snd (feed_all p' g bs))"
      by (auto split: prod.splits)
    then show ?thesis
    proof cases
      case 1
      have "suffix (frame_bytes g) (pre @ [b])"
        using dl(1) suffix_append_one [OF Cons.prems(3)] by simp
      then have "sublist (frame_bytes g) ((pre @ [b]) @ bs)"
        unfolding suffix_def sublist_def by (metis append_assoc)
      with 1 show ?thesis by simp
    next
      case 2
      from Cons.IH [OF p' feed_frame_wf [OF Cons.prems(1,2) step [unfolded Some]] suf this]
      show ?thesis by simp
    qed
  qed
qed

section \<open>Properties\<close>

text \<open>C4. The table-driven CRC of \<^verbatim>\<open>crc16\<close> equals bit-by-bit division by the CCITT polynomial
  0x1021 with initial value 0xFFFF, for every byte string.\<close>

theorem crc16_is_ccitt: "crc16 xs = crc_ref xs"
  by (rule crc16_ref)

text \<open>C4. \<^verbatim>\<open>frame_encode\<close> never writes past its 264-byte buffer, and leaves in it exactly the wire
  format of the frame: sync, length, command, sequence, data, CRC over command to data, end.\<close>

theorem frame_encode_correct:
  assumes "frame_wf f" "vec_wf MAX_FRAME_SIZE out"
  shows "vec_wf MAX_FRAME_SIZE (frame_encode f out)
     \<and> vec_bytes (frame_encode f out) = frame_bytes f
     \<and> length (vec_bytes (frame_encode f out)) = vlen (fr_data f) + 9"
  using frame_encode_bytes [OF assms] length_frame_bytes [OF assms(1)] by simp

theorem frame_encode_correct_witness:
  "frame_wf (frame_new (zeros 255) COMMAND_PONG 7)
   \<and> vec_bytes (frame_encode (frame_new (zeros 255) COMMAND_PONG 7) \<lparr>vdata = zeros 264, vlen = 9\<rparr>)
     = frame_bytes (frame_new (zeros 255) COMMAND_PONG 7)"
proof -
  have f: "frame_wf (frame_new (zeros 255) COMMAND_PONG 7)" by (rule frame_new_wf) simp
  have v: "vec_wf MAX_FRAME_SIZE \<lparr>vdata = zeros 264, vlen = 9\<rparr>" by (simp add: vec_wf_def)
  show ?thesis using f frame_encode_correct [OF f v] by simp
qed

text \<open>C1. A receiver fed the concatenated encodings of any sequence of frames, starting from a
  fresh parser, delivers exactly those frames in that order (same command, sequence and data
  bytes) and is back in its start state.\<close>

theorem frame_stream_roundtrip:
  assumes "\<forall>f \<in> set fs. frame_wf f" "vec_wf MAX_FRAME_SIZE buf"
    and "length junk = MAX_DATA_SIZE" "frame_wf out"
  shows "let (p, gs) = feed_all (frame_parser_new junk) out
                         (concat (map (\<lambda>f. vec_bytes (frame_encode f buf)) fs))
         in list_all2 same_frame gs fs \<and> ps_state p = PARSER_STATE_WAIT_SYNC1"
proof -
  have eq: "map (\<lambda>f. vec_bytes (frame_encode f buf)) fs = map frame_bytes fs"
    using assms(1,2) by (auto intro: frame_encode_bytes)
  have "vec_wf MAX_DATA_SIZE (ps_data (frame_parser_new junk))"
    "ps_state (frame_parser_new junk) = PARSER_STATE_WAIT_SYNC1"
    using assms(3) by (simp_all add: frame_parser_new_def vec_wf_def)
  from feed_stream [OF assms(1) this assms(4)] show ?thesis
    unfolding eq by (auto split: prod.splits)
qed

theorem frame_stream_roundtrip_witness:
  "\<exists>p g h. feed_all (frame_parser_new (zeros 255)) (frame_new (zeros 255) COMMAND_PING 0)
     (concat (map (\<lambda>f. vec_bytes (frame_encode f \<lparr>vdata = zeros 264, vlen = 0\<rparr>))
        [frame_new (zeros 255) COMMAND_PONG 7, frame_new (zeros 255) COMMAND_TX_DONE 8])) = (p, [g, h])
     \<and> fr_command g = COMMAND_PONG \<and> fr_command h = COMMAND_TX_DONE"
proof -
  have wf: "frame_wf (frame_new (zeros 255) c q)" for c q by (rule frame_new_wf) simp
  have v: "vec_wf MAX_FRAME_SIZE \<lparr>vdata = zeros 264, vlen = 0\<rparr>" by (simp add: vec_wf_def)
  show ?thesis
    using frame_stream_roundtrip [of "[frame_new (zeros 255) COMMAND_PONG 7, frame_new (zeros 255) COMMAND_TX_DONE 8]",
        OF _ v _ wf [of COMMAND_PING 0], of "zeros 255"] wf
    by (auto simp: list_all2_Cons2 same_frame_def frame_new_def split: prod.splits)
qed

text \<open>C2. Every frame the parser delivers was really received: its complete encoding, with the
  matching CRC and end marker, occurs contiguously in the byte stream.\<close>

theorem parser_delivers_only_received:
  assumes "length junk = MAX_DATA_SIZE" "frame_wf out"
    and "f \<in> set (snd (feed_all (frame_parser_new junk) out bs))"
  shows "sublist (frame_bytes f) bs"
proof -
  have "pending (frame_parser_new junk) = []" by (simp add: pending_def frame_parser_new_def)
  then show ?thesis
    using feed_all_delivers [OF parser_wf_new [OF assms(1)] assms(2), of "[]"] assms(3) by simp
qed

theorem parser_delivers_only_received_witness:
  "\<exists>g. g \<in> set (snd (feed_all (frame_parser_new (zeros 255)) (frame_new (zeros 255) COMMAND_PING 0)
          (0x01 # frame_bytes (frame_new (zeros 255) COMMAND_PONG 7) @ [0x99])))
     \<and> sublist (frame_bytes g) (0x01 # frame_bytes (frame_new (zeros 255) COMMAND_PONG 7) @ [0x99])"
proof -
  let ?f = "frame_new (zeros 255) COMMAND_PONG 7"
  let ?p = "frame_parser_new (zeros 255)" and ?out = "frame_new (zeros 255) COMMAND_PING 0"
  have wf: "frame_wf (frame_new (zeros 255) c q)" for c q by (rule frame_new_wf) simp
  have p: "vec_wf MAX_DATA_SIZE (ps_data ?p)" "ps_state ?p = PARSER_STATE_WAIT_SYNC1"
    by (simp_all add: frame_parser_new_def vec_wf_def)
  have "feed_all ?p ?out (0x01 # frame_bytes ?f @ [0x99]) = feed_all ?p ?out (frame_bytes ?f @ [0x99])"
    by (simp add: frame_parser_feed_def p)
  then obtain g where g: "g \<in> set (snd (feed_all ?p ?out (0x01 # frame_bytes ?f @ [0x99])))"
    using feed_frame [OF p wf wf, of COMMAND_PING 0 COMMAND_PONG 7 "[0x99]"]
    by (auto split: prod.splits)
  from parser_delivers_only_received [OF _ wf g] g show ?thesis by auto
qed

text \<open>C3. Whatever bytes arrive, the parser never writes past its 255-byte data array (the write
  in state \<open>WAIT_DATA\<close> has no check of its own) and every frame it delivers fits a frame.\<close>

theorem parser_memory_safe:
  assumes "length junk = MAX_DATA_SIZE" "frame_wf out"
  shows "vec_wf MAX_DATA_SIZE (ps_data (fst (feed_all (frame_parser_new junk) out bs)))
     \<and> (\<forall>f \<in> set (snd (feed_all (frame_parser_new junk) out bs)). frame_wf f)"
  using feed_all_wf [OF parser_wf_new [OF assms(1)] assms(2)] by (simp add: parser_wf_def)

theorem parser_memory_safe_witness:
  "vec_wf MAX_DATA_SIZE (ps_data (fst (feed_all (frame_parser_new (zeros 255))
      (frame_new (zeros 255) COMMAND_PING 0) (replicate 600 0xAA @ [0x55, 0xFF, 0x00] @ replicate 300 7))))"
  using parser_memory_safe [of "zeros 255" "frame_new (zeros 255) COMMAND_PING 0"]
  by (simp add: frame_new_wf)

end
