(* ===== verification/Byte_Codec.thy ===== *)
theory Byte_Codec
  imports Lunar_Prelude
begin

unbundle bit_operations_syntax

text \<open>
  The little-endian reads and writes that the wire formats of LunarCore spell out byte by byte
  (\<^verbatim>\<open>b[1] = (uint8_t)((v >> 8) & 0xFF)\<close>, \<^verbatim>\<open>((uint16_t)b[0]) | ((uint16_t)b[1] << 8)\<close>), in the
  form the code has them, with their reduction to the codecs of the prelude.
\<close>

definition put_le16 :: "u16 \<Rightarrow> bytes" where
  "put_le16 v = [ucast (v AND 0xFF), ucast (drop_bit 8 v AND 0xFF)]"

definition put_le32 :: "u32 \<Rightarrow> bytes" where
  "put_le32 v = [ucast (v AND 0xFF), ucast (drop_bit 8 v AND 0xFF),
     ucast (drop_bit 16 v AND 0xFF), ucast (drop_bit 24 v AND 0xFF)]"

definition put_le64 :: "u64 \<Rightarrow> bytes" where
  "put_le64 v = [ucast (v AND 0xFF), ucast (drop_bit 8 v AND 0xFF),
     ucast (drop_bit 16 v AND 0xFF), ucast (drop_bit 24 v AND 0xFF),
     ucast (drop_bit 32 v AND 0xFF), ucast (drop_bit 40 v AND 0xFF),
     ucast (drop_bit 48 v AND 0xFF), ucast (drop_bit 56 v AND 0xFF)]"

definition get_le16 :: "bytes \<Rightarrow> u16" where
  "get_le16 b = ucast (b ! 0) OR push_bit 8 (ucast (b ! 1))"

definition get_le32 :: "bytes \<Rightarrow> u32" where
  "get_le32 b = ucast (b ! 0) OR push_bit 8 (ucast (b ! 1)) OR push_bit 16 (ucast (b ! 2))
     OR push_bit 24 (ucast (b ! 3))"

definition get_le64 :: "bytes \<Rightarrow> u64" where
  "get_le64 b = ucast (b ! 0) OR push_bit 8 (ucast (b ! 1)) OR push_bit 16 (ucast (b ! 2))
     OR push_bit 24 (ucast (b ! 3)) OR push_bit 32 (ucast (b ! 4)) OR push_bit 40 (ucast (b ! 5))
     OR push_bit 48 (ucast (b ! 6)) OR push_bit 56 (ucast (b ! 7))"

lemma put_le_bytes [codec_simps]:
  "put_le16 v = le_bytes 2 v" "put_le32 w = le_bytes 4 w" "put_le64 x = le_bytes 8 x"
  by (simp_all add: put_le16_def put_le32_def put_le64_def numeral_eq_Suc)

lemma push_bit_or: "push_bit n (a OR b :: 'a::len word) = push_bit n a OR push_bit n b"
  by (rule bit_word_eqI) (auto simp: bit_simps)

lemma get_le_word [codec_simps]:
  "length b = 2 \<Longrightarrow> get_le16 b = le_word b" "length b = 4 \<Longrightarrow> get_le32 b = le_word b"
  "length b = 8 \<Longrightarrow> get_le64 b = le_word b"
  by (auto simp: get_le16_def get_le32_def get_le64_def numeral_eq_Suc length_Suc_conv push_bit_or or.assoc)

lemma get_put_le [simp]:
  "get_le16 (le_bytes 2 v) = v" "get_le32 (le_bytes 4 w) = w" "get_le64 (le_bytes 8 x) = x"
  by (simp_all add: codec_simps)

lemma put_get_le [simp]:
  "length b = 2 \<Longrightarrow> le_bytes 2 (get_le16 b) = b" "length b = 4 \<Longrightarrow> le_bytes 4 (get_le32 b) = b"
  "length b = 8 \<Longrightarrow> le_bytes 8 (get_le64 b) = b"
  using le_bytes_le_word [of b, where ?'a = 16] le_bytes_le_word [of b, where ?'a = 32]
    le_bytes_le_word [of b, where ?'a = 64] by (simp_all add: codec_simps)

text \<open>A length that fits its field survives the field.\<close>

lemma unat_of_nat_le16: "n < 65536 \<Longrightarrow> unat (of_nat n :: u16) = n"
  by (simp add: unat_of_nat take_bit_nat_eq_self)

end
