(* ===== verification/Streaming.thy ===== *)
theory Streaming
  imports Lunar_Prelude
begin

text \<open>
  What SHA-256, SHA-512, HMAC and Poly1305 have in common: input arrives in pieces of any size, full
  blocks are folded into a state and the rest waits in a buffer. \<open>absorb\<close> is the reference
  for the blocks; the locale \<open>streaming\<close> is the contract of an
  init/update/finalize interface, from which it follows that only the concatenation of the
  pieces matters.
\<close>

section \<open>Block absorption\<close>

function absorb :: "nat \<Rightarrow> ('s \<Rightarrow> 'a list \<Rightarrow> 's) \<Rightarrow> 's \<Rightarrow> 'a list \<Rightarrow> 's \<times> 'a list" where
  "absorb B f st xs =
     (if B = 0 \<or> length xs < B then (st, xs) else absorb B f (f st (take B xs)) (drop B xs))"
  by pat_completeness auto
termination
  by (relation "measure (\<lambda>(B, f, st, xs). length xs)") auto

declare absorb.simps [simp del]

lemma absorb_short [simp]: "length xs < B \<Longrightarrow> absorb B f st xs = (st, xs)"
  by (simp add: absorb.simps)

lemma absorb_block:
  "0 < B \<Longrightarrow> length blk = B \<Longrightarrow> absorb B f st (blk @ xs) = absorb B f (f st blk) xs"
  by (subst absorb.simps) simp

lemma absorb_one_block: "0 < B \<Longrightarrow> length blk = B \<Longrightarrow> absorb B f st blk = (f st blk, [])"
  using absorb_block [of B blk f st "[]"] by simp

lemma absorb_rest_short: "0 < B \<Longrightarrow> length (snd (absorb B f st xs)) < B"
proof (induction B f st xs rule: absorb.induct)
  case (1 B f st xs)
  then show ?case by (cases "length xs < B") (auto simp: absorb.simps [of B f st xs])
qed

lemma absorb_append:
  assumes "0 < B"
  shows "absorb B f st (xs @ ys) = (case absorb B f st xs of (st', r) \<Rightarrow> absorb B f st' (r @ ys))"
  using assms
proof (induction B f st xs rule: absorb.induct)
  case (1 B f st xs)
  show ?case
  proof (cases "length xs < B")
    case True
    then show ?thesis by simp
  next
    case False
    have "absorb B f st (xs @ ys) = absorb B f (f st (take B xs)) (drop B xs @ ys)"
      using False 1(2) by (subst absorb.simps) simp
    moreover have "absorb B f st xs = absorb B f (f st (take B xs)) (drop B xs)"
      using False 1(2) by (subst absorb.simps) simp
    ultimately show ?thesis using 1 False by simp
  qed
qed

lemma absorb_length_mod: "0 < B \<Longrightarrow> length (snd (absorb B f st xs)) = length xs mod B"
proof (induction B f st xs rule: absorb.induct)
  case (1 B f st xs)
  show ?case
  proof (cases "length xs < B")
    case True
    then show ?thesis by simp
  next
    case False
    with 1 have "length (snd (absorb B f st xs)) = (length xs - B) mod B"
      by (simp add: absorb.simps [of B f st xs])
    with False show ?thesis by (simp add: le_mod_geq)
  qed
qed

section \<open>A block buffer\<close>

text \<open>The shape of the update functions: a partial block in the buffer is completed first, full blocks
  are then taken from the input, and the rest is kept.\<close>

function take_blocks :: "nat \<Rightarrow> ('s \<Rightarrow> 'a list \<Rightarrow> 's) \<Rightarrow> 's \<Rightarrow> 'a list \<Rightarrow> nat \<Rightarrow> 's \<times> nat" where
  "take_blocks B f st xs offset =
     (if 0 < B \<and> offset + B \<le> length xs then take_blocks B f (f st (slice xs offset B)) xs (offset + B) else (st, offset))"
  by pat_completeness auto
termination
  by (relation "measure (\<lambda>(B, f, st, xs, offset). length xs - offset)") auto

declare take_blocks.simps [simp del]

definition buffer_rest :: "nat \<Rightarrow> ('s \<Rightarrow> 'a list \<Rightarrow> 's) \<Rightarrow> 's \<times> 'a list \<times> nat \<Rightarrow> 'a list \<Rightarrow> nat \<Rightarrow> 's \<times> 'a list \<times> nat" where
  "buffer_rest B f x xs offset =
     (let (st, buf, n) = x; (st, offset) = take_blocks B f st xs offset
      in if offset < length xs then (st, memcpy buf 0 (slice xs offset (length xs - offset)), length xs - offset)
         else (st, buf, n))"

definition buffer_update :: "nat \<Rightarrow> ('s \<Rightarrow> 'a list \<Rightarrow> 's) \<Rightarrow> 's \<times> 'a list \<times> nat \<Rightarrow> 'a list \<Rightarrow> 's \<times> 'a list \<times> nat" where
  "buffer_update B f x xs =
     (let (st, buf, n) = x
      in if n > 0 then
           let needed = B - n
           in if length xs \<ge> needed then
                let buf = memcpy buf n (slice xs 0 needed) in buffer_rest B f (f st buf, buf, 0) xs needed
              else (st, memcpy buf n xs, n + length xs)
         else buffer_rest B f (st, buf, n) xs 0)"

definition buffer_inv :: "nat \<Rightarrow> ('s \<Rightarrow> 'a list \<Rightarrow> 's) \<Rightarrow> 's \<Rightarrow> 's \<times> 'a list \<times> nat \<Rightarrow> 'a list \<Rightarrow> bool" where
  "buffer_inv B f st0 x msg \<longleftrightarrow>
     (case x of (st, buf, n) \<Rightarrow> length buf = B \<and> n < B \<and> absorb B f st0 msg = (st, take n buf))"

lemma take_blocks_absorb:
  assumes "0 < B" "offset \<le> length xs" "absorb B f st (drop offset xs) = (st', r)"
  shows "take_blocks B f st xs offset = (st', length xs - length r)
     \<and> drop (length xs - length r) xs = r \<and> length r < B"
  using assms
proof (induction B f st xs offset rule: take_blocks.induct)
  case (1 B f st xs offset)
  show ?case
  proof (cases "offset + B \<le> length xs")
    case True
    have split: "drop offset xs = slice xs offset B @ drop (offset + B) xs"
      by (metis slice_def append_take_drop_id drop_drop add.commute)
    have "absorb B f (f st (slice xs offset B)) (drop (offset + B) xs) = (st', r)"
      using "1.prems" True unfolding split by (subst (asm) absorb_block) auto
    with "1.IH" "1.prems" True show ?thesis by (subst take_blocks.simps) simp
  next
    case False
    then have "st' = st" "r = drop offset xs" using "1.prems" by auto
    with False "1.prems" show ?thesis by (simp add: take_blocks.simps [of B f st xs offset])
  qed
qed

lemma buffer_rest_inv:
  assumes "0 < B" "length buf = B" "offset \<le> length xs"
    and ab: "absorb B f st0 (msg @ xs) = absorb B f st (drop offset xs)"
  shows "buffer_inv B f st0 (buffer_rest B f (st, buf, 0) xs offset) (msg @ xs)"
proof -
  obtain st' r where sr: "absorb B f st (drop offset xs) = (st', r)"
    by (cases "absorb B f st (drop offset xs)")
  from take_blocks_absorb [OF assms(1,3) sr]
  have bl: "take_blocks B f st xs offset = (st', length xs - length r)"
    and r: "drop (length xs - length r) xs = r" "length r < B" by auto
  from r(1) have len: "length r \<le> length xs" by (metis diff_le_self length_drop)
  show ?thesis
  proof (cases "r = []")
    case True
    then show ?thesis using assms sr by (simp add: buffer_rest_def bl buffer_inv_def)
  next
    case False
    then have "length xs - length r < length xs" using len by (cases r; cases xs) auto
    moreover have "slice xs (length xs - length r) (length r) = r" using r(1) by (simp add: slice_def)
    ultimately show ?thesis using assms(2) ab sr r(2) len
      by (simp add: buffer_rest_def bl buffer_inv_def memcpy_def)
  qed
qed

lemma buffer_update_inv:
  assumes B: "0 < B" and inv: "buffer_inv B f st0 (st, buf, n) msg"
  shows "buffer_inv B f st0 (buffer_update B f (st, buf, n) xs) (msg @ xs)"
proof -
  from inv have buf: "length buf = B" "n < B" and ab: "absorb B f st0 msg = (st, take n buf)"
    by (auto simp: buffer_inv_def)
  have app: "absorb B f st0 (msg @ xs) = absorb B f st (take n buf @ xs)"
    using B by (subst absorb_append) (simp_all add: ab)
  consider "n = 0" | "n > 0" "length xs < B - n" | "n > 0" "length xs \<ge> B - n" by linarith
  then show ?thesis
  proof cases
    case 1
    then show ?thesis using buffer_rest_inv [OF B buf(1), of 0 xs f st0 msg st] app by (simp add: buffer_update_def)
  next
    case 2
    then have "length (take n buf @ xs) < B" using buf by simp
    with app have "absorb B f st0 (msg @ xs) = (st, take n buf @ xs)" by simp
    with 2 buf show ?thesis by (simp add: buffer_update_def buffer_inv_def Let_def)
  next
    case 3
    let ?blk = "memcpy buf n (slice xs 0 (B - n))"
    have blk: "?blk = take n buf @ take (B - n) xs" using buf 3 by (simp add: memcpy_def slice_def min_def)
    then have l: "length ?blk = B" using 3 buf by simp
    have "take n buf @ xs = ?blk @ drop (B - n) xs" by (simp add: blk)
    with l have "absorb B f st0 (msg @ xs) = absorb B f (f st ?blk) (drop (B - n) xs)"
      by (metis app absorb_block B)
    with 3 l show ?thesis using buffer_rest_inv [OF B l, of "B - n" xs f st0 msg] by (simp add: buffer_update_def Let_def)
  qed
qed

section \<open>Padding\<close>

text \<open>The end of the hash functions: a one bit, zeros up to the place of the length - in a block of their own when it is passed -
  and the length.\<close>

definition md_finalize :: "nat \<Rightarrow> nat \<Rightarrow> ('s \<Rightarrow> bytes \<Rightarrow> 's) \<Rightarrow> 's \<times> bytes \<times> nat \<Rightarrow> bytes \<Rightarrow> 's" where
  "md_finalize B L f x tb =
     (let (st, buf, n) = x;
          buf = buf[n := 0x80]; n = n + 1;
          (st, buf, n) = (if n > B - L then (let buf = memcpy buf n (zeros (B - n)) in (f st buf, buf, 0)) else (st, buf, n));
          buf = memcpy buf n (zeros (B - L - n));
          buf = memcpy buf (B - L) tb
      in f st buf)"

definition md_pad :: "nat \<Rightarrow> nat \<Rightarrow> nat \<Rightarrow> bytes" where
  "md_pad B L n = [0x80] @ zeros ((2 * B - L - 1 - n mod B) mod B)"

lemma list_update_at_end: "n < length xs \<Longrightarrow> xs[n := x] = take n xs @ [x] @ drop (Suc n) xs"
  by (simp add: upd_conv_take_nth_drop)

lemma pad_zeros:
  "length buf = B \<Longrightarrow> n < m \<Longrightarrow> m \<le> B \<Longrightarrow>
   memcpy (buf[n := 0x80]) (Suc n) (zeros (m - Suc n)) = (take n buf @ [0x80] @ zeros (m - Suc n)) @ drop m buf"
  by (simp add: memcpy_def list_update_at_end drop_Cons')

lemma put_tail: "length xs = k \<Longrightarrow> length ys = length tb \<Longrightarrow> memcpy (xs @ ys) k tb = xs @ tb"
  by (simp add: memcpy_def)

lemma md_finalize_spec:
  assumes L: "0 < L" "L < B" "length tb = L" and inv: "buffer_inv B f st0 (st, buf, n) msg"
  shows "md_finalize B L f (st, buf, n) tb = fst (absorb B f st0 (msg @ md_pad B L (length msg) @ tb))"
proof -
  define pre where "pre = take n buf"
  from inv have buf: "length buf = B" "n < B" and ab: "absorb B f st0 msg = (st, pre)" by (auto simp: buffer_inv_def pre_def)
  have pre: "length pre = n" using buf by (simp add: pre_def)
  have n: "length msg mod B = n" using absorb_length_mod [of B f st0 msg] ab pre L by simp
  have spec: "absorb B f st0 (msg @ md_pad B L (length msg) @ tb) = absorb B f st (pre @ [0x80] @ zeros ((2 * B - L - 1 - n) mod B) @ tb)"
    unfolding md_pad_def n using L by (subst absorb_append) (simp_all add: ab)
  show ?thesis
  proof (cases "n < B - L")
    case True
    then have z: "(2 * B - L - 1 - n) mod B = B - L - Suc n" using L by (simp add: mod_if)
    let ?blk = "pre @ [0x80] @ zeros (B - L - Suc n) @ tb"
    have "memcpy (memcpy (buf[n := 0x80]) (Suc n) (zeros (B - L - Suc n))) (B - L) tb = (pre @ [0x80] @ zeros (B - L - Suc n)) @ tb"
      unfolding pad_zeros [OF buf(1) True, OF diff_le_self] pre_def [symmetric] using True L buf pre by (intro put_tail) auto
    then have "md_finalize B L f (st, buf, n) tb = f st ?blk" using True by (simp add: md_finalize_def)
    moreover have "absorb B f st ?blk = (f st ?blk, [])" using True pre L by (intro absorb_one_block) auto
    ultimately show ?thesis unfolding spec z by simp
  next
    case False
    let ?blk1 = "pre @ [0x80] @ zeros (B - Suc n)" and ?blk2 = "zeros (B - L) @ tb"
    have z: "zeros ((2 * B - L - 1 - n) mod B) = zeros (B - Suc n) @ zeros (B - L)"
      using False buf L by (simp add: zeros_def mod_if mult_2 add.commute flip: replicate_add)
    have 1: "memcpy (buf[n := 0x80]) (Suc n) (zeros (B - Suc n)) = ?blk1" using pad_zeros [OF buf(1,2) order_refl] buf by (simp add: pre_def)
    have l: "length ?blk1 = B" using buf pre by simp
    have 2: "memcpy (memcpy ?blk1 0 (zeros (B - L))) (B - L) tb = ?blk2"
    proof -
      have "memcpy ?blk1 0 (zeros (B - L)) = zeros (B - L) @ drop (B - L) ?blk1" by (simp only: memcpy_def) simp
      then show ?thesis using l L by (simp only:) (intro put_tail; simp)
    qed
    have "md_finalize B L f (st, buf, n) tb = f (f st ?blk1) ?blk2"
      using False 2 by (simp add: md_finalize_def Let_def 1)
    moreover have "absorb B f st (?blk1 @ ?blk2) = (f (f st ?blk1) ?blk2, [])"
      using l L by (simp only: absorb_block absorb_one_block length_append length_zeros)
    ultimately show ?thesis unfolding spec z by simp
  qed
qed

section \<open>The streaming contract\<close>

locale stream_update =
  fixes inv :: "'s \<Rightarrow> bytes \<Rightarrow> bool"
    and update :: "'s \<Rightarrow> bytes \<Rightarrow> 's"
  assumes update_inv: "inv s msg \<Longrightarrow> inv (update s xs) (msg @ xs)"
begin

lemma updates_inv: "inv s msg \<Longrightarrow> inv (foldl update s xss) (msg @ concat xss)"
proof (induction xss arbitrary: s msg)
  case Nil
  then show ?case by simp
next
  case (Cons xs xss)
  from Cons.IH [OF update_inv [OF Cons.prems]] show ?case by simp
qed

end

locale streaming = stream_update inv update
  for inv :: "'s \<Rightarrow> bytes \<Rightarrow> bool" and update :: "'s \<Rightarrow> bytes \<Rightarrow> 's" +
  fixes finalize :: "'s \<Rightarrow> bytes"
    and spec :: "bytes \<Rightarrow> bytes"
  assumes finalize_spec: "inv s msg \<Longrightarrow> finalize s = spec msg"
begin

text \<open>Only the concatenation of the pieces matters.\<close>

lemma stream_spec: "inv s [] \<Longrightarrow> finalize (foldl update s xss) = spec (concat xss)"
  using updates_inv [of s "[]" xss] by (simp add: finalize_spec)

end

end
