(* ===== verification/Sha256.thy ===== *)
theory Sha256
  imports Streaming
begin

unbundle bit_operations_syntax

text \<open>
  SHA-256 of \<^verbatim>\<open>lunar/crypto/sha256.c\<close>: the hasher with its 64-byte buffer, the compression
  of one block, \<^verbatim>\<open>sha256_update\<close> and \<^verbatim>\<open>sha256_finalize\<close> as the code has them, and the proof that
  they compute the padded, block-wise hash of the concatenated input however it is split.
\<close>

section \<open>State and constants\<close>

abbreviation DIGEST_SIZE :: nat where "DIGEST_SIZE \<equiv> 32"
abbreviation BLOCK_SIZE :: nat where "BLOCK_SIZE \<equiv> 64"

definition K :: "u32 list" where
  "K =
     [0x428a2f98, 0x71374491, 0xb5c0fbcf, 0xe9b5dba5, 0x3956c25b, 0x59f111f1, 0x923f82a4, 0xab1c5ed5]
   @ [0xd807aa98, 0x12835b01, 0x243185be, 0x550c7dc3, 0x72be5d74, 0x80deb1fe, 0x9bdc06a7, 0xc19bf174]
   @ [0xe49b69c1, 0xefbe4786, 0x0fc19dc6, 0x240ca1cc, 0x2de92c6f, 0x4a7484aa, 0x5cb0a9dc, 0x76f988da]
   @ [0x983e5152, 0xa831c66d, 0xb00327c8, 0xbf597fc7, 0xc6e00bf3, 0xd5a79147, 0x06ca6351, 0x14292967]
   @ [0x27b70a85, 0x2e1b2138, 0x4d2c6dfc, 0x53380d13, 0x650a7354, 0x766a0abb, 0x81c2c92e, 0x92722c85]
   @ [0xa2bfe8a1, 0xa81a664b, 0xc24b8b70, 0xc76c51a3, 0xd192e819, 0xd6990624, 0xf40e3585, 0x106aa070]
   @ [0x19a4c116, 0x1e376c08, 0x2748774c, 0x34b0bcb5, 0x391c0cb3, 0x4ed8aa4a, 0x5b9cca4f, 0x682e6ff3]
   @ [0x748f82ee, 0x78a5636f, 0x84c87814, 0x8cc70208, 0x90befffa, 0xa4506ceb, 0xbef9a3f7, 0xc67178f2]"

definition H_INIT :: "u32 list" where
  "H_INIT =
  [0x6a09e667, 0xbb67ae85, 0x3c6ef372, 0xa54ff53a,
   0x510e527f, 0x9b05688c, 0x1f83d9ab, 0x5be0cd19]"

record sha256 =
  sh_state :: "u32 list"
  sh_total_len :: u64
  sh_buffer :: bytes
  sh_buffer_len :: nat

section \<open>Helpers\<close>

definition rotate_right :: "u32 \<Rightarrow> nat \<Rightarrow> u32" where
  "rotate_right v count = drop_bit count v OR push_bit (32 - count) v"

definition u32_to_be_bytes :: "u32 \<Rightarrow> bytes" where
  "u32_to_be_bytes v =
     [ucast (drop_bit 24 v AND 0xFF), ucast (drop_bit 16 v AND 0xFF),
      ucast (drop_bit 8 v AND 0xFF), ucast (v AND 0xFF)]"

definition u64_to_be_bytes :: "u64 \<Rightarrow> bytes" where
  "u64_to_be_bytes v =
     [ucast (drop_bit 56 v AND 0xFF), ucast (drop_bit 48 v AND 0xFF),
      ucast (drop_bit 40 v AND 0xFF), ucast (drop_bit 32 v AND 0xFF),
      ucast (drop_bit 24 v AND 0xFF), ucast (drop_bit 16 v AND 0xFF),
      ucast (drop_bit 8 v AND 0xFF), ucast (v AND 0xFF)]"

definition u32_from_be_bytes :: "bytes \<Rightarrow> u32" where
  "u32_from_be_bytes bs =
     push_bit 24 (ucast (bs ! 0)) OR push_bit 16 (ucast (bs ! 1)) OR push_bit 8 (ucast (bs ! 2)) OR ucast (bs ! 3)"

section \<open>Compression of one block\<close>

definition schedule_step :: "u32 list \<Rightarrow> nat \<Rightarrow> u32 list" where
  "schedule_step w i =
     (let s0 = rotate_right (w ! (i - 15)) 7 XOR rotate_right (w ! (i - 15)) 18 XOR drop_bit 3 (w ! (i - 15));
          s1 = rotate_right (w ! (i - 2)) 17 XOR rotate_right (w ! (i - 2)) 19 XOR drop_bit 10 (w ! (i - 2))
      in w @ [w ! (i - 16) + s0 + w ! (i - 7) + s1])"

definition message_schedule :: "bytes \<Rightarrow> u32 list" where
  "message_schedule block =
     foldl schedule_step (map (\<lambda>i. u32_from_be_bytes (drop (i * 4) block)) [0..<16]) [16..<64]"

type_synonym working = "u32 \<times> u32 \<times> u32 \<times> u32 \<times> u32 \<times> u32 \<times> u32 \<times> u32"

definition round_step :: "u32 list \<Rightarrow> working \<Rightarrow> nat \<Rightarrow> working" where
  "round_step w x i =
     (let (a, b, c, d, e, f, g, h) = x;
          s1 = rotate_right e 6 XOR rotate_right e 11 XOR rotate_right e 25;
          ch = (e AND f) XOR (NOT e AND g);
          temp1 = h + s1 + ch + K ! i + w ! i;
          s0 = rotate_right a 2 XOR rotate_right a 13 XOR rotate_right a 22;
          maj = (a AND b) XOR (a AND c) XOR (b AND c);
          temp2 = s0 + maj
      in (temp1 + temp2, a, b, c, d + temp1, e, f, g))"

definition compress :: "u32 list \<Rightarrow> bytes \<Rightarrow> u32 list" where
  "compress st block =
     (let w = message_schedule block;
          (a, b, c, d, e, f, g, h) =
             foldl (round_step w) (st ! 0, st ! 1, st ! 2, st ! 3, st ! 4, st ! 5, st ! 6, st ! 7) [0..<64]
      in [st ! 0 + a, st ! 1 + b, st ! 2 + c, st ! 3 + d, st ! 4 + e, st ! 5 + f, st ! 6 + g, st ! 7 + h])"

definition sha256_process_block :: "sha256 \<Rightarrow> bytes \<Rightarrow> sha256" where
  "sha256_process_block s block = s\<lparr>sh_state := compress (sh_state s) block\<rparr>"

section \<open>Hasher operations\<close>

definition sha256_new :: sha256 where
  "sha256_new = \<lparr>sh_state = H_INIT, sh_total_len = 0, sh_buffer = zeros BLOCK_SIZE, sh_buffer_len = 0\<rparr>"

text \<open>The \<^verbatim>\<open>while (offset + BLOCK_SIZE <= data_len)\<close> loop of \<^verbatim>\<open>sha256_update\<close>.\<close>

function sha256_blocks :: "sha256 \<Rightarrow> bytes \<Rightarrow> nat \<Rightarrow> sha256 \<times> nat" where
  "sha256_blocks s xs offset =
     (if offset + BLOCK_SIZE \<le> length xs
      then sha256_blocks (sha256_process_block s (slice xs offset BLOCK_SIZE)) xs (offset + BLOCK_SIZE)
      else (s, offset))"
  by pat_completeness auto
termination
  by (relation "measure (\<lambda>(s, xs, offset). length xs - offset)") auto

declare sha256_blocks.simps [simp del]

text \<open>The part of \<^verbatim>\<open>sha256_update\<close> from the loop on, with the offset the buffered part left.\<close>

definition sha256_update_from :: "sha256 \<Rightarrow> bytes \<Rightarrow> nat \<Rightarrow> sha256" where
  "sha256_update_from s xs offset =
     (let (s, offset) = sha256_blocks s xs offset;
          s = (if offset < length xs
               then s\<lparr>sh_buffer := memcpy (sh_buffer s) 0 (slice xs offset (length xs - offset)),
                      sh_buffer_len := length xs - offset\<rparr>
               else s)
      in s\<lparr>sh_total_len := sh_total_len s + of_nat (length xs)\<rparr>)"

definition sha256_update :: "sha256 \<Rightarrow> bytes \<Rightarrow> sha256" where
  "sha256_update s xs =
     (if sh_buffer_len s > 0 then
        (let needed = BLOCK_SIZE - sh_buffer_len s
         in if length xs \<ge> needed then
              (let s = s\<lparr>sh_buffer := memcpy (sh_buffer s) (sh_buffer_len s) (slice xs 0 needed)\<rparr>;
                   s = sha256_process_block s (sh_buffer s);
                   s = s\<lparr>sh_buffer_len := 0\<rparr>
               in sha256_update_from s xs needed)
            else s\<lparr>sh_buffer := memcpy (sh_buffer s) (sh_buffer_len s) xs,
                   sh_buffer_len := sh_buffer_len s + length xs,
                   sh_total_len := sh_total_len s + of_nat (length xs)\<rparr>)
      else sha256_update_from s xs 0)"

definition sha256_finalize :: "sha256 \<Rightarrow> sha256 \<times> bytes" where
  "sha256_finalize s =
     (let total_bits = sh_total_len s * 8;
          s = s\<lparr>sh_buffer := (sh_buffer s)[sh_buffer_len s := 0x80], sh_buffer_len := sh_buffer_len s + 1\<rparr>;
          s = (if sh_buffer_len s > 56 then
                 (let s = s\<lparr>sh_buffer := memcpy (sh_buffer s) (sh_buffer_len s) (zeros (BLOCK_SIZE - sh_buffer_len s))\<rparr>;
                      s = sha256_process_block s (sh_buffer s)
                  in s\<lparr>sh_buffer_len := 0\<rparr>)
               else s);
          s = s\<lparr>sh_buffer := memcpy (sh_buffer s) (sh_buffer_len s) (zeros (56 - sh_buffer_len s))\<rparr>;
          s = s\<lparr>sh_buffer := memcpy (sh_buffer s) 56 (u64_to_be_bytes total_bits)\<rparr>;
          s = sha256_process_block s (sh_buffer s)
      in (s, concat (map (\<lambda>i. u32_to_be_bytes (sh_state s ! i)) [0..<8])))"

definition sha256_hash :: "bytes \<Rightarrow> bytes" where
  "sha256_hash xs = snd (sha256_finalize (sha256_update sha256_new xs))"

definition sha256_hash256 :: "bytes \<Rightarrow> bytes" where
  "sha256_hash256 xs = sha256_hash (sha256_hash xs)"

definition sha256_default :: sha256 where
  "sha256_default = sha256_new"

definition sha256_clone :: "sha256 \<Rightarrow> sha256" where
  "sha256_clone src = \<lparr>sh_state = sh_state src, sh_total_len = sh_total_len src,
     sh_buffer = sh_buffer src, sh_buffer_len = sh_buffer_len src\<rparr>"

section \<open>Reference\<close>

text \<open>Padding to whole blocks, and the hash as the fold of the compression over the blocks.\<close>

definition sha256_pad :: "bytes \<Rightarrow> bytes" where
  "sha256_pad msg =
     msg @ [0x80] @ zeros ((119 - length msg mod 64) mod 64) @ be_bytes 8 (of_nat (8 * length msg) :: u64)"

definition digest_of :: "u32 list \<Rightarrow> bytes" where
  "digest_of st = concat (map (\<lambda>i. be_bytes 4 (st ! i)) [0..<8])"

definition sha256_spec :: "bytes \<Rightarrow> bytes" where
  "sha256_spec msg = digest_of (fst (absorb BLOCK_SIZE compress H_INIT (sha256_pad msg)))"

section \<open>The hasher follows the reference\<close>

abbreviation sha256_buffer :: "sha256 \<Rightarrow> u32 list \<times> bytes \<times> nat" where
  "sha256_buffer s \<equiv> (sh_state s, sh_buffer s, sh_buffer_len s)"

definition sha256_inv :: "sha256 \<Rightarrow> bytes \<Rightarrow> bool" where
  "sha256_inv s msg \<longleftrightarrow>
     buffer_inv BLOCK_SIZE compress H_INIT (sha256_buffer s) msg \<and> sh_total_len s = of_nat (length msg)"

lemma sha256_new_inv: "sha256_inv sha256_new []"
  by (simp add: sha256_inv_def buffer_inv_def sha256_new_def)

text \<open>The hasher's loop and update are those of the block buffer.\<close>

lemma sha256_blocks_eq:
  "sha256_blocks s xs offset
     = (let (st, offset) = take_blocks BLOCK_SIZE compress (sh_state s) xs offset in (s\<lparr>sh_state := st\<rparr>, offset))"
proof (induction s xs offset rule: sha256_blocks.induct)
  case (1 s xs offset)
  show ?case
  proof (cases "offset + BLOCK_SIZE \<le> length xs")
    case True
    then show ?thesis using 1 by (subst sha256_blocks.simps, subst take_blocks.simps) (simp add: sha256_process_block_def split_beta Let_def)
  next
    case False
    then show ?thesis by (subst sha256_blocks.simps, subst take_blocks.simps) simp
  qed
qed

lemma sha256_update_buffer:
  "sha256_buffer (sha256_update s xs) = buffer_update BLOCK_SIZE compress (sha256_buffer s) xs"
  "sh_total_len (sha256_update s xs) = sh_total_len s + of_nat (length xs)"
  by (simp_all add: sha256_update_def sha256_update_from_def sha256_blocks_eq buffer_update_def buffer_rest_def
      sha256_process_block_def Let_def split_beta)

lemma sha256_update_inv: "sha256_inv s msg \<Longrightarrow> sha256_inv (sha256_update s xs) (msg @ xs)"
  unfolding sha256_inv_def sha256_update_buffer by (auto intro: buffer_update_inv)

lemma u32_to_be_bytes_eq: "u32_to_be_bytes v = be_bytes 4 v"
  by (simp add: u32_to_be_bytes_def be_bytes_def numeral_eq_Suc)

lemma u64_to_be_bytes_eq: "u64_to_be_bytes v = be_bytes 8 v"
  by (simp add: u64_to_be_bytes_def be_bytes_def numeral_eq_Suc)

lemma sha256_finalize_buffer:
  "snd (sha256_finalize s) = digest_of (md_finalize BLOCK_SIZE 8 compress (sha256_buffer s) (be_bytes 8 (sh_total_len s * 8)))"
  by (simp add: sha256_finalize_def md_finalize_def Let_def sha256_process_block_def digest_of_def u32_to_be_bytes_eq u64_to_be_bytes_eq)

lemma sha256_finalize_spec:
  assumes "sha256_inv s msg"
  shows "snd (sha256_finalize s) = sha256_spec msg"
proof -
  have inv: "buffer_inv BLOCK_SIZE compress H_INIT (sha256_buffer s) msg" and tl: "sh_total_len s = of_nat (length msg)"
    using assms by (simp_all add: sha256_inv_def)
  have "sha256_pad msg = msg @ md_pad BLOCK_SIZE 8 (length msg) @ be_bytes 8 (sh_total_len s * 8)"
    by (simp add: sha256_pad_def md_pad_def tl mult.commute)
  then show ?thesis unfolding sha256_finalize_buffer sha256_spec_def using md_finalize_spec [OF _ _ _ inv, of 8 "be_bytes 8 (sh_total_len s * 8)"] by simp
qed

interpretation sha: streaming sha256_inv sha256_update "\<lambda>s. snd (sha256_finalize s)" sha256_spec
  by unfold_locales (auto intro: sha256_update_inv sha256_finalize_spec)

lemma sha256_hash_spec: "sha256_hash xs = sha256_spec xs"
  using sha.stream_spec [OF sha256_new_inv, of "[xs]"] by (simp add: sha256_hash_def)

lemma length_digest_of [simp]: "length (digest_of st) = DIGEST_SIZE"
  by (simp add: digest_of_def length_concat comp_def sum_list_triv)

lemma length_sha256_hash [simp]: "length (sha256_hash xs) = DIGEST_SIZE"
  by (simp add: sha256_hash_spec sha256_spec_def)

section \<open>Properties\<close>

text \<open>C6. However the input of the hasher is split over \<^verbatim>\<open>sha256_update\<close> calls, finalizing gives
  the SHA-256 construction over the concatenated input: the compression folded over the 64-byte
  blocks of the padded message, as 32 big-endian bytes. In particular one-shot and incremental
  hashing agree.\<close>

theorem sha256_incremental:
  "snd (sha256_finalize (foldl sha256_update sha256_new pieces)) = sha256_spec (concat pieces)
   \<and> sha256_hash (concat pieces) = sha256_spec (concat pieces)
   \<and> length (sha256_hash (concat pieces)) = 32"
  using sha.stream_spec [OF sha256_new_inv, of pieces] by (simp add: sha256_hash_spec sha256_spec_def)

end
