(* ===== verification/Crypto_Util.thy ===== *)
theory Crypto_Util
  imports Lunar_Prelude
begin

unbundle bit_operations_syntax

text \<open>
  The helpers of \<^verbatim>\<open>lunar/crypto/mod.c\<close>: the comparison that does not stop at the first
  difference, and the wiping of key material. The loops are as written; that the comparison
  decides equality and that nothing of a wiped buffer remains are lemmas.
\<close>

section \<open>Comparison and wiping\<close>

text \<open>The accumulator \<^verbatim>\<open>result |= a[i] ^ b[i]\<close> over the first \<open>n\<close> bytes.\<close>

definition ct_diff :: "nat \<Rightarrow> bytes \<Rightarrow> bytes \<Rightarrow> byte" where
  "ct_diff n a b = foldl (\<lambda>result i. result OR (a ! i XOR b ! i)) 0 [0..<n]"

definition constant_time_eq :: "bytes \<Rightarrow> bytes \<Rightarrow> bool" where
  "constant_time_eq a b = (if length a \<noteq> length b then False else ct_diff (length a) a b = 0)"

definition secure_zero :: "bytes \<Rightarrow> bytes" where
  "secure_zero xs = foldl (\<lambda>ys i. ys[i := 0]) xs [0..<length xs]"

definition secure_zero_u32 :: "u32 list \<Rightarrow> u32 list" where
  "secure_zero_u32 xs = foldl (\<lambda>ys i. ys[i := 0]) xs [0..<length xs]"

section \<open>Facts\<close>

lemma ct_diff_Suc: "ct_diff (Suc n) a b = ct_diff n a b OR (a ! n XOR b ! n)"
  by (simp add: ct_diff_def)

lemma xor_eq_0_iff: "(a :: 'a::len word) XOR b = 0 \<longleftrightarrow> a = b"
  by (auto simp: bit_eq_iff bit_xor_iff)

lemma ct_diff_0_iff: "ct_diff n a b = 0 \<longleftrightarrow> (\<forall>i<n. a ! i = b ! i)"
proof (induction n)
  case 0
  show ?case by (simp add: ct_diff_def)
next
  case (Suc n)
  then show ?case by (auto simp: ct_diff_Suc or_eq_0_iff xor_eq_0_iff less_Suc_eq)
qed

lemma ct_diff_take: "n \<le> length a \<Longrightarrow> n \<le> length b \<Longrightarrow> ct_diff n a b = 0 \<longleftrightarrow> take n a = take n b"
  by (auto simp: ct_diff_0_iff list_eq_iff_nth_eq)

lemma constant_time_eq_iff [simp]: "constant_time_eq a b \<longleftrightarrow> a = b"
  by (auto simp: constant_time_eq_def ct_diff_0_iff intro: nth_equalityI)

lemma zero_loop: "n \<le> length xs \<Longrightarrow> foldl (\<lambda>ys i. ys[i := z]) xs [0..<n] = replicate n z @ drop n xs"
proof (induction n)
  case 0
  show ?case by simp
next
  case (Suc n)
  then have "(replicate n z @ drop n xs)[n := z] = replicate n z @ z # drop (Suc n) xs"
    by (simp add: list_update_append Cons_nth_drop_Suc [symmetric])
  with Suc show ?case by (simp add: replicate_append_same flip: replicate_Suc)
qed

lemma secure_zero_eq [simp]: "secure_zero xs = zeros (length xs)"
  by (simp add: secure_zero_def zero_loop zeros_def)

lemma secure_zero_u32_eq [simp]: "secure_zero_u32 xs = replicate (length xs) 0"
  by (simp add: secure_zero_u32_def zero_loop)

end
