(* ===== verification/Hmac.thy ===== *)
theory Hmac
  imports Sha256 Crypto_Util
begin

unbundle bit_operations_syntax

text \<open>
  HMAC-SHA256 of \<^verbatim>\<open>lunar/crypto/hmac.c\<close> and HKDF of \<^verbatim>\<open>lunar/crypto/hkdf.c\<close> with the key
  derivations built on it. The incremental interface is an instance of the \<open>streaming\<close>
  contract, and HKDF computes the extract-and-expand construction. \<^verbatim>\<open>sha256_init\<close> and
  \<^verbatim>\<open>hmac_sha256_init\<close>, which these files call, are the initialisers \<^verbatim>\<open>sha256_new\<close> and
  \<^verbatim>\<open>hmac_sha256_new\<close> the neighbouring files define; calls are read by the role of their arguments.
\<close>

section \<open>HMAC\<close>

record hmac_sha256 =
  hm_inner :: sha256
  hm_outer_key :: bytes

definition hmac_key_block :: "bytes \<Rightarrow> bytes" where
  "hmac_key_block key =
     (if length key > BLOCK_SIZE then memcpy (zeros BLOCK_SIZE) 0 (sha256_hash key)
      else memcpy (zeros BLOCK_SIZE) 0 key)"

definition hmac_sha256_new :: "bytes \<Rightarrow> hmac_sha256" where
  "hmac_sha256_new key =
     (let key_block = hmac_key_block key;
          inner_key = map (\<lambda>i. key_block ! i XOR 0x36) [0..<BLOCK_SIZE];
          outer_key = map (\<lambda>i. key_block ! i XOR 0x5c) [0..<BLOCK_SIZE]
      in \<lparr>hm_inner = sha256_update sha256_new inner_key, hm_outer_key = outer_key\<rparr>)"

definition hmac_sha256_update :: "hmac_sha256 \<Rightarrow> bytes \<Rightarrow> hmac_sha256" where
  "hmac_sha256_update h xs = h\<lparr>hm_inner := sha256_update (hm_inner h) xs\<rparr>"

definition hmac_sha256_finalize :: "hmac_sha256 \<Rightarrow> hmac_sha256 \<times> bytes" where
  "hmac_sha256_finalize h =
     (let (inner, inner_hash) = sha256_finalize (hm_inner h);
          outer = sha256_update sha256_new (hm_outer_key h);
          outer = sha256_update outer inner_hash
      in (h\<lparr>hm_inner := inner\<rparr>, snd (sha256_finalize outer)))"

definition hmac_sha256_mac :: "bytes \<Rightarrow> bytes \<Rightarrow> bytes" where
  "hmac_sha256_mac key xs = snd (hmac_sha256_finalize (hmac_sha256_update (hmac_sha256_new key) xs))"

definition hmac_sha256_verify :: "bytes \<Rightarrow> bytes \<Rightarrow> bytes \<Rightarrow> bool" where
  "hmac_sha256_verify key xs expected = constant_time_eq (hmac_sha256_mac key xs) expected"

definition hmac_sha256_clone :: "hmac_sha256 \<Rightarrow> hmac_sha256" where
  "hmac_sha256_clone src = \<lparr>hm_inner = sha256_clone (hm_inner src), hm_outer_key = hm_outer_key src\<rparr>"

section \<open>HKDF\<close>

definition hkdf_extract :: "bytes \<Rightarrow> bytes \<Rightarrow> bytes" where
  "hkdf_extract salt ikm =
     (let actual_salt = (if length salt = 0 then zeros DIGEST_SIZE else salt)
      in hmac_sha256_mac actual_salt ikm)"

text \<open>One round of the loop of \<^verbatim>\<open>hkdf_expand\<close> on the chaining value, the output and its offset.\<close>

definition hkdf_expand_step :: "bytes \<Rightarrow> bytes \<Rightarrow> nat \<Rightarrow> bytes \<times> bytes \<times> nat \<Rightarrow> nat \<Rightarrow> bytes \<times> bytes \<times> nat" where
  "hkdf_expand_step prk info okm_len x i =
     (let (t, okm, offset) = x;
          hmac = hmac_sha256_new prk;
          hmac = (if i > 1 then hmac_sha256_update hmac t else hmac);
          hmac = hmac_sha256_update hmac info;
          counter = (of_nat i :: byte);
          hmac = hmac_sha256_update hmac [counter];
          t = snd (hmac_sha256_finalize hmac);
          to_copy = (if DIGEST_SIZE < okm_len - offset then DIGEST_SIZE else okm_len - offset)
      in (t, memcpy okm offset (slice t 0 to_copy), offset + to_copy))"

text \<open>\<open>None\<close> is the failed assertion \<^verbatim>\<open>n <= 255\<close>; \<open>okm\<close> is the caller's buffer.\<close>

definition hkdf_expand :: "bytes \<Rightarrow> bytes \<Rightarrow> bytes \<Rightarrow> bytes option" where
  "hkdf_expand prk info okm =
     (let okm_len = length okm; n = (okm_len + DIGEST_SIZE - 1) div DIGEST_SIZE
      in if n \<le> 255
         then Some (fst (snd (foldl (hkdf_expand_step prk info okm_len) (zeros DIGEST_SIZE, okm, 0) [1..<n + 1])))
         else None)"

definition hkdf_derive :: "bytes \<Rightarrow> bytes \<Rightarrow> bytes \<Rightarrow> bytes \<Rightarrow> bytes option" where
  "hkdf_derive salt ikm info okm = hkdf_expand (hkdf_extract salt ikm) info okm"

section \<open>Derivations for the three mesh protocols\<close>

text \<open>ASCII text of a C string literal, without the terminating zero.\<close>

definition ascii :: "string \<Rightarrow> bytes" where
  "ascii s = map (\<lambda>c. of_nat (of_char c)) s"

definition reticulum_full_identity_hash :: "bytes \<Rightarrow> bytes \<Rightarrow> bytes" where
  "reticulum_full_identity_hash signing_key encryption_key =
     (let hasher = sha256_new;
          hasher = sha256_update hasher signing_key;
          hasher = sha256_update hasher encryption_key
      in snd (sha256_finalize hasher))"

definition reticulum_identity_hash :: "bytes \<Rightarrow> bytes \<Rightarrow> bytes" where
  "reticulum_identity_hash signing_key encryption_key =
     (let hasher = sha256_new;
          hasher = sha256_update hasher signing_key;
          hasher = sha256_update hasher encryption_key
      in slice (snd (sha256_finalize hasher)) 0 16)"

record reticulum_link_keys =
  lk_tx_key :: bytes
  lk_rx_key :: bytes

definition reticulum_derive_link_keys :: "bytes \<Rightarrow> bytes \<Rightarrow> bytes \<Rightarrow> bytes \<Rightarrow> reticulum_link_keys option" where
  "reticulum_derive_link_keys shared_secret initiator_pub responder_pub junk =
     (case hkdf_derive (ascii ''reticulum'') shared_secret (initiator_pub @ responder_pub) (slice junk 0 64) of
        None \<Rightarrow> None
      | Some master \<Rightarrow> Some \<lparr>lk_tx_key = slice master 0 32, lk_rx_key = slice master 32 32\<rparr>)"

definition meshcore_derive_channel_key :: "bytes \<Rightarrow> byte \<Rightarrow> bytes \<Rightarrow> bytes option" where
  "meshcore_derive_channel_key psk channel_id key =
     hkdf_derive (ascii ''meshcore'') psk (ascii ''CH'' @ [channel_id]) key"

definition meshcore_derive_node_key :: "bytes \<Rightarrow> bytes \<Rightarrow> bytes \<Rightarrow> bytes option" where
  "meshcore_derive_node_key identity purpose key =
     hkdf_derive (ascii ''meshcore-node'') identity purpose key"

definition meshtastic_derive_channel_key :: "bytes \<Rightarrow> bytes" where
  "meshtastic_derive_channel_key channel_name = sha256_hash channel_name"

definition meshtastic_derive_nonce :: "u32 \<Rightarrow> u32 \<Rightarrow> bytes" where
  "meshtastic_derive_nonce packet_id sender =
     (let n = zeros 16;
          n = n[0 := ucast (packet_id AND 0xFF)];
          n = n[1 := ucast (drop_bit 8 packet_id AND 0xFF)];
          n = n[2 := ucast (drop_bit 16 packet_id AND 0xFF)];
          n = n[3 := ucast (drop_bit 24 packet_id AND 0xFF)];
          n = n[8 := ucast (sender AND 0xFF)];
          n = n[9 := ucast (drop_bit 8 sender AND 0xFF)];
          n = n[10 := ucast (drop_bit 16 sender AND 0xFF)];
          n = n[11 := ucast (drop_bit 24 sender AND 0xFF)]
      in n)"

section \<open>References\<close>

definition hmac_pad_key :: "bytes \<Rightarrow> bytes" where
  "hmac_pad_key key = (let k = (if length key > BLOCK_SIZE then sha256_spec key else key)
     in k @ zeros (BLOCK_SIZE - length k))"

definition hmac_spec :: "bytes \<Rightarrow> bytes \<Rightarrow> bytes" where
  "hmac_spec key msg =
     sha256_spec (map (\<lambda>b. b XOR 0x5c) (hmac_pad_key key)
       @ sha256_spec (map (\<lambda>b. b XOR 0x36) (hmac_pad_key key) @ msg))"

text \<open>The blocks \<open>T(1), T(2), \<dots>\<close> of HKDF-Expand.\<close>

fun hkdf_block :: "bytes \<Rightarrow> bytes \<Rightarrow> nat \<Rightarrow> bytes" where
  "hkdf_block prk info 0 = []"
| "hkdf_block prk info (Suc i) = hmac_spec prk (hkdf_block prk info i @ info @ [of_nat (Suc i)])"

definition hkdf_spec :: "bytes \<Rightarrow> bytes \<Rightarrow> bytes \<Rightarrow> nat \<Rightarrow> bytes" where
  "hkdf_spec salt ikm info n =
     (let prk = hmac_spec (if salt = [] then zeros DIGEST_SIZE else salt) ikm
      in take n (concat (map (hkdf_block prk info) [1..<(n + 31) div 32 + 1])))"

section \<open>HMAC follows the reference\<close>

lemma length_sha256_spec [simp]: "length (sha256_spec xs) = DIGEST_SIZE"
  by (simp add: sha256_spec_def)

lemma length_hmac_spec [simp]: "length (hmac_spec key msg) = DIGEST_SIZE"
  by (simp add: hmac_spec_def)

lemma length_hmac_pad_key [simp]: "length (hmac_pad_key key) = BLOCK_SIZE"
  by (simp add: hmac_pad_key_def Let_def)

lemma hmac_key_block_eq: "hmac_key_block key = hmac_pad_key key"
  by (simp add: hmac_key_block_def hmac_pad_key_def Let_def memcpy_def zeros_def sha256_hash_spec)

lemma map_nth_upto: "length xs = n \<Longrightarrow> map (\<lambda>i. f (xs ! i)) [0..<n] = map f xs"
  by (auto intro: nth_equalityI)

definition hmac_inv :: "bytes \<Rightarrow> hmac_sha256 \<Rightarrow> bytes \<Rightarrow> bool" where
  "hmac_inv key h msg \<longleftrightarrow>
     sha256_inv (hm_inner h) (map (\<lambda>b. b XOR 0x36) (hmac_pad_key key) @ msg)
     \<and> hm_outer_key h = map (\<lambda>b. b XOR 0x5c) (hmac_pad_key key)"

lemma hmac_new_inv: "hmac_inv key (hmac_sha256_new key) []"
  using sha256_update_inv [OF sha256_new_inv, of "map (\<lambda>b. b XOR 0x36) (hmac_pad_key key)"]
  by (simp add: hmac_inv_def hmac_sha256_new_def Let_def hmac_key_block_eq
      map_nth_upto [where f = "\<lambda>b. b XOR 0x36"] map_nth_upto [where f = "\<lambda>b. b XOR 0x5c"])

lemma hmac_update_inv: "hmac_inv key h msg \<Longrightarrow> hmac_inv key (hmac_sha256_update h xs) (msg @ xs)"
  using sha256_update_inv [of "hm_inner h" "map (\<lambda>b. b XOR 0x36) (hmac_pad_key key) @ msg" xs]
  by (simp add: hmac_inv_def hmac_sha256_update_def)

lemma hmac_finalize_spec:
  assumes "hmac_inv key h msg"
  shows "snd (hmac_sha256_finalize h) = hmac_spec key msg"
proof -
  have "snd (sha256_finalize (hm_inner h)) = sha256_spec (map (\<lambda>b. b XOR 0x36) (hmac_pad_key key) @ msg)"
    using assms by (intro sha256_finalize_spec) (simp add: hmac_inv_def)
  moreover have "snd (sha256_finalize (sha256_update (sha256_update sha256_new a) b)) = sha256_spec (a @ b)" for a b
    using sha.stream_spec [OF sha256_new_inv, of "[a, b]"] by simp
  ultimately show ?thesis using assms
    by (simp add: hmac_sha256_finalize_def hmac_spec_def hmac_inv_def split_beta Let_def)
qed

interpretation hmac: streaming "hmac_inv key" hmac_sha256_update "\<lambda>h. snd (hmac_sha256_finalize h)" "hmac_spec key" for key
  by unfold_locales (auto intro: hmac_update_inv hmac_finalize_spec)

lemma hmac_mac_spec: "hmac_sha256_mac key xs = hmac_spec key xs"
  using hmac.stream_spec [OF hmac_new_inv, of key "[xs]"] by (simp add: hmac_sha256_mac_def)

section \<open>HKDF follows the reference\<close>

lemma hkdf_block_length [simp]: "0 < i \<Longrightarrow> length (hkdf_block prk info i) = DIGEST_SIZE"
  by (cases i) auto

lemma hkdf_expand_step_block:
  assumes "t = (if i = 0 then zeros DIGEST_SIZE else hkdf_block prk info i)"
  shows "hkdf_expand_step prk info okm_len (t, okm, offset) (Suc i)
     = (hkdf_block prk info (Suc i),
        memcpy okm offset (take (okm_len - offset) (hkdf_block prk info (Suc i))), offset + min 32 (okm_len - offset))"
proof -
  have "snd (hmac_sha256_finalize (foldl hmac_sha256_update (hmac_sha256_new prk)
      ((if i > 0 then [t] else []) @ [info, [of_nat (Suc i)]]))) = hkdf_block prk info (Suc i)"
    unfolding hmac.stream_spec [OF hmac_new_inv] using assms by (cases i) simp_all
  then show ?thesis
    by (cases i) (auto simp: hkdf_expand_step_def Let_def slice_0_take min_def)
qed

lemma length_concat_blocks: "length (concat (map (hkdf_block prk info) [1..<Suc k])) = 32 * k"
  by (induction k) auto

lemma hkdf_loop:
  "k \<le> (length okm + 31) div 32 \<Longrightarrow>
   foldl (hkdf_expand_step prk info (length okm)) (zeros DIGEST_SIZE, okm, 0) [1..<Suc k]
   = (if k = 0 then zeros DIGEST_SIZE else hkdf_block prk info k,
      take (length okm) (concat (map (hkdf_block prk info) [1..<Suc k])) @ drop (32 * k) okm, min (32 * k) (length okm))"
proof (induction k)
  case 0
  show ?case by simp
next
  case (Suc k)
  let ?c = "concat (map (hkdf_block prk info) [1..<Suc k])"
  have k: "32 * k \<le> length okm" using Suc.prems by linarith
  then have c: "length ?c = 32 * k" "take (length okm) ?c = ?c" by (simp_all only: length_concat_blocks take_all)
  have "memcpy (?c @ drop (32 * k) okm) (32 * k) (take (length okm - 32 * k) (hkdf_block prk info (Suc k)))
     = take (length okm) (?c @ hkdf_block prk info (Suc k)) @ drop (32 * Suc k) okm"
    using k c by (auto simp: memcpy_def min_def)
  with Suc k c show ?case
    by (simp add: hkdf_expand_step_block min_def del: hkdf_block.simps) arith
qed

lemma hkdf_derive_spec:
  assumes "length okm \<le> 8160"
  shows "hkdf_derive salt ikm info okm = Some (hkdf_spec salt ikm info (length okm))"
proof -
  let ?n = "(length okm + 31) div 32"
  have "?n \<le> 255" "length okm \<le> 32 * ?n" using assms by linarith+
  then show ?thesis using hkdf_loop [of ?n okm "hkdf_extract salt ikm" info]
    by (simp add: hkdf_derive_def hkdf_expand_def hkdf_spec_def hkdf_extract_def Let_def hmac_mac_spec
        add.commute [of 31] del: upt_Suc)
qed

lemma length_hkdf_spec [simp]: "length (hkdf_spec salt ikm info n) = n"
proof -
  have "n \<le> 32 * ((n + 31) div 32)" by linarith
  then show ?thesis unfolding hkdf_spec_def Let_def length_take by (simp only: add_Suc_right Suc_eq_plus1 [symmetric] length_concat_blocks min_def if_True simp_thms) auto
qed

section \<open>Properties\<close>

text \<open>C8. HMAC-SHA256 through \<^verbatim>\<open>new\<close>, any sequence of \<^verbatim>\<open>update\<close>s and \<^verbatim>\<open>finalize\<close> is the RFC 2104
  construction over the concatenated pieces, keys longer than a block being hashed first, and
  \<^verbatim>\<open>hmac_sha256_verify\<close> accepts exactly that tag.\<close>

theorem hmac_incremental:
  "snd (hmac_sha256_finalize (foldl hmac_sha256_update (hmac_sha256_new key) pieces)) = hmac_spec key (concat pieces)
   \<and> (hmac_sha256_verify key (concat pieces) tag \<longleftrightarrow> tag = hmac_spec key (concat pieces))"
  using hmac.stream_spec [OF hmac_new_inv, of key pieces] by (auto simp: hmac_sha256_verify_def hmac_mac_spec)

text \<open>C7. \<^verbatim>\<open>hkdf_derive\<close> fills the whole output buffer with the RFC 5869 key material
  whenever at most 255 blocks are asked for, whatever the buffer held, and aborts at the
  assertion otherwise.\<close>

theorem hkdf_derive_correct:
  "hkdf_derive salt ikm info okm =
     (if length okm \<le> 255 * 32 then Some (hkdf_spec salt ikm info (length okm)) else None)
   \<and> length (hkdf_spec salt ikm info (length okm)) = length okm"
proof (cases "length okm \<le> 8160")
  case False
  then have "\<not> (length okm + 31) div 32 \<le> 255" by linarith
  with False show ?thesis by (simp add: hkdf_derive_def hkdf_expand_def Let_def)
qed (simp add: hkdf_derive_spec)

end
