(* ===== verification/Contact.thy ===== *)
theory Contact
  imports Vec_Helpers Byte_Codec Hmac
begin

text \<open>
  Contacts of \<^verbatim>\<open>lunar/contact.c\<close>: the signed introduction (\<^verbatim>\<open>ContactHello\<close>) with its wire
  format, QR form and fingerprint, and the contact record with its stored form. The
  encoders write into the silently saturating vectors of \<^verbatim>\<open>vec_helpers.c\<close>; the decoders read
  through checked reads, so that a read outside the input would be the outcome \<open>Oob\<close>.

  The Ed25519 primitives are arguments of the two operations that call them.
\<close>

section \<open>Data\<close>

abbreviation CONTACT_HELLO_VERSION :: byte where "CONTACT_HELLO_VERSION \<equiv> 0x03"
abbreviation MAX_CONTACTS :: nat where "MAX_CONTACTS \<equiv> 64"

datatype trust_level =
  TRUST_LEVEL_UNKNOWN | TRUST_LEVEL_SEEN | TRUST_LEVEL_VERIFIED | TRUST_LEVEL_TRUSTED

fun trust_byte :: "trust_level \<Rightarrow> byte" where
  "trust_byte TRUST_LEVEL_UNKNOWN = 0"
| "trust_byte TRUST_LEVEL_SEEN = 1"
| "trust_byte TRUST_LEVEL_VERIFIED = 2"
| "trust_byte TRUST_LEVEL_TRUSTED = 3"

record contact_hello =
  ch_version :: byte
  ch_timestamp :: u64
  ch_did :: vec
  ch_ed25519_public :: bytes
  ch_x25519_public :: bytes
  ch_name :: vec
  ch_avatar_hash :: bytes
  ch_signature :: bytes

record contact =
  ct_hello :: contact_hello
  ct_trust :: trust_level
  ct_petname :: vec
  ct_last_seen :: u64
  ct_message_count :: u32

text \<open>A vector declared on the stack; its initialiser overwrites both fields.\<close>

definition stack_vec :: vec where
  "stack_vec = \<lparr>vdata = [], vlen = 0\<rparr>"

section \<open>ContactHello\<close>

definition contact_hello_new ::
  "contact_hello \<Rightarrow> u64 \<Rightarrow> bytes \<Rightarrow> bytes \<Rightarrow> bytes \<Rightarrow> bytes \<Rightarrow> bytes option \<Rightarrow> contact_hello_error \<times> contact_hello"
where
  "contact_hello_new hello timestamp did ed25519_public x25519_public name avatar_hash =
     (if length did > MAX_DID_LENGTH then (CONTACT_HELLO_ERROR_DID_TOO_LONG, hello)
      else if length name > MAX_NAME_LENGTH then (CONTACT_HELLO_ERROR_NAME_TOO_LONG, hello)
      else
        let hello = hello\<lparr>ch_did := heapless_vec128_init (ch_did hello)\<rparr>;
            (err, v) = heapless_vec128_extend_from_slice (ch_did hello) did;
            hello = hello\<lparr>ch_did := v\<rparr>
        in if err \<noteq> CONTACT_HELLO_ERROR_NONE then (err, hello)
        else
          let hello = hello\<lparr>ch_name := heapless_vec64_init (ch_name hello)\<rparr>;
              (err, v) = heapless_vec64_extend_from_slice (ch_name hello) name;
              hello = hello\<lparr>ch_name := v\<rparr>
          in if err \<noteq> CONTACT_HELLO_ERROR_NONE then (err, hello)
          else (CONTACT_HELLO_ERROR_NONE,
                hello\<lparr>ch_version := CONTACT_HELLO_VERSION, ch_timestamp := timestamp,
                  ch_ed25519_public := ed25519_public, ch_x25519_public := x25519_public,
                  ch_avatar_hash := (case avatar_hash of Some a \<Rightarrow> a | None \<Rightarrow> zeros 32),
                  ch_signature := zeros 64\<rparr>))"

definition contact_hello_encode_for_signing :: "contact_hello \<Rightarrow> vec" where
  "contact_hello_encode_for_signing hello =
     (let buf = heapless_vec256_init stack_vec;
          buf = heapless_vec256_push buf (ch_version hello);
          buf = heapless_vec256_extend_from_slice buf (put_le64 (ch_timestamp hello));
          did_len = (of_nat (vlen (ch_did hello)) :: u16);
          buf = heapless_vec256_extend_from_slice buf (put_le16 did_len);
          buf = heapless_vec256_extend_from_slice buf (slice (vdata (ch_did hello)) 0 (vlen (ch_did hello)));
          buf = heapless_vec256_extend_from_slice buf (ch_ed25519_public hello);
          buf = heapless_vec256_extend_from_slice buf (ch_x25519_public hello);
          buf = heapless_vec256_push buf (of_nat (vlen (ch_name hello)));
          buf = heapless_vec256_extend_from_slice buf (slice (vdata (ch_name hello)) 0 (vlen (ch_name hello)))
      in heapless_vec256_extend_from_slice buf (ch_avatar_hash hello))"

definition contact_hello_sign :: "(bytes \<Rightarrow> bytes \<Rightarrow> bytes) \<Rightarrow> contact_hello \<Rightarrow> bytes \<Rightarrow> contact_hello" where
  "contact_hello_sign ed25519_sign hello private_key =
     (let data_to_sign = contact_hello_encode_for_signing hello
      in hello\<lparr>ch_signature := ed25519_sign private_key (slice (vdata data_to_sign) 0 (vlen data_to_sign))\<rparr>)"

definition contact_hello_verify ::
  "(bytes \<Rightarrow> bytes \<Rightarrow> bytes \<Rightarrow> bool) \<Rightarrow> contact_hello \<Rightarrow> contact_hello_error \<times> bool" where
  "contact_hello_verify ed25519_verify hello =
     (let d = contact_hello_encode_for_signing hello
      in (CONTACT_HELLO_ERROR_NONE,
          ed25519_verify (ch_ed25519_public hello) (slice (vdata d) 0 (vlen d)) (ch_signature hello)))"

definition contact_hello_encode :: "contact_hello \<Rightarrow> vec" where
  "contact_hello_encode hello =
     (let signed_data = contact_hello_encode_for_signing hello;
          buf = heapless_vec512_init stack_vec;
          buf = heapless_vec512_extend_from_slice buf (slice (vdata signed_data) 0 (vlen signed_data))
      in heapless_vec512_extend_from_slice buf (ch_signature hello))"

text \<open>The decoder. The reads up to the identifier rely on the minimum-size check; each later
  field has its own check, as in the code.\<close>

definition contact_hello_decode :: "bytes \<Rightarrow> (contact_hello_error, contact_hello) cresult" where
  "contact_hello_decode d =
     (if length d < 1 + 8 + 2 + 32 + 32 + 1 + 32 + 64 then Err CONTACT_HELLO_ERROR_INVALID_FORMAT else
      read_n d 0 1 (\<lambda>b. let version = b ! 0 in
      if version \<noteq> CONTACT_HELLO_VERSION then Err CONTACT_HELLO_ERROR_INVALID_VERSION else
      read_n d 1 8 (\<lambda>ts_bytes. let timestamp = get_le64 ts_bytes in
      read_n d 9 2 (\<lambda>did_len_bytes. let did_len = unat (get_le16 did_len_bytes); pos = 11 in
      if did_len > MAX_DID_LENGTH \<or> pos + did_len > length d then Err CONTACT_HELLO_ERROR_DID_TOO_LONG else
      read_n d pos did_len (\<lambda>did_bytes.
      let (err, did) = heapless_vec128_extend_from_slice (heapless_vec128_init stack_vec) did_bytes in
      if err \<noteq> CONTACT_HELLO_ERROR_NONE then Err err else
      let pos = pos + did_len in
      if pos + 32 > length d then Err CONTACT_HELLO_ERROR_INVALID_FORMAT else
      read_n d pos 32 (\<lambda>ed25519_public. let pos = pos + 32 in
      if pos + 32 > length d then Err CONTACT_HELLO_ERROR_INVALID_FORMAT else
      read_n d pos 32 (\<lambda>x25519_public. let pos = pos + 32 in
      if pos \<ge> length d then Err CONTACT_HELLO_ERROR_INVALID_FORMAT else
      read_n d pos 1 (\<lambda>b. let name_len = unat (b ! 0); pos = pos + 1 in
      if name_len > MAX_NAME_LENGTH \<or> pos + name_len > length d then Err CONTACT_HELLO_ERROR_NAME_TOO_LONG else
      read_n d pos name_len (\<lambda>name_bytes.
      let (err, name) = heapless_vec64_extend_from_slice (heapless_vec64_init stack_vec) name_bytes in
      if err \<noteq> CONTACT_HELLO_ERROR_NONE then Err err else
      let pos = pos + name_len in
      if pos + 32 > length d then Err CONTACT_HELLO_ERROR_INVALID_FORMAT else
      read_n d pos 32 (\<lambda>avatar_hash. let pos = pos + 32 in
      if pos + 64 > length d then Err CONTACT_HELLO_ERROR_INVALID_FORMAT else
      read_n d pos 64 (\<lambda>signature.
      Ok \<lparr>ch_version = version, ch_timestamp = timestamp, ch_did = did,
          ch_ed25519_public = ed25519_public, ch_x25519_public = x25519_public, ch_name = name,
          ch_avatar_hash = avatar_hash, ch_signature = signature\<rparr>)))))))))))"

definition contact_hello_to_qr_data :: "contact_hello \<Rightarrow> vec" where
  "contact_hello_to_qr_data hello =
     (let buf = heapless_vec512_init stack_vec;
          buf = heapless_vec512_extend_from_slice buf (ascii ''YCH:'');
          encoded = contact_hello_encode hello
      in heapless_vec512_extend_from_slice buf (slice (vdata encoded) 0 (vlen encoded)))"

definition contact_hello_from_qr_data :: "bytes \<Rightarrow> (contact_hello_error, contact_hello) cresult" where
  "contact_hello_from_qr_data d =
     (if length d < 4 \<or> take 4 d \<noteq> ascii ''YCH:'' then Err CONTACT_HELLO_ERROR_INVALID_FORMAT
      else contact_hello_decode (drop 4 d))"

definition contact_hello_fingerprint :: "contact_hello \<Rightarrow> bytes" where
  "contact_hello_fingerprint hello = slice (sha256_hash (ch_ed25519_public hello)) 0 8"

section \<open>Contact\<close>

definition contact_from_hello :: "contact \<Rightarrow> contact_hello \<Rightarrow> contact" where
  "contact_from_hello c hello =
     c\<lparr>ct_hello := hello, ct_trust := TRUST_LEVEL_UNKNOWN, ct_petname := heapless_vec64_init (ct_petname c),
       ct_last_seen := 0, ct_message_count := 0\<rparr>"

definition contact_set_petname :: "contact \<Rightarrow> bytes \<Rightarrow> contact" where
  "contact_set_petname c name =
     c\<lparr>ct_petname := snd (heapless_vec64_extend_from_slice (heapless_vec64_clear (ct_petname c)) name)\<rparr>"

definition contact_display_name :: "contact \<Rightarrow> bytes" where
  "contact_display_name c =
     (if vlen (ct_petname c) > 0 then slice (vdata (ct_petname c)) 0 (vlen (ct_petname c))
      else slice (vdata (ch_name (ct_hello c))) 0 (vlen (ch_name (ct_hello c))))"

definition contact_serialize :: "contact \<Rightarrow> vec" where
  "contact_serialize c =
     (let buf = heapless_vec512_init stack_vec;
          hello_encoded = contact_hello_encode (ct_hello c);
          hello_len = (of_nat (vlen hello_encoded) :: u16);
          buf = heapless_vec512_extend_from_slice buf (put_le16 hello_len);
          buf = heapless_vec512_extend_from_slice buf (slice (vdata hello_encoded) 0 (vlen hello_encoded));
          buf = heapless_vec512_push buf (trust_byte (ct_trust c));
          buf = heapless_vec512_push buf (of_nat (vlen (ct_petname c)));
          buf = heapless_vec512_extend_from_slice buf (slice (vdata (ct_petname c)) 0 (vlen (ct_petname c)));
          buf = heapless_vec512_extend_from_slice buf (put_le64 (ct_last_seen c))
      in heapless_vec512_extend_from_slice buf (put_le32 (ct_message_count c)))"

definition trust_from_byte :: "byte \<Rightarrow> trust_level" where
  "trust_from_byte b =
     (if b = 0 then TRUST_LEVEL_UNKNOWN else if b = 1 then TRUST_LEVEL_SEEN
      else if b = 2 then TRUST_LEVEL_VERIFIED else if b = 3 then TRUST_LEVEL_TRUSTED
      else TRUST_LEVEL_UNKNOWN)"

text \<open>\<open>Err ()\<close> is the result \<^verbatim>\<open>false\<close>.\<close>

definition contact_deserialize :: "bytes \<Rightarrow> (unit, contact) cresult" where
  "contact_deserialize d =
     (if length d < 2 then Err () else
      read_n d 0 2 (\<lambda>hello_len_bytes. let hello_len = unat (get_le16 hello_len_bytes); pos = 2 in
      if pos + hello_len > length d then Err () else
      read_n d pos hello_len (\<lambda>hello_bytes.
      case contact_hello_decode hello_bytes of Err e \<Rightarrow> Err () | Oob \<Rightarrow> Oob | Ok hello \<Rightarrow>
      let pos = pos + hello_len in
      if pos \<ge> length d then Err () else
      read_n d pos 1 (\<lambda>b. let trust = trust_from_byte (b ! 0); pos = pos + 1 in
      if pos \<ge> length d then Err () else
      read_n d pos 1 (\<lambda>b. let petname_len = unat (b ! 0); pos = pos + 1 in
      if pos + petname_len > length d then Err () else
      read_n d pos petname_len (\<lambda>petname_bytes.
      let petname = snd (heapless_vec64_extend_from_slice (heapless_vec64_init stack_vec) petname_bytes);
          pos = pos + petname_len in
      if pos + 8 > length d then Err () else
      read_n d pos 8 (\<lambda>last_seen_bytes. let last_seen = get_le64 last_seen_bytes; pos = pos + 8 in
      if pos + 4 > length d then Err () else
      read_n d pos 4 (\<lambda>count_bytes.
      Ok \<lparr>ct_hello = hello, ct_trust = trust, ct_petname = petname, ct_last_seen = last_seen,
          ct_message_count = get_le32 count_bytes\<rparr>))))))))"

definition contact_key :: "contact \<Rightarrow> bytes" where
  "contact_key c = contact_hello_fingerprint (ct_hello c)"

section \<open>Well-formedness and wire layout\<close>

definition hello_wf :: "contact_hello \<Rightarrow> bool" where
  "hello_wf h \<longleftrightarrow> vec_wf MAX_DID_LENGTH (ch_did h) \<and> vec_wf MAX_NAME_LENGTH (ch_name h)
     \<and> length (ch_ed25519_public h) = 32 \<and> length (ch_x25519_public h) = 32
     \<and> length (ch_avatar_hash h) = 32 \<and> length (ch_signature h) = 64"

definition contact_wf :: "contact \<Rightarrow> bool" where
  "contact_wf c \<longleftrightarrow> hello_wf (ct_hello c) \<and> vec_wf MAX_NAME_LENGTH (ct_petname c)"

text \<open>The fields in wire order.\<close>

definition hello_pieces :: "contact_hello \<Rightarrow> bytes list" where
  "hello_pieces h =
     [[ch_version h], le_bytes 8 (ch_timestamp h), le_bytes 2 (of_nat (vlen (ch_did h)) :: u16), vec_bytes (ch_did h),
      ch_ed25519_public h, ch_x25519_public h, [of_nat (vlen (ch_name h))], vec_bytes (ch_name h), ch_avatar_hash h]"

text \<open>A vector as a decoder builds it: the contents followed by zeros.\<close>

definition vec_of :: "nat \<Rightarrow> bytes \<Rightarrow> vec" where
  "vec_of cap xs = \<lparr>vdata = xs @ zeros (cap - length xs), vlen = length xs\<rparr>"

definition canon_hello :: "contact_hello \<Rightarrow> contact_hello" where
  "canon_hello h = h\<lparr>ch_did := vec_of MAX_DID_LENGTH (vec_bytes (ch_did h)),
     ch_name := vec_of MAX_NAME_LENGTH (vec_bytes (ch_name h))\<rparr>"

definition canon_contact :: "contact \<Rightarrow> contact" where
  "canon_contact c = c\<lparr>ct_hello := canon_hello (ct_hello c),
     ct_petname := vec_of MAX_NAME_LENGTH (vec_bytes (ct_petname c))\<rparr>"

lemma vec_of_wf [simp]: "length xs \<le> cap \<Longrightarrow> vec_wf cap (vec_of cap xs)"
  by (simp add: vec_of_def vec_wf_def)

lemma vec_of_bytes [simp]: "vec_bytes (vec_of cap xs) = xs"
  by (simp add: vec_of_def vec_bytes_def)

lemma vlen_vec_of [simp]: "vlen (vec_of cap xs) = length xs"
  by (simp add: vec_of_def)

lemma slice_vec: "slice (vdata v) 0 (vlen v) = vec_bytes v"
  by (simp add: slice_def vec_bytes_def)

lemma vec128_fresh:
  "length xs \<le> MAX_DID_LENGTH \<Longrightarrow> heapless_vec128_extend_from_slice (heapless_vec128_init v) xs
     = (CONTACT_HELLO_ERROR_NONE, vec_of MAX_DID_LENGTH xs)"
  by (simp add: heapless_vec128_extend_from_slice_def heapless_vec128_init_def vec_of_def memcpy_def zeros_def)

lemma vec64_fresh:
  "length xs \<le> MAX_NAME_LENGTH \<Longrightarrow> heapless_vec64_extend_from_slice (heapless_vec64_init v) xs
     = (CONTACT_HELLO_ERROR_NONE, vec_of MAX_NAME_LENGTH xs)"
  by (simp add: heapless_vec64_extend_from_slice_def heapless_vec64_init_def vec_of_def memcpy_def zeros_def)

lemmas read_simps = read_n_def Let_def vec128_fresh vec64_fresh

section \<open>What the encoders write\<close>

lemma signing_fold:
  "contact_hello_encode_for_signing h
     = foldl heapless_vec256_extend_from_slice (heapless_vec256_init stack_vec) (hello_pieces h)"
  by (simp add: contact_hello_encode_for_signing_def hello_pieces_def Let_def put_le_bytes slice_vec
      v256.push_extend v256.extend_wf)

lemma signing_wf: "vec_wf 256 (contact_hello_encode_for_signing h)"
  unfolding signing_fold by (intro v256.extends_wf) simp

lemma signing_bytes:
  "vec_bytes (contact_hello_encode_for_signing h) = v256.accepted 0 (hello_pieces h)"
  unfolding signing_fold by (subst v256.extends_accepted) simp_all

lemma length_hello_pieces:
  "hello_wf h \<Longrightarrow> length (concat (hello_pieces h)) = 108 + vlen (ch_did h) + vlen (ch_name h)"
  by (auto simp: hello_pieces_def hello_wf_def)

lemma accepted_all: "n + length (concat xss) \<le> 256 \<Longrightarrow> v256.accepted n xss = concat xss"
  by (induction xss arbitrary: n) auto

lemma signing_bytes_fit:
  "hello_wf h \<Longrightarrow> vlen (ch_did h) + vlen (ch_name h) \<le> 148 \<Longrightarrow>
   vec_bytes (contact_hello_encode_for_signing h) = concat (hello_pieces h)"
  unfolding signing_bytes by (intro accepted_all) (simp add: length_hello_pieces)

lemma encode_wf: "vec_wf 512 (contact_hello_encode h)"
  by (simp add: contact_hello_encode_def Let_def v512.extend_wf)

lemma encode_bytes:
  assumes "hello_wf h"
  shows "vec_bytes (contact_hello_encode h) = v256.accepted 0 (hello_pieces h) @ ch_signature h"
proof -
  have "contact_hello_encode h = foldl heapless_vec512_extend_from_slice (heapless_vec512_init stack_vec)
      [v256.accepted 0 (hello_pieces h), ch_signature h]"
    by (simp add: contact_hello_encode_def Let_def slice_vec signing_bytes)
  moreover have "length (v256.accepted 0 (hello_pieces h)) \<le> 256"
    using signing_bytes [of h] signing_wf [of h] by (metis length_vec_bytes vec_len_le)
  ultimately show ?thesis
    using assms by (simp only: v512.extends_fit) (subst v512.extends_fit, auto simp: hello_wf_def)
qed

section \<open>What the decoder accepts\<close>

lemma decode_fields:
  assumes "hello_wf h" "ch_version h = CONTACT_HELLO_VERSION"
  shows "contact_hello_decode (concat (hello_pieces h) @ ch_signature h @ rest) = Ok (canon_hello h)"
proof -
  from assms have *: "length (vec_bytes (ch_did h)) = vlen (ch_did h)" "vlen (ch_did h) \<le> 128"
    "length (vec_bytes (ch_name h)) = vlen (ch_name h)" "vlen (ch_name h) \<le> 64"
    by (auto simp: hello_wf_def dest: vec_len_le)
  then have "unat (of_nat (vlen (ch_did h)) :: u16) = vlen (ch_did h)"
    "unat (of_nat (vlen (ch_name h)) :: byte) = vlen (ch_name h)"
    by (simp_all add: unat_of_nat_le16 unat_of_nat_byte)
  with * assms show ?thesis
    by (simp add: contact_hello_decode_def hello_pieces_def hello_wf_def read_simps canon_hello_def)
qed

text \<open>When identifier and name together exceed 148 bytes, the 256-byte buffer silently drops the
  avatar hash or the name, and the decoder rejects what was written.\<close>

lemma signing_bytes_truncated:
  assumes "hello_wf h" "148 < vlen (ch_did h) + vlen (ch_name h)"
  shows "v256.accepted 0 (hello_pieces h)
    = concat (take 7 (hello_pieces h)) @ (if vlen (ch_did h) + vlen (ch_name h) \<le> 180 then vec_bytes (ch_name h)
        else ch_avatar_hash h)"
proof -
  from assms have "length (vec_bytes (ch_did h)) = vlen (ch_did h)" "vlen (ch_did h) \<le> 128"
    "length (vec_bytes (ch_name h)) = vlen (ch_name h)"
    by (auto simp: hello_wf_def dest: vec_len_le)
  with assms show ?thesis by (simp add: hello_pieces_def hello_wf_def)
qed

lemma decode_truncated:
  assumes "hello_wf h" "ch_version h = CONTACT_HELLO_VERSION" "148 < vlen (ch_did h) + vlen (ch_name h)"
    and "length tail = (if vlen (ch_did h) + vlen (ch_name h) \<le> 180 then vlen (ch_name h) else 32)"
  shows "contact_hello_decode (concat (take 7 (hello_pieces h)) @ tail @ ch_signature h)
    = Err CONTACT_HELLO_ERROR_INVALID_FORMAT"
proof -
  from assms have *: "length (vec_bytes (ch_did h)) = vlen (ch_did h)" "vlen (ch_did h) \<le> 128"
    "length (vec_bytes (ch_name h)) = vlen (ch_name h)" "vlen (ch_name h) \<le> 64"
    by (auto simp: hello_wf_def dest: vec_len_le)
  then have "unat (of_nat (vlen (ch_did h)) :: u16) = vlen (ch_did h)"
    "unat (of_nat (vlen (ch_name h)) :: byte) = vlen (ch_name h)"
    by (simp_all add: unat_of_nat_le16 unat_of_nat_byte)
  with * assms show ?thesis
    by (auto simp: contact_hello_decode_def hello_pieces_def hello_wf_def read_simps)
qed

lemma decode_encode:
  assumes "hello_wf h" "ch_version h = CONTACT_HELLO_VERSION"
  shows "contact_hello_decode (vec_bytes (contact_hello_encode h)) =
     (if vlen (ch_did h) + vlen (ch_name h) \<le> 148 then Ok (canon_hello h)
      else Err CONTACT_HELLO_ERROR_INVALID_FORMAT)"
proof (cases "vlen (ch_did h) + vlen (ch_name h) \<le> 148")
  case True
  then have "v256.accepted 0 (hello_pieces h) = concat (hello_pieces h)"
    using assms by (intro accepted_all) (simp add: length_hello_pieces)
  with True assms decode_fields [of h "[]"] show ?thesis by (simp add: encode_bytes)
next
  case False
  from assms have "length (vec_bytes (ch_name h)) = vlen (ch_name h)" "length (ch_avatar_hash h) = 32"
    by (auto simp: hello_wf_def)
  with False assms decode_truncated [OF assms] show ?thesis
    by (simp add: encode_bytes signing_bytes_truncated)
qed

lemma slice_join: "slice d p a @ slice d (p + a) b @ xs = slice d p (a + b) @ xs"
  by (simp add: slice_def take_add add.commute [of p])

lemma decode_cases:
  "contact_hello_decode d = Ok h \<Longrightarrow> hello_wf h \<and> ch_version h = CONTACT_HELLO_VERSION"
  "contact_hello_decode d \<noteq> Oob"
  by (auto simp: contact_hello_decode_def read_simps hello_wf_def slice_nth not_less not_le
      split: if_splits)

text \<open>An accepted message starts with the wire form of what was decoded from it.\<close>

lemma decode_OkD:
  assumes "contact_hello_decode d = Ok h"
  shows "\<exists>dl nl. dl \<le> 128 \<and> nl \<le> 64 \<and> 172 + dl + nl \<le> length d
    \<and> slice d 0 1 = [ch_version h] \<and> le_bytes 8 (ch_timestamp h) = slice d 1 8
    \<and> le_bytes 2 (of_nat dl :: u16) = slice d 9 2 \<and> ch_did h = vec_of 128 (slice d 11 dl)
    \<and> ch_ed25519_public h = slice d (11 + dl) 32 \<and> ch_x25519_public h = slice d (43 + dl) 32
    \<and> [of_nat nl :: byte] = slice d (75 + dl) 1 \<and> ch_name h = vec_of 64 (slice d (76 + dl) nl)
    \<and> ch_avatar_hash h = slice d (76 + dl + nl) 32 \<and> ch_signature h = slice d (108 + dl + nl) 64"
proof -
  have "d \<noteq> []" using assms by (auto simp: contact_hello_decode_def)
  then have "slice d 0 (Suc 0) = [d ! 0]" by (simp add: slice_nth)
  with assms show ?thesis
    by (rule_tac x = "unat (get_le16 (slice d 9 2))" in exI, rule_tac x = "unat (d ! (75 + unat (get_le16 (slice d 9 2))))" in exI)
     (auto simp: contact_hello_decode_def read_simps slice_nth not_less not_le add.assoc split: if_splits)
qed

lemma decode_prefix:
  assumes "contact_hello_decode d = Ok h"
  shows "\<exists>rest. d = concat (hello_pieces h) @ ch_signature h @ rest"
proof -
  from decode_OkD [OF assms] obtain dl nl where *: "172 + dl + nl \<le> length d"
    "[ch_version h] = slice d 0 1" "le_bytes 8 (ch_timestamp h) = slice d 1 8"
    "le_bytes 2 (of_nat dl :: u16) = slice d 9 2" "ch_did h = vec_of 128 (slice d 11 dl)"
    "ch_ed25519_public h = slice d (11 + dl) 32" "ch_x25519_public h = slice d (43 + dl) 32"
    "[of_nat nl :: byte] = slice d (75 + dl) 1" "ch_name h = vec_of 64 (slice d (76 + dl) nl)"
    "ch_avatar_hash h = slice d (76 + dl + nl) 32" "ch_signature h = slice d (108 + dl + nl) 64"
    by metis
  have "concat (hello_pieces h) @ ch_signature h @ [] = slice d 0 1 @ slice d (0 + 1) 8 @ slice d (0 + (1 + 8)) 2
      @ slice d (0 + (1 + 8 + 2)) dl @ slice d (0 + (1 + 8 + 2 + dl)) 32 @ slice d (0 + (1 + 8 + 2 + dl + 32)) 32
      @ slice d (0 + (1 + 8 + 2 + dl + 32 + 32)) 1 @ slice d (0 + (1 + 8 + 2 + dl + 32 + 32 + 1)) nl
      @ slice d (0 + (1 + 8 + 2 + dl + 32 + 32 + 1 + nl)) 32 @ slice d (0 + (1 + 8 + 2 + dl + 32 + 32 + 1 + nl + 32)) 64 @ []"
    using * by (simp add: hello_pieces_def add.assoc)
  also have "\<dots> = slice d 0 (1 + 8 + 2 + dl + 32 + 32 + 1 + nl + 32 + 64) @ []"
    unfolding slice_join ..
  finally show ?thesis
    by (metis append.assoc append_Nil2 append_take_drop_id slice_0_take)
qed

section \<open>Stored contacts and QR data\<close>

lemma encode_length: "hello_wf h \<Longrightarrow> vlen (contact_hello_encode h) \<le> 320"
proof -
  assume h: "hello_wf h"
  have "length (v256.accepted 0 (hello_pieces h)) \<le> 256"
    using signing_bytes [of h] signing_wf [of h] by (metis length_vec_bytes vec_len_le)
  with h show ?thesis using encode_bytes [OF h] length_vec_bytes [OF encode_wf [of h]]
    by (simp add: hello_wf_def)
qed

lemma trust_roundtrip [simp]: "trust_from_byte (trust_byte t) = t"
  by (cases t) (simp_all add: trust_from_byte_def)

lemma length_encode [simp]: "length (vec_bytes (contact_hello_encode h)) = vlen (contact_hello_encode h)"
  using encode_wf by (rule length_vec_bytes)

definition contact_pieces :: "contact \<Rightarrow> bytes list" where
  "contact_pieces c =
     [le_bytes 2 (of_nat (vlen (contact_hello_encode (ct_hello c))) :: u16), vec_bytes (contact_hello_encode (ct_hello c)),
      [trust_byte (ct_trust c)], [of_nat (vlen (ct_petname c))], vec_bytes (ct_petname c),
      le_bytes 8 (ct_last_seen c), le_bytes 4 (ct_message_count c)]"

lemma serialize_bytes:
  assumes "contact_wf c"
  shows "vec_bytes (contact_serialize c) = concat (contact_pieces c)"
proof -
  have "contact_serialize c = foldl heapless_vec512_extend_from_slice (heapless_vec512_init stack_vec) (contact_pieces c)"
    by (simp add: contact_serialize_def contact_pieces_def Let_def put_le_bytes slice_vec v512.push_extend v512.extend_wf)
  moreover have "length (concat (contact_pieces c)) \<le> 512"
    using assms encode_length [of "ct_hello c"] vec_len_le [of 64 "ct_petname c"]
    by (auto simp: contact_pieces_def contact_wf_def)
  ultimately show ?thesis by (simp add: v512.extends_fit)
qed

lemma deserialize_serialize:
  assumes "contact_wf c" "ch_version (ct_hello c) = CONTACT_HELLO_VERSION"
  shows "contact_deserialize (vec_bytes (contact_serialize c)) =
     (if vlen (ch_did (ct_hello c)) + vlen (ch_name (ct_hello c)) \<le> 148 then Ok (canon_contact c) else Err ())"
proof -
  from assms have h: "hello_wf (ct_hello c)" and p: "length (vec_bytes (ct_petname c)) = vlen (ct_petname c)"
    "vlen (ct_petname c) \<le> 64" by (auto simp: contact_wf_def dest: vec_len_le)
  then have u: "unat (of_nat (vlen (contact_hello_encode (ct_hello c))) :: u16) = vlen (contact_hello_encode (ct_hello c))"
    "unat (of_nat (vlen (ct_petname c)) :: byte) = vlen (ct_petname c)"
    using encode_length [OF h] by (simp_all add: unat_of_nat_le16 unat_of_nat_byte)
  show ?thesis
    by (simp add: serialize_bytes [OF assms(1)] contact_pieces_def contact_deserialize_def read_simps u p
        decode_encode [OF h assms(2)] canon_contact_def)
qed

lemma deserialize_cases:
  "contact_deserialize d = Ok c \<Longrightarrow> contact_wf c"
  "contact_deserialize d \<noteq> Oob"
  using v64.extend_wf [of "heapless_vec64_init stack_vec"]
  by (auto simp: contact_deserialize_def read_n_def Let_def contact_wf_def decode_cases
      split: if_splits cresult.splits dest: decode_cases(1))

lemma qr_bytes:
  assumes "hello_wf h"
  shows "vec_bytes (contact_hello_to_qr_data h) = ascii ''YCH:'' @ vec_bytes (contact_hello_encode h)"
proof -
  have "contact_hello_to_qr_data h = foldl heapless_vec512_extend_from_slice (heapless_vec512_init stack_vec)
      [ascii ''YCH:'', vec_bytes (contact_hello_encode h)]"
    by (simp add: contact_hello_to_qr_data_def Let_def slice_vec)
  moreover have "length (concat [ascii ''YCH:'', vec_bytes (contact_hello_encode h)]) \<le> 512"
    using encode_length [OF assms] by (simp add: ascii_def)
  ultimately show ?thesis
    using v512.extends_fit [of "heapless_vec512_init stack_vec" "[ascii ''YCH:'', vec_bytes (contact_hello_encode h)]"] by simp
qed

lemma length_ascii [simp]: "length (ascii s) = length s"
  by (simp add: ascii_def)

lemma qr_decode: "contact_hello_from_qr_data (ascii ''YCH:'' @ d) = contact_hello_decode d"
  by (simp add: contact_hello_from_qr_data_def)

lemma display_name_petname:
  assumes "contact_wf c" "xs \<noteq> []" "length xs \<le> MAX_NAME_LENGTH"
  shows "contact_display_name (contact_set_petname c xs) = xs"
proof -
  let ?v = "snd (heapless_vec64_extend_from_slice (heapless_vec64_clear (ct_petname c)) xs)"
  have "vec_wf 64 (ct_petname c)" using assms by (simp add: contact_wf_def)
  then have "vec_bytes ?v = xs" "vec_wf 64 ?v"
    using assms by (simp_all add: v64.extend_fits v64.extend_wf)
  moreover have "vlen ?v > 0" using calculation assms(2) length_vec_bytes [of 64 ?v] by (metis length_greater_0_conv)
  ultimately show ?thesis by (simp add: contact_set_petname_def contact_display_name_def slice_vec)
qed

section \<open>Properties\<close>

text \<open>C4. Decoding an encoded introduction gives back every field exactly when the identifier and
  the name together have at most 148 bytes; for every longer pair the encoder has silently
  dropped the name or the avatar hash and the decoder rejects its output. The QR form behaves
  the same.\<close>

theorem hello_roundtrip:
  assumes "hello_wf h" "ch_version h = CONTACT_HELLO_VERSION"
  shows "contact_hello_decode (vec_bytes (contact_hello_encode h)) =
      (if vlen (ch_did h) + vlen (ch_name h) \<le> 148 then Ok (canon_hello h) else Err CONTACT_HELLO_ERROR_INVALID_FORMAT)
    \<and> contact_hello_from_qr_data (vec_bytes (contact_hello_to_qr_data h)) =
      contact_hello_decode (vec_bytes (contact_hello_encode h))"
  using assms by (simp add: decode_encode qr_bytes qr_decode)

definition sample_hello :: contact_hello where
  "sample_hello = \<lparr>ch_version = 3, ch_timestamp = 77, ch_did = vec_of 128 [1, 2, 3], ch_ed25519_public = zeros 32,
     ch_x25519_public = zeros 32, ch_name = vec_of 64 [65], ch_avatar_hash = zeros 32, ch_signature = zeros 64\<rparr>"

theorem hello_roundtrip_witness:
  "contact_hello_decode (vec_bytes (contact_hello_encode sample_hello)) = Ok (canon_hello sample_hello)"
proof -
  have "hello_wf sample_hello" "ch_version sample_hello = 3" by (simp_all add: hello_wf_def sample_hello_def)
  from hello_roundtrip [OF this] show ?thesis by (simp add: sample_hello_def)
qed

text \<open>The decoder of introductions never reads outside its input, whatever bytes it is
  given; what it accepts is well formed, has the current version, and starts with exactly the
  wire form of the fields it returns, so that no two different field contents share an accepted
  message.\<close>

theorem hello_decode_safe:
  "(\<forall>d. contact_hello_decode d \<noteq> Oob)
   \<and> (\<forall>d h. contact_hello_decode d = Ok h \<longrightarrow>
        hello_wf h \<and> ch_version h = CONTACT_HELLO_VERSION
        \<and> (\<exists>rest. d = concat (hello_pieces h) @ ch_signature h @ rest))"
  using decode_cases decode_prefix by blast

theorem hello_decode_safe_witness:
  "hello_wf (canon_hello sample_hello)"
proof -
  have "hello_wf sample_hello" "ch_version sample_hello = 3" by (simp_all add: hello_wf_def sample_hello_def)
  then have "contact_hello_decode (vec_bytes (contact_hello_encode sample_hello)) = Ok (canon_hello sample_hello)"
    by (simp add: decode_encode) (simp add: sample_hello_def)
  with hello_decode_safe show ?thesis by blast
qed

text \<open>What is signed determines the introduction: two introductions that fit the signing
  buffer and have the same signed bytes agree on every signed field. Signing and verifying use the
  same bytes, so a signature made with the matching key verifies.\<close>

theorem hello_signature_binds:
  assumes "hello_wf h" "hello_wf h'" "ch_version h = CONTACT_HELLO_VERSION" "ch_version h' = CONTACT_HELLO_VERSION"
    and "vlen (ch_did h) + vlen (ch_name h) \<le> 148" "vlen (ch_did h') + vlen (ch_name h') \<le> 148"
    and "vec_bytes (contact_hello_encode_for_signing h) = vec_bytes (contact_hello_encode_for_signing h')"
    and "\<And>m. ed25519_verify (ch_ed25519_public h) m (ed25519_sign sk m)"
  shows "canon_hello (h\<lparr>ch_signature := s\<rparr>) = canon_hello (h'\<lparr>ch_signature := s\<rparr>)
    \<and> snd (contact_hello_verify ed25519_verify (contact_hello_sign ed25519_sign h sk))"
proof -
  let ?z = "\<lambda>h. h\<lparr>ch_signature := zeros 64\<rparr>"
  have p: "hello_pieces (h\<lparr>ch_signature := x\<rparr>) = hello_pieces h" for h x by (simp add: hello_pieces_def)
  have d: "contact_hello_decode (concat (hello_pieces g) @ zeros 64) = Ok (canon_hello (?z g))"
    if "hello_wf g" "ch_version g = CONTACT_HELLO_VERSION" for g
    using decode_fields [of "?z g" "[]"] that by (simp add: p hello_wf_def)
  have "concat (hello_pieces h) = concat (hello_pieces h')"
    using assms(7) signing_bytes_fit [OF assms(1,5)] signing_bytes_fit [OF assms(2,6)] by simp
  with d [OF assms(1,3)] d [OF assms(2,4)] have "canon_hello (?z h) = canon_hello (?z h')" by simp
  moreover have "canon_hello (g\<lparr>ch_signature := s\<rparr>) = (canon_hello (?z g))\<lparr>ch_signature := s\<rparr>" for g
    by (simp add: canon_hello_def)
  ultimately have "canon_hello (h\<lparr>ch_signature := s\<rparr>) = canon_hello (h'\<lparr>ch_signature := s\<rparr>)" by simp
  then show ?thesis using assms(8)
    by (simp add: contact_hello_verify_def contact_hello_sign_def Let_def contact_hello_encode_for_signing_def)
qed

theorem hello_signature_binds_witness:
  "snd (contact_hello_verify (\<lambda>pk m sig. sig = m) (contact_hello_sign (\<lambda>sk m. m) sample_hello []))"
proof -
  have "hello_wf sample_hello" "ch_version sample_hello = 3" "vlen (ch_did sample_hello) + vlen (ch_name sample_hello) \<le> 148"
    by (simp_all add: hello_wf_def sample_hello_def)
  then show ?thesis
    using hello_signature_binds [of sample_hello sample_hello "\<lambda>pk m sig. sig = m" "\<lambda>sk m. m" "[]"] by simp
qed

text \<open>A stored contact is read back with every field, under the same bound of 148 bytes on
  identifier and name; beyond it the stored form is rejected. Reading a stored contact never
  leaves the blob, and what it accepts is well formed.\<close>

theorem contact_storage_roundtrip:
  assumes "contact_wf c" "ch_version (ct_hello c) = CONTACT_HELLO_VERSION"
  shows "contact_deserialize (vec_bytes (contact_serialize c)) =
      (if vlen (ch_did (ct_hello c)) + vlen (ch_name (ct_hello c)) \<le> 148 then Ok (canon_contact c) else Err ())
    \<and> contact_deserialize d \<noteq> Oob \<and> (contact_deserialize d = Ok c' \<longrightarrow> contact_wf c')"
  using assms deserialize_cases by (simp add: deserialize_serialize)

definition sample_contact :: contact where
  "sample_contact = \<lparr>ct_hello = sample_hello, ct_trust = TRUST_LEVEL_SEEN, ct_petname = vec_of 64 [66, 67],
     ct_last_seen = 5, ct_message_count = 9\<rparr>"

theorem contact_storage_roundtrip_witness:
  "contact_deserialize (vec_bytes (contact_serialize sample_contact)) = Ok (canon_contact sample_contact)"
proof -
  have "contact_wf sample_contact" "ch_version (ct_hello sample_contact) = 3"
    by (simp_all add: contact_wf_def hello_wf_def sample_hello_def sample_contact_def)
  from contact_storage_roundtrip [OF this] show ?thesis by (simp add: sample_contact_def sample_hello_def)
qed

end
