(* ===== verification/Contact_Store.thy ===== *)
theory Contact_Store
  imports Contact
begin

unbundle bit_operations_syntax

text \<open>
  The contact store of \<^verbatim>\<open>lunar/contact.c\<close>: 64 slots filled by hash-based probing and searched
  linearly. Its promise is that of a finite map from fingerprints to contacts with bounded
  size, stated as the locale \<open>bounded_map\<close> and discharged for the store. The last part
  is the copy in non-volatile storage: the calls \<^verbatim>\<open>save_to_nvs\<close> makes and what
  \<^verbatim>\<open>load_from_nvs\<close> rebuilds from the answers of the NVS driver, whose functions are
  arguments.
\<close>

section \<open>State\<close>

record contact_map_entry =
  me_key :: bytes
  me_value :: contact
  me_occupied :: bool

record contact_store =
  cs_entries :: "contact_map_entry list"
  cs_count :: nat

section \<open>Operations\<close>

text \<open>The array is uninitialised memory; only the flags are written.\<close>

definition contact_store_new :: "contact_store \<Rightarrow> contact_store" where
  "contact_store_new s = s\<lparr>cs_count := 0, cs_entries := map (\<lambda>e. e\<lparr>me_occupied := False\<rparr>) (cs_entries s)\<rparr>"

definition hash_key :: "bytes \<Rightarrow> nat" where
  "hash_key key =
     unat (foldl (\<lambda>(hash :: u32) i. (hash XOR ucast (key ! i)) * 16777619) 2166136261 [0..<8]) mod MAX_CONTACTS"

definition keys_equal :: "bytes \<Rightarrow> bytes \<Rightarrow> bool" where
  "keys_equal key1 key2 = (slice key1 0 8 = slice key2 0 8)"

definition entry_matches :: "bytes \<Rightarrow> contact_map_entry \<Rightarrow> bool" where
  "entry_matches key e = (me_occupied e \<and> keys_equal (me_key e) key)"

text \<open>The probing loop: the first offset from the hash whose slot is free.\<close>

definition probe_free :: "contact_map_entry list \<Rightarrow> nat \<Rightarrow> nat option" where
  "probe_free es idx = find_index (\<lambda>i. \<not> me_occupied (es ! ((idx + i) mod MAX_CONTACTS))) [0..<MAX_CONTACTS]"

definition contact_store_add :: "contact_store \<Rightarrow> contact \<Rightarrow> contact_hello_error \<times> contact_store" where
  "contact_store_add s c =
     (let key = contact_key c
      in case find_index (entry_matches key) (cs_entries s) of
           Some i \<Rightarrow> (CONTACT_HELLO_ERROR_NONE,
                      s\<lparr>cs_entries := (cs_entries s)[i := (cs_entries s ! i)\<lparr>me_value := c\<rparr>]\<rparr>)
         | None \<Rightarrow>
             (let idx = hash_key key
              in case probe_free (cs_entries s) idx of
                   Some i \<Rightarrow>
                     (let probe_idx = (idx + i) mod MAX_CONTACTS
                      in (CONTACT_HELLO_ERROR_NONE,
                          s\<lparr>cs_entries := (cs_entries s)[probe_idx := \<lparr>me_key = key, me_value = c, me_occupied = True\<rparr>],
                            cs_count := cs_count s + 1\<rparr>))
                 | None \<Rightarrow> (CONTACT_HELLO_ERROR_BUFFER_TOO_SMALL, s)))"

definition contact_store_get :: "contact_store \<Rightarrow> bytes \<Rightarrow> contact option" where
  "contact_store_get s fingerprint =
     map_option (\<lambda>i. me_value (cs_entries s ! i)) (find_index (entry_matches fingerprint) (cs_entries s))"

text \<open>\<^verbatim>\<open>get_mut\<close> returns a pointer into the array: the index of the slot.\<close>

definition contact_store_get_mut :: "contact_store \<Rightarrow> bytes \<Rightarrow> nat option" where
  "contact_store_get_mut s fingerprint = find_index (entry_matches fingerprint) (cs_entries s)"

definition contact_store_remove :: "contact_store \<Rightarrow> bytes \<Rightarrow> contact option \<times> contact_store" where
  "contact_store_remove s fingerprint =
     (case find_index (entry_matches fingerprint) (cs_entries s) of
        Some i \<Rightarrow> (Some (me_value (cs_entries s ! i)),
                   s\<lparr>cs_entries := (cs_entries s)[i := (cs_entries s ! i)\<lparr>me_occupied := False\<rparr>],
                     cs_count := cs_count s - 1\<rparr>)
      | None \<Rightarrow> (None, s))"

definition contact_store_len :: "contact_store \<Rightarrow> nat" where
  "contact_store_len s = cs_count s"

definition contact_store_is_empty :: "contact_store \<Rightarrow> bool" where
  "contact_store_is_empty s = (cs_count s = 0)"

definition contact_store_find_by_pubkey :: "contact_store \<Rightarrow> bytes \<Rightarrow> contact option" where
  "contact_store_find_by_pubkey s ed25519_public =
     map_option (\<lambda>i. me_value (cs_entries s ! i))
       (find_index (\<lambda>e. me_occupied e \<and> ch_ed25519_public (ct_hello (me_value e)) = ed25519_public) (cs_entries s))"

section \<open>Non-volatile copy\<close>

datatype nvs_call = Nvs_set_u32 string u32 | Nvs_set_blob string bytes | Nvs_commit | Nvs_close

definition digit_char :: "nat \<Rightarrow> char" where
  "digit_char n = char_of (48 + n)"

definition nvs_key_name :: "nat \<Rightarrow> string" where
  "nvs_key_name idx =
     ''cnt_'' @ (if idx < 10 then [digit_char idx] else [digit_char (idx div 10), digit_char (idx mod 10)])"

text \<open>\<open>open1\<close> and \<open>open2\<close> are the outcomes of the two \<^verbatim>\<open>nvs_open\<close> attempts.\<close>

definition contact_store_save_to_nvs ::
  "bool \<Rightarrow> bool \<Rightarrow> contact_store \<Rightarrow> contact_hello_error \<times> nvs_call list" where
  "contact_store_save_to_nvs open1 open2 s =
     (if \<not> open1 \<and> \<not> open2 then (CONTACT_HELLO_ERROR_BUFFER_TOO_SMALL, [])
      else
        let (idx, calls) = foldl (\<lambda>(idx, calls) e.
              if \<not> me_occupied e then (idx, calls)
              else let blob = contact_serialize (me_value e)
                   in (idx + 1, calls @ [Nvs_set_blob (nvs_key_name idx) (slice (vdata blob) 0 (vlen blob))]))
              (0, [Nvs_set_u32 ''cnt_count'' (of_nat (cs_count s))]) (cs_entries s)
        in (CONTACT_HELLO_ERROR_NONE, calls @ [Nvs_commit, Nvs_close]))"

text \<open>One turn of the loading loop; \<open>get_blob\<close> answers \<^verbatim>\<open>nvs_get_blob\<close> (\<open>None\<close>: not \<^verbatim>\<open>ESP_OK\<close>,
  which includes a blob longer than the 512-byte buffer). A read outside the blob in
  \<^verbatim>\<open>contact_deserialize\<close> would be the outcome \<open>Oob\<close>.\<close>

definition load_contact ::
  "(string \<Rightarrow> bytes option) \<Rightarrow> contact_store \<times> nat \<Rightarrow> nat \<Rightarrow> contact_store \<times> nat" where
  "load_contact get_blob x idx =
     (let (s, loaded) = x
      in case get_blob (nvs_key_name idx) of
           None \<Rightarrow> (s, loaded)
         | Some blob \<Rightarrow>
             (if \<not> (length blob > 0 \<and> length blob \<le> 512) then (s, loaded)
              else case contact_deserialize blob of
                     Ok c \<Rightarrow>
                       (case find_index (\<lambda>e. \<not> me_occupied e) (cs_entries s) of
                          Some i \<Rightarrow>
                            (s\<lparr>cs_entries := (cs_entries s)[i := \<lparr>me_key = contact_key c, me_value = c, me_occupied = True\<rparr>],
                               cs_count := cs_count s + 1\<rparr>, loaded + 1)
                        | None \<Rightarrow> (s, loaded))
                   | _ \<Rightarrow> (s, loaded)))"

definition contact_store_load_from_nvs ::
  "bool \<Rightarrow> (string \<Rightarrow> u32 option) \<Rightarrow> (string \<Rightarrow> bytes option) \<Rightarrow> contact_store \<Rightarrow> contact_store \<times> nat" where
  "contact_store_load_from_nvs open_ok get_u32 get_blob s =
     (if \<not> open_ok then (s, 0)
      else case get_u32 ''cnt_count'' of
             None \<Rightarrow> (s, 0)
           | Some count \<Rightarrow>
               (let count = (if unat count > MAX_CONTACTS then MAX_CONTACTS else unat count)
                in foldl (load_contact get_blob) (s, 0) [0..<count]))"

section \<open>The contract of a bounded map\<close>

text \<open>\<open>insert\<close> gives \<open>None\<close> when it reports that there is no room.\<close>

locale bounded_map =
  fixes cap :: nat
    and inv :: "'s \<Rightarrow> bool"
    and lookup :: "'s \<Rightarrow> 'k \<Rightarrow> 'v option"
    and insert :: "'s \<Rightarrow> 'v \<Rightarrow> 's option"
    and delete :: "'s \<Rightarrow> 'k \<Rightarrow> 's"
    and count :: "'s \<Rightarrow> nat"
    and key_of :: "'v \<Rightarrow> 'k"
    and ok_key :: "'k \<Rightarrow> bool"
  assumes insert_inv: "inv s \<Longrightarrow> insert s v = Some s' \<Longrightarrow> inv s'"
    and delete_inv: "inv s \<Longrightarrow> ok_key k \<Longrightarrow> inv (delete s k)"
    and insert_lookup: "inv s \<Longrightarrow> insert s v = Some s' \<Longrightarrow> ok_key k \<Longrightarrow>
          lookup s' k = ((lookup s)(key_of v \<mapsto> v)) k"
    and delete_lookup: "inv s \<Longrightarrow> ok_key k \<Longrightarrow> ok_key k' \<Longrightarrow> lookup (delete s k) k' = ((lookup s)(k := None)) k'"
    and count_le: "inv s \<Longrightarrow> count s \<le> cap"
    and insert_full: "inv s \<Longrightarrow> insert s v = None \<longleftrightarrow> lookup s (key_of v) = None \<and> count s = cap"
    and insert_count: "inv s \<Longrightarrow> insert s v = Some s' \<Longrightarrow>
          count s' = (if lookup s (key_of v) = None then count s + 1 else count s)"
    and delete_count: "inv s \<Longrightarrow> ok_key k \<Longrightarrow>
          count (delete s k) = (if lookup s k = None then count s else count s - 1)"
begin

text \<open>A history of insertions and deletions, on the store and on an abstract map.\<close>

fun run :: "'s \<Rightarrow> ('v + 'k) list \<Rightarrow> 's" where
  "run s [] = s"
| "run s (Inl v # ops) = run (case insert s v of Some s' \<Rightarrow> s' | None \<Rightarrow> s) ops"
| "run s (Inr k # ops) = run (delete s k) ops"

fun run_map :: "nat \<Rightarrow> ('k \<rightharpoonup> 'v) \<Rightarrow> ('v + 'k) list \<Rightarrow> 'k \<rightharpoonup> 'v" where
  "run_map n m [] = m"
| "run_map n m (Inl v # ops) =
     (if m (key_of v) = None then (if n = cap then run_map n m ops else run_map (n + 1) (m(key_of v \<mapsto> v)) ops)
      else run_map n (m(key_of v \<mapsto> v)) ops)"
| "run_map n m (Inr k # ops) = run_map (if m k = None then n else n - 1) (m(k := None)) ops"

lemma run_refines:
  "inv s \<Longrightarrow> (\<And>k. ok_key k \<Longrightarrow> lookup s k = m k) \<Longrightarrow> (\<And>v. ok_key (key_of v)) \<Longrightarrow> (\<And>k. Inr k \<in> set ops \<Longrightarrow> ok_key k) \<Longrightarrow>
   inv (run s ops) \<and> (\<forall>k. ok_key k \<longrightarrow> lookup (run s ops) k = run_map (count s) m ops k)"
proof (induction ops arbitrary: s m)
  case Nil
  then show ?case by simp
next
  case (Cons x ops)
  note prems = Cons.prems
  show ?case
  proof (cases x)
    case (Inl v)
    have m: "lookup s (key_of v) = m (key_of v)" using prems by simp
    show ?thesis
    proof (cases "insert s v")
      case None
      with insert_full [OF prems(1), of v] m have "m (key_of v) = None" "count s = cap" by simp_all
      with None Inl Cons.IH [of s m] prems show ?thesis by simp
    next
      case (Some s')
      have "\<not> (m (key_of v) = None \<and> count s = cap)" using insert_full [OF prems(1), of v] Some m by simp
      moreover have "count s' = (if m (key_of v) = None then count s + 1 else count s)"
        using insert_count [OF prems(1) Some] m by simp
      moreover have "inv (run s' ops) \<and> (\<forall>k. ok_key k \<longrightarrow> lookup (run s' ops) k = run_map (count s') (m(key_of v \<mapsto> v)) ops k)"
        using insert_inv [OF prems(1) Some] insert_lookup [OF prems(1) Some] prems by (intro Cons.IH) auto
      ultimately show ?thesis using Inl Some by auto
    qed
  next
    case (Inr k)
    then have k: "ok_key k" using prems(4) by simp
    have "inv (run (delete s k) ops)
        \<and> (\<forall>k'. ok_key k' \<longrightarrow> lookup (run (delete s k) ops) k' = run_map (count (delete s k)) (m(k := None)) ops k')"
      using delete_inv [OF prems(1) k] delete_lookup [OF prems(1) k] prems by (intro Cons.IH) auto
    then show ?thesis using Inr delete_count [OF prems(1) k] prems(2) [OF k] by simp
  qed
qed

end

section \<open>The store meets the contract\<close>

definition store_inv :: "contact_store \<Rightarrow> bool" where
  "store_inv s \<longleftrightarrow> length (cs_entries s) = MAX_CONTACTS
     \<and> cs_count s = length (filter me_occupied (cs_entries s))
     \<and> (\<forall>i<MAX_CONTACTS. me_occupied (cs_entries s ! i) \<longrightarrow> me_key (cs_entries s ! i) = contact_key (me_value (cs_entries s ! i)))
     \<and> (\<forall>i<MAX_CONTACTS. \<forall>j<MAX_CONTACTS. me_occupied (cs_entries s ! i) \<and> me_occupied (cs_entries s ! j)
          \<and> me_key (cs_entries s ! i) = me_key (cs_entries s ! j) \<longrightarrow> i = j)"

lemma length_contact_key [simp]: "length (contact_key c) = 8"
  by (simp add: contact_key_def contact_hello_fingerprint_def)

lemma keys_equal_iff [simp]: "length a = 8 \<Longrightarrow> length b = 8 \<Longrightarrow> keys_equal a b \<longleftrightarrow> a = b"
  by (simp add: keys_equal_def)

lemma store_invD:
  assumes "store_inv s"
  shows "length (cs_entries s) = MAX_CONTACTS" "cs_count s = length (filter me_occupied (cs_entries s))"
    "i < MAX_CONTACTS \<Longrightarrow> me_occupied (cs_entries s ! i) \<Longrightarrow> me_key (cs_entries s ! i) = contact_key (me_value (cs_entries s ! i))"
    "i < MAX_CONTACTS \<Longrightarrow> j < MAX_CONTACTS \<Longrightarrow> me_occupied (cs_entries s ! i) \<Longrightarrow> me_occupied (cs_entries s ! j) \<Longrightarrow>
       me_key (cs_entries s ! i) = me_key (cs_entries s ! j) \<Longrightarrow> i = j"
  using assms unfolding store_inv_def by blast+

lemma store_unique:
  "store_inv s \<Longrightarrow> i < MAX_CONTACTS \<Longrightarrow> me_occupied (cs_entries s ! i) \<Longrightarrow> j < MAX_CONTACTS \<Longrightarrow> j \<noteq> i \<Longrightarrow>
   me_occupied (cs_entries s ! j) \<Longrightarrow> me_key (cs_entries s ! j) \<noteq> me_key (cs_entries s ! i)"
  using store_invD(4) by blast

lemma matches_iff:
  assumes "store_inv s" "i < MAX_CONTACTS" "length k = 8"
  shows "entry_matches k (cs_entries s ! i) \<longleftrightarrow> me_occupied (cs_entries s ! i) \<and> me_key (cs_entries s ! i) = k"
  using assms store_invD(3) [OF assms(1,2)] by (auto simp: entry_matches_def)

text \<open>Under the invariant, the search finds the only slot that holds the key.\<close>

lemma find_matches:
  assumes "store_inv s" "length k = 8"
  shows "find_index (entry_matches k) (cs_entries s) = Some i
    \<longleftrightarrow> i < MAX_CONTACTS \<and> me_occupied (cs_entries s ! i) \<and> me_key (cs_entries s ! i) = k"
proof
  assume "find_index (entry_matches k) (cs_entries s) = Some i"
  then show "i < MAX_CONTACTS \<and> me_occupied (cs_entries s ! i) \<and> me_key (cs_entries s ! i) = k"
    using assms by (auto dest!: find_index_SomeD simp: store_invD matches_iff)
next
  assume i: "i < MAX_CONTACTS \<and> me_occupied (cs_entries s ! i) \<and> me_key (cs_entries s ! i) = k"
  show "find_index (entry_matches k) (cs_entries s) = Some i"
  proof (rule find_index_SomeI)
    fix j assume "j < i"
    with i assms show "\<not> entry_matches k (cs_entries s ! j)"
      using store_invD(4) [OF assms(1), of j i] matches_iff [OF assms(1) _ assms(2), of j] by auto
  qed (use i assms in \<open>simp_all add: store_invD matches_iff\<close>)
qed

lemma get_Some_iff:
  assumes "store_inv s" "length k = 8"
  shows "contact_store_get s k = Some c \<longleftrightarrow>
    (\<exists>i<MAX_CONTACTS. me_occupied (cs_entries s ! i) \<and> me_key (cs_entries s ! i) = k \<and> me_value (cs_entries s ! i) = c)"
  using find_matches [OF assms] by (auto simp: contact_store_get_def)

lemma get_None_iff:
  assumes "store_inv s" "length k = 8"
  shows "contact_store_get s k = None \<longleftrightarrow> (\<forall>i<MAX_CONTACTS. me_occupied (cs_entries s ! i) \<longrightarrow> me_key (cs_entries s ! i) \<noteq> k)"
  using get_Some_iff [OF assms] by (metis not_None_eq)

text \<open>A slot is rewritten: a new value under the same key, a new entry in a free slot, or freed.\<close>

lemma inv_set_slot:
  assumes "store_inv s" "i < MAX_CONTACTS"
    and "me_occupied e \<Longrightarrow> me_key e = contact_key (me_value e)"
    and "\<And>j. me_occupied e \<Longrightarrow> j < MAX_CONTACTS \<Longrightarrow> j \<noteq> i \<Longrightarrow> me_occupied (cs_entries s ! j) \<Longrightarrow> me_key (cs_entries s ! j) \<noteq> me_key e"
    and "n + (if me_occupied (cs_entries s ! i) then 1 else 0) = cs_count s + (if me_occupied e then 1 else 0)"
  shows "store_inv (s\<lparr>cs_entries := (cs_entries s)[i := e], cs_count := n\<rparr>)"
proof -
  have "n = length (filter me_occupied ((cs_entries s)[i := e]))"
    using assms(5) length_filter_update [of i "cs_entries s" me_occupied e] assms(1,2)
    by (simp add: store_invD(1,2))
  moreover have "me_key (cs_entries s ! j) \<noteq> me_key e"
    if "me_occupied e" "j < MAX_CONTACTS" "j \<noteq> i" "me_occupied (cs_entries s ! j)" for j
    using assms(4) that by blast
  ultimately show ?thesis using assms(1-3) unfolding store_inv_def by (simp add: nth_list_update) metis
qed

lemma get_set_slot:
  assumes "store_inv (s\<lparr>cs_entries := (cs_entries s)[i := e], cs_count := n\<rparr>)" "store_inv s" "i < MAX_CONTACTS" "length k = 8"
    and "\<And>j. j < MAX_CONTACTS \<Longrightarrow> j \<noteq> i \<Longrightarrow> me_occupied (cs_entries s ! j) \<Longrightarrow> me_key (cs_entries s ! j) \<noteq> me_key e"
    and "me_occupied (cs_entries s ! i) \<Longrightarrow> me_key (cs_entries s ! i) = me_key e"
  shows "contact_store_get (s\<lparr>cs_entries := (cs_entries s)[i := e], cs_count := n\<rparr>) k
    = ((contact_store_get s)(me_key e := (if me_occupied e then Some (me_value e) else None))) k"
proof (cases "k = me_key e")
  case True
  then show ?thesis
    using assms get_Some_iff [OF assms(1,4)] get_None_iff [OF assms(1,4)]
    by (auto simp: nth_list_update store_invD(1))
next
  case False
  have "contact_store_get (s\<lparr>cs_entries := (cs_entries s)[i := e], cs_count := n\<rparr>) k = Some c
      \<longleftrightarrow> contact_store_get s k = Some c" for c
    unfolding get_Some_iff [OF assms(1,4)] get_Some_iff [OF assms(2,4)]
    using False assms(3,6) store_invD(1) [OF assms(2)] by (simp add: nth_list_update) metis
  then show ?thesis using False by (metis fun_upd_other not_None_eq option.exhaust)
qed

lemma probe_free_None: "probe_free es idx = None \<longleftrightarrow> (\<forall>j<MAX_CONTACTS. me_occupied (es ! j))"
  unfolding probe_free_def using find_probe_None [where P = "\<lambda>j. \<not> me_occupied (es ! j)"] by blast

lemma probe_free_Some: "probe_free es idx = Some i \<Longrightarrow> \<not> me_occupied (es ! ((idx + i) mod MAX_CONTACTS))"
  unfolding probe_free_def by (drule find_index_SomeD) (auto simp only: nth_upt length_upt add_0 minus_nat.diff_0)

text \<open>What an insertion does, case by case.\<close>

lemma add_cases:
  assumes "store_inv s" "contact_store_add s c = (err, s')"
  obtains (present) i where "i < MAX_CONTACTS" "me_occupied (cs_entries s ! i)" "me_key (cs_entries s ! i) = contact_key c"
      "err = CONTACT_HELLO_ERROR_NONE"
      "s' = s\<lparr>cs_entries := (cs_entries s)[i := (cs_entries s ! i)\<lparr>me_value := c\<rparr>], cs_count := cs_count s\<rparr>"
  | (free) i where "i < MAX_CONTACTS" "\<not> me_occupied (cs_entries s ! i)" "contact_store_get s (contact_key c) = None"
      "err = CONTACT_HELLO_ERROR_NONE"
      "s' = s\<lparr>cs_entries := (cs_entries s)[i := \<lparr>me_key = contact_key c, me_value = c, me_occupied = True\<rparr>],
             cs_count := cs_count s + 1\<rparr>"
  | (full) "contact_store_get s (contact_key c) = None" "cs_count s = MAX_CONTACTS"
      "err = CONTACT_HELLO_ERROR_BUFFER_TOO_SMALL" "s' = s"
proof (cases "find_index (entry_matches (contact_key c)) (cs_entries s)")
  case (Some i)
  then have "i < MAX_CONTACTS \<and> me_occupied (cs_entries s ! i) \<and> me_key (cs_entries s ! i) = contact_key c"
    using find_matches [OF assms(1)] by simp
  with Some assms(2) present [of i] show thesis by (auto simp: contact_store_add_def)
next
  case None
  then have g: "contact_store_get s (contact_key c) = None" by (simp add: contact_store_get_def)
  show thesis
  proof (cases "probe_free (cs_entries s) (hash_key (contact_key c))")
    case N: None
    then have "\<forall>j<length (cs_entries s). me_occupied (cs_entries s ! j)"
      unfolding store_invD(1) [OF assms(1)] probe_free_None .
    then have "length (filter me_occupied (cs_entries s)) = length (cs_entries s)"
      by (rule length_filter_all [THEN iffD2])
    then have "cs_count s = MAX_CONTACTS" using store_invD(1,2) [OF assms(1)] by metis
    moreover have "(err, s') = (CONTACT_HELLO_ERROR_BUFFER_TOO_SMALL, s)"
      using None N assms(2) by (simp add: contact_store_add_def Let_def)
    ultimately show thesis using g by (intro full) auto
  next
    case (Some i)
    from probe_free_Some [OF Some]
    have "\<not> me_occupied (cs_entries s ! ((hash_key (contact_key c) + i) mod MAX_CONTACTS))" .
    moreover have "(err, s') = (CONTACT_HELLO_ERROR_NONE,
        s\<lparr>cs_entries := (cs_entries s)[(hash_key (contact_key c) + i) mod MAX_CONTACTS :=
            \<lparr>me_key = contact_key c, me_value = c, me_occupied = True\<rparr>], cs_count := cs_count s + 1\<rparr>)"
      using None Some assms(2) by (simp add: contact_store_add_def Let_def)
    ultimately show thesis using g by (intro free) auto
  qed
qed

definition store_insert :: "contact_store \<Rightarrow> contact \<Rightarrow> contact_store option" where
  "store_insert s c = (case contact_store_add s c of (err, s') \<Rightarrow> if err = CONTACT_HELLO_ERROR_NONE then Some s' else None)"

definition store_delete :: "contact_store \<Rightarrow> bytes \<Rightarrow> contact_store" where
  "store_delete s k = snd (contact_store_remove s k)"

lemma insert_step:
  assumes "store_inv s" "store_insert s c = Some s'"
  shows "store_inv s' \<and> (\<forall>k. length k = 8 \<longrightarrow> contact_store_get s' k = ((contact_store_get s)(contact_key c \<mapsto> c)) k)
    \<and> cs_count s' = (if contact_store_get s (contact_key c) = None then cs_count s + 1 else cs_count s)"
proof -
  from assms(2) have a: "contact_store_add s c = (CONTACT_HELLO_ERROR_NONE, s')"
    by (auto simp: store_insert_def split: prod.splits if_splits)
  show ?thesis
    using assms(1) a
  proof (cases rule: add_cases)
    case (present i)
    have i: "store_inv s'" unfolding present(5)
    proof (rule inv_set_slot [OF assms(1)])
      fix j assume "j < MAX_CONTACTS" "j \<noteq> i" "me_occupied (cs_entries s ! j)"
      then show "me_key (cs_entries s ! j) \<noteq> me_key ((cs_entries s ! i)\<lparr>me_value := c\<rparr>)"
        using store_unique [OF assms(1) present(1,2)] by simp
    qed (use present in simp_all)
    have "contact_store_get s (contact_key c) \<noteq> None"
      using present get_None_iff [OF assms(1)] by auto
    moreover have "contact_store_get s' k = ((contact_store_get s)(contact_key c \<mapsto> c)) k" if "length k = 8" for k
      using get_set_slot [OF i [unfolded present(5)] assms(1) present(1) that] store_unique [OF assms(1) present(1,2)]
        present by simp
    ultimately show ?thesis using i present by simp
  next
    case (free i)
    have i: "store_inv s'" unfolding free(5)
      using free get_None_iff [OF assms(1)] by (intro inv_set_slot [OF assms(1)]) auto
    moreover have "contact_store_get s' k = ((contact_store_get s)(contact_key c \<mapsto> c)) k" if "length k = 8" for k
      using get_set_slot [OF i [unfolded free(5)] assms(1) free(1) that] get_None_iff [OF assms(1), of "contact_key c"]
        free by simp
    ultimately show ?thesis using free by simp
  qed simp
qed

lemma insert_None_iff:
  assumes "store_inv s"
  shows "store_insert s c = None \<longleftrightarrow> contact_store_get s (contact_key c) = None \<and> cs_count s = MAX_CONTACTS"
proof -
  obtain err s' where a: "contact_store_add s c = (err, s')" by fastforce
  from assms a show ?thesis
  proof (cases rule: add_cases)
    case (present i)
    then show ?thesis using a get_None_iff [OF assms] by (auto simp: store_insert_def)
  next
    case (free i)
    then have "cs_count s \<noteq> MAX_CONTACTS"
      using length_filter_all [of me_occupied "cs_entries s"] by (auto simp: store_invD(1,2) [OF assms])
    then show ?thesis using a free by (simp add: store_insert_def)
  qed (use a in \<open>simp add: store_insert_def\<close>)
qed

lemma delete_step:
  assumes "store_inv s" "length k = 8"
  shows "store_inv (store_delete s k)
    \<and> (\<forall>k'. length k' = 8 \<longrightarrow> contact_store_get (store_delete s k) k' = ((contact_store_get s)(k := None)) k')
    \<and> cs_count (store_delete s k) = (if contact_store_get s k = None then cs_count s else cs_count s - 1)
    \<and> fst (contact_store_remove s k) = contact_store_get s k"
proof (cases "find_index (entry_matches k) (cs_entries s)")
  case None
  then show ?thesis using assms by (simp add: store_delete_def contact_store_remove_def contact_store_get_def)
next
  case (Some i)
  then have i: "i < MAX_CONTACTS" "me_occupied (cs_entries s ! i)" "me_key (cs_entries s ! i) = k"
    using find_matches [OF assms] by simp_all
  let ?s = "s\<lparr>cs_entries := (cs_entries s)[i := (cs_entries s ! i)\<lparr>me_occupied := False\<rparr>], cs_count := cs_count s - 1\<rparr>"
  have r: "contact_store_remove s k = (Some (me_value (cs_entries s ! i)), ?s)"
    by (simp add: contact_store_remove_def Some)
  have "0 < cs_count s" using i by (auto simp: store_invD(1,2) [OF assms(1)] filter_empty_conv all_set_conv_all_nth)
  then have inv: "store_inv ?s" using i by (intro inv_set_slot [OF assms(1)]) auto
  moreover have "contact_store_get ?s k' = ((contact_store_get s)(k := None)) k'" if "length k' = 8" for k'
    using get_set_slot [OF inv assms(1) i(1) that] store_unique [OF assms(1) i(1,2)] i by simp
  ultimately show ?thesis using r Some by (simp add: store_delete_def contact_store_get_def)
qed

lemma count_le_cap: "store_inv s \<Longrightarrow> cs_count s \<le> MAX_CONTACTS"
  using length_filter_le [of me_occupied "cs_entries s"] by (simp add: store_inv_def)

interpretation store: bounded_map MAX_CONTACTS store_inv contact_store_get store_insert store_delete cs_count
    contact_key "\<lambda>k. length k = 8"
proof unfold_locales
  fix s v s' k k'
  assume s: "store_inv s"
  show "cs_count s \<le> MAX_CONTACTS" using s by (rule count_le_cap)
  show "store_insert s v = None \<longleftrightarrow> contact_store_get s (contact_key v) = None \<and> cs_count s = MAX_CONTACTS"
    using s by (rule insert_None_iff)
  show "store_inv s'" "cs_count s' = (if contact_store_get s (contact_key v) = None then cs_count s + 1 else cs_count s)"
    "length k = 8 \<Longrightarrow> contact_store_get s' k = ((contact_store_get s)(contact_key v \<mapsto> v)) k"
    if "store_insert s v = Some s'" using insert_step [OF s that] by auto
  show "store_inv (store_delete s k)" "length k' = 8 \<Longrightarrow> contact_store_get (store_delete s k) k' = ((contact_store_get s)(k := None)) k'"
    "cs_count (store_delete s k) = (if contact_store_get s k = None then cs_count s else cs_count s - 1)"
    if "length k = 8" using delete_step [OF s that] by auto
qed

lemma store_new_inv: "length (cs_entries s) = MAX_CONTACTS \<Longrightarrow> store_inv (contact_store_new s)"
  by (simp add: store_inv_def contact_store_new_def filter_empty_conv)

lemma store_new_get [simp]: "contact_store_get (contact_store_new s) k = None"
  by (auto simp: contact_store_get_def contact_store_new_def find_index_None_iff entry_matches_def)

section \<open>The stored contacts as a list\<close>

definition stored :: "contact_store \<Rightarrow> contact list" where
  "stored s = map me_value (filter me_occupied (cs_entries s))"

lemma get_stored:
  assumes "store_inv s" "length k = 8"
  shows "contact_store_get s k = Some c \<longleftrightarrow> c \<in> set (stored s) \<and> contact_key c = k"
proof -
  have "contact_store_get s k = Some c \<longleftrightarrow> (\<exists>e\<in>set (cs_entries s). me_occupied e \<and> me_key e = k \<and> me_value e = c)"
    unfolding get_Some_iff [OF assms] in_set_conv_nth store_invD(1) [OF assms(1)] by (metis in_set_conv_nth store_invD(1) [OF assms(1)])
  moreover have "me_occupied e \<Longrightarrow> me_key e = contact_key (me_value e)" if "e \<in> set (cs_entries s)" for e
    using that store_invD(1,3) [OF assms(1)] by (metis in_set_conv_nth)
  ultimately show ?thesis by (auto simp: stored_def)
qed

lemma distinct_map_filter:
  "(\<And>i j. i < length xs \<Longrightarrow> j < length xs \<Longrightarrow> P (xs ! i) \<Longrightarrow> P (xs ! j) \<Longrightarrow> f (xs ! i) = f (xs ! j) \<Longrightarrow> i = j) \<Longrightarrow>
   distinct (map f (filter P xs))"
proof (induction xs)
  case Nil
  then show ?case by simp
next
  case (Cons x xs)
  have "distinct (map f (filter P xs))"
    by (rule Cons.IH) (use Cons.prems [of "Suc _" "Suc _"] in simp)
  moreover have "f x \<notin> f ` set (filter P xs)" if "P x"
    using that Cons.prems [of 0 "Suc _"] by (auto simp: in_set_conv_nth)
  ultimately show ?case by simp
qed

lemma stored_keys_distinct:
  assumes "store_inv s"
  shows "distinct (map contact_key (stored s))"
proof -
  have "map contact_key (stored s) = map me_key (filter me_occupied (cs_entries s))"
    using store_invD(1,3) [OF assms] by (auto simp: stored_def in_set_conv_nth)
  then show ?thesis
    using store_invD(1,4) [OF assms] by (auto intro!: distinct_map_filter)
qed

lemma length_stored: "store_inv s \<Longrightarrow> length (stored s) = cs_count s"
  by (simp add: stored_def store_invD)

section \<open>Saving and loading\<close>

lemma save_fold:
  "foldl (\<lambda>(idx, calls) e. if \<not> me_occupied e then (idx, calls)
      else let blob = contact_serialize (me_value e)
           in (idx + 1, calls @ [Nvs_set_blob (nvs_key_name idx) (slice (vdata blob) 0 (vlen blob))])) (n, calls) es
   = (n + length (filter me_occupied es), calls @ map (\<lambda>j. Nvs_set_blob (nvs_key_name (n + j))
        (vec_bytes (contact_serialize (map me_value (filter me_occupied es) ! j)))) [0..<length (filter me_occupied es)])"
proof (induction es arbitrary: n calls)
  case Nil
  show ?case by simp
next
  case (Cons e es)
  have "[0..<Suc m] = 0 # map Suc [0..<m]" for m by (metis map_Suc_upt upt_conv_Cons zero_less_Suc)
  then show ?case by (simp add: Cons Let_def slice_vec comp_def del: upt_Suc)
qed

lemma save_calls:
  assumes "contact_store_save_to_nvs o1 o2 s = (CONTACT_HELLO_ERROR_NONE, calls)"
  shows "Nvs_set_u32 ''cnt_count'' (of_nat (cs_count s)) \<in> set calls"
    "j < length (stored s) \<Longrightarrow> Nvs_set_blob (nvs_key_name j) (vec_bytes (contact_serialize (stored s ! j))) \<in> set calls"
  using assms by (auto simp: contact_store_save_to_nvs_def save_fold stored_def split: if_splits)

text \<open>The slots after loading the first \<open>k\<close> contacts of \<open>cs\<close> into an empty store.\<close>

definition filled :: "contact list \<Rightarrow> nat \<Rightarrow> contact_store \<Rightarrow> bool" where
  "filled cs k s \<longleftrightarrow> length (cs_entries s) = MAX_CONTACTS \<and> cs_count s = k
     \<and> take k (cs_entries s) = map (\<lambda>c. \<lparr>me_key = contact_key c, me_value = c, me_occupied = True\<rparr>) (take k cs)
     \<and> (\<forall>i. k \<le> i \<and> i < MAX_CONTACTS \<longrightarrow> \<not> me_occupied (cs_entries s ! i))"

lemma load_step:
  assumes "filled cs k s" "k < length cs" "k < MAX_CONTACTS"
    and "get_blob (nvs_key_name k) = Some blob" "0 < length blob" "length blob \<le> 512" "contact_deserialize blob = Ok (cs ! k)"
  shows "\<exists>s'. load_contact get_blob (s, l) k = (s', l + 1) \<and> filled cs (Suc k) s'"
proof -
  let ?e = "\<lparr>me_key = contact_key (cs ! k), me_value = cs ! k, me_occupied = True\<rparr>"
  have len: "length (cs_entries s) = MAX_CONTACTS" using assms(1) by (simp add: filled_def)
  have occ: "me_occupied (cs_entries s ! j)" if "j < k" for j
    using assms(1-3) that unfolding filled_def
    by (metis (no_types, lifting) contact_map_entry.select_convs(3) length_take less_trans min.absorb4 nth_map nth_take)
  have "find_index (\<lambda>e. \<not> me_occupied e) (cs_entries s) = Some k"
    using assms(1,3) occ by (intro find_index_SomeI) (auto simp: filled_def)
  then have "load_contact get_blob (s, l) k = (s\<lparr>cs_entries := (cs_entries s)[k := ?e], cs_count := cs_count s + 1\<rparr>, l + 1)"
    using assms(4-7) by (simp add: load_contact_def)
  moreover have "filled cs (Suc k) (s\<lparr>cs_entries := (cs_entries s)[k := ?e], cs_count := cs_count s + 1\<rparr>)"
    using assms(1-3) len unfolding filled_def by (auto simp: take_Suc_conv_app_nth nth_list_update)
  ultimately show ?thesis by blast
qed

lemma load_fold:
  assumes "filled cs 0 s" "length cs \<le> MAX_CONTACTS"
    and "\<And>j. j < length cs \<Longrightarrow> \<exists>blob. get_blob (nvs_key_name j) = Some blob \<and> 0 < length blob \<and> length blob \<le> 512
           \<and> contact_deserialize blob = Ok (cs ! j)"
  shows "k \<le> length cs \<Longrightarrow> \<exists>s'. foldl (load_contact get_blob) (s, 0) [0..<k] = (s', k) \<and> filled cs k s'"
proof (induction k)
  case 0
  then show ?case using assms(1) by simp
next
  case (Suc k)
  then obtain s' where s': "foldl (load_contact get_blob) (s, 0) [0..<k] = (s', k)" "filled cs k s'" by auto
  from assms(3) [of k] Suc.prems obtain blob where "get_blob (nvs_key_name k) = Some blob" "0 < length blob"
    "length blob \<le> 512" "contact_deserialize blob = Ok (cs ! k)" by auto
  with load_step [of cs k s' get_blob blob k] Suc.prems assms(2) s' show ?case by auto
qed

lemma filled_stored: 
  assumes "filled cs (length cs) s" "length cs \<le> MAX_CONTACTS"
  shows "stored s = cs"
proof -
  have "\<forall>e\<in>set (drop (length cs) (cs_entries s)). \<not> me_occupied e"
    using assms unfolding filled_def by (auto simp: in_set_conv_nth)
  then have "filter me_occupied (cs_entries s) = filter me_occupied (take (length cs) (cs_entries s))"
    by (metis append_Nil2 append_take_drop_id filter_False filter_append)
  then show ?thesis using assms by (simp add: stored_def filled_def comp_def filter_map o_def)
qed

lemma filled_inv:
  assumes "filled cs (length cs) s" "length cs \<le> MAX_CONTACTS" "distinct (map contact_key cs)"
  shows "store_inv s"
proof -
  have occ: "me_occupied (cs_entries s ! i) \<Longrightarrow> i < MAX_CONTACTS \<Longrightarrow> i < length cs" for i
    using assms(1) unfolding filled_def by (metis not_le)
  have e: "cs_entries s ! i = \<lparr>me_key = contact_key (cs ! i), me_value = cs ! i, me_occupied = True\<rparr>" if "i < length cs" for i
    using assms(1) that unfolding filled_def by (metis (no_types, lifting) nth_map nth_take take_all order_refl)
  have "length (filter me_occupied (cs_entries s)) = length cs"
    using filled_stored [OF assms(1,2)] by (metis length_map stored_def)
  then show ?thesis using assms occ e unfolding store_inv_def filled_def
    by (auto simp: distinct_conv_nth)
qed

lemma length_serialize:
  assumes "contact_wf c"
  shows "0 < length (vec_bytes (contact_serialize c))" "length (vec_bytes (contact_serialize c)) \<le> 512"
proof -
  have "vec_wf 64 (ct_petname c)" "hello_wf (ct_hello c)" using assms by (simp_all add: contact_wf_def)
  then have "vlen (ct_petname c) \<le> 64" "vlen (contact_hello_encode (ct_hello c)) \<le> 320"
    "length (vec_bytes (ct_petname c)) = vlen (ct_petname c)"
    by (simp_all add: vec_len_le encode_length)
  then show "0 < length (vec_bytes (contact_serialize c))" "length (vec_bytes (contact_serialize c)) \<le> 512"
    by (simp_all add: serialize_bytes [OF assms] contact_pieces_def)
qed

lemma contact_key_canon [simp]: "contact_key (canon_contact c) = contact_key c"
  by (simp add: contact_key_def contact_hello_fingerprint_def canon_contact_def canon_hello_def)

text \<open>A contact whose stored form can be read back.\<close>

definition storable :: "contact \<Rightarrow> bool" where
  "storable c \<longleftrightarrow> contact_wf c \<and> ch_version (ct_hello c) = CONTACT_HELLO_VERSION
     \<and> vlen (ch_did (ct_hello c)) + vlen (ch_name (ct_hello c)) \<le> 148"

lemma load_saved:
  assumes "store_inv s" "\<forall>c\<in>set (stored s). storable c" "length (cs_entries t) = MAX_CONTACTS"
    and "get_u32 ''cnt_count'' = Some (of_nat (cs_count s))"
    and "\<And>j. j < length (stored s) \<Longrightarrow> get_blob (nvs_key_name j) = Some (vec_bytes (contact_serialize (stored s ! j)))"
  shows "\<exists>t'. contact_store_load_from_nvs True get_u32 get_blob (contact_store_new t) = (t', cs_count s)
    \<and> store_inv t' \<and> stored t' = map canon_contact (stored s)"
proof -
  let ?cs = "map canon_contact (stored s)"
  have n: "length ?cs = cs_count s" "cs_count s \<le> MAX_CONTACTS"
    using assms(1) by (simp_all add: length_stored count_le_cap)
  have "\<exists>blob. get_blob (nvs_key_name j) = Some blob \<and> 0 < length blob \<and> length blob \<le> 512 \<and> contact_deserialize blob = Ok (?cs ! j)"
    if "j < length ?cs" for j
  proof -
    have "storable (stored s ! j)" using assms(2) that by simp
    with assms(5) [of j] that show ?thesis by (simp add: storable_def deserialize_serialize length_serialize length_serialize(1) [simplified])
  qed
  moreover have "filled ?cs 0 (contact_store_new t)" using assms(3) by (simp add: filled_def contact_store_new_def)
  ultimately obtain t' where t': "foldl (load_contact get_blob) (contact_store_new t, 0) [0..<cs_count s] = (t', cs_count s)"
    "filled ?cs (cs_count s) t'"
    using load_fold [of ?cs "contact_store_new t" get_blob "cs_count s"] n by auto
  have u: "unat (of_nat (cs_count s) :: u32) = cs_count s" using n by (simp add: unat_of_nat take_bit_nat_eq_self)
  have "contact_store_load_from_nvs True get_u32 get_blob (contact_store_new t) = (t', cs_count s)"
    using t'(1) n(2) by (simp add: contact_store_load_from_nvs_def assms(4) u)
  moreover have "distinct (map contact_key ?cs)" using stored_keys_distinct [OF assms(1)] by (simp add: comp_def)
  ultimately show ?thesis
    using filled_inv [of ?cs t'] filled_stored [of ?cs t'] t'(2) n by auto
qed

section \<open>Properties\<close>

text \<open>C5. The contact store is a bounded map from fingerprints to contacts. After any history of
  additions and removals on a new store, every lookup gives what the same history gives on an
  abstract finite map of capacity 64, in which an addition replaces the contact with the same
  fingerprint, is refused only when 64 other contacts are present, and a removal forgets the
  contact; the count is the number of occupied slots and no fingerprint is stored twice.\<close>

theorem contact_store_refines_map:
  assumes "length (cs_entries junk) = MAX_CONTACTS" "\<And>k. Inr k \<in> set ops \<Longrightarrow> length k = 8" "length k = 8"
  shows "store_inv (store.run (contact_store_new junk) ops)
    \<and> contact_store_get (store.run (contact_store_new junk) ops) k = store.run_map 0 Map.empty ops k"
  using store.run_refines [OF store_new_inv [OF assms(1)], of Map.empty ops] assms
  by (simp add: contact_store_new_def [of junk, THEN arg_cong [where f = cs_count]])

definition sample_store :: contact_store where
  "sample_store = \<lparr>cs_entries = replicate 64 \<lparr>me_key = [], me_value = sample_contact, me_occupied = False\<rparr>, cs_count = 0\<rparr>"

theorem contact_store_refines_map_witness:
  "contact_store_get (store.run (contact_store_new sample_store) [Inl sample_contact, Inr (zeros 8)]) (zeros 8) = None"
  using contact_store_refines_map [of sample_store "[Inl sample_contact, Inr (zeros 8)]" "zeros 8"]
  by (simp add: sample_store_def)

text \<open>Saving the store and loading it into a new one, with a driver that returns what was
  written, restores every contact whose stored form fits: each fingerprint looks up the same
  contact as before, the number of loaded contacts is the count, and the loaded store satisfies
  the invariant.\<close>

theorem contact_store_nvs_roundtrip:
  assumes "store_inv s" "\<forall>c\<in>set (stored s). storable c" "length (cs_entries junk) = MAX_CONTACTS"
    and "contact_store_save_to_nvs o1 o2 s = (CONTACT_HELLO_ERROR_NONE, calls)"
    and "\<And>key v. Nvs_set_u32 key v \<in> set calls \<Longrightarrow> get_u32 key = Some v"
    and "\<And>key b. Nvs_set_blob key b \<in> set calls \<Longrightarrow> get_blob key = Some b"
  shows "\<exists>t. contact_store_load_from_nvs True get_u32 get_blob (contact_store_new junk) = (t, cs_count s)
    \<and> store_inv t \<and> (\<forall>k. length k = 8 \<longrightarrow> contact_store_get t k = map_option canon_contact (contact_store_get s k))"
proof -
  have "get_u32 ''cnt_count'' = Some (of_nat (cs_count s))"
    "\<And>j. j < length (stored s) \<Longrightarrow> get_blob (nvs_key_name j) = Some (vec_bytes (contact_serialize (stored s ! j)))"
    using assms(5,6) save_calls [OF assms(4)] by blast+
  from load_saved [OF assms(1-3), of get_u32 get_blob, OF this]
  obtain t where t: "contact_store_load_from_nvs True get_u32 get_blob (contact_store_new junk) = (t, cs_count s)"
    "store_inv t" "stored t = map canon_contact (stored s)" by blast
  have "contact_store_get t k = map_option canon_contact (contact_store_get s k)" if k: "length k = 8" for k
  proof (cases "contact_store_get s k")
    case None
    then have "\<forall>x\<in>set (stored s). contact_key x \<noteq> k"
      using get_stored [OF assms(1) k] by auto
    then have "contact_store_get t k \<noteq> Some c" for c
      unfolding get_stored [OF t(2) k] t(3) by auto
    with None show ?thesis by (cases "contact_store_get t k") auto
  next
    case (Some c)
    with get_stored [OF t(2) k, of "canon_contact c"] get_stored [OF assms(1) k, of c] t(3) show ?thesis by simp
  qed
  with t show ?thesis by blast
qed

definition sample_saved :: contact_store where
  "sample_saved = (contact_store_new sample_store)\<lparr>cs_entries := (cs_entries (contact_store_new sample_store))
     [0 := \<lparr>me_key = contact_key sample_contact, me_value = sample_contact, me_occupied = True\<rparr>], cs_count := 1\<rparr>"

lemma sample_saved_facts:
  "store_inv sample_saved" "stored sample_saved = [sample_contact]"
  "snd (contact_store_save_to_nvs True True sample_saved) =
     [Nvs_set_u32 ''cnt_count'' 1, Nvs_set_blob (nvs_key_name 0) (vec_bytes (contact_serialize sample_contact)), Nvs_commit, Nvs_close]"
proof -
  have new: "store_inv (contact_store_new sample_store)" by (rule store_new_inv) (simp add: sample_store_def)
  have free: "\<not> me_occupied (cs_entries (contact_store_new sample_store) ! j)" if "j < 64" for j
    using that by (simp add: contact_store_new_def sample_store_def)
  show "store_inv sample_saved" unfolding sample_saved_def
    using free by (intro inv_set_slot [OF new]) (auto simp: contact_store_new_def)
  have "cs_entries sample_saved = \<lparr>me_key = contact_key sample_contact, me_value = sample_contact, me_occupied = True\<rparr> #
      replicate 63 \<lparr>me_key = [], me_value = sample_contact, me_occupied = False\<rparr>"
    by (simp add: sample_saved_def contact_store_new_def sample_store_def numeral_eq_Suc)
  then have f: "filter me_occupied (cs_entries sample_saved)
      = [\<lparr>me_key = contact_key sample_contact, me_value = sample_contact, me_occupied = True\<rparr>]" by simp
  then show "stored sample_saved = [sample_contact]" by (simp add: stored_def)
  show "snd (contact_store_save_to_nvs True True sample_saved) =
     [Nvs_set_u32 ''cnt_count'' 1, Nvs_set_blob (nvs_key_name 0) (vec_bytes (contact_serialize sample_contact)), Nvs_commit, Nvs_close]"
    by (simp add: contact_store_save_to_nvs_def save_fold f) (simp add: sample_saved_def)
qed

theorem contact_store_nvs_roundtrip_witness:
  "\<exists>t. contact_store_load_from_nvs True (\<lambda>k. Some 1) (\<lambda>k. Some (vec_bytes (contact_serialize sample_contact)))
      (contact_store_new sample_store) = (t, 1) \<and> store_inv t"
proof -
  have "storable sample_contact"
    by (simp add: storable_def contact_wf_def hello_wf_def sample_contact_def sample_hello_def)
  then have st: "\<forall>c\<in>set (stored sample_saved). storable c" by (simp add: sample_saved_facts(2))
  define calls where "calls = snd (contact_store_save_to_nvs True True sample_saved)"
  have c: "calls = [Nvs_set_u32 ''cnt_count'' 1, Nvs_set_blob (nvs_key_name 0) (vec_bytes (contact_serialize sample_contact)),
      Nvs_commit, Nvs_close]" unfolding calls_def by (rule sample_saved_facts(3))
  have sv: "contact_store_save_to_nvs True True sample_saved = (CONTACT_HELLO_ERROR_NONE, calls)"
    by (simp add: calls_def contact_store_save_to_nvs_def save_fold)
  have n: "cs_count sample_saved = 1" "length (cs_entries sample_store) = 64"
    by (simp_all add: sample_saved_def sample_store_def)
  show ?thesis
    using contact_store_nvs_roundtrip [OF sample_saved_facts(1) st n(2) sv, of "\<lambda>k. Some 1"
        "\<lambda>k. Some (vec_bytes (contact_serialize sample_contact))"] unfolding c n(1) by fastforce
qed

end
