(* ===== verification/Transport.thy ===== *)
theory Transport
  imports Frame_Protocol Byte_Codec Hmac
begin

unbundle bit_operations_syntax

text \<open>
  The mesh transport layer of \<^verbatim>\<open>lunar/transport.c\<close>: addresses of the three mesh protocols derived
  from a public key, the packet on the wire, signal quality, protocol detection, and the table
  that maps protocol addresses back to public keys.

  \<^verbatim>\<open>Sha256_hash\<close> is declared by the file as an interface to be linked; it is the argument
  \<open>hash\<close> of the definitions that use it.
\<close>

section \<open>Addresses\<close>

abbreviation DATA_MAX_PAYLOAD :: nat where "DATA_MAX_PAYLOAD \<equiv> 237 - (1 + 2 + 4 + 16)"

record universal_address =
  ua_did :: vec
  ua_public_key :: bytes
  ua_meshcore_addr :: u16
  ua_meshtastic_id :: u32
  ua_reticulum_hash :: bytes

definition AddressTranslator_derive_meshcore_address :: "(bytes \<Rightarrow> bytes) \<Rightarrow> bytes \<Rightarrow> u16" where
  "AddressTranslator_derive_meshcore_address hash public_key =
     (let h = hash public_key in push_bit 8 (ucast (h ! 0)) OR ucast (h ! 1))"

definition AddressTranslator_derive_meshtastic_id :: "(bytes \<Rightarrow> bytes) \<Rightarrow> bytes \<Rightarrow> u32" where
  "AddressTranslator_derive_meshtastic_id hash public_key =
     (let h = hash public_key
      in push_bit 24 (ucast (h ! 0)) OR push_bit 16 (ucast (h ! 1)) OR push_bit 8 (ucast (h ! 2)) OR ucast (h ! 3))"

definition AddressTranslator_derive_reticulum_hash :: "(bytes \<Rightarrow> bytes) \<Rightarrow> bytes \<Rightarrow> bytes \<Rightarrow> bytes" where
  "AddressTranslator_derive_reticulum_hash hash public_key app_name =
     (let app_hash = hash app_name;
          combined = app_hash @ public_key;
          full_hash = hash combined
      in slice full_hash 0 16)"

text \<open>\<open>junk\<close> is the uninitialised 128-byte array of the identifier.\<close>

definition AddressTranslator_from_public_key :: "(bytes \<Rightarrow> bytes) \<Rightarrow> bytes \<Rightarrow> bytes \<Rightarrow> universal_address" where
  "AddressTranslator_from_public_key hash junk public_key =
     (let h = hash public_key;
          meshcore_addr = push_bit 8 (ucast (h ! 0)) OR ucast (h ! 1);
          meshtastic_id = push_bit 24 (ucast (h ! 0)) OR push_bit 16 (ucast (h ! 1)) OR push_bit 8 (ucast (h ! 2))
            OR ucast (h ! 3);
          app_hash = hash (ascii ''yours.messaging'');
          reticulum_full = hash (app_hash @ public_key)
      in \<lparr>ua_did = \<lparr>vdata = memcpy junk 0 (ascii ''did:offgrid:z''), vlen = 13\<rparr>, ua_public_key = public_key,
          ua_meshcore_addr = meshcore_addr, ua_meshtastic_id = meshtastic_id,
          ua_reticulum_hash = slice reticulum_full 0 16\<rparr>)"

section \<open>Packets\<close>

datatype packet_type = PacketType_Data | PacketType_Handshake | PacketType_Control | PacketType_Cover

fun packet_type_byte :: "packet_type \<Rightarrow> byte" where
  "packet_type_byte PacketType_Data = 0x00"
| "packet_type_byte PacketType_Handshake = 0x01"
| "packet_type_byte PacketType_Control = 0x02"
| "packet_type_byte PacketType_Cover = 0x03"

definition PacketType_from_flags :: "byte \<Rightarrow> packet_type" where
  "PacketType_from_flags flags =
     (let val = drop_bit 6 flags AND 0x03
      in if val = 0x00 then PacketType_Data else if val = 0x01 then PacketType_Handshake
         else if val = 0x02 then PacketType_Control else if val = 0x03 then PacketType_Cover
         else PacketType_Data)"

record wire_packet =
  wp_packet_type :: packet_type
  wp_hop_count :: byte
  wp_next_hop_hint :: u16
  wp_session_hint :: u32
  wp_payload :: vec

definition WirePacket_new_data :: "wire_packet \<Rightarrow> u16 \<Rightarrow> u32 \<Rightarrow> bytes \<Rightarrow> wire_packet option" where
  "WirePacket_new_data out next_hop session payload =
     (if length payload > DATA_MAX_PAYLOAD then None
      else Some (out\<lparr>wp_packet_type := PacketType_Data, wp_hop_count := 0, wp_next_hop_hint := next_hop,
             wp_session_hint := session,
             wp_payload := \<lparr>vdata = memcpy (vdata (wp_payload out)) 0 payload, vlen = length payload\<rparr>\<rparr>))"

definition WirePacket_encode :: "bytes \<Rightarrow> wire_packet \<Rightarrow> vec" where
  "WirePacket_encode junk self =
     (let buf = \<lparr>vdata = junk, vlen = 0\<rparr>;
          flags = push_bit 6 (packet_type_byte (wp_packet_type self)) OR (wp_hop_count self AND 0x0F);
          buf = put_byte buf flags;
          buf = put_byte buf (ucast (drop_bit 8 (wp_next_hop_hint self)));
          buf = put_byte buf (ucast (wp_next_hop_hint self));
          buf = put_byte buf (ucast (drop_bit 24 (wp_session_hint self)));
          buf = put_byte buf (ucast (drop_bit 16 (wp_session_hint self)));
          buf = put_byte buf (ucast (drop_bit 8 (wp_session_hint self)));
          buf = put_byte buf (ucast (wp_session_hint self))
      in if vlen (wp_payload self) > 0
         then buf\<lparr>vdata := memcpy (vdata buf) (vlen buf) (slice (vdata (wp_payload self)) 0 (vlen (wp_payload self))),
                  vlen := vlen buf + vlen (wp_payload self)\<rparr>
         else buf)"

text \<open>\<open>Err ()\<close> is the result \<^verbatim>\<open>false\<close>.\<close>

definition WirePacket_decode :: "wire_packet \<Rightarrow> bytes \<Rightarrow> (unit, wire_packet) cresult" where
  "WirePacket_decode out d =
     (if length d < 7 then Err () else
      read_n d 0 7 (\<lambda>h.
      let out = out\<lparr>wp_packet_type := PacketType_from_flags (h ! 0), wp_hop_count := h ! 0 AND 0x0F,
                    wp_next_hop_hint := push_bit 8 (ucast (h ! 1)) OR ucast (h ! 2),
                    wp_session_hint := push_bit 24 (ucast (h ! 3)) OR push_bit 16 (ucast (h ! 4))
                      OR push_bit 8 (ucast (h ! 5)) OR ucast (h ! 6),
                    wp_payload := (wp_payload out)\<lparr>vlen := 0\<rparr>\<rparr>
      in if length d > 7
         then let payload_len = length d - 7;
                  payload_len = (if payload_len > 214 then 214 else payload_len)
              in read_n d 7 payload_len (\<lambda>p.
                   Ok (out\<lparr>wp_payload := \<lparr>vdata = memcpy (vdata (wp_payload out)) 0 p, vlen = payload_len\<rparr>\<rparr>))
         else Ok out))"

definition WirePacket_increment_hop :: "wire_packet \<Rightarrow> bool \<times> wire_packet" where
  "WirePacket_increment_hop self =
     (if wp_hop_count self < 15 then (True, self\<lparr>wp_hop_count := wp_hop_count self + 1\<rparr>) else (False, self))"

section \<open>Signal quality\<close>

text \<open>The measurements are signed C integers that arithmetic never leaves their range; the casts to
  unsigned types are written out.\<close>

record signal_quality =
  sq_rssi :: int
  sq_snr :: int
  sq_quality :: nat

definition SignalQuality_new :: "int \<Rightarrow> int \<Rightarrow> signal_quality" where
  "SignalQuality_new rssi snr =
     (let rssi_clamped = rssi;
          rssi_clamped = (if rssi_clamped < -120 then -120 else rssi_clamped);
          rssi_clamped = (if rssi_clamped > -50 then -50 else rssi_clamped);
          rssi_norm = nat ((((rssi_clamped + 120) mod 65536) * 100) div 70) mod 256;
          snr_clamped = snr;
          snr_clamped = (if snr_clamped < -20 then -20 else snr_clamped);
          snr_clamped = (if snr_clamped > 10 then 10 else snr_clamped);
          snr_norm = nat ((((snr_clamped + 20) mod 65536) * 100) div 30) mod 256
      in \<lparr>sq_rssi = rssi, sq_snr = snr, sq_quality = ((rssi_norm + snr_norm) div 2) mod 256\<rparr>)"

section \<open>Protocol detection\<close>

datatype protocol = Protocol_MeshCore | Protocol_Meshtastic | Protocol_Reticulum

fun Protocol_magic_bytes :: "protocol \<Rightarrow> bytes" where
  "Protocol_magic_bytes Protocol_MeshCore = [0xAA, 0x55]"
| "Protocol_magic_bytes Protocol_Meshtastic = [0x94, 0xC3]"
| "Protocol_magic_bytes Protocol_Reticulum = [0xC0, 0x00]"

definition Protocol_detect :: "bytes \<Rightarrow> protocol option" where
  "Protocol_detect d =
     (if length d < 2 then None
      else if d ! 0 = 0xAA \<and> d ! 1 = 0x55 then Some Protocol_MeshCore
      else if d ! 0 = 0x94 \<and> d ! 1 = 0xC3 then Some Protocol_Meshtastic
      else if d ! 0 = 0xC0 then Some Protocol_Reticulum
      else None)"

section \<open>Address lookup table\<close>

abbreviation MAX_KNOWN_ADDRESSES :: nat where "MAX_KNOWN_ADDRESSES \<equiv> 64"

text \<open>The three indexes have the same shape; the C code spells each loop out.\<close>

record 'k index_slot =
  is_key :: 'k
  is_value :: bytes
  is_occupied :: bool

record address_lookup_table =
  al_meshcore_index :: "u16 index_slot list"
  al_meshtastic_index :: "u32 index_slot list"
  al_reticulum_index :: "bytes index_slot list"
  al_count :: nat

datatype protocol_address =
    ProtocolAddress_MeshCore u16
  | ProtocolAddress_Meshtastic u32
  | ProtocolAddress_Reticulum bytes

definition AddressLookupTable_init :: address_lookup_table where
  "AddressLookupTable_init =
     \<lparr>al_meshcore_index = replicate MAX_KNOWN_ADDRESSES \<lparr>is_key = 0, is_value = zeros 32, is_occupied = False\<rparr>,
      al_meshtastic_index = replicate MAX_KNOWN_ADDRESSES \<lparr>is_key = 0, is_value = zeros 32, is_occupied = False\<rparr>,
      al_reticulum_index = replicate MAX_KNOWN_ADDRESSES \<lparr>is_key = zeros 8, is_value = zeros 32, is_occupied = False\<rparr>,
      al_count = 0\<rparr>"

text \<open>The registering loop: the first slot that is free or has the key is taken. The flag tells whether a
  free slot was used.\<close>

definition index_put :: "'k index_slot list \<Rightarrow> 'k \<Rightarrow> bytes \<Rightarrow> bool \<times> 'k index_slot list" where
  "index_put ix key public_key =
     (case find_index (\<lambda>e. \<not> is_occupied e \<or> is_key e = key) ix of
        Some i \<Rightarrow> (\<not> is_occupied (ix ! i), ix[i := \<lparr>is_key = key, is_value = public_key, is_occupied = True\<rparr>])
      | None \<Rightarrow> (False, ix))"

text \<open>The unregistering loop: the first occupied slot with the key is freed.\<close>

definition index_drop :: "'k index_slot list \<Rightarrow> 'k \<Rightarrow> bool \<times> 'k index_slot list" where
  "index_drop ix key =
     (case find_index (\<lambda>e. is_occupied e \<and> is_key e = key) ix of
        Some i \<Rightarrow> (True, ix[i := (ix ! i)\<lparr>is_occupied := False\<rparr>])
      | None \<Rightarrow> (False, ix))"

definition index_find :: "'k index_slot list \<Rightarrow> 'k \<Rightarrow> bytes option" where
  "index_find ix key =
     map_option (\<lambda>i. is_value (ix ! i)) (find_index (\<lambda>e. is_occupied e \<and> is_key e = key) ix)"

definition AddressLookupTable_register ::
  "(bytes \<Rightarrow> bytes) \<Rightarrow> bytes \<Rightarrow> address_lookup_table \<Rightarrow> bytes \<Rightarrow> address_lookup_table" where
  "AddressLookupTable_register hash junk self public_key =
     (let addr = AddressTranslator_from_public_key hash junk public_key;
          (fresh, mc) = index_put (al_meshcore_index self) (ua_meshcore_addr addr) public_key;
          count = (if fresh then al_count self + 1 else al_count self);
          (_, mt) = index_put (al_meshtastic_index self) (ua_meshtastic_id addr) public_key;
          ret_key = slice (ua_reticulum_hash addr) 0 8;
          (_, rt) = index_put (al_reticulum_index self) ret_key public_key
      in self\<lparr>al_meshcore_index := mc, al_meshtastic_index := mt, al_reticulum_index := rt, al_count := count\<rparr>)"

definition AddressLookupTable_unregister ::
  "(bytes \<Rightarrow> bytes) \<Rightarrow> bytes \<Rightarrow> address_lookup_table \<Rightarrow> bytes \<Rightarrow> address_lookup_table" where
  "AddressLookupTable_unregister hash junk self public_key =
     (let addr = AddressTranslator_from_public_key hash junk public_key;
          (found, mc) = index_drop (al_meshcore_index self) (ua_meshcore_addr addr);
          count = (if found then al_count self - 1 else al_count self);
          (_, mt) = index_drop (al_meshtastic_index self) (ua_meshtastic_id addr);
          ret_key = slice (ua_reticulum_hash addr) 0 8;
          (_, rt) = index_drop (al_reticulum_index self) ret_key
      in self\<lparr>al_meshcore_index := mc, al_meshtastic_index := mt, al_reticulum_index := rt, al_count := count\<rparr>)"

definition AddressLookupTable_lookup_meshcore :: "address_lookup_table \<Rightarrow> u16 \<Rightarrow> bytes option" where
  "AddressLookupTable_lookup_meshcore self addr = index_find (al_meshcore_index self) addr"

definition AddressLookupTable_lookup_meshtastic :: "address_lookup_table \<Rightarrow> u32 \<Rightarrow> bytes option" where
  "AddressLookupTable_lookup_meshtastic self node = index_find (al_meshtastic_index self) node"

definition AddressLookupTable_lookup_reticulum :: "address_lookup_table \<Rightarrow> bytes \<Rightarrow> bytes option" where
  "AddressLookupTable_lookup_reticulum self h = index_find (al_reticulum_index self) (slice h 0 8)"

fun AddressLookupTable_lookup :: "address_lookup_table \<Rightarrow> protocol_address \<Rightarrow> bytes option" where
  "AddressLookupTable_lookup self (ProtocolAddress_MeshCore a) = AddressLookupTable_lookup_meshcore self a"
| "AddressLookupTable_lookup self (ProtocolAddress_Meshtastic i) = AddressLookupTable_lookup_meshtastic self i"
| "AddressLookupTable_lookup self (ProtocolAddress_Reticulum h) = AddressLookupTable_lookup_reticulum self h"

definition AddressLookupTable_len :: "address_lookup_table \<Rightarrow> nat" where
  "AddressLookupTable_len self = al_count self"

definition AddressLookupTable_is_empty :: "address_lookup_table \<Rightarrow> bool" where
  "AddressLookupTable_is_empty self = (al_count self = 0)"

section \<open>Packets on the wire\<close>

definition packet_wf :: "wire_packet \<Rightarrow> bool" where
  "packet_wf p \<longleftrightarrow> vec_wf 214 (wp_payload p)"

text \<open>The layout: flags, next-hop hint and session hint in network order, payload.\<close>

definition wire_bytes :: "wire_packet \<Rightarrow> bytes" where
  "wire_bytes p = (push_bit 6 (packet_type_byte (wp_packet_type p)) OR (wp_hop_count p AND 0x0F))
     # be_bytes 2 (wp_next_hop_hint p) @ be_bytes 4 (wp_session_hint p) @ vec_bytes (wp_payload p)"

lemma encode_wire:
  assumes "packet_wf p" "length junk = 237"
  shows "vec_wf 237 (WirePacket_encode junk p)" "vec_bytes (WirePacket_encode junk p) = wire_bytes p"
proof -
  let ?v = "\<lparr>vdata = junk, vlen = 0\<rparr>"
  define hs where "hs = take 7 (wire_bytes p)"
  define w where "w = foldl put_byte ?v hs"
  have hs: "hs = [push_bit 6 (packet_type_byte (wp_packet_type p)) OR (wp_hop_count p AND 0x0F),
      ucast (drop_bit 8 (wp_next_hop_hint p)), ucast (wp_next_hop_hint p), ucast (drop_bit 24 (wp_session_hint p)),
      ucast (drop_bit 16 (wp_session_hint p)), ucast (drop_bit 8 (wp_session_hint p)), ucast (wp_session_hint p)]"
    by (simp add: hs_def wire_bytes_def be_bytes_def numeral_eq_Suc)
  then have "length hs = 7" by simp
  moreover have "vec_wf 237 ?v" using assms(2) by (simp add: vec_wf_def)
  moreover have "vec_bytes ?v = []" by (simp add: vec_bytes_def)
  ultimately have w: "vec_wf 237 w" "vec_bytes w = hs" "vlen w = 7"
    using puts [of 237 ?v hs] by (simp_all add: w_def)
  have len: "vlen (wp_payload p) \<le> 214" "length (vec_bytes (wp_payload p)) = vlen (wp_payload p)"
    using assms(1) by (auto simp: packet_wf_def dest: vec_len_le)
  have enc: "WirePacket_encode junk p = (if vlen (wp_payload p) > 0
      then w\<lparr>vdata := memcpy (vdata w) (vlen w) (vec_bytes (wp_payload p)), vlen := vlen w + length (vec_bytes (wp_payload p))\<rparr>
      else w)"
    unfolding w_def hs by (simp add: WirePacket_encode_def Let_def slice_0_take vec_bytes_def [symmetric] len(2))
  have split: "wire_bytes p = hs @ vec_bytes (wp_payload p)"
    by (simp add: hs_def wire_bytes_def be_bytes_def numeral_eq_Suc)
  show "vec_wf 237 (WirePacket_encode junk p)"
    unfolding enc using w len vec_append_wf [OF w(1), of "vec_bytes (wp_payload p)"] by simp
  show "vec_bytes (WirePacket_encode junk p) = wire_bytes p"
    unfolding enc split using w len vec_append_bytes [OF w(1), of "vec_bytes (wp_payload p)"] by auto
qed

lemma flags_fields:
  "PacketType_from_flags (push_bit 6 (packet_type_byte t) OR (h AND 0x0F)) = t"
  "(push_bit 6 (packet_type_byte t) OR (h AND 0x0F)) AND 0x0F = h AND 0x0F"
proof -
  have m: "(0x0F :: byte) = mask 4" "(0x03 :: byte) = mask 2" by (simp_all add: mask_eq_exp_minus_1)
  have "drop_bit 6 (push_bit 6 c OR (h AND mask 4)) AND mask 2 = c AND mask 2" for c :: byte
    by (rule bit_word_eqI) (auto simp: bit_simps)
  then have "drop_bit 6 (push_bit 6 c OR (h AND 0x0F)) AND 0x03 = c AND 0x03" for c :: byte
    unfolding m .
  then show "PacketType_from_flags (push_bit 6 (packet_type_byte t) OR (h AND 0x0F)) = t"
    unfolding PacketType_from_flags_def by (cases t) simp_all
  show "(push_bit 6 (packet_type_byte t) OR (h AND 0x0F)) AND 0x0F = h AND 0x0F"
    unfolding m by (rule bit_word_eqI) (auto simp: bit_simps)
qed

lemma be_joins:
  "push_bit 8 (ucast (ucast (drop_bit 8 v) :: byte)) OR ucast (ucast v :: byte) = (v :: u16)"
  "push_bit 24 (ucast (ucast (drop_bit 24 w) :: byte)) OR push_bit 16 (ucast (ucast (drop_bit 16 w) :: byte))
     OR push_bit 8 (ucast (ucast (drop_bit 8 w) :: byte)) OR ucast (ucast w :: byte) = (w :: u32)"
  using get_put_le(1) [of v] get_put_le(2) [of w]
  by (simp_all add: get_le16_def get_le32_def numeral_eq_Suc ac_simps)

definition same_packet :: "wire_packet \<Rightarrow> wire_packet \<Rightarrow> bool" where
  "same_packet p q \<longleftrightarrow> wp_packet_type p = wp_packet_type q \<and> wp_hop_count p = wp_hop_count q
     \<and> wp_next_hop_hint p = wp_next_hop_hint q \<and> wp_session_hint p = wp_session_hint q
     \<and> vec_bytes (wp_payload p) = vec_bytes (wp_payload q)"

lemma decode_wire:
  assumes "packet_wf p" "packet_wf out"
  shows "\<exists>q. WirePacket_decode out (wire_bytes p) = Ok q \<and> packet_wf q
    \<and> same_packet q (p\<lparr>wp_hop_count := wp_hop_count p AND 0x0F\<rparr>)"
proof -
  have len: "vlen (wp_payload p) \<le> 214" "length (vec_bytes (wp_payload p)) = vlen (wp_payload p)" "length (vdata (wp_payload out)) = 214"
    using assms by (auto simp: packet_wf_def vec_wf_def vec_bytes_def)
  have "length (wire_bytes p) = 7 + vlen (wp_payload p)" by (simp add: wire_bytes_def len)
  moreover have "slice (wire_bytes p) 0 7 = [push_bit 6 (packet_type_byte (wp_packet_type p)) OR (wp_hop_count p AND 0x0F),
      ucast (drop_bit 8 (wp_next_hop_hint p)), ucast (wp_next_hop_hint p), ucast (drop_bit 24 (wp_session_hint p)),
      ucast (drop_bit 16 (wp_session_hint p)), ucast (drop_bit 8 (wp_session_hint p)), ucast (wp_session_hint p)]"
    "slice (wire_bytes p) 7 (vlen (wp_payload p)) = vec_bytes (wp_payload p)"
    using len by (simp_all add: wire_bytes_def be_bytes_def slice_def numeral_eq_Suc)
  ultimately show ?thesis using len
    by (auto simp: WirePacket_decode_def read_n_def Let_def flags_fields be_joins same_packet_def packet_wf_def vec_wf_def
        vec_bytes_def memcpy_def)
qed

lemma decode_safe:
  "WirePacket_decode out d \<noteq> Oob"
  "packet_wf out \<Longrightarrow> WirePacket_decode out d = Ok q \<Longrightarrow> packet_wf q \<and> wp_hop_count q \<le> 15"
proof -
  show "WirePacket_decode out d \<noteq> Oob" by (auto simp: WirePacket_decode_def read_n_def Let_def)
  have "b AND 0x0F \<le> (15 :: byte)" for b by (rule word_and_le1)
  then show "packet_wf out \<Longrightarrow> WirePacket_decode out d = Ok q \<Longrightarrow> packet_wf q \<and> wp_hop_count q \<le> 15"
    by (auto simp: WirePacket_decode_def read_n_def Let_def packet_wf_def vec_wf_def split: if_splits)
qed

section \<open>The address table\<close>

definition has_room :: "'k index_slot list \<Rightarrow> 'k \<Rightarrow> bool" where
  "has_room ix k \<longleftrightarrow> (\<exists>e\<in>set ix. \<not> is_occupied e \<or> is_key e = k)"

lemma index_put_Some:
  assumes "has_room ix k"
  obtains i where "i < length ix" "\<not> is_occupied (ix ! i) \<or> is_key (ix ! i) = k"
    "\<And>j. j < i \<Longrightarrow> is_occupied (ix ! j) \<and> is_key (ix ! j) \<noteq> k"
    "index_put ix k v = (\<not> is_occupied (ix ! i), ix[i := \<lparr>is_key = k, is_value = v, is_occupied = True\<rparr>])"
proof -
  have "find_index (\<lambda>e. \<not> is_occupied e \<or> is_key e = k) ix \<noteq> None"
    using assms unfolding find_index_None_iff has_room_def by blast
  then obtain i where i: "find_index (\<lambda>e. \<not> is_occupied e \<or> is_key e = k) ix = Some i" by blast
  with find_index_SomeD [OF i] that [of i] show thesis by (simp add: index_put_def)
qed

text \<open>Registering acts on lookups as a map update, on any table with room.\<close>

lemma index_put_find:
  assumes "has_room ix k"
  shows "index_find (snd (index_put ix k v)) k' = ((index_find ix)(k \<mapsto> v)) k'"
proof -
  obtain i where i: "i < length ix" "\<not> is_occupied (ix ! i) \<or> is_key (ix ! i) = k"
    "\<And>j. j < i \<Longrightarrow> is_occupied (ix ! j) \<and> is_key (ix ! j) \<noteq> k"
    "index_put ix k v = (\<not> is_occupied (ix ! i), ix[i := \<lparr>is_key = k, is_value = v, is_occupied = True\<rparr>])"
    by (rule index_put_Some [OF assms, of v]) blast
  let ?e = "\<lparr>is_key = k, is_value = v, is_occupied = True\<rparr>"
  show ?thesis
  proof (cases "k' = k")
    case True
    have "find_index (\<lambda>e. is_occupied e \<and> is_key e = k) (ix[i := ?e]) = Some i"
      using i by (intro find_index_SomeI) auto
    then show ?thesis using True i by (simp add: index_find_def)
  next
    case False
    have f: "find_index (\<lambda>e. is_occupied e \<and> is_key e = k') (ix[i := ?e]) = find_index (\<lambda>e. is_occupied e \<and> is_key e = k') ix"
      using False i(1,2) by (intro find_index_update_other) auto
    have "j \<noteq> i" if "find_index (\<lambda>e. is_occupied e \<and> is_key e = k') ix = Some j" for j
      using find_index_SomeD [OF that] False i(2) by auto
    then show ?thesis using False i(4) f by (cases "find_index (\<lambda>e. is_occupied e \<and> is_key e = k') ix") (auto simp: index_find_def)
  qed
qed

lemma index_put_count:
  "length (filter is_occupied (snd (index_put ix k v))) = length (filter is_occupied ix) + (if fst (index_put ix k v) then 1 else 0)"
  "length (snd (index_put ix k v)) = length ix"
proof -
  have "length (filter is_occupied (snd (index_put ix k v))) = length (filter is_occupied ix) + (if fst (index_put ix k v) then 1 else 0)
      \<and> length (snd (index_put ix k v)) = length ix"
  proof (cases "find_index (\<lambda>e. \<not> is_occupied e \<or> is_key e = k) ix")
    case (Some i)
    with find_index_SomeD [OF Some] length_filter_update [of i ix is_occupied "\<lparr>is_key = k, is_value = v, is_occupied = True\<rparr>"]
    show ?thesis by (auto simp: index_put_def split: if_splits)
  qed (simp add: index_put_def)
  then show "length (filter is_occupied (snd (index_put ix k v))) = length (filter is_occupied ix) + (if fst (index_put ix k v) then 1 else 0)"
    "length (snd (index_put ix k v)) = length ix" by simp_all
qed

lemma index_drop_count:
  "length (filter is_occupied (snd (index_drop ix k))) = length (filter is_occupied ix) - (if fst (index_drop ix k) then 1 else 0)"
  "length (snd (index_drop ix k)) = length ix"
proof -
  have "length (filter is_occupied (snd (index_drop ix k))) = length (filter is_occupied ix) - (if fst (index_drop ix k) then 1 else 0)
      \<and> length (snd (index_drop ix k)) = length ix"
  proof (cases "find_index (\<lambda>e. is_occupied e \<and> is_key e = k) ix")
    case (Some i)
    with find_index_SomeD [OF Some] length_filter_update [of i ix is_occupied "(ix ! i)\<lparr>is_occupied := False\<rparr>"]
    show ?thesis by (auto simp: index_drop_def split: if_splits)
  qed (simp add: index_drop_def)
  then show "length (filter is_occupied (snd (index_drop ix k))) = length (filter is_occupied ix) - (if fst (index_drop ix k) then 1 else 0)"
    "length (snd (index_drop ix k)) = length ix" by simp_all
qed

definition table_inv :: "address_lookup_table \<Rightarrow> bool" where
  "table_inv t \<longleftrightarrow> length (al_meshcore_index t) = MAX_KNOWN_ADDRESSES \<and> length (al_meshtastic_index t) = MAX_KNOWN_ADDRESSES
     \<and> length (al_reticulum_index t) = MAX_KNOWN_ADDRESSES \<and> al_count t = length (filter is_occupied (al_meshcore_index t))"

lemma from_public_key_simps:
  "ua_meshcore_addr (AddressTranslator_from_public_key hash junk pk) = AddressTranslator_derive_meshcore_address hash pk"
  "ua_meshtastic_id (AddressTranslator_from_public_key hash junk pk) = AddressTranslator_derive_meshtastic_id hash pk"
  "ua_reticulum_hash (AddressTranslator_from_public_key hash junk pk)
     = AddressTranslator_derive_reticulum_hash hash pk (ascii ''yours.messaging'')"
  by (simp_all add: AddressTranslator_from_public_key_def AddressTranslator_derive_meshcore_address_def
      AddressTranslator_derive_meshtastic_id_def AddressTranslator_derive_reticulum_hash_def Let_def)

lemma table_init_inv: "table_inv AddressLookupTable_init"
  by (simp add: table_inv_def AddressLookupTable_init_def filter_replicate)

lemma register_inv: "table_inv t \<Longrightarrow> table_inv (AddressLookupTable_register hash junk t pk)"
  by (simp add: table_inv_def AddressLookupTable_register_def split_beta Let_def index_put_count)

lemma unregister_inv: "table_inv t \<Longrightarrow> table_inv (AddressLookupTable_unregister hash junk t pk)"
  by (simp add: table_inv_def AddressLookupTable_unregister_def split_beta Let_def index_drop_count)

text \<open>A later registration takes a slot freed in front of the entry; the entry is then there twice, and
  unregistering frees only the first copy.\<close>

lemma index_stale:
  assumes "\<not> is_occupied a" "\<not> is_occupied b" "kA \<noteq> kB"
  shows "index_find (snd (index_drop (snd (index_put (snd (index_drop
     (snd (index_put (snd (index_put (a # b # ix) kA vA)) kB vB)) kA)) kB vB)) kB)) kB = Some vB"
  using assms by (simp add: index_find_def index_drop_def index_put_def)

section \<open>Properties\<close>

text \<open>A packet survives the wire: encoding stays inside the 237-byte buffer, and decoding what was
  encoded gives back type, hints and payload, and the hop count modulo 16. On any input the
  decoder stays inside it and yields a packet whose payload fits and whose hop count is at most 15.\<close>

theorem wire_packet_roundtrip:
  assumes "packet_wf p" "packet_wf out" "length junk = 237"
  shows "vec_wf 237 (WirePacket_encode junk p)
    \<and> (\<exists>q. WirePacket_decode out (vec_bytes (WirePacket_encode junk p)) = Ok q \<and> packet_wf q
         \<and> same_packet q (p\<lparr>wp_hop_count := wp_hop_count p AND 0x0F\<rparr>))
    \<and> WirePacket_decode out d \<noteq> Oob
    \<and> (WirePacket_decode out d = Ok r \<longrightarrow> packet_wf r \<and> wp_hop_count r \<le> 15)"
  using assms decode_safe by (simp add: encode_wire decode_wire)

definition sample_packet :: wire_packet where
  "sample_packet = \<lparr>wp_packet_type = PacketType_Control, wp_hop_count = 3, wp_next_hop_hint = 0x1234,
     wp_session_hint = 0xDEADBEEF, wp_payload = \<lparr>vdata = [1, 2, 3] @ zeros 211, vlen = 3\<rparr>\<rparr>"

theorem wire_packet_roundtrip_witness:
  "\<exists>q. WirePacket_decode sample_packet (vec_bytes (WirePacket_encode (zeros 237) sample_packet)) = Ok q
     \<and> wp_session_hint q = 0xDEADBEEF \<and> wp_hop_count q = 3"
proof -
  have "packet_wf sample_packet" by (simp add: packet_wf_def sample_packet_def vec_wf_def)
  from wire_packet_roundtrip [OF this this, of "zeros 237"] show ?thesis
    by (auto simp: same_packet_def sample_packet_def)
qed

text \<open>Registering a key in a table with room makes each of its three protocol addresses resolve
  to it and changes no other lookup; the count stays the number of occupied slots through every
  registration and removal.\<close>

theorem address_register_lookup:
  assumes "table_inv t"
    and "has_room (al_meshcore_index t) (AddressTranslator_derive_meshcore_address hash pk)"
    and "has_room (al_meshtastic_index t) (AddressTranslator_derive_meshtastic_id hash pk)"
    and "has_room (al_reticulum_index t) (slice (AddressTranslator_derive_reticulum_hash hash pk (ascii ''yours.messaging'')) 0 8)"
    and "t' = AddressLookupTable_register hash junk t pk"
  shows "AddressLookupTable_lookup_meshcore t'
      = (AddressLookupTable_lookup_meshcore t)(AddressTranslator_derive_meshcore_address hash pk \<mapsto> pk)
    \<and> AddressLookupTable_lookup_meshtastic t'
      = (AddressLookupTable_lookup_meshtastic t)(AddressTranslator_derive_meshtastic_id hash pk \<mapsto> pk)
    \<and> AddressLookupTable_lookup_reticulum t' h =
      (if slice h 0 8 = slice (AddressTranslator_derive_reticulum_hash hash pk (ascii ''yours.messaging'')) 0 8
       then Some pk else AddressLookupTable_lookup_reticulum t h)
    \<and> table_inv t' \<and> table_inv (AddressLookupTable_unregister hash junk t pk) \<and> al_count t' \<le> MAX_KNOWN_ADDRESSES"
proof -
  have "table_inv t'" using assms by (simp add: register_inv)
  moreover have "al_count t' \<le> MAX_KNOWN_ADDRESSES"
    using calculation length_filter_le [of is_occupied "al_meshcore_index t'"] by (simp add: table_inv_def)
  moreover have "AddressLookupTable_lookup_meshcore t' x
      = ((AddressLookupTable_lookup_meshcore t)(AddressTranslator_derive_meshcore_address hash pk \<mapsto> pk)) x"
    "AddressLookupTable_lookup_meshtastic t' y
      = ((AddressLookupTable_lookup_meshtastic t)(AddressTranslator_derive_meshtastic_id hash pk \<mapsto> pk)) y" for x y
    unfolding assms(5) using assms(2,3)
    by (simp_all add: AddressLookupTable_register_def AddressLookupTable_lookup_meshcore_def
        AddressLookupTable_lookup_meshtastic_def split_beta Let_def index_put_find from_public_key_simps)
  moreover have "AddressLookupTable_lookup_reticulum t' h =
      (if slice h 0 8 = slice (AddressTranslator_derive_reticulum_hash hash pk (ascii ''yours.messaging'')) 0 8
       then Some pk else AddressLookupTable_lookup_reticulum t h)"
    unfolding assms(5) using assms(4)
    by (simp add: AddressLookupTable_register_def AddressLookupTable_lookup_reticulum_def split_beta Let_def
        index_put_find from_public_key_simps)
  ultimately show ?thesis using assms(1) unregister_inv by (intro conjI ext) blast+
qed

definition sample_hash :: "bytes \<Rightarrow> bytes" where
  "sample_hash xs = replicate 32 (if xs = [] then 0 else last xs)"

lemma sample_hash_addresses:
  "AddressTranslator_derive_meshcore_address sample_hash (replicate 32 b) = push_bit 8 (ucast b) OR ucast b"
  "AddressTranslator_derive_meshtastic_id sample_hash (replicate 32 b)
     = push_bit 24 (ucast b) OR push_bit 16 (ucast b) OR push_bit 8 (ucast b) OR ucast b"
  "slice (AddressTranslator_derive_reticulum_hash sample_hash (replicate 32 b) app) 0 8 = replicate 8 b"
  by (simp_all add: AddressTranslator_derive_meshcore_address_def AddressTranslator_derive_meshtastic_id_def
      AddressTranslator_derive_reticulum_hash_def sample_hash_def slice_def)

theorem address_register_lookup_witness:
  "AddressLookupTable_lookup_meshcore (AddressLookupTable_register sample_hash (zeros 128) AddressLookupTable_init (replicate 32 7)) 0x0707
     = Some (replicate 32 7)"
proof -
  have r: "has_room (replicate 64 \<lparr>is_key = k, is_value = v, is_occupied = False\<rparr>) k'" for k v and k' :: 'k
    by (simp add: has_room_def)
  have "AddressTranslator_derive_meshcore_address sample_hash (replicate 32 7) = 0x0707"
    by (simp add: sample_hash_addresses)
  then show ?thesis
    using address_register_lookup [OF table_init_inv _ _ _ refl, of sample_hash "replicate 32 7"]
    by (simp add: AddressLookupTable_init_def r)
qed

text \<open>Removal is not reliable after slots have been freed: with two keys whose addresses differ,
  registering A and B, removing A and registering B again stores B twice, and removing B then
  leaves its second copy, so all three addresses of the removed key still resolve to it.\<close>

theorem address_unregister_stale:
  assumes "AddressTranslator_derive_meshcore_address hash a \<noteq> AddressTranslator_derive_meshcore_address hash b"
    and "AddressTranslator_derive_meshtastic_id hash a \<noteq> AddressTranslator_derive_meshtastic_id hash b"
    and "slice (AddressTranslator_derive_reticulum_hash hash a (ascii ''yours.messaging'')) 0 8
       \<noteq> slice (AddressTranslator_derive_reticulum_hash hash b (ascii ''yours.messaging'')) 0 8"
    and "t1 = AddressLookupTable_register hash junk AddressLookupTable_init a"
    and "t2 = AddressLookupTable_register hash junk t1 b"
    and "t3 = AddressLookupTable_unregister hash junk t2 a"
    and "t4 = AddressLookupTable_register hash junk t3 b"
    and "t5 = AddressLookupTable_unregister hash junk t4 b"
  shows "AddressLookupTable_lookup t5 (ProtocolAddress_MeshCore (AddressTranslator_derive_meshcore_address hash b)) = Some b
    \<and> AddressLookupTable_lookup t5 (ProtocolAddress_Meshtastic (AddressTranslator_derive_meshtastic_id hash b)) = Some b
    \<and> AddressLookupTable_lookup t5 (ProtocolAddress_Reticulum
        (AddressTranslator_derive_reticulum_hash hash b (ascii ''yours.messaging''))) = Some b"
proof -
  have split: "replicate 64 e = e # e # replicate 62 e" for e :: "'k index_slot" by (simp add: numeral_eq_Suc)
  show ?thesis
    using index_stale [OF _ _ assms(1)] index_stale [OF _ _ assms(2)] index_stale [OF _ _ assms(3)]
    by (simp add: assms(4-8) AddressLookupTable_register_def AddressLookupTable_unregister_def
        AddressLookupTable_lookup_meshcore_def AddressLookupTable_lookup_meshtastic_def
        AddressLookupTable_lookup_reticulum_def AddressLookupTable_init_def split split_beta Let_def from_public_key_simps)
qed

theorem address_unregister_stale_witness:
  "\<exists>t. AddressLookupTable_lookup (AddressLookupTable_unregister sample_hash (zeros 128) t (replicate 32 9))
     (ProtocolAddress_MeshCore 0x0909) = Some (replicate 32 9)"
proof -
  have "AddressTranslator_derive_meshcore_address sample_hash (replicate 32 9) = 0x0909"
    by (simp add: sample_hash_addresses)
  then show ?thesis
    using address_unregister_stale [of sample_hash "replicate 32 7" "replicate 32 9" _ "zeros 128", OF _ _ _ refl refl refl refl refl]
    by (auto simp: sample_hash_addresses)
qed

text \<open>Signal quality is a percentage that never decreases when the signal strength or the
  signal-to-noise ratio increases, 0 at or below -120 dBm and -20 dB and 100 from -50 dBm and 10 dB on.\<close>

theorem signal_quality_percentage:
  "sq_quality (SignalQuality_new rssi snr) \<le> 100
   \<and> (rssi \<le> rssi' \<and> snr \<le> snr' \<longrightarrow> sq_quality (SignalQuality_new rssi snr) \<le> sq_quality (SignalQuality_new rssi' snr'))
   \<and> (rssi \<le> -120 \<and> snr \<le> -20 \<longrightarrow> sq_quality (SignalQuality_new rssi snr) = 0)
   \<and> (-50 \<le> rssi \<and> 10 \<le> snr \<longrightarrow> sq_quality (SignalQuality_new rssi snr) = 100)"
proof -
  define rn where "rn r = nat ((max (-120) (min (-50) r) + 120) * 100 div 70)" for r :: int
  define sn where "sn r = nat ((max (-20) (min 10 r) + 20) * 100 div 30)" for r :: int
  have b: "rn r \<le> 100" "sn s \<le> 100" for r s by (auto simp: rn_def sn_def max_def min_def)
  have q: "sq_quality (SignalQuality_new r s) = (rn r + sn s) div 2" for r s
  proof -
    have "(max (-120) (min (-50) r) + 120) mod 65536 = max (-120) (min (-50) r) + 120"
      "(max (-20) (min 10 s) + 20) mod 65536 = max (-20) (min 10 s) + 20" by (simp_all add: max_def min_def)
    moreover have "(if (if r < -120 then -120 else r) > -50 then -50 else (if r < -120 then -120 else r)) = max (-120) (min (-50) r)"
      "(if (if s < -20 then -20 else s) > 10 then 10 else (if s < -20 then -20 else s)) = max (-20) (min 10 s)"
      by (auto simp: max_def min_def)
    ultimately have "sq_quality (SignalQuality_new r s) = ((rn r mod 256 + sn s mod 256) div 2) mod 256"
      by (simp only: SignalQuality_new_def Let_def rn_def sn_def signal_quality.simps)
    with b(1) [of r] b(2) [of s] show ?thesis by simp
  qed
  have m: "rn r \<le> rn r'" if "r \<le> r'" for r r'
    unfolding rn_def using that by (intro nat_mono zdiv_mono1 mult_right_mono) (auto simp: max_def min_def)
  have n: "sn s \<le> sn s'" if "s \<le> s'" for s s'
    unfolding sn_def using that by (intro nat_mono zdiv_mono1 mult_right_mono) (auto simp: max_def min_def)
  have z: "rn r = 0" "sn s = 0" if "r \<le> -120" "s \<le> -20" for r s
    using that by (simp_all add: rn_def sn_def max_def min_def)
  have o: "rn r = 100" "sn s = 100" if "-50 \<le> r" "10 \<le> s" for r s
    using that by (simp_all add: rn_def sn_def max_def min_def)
  have "(rn rssi + sn snr) div 2 \<le> 100" using b(1) [of rssi] b(2) [of snr] by linarith
  moreover have "(rn rssi + sn snr) div 2 \<le> (rn rssi' + sn snr') div 2" if "rssi \<le> rssi'" "snr \<le> snr'"
    using m [OF that(1)] n [OF that(2)] by linarith
  ultimately show ?thesis unfolding q using z [of rssi snr] o [of rssi snr] by simp
qed

theorem signal_quality_percentage_witness:
  "sq_quality (SignalQuality_new (-90) 5) \<le> sq_quality (SignalQuality_new (-80) 5)"
  using signal_quality_percentage [of "-90" 5 "-80" 5] by simp

end
