(* ===== verification/Packet_Id.thy ===== *)
theory Packet_Id
  imports Lunar_Prelude
begin

unbundle bit_operations_syntax

text \<open>
  Packet identifiers of \<^verbatim>\<open>lunar/packet_id.c\<close>: a random session identifier and a sequence number, kept
  in atomics and partly in the RTC memory that survives deep sleep. A wake-up skips 256
  sequence numbers, because the sequence is stored only when its low byte is zero. The
  operations are modelled as run one after the other; the values the hardware random generator
  and the RTC clock deliver to an operation are its argument \<open>e\<close>.
\<close>

section \<open>State\<close>

abbreviation RTC_MAGIC :: u32 where "RTC_MAGIC \<equiv> 0x4C554E42"
abbreviation MAX_SEQUENCE :: u32 where "MAX_SEQUENCE \<equiv> 0xFFFFFFFE"
abbreviation WAKE_SEQUENCE_SKIP :: u32 where "WAKE_SEQUENCE_SKIP \<equiv> 256"

datatype rtc_slot = RTC_SLOT_SESSION_HI | RTC_SLOT_SESSION_LO | RTC_SLOT_SEQUENCE | RTC_SLOT_BOOT_COUNT | RTC_SLOT_MAGIC

text \<open>Static variables and the RTC slots.\<close>

record pid_state =
  pi_session :: u32
  pi_sequence :: u32
  pi_boot_count :: u32
  pi_initialized :: bool
  pi_rtc :: "rtc_slot \<Rightarrow> u32"

text \<open>Up to three random numbers and one reading of the clock.\<close>

record entropy =
  en_random1 :: u32
  en_random2 :: u32
  en_time :: u32
  en_random3 :: u32

section \<open>Operations\<close>

definition rtc_read :: "pid_state \<Rightarrow> rtc_slot \<Rightarrow> u32" where
  "rtc_read s slot = pi_rtc s slot"

definition rtc_write :: "rtc_slot \<Rightarrow> u32 \<Rightarrow> pid_state \<Rightarrow> pid_state" where
  "rtc_write slot value s = s\<lparr>pi_rtc := (pi_rtc s)(slot := value)\<rparr>"

definition hw_rng_raw :: "u32 \<Rightarrow> u32 \<Rightarrow> u32" where
  "hw_rng_raw r1 r2 = r1 XOR (push_bit 13 r2 OR drop_bit (32 - 13) r2)"

definition mix32 :: "u32 \<Rightarrow> u32" where
  "mix32 x =
     (let x = x XOR drop_bit 16 x;
          x = x * 0x85EBCA6B;
          x = x XOR drop_bit 13 x;
          x = x * 0xC2B2AE35;
          x = x XOR drop_bit 16 x
      in x)"

definition generate_session_id :: "entropy \<Rightarrow> u32 \<Rightarrow> u32 \<Rightarrow> u32" where
  "generate_session_id e previous boot_count =
     (let boot_entropy = boot_count * 0x9E3779B9;
          mixed = en_random1 e XOR boot_entropy XOR en_time e XOR (previous * 0x85EBCA6B);
          mixed = mix32 mixed;
          mixed = mix32 (mixed XOR en_random2 e)
      in if mixed = 0 then mix32 (en_random3 e) OR 1 else mixed)"

record packet_id_state =
  ps_session_id :: u32
  ps_sequence_no :: u32
  ps_boots :: u32

definition PacketIdState_persist :: "packet_id_state \<Rightarrow> pid_state \<Rightarrow> pid_state" where
  "PacketIdState_persist self s =
     rtc_write RTC_SLOT_SEQUENCE (ps_sequence_no self) (rtc_write RTC_SLOT_SESSION_HI (ps_session_id self) s)"

definition PacketIdState_new_session :: "entropy \<Rightarrow> packet_id_state \<Rightarrow> pid_state \<Rightarrow> packet_id_state \<times> pid_state" where
  "PacketIdState_new_session e self s =
     (let boot_entropy = ps_boots self * 0x9E3779B9;
          mixed = en_random1 e XOR boot_entropy XOR en_time e XOR (ps_session_id self * 0x85EBCA6B);
          mixed = mix32 mixed;
          mixed = mix32 (mixed XOR en_random2 e);
          self = self\<lparr>ps_session_id := mixed\<rparr>;
          self = (if ps_session_id self = 0 then self\<lparr>ps_session_id := mix32 (en_random3 e) OR 1\<rparr> else self);
          self = self\<lparr>ps_sequence_no := 0\<rparr>;
          s = rtc_write RTC_SLOT_SESSION_HI (ps_session_id self) s;
          s = rtc_write RTC_SLOT_SEQUENCE (ps_sequence_no self) s
      in (self, s))"

definition PacketIdState_to_u64 :: "packet_id_state \<Rightarrow> u64" where
  "PacketIdState_to_u64 self = push_bit 32 (ucast (ps_session_id self)) OR ucast (ps_sequence_no self)"

definition rotate_session_internal :: "entropy \<Rightarrow> pid_state \<Rightarrow> pid_state" where
  "rotate_session_internal e s =
     (let new_session = generate_session_id e (pi_session s) (pi_boot_count s);
          s = s\<lparr>pi_session := new_session\<rparr>;
          s = s\<lparr>pi_sequence := 0\<rparr>;
          s = rtc_write RTC_SLOT_SESSION_HI new_session s
      in rtc_write RTC_SLOT_SEQUENCE 0 s)"

text \<open>The session, sequence and boot count \<^verbatim>\<open>init\<close> decides on, and the state with the magic written.\<close>

definition init_values :: "entropy \<Rightarrow> pid_state \<Rightarrow> u32 \<times> u32 \<times> u32 \<times> pid_state" where
  "init_values e s =
     (if rtc_read s RTC_SLOT_MAGIC = RTC_MAGIC then
        let stored_session = rtc_read s RTC_SLOT_SESSION_HI;
            stored_sequence = rtc_read s RTC_SLOT_SEQUENCE;
            stored_boot_count = rtc_read s RTC_SLOT_BOOT_COUNT;
            boot_count = stored_boot_count + 1
        in if stored_sequence \<ge> MAX_SEQUENCE
           then (generate_session_id e stored_session boot_count, 0, boot_count, s)
           else let new_sequence = stored_sequence + WAKE_SEQUENCE_SKIP;
                    new_sequence = (if new_sequence < stored_sequence then MAX_SEQUENCE else new_sequence)
                in (stored_session, new_sequence, boot_count, s)
      else (generate_session_id e 0 0, 0, 0, rtc_write RTC_SLOT_MAGIC RTC_MAGIC s))"

definition init :: "entropy \<Rightarrow> pid_state \<Rightarrow> pid_state" where
  "init e s =
     (if pi_initialized s then s
      else
        let s = s\<lparr>pi_initialized := True\<rparr>;
            (session_id, sequence, boot_count, s) = init_values e s;
            s = s\<lparr>pi_boot_count := boot_count\<rparr>;
            s = rtc_write RTC_SLOT_BOOT_COUNT boot_count s;
            s = s\<lparr>pi_session := session_id\<rparr>;
            s = s\<lparr>pi_sequence := sequence\<rparr>;
            s = rtc_write RTC_SLOT_SESSION_HI session_id s
        in rtc_write RTC_SLOT_SEQUENCE sequence s)"

text \<open>\<open>e1\<close> serves the initialisation, \<open>e2\<close> a rotation.\<close>

definition next_packet_id :: "entropy \<Rightarrow> entropy \<Rightarrow> pid_state \<Rightarrow> u32 \<times> pid_state" where
  "next_packet_id e1 e2 s =
     (let s = init e1 s;
          sequence = pi_sequence s;
          s = s\<lparr>pi_sequence := sequence + 1\<rparr>;
          session_id = pi_session s;
          s = (if sequence \<ge> MAX_SEQUENCE then rotate_session_internal e2 s else s);
          s = (if sequence AND 0xFF = 0
               then rtc_write RTC_SLOT_SEQUENCE sequence (rtc_write RTC_SLOT_SESSION_HI session_id s) else s)
      in (mix32 (session_id XOR (sequence * 0x85EBCA6B)), s))"

definition rotate_session :: "entropy \<Rightarrow> entropy \<Rightarrow> pid_state \<Rightarrow> pid_state" where
  "rotate_session e1 e2 s = rotate_session_internal e2 (init e1 s)"

definition session_info :: "entropy \<Rightarrow> pid_state \<Rightarrow> (u32 \<times> u32 \<times> u32) \<times> pid_state" where
  "session_info e s = (let s = init e s in ((pi_session s, pi_sequence s, pi_boot_count s), s))"

definition next_packet_id_64 :: "entropy \<Rightarrow> entropy \<Rightarrow> pid_state \<Rightarrow> u64 \<times> pid_state" where
  "next_packet_id_64 e1 e2 s =
     (let s = init e1 s;
          sequence = pi_sequence s;
          s = s\<lparr>pi_sequence := sequence + 1\<rparr>;
          session_id = pi_session s;
          s = (if sequence \<ge> MAX_SEQUENCE then rotate_session_internal e2 s else s)
      in (push_bit 32 (ucast session_id) OR ucast sequence, s))"

definition invalidate_rtc :: "pid_state \<Rightarrow> pid_state" where
  "invalidate_rtc s = rtc_write RTC_SLOT_MAGIC 0 s"

text \<open>Waking from deep sleep: the static variables have their initial values again, the RTC memory is kept.\<close>

definition wake :: "pid_state \<Rightarrow> pid_state" where
  "wake s = s\<lparr>pi_session := 0, pi_sequence := 0, pi_boot_count := 0, pi_initialized := False\<rparr>"

section \<open>The mixing function is a bijection\<close>

lemma xorshift_inv: "(x XOR drop_bit 16 x) XOR drop_bit 16 (x XOR drop_bit 16 x) = (x :: u32)"
  by (rule bit_word_eqI) (auto simp: bit_simps dest: bit_imp_le_length)

lemma xorshift13_inv:
  "(x XOR drop_bit 13 x) XOR drop_bit 13 (x XOR drop_bit 13 x) XOR drop_bit 26 (x XOR drop_bit 13 x) = (x :: u32)"
  by (rule bit_word_eqI) (auto simp: bit_simps dest: bit_imp_le_length)

lemma unit_cancel:
  assumes "(c :: u32) * d = 1"
  shows "x * c = y * c \<longleftrightarrow> x = y"
proof
  assume "x * c = y * c"
  then have "x * (c * d) = y * (c * d)" by (simp only: mult.assoc [symmetric])
  then show "x = y" using assms by simp
qed simp

lemma mult_cancel: "(x :: u32) * 0x85EBCA6B = y * 0x85EBCA6B \<longleftrightarrow> x = y" "x * 0xC2B2AE35 = y * 0xC2B2AE35 \<longleftrightarrow> x = y"
proof -
  show "x * 0x85EBCA6B = y * 0x85EBCA6B \<longleftrightarrow> x = y" by (rule unit_cancel [where d = "0xA5CB9243"]) simp
  show "x * 0xC2B2AE35 = y * 0xC2B2AE35 \<longleftrightarrow> x = y" by (rule unit_cancel [where d = "0x7ED1B41D"]) simp
qed

lemma mix32_inj: "mix32 x = mix32 y \<longleftrightarrow> x = y"
proof -
  have 1: "a XOR drop_bit 16 a = b XOR drop_bit 16 b \<longleftrightarrow> a = b" for a b :: u32 by (metis xorshift_inv)
  have 2: "a XOR drop_bit 13 a = b XOR drop_bit 13 b \<longleftrightarrow> a = b" for a b :: u32 by (metis xorshift13_inv)
  show ?thesis by (simp only: mix32_def Let_def 1 2 mult_cancel)
qed

lemma generate_session_id_nonzero: "generate_session_id e p b \<noteq> 0"
proof -
  have "mix32 x OR 1 \<noteq> 0" for x by (simp add: or_eq_0_iff)
  then show ?thesis by (auto simp: generate_session_id_def Let_def)
qed

section \<open>What the operations do to the sequence\<close>

text \<open>The number the next packet gets, counting the skip a pending wake-up will make.\<close>

definition persisted :: "pid_state \<Rightarrow> nat" where
  "persisted s = unat (pi_rtc s RTC_SLOT_SEQUENCE)"

definition next_seq :: "pid_state \<Rightarrow> nat" where
  "next_seq s = (if pi_initialized s then unat (pi_sequence s) else persisted s + 256)"

definition session :: "pid_state \<Rightarrow> u32" where
  "session s = (if pi_initialized s then pi_session s else pi_rtc s RTC_SLOT_SESSION_HI)"

text \<open>The stored sequence is behind by at most the distance to the next multiple of 256.\<close>

definition pid_inv :: "pid_state \<Rightarrow> bool" where
  "pid_inv s \<longleftrightarrow> pi_rtc s RTC_SLOT_MAGIC = RTC_MAGIC
     \<and> (pi_initialized s \<longrightarrow> pi_rtc s RTC_SLOT_SESSION_HI = pi_session s
          \<and> persisted s \<le> unat (pi_sequence s) \<and> unat (pi_sequence s) \<le> 256 * (persisted s div 256) + 256)"

lemma init_inv: "\<not> pi_initialized s \<Longrightarrow> pid_inv (init e s) \<and> pi_initialized (init e s)"
  by (auto simp: init_def init_values_def rtc_read_def rtc_write_def Let_def pid_inv_def persisted_def)

lemma init_initialized [simp]: "pi_initialized s \<Longrightarrow> init e s = s"
  by (simp add: init_def)

text \<open>Waking up with a stored sequence that leaves room continues the session at the skipped number.\<close>

lemma init_wake:
  assumes "pid_inv s" "\<not> pi_initialized s" "next_seq s < unat MAX_SEQUENCE"
  shows "next_seq (init e s) = next_seq s \<and> session (init e s) = session s"
proof -
  let ?q = "pi_rtc s RTC_SLOT_SEQUENCE"
  have b: "unat ?q + 256 < 4294967294" using assms(2,3) by (simp add: next_seq_def persisted_def)
  then have u: "unat (?q + 256) = unat ?q + 256" by (simp add: unat_word_ariths)
  moreover have "\<not> ?q + 256 < ?q" "\<not> MAX_SEQUENCE \<le> ?q"
    using b u by (simp_all add: word_less_nat_alt word_le_nat_alt)
  ultimately show ?thesis using assms(1,2)
    by (simp add: init_def init_values_def rtc_read_def rtc_write_def Let_def pid_inv_def next_seq_def session_def persisted_def)
qed

lemma init_inv': "pid_inv s \<Longrightarrow> pid_inv (init e s) \<and> pi_initialized (init e s)"
  using init_inv [of s e] by (cases "pi_initialized s") auto

lemma init_next:
  "pid_inv s \<Longrightarrow> next_seq s < unat MAX_SEQUENCE \<Longrightarrow> next_seq (init e s) = next_seq s \<and> session (init e s) = session s"
  using init_wake [of s e] by (cases "pi_initialized s") auto

lemma mod_256: "(q :: u32) AND 0xFF = 0 \<longleftrightarrow> unat q mod 256 = 0"
proof -
  have "unat (q AND 0xFF) = unat q mod 256"
    unfolding mask8 by (simp only: take_bit_eq_mask [symmetric] unsigned_take_bit_eq) (simp add: take_bit_eq_mod)
  then show ?thesis by (metis unat_0_iff)
qed

lemma next_packet_step:
  assumes "pid_inv s" "next_seq s < unat MAX_SEQUENCE" "next_packet_id e1 e2 s = (p, s')"
  shows "pid_inv s'" "next_seq s' = Suc (next_seq s)" "session s' = session s"
    "p = mix32 (session s XOR (of_nat (next_seq s) * 0x85EBCA6B))"
proof -
  let ?t = "init e1 s"
  from init_inv' [OF assms(1)] init_next [OF assms(1,2)]
  have t: "pid_inv ?t" "pi_initialized ?t" "next_seq ?t = next_seq s" "session ?t = session s" by auto
  let ?q = "pi_sequence ?t"
  have q: "unat ?q = next_seq s" "unat ?q < 4294967294" using t assms(2) by (simp_all add: next_seq_def)
  then have lt: "\<not> MAX_SEQUENCE \<le> ?q" and suc: "unat (?q + 1) = Suc (unat ?q)"
    by (simp_all add: word_le_nat_alt unat_word_ariths)
  have of: "of_nat (next_seq s) = ?q" using q(1) by (metis of_nat_unat ucast_id)
  have s': "s' = (let s = ?t\<lparr>pi_sequence := ?q + 1\<rparr> in if ?q AND 0xFF = 0
      then rtc_write RTC_SLOT_SEQUENCE ?q (rtc_write RTC_SLOT_SESSION_HI (pi_session ?t) s) else s)"
    and p: "p = mix32 (pi_session ?t XOR (?q * 0x85EBCA6B))"
    using assms(3) lt by (auto simp: next_packet_id_def Let_def)
  show "p = mix32 (session s XOR (of_nat (next_seq s) * 0x85EBCA6B))" using p t of by (simp add: session_def)
  show "next_seq s' = Suc (next_seq s)" "session s' = session s"
    using s' t suc q by (auto simp: next_seq_def session_def rtc_write_def Let_def split: if_splits)
  have "unat ?q < 256 * (persisted ?t div 256) + 256" if "unat ?q mod 256 \<noteq> 0"
    using t(1,2) that unfolding pid_inv_def by (metis add.commute le_neq_implies_less mod_mult_self2 mod_self)
  then show "pid_inv s'"
    using s' t(1,2) suc by (auto simp: pid_inv_def persisted_def rtc_write_def Let_def mod_256 split: if_splits)
qed

lemma wake_step:
  assumes "pid_inv s"
  shows "pid_inv (wake s)" "next_seq s \<le> next_seq (wake s)" "next_seq (wake s) \<le> next_seq s + 256" "session (wake s) = session s"
proof -
  have "256 * (persisted s div 256) \<le> persisted s" by simp
  then show "pid_inv (wake s)" "next_seq s \<le> next_seq (wake s)" "next_seq (wake s) \<le> next_seq s + 256" "session (wake s) = session s"
    using assms by (auto simp: pid_inv_def wake_def next_seq_def session_def persisted_def)
qed

section \<open>Histories\<close>

datatype pid_event = Next entropy entropy | Sleep

fun run_pid :: "pid_state \<Rightarrow> pid_event list \<Rightarrow> u32 list \<times> pid_state" where
  "run_pid s [] = ([], s)"
| "run_pid s (Next e1 e2 # evs) =
     (let (p, s) = next_packet_id e1 e2 s; (ps, s) = run_pid s evs in (p # ps, s))"
| "run_pid s (Sleep # evs) = run_pid (wake s) evs"

definition id_of :: "u32 \<Rightarrow> nat \<Rightarrow> u32" where
  "id_of sess n = mix32 (sess XOR (of_nat n * 0x85EBCA6B))"

lemma xor_left_cancel: "(a :: u32) XOR b = a XOR c \<longleftrightarrow> b = c"
  by (metis xor.assoc xor_self_eq xor.left_neutral)

lemma id_of_inj: "m < 4294967296 \<Longrightarrow> n < 4294967296 \<Longrightarrow> id_of sess m = id_of sess n \<longleftrightarrow> m = n"
proof -
  assume "m < 4294967296" "n < 4294967296"
  then have "(of_nat m :: u32) = of_nat n \<longleftrightarrow> m = n" by (simp add: word_of_nat_eq_iff take_bit_nat_eq_self)
  then show ?thesis by (simp only: id_of_def mix32_inj xor_left_cancel mult_cancel)
qed

lemma run_pid_ids:
  "pid_inv s \<Longrightarrow> next_seq s + 256 * length evs < unat MAX_SEQUENCE \<Longrightarrow>
   \<exists>ns. fst (run_pid s evs) = map (id_of (session s)) ns \<and> sorted_wrt (<) ns
     \<and> (\<forall>n\<in>set ns. next_seq s \<le> n \<and> n < next_seq s + 256 * length evs)"
proof (induction s evs rule: run_pid.induct)
  case (1 s)
  then show ?case by simp
next
  case (2 s e1 e2 evs)
  obtain p s' where n: "next_packet_id e1 e2 s = (p, s')" by fastforce
  note st = next_packet_step [OF "2.prems"(1) _ n]
  have lt: "next_seq s < unat MAX_SEQUENCE" using "2.prems"(2) by simp
  from "2.IH" [OF n [symmetric] refl] st [OF lt] "2.prems"(2) obtain ns where
    ns: "fst (run_pid s' evs) = map (id_of (session s')) ns" "sorted_wrt (<) ns"
      "\<forall>n\<in>set ns. next_seq s' \<le> n \<and> n < next_seq s' + 256 * length evs" by auto
  have "fst (run_pid s (Next e1 e2 # evs)) = map (id_of (session s)) (next_seq s # ns)"
    using n ns(1) st [OF lt] by (simp add: split_beta id_of_def)
  moreover have "sorted_wrt (<) (next_seq s # ns)" "\<forall>n\<in>set (next_seq s # ns). next_seq s \<le> n \<and> n < next_seq s + 256 * length (Next e1 e2 # evs)"
    using ns(2,3) st(2) [OF lt] by auto
  ultimately show ?case by blast
next
  case (3 s evs)
  note w = wake_step [OF "3.prems"(1)]
  from "3.IH" [OF w(1)] w "3.prems"(2) obtain ns where
    "fst (run_pid (wake s) evs) = map (id_of (session s)) ns" "sorted_wrt (<) ns"
      "\<forall>n\<in>set ns. next_seq (wake s) \<le> n \<and> n < next_seq (wake s) + 256 * length evs" by auto
  with w(2,3) show ?case by fastforce
qed

fun run_64 :: "entropy \<Rightarrow> nat \<Rightarrow> pid_state \<Rightarrow> u64 list \<times> pid_state" where
  "run_64 e 0 s = ([], s)"
| "run_64 e (Suc n) s = (let (p, s) = next_packet_id_64 e e s; (ps, s) = run_64 e n s in (p # ps, s))"

lemma run_64_ids:
  "pi_initialized s \<Longrightarrow> unat (pi_sequence s) + n < unat MAX_SEQUENCE \<Longrightarrow>
   run_64 e n s = (map (\<lambda>i. push_bit 32 (ucast (pi_session s)) OR ucast (pi_sequence s + of_nat i)) [0..<n],
     s\<lparr>pi_sequence := pi_sequence s + of_nat n\<rparr>)"
proof (induction n arbitrary: s)
  case 0
  then show ?case by simp
next
  case (Suc n)
  have lt: "\<not> MAX_SEQUENCE \<le> pi_sequence s" using Suc.prems by (simp add: word_le_nat_alt)
  have u: "unat (pi_sequence s + 1) = Suc (unat (pi_sequence s))" using Suc.prems(2) by (simp add: unat_word_ariths)
  have "[0..<Suc n] = 0 # map Suc [0..<n]" by (metis map_Suc_upt upt_conv_Cons zero_less_Suc)
  then show ?case using Suc.IH [of "s\<lparr>pi_sequence := pi_sequence s + 1\<rparr>"] Suc.prems lt u
    by (simp add: next_packet_id_64_def Let_def comp_def add.assoc del: upt_Suc)
qed

section \<open>Properties\<close>

text \<open>The mixing of packet identifiers loses nothing: it is injective on 32-bit words, so
  distinct sequence numbers of a session get distinct identifiers.\<close>

theorem mix32_injective: "inj mix32 \<and> bij mix32"
proof -
  have "inj mix32" by (simp add: inj_def mix32_inj)
  moreover have "finite (UNIV :: u32 set)" by simp
  ultimately show ?thesis by (simp add: bij_def finite_UNIV_inj_surj)
qed

text \<open>C8. From a boot on, over any history of packets sent and deep sleeps, all identifiers
  \<^verbatim>\<open>next_packet_id\<close> hands out are pairwise distinct, as long as the sequence, counted with 256 numbers
  for each packet or sleep, stays below MAX_SEQUENCE: the skip on waking covers every number used since the
  sequence was last stored. Nothing is claimed for what follows the rotation to a new random session there.\<close>

theorem packet_ids_unique:
  assumes "\<not> pi_initialized s0" "s = init e s0"
    and "unat (pi_sequence s) + 256 * length evs < unat MAX_SEQUENCE"
  shows "distinct (fst (run_pid s evs))"
proof -
  from init_inv [OF assms(1), of e] have s: "pid_inv s" "next_seq s = unat (pi_sequence s)"
    by (auto simp: assms(2) next_seq_def)
  from run_pid_ids [OF s(1), of evs] s(2) assms(3) obtain ns where
    ns: "fst (run_pid s evs) = map (id_of (session s)) ns" "sorted_wrt (<) ns" "\<forall>n\<in>set ns. n < 4294967294" by fastforce
  have "distinct ns" using ns(2) by (simp add: strict_sorted_iff)
  moreover have "inj_on (id_of (session s)) (set ns)"
  proof (rule inj_onI)
    fix x y assume "x \<in> set ns" "y \<in> set ns" "id_of (session s) x = id_of (session s) y"
    moreover from this ns(3) have "x < 4294967296" "y < 4294967296" by fastforce+
    ultimately show "x = y" by (simp add: id_of_inj)
  qed
  ultimately show ?thesis by (simp add: ns(1) distinct_map)
qed

definition sample_entropy :: entropy where
  "sample_entropy = \<lparr>en_random1 = 1, en_random2 = 2, en_time = 3, en_random3 = 4\<rparr>"

definition sample_boot :: pid_state where
  "sample_boot = \<lparr>pi_session = 0, pi_sequence = 0, pi_boot_count = 0, pi_initialized = False, pi_rtc = (\<lambda>_. 0)\<rparr>"

lemma sample_boot_sequence: "pi_sequence (init sample_entropy sample_boot) = 0"
  by (simp add: init_def init_values_def sample_boot_def rtc_read_def rtc_write_def Let_def)

theorem packet_ids_unique_witness:
  "distinct (fst (run_pid (init sample_entropy sample_boot)
     [Next sample_entropy sample_entropy, Sleep, Next sample_entropy sample_entropy, Next sample_entropy sample_entropy]))"
  by (rule packet_ids_unique [OF _ refl]) (simp_all add: sample_boot_sequence sample_boot_def [THEN arg_cong [where f = pi_initialized]])

text \<open>C16. The 64-bit identifiers do not have this: \<^verbatim>\<open>next_packet_id_64\<close> never stores the sequence,
  so after a fresh boot, 257 identifiers and a deep sleep, the next identifier is one that was
  already handed out.\<close>

theorem packet_id_64_repeats_after_wake:
  assumes "\<not> pi_initialized s0" "pi_rtc s0 RTC_SLOT_MAGIC \<noteq> RTC_MAGIC"
    and "run_64 e 257 (init e s0) = (ids, s')"
  shows "fst (next_packet_id_64 e e (wake s')) \<in> set ids"
proof -
  let ?s = "init e s0"
  have s: "pi_initialized ?s" "pi_sequence ?s = 0" "pi_rtc ?s RTC_SLOT_MAGIC = RTC_MAGIC" "pi_rtc ?s RTC_SLOT_SEQUENCE = 0"
    "pi_rtc ?s RTC_SLOT_SESSION_HI = pi_session ?s"
    using assms(1,2) by (simp_all add: init_def init_values_def rtc_read_def rtc_write_def Let_def)
  from run_64_ids [of ?s 257 e] s(1,2) assms(3)
  have ids: "ids = map (\<lambda>i. push_bit 32 (ucast (pi_session ?s)) OR ucast (of_nat i :: u32)) [0..<257]"
    and s': "s' = ?s\<lparr>pi_sequence := of_nat 257\<rparr>" by (auto simp del: upt_Suc upt_rec_numeral of_nat_numeral)
  have "fst (next_packet_id_64 e e (wake s')) = push_bit 32 (ucast (pi_session ?s)) OR ucast (256 :: u32)"
    using s by (simp add: s' wake_def next_packet_id_64_def init_def init_values_def rtc_read_def rtc_write_def Let_def split_beta)
  also have "\<dots> = push_bit 32 (ucast (pi_session ?s)) OR ucast (of_nat 256 :: u32)" by simp
  also have "\<dots> \<in> set ids" unfolding ids set_map by (rule imageI) simp
  finally show ?thesis .
qed

theorem packet_id_64_repeats_after_wake_witness:
  "fst (next_packet_id_64 sample_entropy sample_entropy (wake (snd (run_64 sample_entropy 257 (init sample_entropy sample_boot)))))
     \<in> set (fst (run_64 sample_entropy 257 (init sample_entropy sample_boot)))"
  by (rule packet_id_64_repeats_after_wake [of sample_boot]) (simp_all add: sample_boot_def)

end
