(* ===== verification/Mesh_Packet.thy ===== *)
theory Mesh_Packet
  imports Vec_Helpers Byte_Codec Hmac
begin

unbundle bit_operations_syntax

text \<open>
  Meshtastic packets of \<^verbatim>\<open>lunar/meshtastic/packet.c\<close>: the LoRa packet with its header and integrity
  code, the ring of recently seen packets, the routing decision, the counters, and the table of
  packets waiting for an acknowledgement.
\<close>

section \<open>Data\<close>

abbreviation LORA_HEADER_SIZE :: nat where "LORA_HEADER_SIZE \<equiv> 17"
abbreviation MAX_LORA_PAYLOAD :: nat where "MAX_LORA_PAYLOAD \<equiv> 237"
abbreviation MIC_SIZE :: nat where "MIC_SIZE \<equiv> 4"
abbreviation VEC_MAX_CAPACITY :: nat where "VEC_MAX_CAPACITY \<equiv> 256"
abbreviation PACKET_CACHE_SIZE :: nat where "PACKET_CACHE_SIZE \<equiv> 32"
abbreviation ACK_TRACKER_SIZE :: nat where "ACK_TRACKER_SIZE \<equiv> 8"

datatype priority = PRIORITY_DEFAULT | PRIORITY_HIGH | PRIORITY_LOW

datatype packet_payload_type = PACKET_PAYLOAD_ENCRYPTED | PACKET_PAYLOAD_DECRYPTED

record packet_payload =
  pp_type :: packet_payload_type
  pp_data :: cvec

text \<open>The only signal-to-noise value the file stores is \<^verbatim>\<open>0.0f\<close>.\<close>

record mesh_packet =
  mp_from :: u32
  mp_to :: u32
  mp_channel :: byte
  mp_id :: u32
  mp_hop_limit :: byte
  mp_want_ack :: bool
  mp_priority :: priority
  mp_rx_time :: u32
  mp_rx_snr :: int
  mp_rx_rssi :: int
  mp_payload :: packet_payload

datatype routing_decision = ROUTING_DECISION_LOCAL | ROUTING_DECISION_FORWARD | ROUTING_DECISION_DROP

text \<open>An entry of the ring: sender, packet identifier, time.\<close>

record packet_cache =
  pc_entries :: "(u32 \<times> u32 \<times> u32) list"
  pc_index :: nat

record packet_stats =
  st_rx_total :: u32
  st_rx_local :: u32
  st_rx_forwarded :: u32
  st_rx_dropped_dup :: u32
  st_rx_dropped_expired :: u32
  st_rx_bad :: u32
  st_tx_total :: u32
  st_tx_retransmit :: u32
  st_tx_fail :: u32

record pending_ack =
  pa_packet_id :: u32
  pa_to :: u32
  pa_packet_data :: cvec
  pa_tx_count :: byte
  pa_max_retransmit :: byte
  pa_last_tx_time :: u32
  pa_retransmit_timeout :: u32

record ack_tracker =
  at_pending :: "pending_ack list"
  at_pending_valid :: "bool list"

section \<open>Vectors and helpers\<close>

definition vec_init :: "cvec \<Rightarrow> cvec" where
  "vec_init v = v\<lparr>vlen := 0, vcapacity := VEC_MAX_CAPACITY, vdata := zeros VEC_MAX_CAPACITY\<rparr>"

definition vec_extend_from_slice :: "cvec \<Rightarrow> bytes \<Rightarrow> cvec option" where
  "vec_extend_from_slice v xs =
     (if vlen v + length xs > vcapacity v then None
      else Some (v\<lparr>vdata := memcpy (vdata v) (vlen v) xs, vlen := vlen v + length xs\<rparr>))"

definition vec_push :: "cvec \<Rightarrow> byte \<Rightarrow> cvec option" where
  "vec_push v b =
     (if vlen v \<ge> vcapacity v then None
      else Some (v\<lparr>vdata := (vdata v)[vlen v := b], vlen := vlen v + 1\<rparr>))"

definition read_u32_le :: "bytes \<Rightarrow> u32" where
  "read_u32_le b = ucast (b ! 0) OR push_bit 8 (ucast (b ! 1)) OR push_bit 16 (ucast (b ! 2))
     OR push_bit 24 (ucast (b ! 3))"

definition write_u32_le :: "u32 \<Rightarrow> bytes" where
  "write_u32_le value = [ucast (value AND 0xFF), ucast (drop_bit 8 value AND 0xFF),
     ucast (drop_bit 16 value AND 0xFF), ucast (drop_bit 24 value AND 0xFF)]"

definition compute_mic :: "bytes \<Rightarrow> bytes" where
  "compute_mic xs = slice (sha256_hash xs) 0 MIC_SIZE"

definition compute_channel_hash :: "byte \<Rightarrow> byte" where
  "compute_channel_hash channel =
     (let h = channel * 0x9E + 0x37; h = h XOR drop_bit 4 h in h * 0xB5)"

section \<open>LoRa packets\<close>

text \<open>A vector on the stack; \<^verbatim>\<open>vec_init\<close> overwrites every field.\<close>

definition stack_cvec :: cvec where
  "stack_cvec = \<lparr>vdata = [], vlen = 0, vcapacity = 0\<rparr>"

text \<open>\<open>Err ()\<close> is \<^verbatim>\<open>false\<close>. A wrong integrity code is noticed and not acted on, as in the code.\<close>

definition parse_lora_packet :: "bytes \<Rightarrow> (unit, mesh_packet) cresult" where
  "parse_lora_packet d =
     (if length d < LORA_HEADER_SIZE + MIC_SIZE then Err () else
      read_n d 0 4 (\<lambda>to_bytes. read_n d 4 4 (\<lambda>from_bytes. read_n d 8 4 (\<lambda>id_bytes.
      read_n d 12 1 (\<lambda>flags_byte. read_n d 13 1 (\<lambda>channel_hash.
      let flags = flags_byte ! 0;
          want_ack = (flags AND 0x01 \<noteq> 0);
          hop_limit = drop_bit 1 (flags AND 0x0E);
          channel = drop_bit 4 (flags AND 0xF0);
          payload_end = length d - MIC_SIZE;
          payload_start = LORA_HEADER_SIZE
      in if payload_end \<le> payload_start then Err () else
      read_n d payload_start (payload_end - payload_start) (\<lambda>p.
      case vec_extend_from_slice (vec_init stack_cvec) p of None \<Rightarrow> Err () | Some payload_data \<Rightarrow>
      read_n d payload_end MIC_SIZE (\<lambda>received_mic.
      let computed_mic = compute_mic (slice d 0 payload_end);
          packet = \<lparr>mp_from = read_u32_le from_bytes, mp_to = read_u32_le to_bytes, mp_channel = channel,
            mp_id = read_u32_le id_bytes, mp_hop_limit = hop_limit, mp_want_ack = want_ack,
            mp_priority = PRIORITY_DEFAULT, mp_rx_time = 0, mp_rx_snr = 0, mp_rx_rssi = 0,
            mp_payload = \<lparr>pp_type = PACKET_PAYLOAD_ENCRYPTED, pp_data = payload_data\<rparr>\<rparr>
      in if constant_time_eq received_mic computed_mic then Ok packet else Ok packet))))))))"

definition lora_flags :: "bool \<Rightarrow> byte \<Rightarrow> byte \<Rightarrow> byte" where
  "lora_flags want_ack hop_limit channel =
     (if want_ack then 0x01 else 0) OR push_bit 1 (hop_limit AND 0x07) OR push_bit 4 (channel AND 0x0F)"

definition build_lora_packet ::
  "u32 \<Rightarrow> u32 \<Rightarrow> u32 \<Rightarrow> byte \<Rightarrow> byte \<Rightarrow> bool \<Rightarrow> bytes \<Rightarrow> cvec \<Rightarrow> cvec option" where
  "build_lora_packet from to pid channel hop_limit want_ack payload out =
     (let total_len = LORA_HEADER_SIZE + length payload + MIC_SIZE
      in if total_len > 256 \<or> length payload > MAX_LORA_PAYLOAD then None else
      case vec_extend_from_slice (vec_init out) (write_u32_le to) of None \<Rightarrow> None | Some out \<Rightarrow>
      case vec_extend_from_slice out (write_u32_le from) of None \<Rightarrow> None | Some out \<Rightarrow>
      case vec_extend_from_slice out (write_u32_le pid) of None \<Rightarrow> None | Some out \<Rightarrow>
      case vec_push out (lora_flags want_ack hop_limit channel) of None \<Rightarrow> None | Some out \<Rightarrow>
      case vec_push out (compute_channel_hash channel) of None \<Rightarrow> None | Some out \<Rightarrow>
      case vec_push out 0 of None \<Rightarrow> None | Some out \<Rightarrow>
      case vec_push out 0 of None \<Rightarrow> None | Some out \<Rightarrow>
      case vec_extend_from_slice out payload of None \<Rightarrow> None | Some out \<Rightarrow>
      vec_extend_from_slice out (compute_mic (slice (vdata out) 0 (vlen out))))"

section \<open>Duplicate detection and routing\<close>

definition packet_cache_init :: packet_cache where
  "packet_cache_init = \<lparr>pc_entries = replicate PACKET_CACHE_SIZE (0, 0, 0), pc_index = 0\<rparr>"

definition packet_cache_is_duplicate :: "packet_cache \<Rightarrow> u32 \<Rightarrow> u32 \<Rightarrow> bool" where
  "packet_cache_is_duplicate cache from packet_id =
     list_ex (\<lambda>(f, i, t). f = from \<and> i = packet_id \<and> f \<noteq> 0) (pc_entries cache)"

definition packet_cache_add :: "packet_cache \<Rightarrow> u32 \<Rightarrow> u32 \<Rightarrow> u32 \<Rightarrow> packet_cache" where
  "packet_cache_add cache from packet_id timestamp =
     cache\<lparr>pc_entries := (pc_entries cache)[pc_index cache := (from, packet_id, timestamp)],
           pc_index := (pc_index cache + 1) mod PACKET_CACHE_SIZE\<rparr>"

definition packet_cache_check_and_add :: "packet_cache \<Rightarrow> u32 \<Rightarrow> u32 \<Rightarrow> u32 \<Rightarrow> bool \<times> packet_cache" where
  "packet_cache_check_and_add cache from packet_id timestamp =
     (if packet_cache_is_duplicate cache from packet_id then (True, cache)
      else (False, packet_cache_add cache from packet_id timestamp))"

definition packet_cache_clear_old :: "packet_cache \<Rightarrow> u32 \<Rightarrow> u32 \<Rightarrow> packet_cache" where
  "packet_cache_clear_old cache current_time max_age =
     cache\<lparr>pc_entries := map (\<lambda>(f, i, t).
        if f \<noteq> 0 then
          let age = (if current_time > t then current_time - t else 0)
          in if age > max_age then (0, 0, 0) else (f, i, t)
        else (f, i, t)) (pc_entries cache)\<rparr>"

definition route_packet :: "mesh_packet \<Rightarrow> u32 \<Rightarrow> packet_cache \<Rightarrow> u32 \<Rightarrow> routing_decision \<times> packet_cache" where
  "route_packet packet our_node_id cache timestamp =
     (let (dup, cache) = packet_cache_check_and_add cache (mp_from packet) (mp_id packet) timestamp
      in if dup then (ROUTING_DECISION_DROP, cache)
      else
        let is_broadcast = (mp_to packet = 0xFFFFFFFF);
            is_for_us = (mp_to packet = our_node_id)
        in if is_for_us \<or> is_broadcast
           then (if is_broadcast \<and> mp_hop_limit packet > 0 then (ROUTING_DECISION_FORWARD, cache)
                 else (ROUTING_DECISION_LOCAL, cache))
           else if mp_hop_limit packet > 0 then (ROUTING_DECISION_FORWARD, cache)
           else (ROUTING_DECISION_DROP, cache))"

definition create_forward_packet :: "mesh_packet \<Rightarrow> bytes \<Rightarrow> cvec \<Rightarrow> cvec option" where
  "create_forward_packet original payload out =
     (if mp_hop_limit original = 0 then None
      else build_lora_packet (mp_from original) (mp_to original) (mp_id original) (mp_channel original)
             (mp_hop_limit original - 1) (mp_want_ack original) payload out)"

section \<open>Counters\<close>

definition packet_stats_init :: packet_stats where
  "packet_stats_init = \<lparr>st_rx_total = 0, st_rx_local = 0, st_rx_forwarded = 0, st_rx_dropped_dup = 0,
     st_rx_dropped_expired = 0, st_rx_bad = 0, st_tx_total = 0, st_tx_retransmit = 0, st_tx_fail = 0\<rparr>"

definition packet_stats_record_rx :: "packet_stats \<Rightarrow> routing_decision \<Rightarrow> packet_stats" where
  "packet_stats_record_rx stats decision =
     (let stats = stats\<lparr>st_rx_total := st_rx_total stats + 1\<rparr>
      in case decision of
           ROUTING_DECISION_LOCAL \<Rightarrow> stats\<lparr>st_rx_local := st_rx_local stats + 1\<rparr>
         | ROUTING_DECISION_FORWARD \<Rightarrow> stats\<lparr>st_rx_forwarded := st_rx_forwarded stats + 1\<rparr>
         | ROUTING_DECISION_DROP \<Rightarrow> stats\<lparr>st_rx_dropped_dup := st_rx_dropped_dup stats + 1\<rparr>)"

definition packet_stats_record_rx_bad :: "packet_stats \<Rightarrow> packet_stats" where
  "packet_stats_record_rx_bad stats =
     stats\<lparr>st_rx_total := st_rx_total stats + 1, st_rx_bad := st_rx_bad stats + 1\<rparr>"

definition packet_stats_record_tx :: "packet_stats \<Rightarrow> bool \<Rightarrow> packet_stats" where
  "packet_stats_record_tx stats success =
     (let stats = stats\<lparr>st_tx_total := st_tx_total stats + 1\<rparr>
      in if \<not> success then stats\<lparr>st_tx_fail := st_tx_fail stats + 1\<rparr> else stats)"

definition packet_stats_record_retransmit :: "packet_stats \<Rightarrow> packet_stats" where
  "packet_stats_record_retransmit stats = stats\<lparr>st_tx_retransmit := st_tx_retransmit stats + 1\<rparr>"

section \<open>Acknowledgements\<close>

definition ack_tracker_init :: "ack_tracker" where
  "ack_tracker_init =
     \<lparr>at_pending = replicate ACK_TRACKER_SIZE
        \<lparr>pa_packet_id = 0, pa_to = 0, pa_packet_data = vec_init \<lparr>vdata = zeros 256, vlen = 0, vcapacity = 0\<rparr>,
         pa_tx_count = 0, pa_max_retransmit = 0, pa_last_tx_time = 0, pa_retransmit_timeout = 0\<rparr>,
      at_pending_valid = replicate ACK_TRACKER_SIZE False\<rparr>"

definition ack_tracker_add :: "ack_tracker \<Rightarrow> pending_ack \<Rightarrow> bool \<times> ack_tracker" where
  "ack_tracker_add tracker ack =
     (case find_index (\<lambda>i. \<not> at_pending_valid tracker ! i) [0..<ACK_TRACKER_SIZE] of
        Some i \<Rightarrow> (True, tracker\<lparr>at_pending := (at_pending tracker)[i := ack],
                    at_pending_valid := (at_pending_valid tracker)[i := True]\<rparr>)
      | None \<Rightarrow> (False, tracker))"

definition ack_matches :: "ack_tracker \<Rightarrow> u32 \<Rightarrow> u32 \<Rightarrow> nat \<Rightarrow> bool" where
  "ack_matches tracker to packet_id i =
     (at_pending_valid tracker ! i \<and> pa_to (at_pending tracker ! i) = to
      \<and> pa_packet_id (at_pending tracker ! i) = packet_id)"

definition ack_tracker_is_pending :: "ack_tracker \<Rightarrow> u32 \<Rightarrow> u32 \<Rightarrow> bool" where
  "ack_tracker_is_pending tracker to packet_id =
     (find_index (ack_matches tracker to packet_id) [0..<ACK_TRACKER_SIZE] \<noteq> None)"

definition ack_tracker_handle_ack :: "ack_tracker \<Rightarrow> u32 \<Rightarrow> u32 \<Rightarrow> bool \<times> ack_tracker" where
  "ack_tracker_handle_ack tracker from request_id =
     (case find_index (ack_matches tracker from request_id) [0..<ACK_TRACKER_SIZE] of
        Some i \<Rightarrow> (True, tracker\<lparr>at_pending_valid := (at_pending_valid tracker)[i := False]\<rparr>)
      | None \<Rightarrow> (False, tracker))"

text \<open>The scanning loop of \<^verbatim>\<open>ack_tracker_get_retransmit\<close> over the remaining slots.\<close>

fun ack_scan :: "u32 \<Rightarrow> ack_tracker \<Rightarrow> nat list \<Rightarrow> cvec option \<times> ack_tracker" where
  "ack_scan current_time tracker [] = (None, tracker)"
| "ack_scan current_time tracker (i # is) =
     (if at_pending_valid tracker ! i then
        let ack = at_pending tracker ! i;
            elapsed = (if current_time > pa_last_tx_time ack then current_time - pa_last_tx_time ack else 0)
        in if elapsed \<ge> pa_retransmit_timeout ack then
             if pa_tx_count ack < pa_max_retransmit ack then
               let ack = ack\<lparr>pa_tx_count := pa_tx_count ack + 1, pa_last_tx_time := current_time\<rparr>
               in (Some (pa_packet_data ack), tracker\<lparr>at_pending := (at_pending tracker)[i := ack]\<rparr>)
             else ack_scan current_time (tracker\<lparr>at_pending_valid := (at_pending_valid tracker)[i := False]\<rparr>) is
           else ack_scan current_time tracker is
      else ack_scan current_time tracker is)"

definition ack_tracker_get_retransmit :: "ack_tracker \<Rightarrow> u32 \<Rightarrow> cvec option \<times> ack_tracker" where
  "ack_tracker_get_retransmit tracker current_time = ack_scan current_time tracker [0..<ACK_TRACKER_SIZE]"

definition ack_tracker_clear :: "ack_tracker \<Rightarrow> ack_tracker" where
  "ack_tracker_clear tracker = tracker\<lparr>at_pending_valid := replicate ACK_TRACKER_SIZE False\<rparr>"

definition ack_tracker_pending_count :: "ack_tracker \<Rightarrow> nat" where
  "ack_tracker_pending_count tracker =
     foldl (\<lambda>count i. if at_pending_valid tracker ! i then count + 1 else count) 0 [0..<ACK_TRACKER_SIZE]"

section \<open>Vectors meet the shared contract\<close>

definition cv_app :: "cvec \<Rightarrow> bytes \<Rightarrow> cvec" where
  "cv_app v xs = v\<lparr>vdata := memcpy (vdata v) (vlen v) xs, vlen := vlen v + length xs\<rparr>"

lemma cv_app_facts [simp]:
  assumes "cvec_wf 256 v" "vlen v + length xs \<le> 256"
  shows "cvec_wf 256 (cv_app v xs)" "vec_bytes (cv_app v xs) = vec_bytes v @ xs"
  using assms by (auto simp: cv_app_def cvec_wf_def vec_append_wf vec_append_bytes)

lemma vlen_cv_app [simp]: "vlen (cv_app v xs) = vlen v + length xs"
  by (simp add: cv_app_def)

lemma vec_extend_fits [simp]: "cvec_wf 256 v \<Longrightarrow> vlen v + length xs \<le> 256 \<Longrightarrow> vec_extend_from_slice v xs = Some (cv_app v xs)"
  by (auto simp: vec_extend_from_slice_def cv_app_def cvec_wf_def)

lemma vec_extend_full: "cvec_wf 256 v \<Longrightarrow> 256 < vlen v + length xs \<Longrightarrow> vec_extend_from_slice v xs = None"
  by (auto simp: vec_extend_from_slice_def cvec_wf_def)

lemma vec_push_extend: "cvec_wf 256 v \<Longrightarrow> vec_push v b = vec_extend_from_slice v [b]"
  by (auto simp: vec_push_def vec_extend_from_slice_def cvec_wf_def memcpy_one_wf)

lemma vec_init_facts [simp]: "cvec_wf 256 (vec_init v)" "vlen (vec_init v) = 0" "vec_bytes (vec_init v) = []"
  by (simp_all add: vec_init_def cvec_wf_def vec_wf_def vec_bytes_def)

interpretation pv: bounded_vec_push 256 "cvec_wf 256" vec_bytes
    "\<lambda>v xs. case vec_extend_from_slice v xs of None \<Rightarrow> v | Some w \<Rightarrow> w"
    "\<lambda>v b. case vec_push v b of None \<Rightarrow> v | Some w \<Rightarrow> w"
proof unfold_locales
  fix v xs b
  assume v: "cvec_wf 256 v"
  then have l: "length (vec_bytes v) = vlen v" "vlen v \<le> 256" by (auto simp: cvec_wf_def dest: vec_len_le)
  show "length (vec_bytes v) \<le> 256" using l by simp
  show "cvec_wf 256 (case vec_extend_from_slice v xs of None \<Rightarrow> v | Some w \<Rightarrow> w)"
    using v by (cases "vlen v + length xs \<le> 256") (simp_all add: vec_extend_full)
  show "vec_bytes (case vec_extend_from_slice v xs of None \<Rightarrow> v | Some w \<Rightarrow> w) = vec_bytes v @ xs"
    if "length (vec_bytes v) + length xs \<le> 256" using v l that by simp
  show "(case vec_extend_from_slice v xs of None \<Rightarrow> v | Some w \<Rightarrow> w) = v" if "256 < length (vec_bytes v) + length xs"
    using v l that by (simp add: vec_extend_full)
  show "(case vec_push v b of None \<Rightarrow> v | Some w \<Rightarrow> w) = (case vec_extend_from_slice v [b] of None \<Rightarrow> v | Some w \<Rightarrow> w)"
    using v by (simp add: vec_push_extend)
qed

section \<open>Packets\<close>

lemma u32_le_eq: "write_u32_le w = le_bytes 4 w" "read_u32_le (le_bytes 4 w) = w"
  using put_le_bytes(2) [of w] get_put_le(2) [of w]
  by (simp_all add: write_u32_le_def put_le32_def read_u32_le_def get_le32_def)

lemma length_compute_mic [simp]: "length (compute_mic xs) = 4"
  by (simp add: compute_mic_def)

text \<open>The sixteen header bytes the builder writes.\<close>

definition lora_header :: "u32 \<Rightarrow> u32 \<Rightarrow> u32 \<Rightarrow> byte \<Rightarrow> byte \<Rightarrow> bool \<Rightarrow> bytes" where
  "lora_header from to pid channel hop_limit want_ack =
     le_bytes 4 to @ le_bytes 4 from @ le_bytes 4 pid
     @ [lora_flags want_ack hop_limit channel, compute_channel_hash channel, 0, 0]"

lemma length_lora_header [simp]: "length (lora_header a b c d e f) = 16"
  by (simp add: lora_header_def)

lemma slice_cvec: "slice (vdata v) 0 (vlen v) = vec_bytes v"
  by (simp add: slice_def vec_bytes_def)

lemma build_result:
  "build_lora_packet from to pid channel hop want_ack payload out =
     (if length payload \<le> 235
      then Some (cv_app (cv_app (foldl cv_app (vec_init out)
        [le_bytes 4 to, le_bytes 4 from, le_bytes 4 pid, [lora_flags want_ack hop channel], [compute_channel_hash channel], [0], [0]]) payload)
        (compute_mic (lora_header from to pid channel hop want_ack @ payload)))
      else None)"
  unfolding build_lora_packet_def slice_cvec
  by (simp add: Let_def u32_le_eq vec_push_extend lora_header_def)

lemma build_bytes:
  assumes "build_lora_packet from to pid channel hop want_ack payload out = Some v"
  shows "vec_bytes v = (let m = lora_header from to pid channel hop want_ack @ payload in m @ compute_mic m) \<and> cvec_wf 256 v"
  using assms by (auto simp: build_result Let_def lora_header_def split: if_splits)

lemma bit_times_2: "bit ((x :: 'a::len word) * 2) n \<longleftrightarrow> n \<noteq> 0 \<and> n < LENGTH('a) \<and> bit x (n - 1)"
proof -
  have "bit (push_bit 1 x) n \<longleftrightarrow> n \<noteq> 0 \<and> n < LENGTH('a) \<and> bit x (n - 1)"
    unfolding bit_push_bit_iff by auto
  then show ?thesis by simp
qed

lemma flags_split:
  "lora_flags a h c AND 0x01 \<noteq> 0 \<longleftrightarrow> a" "drop_bit 1 (lora_flags a h c AND 0x0E) = h AND 0x07"
  "drop_bit 4 (lora_flags a h c AND 0xF0) = c AND 0x0F"
proof -
  have m: "(0x01 :: byte) = mask 1" "(0x07 :: byte) = mask 3" "(0x0F :: byte) = mask 4" "(0x0E :: byte) = push_bit 1 (mask 3)"
    "(0xF0 :: byte) = push_bit 4 (mask 4)" by (simp_all add: mask_eq_exp_minus_1)
  have "lora_flags a h c AND 0x01 = (if a then 1 else 0)"
    unfolding lora_flags_def m by (rule bit_word_eqI) (auto simp: bit_simps bit_1_iff bit_0)
  then show "lora_flags a h c AND 0x01 \<noteq> 0 \<longleftrightarrow> a" by simp
  show "drop_bit 1 (lora_flags a h c AND 0x0E) = h AND 0x07"
    unfolding lora_flags_def m by (rule bit_word_eqI) (auto simp: bit_simps bit_times_2)
  show "drop_bit 4 (lora_flags a h c AND 0xF0) = c AND 0x0F"
    unfolding lora_flags_def m by (rule bit_word_eqI) (auto simp: bit_simps bit_times_2)
qed

text \<open>What the parser makes of header, payload and integrity code. It expects seventeen header bytes, so
  the first payload byte is taken for header.\<close>

lemma parse_fields:
  assumes "length mic = 4" "length payload \<le> 235"
  shows "parse_lora_packet (lora_header from to pid channel hop want_ack @ payload @ mic) =
    (if length payload \<le> 1 then Err ()
     else Ok \<lparr>mp_from = from, mp_to = to, mp_channel = channel AND 0x0F, mp_id = pid, mp_hop_limit = hop AND 0x07,
       mp_want_ack = want_ack, mp_priority = PRIORITY_DEFAULT, mp_rx_time = 0, mp_rx_snr = 0, mp_rx_rssi = 0,
       mp_payload = \<lparr>pp_type = PACKET_PAYLOAD_ENCRYPTED, pp_data = cv_app (vec_init stack_cvec) (tl payload)\<rparr>\<rparr>)"
proof -
  have 1: "slice (lora_header from to pid channel hop want_ack @ payload @ mic) 17 (length payload - 1) = tl payload"
    using assms by (simp add: slice_def drop_Suc take_tl)
  have 2: "slice (lora_header from to pid channel hop want_ack) 0 4 = le_bytes 4 to"
    "slice (lora_header from to pid channel hop want_ack) 4 4 = le_bytes 4 from"
    "slice (lora_header from to pid channel hop want_ack) 8 4 = le_bytes 4 pid"
    "slice (lora_header from to pid channel hop want_ack) 12 (Suc 0) = [lora_flags want_ack hop channel]"
    by (simp_all add: lora_header_def)
  have 3: "length (lora_header from to pid channel hop want_ack @ payload @ mic) = 20 + length payload" using assms by simp
  have "length (tl payload) \<le> 256" using assms by simp
  then show ?thesis
    unfolding parse_lora_packet_def read_n_def Let_def 3
    by (cases payload) (auto simp: 2 1 [unfolded One_nat_def] u32_le_eq flags_split [simplified])
qed

lemma and_mask_small: "unat (w :: byte) < 2 ^ n \<Longrightarrow> w AND mask n = w"
  by (simp only: take_bit_eq_mask [symmetric] word_unat_eq_iff unsigned_take_bit_eq) (simp add: take_bit_nat_eq_self)

lemma fields_small: "c < 16 \<Longrightarrow> c AND 0x0F = (c :: byte)" "h < 8 \<Longrightarrow> h AND 0x07 = (h :: byte)"
  using and_mask_small [of c 4] and_mask_small [of h 3] by (simp_all add: mask_eq_exp_minus_1 word_less_nat_alt)

section \<open>The ring of seen packets\<close>

definition cache_wf :: "packet_cache \<Rightarrow> bool" where
  "cache_wf c \<longleftrightarrow> length (pc_entries c) = PACKET_CACHE_SIZE \<and> pc_index c < PACKET_CACHE_SIZE"

text \<open>Entry \<open>e\<close> sits in slot \<open>j\<close> and \<open>k\<close> entries have been written after it.\<close>

definition cache_holds :: "packet_cache \<Rightarrow> nat \<Rightarrow> nat \<Rightarrow> u32 \<times> u32 \<times> u32 \<Rightarrow> bool" where
  "cache_holds c j k e \<longleftrightarrow> cache_wf c \<and> j < PACKET_CACHE_SIZE \<and> pc_index c = (j + 1 + k) mod PACKET_CACHE_SIZE \<and> pc_entries c ! j = e"

lemma cache_init_wf: "cache_wf packet_cache_init"
  by (simp add: cache_wf_def packet_cache_init_def)

lemma cache_check_wf: "cache_wf c \<Longrightarrow> cache_wf (snd (packet_cache_check_and_add c f i t))"
  by (simp add: cache_wf_def packet_cache_check_and_add_def packet_cache_add_def)

lemma cache_clear_wf: "cache_wf c \<Longrightarrow> cache_wf (packet_cache_clear_old c now age)"
  by (simp add: cache_wf_def packet_cache_clear_old_def)

lemma cache_add_holds: "cache_wf c \<Longrightarrow> cache_holds (packet_cache_add c f i t) (pc_index c) 0 (f, i, t)"
  by (simp add: cache_holds_def cache_wf_def packet_cache_add_def)

lemma cache_check_holds:
  assumes "cache_holds c j k e" "k < 31"
  shows "\<exists>k'\<le>Suc k. cache_holds (snd (packet_cache_check_and_add c f i t)) j k' e"
proof (cases "packet_cache_is_duplicate c f i")
  case True
  then show ?thesis using assms by (intro exI [of _ k]) (simp add: packet_cache_check_and_add_def)
next
  case False
  have "(j + 1 + k) mod 32 \<noteq> j" using assms by (simp add: cache_holds_def mod_if) presburger
  then have "cache_holds (packet_cache_add c f i t) j (Suc k) e"
    using assms(1) by (auto simp: cache_holds_def cache_wf_def packet_cache_add_def mod_Suc_eq)
  then show ?thesis using False by (intro exI [of _ "Suc k"]) (simp add: packet_cache_check_and_add_def)
qed

lemma cache_holds_dup: "cache_holds c j k (f, i, t) \<Longrightarrow> f \<noteq> 0 \<Longrightarrow> packet_cache_is_duplicate c f i"
  using nth_mem [of j "pc_entries c"]
  by (auto simp: cache_holds_def cache_wf_def packet_cache_is_duplicate_def list_ex_iff intro!: bexI [of _ "(f, i, t)"])

lemma route_cache:
  "snd (route_packet p us c t) = snd (packet_cache_check_and_add c (mp_from p) (mp_id p) t)"
  by (simp add: route_packet_def Let_def split_beta)

lemma route_seq_holds:
  "cache_holds c j k e \<Longrightarrow> k + length qs \<le> 31 \<Longrightarrow>
   \<exists>k'\<le>k + length qs. cache_holds (foldl (\<lambda>c (q, t). snd (route_packet q us c t)) c qs) j k' e"
proof (induction qs arbitrary: c k)
  case Nil
  then show ?case by auto
next
  case (Cons q qs)
  obtain p t where q: "q = (p, t)" by fastforce
  from cache_check_holds [OF Cons.prems(1), of "mp_from p" "mp_id p" t] Cons.prems(2) obtain k' where
    k': "k' \<le> Suc k" "cache_holds (snd (route_packet p us c t)) j k' e" by (auto simp: route_cache)
  from Cons.IH [OF k'(2)] k'(1) Cons.prems(2) obtain k'' where "k'' \<le> k' + length qs"
    "cache_holds (foldl (\<lambda>c (q, t). snd (route_packet q us c t)) (snd (route_packet p us c t)) qs) j k'' e" by auto
  with k'(1) show ?case by (intro exI [of _ k'']) (simp add: q)
qed

section \<open>Counters and acknowledgements\<close>

datatype stats_event = Rx routing_decision | Rx_bad | Tx bool | Retransmit

fun stats_step :: "packet_stats \<Rightarrow> stats_event \<Rightarrow> packet_stats" where
  "stats_step s (Rx d) = packet_stats_record_rx s d"
| "stats_step s Rx_bad = packet_stats_record_rx_bad s"
| "stats_step s (Tx b) = packet_stats_record_tx s b"
| "stats_step s Retransmit = packet_stats_record_retransmit s"

definition stats_balanced :: "packet_stats \<Rightarrow> bool" where
  "stats_balanced s \<longleftrightarrow> st_rx_total s = st_rx_local s + st_rx_forwarded s + st_rx_dropped_dup s + st_rx_bad s
     \<and> st_rx_dropped_expired s = 0"

lemma stats_step_balanced: "stats_balanced s \<Longrightarrow> stats_balanced (stats_step s ev)"
  by (cases ev) (auto simp: stats_balanced_def packet_stats_record_rx_def packet_stats_record_rx_bad_def
      packet_stats_record_tx_def packet_stats_record_retransmit_def Let_def algebra_simps split: routing_decision.splits)

definition tracker_wf :: "ack_tracker \<Rightarrow> bool" where
  "tracker_wf t \<longleftrightarrow> length (at_pending t) = ACK_TRACKER_SIZE \<and> length (at_pending_valid t) = ACK_TRACKER_SIZE"

text \<open>The retransmissions a slot, and the whole table, can still make.\<close>

definition slot_budget :: "ack_tracker \<Rightarrow> nat \<Rightarrow> nat" where
  "slot_budget t i = (if at_pending_valid t ! i
     then unat (pa_max_retransmit (at_pending t ! i)) - unat (pa_tx_count (at_pending t ! i)) else 0)"

definition budget :: "ack_tracker \<Rightarrow> nat" where
  "budget t = (\<Sum>i<ACK_TRACKER_SIZE. slot_budget t i)"

lemma budget_change:
  assumes "i < ACK_TRACKER_SIZE" "\<And>j. j \<noteq> i \<Longrightarrow> slot_budget t' j = slot_budget t j" "slot_budget t' i + d = slot_budget t i"
  shows "budget t' + d = budget t"
proof -
  have "budget x = slot_budget x i + (\<Sum>j\<in>{..<ACK_TRACKER_SIZE} - {i}. slot_budget x j)" for x
    unfolding budget_def using assms(1) by (intro sum.remove) auto
  moreover have "(\<Sum>j\<in>{..<ACK_TRACKER_SIZE} - {i}. slot_budget t' j) = (\<Sum>j\<in>{..<ACK_TRACKER_SIZE} - {i}. slot_budget t j)"
    using assms(2) by (intro sum.cong) auto
  ultimately show ?thesis using assms(3) by simp
qed

lemma ack_scan_budget:
  "ack_scan now t is = (r, t') \<Longrightarrow> tracker_wf t \<Longrightarrow> set is \<subseteq> {..<ACK_TRACKER_SIZE} \<Longrightarrow>
   tracker_wf t' \<and> budget t' + (if r = None then 0 else 1) = budget t"
proof (induction now t "is" rule: ack_scan.induct)
  case (1 now t)
  then show ?case by simp
next
  case (2 now t i "is")
  let ?a = "at_pending t ! i"
  let ?el = "if now > pa_last_tx_time ?a then now - pa_last_tx_time ?a else 0"
  have i: "i < ACK_TRACKER_SIZE" "set is \<subseteq> {..<ACK_TRACKER_SIZE}" using "2.prems" by auto
  consider (skip) "\<not> at_pending_valid t ! i \<or> \<not> ?el \<ge> pa_retransmit_timeout ?a"
    | (send) "at_pending_valid t ! i" "?el \<ge> pa_retransmit_timeout ?a" "pa_tx_count ?a < pa_max_retransmit ?a"
    | (drop) "at_pending_valid t ! i" "?el \<ge> pa_retransmit_timeout ?a" "\<not> pa_tx_count ?a < pa_max_retransmit ?a" by blast
  then show ?case
  proof cases
    case skip
    then have "ack_scan now t is = (r, t')" using "2.prems"(1) by (auto simp: Let_def split: if_splits)
    with skip "2.IH"(2,3) "2.prems"(2) i show ?thesis by blast
  next
    case send
    then have t': "r = Some (pa_packet_data ?a)"
      "t' = t\<lparr>at_pending := (at_pending t)[i := ?a\<lparr>pa_tx_count := pa_tx_count ?a + 1, pa_last_tx_time := now\<rparr>]\<rparr>"
      using "2.prems"(1) by (auto simp: Let_def)
    have "unat (pa_tx_count ?a + 1) = Suc (unat (pa_tx_count ?a))"
      using send(3) unsigned_less [of "pa_max_retransmit ?a", where ?'a = nat] by (simp add: word_less_nat_alt unat_word_ariths)
    then have "budget t' + 1 = budget t"
      using i(1) "2.prems"(2) send unfolding t'
      by (intro budget_change [of i]) (auto simp: slot_budget_def tracker_wf_def word_less_nat_alt)
    then show ?thesis using "2.prems"(2) t' by (simp add: tracker_wf_def)
  next
    case drop
    let ?t = "t\<lparr>at_pending_valid := (at_pending_valid t)[i := False]\<rparr>"
    have "ack_scan now ?t is = (r, t')" using "2.prems"(1) drop by (auto simp: Let_def split: if_splits)
    moreover have "tracker_wf ?t" using "2.prems"(2) by (simp add: tracker_wf_def)
    moreover have "budget ?t + 0 = budget t"
      using i(1) "2.prems"(2) drop by (intro budget_change [of i]) (auto simp: slot_budget_def tracker_wf_def word_less_nat_alt not_less)
    ultimately show ?thesis using "2.IH"(1) drop i(2) by auto
  qed
qed

fun retransmits :: "ack_tracker \<Rightarrow> u32 list \<Rightarrow> nat" where
  "retransmits t [] = 0"
| "retransmits t (now # clock) =
     (let (r, t') = ack_tracker_get_retransmit t now in (if r = None then 0 else 1) + retransmits t' clock)"

lemma retransmits_bound: "tracker_wf t \<Longrightarrow> retransmits t clock \<le> budget t"
proof (induction clock arbitrary: t)
  case Nil
  then show ?case by simp
next
  case (Cons now clock)
  obtain r t' where g: "ack_scan now t [0..<ACK_TRACKER_SIZE] = (r, t')" by fastforce
  have "set [0..<ACK_TRACKER_SIZE] \<subseteq> {..<ACK_TRACKER_SIZE}" by auto
  from ack_scan_budget [OF g Cons.prems this] Cons.IH [of t'] g show ?case
    by (simp add: ack_tracker_get_retransmit_def del: upt_Suc upt_rec_numeral split: if_splits)
qed

section \<open>Properties\<close>

text \<open>Building succeeds exactly for payloads of at most 235 bytes. Parsing what was built gives back
  addresses, identifier, channel, hop limit and acknowledgement flag, but the parser takes
  seventeen header bytes where the builder writes sixteen: the first payload byte is always lost, and
  packets with fewer than two payload bytes are rejected. The integrity code has no influence.\<close>

theorem lora_packet_roundtrip:
  assumes "build_lora_packet from to pid channel hop want_ack payload out = Some v" "channel < 16" "hop < 8" "length mic = 4"
  shows "length payload \<le> 235
    \<and> parse_lora_packet (vec_bytes v) = parse_lora_packet (take (length (vec_bytes v) - 4) (vec_bytes v) @ mic)
    \<and> (if length payload \<le> 1 then parse_lora_packet (vec_bytes v) = Err ()
       else \<exists>p. parse_lora_packet (vec_bytes v) = Ok p \<and> mp_from p = from \<and> mp_to p = to \<and> mp_id p = pid
         \<and> mp_channel p = channel \<and> mp_hop_limit p = hop \<and> mp_want_ack p = want_ack
         \<and> vec_bytes (pp_data (mp_payload p)) = tl payload)"
proof -
  have len: "length payload \<le> 235" using assms(1) by (simp add: build_result split: if_splits)
  let ?m = "lora_header from to pid channel hop want_ack @ payload"
  have v: "vec_bytes v = ?m @ compute_mic ?m" using build_bytes [OF assms(1)] by (simp add: Let_def)
  have "channel AND 0x0F = channel" "hop AND 0x07 = hop" using assms(2,3) by (simp_all add: fields_small)
  moreover have "take (length (vec_bytes v) - 4) (vec_bytes v) = ?m" by (simp add: v)
  moreover have "vlen (vec_init stack_cvec) + length (tl payload) \<le> 256" using len by simp
  ultimately show ?thesis
    using len parse_fields [OF assms(4) len, of "from" "to" pid channel hop want_ack]
      parse_fields [OF length_compute_mic [of ?m] len, of "from" "to" pid channel hop want_ack] by (simp add: v)
qed

theorem lora_packet_roundtrip_witness:
  "\<exists>v p. build_lora_packet 1 2 3 4 5 True [10, 20, 30] stack_cvec = Some v
     \<and> parse_lora_packet (vec_bytes v) = Ok p \<and> vec_bytes (pp_data (mp_payload p)) = [20, 30]"
proof -
  obtain v where v: "build_lora_packet 1 2 3 4 5 True [10, 20, 30] stack_cvec = Some v" by (simp add: build_result)
  have "(4 :: byte) < 16" "(5 :: byte) < 8" "length (zeros 4) = 4" by simp_all
  from lora_packet_roundtrip [OF v this, THEN conjunct2, THEN conjunct2] v show ?thesis by auto
qed

text \<open>C9. A node handles a packet at most once: after a packet from a non-zero node is routed for the first time, every copy of it is
  dropped while at most 31 other packets are routed in between, whatever those packets are, and the cache is not cleared. The sender 0
  is the exception, because it marks free places of the cache: a packet from it is never taken for a duplicate, and every copy that is addressed to the
  node is handled again.\<close>

theorem route_packet_once:
  assumes "cache_wf c" "mp_from p \<noteq> 0" "\<not> packet_cache_is_duplicate c (mp_from p) (mp_id p)" "length qs \<le> 31"
    and "c' = foldl (\<lambda>c (q, t). snd (route_packet q us c t)) (snd (route_packet p us c t)) qs"
    and "mp_from p' = mp_from p" "mp_id p' = mp_id p"
  shows "fst (route_packet p' us c' t') = ROUTING_DECISION_DROP \<and> cache_wf c'
    \<and> (mp_from q = 0 \<and> mp_to q = us \<and> us \<noteq> 0xFFFFFFFF \<longrightarrow> fst (route_packet q us c' t') = ROUTING_DECISION_LOCAL)"
proof -
  have "cache_holds (snd (route_packet p us c t)) (pc_index c) 0 (mp_from p, mp_id p, t)"
    using cache_add_holds [OF assms(1)] assms(3) by (simp add: route_cache packet_cache_check_and_add_def)
  from route_seq_holds [OF this, of qs] assms(4,5) obtain k where "cache_holds c' (pc_index c) k (mp_from p, mp_id p, t)" by auto
  moreover from this have "packet_cache_is_duplicate c' (mp_from p) (mp_id p)" using assms(2) by (rule cache_holds_dup)
  moreover have "\<not> packet_cache_is_duplicate c' 0 i" for i by (auto simp: packet_cache_is_duplicate_def list_ex_iff)
  ultimately show ?thesis using assms(6,7) by (simp add: route_packet_def packet_cache_check_and_add_def cache_holds_def)
qed

definition sample_mesh_packet :: mesh_packet where
  "sample_mesh_packet = \<lparr>mp_from = 7, mp_to = 9, mp_channel = 0, mp_id = 11, mp_hop_limit = 3, mp_want_ack = False,
     mp_priority = PRIORITY_DEFAULT, mp_rx_time = 0, mp_rx_snr = 0, mp_rx_rssi = 0,
     mp_payload = \<lparr>pp_type = PACKET_PAYLOAD_ENCRYPTED, pp_data = vec_init stack_cvec\<rparr>\<rparr>"

theorem route_packet_once_witness:
  "fst (route_packet sample_mesh_packet 1 (snd (route_packet (sample_mesh_packet\<lparr>mp_id := 12\<rparr>) 1
     (snd (route_packet sample_mesh_packet 1 packet_cache_init 5)) 6)) 7) = ROUTING_DECISION_DROP"
proof -
  have "\<not> packet_cache_is_duplicate packet_cache_init (mp_from sample_mesh_packet) (mp_id sample_mesh_packet)"
    by (simp add: packet_cache_is_duplicate_def packet_cache_init_def list_ex_iff)
  from route_packet_once [OF cache_init_wf _ this, of "[(sample_mesh_packet\<lparr>mp_id := 12\<rparr>, 6)]" _ 1 5 sample_mesh_packet 7]
  show ?thesis by (simp add: sample_mesh_packet_def)
qed

text \<open>Forwarding makes progress towards dropping: a forwarded packet that is parsed again has the
  same sender, destination and identifier and a hop limit smaller by one, and a packet without
  hops is not forwarded.\<close>

theorem forward_decrements_hop:
  assumes "create_forward_packet p payload out = Some v" "mp_channel p < 16" "mp_hop_limit p < 8" "length payload \<ge> 2"
  shows "0 < mp_hop_limit p \<and> (\<exists>q. parse_lora_packet (vec_bytes v) = Ok q
    \<and> unat (mp_hop_limit q) + 1 = unat (mp_hop_limit p) \<and> mp_from q = mp_from p \<and> mp_to q = mp_to p \<and> mp_id q = mp_id p)"
proof -
  have nz: "mp_hop_limit p \<noteq> 0" and b: "build_lora_packet (mp_from p) (mp_to p) (mp_id p) (mp_channel p)
      (mp_hop_limit p - 1) (mp_want_ack p) payload out = Some v"
    using assms(1) by (auto simp: create_forward_packet_def split: if_splits)
  have u: "unat (mp_hop_limit p - 1) = unat (mp_hop_limit p) - 1" "0 < unat (mp_hop_limit p)"
    using nz by (simp_all add: unat_minus_one unat_gt_0)
  then have "mp_hop_limit p - 1 < 8" using assms(3) by (simp add: word_less_nat_alt)
  have len: "length payload \<le> 235" using b by (simp add: build_result split: if_splits)
  let ?m = "lora_header (mp_from p) (mp_to p) (mp_id p) (mp_channel p) (mp_hop_limit p - 1) (mp_want_ack p) @ payload"
  have "vec_bytes v = ?m @ compute_mic ?m" using build_bytes [OF b] by (simp add: Let_def)
  moreover have "(mp_hop_limit p - 1) AND 0x07 = mp_hop_limit p - 1"
    using \<open>mp_hop_limit p - 1 < 8\<close> by (rule fields_small)
  ultimately show ?thesis
    using parse_fields [OF length_compute_mic [of ?m] len] assms(4) u nz by (simp add: word_gt_0)
qed

theorem forward_decrements_hop_witness:
  "\<exists>v q. create_forward_packet sample_mesh_packet [1, 2] stack_cvec = Some v \<and> parse_lora_packet (vec_bytes v) = Ok q
     \<and> unat (mp_hop_limit q) + 1 = 3"
proof -
  obtain v where v: "create_forward_packet sample_mesh_packet [1, 2] stack_cvec = Some v"
    by (simp add: create_forward_packet_def build_result sample_mesh_packet_def)
  from forward_decrements_hop [OF v] v show ?thesis by (auto simp: sample_mesh_packet_def)
qed

text \<open>Retransmission ends: over any sequence of polls at any times, the table hands out at most
  as many packets as its pending entries have retransmissions left, and every handed-out packet
  uses one of them up.\<close>

theorem retransmissions_bounded:
  assumes "tracker_wf t"
  shows "retransmits t clock \<le> budget t
    \<and> (\<forall>now r t'. ack_tracker_get_retransmit t now = (r, t') \<longrightarrow>
        tracker_wf t' \<and> budget t' + (if r = None then 0 else 1) = budget t)"
proof -
  have s: "set [0..<ACK_TRACKER_SIZE] \<subseteq> {..<ACK_TRACKER_SIZE}" by auto
  show ?thesis using retransmits_bound [OF assms] ack_scan_budget [OF _ assms s]
    unfolding ack_tracker_get_retransmit_def by blast
qed

theorem retransmissions_bounded_witness: "retransmits ack_tracker_init [100, 200, 300] = 0"
proof -
  have "tracker_wf ack_tracker_init" by (simp add: tracker_wf_def ack_tracker_init_def)
  moreover have "budget ack_tracker_init = 0" by (simp add: budget_def slot_budget_def ack_tracker_init_def)
  ultimately show ?thesis using retransmissions_bounded [of ack_tracker_init "[100, 200, 300]"] by simp
qed

text \<open>The receive counters always add up, modulo \<open>2 ^ 32\<close>: every received packet is counted as local,
  forwarded, dropped or bad. The counter for expired packets never moves; drops for lack of
  hops are counted as duplicates.\<close>

theorem stats_always_balanced: "stats_balanced (foldl stats_step packet_stats_init evs)"
proof -
  have "stats_balanced s \<Longrightarrow> stats_balanced (foldl stats_step s evs)" for s
    by (induction evs arbitrary: s) (auto intro: stats_step_balanced)
  moreover have "stats_balanced packet_stats_init" by (simp add: stats_balanced_def packet_stats_init_def)
  ultimately show ?thesis .
qed

end
