(* ===== verification/Base64.thy ===== *)
theory Base64
  imports Hmac
begin

unbundle bit_operations_syntax

text \<open>
  The URL-safe Base64 of \<^verbatim>\<open>lunar/meshtastic/base64.c\<close>, used for channel links: no padding on output, both
  alphabets accepted on input, and a link prefix skipped. The output buffers are arguments; a write past
  their end would make the list longer.
\<close>

section \<open>Tables\<close>

definition BASE64_CHARS :: bytes where
  "BASE64_CHARS = ascii ''ABCDEFGHIJKLMNOPQRSTUVWXYZabcdefghijklmnopqrstuvwxyz0123456789-_''"

definition BASE64_DECODE :: "int list" where
  "BASE64_DECODE =
    [-1, -1, -1, -1, -1, -1, -1, -1, -1, -1, -1, -1, -1, -1, -1, -1,
     -1, -1, -1, -1, -1, -1, -1, -1, -1, -1, -1, -1, -1, -1, -1, -1,
     -1, -1, -1, -1, -1, -1, -1, -1, -1, -1, -1, 62, -1, 62, -1, 63,
     52, 53, 54, 55, 56, 57, 58, 59, 60, 61, -1, -1, -1, -1, -1, -1,
     -1,  0,  1,  2,  3,  4,  5,  6,  7,  8,  9, 10, 11, 12, 13, 14,
     15, 16, 17, 18, 19, 20, 21, 22, 23, 24, 25, -1, -1, -1, -1, 63,
     -1, 26, 27, 28, 29, 30, 31, 32, 33, 34, 35, 36, 37, 38, 39, 40,
     41, 42, 43, 44, 45, 46, 47, 48, 49, 50, 51, -1, -1, -1, -1, -1]"

section \<open>Encoder\<close>

text \<open>\<open>BASE64_CHARS[(n >> s) & 0x3F]\<close>.\<close>

definition b64_char :: "u32 \<Rightarrow> nat \<Rightarrow> byte" where
  "b64_char n s = BASE64_CHARS ! unat (drop_bit s n AND 0x3F)"

function base64_encode_loop :: "bytes \<Rightarrow> bytes \<Rightarrow> nat \<Rightarrow> nat \<Rightarrow> bytes \<times> nat \<times> nat" where
  "base64_encode_loop d output i p =
     (if i + 2 < length d \<and> \<not> p + 4 > length output then
        let n = push_bit 16 (ucast (d ! i)) OR push_bit 8 (ucast (d ! (i + 1))) OR ucast (d ! (i + 2))
        in base64_encode_loop d (memcpy output p [b64_char n 18, b64_char n 12, b64_char n 6, b64_char n 0]) (i + 3) (p + 4)
      else (output, i, p))"
  by pat_completeness auto
termination
  by (relation "measure (\<lambda>(d, output, i, p). length d - i)") auto

declare base64_encode_loop.simps [simp del]

definition base64_encode_tail :: "bytes \<Rightarrow> bytes \<Rightarrow> nat \<Rightarrow> nat \<Rightarrow> bytes \<times> nat" where
  "base64_encode_tail d output i p =
     (if i < length d \<and> p + 4 \<le> length output then
        let remaining = length d - i
        in if remaining = 1 then
             let n = push_bit 16 (ucast (d ! i))
             in (memcpy output p [b64_char n 18, b64_char n 12], p + 2)
           else if remaining = 2 then
             let n = push_bit 16 (ucast (d ! i)) OR push_bit 8 (ucast (d ! (i + 1)))
             in (memcpy output p [b64_char n 18, b64_char n 12, b64_char n 6], p + 3)
           else (output, p)
      else (output, p))"

definition base64_encode :: "bytes \<Rightarrow> bytes \<Rightarrow> bytes \<times> nat" where
  "base64_encode d output = (let (output, i, p) = base64_encode_loop d output 0 0 in base64_encode_tail d output i p)"

section \<open>Decoder\<close>

definition b64_value :: "byte \<Rightarrow> int" where
  "b64_value c = (if c < 128 then BASE64_DECODE ! unat c else -1)"

definition LINK_PREFIX :: bytes where
  "LINK_PREFIX = ascii ''https://meshtastic.org/e/#''"

function base64_decode_loop :: "bytes \<Rightarrow> bytes \<Rightarrow> nat \<Rightarrow> nat \<Rightarrow> bytes \<times> nat \<times> nat" where
  "base64_decode_loop d output i p =
     (if i + 3 < length d \<and> \<not> p + 3 > length output then
        let b0 = b64_value (d ! i); b1 = b64_value (d ! (i + 1));
            b2 = b64_value (d ! (i + 2)); b3 = b64_value (d ! (i + 3))
        in if b0 < 0 \<or> b1 < 0 then (output, i, p)
        else
          let n = push_bit 18 (of_int b0) OR push_bit 12 (of_int b1)
                  OR (if b2 \<ge> 0 then push_bit 6 (of_int b2) else 0) OR (if b3 \<ge> 0 then of_int b3 else (0 :: u32));
              output = memcpy output p [ucast (drop_bit 16 n)]; p = p + 1;
              (output, p) = (if b2 \<ge> 0 then (memcpy output p [ucast (drop_bit 8 n)], p + 1) else (output, p));
              (output, p) = (if b3 \<ge> 0 then (memcpy output p [ucast n], p + 1) else (output, p))
          in base64_decode_loop d output (i + 4) p
      else (output, i, p))"
  by pat_completeness auto
termination
  by (relation "measure (\<lambda>(d, output, i, p). length d - i)") auto

declare base64_decode_loop.simps [simp del]

definition base64_decode_tail :: "bytes \<Rightarrow> bytes \<Rightarrow> nat \<Rightarrow> nat \<Rightarrow> bytes \<times> nat" where
  "base64_decode_tail d output i p =
     (if i + 1 < length d \<and> p < length output then
        let b0 = b64_value (d ! i); b1 = b64_value (d ! (i + 1))
        in if b0 \<ge> 0 \<and> b1 \<ge> 0 then
             let n = push_bit 18 (of_int b0) OR push_bit 12 (of_int b1 :: u32);
                 output = memcpy output p [ucast (drop_bit 16 n)]; p = p + 1
             in if i + 2 < length d \<and> p < length output then
                  let b2 = b64_value (d ! (i + 2))
                  in if b2 \<ge> 0 then
                       let n = push_bit 18 (of_int b0) OR push_bit 12 (of_int b1) OR push_bit 6 (of_int b2 :: u32);
                           output = memcpy output (p - 1) [ucast (drop_bit 16 n)];
                           output = memcpy output p [ucast (drop_bit 8 n)]
                       in (output, p + 1)
                     else (output, p)
                else (output, p)
           else (output, p)
      else (output, p))"

definition base64_decode :: "bytes \<Rightarrow> bytes \<Rightarrow> bytes \<times> nat" where
  "base64_decode d output =
     (let d = (if length d \<ge> length LINK_PREFIX \<and> take (length LINK_PREFIX) d = LINK_PREFIX
               then drop (length LINK_PREFIX) d else d);
          (output, i, p) = base64_decode_loop d output 0 0
      in base64_decode_tail d output i p)"

section \<open>Reference\<close>

definition join3 :: "byte \<Rightarrow> byte \<Rightarrow> byte \<Rightarrow> u32" where
  "join3 a b c = push_bit 16 (ucast a) OR push_bit 8 (ucast b) OR ucast c"

fun base64_spec :: "bytes \<Rightarrow> bytes" where
  "base64_spec (a # b # c # xs) =
     [b64_char (join3 a b c) 18, b64_char (join3 a b c) 12, b64_char (join3 a b c) 6, b64_char (join3 a b c) 0] @ base64_spec xs"
| "base64_spec [a, b] = [b64_char (join3 a b 0) 18, b64_char (join3 a b 0) 12, b64_char (join3 a b 0) 6]"
| "base64_spec [a] = [b64_char (join3 a 0 0) 18, b64_char (join3 a 0 0) 12]"
| "base64_spec [] = []"

section \<open>Digits\<close>

lemma b64_table: "k < 64 \<Longrightarrow> b64_value (BASE64_CHARS ! k) = int k"
proof -
  have "list_all (\<lambda>k. b64_value (BASE64_CHARS ! k) = int k) [0..<64]" by code_simp
  then show "k < 64 \<Longrightarrow> b64_value (BASE64_CHARS ! k) = int k" by (simp add: list_all_iff)
qed

lemma mask6: "(0x3F :: u32) = mask 6"
  by (simp add: mask_eq_exp_minus_1)

lemma b64_value_char: "b64_value (b64_char n s) = int (unat (drop_bit s n AND 0x3F))"
proof -
  have "drop_bit s n AND 0x3F \<le> 0x3F" by (rule word_and_le1)
  then have "unat (drop_bit s n AND 0x3F) < 64" by (simp add: word_le_nat_alt)
  then show ?thesis unfolding b64_char_def by (rule b64_table)
qed

lemma b64_value_word: "of_int (b64_value (b64_char n s)) = drop_bit s n AND 0x3F" "0 \<le> b64_value (b64_char n s)"
  "\<not> b64_value (b64_char n s) < 0"
  by (simp_all add: b64_value_char)

text \<open>The four six-bit digits put together again.\<close>

lemma digits_join:
  "push_bit 18 (drop_bit 18 n AND 0x3F) OR push_bit 12 (drop_bit 12 n AND 0x3F) OR push_bit 6 (drop_bit 6 n AND 0x3F)
     OR (drop_bit 0 n AND 0x3F) = take_bit 24 (n :: u32)"
  unfolding mask6
proof (rule bit_word_eqI)
  fix m
  show "bit (push_bit 18 (drop_bit 18 n AND mask 6) OR push_bit 12 (drop_bit 12 n AND mask 6)
      OR push_bit 6 (drop_bit 6 n AND mask 6) OR (drop_bit 0 n AND mask 6)) m \<longleftrightarrow> bit (take_bit 24 n) m"
    by (cases "m < 6"; cases "m < 12"; cases "m < 18") (auto simp: bit_simps)
qed

lemma join3_bytes:
  "(ucast (drop_bit 16 (join3 a b c)) :: byte) = a" "(ucast (drop_bit 8 (join3 a b c)) :: byte) = b"
  "(ucast (join3 a b c) :: byte) = c" "take_bit 24 (join3 a b c) = join3 a b c"
  unfolding join3_def by (rule bit_word_eqI, auto simp: bit_simps)+

lemma decode_group:
  "push_bit 18 (of_int (b64_value (b64_char n 18))) OR push_bit 12 (of_int (b64_value (b64_char n 12)))
     OR push_bit 6 (of_int (b64_value (b64_char n 6))) OR of_int (b64_value (b64_char n 0)) = take_bit 24 n"
  unfolding b64_value_word by (rule digits_join)

lemma decode_group3:
  "push_bit 18 (of_int (b64_value (b64_char (join3 a b 0) 18))) OR push_bit 12 (of_int (b64_value (b64_char (join3 a b 0) 12)))
     OR push_bit 6 (of_int (b64_value (b64_char (join3 a b 0) 6))) = join3 a b 0"
proof -
  have "drop_bit 0 (join3 a b 0) AND 0x3F = 0"
    unfolding mask6 join3_def by (rule bit_word_eqI) (auto simp: bit_simps)
  with digits_join [of "join3 a b 0"] show ?thesis unfolding b64_value_word join3_bytes by simp
qed

lemma decode_group2:
  "push_bit 18 (of_int (b64_value (b64_char (join3 a 0 0) 18))) OR push_bit 12 (of_int (b64_value (b64_char (join3 a 0 0) 12)))
     = join3 a 0 0"
proof -
  have "drop_bit 6 (join3 a 0 0) AND 0x3F = 0"
    unfolding mask6 join3_def by (rule bit_word_eqI) (auto simp: bit_simps)
  with decode_group3 [of a 0] show ?thesis unfolding b64_value_word by simp
qed

section \<open>The loops follow the reference\<close>

lemma memcpy_take: "p + length xs \<le> length out \<Longrightarrow> take (p + length xs) (memcpy out p xs) = take p out @ xs"
  by (rule take_memcpy) simp

text \<open>From position \<open>i\<close> on, the encoder appends the reference encoding of the rest.\<close>

definition appends :: "bytes \<Rightarrow> nat \<Rightarrow> bytes \<times> nat \<Rightarrow> bytes \<Rightarrow> bool" where
  "appends out p r xs \<longleftrightarrow> length (fst r) = length out \<and> snd r = p + length xs \<and> take (snd r) (fst r) = take p out @ xs"

lemma appends_memcpy: "p + length xs \<le> length out \<Longrightarrow> appends out p (memcpy out p xs, p + length xs) xs"
  by (simp add: appends_def memcpy_take)

lemma appends_trans: "appends out p (out', p') xs \<Longrightarrow> appends out' p' r ys \<Longrightarrow> appends out p r (xs @ ys)"
  by (auto simp: appends_def)

lemma appends4: "p + 4 \<le> length out \<Longrightarrow> appends out p (memcpy out p [a, b, c, d], p + 4) [a, b, c, d]"
  using appends_memcpy [of p "[a, b, c, d]" out] by (simp add: numeral_eq_Suc)

lemma appends_tails:
  "p + 4 \<le> length out \<Longrightarrow> appends out p (memcpy out p [a, b], p + 2) [a, b]"
  "p + 4 \<le> length out \<Longrightarrow> appends out p (memcpy out p [a, b, c], p + 3) [a, b, c]"
  using appends_memcpy [of p "[a, b]" out] appends_memcpy [of p "[a, b, c]" out] by (simp_all add: numeral_eq_Suc)

lemma drop_cons3: "i + 2 < length d \<Longrightarrow> drop i d = d ! i # d ! (i + 1) # d ! (i + 2) # drop (i + 3) d"
  by (simp add: Cons_nth_drop_Suc numeral_3_eq_3)

lemma encode_appends:
  "i \<le> length d \<Longrightarrow> p + 4 * ((length d - i + 2) div 3) \<le> length out \<Longrightarrow>
   appends out p (case base64_encode_loop d out i p of (out, i, p) \<Rightarrow> base64_encode_tail d out i p) (base64_spec (drop i d))"
proof (induction d out i p rule: base64_encode_loop.induct)
  case (1 d out i p)
  show ?case
  proof (cases "i + 2 < length d")
    case True
    then have k: "(length d - i + 2) div 3 = Suc ((length d - (i + 3) + 2) div 3)" by simp
    with "1.prems" have fit: "p + 4 \<le> length out" by simp
    let ?n = "join3 (d ! i) (d ! (i + 1)) (d ! (i + 2))"
    let ?g = "[b64_char ?n 18, b64_char ?n 12, b64_char ?n 6, b64_char ?n 0]"
    have "appends out p (memcpy out p ?g, p + 4) ?g" using fit by (rule appends4)
    moreover have "appends (memcpy out p ?g) (p + 4)
        (case base64_encode_loop d (memcpy out p ?g) (i + 3) (p + 4) of (out, i, p) \<Rightarrow> base64_encode_tail d out i p)
        (base64_spec (drop (i + 3) d))"
      using "1.IH" [OF conjI [OF True]] fit True "1.prems"(2) k by (simp add: join3_def)
    ultimately have "appends out p
        (case base64_encode_loop d (memcpy out p ?g) (i + 3) (p + 4) of (out, i, p) \<Rightarrow> base64_encode_tail d out i p)
        (?g @ base64_spec (drop (i + 3) d))" by (rule appends_trans)
    moreover have "base64_encode_loop d out i p = base64_encode_loop d (memcpy out p ?g) (i + 3) (p + 4)"
      using True fit by (subst base64_encode_loop.simps) (simp add: join3_def Let_def)
    ultimately show ?thesis unfolding drop_cons3 [OF True] base64_spec.simps(1) by (simp only:)
  next
    case False
    then have l: "base64_encode_loop d out i p = (out, i, p)" by (simp add: base64_encode_loop.simps)
    consider "i = length d" | "length d = i + 1" | "length d = i + 2" using False "1.prems"(1) by linarith
    then show ?thesis
    proof cases
      case 1
      then show ?thesis unfolding l by (simp add: base64_encode_tail_def appends_def)
    next
      case 2
      then have "drop i d = [d ! i]" by (simp add: Cons_nth_drop_Suc [symmetric])
      moreover have "p + 4 \<le> length out" using 2 "1.prems"(2) by simp
      ultimately show ?thesis unfolding l using 2 appends_tails(1)
        by (simp add: base64_encode_tail_def join3_def Let_def del: add_2_eq_Suc')
    next
      case 3
      then have "drop i d = [d ! i, d ! (i + 1)]" by (simp add: Cons_nth_drop_Suc [symmetric])
      moreover have "p + 4 \<le> length out" using 3 "1.prems"(2) by simp
      ultimately show ?thesis unfolding l using 3 appends_tails(2)
        by (simp add: base64_encode_tail_def join3_def Let_def)
    qed
  qed
qed

lemma drop_prefixD:
  assumes "drop i d = xs @ rest" "xs \<noteq> []"
  shows "i + length xs \<le> length d" "drop (i + length xs) d = rest" "j < length xs \<Longrightarrow> d ! (i + j) = xs ! j"
proof -
  have "length (drop i d) = length xs + length rest" using assms(1) by simp
  then show le: "i + length xs \<le> length d" using assms(2) by (cases xs) auto
  show "drop (i + length xs) d = rest" using assms(1) by (metis add.commute append_eq_conv_conj drop_drop)
  show "d ! (i + j) = xs ! j" if "j < length xs"
    using that le assms(1) by (metis add_leD1 nth_append nth_drop)
qed

lemma memcpy_consecutive: "p + length xs \<le> length out \<Longrightarrow> memcpy (memcpy out p xs) (p + length xs) ys = memcpy out p (xs @ ys)"
  by (simp add: memcpy_def ac_simps)

lemma memcpy_overwrite: "p < length out \<Longrightarrow> memcpy (memcpy out p [x]) p [y] = memcpy out p [y]"
  by (simp add: memcpy_def)

lemma decode_step4:
  assumes "drop i d = base64_spec (a # b # c # xs)" "p + 3 \<le> length out"
  shows "base64_decode_loop d out i p = base64_decode_loop d (memcpy out p [a, b, c]) (i + 4) (p + 3)"
    "drop (i + 4) d = base64_spec xs"
proof -
  let ?n = "join3 a b c"
  let ?g = "[b64_char ?n 18, b64_char ?n 12, b64_char ?n 6, b64_char ?n 0]"
  note d = drop_prefixD [OF assms(1) [unfolded base64_spec.simps(1)]]
  show "drop (i + 4) d = base64_spec xs" using d(2) by (simp add: numeral_eq_Suc)
  have ix: "i + 3 < length d" "d ! i = ?g ! 0" "d ! (i + 1) = ?g ! 1" "d ! (i + 2) = ?g ! 2" "d ! (i + 3) = ?g ! 3"
    using d(1) d(3) [of 0] d(3) [of 1] d(3) [of 2] d(3) [of 3] by simp_all
  have w: "memcpy (memcpy (memcpy out p [a]) (p + 1) [b]) (p + 2) [c] = memcpy out p [a, b, c]"
    using memcpy_consecutive [of p "[a]" out "[b]"] memcpy_consecutive [of p "[a, b]" out "[c]"] assms(2)
    by (simp add: numeral_2_eq_2)
  show "base64_decode_loop d out i p = base64_decode_loop d (memcpy out p [a, b, c]) (i + 4) (p + 3)"
    using ix assms(2) w
    by (subst base64_decode_loop.simps)
       (simp add: Let_def b64_value_word(2,3) decode_group join3_bytes numeral_2_eq_2 numeral_3_eq_3)
qed

lemma decode_appends:
  "drop i d = base64_spec xs \<Longrightarrow> p + length xs \<le> length out \<Longrightarrow>
   appends out p (case base64_decode_loop d out i p of (out, i, p) \<Rightarrow> base64_decode_tail d out i p) xs"
proof (induction xs arbitrary: out i p rule: base64_spec.induct)
  case (1 a b c xs)
  have fit: "p + 3 \<le> length out" using "1.prems"(2) by simp
  note st = decode_step4 [OF "1.prems"(1) fit]
  have "appends out p (memcpy out p [a, b, c], p + 3) [a, b, c]"
    using appends_memcpy [of p "[a, b, c]" out] fit by (simp add: numeral_3_eq_3)
  moreover have "appends (memcpy out p [a, b, c]) (p + 3)
      (case base64_decode_loop d (memcpy out p [a, b, c]) (i + 4) (p + 3) of (out, i, p) \<Rightarrow> base64_decode_tail d out i p) xs"
    using "1.IH" [OF st(2)] "1.prems"(2) by simp
  ultimately show ?case unfolding st(1) using appends_trans [of out p _ _ "[a, b, c]"] by fastforce
next
  case (2 a b)
  let ?n = "join3 a b 0"
  note d = drop_prefixD [where rest = "[]", unfolded append_Nil2, OF "2.prems"(1) [unfolded base64_spec.simps]]
  have len: "length d = i + 3" using d(1,2) by simp
  have ix: "d ! i = b64_char ?n 18" "d ! (i + 1) = b64_char ?n 12" "d ! (i + 2) = b64_char ?n 6"
    using d(3) [of 0] d(3) [of 1] d(3) [of 2] by simp_all
  have "base64_decode_loop d out i p = (out, i, p)" using len by (simp add: base64_decode_loop.simps)
  moreover have "memcpy (memcpy (memcpy out p [x]) p [a]) (p + 1) [b] = memcpy out p [a, b]" for x
    using memcpy_consecutive [of p "[a]" out "[b]"] memcpy_overwrite [of p out] "2.prems"(2) by simp
  ultimately show ?case using appends_memcpy [of p "[a, b]" out] "2.prems"(2) len ix
    by (simp add: base64_decode_tail_def Let_def b64_value_word(2) decode_group3 join3_bytes)
next
  case (3 a)
  let ?n = "join3 a 0 0"
  note d = drop_prefixD [where rest = "[]", unfolded append_Nil2, OF "3.prems"(1) [unfolded base64_spec.simps]]
  have len: "length d = i + 2" using d(1,2) by simp
  have ix: "d ! i = b64_char ?n 18" "d ! (i + 1) = b64_char ?n 12"
    using d(3) [of 0] d(3) [of 1] by simp_all
  have "base64_decode_loop d out i p = (out, i, p)" using len by (simp add: base64_decode_loop.simps)
  then show ?case using appends_memcpy [of p "[a]" out] "3.prems"(2) len ix
    by (simp add: base64_decode_tail_def Let_def b64_value_word(2) decode_group2 join3_bytes)
next
  case 4
  then have "length d \<le> i" by simp
  then show ?case by (simp add: base64_decode_loop.simps base64_decode_tail_def appends_def)
qed

lemma char_in_table: "b64_char n s \<in> set BASE64_CHARS"
proof -
  have "drop_bit s n AND 0x3F \<le> 0x3F" by (rule word_and_le1)
  then have "unat (drop_bit s n AND 0x3F) < length BASE64_CHARS" by (simp add: word_le_nat_alt BASE64_CHARS_def ascii_def)
  then show ?thesis unfolding b64_char_def by (rule nth_mem)
qed

lemma base64_spec_chars: "set (base64_spec xs) \<subseteq> set BASE64_CHARS"
  by (induction xs rule: base64_spec.induct) (auto simp: char_in_table)

lemma no_link_prefix: "take (length LINK_PREFIX) (base64_spec xs) \<noteq> LINK_PREFIX"
proof
  assume a: "take (length LINK_PREFIX) (base64_spec xs) = LINK_PREFIX"
  have "58 \<in> set LINK_PREFIX" by (simp add: LINK_PREFIX_def ascii_def)
  then have "58 \<in> set (base64_spec xs)" using a by (metis in_set_takeD)
  moreover have "58 \<notin> set BASE64_CHARS" by (simp add: BASE64_CHARS_def ascii_def)
  ultimately show False using base64_spec_chars by blast
qed

section \<open>Properties\<close>

text \<open>Encoding writes the URL-safe Base64 text of the data and stays inside an output buffer of four
  characters per started group; decoding that text, with or without the link prefix in front, gives back
  the data exactly, inside any buffer of at least its length.\<close>

theorem base64_roundtrip:
  assumes "4 * ((length d + 2) div 3) \<le> length out" "base64_encode d out = (out', n)" "length d \<le> length buf"
  shows "length out' = length out \<and> take n out' = base64_spec d
    \<and> (\<exists>buf'. base64_decode (take n out') buf = (buf', length d) \<and> length buf' = length buf \<and> take (length d) buf' = d)
    \<and> base64_decode (LINK_PREFIX @ take n out') buf = base64_decode (take n out') buf"
proof -
  have e: "length out' = length out" "take n out' = base64_spec d"
    using encode_appends [of 0 d 0 out] assms(1,2) by (auto simp: base64_encode_def appends_def)
  have "appends buf 0 (case base64_decode_loop (base64_spec d) buf 0 0 of (out, i, p) \<Rightarrow> base64_decode_tail (base64_spec d) out i p) d"
    using assms(3) by (intro decode_appends) auto
  then show ?thesis using e
    by (auto simp: base64_decode_def no_link_prefix appends_def Let_def prod_eq_iff split: prod.splits)
qed

theorem base64_roundtrip_witness:
  "\<exists>n out' buf'. base64_encode [77, 97, 110, 33] (zeros 8) = (out', n)
     \<and> base64_decode (take n out') (zeros 4) = (buf', 4) \<and> take 4 buf' = [77, 97, 110, 33]"
proof -
  obtain out' n where e: "base64_encode [77, 97, 110, 33] (zeros 8) = (out', n)" by fastforce
  from base64_roundtrip [OF _ e, of "zeros 4"] e show ?thesis by auto
qed

end
