(* ===== verification/Limb_Arith.thy ===== *)
theory Limb_Arith
  imports Lunar_Prelude
begin

unbundle bit_operations_syntax

text \<open>
  Multi-precision arithmetic in 26-bit limbs on machine words: words as natural numbers, the packing of
  32-bit words into limbs, and the value of a limb vector.
\<close>

section \<open>Words as numbers\<close>

named_theorems limb_simps \<open>word operations on numbers below the word size\<close>

lemma unat_of_nat_lt: "n < 2 ^ LENGTH('a) \<Longrightarrow> unat (of_nat n :: 'a::len word) = n"
  by (simp add: unsigned_of_nat take_bit_nat_eq_self)

lemma drop_bit_of_nat_lt:
  assumes "n < 2 ^ LENGTH('a)"
  shows "drop_bit k (of_nat n :: 'a::len word) = of_nat (n div 2 ^ k)"
proof -
  have "n div 2 ^ k < 2 ^ LENGTH('a)" using assms by (rule order.strict_trans1 [OF div_le_dividend])
  then have "unat (drop_bit k (of_nat n :: 'a word)) = unat (of_nat (n div 2 ^ k) :: 'a word)"
    using assms by (simp only: unsigned_drop_bit_eq unat_of_nat_lt take_bit_nat_eq_self) (simp add: drop_bit_eq_div)
  then show ?thesis by (simp only: word_unat_eq_iff)
qed

lemma mask26: "(0x03ffffff :: 'a::len word) = mask 26"
  by (simp add: mask_eq_exp_minus_1)

lemma and_mask26_of_nat:
  assumes "n < 2 ^ LENGTH('a)"
  shows "(of_nat n :: 'a::len word) AND 0x03ffffff = of_nat (n mod 2 ^ 26)"
proof -
  have "n mod 2 ^ 26 < 2 ^ LENGTH('a)" using assms by (rule order.strict_trans1 [OF mod_less_eq_dividend])
  then have "unat (take_bit 26 (of_nat n :: 'a word)) = unat (of_nat (n mod 2 ^ 26) :: 'a word)"
    using assms by (simp only: unsigned_take_bit_eq unat_of_nat_lt) (simp only: take_bit_eq_mod)
  then show ?thesis by (simp only: word_unat_eq_iff mask26 take_bit_eq_mask)
qed

lemma ucast_of_nat_down: "LENGTH('b) \<le> LENGTH('a) \<Longrightarrow> (ucast (of_nat n :: 'a::len word) :: 'b::len word) = of_nat n"
  by (rule unsigned_word_eqI) (simp add: unsigned_ucast_eq unsigned_of_nat take_bit_take_bit min_def)

lemma ucast_of_nat_up: "n < 2 ^ LENGTH('a) \<Longrightarrow> (ucast (of_nat n :: 'a::len word) :: 'b::len word) = of_nat n"
  by (rule unsigned_word_eqI) (simp add: unsigned_ucast_eq unsigned_of_nat take_bit_nat_eq_self)

lemma or_push_bit_nat: "a < 2 ^ s \<Longrightarrow> a OR push_bit s b = a + 2 ^ s * (b :: nat)"
proof -
  assume "a < 2 ^ s"
  then have "take_bit s a = a" by (simp add: take_bit_nat_eq_self)
  then have "\<not> (bit a n \<and> bit (push_bit s b) n)" for n
    by (metis bit_push_bit_iff_nat bit_take_bit_iff not_le)
  then have "a AND push_bit s b = 0" by (auto simp: bit_eq_iff bit_and_iff)
  then have "a OR push_bit s b = a + push_bit s b" by (simp add: disjunctive_add_eq_or)
  then show ?thesis by (simp add: push_bit_eq_mult mult.commute)
qed

lemma and_join_nat:
  assumes "a < 2 ^ s" "c < 2 ^ s"
  shows "(a + 2 ^ s * b) AND (c + 2 ^ s * d) = (a AND c) + 2 ^ s * (b AND d :: nat)"
proof -
  have hi: "\<not> bit a n" "\<not> bit c n" if "s \<le> n" for n
    using assms that by (metis bit_take_bit_iff take_bit_nat_eq_self not_le)+
  have "take_bit s (a AND c) = a AND c" using assms by (simp add: take_bit_nat_eq_self)
  then have ac: "a AND c < 2 ^ s" by (metis take_bit_nat_less_exp)
  have "(a OR push_bit s b) AND (c OR push_bit s d) = (a AND c) OR push_bit s (b AND d)"
    by (rule bit_eqI) (use hi in \<open>auto simp: bit_simps\<close>)
  then show ?thesis by (simp only: or_push_bit_nat [OF assms(1)] or_push_bit_nat [OF assms(2)] or_push_bit_nat [OF ac])
qed

text \<open>The part of a limb that comes from two neighbouring words.\<close>

lemma pack_limb:
  assumes "s \<le> 26"
  shows "unat ((drop_bit (32 - s) a OR push_bit s b) AND 0x03ffffff :: u32)
    = unat a div 2 ^ (32 - s) + 2 ^ s * (unat b mod 2 ^ (26 - s))"
proof -
  have a32: "take_bit 32 (unat a) = unat a" using unat_lt2p [of a] by (simp add: take_bit_nat_eq_self)
  have "unat a < 2 ^ (32 - s) * 2 ^ s" using unat_lt2p [of a] assms by (simp flip: power_add)
  then have x: "unat a div 2 ^ (32 - s) < 2 ^ s" by (simp add: less_mult_imp_div_less mult.commute)
  also have "(2 :: nat) ^ s \<le> 2 ^ 26" using assms by (intro power_increasing) auto
  finally have x26: "unat a div 2 ^ (32 - s) < 2 ^ 26" .
  have "unat ((drop_bit (32 - s) a OR push_bit s b) AND 0x03ffffff :: u32)
      = take_bit 26 (unat a div 2 ^ (32 - s)) OR take_bit 26 (push_bit s (unat b))"
    unfolding mask26 take_bit_eq_mask [symmetric]
    by (simp only: unsigned_take_bit_eq unsigned_or_eq unsigned_drop_bit_eq unsigned_push_bit_eq take_bit_or)
      (simp add: drop_bit_eq_div a32)
  also have "\<dots> = unat a div 2 ^ (32 - s) OR push_bit s (take_bit (26 - s) (unat b))"
    using x26 by (simp only: take_bit_nat_eq_self take_bit_push_bit)
  also have "\<dots> = unat a div 2 ^ (32 - s) + 2 ^ s * (unat b mod 2 ^ (26 - s))"
    using x by (simp only: or_push_bit_nat take_bit_eq_mod)
  finally show ?thesis .
qed

lemma unat_and_mask26: "unat (a AND 0x03ffffff :: u32) = unat a mod 2 ^ 26"
  unfolding mask26 take_bit_eq_mask [symmetric] by (simp only: unsigned_take_bit_eq) (simp only: take_bit_eq_mod)

lemma unat_drop_bit: "unat (drop_bit k a :: 'a::len word) = unat a div 2 ^ k"
  by (simp only: unsigned_drop_bit_eq) (simp add: drop_bit_eq_div take_bit_nat_eq_self)

section \<open>Bytes as numbers\<close>

fun le_nat :: "bytes \<Rightarrow> nat" where
  "le_nat [] = 0"
| "le_nat (b # bs) = unat b + 256 * le_nat bs"

fun nat_bytes :: "nat \<Rightarrow> nat \<Rightarrow> bytes" where
  "nat_bytes 0 n = []"
| "nat_bytes (Suc k) n = of_nat (n mod 256) # nat_bytes k (n div 256)"

lemma le_nat_bound: "le_nat bs < 256 ^ length bs"
proof (induction bs)
  case Nil
  show ?case by simp
next
  case (Cons b bs)
  moreover have "unat b < 256" using unat_lt2p [of b] by simp
  ultimately show ?case by (simp only: le_nat.simps length_Cons power_Suc)
qed

lemma le_nat_append: "le_nat (xs @ ys) = le_nat xs + 256 ^ length xs * le_nat ys"
  by (induction xs) (simp_all add: algebra_simps)

lemma unat_le_word: "8 * length bs \<le> LENGTH('a) \<Longrightarrow> unat (le_word bs :: 'a::len word) = le_nat bs"
proof (induction bs)
  case Nil
  show ?case by simp
next
  case (Cons b bs)
  have b: "unat b < 2 ^ 8" using unat_lt2p [of b] by simp
  have "le_nat (b # bs) < 256 ^ length (b # bs)" by (rule le_nat_bound)
  also have "(256 :: nat) ^ length (b # bs) = 2 ^ (8 * length (b # bs))" by (simp only: power_mult) simp
  also have "\<dots> \<le> 2 ^ LENGTH('a)" using Cons.prems by (intro power_increasing) auto
  finally have lt: "unat b + 2 ^ 8 * le_nat bs < 2 ^ LENGTH('a)" by simp
  have "unat (le_word (b # bs) :: 'a word) = take_bit LENGTH('a) (unat b) OR take_bit LENGTH('a) (push_bit 8 (le_nat bs))"
    using Cons by (simp add: unsigned_or_eq unsigned_ucast_eq unsigned_push_bit_eq)
  also have "\<dots> = take_bit LENGTH('a) (unat b + 2 ^ 8 * le_nat bs)"
    by (simp only: take_bit_or [symmetric] or_push_bit_nat [OF b])
  also have "\<dots> = unat b + 2 ^ 8 * le_nat bs" using lt by (simp only: take_bit_nat_eq_self)
  finally show ?case by simp
qed

lemma le_bytes_nat: "le_bytes k (of_nat n :: 'a::len word) = nat_bytes k n" if "n < 2 ^ LENGTH('a)" "8 \<le> LENGTH('a)"
  using that(1)
proof (induction k arbitrary: n)
  case 0
  show ?case by simp
next
  case (Suc k)
  have "n div 256 < 2 ^ LENGTH('a)" using Suc.prems by (rule order.strict_trans1 [OF div_le_dividend])
  moreover have "(ucast (of_nat n :: 'a word) :: byte) = of_nat (n mod 256)"
    using that(2) by (subst ucast_of_nat_down) (simp_all add: word_of_nat_eq_iff take_bit_eq_mod)
  ultimately show ?case using Suc drop_bit_of_nat_lt [of n 8, where ?'a = 'a] by simp
qed

lemma nat_bytes_append: "nat_bytes (k + l) n = nat_bytes k n @ nat_bytes l (n div 256 ^ k)"
  by (induction k arbitrary: n) (simp_all add: div_mult2_eq)

lemma nat_bytes_cong: "n mod 256 ^ k = m mod 256 ^ k \<Longrightarrow> nat_bytes k n = nat_bytes k m"
proof (induction k arbitrary: n m)
  case 0
  show ?case by simp
next
  case (Suc k)
  have "n mod 256 = m mod 256" using Suc.prems mod_mod_cancel [of 256 "256 ^ Suc k"] by (metis dvd_triv_left power_Suc)
  have "x div 256 mod 256 ^ k = x mod 256 ^ Suc k div 256" for x :: nat
    by (simp add: mod_mult2_eq)
  from this [of n] this [of m] have "n div 256 mod 256 ^ k = m div 256 mod 256 ^ k" using Suc.prems by (simp only:)
  with \<open>n mod 256 = m mod 256\<close> show ?case using Suc.IH [of "n div 256" "m div 256"] by simp
qed

lemma nat_bytes_words: "nat_bytes (4 + k) (f + 2 ^ 32 * x) = nat_bytes 4 f @ nat_bytes k (f div 2 ^ 32 + x)"
proof -
  have "nat_bytes 4 (f + 2 ^ 32 * x) = nat_bytes 4 f" by (rule nat_bytes_cong) simp
  then show ?thesis by (simp add: nat_bytes_append add.commute [of x])
qed

lemma nat_bytes_carry: "nat_bytes (4 + k) (c + (g + 2 ^ 32 * x)) = nat_bytes 4 (g + c) @ nat_bytes k ((g + c) div 2 ^ 32 + x)"
  using nat_bytes_words [of k "g + c" x] by (simp add: ac_simps)

lemma length_nat_bytes [simp]: "length (nat_bytes k n) = k"
  by (induction k arbitrary: n) auto

text \<open>A word made of the upper part of one limb and the lower part of the next.\<close>

lemma join_limbs:
  assumes "s \<le> 32" "unat a div 2 ^ k < 2 ^ s"
  shows "unat (drop_bit k a OR push_bit s b :: u32) = unat a div 2 ^ k + 2 ^ s * (unat b mod 2 ^ (32 - s))"
proof -
  have "unat (drop_bit k a OR push_bit s b :: u32) = unat a div 2 ^ k OR take_bit 32 (push_bit s (unat b))"
    by (simp only: unsigned_or_eq unat_drop_bit unsigned_push_bit_eq) simp
  also have "\<dots> = unat a div 2 ^ k OR push_bit s (take_bit (32 - s) (unat b))" by (simp only: take_bit_push_bit)
  finally show ?thesis using assms(2) by (simp only: or_push_bit_nat take_bit_eq_mod)
qed

section \<open>Limb vectors\<close>

fun limbs :: "nat list \<Rightarrow> nat" where
  "limbs [] = 0"
| "limbs (x # xs) = x + 2 ^ 26 * limbs xs"

lemma nth5: "[a, b, c, d, e] ! 0 = a" "[a, b, c, d, e] ! 1 = b" "[a, b, c, d, e] ! 2 = c" "[a, b, c, d, e] ! 3 = d"
    "[a, b, c, d, e] ! 4 = e"
  by simp_all

abbreviation P1305 :: nat where "P1305 \<equiv> 2 ^ 130 - 5"

text \<open>Four words in five limbs.\<close>

definition pack26 :: "nat \<Rightarrow> nat \<Rightarrow> nat \<Rightarrow> nat \<Rightarrow> nat list" where
  "pack26 t0 t1 t2 t3 = [t0 mod 2 ^ 26, t0 div 2 ^ 26 + 2 ^ 6 * (t1 mod 2 ^ 20), t1 div 2 ^ 20 + 2 ^ 12 * (t2 mod 2 ^ 14),
     t2 div 2 ^ 14 + 2 ^ 18 * (t3 mod 2 ^ 8), t3 div 2 ^ 8]"

lemma limbs_pack26: "limbs (pack26 t0 t1 t2 t3) = t0 + 2 ^ 32 * t1 + 2 ^ 64 * t2 + 2 ^ 96 * t3"
proof -
  have "limbs [r0, q0 + 2 ^ 6 * r1, q1 + 2 ^ 12 * r2, q2 + 2 ^ 18 * r3, q3]
      = (r0 + 2 ^ 26 * q0) + 2 ^ 32 * (r1 + 2 ^ 20 * q1) + 2 ^ 64 * (r2 + 2 ^ 14 * q2) + 2 ^ 96 * (r3 + 2 ^ 8 * q3)"
    for q0 q1 q2 q3 r0 r1 r2 r3 by simp
  from this [of "t0 mod 2 ^ 26" "t0 div 2 ^ 26" "t1 mod 2 ^ 20" "t1 div 2 ^ 20" "t2 mod 2 ^ 14" "t2 div 2 ^ 14"
    "t3 mod 2 ^ 8" "t3 div 2 ^ 8"] show ?thesis
    unfolding pack26_def mod_mult_div_eq .
qed

lemma pack26_bound:
  assumes "t0 < 2 ^ 32" "t1 < 2 ^ 32" "t2 < 2 ^ 32" "t3 < 2 ^ 32"
  shows "list_all (\<lambda>x. x < 2 ^ 26) (take 4 (pack26 t0 t1 t2 t3))" "pack26 t0 t1 t2 t3 ! 4 < 2 ^ 24"
  using assms by (simp_all add: pack26_def) (linarith+)?

text \<open>The product with the wrapped-around part folded in, and one pass of carries.\<close>

definition mul_nat :: "nat list \<Rightarrow> nat list \<Rightarrow> nat list" where
  "mul_nat r h =
     [h ! 0 * (r ! 0) + h ! 1 * (r ! 4 * 5) + h ! 2 * (r ! 3 * 5) + h ! 3 * (r ! 2 * 5) + h ! 4 * (r ! 1 * 5),
      h ! 0 * (r ! 1) + h ! 1 * (r ! 0) + h ! 2 * (r ! 4 * 5) + h ! 3 * (r ! 3 * 5) + h ! 4 * (r ! 2 * 5),
      h ! 0 * (r ! 2) + h ! 1 * (r ! 1) + h ! 2 * (r ! 0) + h ! 3 * (r ! 4 * 5) + h ! 4 * (r ! 3 * 5),
      h ! 0 * (r ! 3) + h ! 1 * (r ! 2) + h ! 2 * (r ! 1) + h ! 3 * (r ! 0) + h ! 4 * (r ! 4 * 5),
      h ! 0 * (r ! 4) + h ! 1 * (r ! 3) + h ! 2 * (r ! 2) + h ! 3 * (r ! 1) + h ! 4 * (r ! 0)]"

lemma limbs_mul:
  "limbs [r0, r1, r2, r3, r4] * limbs [h0, h1, h2, h3, h4]
     = limbs (mul_nat [r0, r1, r2, r3, r4] [h0, h1, h2, h3, h4])
       + P1305 * (h1 * r4 + h2 * r3 + h3 * r2 + h4 * r1 + 2 ^ 26 * (h2 * r4 + h3 * r3 + h4 * r2)
                  + 2 ^ 52 * (h3 * r4 + h4 * r3) + 2 ^ 78 * (h4 * r4))"
  by (simp add: mul_nat_def algebra_simps numeral_eq_Suc [of "num.One"])


definition carry_nat :: "nat list \<Rightarrow> nat list" where
  "carry_nat d =
     (let d1 = d ! 1 + d ! 0 div 2 ^ 26; d2 = d ! 2 + d1 div 2 ^ 26; d3 = d ! 3 + d2 div 2 ^ 26; d4 = d ! 4 + d3 div 2 ^ 26;
          h0 = d ! 0 mod 2 ^ 26 + d4 div 2 ^ 26 * 5
      in [h0 mod 2 ^ 26, d1 mod 2 ^ 26 + h0 div 2 ^ 26, d2 mod 2 ^ 26, d3 mod 2 ^ 26, d4 mod 2 ^ 26])"

lemma carry_chain:
  assumes "(d0 :: nat) = r0 + 2 ^ 26 * q0" "d1 + q0 = r1 + 2 ^ 26 * q1" "d2 + q1 = r2 + 2 ^ 26 * q2" "d3 + q2 = r3 + 2 ^ 26 * q3"
    "d4 + q3 = r4 + 2 ^ 26 * q4" "r0 + q4 * 5 = r5 + 2 ^ 26 * q5"
  shows "limbs [d0, d1, d2, d3, d4] = limbs [r5, r1 + q5, r2, r3, r4] + P1305 * q4"
  using assms by simp

lemma limbs_carry: "\<exists>q. limbs [d0, d1, d2, d3, d4] = limbs (carry_nat [d0, d1, d2, d3, d4]) + P1305 * q"
  unfolding carry_nat_def Let_def nth5
  by (rule exI, rule carry_chain, (rule mod_mult_div_eq [symmetric])+)

lemma limbs_step_mod:
  "limbs (carry_nat (mul_nat [r0, r1, r2, r3, r4] [h0, h1, h2, h3, h4])) mod P1305
     = limbs [h0, h1, h2, h3, h4] * limbs [r0, r1, r2, r3, r4] mod P1305"
proof -
  let ?m = "mul_nat [r0, r1, r2, r3, r4] [h0, h1, h2, h3, h4]"
  obtain q where "limbs ?m = limbs (carry_nat ?m) + P1305 * q"
    using limbs_carry unfolding mul_nat_def by blast
  then have "limbs (carry_nat ?m) mod P1305 = limbs ?m mod P1305" by (metis mod_mult_self2)
  also have "\<dots> = limbs [r0, r1, r2, r3, r4] * limbs [h0, h1, h2, h3, h4] mod P1305"
    unfolding limbs_mul by (rule mod_mult_self2 [symmetric])
  finally show ?thesis by (simp only: mult.commute)
qed

text \<open>Sizes: nothing overflows and the carried limbs are small again.\<close>

lemma div26_le: "2 ^ 26 * (x div 2 ^ 26) \<le> (x :: nat)" "x mod 2 ^ 26 < 2 ^ 26"
  by simp_all

lemma mul_nat_bound:
  assumes "\<forall>x\<in>{h0, h1, h2, h3, h4}. x \<le> 2 ^ 27 + 64" "\<forall>x\<in>{r0, r1, r2, r3, r4}. x \<le> 2 ^ 26"
    and "mul_nat [r0, r1, r2, r3, r4] [h0, h1, h2, h3, h4] = [d0, d1, d2, d3, d4]"
  shows "d0 \<le> 2 ^ 58" "d1 \<le> 2 ^ 58" "d2 \<le> 2 ^ 58" "d3 \<le> 2 ^ 58" "d4 \<le> 5 * ((2 ^ 27 + 64) * 2 ^ 26)"
proof -
  have p: "a * b \<le> (2 ^ 27 + 64) * 2 ^ 26" if "a \<in> {h0, h1, h2, h3, h4}" "b \<in> {r0, r1, r2, r3, r4}" for a b
    using bspec [OF assms(1) that(1)] bspec [OF assms(2) that(2)] by (rule mult_le_mono)
  have p5: "a * (b * 5) \<le> (2 ^ 27 + 64) * 2 ^ 26 * 5" if "a \<in> {h0, h1, h2, h3, h4}" "b \<in> {r0, r1, r2, r3, r4}" for a b
    using p [OF that] by (simp add: mult.assoc [symmetric])
  note d = assms(3) [unfolded mul_nat_def nth5, symmetric]
  show "d0 \<le> 2 ^ 58" using d p [of h0 r0] p5 [of h1 r4] p5 [of h2 r3] p5 [of h3 r2] p5 [of h4 r1] by simp
  show "d1 \<le> 2 ^ 58" using d p [of h0 r1] p [of h1 r0] p5 [of h2 r4] p5 [of h3 r3] p5 [of h4 r2] by simp
  show "d2 \<le> 2 ^ 58" using d p [of h0 r2] p [of h1 r1] p [of h2 r0] p5 [of h3 r4] p5 [of h4 r3] by simp
  show "d3 \<le> 2 ^ 58" using d p [of h0 r3] p [of h1 r2] p [of h2 r1] p [of h3 r0] p5 [of h4 r4] by simp
  show "d4 \<le> 5 * ((2 ^ 27 + 64) * 2 ^ 26)"
    using d p [of h0 r4] p [of h1 r3] p [of h2 r2] p [of h3 r1] p [of h4 r0] by simp
qed

lemma carry_nat_bound:
  assumes "(d0 :: nat) \<le> 2 ^ 58" "d1 \<le> 2 ^ 58" "d2 \<le> 2 ^ 58" "d3 \<le> 2 ^ 58" "d4 \<le> 5 * ((2 ^ 27 + 64) * 2 ^ 26)"
  defines "e1 \<equiv> d1 + d0 div 2 ^ 26"
  defines "e2 \<equiv> d2 + e1 div 2 ^ 26"
  defines "e3 \<equiv> d3 + e2 div 2 ^ 26"
  defines "e4 \<equiv> d4 + e3 div 2 ^ 26"
  shows "e1 < 2 ^ 59" "e2 < 2 ^ 59" "e3 < 2 ^ 59" "e4 < 2 ^ 59" "d0 mod 2 ^ 26 + e4 div 2 ^ 26 * 5 < 2 ^ 32"
    "(d0 mod 2 ^ 26 + e4 div 2 ^ 26 * 5) div 2 ^ 26 < 64"
proof -
  note q = div26_le(1) [of d0] div26_le(1) [of e1] div26_le(1) [of e2] div26_le(1) [of e3] div26_le(1) [of e4]
  show e1: "e1 < 2 ^ 59" using assms(1,2) q(1) unfolding e1_def by simp
  show e2: "e2 < 2 ^ 59" using assms(3) e1 q(2) unfolding e2_def by simp
  show e3: "e3 < 2 ^ 59" using assms(4) e2 q(3) unfolding e3_def by simp
  have "e4 \<le> 5 * ((2 ^ 27 + 64) * 2 ^ 26) + 2 ^ 33" using assms(5) e3 q(4) unfolding e4_def by simp
  moreover from this show "e4 < 2 ^ 59" by simp
  ultimately have b: "d0 mod 2 ^ 26 + e4 div 2 ^ 26 * 5 < 2 ^ 31 + 2 ^ 30 + 2 ^ 28"
    using q(5) div26_le(2) [of d0] by simp
  then show "d0 mod 2 ^ 26 + e4 div 2 ^ 26 * 5 < 2 ^ 32" by simp
  have "d0 mod 2 ^ 26 + e4 div 2 ^ 26 * 5 < 64 * 2 ^ 26" using b by simp
  then show "(d0 mod 2 ^ 26 + e4 div 2 ^ 26 * 5) div 2 ^ 26 < 64" by (rule less_mult_imp_div_less)
qed

end
