(* ===== verification/Chacha20.thy ===== *)
theory Chacha20
  imports Crypto_Util Byte_Codec Vec_Helpers
begin

unbundle bit_operations_syntax

text \<open>
  ChaCha20, HChaCha20 and XChaCha20 of \<^verbatim>\<open>lunar/crypto/chacha20.c\<close>. The key stream is the concatenation of
  the blocks of consecutive counters; encryption is the exclusive or with it, in place.
\<close>

section \<open>State\<close>

record chacha20 =
  cc_state :: "u32 list"

record xchacha20 =
  xc_inner :: chacha20

definition CHACHA20_CONSTANTS :: "u32 list" where
  "CHACHA20_CONSTANTS = [0x61707865, 0x3320646e, 0x79622d32, 0x6b206574]"

section \<open>Operations\<close>

definition u32_from_le_bytes :: "bytes \<Rightarrow> u32" where
  "u32_from_le_bytes b = ucast (b ! 0) OR push_bit 8 (ucast (b ! 1)) OR push_bit 16 (ucast (b ! 2))
     OR push_bit 24 (ucast (b ! 3))"

definition u32_to_le_bytes :: "u32 \<Rightarrow> bytes" where
  "u32_to_le_bytes v = [ucast (v AND 0xFF), ucast (drop_bit 8 v AND 0xFF),
     ucast (drop_bit 16 v AND 0xFF), ucast (drop_bit 24 v AND 0xFF)]"

definition rotate_left :: "u32 \<Rightarrow> nat \<Rightarrow> u32" where
  "rotate_left v shift = push_bit shift v OR drop_bit (32 - shift) v"

definition wrapping_add :: "u32 \<Rightarrow> u32 \<Rightarrow> u32" where
  "wrapping_add a b = a + b"

definition chacha20_drop :: "chacha20 \<Rightarrow> chacha20" where
  "chacha20_drop self = self\<lparr>cc_state := secure_zero_u32 (cc_state self)\<rparr>"

definition chacha20_new :: "bytes \<Rightarrow> bytes \<Rightarrow> chacha20" where
  "chacha20_new key nonce =
     \<lparr>cc_state = CHACHA20_CONSTANTS
        @ [u32_from_le_bytes (drop 0 key), u32_from_le_bytes (drop 4 key), u32_from_le_bytes (drop 8 key),
           u32_from_le_bytes (drop 12 key), u32_from_le_bytes (drop 16 key), u32_from_le_bytes (drop 20 key),
           u32_from_le_bytes (drop 24 key), u32_from_le_bytes (drop 28 key)]
        @ [0, u32_from_le_bytes (drop 0 nonce), u32_from_le_bytes (drop 4 nonce), u32_from_le_bytes (drop 8 nonce)]\<rparr>"

definition chacha20_new_with_counter :: "bytes \<Rightarrow> bytes \<Rightarrow> u32 \<Rightarrow> chacha20" where
  "chacha20_new_with_counter key nonce counter =
     (let cipher = chacha20_new key nonce in cipher\<lparr>cc_state := (cc_state cipher)[12 := counter]\<rparr>)"

definition quarter_round :: "nat \<Rightarrow> nat \<Rightarrow> nat \<Rightarrow> nat \<Rightarrow> u32 list \<Rightarrow> u32 list" where
  "quarter_round a b c d st =
     (let st = st[a := wrapping_add (st ! a) (st ! b)];
          st = st[d := st ! d XOR st ! a];
          st = st[d := rotate_left (st ! d) 16];
          st = st[c := wrapping_add (st ! c) (st ! d)];
          st = st[b := st ! b XOR st ! c];
          st = st[b := rotate_left (st ! b) 12];
          st = st[a := wrapping_add (st ! a) (st ! b)];
          st = st[d := st ! d XOR st ! a];
          st = st[d := rotate_left (st ! d) 8];
          st = st[c := wrapping_add (st ! c) (st ! d)];
          st = st[b := st ! b XOR st ! c]
      in st[b := rotate_left (st ! b) 7])"

text \<open>One turn of the round loop: four column rounds and four diagonal rounds.\<close>

definition double_round :: "u32 list \<Rightarrow> u32 list" where
  "double_round w =
     (let w = quarter_round 0 4 8 12 w; w = quarter_round 1 5 9 13 w;
          w = quarter_round 2 6 10 14 w; w = quarter_round 3 7 11 15 w;
          w = quarter_round 0 5 10 15 w; w = quarter_round 1 6 11 12 w;
          w = quarter_round 2 7 8 13 w
      in quarter_round 3 4 9 14 w)"

definition chacha20_block :: "chacha20 \<Rightarrow> u32 \<Rightarrow> bytes" where
  "chacha20_block self counter =
     (let state = (cc_state self)[12 := counter];
          working = (double_round ^^ 10) state;
          working = map (\<lambda>i. wrapping_add (working ! i) (state ! i)) [0..<16]
      in concat (map (\<lambda>i. u32_to_le_bytes (working ! i)) [0..<16]))"

function keystream_loop :: "chacha20 \<Rightarrow> bytes \<Rightarrow> nat \<Rightarrow> u32 \<Rightarrow> bytes" where
  "keystream_loop self d offset counter =
     (if offset < length d then
        let keystream = chacha20_block self counter;
            chunk_len = length d - offset;
            chunk_len = (if chunk_len > 64 then 64 else chunk_len);
            d = memcpy d offset (map (\<lambda>i. d ! (offset + i) XOR keystream ! i) [0..<chunk_len])
        in keystream_loop self d (offset + chunk_len) (wrapping_add counter 1)
      else d)"
  by pat_completeness auto
termination
  by (relation "measure (\<lambda>(self, d, offset, counter). length d - offset)") (auto split: if_splits)

declare keystream_loop.simps [simp del]

definition chacha20_apply_keystream :: "chacha20 \<Rightarrow> bytes \<Rightarrow> bytes" where
  "chacha20_apply_keystream self d = keystream_loop self d 0 (cc_state self ! 12)"

definition chacha20_encrypt :: "chacha20 \<Rightarrow> bytes \<Rightarrow> bytes" where
  "chacha20_encrypt self d = chacha20_apply_keystream self d"

definition chacha20_decrypt :: "chacha20 \<Rightarrow> bytes \<Rightarrow> bytes" where
  "chacha20_decrypt self d = chacha20_apply_keystream self d"

text \<open>The generator: at most 1024 bytes are stored, further ones are computed and dropped. \<open>junk\<close> is the
  uninitialised array of the result.\<close>

definition keystream_push :: "vec \<Rightarrow> byte \<Rightarrow> vec" where
  "keystream_push output b =
     (if vlen output < 1024 then output\<lparr>vdata := (vdata output)[vlen output := b], vlen := vlen output + 1\<rparr> else output)"

function keystream_gen :: "chacha20 \<Rightarrow> vec \<Rightarrow> nat \<Rightarrow> u32 \<Rightarrow> vec" where
  "keystream_gen self output remaining counter =
     (if remaining > 0 then
        let block = chacha20_block self counter;
            to_copy = (if remaining > 64 then 64 else remaining)
        in keystream_gen self (foldl keystream_push output (map (\<lambda>i. block ! i) [0..<to_copy]))
             (remaining - to_copy) (wrapping_add counter 1)
      else output)"
  by pat_completeness auto
termination
  by (relation "measure (\<lambda>(self, output, remaining, counter). remaining)") auto

declare keystream_gen.simps [simp del]

definition chacha20_keystream :: "bytes \<Rightarrow> chacha20 \<Rightarrow> nat \<Rightarrow> vec" where
  "chacha20_keystream junk self n = keystream_gen self \<lparr>vdata = junk, vlen = 0\<rparr> n (cc_state self ! 12)"

definition hchacha20 :: "bytes \<Rightarrow> bytes \<Rightarrow> bytes" where
  "hchacha20 key nonce =
     (let state = [0x61707865, 0x3320646e, 0x79622d32, 0x6b206574]
            @ map (\<lambda>i. u32_from_le_bytes [key ! (i * 4), key ! (i * 4 + 1), key ! (i * 4 + 2), key ! (i * 4 + 3)]) [0..<8]
            @ map (\<lambda>i. u32_from_le_bytes [nonce ! (i * 4), nonce ! (i * 4 + 1), nonce ! (i * 4 + 2), nonce ! (i * 4 + 3)]) [0..<4];
          state = (double_round ^^ 10) state
      in concat (map (\<lambda>i. u32_to_le_bytes (state ! i)) [0..<4])
         @ concat (map (\<lambda>i. u32_to_le_bytes (state ! (12 + i))) [0..<4]))"

definition xchacha20_new :: "bytes \<Rightarrow> bytes \<Rightarrow> xchacha20" where
  "xchacha20_new key nonce =
     (let hnonce = slice nonce 0 16;
          subkey = hchacha20 key hnonce;
          chacha_nonce = zeros 4 @ slice nonce 16 8
      in \<lparr>xc_inner = chacha20_new subkey chacha_nonce\<rparr>)"

definition xchacha20_apply_keystream :: "xchacha20 \<Rightarrow> bytes \<Rightarrow> bytes" where
  "xchacha20_apply_keystream self d = chacha20_apply_keystream (xc_inner self) d"

section \<open>Reference\<close>

text \<open>The key stream from a counter on: \<open>k\<close> blocks.\<close>

fun stream_blocks :: "chacha20 \<Rightarrow> u32 \<Rightarrow> nat \<Rightarrow> bytes" where
  "stream_blocks self c 0 = []"
| "stream_blocks self c (Suc k) = chacha20_block self c @ stream_blocks self (c + 1) k"

definition key_stream :: "chacha20 \<Rightarrow> u32 \<Rightarrow> nat \<Rightarrow> bytes" where
  "key_stream self c n = take n (stream_blocks self c ((n + 63) div 64))"

definition xor_bytes :: "bytes \<Rightarrow> bytes \<Rightarrow> bytes" where
  "xor_bytes a b = map2 (XOR) a b"

section \<open>Facts\<close>

lemma length_u32_to_le_bytes [simp]: "length (u32_to_le_bytes v) = 4"
  by (simp add: u32_to_le_bytes_def)

lemma length_chacha20_block [simp]: "length (chacha20_block self c) = 64"
  by (simp add: chacha20_block_def Let_def length_concat comp_def sum_list_triv)

lemma length_stream_blocks [simp]: "length (stream_blocks self c k) = 64 * k"
  by (induction k arbitrary: c) auto

lemma length_key_stream [simp]: "length (key_stream self c n) = n"
proof -
  have "n \<le> 64 * ((n + 63) div 64)" by linarith
  then show ?thesis by (simp add: key_stream_def)
qed

lemma key_stream_0 [simp]: "key_stream self c 0 = []"
  by (simp add: key_stream_def)

lemma key_stream_short: "0 < n \<Longrightarrow> n \<le> 64 \<Longrightarrow> key_stream self c n = take n (chacha20_block self c)"
proof -
  assume "0 < n" "n \<le> 64"
  then have "(n + 63) div 64 = Suc 0" by linarith
  with \<open>n \<le> 64\<close> show ?thesis by (simp add: key_stream_def)
qed

lemma key_stream_block: "64 < n \<Longrightarrow> key_stream self c n = chacha20_block self c @ key_stream self (c + 1) (n - 64)"
proof -
  assume "64 < n"
  then have "(n + 63) div 64 = Suc ((n - 64 + 63) div 64)" by linarith
  with \<open>64 < n\<close> show ?thesis by (simp add: key_stream_def)
qed

text \<open>One step of either loop takes the next chunk of the stream.\<close>

lemma key_stream_step:
  "0 < n \<Longrightarrow> key_stream self c n = take (min 64 n) (chacha20_block self c) @ key_stream self (c + 1) (n - min 64 n)"
  by (cases "64 < n") (simp_all add: key_stream_block key_stream_short min_def)

lemma chunk_xor:
  assumes "offset + n \<le> length d" "n \<le> length ks"
  shows "map (\<lambda>i. d ! (offset + i) XOR ks ! i) [0..<n] = xor_bytes (slice d offset n) (take n ks)"
  using assms by (auto simp: xor_bytes_def slice_def intro!: nth_equalityI)

lemma xor_bytes_append:
  "length a = length c \<Longrightarrow> xor_bytes (a @ b) (c @ d) = xor_bytes a c @ xor_bytes b d"
  by (simp add: xor_bytes_def)

lemma length_xor_bytes [simp]: "length (xor_bytes a b) = min (length a) (length b)"
  by (simp add: xor_bytes_def)

lemma keystream_loop_spec:
  "offset \<le> length d \<Longrightarrow>
   keystream_loop self d offset counter = take offset d @ xor_bytes (drop offset d) (key_stream self counter (length d - offset))"
proof (induction self d offset counter rule: keystream_loop.induct)
  case (1 self d offset counter)
  show ?case
  proof (cases "offset < length d")
    case False
    then show ?thesis using "1.prems" by (simp add: keystream_loop.simps xor_bytes_def)
  next
    case True
    let ?n = "min 64 (length d - offset)"
    let ?x = "xor_bytes (slice d offset ?n) (take ?n (chacha20_block self counter))"
    let ?d = "memcpy d offset ?x"
    have n: "offset + ?n \<le> length d" "?n \<le> 64" using True by simp_all
    have chunk: "(if length d - offset > 64 then 64 else length d - offset) = ?n" by simp
    have lx: "length ?x = ?n" using n by simp
    have ld: "length ?d = length d" using n lx by simp
    have step: "keystream_loop self d offset counter = keystream_loop self ?d (offset + ?n) (counter + 1)"
      using True n chunk_xor [of offset ?n d "chacha20_block self counter"]
      by (subst keystream_loop.simps) (simp add: Let_def chunk wrapping_add_def)
    have ih: "keystream_loop self ?d (offset + ?n) (counter + 1)
        = take (offset + ?n) ?d @ xor_bytes (drop (offset + ?n) ?d) (key_stream self (counter + 1) (length ?d - (offset + ?n)))"
      using "1.IH" [OF True refl refl refl] True n ld chunk_xor [of offset ?n d "chacha20_block self counter"]
      by (simp add: Let_def chunk wrapping_add_def)
    have "take (offset + ?n) ?d = take offset d @ ?x"
      using lx n take_memcpy [of offset d ?x] by simp
    moreover have "drop (offset + ?n) ?d = drop (offset + ?n) d"
      using lx n by (simp add: memcpy_def)
    moreover have "drop offset d = slice d offset ?n @ drop (offset + ?n) d"
      by (metis slice_def append_take_drop_id drop_drop add.commute)
    ultimately show ?thesis
      using True n ld unfolding step ih
      by (simp add: key_stream_step [of "length d - offset"] xor_bytes_append diff_diff_left [symmetric] del: diff_diff_left)
  qed
qed

lemma apply_keystream_spec:
  "chacha20_apply_keystream self d = xor_bytes d (key_stream self (cc_state self ! 12) (length d))"
  by (simp add: chacha20_apply_keystream_def keystream_loop_spec)

lemma xor_bytes_cancel: "length k = length d \<Longrightarrow> xor_bytes (xor_bytes d k) k = d"
  by (auto simp: xor_bytes_def xor.assoc intro!: nth_equalityI)

text \<open>The generator stores the stream up to its 1024 bytes.\<close>

lemma keystream_pushes:
  "vec_wf 1024 v \<Longrightarrow> vec_wf 1024 (foldl keystream_push v xs)
     \<and> vec_bytes (foldl keystream_push v xs) = take 1024 (vec_bytes v @ xs)"
proof (induction xs arbitrary: v)
  case Nil
  then show ?case by (auto simp: vec_wf_def vec_bytes_def)
next
  case (Cons b xs)
  show ?case
  proof (cases "vlen v < 1024")
    case True
    have e: "keystream_push v b = v\<lparr>vdata := memcpy (vdata v) (vlen v) [b], vlen := vlen v + length [b]\<rparr>"
      using True Cons.prems by (simp add: keystream_push_def memcpy_one_wf)
    have "vec_wf 1024 (keystream_push v b)" "vec_bytes (keystream_push v b) = vec_bytes v @ [b]"
      unfolding e using vec_append_wf [OF Cons.prems, of "[b]"] vec_append_bytes [OF Cons.prems, of "[b]"] True by simp_all
    with Cons.IH [of "keystream_push v b"] show ?thesis by simp
  next
    case False
    then have "keystream_push v b = v" by (simp add: keystream_push_def)
    moreover have "length (vec_bytes v) = 1024" using False Cons.prems vec_len_le [OF Cons.prems] by simp
    ultimately show ?thesis using Cons by simp
  qed
qed

lemma take_take_append: "take n (take n a @ b) = take n (a @ b)"
  by (cases "length a \<le> n") simp_all

lemma keystream_gen_spec:
  "vec_wf 1024 v \<Longrightarrow> vec_wf 1024 (keystream_gen self v n c)
     \<and> vec_bytes (keystream_gen self v n c) = take 1024 (vec_bytes v @ key_stream self c n)"
proof (induction self v n c rule: keystream_gen.induct)
  case (1 self v n c)
  show ?case
  proof (cases "n > 0")
    case False
    then show ?thesis using 1(2) vec_len_le [OF 1(2)] by (simp add: keystream_gen.simps)
  next
    case True
    let ?m = "min 64 n"
    let ?blk = "take ?m (chacha20_block self c)"
    have m: "(if n > 64 then 64 else n) = ?m" by simp
    have blk: "map ((!) (chacha20_block self c)) [0..<?m] = ?blk" by (auto intro: nth_equalityI)
    note v = keystream_pushes [OF 1(2), of ?blk]
    have ih: "vec_wf 1024 (keystream_gen self (foldl keystream_push v ?blk) (n - ?m) (c + 1))
        \<and> vec_bytes (keystream_gen self (foldl keystream_push v ?blk) (n - ?m) (c + 1))
          = take 1024 (vec_bytes (foldl keystream_push v ?blk) @ key_stream self (c + 1) (n - ?m))"
      using 1(1) [OF True refl refl] v by (simp only: m blk wrapping_add_def)
    have "keystream_gen self v n c = keystream_gen self (foldl keystream_push v ?blk) (n - ?m) (c + 1)"
      using True by (subst keystream_gen.simps) (simp only: Let_def m blk wrapping_add_def if_True)
    moreover have "take 1024 (take 1024 (vec_bytes v @ ?blk) @ key_stream self (c + 1) (n - ?m))
        = take 1024 (vec_bytes v @ key_stream self c n)"
      unfolding key_stream_step [OF True, of self c]
      by (simp only: take_take_append append.assoc)
    ultimately show ?thesis using ih v by simp
  qed
qed

section \<open>Properties\<close>

text \<open>Applying the key stream is the exclusive or with the blocks of consecutive counters, keeps
  the length, and is its own inverse: decrypting what was encrypted under the same key, nonce and
  counter gives back the data. The same holds for XChaCha20.\<close>

theorem chacha20_roundtrip:
  "chacha20_encrypt self d = xor_bytes d (key_stream self (cc_state self ! 12) (length d))
   \<and> length (chacha20_encrypt self d) = length d
   \<and> chacha20_decrypt self (chacha20_encrypt self d) = d
   \<and> xchacha20_apply_keystream x (xchacha20_apply_keystream x d) = d"
  by (simp add: chacha20_encrypt_def chacha20_decrypt_def xchacha20_apply_keystream_def apply_keystream_spec xor_bytes_cancel)

text \<open>The generated key stream is the stream encryption uses, cut at 1024 bytes, and generation never
  writes outside its array.\<close>

theorem chacha20_keystream_correct:
  assumes "length junk = 1024"
  shows "vec_wf 1024 (chacha20_keystream junk self n)
    \<and> vec_bytes (chacha20_keystream junk self n) = take 1024 (chacha20_apply_keystream self (zeros n))"
proof -
  have "vec_wf 1024 \<lparr>vdata = junk, vlen = 0\<rparr>" "vec_bytes \<lparr>vdata = junk, vlen = 0\<rparr> = []"
    using assms by (simp_all add: vec_wf_def vec_bytes_def)
  moreover have "xor_bytes (zeros n) k = k" if "length k = n" for k
    using that by (auto simp: xor_bytes_def zeros_def intro!: nth_equalityI)
  ultimately show ?thesis
    using keystream_gen_spec [of "\<lparr>vdata = junk, vlen = 0\<rparr>" self n "cc_state self ! 12"]
    by (simp add: chacha20_keystream_def apply_keystream_spec)
qed

theorem chacha20_keystream_correct_witness:
  "vec_bytes (chacha20_keystream (zeros 1024) (chacha20_new (zeros 32) (zeros 12)) 32)
     = take 1024 (chacha20_apply_keystream (chacha20_new (zeros 32) (zeros 12)) (zeros 32))"
  using chacha20_keystream_correct [of "zeros 1024" "chacha20_new (zeros 32) (zeros 12)" 32] by simp

end
