(* ===== verification/Poly1305.thy ===== *)
theory Poly1305
  imports Streaming Crypto_Util Limb_Arith Chacha20
begin

unbundle bit_operations_syntax

text \<open>
  Poly1305 and the ChaCha20-Poly1305 construction of \<^verbatim>\<open>lunar/crypto/poly1305.c\<close>: key clamping, the
  accumulator in five 26-bit limbs, the block step with its 64-bit products, the streaming interface,
  the final reduction, and sealing and opening. The operations keep the words of the code; the facts
  relate their limbs to the polynomial over the integers modulo \<open>2 ^ 130 - 5\<close>.
\<close>

section \<open>State and helpers\<close>

record poly1305 =
  po_r :: "u32 list"
  po_s :: "u32 list"
  po_h :: "u32 list"
  po_buffer :: bytes
  po_buffer_len :: nat

abbreviation TAG_SIZE :: nat where "TAG_SIZE \<equiv> 16"

definition bytes_to_u32_le :: "bytes \<Rightarrow> u32" where
  "bytes_to_u32_le b = ucast (b ! 0) OR push_bit 8 (ucast (b ! 1)) OR push_bit 16 (ucast (b ! 2))
     OR push_bit 24 (ucast (b ! 3))"

definition u32_to_bytes_le :: "u32 \<Rightarrow> bytes" where
  "u32_to_bytes_le v = [ucast (v AND 0xff), ucast (drop_bit 8 v AND 0xff), ucast (drop_bit 16 v AND 0xff),
     ucast (drop_bit 24 v AND 0xff)]"

definition u64_to_bytes_le :: "u64 \<Rightarrow> bytes" where
  "u64_to_bytes_le v = [ucast (v AND 0xff), ucast (drop_bit 8 v AND 0xff), ucast (drop_bit 16 v AND 0xff),
     ucast (drop_bit 24 v AND 0xff), ucast (drop_bit 32 v AND 0xff), ucast (drop_bit 40 v AND 0xff),
     ucast (drop_bit 48 v AND 0xff), ucast (drop_bit 56 v AND 0xff)]"

section \<open>The authenticator\<close>

definition poly1305_new :: "bytes \<Rightarrow> poly1305" where
  "poly1305_new key =
     (let r0 = bytes_to_u32_le (slice key 0 4) AND 0x0fffffff;
          r1 = bytes_to_u32_le (slice key 4 4) AND 0x0ffffffc;
          r2 = bytes_to_u32_le (slice key 8 4) AND 0x0ffffffc;
          r3 = bytes_to_u32_le (slice key 12 4) AND 0x0ffffffc
      in \<lparr>po_r = [r0 AND 0x03ffffff, (drop_bit 26 r0 OR push_bit 6 r1) AND 0x03ffffff,
             (drop_bit 20 r1 OR push_bit 12 r2) AND 0x03ffffff, (drop_bit 14 r2 OR push_bit 18 r3) AND 0x03ffffff,
             drop_bit 8 r3],
          po_s = [bytes_to_u32_le (slice key 16 4), bytes_to_u32_le (slice key 20 4),
             bytes_to_u32_le (slice key 24 4), bytes_to_u32_le (slice key 28 4)],
          po_h = [0, 0, 0, 0, 0],
          po_buffer = zeros 16, po_buffer_len = 0\<rparr>)"

text \<open>A block is added to the accumulator, multiplied by the key with the wrapped-around products
  folded in, and the limbs are carried.\<close>

definition poly1305_add_block :: "u32 list \<Rightarrow> bytes \<Rightarrow> bool \<Rightarrow> u32 list" where
  "poly1305_add_block h block final_block =
     (let t0 = bytes_to_u32_le (slice block 0 4);
          t1 = bytes_to_u32_le (slice block 4 4);
          t2 = bytes_to_u32_le (slice block 8 4);
          t3 = bytes_to_u32_le (slice block 12 4);
          hibit = (if final_block then 0 else push_bit 24 1)
      in [h ! 0 + (t0 AND 0x03ffffff),
          h ! 1 + ((drop_bit 26 t0 OR push_bit 6 t1) AND 0x03ffffff),
          h ! 2 + ((drop_bit 20 t1 OR push_bit 12 t2) AND 0x03ffffff),
          h ! 3 + ((drop_bit 14 t2 OR push_bit 18 t3) AND 0x03ffffff),
          h ! 4 + (drop_bit 8 t3 OR hibit)])"

definition poly1305_mul_r :: "u32 list \<Rightarrow> u32 list \<Rightarrow> u64 list" where
  "poly1305_mul_r r h =
     (let r0 = ucast (r ! 0); r1 = ucast (r ! 1); r2 = ucast (r ! 2); r3 = ucast (r ! 3); r4 = ucast (r ! 4);
          s1 = r1 * 5; s2 = r2 * 5; s3 = r3 * 5; s4 = r4 * 5;
          h0 = ucast (h ! 0); h1 = ucast (h ! 1); h2 = ucast (h ! 2); h3 = ucast (h ! 3); h4 = ucast (h ! 4)
      in [h0 * r0 + h1 * s4 + h2 * s3 + h3 * s2 + h4 * s1,
          h0 * r1 + h1 * r0 + h2 * s4 + h3 * s3 + h4 * s2,
          h0 * r2 + h1 * r1 + h2 * r0 + h3 * s4 + h4 * s3,
          h0 * r3 + h1 * r2 + h2 * r1 + h3 * r0 + h4 * s4,
          h0 * r4 + h1 * r3 + h2 * r2 + h3 * r1 + h4 * r0])"

definition poly1305_carry :: "u64 list \<Rightarrow> u32 list" where
  "poly1305_carry d =
     (let c = drop_bit 26 (d ! 0); h0 = ucast (d ! 0 AND 0x03ffffff);
          d1 = d ! 1 + c; c = drop_bit 26 d1; h1 = ucast (d1 AND 0x03ffffff);
          d2 = d ! 2 + c; c = drop_bit 26 d2; h2 = ucast (d2 AND 0x03ffffff);
          d3 = d ! 3 + c; c = drop_bit 26 d3; h3 = ucast (d3 AND 0x03ffffff);
          d4 = d ! 4 + c; c = drop_bit 26 d4; h4 = ucast (d4 AND 0x03ffffff);
          h0 = h0 + ucast (c * 5);
          c = ucast (drop_bit 26 h0 :: u32) :: u64;
          h0 = h0 AND 0x03ffffff;
          h1 = h1 + ucast c
      in [h0, h1, h2, h3, h4])"

definition poly1305_process_block :: "poly1305 \<Rightarrow> bytes \<Rightarrow> bool \<Rightarrow> poly1305" where
  "poly1305_process_block p block final_block =
     p\<lparr>po_h := poly1305_carry (poly1305_mul_r (po_r p) (poly1305_add_block (po_h p) block final_block))\<rparr>"

function poly1305_blocks :: "poly1305 \<Rightarrow> bytes \<Rightarrow> nat \<Rightarrow> poly1305 \<times> nat" where
  "poly1305_blocks p xs offset =
     (if offset + 16 \<le> length xs
      then poly1305_blocks (poly1305_process_block p (slice xs offset 16) False) xs (offset + 16) else (p, offset))"
  by pat_completeness auto
termination
  by (relation "measure (\<lambda>(p, xs, offset). length xs - offset)") auto

declare poly1305_blocks.simps [simp del]

definition poly1305_update_from :: "poly1305 \<Rightarrow> bytes \<Rightarrow> nat \<Rightarrow> poly1305" where
  "poly1305_update_from p xs offset =
     (let (p, offset) = poly1305_blocks p xs offset
      in if offset < length xs
         then p\<lparr>po_buffer := memcpy (po_buffer p) 0 (slice xs offset (length xs - offset)), po_buffer_len := length xs - offset\<rparr>
         else p)"

definition poly1305_update :: "poly1305 \<Rightarrow> bytes \<Rightarrow> poly1305" where
  "poly1305_update p xs =
     (if po_buffer_len p > 0 then
        let needed = 16 - po_buffer_len p
        in if length xs \<ge> needed then
             let p = p\<lparr>po_buffer := memcpy (po_buffer p) (po_buffer_len p) (slice xs 0 needed)\<rparr>;
                 p = poly1305_process_block p (po_buffer p) False;
                 p = p\<lparr>po_buffer_len := 0\<rparr>
             in poly1305_update_from p xs needed
           else p\<lparr>po_buffer := memcpy (po_buffer p) (po_buffer_len p) xs, po_buffer_len := po_buffer_len p + length xs\<rparr>
      else poly1305_update_from p xs 0)"

text \<open>The parts of finalisation: the padded last block, the full carry, the comparison with the
  modulus and the selection, and the addition of the second key half.\<close>

definition poly1305_last_block :: "poly1305 \<Rightarrow> poly1305" where
  "poly1305_last_block p =
     (if po_buffer_len p > 0 then
        let n = po_buffer_len p;
            buffer = (po_buffer p)[n := 1];
            buffer = foldl (\<lambda>b i. b[i := 0]) buffer [n + 1..<16];
            p = p\<lparr>po_buffer := buffer\<rparr>
        in poly1305_process_block p buffer True
      else p)"

definition poly1305_full_carry :: "u32 list \<Rightarrow> u32 list" where
  "poly1305_full_carry h =
     (let c = drop_bit 26 (h ! 1); h1 = h ! 1 AND 0x03ffffff;
          h2 = h ! 2 + c; c = drop_bit 26 h2; h2 = h2 AND 0x03ffffff;
          h3 = h ! 3 + c; c = drop_bit 26 h3; h3 = h3 AND 0x03ffffff;
          h4 = h ! 4 + c; c = drop_bit 26 h4; h4 = h4 AND 0x03ffffff;
          h0 = h ! 0 + c * 5; c = drop_bit 26 h0; h0 = h0 AND 0x03ffffff;
          h1 = h1 + c
      in [h0, h1, h2, h3, h4])"

definition poly1305_select :: "u32 list \<Rightarrow> u32 list" where
  "poly1305_select h =
     (let g0 = h ! 0 + 5; c = drop_bit 26 g0; g0 = g0 AND 0x03ffffff;
          g1 = h ! 1 + c; c = drop_bit 26 g1; g1 = g1 AND 0x03ffffff;
          g2 = h ! 2 + c; c = drop_bit 26 g2; g2 = g2 AND 0x03ffffff;
          g3 = h ! 3 + c; c = drop_bit 26 g3; g3 = g3 AND 0x03ffffff;
          g4 = h ! 4 + c - push_bit 26 1;
          msk = drop_bit 31 g4 - 1;
          g0 = g0 AND msk; g1 = g1 AND msk; g2 = g2 AND msk; g3 = g3 AND msk;
          msk = NOT msk
      in [(h ! 0 AND msk) OR g0, (h ! 1 AND msk) OR g1, (h ! 2 AND msk) OR g2, (h ! 3 AND msk) OR g3, h ! 4])"

definition poly1305_unpack :: "u32 list \<Rightarrow> u32 list" where
  "poly1305_unpack h =
     [h ! 0 OR push_bit 26 (h ! 1), drop_bit 6 (h ! 1) OR push_bit 20 (h ! 2),
      drop_bit 12 (h ! 2) OR push_bit 14 (h ! 3), drop_bit 18 (h ! 3) OR push_bit 8 (h ! 4)]"

definition poly1305_add_s :: "u32 list \<Rightarrow> u32 list \<Rightarrow> u32 list" where
  "poly1305_add_s h s =
     (let f = (ucast (h ! 0) :: u64) + ucast (s ! 0); t0 = ucast f;
          f = ucast (h ! 1) + ucast (s ! 1) + drop_bit 32 f; t1 = ucast f;
          f = ucast (h ! 2) + ucast (s ! 2) + drop_bit 32 f; t2 = ucast f;
          f = ucast (h ! 3) + ucast (s ! 3) + drop_bit 32 f; t3 = ucast f
      in [t0, t1, t2, t3])"

definition poly1305_finalize :: "poly1305 \<Rightarrow> poly1305 \<times> bytes" where
  "poly1305_finalize p =
     (let p = poly1305_last_block p;
          p = p\<lparr>po_h := poly1305_select (poly1305_full_carry (po_h p))\<rparr>;
          t = poly1305_add_s (poly1305_unpack (po_h p)) (po_s p)
      in (p, u32_to_bytes_le (t ! 0) @ u32_to_bytes_le (t ! 1) @ u32_to_bytes_le (t ! 2) @ u32_to_bytes_le (t ! 3)))"

definition poly1305_mac :: "bytes \<Rightarrow> bytes \<Rightarrow> bytes" where
  "poly1305_mac key xs = snd (poly1305_finalize (poly1305_update (poly1305_new key) xs))"

definition poly1305_verify :: "bytes \<Rightarrow> bytes \<Rightarrow> bytes \<Rightarrow> bool" where
  "poly1305_verify key xs expected = (ct_diff TAG_SIZE (poly1305_mac key xs) expected = 0)"

section \<open>Sealing and opening\<close>

text \<open>Both build the same authenticator over the additional data, the ciphertext and their lengths.
  \<open>junk\<close> is the uninitialised array of the generated key stream. A failed assertion is \<open>None\<close>.\<close>

definition poly_key :: "bytes \<Rightarrow> bytes \<Rightarrow> bytes \<Rightarrow> bytes" where
  "poly_key junk key nonce = slice (vdata (chacha20_keystream junk (chacha20_new key nonce) 32)) 0 32"

definition poly1305_pad :: "poly1305 \<Rightarrow> nat \<Rightarrow> poly1305" where
  "poly1305_pad p n =
     (let pad = (16 - (n mod 16)) mod 16 in if pad > 0 then poly1305_update p (slice (zeros 16) 0 pad) else p)"

definition aead_tag :: "bytes \<Rightarrow> bytes \<Rightarrow> bytes \<Rightarrow> bytes" where
  "aead_tag pkey aad ct =
     (let p = poly1305_new pkey;
          p = poly1305_update p aad;
          p = poly1305_pad p (length aad);
          p = poly1305_update p ct;
          p = poly1305_pad p (length ct);
          p = poly1305_update p (u64_to_bytes_le (of_nat (length aad)));
          p = poly1305_update p (u64_to_bytes_le (of_nat (length ct)))
      in snd (poly1305_finalize p))"

definition chacha20poly1305_seal :: "bytes \<Rightarrow> bytes \<Rightarrow> bytes \<Rightarrow> bytes \<Rightarrow> bytes \<Rightarrow> bytes \<Rightarrow> (bytes \<times> bytes) option" where
  "chacha20poly1305_seal junk key nonce aad plaintext ciphertext =
     (if length ciphertext \<ge> length plaintext then
        let pkey = poly_key junk key nonce;
            n = length plaintext;
            ciphertext = memcpy ciphertext 0 plaintext;
            chacha = chacha20_new_with_counter key nonce 1;
            ciphertext = memcpy ciphertext 0 (chacha20_encrypt chacha (slice ciphertext 0 n))
        in Some (ciphertext, aead_tag pkey aad (slice ciphertext 0 n))
      else None)"

definition chacha20poly1305_open :: "bytes \<Rightarrow> bytes \<Rightarrow> bytes \<Rightarrow> bytes \<Rightarrow> bytes \<Rightarrow> bytes \<Rightarrow> bytes \<Rightarrow> (bool \<times> bytes) option" where
  "chacha20poly1305_open junk key nonce aad ciphertext tag plaintext =
     (if length plaintext \<ge> length ciphertext then
        let pkey = poly_key junk key nonce;
            computed_tag = aead_tag pkey aad ciphertext
        in if \<not> ct_diff TAG_SIZE computed_tag tag = 0 then Some (False, plaintext)
           else
             let n = length ciphertext;
                 plaintext = memcpy plaintext 0 ciphertext;
                 chacha = chacha20_new_with_counter key nonce 1;
                 plaintext = memcpy plaintext 0 (chacha20_decrypt chacha (slice plaintext 0 n))
             in Some (True, plaintext)
      else None)"

section \<open>The block step\<close>

text \<open>The limbs between two blocks: below \<open>2 ^ 26\<close>, with a small excess in the second one.\<close>

definition limbs_ok :: "u32 list \<Rightarrow> bool" where
  "limbs_ok h \<longleftrightarrow> (\<exists>h0 h1 h2 h3 h4. h = [h0, h1, h2, h3, h4] \<and> unat h0 < 2 ^ 26 \<and> unat h1 < 2 ^ 26 + 64
     \<and> unat h2 < 2 ^ 26 \<and> unat h3 < 2 ^ 26 \<and> unat h4 < 2 ^ 26)"

definition key_ok :: "u32 list \<Rightarrow> bool" where
  "key_ok r \<longleftrightarrow> (\<exists>r0 r1 r2 r3 r4. r = [r0, r1, r2, r3, r4] \<and> (\<forall>x\<in>{r0, r1, r2, r3, r4}. unat x < 2 ^ 26))"

lemma ucast_u64: "(ucast (x :: u32) :: u64) = of_nat (unat x)"
  by simp

lemma mul_r_nat:
  "poly1305_mul_r [r0, r1, r2, r3, r4] (map of_nat [h0, h1, h2, h3, h4])
     = map of_nat (mul_nat (map unat [r0, r1, r2, r3, r4]) [h0, h1, h2, h3, h4])"
  if "\<And>x. x \<in> {h0, h1, h2, h3, h4} \<Longrightarrow> x < 2 ^ 32"
proof -
  have u: "(ucast (of_nat x :: u32) :: u64) = of_nat x" if "x \<in> {h0, h1, h2, h3, h4}" for x
    using that \<open>\<And>x. x \<in> {h0, h1, h2, h3, h4} \<Longrightarrow> x < 2 ^ 32\<close> by (intro ucast_of_nat_up) simp
  show ?thesis
    by (simp add: poly1305_mul_r_def mul_nat_def Let_def u del: word_of_nat_eq_iff)
qed

lemma carry_word:
  assumes "d0 \<le> 2 ^ 58" "d1 \<le> 2 ^ 58" "d2 \<le> 2 ^ 58" "d3 \<le> 2 ^ 58" "d4 \<le> 5 * ((2 ^ 27 + 64) * 2 ^ 26)"
  shows "poly1305_carry (map of_nat [d0, d1, d2, d3, d4]) = map of_nat (carry_nat [d0, d1, d2, d3, d4])"
proof -
  define e1 where "e1 = d1 + d0 div 2 ^ 26"
  define e2 where "e2 = d2 + e1 div 2 ^ 26"
  define e3 where "e3 = d3 + e2 div 2 ^ 26"
  define e4 where "e4 = d4 + e3 div 2 ^ 26"
  define g where "g = d0 mod 2 ^ 26 + e4 div 2 ^ 26 * 5"
  note b = carry_nat_bound [OF assms, folded e1_def, folded e2_def, folded e3_def, folded e4_def, folded g_def]
  have w: "drop_bit 26 (of_nat x :: u64) = of_nat (x div 2 ^ 26)" "(of_nat x :: u64) AND 0x03ffffff = of_nat (x mod 2 ^ 26)"
    if "x < 2 ^ 59" for x
    using that by (simp_all add: drop_bit_of_nat_lt and_mask26_of_nat)
  have v: "drop_bit 26 (of_nat g :: u32) = of_nat (g div 2 ^ 26)" "(of_nat g :: u32) AND 0x03ffffff = of_nat (g mod 2 ^ 26)"
    using b(5) by (simp_all add: drop_bit_of_nat_lt and_mask26_of_nat)
  have u: "(ucast (ucast (of_nat x :: u32) :: u64) :: u32) = of_nat x" for x
    by (rule bit_word_eqI) (simp add: bit_simps)
  have d: "(ucast (of_nat x :: u64) :: u32) = of_nat x" for x by (rule ucast_of_nat_down) simp
  have c5: "(of_nat x :: u64) * 5 = of_nat (x * 5)" for x by simp
  have d0: "d0 < 2 ^ 59" using assms(1) by simp
  show ?thesis
    unfolding poly1305_carry_def carry_nat_def Let_def list.map nth5
    unfolding w [OF d0] of_nat_add [symmetric] e1_def [symmetric] w [OF b(1)] e2_def [symmetric] w [OF b(2)]
      e3_def [symmetric] w [OF b(3)] e4_def [symmetric] w [OF b(4)] d c5 g_def [symmetric] v u by (rule refl)
qed

lemma bytes_to_u32_le_nat: "length b = 4 \<Longrightarrow> unat (bytes_to_u32_le b) = le_nat b"
proof -
  assume l: "length b = 4"
  then have "bytes_to_u32_le b = le_word b"
    by (auto simp: bytes_to_u32_le_def numeral_eq_Suc length_Suc_conv push_bit_or or.assoc)
  with l show ?thesis by (simp add: unat_le_word)
qed

lemma le_nat_slices:
  assumes "length b = 16"
  shows "le_nat b = le_nat (slice b 0 4) + 2 ^ 32 * le_nat (slice b 4 4) + 2 ^ 64 * le_nat (slice b 8 4) + 2 ^ 96 * le_nat (slice b 12 4)"
proof -
  have "b = slice b 0 4 @ slice b 4 4 @ slice b 8 4 @ slice b 12 4"
    using assms by (auto simp: slice_def numeral_eq_Suc length_Suc_conv)
  then have "le_nat b = le_nat (slice b 0 4 @ slice b 4 4 @ slice b 8 4 @ slice b 12 4)" by simp
  also have "\<dots> = le_nat (slice b 0 4) + 256 ^ 4 * (le_nat (slice b 4 4) + 256 ^ 4 * (le_nat (slice b 8 4) + 256 ^ 4 * le_nat (slice b 12 4)))"
    using assms by (simp add: le_nat_append)
  finally show ?thesis by simp
qed

text \<open>Four words spread over five limbs, as in the key and in every block.\<close>

lemma pack_words:
  fixes t0 :: u32
  shows "map unat [t0 AND 0x03ffffff, (drop_bit 26 t0 OR push_bit 6 t1) AND 0x03ffffff,
      (drop_bit 20 t1 OR push_bit 12 t2) AND 0x03ffffff, (drop_bit 14 t2 OR push_bit 18 t3) AND 0x03ffffff, drop_bit 8 t3]
    = pack26 (unat t0) (unat t1) (unat t2) (unat t3)"
  using pack_limb [of 6 t0 t1] pack_limb [of 12 t1 t2] pack_limb [of 18 t2 t3]
  by (simp only: pack26_def list.map unat_and_mask26 unat_drop_bit) simp

lemma hibit_nat:
  "unat (drop_bit 8 t OR (if final then 0 else push_bit 24 1) :: u32) = unat t div 2 ^ 8 + (if final then 0 else 2 ^ 24)"
proof (cases final)
  case True
  then show ?thesis by (simp add: unat_drop_bit)
next
  case False
  have "unat t div 2 ^ 8 < 2 ^ 24" using unat_lt2p [of t] by (intro less_mult_imp_div_less) simp
  then have "unat t div 2 ^ 8 OR push_bit 24 1 = unat t div 2 ^ 8 + 2 ^ 24 * 1" by (rule or_push_bit_nat)
  moreover have "unat (drop_bit 8 t OR push_bit 24 1 :: u32) = unat t div 2 ^ 8 OR push_bit 24 1"
    by (simp only: unsigned_or_eq unat_drop_bit unsigned_push_bit_eq) simp
  ultimately show ?thesis using False by simp
qed

lemma add_block_nat:
  assumes "limbs_ok h" "length block = 16"
  obtains a0 a1 a2 a3 a4 where "poly1305_add_block h block final = map of_nat [a0, a1, a2, a3, a4]"
    "\<forall>x\<in>{a0, a1, a2, a3, a4}. x \<le> 2 ^ 27 + 64"
    "limbs [a0, a1, a2, a3, a4] = limbs (map unat h) + le_nat block + (if final then 0 else 2 ^ 128)"
proof -
  from assms(1) obtain h0 h1 h2 h3 h4 where h: "h = [h0, h1, h2, h3, h4]" "unat h0 < 2 ^ 26" "unat h1 < 2 ^ 26 + 64"
    "unat h2 < 2 ^ 26" "unat h3 < 2 ^ 26" "unat h4 < 2 ^ 26" unfolding limbs_ok_def by blast
  define t0 t1 t2 t3 where t: "t0 = bytes_to_u32_le (slice block 0 4)" "t1 = bytes_to_u32_le (slice block 4 4)"
    "t2 = bytes_to_u32_le (slice block 8 4)" "t3 = bytes_to_u32_le (slice block 12 4)"
  obtain b0 b1 b2 b3 b4 where b: "pack26 (unat t0) (unat t1) (unat t2) (unat t3) = [b0, b1, b2, b3, b4]"
    unfolding pack26_def by blast
  have bb: "b0 < 2 ^ 26" "b1 < 2 ^ 26" "b2 < 2 ^ 26" "b3 < 2 ^ 26" "b4 < 2 ^ 24"
    using pack26_bound [of "unat t0" "unat t1" "unat t2" "unat t3"] unat_lt2p [of t0] unat_lt2p [of t1] unat_lt2p [of t2]
      unat_lt2p [of t3] by (simp_all add: b)
  note pw = pack_words [of t0 t1 t2 t3, unfolded b, simplified list.map list.inject simp_thms]
  define hb where "hb = (if final then 0 else 2 ^ 24 :: nat)"
  have w: "x + y = of_nat (unat x + unat y)" for x y :: u32 by simp
  have "poly1305_add_block h block final
      = map of_nat [unat h0 + b0, unat h1 + b1, unat h2 + b2, unat h3 + b3, unat h4 + (b4 + hb)]"
    unfolding poly1305_add_block_def Let_def t [symmetric] h nth5 w hibit_nat hb_def [symmetric]
    using pw by (simp add: unat_drop_bit)
  moreover have "\<forall>x\<in>{unat h0 + b0, unat h1 + b1, unat h2 + b2, unat h3 + b3, unat h4 + (b4 + hb)}. x \<le> 2 ^ 27 + 64"
    using h(2-) bb by (auto simp: hb_def)
  moreover have "limbs [b0, b1, b2, b3, b4] = le_nat block"
    using limbs_pack26 [of "unat t0" "unat t1" "unat t2" "unat t3"] assms(2)
    by (simp add: b [symmetric] t bytes_to_u32_le_nat le_nat_slices)
  then have "limbs [unat h0 + b0, unat h1 + b1, unat h2 + b2, unat h3 + b3, unat h4 + (b4 + hb)]
      = limbs (map unat h) + le_nat block + (if final then 0 else 2 ^ 128)"
    by (simp add: h(1) hb_def)
  ultimately show ?thesis by (rule that)
qed

definition block_step :: "u32 list \<Rightarrow> bool \<Rightarrow> u32 list \<Rightarrow> bytes \<Rightarrow> u32 list" where
  "block_step r final h block = poly1305_carry (poly1305_mul_r r (poly1305_add_block h block final))"

lemma carry_nat_ok:
  assumes "d0 \<le> 2 ^ 58" "d1 \<le> 2 ^ 58" "d2 \<le> 2 ^ 58" "d3 \<le> 2 ^ 58" "d4 \<le> 5 * ((2 ^ 27 + 64) * 2 ^ 26)"
  shows "limbs_ok (map of_nat (carry_nat [d0, d1, d2, d3, d4]))"
    "map unat (map of_nat (carry_nat [d0, d1, d2, d3, d4]) :: u32 list) = carry_nat [d0, d1, d2, d3, d4]"
proof -
  obtain c0 c1 c2 c3 c4 where c: "carry_nat [d0, d1, d2, d3, d4] = [c0, c1, c2, c3, c4]"
    unfolding carry_nat_def Let_def by blast
  have b: "c0 < 2 ^ 26" "c2 < 2 ^ 26" "c3 < 2 ^ 26" "c4 < 2 ^ 26"
    using c [unfolded carry_nat_def Let_def nth5, symmetric] by simp_all
  have b1: "c1 < 2 ^ 26 + 64"
    using c [unfolded carry_nat_def Let_def nth5, symmetric]
      add_less_mono [OF div26_le(2) [of "d1 + d0 div 2 ^ 26"] carry_nat_bound(6) [OF assms]] by (simp only: list.inject)
  have u: "unat (of_nat x :: u32) = x" if "x < 2 ^ 27" for x using that by (simp add: unat_of_nat_lt)
  show "limbs_ok (map of_nat (carry_nat [d0, d1, d2, d3, d4]))"
    "map unat (map of_nat (carry_nat [d0, d1, d2, d3, d4]) :: u32 list) = carry_nat [d0, d1, d2, d3, d4]"
    using b b1 by (simp_all add: c limbs_ok_def u)
qed

text \<open>One block is a step of the polynomial modulo \<open>2 ^ 130 - 5\<close>.\<close>

lemma block_step_mod:
  assumes "key_ok r" "limbs_ok h" "length block = 16"
  shows "limbs_ok (block_step r final h block)"
    "limbs (map unat (block_step r final h block)) mod P1305
       = (limbs (map unat h) + le_nat block + (if final then 0 else 2 ^ 128)) * limbs (map unat r) mod P1305"
proof -
  obtain a0 a1 a2 a3 a4 where a: "poly1305_add_block h block final = map of_nat [a0, a1, a2, a3, a4]"
    "\<forall>x\<in>{a0, a1, a2, a3, a4}. x \<le> 2 ^ 27 + 64"
    "limbs [a0, a1, a2, a3, a4] = limbs (map unat h) + le_nat block + (if final then 0 else 2 ^ 128)"
    using add_block_nat [OF assms(2,3)] by blast
  from assms(1) obtain r0 r1 r2 r3 r4 where r: "r = [r0, r1, r2, r3, r4]" "\<forall>x\<in>{r0, r1, r2, r3, r4}. unat x < 2 ^ 26"
    unfolding key_ok_def by blast
  obtain d0 d1 d2 d3 d4 where d: "mul_nat (map unat r) [a0, a1, a2, a3, a4] = [d0, d1, d2, d3, d4]"
    unfolding mul_nat_def by blast
  have "a < 2 ^ 32" if "a \<in> {a0, a1, a2, a3, a4}" for a using bspec [OF a(2) that] by simp
  then have "poly1305_mul_r r (map of_nat [a0, a1, a2, a3, a4]) = map of_nat [d0, d1, d2, d3, d4]"
    unfolding r(1) d [unfolded r(1), symmetric] by (rule mul_r_nat)
  moreover have "\<forall>x\<in>{unat r0, unat r1, unat r2, unat r3, unat r4}. x \<le> 2 ^ 26" using r(2) by auto
  note db = mul_nat_bound [OF a(2) this d [unfolded r(1) list.map]]
  ultimately have s: "block_step r final h block = map of_nat (carry_nat [d0, d1, d2, d3, d4])"
    using carry_word [OF db] by (simp only: block_step_def a(1))
  show "limbs_ok (block_step r final h block)" unfolding s by (rule carry_nat_ok [OF db])
  show "limbs (map unat (block_step r final h block)) mod P1305
      = (limbs (map unat h) + le_nat block + (if final then 0 else 2 ^ 128)) * limbs (map unat r) mod P1305"
    using carry_nat_ok(2) [OF db] limbs_step_mod [of "unat r0" "unat r1" "unat r2" "unat r3" "unat r4" a0 a1 a2 a3 a4]
    unfolding s a(3) [symmetric] d [symmetric] unfolding r(1) list.map by metis
qed

section \<open>Reference\<close>

text \<open>The polynomial of RFC 8439: every block, with a one behind its last byte, is added and the sum
  multiplied by the clamped key.\<close>

function poly_eval :: "nat \<Rightarrow> nat \<Rightarrow> bytes \<Rightarrow> nat" where
  "poly_eval r a msg =
     (if msg = [] then a else poly_eval r ((a + le_nat (take 16 msg @ [1])) * r mod P1305) (drop 16 msg))"
  by pat_completeness auto
termination
  by (relation "measure (\<lambda>(r, a, msg). length msg)") auto

declare poly_eval.simps [simp del]

definition clamped_r :: "bytes \<Rightarrow> nat" where
  "clamped_r key = le_nat (slice key 0 16) AND 0x0ffffffc0ffffffc0ffffffc0fffffff"

definition key_s :: "bytes \<Rightarrow> nat" where
  "key_s key = le_nat (slice key 16 16)"

definition poly1305_spec :: "bytes \<Rightarrow> bytes \<Rightarrow> bytes" where
  "poly1305_spec key msg = nat_bytes TAG_SIZE (poly_eval (clamped_r key) 0 msg + key_s key)"

lemma poly_eval_Nil [simp]: "poly_eval r a [] = a"
  by (simp add: poly_eval.simps)

lemma poly_eval_absorb:
  assumes "key_ok r" "limbs_ok h" "absorb 16 (block_step r False) h msg = (h', rest)"
  shows "limbs_ok h' \<and> length rest < 16
    \<and> poly_eval (limbs (map unat r)) (limbs (map unat h) mod P1305) msg
      = poly_eval (limbs (map unat r)) (limbs (map unat h') mod P1305) rest"
  using assms(2,3)
proof (induction "length msg" arbitrary: h msg rule: less_induct)
  case less
  show ?case
  proof (cases "length msg < 16")
    case True
    then show ?thesis using less.prems by simp
  next
    case False
    let ?h = "block_step r False h (take 16 msg)"
    have ab: "absorb 16 (block_step r False) ?h (drop 16 msg) = (h', rest)"
      using False less.prems(2) by (simp add: absorb.simps [of 16 _ h])
    have len: "length (take 16 msg) = 16" using False by simp
    note st = block_step_mod [OF assms(1) less.prems(1) len, of False]
    have "le_nat (take 16 msg @ [1]) = le_nat (take 16 msg) + 2 ^ 128" using len by (simp add: le_nat_append)
    then have "(limbs (map unat h) mod P1305 + le_nat (take 16 msg @ [1])) * limbs (map unat r) mod P1305
        = limbs (map unat ?h) mod P1305"
      unfolding st(2) by (simp only: mod_mult_left_eq [symmetric, of "_ + _"] mod_add_left_eq if_False add.assoc)
    moreover have "length (drop 16 msg) < length msg" using False by simp
    ultimately show ?thesis
      using less.hyps [OF _ st(1) ab] False by (subst poly_eval.simps) auto
  qed
qed

section \<open>The final reduction\<close>

text \<open>After the full carry the limbs are below \<open>2 ^ 26\<close>: a carry out of the second limb leaves that limb small,
  and without it nothing is carried around.\<close>

definition full_carry_nat :: "nat list \<Rightarrow> nat list" where
  "full_carry_nat h =
     (let h2 = h ! 2 + h ! 1 div 2 ^ 26; h3 = h ! 3 + h2 div 2 ^ 26; h4 = h ! 4 + h3 div 2 ^ 26;
          h0 = h ! 0 + h4 div 2 ^ 26 * 5
      in [h0 mod 2 ^ 26, h ! 1 mod 2 ^ 26 + h0 div 2 ^ 26, h2 mod 2 ^ 26, h3 mod 2 ^ 26, h4 mod 2 ^ 26])"

lemma full_carry_chain:
  assumes "(h1 :: nat) = r1 + 2 ^ 26 * q1" "h2 + q1 = r2 + 2 ^ 26 * q2" "h3 + q2 = r3 + 2 ^ 26 * q3" "h4 + q3 = r4 + 2 ^ 26 * q4"
    "h0 + q4 * 5 = r0 + 2 ^ 26 * q0"
  shows "limbs [h0, h1, h2, h3, h4] = limbs [r0, r1 + q0, r2, r3, r4] + P1305 * q4"
  using assms by simp

lemma full_carry_val: "\<exists>q. limbs [h0, h1, h2, h3, h4] = limbs (full_carry_nat [h0, h1, h2, h3, h4]) + P1305 * q"
  unfolding full_carry_nat_def Let_def nth5
  by (rule exI, rule full_carry_chain, (rule mod_mult_div_eq [symmetric])+)

lemma div26_small: "x < 2 ^ 26 + 64 \<Longrightarrow> (x :: nat) div 2 ^ 26 = (if x < 2 ^ 26 then 0 else 1)"
  by (auto simp: div_nat_eqI)

lemma full_carry_bound:
  assumes "h0 < 2 ^ 26" "h1 < 2 ^ 26 + 64" "h2 < 2 ^ 26" "h3 < 2 ^ 26" "h4 < 2 ^ 26"
  shows "\<forall>x\<in>set (full_carry_nat [h0, h1, h2, h3, h4]). x < 2 ^ 26"
proof (cases "h1 < 2 ^ 26")
  case True
  then show ?thesis using assms by (simp add: full_carry_nat_def)
next
  case False
  then have "h1 mod 2 ^ 26 < 64" using assms(2) by (auto simp: mod_if)
  moreover have s: "h0 + (h4 + x) div 2 ^ 26 * 5 < 2 ^ 26 + 64" if "x < 2" for x
    using assms(1,5) that div26_small [of "h4 + x"] by auto
  then have "(h0 + (h4 + x) div 2 ^ 26 * 5) div 2 ^ 26 < 2" if "x < 2" for x
    using div26_small [OF s [OF that]] by simp
  moreover have "(h3 + x) div 2 ^ 26 < 2" if "x < 2" for x using assms(4) that div26_small [of "h3 + x"] by auto
  moreover have "(h2 + x) div 2 ^ 26 < 2" if "x < 2" for x using assms(3) that div26_small [of "h2 + x"] by auto
  moreover have "h1 div 2 ^ 26 < 2" using div26_small [OF assms(2)] by simp
  ultimately have "h1 mod 2 ^ 26 + (h0 + (h4 + (h3 + (h2 + h1 div 2 ^ 26) div 2 ^ 26) div 2 ^ 26) div 2 ^ 26 * 5) div 2 ^ 26 < 64 + 2"
    by (intro add_less_mono) blast+
  then show ?thesis by (simp add: full_carry_nat_def Let_def)
qed

lemma limbs_okE:
  assumes "limbs_ok h"
  obtains h0 h1 h2 h3 h4 where "h = map of_nat [h0, h1, h2, h3, h4]" "map unat h = [h0, h1, h2, h3, h4]"
    "h0 < 2 ^ 26" "h1 < 2 ^ 26 + 64" "h2 < 2 ^ 26" "h3 < 2 ^ 26" "h4 < 2 ^ 26"
proof -
  from assms obtain h0 h1 h2 h3 h4 where "h = [h0, h1, h2, h3, h4]" "unat h0 < 2 ^ 26" "unat h1 < 2 ^ 26 + 64"
    "unat h2 < 2 ^ 26" "unat h3 < 2 ^ 26" "unat h4 < 2 ^ 26" unfolding limbs_ok_def by blast
  then show ?thesis using that [of "unat h0" "unat h1" "unat h2" "unat h3" "unat h4"] by simp
qed

lemma w32: "drop_bit 26 (of_nat x :: u32) = of_nat (x div 2 ^ 26)" "(of_nat x :: u32) AND 0x03ffffff = of_nat (x mod 2 ^ 26)"
  if "x < 2 ^ 28"
  using that by (simp_all add: drop_bit_of_nat_lt and_mask26_of_nat)

lemma full_carry_word:
  assumes "h0 < 2 ^ 26" "h1 < 2 ^ 26 + 64" "h2 < 2 ^ 26" "h3 < 2 ^ 26" "h4 < 2 ^ 26"
  shows "poly1305_full_carry (map of_nat [h0, h1, h2, h3, h4]) = map of_nat (full_carry_nat [h0, h1, h2, h3, h4])"
proof -
  define e2 where "e2 = h2 + h1 div 2 ^ 26"
  define e3 where "e3 = h3 + e2 div 2 ^ 26"
  define e4 where "e4 = h4 + e3 div 2 ^ 26"
  define e0 where "e0 = h0 + e4 div 2 ^ 26 * 5"
  note q = div26_le(1) [of h1] div26_le(1) [of e2] div26_le(1) [of e3] div26_le(1) [of e4]
  have e1: "h1 < 2 ^ 28" using assms(2) by simp
  have e2: "e2 < 2 ^ 28" using assms q(1) unfolding e2_def by simp
  have e3: "e3 < 2 ^ 28" using assms e2 q(2) unfolding e3_def by simp
  have e4: "e4 < 2 ^ 28" using assms e3 q(3) unfolding e4_def by simp
  have e0: "e0 < 2 ^ 28" using assms e4 q(4) unfolding e0_def by simp
  have c5: "(of_nat x :: u32) * 5 = of_nat (x * 5)" for x by simp
  show ?thesis
    unfolding poly1305_full_carry_def full_carry_nat_def Let_def list.map nth5
    unfolding w32 [OF e1] of_nat_add [symmetric] e2_def [symmetric] w32 [OF e2] e3_def [symmetric] w32 [OF e3]
      e4_def [symmetric] w32 [OF e4] c5 e0_def [symmetric] w32 [OF e0] by (rule refl)
qed

text \<open>The comparison: \<open>h + 5\<close> overflows \<open>2 ^ 130\<close> exactly if \<open>h\<close> is not reduced. The selection then replaces the
  first four limbs but keeps the fifth.\<close>

definition select_nat :: "nat list \<Rightarrow> nat list" where
  "select_nat h =
     (let g0 = h ! 0 + 5; g1 = h ! 1 + g0 div 2 ^ 26; g2 = h ! 2 + g1 div 2 ^ 26; g3 = h ! 3 + g2 div 2 ^ 26
      in if h ! 4 + g3 div 2 ^ 26 < 2 ^ 26 then h else [g0 mod 2 ^ 26, g1 mod 2 ^ 26, g2 mod 2 ^ 26, g3 mod 2 ^ 26, h ! 4])"

lemma select_msk:
  assumes "x \<le> 2 ^ 26"
  shows "drop_bit 31 (of_nat x - push_bit 26 1 :: u32) - 1 = (if x < 2 ^ 26 then 0 else - 1)"
proof (cases "x < 2 ^ 26")
  case True
  have "(of_nat x - push_bit 26 1 :: u32) = of_nat (2 ^ 32 - 2 ^ 26 + x)" by simp
  moreover have "drop_bit 31 (of_nat (2 ^ 32 - 2 ^ 26 + x) :: u32) = of_nat ((2 ^ 32 - 2 ^ 26 + x) div 2 ^ 31)"
    using True by (intro drop_bit_of_nat_lt) simp
  moreover have "(2 ^ 32 - 2 ^ 26 + x) div 2 ^ 31 = 1" using True by (intro div_nat_eqI) simp_all
  ultimately have "drop_bit 31 (of_nat x - push_bit 26 1 :: u32) = of_nat 1" by (simp only:)
  then show ?thesis using True by simp
next
  case False
  then have "x = 2 ^ 26" using assms by simp
  then show ?thesis by simp
qed

lemma select_word:
  assumes "h0 < 2 ^ 26" "h1 < 2 ^ 26" "h2 < 2 ^ 26" "h3 < 2 ^ 26" "h4 < 2 ^ 26"
  shows "poly1305_select (map of_nat [h0, h1, h2, h3, h4]) = map of_nat (select_nat [h0, h1, h2, h3, h4])"
proof -
  define g0 where "g0 = h0 + 5"
  define g1 where "g1 = h1 + g0 div 2 ^ 26"
  define g2 where "g2 = h2 + g1 div 2 ^ 26"
  define g3 where "g3 = h3 + g2 div 2 ^ 26"
  define g4 where "g4 = h4 + g3 div 2 ^ 26"
  note q = div26_le(1) [of g0] div26_le(1) [of g1] div26_le(1) [of g2] div26_le(1) [of g3]
  have g: "g0 < 2 ^ 28" "g1 < 2 ^ 27" "g2 < 2 ^ 27" "g3 < 2 ^ 27" using assms q unfolding g0_def g1_def g2_def g3_def by simp_all
  then have g28: "g1 < 2 ^ 28" "g2 < 2 ^ 28" "g3 < 2 ^ 28" by simp_all
  have "g3 div 2 ^ 26 \<le> 1" using g(4) q(4) by simp
  then have g4: "g4 \<le> 2 ^ 26" using assms unfolding g4_def by simp
  have five: "(of_nat h0 :: u32) + 5 = of_nat g0" by (simp add: g0_def)
  show ?thesis
    unfolding poly1305_select_def select_nat_def Let_def list.map nth5 five
    unfolding w32 [OF g(1)] of_nat_add [symmetric] g0_def [symmetric] g1_def [symmetric] w32 [OF g28(1)] g2_def [symmetric]
      w32 [OF g28(2)] g3_def [symmetric] w32 [OF g28(3)] g4_def [symmetric] select_msk [OF g4]
    by (cases "g4 < 2 ^ 26") simp_all
qed

lemma select_chain:
  assumes "(h0 :: nat) + 5 = r0 + 2 ^ 26 * q0" "h1 + q0 = r1 + 2 ^ 26 * q1" "h2 + q1 = r2 + 2 ^ 26 * q2" "h3 + q2 = r3 + 2 ^ 26 * q3"
  shows "limbs [h0, h1, h2, h3, h4] + 5 = limbs [r0, r1, r2, r3, h4 + q3]"
  using assms by simp

lemma limbs_bound: "(\<forall>x\<in>set xs. x < 2 ^ 26) \<Longrightarrow> limbs xs < (2 ^ 26) ^ length xs"
proof (induction xs)
  case Nil
  show ?case by simp
next
  case (Cons x xs)
  then have "x + 2 ^ 26 * limbs xs < 2 ^ 26 * (limbs xs + 1)" "limbs xs + 1 \<le> (2 ^ 26) ^ length xs" by simp_all
  then show ?case by (simp only: limbs.simps length_Cons power_Suc) (meson mult_le_mono2 order_less_le_trans)
qed

text \<open>What the selection returns: the value itself below the modulus, and above it the reduced value with the
  old fifth limb.\<close>

lemma select_val:
  assumes "\<forall>x\<in>set [h0, h1, h2, h3, h4]. x < 2 ^ 26"
  shows "\<forall>x\<in>set (select_nat [h0, h1, h2, h3, h4]). x < 2 ^ 26" "length (select_nat [h0, h1, h2, h3, h4]) = 5"
    "limbs (select_nat [h0, h1, h2, h3, h4])
      = (if limbs [h0, h1, h2, h3, h4] < P1305 then limbs [h0, h1, h2, h3, h4]
         else limbs [h0, h1, h2, h3, h4] - P1305 + (2 ^ 130 - 2 ^ 104))"
proof -
  define q0 where "q0 = (h0 + 5) div 2 ^ 26"
  define q1 where "q1 = (h1 + q0) div 2 ^ 26"
  define q2 where "q2 = (h2 + q1) div 2 ^ 26"
  define q3 where "q3 = (h3 + q2) div 2 ^ 26"
  note qs = q0_def [symmetric] q1_def [symmetric] q2_def [symmetric] q3_def [symmetric]
  let ?h = "[h0, h1, h2, h3, h4]"
  let ?l = "[(h0 + 5) mod 2 ^ 26, (h1 + q0) mod 2 ^ 26, (h2 + q1) mod 2 ^ 26, (h3 + q2) mod 2 ^ 26]"
  have sel: "select_nat ?h = (if h4 + q3 < 2 ^ 26 then ?h else ?l @ [h4])"
    unfolding select_nat_def Let_def nth5 qs by simp
  show "\<forall>x\<in>set (select_nat ?h). x < 2 ^ 26" "length (select_nat ?h) = 5" using assms by (simp_all add: sel)
  have lb: "limbs ?l < (2 ^ 26) ^ length ?l" by (rule limbs_bound) simp
  have "limbs ?h + 5 = limbs (?l @ [h4 + q3])"
    unfolding append_Cons append_Nil q0_def q1_def q2_def q3_def
    by (rule select_chain) (rule mod_mult_div_eq [symmetric])+
  then have v: "limbs ?h + 5 = limbs ?l + 2 ^ 104 * (h4 + q3)" by simp
  have "h0 < 2 ^ 26" "h1 < 2 ^ 26" "h2 < 2 ^ 26" "h3 < 2 ^ 26" "h4 < 2 ^ 26" using assms by simp_all
  then have "q0 \<le> 1" "q1 \<le> 1" "q2 \<le> 1" "q3 \<le> 1"
    using div26_le(1) [of "h0 + 5"] div26_le(1) [of "h1 + q0"] div26_le(1) [of "h2 + q1"] div26_le(1) [of "h3 + q2"]
    unfolding qs by simp_all
  with \<open>h4 < 2 ^ 26\<close> consider "h4 + q3 < 2 ^ 26" | "h4 + q3 = 2 ^ 26" "h4 = 2 ^ 26 - 1" by fastforce
  then show "limbs (select_nat ?h)
      = (if limbs ?h < P1305 then limbs ?h else limbs ?h - P1305 + (2 ^ 130 - 2 ^ 104))"
  proof cases
    case 1
    then have "h4 + q3 + 1 \<le> 2 ^ 26" by simp
    with v lb have "limbs ?h < P1305" by simp
    with 1 show ?thesis by (simp only: sel if_True)
  next
    case 2
    then have H: "limbs ?h = P1305 + limbs ?l" using v by simp
    have "limbs (?l @ [h4]) = limbs ?l + 2 ^ 104 * (2 ^ 26 - 1)" by (simp add: 2(2))
    moreover have "select_nat ?h = ?l @ [h4]" using sel 2(1) by (simp only: less_irrefl if_False)
    ultimately have "limbs (select_nat ?h) = limbs ?l + (2 ^ 130 - 2 ^ 104)" by (simp only:) simp
    with H show ?thesis by (simp only: not_add_less1 if_False add_diff_cancel_left')
  qed
qed

text \<open>The tag is the sum with the second half of the key, cut to 128 bits.\<close>

lemma unpack_val:
  assumes "h0 < 2 ^ 26" "h1 < 2 ^ 26" "h2 < 2 ^ 26" "h3 < 2 ^ 26" "h4 < 2 ^ 26"
  obtains w0 w1 w2 w3 where "poly1305_unpack (map of_nat [h0, h1, h2, h3, h4]) = [w0, w1, w2, w3]"
    "unat w0 + 2 ^ 32 * unat w1 + 2 ^ 64 * unat w2 + 2 ^ 96 * unat w3 = limbs [h0, h1, h2, h3, h4] mod 2 ^ 128"
proof -
  have u: "unat (of_nat x :: u32) = x" if "x < 2 ^ 26" for x using that by (simp add: unat_of_nat_lt)
  note us = u [OF assms(1)] u [OF assms(2)] u [OF assms(3)] u [OF assms(4)] u [OF assms(5)]
  have d: "h1 div 2 ^ 6 < 2 ^ 20" "h2 div 2 ^ 12 < 2 ^ 14" "h3 div 2 ^ 18 < 2 ^ 8" "h0 div 2 ^ 0 < 2 ^ 26"
    using assms by (simp_all add: less_mult_imp_div_less)
  let ?w0 = "of_nat h0 OR push_bit 26 (of_nat h1) :: u32" and ?w1 = "drop_bit 6 (of_nat h1) OR push_bit 20 (of_nat h2) :: u32"
  let ?w2 = "drop_bit 12 (of_nat h2) OR push_bit 14 (of_nat h3) :: u32" and ?w3 = "drop_bit 18 (of_nat h3) OR push_bit 8 (of_nat h4) :: u32"
  have "unat ?w0 = h0 + 2 ^ 26 * (h1 mod 2 ^ 6)" "unat ?w1 = h1 div 2 ^ 6 + 2 ^ 20 * (h2 mod 2 ^ 12)"
    "unat ?w2 = h2 div 2 ^ 12 + 2 ^ 14 * (h3 mod 2 ^ 18)" "unat ?w3 = h3 div 2 ^ 18 + 2 ^ 8 * (h4 mod 2 ^ 24)"
    using join_limbs [of 26 "of_nat h0" 0 "of_nat h1"] join_limbs [of 20 "of_nat h1" 6 "of_nat h2"]
      join_limbs [of 14 "of_nat h2" 12 "of_nat h3"] join_limbs [of 8 "of_nat h3" 18 "of_nat h4"] d
    by (simp_all only: us) simp_all
  moreover have "(h0 + 2 ^ 26 * r1) + 2 ^ 32 * (q1 + 2 ^ 20 * r2) + 2 ^ 64 * (q2 + 2 ^ 14 * r3) + 2 ^ 96 * (q3 + 2 ^ 8 * r4) + 2 ^ 128 * q4
      = limbs [h0, r1 + 2 ^ 6 * q1, r2 + 2 ^ 12 * q2, r3 + 2 ^ 18 * q3, r4 + 2 ^ 24 * q4]" for r1 r2 r3 r4 q1 q2 q3 q4
    by simp
  note this [of "h1 mod 2 ^ 6" "h1 div 2 ^ 6" "h2 mod 2 ^ 12" "h2 div 2 ^ 12" "h3 mod 2 ^ 18" "h3 div 2 ^ 18" "h4 mod 2 ^ 24"
    "h4 div 2 ^ 24", unfolded mod_mult_div_eq, symmetric]
  ultimately have e: "limbs [h0, h1, h2, h3, h4] = unat ?w0 + 2 ^ 32 * unat ?w1 + 2 ^ 64 * unat ?w2 + 2 ^ 96 * unat ?w3 + 2 ^ 128 * (h4 div 2 ^ 24)"
    by (simp only:)
  moreover have "unat ?w0 + 2 ^ 32 * unat ?w1 + 2 ^ 64 * unat ?w2 + 2 ^ 96 * unat ?w3 < 2 ^ 128"
    using unat_lt2p [of ?w0] unat_lt2p [of ?w1] unat_lt2p [of ?w2] unat_lt2p [of ?w3] by simp
  ultimately have "unat ?w0 + 2 ^ 32 * unat ?w1 + 2 ^ 64 * unat ?w2 + 2 ^ 96 * unat ?w3 = limbs [h0, h1, h2, h3, h4] mod 2 ^ 128"
    by (simp only: mod_mult_self2 mod_less)
  moreover have "poly1305_unpack (map of_nat [h0, h1, h2, h3, h4]) = [?w0, ?w1, ?w2, ?w3]"
    by (simp add: poly1305_unpack_def)
  ultimately show ?thesis by (intro that)
qed

lemma u32_bytes_nat: "u32_to_bytes_le (of_nat n) = nat_bytes 4 n"
proof -
  have "(of_nat n :: u32) = of_nat (n mod 2 ^ 32)" by (simp add: word_of_nat_eq_iff take_bit_eq_mod)
  then have "le_bytes 4 (of_nat n :: u32) = nat_bytes 4 (n mod 2 ^ 32)" by (simp only: le_bytes_nat) (simp add: le_bytes_nat)
  moreover have "nat_bytes 4 (n mod 2 ^ 32) = nat_bytes 4 n" by (rule nat_bytes_cong) simp
  moreover have "u32_to_bytes_le v = le_bytes 4 v" for v by (simp add: u32_to_bytes_le_def numeral_eq_Suc)
  ultimately show ?thesis by (simp only:)
qed

definition tag_bytes :: "u32 list \<Rightarrow> bytes" where
  "tag_bytes t = u32_to_bytes_le (t ! 0) @ u32_to_bytes_le (t ! 1) @ u32_to_bytes_le (t ! 2) @ u32_to_bytes_le (t ! 3)"

lemma add_s_val:
  "tag_bytes (poly1305_add_s [w0, w1, w2, w3] [s0, s1, s2, s3])
     = nat_bytes 16 ((unat w0 + 2 ^ 32 * unat w1 + 2 ^ 64 * unat w2 + 2 ^ 96 * unat w3)
         + (unat s0 + 2 ^ 32 * unat s1 + 2 ^ 64 * unat s2 + 2 ^ 96 * unat s3))"
proof -
  define f0 where "f0 = unat w0 + unat s0"
  define f1 where "f1 = unat w1 + unat s1 + f0 div 2 ^ 32"
  define f2 where "f2 = unat w2 + unat s2 + f1 div 2 ^ 32"
  define f3 where "f3 = unat w3 + unat s3 + f2 div 2 ^ 32"
  have dv: "2 ^ 32 * (x div 2 ^ 32) \<le> x" for x :: nat by simp
  have b: "f0 < 2 ^ 34" "f1 < 2 ^ 34" "f2 < 2 ^ 34"
    using unat_lt2p [of w0] unat_lt2p [of w1] unat_lt2p [of w2] unat_lt2p [of s0] unat_lt2p [of s1] unat_lt2p [of s2]
      dv [of f0] dv [of f1] unfolding f0_def f1_def f2_def by simp_all
  have w: "drop_bit 32 (of_nat x :: u64) = of_nat (x div 2 ^ 32)" if "x < 2 ^ 34" for x
    using that by (simp add: drop_bit_of_nat_lt)
  have c: "(ucast (of_nat x :: u64) :: u32) = of_nat x" for x by (rule ucast_of_nat_down) simp
  have nth4: "[a, b, c, d] ! 0 = a" "[a, b, c, d] ! 1 = b" "[a, b, c, d] ! 2 = c" "[a, b, c, d] ! 3 = d" for a b c d :: 'b
    by simp_all
  have "poly1305_add_s [w0, w1, w2, w3] [s0, s1, s2, s3] = map of_nat [f0, f1, f2, f3]"
    unfolding poly1305_add_s_def Let_def nth4 ucast_u64 of_nat_add [symmetric] f0_def [symmetric] w [OF b(1)]
      f1_def [symmetric] w [OF b(2)] f2_def [symmetric] w [OF b(3)] f3_def [symmetric] c by simp
  then have "tag_bytes (poly1305_add_s [w0, w1, w2, w3] [s0, s1, s2, s3])
      = nat_bytes 4 f0 @ nat_bytes 4 f1 @ nat_bytes 4 f2 @ nat_bytes 4 f3"
    by (simp add: tag_bytes_def u32_bytes_nat)
  also have "\<dots> = nat_bytes (4 + (4 + (4 + (4 + 0)))) (f0 + 2 ^ 32 * ((unat w1 + unat s1) + 2 ^ 32 * ((unat w2 + unat s2) + 2 ^ 32 * ((unat w3 + unat s3) + 2 ^ 32 * 0))))"
    unfolding nat_bytes_words [of _ f0] nat_bytes_carry f1_def [symmetric] f2_def [symmetric] f3_def [symmetric] by simp
  finally show ?thesis by (simp add: f0_def algebra_simps)
qed

lemma finalize_val:
  assumes "limbs_ok h" "\<exists>q. H = limbs (map unat h) + P1305 * q"
  shows "\<exists>V. V < 2 ^ 130 \<and> V mod P1305 = H mod P1305 \<and>
    tag_bytes (poly1305_add_s (poly1305_unpack (poly1305_select (poly1305_full_carry h))) [s0, s1, s2, s3])
      = nat_bytes 16 ((if V < P1305 then V else V - P1305 + (2 ^ 130 - 2 ^ 104))
          + (unat s0 + 2 ^ 32 * unat s1 + 2 ^ 64 * unat s2 + 2 ^ 96 * unat s3))"
proof -
  obtain h0 h1 h2 h3 h4 where h: "h = map of_nat [h0, h1, h2, h3, h4]" "map unat h = [h0, h1, h2, h3, h4]"
    "h0 < 2 ^ 26" "h1 < 2 ^ 26 + 64" "h2 < 2 ^ 26" "h3 < 2 ^ 26" "h4 < 2 ^ 26"
    using limbs_okE [OF assms(1)] by blast
  obtain c0 c1 c2 c3 c4 where c: "full_carry_nat [h0, h1, h2, h3, h4] = [c0, c1, c2, c3, c4]"
    unfolding full_carry_nat_def Let_def by blast
  let ?c = "[c0, c1, c2, c3, c4]"
  have cb: "\<forall>x\<in>set ?c. x < 2 ^ 26" using full_carry_bound [OF h(3-)] unfolding c .
  obtain k0 k1 k2 k3 k4 where k: "select_nat ?c = [k0, k1, k2, k3, k4]"
    using select_val(2) [OF cb] by (auto simp: numeral_eq_Suc length_Suc_conv)
  have kb: "k0 < 2 ^ 26" "k1 < 2 ^ 26" "k2 < 2 ^ 26" "k3 < 2 ^ 26" "k4 < 2 ^ 26" using select_val(1) [OF cb] by (simp_all add: k)
  have sel: "poly1305_select (poly1305_full_carry h) = map of_nat [k0, k1, k2, k3, k4]"
    unfolding h(1) full_carry_word [OF h(3-)] c using select_word [of c0 c1 c2 c3 c4] cb k by simp
  obtain w0 w1 w2 w3 where w: "poly1305_unpack (map of_nat [k0, k1, k2, k3, k4]) = [w0, w1, w2, w3]"
    "unat w0 + 2 ^ 32 * unat w1 + 2 ^ 64 * unat w2 + 2 ^ 96 * unat w3 = limbs [k0, k1, k2, k3, k4] mod 2 ^ 128"
    using unpack_val [OF kb] by blast
  have tag: "nat_bytes 16 (x mod 2 ^ 128 + y) = nat_bytes 16 (x + y)" for x y
    by (rule nat_bytes_cong) (simp add: mod_add_left_eq)
  have "tag_bytes (poly1305_add_s (poly1305_unpack (poly1305_select (poly1305_full_carry h))) [s0, s1, s2, s3])
      = nat_bytes 16 ((if limbs ?c < P1305 then limbs ?c else limbs ?c - P1305 + (2 ^ 130 - 2 ^ 104))
          + (unat s0 + 2 ^ 32 * unat s1 + 2 ^ 64 * unat s2 + 2 ^ 96 * unat s3))"
    using select_val(3) [OF cb] unfolding k sel w(1) add_s_val w(2) tag by (simp only:)
  moreover have "limbs ?c < 2 ^ 130" using limbs_bound [OF cb] by simp
  moreover have "limbs ?c mod P1305 = H mod P1305"
    using full_carry_val [of h0 h1 h2 h3 h4] assms(2) unfolding c h(2) by (metis mod_mult_self2)
  ultimately show ?thesis by blast
qed

section \<open>The hasher follows the reference\<close>

lemma le_nat_lt32: "length b = 4 \<Longrightarrow> le_nat b < 2 ^ 32"
  using le_nat_bound [of b] by simp

lemma poly1305_new_key:
  assumes "length key = 32"
  shows "key_ok (po_r (poly1305_new key))" "limbs (map unat (po_r (poly1305_new key))) = clamped_r key"
proof -
  define r0 where "r0 = bytes_to_u32_le (slice key 0 4) AND 0x0fffffff"
  define r1 where "r1 = bytes_to_u32_le (slice key 4 4) AND 0x0ffffffc"
  define r2 where "r2 = bytes_to_u32_le (slice key 8 4) AND 0x0ffffffc"
  define r3 where "r3 = bytes_to_u32_le (slice key 12 4) AND 0x0ffffffc"
  note r_defs = r0_def r1_def r2_def r3_def
  let ?r = "[r0 AND 0x03ffffff, (drop_bit 26 r0 OR push_bit 6 r1) AND 0x03ffffff,
     (drop_bit 20 r1 OR push_bit 12 r2) AND 0x03ffffff, (drop_bit 14 r2 OR push_bit 18 r3) AND 0x03ffffff, drop_bit 8 r3]"
  have r: "po_r (poly1305_new key) = ?r" by (simp add: poly1305_new_def Let_def r_defs)
  have m: "map unat ?r = pack26 (unat r0) (unat r1) (unat r2) (unat r3)" by (rule pack_words)
  obtain b0 b1 b2 b3 b4 where b: "pack26 (unat r0) (unat r1) (unat r2) (unat r3) = [b0, b1, b2, b3, b4]"
    unfolding pack26_def by blast
  have "b0 < 2 ^ 26" "b1 < 2 ^ 26" "b2 < 2 ^ 26" "b3 < 2 ^ 26" "b4 < 2 ^ 24"
    using pack26_bound [of "unat r0" "unat r1" "unat r2" "unat r3"] unat_lt2p [of r0] unat_lt2p [of r1] unat_lt2p [of r2]
      unat_lt2p [of r3] by (simp_all add: b)
  with m show "key_ok (po_r (poly1305_new key))" unfolding r key_ok_def b by auto
  have t: "le_nat (slice key 0 4) < 2 ^ 32" "le_nat (slice key 4 4) < 2 ^ 32" "le_nat (slice key 8 4) < 2 ^ 32"
    using assms le_nat_lt32 [of "slice key 0 4"] le_nat_lt32 [of "slice key 4 4"] le_nat_lt32 [of "slice key 8 4"] by simp_all
  have c: "(0x0fffffff :: nat) < 2 ^ 32" "(0x0ffffffc :: nat) < 2 ^ 32" by simp_all
  have u: "unat r0 = le_nat (slice key 0 4) AND 0x0fffffff" "unat r1 = le_nat (slice key 4 4) AND 0x0ffffffc"
    "unat r2 = le_nat (slice key 8 4) AND 0x0ffffffc" "unat r3 = le_nat (slice key 12 4) AND 0x0ffffffc"
    using assms by (simp_all add: r_defs unsigned_and_eq bytes_to_u32_le_nat)
  have sl: "slice (slice key 0 16) p 4 = slice key p 4" if "p + 4 \<le> 16" for p using that by (simp add: slice_def drop_take min_def)
  have "le_nat (slice key 0 16) = le_nat (slice key 0 4) + 2 ^ 32 * (le_nat (slice key 4 4)
      + 2 ^ 32 * (le_nat (slice key 8 4) + 2 ^ 32 * le_nat (slice key 12 4)))"
    using le_nat_slices [of "slice key 0 16"] assms by (simp add: sl)
  moreover have "(0x0ffffffc0ffffffc0ffffffc0fffffff :: nat)
      = 0x0fffffff + 2 ^ 32 * (0x0ffffffc + 2 ^ 32 * (0x0ffffffc + 2 ^ 32 * 0x0ffffffc))" by simp
  ultimately have "clamped_r key = unat r0 + 2 ^ 32 * (unat r1 + 2 ^ 32 * (unat r2 + 2 ^ 32 * unat r3))"
    unfolding clamped_r_def u
    by (simp only: and_join_nat [OF t(1) c(1)] and_join_nat [OF t(2) c(2)] and_join_nat [OF t(3) c(2)])
  then show "limbs (map unat (po_r (poly1305_new key))) = clamped_r key"
    unfolding r m limbs_pack26 by simp
qed

lemma poly1305_new_s:
  assumes "length key = 32"
  obtains s0 s1 s2 s3 where "po_s (poly1305_new key) = [s0, s1, s2, s3]"
    "unat s0 + 2 ^ 32 * unat s1 + 2 ^ 64 * unat s2 + 2 ^ 96 * unat s3 = key_s key"
proof -
  have sl: "slice (slice key 16 16) p 4 = slice key (16 + p) 4" if "p + 4 \<le> 16" for p
    using that by (simp add: slice_def drop_take min_def add.commute)
  have "key_s key = le_nat (slice key 16 4) + 2 ^ 32 * le_nat (slice key 20 4) + 2 ^ 64 * le_nat (slice key 24 4)
      + 2 ^ 96 * le_nat (slice key 28 4)"
    unfolding key_s_def using le_nat_slices [of "slice key 16 16"] assms by (simp add: sl)
  with assms show ?thesis
    by (intro that [of "bytes_to_u32_le (slice key 16 4)" "bytes_to_u32_le (slice key 20 4)"
          "bytes_to_u32_le (slice key 24 4)" "bytes_to_u32_le (slice key 28 4)"])
      (simp_all add: poly1305_new_def Let_def bytes_to_u32_le_nat)
qed

abbreviation poly1305_buffer :: "poly1305 \<Rightarrow> u32 list \<times> bytes \<times> nat" where
  "poly1305_buffer p \<equiv> (po_h p, po_buffer p, po_buffer_len p)"

definition poly1305_inv :: "bytes \<Rightarrow> poly1305 \<Rightarrow> bytes \<Rightarrow> bool" where
  "poly1305_inv key p msg \<longleftrightarrow> po_r p = po_r (poly1305_new key) \<and> po_s p = po_s (poly1305_new key)
     \<and> buffer_inv 16 (block_step (po_r p) False) [0, 0, 0, 0, 0] (poly1305_buffer p) msg"

lemma poly1305_new_inv: "poly1305_inv key (poly1305_new key) []"
  by (simp add: poly1305_inv_def buffer_inv_def poly1305_new_def Let_def)

lemma process_block_step: "poly1305_process_block p blk fin = p\<lparr>po_h := block_step (po_r p) fin (po_h p) blk\<rparr>"
  by (simp add: poly1305_process_block_def block_step_def)

lemma poly1305_blocks_eq:
  "poly1305_blocks p xs offset
     = (let (h, offset) = take_blocks 16 (block_step (po_r p) False) (po_h p) xs offset in (p\<lparr>po_h := h\<rparr>, offset))"
proof (induction p xs offset rule: poly1305_blocks.induct)
  case (1 p xs offset)
  show ?case
  proof (cases "offset + 16 \<le> length xs")
    case True
    then show ?thesis using 1
      by (subst poly1305_blocks.simps, subst take_blocks.simps) (simp add: process_block_step split_beta Let_def)
  next
    case False
    then show ?thesis by (subst poly1305_blocks.simps, subst take_blocks.simps) simp
  qed
qed

lemma poly1305_update_buffer:
  "poly1305_buffer (poly1305_update p xs) = buffer_update 16 (block_step (po_r p) False) (poly1305_buffer p) xs"
  "po_r (poly1305_update p xs) = po_r p" "po_s (poly1305_update p xs) = po_s p"
  by (simp_all add: poly1305_update_def poly1305_update_from_def poly1305_blocks_eq buffer_update_def buffer_rest_def
      process_block_step Let_def split_beta)

lemma poly1305_update_inv: "poly1305_inv key p msg \<Longrightarrow> poly1305_inv key (poly1305_update p xs) (msg @ xs)"
  unfolding poly1305_inv_def poly1305_update_buffer by (auto intro: buffer_update_inv)

text \<open>The padded last block.\<close>

lemma zero_from: "m \<le> k \<Longrightarrow> k \<le> length xs \<Longrightarrow>
    foldl (\<lambda>ys i. ys[i := z]) xs [m..<k] = take m xs @ replicate (k - m) z @ drop k xs"
proof (induction k)
  case 0
  then show ?case by simp
next
  case (Suc k)
  show ?case
  proof (cases "m = Suc k")
    case True
    then show ?thesis by simp
  next
    case False
    then have ih: "foldl (\<lambda>ys i. ys[i := z]) xs [m..<k] = take m xs @ replicate (k - m) z @ drop k xs" using Suc by simp
    have "(take m xs @ replicate (k - m) z @ drop k xs)[k := z] = take m xs @ replicate (k - m) z @ z # drop (Suc k) xs"
      using Suc.prems False by (simp add: list_update_append Cons_nth_drop_Suc [symmetric])
    with ih Suc.prems False show ?thesis
      by (simp add: Suc_diff_le replicate_append_same [symmetric])
  qed
qed

lemma le_nat_zero: "le_nat (replicate k 0) = 0"
  by (induction k) simp_all

lemma last_block_bytes:
  assumes "length buf = 16" "0 < n" "n < 16"
  shows "length (foldl (\<lambda>b i. b[i := 0]) (buf[n := 1]) [n + 1..<16]) = 16"
    "le_nat (foldl (\<lambda>b i. b[i := 0]) (buf[n := 1]) [n + 1..<16]) = le_nat (take n buf @ [1])"
proof -
  have "foldl (\<lambda>b i. b[i := 0]) (buf[n := 1]) [n + 1..<16] = take (n + 1) (buf[n := 1]) @ replicate (15 - n) 0"
    using zero_from [of "n + 1" 16 "buf[n := 1]" "0 :: byte"] assms by simp
  also have "take (n + 1) (buf[n := 1]) = take n buf @ [1]" using assms by (simp add: take_Suc_conv_app_nth)
  finally have e: "foldl (\<lambda>b i. b[i := 0]) (buf[n := 1]) [n + 1..<16] = (take n buf @ [1]) @ replicate (15 - n) 0" .
  show "length (foldl (\<lambda>b i. b[i := 0]) (buf[n := 1]) [n + 1..<16]) = 16" unfolding e using assms by simp
  show "le_nat (foldl (\<lambda>b i. b[i := 0]) (buf[n := 1]) [n + 1..<16]) = le_nat (take n buf @ [1])"
    unfolding e le_nat_append le_nat_zero by simp
qed

lemma last_block_val:
  assumes key: "length key = 32" and inv: "poly1305_inv key p msg"
  shows "limbs_ok (po_h (poly1305_last_block p))" "po_s (poly1305_last_block p) = po_s (poly1305_new key)"
    "limbs (map unat (po_h (poly1305_last_block p))) mod P1305 = poly_eval (clamped_r key) 0 msg"
proof -
  let ?r = "po_r p" and ?n = "po_buffer_len p" and ?buf = "po_buffer p"
  from inv have r: "?r = po_r (poly1305_new key)" and s: "po_s p = po_s (poly1305_new key)"
    and buf: "length ?buf = 16" "?n < 16"
    and ab: "absorb 16 (block_step ?r False) [0, 0, 0, 0, 0] msg = (po_h p, take ?n ?buf)"
    by (auto simp: poly1305_inv_def buffer_inv_def)
  have rok: "key_ok ?r" "limbs (map unat ?r) = clamped_r key" using poly1305_new_key [OF key] unfolding r .
  have "limbs_ok [0, 0, 0, 0, 0]" by (simp add: limbs_ok_def)
  from poly_eval_absorb [OF rok(1) this ab]
  have h: "limbs_ok (po_h p)" "poly_eval (clamped_r key) 0 msg = poly_eval (clamped_r key) (limbs (map unat (po_h p)) mod P1305) (take ?n ?buf)"
    unfolding rok(2) by simp_all
  have "limbs_ok (po_h (poly1305_last_block p)) \<and> po_s (poly1305_last_block p) = po_s (poly1305_new key)
      \<and> limbs (map unat (po_h (poly1305_last_block p))) mod P1305 = poly_eval (clamped_r key) 0 msg"
  proof (cases "?n = 0")
    case True
    then show ?thesis
      using h s by (simp add: poly1305_last_block_def)
  next
    case False
    note blk = last_block_bytes [OF buf(1) _ buf(2)]
    let ?blk = "foldl (\<lambda>b i. b[i := 0]) (?buf[?n := 1]) [?n + 1..<16]"
    have b: "length ?blk = 16" "le_nat ?blk = le_nat (take ?n ?buf @ [1])" using False blk by simp_all
    note st = block_step_mod [OF rok(1) h(1) b(1), of True]
    have "poly_eval (clamped_r key) (limbs (map unat (po_h p)) mod P1305) (take ?n ?buf)
        = (limbs (map unat (po_h p)) mod P1305 + le_nat (take ?n ?buf @ [1])) * clamped_r key mod P1305"
      using False buf by (subst poly_eval.simps) auto
    also have "\<dots> = (limbs (map unat (po_h p)) + le_nat (take ?n ?buf @ [1])) * clamped_r key mod P1305"
      by (metis mod_add_left_eq mod_mult_left_eq)
    finally show ?thesis
      using st False s h(2) unfolding b(2) rok(2) by (simp only: poly1305_last_block_def process_block_step Let_def) simp
  qed
  then show "limbs_ok (po_h (poly1305_last_block p))" "po_s (poly1305_last_block p) = po_s (poly1305_new key)"
    "limbs (map unat (po_h (poly1305_last_block p))) mod P1305 = poly_eval (clamped_r key) 0 msg" by simp_all
qed

lemma poly_eval_less: "a < P1305 \<Longrightarrow> poly_eval r a msg < P1305"
proof (induction r a msg rule: poly_eval.induct)
  case (1 r a msg)
  then show ?case by (cases "msg = []") (simp_all add: poly_eval.simps [of r a msg])
qed

text \<open>The value the accumulator ends with, and the tag computed from it.\<close>

definition poly1305_skewed :: "bytes \<Rightarrow> bytes \<Rightarrow> bytes" where
  "poly1305_skewed key msg = nat_bytes TAG_SIZE (poly_eval (clamped_r key) 0 msg + (2 ^ 130 - 2 ^ 104) + key_s key)"

lemma finalize_tag:
  assumes key: "length key = 32" and inv: "poly1305_inv key p msg"
  shows "snd (poly1305_finalize p) = poly1305_spec key msg
    \<or> poly_eval (clamped_r key) 0 msg < 5 \<and> snd (poly1305_finalize p) = poly1305_skewed key msg"
proof -
  note lb = last_block_val [OF key inv]
  obtain s0 s1 s2 s3 where s: "po_s (poly1305_new key) = [s0, s1, s2, s3]"
    "unat s0 + 2 ^ 32 * unat s1 + 2 ^ 64 * unat s2 + 2 ^ 96 * unat s3 = key_s key"
    using poly1305_new_s [OF key] by blast
  let ?h = "po_h (poly1305_last_block p)" and ?a = "poly_eval (clamped_r key) 0 msg"
  have "\<exists>q. limbs (map unat ?h) = limbs (map unat ?h) + P1305 * q" by (rule exI [of _ 0]) simp
  from finalize_val [OF lb(1) this, of s0 s1 s2 s3] obtain V where V: "V < 2 ^ 130" "V mod P1305 = ?a"
    "tag_bytes (poly1305_add_s (poly1305_unpack (poly1305_select (poly1305_full_carry ?h))) [s0, s1, s2, s3])
      = nat_bytes 16 ((if V < P1305 then V else V - P1305 + (2 ^ 130 - 2 ^ 104)) + key_s key)"
    unfolding s(2) lb(3) by blast
  have t: "snd (poly1305_finalize p)
      = tag_bytes (poly1305_add_s (poly1305_unpack (poly1305_select (poly1305_full_carry ?h))) [s0, s1, s2, s3])"
    using lb(2) s(1) by (simp add: poly1305_finalize_def Let_def tag_bytes_def)
  show ?thesis
  proof (cases "V < P1305")
    case True
    with V(2) have "V = ?a" by (simp only: mod_less)
    with V(3) True t show ?thesis by (simp only: if_True poly1305_spec_def simp_thms)
  next
    case False
    then have "V mod P1305 = (V - P1305) mod P1305" by (simp only: le_mod_geq not_less)
    moreover from V(1) have "V - P1305 < 5" by simp
    then have "(V - P1305) mod P1305 = V - P1305" by simp
    ultimately have "?a = V - P1305" using V(2) by (simp only:)
    with V(3) False t \<open>V - P1305 < 5\<close> show ?thesis by (simp only: if_False poly1305_skewed_def) simp
  qed
qed

interpretation po: stream_update "poly1305_inv key" poly1305_update
  by unfold_locales (rule poly1305_update_inv)

section \<open>Sealing\<close>

definition pad16 :: "bytes \<Rightarrow> bytes" where
  "pad16 xs = xs @ zeros ((16 - length xs mod 16) mod 16)"

text \<open>What the authenticator is computed over.\<close>

definition aead_data :: "bytes \<Rightarrow> bytes \<Rightarrow> bytes" where
  "aead_data aad ct = pad16 aad @ pad16 ct @ le_bytes 8 (of_nat (length aad) :: u64) @ le_bytes 8 (of_nat (length ct) :: u64)"

lemma u64_to_bytes_le_eq: "u64_to_bytes_le v = le_bytes 8 v"
  by (simp add: u64_to_bytes_le_def numeral_eq_Suc)

lemma poly1305_pad_eq: "poly1305_pad p n = (if n mod 16 = 0 then p else poly1305_update p (zeros ((16 - n mod 16) mod 16)))"
proof -
  have "slice (zeros 16) 0 ((16 - n mod 16) mod 16) = zeros ((16 - n mod 16) mod 16)"
    by (simp add: slice_def zeros_def min_def)
  then show ?thesis by (auto simp: poly1305_pad_def Let_def)
qed

lemma poly1305_pad_inv:
  "poly1305_inv key p (msg @ xs) \<Longrightarrow> poly1305_inv key (poly1305_pad p (length xs)) (msg @ pad16 xs)"
  using poly1305_update_inv [of key p "msg @ xs"] by (simp add: poly1305_pad_eq pad16_def zeros_def)

lemma aead_tag_cases:
  assumes "length pkey = 32"
  shows "aead_tag pkey aad ct = poly1305_spec pkey (aead_data aad ct) \<or>
    poly_eval (clamped_r pkey) 0 (aead_data aad ct) < 5 \<and> aead_tag pkey aad ct = poly1305_skewed pkey (aead_data aad ct)"
proof -
  note upd = poly1305_update_inv [where key = pkey] and pad = poly1305_pad_inv [where key = pkey]
  have "poly1305_inv pkey (poly1305_pad (poly1305_update (poly1305_new pkey) aad) (length aad)) (pad16 aad)"
    using pad [of _ "[]" aad] upd [OF poly1305_new_inv, of aad] by simp
  from upd [OF pad [OF upd [OF this, of ct]], THEN upd]
  have "poly1305_inv pkey (poly1305_update (poly1305_update (poly1305_pad (poly1305_update
      (poly1305_pad (poly1305_update (poly1305_new pkey) aad) (length aad)) ct) (length ct))
      (u64_to_bytes_le (of_nat (length aad)))) (u64_to_bytes_le (of_nat (length ct)))) (aead_data aad ct)"
    by (simp add: aead_data_def u64_to_bytes_le_eq)
  from finalize_tag [OF assms this] show ?thesis by (simp add: aead_tag_def Let_def)
qed

lemma length_finalize [simp]: "length (snd (poly1305_finalize p)) = TAG_SIZE"
  by (simp add: poly1305_finalize_def Let_def u32_to_bytes_le_def)

lemma length_aead_tag [simp]: "length (aead_tag pkey aad ct) = TAG_SIZE"
  by (simp add: aead_tag_def Let_def)

lemma poly_key_eq:
  assumes "length junk = 1024"
  shows "poly_key junk key nonce = key_stream (chacha20_new key nonce) (cc_state (chacha20_new key nonce) ! 12) 32"
proof -
  let ?v = "\<lparr>vdata = junk, vlen = 0\<rparr>" and ?c = "chacha20_new key nonce"
  have "vec_wf 1024 ?v" "vec_bytes ?v = []" using assms by (simp_all add: vec_wf_def vec_bytes_def)
  with keystream_gen_spec [of ?v ?c 32 "cc_state ?c ! 12"]
  have v: "vec_wf 1024 (chacha20_keystream junk ?c 32)" "vec_bytes (chacha20_keystream junk ?c 32) = key_stream ?c (cc_state ?c ! 12) 32"
    by (simp_all add: chacha20_keystream_def)
  have "length (vec_bytes (chacha20_keystream junk ?c 32)) = vlen (chacha20_keystream junk ?c 32)"
    using v(1) by (simp add: vec_wf_def vec_bytes_def)
  then have "vlen (chacha20_keystream junk ?c 32) = 32" by (simp add: v(2))
  with v(2) show ?thesis by (simp add: poly_key_def vec_bytes_def slice_def)
qed

section \<open>An accumulator above the modulus\<close>

text \<open>With \<open>r = 1\<close> the accumulator is the sum of the blocks; two blocks of ones give \<open>2 ^ 130 - 2\<close>.\<close>

lemma slice_replicate: "slice (replicate n x) p k = replicate (min k (n - p)) x"
  by (simp add: slice_def)

lemma ones_word: "bytes_to_u32_le (replicate 4 0xFF) = 0xFFFFFFFF"
  by (simp add: bytes_to_u32_le_def)

lemma ones_step1:
  "block_step [1, 0, 0, 0, 0] False [0, 0, 0, 0, 0] (replicate 16 0xFF) = [0x3ffffff, 0x3ffffff, 0x3ffffff, 0x3ffffff, 0x1ffffff]"
  by (simp add: block_step_def poly1305_add_block_def slice_replicate ones_word poly1305_mul_r_def poly1305_carry_def)

lemma ones_step2:
  "block_step [1, 0, 0, 0, 0] False [0x3ffffff, 0x3ffffff, 0x3ffffff, 0x3ffffff, 0x1ffffff] (replicate 16 0xFF)
     = [0x3fffffe, 0x3ffffff, 0x3ffffff, 0x3ffffff, 0x3ffffff]"
  by (simp add: block_step_def poly1305_add_block_def slice_replicate ones_word poly1305_mul_r_def poly1305_carry_def)

lemma ones_final:
  "poly1305_unpack (poly1305_select (poly1305_full_carry [0x3fffffe, 0x3ffffff, 0x3ffffff, 0x3ffffff, 0x3ffffff])) = [3, 0, 0, 0xFFFFFF00]"
  by (simp add: poly1305_full_carry_def poly1305_select_def poly1305_unpack_def Let_def)

lemma one_key: "poly1305_new (1 # zeros 31) = \<lparr>po_r = [1, 0, 0, 0, 0], po_s = [0, 0, 0, 0], po_h = [0, 0, 0, 0, 0],
    po_buffer = zeros 16, po_buffer_len = 0\<rparr>"
proof -
  have "slice (1 # replicate 31 0) 0 4 = 1 # replicate 3 (0 :: byte)" by (simp add: slice_def)
  then show ?thesis by (simp add: poly1305_new_def zeros_def slice_replicate bytes_to_u32_le_def)
qed

lemma ones_update:
  "poly1305_update (poly1305_new (1 # zeros 31)) (replicate 32 0xFF)
     = (poly1305_new (1 # zeros 31))\<lparr>po_h := [0x3fffffe, 0x3ffffff, 0x3ffffff, 0x3ffffff, 0x3ffffff]\<rparr>"
  by (simp add: one_key poly1305_update_def poly1305_update_from_def poly1305_blocks.simps slice_replicate process_block_step
      ones_step1 ones_step2)

lemma le_nat_ones: "le_nat (replicate k 0xFF) + 1 = 256 ^ k"
  by (induction k) simp_all

lemma ones_eval: "poly_eval 1 0 (replicate 32 0xFF) = 3"
proof -
  have "le_nat (replicate 16 0xFF) = 256 ^ 16 - 1" using le_nat_ones [of 16] by simp
  then have "le_nat (replicate 16 0xFF @ [1]) = 2 ^ 129 - 1" by (simp add: le_nat_append)
  then show ?thesis by (simp add: poly_eval.simps)
qed

section \<open>Properties\<close>

text \<open>C10. The streaming authenticator, however the message is cut into pieces, computes the Poly1305 tag of
  RFC 8439 whenever the polynomial's value is at least 5 (nothing overflows in the 32-bit limbs and 64-bit
  products on the way). Only for the values 0 to 4 another tag is possible, the one with the
  constant \<open>2 ^ 130 - 2 ^ 104\<close> added. Verification accepts exactly the computed tag.\<close>

theorem poly1305_tag_correct:
  assumes "length key = 32"
  shows "let msg = concat pieces; tag = snd (poly1305_finalize (foldl poly1305_update (poly1305_new key) pieces))
    in (5 \<le> poly_eval (clamped_r key) 0 msg \<longrightarrow> tag = poly1305_spec key msg)
     \<and> tag \<in> {poly1305_spec key msg, poly1305_skewed key msg}
     \<and> (\<forall>expected. length expected = TAG_SIZE \<longrightarrow> poly1305_verify key m expected = (poly1305_mac key m = expected))"
proof -
  have "poly1305_inv key (foldl poly1305_update (poly1305_new key) pieces) (concat pieces)"
    using po.updates_inv [OF poly1305_new_inv, of key pieces] by simp
  note t = finalize_tag [OF assms this]
  have v: "length expected = TAG_SIZE \<Longrightarrow> poly1305_verify key m expected = (poly1305_mac key m = expected)" for expected
    by (simp add: poly1305_verify_def ct_diff_take poly1305_mac_def)
  show ?thesis using t v by (auto simp: Let_def)
qed

theorem poly1305_tag_correct_witness:
  "snd (poly1305_finalize (foldl poly1305_update (poly1305_new (zeros 32)) [[1, 2], [3]]))
     \<in> {poly1305_spec (zeros 32) [1, 2, 3], poly1305_skewed (zeros 32) [1, 2, 3]}"
  using poly1305_tag_correct [of "zeros 32" "[[1, 2], [3]]"] by (simp add: Let_def)

text \<open>C26. The final reduction is wrong for an accumulator at or above the modulus, because the selection
  does not touch the fifth limb: for the key with \<open>r = 1\<close>, \<open>s = 0\<close> and 32 bytes of ones the polynomial has the
  value 3, and the code returns a tag whose upper three bytes are \<open>0xFF\<close>.\<close>

theorem poly1305_unreduced_tag:
  "poly1305_spec (1 # zeros 31) (replicate 32 0xFF) = 3 # zeros 15
   \<and> poly1305_mac (1 # zeros 31) (replicate 32 0xFF) = 3 # zeros 12 @ [0xFF, 0xFF, 0xFF]"
proof -
  have "slice (1 # replicate 31 0) 0 16 = 1 # replicate 15 (0 :: byte)" by (simp add: slice_def)
  then have "clamped_r (1 # zeros 31) = 1" "key_s (1 # zeros 31) = 0"
    by (simp_all add: clamped_r_def key_s_def zeros_def slice_replicate le_nat_zero)
  then have "poly1305_spec (1 # zeros 31) (replicate 32 0xFF) = nat_bytes 16 3" by (simp only: poly1305_spec_def ones_eval) simp
  moreover have "nat_bytes k 0 = zeros k" for k by (induction k) (simp_all add: zeros_def)
  then have "nat_bytes (Suc 15) 3 = 3 # zeros 15" by (simp only: nat_bytes.simps) simp
  then have "nat_bytes 16 3 = 3 # zeros 15" by simp
  moreover have "poly1305_mac (1 # zeros 31) (replicate 32 0xFF)
      = concat (map u32_to_bytes_le (poly1305_add_s [3, 0, 0, 0xFFFFFF00] [0, 0, 0, 0]))"
    unfolding poly1305_mac_def ones_update
    by (simp add: one_key poly1305_finalize_def poly1305_last_block_def ones_final Let_def poly1305_add_s_def)
  moreover have "poly1305_add_s [3, 0, 0, 0xFFFFFF00] [0, 0, 0, 0] = [3, 0, 0, 0xFFFFFF00]"
    by (simp add: poly1305_add_s_def Let_def)
  moreover have "zeros 12 = [0, 0, 0, 0, 0, 0, 0, 0, 0, 0, 0, 0]" by (simp add: zeros_def numeral_eq_Suc)
  ultimately show ?thesis by (simp add: u32_to_bytes_le_def)
qed

lemma seal_result:
  assumes "length plaintext \<le> length cbuf" "ct = chacha20_encrypt (chacha20_new_with_counter key nonce 1) plaintext"
  shows "chacha20poly1305_seal junk key nonce aad plaintext cbuf = Some (ct @ drop (length plaintext) cbuf, aead_tag (poly_key junk key nonce) aad ct)"
    "length ct = length plaintext" "chacha20_decrypt (chacha20_new_with_counter key nonce 1) ct = plaintext"
proof -
  show len: "length ct = length plaintext" and "chacha20_decrypt (chacha20_new_with_counter key nonce 1) ct = plaintext"
    by (simp_all add: assms(2) chacha20_encrypt_def chacha20_decrypt_def apply_keystream_spec xor_bytes_cancel)
  show "chacha20poly1305_seal junk key nonce aad plaintext cbuf = Some (ct @ drop (length plaintext) cbuf, aead_tag (poly_key junk key nonce) aad ct)"
    using assms(1) len by (simp add: chacha20poly1305_seal_def Let_def memcpy_def slice_def assms(2) [symmetric])
qed

lemma open_result:
  assumes "length ct \<le> length pbuf" "length tag = TAG_SIZE"
  shows "chacha20poly1305_open junk key nonce aad ct tag pbuf =
    (if tag = aead_tag (poly_key junk key nonce) aad ct
     then Some (True, chacha20_decrypt (chacha20_new_with_counter key nonce 1) ct @ drop (length ct) pbuf) else Some (False, pbuf))"
proof -
  have "length (chacha20_decrypt c ct) = length ct" for c by (simp add: chacha20_decrypt_def apply_keystream_spec)
  then show ?thesis using assms by (auto simp: chacha20poly1305_open_def Let_def memcpy_def slice_def ct_diff_take)
qed

lemma seal_open:
  assumes "length junk = 1024" "length junk' = 1024" "length plaintext \<le> length cbuf" "length plaintext \<le> length pbuf"
  shows "\<exists>ct tag. chacha20poly1305_seal junk key nonce aad plaintext cbuf = Some (ct @ drop (length plaintext) cbuf, tag)
    \<and> length ct = length plaintext
    \<and> tag \<in> {poly1305_spec (poly_key junk key nonce) (aead_data aad ct), poly1305_skewed (poly_key junk key nonce) (aead_data aad ct)}
    \<and> chacha20poly1305_open junk' key nonce aad ct tag pbuf = Some (True, plaintext @ drop (length plaintext) pbuf)
    \<and> (\<forall>tag'. length tag' = TAG_SIZE \<and> tag' \<noteq> tag \<longrightarrow>
         chacha20poly1305_open junk' key nonce aad ct tag' pbuf = Some (False, pbuf))"
proof -
  let ?k = "poly_key junk key nonce"
  define ct where "ct = chacha20_encrypt (chacha20_new_with_counter key nonce 1) plaintext"
  note seal = seal_result(1) [OF assms(3) ct_def, of junk aad] seal_result(2,3) [OF assms(3) ct_def]
  have k: "poly_key junk' key nonce = ?k" "length ?k = 32" by (simp_all add: poly_key_eq assms(1,2))
  have tag: "length (aead_tag ?k aad ct) = TAG_SIZE" using aead_tag_cases [OF k(2), of aad ct] by (auto simp: poly1305_spec_def poly1305_skewed_def)
  show ?thesis using seal aead_tag_cases [OF k(2), of aad ct] open_result [of ct pbuf _ junk' key nonce aad, unfolded k(1)] assms(4) tag
    by (intro exI [of _ ct] exI [of _ "aead_tag ?k aad ct"]) auto
qed

text \<open>C11. Sealing and opening fit together: with buffers of sufficient size, sealing succeeds, writes only the
  ciphertext, and the tag authenticates the padded additional data, the padded ciphertext and both lengths under
  the one-time key; opening the result gives back the plaintext, and opening with any other tag fails and
  leaves the output untouched.\<close>

theorem aead_roundtrip:
  assumes "length junk = 1024" "length junk' = 1024" "length plaintext \<le> length cbuf" "length plaintext \<le> length pbuf"
  shows "\<exists>ct tag. chacha20poly1305_seal junk key nonce aad plaintext cbuf = Some (ct @ drop (length plaintext) cbuf, tag)
    \<and> length ct = length plaintext
    \<and> tag \<in> {poly1305_spec (poly_key junk key nonce) (aead_data aad ct), poly1305_skewed (poly_key junk key nonce) (aead_data aad ct)}
    \<and> chacha20poly1305_open junk' key nonce aad ct tag pbuf = Some (True, plaintext @ drop (length plaintext) pbuf)
    \<and> (\<forall>tag'. length tag' = TAG_SIZE \<and> tag' \<noteq> tag \<longrightarrow>
         chacha20poly1305_open junk' key nonce aad ct tag' pbuf = Some (False, pbuf))"
  by (rule seal_open [OF assms])

theorem aead_roundtrip_witness:
  "\<exists>ct tag. chacha20poly1305_seal (zeros 1024) (zeros 32) (zeros 12) [] [1, 2] [0, 0, 7] = Some (ct @ [7], tag)
    \<and> chacha20poly1305_open (zeros 1024) (zeros 32) (zeros 12) [] ct tag [9, 9] = Some (True, [1, 2])"
  using aead_roundtrip [of "zeros 1024" "zeros 1024" "[1, 2]" "[0, 0, 7]" "[9, 9]" "zeros 32" "zeros 12" "[]"] by auto

end
