(* ===== verification/Ctr_Mode.thy ===== *)
theory Ctr_Mode
  imports Lunar_Prelude
begin

unbundle bit_operations_syntax

text \<open>
  Counter mode as the firmware writes it: a loop over the data in chunks of the block size, a key-stream
  block per chunk made from a counter, and an exclusive or in place. \<open>xor_stream\<close> is the loop with the
  block function and the counter step as arguments; its effect is the exclusive or with the pad, so
  that applying it twice changes nothing. The loops of the session layer, the onion router and
  AES are instances.
\<close>

function xor_stream :: "nat \<Rightarrow> ('c \<Rightarrow> bytes) \<Rightarrow> ('c \<Rightarrow> 'c) \<Rightarrow> bytes \<Rightarrow> nat \<Rightarrow> nat \<Rightarrow> 'c \<Rightarrow> bytes" where
  "xor_stream B blk nxt d n i c =
     (if i < n \<and> 0 < B then
        let keystream = blk c;
            chunk_size = (if n - i < B then n - i else B)
        in xor_stream B blk nxt (memcpy d i (map (\<lambda>j. d ! (i + j) XOR keystream ! j) [0..<chunk_size])) n (i + B) (nxt c)
      else d)"
  by pat_completeness auto
termination
  by (relation "measure (\<lambda>(B, blk, nxt, d, n, i, c). n - i)") auto

declare xor_stream.simps [simp del]

definition ctr_pad :: "nat \<Rightarrow> ('c \<Rightarrow> bytes) \<Rightarrow> ('c \<Rightarrow> 'c) \<Rightarrow> 'c \<Rightarrow> nat \<Rightarrow> byte" where
  "ctr_pad B blk nxt c k = blk ((nxt ^^ (k div B)) c) ! (k mod B)"

lemma ctr_pad_first: "k < B \<Longrightarrow> ctr_pad B blk nxt c k = blk c ! k"
  by (simp add: ctr_pad_def)

lemma ctr_pad_next: "0 < B \<Longrightarrow> ctr_pad B blk nxt (nxt c) k = ctr_pad B blk nxt c (B + k)"
  by (simp add: ctr_pad_def div_add_self1 funpow_swap1)

lemma length_xor_stream [simp]: "n \<le> length d \<Longrightarrow> length (xor_stream B blk nxt d n i c) = length d"
proof (induction B blk nxt d n i c rule: xor_stream.induct)
  case (1 B blk nxt d n i c)
  show ?case
  proof (cases "i < n \<and> 0 < B")
    case True
    let ?m = "if n - i < B then n - i else B"
    have "i + ?m \<le> length d" using True 1(2) by auto
    with True 1 show ?thesis by (subst xor_stream.simps) (simp add: Let_def)
  next
    case False
    then show ?thesis by (simp only: xor_stream.simps [of B blk nxt d n i c] if_False)
  qed
qed

lemma nth_memcpy:
  assumes "off + length src \<le> length dst" "k < length dst"
  shows "memcpy dst off src ! k = (if off \<le> k \<and> k < off + length src then src ! (k - off) else dst ! k)"
proof -
  consider "k < off" | "off \<le> k" "k < off + length src" | "off + length src \<le> k" by linarith
  then show ?thesis using assms by cases (auto simp: memcpy_def nth_append)
qed

lemma xor_stream_nth:
  "0 < B \<Longrightarrow> n \<le> length d \<Longrightarrow> k < length d \<Longrightarrow>
   xor_stream B blk nxt d n i c ! k = (if i \<le> k \<and> k < n then d ! k XOR ctr_pad B blk nxt c (k - i) else d ! k)"
proof (induction B blk nxt d n i c rule: xor_stream.induct)
  case (1 B blk nxt d n i c)
  show ?case
  proof (cases "i < n")
    case True
    let ?m = "if n - i < B then n - i else B"
    let ?d = "memcpy d i (map (\<lambda>j. d ! (i + j) XOR blk c ! j) [0..<?m])"
    have m: "i + ?m \<le> length d" using True "1.prems" by auto
    have d: "?d ! k = (if i \<le> k \<and> k < i + ?m then d ! k XOR blk c ! (k - i) else d ! k)"
      using m "1.prems" by (subst nth_memcpy) auto
    have "xor_stream B blk nxt d n i c = xor_stream B blk nxt ?d n (i + B) (nxt c)"
      using True "1.prems" by (subst xor_stream.simps) (simp add: Let_def)
    also have "\<dots> ! k = (if i + B \<le> k \<and> k < n then ?d ! k XOR ctr_pad B blk nxt (nxt c) (k - (i + B)) else ?d ! k)"
      using "1.IH" True "1.prems" m by simp
    finally show ?thesis using True "1.prems" unfolding d
      by (auto simp: ctr_pad_first ctr_pad_next)
  next
    case False
    then show ?thesis by (subst xor_stream.simps) auto
  qed
qed

text \<open>The effect on the data, and that it undoes itself.\<close>

lemma xor_stream_spec:
  assumes "0 < B" "n \<le> length d"
  shows "xor_stream B blk nxt d n 0 c = map (\<lambda>k. d ! k XOR ctr_pad B blk nxt c k) [0..<n] @ drop n d"
  using assms by (intro nth_equalityI) (auto simp: xor_stream_nth nth_append)

lemma xor_stream_twice:
  assumes "0 < B" "n \<le> length d"
  shows "xor_stream B blk nxt (xor_stream B blk nxt d n 0 c) n 0 c = d"
  using assms by (intro nth_equalityI) (auto simp: xor_stream_nth xor.assoc)

text \<open>Data behind the end is neither read nor written.\<close>

lemma take_xor_stream:
  assumes "0 < B" "n \<le> length d"
  shows "take n (xor_stream B blk nxt d n 0 c) = xor_stream B blk nxt (take n d) n 0 c"
  using assms by (simp add: xor_stream_spec)

end
