(* ===== verification/Session.thy ===== *)
theory Session
  imports Hmac Byte_Codec Vec_Helpers Ctr_Mode
begin

unbundle bit_operations_syntax

text \<open>
  The ratcheting sessions of \<^verbatim>\<open>lunar/session.c\<close>: message keys from two hash chains, encryption in counter
  mode with an HMAC tag, the ratchet that mixes in a new Diffie-Hellman secret, keys of skipped messages,
  and the stored form. X25519 and the AES block function are arguments (\<open>session_crypto\<close>), as are the
  32 random bytes of a ratchet; HKDF and SHA-256 are those of the library. HKDF is called with
  the arguments at the positions \<^verbatim>\<open>session.c\<close> passes them. 64-bit counters are written in the
  byte order of the target, least significant byte first.
\<close>

section \<open>Data\<close>

record session_crypto =
  sc_x25519 :: "bytes \<Rightarrow> bytes \<Rightarrow> bytes"
  sc_x25519_base :: "bytes \<Rightarrow> bytes"
  sc_aes256_encrypt_block :: "bytes \<Rightarrow> bytes \<Rightarrow> bytes"

abbreviation MAX_MESSAGES_BEFORE_RATCHET :: u64 where "MAX_MESSAGES_BEFORE_RATCHET \<equiv> 100"
abbreviation MAX_SKIPPED_KEYS :: nat where "MAX_SKIPPED_KEYS \<equiv> 100"
abbreviation SESSION_SERIALIZED_SIZE :: nat where "SESSION_SERIALIZED_SIZE \<equiv> 225"
abbreviation HEAPLESS_VEC_CAPACITY :: nat where "HEAPLESS_VEC_CAPACITY \<equiv> 256"
abbreviation HASHER_DATA_CAPACITY :: nat where "HASHER_DATA_CAPACITY \<equiv> 512"

definition SESSION_HINT_INFO :: bytes where "SESSION_HINT_INFO = ascii ''session-hint-v1''"
definition ROOT_KEY_INFO :: bytes where "ROOT_KEY_INFO = ascii ''lunarpunk-root-key-v2''"
definition CHAIN_KEY_INFO :: bytes where "CHAIN_KEY_INFO = ascii ''lunarpunk-chain-key-v2''"
definition MESSAGE_KEY_INFO :: bytes where "MESSAGE_KEY_INFO = ascii ''lunarpunk-message-key-v2''"

record skipped_key_entry =
  sk_key_prefix :: bytes
  sk_message_num :: u64
  sk_message_key :: bytes
  sk_occupied :: bool

record skipped_keys_map =
  sm_entries :: "skipped_key_entry list"
  sm_count :: nat

datatype session_error =
    SESSION_ERROR_NONE
  | SESSION_ERROR_NOT_ESTABLISHED
  | SESSION_ERROR_INVALID_FORMAT
  | SESSION_ERROR_DECRYPTION_FAILED
  | SESSION_ERROR_OLD_CHAIN
  | SESSION_ERROR_TOO_MANY_SKIPPED
  | SESSION_ERROR_KEY_DERIVATION_FAILED

record message_header =
  mh_dh_public :: bytes
  mh_prev_chain_len :: u64
  mh_message_num :: u64

record session =
  se_root_key :: bytes
  se_send_chain_key :: bytes
  se_recv_chain_key :: bytes
  se_send_ratchet_private :: bytes
  se_send_ratchet_public :: bytes
  se_recv_ratchet_public :: bytes
  se_send_count :: u64
  se_recv_count :: u64
  se_prev_recv_chain :: u64
  se_last_ratchet_time :: u64
  se_skipped_keys :: skipped_keys_map
  se_established :: bool

record session_params =
  sp_shared_secret :: bytes
  sp_our_private :: bytes
  sp_their_public :: bytes
  sp_is_initiator :: bool

section \<open>Vectors and skipped keys\<close>

definition heapless_vec_init :: "vec \<Rightarrow> vec" where
  "heapless_vec_init v = v\<lparr>vlen := 0\<rparr>"

definition heapless_vec_extend_from_slice :: "vec \<Rightarrow> bytes \<Rightarrow> bool \<times> vec" where
  "heapless_vec_extend_from_slice v xs =
     (if vlen v + length xs > HEAPLESS_VEC_CAPACITY then (False, v)
      else (True, v\<lparr>vdata := memcpy (vdata v) (vlen v) xs, vlen := vlen v + length xs\<rparr>))"

definition skipped_keys_map_init :: skipped_keys_map where
  "skipped_keys_map_init = \<lparr>sm_entries = replicate MAX_SKIPPED_KEYS
     \<lparr>sk_key_prefix = zeros 8, sk_message_num = 0, sk_message_key = zeros 32, sk_occupied = False\<rparr>, sm_count = 0\<rparr>"

definition skipped_keys_map_insert :: "skipped_keys_map \<Rightarrow> bytes \<Rightarrow> u64 \<Rightarrow> bytes \<Rightarrow> bool \<times> skipped_keys_map" where
  "skipped_keys_map_insert m key_prefix message_num message_key =
     (case find_index (\<lambda>e. \<not> sk_occupied e) (sm_entries m) of
        Some i \<Rightarrow> (True, m\<lparr>sm_entries := (sm_entries m)[i := \<lparr>sk_key_prefix = key_prefix, sk_message_num = message_num,
                     sk_message_key = message_key, sk_occupied = True\<rparr>], sm_count := sm_count m + 1\<rparr>)
      | None \<Rightarrow> (False, m))"

definition skipped_keys_map_remove :: "skipped_keys_map \<Rightarrow> bytes \<Rightarrow> u64 \<Rightarrow> bytes option \<times> skipped_keys_map" where
  "skipped_keys_map_remove m key_prefix message_num =
     (case find_index (\<lambda>e. sk_occupied e \<and> sk_key_prefix e = key_prefix \<and> sk_message_num e = message_num) (sm_entries m) of
        Some i \<Rightarrow> (Some (sk_message_key (sm_entries m ! i)),
                   m\<lparr>sm_entries := (sm_entries m)[i := (sm_entries m ! i)\<lparr>sk_occupied := False\<rparr>], sm_count := sm_count m - 1\<rparr>)
      | None \<Rightarrow> (None, m))"

section \<open>Headers, keys and tags\<close>

definition message_header_encode :: "message_header \<Rightarrow> bytes" where
  "message_header_encode h = mh_dh_public h @ le_bytes 8 (mh_prev_chain_len h) @ le_bytes 8 (mh_message_num h)"

definition message_header_decode :: "bytes \<Rightarrow> (unit, message_header) cresult" where
  "message_header_decode d =
     (if length d < 48 then Err ()
      else read_n d 0 32 (\<lambda>dh. read_n d 32 8 (\<lambda>prev. read_n d 40 8 (\<lambda>num.
        Ok \<lparr>mh_dh_public = dh, mh_prev_chain_len = le_word prev, mh_message_num = le_word num\<rparr>))))"

text \<open>A call of \<^verbatim>\<open>hkdf_derive\<close> for \<open>n\<close> output bytes.\<close>

definition kdf :: "bytes \<Rightarrow> bytes \<Rightarrow> bytes \<Rightarrow> nat \<Rightarrow> bytes" where
  "kdf a b info n = (case hkdf_derive a b info (zeros n) of Some k \<Rightarrow> k | None \<Rightarrow> [])"

text \<open>\<open>None\<close>: the copies run past the 512 bytes of \<^verbatim>\<open>hasher_data\<close>.\<close>

definition compute_tag :: "bytes \<Rightarrow> bytes \<Rightarrow> bytes \<Rightarrow> bytes option" where
  "compute_tag key header ciphertext =
     (let inner = map (\<lambda>i. if i < 32 then 0x36 XOR key ! i else 0x36) [0..<64];
          outer = map (\<lambda>i. if i < 32 then 0x5c XOR key ! i else 0x5c) [0..<64]
      in if 64 + length header + length ciphertext > HASHER_DATA_CAPACITY then None
         else let inner_hash = sha256_hash (inner @ header @ ciphertext);
                  full_tag = sha256_hash (outer @ inner_hash)
              in Some (slice full_tag 0 16))"

text \<open>The in-place counter mode of \<^verbatim>\<open>session_encrypt\<close> and \<^verbatim>\<open>session_decrypt\<close>.\<close>

function ctr_loop :: "(bytes \<Rightarrow> bytes) \<Rightarrow> bytes \<Rightarrow> bytes \<Rightarrow> nat \<Rightarrow> nat \<Rightarrow> u64 \<Rightarrow> bytes" where
  "ctr_loop encrypt_block nonce d len i block_counter =
     (if i < len then
        let chunk_size = (if len - i < 16 then len - i else 16);
            keystream = encrypt_block (slice nonce 0 8 @ le_bytes 8 block_counter)
        in ctr_loop encrypt_block nonce (memcpy d i (map (\<lambda>j. d ! (i + j) XOR keystream ! j) [0..<chunk_size]))
             len (i + 16) (block_counter + 1)
      else d)"
  by pat_completeness auto
termination
  by (relation "measure (\<lambda>(e, nonce, d, len, i, c). len - i)") auto

declare ctr_loop.simps [simp del]

section \<open>Ratchets\<close>

definition should_ratchet :: "session \<Rightarrow> bool" where
  "should_ratchet s = (se_send_count s \<ge> MAX_MESSAGES_BEFORE_RATCHET)"

definition clamp :: "bytes \<Rightarrow> bytes" where
  "clamp r = (let r = r[0 := r ! 0 AND 248]; r = r[31 := r ! 31 AND 127] in r[31 := r ! 31 OR 64])"

definition advance_send_ratchet :: "session_crypto \<Rightarrow> bytes \<Rightarrow> session \<Rightarrow> session" where
  "advance_send_ratchet cr rnd s =
     (let new_private = clamp rnd;
          new_public = sc_x25519_base cr new_private;
          dh_output = sc_x25519 cr new_private (se_recv_ratchet_public s);
          kdf_input = se_root_key s @ dh_output
      in s\<lparr>se_root_key := kdf kdf_input (ascii ''root'') ROOT_KEY_INFO 32,
           se_send_chain_key := kdf kdf_input (ascii ''chain'') CHAIN_KEY_INFO 32,
           se_send_ratchet_private := new_private, se_send_ratchet_public := new_public,
           se_prev_recv_chain := se_recv_count s, se_send_count := 0\<rparr>)"

definition advance_recv_ratchet :: "session_crypto \<Rightarrow> session \<Rightarrow> bytes \<Rightarrow> session_error \<times> session" where
  "advance_recv_ratchet cr s their_new_public =
     (let dh_output = sc_x25519 cr (se_send_ratchet_private s) their_new_public;
          kdf_input = se_root_key s @ dh_output
      in (SESSION_ERROR_NONE,
          s\<lparr>se_root_key := kdf kdf_input (ascii ''root'') ROOT_KEY_INFO 32,
            se_recv_chain_key := kdf kdf_input (ascii ''chain'') CHAIN_KEY_INFO 32,
            se_recv_ratchet_public := their_new_public, se_recv_count := 0\<rparr>))"

definition message_key_of :: "bytes \<Rightarrow> u64 \<Rightarrow> bytes" where
  "message_key_of chain_key num = kdf chain_key (le_bytes 8 num) MESSAGE_KEY_INFO 32"

definition next_chain :: "bytes \<Rightarrow> bytes" where
  "next_chain chain_key = kdf chain_key (ascii ''chain-advance'') CHAIN_KEY_INFO 32"

function skip_loop :: "session \<Rightarrow> u64 \<Rightarrow> session" where
  "skip_loop s until =
     (if se_recv_count s < until then
        let message_key = message_key_of (se_recv_chain_key s) (se_recv_count s);
            key_prefix = slice (se_recv_ratchet_public s) 0 8;
            s = s\<lparr>se_skipped_keys := snd (skipped_keys_map_insert (se_skipped_keys s) key_prefix (se_recv_count s) message_key)\<rparr>;
            s = s\<lparr>se_recv_chain_key := next_chain (se_recv_chain_key s)\<rparr>
        in skip_loop (s\<lparr>se_recv_count := se_recv_count s + 1\<rparr>) until
      else s)"
  by pat_completeness auto
termination
proof (relation "measure (\<lambda>(s, until). unat until - unat (se_recv_count s))", goal_cases)
  case 1
  show ?case by simp
next
  case (2 s until)
  then have "unat (se_recv_count s) < unat until" by (simp add: word_less_nat_alt)
  moreover have "unat (se_recv_count s + 1) = unat (se_recv_count s) + 1" using 2(1) by (rule unat_plus_one)
  ultimately show ?case using 2 by simp
qed

declare skip_loop.simps [simp del]

definition skip_message_keys :: "session \<Rightarrow> u64 \<Rightarrow> session_error \<times> session" where
  "skip_message_keys s until =
     (let to_skip = (if until > se_recv_count s then until - se_recv_count s else 0)
      in if unat to_skip > MAX_SKIPPED_KEYS then (SESSION_ERROR_TOO_MANY_SKIPPED, s)
         else (SESSION_ERROR_NONE, skip_loop s until))"

text \<open>The result, the new session and the key (with which the message is to be decrypted).\<close>

definition get_message_key :: "session \<Rightarrow> message_header \<Rightarrow> session_error \<times> session \<times> bytes" where
  "get_message_key s header =
     (let key_prefix = slice (mh_dh_public header) 0 8;
          (stored, skipped) = skipped_keys_map_remove (se_skipped_keys s) key_prefix (mh_message_num header);
          s = s\<lparr>se_skipped_keys := skipped\<rparr>
      in case stored of
           Some message_key \<Rightarrow> (SESSION_ERROR_NONE, s, message_key)
         | None \<Rightarrow>
             let (err, s) = (if mh_message_num header > se_recv_count s then skip_message_keys s (mh_message_num header)
                             else (SESSION_ERROR_NONE, s))
             in if err \<noteq> SESSION_ERROR_NONE then (err, s, [])
                else let message_key = message_key_of (se_recv_chain_key s) (mh_message_num header);
                         s = s\<lparr>se_recv_chain_key := next_chain (se_recv_chain_key s)\<rparr>
                     in (SESSION_ERROR_NONE, s\<lparr>se_recv_count := mh_message_num header + 1\<rparr>, message_key))"

section \<open>Sessions\<close>

definition session_new :: "session_crypto \<Rightarrow> session_params \<Rightarrow> session" where
  "session_new cr params =
     (let salt = (if sp_is_initiator params then ascii ''initiator-salt-v1'' else ascii ''responder-salt-v1'');
          root_key = kdf (sp_shared_secret params) salt ROOT_KEY_INFO 32;
          dh_output = sc_x25519 cr (sp_our_private params) (sp_their_public params);
          kdf_input = root_key @ dh_output;
          (send_salt, recv_salt) = (if sp_is_initiator params then (ascii ''send'', ascii ''recv'') else (ascii ''recv'', ascii ''send''))
      in \<lparr>se_root_key = root_key,
          se_send_chain_key = kdf kdf_input send_salt CHAIN_KEY_INFO 32,
          se_recv_chain_key = kdf kdf_input recv_salt CHAIN_KEY_INFO 32,
          se_send_ratchet_private = sp_our_private params,
          se_send_ratchet_public = sc_x25519_base cr (sp_our_private params),
          se_recv_ratchet_public = sp_their_public params,
          se_send_count = 0, se_recv_count = 0, se_prev_recv_chain = 0, se_last_ratchet_time = 0,
          se_skipped_keys = skipped_keys_map_init, se_established = True\<rparr>)"

definition session_uninitialized :: session where
  "session_uninitialized = \<lparr>se_root_key = zeros 32, se_send_chain_key = zeros 32, se_recv_chain_key = zeros 32,
     se_send_ratchet_private = zeros 32, se_send_ratchet_public = zeros 32, se_recv_ratchet_public = zeros 32,
     se_send_count = 0, se_recv_count = 0, se_prev_recv_chain = 0, se_last_ratchet_time = 0,
     se_skipped_keys = skipped_keys_map_init, se_established = False\<rparr>"

definition session_is_established :: "session \<Rightarrow> bool" where
  "session_is_established s = se_established s"

text \<open>The result code, the session, the header and the ciphertext vector; \<open>None\<close> would be a write past
  \<^verbatim>\<open>hasher_data\<close>. \<open>header\<close> and \<open>out\<close> are the caller's objects before the call.\<close>

definition session_encrypt :: "session_crypto \<Rightarrow> bytes \<Rightarrow> session \<Rightarrow> bytes \<Rightarrow> message_header \<Rightarrow> vec
    \<Rightarrow> (session_error \<times> session \<times> message_header \<times> vec) option" where
  "session_encrypt cr rnd s plaintext header out =
     (if \<not> se_established s then Some (SESSION_ERROR_NOT_ESTABLISHED, s, header, out) else
      let message_key = message_key_of (se_send_chain_key s) (se_send_count s);
          s = s\<lparr>se_send_chain_key := next_chain (se_send_chain_key s)\<rparr>;
          header = \<lparr>mh_dh_public = se_send_ratchet_public s, mh_prev_chain_len = se_prev_recv_chain s,
            mh_message_num = se_send_count s\<rparr>;
          nonce = le_bytes 8 (se_send_count s) @ zeros 8;
          (ok, out) = heapless_vec_extend_from_slice (heapless_vec_init out) plaintext
      in if \<not> ok then Some (SESSION_ERROR_INVALID_FORMAT, s, header, out) else
      let out = out\<lparr>vdata := ctr_loop (sc_aes256_encrypt_block cr message_key) nonce (vdata out) (vlen out) 0 0\<rparr>
      in case compute_tag message_key (message_header_encode header) (slice (vdata out) 0 (vlen out)) of
           None \<Rightarrow> None
         | Some tag \<Rightarrow>
             let (ok, out) = heapless_vec_extend_from_slice out tag
             in if \<not> ok then Some (SESSION_ERROR_INVALID_FORMAT, s, header, out) else
             let s = s\<lparr>se_send_count := se_send_count s + 1\<rparr>;
                 s = (if should_ratchet s then advance_send_ratchet cr rnd s else s)
             in Some (SESSION_ERROR_NONE, s, header, out))"

definition session_decrypt :: "session_crypto \<Rightarrow> session \<Rightarrow> message_header \<Rightarrow> bytes \<Rightarrow> vec
    \<Rightarrow> (session_error \<times> session \<times> vec) option" where
  "session_decrypt cr s header ciphertext out =
     (if \<not> se_established s then Some (SESSION_ERROR_NOT_ESTABLISHED, s, out) else
      if length ciphertext < 16 then Some (SESSION_ERROR_INVALID_FORMAT, s, out) else
      let (err, s) =
        (if mh_dh_public header \<noteq> se_recv_ratchet_public s then
           let (err, s) = skip_message_keys s (mh_prev_chain_len header)
           in if err \<noteq> SESSION_ERROR_NONE then (err, s) else advance_recv_ratchet cr s (mh_dh_public header)
         else (SESSION_ERROR_NONE, s))
      in if err \<noteq> SESSION_ERROR_NONE then Some (err, s, out) else
      let (err, s, message_key) = get_message_key s header
      in if err \<noteq> SESSION_ERROR_NONE then Some (err, s, out) else
      let tag_start = length ciphertext - 16;
          received_tag = slice ciphertext tag_start 16;
          ct_without_tag = slice ciphertext 0 tag_start
      in case compute_tag message_key (message_header_encode header) ct_without_tag of
           None \<Rightarrow> None
         | Some expected_tag \<Rightarrow>
             if \<not> ct_diff 16 received_tag expected_tag = 0 then Some (SESSION_ERROR_DECRYPTION_FAILED, s, out) else
             let (ok, out) = heapless_vec_extend_from_slice (heapless_vec_init out) ct_without_tag
             in if \<not> ok then Some (SESSION_ERROR_INVALID_FORMAT, s, out) else
             let nonce = le_bytes 8 (mh_message_num header) @ zeros 8
             in Some (SESSION_ERROR_NONE, s,
                  out\<lparr>vdata := ctr_loop (sc_aes256_encrypt_block cr message_key) nonce (vdata out) (vlen out) 0 0\<rparr>))"

definition session_derive_session_hint :: "session \<Rightarrow> u64 \<Rightarrow> bytes" where
  "session_derive_session_hint s epoch = kdf (se_root_key s @ le_bytes 8 epoch) (ascii ''hint'') SESSION_HINT_INFO 4"

definition session_serialize :: "session \<Rightarrow> bytes" where
  "session_serialize s = se_root_key s @ se_send_chain_key s @ se_recv_chain_key s @ se_send_ratchet_private s
     @ se_send_ratchet_public s @ se_recv_ratchet_public s @ le_bytes 8 (se_send_count s) @ le_bytes 8 (se_recv_count s)
     @ le_bytes 8 (se_prev_recv_chain s) @ le_bytes 8 (se_last_ratchet_time s) @ [if se_established s then 1 else 0]"

definition session_deserialize :: "bytes \<Rightarrow> (unit, session) cresult" where
  "session_deserialize d =
     (if length d < SESSION_SERIALIZED_SIZE then Err () else
      read_n d 0 32 (\<lambda>root. read_n d 32 32 (\<lambda>send_chain. read_n d 64 32 (\<lambda>recv_chain. read_n d 96 32 (\<lambda>priv.
      read_n d 128 32 (\<lambda>pub. read_n d 160 32 (\<lambda>recv_pub. read_n d 192 8 (\<lambda>send_count. read_n d 200 8 (\<lambda>recv_count.
      read_n d 208 8 (\<lambda>prev_recv_chain. read_n d 216 8 (\<lambda>last_ratchet_time. read_n d 224 1 (\<lambda>est.
      Ok \<lparr>se_root_key = root, se_send_chain_key = send_chain, se_recv_chain_key = recv_chain, se_send_ratchet_private = priv,
          se_send_ratchet_public = pub, se_recv_ratchet_public = recv_pub, se_send_count = le_word send_count,
          se_recv_count = le_word recv_count, se_prev_recv_chain = le_word prev_recv_chain,
          se_last_ratchet_time = le_word last_ratchet_time, se_skipped_keys = skipped_keys_map_init,
          se_established = (est ! 0 \<noteq> 0)\<rparr>))))))))))))"

section \<open>Facts about one message\<close>

lemma length_skipped_init [simp]: "length (sm_entries skipped_keys_map_init) = MAX_SKIPPED_KEYS"
  by (simp add: skipped_keys_map_init_def)

lemma length_kdf [simp]: "n \<le> 8160 \<Longrightarrow> length (kdf a b info n) = n"
  by (simp add: kdf_def hkdf_derive_spec)

lemma compute_tag_Some:
  assumes "length header + length ciphertext \<le> 448"
  obtains tag where "compute_tag key header ciphertext = Some tag" "length tag = 16"
  using assms by (simp add: compute_tag_def Let_def)

lemma header_roundtrip: "length (mh_dh_public h) = 32 \<Longrightarrow> message_header_decode (message_header_encode h) = Ok h"
  by (simp add: message_header_decode_def message_header_encode_def read_n_def)

lemma ctr_loop_eq:
  "ctr_loop e nonce d len i c = xor_stream 16 (\<lambda>c. e (slice nonce 0 8 @ le_bytes 8 c)) (\<lambda>c. c + 1) d len i c"
proof (induction e nonce d len i c rule: ctr_loop.induct)
  case (1 e nonce d len i c)
  show ?case
  proof (cases "i < len")
    case True
    with 1 show ?thesis by (subst ctr_loop.simps, subst xor_stream.simps) (simp add: Let_def)
  next
    case False
    then show ?thesis by (subst ctr_loop.simps, subst xor_stream.simps) simp
  qed
qed

definition ctr_crypt :: "(bytes \<Rightarrow> bytes) \<Rightarrow> u64 \<Rightarrow> bytes \<Rightarrow> bytes" where
  "ctr_crypt e num xs = xor_stream 16 (\<lambda>c. e (le_bytes 8 num @ le_bytes 8 c)) (\<lambda>c. c + 1) xs (length xs) 0 (0 :: u64)"

lemma ctr_crypt_twice [simp]: "ctr_crypt e num (ctr_crypt e num xs) = xs" "length (ctr_crypt e num xs) = length xs"
  by (simp_all add: ctr_crypt_def xor_stream_twice)

text \<open>Filling a vector and encrypting it in place.\<close>

lemma fill_crypt:
  fixes e :: "bytes \<Rightarrow> bytes" and num :: u64
  assumes "vec_wf 256 v" "length xs \<le> 256"
  defines "w \<equiv> v\<lparr>vlen := length xs, vdata := ctr_loop e (le_bytes 8 num @ zeros 8) (memcpy (vdata v) 0 xs) (length xs) 0 0\<rparr>"
  shows "vec_wf 256 w" "vec_bytes w = ctr_crypt e num xs" "take (vlen w) (vdata w) = ctr_crypt e num xs"
proof -
  have len: "length (memcpy (vdata v) 0 xs) = 256" "take (length xs) (memcpy (vdata v) 0 xs) = xs"
    using assms(1,2) by (simp_all add: vec_wf_def memcpy_def)
  have "slice (le_bytes 8 num @ zeros 8) 0 8 = le_bytes 8 num" by simp
  with len have t: "take (length xs) (vdata w) = ctr_crypt e num xs"
    using assms(2) by (simp add: w_def ctr_loop_eq ctr_crypt_def take_xor_stream)
  with assms(2) len show "vec_wf 256 w" "vec_bytes w = ctr_crypt e num xs" "take (vlen w) (vdata w) = ctr_crypt e num xs"
    by (simp_all add: w_def vec_wf_def vec_bytes_def ctr_loop_eq)
qed

definition message_of :: "session_crypto \<Rightarrow> bytes \<Rightarrow> message_header \<Rightarrow> bytes \<Rightarrow> bytes" where
  "message_of cr key h pt =
     (let c = ctr_crypt (sc_aes256_encrypt_block cr key) (mh_message_num h) pt in c @ the (compute_tag key (message_header_encode h) c))"

definition sent_header :: "session \<Rightarrow> message_header" where
  "sent_header s = \<lparr>mh_dh_public = se_send_ratchet_public s, mh_prev_chain_len = se_prev_recv_chain s, mh_message_num = se_send_count s\<rparr>"

definition after_send :: "session_crypto \<Rightarrow> bytes \<Rightarrow> session \<Rightarrow> session" where
  "after_send cr rnd s =
     (let s = s\<lparr>se_send_chain_key := next_chain (se_send_chain_key s), se_send_count := se_send_count s + 1\<rparr>
      in if should_ratchet s then advance_send_ratchet cr rnd s else s)"

text \<open>Sending succeeds up to 240 bytes; above that the call fails after the chain has been advanced.\<close>

lemma encrypt_short:
  assumes "se_established s" "vec_wf 256 out" "length pt \<le> 240" "length (se_send_ratchet_public s) = 32"
  obtains w where "session_encrypt cr rnd s pt hdr out = Some (SESSION_ERROR_NONE, after_send cr rnd s, sent_header s, w)"
    "vec_wf 256 w" "vec_bytes w = message_of cr (message_key_of (se_send_chain_key s) (se_send_count s)) (sent_header s) pt"
proof -
  let ?key = "message_key_of (se_send_chain_key s) (se_send_count s)" and ?h = "sent_header s"
  let ?e = "sc_aes256_encrypt_block cr ?key"
  let ?w = "out\<lparr>vlen := length pt, vdata := ctr_loop ?e (le_bytes 8 (se_send_count s) @ zeros 8) (memcpy (vdata out) 0 pt) (length pt) 0 0\<rparr>"
  have p: "length pt \<le> 256" using assms(3) by simp
  note f = fill_crypt [OF assms(2) p, of ?e "se_send_count s"]
  have "length (message_header_encode ?h) = 48" using assms(4) by (simp add: message_header_encode_def sent_header_def)
  then have "length (message_header_encode ?h) + length (ctr_crypt ?e (se_send_count s) pt) \<le> 448" using assms(3) by simp
  then obtain tag where tag: "compute_tag ?key (message_header_encode ?h) (ctr_crypt ?e (se_send_count s) pt) = Some tag" "length tag = 16"
    by (rule compute_tag_Some)
  let ?r = "?w\<lparr>vdata := memcpy (vdata ?w) (vlen ?w) tag, vlen := vlen ?w + length tag\<rparr>"
  have wl: "vlen ?w + length tag \<le> 256" using assms(3) tag(2) by simp
  have ext: "heapless_vec_extend_from_slice ?w tag = (True, ?r)" using wl by (simp add: heapless_vec_extend_from_slice_def)
  have "session_encrypt cr rnd s pt hdr out = Some (SESSION_ERROR_NONE, after_send cr rnd s, ?h, ?r)"
    using assms(1) p f(3) tag ext
    by (simp add: session_encrypt_def heapless_vec_init_def heapless_vec_extend_from_slice_def [of "out\<lparr>vlen := 0\<rparr>"] slice_0_take
        sent_header_def after_send_def Let_def)
  moreover have "vec_wf 256 ?r" by (rule vec_append_wf [OF f(1) wl])
  moreover have "vec_bytes ?r = message_of cr ?key ?h pt"
    unfolding vec_append_bytes [OF f(1) wl] f(2) using tag by (simp add: message_of_def Let_def sent_header_def)
  ultimately show ?thesis by (rule that)
qed

lemma encrypt_long:
  assumes "se_established s" "vec_wf 256 out" "240 < length pt" "length (se_send_ratchet_public s) = 32"
  shows "\<exists>w. session_encrypt cr rnd s pt hdr out
    = Some (SESSION_ERROR_INVALID_FORMAT, s\<lparr>se_send_chain_key := next_chain (se_send_chain_key s)\<rparr>, sent_header s, w)"
proof (cases "length pt \<le> 256")
  case False
  then show ?thesis using assms(1)
    by (simp add: session_encrypt_def heapless_vec_init_def heapless_vec_extend_from_slice_def Let_def sent_header_def)
next
  case True
  let ?key = "message_key_of (se_send_chain_key s) (se_send_count s)" and ?h = "sent_header s"
  let ?e = "sc_aes256_encrypt_block cr ?key"
  note f = fill_crypt [OF assms(2) True, of ?e "se_send_count s"]
  have "length (message_header_encode ?h) + length (ctr_crypt ?e (se_send_count s) pt) \<le> 448"
    using assms(4) True by (simp add: message_header_encode_def sent_header_def)
  then obtain tag where "compute_tag ?key (message_header_encode ?h) (ctr_crypt ?e (se_send_count s) pt) = Some tag" "length tag = 16"
    by (rule compute_tag_Some)
  then show ?thesis using assms(1,3) True f(3)
    by (simp add: session_encrypt_def heapless_vec_init_def heapless_vec_extend_from_slice_def slice_0_take sent_header_def Let_def)
qed

text \<open>Receiving: the ratchet phase, the key, and the message.\<close>

definition catch_up :: "session_crypto \<Rightarrow> bytes \<Rightarrow> session \<Rightarrow> session" where
  "catch_up cr pub s = (if pub \<noteq> se_recv_ratchet_public s then snd (advance_recv_ratchet cr s pub) else s)"

definition no_skipped :: "session \<Rightarrow> bool" where
  "no_skipped s \<longleftrightarrow> (\<forall>e\<in>set (sm_entries (se_skipped_keys s)). \<not> sk_occupied e)"

lemma skip_nothing: "until \<le> se_recv_count s \<Longrightarrow> skip_message_keys s until = (SESSION_ERROR_NONE, s)"
  by (auto simp: skip_message_keys_def skip_loop.simps dest: leD)

lemma take_key_in_order:
  assumes "no_skipped s" "mh_message_num h = se_recv_count s"
  shows "get_message_key s h = (SESSION_ERROR_NONE,
     s\<lparr>se_recv_chain_key := next_chain (se_recv_chain_key s), se_recv_count := se_recv_count s + 1\<rparr>,
     message_key_of (se_recv_chain_key s) (se_recv_count s))"
proof -
  have "find_index (\<lambda>e. sk_occupied e \<and> sk_key_prefix e = p \<and> sk_message_num e = n) (sm_entries (se_skipped_keys s)) = None" for p n
    using assms(1) by (auto simp: find_index_None_iff no_skipped_def)
  then show ?thesis using assms(2) by (simp add: get_message_key_def skipped_keys_map_remove_def)
qed

lemma decrypt_message:
  assumes "se_established s" "mh_prev_chain_len h \<le> se_recv_count s \<or> mh_dh_public h = se_recv_ratchet_public s"
    and key: "get_message_key (catch_up cr (mh_dh_public h) s) h = (SESSION_ERROR_NONE, s', key)"
    and len: "length pt \<le> 240" "length (mh_dh_public h) = 32" and out: "vec_wf 256 out"
  obtains w where "session_decrypt cr s h (message_of cr key h pt) out = Some (SESSION_ERROR_NONE, s', w)" "vec_bytes w = pt"
proof -
  let ?e = "sc_aes256_encrypt_block cr key"
  let ?c = "ctr_crypt ?e (mh_message_num h) pt"
  have "length (message_header_encode h) + length ?c \<le> 448" using len by (simp add: message_header_encode_def)
  then obtain tag where tag: "compute_tag key (message_header_encode h) ?c = Some tag" "length tag = 16" by (rule compute_tag_Some)
  have m: "message_of cr key h pt = ?c @ tag" by (simp add: message_of_def Let_def tag)
  have sl: "slice (?c @ tag) (length pt) 16 = tag" "slice (?c @ tag) 0 (length pt) = ?c"
    using tag(2) by (simp_all add: slice_def)
  have ct: "ct_diff 16 tag tag = 0" by (simp add: ct_diff_0_iff)
  have phase: "(if mh_dh_public h \<noteq> se_recv_ratchet_public s then
      let (err, s) = skip_message_keys s (mh_prev_chain_len h)
      in if err \<noteq> SESSION_ERROR_NONE then (err, s) else advance_recv_ratchet cr s (mh_dh_public h)
      else (SESSION_ERROR_NONE, s)) = (SESSION_ERROR_NONE, catch_up cr (mh_dh_public h) s)"
    using assms(2) by (auto simp: skip_nothing catch_up_def advance_recv_ratchet_def Let_def)
  let ?w = "out\<lparr>vlen := length ?c, vdata := ctr_loop ?e (le_bytes 8 (mh_message_num h) @ zeros 8) (memcpy (vdata out) 0 ?c) (length ?c) 0 0\<rparr>"
  have "session_decrypt cr s h (message_of cr key h pt) out = Some (SESSION_ERROR_NONE, s', ?w)"
    using assms(1) len(1) tag key
    unfolding session_decrypt_def phase m
    by (simp add: sl ct heapless_vec_init_def heapless_vec_extend_from_slice_def)
  moreover have "vec_bytes ?w = pt" using fill_crypt(2) [OF out, of ?c ?e] len(1) by simp
  ultimately show ?thesis by (rule that)
qed

text \<open>The two roles derive their chains from differently salted root keys: the initiator's sending chain and the
  responder's receiving chain agree only where HKDF maps both inputs to the same key.\<close>

lemma session_role_chains:
  "sp_is_initiator p \<Longrightarrow> se_send_chain_key (session_new cr p)
     = kdf (kdf (sp_shared_secret p) (ascii ''initiator-salt-v1'') ROOT_KEY_INFO 32 @ sc_x25519 cr (sp_our_private p) (sp_their_public p))
         (ascii ''send'') CHAIN_KEY_INFO 32"
  "\<not> sp_is_initiator q \<Longrightarrow> se_recv_chain_key (session_new cr q)
     = kdf (kdf (sp_shared_secret q) (ascii ''responder-salt-v1'') ROOT_KEY_INFO 32 @ sc_x25519 cr (sp_our_private q) (sp_their_public q))
         (ascii ''send'') CHAIN_KEY_INFO 32"
  by (simp_all add: session_new_def Let_def)

text \<open>Array sizes of the session's keys.\<close>

definition session_wf :: "session \<Rightarrow> bool" where
  "session_wf s \<longleftrightarrow> length (se_root_key s) = 32 \<and> length (se_send_chain_key s) = 32 \<and> length (se_recv_chain_key s) = 32
     \<and> length (se_send_ratchet_private s) = 32 \<and> length (se_send_ratchet_public s) = 32 \<and> length (se_recv_ratchet_public s) = 32
     \<and> length (sm_entries (se_skipped_keys s)) = MAX_SKIPPED_KEYS"

lemma session_read_back:
  assumes "session_wf s"
  shows "length (session_serialize s) = SESSION_SERIALIZED_SIZE"
    "session_deserialize (session_serialize s) = Ok (s\<lparr>se_skipped_keys := skipped_keys_map_init\<rparr>)"
  using assms by (auto simp: session_wf_def session_serialize_def session_deserialize_def read_n_def)

section \<open>The tag\<close>

lemma compute_tag_hmac:
  assumes "length key = 32" "length header + length c \<le> 448"
  shows "compute_tag key header c = Some (take 16 (hmac_spec key (header @ c)))"
proof -
  have "map (\<lambda>i. if i < 32 then x XOR key ! i else x) [0..<64] = map (\<lambda>b. b XOR x) (hmac_pad_key key)" for x :: byte
    using assms(1) by (intro nth_equalityI) (auto simp: hmac_pad_key_def nth_append zeros_def xor.commute)
  then show ?thesis using assms(2) by (simp add: compute_tag_def hmac_spec_def sha256_hash_spec slice_0_take Let_def)
qed

text \<open>What a receiver that holds \<open>key\<close> does with a ciphertext and a tag.\<close>

lemma decrypt_with_key:
  assumes "se_established s" "mh_dh_public h = se_recv_ratchet_public s" "length (mh_dh_public h) = 32"
    and "get_message_key s h = (SESSION_ERROR_NONE, s', key)" "length key = 32"
    and "length c \<le> 240" "length tag = 16" "vec_wf 256 out"
  shows "tag = take 16 (hmac_spec key (message_header_encode h @ c)) \<Longrightarrow>
      \<exists>w. session_decrypt cr s h (c @ tag) out = Some (SESSION_ERROR_NONE, s', w)
        \<and> vec_bytes w = ctr_crypt (sc_aes256_encrypt_block cr key) (mh_message_num h) c"
    "tag \<noteq> take 16 (hmac_spec key (message_header_encode h @ c)) \<Longrightarrow>
      session_decrypt cr s h (c @ tag) out = Some (SESSION_ERROR_DECRYPTION_FAILED, s', out)"
proof -
  let ?e = "sc_aes256_encrypt_block cr key"
  have t: "compute_tag key (message_header_encode h) c = Some (take 16 (hmac_spec key (message_header_encode h @ c)))"
    using assms(3,5,6) by (intro compute_tag_hmac) (simp_all add: message_header_encode_def)
  have sl: "slice (c @ tag) (length c) 16 = tag" "slice (c @ tag) 0 (length c) = c" using assms(7) by (simp_all add: slice_def)
  have eq: "ct_diff 16 tag x = 0 \<longleftrightarrow> tag = x" if "length x = 16" for x using assms(7) that by (simp add: ct_diff_take)
  have l: "length (take 16 (hmac_spec key d)) = 16" for d by (simp add: hmac_spec_def)
  let ?w = "out\<lparr>vlen := length c, vdata := ctr_loop ?e (le_bytes 8 (mh_message_num h) @ zeros 8) (memcpy (vdata out) 0 c) (length c) 0 0\<rparr>"
  have "vec_bytes ?w = ctr_crypt ?e (mh_message_num h) c" using fill_crypt(2) [OF assms(8), of c ?e] assms(6) by simp
  moreover have "session_decrypt cr s h (c @ tag) out =
      (if tag = take 16 (hmac_spec key (message_header_encode h @ c)) then Some (SESSION_ERROR_NONE, s', ?w) else Some (SESSION_ERROR_DECRYPTION_FAILED, s', out))"
    using assms(1,2,4,6,7) t by (simp add: session_decrypt_def sl eq l heapless_vec_init_def heapless_vec_extend_from_slice_def)
  ultimately show "tag = take 16 (hmac_spec key (message_header_encode h @ c)) \<Longrightarrow>
      \<exists>w. session_decrypt cr s h (c @ tag) out = Some (SESSION_ERROR_NONE, s', w)
        \<and> vec_bytes w = ctr_crypt (sc_aes256_encrypt_block cr key) (mh_message_num h) c"
    "tag \<noteq> take 16 (hmac_spec key (message_header_encode h @ c)) \<Longrightarrow>
      session_decrypt cr s h (c @ tag) out = Some (SESSION_ERROR_DECRYPTION_FAILED, s', out)" by simp_all
qed

lemma session_new_fresh:
  "se_established (session_new cr p)" "no_skipped (session_new cr p)" "se_recv_count (session_new cr p) = 0" "se_send_count (session_new cr p) = 0"
  "se_recv_ratchet_public (session_new cr p) = sp_their_public p" "se_send_ratchet_public (session_new cr p) = sc_x25519_base cr (sp_our_private p)"
  "se_prev_recv_chain (session_new cr p) = 0" "length (sm_entries (se_skipped_keys (session_new cr p))) = MAX_SKIPPED_KEYS"
  by (simp_all add: session_new_def Let_def no_skipped_def skipped_keys_map_init_def)

section \<open>Messages out of order\<close>

definition chain_key :: "bytes \<Rightarrow> nat \<Rightarrow> bytes" where
  "chain_key c0 j = (next_chain ^^ j) c0"

text \<open>The receiver within one chain: \<open>d\<close> are the numbers already delivered, and the key of every other number
  below the counter is stored exactly once.\<close>

definition stored_at :: "session \<Rightarrow> nat \<Rightarrow> nat \<Rightarrow> bool" where
  "stored_at s i j \<longleftrightarrow> i < MAX_SKIPPED_KEYS \<and> sk_occupied (sm_entries (se_skipped_keys s) ! i)
     \<and> unat (sk_message_num (sm_entries (se_skipped_keys s) ! i)) = j"

definition recv_inv :: "bytes \<Rightarrow> session \<Rightarrow> nat set \<Rightarrow> bool" where
  "recv_inv c0 s d \<longleftrightarrow> se_recv_chain_key s = chain_key c0 (unat (se_recv_count s))
     \<and> length (sm_entries (se_skipped_keys s)) = MAX_SKIPPED_KEYS \<and> d \<subseteq> {..<unat (se_recv_count s)}
     \<and> (\<forall>i j. stored_at s i j \<longrightarrow> sk_key_prefix (sm_entries (se_skipped_keys s) ! i) = slice (se_recv_ratchet_public s) 0 8
          \<and> j < unat (se_recv_count s) \<and> j \<notin> d
          \<and> sk_message_key (sm_entries (se_skipped_keys s) ! i) = message_key_of (chain_key c0 j) (of_nat j))
     \<and> (\<forall>i i' j. stored_at s i j \<and> stored_at s i' j \<longrightarrow> i = i')
     \<and> (\<forall>j < unat (se_recv_count s). j \<notin> d \<longrightarrow> (\<exists>i. stored_at s i j))"

lemma recv_inv_free_slot:
  assumes "recv_inv c0 s d" "unat (se_recv_count s) < MAX_SKIPPED_KEYS"
  obtains i where "find_index (\<lambda>e. \<not> sk_occupied e) (sm_entries (se_skipped_keys s)) = Some i" "i < MAX_SKIPPED_KEYS"
    "\<not> sk_occupied (sm_entries (se_skipped_keys s) ! i)"
proof (cases "find_index (\<lambda>e. \<not> sk_occupied e) (sm_entries (se_skipped_keys s))")
  case None
  let ?num = "\<lambda>i. unat (sk_message_num (sm_entries (se_skipped_keys s) ! i))"
  have len: "length (sm_entries (se_skipped_keys s)) = MAX_SKIPPED_KEYS" using assms(1) by (simp add: recv_inv_def)
  then have st: "stored_at s i (?num i)" if "i < MAX_SKIPPED_KEYS" for i
    using None that by (simp add: stored_at_def find_index_None_nth)
  have "inj_on ?num {..<MAX_SKIPPED_KEYS}"
    using st assms(1) unfolding recv_inv_def inj_on_def by (metis lessThan_iff)
  moreover have "?num ` {..<MAX_SKIPPED_KEYS} \<subseteq> {..<unat (se_recv_count s)}"
    using st assms(1) unfolding recv_inv_def by auto
  ultimately have "card {..<MAX_SKIPPED_KEYS} \<le> card {..<unat (se_recv_count s)}" by (intro card_inj_on_le) auto
  with assms(2) show ?thesis by simp
next
  case (Some i)
  then show ?thesis using that find_index_SomeD [OF Some] assms(1) by (auto simp: recv_inv_def)
qed

lemma recv_inv_not_stored:
  assumes "recv_inv c0 s d" "j \<in> d \<or> unat (se_recv_count s) \<le> j" "j < 2 ^ 64"
  shows "skipped_keys_map_remove (se_skipped_keys s) p (of_nat j) = (None, se_skipped_keys s)"
proof -
  have len: "length (sm_entries (se_skipped_keys s)) = MAX_SKIPPED_KEYS" using assms(1) by (simp add: recv_inv_def)
  have "\<not> stored_at s i j" for i using assms(1,2) unfolding recv_inv_def by (meson not_le)
  moreover have "unat (of_nat j :: u64) = j" using assms(3) by (simp add: unat_of_nat take_bit_nat_eq_self)
  ultimately have "find_index (\<lambda>e. sk_occupied e \<and> sk_key_prefix e = p \<and> sk_message_num e = of_nat j) (sm_entries (se_skipped_keys s)) = None"
    using len unfolding find_index_None_nth stored_at_def by metis
  then show ?thesis by (simp add: skipped_keys_map_remove_def)
qed

lemma recv_invD:
  assumes "recv_inv c0 s d" "stored_at s i j"
  shows "sk_key_prefix (sm_entries (se_skipped_keys s) ! i) = slice (se_recv_ratchet_public s) 0 8"
    "j < unat (se_recv_count s)" "j \<notin> d"
    "sk_message_key (sm_entries (se_skipped_keys s) ! i) = message_key_of (chain_key c0 j) (of_nat j)"
    "stored_at s i' j \<Longrightarrow> i' = i"
  using assms unfolding recv_inv_def by blast+

lemma recv_inv_store:
  fixes s i
  defines "s' \<equiv> s\<lparr>se_skipped_keys := (se_skipped_keys s)\<lparr>sm_entries := (sm_entries (se_skipped_keys s))[i :=
      \<lparr>sk_key_prefix = slice (se_recv_ratchet_public s) 0 8, sk_message_num = se_recv_count s,
       sk_message_key = message_key_of (se_recv_chain_key s) (se_recv_count s), sk_occupied = True\<rparr>],
      sm_count := sm_count (se_skipped_keys s) + 1\<rparr>,
    se_recv_chain_key := next_chain (se_recv_chain_key s), se_recv_count := se_recv_count s + 1\<rparr>"
  assumes inv: "recv_inv c0 s d" and i: "i < MAX_SKIPPED_KEYS" "\<not> sk_occupied (sm_entries (se_skipped_keys s) ! i)"
    and r: "unat (se_recv_count s + 1) = unat (se_recv_count s) + 1"
  shows "recv_inv c0 s' d"
proof -
  let ?r = "unat (se_recv_count s)"
  have len: "length (sm_entries (se_skipped_keys s)) = MAX_SKIPPED_KEYS" and ck: "se_recv_chain_key s = chain_key c0 ?r"
    and sub: "d \<subseteq> {..<?r}" using inv by (simp_all add: recv_inv_def)
  have at: "stored_at s' k j \<longleftrightarrow> (if k = i then j = ?r else stored_at s k j)" for k j
    using i(1) len by (auto simp: s'_def stored_at_def)
  have r': "unat (se_recv_count s') = ?r + 1" using r by (simp add: s'_def)
  have nth: "sm_entries (se_skipped_keys s') ! k = sm_entries (se_skipped_keys s) ! k" if "k \<noteq> i" for k using that by (simp add: s'_def)
  have free: "\<not> stored_at s i j" for j using i(2) by (simp add: stored_at_def)
  show ?thesis unfolding recv_inv_def
  proof (intro conjI allI impI)
    show "se_recv_chain_key s' = chain_key c0 (unat (se_recv_count s'))" unfolding r' by (simp add: s'_def ck chain_key_def)
    show "length (sm_entries (se_skipped_keys s')) = MAX_SKIPPED_KEYS" by (simp add: s'_def len)
    show "d \<subseteq> {..<unat (se_recv_count s')}" using sub by (auto simp: r')
  next
    fix k j
    assume k: "stored_at s' k j"
    have "sk_key_prefix (sm_entries (se_skipped_keys s') ! k) = slice (se_recv_ratchet_public s) 0 8 \<and> j < ?r + 1 \<and> j \<notin> d
      \<and> sk_message_key (sm_entries (se_skipped_keys s') ! k) = message_key_of (chain_key c0 j) (of_nat j)"
    proof (cases "k = i")
      case True
      then have "j = ?r" using k by (simp add: at)
      moreover have "j \<notin> d" using sub \<open>j = ?r\<close> by auto
      moreover have "sk_key_prefix (sm_entries (se_skipped_keys s') ! i) = slice (se_recv_ratchet_public s) 0 8"
        "sk_message_key (sm_entries (se_skipped_keys s') ! i) = message_key_of (chain_key c0 ?r) (se_recv_count s)"
        using i(1) len by (simp_all add: s'_def ck)
      ultimately show ?thesis using True by simp
    next
      case False
      then have "stored_at s k j" using k by (simp add: at)
      from recv_invD(1-4) [OF inv this] nth [OF False] show ?thesis by simp
    qed
    then show "sk_key_prefix (sm_entries (se_skipped_keys s') ! k) = slice (se_recv_ratchet_public s') 0 8"
      "j < unat (se_recv_count s')" "j \<notin> d"
      "sk_message_key (sm_entries (se_skipped_keys s') ! k) = message_key_of (chain_key c0 j) (of_nat j)"
      unfolding r' by (simp_all add: s'_def)
  next
    fix k k' j
    assume "stored_at s' k j \<and> stored_at s' k' j"
    then show "k = k'" using recv_invD [OF inv, of k j] recv_invD [OF inv, of k' j] by (auto simp: at split: if_splits)
  next
    fix j
    assume "j < unat (se_recv_count s')" "j \<notin> d"
    then consider "j = ?r" | "j < ?r" unfolding r' by linarith
    then show "\<exists>k. stored_at s' k j"
    proof cases
      case 1
      then show ?thesis by (intro exI [of _ i]) (simp add: at)
    next
      case 2
      with \<open>j \<notin> d\<close> inv obtain k where "stored_at s k j" unfolding recv_inv_def by blast
      with free show ?thesis by (intro exI [of _ k]) (auto simp: at)
    qed
  qed
qed

lemma skip_loop_inv:
  assumes "recv_inv c0 s d" "unat (se_recv_count s) \<le> unat until" "unat until < MAX_SKIPPED_KEYS"
  shows "recv_inv c0 (skip_loop s until) d \<and> se_recv_count (skip_loop s until) = until
    \<and> se_recv_ratchet_public (skip_loop s until) = se_recv_ratchet_public s \<and> se_established (skip_loop s until) = se_established s"
  using assms
proof (induction s until rule: skip_loop.induct)
  case (1 s until)
  show ?case
  proof (cases "se_recv_count s < until")
    case False
    then have "se_recv_count s = until" using "1.prems"(2) by (simp add: word_le_nat_alt not_less word_unat_eq_iff)
    moreover have "skip_loop s until = s" using False by (subst skip_loop.simps) simp
    ultimately show ?thesis using "1.prems"(1) by simp
  next
    case True
    let ?r = "unat (se_recv_count s)" and ?es = "sm_entries (se_skipped_keys s)"
    have r: "unat (se_recv_count s + 1) = ?r + 1" using True by (rule unat_plus_one)
    have "?r < MAX_SKIPPED_KEYS" using True "1.prems"(3) by (simp add: word_less_nat_alt)
    from recv_inv_free_slot [OF "1.prems"(1) this] obtain i where i: "find_index (\<lambda>e. \<not> sk_occupied e) ?es = Some i"
      "i < MAX_SKIPPED_KEYS" "\<not> sk_occupied (?es ! i)" by blast
    let ?e = "\<lparr>sk_key_prefix = slice (se_recv_ratchet_public s) 0 8, sk_message_num = se_recv_count s,
      sk_message_key = message_key_of (se_recv_chain_key s) (se_recv_count s), sk_occupied = True\<rparr>"
    let ?s = "s\<lparr>se_skipped_keys := (se_skipped_keys s)\<lparr>sm_entries := ?es[i := ?e], sm_count := sm_count (se_skipped_keys s) + 1\<rparr>,
      se_recv_chain_key := next_chain (se_recv_chain_key s), se_recv_count := se_recv_count s + 1\<rparr>"
    have st: "skip_loop s until = skip_loop ?s until"
      using True by (subst skip_loop.simps) (simp add: Let_def skipped_keys_map_insert_def i(1))
    have "recv_inv c0 ?s d" by (rule recv_inv_store [OF "1.prems"(1) i(2,3) r])
    then show ?thesis
      using "1.IH" [OF True refl refl refl refl] "1.prems"(3) True r unfolding st
      by (simp add: Let_def skipped_keys_map_insert_def i(1) word_less_nat_alt)
  qed
qed

lemma take_stored_key:
  assumes inv: "recv_inv c0 s d" and j: "j < unat (se_recv_count s)" "j \<notin> d"
  obtains i where "stored_at s i j"
    "skipped_keys_map_remove (se_skipped_keys s) (slice (se_recv_ratchet_public s) 0 8) (of_nat j)
       = (Some (message_key_of (chain_key c0 j) (of_nat j)),
          (se_skipped_keys s)\<lparr>sm_entries := (sm_entries (se_skipped_keys s))[i := (sm_entries (se_skipped_keys s) ! i)\<lparr>sk_occupied := False\<rparr>],
            sm_count := sm_count (se_skipped_keys s) - 1\<rparr>)"
proof -
  let ?P = "\<lambda>e. sk_occupied e \<and> sk_key_prefix e = slice (se_recv_ratchet_public s) 0 8 \<and> sk_message_num e = of_nat j"
  have len: "length (sm_entries (se_skipped_keys s)) = MAX_SKIPPED_KEYS" using inv by (simp add: recv_inv_def)
  have "j < 2 ^ 64" using j(1) unat_lt2p [of "se_recv_count s"] by simp
  then have u: "unat (of_nat j :: u64) = j" by (simp add: unat_of_nat take_bit_nat_eq_self)
  from inv j obtain i where i: "stored_at s i j" unfolding recv_inv_def by blast
  have P: "?P (sm_entries (se_skipped_keys s) ! k) \<longleftrightarrow> stored_at s k j" if "k < MAX_SKIPPED_KEYS" for k
    using that recv_invD(1) [OF inv, of k j] u by (auto simp: stored_at_def word_unat_eq_iff)
  have "find_index ?P (sm_entries (se_skipped_keys s)) = Some i"
  proof (rule find_index_SomeI)
    show "i < length (sm_entries (se_skipped_keys s))" using i len by (simp add: stored_at_def)
    with P i len show "?P (sm_entries (se_skipped_keys s) ! i)" by simp
  next
    fix k
    assume "k < i"
    then have "\<not> stored_at s k j" using recv_invD(5) [OF inv i] by auto
    then show "\<not> ?P (sm_entries (se_skipped_keys s) ! k)" using P [of k] \<open>k < i\<close> i by (simp add: stored_at_def)
  qed
  then show ?thesis using that [OF i] recv_invD(4) [OF inv i] by (simp add: skipped_keys_map_remove_def)
qed

lemma recv_inv_take:
  assumes inv: "recv_inv c0 s d" and at: "stored_at s i j"
    and es: "sm_entries (se_skipped_keys s') = (sm_entries (se_skipped_keys s))[i := (sm_entries (se_skipped_keys s) ! i)\<lparr>sk_occupied := False\<rparr>]"
    and same: "se_recv_chain_key s' = se_recv_chain_key s" "se_recv_count s' = se_recv_count s"
      "se_recv_ratchet_public s' = se_recv_ratchet_public s"
  shows "recv_inv c0 s' (insert j d)"
proof -
  have len: "length (sm_entries (se_skipped_keys s)) = MAX_SKIPPED_KEYS" using inv by (simp add: recv_inv_def)
  have i: "i < MAX_SKIPPED_KEYS" using at by (simp add: stored_at_def)
  have at': "stored_at s' k m \<longleftrightarrow> k \<noteq> i \<and> stored_at s k m" for k m
    using i len by (cases "k = i") (simp_all add: stored_at_def es)
  have nth: "sm_entries (se_skipped_keys s') ! k = sm_entries (se_skipped_keys s) ! k" if "k \<noteq> i" for k using that by (simp add: es)
  show ?thesis unfolding recv_inv_def
  proof (intro conjI allI impI)
    show "se_recv_chain_key s' = chain_key c0 (unat (se_recv_count s'))" using inv by (simp add: same recv_inv_def)
    show "length (sm_entries (se_skipped_keys s')) = MAX_SKIPPED_KEYS" by (simp add: es len)
    show "insert j d \<subseteq> {..<unat (se_recv_count s')}" using inv recv_invD(2) [OF inv at] by (simp add: same recv_inv_def)
  next
    fix k m
    assume "stored_at s' k m"
    then have k: "k \<noteq> i" "stored_at s k m" by (simp_all add: at')
    have "m \<noteq> j" using recv_invD(5) [OF inv at] k by auto
    with recv_invD(1-4) [OF inv k(2)] nth [OF k(1)]
    show "sk_key_prefix (sm_entries (se_skipped_keys s') ! k) = slice (se_recv_ratchet_public s') 0 8"
      "m < unat (se_recv_count s')" "m \<notin> insert j d"
      "sk_message_key (sm_entries (se_skipped_keys s') ! k) = message_key_of (chain_key c0 m) (of_nat m)"
      by (simp_all add: same)
  next
    fix k k' m
    assume "stored_at s' k m \<and> stored_at s' k' m"
    then show "k = k'" using recv_invD(5) [OF inv, of k m k'] by (simp add: at')
  next
    fix m
    assume "m < unat (se_recv_count s')" "m \<notin> insert j d"
    with inv obtain k where "stored_at s k m" unfolding recv_inv_def same by blast
    moreover have "k \<noteq> i" using \<open>m \<notin> insert j d\<close> at \<open>stored_at s k m\<close> by (auto simp: stored_at_def)
    ultimately show "\<exists>k. stored_at s' k m" by (auto simp: at')
  qed
qed

text \<open>A number not delivered before is given the right key, whether it is late, next or early.\<close>

lemma take_key_any_order:
  assumes inv: "recv_inv c0 s d" and j: "j < MAX_SKIPPED_KEYS" "j \<notin> d"
    and h: "mh_dh_public h = se_recv_ratchet_public s" "mh_message_num h = of_nat j"
  obtains s' where "get_message_key s h = (SESSION_ERROR_NONE, s', message_key_of (chain_key c0 j) (of_nat j))"
    "recv_inv c0 s' (insert j d)" "se_recv_ratchet_public s' = se_recv_ratchet_public s" "se_established s' = se_established s"
proof (cases "j < unat (se_recv_count s)")
  case True
  from take_stored_key [OF inv True j(2)] obtain i where i: "stored_at s i j"
    "skipped_keys_map_remove (se_skipped_keys s) (slice (se_recv_ratchet_public s) 0 8) (of_nat j)
       = (Some (message_key_of (chain_key c0 j) (of_nat j)),
          (se_skipped_keys s)\<lparr>sm_entries := (sm_entries (se_skipped_keys s))[i := (sm_entries (se_skipped_keys s) ! i)\<lparr>sk_occupied := False\<rparr>],
            sm_count := sm_count (se_skipped_keys s) - 1\<rparr>)" by blast
  let ?s = "s\<lparr>se_skipped_keys := snd (skipped_keys_map_remove (se_skipped_keys s) (slice (se_recv_ratchet_public s) 0 8) (of_nat j))\<rparr>"
  have "recv_inv c0 ?s (insert j d)" by (rule recv_inv_take [OF inv i(1)]) (simp_all add: i(2))
  moreover have "get_message_key s h = (SESSION_ERROR_NONE, ?s, message_key_of (chain_key c0 j) (of_nat j))"
    by (simp add: get_message_key_def h i(2))
  ultimately show ?thesis using that by simp
next
  case False
  have u: "unat (of_nat j :: u64) = j" using j(1) by (simp add: unat_of_nat take_bit_nat_eq_self)
  have rm: "skipped_keys_map_remove (se_skipped_keys s) p (of_nat j) = (None, se_skipped_keys s)" for p
    using recv_inv_not_stored [OF inv] False j(1) by simp
  let ?t = "skip_loop s (of_nat j)"
  have t: "recv_inv c0 ?t d" "se_recv_count ?t = of_nat j" "se_recv_ratchet_public ?t = se_recv_ratchet_public s"
    "se_established ?t = se_established s"
    using skip_loop_inv [OF inv, of "of_nat j"] False j(1) u by simp_all
  have sk: "(if of_nat j > se_recv_count s then skip_message_keys s (of_nat j) else (SESSION_ERROR_NONE, s)) = (SESSION_ERROR_NONE, ?t)"
  proof (cases "of_nat j > se_recv_count s")
    case True
    have "unat (of_nat j - se_recv_count s :: u64) \<le> unat (of_nat j :: u64)"
      using True by (simp add: unat_sub word_le_nat_alt word_less_nat_alt)
    with True u j(1) show ?thesis by (simp add: skip_message_keys_def)
  next
    case F: False
    then show ?thesis by (subst skip_loop.simps) simp
  qed
  let ?s = "?t\<lparr>se_recv_chain_key := next_chain (se_recv_chain_key ?t), se_recv_count := of_nat j + 1\<rparr>"
  have "get_message_key s h = (SESSION_ERROR_NONE, ?s, message_key_of (se_recv_chain_key ?t) (of_nat j))"
    using sk by (cases "se_recv_count s < of_nat j") (simp_all add: get_message_key_def h rm)
  moreover have ck: "se_recv_chain_key ?t = chain_key c0 j" using t(1,2) u by (simp add: recv_inv_def)
  moreover have "recv_inv c0 ?s (insert j d)"
  proof -
    have "unat (of_nat j + 1 :: u64) = j + 1" using unat_plus_one [of "of_nat j" "100 :: u64"] j(1) u by (simp add: word_less_nat_alt)
    then show ?thesis using t(1,2) u ck
      by (auto simp: recv_inv_def stored_at_def chain_key_def less_Suc_eq)
  qed
  ultimately show ?thesis using that t(3,4) by simp
qed

text \<open>A chain of messages sent, and some of them delivered.\<close>

fun send_all :: "session_crypto \<Rightarrow> session \<Rightarrow> (bytes \<times> bytes) list \<Rightarrow> (message_header \<times> bytes) list option" where
  "send_all cr a [] = Some []"
| "send_all cr a ((pt, rnd) # ms) =
     (case session_encrypt cr rnd a pt (sent_header a) \<lparr>vdata = zeros 256, vlen = 0\<rparr> of
        Some (SESSION_ERROR_NONE, a', h, c) \<Rightarrow> map_option (\<lambda>cs. (h, vec_bytes c) # cs) (send_all cr a' ms)
      | _ \<Rightarrow> None)"

fun deliver :: "session_crypto \<Rightarrow> session \<Rightarrow> (message_header \<times> bytes) list \<Rightarrow> (session \<times> bytes list) option" where
  "deliver cr b [] = Some (b, [])"
| "deliver cr b ((h, c) # cs) =
     (case session_decrypt cr b h c \<lparr>vdata = zeros 256, vlen = 0\<rparr> of
        Some (SESSION_ERROR_NONE, b', p) \<Rightarrow> map_option (\<lambda>(b, ps). (b, vec_bytes p # ps)) (deliver cr b' cs)
      | _ \<Rightarrow> None)"

definition chain_message :: "session_crypto \<Rightarrow> bytes \<Rightarrow> bytes \<Rightarrow> u64 \<Rightarrow> nat \<Rightarrow> bytes \<Rightarrow> message_header \<times> bytes" where
  "chain_message cr c0 pub prev j pt =
     (let h = \<lparr>mh_dh_public = pub, mh_prev_chain_len = prev, mh_message_num = of_nat j\<rparr>
      in (h, message_of cr (message_key_of (chain_key c0 j) (of_nat j)) h pt))"

lemma send_all_chain:
  assumes "se_established a" "length (se_send_ratchet_public a) = 32" "\<forall>m\<in>set ms. length (fst m) \<le> 240"
    "unat (se_send_count a) + length ms \<le> 100" "se_send_chain_key a = chain_key c0 (unat (se_send_count a))"
  shows "send_all cr a ms = Some (map (\<lambda>k. chain_message cr c0 (se_send_ratchet_public a) (se_prev_recv_chain a)
    (unat (se_send_count a) + k) (fst (ms ! k))) [0..<length ms])"
  using assms
proof (induction ms arbitrary: a)
  case Nil
  then show ?case by simp
next
  case (Cons m ms)
  obtain pt rnd where m: "m = (pt, rnd)" by (cases m)
  let ?n = "unat (se_send_count a)"
  have wf: "vec_wf 256 \<lparr>vdata = zeros 256, vlen = 0\<rparr>" by (simp add: vec_wf_def)
  have pt: "length pt \<le> 240" using Cons.prems(3) m by simp
  from encrypt_short [OF Cons.prems(1) wf pt Cons.prems(2), of cr rnd "sent_header a"] obtain w where
    enc: "session_encrypt cr rnd a pt (sent_header a) \<lparr>vdata = zeros 256, vlen = 0\<rparr>
        = Some (SESSION_ERROR_NONE, after_send cr rnd a, sent_header a, w)"
      "vec_bytes w = message_of cr (message_key_of (se_send_chain_key a) (se_send_count a)) (sent_header a) pt" by blast
  have first: "(sent_header a, vec_bytes w) = chain_message cr c0 (se_send_ratchet_public a) (se_prev_recv_chain a) ?n pt"
    by (simp add: enc(2) chain_message_def sent_header_def Cons.prems(5) Let_def)
  show ?case
  proof (cases "ms = []")
    case True
    then show ?thesis using enc(1) first by (simp add: m)
  next
    case False
    then have n: "?n + 1 < 100" using Cons.prems(4) by (cases ms) auto
    then have u: "unat (se_send_count a + 1) = ?n + 1"
      using unat_plus_one [of "se_send_count a" 100] by (simp add: word_less_nat_alt)
    let ?a = "a\<lparr>se_send_chain_key := next_chain (se_send_chain_key a), se_send_count := se_send_count a + 1\<rparr>"
    have a: "after_send cr rnd a = ?a" using n u by (simp add: after_send_def should_ratchet_def word_le_nat_alt)
    have "send_all cr ?a ms = Some (map (\<lambda>k. chain_message cr c0 (se_send_ratchet_public a) (se_prev_recv_chain a)
        (?n + Suc k) (fst (ms ! k))) [0..<length ms])"
      using Cons.IH [of ?a] Cons.prems u by (simp add: chain_key_def)
    then show ?thesis using enc(1) first a by (simp add: m upt_conv_Cons map_Suc_upt [symmetric] comp_def del: upt_Suc)
  qed
qed

lemma deliver_chain:
  assumes "recv_inv c0 b d" "se_established b" "se_recv_ratchet_public b = pub" "length pub = 32"
    "distinct js" "set js \<inter> d = {}" "\<forall>j\<in>set js. j < 100 \<and> length (pts j) \<le> 240"
  shows "\<exists>b'. deliver cr b (map (\<lambda>j. chain_message cr c0 pub prev j (pts j)) js) = Some (b', map pts js)"
  using assms
proof (induction js arbitrary: b d)
  case Nil
  then show ?case by simp
next
  case (Cons j js)
  let ?h = "\<lparr>mh_dh_public = pub, mh_prev_chain_len = prev, mh_message_num = of_nat j\<rparr>"
  have h: "mh_dh_public ?h = se_recv_ratchet_public b" "mh_message_num ?h = of_nat j" using Cons.prems(3) by simp_all
  have j: "j < MAX_SKIPPED_KEYS" "j \<notin> d" "length (pts j) \<le> 240" using Cons.prems(6,7) by auto
  from take_key_any_order [OF Cons.prems(1) j(1,2) h] obtain b' where
    k: "get_message_key b ?h = (SESSION_ERROR_NONE, b', message_key_of (chain_key c0 j) (of_nat j))"
      "recv_inv c0 b' (insert j d)" "se_recv_ratchet_public b' = se_recv_ratchet_public b" "se_established b' = se_established b" by blast
  have wf: "vec_wf 256 \<lparr>vdata = zeros 256, vlen = 0\<rparr>" by (simp add: vec_wf_def)
  have c: "get_message_key (catch_up cr (mh_dh_public ?h) b) ?h = (SESSION_ERROR_NONE, b', message_key_of (chain_key c0 j) (of_nat j))"
    using k(1) Cons.prems(3) by (simp add: catch_up_def)
  have "length (mh_dh_public ?h) = 32" using Cons.prems(4) by simp
  from decrypt_message [OF Cons.prems(2) disjI2 c j(3) this wf, OF h(1)] obtain p where
    "session_decrypt cr b ?h (message_of cr (message_key_of (chain_key c0 j) (of_nat j)) ?h (pts j)) \<lparr>vdata = zeros 256, vlen = 0\<rparr>
      = Some (SESSION_ERROR_NONE, b', p)" "vec_bytes p = pts j" by blast
  moreover have "\<exists>b''. deliver cr b' (map (\<lambda>j. chain_message cr c0 pub prev j (pts j)) js) = Some (b'', map pts js)"
    using Cons.prems k by (intro Cons.IH [OF k(2)]) auto
  ultimately show ?case by (auto simp: chain_message_def Let_def)
qed

section \<open>Properties\<close>

text \<open>Sessions for examples.\<close>

definition sample_crypto :: session_crypto where
  "sample_crypto = \<lparr>sc_x25519 = (\<lambda>a p. zeros 32), sc_x25519_base = (\<lambda>a. zeros 32), sc_aes256_encrypt_block = (\<lambda>k b. b)\<rparr>"

definition sample_session :: session where
  "sample_session = session_uninitialized\<lparr>se_established := True\<rparr>"

definition new_params :: "bool \<Rightarrow> session_params" where
  "new_params initiator = \<lparr>sp_shared_secret = zeros 32, sp_our_private = zeros 32, sp_their_public = zeros 32, sp_is_initiator = initiator\<rparr>"

text \<open>C12. The first message between two new sessions. An initiator and a responder create their sessions with \<^verbatim>\<open>session_new\<close>, the responder with the
  initiator's public key. The initiator's first message of at most 240 bytes is encrypted and tagged under a key that goes back to a root key
  salted with \<^verbatim>\<open>initiator-salt-v1\<close>; the responder checks it under a key that goes back to a root key salted with \<^verbatim>\<open>responder-salt-v1\<close>. It
  accepts the message exactly when the first 16 bytes of the two HMACs are equal, and reads what was sent when the two keys are equal. Otherwise -
  also when the shared secret and the Diffie-Hellman output are the same on both sides - it reports DECRYPTION_FAILED.\<close>

theorem session_new_first_message:
  assumes "sp_is_initiator pa" "\<not> sp_is_initiator pb" "sp_their_public pb = sc_x25519_base cr (sp_our_private pa)" "length (sp_their_public pb) = 32"
    and "length pt \<le> 240" "vec_wf 256 out" "vec_wf 256 out'"
    and "ka = message_key_of (kdf (kdf (sp_shared_secret pa) (ascii ''initiator-salt-v1'') ROOT_KEY_INFO 32
        @ sc_x25519 cr (sp_our_private pa) (sp_their_public pa)) (ascii ''send'') CHAIN_KEY_INFO 32) 0"
    and "kb = message_key_of (kdf (kdf (sp_shared_secret pb) (ascii ''responder-salt-v1'') ROOT_KEY_INFO 32
        @ sc_x25519 cr (sp_our_private pb) (sp_their_public pb)) (ascii ''send'') CHAIN_KEY_INFO 32) 0"
    and "h = \<lparr>mh_dh_public = sp_their_public pb, mh_prev_chain_len = 0, mh_message_num = 0\<rparr>"
  shows "\<exists>a' b' w c. session_encrypt cr rnd (session_new cr pa) pt hdr out = Some (SESSION_ERROR_NONE, a', h, w) \<and> length c = length pt
    \<and> vec_bytes w = c @ take 16 (hmac_spec ka (message_header_encode h @ c))
    \<and> (if take 16 (hmac_spec ka (message_header_encode h @ c)) = take 16 (hmac_spec kb (message_header_encode h @ c))
       then \<exists>p. session_decrypt cr (session_new cr pb) h (vec_bytes w) out' = Some (SESSION_ERROR_NONE, b', p) \<and> (ka = kb \<longrightarrow> vec_bytes p = pt)
       else session_decrypt cr (session_new cr pb) h (vec_bytes w) out' = Some (SESSION_ERROR_DECRYPTION_FAILED, b', out'))"
proof -
  let ?a = "session_new cr pa" and ?b = "session_new cr pb"
  let ?e = "sc_aes256_encrypt_block cr ka"
  define c where "c = ctr_crypt ?e 0 pt"
  define b' where "b' = ?b\<lparr>se_recv_chain_key := next_chain (se_recv_chain_key ?b), se_recv_count := se_recv_count ?b + 1\<rparr>"
  have keys: "message_key_of (se_send_chain_key ?a) 0 = ka" "message_key_of (se_recv_chain_key ?b) 0 = kb" "length ka = 32" "length kb = 32"
    using session_role_chains assms(1,2,8,9) by (simp_all add: message_key_of_def)
  have h: "sent_header ?a = h" "length (mh_dh_public h) = 32" "mh_message_num h = 0"
    using assms(3,4,10) by (simp_all add: sent_header_def session_new_fresh)
  have "length (se_send_ratchet_public ?a) = 32" using assms(3,4) by (simp add: session_new_fresh)
  from encrypt_short [OF session_new_fresh(1) assms(6,5) this, of cr rnd hdr] obtain w where
    w: "session_encrypt cr rnd ?a pt hdr out = Some (SESSION_ERROR_NONE, after_send cr rnd ?a, h, w)" "vec_bytes w = message_of cr ka h pt"
    by (auto simp: session_new_fresh keys h(1))
  have len: "length c = length pt" "length (message_header_encode h) + length c \<le> 448" using assms(5) h(2) by (simp_all add: c_def message_header_encode_def)
  have bytes: "vec_bytes w = c @ take 16 (hmac_spec ka (message_header_encode h @ c))"
    using compute_tag_hmac [OF keys(3) len(2)] by (simp add: w(2) message_of_def Let_def h(3) c_def [symmetric])
  have key: "get_message_key ?b h = (SESSION_ERROR_NONE, b', kb)"
    using take_key_in_order [OF session_new_fresh(2), of h] by (simp add: session_new_fresh h(3) keys(2) b'_def)
  have pub: "mh_dh_public h = se_recv_ratchet_public ?b" by (simp add: session_new_fresh assms(10))
  have c: "length c \<le> 240" using len(1) assms(5) by simp
  have t: "length (take 16 (hmac_spec ka (message_header_encode h @ c))) = 16" by (simp add: hmac_spec_def)
  note dec = decrypt_with_key [OF session_new_fresh(1) pub h(2) key keys(4) c t assms(7), of cr, folded bytes]
  have plain: "ka = kb \<longrightarrow> ctr_crypt (sc_aes256_encrypt_block cr kb) (mh_message_num h) c = pt" by (simp add: c_def h(3))
  show ?thesis
    using w(1) len(1) bytes dec plain by (intro exI [of _ "after_send cr rnd ?a"] exI [of _ b'] exI [of _ w] exI [of _ c]) auto
qed

theorem session_new_first_message_witness:
  "\<exists>a' w c b' p. session_encrypt sample_crypto [] (session_new sample_crypto (new_params True)) [1, 2] (sent_header sample_session) \<lparr>vdata = zeros 256, vlen = 0\<rparr>
      = Some (SESSION_ERROR_NONE, a', \<lparr>mh_dh_public = zeros 32, mh_prev_chain_len = 0, mh_message_num = 0\<rparr>, w)
    \<and> length (vec_bytes w) = 18 \<and> c \<in> {SESSION_ERROR_NONE, SESSION_ERROR_DECRYPTION_FAILED}
    \<and> session_decrypt sample_crypto (session_new sample_crypto (new_params False)) \<lparr>mh_dh_public = zeros 32, mh_prev_chain_len = 0, mh_message_num = 0\<rparr>
        (vec_bytes w) \<lparr>vdata = zeros 256, vlen = 0\<rparr> = Some (c, b', p)"
proof -
  have l: "length (take 16 (hmac_spec k x)) = 16" for k x by (simp add: hmac_spec_def)
  show ?thesis
    using session_new_first_message [of "new_params True" "new_params False" sample_crypto "[1, 2]" "\<lparr>vdata = zeros 256, vlen = 0\<rparr>"
        "\<lparr>vdata = zeros 256, vlen = 0\<rparr>", OF _ _ _ _ _ _ _ refl refl refl, of "[]" "sent_header sample_session"]
    by (force simp: new_params_def sample_crypto_def vec_wf_def l split: if_splits)
qed

text \<open>C13. Within one chain of up to 100 messages the order of arrival does not matter. The receiver is a session fresh from \<^verbatim>\<open>session_new\<close>, the sender
  any established session that has sent nothing yet, holds the receiver's receiving chain key as its sending chain key and has the public key the
  receiver expects. Any selection of its messages of at most 240 bytes, in any order and each once, is decrypted to
  what was sent: keys of messages that are still missing wait in the table of skipped keys, which is large enough.\<close>

theorem session_any_order:
  assumes "b = session_new cr params" "length (sp_their_public params) = 32"
    and "se_established a" "se_send_count a = 0" "se_send_ratchet_public a = sp_their_public params" "se_send_chain_key a = se_recv_chain_key b"
    and "length ms \<le> 100" "\<forall>m\<in>set ms. length (fst m) \<le> 240" "distinct js" "\<forall>j\<in>set js. j < length ms"
  shows "\<exists>sent b'. send_all cr a ms = Some sent \<and> length sent = length ms
    \<and> deliver cr b (map (\<lambda>j. sent ! j) js) = Some (b', map (\<lambda>j. fst (ms ! j)) js)"
proof -
  let ?c = "se_send_chain_key a" and ?m = "chain_message cr (se_send_chain_key a) (se_send_ratchet_public a) (se_prev_recv_chain a)"
  have len: "length (se_send_ratchet_public a) = 32" using assms(2,5) by simp
  have b: "se_established b" "se_recv_ratchet_public b = se_send_ratchet_public a" "se_recv_chain_key b = ?c" "se_recv_count b = 0" "no_skipped b"
    "length (sm_entries (se_skipped_keys b)) = MAX_SKIPPED_KEYS" using assms(1,5,6) by (simp_all add: session_new_fresh)
  have sent: "send_all cr a ms = Some (map (\<lambda>k. ?m k (fst (ms ! k))) [0..<length ms])"
    using send_all_chain [OF assms(3) len assms(8), of ?c cr] assms(4,7) by (simp add: chain_key_def)
  have "recv_inv ?c b {}" using b(3-6) by (auto simp: recv_inv_def chain_key_def stored_at_def no_skipped_def)
  from deliver_chain [OF this b(1,2) len assms(9), of "\<lambda>j. fst (ms ! j)" cr "se_prev_recv_chain a"] obtain b' where
    "deliver cr b (map (\<lambda>j. ?m j (fst (ms ! j))) js) = Some (b', map (\<lambda>j. fst (ms ! j)) js)"
    using assms(7,8,10) by fastforce
  moreover have "map (\<lambda>j. map (\<lambda>k. ?m k (fst (ms ! k))) [0..<length ms] ! j) js = map (\<lambda>j. ?m j (fst (ms ! j))) js"
    using assms(10) by simp
  ultimately have "deliver cr b (map (\<lambda>j. map (\<lambda>k. ?m k (fst (ms ! k))) [0..<length ms] ! j) js) = Some (b', map (\<lambda>j. fst (ms ! j)) js)"
    by (simp only:)
  with sent show ?thesis by (intro exI conjI) (assumption | simp)+
qed

theorem session_any_order_witness:
  "\<exists>a sent b'. session_deserialize (session_serialize a) = Ok a \<and> send_all sample_crypto a [([1], []), ([2, 2], []), ([], [])] = Some sent
    \<and> deliver sample_crypto (session_new sample_crypto (new_params False)) [sent ! 2, sent ! 0] = Some (b', [[], [1]])"
proof -
  let ?b = "session_new sample_crypto (new_params False)"
  let ?a = "sample_session\<lparr>se_send_chain_key := se_recv_chain_key ?b\<rparr>"
  have "session_wf ?a" by (simp add: session_wf_def sample_session_def session_uninitialized_def session_role_chains(2) new_params_def)
  from session_read_back(2) [OF this] have "session_deserialize (session_serialize ?a) = Ok ?a"
    by (simp add: sample_session_def session_uninitialized_def)
  moreover have "\<exists>sent b'. send_all sample_crypto ?a [([1], []), ([2, 2], []), ([], [])] = Some sent
      \<and> deliver sample_crypto ?b [sent ! 2, sent ! 0] = Some (b', [[], [1]])"
    using session_any_order [of ?b sample_crypto "new_params False" ?a "[([1], []), ([2, 2], []), ([], [])]" "[2, 0]"]
    by (auto simp: sample_session_def session_uninitialized_def new_params_def)
  ultimately show ?thesis by blast
qed

text \<open>C14. Errors of sending and of malformed input. Nothing happens in a session that is not established or to
  a ciphertext shorter than a tag. A plaintext of more than 240 bytes is refused, but only after the chain key has
  been advanced: the message counter stays, so the receiver's chain no longer matches.\<close>

theorem session_error_paths:
  assumes "vec_wf 256 out" "length (se_send_ratchet_public s) = 32"
  shows "(\<not> se_established s \<longrightarrow> session_encrypt cr rnd s pt hdr out = Some (SESSION_ERROR_NOT_ESTABLISHED, s, hdr, out)
      \<and> session_decrypt cr s h c out = Some (SESSION_ERROR_NOT_ESTABLISHED, s, out))
    \<and> (se_established s \<and> length c < 16 \<longrightarrow> session_decrypt cr s h c out = Some (SESSION_ERROR_INVALID_FORMAT, s, out))
    \<and> (se_established s \<and> 240 < length pt \<longrightarrow> (\<exists>out'. session_encrypt cr rnd s pt hdr out
      = Some (SESSION_ERROR_INVALID_FORMAT, s\<lparr>se_send_chain_key := next_chain (se_send_chain_key s)\<rparr>, sent_header s, out')))"
proof -
  have "\<not> se_established s \<longrightarrow> session_encrypt cr rnd s pt hdr out = Some (SESSION_ERROR_NOT_ESTABLISHED, s, hdr, out)
      \<and> session_decrypt cr s h c out = Some (SESSION_ERROR_NOT_ESTABLISHED, s, out)"
    by (simp add: session_encrypt_def session_decrypt_def)
  moreover have "se_established s \<and> length c < 16 \<longrightarrow> session_decrypt cr s h c out = Some (SESSION_ERROR_INVALID_FORMAT, s, out)"
    by (simp add: session_decrypt_def)
  ultimately show ?thesis using encrypt_long [OF _ assms(1) _ assms(2)] by blast
qed

theorem session_error_paths_witness:
  "\<exists>out'. session_encrypt sample_crypto [] sample_session (zeros 241) (sent_header sample_session) \<lparr>vdata = zeros 256, vlen = 0\<rparr>
    = Some (SESSION_ERROR_INVALID_FORMAT, sample_session\<lparr>se_send_chain_key := next_chain (zeros 32)\<rparr>, sent_header sample_session, out')"
  using session_error_paths [of "\<lparr>vdata = zeros 256, vlen = 0\<rparr>" sample_session sample_crypto "[]" "zeros 241" "sent_header sample_session"]
  by (simp add: vec_wf_def sample_session_def session_uninitialized_def)

text \<open>C15. The receiving state changes before the message is authenticated. A message in the current chain whose number is
  not ahead and whose key is not stored is rejected when its tag is wrong, but the chain key is advanced and
  the counter set to the number plus one (for a replayed message the counter goes back). A ciphertext
  of more than 416 bytes writes past the 512-byte buffer of \<^verbatim>\<open>compute_tag\<close>.\<close>

theorem session_unauthenticated_effects:
  assumes "se_established s" "mh_dh_public h = se_recv_ratchet_public s" "length (se_recv_ratchet_public s) = 32"
    and "no_skipped s" "mh_message_num h \<le> se_recv_count s" "16 \<le> length c"
  defines "key \<equiv> message_key_of (se_recv_chain_key s) (mh_message_num h)"
  shows "(416 < length c \<longrightarrow> session_decrypt cr s h c out = None)
    \<and> (length c \<le> 416 \<and> drop (length c - 16) c \<noteq> the (compute_tag key (message_header_encode h) (take (length c - 16) c)) \<longrightarrow>
        session_decrypt cr s h c out = Some (SESSION_ERROR_DECRYPTION_FAILED,
          s\<lparr>se_recv_chain_key := next_chain (se_recv_chain_key s), se_recv_count := mh_message_num h + 1\<rparr>, out))"
proof -
  let ?s = "s\<lparr>se_recv_chain_key := next_chain (se_recv_chain_key s), se_recv_count := mh_message_num h + 1\<rparr>"
  have "find_index (\<lambda>e. sk_occupied e \<and> sk_key_prefix e = p \<and> sk_message_num e = n) (sm_entries (se_skipped_keys s)) = None" for p n
    using assms(4) by (auto simp: find_index_None_iff no_skipped_def)
  moreover have "\<not> se_recv_count s < mh_message_num h" using assms(5) by simp
  ultimately have k: "get_message_key s h = (SESSION_ERROR_NONE, ?s, key)"
    by (simp add: get_message_key_def skipped_keys_map_remove_def key_def)
  have h48: "length (message_header_encode h) = 48" using assms(2,3) by (simp add: message_header_encode_def)
  have "session_decrypt cr s h c out = None" if "416 < length c"
  proof -
    have "compute_tag key (message_header_encode h) (slice c 0 (length c - 16)) = None"
      using that h48 by (simp add: compute_tag_def Let_def)
    then show ?thesis using assms(1,2,6) k by (simp add: session_decrypt_def)
  qed
  moreover have "session_decrypt cr s h c out = Some (SESSION_ERROR_DECRYPTION_FAILED, ?s, out)"
    if "length c \<le> 416" "drop (length c - 16) c \<noteq> the (compute_tag key (message_header_encode h) (take (length c - 16) c))"
  proof -
    have "length (message_header_encode h) + length (take (length c - 16) c) \<le> 448" using that(1) h48 by simp
    then obtain tag where tag: "compute_tag key (message_header_encode h) (take (length c - 16) c) = Some tag" "length tag = 16"
      by (rule compute_tag_Some)
    moreover have "\<not> ct_diff 16 (drop (length c - 16) c) tag = 0" using that(2) tag assms(6) by (simp add: ct_diff_take)
    moreover have "slice c (length c - 16) 16 = drop (length c - 16) c" using assms(6) by (simp add: slice_def)
    ultimately show ?thesis using assms(1,2,6) k by (simp add: session_decrypt_def slice_0_take)
  qed
  ultimately show ?thesis by blast
qed

theorem session_unauthenticated_effects_witness:
  "session_decrypt sample_crypto sample_session (sent_header sample_session) (zeros 417) \<lparr>vdata = zeros 256, vlen = 0\<rparr> = None"
  using session_unauthenticated_effects [of sample_session "sent_header sample_session" "zeros 417" sample_crypto]
  by (simp add: sent_header_def sample_session_def session_uninitialized_def no_skipped_def skipped_keys_map_init_def)

text \<open>A session read back from its stored form is the session that was written, without the keys of skipped
  messages, which are not stored; the reader never leaves its input and rejects shorter input.\<close>

theorem session_storage_roundtrip:
  assumes "session_wf s"
  shows "length (session_serialize s) = SESSION_SERIALIZED_SIZE
    \<and> session_deserialize (session_serialize s) = Ok (s\<lparr>se_skipped_keys := skipped_keys_map_init\<rparr>)
    \<and> (\<forall>d. session_deserialize d \<noteq> Oob \<and> (length d < SESSION_SERIALIZED_SIZE \<longrightarrow> session_deserialize d = Err ()))"
  using session_read_back [OF assms] by (auto simp: session_deserialize_def read_n_def)

theorem session_storage_roundtrip_witness:
  "session_deserialize (session_serialize sample_session) = Ok sample_session"
  using session_storage_roundtrip [of sample_session] by (simp add: session_wf_def sample_session_def session_uninitialized_def)

end
