(* ===== verification/Session_Manager.thy ===== *)
theory Session_Manager
  imports Session Contact_Store
begin

text \<open>
  The session manager of \<^verbatim>\<open>lunar/session.c\<close>: 32 slots indexed by the first eight bytes of the peer's public
  key, the high-water mark of used slots, and the copy in non-volatile storage. The NVS driver is a
  parameter, as for the contact store.
\<close>

section \<open>Slots\<close>

abbreviation MAX_PERSISTED_SESSIONS :: nat where "MAX_PERSISTED_SESSIONS \<equiv> 32"

record session_entry =
  sx_peer_key :: bytes
  sx_session :: session
  sx_occupied :: bool

record session_manager =
  mg_entries :: "session_entry list"
  mg_count :: nat

text \<open>An all-zero slot, as \<^verbatim>\<open>memset\<close> leaves it.\<close>

definition empty_entry :: session_entry where
  "empty_entry = \<lparr>sx_peer_key = zeros 8, sx_session = session_uninitialized, sx_occupied = False\<rparr>"

definition session_manager_new :: session_manager where
  "session_manager_new = \<lparr>mg_entries = replicate MAX_PERSISTED_SESSIONS empty_entry, mg_count = 0\<rparr>"

definition peer_matches :: "bytes \<Rightarrow> session_entry \<Rightarrow> bool" where
  "peer_matches key e \<longleftrightarrow> sx_occupied e \<and> sx_peer_key e = key"

definition slot_usable :: "bytes \<Rightarrow> session_entry \<Rightarrow> bool" where
  "slot_usable key e \<longleftrightarrow> \<not> sx_occupied e \<or> sx_peer_key e = key"

definition session_manager_get_session :: "session_manager \<Rightarrow> bytes \<Rightarrow> session option" where
  "session_manager_get_session m peer_public =
     map_option (\<lambda>i. sx_session (mg_entries m ! i)) (find_index (peer_matches (slice peer_public 0 8)) (mg_entries m))"

definition session_manager_create_session :: "session_crypto \<Rightarrow> session_manager \<Rightarrow> session_params \<Rightarrow> session_manager" where
  "session_manager_create_session cr m params =
     (let key = slice (sp_their_public params) 0 8
      in case find_index (slot_usable key) (mg_entries m) of
           Some i \<Rightarrow> m\<lparr>mg_entries := (mg_entries m)[i := \<lparr>sx_peer_key = key, sx_session = session_new cr params, sx_occupied = True\<rparr>],
                       mg_count := (if i \<ge> mg_count m then i + 1 else mg_count m)\<rparr>
         | None \<Rightarrow> m)"

fun trim_count :: "session_entry list \<Rightarrow> nat \<Rightarrow> nat" where
  "trim_count es 0 = 0"
| "trim_count es (Suc n) = (if \<not> sx_occupied (es ! n) then trim_count es n else Suc n)"

definition session_manager_remove_session :: "session_manager \<Rightarrow> bytes \<Rightarrow> session_manager" where
  "session_manager_remove_session m peer_public =
     (case find_index (peer_matches (slice peer_public 0 8)) (mg_entries m) of
        Some i \<Rightarrow>
          (let m = m\<lparr>mg_entries := (mg_entries m)[i := (mg_entries m ! i)\<lparr>sx_occupied := False\<rparr>]\<rparr>
           in if mg_count m > 0 \<and> i = mg_count m - 1 then m\<lparr>mg_count := trim_count (mg_entries m) (mg_count m)\<rparr> else m)
      | None \<Rightarrow> m)"

definition session_manager_session_count :: "session_manager \<Rightarrow> nat" where
  "session_manager_session_count m = length (filter sx_occupied (mg_entries m))"

section \<open>Non-volatile copy\<close>

definition session_key_name :: "nat \<Rightarrow> string" where
  "session_key_name idx =
     ''sess_'' @ (if idx < 10 then [digit_char idx] else [digit_char (idx div 10), digit_char (idx mod 10)])"

definition session_blob :: "session_entry \<Rightarrow> bytes" where
  "session_blob e = sx_peer_key e @ session_serialize (sx_session e)"

definition session_manager_save_to_nvs :: "bool \<Rightarrow> bool \<Rightarrow> session_manager \<Rightarrow> session_error \<times> nvs_call list" where
  "session_manager_save_to_nvs open1 open2 m =
     (if \<not> open1 \<and> \<not> open2 then (SESSION_ERROR_KEY_DERIVATION_FAILED, [])
      else
        let active_count = session_manager_session_count m;
            (idx, calls) = foldl (\<lambda>(idx, calls) e.
              if \<not> idx < active_count \<or> \<not> sx_occupied e then (idx, calls)
              else (idx + 1, calls @ [Nvs_set_blob (session_key_name idx) (session_blob e)]))
              (0, [Nvs_set_u32 ''sess_count'' (of_nat active_count)]) (mg_entries m)
        in (SESSION_ERROR_NONE, calls @ [Nvs_commit, Nvs_close]))"

definition load_session :: "(string \<Rightarrow> bytes option) \<Rightarrow> session_manager \<times> nat \<Rightarrow> nat \<Rightarrow> session_manager \<times> nat" where
  "load_session get_blob x idx =
     (let (m, loaded) = x
      in case get_blob (session_key_name idx) of
           None \<Rightarrow> (m, loaded)
         | Some blob \<Rightarrow>
             if length blob \<noteq> 8 + SESSION_SERIALIZED_SIZE then (m, loaded)
             else case find_index (\<lambda>e. \<not> sx_occupied e) (mg_entries m) of
                    None \<Rightarrow> (m, loaded)
                  | Some i \<Rightarrow>
                      (case session_deserialize (slice blob 8 SESSION_SERIALIZED_SIZE) of
                         Ok s \<Rightarrow> (m\<lparr>mg_entries := (mg_entries m)[i := \<lparr>sx_peer_key = slice blob 0 8, sx_session = s, sx_occupied = True\<rparr>],
                                   mg_count := (if i \<ge> mg_count m then i + 1 else mg_count m)\<rparr>, loaded + 1)
                       | _ \<Rightarrow> (m\<lparr>mg_entries := (mg_entries m)[i := (mg_entries m ! i)\<lparr>sx_peer_key := slice blob 0 8\<rparr>]\<rparr>, loaded)))"

definition session_manager_load_from_nvs ::
  "bool \<Rightarrow> (string \<Rightarrow> u32 option) \<Rightarrow> (string \<Rightarrow> bytes option) \<Rightarrow> session_manager \<Rightarrow> session_manager \<times> nat" where
  "session_manager_load_from_nvs open_ok get_u32 get_blob m =
     (if \<not> open_ok then (m, 0)
      else case get_u32 ''sess_count'' of
             None \<Rightarrow> (m, 0)
           | Some count \<Rightarrow>
               (let count = (if unat count > MAX_PERSISTED_SESSIONS then MAX_PERSISTED_SESSIONS else unat count)
                in foldl (load_session get_blob) (m, 0) [0..<count]))"

section \<open>Facts\<close>

definition manager_inv :: "session_manager \<Rightarrow> bool" where
  "manager_inv m \<longleftrightarrow> length (mg_entries m) = MAX_PERSISTED_SESSIONS \<and> mg_count m \<le> MAX_PERSISTED_SESSIONS
     \<and> (\<forall>i<MAX_PERSISTED_SESSIONS. sx_occupied (mg_entries m ! i) \<longrightarrow> i < mg_count m)"

lemma manager_new_inv: "manager_inv session_manager_new"
  by (simp add: manager_inv_def session_manager_new_def empty_entry_def)

lemma trim_count_bound: "trim_count es n \<le> n \<and> (\<forall>i<n. sx_occupied (es ! i) \<longrightarrow> i < trim_count es n)"
  by (induction n) (auto simp: less_Suc_eq)

lemma manager_create_inv: "manager_inv m \<Longrightarrow> manager_inv (session_manager_create_session cr m params)"
proof (cases "find_index (slot_usable (slice (sp_their_public params) 0 8)) (mg_entries m)")
  case (Some i)
  assume inv: "manager_inv m"
  let ?es = "(mg_entries m)[i := \<lparr>sx_peer_key = slice (sp_their_public params) 0 8, sx_session = session_new cr params, sx_occupied = True\<rparr>]"
  have "i < 32" using find_index_SomeD [OF Some] inv by (simp add: manager_inv_def)
  moreover have "k < (if i \<ge> mg_count m then i + 1 else mg_count m)" if "k < 32" "sx_occupied (?es ! k)" for k
    using inv that by (cases "k = i") (auto simp: manager_inv_def less_Suc_eq_le dest: less_imp_le less_le_trans)
  ultimately show ?thesis using inv unfolding manager_inv_def session_manager_create_session_def Let_def Some
    by (auto simp del: One_nat_def)
qed (simp add: session_manager_create_session_def)

lemma manager_remove_inv: "manager_inv m \<Longrightarrow> manager_inv (session_manager_remove_session m pk)"
proof -
  assume inv: "manager_inv m"
  show ?thesis
  proof (cases "find_index (peer_matches (slice pk 0 8)) (mg_entries m)")
    case None
    then show ?thesis using inv by (simp add: session_manager_remove_session_def)
  next
    case (Some i)
    let ?es = "(mg_entries m)[i := (mg_entries m ! i)\<lparr>sx_occupied := False\<rparr>]"
    have "sx_occupied (?es ! k) \<Longrightarrow> k < 32 \<Longrightarrow> k < mg_count m" for k
      using inv by (cases "k = i") (auto simp: manager_inv_def)
    then show ?thesis using inv Some trim_count_bound [of ?es "mg_count m"]
      by (fastforce simp: session_manager_remove_session_def manager_inv_def Let_def)
  qed
qed

text \<open>A session that was created is found, and no other lookup changes.\<close>

lemma create_get:
  assumes inv: "manager_inv m" and free: "find_index (slot_usable (slice (sp_their_public params) 0 8)) (mg_entries m) = Some i"
  shows "session_manager_get_session (session_manager_create_session cr m params) pk =
    (if slice pk 0 8 = slice (sp_their_public params) 0 8 then Some (session_new cr params) else session_manager_get_session m pk)"
proof -
  let ?k = "slice (sp_their_public params) 0 8"
  let ?e = "\<lparr>sx_peer_key = ?k, sx_session = session_new cr params, sx_occupied = True\<rparr>"
  let ?es = "(mg_entries m)[i := ?e]"
  from find_index_SomeD [OF free] have i: "i < length (mg_entries m)" "slot_usable ?k (mg_entries m ! i)"
    "\<forall>j<i. \<not> slot_usable ?k (mg_entries m ! j)" by auto
  have es: "mg_entries (session_manager_create_session cr m params) = ?es" by (simp add: session_manager_create_session_def free)
  show ?thesis
  proof (cases "slice pk 0 8 = ?k")
    case True
    have "find_index (peer_matches ?k) ?es = Some i"
      using i by (intro find_index_SomeI) (auto simp: peer_matches_def slot_usable_def)
    with True i(1) show ?thesis by (simp add: session_manager_get_session_def es)
  next
    case False
    have "find_index (peer_matches (slice pk 0 8)) ?es = find_index (peer_matches (slice pk 0 8)) (mg_entries m)"
      using i False by (intro find_index_update_other) (auto simp: peer_matches_def slot_usable_def)
    moreover have "j \<noteq> i" if "find_index (peer_matches (slice pk 0 8)) (mg_entries m) = Some j" for j
      using find_index_SomeD [OF that] i(2) False by (auto simp: peer_matches_def slot_usable_def)
    ultimately show ?thesis using False
      by (cases "find_index (peer_matches (slice pk 0 8)) (mg_entries m)") (auto simp: session_manager_get_session_def es)
  qed
qed


lemma remove_get_other:
  assumes "slice pk 0 8 \<noteq> slice pk' 0 8"
  shows "session_manager_get_session (session_manager_remove_session m pk') pk = session_manager_get_session m pk"
proof (cases "find_index (peer_matches (slice pk' 0 8)) (mg_entries m)")
  case None
  then show ?thesis by (simp add: session_manager_remove_session_def)
next
  case (Some i)
  let ?P = "peer_matches (slice pk 0 8)" and ?e = "(mg_entries m ! i)\<lparr>sx_occupied := False\<rparr>"
  have i: "i < length (mg_entries m)" "\<not> ?P (mg_entries m ! i)"
    using find_index_SomeD [OF Some] assms by (auto simp: peer_matches_def)
  then have "find_index ?P ((mg_entries m)[i := ?e]) = find_index ?P (mg_entries m)"
    by (intro find_index_update_other) (auto simp: peer_matches_def)
  moreover have "j \<noteq> i" if "find_index ?P (mg_entries m) = Some j" for j
    using find_index_SomeD [OF that] i(2) by auto
  moreover have "mg_entries (session_manager_remove_session m pk') = (mg_entries m)[i := ?e]"
    by (simp add: session_manager_remove_session_def Some Let_def)
  ultimately show ?thesis
    by (cases "find_index ?P (mg_entries m)") (auto simp: session_manager_get_session_def)
qed

section \<open>Saving and loading\<close>

definition blob_of_call :: "nvs_call \<Rightarrow> (string \<times> bytes) option" where
  "blob_of_call c = (case c of Nvs_set_blob k b \<Rightarrow> Some (k, b) | _ \<Rightarrow> None)"

text \<open>What storage answers after a sequence of calls: the last value written under a name.\<close>

definition written_blob :: "nvs_call list \<Rightarrow> string \<Rightarrow> bytes option" where
  "written_blob calls = map_of (rev (List.map_filter blob_of_call calls))"

definition u32_of_call :: "nvs_call \<Rightarrow> (string \<times> u32) option" where
  "u32_of_call c = (case c of Nvs_set_u32 k v \<Rightarrow> Some (k, v) | _ \<Rightarrow> None)"

definition written_u32 :: "nvs_call list \<Rightarrow> string \<Rightarrow> u32 option" where
  "written_u32 calls = map_of (rev (List.map_filter u32_of_call calls))"

lemma digit_char_inj: "a < 10 \<Longrightarrow> b < 10 \<Longrightarrow> digit_char a = digit_char b \<Longrightarrow> a = b"
  by (auto simp: digit_char_def dest!: arg_cong [where f = "of_char :: char \<Rightarrow> nat"])

lemma session_key_name_inj:
  assumes "i < 100" "j < 100" "session_key_name i = session_key_name j"
  shows "i = j"
proof -
  have "i div 10 < 10" "j div 10 < 10" using assms by simp_all
  then show ?thesis using assms digit_char_inj [of i j] digit_char_inj [of "i div 10" "j div 10"] digit_char_inj [of "i mod 10" "j mod 10"]
      div_mult_mod_eq [of i 10] div_mult_mod_eq [of j 10]
    by (auto simp: session_key_name_def split: if_splits) (metis div_mult_mod_eq)
qed

lemma save_sessions_fold:
  "n + length (filter sx_occupied es) \<le> act \<Longrightarrow>
   foldl (\<lambda>(idx, calls) e. if \<not> idx < act \<or> \<not> sx_occupied e then (idx, calls)
      else (idx + 1, calls @ [Nvs_set_blob (session_key_name idx) (session_blob e)])) (n, calls) es
   = (n + length (filter sx_occupied es), calls @ map (\<lambda>j. Nvs_set_blob (session_key_name (n + j))
        (session_blob (filter sx_occupied es ! j))) [0..<length (filter sx_occupied es)])"
proof (induction es arbitrary: n calls)
  case Nil
  show ?case by simp
next
  case (Cons e es)
  have "[0..<Suc m] = 0 # map Suc [0..<m]" for m by (metis map_Suc_upt upt_conv_Cons zero_less_Suc)
  moreover have "n < act" if "sx_occupied e" using Cons.prems that by simp
  ultimately show ?case
    using Cons.prems Cons.IH [of n calls] Cons.IH [of "Suc n" "calls @ [Nvs_set_blob (session_key_name n) (session_blob e)]"]
    by (cases "sx_occupied e") (simp_all add: comp_def del: upt_Suc)
qed

definition used_entries :: "session_manager \<Rightarrow> session_entry list" where
  "used_entries m = filter sx_occupied (mg_entries m)"

lemma save_sessions_calls:
  "session_manager_save_to_nvs o1 o2 m =
    (if \<not> o1 \<and> \<not> o2 then (SESSION_ERROR_KEY_DERIVATION_FAILED, [])
     else (SESSION_ERROR_NONE, Nvs_set_u32 ''sess_count'' (of_nat (length (used_entries m)))
       # map (\<lambda>j. Nvs_set_blob (session_key_name j) (session_blob (used_entries m ! j))) [0..<length (used_entries m)]
       @ [Nvs_commit, Nvs_close]))"
  using save_sessions_fold [of 0 "mg_entries m" "length (used_entries m)" "[Nvs_set_u32 ''sess_count'' (of_nat (length (used_entries m)))]"]
  by (simp add: session_manager_save_to_nvs_def session_manager_session_count_def used_entries_def Let_def)

lemma map_of_rev_upt:
  assumes "\<And>i. i < n \<Longrightarrow> f i = f j \<Longrightarrow> i = j" "j < n"
  shows "map_of (rev (map (\<lambda>i. (f i, g i)) [0..<n])) (f j) = Some (g j)"
proof -
  have "map_of (rev (map (\<lambda>i. (f i, g i)) [0..<m])) (f j) = (if j < m then Some (g j) else None)" if "m \<le> n" for m
    using that
  proof (induction m)
    case (Suc m)
    then have "f m = f j \<longleftrightarrow> m = j" using assms(1) [of m] by auto
    with Suc show ?case by auto
  qed simp
  then show ?thesis using assms(2) by simp
qed

lemma written_after_save:
  assumes "session_manager_save_to_nvs o1 o2 m = (SESSION_ERROR_NONE, calls)" "length (used_entries m) \<le> MAX_PERSISTED_SESSIONS"
  shows "written_u32 calls ''sess_count'' = Some (of_nat (length (used_entries m)))"
    "j < length (used_entries m) \<Longrightarrow> written_blob calls (session_key_name j) = Some (session_blob (used_entries m ! j))"
proof -
  have c: "calls = Nvs_set_u32 ''sess_count'' (of_nat (length (used_entries m)))
       # map (\<lambda>j. Nvs_set_blob (session_key_name j) (session_blob (used_entries m ! j))) [0..<length (used_entries m)]
       @ [Nvs_commit, Nvs_close]"
    using assms(1) by (auto simp: save_sessions_calls split: if_splits)
  have b: "List.map_filter blob_of_call calls
      = map (\<lambda>j. (session_key_name j, session_blob (used_entries m ! j))) [0..<length (used_entries m)]"
    by (simp add: c List.map_filter_def blob_of_call_def comp_def)
  have u: "List.map_filter u32_of_call calls = [(''sess_count'', of_nat (length (used_entries m)))]"
    by (simp add: c List.map_filter_def u32_of_call_def comp_def)
  show "written_u32 calls ''sess_count'' = Some (of_nat (length (used_entries m)))" by (simp add: written_u32_def u)
  show "written_blob calls (session_key_name j) = Some (session_blob (used_entries m ! j))" if "j < length (used_entries m)"
    unfolding written_blob_def b using assms(2) that by (intro map_of_rev_upt session_key_name_inj) auto
qed

text \<open>A slot as it comes back: the keys of skipped messages are gone.\<close>

definition reloaded :: "session_entry \<Rightarrow> session_entry" where
  "reloaded e = e\<lparr>sx_session := (sx_session e)\<lparr>se_skipped_keys := skipped_keys_map_init\<rparr>\<rparr>"

definition entry_wf :: "session_entry \<Rightarrow> bool" where
  "entry_wf e \<longleftrightarrow> length (sx_peer_key e) = 8 \<and> session_wf (sx_session e)"

lemma load_sessions_fold:
  assumes "length es \<le> MAX_PERSISTED_SESSIONS" "\<forall>e\<in>set es. entry_wf e \<and> sx_occupied e"
    and "\<And>j. j < length es \<Longrightarrow> get_blob (session_key_name j) = Some (session_blob (es ! j))"
  shows "k \<le> length es \<Longrightarrow> foldl (load_session get_blob) (session_manager_new, 0) [0..<k] =
    (\<lparr>mg_entries = map reloaded (take k es) @ replicate (MAX_PERSISTED_SESSIONS - k) empty_entry, mg_count = k\<rparr>, k)"
proof (induction k)
  case 0
  show ?case by (simp add: session_manager_new_def)
next
  case (Suc k)
  let ?es = "map reloaded (take k es) @ replicate (MAX_PERSISTED_SESSIONS - k) empty_entry"
  have e: "entry_wf (es ! k)" "sx_occupied (es ! k)" using Suc.prems assms(2) by simp_all
  have k: "length (map reloaded (take k es)) = k" using Suc.prems by simp
  have occ: "sx_occupied (?es ! j)" if "j < k" for j
    using that Suc.prems assms(2) by (simp add: nth_append reloaded_def)
  have "find_index (\<lambda>e. \<not> sx_occupied e) ?es = Some k"
    using Suc.prems assms(1) occ by (intro find_index_SomeI) (auto simp: nth_append empty_entry_def)
  moreover have "replicate (MAX_PERSISTED_SESSIONS - k) empty_entry = empty_entry # replicate (MAX_PERSISTED_SESSIONS - Suc k) empty_entry"
    using Suc.prems assms(1) by (metis Suc_diff_Suc less_le_trans Suc_le_eq replicate_Suc)
  then have "?es[k := x] = map reloaded (take k es) @ x # replicate (MAX_PERSISTED_SESSIONS - Suc k) empty_entry" for x
    using k by (simp add: list_update_append)
  moreover have "\<lparr>sx_peer_key = sx_peer_key (es ! k), sx_session = (sx_session (es ! k))\<lparr>se_skipped_keys := skipped_keys_map_init\<rparr>,
      sx_occupied = True\<rparr> = reloaded (es ! k)"
    using e(2) by (simp add: reloaded_def)
  ultimately show ?case using Suc assms(3) [of k] e(1)
    by (simp add: load_session_def session_blob_def entry_wf_def session_read_back take_Suc_conv_app_nth)
qed

lemma find_index_filter:
  assumes "\<And>x. P x \<Longrightarrow> Q x"
  shows "map_option (\<lambda>i. filter Q xs ! i) (find_index P (filter Q xs)) = map_option (\<lambda>i. xs ! i) (find_index P xs)"
  using assms by (induction xs) (auto simp: option.map_comp comp_def)

lemma find_index_append_None: "\<forall>y\<in>set ys. \<not> P y \<Longrightarrow> find_index P (xs @ ys) = find_index P xs"
  by (induction xs) (auto simp: find_index_None_iff)

lemma find_index_map: "find_index P (map f xs) = find_index (P \<circ> f) xs"
  by (induction xs) auto

lemma get_session_entry:
  "session_manager_get_session m pk = map_option sx_session (map_option (\<lambda>i. mg_entries m ! i)
     (find_index (peer_matches (slice pk 0 8)) (mg_entries m)))"
  by (simp add: session_manager_get_session_def option.map_comp comp_def)

text \<open>Looking up in the compacted table finds what was found before, less its skipped keys.\<close>

lemma get_reloaded:
  "session_manager_get_session \<lparr>mg_entries = map reloaded (used_entries m) @ replicate n empty_entry, mg_count = k\<rparr> pk
    = map_option (\<lambda>s. s\<lparr>se_skipped_keys := skipped_keys_map_init\<rparr>) (session_manager_get_session m pk)"
proof -
  let ?P = "peer_matches (slice pk 0 8)"
  have P: "?P \<circ> reloaded = ?P" "\<And>e. ?P e \<Longrightarrow> sx_occupied e" by (auto simp: peer_matches_def reloaded_def)
  have "\<not> ?P empty_entry" by (simp add: peer_matches_def empty_entry_def)
  then have "find_index ?P (map reloaded (used_entries m) @ replicate n empty_entry) = find_index ?P (used_entries m)"
    by (subst find_index_append_None) (simp_all add: find_index_map P(1))
  moreover have "map_option (\<lambda>i. used_entries m ! i) (find_index ?P (used_entries m)) = map_option (\<lambda>i. mg_entries m ! i) (find_index ?P (mg_entries m))"
    unfolding used_entries_def by (rule find_index_filter) (rule P(2))
  ultimately show ?thesis
    by (cases "find_index ?P (used_entries m)"; cases "find_index ?P (mg_entries m)")
       (auto simp: get_session_entry nth_append reloaded_def dest!: find_index_SomeD)
qed

lemma packed_inv:
  assumes "length es \<le> MAX_PERSISTED_SESSIONS"
  shows "manager_inv \<lparr>mg_entries = map reloaded es @ replicate (MAX_PERSISTED_SESSIONS - length es) empty_entry, mg_count = length es\<rparr>"
proof -
  have "\<not> sx_occupied ((map reloaded es @ replicate (MAX_PERSISTED_SESSIONS - length es) empty_entry) ! i)"
    if "i < MAX_PERSISTED_SESSIONS" "\<not> i < length es" for i
  proof -
    have "i - length es < MAX_PERSISTED_SESSIONS - length es" using that by linarith
    with that(2) show ?thesis by (simp add: nth_append empty_entry_def)
  qed
  with assms show ?thesis unfolding manager_inv_def by auto
qed

section \<open>Properties\<close>

text \<open>Lookups after an operation. Creating a session makes it the one that its peer's key finds and leaves every other
  lookup alone, and when there is neither a free slot nor one with that key the table does not change. Removing a key's first
  session leaves every other lookup alone. Every operation keeps the invariant that occupied slots lie below the high-water mark.\<close>

theorem session_manager_lookup:
  assumes "manager_inv m"
  shows "(find_index (slot_usable (slice (sp_their_public params) 0 8)) (mg_entries m) \<noteq> None \<longrightarrow>
      session_manager_get_session (session_manager_create_session cr m params) pk =
        (if slice pk 0 8 = slice (sp_their_public params) 0 8 then Some (session_new cr params) else session_manager_get_session m pk))
    \<and> (find_index (slot_usable (slice (sp_their_public params) 0 8)) (mg_entries m) = None \<longrightarrow> session_manager_create_session cr m params = m)
    \<and> (slice pk 0 8 \<noteq> slice pk' 0 8 \<longrightarrow> session_manager_get_session (session_manager_remove_session m pk') pk = session_manager_get_session m pk)
    \<and> manager_inv (session_manager_create_session cr m params) \<and> manager_inv (session_manager_remove_session m pk')"
proof -
  have "find_index (slot_usable (slice (sp_their_public params) 0 8)) (mg_entries m) \<noteq> None \<longrightarrow>
      session_manager_get_session (session_manager_create_session cr m params) pk =
        (if slice pk 0 8 = slice (sp_their_public params) 0 8 then Some (session_new cr params) else session_manager_get_session m pk)"
    using create_get [OF assms] by blast
  moreover have "find_index (slot_usable (slice (sp_their_public params) 0 8)) (mg_entries m) = None \<longrightarrow> session_manager_create_session cr m params = m"
    by (simp add: session_manager_create_session_def)
  ultimately show ?thesis
    using remove_get_other [of pk pk' m] manager_create_inv [OF assms] manager_remove_inv [OF assms] by simp
qed

definition sample_manager :: session_manager where
  "sample_manager = session_manager_new\<lparr>mg_entries := (mg_entries session_manager_new)
     [1 := \<lparr>sx_peer_key = replicate 8 5, sx_session = sample_session, sx_occupied = True\<rparr>], mg_count := 2\<rparr>"

lemma sample_manager_inv: "manager_inv sample_manager"
  by (auto simp: manager_inv_def sample_manager_def session_manager_new_def empty_entry_def nth_list_update split: if_splits)

lemma sample_manager_entries:
  "mg_entries sample_manager = empty_entry # \<lparr>sx_peer_key = replicate 8 5, sx_session = sample_session, sx_occupied = True\<rparr>
     # replicate 30 empty_entry"
  by (simp add: sample_manager_def session_manager_new_def numeral_eq_Suc)

definition sample_params :: session_params where
  "sample_params = \<lparr>sp_shared_secret = zeros 32, sp_our_private = zeros 32, sp_their_public = replicate 32 5, sp_is_initiator = True\<rparr>"

theorem session_manager_lookup_witness:
  "session_manager_get_session (session_manager_create_session sample_crypto sample_manager sample_params) (replicate 32 5)
     = Some (session_new sample_crypto sample_params)"
proof -
  have "find_index (slot_usable (slice (sp_their_public sample_params) 0 8)) (mg_entries sample_manager) \<noteq> None"
    by (simp add: sample_manager_entries slot_usable_def empty_entry_def)
  moreover have "sp_their_public sample_params = replicate 32 5" by (simp add: sample_params_def)
  ultimately show ?thesis
    using session_manager_lookup [OF sample_manager_inv, of sample_params sample_crypto "replicate 32 5" "zeros 32"] by metis
qed

text \<open>C34. A key can come to occupy two slots: \<^verbatim>\<open>create\<close> stops at the first slot that is free \<^emph>\<open>or\<close> holds the key, so when a
  lower slot has become free it does not reach the session the key already has. The old session is then hidden, not replaced:
  removing the key's session brings the old session back.\<close>

theorem session_manager_stale_session:
  assumes "i < j" "\<not> sx_occupied (mg_entries m ! i)"
    and "find_index (peer_matches (slice (sp_their_public params) 0 8)) (mg_entries m) = Some j"
  shows "session_manager_get_session (session_manager_remove_session (session_manager_create_session cr m params) (sp_their_public params))
     (sp_their_public params) = Some (sx_session (mg_entries m ! j))"
proof -
  let ?k = "slice (sp_their_public params) 0 8"
  let ?e = "\<lparr>sx_peer_key = ?k, sx_session = session_new cr params, sx_occupied = True\<rparr>"
  from find_index_SomeD [OF assms(3)] have j: "j < length (mg_entries m)" "peer_matches ?k (mg_entries m ! j)"
    "\<forall>l<j. \<not> peer_matches ?k (mg_entries m ! l)" by auto
  obtain i' where i': "find_index (slot_usable ?k) (mg_entries m) = Some i'"
    using assms(1,2) j(1) by (cases "find_index (slot_usable ?k) (mg_entries m)") (auto simp: find_index_None_nth slot_usable_def)
  with assms(1,2) find_index_SomeD [OF i'] have lt: "i' < j" "\<forall>l<i'. \<not> slot_usable ?k (mg_entries m ! l)"
    by (metis linorder_neqE_nat order_less_trans slot_usable_def, blast)
  have c: "mg_entries (session_manager_create_session cr m params) = (mg_entries m)[i' := ?e]"
    by (simp add: session_manager_create_session_def i')
  have "find_index (peer_matches ?k) ((mg_entries m)[i' := ?e]) = Some i'"
    using lt j by (intro find_index_SomeI) (auto simp: peer_matches_def)
  then have "mg_entries (session_manager_remove_session (session_manager_create_session cr m params) (sp_their_public params))
      = (mg_entries m)[i' := ?e\<lparr>sx_occupied := False\<rparr>]"
    using lt(1) j(1) by (simp add: session_manager_remove_session_def c Let_def)
  moreover have "find_index (peer_matches ?k) ((mg_entries m)[i' := ?e\<lparr>sx_occupied := False\<rparr>]) = Some j"
    using lt(1) j by (intro find_index_SomeI) (auto simp: peer_matches_def nth_list_update)
  ultimately show ?thesis using lt(1) by (simp add: session_manager_get_session_def)
qed

theorem session_manager_stale_session_witness:
  "session_manager_get_session (session_manager_remove_session
     (session_manager_create_session sample_crypto sample_manager sample_params) (replicate 32 5)) (replicate 32 5) = Some sample_session"
proof -
  have "find_index (peer_matches (slice (sp_their_public sample_params) 0 8)) (mg_entries sample_manager) = Some 1"
    by (simp add: sample_manager_entries sample_params_def peer_matches_def empty_entry_def slice_def)
  moreover have "sx_session (mg_entries sample_manager ! 1) = sample_session" "\<not> sx_occupied (mg_entries sample_manager ! 0)"
    by (simp_all add: sample_manager_entries empty_entry_def)
  moreover have "sp_their_public sample_params = replicate 32 5" by (simp add: sample_params_def)
  ultimately show ?thesis
    using session_manager_stale_session [of 0 1 sample_manager sample_params sample_crypto] by (metis zero_less_one)
qed

text \<open>Saving the table and loading it into a new manager from what was written gives back, for every peer key, the
  session it found before, less the keys of skipped messages; the occupied slots are packed to the front, all of them are
  loaded, and saving fails only when storage cannot be opened twice.\<close>

theorem session_manager_nvs_roundtrip:
  assumes "manager_inv m" "\<forall>e\<in>set (mg_entries m). entry_wf e"
    and "session_manager_save_to_nvs open1 open2 m = (err, calls)"
  shows "(err = SESSION_ERROR_NONE \<longleftrightarrow> open1 \<or> open2)
    \<and> (err = SESSION_ERROR_NONE \<longrightarrow>
        (\<exists>t. session_manager_load_from_nvs True (written_u32 calls) (written_blob calls) session_manager_new
            = (t, session_manager_session_count m)
          \<and> manager_inv t
          \<and> (\<forall>pk. session_manager_get_session t pk
               = map_option (\<lambda>s. s\<lparr>se_skipped_keys := skipped_keys_map_init\<rparr>) (session_manager_get_session m pk))))"
proof (intro conjI impI)
  show "err = SESSION_ERROR_NONE \<longleftrightarrow> open1 \<or> open2" using assms(3) by (auto simp: save_sessions_calls split: if_splits)
  assume "err = SESSION_ERROR_NONE"
  with assms(3) have sv: "session_manager_save_to_nvs open1 open2 m = (SESSION_ERROR_NONE, calls)" by simp
  let ?es = "used_entries m" and ?n = "length (used_entries m)"
  let ?t = "\<lparr>mg_entries = map reloaded ?es @ replicate (MAX_PERSISTED_SESSIONS - ?n) empty_entry, mg_count = ?n\<rparr>"
  have n: "?n \<le> MAX_PERSISTED_SESSIONS"
    using assms(1) length_filter_le [of sx_occupied "mg_entries m"] by (simp add: used_entries_def manager_inv_def)
  have u: "unat (of_nat ?n :: u32) = ?n" using n by (simp add: unat_of_nat take_bit_nat_eq_self)
  have "\<forall>e\<in>set ?es. entry_wf e \<and> sx_occupied e" using assms(2) by (simp add: used_entries_def)
  from load_sessions_fold [OF n this written_after_save(2) [OF sv n] order_refl]
  have "session_manager_load_from_nvs True (written_u32 calls) (written_blob calls) session_manager_new = (?t, ?n)"
    using n by (simp add: session_manager_load_from_nvs_def u written_after_save(1) [OF sv n])
  moreover have "manager_inv ?t" using n by (rule packed_inv)
  ultimately show "\<exists>t. session_manager_load_from_nvs True (written_u32 calls) (written_blob calls) session_manager_new
            = (t, session_manager_session_count m) \<and> manager_inv t
          \<and> (\<forall>pk. session_manager_get_session t pk
               = map_option (\<lambda>s. s\<lparr>se_skipped_keys := skipped_keys_map_init\<rparr>) (session_manager_get_session m pk))"
    using get_reloaded [of m] by (auto simp: session_manager_session_count_def used_entries_def)
qed

theorem session_manager_nvs_roundtrip_witness:
  "\<exists>t. session_manager_load_from_nvs True (written_u32 (snd (session_manager_save_to_nvs True True sample_manager)))
      (written_blob (snd (session_manager_save_to_nvs True True sample_manager))) session_manager_new = (t, 1)"
proof -
  have "session_wf sample_session" "session_wf session_uninitialized"
    by (simp_all add: session_wf_def sample_session_def session_uninitialized_def)
  then have "\<forall>e\<in>set (mg_entries sample_manager). entry_wf e"
    by (simp add: sample_manager_entries entry_wf_def empty_entry_def)
  moreover have "session_manager_session_count sample_manager = 1"
    by (simp add: session_manager_session_count_def sample_manager_entries empty_entry_def)
  ultimately show ?thesis
    using session_manager_nvs_roundtrip [OF sample_manager_inv, of True True "fst (session_manager_save_to_nvs True True sample_manager)"
      "snd (session_manager_save_to_nvs True True sample_manager)"] by auto
qed

end
