(* ===== verification/Aes_Field.thy ===== *)
theory Aes_Field
  imports Ctr_Mode
begin

unbundle bit_operations_syntax

text \<open>
  The byte arithmetic under AES in \<^verbatim>\<open>lunar/crypto/aes.c\<close>: the tables, multiplication in the field of 256
  elements (a branching loop, a straight-line form without branches, and the two loops of the second half
  of the file), and the S-box computed without tables. The facts: the four multiplications agree and
  are bilinear, and the computed S-boxes are the tables.
\<close>

section \<open>Tables\<close>

definition SBOX :: bytes where
  "SBOX = [
     0x63, 0x7c, 0x77, 0x7b, 0xf2, 0x6b, 0x6f, 0xc5, 0x30, 0x01, 0x67, 0x2b, 0xfe, 0xd7, 0xab, 0x76,
     0xca, 0x82, 0xc9, 0x7d, 0xfa, 0x59, 0x47, 0xf0, 0xad, 0xd4, 0xa2, 0xaf, 0x9c, 0xa4, 0x72, 0xc0,
     0xb7, 0xfd, 0x93, 0x26, 0x36, 0x3f, 0xf7, 0xcc, 0x34, 0xa5, 0xe5, 0xf1, 0x71, 0xd8, 0x31, 0x15,
     0x04, 0xc7, 0x23, 0xc3, 0x18, 0x96, 0x05, 0x9a, 0x07, 0x12, 0x80, 0xe2, 0xeb, 0x27, 0xb2, 0x75,
     0x09, 0x83, 0x2c, 0x1a, 0x1b, 0x6e, 0x5a, 0xa0, 0x52, 0x3b, 0xd6, 0xb3, 0x29, 0xe3, 0x2f, 0x84,
     0x53, 0xd1, 0x00, 0xed, 0x20, 0xfc, 0xb1, 0x5b, 0x6a, 0xcb, 0xbe, 0x39, 0x4a, 0x4c, 0x58, 0xcf,
     0xd0, 0xef, 0xaa, 0xfb, 0x43, 0x4d, 0x33, 0x85, 0x45, 0xf9, 0x02, 0x7f, 0x50, 0x3c, 0x9f, 0xa8,
     0x51, 0xa3, 0x40, 0x8f, 0x92, 0x9d, 0x38, 0xf5, 0xbc, 0xb6, 0xda, 0x21, 0x10, 0xff, 0xf3, 0xd2,
     0xcd, 0x0c, 0x13, 0xec, 0x5f, 0x97, 0x44, 0x17, 0xc4, 0xa7, 0x7e, 0x3d, 0x64, 0x5d, 0x19, 0x73,
     0x60, 0x81, 0x4f, 0xdc, 0x22, 0x2a, 0x90, 0x88, 0x46, 0xee, 0xb8, 0x14, 0xde, 0x5e, 0x0b, 0xdb,
     0xe0, 0x32, 0x3a, 0x0a, 0x49, 0x06, 0x24, 0x5c, 0xc2, 0xd3, 0xac, 0x62, 0x91, 0x95, 0xe4, 0x79,
     0xe7, 0xc8, 0x37, 0x6d, 0x8d, 0xd5, 0x4e, 0xa9, 0x6c, 0x56, 0xf4, 0xea, 0x65, 0x7a, 0xae, 0x08,
     0xba, 0x78, 0x25, 0x2e, 0x1c, 0xa6, 0xb4, 0xc6, 0xe8, 0xdd, 0x74, 0x1f, 0x4b, 0xbd, 0x8b, 0x8a,
     0x70, 0x3e, 0xb5, 0x66, 0x48, 0x03, 0xf6, 0x0e, 0x61, 0x35, 0x57, 0xb9, 0x86, 0xc1, 0x1d, 0x9e,
     0xe1, 0xf8, 0x98, 0x11, 0x69, 0xd9, 0x8e, 0x94, 0x9b, 0x1e, 0x87, 0xe9, 0xce, 0x55, 0x28, 0xdf,
     0x8c, 0xa1, 0x89, 0x0d, 0xbf, 0xe6, 0x42, 0x68, 0x41, 0x99, 0x2d, 0x0f, 0xb0, 0x54, 0xbb, 0x16]"

definition INV_SBOX :: bytes where
  "INV_SBOX = [
     0x52, 0x09, 0x6a, 0xd5, 0x30, 0x36, 0xa5, 0x38, 0xbf, 0x40, 0xa3, 0x9e, 0x81, 0xf3, 0xd7, 0xfb,
     0x7c, 0xe3, 0x39, 0x82, 0x9b, 0x2f, 0xff, 0x87, 0x34, 0x8e, 0x43, 0x44, 0xc4, 0xde, 0xe9, 0xcb,
     0x54, 0x7b, 0x94, 0x32, 0xa6, 0xc2, 0x23, 0x3d, 0xee, 0x4c, 0x95, 0x0b, 0x42, 0xfa, 0xc3, 0x4e,
     0x08, 0x2e, 0xa1, 0x66, 0x28, 0xd9, 0x24, 0xb2, 0x76, 0x5b, 0xa2, 0x49, 0x6d, 0x8b, 0xd1, 0x25,
     0x72, 0xf8, 0xf6, 0x64, 0x86, 0x68, 0x98, 0x16, 0xd4, 0xa4, 0x5c, 0xcc, 0x5d, 0x65, 0xb6, 0x92,
     0x6c, 0x70, 0x48, 0x50, 0xfd, 0xed, 0xb9, 0xda, 0x5e, 0x15, 0x46, 0x57, 0xa7, 0x8d, 0x9d, 0x84,
     0x90, 0xd8, 0xab, 0x00, 0x8c, 0xbc, 0xd3, 0x0a, 0xf7, 0xe4, 0x58, 0x05, 0xb8, 0xb3, 0x45, 0x06,
     0xd0, 0x2c, 0x1e, 0x8f, 0xca, 0x3f, 0x0f, 0x02, 0xc1, 0xaf, 0xbd, 0x03, 0x01, 0x13, 0x8a, 0x6b,
     0x3a, 0x91, 0x11, 0x41, 0x4f, 0x67, 0xdc, 0xea, 0x97, 0xf2, 0xcf, 0xce, 0xf0, 0xb4, 0xe6, 0x73,
     0x96, 0xac, 0x74, 0x22, 0xe7, 0xad, 0x35, 0x85, 0xe2, 0xf9, 0x37, 0xe8, 0x1c, 0x75, 0xdf, 0x6e,
     0x47, 0xf1, 0x1a, 0x71, 0x1d, 0x29, 0xc5, 0x89, 0x6f, 0xb7, 0x62, 0x0e, 0xaa, 0x18, 0xbe, 0x1b,
     0xfc, 0x56, 0x3e, 0x4b, 0xc6, 0xd2, 0x79, 0x20, 0x9a, 0xdb, 0xc0, 0xfe, 0x78, 0xcd, 0x5a, 0xf4,
     0x1f, 0xdd, 0xa8, 0x33, 0x88, 0x07, 0xc7, 0x31, 0xb1, 0x12, 0x10, 0x59, 0x27, 0x80, 0xec, 0x5f,
     0x60, 0x51, 0x7f, 0xa9, 0x19, 0xb5, 0x4a, 0x0d, 0x2d, 0xe5, 0x7a, 0x9f, 0x93, 0xc9, 0x9c, 0xef,
     0xa0, 0xe0, 0x3b, 0x4d, 0xae, 0x2a, 0xf5, 0xb0, 0xc8, 0xeb, 0xbb, 0x3c, 0x83, 0x53, 0x99, 0x61,
     0x17, 0x2b, 0x04, 0x7e, 0xba, 0x77, 0xd6, 0x26, 0xe1, 0x69, 0x14, 0x63, 0x55, 0x21, 0x0c, 0x7d]"

definition RCON :: bytes where
  "RCON = [0x00, 0x01, 0x02, 0x04, 0x08, 0x10, 0x20, 0x40, 0x80, 0x1b, 0x36]"

section \<open>Multiplication\<close>

definition parity :: "byte \<Rightarrow> byte" where
  "parity x = (let x = x XOR drop_bit 4 x; x = x XOR drop_bit 2 x; x = x XOR drop_bit 1 x in x AND 1)"

text \<open>\<^verbatim>\<open>(uint8_t)-(int8_t)(bit)\<close> is the negated byte: all ones or zero.\<close>

definition gf_mul_ct :: "byte \<Rightarrow> byte \<Rightarrow> byte" where
  "gf_mul_ct a b =
     (let aa = a;
          result = 0 XOR (aa AND - (b AND 0x01));
          mask = - drop_bit 7 aa; aa = push_bit 1 aa XOR (0x1b AND mask);
          result = result XOR (aa AND - (drop_bit 1 b AND 0x01));
          mask = - drop_bit 7 aa; aa = push_bit 1 aa XOR (0x1b AND mask);
          result = result XOR (aa AND - (drop_bit 2 b AND 0x01));
          mask = - drop_bit 7 aa; aa = push_bit 1 aa XOR (0x1b AND mask);
          result = result XOR (aa AND - (drop_bit 3 b AND 0x01));
          mask = - drop_bit 7 aa; aa = push_bit 1 aa XOR (0x1b AND mask);
          result = result XOR (aa AND - (drop_bit 4 b AND 0x01));
          mask = - drop_bit 7 aa; aa = push_bit 1 aa XOR (0x1b AND mask);
          result = result XOR (aa AND - (drop_bit 5 b AND 0x01));
          mask = - drop_bit 7 aa; aa = push_bit 1 aa XOR (0x1b AND mask);
          result = result XOR (aa AND - (drop_bit 6 b AND 0x01));
          mask = - drop_bit 7 aa; aa = push_bit 1 aa XOR (0x1b AND mask)
      in result XOR (aa AND - (drop_bit 7 b AND 0x01)))"

definition gf_square :: "byte \<Rightarrow> byte" where
  "gf_square x = gf_mul_ct x x"

definition affine_transform :: "byte \<Rightarrow> byte" where
  "affine_transform x =
     (let result = 0;
          result = result OR push_bit 0 (parity (x AND 0xF1) XOR 1);
          result = result OR push_bit 1 (parity (x AND 0xE3) XOR 1);
          result = result OR push_bit 2 (parity (x AND 0xC7) XOR 0);
          result = result OR push_bit 3 (parity (x AND 0x8F) XOR 0);
          result = result OR push_bit 4 (parity (x AND 0x1F) XOR 0);
          result = result OR push_bit 5 (parity (x AND 0x3E) XOR 1);
          result = result OR push_bit 6 (parity (x AND 0x7C) XOR 1)
      in result OR push_bit 7 (parity (x AND 0xF8) XOR 0))"

definition inv_affine_transform :: "byte \<Rightarrow> byte" where
  "inv_affine_transform x =
     (let y = x XOR 0x63;
          result = 0;
          result = result OR push_bit 0 (parity (y AND 0xA4));
          result = result OR push_bit 1 (parity (y AND 0x49));
          result = result OR push_bit 2 (parity (y AND 0x92));
          result = result OR push_bit 3 (parity (y AND 0x25));
          result = result OR push_bit 4 (parity (y AND 0x4A));
          result = result OR push_bit 5 (parity (y AND 0x94));
          result = result OR push_bit 6 (parity (y AND 0x29))
      in result OR push_bit 7 (parity (y AND 0x52)))"

definition gf_inverse :: "byte \<Rightarrow> byte" where
  "gf_inverse x =
     (let x2 = gf_square x; x4 = gf_square x2; x8 = gf_square x4; x16 = gf_square x8;
          x32 = gf_square x16; x64 = gf_square x32; x128 = gf_square x64;
          inv = gf_mul_ct x2 x4; inv = gf_mul_ct inv x8; inv = gf_mul_ct inv x16;
          inv = gf_mul_ct inv x32; inv = gf_mul_ct inv x64
      in gf_mul_ct inv x128)"

definition sbox_ct :: "byte \<Rightarrow> byte" where
  "sbox_ct input = affine_transform (gf_inverse input)"

definition inv_sbox_ct :: "byte \<Rightarrow> byte" where
  "inv_sbox_ct input = gf_inverse (inv_affine_transform input)"

function gf_mul_loop :: "byte \<Rightarrow> byte \<Rightarrow> byte \<Rightarrow> byte" where
  "gf_mul_loop a b result =
     (if b \<noteq> 0 then
        let result = (if b AND 1 \<noteq> 0 then result XOR a else result);
            high_bit = a AND 0x80;
            a = push_bit 1 a;
            a = (if high_bit \<noteq> 0 then a XOR 0x1b else a)
        in gf_mul_loop a (drop_bit 1 b) result
      else result)"
  by pat_completeness auto
termination
  by (relation "measure (\<lambda>(a, b, r). unat b)") (auto simp: drop_bit_Suc unat_div_distrib unat_gt_0)

declare gf_mul_loop.simps [simp del]

definition gf_mul :: "byte \<Rightarrow> byte \<Rightarrow> byte" where
  "gf_mul a b = gf_mul_loop a b 0"

text \<open>The second half of the file defines both multiplications again, each as a loop of eight turns.\<close>

definition gf_mul_ct2_step :: "byte \<times> byte \<times> byte \<Rightarrow> byte \<times> byte \<times> byte" where
  "gf_mul_ct2_step x =
     (let (p, a, b) = x;
          mask = - (b AND 1);
          p = p XOR (a AND mask);
          hi_bit = - drop_bit 7 a;
          a = push_bit 1 a XOR (0x1b AND hi_bit)
      in (p, a, drop_bit 1 b))"

definition gf_mul_ct2 :: "byte \<Rightarrow> byte \<Rightarrow> byte" where
  "gf_mul_ct2 a b = fst ((gf_mul_ct2_step ^^ 8) (0, a, b))"

definition gf_mul2_step :: "byte \<times> byte \<times> byte \<Rightarrow> byte \<times> byte \<times> byte" where
  "gf_mul2_step x =
     (let (p, a, b) = x;
          p = (if b AND 1 \<noteq> 0 then p XOR a else p);
          hi_bit = a AND 0x80;
          a = push_bit 1 a;
          a = (if hi_bit \<noteq> 0 then a XOR 0x1b else a)
      in (p, a, drop_bit 1 b))"

definition gf_mul2 :: "byte \<Rightarrow> byte \<Rightarrow> byte" where
  "gf_mul2 a b = fst ((gf_mul2_step ^^ 8) (0, a, b))"

section \<open>The product as a sum of shifted factors\<close>

definition xtime :: "byte \<Rightarrow> byte" where
  "xtime a = push_bit 1 a XOR (if bit a 7 then 0x1b else 0)"

primrec gf_bits :: "nat \<Rightarrow> byte \<Rightarrow> byte \<Rightarrow> byte" where
  "gf_bits 0 a b = 0"
| "gf_bits (Suc n) a b = (if bit b 0 then a else 0) XOR gf_bits n (xtime a) (drop_bit 1 b)"

lemma byte_bits: "(\<And>n. n < 8 \<Longrightarrow> bit a n = bit b n) \<Longrightarrow> a = (b :: byte)"
  by (rule bit_word_eqI) simp

lemma mask_low: "- (drop_bit n b AND 1) = (if bit b n then - 1 else 0 :: byte)"
  by (simp add: and_one_eq bit_iff_odd_drop_bit odd_iff_mod_2_eq_one split: if_splits)

lemma mask_low_0: "- (b AND 1) = (if bit b 0 then - 1 else 0 :: byte)"
  using mask_low [of 0 b] by simp

lemma mask_high: "- drop_bit 7 b = (if bit b 7 then - 1 else 0 :: byte)"
proof -
  have "drop_bit 7 b = (if bit b 7 then 1 else 0)"
    by (rule byte_bits) (auto simp: bit_simps less_Suc_eq numeral_eq_Suc)
  then show ?thesis by simp
qed

lemma high_bit_iff: "a AND 0x80 \<noteq> 0 \<longleftrightarrow> bit a 7" for a :: byte
proof -
  have "(0x80 :: byte) = push_bit 7 1" by simp
  then show ?thesis by (metis and_exp_eq_0_iff_not_bit push_bit_of_1)
qed

lemma low_bit_iff: "a AND 1 \<noteq> 0 \<longleftrightarrow> bit a 0" for a :: byte
  using and_exp_eq_0_iff_not_bit [of a 0] by simp

lemma xtime_ct: "push_bit 1 a XOR (0x1b AND - drop_bit 7 a) = xtime a"
  by (simp add: xtime_def mask_high)

lemma xtime_branch: "(if a AND 0x80 \<noteq> 0 then push_bit 1 a XOR 0x1b else push_bit 1 a) = xtime a"
  by (simp only: xtime_def high_bit_iff) simp

lemma gf_bits_8:
  "gf_bits 8 a b = (if bit b 0 then a else 0) XOR (if bit b 1 then xtime a else 0) XOR (if bit b 2 then (xtime ^^ 2) a else 0)
     XOR (if bit b 3 then (xtime ^^ 3) a else 0) XOR (if bit b 4 then (xtime ^^ 4) a else 0) XOR (if bit b 5 then (xtime ^^ 5) a else 0)
     XOR (if bit b 6 then (xtime ^^ 6) a else 0) XOR (if bit b 7 then (xtime ^^ 7) a else 0)"
proof -
  have "8 = Suc (Suc (Suc (Suc (Suc (Suc (Suc (Suc 0)))))))" by simp
  then show ?thesis unfolding gf_bits.simps bit_drop_bit_eq
    by (simp add: bit_drop_bit_eq eval_nat_numeral xor.assoc split del: if_split cong: if_cong)
qed

lemma gf_mul_ct_bits: "gf_mul_ct a b = gf_bits 8 a b"
  unfolding gf_mul_ct_def Let_def xtime_ct mask_low mask_low_0
  by (simp add: numeral_eq_Suc drop_bit_Suc bit_simps xor.assoc)

lemma gf_bits_zero [simp]: "gf_bits n a 0 = 0"
  by (induction n arbitrary: a) auto

lemma gf_mul_loop_bits: "(\<And>i. n \<le> i \<Longrightarrow> \<not> bit b i) \<Longrightarrow> gf_mul_loop a b r = r XOR gf_bits n a b"
proof (induction n arbitrary: a b r)
  case 0
  then have "b = 0" by (intro bit_eqI) simp
  then show ?case by (simp add: gf_mul_loop.simps)
next
  case (Suc n)
  have "gf_mul_loop a b r = gf_mul_loop (xtime a) (drop_bit 1 b) (r XOR (if bit b 0 then a else 0))" if "b \<noteq> 0"
    using that by (subst gf_mul_loop.simps) (simp add: Let_def xtime_branch [symmetric] low_bit_iff)
  moreover have "gf_mul_loop (xtime a) (drop_bit 1 b) r' = r' XOR gf_bits n (xtime a) (drop_bit 1 b)" for r'
    using Suc.prems by (intro Suc.IH) (simp add: bit_simps)
  ultimately show ?case
    by (cases "b = 0") (simp_all add: gf_mul_loop.simps xor.assoc)
qed

lemma gf_mul_bits: "gf_mul a b = gf_bits 8 a b"
  unfolding gf_mul_def by (subst gf_mul_loop_bits [of 8]) (auto dest: bit_imp_le_length)

lemma gf_mul_ct2_steps: "fst ((gf_mul_ct2_step ^^ n) (p, a, b)) = p XOR gf_bits n a b"
proof (induction n arbitrary: p a b)
  case (Suc n)
  have "gf_mul_ct2_step (p, a, b) = (p XOR (if bit b 0 then a else 0), xtime a, drop_bit 1 b)"
    unfolding gf_mul_ct2_step_def Let_def prod.case xtime_ct mask_low_0 by simp
  with Suc show ?case by (simp add: funpow_Suc_right xor.assoc del: funpow.simps)
qed simp

lemma gf_mul2_steps: "fst ((gf_mul2_step ^^ n) (p, a, b)) = p XOR gf_bits n a b"
proof (induction n arbitrary: p a b)
  case (Suc n)
  have "gf_mul2_step (p, a, b) = (p XOR (if bit b 0 then a else 0), xtime a, drop_bit 1 b)"
    by (simp add: gf_mul2_step_def Let_def low_bit_iff xtime_branch [symmetric])
  with Suc show ?case by (simp add: funpow_Suc_right xor.assoc del: funpow.simps)
qed simp

lemma gf_muls_agree: "gf_mul_ct = gf_mul" "gf_mul_ct2 = gf_mul" "gf_mul2 = gf_mul"
  by (intro ext, simp add: gf_mul_ct_bits gf_mul_bits gf_mul_ct2_def gf_mul2_def gf_mul_ct2_steps gf_mul2_steps)+

section \<open>Linearity\<close>

lemma xtime_xor: "xtime (a XOR b) = xtime a XOR xtime b"
  by (rule byte_bits) (auto simp: xtime_def bit_simps)

lemma xtime_0 [simp]: "xtime 0 = 0"
  by (simp add: xtime_def)

lemma gf_bits_xor: "gf_bits n (a XOR b) c = gf_bits n a c XOR gf_bits n b c"
  by (induction n arbitrary: a b c) (auto simp: xtime_xor xor.assoc xor.left_commute)

lemma gf_mul_small:
  "gf_mul a 2 = xtime a" "gf_mul a 3 = a XOR xtime a"
  "gf_mul a 9 = a XOR xtime (xtime (xtime a))"
  "gf_mul a 11 = a XOR xtime a XOR xtime (xtime (xtime a))"
  "gf_mul a 13 = a XOR xtime (xtime a) XOR xtime (xtime (xtime a))"
  "gf_mul a 14 = xtime a XOR xtime (xtime a) XOR xtime (xtime (xtime a))"
  unfolding gf_mul_bits gf_bits_8 by (simp_all add: bit_numeral_word_iff eval_nat_numeral xor.assoc)

section \<open>The S-boxes\<close>

text \<open>Bytes as lists of eight bits, least significant first, on which the field operations are evaluated.\<close>

definition of_bits :: "bool list \<Rightarrow> byte" where
  "of_bits bs = horner_sum of_bool 2 bs"

definition xorb :: "bool list \<Rightarrow> bool list \<Rightarrow> bool list" where
  "xorb = map2 (\<noteq>)"

fun xtimeb :: "bool list \<Rightarrow> bool list" where
  "xtimeb [a0, a1, a2, a3, a4, a5, a6, a7] = [a7, a0 \<noteq> a7, a1, a2 \<noteq> a7, a3 \<noteq> a7, a4, a5, a6]"
| "xtimeb bs = bs"

fun mulb :: "bool list \<Rightarrow> bool list \<Rightarrow> bool list" where
  "mulb a [] = [False, False, False, False, False, False, False, False]"
| "mulb a (b # bs) = (if b then xorb a (mulb (xtimeb a) bs) else mulb (xtimeb a) bs)"

lemma bit_of_bits: "bit (of_bits bs) n \<longleftrightarrow> n < 8 \<and> n < length bs \<and> bs ! n"
  by (simp add: of_bits_def bit_horner_sum_bit_word_iff possible_bit_word)

lemma of_bits_xorb: "length a = 8 \<Longrightarrow> length b = 8 \<Longrightarrow> of_bits (xorb a b) = of_bits a XOR of_bits b"
  by (rule byte_bits) (simp add: bit_of_bits bit_xor_iff xorb_def)

lemma of_bits_inj: "of_bits a = of_bits b \<Longrightarrow> length a = 8 \<Longrightarrow> length b = 8 \<Longrightarrow> a = b"
proof (rule nth_equalityI)
  fix i assume "of_bits a = of_bits b" "length a = 8" "length b = 8" "i < length a"
  then show "a ! i = b ! i" using bit_of_bits [of a i] bit_of_bits [of b i] by simp
qed simp

lemma length_xorb [simp]: "length (xorb a b) = min (length a) (length b)"
  by (simp add: xorb_def)

lemma length_8E:
  assumes "length (bs :: 'a list) = 8"
  obtains a0 a1 a2 a3 a4 a5 a6 a7 where "bs = [a0, a1, a2, a3, a4, a5, a6, a7]"
  using assms by (auto simp: eval_nat_numeral length_Suc_conv)

lemma less_8: "n < 8 \<longleftrightarrow> n = 0 \<or> n = 1 \<or> n = 2 \<or> n = 3 \<or> n = 4 \<or> n = 5 \<or> n = 6 \<or> n = (7 :: nat)"
  by auto

lemma length_xtimeb [simp]: "length (xtimeb a) = length a"
  by (cases a rule: xtimeb.cases) auto

lemma bit_xtime: "n < 8 \<Longrightarrow> bit (xtime a) n \<longleftrightarrow> (0 < n \<and> bit a (n - 1)) \<noteq> (bit a 7 \<and> n \<in> {0, 1, 3, 4})"
  unfolding xtime_def bit_xor_iff bit_push_bit_iff less_8 [of n] by (elim disjE) (simp_all add: bit_numeral_word_iff)

lemma of_bits_xtimeb: "length a = 8 \<Longrightarrow> of_bits (xtimeb a) = xtime (of_bits a)"
proof (erule length_8E, rule byte_bits)
  fix n :: nat and a0 a1 a2 a3 a4 a5 a6 a7
  assume "a = [a0, a1, a2, a3, a4, a5, a6, a7]" and n: "n < 8"
  then show "bit (of_bits (xtimeb a)) n = bit (xtime (of_bits a)) n"
    unfolding bit_xtime [OF n] using n [unfolded less_8] by (elim disjE) (simp_all add: bit_of_bits)
qed

lemma length_mulb [simp]: "length a = 8 \<Longrightarrow> length (mulb a bs) = 8"
  by (induction bs arbitrary: a) auto

lemma of_bits_Cons: "length bs < 8 \<Longrightarrow> drop_bit 1 (of_bits (b # bs)) = of_bits bs" "bit (of_bits (b # bs)) 0 = b"
  by (rule byte_bits, auto simp: bit_of_bits bit_drop_bit_eq)

lemma of_bits_mulb: "length a = 8 \<Longrightarrow> length bs \<le> 8 \<Longrightarrow> of_bits (mulb a bs) = gf_bits (length bs) (of_bits a) (of_bits bs)"
proof (induction bs arbitrary: a)
  case Nil
  show ?case by (rule byte_bits) (auto simp: bit_of_bits less_8)
next
  case (Cons b bs)
  then show ?case using of_bits_Cons [where b = b and bs = bs] by (simp add: of_bits_xorb of_bits_xtimeb)
qed

lemma of_bits_gf_mul: "length a = 8 \<Longrightarrow> length b = 8 \<Longrightarrow> gf_mul_ct (of_bits a) (of_bits b) = of_bits (mulb a b)"
  by (simp add: gf_mul_ct_bits of_bits_mulb)

fun affineb :: "bool list \<Rightarrow> bool list" where
  "affineb [a0, a1, a2, a3, a4, a5, a6, a7] =
     [\<not> ((a0 \<noteq> a4) \<noteq> (a5 \<noteq> (a6 \<noteq> a7))),
      \<not> ((a0 \<noteq> a1) \<noteq> (a5 \<noteq> (a6 \<noteq> a7))),
      (a0 \<noteq> a1) \<noteq> (a2 \<noteq> (a6 \<noteq> a7)),
      (a0 \<noteq> a1) \<noteq> (a2 \<noteq> (a3 \<noteq> a7)),
      (a0 \<noteq> a1) \<noteq> (a2 \<noteq> (a3 \<noteq> a4)),
      \<not> ((a1 \<noteq> a2) \<noteq> (a3 \<noteq> (a4 \<noteq> a5))),
      \<not> ((a2 \<noteq> a3) \<noteq> (a4 \<noteq> (a5 \<noteq> a6))),
      (a3 \<noteq> a4) \<noteq> (a5 \<noteq> (a6 \<noteq> a7))]"
| "affineb bs = bs"

lemma bit_parity: "bit (parity x) n \<longleftrightarrow> n = 0 \<and> (((bit x 0 \<noteq> bit x 4) \<noteq> (bit x 2 \<noteq> bit x 6)) \<noteq> ((bit x 1 \<noteq> bit x 5) \<noteq> (bit x 3 \<noteq> bit x 7)))"
  unfolding parity_def Let_def bit_xor_iff bit_drop_bit_eq bit_and_iff
  by (cases "n = 0"; simp add: bit_1_iff eval_nat_numeral)

lemma of_bits_affine: "length x = 8 \<Longrightarrow> affine_transform (of_bits x) = of_bits (affineb x)"
proof (erule length_8E, rule byte_bits)
  fix n :: nat and a0 a1 a2 a3 a4 a5 a6 a7
  assume x: "x = [a0, a1, a2, a3, a4, a5, a6, a7]" and "n < 8"
  show "bit (affine_transform (of_bits x)) n = bit (of_bits (affineb x)) n"
    using \<open>n < 8\<close> [unfolded less_8] unfolding affine_transform_def Let_def bit_or_iff bit_push_bit_iff bit_xor_iff bit_parity bit_and_iff x
    by (elim disjE) (simp_all add: bit_of_bits bit_numeral_word_iff bit_1_iff, sat+)
qed

fun inv_affineb :: "bool list \<Rightarrow> bool list" where
  "inv_affineb [a0, a1, a2, a3, a4, a5, a6, a7] =
     [\<not> (a2 \<noteq> (a5 \<noteq> a7)), a0 \<noteq> (a3 \<noteq> a6), \<not> (a1 \<noteq> (a4 \<noteq> a7)), a0 \<noteq> (a2 \<noteq> a5),
      a1 \<noteq> (a3 \<noteq> a6), a2 \<noteq> (a4 \<noteq> a7), a0 \<noteq> (a3 \<noteq> a5), a1 \<noteq> (a4 \<noteq> a6)]"
| "inv_affineb bs = bs"

lemma of_bits_inv_affine: "length x = 8 \<Longrightarrow> inv_affine_transform (of_bits x) = of_bits (inv_affineb x)"
proof (erule length_8E, rule byte_bits)
  fix n :: nat and a0 a1 a2 a3 a4 a5 a6 a7
  assume x: "x = [a0, a1, a2, a3, a4, a5, a6, a7]" and "n < 8"
  show "bit (inv_affine_transform (of_bits x)) n = bit (of_bits (inv_affineb x)) n"
    using \<open>n < 8\<close> [unfolded less_8] unfolding inv_affine_transform_def Let_def bit_or_iff bit_push_bit_iff bit_parity bit_and_iff bit_xor_iff x
    by (elim disjE) (simp_all add: bit_of_bits bit_numeral_word_iff bit_1_iff, sat+)
qed

lemma affine_inverse: "affine_transform (inv_affine_transform x) = x"
proof -
  obtain bs where x: "x = of_bits bs" "length bs = 8"
  proof
    show "x = of_bits (map (bit x) [0..<8])" by (rule byte_bits) (simp add: bit_of_bits)
  qed simp
  then have l: "length (inv_affineb bs) = 8" by (elim length_8E) simp
  have "affineb (inv_affineb bs) = bs" using x(2)
  proof (elim length_8E)
    fix a0 a1 a2 a3 a4 a5 a6 a7 assume "bs = [a0, a1, a2, a3, a4, a5, a6, a7]"
    then show ?thesis by (cases a0; cases a1; cases a2; cases a3; cases a4; cases a5; cases a6; cases a7; simp)
  qed
  with x l show ?thesis by (simp add: of_bits_inv_affine of_bits_affine)
qed

text \<open>A literal byte as a list of bits, so that literal products are computed on bits.\<close>

primrec num_bits :: "num \<Rightarrow> nat \<Rightarrow> bool list" where
  "num_bits num.One k = (if k = 0 then [] else True # replicate (k - 1) False)"
| "num_bits (num.Bit0 n) k = (if k = 0 then [] else False # num_bits n (k - 1))"
| "num_bits (num.Bit1 n) k = (if k = 0 then [] else True # num_bits n (k - 1))"

lemma num_bits_nth: "i < k \<Longrightarrow> num_bits n k ! i = bit (numeral n :: int) i" "length (num_bits n k) = k"
proof (induction n arbitrary: i k)
  case One
  case 1
  then show ?case by (cases i) (auto simp: bit_1_iff bit_0)
next
  case (Bit0 n)
  case 1
  then show ?case using Bit0(1) by (cases i; cases k) (auto simp: bit_Suc)
next
  case (Bit1 n)
  case 1
  then show ?case using Bit1(1) by (cases i; cases k) (auto simp: bit_Suc)
qed auto

lemma numeral_bits: "numeral n = of_bits (num_bits n 8)"
  by (rule byte_bits) (simp add: bit_of_bits num_bits_nth bit_numeral_word_iff)

section \<open>Powers of 3\<close>

text \<open>Multiplication by 3 runs through all 255 non-zero elements.\<close>

definition mul3 :: "byte \<Rightarrow> byte" where
  "mul3 a = a XOR xtime a"

definition pow3 :: "nat \<Rightarrow> byte" where
  "pow3 k = (mul3 ^^ k) 1"

lemma gf_bits_xtime: "gf_bits n (xtime a) b = xtime (gf_bits n a b)"
  by (induction n arbitrary: a b) (auto simp: xtime_xor)

lemma gf_mul_mul3: "gf_mul (mul3 a) b = mul3 (gf_mul a b)"
  by (simp add: gf_mul_bits mul3_def gf_bits_xor gf_bits_xtime)

lemma xtime_exp: "k < 7 \<Longrightarrow> xtime (2 ^ k) = 2 ^ Suc k"
  by (simp add: xtime_def bit_exp_iff)

lemma gf_bits_exp: "n + k \<le> 8 \<Longrightarrow> gf_bits n (2 ^ k) b = push_bit k (take_bit n b)"
proof (induction n arbitrary: k b)
  case (Suc n)
  have "gf_bits n (xtime (2 ^ k)) (drop_bit 1 b) = push_bit (Suc k) (take_bit n (drop_bit 1 b))"
  proof (cases "n = 0")
    case False
    with Suc.prems have "xtime (2 ^ k) = 2 ^ Suc k" by (intro xtime_exp) simp
    with Suc.IH [of "Suc k" "drop_bit 1 b"] Suc.prems show ?thesis by (simp del: power_Suc push_bit_Suc)
  qed simp
  moreover have "bit ((if bit b 0 then 2 ^ k else 0) XOR push_bit (Suc k) (take_bit n (drop_bit 1 b))) i
      = bit (push_bit k (take_bit (Suc n) b)) i" if "i < 8" for i
  proof -
    consider "i < k" | "i = k" | j where "i = Suc k + j" by (metis add_Suc_right less_imp_Suc_add linorder_neqE_nat add_Suc)
    then show ?thesis using that
      by cases (auto simp: bit_xor_iff bit_push_bit_iff bit_take_bit_iff bit_drop_bit_eq bit_exp_iff simp del: push_bit_Suc)
  qed
  ultimately show ?case unfolding gf_bits.simps by (intro byte_bits) simp
qed simp

lemma gf_mul_1: "gf_mul 1 b = b"
  using gf_bits_exp [of 8 0 b] by (simp add: gf_mul_bits take_bit_word_eq_self)

lemma gf_mul_pow3: "gf_mul (pow3 i) b = (mul3 ^^ i) b"
  by (induction i) (simp_all add: pow3_def gf_mul_mul3 gf_mul_1)

lemma gf_mul_pow3_pow3: "gf_mul (pow3 i) (pow3 j) = pow3 (i + j)"
  by (simp add: gf_mul_pow3) (simp add: pow3_def funpow_add)

fun mul3b :: "bool list \<Rightarrow> bool list" where
  "mul3b [a0, a1, a2, a3, a4, a5, a6, a7] =
     [a0 \<noteq> a7, a1 \<noteq> (a0 \<noteq> a7), a2 \<noteq> a1, a3 \<noteq> (a2 \<noteq> a7), a4 \<noteq> (a3 \<noteq> a7), a5 \<noteq> a4, a6 \<noteq> a5, a7 \<noteq> a6]"
| "mul3b bs = bs"

lemma of_bits_mul3: "length a = 8 \<Longrightarrow> mul3 (of_bits a) = of_bits (mul3b a)" "length a = 8 \<Longrightarrow> length (mul3b a) = 8"
proof -
  have e: "mul3b a = xorb a (xtimeb a)" if "length a = 8" for a
    using that by (elim length_8E) (simp add: xorb_def)
  show "length a = 8 \<Longrightarrow> mul3 (of_bits a) = of_bits (mul3b a)" "length a = 8 \<Longrightarrow> length (mul3b a) = 8"
    by (simp_all add: e mul3_def of_bits_xorb of_bits_xtimeb)
qed

abbreviation oneb :: "bool list" where
  "oneb \<equiv> [True, False, False, False, False, False, False, False]"

fun first_return :: "nat \<Rightarrow> bool list \<Rightarrow> bool" where
  "first_return 0 x = (x = oneb)"
| "first_return (Suc n) x = (x \<noteq> oneb \<and> first_return n (mul3b x))"

lemma first_return_numeral:
  "first_return (numeral k) x = (x \<noteq> oneb \<and> first_return (pred_numeral k) (mul3b x))"
  by (simp add: numeral_eq_Suc)

lemma order_bits: "first_return 254 (mul3b oneb)"
  by (simp add: first_return_numeral)

lemma first_return_steps:
  "length x = 8 \<Longrightarrow> first_return n x \<Longrightarrow> (mul3 ^^ n) (of_bits x) = 1 \<and> (\<forall>k<n. (mul3 ^^ k) (of_bits x) \<noteq> 1)"
proof (induction n arbitrary: x)
  case 0
  then show ?case by (simp add: of_bits_def)
next
  case (Suc n)
  have inj: "of_bits x = 1 \<Longrightarrow> x = oneb"
    using of_bits_inj [of x oneb] Suc.prems(1) by (simp add: of_bits_def)
  have "(mul3 ^^ n) (mul3 (of_bits x)) = 1 \<and> (\<forall>k<n. (mul3 ^^ k) (mul3 (of_bits x)) \<noteq> 1)"
    using Suc by (simp add: of_bits_mul3)
  moreover have "of_bits x \<noteq> 1" using inj Suc.prems(2) by auto
  ultimately show ?case
    by (auto simp: funpow_Suc_right less_Suc_eq_0_disj simp del: funpow.simps(2))
qed

lemma pow3_order: "pow3 255 = 1" "0 < k \<Longrightarrow> k < 255 \<Longrightarrow> pow3 k \<noteq> 1"
proof -
  have "(mul3 ^^ 254) (of_bits (mul3b oneb)) = 1 \<and> (\<forall>k<254. (mul3 ^^ k) (of_bits (mul3b oneb)) \<noteq> 1)"
    using order_bits by (intro first_return_steps) simp_all
  moreover have "of_bits (mul3b oneb) = mul3 1"
    using of_bits_mul3(1) [of oneb] by (simp add: of_bits_def)
  ultimately have o: "(mul3 ^^ 254) (mul3 1) = 1" "\<And>k. k < 254 \<Longrightarrow> (mul3 ^^ k) (mul3 1) \<noteq> 1" by simp_all
  have s: "pow3 (Suc k) = (mul3 ^^ k) (mul3 1)" for k by (simp add: pow3_def funpow_swap1)
  show "pow3 255 = 1" using o(1) s [of 254] by simp
  show "0 < k \<Longrightarrow> k < 255 \<Longrightarrow> pow3 k \<noteq> 1" using o(2) [of "k - 1"] s [of "k - 1"] by simp
qed

lemma pow3_add: "pow3 (i + j) = (mul3 ^^ i) (pow3 j)"
  by (simp add: pow3_def funpow_add)

lemma pow3_cong: "i mod 255 = j mod 255 \<Longrightarrow> pow3 i = pow3 j"
proof -
  have "pow3 (255 * m) = 1" for m
    by (induction m) (simp_all add: pow3_add [of 255] pow3_order(1) flip: pow3_def, simp add: pow3_def)
  then have "pow3 (j + 255 * m) = pow3 j" for j m
    using pow3_add [of j "255 * m"] by (simp add: pow3_def)
  then show "i mod 255 = j mod 255 \<Longrightarrow> pow3 i = pow3 j" by (metis mod_mult_div_eq)
qed

lemma mul3_0 [simp]: "(mul3 ^^ k) 0 = 0"
  by (induction k) (simp_all add: mul3_def)

lemma pow3_nonzero: "pow3 k \<noteq> 0"
proof
  assume "pow3 k = 0"
  then have "pow3 (254 * k + k) = 0" by (simp only: pow3_add mul3_0)
  moreover have "pow3 (254 * k + k) = pow3 0" by (rule pow3_cong) simp
  ultimately show False by (simp add: pow3_def)
qed

lemma pow3_eq_1: "pow3 k = 1 \<Longrightarrow> k mod 255 = 0"
  using pow3_cong [of k "k mod 255"] pow3_order(2) [of "k mod 255"] by (metis mod_less_divisor mod_mod_trivial neq0_conv zero_less_numeral)

lemma pow3_inj: "inj_on pow3 {..<255}"
proof (rule inj_onI)
  fix i j assume ij: "i \<in> {..<255}" "j \<in> {..<255}" "pow3 i = pow3 j"
  have "pow3 ((255 - i) + j) = pow3 ((255 - i) + i)" using ij(3) by (simp only: pow3_add)
  also have "\<dots> = 1" using ij(1) pow3_order(1) by simp
  finally have "((255 - i) + j) mod 255 = 0" by (rule pow3_eq_1)
  then show "i = j" using ij(1,2) by (simp add: mod_if split: if_splits)
qed

lemma nonzero_pow3:
  assumes "x \<noteq> 0"
  obtains k where "x = pow3 k"
proof -
  have "pow3 ` {..<255} = UNIV - {0}"
  proof (rule card_subset_eq)
    show "card (pow3 ` {..<255}) = card (UNIV - {0 :: byte})"
      by (simp add: card_image [OF pow3_inj] card_Diff_subset card_word)
  qed (use pow3_nonzero in auto)
  with assms that show ?thesis by auto
qed

lemma gf_inverse_pow3: "gf_inverse (pow3 k) = pow3 (254 * k)"
proof -
  have "gf_square (pow3 m) = pow3 (2 * m)" for m by (simp add: gf_square_def gf_muls_agree gf_mul_pow3_pow3 mult_2)
  then show ?thesis by (simp add: gf_inverse_def gf_muls_agree gf_mul_pow3_pow3 Let_def)
qed

lemma gf_inverse_unique:
  assumes "gf_mul x y = 1"
  shows "gf_inverse x = y" "gf_inverse y = x"
proof -
  have "x \<noteq> 0" using assms gf_bits_xor [of 8 x x y] by (auto simp: gf_mul_bits)
  moreover have "y \<noteq> 0" using assms by (auto simp: gf_mul_bits)
  ultimately obtain i j where ij: "x = pow3 i" "y = pow3 j" by (metis nonzero_pow3)
  with assms have z: "(i + j) mod 255 = 0" by (simp add: gf_mul_pow3_pow3 pow3_eq_1)
  have neg: "254 * a mod 255 = b mod 255" if "(a + b) mod 255 = 0" for a b :: nat
  proof -
    have "254 * a mod 255 = (254 * a + (a + b)) mod 255" using that by (metis add.right_neutral mod_add_right_eq)
    also have "254 * a + (a + b) = b + 255 * a" by simp
    finally show ?thesis by simp
  qed
  from neg [OF z] neg [of j i] z have "254 * i mod 255 = j mod 255" "254 * j mod 255 = i mod 255" by (simp_all add: add.commute)
  then show "gf_inverse x = y" "gf_inverse y = x" 
    by (simp_all add: ij gf_inverse_pow3) (rule pow3_cong; assumption)+
qed

section \<open>The tables\<close>

lemma gf_mul_bits_inv_affine:
  "length a = 8 \<Longrightarrow> length b = 8 \<Longrightarrow> gf_mul (of_bits a) (inv_affine_transform (of_bits b)) = of_bits (mulb a (inv_affineb b))"
proof -
  assume "length a = 8" "length b = 8"
  moreover from this(2) have "length (inv_affineb b) = 8" by (elim length_8E) simp
  ultimately show ?thesis by (simp add: of_bits_inv_affine of_bits_gf_mul flip: gf_muls_agree(1))
qed

lemma gf_mul_literal:
  "gf_mul (numeral a) (inv_affine_transform (numeral b)) = of_bits (mulb (num_bits a 8) (inv_affineb (num_bits b 8)))"
  "gf_mul (numeral a) (inv_affine_transform 1) = of_bits (mulb (num_bits a 8) (inv_affineb (num_bits num.One 8)))"
  "gf_mul (numeral a) (inv_affine_transform 0) = of_bits (mulb (num_bits a 8) (inv_affineb [False, False, False, False, False, False, False, False]))"
proof -
  have one: "(1 :: byte) = of_bits (num_bits num.One 8)" using numeral_bits [of num.One] by simp
  have zero: "(0 :: byte) = of_bits [False, False, False, False, False, False, False, False]" by (simp add: of_bits_def)
  show "gf_mul (numeral a) (inv_affine_transform (numeral b)) = of_bits (mulb (num_bits a 8) (inv_affineb (num_bits b 8)))"
    unfolding numeral_bits by (rule gf_mul_bits_inv_affine) (rule num_bits_nth)+
  show "gf_mul (numeral a) (inv_affine_transform 1) = of_bits (mulb (num_bits a 8) (inv_affineb (num_bits num.One 8)))"
    unfolding numeral_bits [of a] one by (rule gf_mul_bits_inv_affine) (rule num_bits_nth)+
  show "gf_mul (numeral a) (inv_affine_transform 0) = of_bits (mulb (num_bits a 8) (inv_affineb [False, False, False, False, False, False, False, False]))"
    unfolding numeral_bits [of a] zero by (rule gf_mul_bits_inv_affine) (simp_all add: num_bits_nth)
qed

lemma xorb_8: "xorb [a0, a1, a2, a3, a4, a5, a6, a7] [b0, b1, b2, b3, b4, b5, b6, b7] =
    [a0 \<noteq> b0, a1 \<noteq> b1, a2 \<noteq> b2, a3 \<noteq> b3, a4 \<noteq> b4, a5 \<noteq> b5, a6 \<noteq> b6, a7 \<noteq> b7]"
  by (simp add: xorb_def)

lemma replicate_literal: "replicate (numeral k) x = x # replicate (pred_numeral k) x"
  by (simp add: numeral_eq_Suc)

lemma of_bits_oneb: "of_bits oneb = 1"
  by (simp add: of_bits_def)

lemma sbox_products: "list_all2 (\<lambda>x s. gf_mul x (inv_affine_transform s) = 1) (map of_nat [2..<256]) (drop 2 SBOX)"
  unfolding SBOX_def
  by (simp add: gf_mul_literal xorb_8 of_bits_oneb replicate_literal)

lemma length_SBOX [simp]: "length SBOX = 256" "length INV_SBOX = 256"
  by (simp_all add: SBOX_def INV_SBOX_def)

lemma upt_256: "[0..<256] = 0 # 1 # [2..<256]"
  using upt_conv_Cons [of 0 256] upt_conv_Cons [of 1 256] by (simp add: numeral_2_eq_2 del: upt_rec_numeral)

lemma sbox_inv_sbox: "map (\<lambda>s. INV_SBOX ! unat s) SBOX = map of_nat [0..<256]"
  unfolding upt_256 by (simp add: SBOX_def INV_SBOX_def)

lemma unat_byte [simp]: "unat (x :: byte) < 256"
  using unat_lt2p [of x] by simp

lemma byte_of_unat: "of_nat (unat (x :: byte)) = x"
  by simp

lemma inv_sbox_sbox: "INV_SBOX ! unat (SBOX ! unat x) = x"
  using arg_cong [OF sbox_inv_sbox, of "\<lambda>l. l ! unat x"] by simp

lemma sbox_surj:
  obtains y :: byte where "x = SBOX ! unat y"
proof -
  have "inj (\<lambda>y :: byte. SBOX ! unat y)" by (rule inj_on_inverseI) (rule inv_sbox_sbox)
  then have "surj (\<lambda>y :: byte. SBOX ! unat y)" by (rule finite_UNIV_inj_surj [rotated]) simp
  from surjD [OF this, of x] that show ?thesis by blast
qed

lemma sbox_inv_affine:
  assumes "x \<noteq> 0"
  shows "gf_mul x (inv_affine_transform (SBOX ! unat x)) = 1"
proof (cases "x = 1")
  case True
  have "inv_affine_transform 0x7c = 1" by (simp add: inv_affine_transform_def parity_def Let_def)
  with True show ?thesis by (simp add: gf_mul_1 SBOX_def)
next
  case False
  have "unat x \<noteq> 0" using assms by (simp add: unat_eq_zero)
  moreover have "unat x \<noteq> 1" using False by (metis of_nat_1 byte_of_unat)
  ultimately obtain n where n: "unat x = 2 + n" 
    by (metis One_nat_def add_2_eq_Suc less_imp_Suc_add linorder_neqE_nat less_one)
  with unat_byte [of x] have n': "n < 254" by simp
  have "n < length (map of_nat [2..<256] :: byte list)" unfolding length_map length_upt using n' by linarith
  from list_all2_nthD [OF sbox_products this]
  have "gf_mul (map of_nat [2..<256] ! n) (inv_affine_transform (drop 2 SBOX ! n)) = 1" .
  moreover have len: "n < length [2..<256]" "2 + n < 256" unfolding length_upt using n' by linarith+
  then have "map of_nat [2..<256] ! n = (of_nat (2 + n) :: byte)" by (metis nth_map nth_upt)
  moreover have "of_nat (2 + n) = x" using n by (metis byte_of_unat)
  ultimately show ?thesis using n by simp
qed

lemma sbox_ct_table: "sbox_ct x = SBOX ! unat x"
proof (cases "x = 0")
  case True
  have "gf_inverse 0 = 0" by (simp add: gf_inverse_def gf_square_def gf_muls_agree gf_mul_bits Let_def)
  with True show ?thesis by (simp add: sbox_ct_def affine_transform_def parity_def Let_def SBOX_def)
next
  case False
  then show ?thesis using gf_inverse_unique(1) [OF sbox_inv_affine] by (simp add: sbox_ct_def affine_inverse)
qed

lemma inv_sbox_ct_table: "inv_sbox_ct x = INV_SBOX ! unat x"
proof -
  obtain y :: byte where y: "x = SBOX ! unat y" by (rule sbox_surj)
  show ?thesis
  proof (cases "y = 0")
    case True
    have "inv_affine_transform 0x63 = 0" "gf_inverse 0 = 0"
      by (simp_all add: inv_affine_transform_def parity_def Let_def gf_inverse_def gf_square_def gf_muls_agree gf_mul_bits)
    then have "inv_sbox_ct 0x63 = 0" by (simp add: inv_sbox_ct_def)
    moreover have "x = 0x63" using True y by (simp add: SBOX_def)
    ultimately show ?thesis by (simp add: INV_SBOX_def)
  next
    case False
    from gf_inverse_unique(2) [OF sbox_inv_affine [OF this]] show ?thesis
      unfolding inv_sbox_ct_def y inv_sbox_sbox .
  qed
qed

end
