(* ===== verification/Aes.thy ===== *)
theory Aes
  imports Aes_Field Crypto_Util
begin

unbundle bit_operations_syntax

text \<open>
  AES-128, AES-256 and the table-free AES-128 of \<^verbatim>\<open>lunar/crypto/aes.c\<close> (the first half of the file): round
  transformations on a state of sixteen bytes, key expansion, block encryption and decryption, counter
  mode and cipher block chaining. The three variants have functions of their own with the same bodies, as in
  the source. Loops that apply the same operation to each of the sixteen bytes are \<open>map\<close>. The second half of the
  file defines the ciphers again; it is modelled in \<open>Aes_Alt\<close>.
\<close>

section \<open>Cipher objects\<close>

record aes128 =
  a128_round_keys :: bytes

record aes256 =
  a256_round_keys :: bytes

record aes128ct =
  act_round_keys :: bytes

section \<open>AES-128\<close>

definition aes128_sub_bytes :: "bytes \<Rightarrow> bytes" where
  "aes128_sub_bytes st = map (\<lambda>b. SBOX ! unat b) st"

definition aes128_inv_sub_bytes :: "bytes \<Rightarrow> bytes" where
  "aes128_inv_sub_bytes st = map (\<lambda>b. INV_SBOX ! unat b) st"

definition aes128_shift_rows :: "bytes \<Rightarrow> bytes" where
  "aes128_shift_rows st =
     (let temp = st ! 1; st = st[1 := st ! 5]; st = st[5 := st ! 9]; st = st[9 := st ! 13]; st = st[13 := temp];
          temp0 = st ! 2; temp1 = st ! 6;
          st = st[2 := st ! 10]; st = st[6 := st ! 14]; st = st[10 := temp0]; st = st[14 := temp1];
          temp = st ! 15; st = st[15 := st ! 11]; st = st[11 := st ! 7]; st = st[7 := st ! 3]
      in st[3 := temp])"

definition aes128_inv_shift_rows :: "bytes \<Rightarrow> bytes" where
  "aes128_inv_shift_rows st =
     (let temp = st ! 13; st = st[13 := st ! 9]; st = st[9 := st ! 5]; st = st[5 := st ! 1]; st = st[1 := temp];
          temp0 = st ! 2; temp1 = st ! 6;
          st = st[2 := st ! 10]; st = st[6 := st ! 14]; st = st[10 := temp0]; st = st[14 := temp1];
          temp = st ! 3; st = st[3 := st ! 7]; st = st[7 := st ! 11]; st = st[11 := st ! 15]
      in st[15 := temp])"

definition aes128_mix_column :: "bytes \<Rightarrow> nat \<Rightarrow> bytes" where
  "aes128_mix_column st col =
     (let i = col * 4; s0 = st ! i; s1 = st ! (i + 1); s2 = st ! (i + 2); s3 = st ! (i + 3);
          st = st[i := gf_mul s0 2 XOR gf_mul s1 3 XOR s2 XOR s3];
          st = st[i + 1 := s0 XOR gf_mul s1 2 XOR gf_mul s2 3 XOR s3];
          st = st[i + 2 := s0 XOR s1 XOR gf_mul s2 2 XOR gf_mul s3 3]
      in st[i + 3 := gf_mul s0 3 XOR s1 XOR s2 XOR gf_mul s3 2])"

definition aes128_mix_columns :: "bytes \<Rightarrow> bytes" where
  "aes128_mix_columns st = foldl aes128_mix_column st [0, 1, 2, 3]"

definition aes128_inv_mix_column :: "bytes \<Rightarrow> nat \<Rightarrow> bytes" where
  "aes128_inv_mix_column st col =
     (let i = col * 4; s0 = st ! i; s1 = st ! (i + 1); s2 = st ! (i + 2); s3 = st ! (i + 3);
          st = st[i := gf_mul s0 0x0e XOR gf_mul s1 0x0b XOR gf_mul s2 0x0d XOR gf_mul s3 0x09];
          st = st[i + 1 := gf_mul s0 0x09 XOR gf_mul s1 0x0e XOR gf_mul s2 0x0b XOR gf_mul s3 0x0d];
          st = st[i + 2 := gf_mul s0 0x0d XOR gf_mul s1 0x09 XOR gf_mul s2 0x0e XOR gf_mul s3 0x0b]
      in st[i + 3 := gf_mul s0 0x0b XOR gf_mul s1 0x0d XOR gf_mul s2 0x09 XOR gf_mul s3 0x0e])"

definition aes128_inv_mix_columns :: "bytes \<Rightarrow> bytes" where
  "aes128_inv_mix_columns st = foldl aes128_inv_mix_column st [0, 1, 2, 3]"

text \<open>The round key is passed as a pointer into the round keys: the list from that position on.\<close>

definition aes128_add_round_key :: "bytes \<Rightarrow> bytes \<Rightarrow> bytes" where
  "aes128_add_round_key st round_key = map (\<lambda>i. st ! i XOR round_key ! i) [0..<16]"

fun increment_from :: "nat \<Rightarrow> bytes \<Rightarrow> bytes" where
  "increment_from 0 counter = counter"
| "increment_from (Suc i) counter =
     (let counter = counter[i := counter ! i + 1]
      in if counter ! i \<noteq> 0 then counter else increment_from i counter)"

definition aes128_increment_counter :: "bytes \<Rightarrow> bytes" where
  "aes128_increment_counter counter = increment_from 16 counter"

text \<open>One turn of the key expansion reads the last four bytes and those \<open>nk\<close> bytes back.\<close>

definition expand_temp :: "bytes \<Rightarrow> nat \<Rightarrow> bytes" where
  "expand_temp rk i = [rk ! (i - 4), rk ! (i - 3), rk ! (i - 2), rk ! (i - 1)]"

definition rotate_temp :: "bytes \<Rightarrow> bytes" where
  "rotate_temp temp =
     (let t = temp ! 0; temp = temp[0 := temp ! 1]; temp = temp[1 := temp ! 2]; temp = temp[2 := temp ! 3] in temp[3 := t])"

definition expand_write :: "nat \<Rightarrow> bytes \<Rightarrow> nat \<Rightarrow> bytes \<Rightarrow> bytes" where
  "expand_write nk rk i temp = foldl (\<lambda>rk j. rk[i + j := rk ! (i - nk + j) XOR temp ! j]) rk [0, 1, 2, 3]"

function aes128_expand_loop :: "bytes \<Rightarrow> nat \<Rightarrow> nat \<Rightarrow> bytes" where
  "aes128_expand_loop rk i rcon_idx =
     (if i < 176 then
        let temp = expand_temp rk i
        in if i mod 16 = 0 then
             let temp = rotate_temp temp;
                 temp = map (\<lambda>b. SBOX ! unat b) temp;
                 temp = temp[0 := temp ! 0 XOR RCON ! rcon_idx]
             in aes128_expand_loop (expand_write 16 rk i temp) (i + 4) (rcon_idx + 1)
           else aes128_expand_loop (expand_write 16 rk i temp) (i + 4) rcon_idx
      else rk)"
  by pat_completeness auto
termination
  by (relation "measure (\<lambda>(rk, i, r). 176 - i)") auto

declare aes128_expand_loop.simps [simp del]

definition aes128_key_expansion :: "aes128 \<Rightarrow> bytes \<Rightarrow> aes128" where
  "aes128_key_expansion cipher key =
     cipher\<lparr>a128_round_keys := aes128_expand_loop (memcpy (a128_round_keys cipher) 0 (slice key 0 16)) 16 1\<rparr>"

definition aes128_new :: "bytes \<Rightarrow> aes128" where
  "aes128_new key = aes128_key_expansion \<lparr>a128_round_keys = zeros 176\<rparr> key"

definition aes128_drop :: "aes128 \<Rightarrow> aes128" where
  "aes128_drop cipher = cipher\<lparr>a128_round_keys := secure_zero (a128_round_keys cipher)\<rparr>"

definition aes128_encrypt_round :: "aes128 \<Rightarrow> bytes \<Rightarrow> nat \<Rightarrow> bytes" where
  "aes128_encrypt_round cipher st round =
     aes128_add_round_key (aes128_mix_columns (aes128_shift_rows (aes128_sub_bytes st))) (drop (round * 16) (a128_round_keys cipher))"

definition aes128_encrypt_block :: "aes128 \<Rightarrow> bytes \<Rightarrow> bytes" where
  "aes128_encrypt_block cipher block =
     (let st = aes128_add_round_key block (a128_round_keys cipher);
          st = foldl (aes128_encrypt_round cipher) st [1, 2, 3, 4, 5, 6, 7, 8, 9]
      in aes128_add_round_key (aes128_shift_rows (aes128_sub_bytes st)) (drop 160 (a128_round_keys cipher)))"

definition aes128_decrypt_round :: "aes128 \<Rightarrow> bytes \<Rightarrow> nat \<Rightarrow> bytes" where
  "aes128_decrypt_round cipher st round =
     aes128_inv_mix_columns (aes128_add_round_key (aes128_inv_sub_bytes (aes128_inv_shift_rows st)) (drop (round * 16) (a128_round_keys cipher)))"

definition aes128_decrypt_block :: "aes128 \<Rightarrow> bytes \<Rightarrow> bytes" where
  "aes128_decrypt_block cipher block =
     (let st = aes128_add_round_key block (drop 160 (a128_round_keys cipher));
          st = foldl (aes128_decrypt_round cipher) st [9, 8, 7, 6, 5, 4, 3, 2, 1]
      in aes128_add_round_key (aes128_inv_sub_bytes (aes128_inv_shift_rows st)) (a128_round_keys cipher))"

section \<open>Modes\<close>

text \<open>The loops of the modes, with the block functions as arguments.\<close>

function aes_ctr_loop :: "(bytes \<Rightarrow> bytes) \<Rightarrow> (bytes \<Rightarrow> bytes) \<Rightarrow> bytes \<Rightarrow> nat \<Rightarrow> nat \<Rightarrow> bytes \<Rightarrow> bytes" where
  "aes_ctr_loop encrypt_block increment d data_len offset counter =
     (if offset < data_len then
        let keystream = encrypt_block counter;
            chunk_len = (if offset + 16 \<le> data_len then 16 else data_len - offset);
            d = memcpy d offset (map (\<lambda>i. d ! (offset + i) XOR keystream ! i) [0..<chunk_len])
        in aes_ctr_loop encrypt_block increment d data_len (offset + 16) (increment counter)
      else d)"
  by pat_completeness auto
termination
  by (relation "measure (\<lambda>(e, inc, d, n, i, c). n - i)") auto

declare aes_ctr_loop.simps [simp del]

definition aes128_encrypt_ctr :: "aes128 \<Rightarrow> bytes \<Rightarrow> bytes \<Rightarrow> bytes" where
  "aes128_encrypt_ctr cipher nonce d = aes_ctr_loop (aes128_encrypt_block cipher) aes128_increment_counter d (length d) 0 (slice nonce 0 16)"

definition aes128_decrypt_ctr :: "aes128 \<Rightarrow> bytes \<Rightarrow> bytes \<Rightarrow> bytes" where
  "aes128_decrypt_ctr cipher nonce d = aes128_encrypt_ctr cipher nonce d"

function cbc_encrypt_loop :: "(bytes \<Rightarrow> bytes) \<Rightarrow> bytes \<Rightarrow> nat \<Rightarrow> nat \<Rightarrow> bytes \<Rightarrow> bytes" where
  "cbc_encrypt_loop encrypt_block d data_len offset prev =
     (if offset < data_len then
        let d = memcpy d offset (map (\<lambda>i. d ! (offset + i) XOR prev ! i) [0..<16]);
            block = encrypt_block (slice d offset 16);
            d = memcpy d offset block
        in cbc_encrypt_loop encrypt_block d data_len (offset + 16) (slice d offset 16)
      else d)"
  by pat_completeness auto
termination
  by (relation "measure (\<lambda>(e, d, n, i, c). n - i)") auto

declare cbc_encrypt_loop.simps [simp del]

function cbc_decrypt_loop :: "(bytes \<Rightarrow> bytes) \<Rightarrow> bytes \<Rightarrow> nat \<Rightarrow> nat \<Rightarrow> bytes \<Rightarrow> bytes" where
  "cbc_decrypt_loop decrypt_block d data_len offset prev =
     (if offset < data_len then
        let saved = slice d offset 16;
            block = decrypt_block (slice d offset 16);
            block = map (\<lambda>i. block ! i XOR prev ! i) [0..<16];
            d = memcpy d offset block
        in cbc_decrypt_loop decrypt_block d data_len (offset + 16) saved
      else d)"
  by pat_completeness auto
termination
  by (relation "measure (\<lambda>(e, d, n, i, c). n - i)") auto

declare cbc_decrypt_loop.simps [simp del]

text \<open>\<open>None\<close> is the failed assertion on a length that is not a multiple of the block size.\<close>

definition aes128_encrypt_cbc :: "aes128 \<Rightarrow> bytes \<Rightarrow> bytes \<Rightarrow> bytes option" where
  "aes128_encrypt_cbc cipher iv d =
     (if length d mod 16 = 0 then Some (cbc_encrypt_loop (aes128_encrypt_block cipher) d (length d) 0 (slice iv 0 16)) else None)"

definition aes128_decrypt_cbc :: "aes128 \<Rightarrow> bytes \<Rightarrow> bytes \<Rightarrow> bytes option" where
  "aes128_decrypt_cbc cipher iv d =
     (if length d mod 16 = 0 then Some (cbc_decrypt_loop (aes128_decrypt_block cipher) d (length d) 0 (slice iv 0 16)) else None)"

section \<open>AES-256\<close>

definition sub_bytes_256 :: "bytes \<Rightarrow> bytes" where
  "sub_bytes_256 st = map (\<lambda>b. SBOX ! unat b) st"

definition inv_sub_bytes_256 :: "bytes \<Rightarrow> bytes" where
  "inv_sub_bytes_256 st = map (\<lambda>b. INV_SBOX ! unat b) st"

definition shift_rows_256 :: "bytes \<Rightarrow> bytes" where
  "shift_rows_256 st =
     (let temp = st ! 1; st = st[1 := st ! 5]; st = st[5 := st ! 9]; st = st[9 := st ! 13]; st = st[13 := temp];
          temp0 = st ! 2; temp1 = st ! 6;
          st = st[2 := st ! 10]; st = st[6 := st ! 14]; st = st[10 := temp0]; st = st[14 := temp1];
          temp = st ! 15; st = st[15 := st ! 11]; st = st[11 := st ! 7]; st = st[7 := st ! 3]
      in st[3 := temp])"

definition inv_shift_rows_256 :: "bytes \<Rightarrow> bytes" where
  "inv_shift_rows_256 st =
     (let temp = st ! 13; st = st[13 := st ! 9]; st = st[9 := st ! 5]; st = st[5 := st ! 1]; st = st[1 := temp];
          temp0 = st ! 2; temp1 = st ! 6;
          st = st[2 := st ! 10]; st = st[6 := st ! 14]; st = st[10 := temp0]; st = st[14 := temp1];
          temp = st ! 3; st = st[3 := st ! 7]; st = st[7 := st ! 11]; st = st[11 := st ! 15]
      in st[15 := temp])"

definition mix_column_256 :: "bytes \<Rightarrow> nat \<Rightarrow> bytes" where
  "mix_column_256 st col =
     (let i = col * 4; s0 = st ! i; s1 = st ! (i + 1); s2 = st ! (i + 2); s3 = st ! (i + 3);
          st = st[i := gf_mul s0 2 XOR gf_mul s1 3 XOR s2 XOR s3];
          st = st[i + 1 := s0 XOR gf_mul s1 2 XOR gf_mul s2 3 XOR s3];
          st = st[i + 2 := s0 XOR s1 XOR gf_mul s2 2 XOR gf_mul s3 3]
      in st[i + 3 := gf_mul s0 3 XOR s1 XOR s2 XOR gf_mul s3 2])"

definition mix_columns_256 :: "bytes \<Rightarrow> bytes" where
  "mix_columns_256 st = foldl mix_column_256 st [0, 1, 2, 3]"

definition inv_mix_column_256 :: "bytes \<Rightarrow> nat \<Rightarrow> bytes" where
  "inv_mix_column_256 st col =
     (let i = col * 4; s0 = st ! i; s1 = st ! (i + 1); s2 = st ! (i + 2); s3 = st ! (i + 3);
          st = st[i := gf_mul s0 0x0e XOR gf_mul s1 0x0b XOR gf_mul s2 0x0d XOR gf_mul s3 0x09];
          st = st[i + 1 := gf_mul s0 0x09 XOR gf_mul s1 0x0e XOR gf_mul s2 0x0b XOR gf_mul s3 0x0d];
          st = st[i + 2 := gf_mul s0 0x0d XOR gf_mul s1 0x09 XOR gf_mul s2 0x0e XOR gf_mul s3 0x0b]
      in st[i + 3 := gf_mul s0 0x0b XOR gf_mul s1 0x0d XOR gf_mul s2 0x09 XOR gf_mul s3 0x0e])"

definition inv_mix_columns_256 :: "bytes \<Rightarrow> bytes" where
  "inv_mix_columns_256 st = foldl inv_mix_column_256 st [0, 1, 2, 3]"

definition add_round_key_256 :: "bytes \<Rightarrow> bytes \<Rightarrow> bytes" where
  "add_round_key_256 st round_key = map (\<lambda>i. st ! i XOR round_key ! i) [0..<16]"

definition increment_counter_256 :: "bytes \<Rightarrow> bytes" where
  "increment_counter_256 counter = increment_from 16 counter"

function aes256_expand_loop :: "bytes \<Rightarrow> nat \<Rightarrow> nat \<Rightarrow> bytes" where
  "aes256_expand_loop rk i rcon_idx =
     (if i < 240 then
        let temp = expand_temp rk i
        in if i mod 32 = 0 then
             let temp = rotate_temp temp;
                 temp = map (\<lambda>b. SBOX ! unat b) temp;
                 temp = temp[0 := temp ! 0 XOR RCON ! rcon_idx]
             in aes256_expand_loop (expand_write 32 rk i temp) (i + 4) (rcon_idx + 1)
           else if i mod 32 = 16 then
             aes256_expand_loop (expand_write 32 rk i (map (\<lambda>b. SBOX ! unat b) temp)) (i + 4) rcon_idx
           else aes256_expand_loop (expand_write 32 rk i temp) (i + 4) rcon_idx
      else rk)"
  by pat_completeness auto
termination
  by (relation "measure (\<lambda>(rk, i, r). 240 - i)") auto

declare aes256_expand_loop.simps [simp del]

definition aes256_key_expansion :: "aes256 \<Rightarrow> bytes \<Rightarrow> aes256" where
  "aes256_key_expansion cipher key =
     cipher\<lparr>a256_round_keys := aes256_expand_loop (memcpy (a256_round_keys cipher) 0 (slice key 0 32)) 32 1\<rparr>"

definition aes256_new :: "bytes \<Rightarrow> aes256" where
  "aes256_new key = aes256_key_expansion \<lparr>a256_round_keys = zeros 240\<rparr> key"

definition aes256_drop :: "aes256 \<Rightarrow> aes256" where
  "aes256_drop cipher = cipher\<lparr>a256_round_keys := secure_zero (a256_round_keys cipher)\<rparr>"

definition aes256_encrypt_round :: "aes256 \<Rightarrow> bytes \<Rightarrow> nat \<Rightarrow> bytes" where
  "aes256_encrypt_round cipher st round =
     add_round_key_256 (mix_columns_256 (shift_rows_256 (sub_bytes_256 st))) (drop (round * 16) (a256_round_keys cipher))"

definition aes256_encrypt_block :: "aes256 \<Rightarrow> bytes \<Rightarrow> bytes" where
  "aes256_encrypt_block cipher block =
     (let st = add_round_key_256 block (a256_round_keys cipher);
          st = foldl (aes256_encrypt_round cipher) st [1, 2, 3, 4, 5, 6, 7, 8, 9, 10, 11, 12, 13]
      in add_round_key_256 (shift_rows_256 (sub_bytes_256 st)) (drop 224 (a256_round_keys cipher)))"

definition aes256_decrypt_round :: "aes256 \<Rightarrow> bytes \<Rightarrow> nat \<Rightarrow> bytes" where
  "aes256_decrypt_round cipher st round =
     inv_mix_columns_256 (add_round_key_256 (inv_sub_bytes_256 (inv_shift_rows_256 st)) (drop (round * 16) (a256_round_keys cipher)))"

definition aes256_decrypt_block :: "aes256 \<Rightarrow> bytes \<Rightarrow> bytes" where
  "aes256_decrypt_block cipher block =
     (let st = add_round_key_256 block (drop 224 (a256_round_keys cipher));
          st = foldl (aes256_decrypt_round cipher) st [13, 12, 11, 10, 9, 8, 7, 6, 5, 4, 3, 2, 1]
      in add_round_key_256 (inv_sub_bytes_256 (inv_shift_rows_256 st)) (a256_round_keys cipher))"

definition aes256_encrypt_ctr :: "aes256 \<Rightarrow> bytes \<Rightarrow> bytes \<Rightarrow> bytes" where
  "aes256_encrypt_ctr cipher nonce d = aes_ctr_loop (aes256_encrypt_block cipher) increment_counter_256 d (length d) 0 (slice nonce 0 16)"

definition aes256_decrypt_ctr :: "aes256 \<Rightarrow> bytes \<Rightarrow> bytes \<Rightarrow> bytes" where
  "aes256_decrypt_ctr cipher nonce d = aes256_encrypt_ctr cipher nonce d"

section \<open>AES-128 without tables\<close>

definition aes128ct_sub_bytes_ct :: "bytes \<Rightarrow> bytes" where
  "aes128ct_sub_bytes_ct st = map sbox_ct st"

definition aes128ct_inv_sub_bytes_ct :: "bytes \<Rightarrow> bytes" where
  "aes128ct_inv_sub_bytes_ct st = map inv_sbox_ct st"

definition aes128ct_shift_rows :: "bytes \<Rightarrow> bytes" where
  "aes128ct_shift_rows st =
     (let temp = st ! 1; st = st[1 := st ! 5]; st = st[5 := st ! 9]; st = st[9 := st ! 13]; st = st[13 := temp];
          temp0 = st ! 2; temp1 = st ! 6;
          st = st[2 := st ! 10]; st = st[6 := st ! 14]; st = st[10 := temp0]; st = st[14 := temp1];
          temp = st ! 15; st = st[15 := st ! 11]; st = st[11 := st ! 7]; st = st[7 := st ! 3]
      in st[3 := temp])"

definition aes128ct_inv_shift_rows :: "bytes \<Rightarrow> bytes" where
  "aes128ct_inv_shift_rows st =
     (let temp = st ! 13; st = st[13 := st ! 9]; st = st[9 := st ! 5]; st = st[5 := st ! 1]; st = st[1 := temp];
          temp0 = st ! 2; temp1 = st ! 6;
          st = st[2 := st ! 10]; st = st[6 := st ! 14]; st = st[10 := temp0]; st = st[14 := temp1];
          temp = st ! 3; st = st[3 := st ! 7]; st = st[7 := st ! 11]; st = st[11 := st ! 15]
      in st[15 := temp])"

definition aes128ct_mix_column :: "bytes \<Rightarrow> nat \<Rightarrow> bytes" where
  "aes128ct_mix_column st col =
     (let i = col * 4; s0 = st ! i; s1 = st ! (i + 1); s2 = st ! (i + 2); s3 = st ! (i + 3);
          st = st[i := gf_mul s0 2 XOR gf_mul s1 3 XOR s2 XOR s3];
          st = st[i + 1 := s0 XOR gf_mul s1 2 XOR gf_mul s2 3 XOR s3];
          st = st[i + 2 := s0 XOR s1 XOR gf_mul s2 2 XOR gf_mul s3 3]
      in st[i + 3 := gf_mul s0 3 XOR s1 XOR s2 XOR gf_mul s3 2])"

definition aes128ct_mix_columns :: "bytes \<Rightarrow> bytes" where
  "aes128ct_mix_columns st = foldl aes128ct_mix_column st [0, 1, 2, 3]"

definition aes128ct_inv_mix_column :: "bytes \<Rightarrow> nat \<Rightarrow> bytes" where
  "aes128ct_inv_mix_column st col =
     (let i = col * 4; s0 = st ! i; s1 = st ! (i + 1); s2 = st ! (i + 2); s3 = st ! (i + 3);
          st = st[i := gf_mul s0 0x0e XOR gf_mul s1 0x0b XOR gf_mul s2 0x0d XOR gf_mul s3 0x09];
          st = st[i + 1 := gf_mul s0 0x09 XOR gf_mul s1 0x0e XOR gf_mul s2 0x0b XOR gf_mul s3 0x0d];
          st = st[i + 2 := gf_mul s0 0x0d XOR gf_mul s1 0x09 XOR gf_mul s2 0x0e XOR gf_mul s3 0x0b]
      in st[i + 3 := gf_mul s0 0x0b XOR gf_mul s1 0x0d XOR gf_mul s2 0x09 XOR gf_mul s3 0x0e])"

definition aes128ct_inv_mix_columns :: "bytes \<Rightarrow> bytes" where
  "aes128ct_inv_mix_columns st = foldl aes128ct_inv_mix_column st [0, 1, 2, 3]"

definition aes128ct_add_round_key :: "bytes \<Rightarrow> bytes \<Rightarrow> bytes" where
  "aes128ct_add_round_key st round_key = map (\<lambda>i. st ! i XOR round_key ! i) [0..<16]"

definition aes128ct_increment_counter :: "bytes \<Rightarrow> bytes" where
  "aes128ct_increment_counter counter = increment_from 16 counter"

function aes128ct_expand_loop :: "bytes \<Rightarrow> nat \<Rightarrow> nat \<Rightarrow> bytes" where
  "aes128ct_expand_loop rk i rcon_idx =
     (if i < 176 then
        let temp = expand_temp rk i
        in if i mod 16 = 0 then
             let temp = rotate_temp temp;
                 temp = map sbox_ct temp;
                 temp = temp[0 := temp ! 0 XOR RCON ! rcon_idx]
             in aes128ct_expand_loop (expand_write 16 rk i temp) (i + 4) (rcon_idx + 1)
           else aes128ct_expand_loop (expand_write 16 rk i temp) (i + 4) rcon_idx
      else rk)"
  by pat_completeness auto
termination
  by (relation "measure (\<lambda>(rk, i, r). 176 - i)") auto

declare aes128ct_expand_loop.simps [simp del]

definition aes128ct_key_expansion :: "aes128ct \<Rightarrow> bytes \<Rightarrow> aes128ct" where
  "aes128ct_key_expansion cipher key =
     cipher\<lparr>act_round_keys := aes128ct_expand_loop (memcpy (act_round_keys cipher) 0 (slice key 0 16)) 16 1\<rparr>"

definition aes128ct_new :: "bytes \<Rightarrow> aes128ct" where
  "aes128ct_new key = aes128ct_key_expansion \<lparr>act_round_keys = zeros 176\<rparr> key"

definition aes128ct_drop :: "aes128ct \<Rightarrow> aes128ct" where
  "aes128ct_drop cipher = cipher\<lparr>act_round_keys := secure_zero (act_round_keys cipher)\<rparr>"

definition aes128ct_encrypt_round :: "aes128ct \<Rightarrow> bytes \<Rightarrow> nat \<Rightarrow> bytes" where
  "aes128ct_encrypt_round cipher st round =
     aes128ct_add_round_key (aes128ct_mix_columns (aes128ct_shift_rows (aes128ct_sub_bytes_ct st))) (drop (round * 16) (act_round_keys cipher))"

definition aes128ct_encrypt_block :: "aes128ct \<Rightarrow> bytes \<Rightarrow> bytes" where
  "aes128ct_encrypt_block cipher block =
     (let st = aes128ct_add_round_key block (act_round_keys cipher);
          st = foldl (aes128ct_encrypt_round cipher) st [1, 2, 3, 4, 5, 6, 7, 8, 9]
      in aes128ct_add_round_key (aes128ct_shift_rows (aes128ct_sub_bytes_ct st)) (drop 160 (act_round_keys cipher)))"

definition aes128ct_decrypt_round :: "aes128ct \<Rightarrow> bytes \<Rightarrow> nat \<Rightarrow> bytes" where
  "aes128ct_decrypt_round cipher st round =
     aes128ct_inv_mix_columns (aes128ct_add_round_key (aes128ct_inv_sub_bytes_ct (aes128ct_inv_shift_rows st)) (drop (round * 16) (act_round_keys cipher)))"

definition aes128ct_decrypt_block :: "aes128ct \<Rightarrow> bytes \<Rightarrow> bytes" where
  "aes128ct_decrypt_block cipher block =
     (let st = aes128ct_add_round_key block (drop 160 (act_round_keys cipher));
          st = foldl (aes128ct_decrypt_round cipher) st [9, 8, 7, 6, 5, 4, 3, 2, 1]
      in aes128ct_add_round_key (aes128ct_inv_sub_bytes_ct (aes128ct_inv_shift_rows st)) (act_round_keys cipher))"

definition aes128ct_encrypt_ctr :: "aes128ct \<Rightarrow> bytes \<Rightarrow> bytes \<Rightarrow> bytes" where
  "aes128ct_encrypt_ctr cipher nonce d = aes_ctr_loop (aes128ct_encrypt_block cipher) aes128ct_increment_counter d (length d) 0 (slice nonce 0 16)"

definition aes128ct_decrypt_ctr :: "aes128ct \<Rightarrow> bytes \<Rightarrow> bytes \<Rightarrow> bytes" where
  "aes128ct_decrypt_ctr cipher nonce d = aes128ct_encrypt_ctr cipher nonce d"

end
