(* ===== verification/Aes_Correct.thy ===== *)
theory Aes_Correct
  imports Aes
begin

unbundle bit_operations_syntax

text \<open>
  What the ciphers of \<open>Aes\<close> do: every round transformation undoes its inverse, so decryption undoes
  encryption for all three variants; the variant without tables is the one with tables; the key schedule is that of
  FIPS 197; the modes undo themselves, and the counter never repeats before it wraps around.
\<close>

section \<open>A cipher made of rounds\<close>

text \<open>The contract of the round transformations on states of sixteen bytes.\<close>

locale round_functions =
  fixes sub inv_sub shift inv_shift mix inv_mix :: "bytes \<Rightarrow> bytes" and add_key :: "bytes \<Rightarrow> bytes \<Rightarrow> bytes"
  assumes sub_length: "length st = 16 \<Longrightarrow> length (sub st) = 16"
    and shift_length: "length st = 16 \<Longrightarrow> length (shift st) = 16"
    and mix_length: "length st = 16 \<Longrightarrow> length (mix st) = 16"
    and key_length: "length (add_key st k) = 16"
    and inv_sub_sub: "length st = 16 \<Longrightarrow> inv_sub (sub st) = st"
    and inv_shift_shift: "length st = 16 \<Longrightarrow> inv_shift (shift st) = st"
    and inv_mix_mix: "length st = 16 \<Longrightarrow> inv_mix (mix st) = st"
    and add_key_twice: "length st = 16 \<Longrightarrow> add_key (add_key st k) k = st"
begin

lemma rounds_length:
  "length st = 16 \<Longrightarrow> length (foldl (\<lambda>st r. add_key (mix (shift (sub st))) (k r)) st rs) = 16"
  by (induction rs arbitrary: st) (simp_all add: key_length)

lemma rounds_invert:
  "length st = 16 \<Longrightarrow>
   foldl (\<lambda>st r. inv_mix (add_key (inv_sub (inv_shift st)) (k r)))
     (shift (sub (foldl (\<lambda>st r. add_key (mix (shift (sub st))) (k r)) st rs))) (rev rs) = shift (sub st)"
proof (induction rs rule: rev_induct)
  case (snoc r rs)
  let ?t = "foldl (\<lambda>st r. add_key (mix (shift (sub st))) (k r)) st rs"
  have t: "length ?t = 16" by (rule rounds_length [OF snoc.prems])
  have "inv_mix (add_key (inv_sub (inv_shift (shift (sub (add_key (mix (shift (sub ?t))) (k r)))))) (k r)) = shift (sub ?t)"
    using t by (simp add: sub_length shift_length mix_length key_length inv_sub_sub inv_shift_shift inv_mix_mix add_key_twice)
  with snoc show ?case by simp
qed simp

lemma block_invert:
  assumes "length b = 16"
  shows "add_key (inv_sub (inv_shift (foldl (\<lambda>st r. inv_mix (add_key (inv_sub (inv_shift st)) (k r)))
      (add_key (add_key (shift (sub (foldl (\<lambda>st r. add_key (mix (shift (sub st))) (k r)) (add_key b k0) rs))) kn) kn) (rev rs)))) k0 = b"
proof -
  have "length (foldl (\<lambda>st r. add_key (mix (shift (sub st))) (k r)) (add_key b k0) rs) = 16"
    by (rule rounds_length) (rule key_length)
  then show ?thesis using assms
    by (simp add: add_key_twice sub_length shift_length rounds_invert key_length inv_sub_sub inv_shift_shift)
qed

end

section \<open>The round transformations\<close>

lemma length_16E:
  assumes "length (st :: 'a list) = 16"
  obtains a0 a1 a2 a3 a4 a5 a6 a7 a8 a9 a10 a11 a12 a13 a14 a15
  where "st = [a0, a1, a2, a3, a4, a5, a6, a7, a8, a9, a10, a11, a12, a13, a14, a15]"
  using assms by (auto simp: eval_nat_numeral length_Suc_conv)

lemma sub_bytes_facts:
  "aes128_inv_sub_bytes (aes128_sub_bytes st) = st" "length (aes128_sub_bytes st) = length st"
  by (simp_all add: aes128_inv_sub_bytes_def aes128_sub_bytes_def inv_sbox_sbox comp_def)

lemma shift_rows_facts:
  "length st = 16 \<Longrightarrow> aes128_inv_shift_rows (aes128_shift_rows st) = st" "length (aes128_shift_rows st) = length st"
proof -
  show "length st = 16 \<Longrightarrow> aes128_inv_shift_rows (aes128_shift_rows st) = st"
    by (erule length_16E) (simp add: aes128_inv_shift_rows_def aes128_shift_rows_def Let_def)
qed (simp add: aes128_shift_rows_def Let_def)

lemma xor_self_left: "a XOR (a XOR b) = (b :: byte)"
  by (simp flip: xor.assoc)

text \<open>One column: the two matrices are inverse to each other.\<close>

lemma unmix:
  fixes s0 s1 s2 s3 :: byte
  defines "m0 \<equiv> gf_mul s0 2 XOR gf_mul s1 3 XOR s2 XOR s3" and "m1 \<equiv> s0 XOR gf_mul s1 2 XOR gf_mul s2 3 XOR s3"
    and "m2 \<equiv> s0 XOR s1 XOR gf_mul s2 2 XOR gf_mul s3 3" and "m3 \<equiv> gf_mul s0 3 XOR s1 XOR s2 XOR gf_mul s3 2"
  shows "gf_mul m0 0x0e XOR gf_mul m1 0x0b XOR gf_mul m2 0x0d XOR gf_mul m3 0x09 = s0"
    "gf_mul m0 0x09 XOR gf_mul m1 0x0e XOR gf_mul m2 0x0b XOR gf_mul m3 0x0d = s1"
    "gf_mul m0 0x0d XOR gf_mul m1 0x09 XOR gf_mul m2 0x0e XOR gf_mul m3 0x0b = s2"
    "gf_mul m0 0x0b XOR gf_mul m1 0x0d XOR gf_mul m2 0x09 XOR gf_mul m3 0x0e = s3"
  unfolding m0_def m1_def m2_def m3_def gf_mul_small
  by (simp_all add: xtime_xor xor.assoc xor.left_commute xor.commute xor_self_left)

lemma mix_columns_facts:
  "length st = 16 \<Longrightarrow> aes128_inv_mix_columns (aes128_mix_columns st) = st" "length (aes128_mix_columns st) = length st"
proof -
  show "length st = 16 \<Longrightarrow> aes128_inv_mix_columns (aes128_mix_columns st) = st"
    by (erule length_16E)
       (simp add: aes128_inv_mix_columns_def aes128_mix_columns_def aes128_inv_mix_column_def aes128_mix_column_def Let_def unmix)
qed (simp add: aes128_mix_columns_def aes128_mix_column_def Let_def)

lemma add_round_key_facts:
  "length st = 16 \<Longrightarrow> aes128_add_round_key (aes128_add_round_key st k) k = st" "length (aes128_add_round_key st k) = 16"
  by (auto simp: aes128_add_round_key_def xor.assoc intro!: nth_equalityI)

interpretation aes128: round_functions aes128_sub_bytes aes128_inv_sub_bytes aes128_shift_rows aes128_inv_shift_rows
  aes128_mix_columns aes128_inv_mix_columns aes128_add_round_key
  by unfold_locales (simp_all add: sub_bytes_facts shift_rows_facts mix_columns_facts add_round_key_facts)


text \<open>The bodies of the other variants are the same.\<close>

lemma same_bodies_256:
  "sub_bytes_256 = aes128_sub_bytes" "inv_sub_bytes_256 = aes128_inv_sub_bytes" "shift_rows_256 = aes128_shift_rows"
  "inv_shift_rows_256 = aes128_inv_shift_rows" "mix_columns_256 = aes128_mix_columns" "inv_mix_columns_256 = aes128_inv_mix_columns"
  "add_round_key_256 = aes128_add_round_key" "increment_counter_256 = aes128_increment_counter"
proof -
  have "mix_column_256 = aes128_mix_column" "inv_mix_column_256 = aes128_inv_mix_column"
    by (intro ext, simp only: mix_column_256_def aes128_mix_column_def inv_mix_column_256_def aes128_inv_mix_column_def)+
  then show "mix_columns_256 = aes128_mix_columns" "inv_mix_columns_256 = aes128_inv_mix_columns"
    by (intro ext, simp only: mix_columns_256_def aes128_mix_columns_def inv_mix_columns_256_def aes128_inv_mix_columns_def)+
qed (intro ext, simp only: sub_bytes_256_def inv_sub_bytes_256_def shift_rows_256_def inv_shift_rows_256_def add_round_key_256_def
  increment_counter_256_def aes128_sub_bytes_def aes128_inv_sub_bytes_def aes128_shift_rows_def aes128_inv_shift_rows_def
  aes128_add_round_key_def aes128_increment_counter_def)+

lemma sbox_ct_fun: "sbox_ct = (\<lambda>b. SBOX ! unat b)" "inv_sbox_ct = (\<lambda>b. INV_SBOX ! unat b)"
  by (simp_all add: sbox_ct_table inv_sbox_ct_table fun_eq_iff)

lemma same_bodies_ct:
  "aes128ct_sub_bytes_ct = aes128_sub_bytes" "aes128ct_inv_sub_bytes_ct = aes128_inv_sub_bytes" "aes128ct_shift_rows = aes128_shift_rows"
  "aes128ct_inv_shift_rows = aes128_inv_shift_rows" "aes128ct_mix_columns = aes128_mix_columns" "aes128ct_inv_mix_columns = aes128_inv_mix_columns"
  "aes128ct_add_round_key = aes128_add_round_key" "aes128ct_increment_counter = aes128_increment_counter"
proof -
  have "aes128ct_mix_column = aes128_mix_column" "aes128ct_inv_mix_column = aes128_inv_mix_column"
    by (intro ext, simp only: aes128ct_mix_column_def aes128_mix_column_def aes128ct_inv_mix_column_def aes128_inv_mix_column_def)+
  then show "aes128ct_mix_columns = aes128_mix_columns" "aes128ct_inv_mix_columns = aes128_inv_mix_columns"
    by (intro ext, simp only: aes128ct_mix_columns_def aes128_mix_columns_def aes128ct_inv_mix_columns_def aes128_inv_mix_columns_def)+
qed (intro ext, simp only: aes128ct_sub_bytes_ct_def aes128ct_inv_sub_bytes_ct_def aes128ct_shift_rows_def aes128ct_inv_shift_rows_def
  aes128ct_add_round_key_def aes128ct_increment_counter_def aes128_sub_bytes_def aes128_inv_sub_bytes_def aes128_shift_rows_def
  aes128_inv_shift_rows_def aes128_add_round_key_def aes128_increment_counter_def sbox_ct_fun)+

interpretation aes256: round_functions sub_bytes_256 inv_sub_bytes_256 shift_rows_256 inv_shift_rows_256
  mix_columns_256 inv_mix_columns_256 add_round_key_256
  unfolding same_bodies_256 by (rule aes128.round_functions_axioms)

interpretation aes128ct: round_functions aes128ct_sub_bytes_ct aes128ct_inv_sub_bytes_ct aes128ct_shift_rows aes128ct_inv_shift_rows
  aes128ct_mix_columns aes128ct_inv_mix_columns aes128ct_add_round_key
  unfolding same_bodies_ct by (rule aes128.round_functions_axioms)

section \<open>Blocks\<close>

lemma aes128_block_inverse: "length b = 16 \<Longrightarrow> aes128_decrypt_block c (aes128_encrypt_block c b) = b"
  using aes128.block_invert [of b "\<lambda>r. drop (r * 16) (a128_round_keys c)" "a128_round_keys c" "[1, 2, 3, 4, 5, 6, 7, 8, 9]" "drop 160 (a128_round_keys c)"]
  by (simp add: aes128_decrypt_block_def aes128_encrypt_block_def aes128_decrypt_round_def [abs_def] aes128_encrypt_round_def [abs_def])

lemma aes256_block_inverse: "length b = 16 \<Longrightarrow> aes256_decrypt_block c (aes256_encrypt_block c b) = b"
  using aes256.block_invert [of b "\<lambda>r. drop (r * 16) (a256_round_keys c)" "a256_round_keys c"
    "[1, 2, 3, 4, 5, 6, 7, 8, 9, 10, 11, 12, 13]" "drop 224 (a256_round_keys c)"]
  by (simp add: aes256_decrypt_block_def aes256_encrypt_block_def aes256_decrypt_round_def [abs_def] aes256_encrypt_round_def [abs_def])

lemma aes128ct_block_inverse: "length b = 16 \<Longrightarrow> aes128ct_decrypt_block c (aes128ct_encrypt_block c b) = b"
  using aes128ct.block_invert [of b "\<lambda>r. drop (r * 16) (act_round_keys c)" "act_round_keys c" "[1, 2, 3, 4, 5, 6, 7, 8, 9]" "drop 160 (act_round_keys c)"]
  by (simp add: aes128ct_decrypt_block_def aes128ct_encrypt_block_def aes128ct_decrypt_round_def [abs_def] aes128ct_encrypt_round_def [abs_def])

lemma length_encrypt_block [simp]:
  "length (aes128_encrypt_block c b) = 16" "length (aes256_encrypt_block c' b) = 16" "length (aes128ct_encrypt_block c'' b) = 16"
  by (simp_all add: aes128_encrypt_block_def aes256_encrypt_block_def aes128ct_encrypt_block_def Let_def aes128.key_length aes256.key_length aes128ct.key_length)


section \<open>The variant without tables\<close>

lemma expand_ct: "aes128ct_expand_loop rk i r = aes128_expand_loop rk i r"
proof (induction rk i r rule: aes128_expand_loop.induct)
  case (1 rk i r)
  then show ?case
    by (subst aes128ct_expand_loop.simps, subst aes128_expand_loop.simps) (simp add: Let_def sbox_ct_fun)
qed

lemma ct_same_keys: "act_round_keys (aes128ct_new key) = a128_round_keys (aes128_new key)"
  by (simp add: aes128ct_new_def aes128_new_def aes128ct_key_expansion_def aes128_key_expansion_def expand_ct)

lemma ct_same_block:
  assumes "act_round_keys c = a128_round_keys c'"
  shows "aes128ct_encrypt_block c b = aes128_encrypt_block c' b" "aes128ct_decrypt_block c b = aes128_decrypt_block c' b"
  by (simp_all add: aes128ct_encrypt_block_def aes128_encrypt_block_def aes128ct_decrypt_block_def aes128_decrypt_block_def
    aes128ct_encrypt_round_def [abs_def] aes128_encrypt_round_def [abs_def] aes128ct_decrypt_round_def [abs_def] aes128_decrypt_round_def [abs_def]
    same_bodies_ct assms)

section \<open>The key schedule\<close>

text \<open>The key schedule of FIPS 197, word by word: \<open>nk\<close> key words, each further word from the previous one and the one \<open>nk\<close> back.\<close>

definition xor_word :: "bytes \<Rightarrow> bytes \<Rightarrow> bytes" where
  "xor_word a b = map2 (XOR) a b"

definition sub_word :: "bytes \<Rightarrow> bytes" where
  "sub_word w = map (\<lambda>b. SBOX ! unat b) w"

definition rcon_word :: "nat \<Rightarrow> bytes" where
  "rcon_word j = [(xtime ^^ (j - 1)) 1, 0, 0, 0]"

function schedule :: "nat \<Rightarrow> bytes \<Rightarrow> nat \<Rightarrow> bytes" where
  "schedule nk key i =
     (if i < nk \<or> nk = 0 then slice key (4 * i) 4
      else let temp = schedule nk key (i - 1)
           in xor_word (schedule nk key (i - nk))
                (if i mod nk = 0 then xor_word (sub_word (rotate1 temp)) (rcon_word (i div nk))
                 else if 6 < nk \<and> i mod nk = 4 then sub_word temp else temp))"
  by pat_completeness auto
termination
  by (relation "measure (\<lambda>(nk, key, i). i)") auto

declare schedule.simps [simp del]

text \<open>The first \<open>w\<close> words of the round keys are those of the schedule.\<close>

definition scheduled :: "nat \<Rightarrow> bytes \<Rightarrow> nat \<Rightarrow> bytes \<Rightarrow> nat \<Rightarrow> bool" where
  "scheduled nk key n rk w \<longleftrightarrow> length rk = 4 * n \<and> (\<forall>v<w. slice rk (4 * v) 4 = schedule nk key v)"

lemma slice_4: "pos + 4 \<le> length xs \<Longrightarrow> slice xs pos 4 = [xs ! pos, xs ! (pos + 1), xs ! (pos + 2), xs ! (pos + 3)]"
  by (intro nth_equalityI) (auto simp: slice_def nth_Cons' less_Suc_eq numeral_eq_Suc)

lemma list4_iff: "length xs = 4 \<longleftrightarrow> (\<exists>a b c d. xs = [a, b, c, d])"
  by (auto simp: eval_nat_numeral length_Suc_conv)

lemma expand_temp_slice: "0 < w \<Longrightarrow> 4 * w \<le> length rk \<Longrightarrow> expand_temp rk (4 * w) = slice rk (4 * (w - 1)) 4"
proof -
  assume "0 < w" "4 * w \<le> length rk"
  then obtain v where v: "w = Suc v" "4 * v + 4 \<le> length rk" by (cases w) auto
  have "4 * w - 4 = 4 * v" "4 * w - 3 = 4 * v + 1" "4 * w - 2 = 4 * v + 2" "4 * w - 1 = 4 * v + 3" using v(1) by simp_all
  with slice_4 [OF v(2)] v(1) show ?thesis by (simp add: expand_temp_def add.commute)
qed

lemma rotate_temp_rotate1: "length t = 4 \<Longrightarrow> rotate_temp t = rotate1 t"
  by (auto simp: list4_iff rotate_temp_def)

lemma xor_rcon: "length t = 4 \<Longrightarrow> t[0 := t ! 0 XOR (xtime ^^ (r - 1)) 1] = xor_word t (rcon_word r)"
  by (auto simp: list4_iff xor_word_def rcon_word_def)

lemma length_sub_word [simp]: "length (sub_word t) = length t"
  by (simp add: sub_word_def)

lemma length_xor_word [simp]: "length (xor_word a b) = min (length a) (length b)"
  by (simp add: xor_word_def)

lemma expand_write_memcpy:
  assumes "4 * w + 4 \<le> length rk" "0 < n" "n \<le> w" "length t = 4"
  shows "expand_write (4 * n) rk (4 * w) t = memcpy rk (4 * w) (xor_word (slice rk (4 * (w - n)) 4) t)"
proof -
  obtain a b c d where t: "t = [a, b, c, d]" using assms(4) by (auto simp: list4_iff)
  have i: "4 * w - 4 * n = 4 * (w - n)" "4 * (w - n) + 4 \<le> 4 * w" using assms(2,3) by auto
  then have "slice rk (4 * (w - n)) 4 = [rk ! (4 * (w - n)), rk ! (4 * (w - n) + 1), rk ! (4 * (w - n) + 2), rk ! (4 * (w - n) + 3)]"
    using assms(1) by (intro slice_4) simp
  then show ?thesis using i assms(1) unfolding expand_write_def t
    by (intro nth_equalityI) (auto simp: nth_memcpy nth_list_update xor_word_def nth_Cons' numeral_eq_Suc less_Suc_eq)
qed

lemma slice_memcpy_4:
  assumes "4 * w + 4 \<le> length rk" "length t = 4" "v \<le> w"
  shows "slice (memcpy rk (4 * w) t) (4 * v) 4 = (if v = w then t else slice rk (4 * v) 4)"
proof -
  have "4 * v + 4 \<le> 4 * w" if "v \<noteq> w" using that assms(3) by simp
  then show ?thesis using assms
    by (cases "v = w"; intro nth_equalityI) (auto simp: slice_def nth_memcpy)
qed

lemma schedule_length: "0 < nk \<Longrightarrow> 4 * nk \<le> length key \<Longrightarrow> length (schedule nk key i) = 4"
proof (induction nk key i rule: schedule.induct)
  case (1 nk key i)
  then show ?case by (subst schedule.simps) (auto simp: Let_def rcon_word_def)
qed

text \<open>One turn: writing the right word extends the schedule by one.\<close>

lemma scheduled_step:
  assumes "scheduled nk key n rk w" "w < n" "0 < nk" "nk \<le> w" "4 * nk \<le> length key"
    and "length t = 4" "xor_word (schedule nk key (w - nk)) t = schedule nk key w"
  shows "scheduled nk key n (expand_write (4 * nk) rk (4 * w) t) (Suc w)"
proof -
  have len: "4 * w + 4 \<le> length rk" using assms(1,2) by (simp add: scheduled_def)
  have "slice rk (4 * (w - nk)) 4 = schedule nk key (w - nk)" using assms(1,3,4) by (simp add: scheduled_def)
  then have "expand_write (4 * nk) rk (4 * w) t = memcpy rk (4 * w) (schedule nk key w)"
    using expand_write_memcpy [OF len assms(3,4,6)] assms(7) by simp
  with assms(1) len show ?thesis
    by (auto simp: scheduled_def schedule_length [OF assms(3,5)] slice_memcpy_4 less_Suc_eq_le)
qed

lemma rcon_table: "1 \<le> j \<Longrightarrow> j \<le> 10 \<Longrightarrow> RCON ! j = (xtime ^^ (j - 1)) 1"
proof (induction j rule: dec_induct)
  case base
  show ?case by (simp add: RCON_def)
next
  case (step j)
  have "j = 1 \<or> j = 2 \<or> j = 3 \<or> j = 4 \<or> j = 5 \<or> j = 6 \<or> j = 7 \<or> j = 8 \<or> j = 9" using step by presburger
  then have "RCON ! Suc j = xtime (RCON ! j)" by (elim disjE) (simp_all add: RCON_def xtime_def)
  with step show ?case by (cases j) simp_all
qed

lemma expand_temp_schedule:
  "scheduled nk key n rk w \<Longrightarrow> 0 < w \<Longrightarrow> w \<le> n \<Longrightarrow> expand_temp rk (4 * w) = schedule nk key (w - 1)"
  by (simp add: expand_temp_slice scheduled_def)

lemma aes128_expand_scheduled:
  assumes "16 \<le> length key"
  shows "4 \<le> w \<Longrightarrow> w \<le> 44 \<Longrightarrow> scheduled 4 key 44 rk w \<Longrightarrow> scheduled 4 key 44 (aes128_expand_loop rk (4 * w) ((w + 3) div 4)) 44"
proof (induction "44 - w" arbitrary: w rk)
  case 0
  then show ?case by (simp add: aes128_expand_loop.simps)
next
  case (Suc k)
  let ?t = "expand_temp rk (4 * w)"
  have w: "w < 44" "0 < w" using Suc by simp_all
  have m: "4 * w mod 16 = 0 \<longleftrightarrow> w mod 4 = 0" "4 * Suc w = 4 * w + 4" by presburger+
  have t: "?t = schedule 4 key (w - 1)" "length ?t = 4"
    using expand_temp_schedule [OF Suc.prems(3) w(2)] w(1) schedule_length [of 4 key] assms by simp_all
  have S: "schedule 4 key w = xor_word (schedule 4 key (w - 4))
      (if w mod 4 = 0 then xor_word (sub_word (rotate1 ?t)) (rcon_word (w div 4)) else ?t)"
    using Suc.prems(1) by (subst schedule.simps) (simp add: Let_def t)
  show ?case
  proof (cases "w mod 4 = 0")
    case True
    let ?u = "sub_word (rotate_temp ?t)"
    have j: "1 \<le> w div 4" "w div 4 \<le> 10" "(w + 3) div 4 = w div 4" "(Suc w + 3) div 4 = w div 4 + 1"
      using True w Suc.prems(1) by auto
    have u: "?u[0 := ?u ! 0 XOR RCON ! (w div 4)] = xor_word (sub_word (rotate1 ?t)) (rcon_word (w div 4))"
      using t(2) by (simp add: rotate_temp_rotate1 rcon_table [OF j(1,2)] xor_rcon [simplified])
    have "aes128_expand_loop rk (4 * w) ((w + 3) div 4)
        = aes128_expand_loop (expand_write (4 * 4) rk (4 * w) (?u[0 := ?u ! 0 XOR RCON ! (w div 4)])) (4 * Suc w) ((Suc w + 3) div 4)"
      using True w(1) unfolding j(3,4) m(2) by (subst aes128_expand_loop.simps) (simp add: Let_def sub_word_def m(1))
    also have "scheduled 4 key 44 \<dots> 44"
      using Suc True S t(2) w assms unfolding u
      by (intro Suc.hyps(1) scheduled_step) (auto simp: rcon_word_def)
    finally show ?thesis .
  next
    case False
    then have j: "(Suc w + 3) div 4 = (w + 3) div 4" by presburger
    have "aes128_expand_loop rk (4 * w) ((w + 3) div 4)
        = aes128_expand_loop (expand_write (4 * 4) rk (4 * w) ?t) (4 * Suc w) ((Suc w + 3) div 4)"
      using False w(1) unfolding m(2) j by (subst aes128_expand_loop.simps) (simp add: Let_def m(1))
    also have "scheduled 4 key 44 \<dots> 44"
      using Suc False S t(2) w assms by (intro Suc.hyps(1) scheduled_step) auto
    finally show ?thesis .
  qed
qed

lemma aes256_expand_scheduled:
  assumes "32 \<le> length key"
  shows "8 \<le> w \<Longrightarrow> w \<le> 60 \<Longrightarrow> scheduled 8 key 60 rk w \<Longrightarrow> scheduled 8 key 60 (aes256_expand_loop rk (4 * w) ((w + 7) div 8)) 60"
proof (induction "60 - w" arbitrary: w rk)
  case 0
  then show ?case by (simp add: aes256_expand_loop.simps)
next
  case (Suc k)
  let ?t = "expand_temp rk (4 * w)"
  have w: "w < 60" "0 < w" using Suc by simp_all
  have m: "4 * w mod 32 = 0 \<longleftrightarrow> w mod 8 = 0" "4 * w mod 32 = 16 \<longleftrightarrow> w mod 8 = 4" "4 * Suc w = 4 * w + 4"
    using mult_mod_right [of 4 w 8] by auto
  have t: "?t = schedule 8 key (w - 1)" "length ?t = 4"
    using expand_temp_schedule [OF Suc.prems(3) w(2)] w(1) schedule_length [of 8 key] assms by simp_all
  have S: "schedule 8 key w = xor_word (schedule 8 key (w - 8))
      (if w mod 8 = 0 then xor_word (sub_word (rotate1 ?t)) (rcon_word (w div 8)) else if w mod 8 = 4 then sub_word ?t else ?t)"
    using Suc.prems(1) by (subst schedule.simps) (simp add: Let_def t)
  show ?case
  proof (cases "w mod 8 = 0")
    case True
    let ?u = "sub_word (rotate_temp ?t)"
    have j: "1 \<le> w div 8" "w div 8 \<le> 10" "(w + 7) div 8 = w div 8" "(Suc w + 7) div 8 = w div 8 + 1"
      using True w Suc.prems(1) by auto
    have u: "?u[0 := ?u ! 0 XOR RCON ! (w div 8)] = xor_word (sub_word (rotate1 ?t)) (rcon_word (w div 8))"
      using t(2) by (simp add: rotate_temp_rotate1 rcon_table [OF j(1,2)] xor_rcon [simplified])
    have "aes256_expand_loop rk (4 * w) ((w + 7) div 8)
        = aes256_expand_loop (expand_write (4 * 8) rk (4 * w) (?u[0 := ?u ! 0 XOR RCON ! (w div 8)])) (4 * Suc w) ((Suc w + 7) div 8)"
      using True w(1) unfolding j(3,4) m(3) by (subst aes256_expand_loop.simps) (simp add: Let_def sub_word_def m(1))
    also have "scheduled 8 key 60 \<dots> 60"
      using Suc True S t(2) w assms unfolding u
      by (intro Suc.hyps(1) scheduled_step) (auto simp: rcon_word_def)
    finally show ?thesis .
  next
    case False
    then have j: "(Suc w + 7) div 8 = (w + 7) div 8" using div_Suc [of "w + 7" 8] mod_add_self2 [of w 8] by simp
    have "aes256_expand_loop rk (4 * w) ((w + 7) div 8)
        = aes256_expand_loop (expand_write (4 * 8) rk (4 * w) (if w mod 8 = 4 then sub_word ?t else ?t)) (4 * Suc w) ((Suc w + 7) div 8)"
      using False w(1) unfolding m(3) j by (subst aes256_expand_loop.simps) (simp add: Let_def m(1,2) sub_word_def)
    also have "scheduled 8 key 60 \<dots> 60"
      using Suc False S t(2) w assms by (intro Suc.hyps(1) scheduled_step) auto
    finally show ?thesis .
  qed
qed

lemma scheduled_start:
  assumes "length key = 4 * nk" "nk \<le> n"
  shows "scheduled nk key n (memcpy (zeros (4 * n)) 0 key) nk"
proof -
  have "slice (memcpy (zeros (4 * n)) 0 key) (4 * v) 4 = schedule nk key v" if "v < nk" for v
  proof -
    have "4 * v + 4 \<le> 4 * nk" using that by simp
    with that assms show ?thesis
      by (subst schedule.simps, intro nth_equalityI) (auto simp: slice_def memcpy_def nth_append)
  qed
  with assms show ?thesis by (simp add: scheduled_def)
qed

lemma aes128_round_keys:
  assumes "length key = 16"
  shows "scheduled 4 key 44 (a128_round_keys (aes128_new key)) 44"
  using aes128_expand_scheduled [of key 4] scheduled_start [of key 4 44] assms
  by (simp add: aes128_new_def aes128_key_expansion_def)

lemma aes256_round_keys:
  assumes "length key = 32"
  shows "scheduled 8 key 60 (a256_round_keys (aes256_new key)) 60"
  using aes256_expand_scheduled [of key 8] scheduled_start [of key 8 60] assms
  by (simp add: aes256_new_def aes256_key_expansion_def)

section \<open>Modes\<close>

lemma aes_ctr_loop_stream: "aes_ctr_loop e inc d n i c = xor_stream 16 e inc d n i c"
proof (induction e inc d n i c rule: aes_ctr_loop.induct)
  case (1 e inc d n i c)
  have "(if i + 16 \<le> n then 16 else n - i) = (if n - i < 16 then n - i else 16)" if "i < n" using that by auto
  with 1 show ?case by (subst aes_ctr_loop.simps, subst xor_stream.simps) (simp add: Let_def)
qed

text \<open>Counters as numbers, most significant byte first.\<close>

definition be_value :: "bytes \<Rightarrow> nat" where
  "be_value bs = foldl (\<lambda>n b. n * 256 + unat b) 0 bs"

lemma be_value_snoc [simp]: "be_value [] = 0" "be_value (bs @ [b]) = be_value bs * 256 + unat b"
  by (simp_all add: be_value_def)

lemma be_value_less: "be_value bs < 256 ^ length bs"
proof (induction bs rule: rev_induct)
  case (snoc b bs)
  then have "be_value bs + 1 \<le> 256 ^ length bs" by simp
  then have "(be_value bs + 1) * 256 \<le> 256 ^ length bs * 256" by (rule mult_right_mono) simp
  with unat_byte [of b] show ?case by (simp del: unat_byte)
qed simp

lemma increment_from_suffix: "n \<le> length c \<Longrightarrow> increment_from n (c @ t) = increment_from n c @ t"
  by (induction n arbitrary: c) (auto simp: Let_def list_update_append nth_append)

lemma increment_value: "length c = n \<Longrightarrow> length (increment_from n c) = n \<and> be_value (increment_from n c) = (be_value c + 1) mod 256 ^ n"
proof (induction n arbitrary: c)
  case (Suc n)
  then obtain c' b where c: "c = c' @ [b]" "length c' = n" by (metis length_Suc_conv_rev)
  show ?case
  proof (cases "b + 1 = 0")
    case True
    then have "(unat b + 1) mod 256 = 0" using unat_word_ariths(1) [of b 1] by simp
    then have b: "unat b = 255" using unat_byte [of b] by (cases "unat b + 1 < 256") (simp_all del: unat_byte)
    have "increment_from (Suc n) c = increment_from n c' @ [0]"
      using True c by (simp add: Let_def list_update_append nth_append increment_from_suffix)
    moreover have "be_value c + 1 = (be_value c' + 1) * 256" using c b by simp
    then have "(be_value c + 1) mod 256 ^ Suc n = ((be_value c' + 1) mod 256 ^ n) * 256"
      by (simp add: mult.commute mult_mod_right)
    ultimately show ?thesis using Suc.IH [OF c(2)] by simp
  next
    case False
    then have b: "unat (b + 1) = unat b + 1" using unatSuc [of b] by (simp add: add.commute)
    have "increment_from (Suc n) c = c' @ [b + 1]"
      using False c by (simp add: Let_def list_update_append nth_append)
    moreover have "be_value (c' @ [b + 1]) < 256 ^ Suc n" using be_value_less [of "c' @ [b + 1]"] c(2) by simp
    ultimately show ?thesis using b c by simp
  qed
qed simp

text \<open>Cipher block chaining over any block cipher.\<close>

definition xor_block :: "bytes \<Rightarrow> bytes \<Rightarrow> bytes" where
  "xor_block a b = map (\<lambda>i. a ! i XOR b ! i) [0..<16]"

lemma xor_block_facts [simp]: "length (xor_block a b) = 16" "length a = 16 \<Longrightarrow> xor_block (xor_block a b) b = a"
  by (auto simp: xor_block_def xor.assoc intro!: nth_equalityI)

fun cbc_enc :: "(bytes \<Rightarrow> bytes) \<Rightarrow> bytes \<Rightarrow> bytes list \<Rightarrow> bytes list" where
  "cbc_enc e prev [] = []"
| "cbc_enc e prev (b # bs) = e (xor_block b prev) # cbc_enc e (e (xor_block b prev)) bs"

fun cbc_dec :: "(bytes \<Rightarrow> bytes) \<Rightarrow> bytes \<Rightarrow> bytes list \<Rightarrow> bytes list" where
  "cbc_dec d prev [] = []"
| "cbc_dec d prev (c # cs) = xor_block (d c) prev # cbc_dec d c cs"

lemma memcpy_block: "length b = length c \<Longrightarrow> memcpy (pre @ b @ rest) (length pre) c = pre @ c @ rest"
  by (simp add: memcpy_def)

lemma nth_block: "length b = 16 \<Longrightarrow> map (\<lambda>i. (b @ rest) ! i XOR prev ! i) [0..<16] = xor_block b prev"
  by (auto simp: xor_block_def nth_append)

lemma slice_block: "length b = 16 \<Longrightarrow> slice (pre @ b @ rest) (length pre) 16 = b"
  by (simp add: slice_def)

lemma cbc_decrypt_blocks:
  "\<forall>b\<in>set bs. length b = 16 \<Longrightarrow> cbc_decrypt_loop d (pre @ concat bs) (length (pre @ concat bs)) (length pre) prev = pre @ concat (cbc_dec d prev bs)"
proof (induction bs arbitrary: pre prev)
  case Nil
  then show ?case by (simp add: cbc_decrypt_loop.simps)
next
  case (Cons b bs)
  let ?c = "xor_block (d b) prev"
  have b: "length b = 16" using Cons.prems by simp
  have "cbc_decrypt_loop d (pre @ b @ concat bs) (length (pre @ b @ concat bs)) (length pre) prev
      = cbc_decrypt_loop d ((pre @ ?c) @ concat bs) (length ((pre @ ?c) @ concat bs)) (length (pre @ ?c)) b"
    using b by (subst cbc_decrypt_loop.simps) (simp add: Let_def slice_block memcpy_block flip: xor_block_def)
  also have "\<dots> = (pre @ ?c) @ concat (cbc_dec d b bs)" using Cons by (intro Cons.IH) simp
  finally show ?case by simp
qed

lemma blocks_of:
  "length d = 16 * k \<Longrightarrow> \<exists>bs. d = concat bs \<and> (\<forall>b\<in>set bs. length b = 16)"
proof (induction k arbitrary: d)
  case 0
  then have "d = concat []" by simp
  then show ?case by fastforce
next
  case (Suc k)
  then have "length (drop 16 d) = 16 * k" by simp
  from Suc.IH [OF this] obtain bs where bs: "drop 16 d = concat bs" "\<forall>b\<in>set bs. length b = 16" by blast
  then have "d = concat (take 16 d # bs)" by (metis append_take_drop_id concat.simps(2))
  moreover have "\<forall>b\<in>set (take 16 d # bs). length b = 16" using Suc.prems bs(2) by simp
  ultimately show ?case by blast
qed

locale block_cipher =
  fixes enc dec :: "bytes \<Rightarrow> bytes"
  assumes enc_length: "length b = 16 \<Longrightarrow> length (enc b) = 16"
    and dec_enc: "length b = 16 \<Longrightarrow> dec (enc b) = b"
begin

lemma cbc_encrypt_blocks:
  "\<forall>b\<in>set bs. length b = 16 \<Longrightarrow>
   cbc_encrypt_loop enc (pre @ concat bs) (length (pre @ concat bs)) (length pre) prev = pre @ concat (cbc_enc enc prev bs)"
proof (induction bs arbitrary: pre prev)
  case Nil
  then show ?case by (simp add: cbc_encrypt_loop.simps)
next
  case (Cons b bs)
  let ?c = "enc (xor_block b prev)"
  have b: "length b = 16" using Cons.prems by simp
  have "cbc_encrypt_loop enc (pre @ b @ concat bs) (length (pre @ b @ concat bs)) (length pre) prev
      = cbc_encrypt_loop enc ((pre @ ?c) @ concat bs) (length ((pre @ ?c) @ concat bs)) (length (pre @ ?c)) ?c"
    using b by (subst cbc_encrypt_loop.simps) (simp add: Let_def nth_block memcpy_block slice_block enc_length)
  also have "\<dots> = (pre @ ?c) @ concat (cbc_enc enc ?c bs)" using Cons by (intro Cons.IH) simp
  finally show ?case by simp
qed

lemma cbc_enc_lengths: "\<forall>b\<in>set (cbc_enc enc prev bs). length b = 16"
  by (induction bs arbitrary: prev) (simp_all add: enc_length)

lemma cbc_dec_enc: "\<forall>b\<in>set bs. length b = 16 \<Longrightarrow> cbc_dec dec prev (cbc_enc enc prev bs) = bs"
  by (induction bs arbitrary: prev) (simp_all add: dec_enc)

lemma cbc_roundtrip:
  assumes "length d mod 16 = 0"
  shows "cbc_decrypt_loop dec (cbc_encrypt_loop enc d (length d) 0 iv) (length (cbc_encrypt_loop enc d (length d) 0 iv)) 0 iv = d"
    and "length (cbc_encrypt_loop enc d (length d) 0 iv) = length d"
proof -
  obtain bs where bs: "d = concat bs" "\<forall>b\<in>set bs. length b = 16"
    using blocks_of [of d "length d div 16"] assms by fastforce
  have e: "cbc_encrypt_loop enc d (length d) 0 iv = concat (cbc_enc enc iv bs)"
    using cbc_encrypt_blocks [OF bs(2), of "[]"] bs(1) by simp
  show "cbc_decrypt_loop dec (cbc_encrypt_loop enc d (length d) 0 iv) (length (cbc_encrypt_loop enc d (length d) 0 iv)) 0 iv = d"
    using cbc_decrypt_blocks [OF cbc_enc_lengths [of iv bs], of dec "[]" iv] cbc_dec_enc [OF bs(2), of iv] bs(1) unfolding e by simp
  have "length (concat (cbc_enc enc prev bs)) = length (concat bs)" for prev
    using bs(2) by (induction bs arbitrary: prev) (simp_all add: enc_length)
  then show "length (cbc_encrypt_loop enc d (length d) 0 iv) = length d" unfolding e by (simp add: bs(1))
qed

end

interpretation aes128_cbc: block_cipher "aes128_encrypt_block c" "aes128_decrypt_block c" for c
  by unfold_locales (simp_all add: aes128_block_inverse)

text \<open>A message encrypted in counter mode is decrypted by the same operation.\<close>

lemma aes_ctr_twice: "aes_ctr_loop e inc (aes_ctr_loop e inc d (length d) 0 c) (length d) 0 c = d"
  by (simp add: aes_ctr_loop_stream xor_stream_twice)

lemma length_aes_ctr [simp]: "length (aes_ctr_loop e inc d (length d) 0 c) = length d"
  by (simp add: aes_ctr_loop_stream)

lemma increments_value:
  assumes "length c = 16"
  shows "length ((aes128_increment_counter ^^ k) c) = 16"
    "be_value ((aes128_increment_counter ^^ k) c) = (be_value c + k) mod 256 ^ 16"
proof (induction k)
  case 0
  show "length ((aes128_increment_counter ^^ 0) c) = 16" "be_value ((aes128_increment_counter ^^ 0) c) = (be_value c + 0) mod 256 ^ 16"
    using be_value_less [of c] assms by simp_all
next
  case (Suc k)
  define n :: nat where "n = 256 ^ 16"
  show "length ((aes128_increment_counter ^^ Suc k) c) = 16"
    "be_value ((aes128_increment_counter ^^ Suc k) c) = (be_value c + Suc k) mod 256 ^ 16"
    using increment_value [OF Suc(1)] Suc(2) unfolding n_def [symmetric]
    by (simp_all add: aes128_increment_counter_def [of "(aes128_increment_counter ^^ k) c"] mod_Suc_eq)
qed

lemma increments_distinct:
  assumes "length c = 16" "i < j" "j < 256 ^ 16"
  shows "(aes128_increment_counter ^^ i) c \<noteq> (aes128_increment_counter ^^ j) c"
proof
  define n :: nat where "n = 256 ^ 16"
  assume "(aes128_increment_counter ^^ i) c = (aes128_increment_counter ^^ j) c"
  then have "(be_value c + i) mod n = (be_value c + j) mod n"
    using increments_value(2) [OF assms(1), of i] increments_value(2) [OF assms(1), of j] by (simp only: n_def)
  then have "n dvd (be_value c + j) - (be_value c + i)" using assms(2) by (metis add_left_mono less_imp_le mod_eq_dvd_iff_nat)
  moreover have "j < n" using assms(3) by (simp only: n_def)
  ultimately show False using assms(2) by (auto dest: dvd_imp_le)
qed

section \<open>Properties\<close>

text \<open>C16. Decrypting an encrypted block gives the block back, for AES-128, AES-256 and the variant without tables, whatever
  the round keys are.\<close>

theorem aes_block_roundtrip:
  assumes "length b = 16"
  shows "aes128_decrypt_block c (aes128_encrypt_block c b) = b
    \<and> aes256_decrypt_block c' (aes256_encrypt_block c' b) = b
    \<and> aes128ct_decrypt_block c'' (aes128ct_encrypt_block c'' b) = b"
  using assms by (simp add: aes128_block_inverse aes256_block_inverse aes128ct_block_inverse)

theorem aes_block_roundtrip_witness:
  "aes256_decrypt_block (aes256_new (zeros 32)) (aes256_encrypt_block (aes256_new (zeros 32)) (zeros 16)) = zeros 16"
  using aes_block_roundtrip [of "zeros 16"] by simp

text \<open>The S-box computed without tables is the table, in both directions, and the variant without tables has the round keys
  and the block functions of AES-128: it is the same cipher.\<close>

theorem aes_ct_equals_table:
  "sbox_ct x = SBOX ! unat x \<and> inv_sbox_ct x = INV_SBOX ! unat x
    \<and> act_round_keys (aes128ct_new key) = a128_round_keys (aes128_new key)
    \<and> aes128ct_encrypt_block (aes128ct_new key) b = aes128_encrypt_block (aes128_new key) b
    \<and> aes128ct_decrypt_block (aes128ct_new key) b = aes128_decrypt_block (aes128_new key) b"
  using ct_same_block [OF ct_same_keys] by (simp add: sbox_ct_table inv_sbox_ct_table ct_same_keys)

text \<open>C17. The round keys are the key schedule of FIPS 197, word by word: 44 words for a key of 16 bytes and 60 words for a key
  of 32 bytes.\<close>

theorem aes_key_schedule_correct:
  "(length key = 16 \<longrightarrow> length (a128_round_keys (aes128_new key)) = 176
      \<and> (\<forall>w<44. slice (a128_round_keys (aes128_new key)) (4 * w) 4 = schedule 4 key w))
    \<and> (length key = 32 \<longrightarrow> length (a256_round_keys (aes256_new key)) = 240
      \<and> (\<forall>w<60. slice (a256_round_keys (aes256_new key)) (4 * w) 4 = schedule 8 key w))"
  using aes128_round_keys aes256_round_keys by (simp add: scheduled_def)

theorem aes_key_schedule_correct_witness:
  "slice (a128_round_keys (aes128_new (zeros 16))) 172 4 = schedule 4 (zeros 16) 43"
proof -
  have "(43 :: nat) < 44" "length (zeros 16) = 16" by simp_all
  then have "slice (a128_round_keys (aes128_new (zeros 16))) (4 * 43) 4 = schedule 4 (zeros 16) 43"
    using aes_key_schedule_correct [of "zeros 16"] by blast
  then show ?thesis by simp
qed

text \<open>C24. The modes undo themselves: counter mode for every length and all three ciphers, chaining for every multiple of the
  block size, while other lengths fail the assertion. The counter blocks of a message of less than \<open>2 ^ 128\<close> blocks are pairwise
  distinct.\<close>

theorem aes_modes_roundtrip:
  assumes "length nonce = 16"
  shows "aes128_decrypt_ctr c nonce (aes128_encrypt_ctr c nonce d) = d
    \<and> aes256_decrypt_ctr c' nonce (aes256_encrypt_ctr c' nonce d) = d
    \<and> aes128ct_decrypt_ctr c'' nonce (aes128ct_encrypt_ctr c'' nonce d) = d
    \<and> (length d mod 16 = 0 \<longrightarrow> (\<exists>e. aes128_encrypt_cbc c nonce d = Some e \<and> aes128_decrypt_cbc c nonce e = Some d))
    \<and> (length d mod 16 \<noteq> 0 \<longrightarrow> aes128_encrypt_cbc c nonce d = None \<and> aes128_decrypt_cbc c nonce d = None)
    \<and> (\<forall>i j. i < j \<and> j < 256 ^ 16 \<longrightarrow> (aes128_increment_counter ^^ i) nonce \<noteq> (aes128_increment_counter ^^ j) nonce)"
proof (intro conjI)
  show "\<forall>i j. i < j \<and> j < 256 ^ 16 \<longrightarrow> (aes128_increment_counter ^^ i) nonce \<noteq> (aes128_increment_counter ^^ j) nonce"
    using increments_distinct [OF assms] by blast
  show "length d mod 16 = 0 \<longrightarrow> (\<exists>e. aes128_encrypt_cbc c nonce d = Some e \<and> aes128_decrypt_cbc c nonce e = Some d)"
    using aes128_cbc.cbc_roundtrip [of d c "slice nonce 0 16"] by (auto simp: aes128_encrypt_cbc_def aes128_decrypt_cbc_def)
qed (simp_all add: aes128_decrypt_ctr_def aes128_encrypt_ctr_def aes256_decrypt_ctr_def aes256_encrypt_ctr_def aes128ct_decrypt_ctr_def
  aes128ct_encrypt_ctr_def aes_ctr_twice aes128_encrypt_cbc_def aes128_decrypt_cbc_def)

theorem aes_modes_roundtrip_witness:
  "\<exists>e. aes128_encrypt_cbc (aes128_new (zeros 16)) (zeros 16) (zeros 32) = Some e
    \<and> aes128_decrypt_cbc (aes128_new (zeros 16)) (zeros 16) e = Some (zeros 32)"
proof -
  have len: "length (zeros 16) = 16" "length (zeros 32) mod 16 = 0" by simp_all
  have "length (zeros 32) mod 16 = 0 \<longrightarrow> (\<exists>e. aes128_encrypt_cbc (aes128_new (zeros 16)) (zeros 16) (zeros 32) = Some e
    \<and> aes128_decrypt_cbc (aes128_new (zeros 16)) (zeros 16) e = Some (zeros 32))"
    by (rule aes_modes_roundtrip [OF len(1), THEN conjunct2, THEN conjunct2, THEN conjunct2, THEN conjunct1])
  from this len(2) show ?thesis by (rule mp)
qed

end
