(* ===== verification/Aes_Alt.thy ===== *)
theory Aes_Alt
  imports Aes_Correct Byte_Codec
begin

unbundle bit_operations_syntax

text \<open>
  The second half of \<^verbatim>\<open>lunar/crypto/aes.c\<close> defines the ciphers once more, under the same names. Its functions are
  modelled here; the ones whose names are taken have the suffix \<open>2\<close>. The key schedule works on 32-bit words laid over the byte
  arrays; words are little-endian, as on the processors the firmware is built for.
\<close>

section \<open>Round transformations\<close>

text \<open>\<^verbatim>\<open>sbox_ct\<close> and \<^verbatim>\<open>inv_sbox_ct\<close> are table lookups here.\<close>

definition sbox_ct2 :: "byte \<Rightarrow> byte" where
  "sbox_ct2 b = SBOX ! unat b"

definition inv_sbox_ct2 :: "byte \<Rightarrow> byte" where
  "inv_sbox_ct2 b = INV_SBOX ! unat b"

definition sub_bytes_ct :: "bytes \<Rightarrow> bytes" where
  "sub_bytes_ct st = map sbox_ct2 st"

definition inv_sub_bytes_ct :: "bytes \<Rightarrow> bytes" where
  "inv_sub_bytes_ct st = map inv_sbox_ct2 st"

definition shift_rows :: "bytes \<Rightarrow> bytes" where
  "shift_rows st =
     (let temp = st ! 1; st = st[1 := st ! 5]; st = st[5 := st ! 9]; st = st[9 := st ! 13]; st = st[13 := temp];
          temp0 = st ! 2; temp1 = st ! 6;
          st = st[2 := st ! 10]; st = st[6 := st ! 14]; st = st[10 := temp0]; st = st[14 := temp1];
          temp = st ! 15; st = st[15 := st ! 11]; st = st[11 := st ! 7]; st = st[7 := st ! 3]
      in st[3 := temp])"

definition inv_shift_rows :: "bytes \<Rightarrow> bytes" where
  "inv_shift_rows st =
     (let temp = st ! 13; st = st[13 := st ! 9]; st = st[9 := st ! 5]; st = st[5 := st ! 1]; st = st[1 := temp];
          temp0 = st ! 2; temp1 = st ! 6;
          st = st[2 := st ! 10]; st = st[6 := st ! 14]; st = st[10 := temp0]; st = st[14 := temp1];
          temp = st ! 3; st = st[3 := st ! 7]; st = st[7 := st ! 11]; st = st[11 := st ! 15]
      in st[15 := temp])"

definition mix_column :: "bytes \<Rightarrow> nat \<Rightarrow> bytes" where
  "mix_column st col =
     (let i = col * 4; s0 = st ! i; s1 = st ! (i + 1); s2 = st ! (i + 2); s3 = st ! (i + 3);
          st = st[i := gf_mul_ct2 s0 2 XOR gf_mul_ct2 s1 3 XOR s2 XOR s3];
          st = st[i + 1 := s0 XOR gf_mul_ct2 s1 2 XOR gf_mul_ct2 s2 3 XOR s3];
          st = st[i + 2 := s0 XOR s1 XOR gf_mul_ct2 s2 2 XOR gf_mul_ct2 s3 3]
      in st[i + 3 := gf_mul_ct2 s0 3 XOR s1 XOR s2 XOR gf_mul_ct2 s3 2])"

definition mix_columns :: "bytes \<Rightarrow> bytes" where
  "mix_columns st = foldl mix_column st [0, 1, 2, 3]"

definition inv_mix_column :: "bytes \<Rightarrow> nat \<Rightarrow> bytes" where
  "inv_mix_column st col =
     (let i = col * 4; s0 = st ! i; s1 = st ! (i + 1); s2 = st ! (i + 2); s3 = st ! (i + 3);
          st = st[i := gf_mul_ct2 s0 0x0e XOR gf_mul_ct2 s1 0x0b XOR gf_mul_ct2 s2 0x0d XOR gf_mul_ct2 s3 0x09];
          st = st[i + 1 := gf_mul_ct2 s0 0x09 XOR gf_mul_ct2 s1 0x0e XOR gf_mul_ct2 s2 0x0b XOR gf_mul_ct2 s3 0x0d];
          st = st[i + 2 := gf_mul_ct2 s0 0x0d XOR gf_mul_ct2 s1 0x09 XOR gf_mul_ct2 s2 0x0e XOR gf_mul_ct2 s3 0x0b]
      in st[i + 3 := gf_mul_ct2 s0 0x0b XOR gf_mul_ct2 s1 0x0d XOR gf_mul_ct2 s2 0x09 XOR gf_mul_ct2 s3 0x0e])"

definition inv_mix_columns :: "bytes \<Rightarrow> bytes" where
  "inv_mix_columns st = foldl inv_mix_column st [0, 1, 2, 3]"

definition add_round_key :: "bytes \<Rightarrow> bytes \<Rightarrow> bytes" where
  "add_round_key st round_key = map (\<lambda>i. st ! i XOR round_key ! i) [0..<16]"

definition increment_counter :: "bytes \<Rightarrow> bytes" where
  "increment_counter counter = increment_from 16 counter"

section \<open>Key schedule\<close>

definition words_of :: "bytes \<Rightarrow> u32 list" where
  "words_of bs = map (\<lambda>i. le_word (slice bs (4 * i) 4)) [0..<length bs div 4]"

definition rcons :: bytes where
  "rcons = [0x01, 0x02, 0x04, 0x08, 0x10, 0x20, 0x40, 0x80, 0x1B, 0x36]"

function expand_words :: "nat \<Rightarrow> nat \<Rightarrow> u32 list \<Rightarrow> nat \<Rightarrow> u32 list" where
  "expand_words n total_words rk i =
     (if i < total_words then
        let temp = rk ! (i - 1);
            temp = (if i mod n = 0 then
                      let temp = push_bit 24 temp OR drop_bit 8 temp;
                          b = map (\<lambda>x. SBOX ! unat x) (le_bytes 4 temp);
                          b = b[3 := b ! 3 XOR rcons ! (i div n - 1)]
                      in le_word b
                    else if n > 6 \<and> i mod n = 4 then le_word (map (\<lambda>x. SBOX ! unat x) (le_bytes 4 temp))
                    else temp)
        in expand_words n total_words (rk[i := rk ! (i - n) XOR temp]) (i + 1)
      else rk)"
  by pat_completeness auto
termination
  by (relation "measure (\<lambda>(n, t, rk, i). t - i)") auto

declare expand_words.simps [simp del]

definition aes_key_expand :: "bytes \<Rightarrow> bytes \<Rightarrow> nat \<Rightarrow> nat \<Rightarrow> bytes" where
  "aes_key_expand key round_keys key_len rounds =
     (let n = key_len div 4;
          total_words = (rounds + 1) * 4;
          rk = words_of round_keys;
          k = words_of key;
          rk = foldl (\<lambda>rk i. rk[i := k ! i]) rk [0..<n]
      in concat (map (le_bytes 4) (expand_words n total_words rk n)))"

text \<open>The object is an uninitialised local variable: \<open>junk\<close>.\<close>

definition aes128_new2 :: "bytes \<Rightarrow> bytes \<Rightarrow> aes128" where
  "aes128_new2 junk key = \<lparr>a128_round_keys = aes_key_expand key junk 16 10\<rparr>"

definition aes128ct_new2 :: "bytes \<Rightarrow> bytes \<Rightarrow> aes128ct" where
  "aes128ct_new2 junk key = \<lparr>act_round_keys = aes_key_expand key junk 16 10\<rparr>"

definition aes256_new2 :: "bytes \<Rightarrow> bytes \<Rightarrow> aes256" where
  "aes256_new2 junk key = \<lparr>a256_round_keys = aes_key_expand key junk 32 14\<rparr>"

section \<open>Blocks and counter mode\<close>

definition aes128_encrypt_block2 :: "aes128 \<Rightarrow> bytes \<Rightarrow> bytes" where
  "aes128_encrypt_block2 self block =
     (let block = add_round_key block (a128_round_keys self);
          block = foldl (\<lambda>block r. add_round_key (mix_columns (shift_rows (sub_bytes_ct block))) (drop (r * 16) (a128_round_keys self)))
                    block [1, 2, 3, 4, 5, 6, 7, 8, 9]
      in add_round_key (shift_rows (sub_bytes_ct block)) (drop 160 (a128_round_keys self)))"

definition aes128_decrypt_block2 :: "aes128 \<Rightarrow> bytes \<Rightarrow> bytes" where
  "aes128_decrypt_block2 self block =
     (let block = add_round_key block (drop 160 (a128_round_keys self));
          block = inv_sub_bytes_ct (inv_shift_rows block);
          block = foldl (\<lambda>block r. inv_sub_bytes_ct (inv_shift_rows (inv_mix_columns (add_round_key block (drop (r * 16) (a128_round_keys self))))))
                    block [9, 8, 7, 6, 5, 4, 3, 2, 1]
      in add_round_key block (a128_round_keys self))"

definition aes128_encrypt_ctr2 :: "aes128 \<Rightarrow> bytes \<Rightarrow> bytes \<Rightarrow> bytes" where
  "aes128_encrypt_ctr2 self nonce d = xor_stream 16 (aes128_encrypt_block2 self) increment_counter d (length d) 0 (slice nonce 0 16)"

definition aes128_decrypt_ctr2 :: "aes128 \<Rightarrow> bytes \<Rightarrow> bytes \<Rightarrow> bytes" where
  "aes128_decrypt_ctr2 self nonce d = aes128_encrypt_ctr2 self nonce d"

text \<open>The table-free object is cast to the other one.\<close>

definition as_aes128 :: "aes128ct \<Rightarrow> aes128" where
  "as_aes128 self = \<lparr>a128_round_keys = act_round_keys self\<rparr>"

definition aes128ct_encrypt_block2 :: "aes128ct \<Rightarrow> bytes \<Rightarrow> bytes" where
  "aes128ct_encrypt_block2 self block = aes128_encrypt_block2 (as_aes128 self) block"

definition aes128ct_decrypt_block2 :: "aes128ct \<Rightarrow> bytes \<Rightarrow> bytes" where
  "aes128ct_decrypt_block2 self block = aes128_decrypt_block2 (as_aes128 self) block"

definition aes128ct_encrypt_ctr2 :: "aes128ct \<Rightarrow> bytes \<Rightarrow> bytes \<Rightarrow> bytes" where
  "aes128ct_encrypt_ctr2 self nonce d = aes128_encrypt_ctr2 (as_aes128 self) nonce d"

definition aes128ct_decrypt_ctr2 :: "aes128ct \<Rightarrow> bytes \<Rightarrow> bytes \<Rightarrow> bytes" where
  "aes128ct_decrypt_ctr2 self nonce d = aes128_decrypt_ctr2 (as_aes128 self) nonce d"

definition aes256_encrypt_block2 :: "aes256 \<Rightarrow> bytes \<Rightarrow> bytes" where
  "aes256_encrypt_block2 self block =
     (let block = add_round_key block (a256_round_keys self);
          block = foldl (\<lambda>block r. add_round_key (mix_columns (shift_rows (sub_bytes_ct block))) (drop (r * 16) (a256_round_keys self)))
                    block [1, 2, 3, 4, 5, 6, 7, 8, 9, 10, 11, 12, 13]
      in add_round_key (shift_rows (sub_bytes_ct block)) (drop 224 (a256_round_keys self)))"

definition aes256_decrypt_block2 :: "aes256 \<Rightarrow> bytes \<Rightarrow> bytes" where
  "aes256_decrypt_block2 self block =
     (let block = add_round_key block (drop 224 (a256_round_keys self));
          block = inv_sub_bytes_ct (inv_shift_rows block);
          block = foldl (\<lambda>block r. inv_sub_bytes_ct (inv_shift_rows (inv_mix_columns (add_round_key block (drop (r * 16) (a256_round_keys self))))))
                    block [13, 12, 11, 10, 9, 8, 7, 6, 5, 4, 3, 2, 1]
      in add_round_key block (a256_round_keys self))"

section \<open>The blocks agree with the first half\<close>

lemma same_bodies_2:
  "sub_bytes_ct = aes128_sub_bytes" "inv_sub_bytes_ct = aes128_inv_sub_bytes" "shift_rows = aes128_shift_rows"
  "inv_shift_rows = aes128_inv_shift_rows" "mix_columns = aes128_mix_columns" "inv_mix_columns = aes128_inv_mix_columns"
  "add_round_key = aes128_add_round_key" "increment_counter = aes128_increment_counter"
proof -
  have "mix_column = aes128_mix_column" "inv_mix_column = aes128_inv_mix_column"
    by (intro ext, simp only: mix_column_def aes128_mix_column_def inv_mix_column_def aes128_inv_mix_column_def gf_muls_agree)+
  then show "mix_columns = aes128_mix_columns" "inv_mix_columns = aes128_inv_mix_columns"
    by (intro ext, simp only: mix_columns_def aes128_mix_columns_def inv_mix_columns_def aes128_inv_mix_columns_def)+
  show "sub_bytes_ct = aes128_sub_bytes" "inv_sub_bytes_ct = aes128_inv_sub_bytes"
    by (intro ext, simp add: sub_bytes_ct_def aes128_sub_bytes_def inv_sub_bytes_ct_def aes128_inv_sub_bytes_def sbox_ct2_def inv_sbox_ct2_def)+
qed (intro ext, simp only: shift_rows_def inv_shift_rows_def add_round_key_def increment_counter_def aes128_shift_rows_def
  aes128_inv_shift_rows_def aes128_add_round_key_def aes128_increment_counter_def)+

lemma blocks_agree:
  "aes128_encrypt_block2 c b = aes128_encrypt_block c b" "aes128_decrypt_block2 c b = aes128_decrypt_block c b"
  "aes256_encrypt_block2 c' b = aes256_encrypt_block c' b" "aes256_decrypt_block2 c' b = aes256_decrypt_block c' b"
  by (simp_all add: aes128_encrypt_block2_def aes128_decrypt_block2_def aes256_encrypt_block2_def aes256_decrypt_block2_def
    aes128_encrypt_block_def aes128_decrypt_block_def aes256_encrypt_block_def aes256_decrypt_block_def
    aes128_encrypt_round_def aes128_decrypt_round_def aes256_encrypt_round_def aes256_decrypt_round_def same_bodies_2 same_bodies_256 Let_def)

section \<open>The key schedules do not agree\<close>

lemma length_expand_words [simp]: "length (expand_words n t rk i) = length rk"
proof (induction n t rk i rule: expand_words.induct)
  case (1 n t rk i)
  then show ?case by (subst expand_words.simps) (simp add: Let_def)
qed

lemma expand_words_keeps: "k < i \<Longrightarrow> expand_words n t rk i ! k = rk ! k"
proof (induction n t rk i rule: expand_words.induct)
  case (1 n t rk i)
  then show ?case by (subst expand_words.simps) (simp add: Let_def)
qed

lemma nth_le_bytes_concat: "i < length ws \<Longrightarrow> concat (map (le_bytes 4) ws) ! (4 * i) = (ucast (ws ! i :: u32) :: byte)"
proof (induction ws arbitrary: i)
  case (Cons w ws)
  then show ?case by (cases i) (simp_all add: nth_append numeral_eq_Suc)
qed simp

lemma load_words:
  "n \<le> length rk \<Longrightarrow> i < length rk \<Longrightarrow> foldl (\<lambda>rk i. rk[i := k ! i]) rk [0..<n] ! i = (if i < n then k ! i else rk ! i)"
  "length (foldl (\<lambda>rk i. rk[i := k ! i]) rk [0..<n]) = length rk"
  by (induction n) (auto simp: less_Suc_eq nth_list_update)

lemma nth_slice: "i < n \<Longrightarrow> pos + i < length xs \<Longrightarrow> slice xs pos n ! i = xs ! (pos + i)"
  by (simp add: slice_def)

lemma le_bytes_4_hd: "le_bytes 4 w ! 0 = ucast w"
  by (simp add: numeral_eq_Suc)

lemma ucast_le_word: "4 \<le> length b \<Longrightarrow> (ucast (le_word b :: u32) :: byte) = b ! 0"
proof (cases b)
  case (Cons x xs)
  have "(ucast (ucast x OR push_bit 8 (le_word xs) :: u32) :: byte) = x"
    by (rule bit_word_eqI) (auto simp: bit_simps)
  with Cons show ?thesis by simp
qed simp

lemma ucast_rotated: "(ucast (push_bit 24 t OR drop_bit 8 t :: u32) :: byte) = ucast (drop_bit 8 t)"
  by (rule bit_word_eqI) (auto simp: bit_simps)

text \<open>The first byte of the first derived word lacks the round constant.\<close>

lemma alt_first_derived_byte:
  assumes "0 < n" "n < (rounds + 1) * 4" "length key = 4 * n" "length junk = (rounds + 1) * 16"
  shows "aes_key_expand key junk (4 * n) rounds ! (4 * n) = key ! 0 XOR SBOX ! unat (key ! (4 * (n - 1) + 1))"
proof -
  let ?k = "words_of key" and ?t = "(rounds + 1) * 4"
  define rk where "rk = foldl (\<lambda>rk i. rk[i := ?k ! i]) (words_of junk) [0..<n]"
  have len: "length rk = ?t" "length (words_of junk) = ?t" using assms(4) by (simp_all add: rk_def load_words words_of_def)
  have k: "rk ! i = le_word (slice key (4 * i) 4)" if "i < n" for i
    using that assms(2,3) len by (simp add: rk_def load_words words_of_def)
  define b where "b = map (\<lambda>x. SBOX ! unat x) (le_bytes 4 (push_bit 24 (rk ! (n - 1)) OR drop_bit 8 (rk ! (n - 1))))"
  have "expand_words n ?t rk n = expand_words n ?t (rk[n := rk ! 0 XOR le_word (b[3 := b ! 3 XOR rcons ! 0])]) (n + 1)"
    using assms(1,2) by (subst expand_words.simps) (simp add: Let_def b_def)
  then have w: "expand_words n ?t rk n ! n = rk ! 0 XOR le_word (b[3 := b ! 3 XOR rcons ! 0])"
    using assms(2) len(1) by (simp add: expand_words_keeps)
  have "length b = 4" by (simp add: b_def)
  then have "aes_key_expand key junk (4 * n) rounds ! (4 * n) = ucast (rk ! 0) XOR b ! 0"
    using assms(2) len(1) by (simp add: aes_key_expand_def Let_def flip: rk_def)
       (simp add: nth_le_bytes_concat w [simplified] unsigned_xor_eq ucast_le_word)
  moreover have "b ! 0 = SBOX ! unat (ucast (drop_bit 8 (rk ! (n - 1))) :: byte)"
    unfolding b_def by (subst nth_map, simp, unfold le_bytes_4_hd ucast_rotated, rule refl)
  moreover have "ucast (rk ! 0) = key ! 0" using assms(1,3) k [of 0] by (simp add: ucast_le_word nth_slice)
  moreover have "ucast (drop_bit 8 (rk ! (n - 1))) = key ! (4 * (n - 1) + 1)"
  proof -
    let ?s = "slice key (4 * (n - 1)) 4"
    have s: "length ?s = 4" using assms(1,3) by auto
    then have "le_bytes 4 (rk ! (n - 1)) = ?s" using assms(1) k [of "n - 1"] le_bytes_le_word [of ?s, where ?'a = 32] by simp
    then have "?s ! 1 = ucast (drop_bit 8 (rk ! (n - 1)))" by (metis One_nat_def le_bytes.simps(2) nth_Cons_0 nth_Cons_Suc numeral_eq_Suc pred_numeral_simps(2) semiring_norm(26))
    moreover have "?s ! 1 = key ! (4 * (n - 1) + 1)" using assms(1,3) s by (simp add: slice_def)
    ultimately show ?thesis by simp
  qed
  ultimately show ?thesis by simp
qed

lemma schedule_first_derived_byte:
  assumes "0 < n" "length key = 4 * n"
  shows "schedule n key n ! 0 = key ! 0 XOR SBOX ! unat (key ! (4 * (n - 1) + 1)) XOR 1"
proof -
  have l: "length (slice key 0 4) = 4" "length (slice key (4 * (n - 1)) 4) = 4" using assms by auto
  then obtain a b c d where s: "slice key (4 * (n - 1)) 4 = [a, b, c, d]" unfolding list4_iff by blast
  have "b = key ! (4 * (n - 1) + 1)" using s assms nth_slice [of 1 4 "4 * (n - 1)" key] by simp
  moreover have "schedule n key (n - 1) = slice key (4 * (n - 1)) 4" "schedule n key 0 = slice key 0 4"
    using assms(1) by (simp_all add: schedule.simps)
  then have "schedule n key n = xor_word (slice key 0 4) (xor_word (sub_word (rotate1 [a, b, c, d])) (rcon_word 1))"
    using assms(1) s by (subst schedule.simps) (simp add: Let_def)
  moreover obtain x xs where "slice key 0 4 = x # xs" "x = key ! 0" "length xs = 3"
    using l(1) assms by (cases key) (auto simp: slice_def)
  ultimately show ?thesis by (simp add: xor_word_def sub_word_def rcon_word_def xor.assoc)
qed

section \<open>Properties\<close>

text \<open>For equal round keys the second set of block functions encrypts and decrypts like the first. The key schedules,
  however, differ for every key: the second one adds the round constant to the wrong byte of the word, so its ciphers are not AES.\<close>

theorem aes_second_schedule_differs:
  "aes128_encrypt_block2 c b = aes128_encrypt_block c b \<and> aes128_decrypt_block2 c b = aes128_decrypt_block c b
    \<and> aes256_encrypt_block2 c' b = aes256_encrypt_block c' b \<and> aes256_decrypt_block2 c' b = aes256_decrypt_block c' b
    \<and> (length key = 16 \<and> length junk = 176 \<longrightarrow> aes128_new2 junk key \<noteq> aes128_new key)
    \<and> (length key = 32 \<and> length junk = 240 \<longrightarrow> aes256_new2 junk key \<noteq> aes256_new key)"
proof -
  have x: "x XOR 1 \<noteq> x" for x :: byte by (auto dest: arg_cong [where f = "\<lambda>w. bit w 0"] simp: bit_xor_iff)
  have "aes128_new2 junk key \<noteq> aes128_new key" if "length key = 16" "length junk = 176"
  proof -
    have "\<forall>v<44. slice (a128_round_keys (aes128_new key)) (4 * v) 4 = schedule 4 key v"
      using aes128_round_keys [OF that(1)] by (simp add: scheduled_def)
    from this [rule_format, of 4] have "slice (a128_round_keys (aes128_new key)) 16 4 = schedule 4 key 4" by simp
    moreover have "length (a128_round_keys (aes128_new key)) = 176" using aes128_round_keys [OF that(1)] by (simp add: scheduled_def)
    ultimately have "a128_round_keys (aes128_new key) ! 16 = a128_round_keys (aes128_new2 junk key) ! 16 XOR 1"
      using schedule_first_derived_byte [of 4 key] alt_first_derived_byte [of 4 10 key junk] that
        nth_slice [of 0 4 16 "a128_round_keys (aes128_new key)"] by (simp add: aes128_new2_def xor.assoc)
    then show ?thesis using x by metis
  qed
  moreover have "aes256_new2 junk key \<noteq> aes256_new key" if "length key = 32" "length junk = 240"
  proof -
    have "\<forall>v<60. slice (a256_round_keys (aes256_new key)) (4 * v) 4 = schedule 8 key v"
      using aes256_round_keys [OF that(1)] by (simp add: scheduled_def)
    from this [rule_format, of 8] have "slice (a256_round_keys (aes256_new key)) 32 4 = schedule 8 key 8" by simp
    moreover have "length (a256_round_keys (aes256_new key)) = 240" using aes256_round_keys [OF that(1)] by (simp add: scheduled_def)
    ultimately have "a256_round_keys (aes256_new key) ! 32 = a256_round_keys (aes256_new2 junk key) ! 32 XOR 1"
      using schedule_first_derived_byte [of 8 key] alt_first_derived_byte [of 8 14 key junk] that
        nth_slice [of 0 4 32 "a256_round_keys (aes256_new key)"] by (simp add: aes256_new2_def xor.assoc)
    then show ?thesis using x by metis
  qed
  ultimately show ?thesis by (simp add: blocks_agree)
qed

theorem aes_second_schedule_differs_witness: "aes128_new2 (zeros 176) (zeros 16) \<noteq> aes128_new (zeros 16)"
  using aes_second_schedule_differs [of _ _ _ "zeros 16" "zeros 176"] by simp

end
