(* ===== verification/Onion.thy ===== *)
theory Onion
  imports Session Aes_Correct
begin

unbundle bit_operations_syntax

text \<open>
  Onion routing of \<^verbatim>\<open>lunar/onion.c\<close>: routes of three to seven hops, wrapping a payload in one encrypted and
  authenticated layer per hop, peeling a layer, and the route builder. X25519 is an argument, used with the argument
  order that \<^verbatim>\<open>onion.h\<close> declares; AES-256, HKDF and SHA-256 are the modelled ones. The main facts: what each relay of a
  route does with a wrapped packet, whether or not it derives the secret of the sender, and what a relay does with any packet.
\<close>

section \<open>Data\<close>

abbreviation MAX_HOPS :: nat where "MAX_HOPS \<equiv> 7"
abbreviation MIN_HOPS :: nat where "MIN_HOPS \<equiv> 3"
abbreviation HOP_OVERHEAD :: nat where "HOP_OVERHEAD \<equiv> 18"

definition ONION_KEY_INFO :: bytes where "ONION_KEY_INFO = ascii ''lunarpunk-onion-key-v1''"
definition ONION_BLIND_INFO :: bytes where "ONION_BLIND_INFO = ascii ''lunarpunk-onion-blind-v1''"

record route_hop =
  rh_hint :: u16
  rh_public_key :: bytes

record hop_vec =
  hv_data :: "route_hop list"
  hv_len :: nat
  hv_capacity :: nat

record onion_route =
  or_hops :: hop_vec

record onion_packet =
  op_data :: cvec
  op_num_layers :: byte

datatype onion_error =
    ONION_ERROR_INVALID_ROUTE
  | ONION_ERROR_PACKET_TOO_LARGE
  | ONION_ERROR_AUTHENTICATION_FAILED
  | ONION_ERROR_DECRYPTION_FAILED
  | ONION_ERROR_NO_MORE_LAYERS

record onion_router =
  on_our_private :: bytes
  on_our_public :: bytes
  on_our_hint :: u16

record route_builder =
  rb_relays :: hop_vec

section \<open>Hop vectors and routes\<close>

definition zero_hop :: route_hop where
  "zero_hop = \<lparr>rh_hint = 0, rh_public_key = zeros 32\<rparr>"

definition heapless_vec_routehop_init :: "hop_vec \<Rightarrow> bool \<times> hop_vec" where
  "heapless_vec_routehop_init v = (True, v\<lparr>hv_len := 0, hv_capacity := MAX_HOPS, hv_data := replicate MAX_HOPS zero_hop\<rparr>)"

definition heapless_vec_routehop_push :: "hop_vec \<Rightarrow> route_hop \<Rightarrow> bool \<times> hop_vec" where
  "heapless_vec_routehop_push v hop =
     (if hv_len v \<ge> hv_capacity v then (False, v)
      else (True, v\<lparr>hv_data := (hv_data v)[hv_len v := hop], hv_len := hv_len v + 1\<rparr>))"

definition heapless_vec_routehop_first :: "hop_vec \<Rightarrow> route_hop option" where
  "heapless_vec_routehop_first v = (if hv_len v = 0 then None else Some (hv_data v ! 0))"

definition heapless_vec_routehop_last :: "hop_vec \<Rightarrow> route_hop option" where
  "heapless_vec_routehop_last v = (if hv_len v = 0 then None else Some (hv_data v ! (hv_len v - 1)))"

text \<open>Pushing the elements of a list one after the other, stopping at the first that does not fit.\<close>

fun push_hops :: "hop_vec \<Rightarrow> route_hop list \<Rightarrow> bool \<times> hop_vec" where
  "push_hops v [] = (True, v)"
| "push_hops v (hop # hops) =
     (let (ok, v) = heapless_vec_routehop_push v hop in if \<not> ok then (False, v) else push_hops v hops)"

definition onion_route_new :: "onion_route \<Rightarrow> route_hop list \<Rightarrow> bool \<times> onion_route" where
  "onion_route_new route hops =
     (if length hops < MIN_HOPS \<or> length hops > MAX_HOPS then (False, route)
      else let (ok, v) = push_hops (snd (heapless_vec_routehop_init (or_hops route))) hops in (ok, route\<lparr>or_hops := v\<rparr>))"

definition onion_route_len :: "onion_route \<Rightarrow> nat" where
  "onion_route_len route = hv_len (or_hops route)"

definition onion_route_is_empty :: "onion_route \<Rightarrow> bool" where
  "onion_route_is_empty route = (hv_len (or_hops route) = 0)"

definition onion_route_entry_hint :: "onion_route \<Rightarrow> u16" where
  "onion_route_entry_hint route = (case heapless_vec_routehop_first (or_hops route) of None \<Rightarrow> 0 | Some hop \<Rightarrow> rh_hint hop)"

definition onion_route_exit_hint :: "onion_route \<Rightarrow> u16" where
  "onion_route_exit_hint route = (case heapless_vec_routehop_last (or_hops route) of None \<Rightarrow> 0 | Some hop \<Rightarrow> rh_hint hop)"

definition onion_route_overhead :: "onion_route \<Rightarrow> nat" where
  "onion_route_overhead route = hv_len (or_hops route) * HOP_OVERHEAD"

section \<open>Layers\<close>

definition be16 :: "byte \<Rightarrow> byte \<Rightarrow> u16" where
  "be16 hi lo = push_bit 8 (ucast hi) OR ucast lo"

definition onion_router_new :: "(bytes \<Rightarrow> bytes) \<Rightarrow> bytes \<Rightarrow> onion_router" where
  "onion_router_new x25519_base private_key =
     (let our_public = x25519_base private_key;
          hint_hash = sha256_hash our_public
      in \<lparr>on_our_private = private_key, on_our_public = our_public, on_our_hint = be16 (hint_hash ! 0) (hint_hash ! 1)\<rparr>)"

definition onion_router_encrypt_layer :: "bytes \<Rightarrow> bytes \<Rightarrow> cvec \<Rightarrow> bool \<times> cvec" where
  "onion_router_encrypt_layer key d out =
     (let out = snd (heapless_vec_u8_256_init out);
          (ok, out) = heapless_vec_u8_256_extend_from_slice out d
      in if \<not> ok then (False, out)
         else let aes_ctx = aes256_new key;
                  counter = zeros 16
              in (True, out\<lparr>vdata := xor_stream 16 (\<lambda>block_num. aes256_encrypt_block aes_ctx (memcpy counter 8 (le_bytes 8 block_num)))
                    (\<lambda>block_num. block_num + 1) (vdata out) (vlen out) 0 (0 :: u64)\<rparr>))"

definition onion_router_decrypt_layer :: "bytes \<Rightarrow> bytes \<Rightarrow> cvec \<Rightarrow> bool \<times> cvec" where
  "onion_router_decrypt_layer key d out = onion_router_encrypt_layer key d out"

text \<open>\<open>junk\<close> is the uninitialised vector on the stack. The results of the two extensions are not looked at.\<close>

definition onion_router_compute_tag :: "cvec \<Rightarrow> bytes \<Rightarrow> bytes \<Rightarrow> bytes" where
  "onion_router_compute_tag junk key d =
     (let inner = map (\<lambda>i. if i < 32 then 0x36 XOR key ! i else 0x36) [0..<64];
          outer = map (\<lambda>i. if i < 32 then 0x5c XOR key ! i else 0x5c) [0..<64];
          inner_input = snd (heapless_vec_u8_320_init junk);
          inner_input = snd (heapless_vec_u8_320_extend_from_slice inner_input inner);
          inner_input = snd (heapless_vec_u8_320_extend_from_slice inner_input d);
          inner_hash = sha256_hash (slice (vdata inner_input) 0 (vlen inner_input));
          full = sha256_hash (outer @ inner_hash)
      in slice full 0 16)"

definition layer_key_of :: "bytes \<Rightarrow> byte \<Rightarrow> bytes" where
  "layer_key_of shared layer_index = kdf (shared @ [layer_index]) [layer_index] ONION_KEY_INFO 32"

text \<open>Wrapping: one turn of the loop, for hop \<open>i\<close>, and the loop from the last hop to the first.\<close>

definition wrap_layer :: "(bytes \<Rightarrow> bytes \<Rightarrow> bytes) \<Rightarrow> cvec \<Rightarrow> onion_router \<Rightarrow> onion_route \<Rightarrow> nat \<Rightarrow> cvec \<Rightarrow> onion_error + cvec" where
  "wrap_layer x25519 junk self route i current =
     (let hops = or_hops route;
          hop = hv_data hops ! i;
          shared = x25519 (on_our_private self) (rh_public_key hop);
          layer_index = of_nat (hv_len hops - 1 - i);
          layer_key = layer_key_of shared layer_index;
          (ok, encrypted) = onion_router_encrypt_layer layer_key (slice (vdata current) 0 (vlen current)) (snd (heapless_vec_u8_256_init junk))
      in if \<not> ok then Inl ONION_ERROR_PACKET_TOO_LARGE else
      let tag = onion_router_compute_tag junk layer_key (slice (vdata encrypted) 0 (vlen encrypted));
          new_layer = snd (heapless_vec_u8_256_init junk);
          next_hint = (if i = hv_len hops - 1 then 0 else rh_hint (hv_data hops ! (i + 1)));
          (ok, new_layer) = heapless_vec_u8_256_push new_layer (ucast (drop_bit 8 next_hint))
      in if \<not> ok then Inl ONION_ERROR_PACKET_TOO_LARGE else
      let (ok, new_layer) = heapless_vec_u8_256_push new_layer (ucast next_hint)
      in if \<not> ok then Inl ONION_ERROR_PACKET_TOO_LARGE else
      let (ok, new_layer) = heapless_vec_u8_256_extend_from_slice new_layer tag
      in if \<not> ok then Inl ONION_ERROR_PACKET_TOO_LARGE else
      let (ok, new_layer) = heapless_vec_u8_256_extend_from_slice new_layer (slice (vdata encrypted) 0 (vlen encrypted))
      in if \<not> ok then Inl ONION_ERROR_PACKET_TOO_LARGE else Inr new_layer)"

fun wrap_layers :: "(bytes \<Rightarrow> bytes \<Rightarrow> bytes) \<Rightarrow> cvec \<Rightarrow> onion_router \<Rightarrow> onion_route \<Rightarrow> nat \<Rightarrow> cvec \<Rightarrow> onion_error + cvec" where
  "wrap_layers x25519 junk self route 0 current = Inr current"
| "wrap_layers x25519 junk self route (Suc i) current =
     (case wrap_layer x25519 junk self route i current of
        Inl err \<Rightarrow> Inl err
      | Inr current \<Rightarrow> wrap_layers x25519 junk self route i current)"

definition onion_router_wrap :: "(bytes \<Rightarrow> bytes \<Rightarrow> bytes) \<Rightarrow> cvec \<Rightarrow> onion_router \<Rightarrow> bytes \<Rightarrow> onion_route \<Rightarrow> onion_error + onion_packet" where
  "onion_router_wrap x25519 junk self payload route =
     (if hv_len (or_hops route) < MIN_HOPS \<or> hv_len (or_hops route) > MAX_HOPS then Inl ONION_ERROR_INVALID_ROUTE
      else if length payload + onion_route_overhead route > 256 then Inl ONION_ERROR_PACKET_TOO_LARGE
      else let (ok, current) = heapless_vec_u8_256_extend_from_slice (snd (heapless_vec_u8_256_init junk)) payload
           in if \<not> ok then Inl ONION_ERROR_PACKET_TOO_LARGE
              else case wrap_layers x25519 junk self route (hv_len (or_hops route)) current of
                     Inl err \<Rightarrow> Inl err
                   | Inr current \<Rightarrow> Inr \<lparr>op_data = current, op_num_layers = of_nat (hv_len (or_hops route))\<rparr>)"

text \<open>The part that \<^verbatim>\<open>unwrap\<close> and \<^verbatim>\<open>unwrap_final\<close> share: authenticate and decrypt one layer.\<close>

definition open_layer :: "(bytes \<Rightarrow> bytes \<Rightarrow> bytes) \<Rightarrow> cvec \<Rightarrow> onion_router \<Rightarrow> onion_packet \<Rightarrow> bytes \<Rightarrow> cvec \<Rightarrow> onion_error + cvec" where
  "open_layer x25519 junk self packet sender_public out =
     (let tag = slice (vdata (op_data packet)) 2 16;
          encrypted = slice (vdata (op_data packet)) 18 (vlen (op_data packet) - 18);
          shared = x25519 (on_our_private self) sender_public;
          layer_index = (if op_num_layers packet > 0 then op_num_layers packet - 1 else 0);
          layer_key = layer_key_of shared layer_index;
          expected_tag = onion_router_compute_tag junk layer_key encrypted
      in if \<not> constant_time_eq tag expected_tag then Inl ONION_ERROR_AUTHENTICATION_FAILED
         else let (ok, inner) = onion_router_decrypt_layer layer_key encrypted (snd (heapless_vec_u8_256_init out))
              in if \<not> ok then Inl ONION_ERROR_DECRYPTION_FAILED else Inr inner)"

definition onion_router_unwrap :: "(bytes \<Rightarrow> bytes \<Rightarrow> bytes) \<Rightarrow> cvec \<Rightarrow> onion_router \<Rightarrow> onion_packet \<Rightarrow> bytes \<Rightarrow> onion_error + u16 \<times> onion_packet" where
  "onion_router_unwrap x25519 junk self packet sender_public =
     (if vlen (op_data packet) < HOP_OVERHEAD then Inl ONION_ERROR_DECRYPTION_FAILED
      else let next_hint = be16 (vdata (op_data packet) ! 0) (vdata (op_data packet) ! 1)
           in case open_layer x25519 junk self packet sender_public junk of
                Inl err \<Rightarrow> Inl err
              | Inr inner \<Rightarrow>
                  if next_hint = 0 then Inl ONION_ERROR_NO_MORE_LAYERS
                  else Inr (next_hint, \<lparr>op_data = inner, op_num_layers = (if op_num_layers packet > 0 then op_num_layers packet - 1 else 0)\<rparr>))"

definition onion_router_unwrap_final :: "(bytes \<Rightarrow> bytes \<Rightarrow> bytes) \<Rightarrow> cvec \<Rightarrow> onion_router \<Rightarrow> onion_packet \<Rightarrow> bytes \<Rightarrow> cvec \<Rightarrow> onion_error + cvec" where
  "onion_router_unwrap_final x25519 junk self packet sender_public payload_out =
     (if vlen (op_data packet) < HOP_OVERHEAD then Inl ONION_ERROR_DECRYPTION_FAILED
      else open_layer x25519 junk self packet sender_public payload_out)"

definition onion_router_our_hint :: "onion_router \<Rightarrow> u16" where
  "onion_router_our_hint router = on_our_hint router"

definition onion_router_our_public :: "onion_router \<Rightarrow> bytes" where
  "onion_router_our_public router = on_our_public router"

definition onion_router_derive_blinded_hint :: "onion_router \<Rightarrow> u64 \<Rightarrow> u16" where
  "onion_router_derive_blinded_hint router epoch =
     (let blinded = kdf (slice (on_our_public router) 0 32 @ le_bytes 8 epoch) (le_bytes 8 epoch) ONION_BLIND_INFO 2
      in be16 (blinded ! 0) (blinded ! 1))"

section \<open>Route builder\<close>

definition heapless_vec_routehop_32_init :: "hop_vec \<Rightarrow> bool \<times> hop_vec" where
  "heapless_vec_routehop_32_init v = (True, v\<lparr>hv_len := 0, hv_capacity := 32, hv_data := replicate 32 zero_hop\<rparr>)"

definition heapless_vec_routehop_32_push :: "hop_vec \<Rightarrow> route_hop \<Rightarrow> bool \<times> hop_vec" where
  "heapless_vec_routehop_32_push v hop =
     (if hv_len v \<ge> hv_capacity v then (False, v)
      else (True, v\<lparr>hv_data := (hv_data v)[hv_len v := hop], hv_len := hv_len v + 1\<rparr>))"

definition route_builder_new :: "route_builder \<Rightarrow> route_builder" where
  "route_builder_new builder = builder\<lparr>rb_relays := snd (heapless_vec_routehop_32_init (rb_relays builder))\<rparr>"

definition route_builder_add_relay :: "route_builder \<Rightarrow> u16 \<Rightarrow> bytes \<Rightarrow> bool \<times> route_builder" where
  "route_builder_add_relay builder hint public_key =
     (let hop = \<lparr>rh_hint = hint, rh_public_key = slice public_key 0 32\<rparr>;
          (ok, v) = heapless_vec_routehop_32_push (rb_relays builder) hop
      in (ok, builder\<lparr>rb_relays := v\<rparr>))"

definition route_builder_build_route :: "hop_vec \<Rightarrow> route_builder \<Rightarrow> route_hop \<Rightarrow> nat \<Rightarrow> onion_route \<Rightarrow> bool \<times> onion_route" where
  "route_builder_build_route junk builder destination num_hops route_out =
     (if num_hops < MIN_HOPS \<or> num_hops > MAX_HOPS then (False, route_out)
      else let relay_count = num_hops - 1
           in if hv_len (rb_relays builder) < relay_count then (False, route_out)
              else let hops = snd (heapless_vec_routehop_init junk);
                       (ok, hops) = push_hops hops
                         (map (\<lambda>i. hv_data (rb_relays builder) ! (i mod hv_len (rb_relays builder))) [0..<relay_count])
                   in if \<not> ok then (False, route_out)
                      else let (ok, hops) = heapless_vec_routehop_push hops destination
                           in if \<not> ok then (False, route_out) else (True, route_out\<lparr>or_hops := hops\<rparr>))"

definition route_builder_relay_count :: "route_builder \<Rightarrow> nat" where
  "route_builder_relay_count builder = hv_len (rb_relays builder)"

definition route_builder_default :: "route_builder \<Rightarrow> route_builder" where
  "route_builder_default builder = route_builder_new builder"

section \<open>What one layer is\<close>

definition layer_ctr :: "bytes \<Rightarrow> bytes \<Rightarrow> bytes" where
  "layer_ctr key d = xor_stream 16 (\<lambda>n. aes256_encrypt_block (aes256_new key) (memcpy (zeros 16) 8 (le_bytes 8 n)))
     (\<lambda>n. n + 1) d (length d) 0 (0 :: u64)"

definition layer_tag :: "bytes \<Rightarrow> bytes \<Rightarrow> bytes" where
  "layer_tag key d =
     take 16 (sha256_hash (map (\<lambda>i. if i < 32 then 0x5c XOR key ! i else 0x5c) [0..<64]
       @ sha256_hash (map (\<lambda>i. if i < 32 then 0x36 XOR key ! i else 0x36) [0..<64] @ d)))"

definition layer_bytes :: "bytes \<Rightarrow> u16 \<Rightarrow> bytes \<Rightarrow> bytes" where
  "layer_bytes key hint content =
     [ucast (drop_bit 8 hint), ucast hint] @ layer_tag key (layer_ctr key content) @ layer_ctr key content"

lemma layer_ctr_facts [simp]: "layer_ctr key (layer_ctr key d) = d" "length (layer_ctr key d) = length d"
  by (simp_all add: layer_ctr_def xor_stream_twice)

lemma length_layer_tag [simp]: "length (layer_tag key d) = 16"
  by (simp add: layer_tag_def)

lemma length_layer_bytes [simp]: "length (layer_bytes key hint content) = length content + 18"
  by (simp add: layer_bytes_def)

lemma be16_split: "be16 (ucast (drop_bit 8 h)) (ucast h) = h"
  unfolding be16_def by (rule bit_word_eqI) (auto simp: bit_simps)

lemma slice_cvec_bytes: "slice (vdata v) 0 (vlen v) = vec_bytes v"
  by (simp add: slice_0_take vec_bytes_def)

lemma cvec_length: "cvec_wf 256 v \<Longrightarrow> length (vec_bytes v) = vlen v"
  using length_vec_bytes [of 256 v] by (simp add: cvec_wf_def)

lemma init_256:
  "cvec_wf 256 (snd (heapless_vec_u8_256_init v))" "vec_bytes (snd (heapless_vec_u8_256_init v)) = []"
  "vlen (snd (heapless_vec_u8_256_init v)) = 0"
  by (simp_all add: heapless_vec_u8_256_init_def cvec_wf_def vec_wf_def vec_bytes_def)

lemma extend_256:
  assumes "cvec_wf 256 v" "vlen v + length xs \<le> 256"
  obtains v' where "heapless_vec_u8_256_extend_from_slice v xs = (True, v')" "cvec_wf 256 v'" "vec_bytes v' = vec_bytes v @ xs"
proof -
  have "heapless_vec_u8_256_extend_from_slice v xs = (True, snd (heapless_vec_u8_256_extend_from_slice v xs))"
    using assms by (simp add: heapless_vec_u8_256_extend_from_slice_def cvec_wf_def)
  with that show ?thesis using u256.extend_wf u256.extend_fits assms by (simp add: cvec_length)
qed

lemma push_256:
  assumes "cvec_wf 256 v" "vlen v < 256"
  obtains v' where "heapless_vec_u8_256_push v b = (True, v')" "cvec_wf 256 v'" "vec_bytes v' = vec_bytes v @ [b]"
proof -
  have "heapless_vec_u8_256_push v b = (True, snd (heapless_vec_u8_256_push v b))"
    using assms by (simp add: heapless_vec_u8_256_push_def cvec_wf_def)
  with that show ?thesis using u256.push_wf u256.push_fits assms by (simp add: cvec_length)
qed

lemma encrypt_layer_fits:
  assumes "length d \<le> 256"
  obtains v where "onion_router_encrypt_layer key d out = (True, v)" "cvec_wf 256 v" "vec_bytes v = layer_ctr key d"
proof -
  obtain v where v: "heapless_vec_u8_256_extend_from_slice (snd (heapless_vec_u8_256_init out)) d = (True, v)"
    "cvec_wf 256 v" "vec_bytes v = d"
    using extend_256 [OF init_256(1), of out d] assms by (auto simp: init_256)
  let ?e = "\<lambda>n. aes256_encrypt_block (aes256_new key) (memcpy (zeros 16) 8 (le_bytes 8 n))"
  let ?v = "v\<lparr>vdata := xor_stream 16 ?e (\<lambda>n. n + 1) (vdata v) (vlen v) 0 (0 :: u64)\<rparr>"
  have len: "vlen v \<le> length (vdata v)" "length d = vlen v" using v(2,3) by (auto simp: cvec_wf_def vec_wf_def vec_bytes_def)
  show ?thesis
  proof
    show "onion_router_encrypt_layer key d out = (True, ?v)" by (simp add: onion_router_encrypt_layer_def v(1) Let_def)
    show "cvec_wf 256 ?v" using v(2) len by (auto simp: cvec_wf_def vec_wf_def)
    show "vec_bytes ?v = layer_ctr key d" using len v(3) by (simp add: vec_bytes_def layer_ctr_def take_xor_stream)
  qed
qed

lemma init_320: "cvec_wf 320 (snd (heapless_vec_u8_320_init v))" "vec_bytes (snd (heapless_vec_u8_320_init v)) = []"
  by (simp_all add: heapless_vec_u8_320_init_def cvec_wf_def vec_wf_def vec_bytes_def)

lemma compute_tag_fits:
  assumes "length d \<le> 256"
  shows "onion_router_compute_tag junk key d = layer_tag key d"
proof -
  let ?ext = "\<lambda>v xs. snd (heapless_vec_u8_320_extend_from_slice v xs)"
  let ?i = "map (\<lambda>i. if i < 32 then 0x36 XOR key ! i else 0x36) [0..<64]"
  have "vec_bytes (foldl ?ext (snd (heapless_vec_u8_320_init junk)) [?i, d]) = ?i @ d"
    using assms by (subst u320.extends_fit [OF init_320(1)]) (simp_all add: init_320(2))
  then have "vec_bytes (?ext (?ext (snd (heapless_vec_u8_320_init junk)) ?i) d) = ?i @ d" by (simp only: foldl.simps)
  then show ?thesis
    unfolding onion_router_compute_tag_def layer_tag_def Let_def slice_cvec_bytes by (simp only: slice_0_take)
qed

section \<open>Wrapping builds the nested layers\<close>

fun hint_after :: "route_hop list \<Rightarrow> u16" where
  "hint_after [] = 0"
| "hint_after (hop # hops) = rh_hint hop"

fun onion_of :: "(bytes \<Rightarrow> bytes) \<Rightarrow> route_hop list \<Rightarrow> bytes \<Rightarrow> bytes" where
  "onion_of dh [] payload = payload"
| "onion_of dh (hop # hops) payload =
     layer_bytes (layer_key_of (dh (rh_public_key hop)) (of_nat (length hops))) (hint_after hops) (onion_of dh hops payload)"

lemma length_onion_of [simp]: "length (onion_of dh hops payload) = length payload + 18 * length hops"
  by (induction hops) auto

lemma hint_after_hd: "hint_after hops = (if hops = [] then 0 else rh_hint (hd hops))"
  by (cases hops) auto

definition route_hops :: "onion_route \<Rightarrow> route_hop list" where
  "route_hops route = take (hv_len (or_hops route)) (hv_data (or_hops route))"

definition hops_wf :: "nat \<Rightarrow> hop_vec \<Rightarrow> bool" where
  "hops_wf cap v \<longleftrightarrow> length (hv_data v) = cap \<and> hv_capacity v = cap \<and> hv_len v \<le> cap"

lemma wrap_layer_fits:
  assumes "cvec_wf 256 current" "vlen current + 18 \<le> 256" "length (hv_data (or_hops route)) \<ge> hv_len (or_hops route)"
    and "i < hv_len (or_hops route)" "vec_bytes current = onion_of (x25519 (on_our_private self)) (drop (Suc i) (route_hops route)) payload"
  obtains v where "wrap_layer x25519 junk self route i current = Inr v" "cvec_wf 256 v"
    "vec_bytes v = onion_of (x25519 (on_our_private self)) (drop i (route_hops route)) payload"
proof -
  let ?h = "or_hops route" and ?n = "hv_len (or_hops route)" and ?dh = "x25519 (on_our_private self)"
  let ?key = "layer_key_of (?dh (rh_public_key (hv_data ?h ! i))) (of_nat (?n - 1 - i))"
  let ?hint = "if i = ?n - 1 then 0 else rh_hint (hv_data ?h ! (i + 1))"
  have hops: "drop i (route_hops route) = hv_data ?h ! i # drop (Suc i) (route_hops route)"
    "length (drop (Suc i) (route_hops route)) = ?n - 1 - i" "hint_after (drop (Suc i) (route_hops route)) = ?hint"
    using assms(3,4) by (auto simp: route_hops_def Cons_nth_drop_Suc [symmetric] hint_after_hd hd_drop_conv_nth)
  have len: "length (vec_bytes current) = vlen current" using assms(1) by (rule cvec_length)
  obtain e where e: "onion_router_encrypt_layer ?key (vec_bytes current) (snd (heapless_vec_u8_256_init junk)) = (True, e)"
    "cvec_wf 256 e" "vec_bytes e = layer_ctr ?key (vec_bytes current)"
    using encrypt_layer_fits [of "vec_bytes current"] assms(2) len by (metis add_leD1)
  have elen: "vlen e = vlen current" using e(2,3) len cvec_length by fastforce
  obtain v1 where v1: "heapless_vec_u8_256_push (snd (heapless_vec_u8_256_init junk)) (ucast (drop_bit 8 ?hint)) = (True, v1)"
    "cvec_wf 256 v1" "vec_bytes v1 = [ucast (drop_bit 8 ?hint)]"
    using push_256 [OF init_256(1), of junk] by (auto simp: init_256)
  have l1: "vlen v1 = 1" using v1(2,3) cvec_length by fastforce
  obtain v2 where v2: "heapless_vec_u8_256_push v1 (ucast ?hint) = (True, v2)"
    "cvec_wf 256 v2" "vec_bytes v2 = [ucast (drop_bit 8 ?hint), ucast ?hint]"
    using push_256 [OF v1(2)] v1(3) l1 by (metis append_Cons append_Nil one_less_numeral_iff semiring_norm(76))
  have l2: "vlen v2 = 2" using v2(2,3) cvec_length by fastforce
  obtain v3 where v3: "heapless_vec_u8_256_extend_from_slice v2 (layer_tag ?key (vec_bytes e)) = (True, v3)"
    "cvec_wf 256 v3" "vec_bytes v3 = vec_bytes v2 @ layer_tag ?key (vec_bytes e)"
    using extend_256 [OF v2(2), of "layer_tag ?key (vec_bytes e)"] l2 by auto
  have l3: "vlen v3 = 18" using v3(2,3) v2(3) cvec_length by fastforce
  obtain v4 where v4: "heapless_vec_u8_256_extend_from_slice v3 (vec_bytes e) = (True, v4)"
    "cvec_wf 256 v4" "vec_bytes v4 = vec_bytes v3 @ vec_bytes e"
    using extend_256 [OF v3(2), of "vec_bytes e"] l3 assms(2) cvec_length [OF e(2)] elen by auto
  have tag: "onion_router_compute_tag junk ?key (vec_bytes e) = layer_tag ?key (vec_bytes e)"
    using compute_tag_fits cvec_length [OF e(2)] elen assms(2) by simp
  show ?thesis
  proof
    show "wrap_layer x25519 junk self route i current = Inr v4"
      unfolding wrap_layer_def Let_def slice_cvec_bytes e(1) prod.case tag v1(1) v2(1) v3(1) v4(1) by simp
    show "vec_bytes v4 = onion_of ?dh (drop i (route_hops route)) payload"
      using v4(3) v3(3) v2(3) e(3) assms(5) hops by (simp add: layer_bytes_def)
  qed (rule v4(2))
qed

lemma wrap_layers_fits:
  assumes "cvec_wf 256 current" "i \<le> hv_len (or_hops route)" "length (hv_data (or_hops route)) \<ge> hv_len (or_hops route)"
    and "length payload + 18 * hv_len (or_hops route) \<le> 256"
    and "vec_bytes current = onion_of (x25519 (on_our_private self)) (drop i (route_hops route)) payload"
  shows "\<exists>v. wrap_layers x25519 junk self route i current = Inr v \<and> cvec_wf 256 v \<and>
           vec_bytes v = onion_of (x25519 (on_our_private self)) (route_hops route) payload"
  using assms
proof (induction i arbitrary: current)
  case 0
  then show ?case by simp
next
  case (Suc i)
  have "vlen current = length payload + 18 * (hv_len (or_hops route) - Suc i)"
    using cvec_length [OF Suc.prems(1)] Suc.prems(3,5) by (simp add: route_hops_def)
  then have "vlen current + 18 \<le> 256" using Suc.prems(2,4) by simp
  then obtain v where "wrap_layer x25519 junk self route i current = Inr v" "cvec_wf 256 v"
    "vec_bytes v = onion_of (x25519 (on_our_private self)) (drop i (route_hops route)) payload"
    using wrap_layer_fits Suc.prems by (metis Suc_le_eq)
  with Suc.IH [of v] Suc.prems show ?case by simp
qed

lemma wrap_result:
  assumes "hops_wf MAX_HOPS (or_hops route)" "3 \<le> hv_len (or_hops route)"
    and "length payload + 18 * hv_len (or_hops route) \<le> 256"
  obtains v where "onion_router_wrap x25519 junk self payload route = Inr \<lparr>op_data = v, op_num_layers = of_nat (length (route_hops route))\<rparr>"
    "cvec_wf 256 v" "vec_bytes v = onion_of (x25519 (on_our_private self)) (route_hops route) payload"
proof -
  have len: "length (route_hops route) = hv_len (or_hops route)" using assms(1) by (simp add: route_hops_def hops_wf_def)
  obtain c where c: "heapless_vec_u8_256_extend_from_slice (snd (heapless_vec_u8_256_init junk)) payload = (True, c)"
    "cvec_wf 256 c" "vec_bytes c = payload"
    using extend_256 [OF init_256(1), of junk payload] assms(3) by (auto simp: init_256)
  obtain v where v: "wrap_layers x25519 junk self route (hv_len (or_hops route)) c = Inr v" "cvec_wf 256 v"
    "vec_bytes v = onion_of (x25519 (on_our_private self)) (route_hops route) payload"
    using wrap_layers_fits [OF c(2), of "hv_len (or_hops route)" route payload x25519 self junk] assms len c(3) by (auto simp: hops_wf_def)
  show ?thesis
    by (rule that [OF _ v(2,3)])
      (use assms len c(1) v(1) in \<open>simp add: onion_router_wrap_def onion_route_overhead_def hops_wf_def mult.commute\<close>)
qed

section \<open>Opening a layer\<close>

lemma open_layer_bytes:
  assumes "cvec_wf 256 (op_data packet)" "vec_bytes (op_data packet) = layer_bytes key hint content"
    and "key = layer_key_of (x25519 (on_our_private self) sender) (if op_num_layers packet > 0 then op_num_layers packet - 1 else 0)"
  shows "\<exists>v. open_layer x25519 junk self packet sender out = Inr v \<and> cvec_wf 256 v \<and> vec_bytes v = content"
    and "vlen (op_data packet) = length content + 18"
    and "be16 (vdata (op_data packet) ! 0) (vdata (op_data packet) ! 1) = hint"
proof -
  let ?d = "vdata (op_data packet)" and ?n = "vlen (op_data packet)"
  show n: "?n = length content + 18" using cvec_length [OF assms(1)] assms(2) by simp
  have le: "?n \<le> 256" "?n \<le> length ?d" using assms(1) by (auto simp: cvec_wf_def vec_wf_def)
  have pre: "take ?n ?d = layer_bytes key hint content" using assms(2) by (simp add: vec_bytes_def)
  have "slice ?d 2 16 = slice (take ?n ?d) 2 16" "slice ?d 18 (?n - 18) = slice (take ?n ?d) 18 (?n - 18)"
    using n by (auto simp: slice_def drop_take min_def)
  then have s: "slice ?d 2 16 = layer_tag key (layer_ctr key content)" "slice ?d 18 (?n - 18) = layer_ctr key content"
    unfolding pre by (simp_all add: layer_bytes_def slice_def n)
  have "?d ! 0 = take ?n ?d ! 0" "?d ! 1 = take ?n ?d ! 1" using n by simp_all
  then show "be16 (?d ! 0) (?d ! 1) = hint" unfolding pre by (simp add: layer_bytes_def be16_split)
  obtain v where v: "onion_router_encrypt_layer key (layer_ctr key content) (snd (heapless_vec_u8_256_init out)) = (True, v)"
    "cvec_wf 256 v" "vec_bytes v = layer_ctr key (layer_ctr key content)"
    using encrypt_layer_fits [of "layer_ctr key content"] le n by (metis add_leD1 layer_ctr_facts(2))
  have "onion_router_compute_tag junk key (layer_ctr key content) = layer_tag key (layer_ctr key content)"
    using le n by (intro compute_tag_fits) simp
  then have "open_layer x25519 junk self packet sender out = Inr v"
    unfolding open_layer_def Let_def s assms(3) [symmetric] onion_router_decrypt_layer_def v(1) by simp
  with v show "\<exists>v. open_layer x25519 junk self packet sender out = Inr v \<and> cvec_wf 256 v \<and> vec_bytes v = content" by simp
qed

lemma layer_tag_hmac: "length key = 32 \<Longrightarrow> layer_tag key d = take 16 (hmac_spec key d)"
proof -
  assume key: "length key = 32"
  have "map (\<lambda>i. if i < 32 then c XOR key ! i else c) [0..<64] = map (\<lambda>b. b XOR c) (hmac_pad_key key)" for c :: byte
    using key by (intro nth_equalityI) (auto simp: hmac_pad_key_def nth_append zeros_def xor.commute)
  then show ?thesis by (simp add: layer_tag_def hmac_spec_def sha256_hash_spec)
qed

lemma length_layer_key [simp]: "length (layer_key_of shared n) = 32"
  by (simp add: layer_key_of_def)

text \<open>A relay that derived another secret than the sender refuses the layer, unless the two tags happen to be the same.\<close>

definition tags_differ :: "(bytes \<Rightarrow> bytes) \<Rightarrow> bytes \<Rightarrow> route_hop \<Rightarrow> route_hop list \<Rightarrow> bytes \<Rightarrow> bool" where
  "tags_differ dh secret hop hops payload \<longleftrightarrow>
     (let key = layer_key_of (dh (rh_public_key hop)) (of_nat (length hops)); content = layer_ctr key (onion_of dh hops payload)
      in take 16 (hmac_spec (layer_key_of secret (of_nat (length hops))) content) \<noteq> take 16 (hmac_spec key content))"

lemma open_layer_refused:
  assumes "cvec_wf 256 (op_data packet)" "vec_bytes (op_data packet) = onion_of dh (hop # hops) payload"
    and "(if op_num_layers packet > 0 then op_num_layers packet - 1 else 0) = (of_nat (length hops) :: byte)"
    and "tags_differ dh (x25519 (on_our_private self) sender) hop hops payload"
  shows "open_layer x25519 junk self packet sender out = Inl ONION_ERROR_AUTHENTICATION_FAILED" "\<not> vlen (op_data packet) < 18"
proof -
  let ?d = "vdata (op_data packet)" and ?n = "vlen (op_data packet)"
  let ?key = "layer_key_of (dh (rh_public_key hop)) (of_nat (length hops))"
  let ?c = "layer_ctr ?key (onion_of dh hops payload)"
  have b: "vec_bytes (op_data packet) = layer_bytes ?key (hint_after hops) (onion_of dh hops payload)" using assms(2) by simp
  have n: "?n = length ?c + 18" using cvec_length [OF assms(1)] b by simp
  then show "\<not> ?n < 18" by simp
  have le: "?n \<le> 256" "?n \<le> length ?d" using assms(1) by (auto simp: cvec_wf_def vec_wf_def)
  have pre: "take ?n ?d = layer_bytes ?key (hint_after hops) (onion_of dh hops payload)" using b by (simp add: vec_bytes_def)
  have "slice ?d 2 16 = slice (take ?n ?d) 2 16" "slice ?d 18 (?n - 18) = slice (take ?n ?d) 18 (?n - 18)"
    using n by (auto simp: slice_def drop_take min_def)
  then have s: "slice ?d 2 16 = layer_tag ?key ?c" "slice ?d 18 (?n - 18) = ?c"
    unfolding pre by (simp_all add: layer_bytes_def slice_def n)
  have "onion_router_compute_tag junk key ?c = layer_tag key ?c" for key using le n by (intro compute_tag_fits) simp
  then show "open_layer x25519 junk self packet sender out = Inl ONION_ERROR_AUTHENTICATION_FAILED"
    unfolding open_layer_def Let_def s assms(3) using assms(4) by (simp add: tags_differ_def Let_def layer_tag_hmac)
qed

section \<open>Peeling along a route\<close>

text \<open>The routers of a route handle a packet one after the other: all but the last call \<^verbatim>\<open>unwrap\<close> and send the inner packet on,
  the last calls \<^verbatim>\<open>unwrap_final\<close>. The result is the hints the relays saw and the payload at the end.\<close>

fun peel :: "(bytes \<Rightarrow> bytes \<Rightarrow> bytes) \<Rightarrow> cvec \<Rightarrow> bytes \<Rightarrow> onion_router list \<Rightarrow> onion_packet \<Rightarrow> onion_error + u16 list \<times> bytes" where
  "peel x25519 junk sender [] packet = Inl ONION_ERROR_INVALID_ROUTE"
| "peel x25519 junk sender [r] packet =
     (case onion_router_unwrap_final x25519 junk r packet sender junk of Inl err \<Rightarrow> Inl err | Inr v \<Rightarrow> Inr ([], vec_bytes v))"
| "peel x25519 junk sender (r # r' # rs) packet =
     (case onion_router_unwrap x25519 junk r packet sender of
        Inl err \<Rightarrow> Inl err
      | Inr (hint, inner) \<Rightarrow>
          (case peel x25519 junk sender (r' # rs) inner of Inl err \<Rightarrow> Inl err | Inr (hints, p) \<Rightarrow> Inr (hint # hints, p)))"

lemma layers_pred: "0 < n \<Longrightarrow> n < 256 \<Longrightarrow> (if (of_nat n :: byte) > 0 then of_nat n - 1 else 0) = (of_nat (n - 1) :: byte)"
  by (simp add: word_less_nat_alt unat_of_nat of_nat_diff)

lemma peel_onion:
  assumes "length rs = length hops" "hops \<noteq> []" "length hops < 256"
    and "\<forall>i < length hops. x25519 (on_our_private (rs ! i)) sender = dh (rh_public_key (hops ! i))"
    and "cvec_wf 256 (op_data packet)" "vec_bytes (op_data packet) = onion_of dh hops payload"
    and "op_num_layers packet = of_nat (length hops)"
  shows "peel x25519 junk sender rs packet =
    (if 0 \<in> rh_hint ` set (tl hops) then Inl ONION_ERROR_NO_MORE_LAYERS else Inr (map rh_hint (tl hops), payload))"
  using assms
proof (induction hops arbitrary: rs packet)
  case Nil
  then show ?case by simp
next
  case (Cons hop hops)
  obtain r rs' where rs: "rs = r # rs'" "length rs' = length hops" using Cons.prems(1) by (cases rs) auto
  let ?k = "layer_key_of (dh (rh_public_key hop)) (of_nat (length hops))"
  have n: "(if op_num_layers packet > 0 then op_num_layers packet - 1 else 0) = (of_nat (length hops) :: byte)"
    unfolding Cons.prems(7) using layers_pred [of "Suc (length hops)"] Cons.prems(3) by (simp only: length_Cons diff_Suc_1 zero_less_Suc simp_thms)
  have k: "?k = layer_key_of (x25519 (on_our_private r) sender) (if op_num_layers packet > 0 then op_num_layers packet - 1 else 0)"
    unfolding n using Cons.prems(4) rs by (metis length_Cons nth_Cons_0 zero_less_Suc)
  have b: "vec_bytes (op_data packet) = layer_bytes ?k (hint_after hops) (onion_of dh hops payload)" using Cons.prems(6) by simp
  note o = open_layer_bytes [of packet _ _ _ x25519 r sender, OF Cons.prems(5) b k]
  obtain v where v: "open_layer x25519 junk r packet sender junk = Inr v" "cvec_wf 256 v" "vec_bytes v = onion_of dh hops payload"
    using o(1) by blast
  show ?case
  proof (cases hops)
    case Nil
    then show ?thesis using rs v o(2) by (simp add: onion_router_unwrap_final_def)
  next
    case tail: (Cons h hs)
    then obtain r' rs'' where rs': "rs' = r' # rs''" using rs(2) by (cases rs') auto
    have u: "onion_router_unwrap x25519 junk r packet sender =
      (if rh_hint h = 0 then Inl ONION_ERROR_NO_MORE_LAYERS else Inr (rh_hint h, \<lparr>op_data = v, op_num_layers = of_nat (length hops)\<rparr>))"
      unfolding onion_router_unwrap_def Let_def o(3) v(1) n using o(2) tail by simp
    have dh: "\<forall>i < length hops. x25519 (on_our_private (rs' ! i)) sender = dh (rh_public_key (hops ! i))"
      using Cons.prems(4) rs(1) by (metis Suc_less_eq length_Cons nth_Cons_Suc)
    have "peel x25519 junk sender rs' \<lparr>op_data = v, op_num_layers = of_nat (length hops)\<rparr> =
      (if 0 \<in> rh_hint ` set (tl hops) then Inl ONION_ERROR_NO_MORE_LAYERS else Inr (map rh_hint (tl hops), payload))"
      using rs(2) tail Cons.prems(3) v dh by (intro Cons.IH) simp_all
    then show ?thesis using u rs rs' tail by auto
  qed
qed

lemma peel_refused:
  assumes "length rs = length hops" "length hops < 256" "i < length hops"
    and "\<forall>j < i. x25519 (on_our_private (rs ! j)) sender = dh (rh_public_key (hops ! j)) \<and> rh_hint (hops ! Suc j) \<noteq> 0"
    and "tags_differ dh (x25519 (on_our_private (rs ! i)) sender) (hops ! i) (drop (Suc i) hops) payload"
    and "cvec_wf 256 (op_data packet)" "vec_bytes (op_data packet) = onion_of dh hops payload"
    and "op_num_layers packet = of_nat (length hops)"
  shows "peel x25519 junk sender rs packet = Inl ONION_ERROR_AUTHENTICATION_FAILED"
  using assms
proof (induction hops arbitrary: rs packet i)
  case Nil
  then show ?case by simp
next
  case (Cons hop hops)
  obtain r rs' where rs: "rs = r # rs'" "length rs' = length hops" using Cons.prems(1) by (cases rs) auto
  have n: "(if op_num_layers packet > 0 then op_num_layers packet - 1 else 0) = (of_nat (length hops) :: byte)"
    unfolding Cons.prems(8) using layers_pred [of "Suc (length hops)"] Cons.prems(2) by (simp only: length_Cons diff_Suc_1 zero_less_Suc simp_thms)
  show ?case
  proof (cases i)
    case 0
    then have "tags_differ dh (x25519 (on_our_private r) sender) hop hops payload" using Cons.prems(5) rs by simp
    note refused = open_layer_refused [of packet dh hop hops payload x25519 r sender, OF Cons.prems(6,7) n this]
    have "onion_router_unwrap x25519 junk r packet sender = Inl ONION_ERROR_AUTHENTICATION_FAILED"
      "onion_router_unwrap_final x25519 junk r packet sender junk = Inl ONION_ERROR_AUTHENTICATION_FAILED"
      using refused by (simp_all add: onion_router_unwrap_def onion_router_unwrap_final_def)
    then show ?thesis unfolding rs(1) by (cases rs') simp_all
  next
    case (Suc k)
    then obtain h hs where tail: "hops = h # hs" using Cons.prems(3) by (cases hops) auto
    then obtain r' rs'' where rs': "rs' = r' # rs''" using rs(2) by (cases rs') auto
    let ?k = "layer_key_of (dh (rh_public_key hop)) (of_nat (length hops))"
    have first: "x25519 (on_our_private r) sender = dh (rh_public_key hop)" "rh_hint h \<noteq> 0" using Cons.prems(4) Suc rs(1) tail by auto
    have key: "?k = layer_key_of (x25519 (on_our_private r) sender) (if op_num_layers packet > 0 then op_num_layers packet - 1 else 0)"
      unfolding n first(1) ..
    have b: "vec_bytes (op_data packet) = layer_bytes ?k (hint_after hops) (onion_of dh hops payload)" using Cons.prems(7) by simp
    note o = open_layer_bytes [of packet _ _ _ x25519 r sender, OF Cons.prems(6) b key]
    obtain v where v: "open_layer x25519 junk r packet sender junk = Inr v" "cvec_wf 256 v" "vec_bytes v = onion_of dh hops payload"
      using o(1) by blast
    have u: "onion_router_unwrap x25519 junk r packet sender = Inr (rh_hint h, \<lparr>op_data = v, op_num_layers = of_nat (length hops)\<rparr>)"
      unfolding onion_router_unwrap_def Let_def o(3) v(1) n using o(2) tail first(2) by simp
    have "peel x25519 junk sender rs' \<lparr>op_data = v, op_num_layers = of_nat (length hops)\<rparr> = Inl ONION_ERROR_AUTHENTICATION_FAILED"
    proof (rule Cons.IH [OF rs(2)])
      show "\<forall>j < k. x25519 (on_our_private (rs' ! j)) sender = dh (rh_public_key (hops ! j)) \<and> rh_hint (hops ! Suc j) \<noteq> 0"
        using Cons.prems(4) Suc rs(1) by fastforce
      show "tags_differ dh (x25519 (on_our_private (rs' ! k)) sender) (hops ! k) (drop (Suc k) hops) payload" using Cons.prems(5) Suc rs(1) by simp
    qed (use Cons.prems(2,3) Suc v in simp_all)
    then show ?thesis using u rs(1) rs' by simp
  qed
qed

section \<open>Routes\<close>

definition hops_of :: "hop_vec \<Rightarrow> route_hop list" where
  "hops_of v = take (hv_len v) (hv_data v)"

lemma push_hop:
  assumes "hops_wf cap v" "hv_len v < cap"
  shows "fst (heapless_vec_routehop_push v hop)" "hops_wf cap (snd (heapless_vec_routehop_push v hop))"
    "hops_of (snd (heapless_vec_routehop_push v hop)) = hops_of v @ [hop]"
    "hv_len (snd (heapless_vec_routehop_push v hop)) = hv_len v + 1"
  using assms by (auto simp: heapless_vec_routehop_push_def hops_wf_def hops_of_def take_Suc_conv_app_nth)

lemma push_hops_fit:
  "hops_wf cap v \<Longrightarrow> hv_len v + length hops \<le> cap \<Longrightarrow>
   \<exists>v'. push_hops v hops = (True, v') \<and> hops_wf cap v' \<and> hops_of v' = hops_of v @ hops \<and> hv_len v' = hv_len v + length hops"
proof (induction hops arbitrary: v)
  case Nil
  then show ?case by simp
next
  case (Cons hop hops)
  let ?p = "heapless_vec_routehop_push v hop"
  have v: "fst ?p" "hops_wf cap (snd ?p)" "hops_of (snd ?p) = hops_of v @ [hop]" "hv_len (snd ?p) = hv_len v + 1"
    using push_hop [OF Cons.prems(1)] Cons.prems(2) by simp_all
  then show ?case using Cons.IH [OF v(2)] Cons.prems(2) by (simp add: case_prod_beta)
qed

lemma init_hops: "hops_wf MAX_HOPS (snd (heapless_vec_routehop_init v))" "hops_of (snd (heapless_vec_routehop_init v)) = []"
  "hv_len (snd (heapless_vec_routehop_init v)) = 0"
  by (simp_all add: heapless_vec_routehop_init_def hops_wf_def hops_of_def)

lemma route_new_fits:
  assumes "3 \<le> length hops" "length hops \<le> 7"
  obtains v where "onion_route_new route hops = (True, route\<lparr>or_hops := v\<rparr>)" "hops_wf MAX_HOPS v" "hops_of v = hops"
    "hv_len v = length hops"
  using push_hops_fit [OF init_hops(1), of "or_hops route" hops] assms that
  by (auto simp: onion_route_new_def init_hops)

lemma added_relays:
  assumes "length relays \<le> 32" "\<forall>r \<in> set relays. length (snd r) = 32"
  shows "let v = rb_relays (foldl (\<lambda>b r. snd (route_builder_add_relay b (fst r) (snd r))) (route_builder_new builder) relays)
     in hops_wf 32 v \<and> hops_of v = map (\<lambda>r. \<lparr>rh_hint = fst r, rh_public_key = snd r\<rparr>) relays \<and> hv_len v = length relays"
  using assms
proof (induction relays rule: rev_induct)
  case Nil
  show ?case by (simp add: route_builder_new_def heapless_vec_routehop_32_init_def hops_wf_def hops_of_def)
next
  case (snoc r relays)
  let ?b = "foldl (\<lambda>b r. snd (route_builder_add_relay b (fst r) (snd r))) (route_builder_new builder) relays"
  have push: "heapless_vec_routehop_32_push = heapless_vec_routehop_push"
    by (intro ext) (simp add: heapless_vec_routehop_32_push_def heapless_vec_routehop_push_def)
  have "hops_wf 32 (rb_relays ?b)" "hops_of (rb_relays ?b) = map (\<lambda>r. \<lparr>rh_hint = fst r, rh_public_key = snd r\<rparr>) relays"
    "hv_len (rb_relays ?b) = length relays" using snoc by (auto simp: Let_def)
  with push_hop [of 32 "rb_relays ?b"] snoc.prems show ?case
    by (simp add: route_builder_add_relay_def push case_prod_beta Let_def slice_0_take)
qed

lemma hops_of_nth: "hv_len v \<le> length (hv_data v) \<Longrightarrow> i < hv_len v \<Longrightarrow> hv_data v ! i = hops_of v ! i"
  by (simp add: hops_of_def)

lemma build_route_cases:
  assumes "hops_wf 32 (rb_relays builder)"
  shows "if 3 \<le> n \<and> n \<le> 7 \<and> n - 1 \<le> hv_len (rb_relays builder)
    then \<exists>v. route_builder_build_route junk builder destination n route0 = (True, route0\<lparr>or_hops := v\<rparr>) \<and> hops_wf MAX_HOPS v \<and>
      hv_len v = n \<and> hops_of v = take (n - 1) (hops_of (rb_relays builder)) @ [destination]
    else route_builder_build_route junk builder destination n route0 = (False, route0)"
proof (cases "3 \<le> n \<and> n \<le> 7 \<and> n - 1 \<le> hv_len (rb_relays builder)")
  case False
  then show ?thesis by (auto simp: route_builder_build_route_def Let_def)
next
  case True
  let ?r = "rb_relays builder"
  have relays: "map (\<lambda>i. hv_data ?r ! (i mod hv_len ?r)) [0..<n - 1] = take (n - 1) (hops_of ?r)"
    using True assms by (intro nth_equalityI) (auto simp: hops_of_def hops_wf_def)
  have n6: "n - 1 \<le> 7" using True by linarith
  have len: "length (take (n - 1) (hops_of ?r)) = n - 1" using True assms by (simp add: hops_of_def hops_wf_def)
  obtain v where v: "push_hops (snd (heapless_vec_routehop_init junk)) (take (n - 1) (hops_of ?r)) = (True, v)" "hops_wf MAX_HOPS v"
    "hops_of v = take (n - 1) (hops_of ?r)" "hv_len v = n - 1"
    using push_hops_fit [OF init_hops(1), of junk "take (n - 1) (hops_of ?r)"] len n6 by (auto simp: init_hops)
  have "hv_len v < 7" using v(4) True by linarith
  from push_hop [OF v(2) this, of destination] v True show ?thesis
    by (cases "heapless_vec_routehop_push v destination")
      (simp add: route_builder_build_route_def Let_def relays [unfolded One_nat_def], blast)
qed

text \<open>What a relay that derived \<open>key\<close> is to do with the \<open>d\<close> bytes of a packet: \<open>inner\<close> is the vector that it sends on.\<close>

definition relay_result :: "bytes \<Rightarrow> byte \<Rightarrow> bytes \<Rightarrow> cvec \<Rightarrow> onion_error + u16 \<times> onion_packet" where
  "relay_result key n d inner =
     (if length d < 18 then Inl ONION_ERROR_DECRYPTION_FAILED
      else if slice d 2 16 \<noteq> take 16 (hmac_spec key (drop 18 d)) then Inl ONION_ERROR_AUTHENTICATION_FAILED
      else if be16 (d ! 0) (d ! 1) = 0 then Inl ONION_ERROR_NO_MORE_LAYERS
      else Inr (be16 (d ! 0) (d ! 1), \<lparr>op_data = inner, op_num_layers = n\<rparr>))"

lemma unwrap_spec:
  assumes "cvec_wf 256 (op_data packet)" and d: "d = vec_bytes (op_data packet)"
    and layers: "layers = (if op_num_layers packet > 0 then op_num_layers packet - 1 else 0)"
    and key: "key = layer_key_of (x25519 (on_our_private self) sender) layers"
  shows "\<exists>v. vec_bytes v = layer_ctr key (drop 18 d) \<and> onion_router_unwrap x25519 junk self packet sender = relay_result key layers d v"
proof -
  let ?d = "vdata (op_data packet)" and ?n = "vlen (op_data packet)"
  have n: "length d = ?n" "?n \<le> 256" "d = take ?n ?d"
    using assms(1) cvec_length d by (auto simp: cvec_wf_def vec_wf_def vec_bytes_def)
  obtain v where v: "onion_router_encrypt_layer key (drop 18 d) (snd (heapless_vec_u8_256_init junk)) = (True, v)"
    "cvec_wf 256 v" "vec_bytes v = layer_ctr key (drop 18 d)"
    by (rule encrypt_layer_fits [of "drop 18 d"]) (use n(1,2) in auto)
  have s: "?n \<ge> 18 \<Longrightarrow> slice ?d 2 16 = slice d 2 16" "slice ?d 18 (?n - 18) = drop 18 d"
    "?n \<ge> 18 \<Longrightarrow> ?d ! 0 = d ! 0 \<and> ?d ! 1 = d ! 1"
    unfolding n(3) by (simp_all add: slice_def drop_take min_def)
  have "onion_router_compute_tag junk key (drop 18 d) = take 16 (hmac_spec key (drop 18 d))"
    using n by (simp add: compute_tag_fits layer_tag_hmac key)
  then have "open_layer x25519 junk self packet sender junk =
    (if slice d 2 16 \<noteq> take 16 (hmac_spec key (drop 18 d)) then Inl ONION_ERROR_AUTHENTICATION_FAILED else Inr v)" if "?n \<ge> 18"
    unfolding open_layer_def Let_def s(1) [OF that] s(2) layers [symmetric] key [symmetric] onion_router_decrypt_layer_def v(1) by simp
  then have "onion_router_unwrap x25519 junk self packet sender = relay_result key layers d v"
    using n(1) s(3) by (auto simp: onion_router_unwrap_def relay_result_def Let_def layers)
  with v(3) show ?thesis by blast
qed

text \<open>A payload on a route of three to seven hops: the packet, and the condition under which each relay opens its layer.\<close>

lemma onion_on_route:
  assumes "3 \<le> length keys" "length keys \<le> 7" "length payload + 18 * length keys \<le> 256"
    and "map rh_public_key hops = map x25519_base keys"
  obtains route packet where "onion_route_new route0 hops = (True, route)"
    "onion_router_wrap x25519 junk (onion_router_new x25519_base s) payload route = Inr packet"
    "\<forall>k \<in> set keys. x25519 k (x25519_base s) = x25519 s (x25519_base k) \<Longrightarrow>
      peel x25519 junk (x25519_base s) (map (onion_router_new x25519_base) keys) packet =
        (if 0 \<in> rh_hint ` set (tl hops) then Inl ONION_ERROR_NO_MORE_LAYERS else Inr (map rh_hint (tl hops), payload))"
    "\<And>i. i < length keys \<Longrightarrow>
      \<forall>j < i. x25519 (keys ! j) (x25519_base s) = x25519 s (x25519_base (keys ! j)) \<and> rh_hint (hops ! Suc j) \<noteq> 0 \<Longrightarrow>
      tags_differ (x25519 s) (x25519 (keys ! i) (x25519_base s)) (hops ! i) (drop (Suc i) hops) payload \<Longrightarrow>
      peel x25519 junk (x25519_base s) (map (onion_router_new x25519_base) keys) packet = Inl ONION_ERROR_AUTHENTICATION_FAILED"
proof -
  let ?self = "onion_router_new x25519_base s" and ?rs = "map (onion_router_new x25519_base) keys"
  have n: "length hops = length keys" using assms(4) by (metis length_map)
  have own: "on_our_private (onion_router_new x25519_base k) = k" for k by (simp add: onion_router_new_def Let_def)
  have pk: "rh_public_key (hops ! i) = x25519_base (keys ! i)" if "i < length hops" for i
    using arg_cong [OF assms(4), of "\<lambda>l. l ! i"] that n by simp
  obtain v where v: "onion_route_new route0 hops = (True, route0\<lparr>or_hops := v\<rparr>)" "hops_wf MAX_HOPS v" "hops_of v = hops"
    "hv_len v = length hops"
    using route_new_fits [of hops route0] assms(1,2) n by metis
  have r: "route_hops (route0\<lparr>or_hops := v\<rparr>) = hops" using v(3) by (simp add: route_hops_def hops_of_def)
  obtain p where p: "onion_router_wrap x25519 junk ?self payload (route0\<lparr>or_hops := v\<rparr>) =
      Inr \<lparr>op_data = p, op_num_layers = of_nat (length hops)\<rparr>" "cvec_wf 256 p" "vec_bytes p = onion_of (x25519 s) hops payload"
    using wrap_result [of "route0\<lparr>or_hops := v\<rparr>" payload x25519 junk ?self] v assms(1,3) n r by (auto simp: own)
  show thesis
  proof (rule that [OF v(1) p(1)])
    assume "\<forall>k \<in> set keys. x25519 k (x25519_base s) = x25519 s (x25519_base k)"
    then have dh: "\<forall>i < length hops. x25519 (on_our_private (?rs ! i)) (x25519_base s) = x25519 s (rh_public_key (hops ! i))"
      using n pk by (simp add: own)
    show "peel x25519 junk (x25519_base s) ?rs \<lparr>op_data = p, op_num_layers = of_nat (length hops)\<rparr> =
        (if 0 \<in> rh_hint ` set (tl hops) then Inl ONION_ERROR_NO_MORE_LAYERS else Inr (map rh_hint (tl hops), payload))"
      using assms(1,2) n dh p(2,3) by (intro peel_onion [where dh = "x25519 s"]) auto
  next
    fix i assume i: "i < length keys"
      "\<forall>j < i. x25519 (keys ! j) (x25519_base s) = x25519 s (x25519_base (keys ! j)) \<and> rh_hint (hops ! Suc j) \<noteq> 0"
      "tags_differ (x25519 s) (x25519 (keys ! i) (x25519_base s)) (hops ! i) (drop (Suc i) hops) payload"
    show "peel x25519 junk (x25519_base s) ?rs \<lparr>op_data = p, op_num_layers = of_nat (length hops)\<rparr> = Inl ONION_ERROR_AUTHENTICATION_FAILED"
      by (rule peel_refused [where dh = "x25519 s" and i = i]) (use i n assms(2) p(2,3) pk in \<open>auto simp: own\<close>)
  qed
qed

section \<open>Properties\<close>

text \<open>C19. What a relay does with an arbitrary packet, error by error: fewer than 18 bytes are DECRYPTION_FAILED, a tag other than the first 16 bytes of the HMAC of
  the encrypted part is AUTHENTICATION_FAILED, a clear next hint of 0 is NO_MORE_LAYERS, and everything else is forwarded to the
  next hint with the decrypted inner packet. The tag does not cover the hint: a packet that is forwarded to one hop is
  forwarded to any other non-zero hint written over the first two bytes.\<close>

theorem onion_unwrap_result:
  assumes "cvec_wf 256 (op_data packet)"
    and "layers = (if op_num_layers packet > 0 then op_num_layers packet - 1 else 0)"
    and "key = layer_key_of (x25519 (on_our_private self) sender) layers"
  shows "(\<exists>v. vec_bytes v = layer_ctr key (drop 18 (vec_bytes (op_data packet))) \<and>
            onion_router_unwrap x25519 junk self packet sender = relay_result key layers (vec_bytes (op_data packet)) v) \<and>
         (\<forall>h inner h'. onion_router_unwrap x25519 junk self packet sender = Inr (h, inner) \<and> h' \<noteq> 0 \<longrightarrow>
            (\<exists>inner'. onion_router_unwrap x25519 junk self
                (packet\<lparr>op_data := (op_data packet)\<lparr>vdata := [ucast (drop_bit 8 h'), ucast h'] @ drop 2 (vdata (op_data packet))\<rparr>\<rparr>) sender
              = Inr (h', inner') \<and> vec_bytes (op_data inner') = vec_bytes (op_data inner)))"
proof -
  let ?d = "vec_bytes (op_data packet)"
  let ?redirect = "\<lambda>h. packet\<lparr>op_data := (op_data packet)\<lparr>vdata := [ucast (drop_bit 8 h), ucast h] @ drop 2 (vdata (op_data packet))\<rparr>\<rparr>"
  obtain v where v: "vec_bytes v = layer_ctr key (drop 18 ?d)"
    "onion_router_unwrap x25519 junk self packet sender = relay_result key layers ?d v"
    using unwrap_spec [OF assms(1) refl assms(2), of key x25519 self sender junk] assms(3) by blast
  have "\<exists>inner'. onion_router_unwrap x25519 junk self (?redirect h') sender = Inr (h', inner') \<and> vec_bytes (op_data inner') = vec_bytes (op_data inner)"
    if ok: "onion_router_unwrap x25519 junk self packet sender = Inr (h, inner)" and "h' \<noteq> 0" for h inner h'
  proof -
    let ?d' = "[ucast (drop_bit 8 h'), ucast h'] @ drop 2 ?d"
    have d: "18 \<le> length ?d" "slice ?d 2 16 = take 16 (hmac_spec key (drop 18 ?d))" "inner = \<lparr>op_data = v, op_num_layers = layers\<rparr>"
      using ok v(2) by (auto simp: relay_result_def split: if_splits)
    have len: "18 \<le> vlen (op_data packet)" using d(1) cvec_length [OF assms(1)] by simp
    have wf: "cvec_wf 256 (op_data (?redirect h'))" using assms(1) len by (auto simp: cvec_wf_def vec_wf_def)
    have b: "?d' = vec_bytes (op_data (?redirect h'))"
      using len by (simp add: vec_bytes_def take_Cons' drop_take numeral_2_eq_2)
    have d': "length ?d' = length ?d" "slice ?d' 2 16 = slice ?d 2 16" "drop 18 ?d' = drop 18 ?d" "be16 (?d' ! 0) (?d' ! 1) = h'"
      using d(1) by (simp_all add: slice_def be16_split)
    have "layers = (if op_num_layers (?redirect h') > 0 then op_num_layers (?redirect h') - 1 else 0)" using assms(2) by simp
    then obtain w where "vec_bytes w = layer_ctr key (drop 18 ?d')"
      "onion_router_unwrap x25519 junk self (?redirect h') sender = relay_result key layers ?d' w"
      using unwrap_spec [OF wf b, of layers key x25519 self sender junk] assms(3) by blast
    then show ?thesis unfolding relay_result_def d' using d v(1) \<open>h' \<noteq> 0\<close> by simp
  qed
  with v show ?thesis by blast
qed

theorem onion_unwrap_result_witness:
  "onion_router_unwrap (\<lambda>a b. a) \<lparr>vdata = [], vlen = 0, vcapacity = 0\<rparr> (onion_router_new (\<lambda>k. k) [5])
     \<lparr>op_data = \<lparr>vdata = zeros 256, vlen = 3, vcapacity = 256\<rparr>, op_num_layers = 1\<rparr> [7] = Inl ONION_ERROR_DECRYPTION_FAILED"
  using onion_unwrap_result [of "\<lparr>op_data = \<lparr>vdata = zeros 256, vlen = 3, vcapacity = 256\<rparr>, op_num_layers = 1\<rparr>" 0 "layer_key_of [5] 0"
      "\<lambda>a b. a" "onion_router_new (\<lambda>k. k) [5]" "[7]" "\<lparr>vdata = [], vlen = 0, vcapacity = 0\<rparr>"]
  by (auto simp: cvec_wf_def vec_wf_def vec_bytes_def zeros_def onion_router_new_def Let_def relay_result_def)

text \<open>The route builder: a route is built exactly for three to seven hops when enough relays are known; it then goes through the first
  relays in the order in which they were added and ends at the destination, it never visits a relay slot twice, and its entry and exit hints are
  those of the first relay and of the destination.\<close>

theorem route_builder_route:
  assumes "length relays \<le> 32" "\<forall>r \<in> set relays. length (snd r) = 32"
    and "builder = foldl (\<lambda>b r. snd (route_builder_add_relay b (fst r) (snd r))) (route_builder_new builder0) relays"
  shows "case route_builder_build_route junk builder destination n route0 of (ok, route) \<Rightarrow>
    (ok \<longleftrightarrow> 3 \<le> n \<and> n \<le> 7 \<and> n - 1 \<le> length relays) \<and>
    (\<not> ok \<longrightarrow> route = route0) \<and>
    (ok \<longrightarrow> route_hops route = map (\<lambda>r. \<lparr>rh_hint = fst r, rh_public_key = snd r\<rparr>) (take (n - 1) relays) @ [destination] \<and>
      onion_route_len route = n \<and> onion_route_entry_hint route = fst (relays ! 0) \<and> onion_route_exit_hint route = rh_hint destination)"
proof -
  let ?v = "rb_relays builder" and ?ok = "3 \<le> n \<and> n \<le> 7 \<and> n - 1 \<le> length relays"
  have b: "hops_wf 32 ?v" "hops_of ?v = map (\<lambda>r. \<lparr>rh_hint = fst r, rh_public_key = snd r\<rparr>) relays" "hv_len ?v = length relays"
    using added_relays [OF assms(1,2)] assms(3) by (auto simp: Let_def)
  show ?thesis
  proof (cases ?ok)
    case False
    then show ?thesis using build_route_cases [OF b(1), of n junk destination route0] b(3) by auto
  next
    case True
    then obtain v where v: "route_builder_build_route junk builder destination n route0 = (True, route0\<lparr>or_hops := v\<rparr>)" "hops_wf MAX_HOPS v"
      "hv_len v = n" "hops_of v = map (\<lambda>r. \<lparr>rh_hint = fst r, rh_public_key = snd r\<rparr>) (take (n - 1) relays) @ [destination]"
      using build_route_cases [OF b(1), of n junk destination route0] b(2,3) by (auto simp: take_map)
    have "hv_data v ! 0 = \<lparr>rh_hint = fst (relays ! 0), rh_public_key = snd (relays ! 0)\<rparr>" "hv_data v ! (n - 1) = destination"
      using True v(2,3,4) hops_of_nth [of v 0] hops_of_nth [of v "n - 1"] by (auto simp: hops_wf_def nth_append)
    with v True show ?thesis
      by (simp add: route_hops_def hops_of_def onion_route_len_def onion_route_entry_hint_def onion_route_exit_hint_def
          heapless_vec_routehop_first_def heapless_vec_routehop_last_def)
  qed
qed

theorem route_builder_route_witness:
  "case route_builder_build_route \<lparr>hv_data = [], hv_len = 0, hv_capacity = 0\<rparr>
      (foldl (\<lambda>b r. snd (route_builder_add_relay b (fst r) (snd r))) (route_builder_new \<lparr>rb_relays = \<lparr>hv_data = [], hv_len = 0, hv_capacity = 0\<rparr>\<rparr>)
        [(1, zeros 32), (2, zeros 32)]) zero_hop 3 \<lparr>or_hops = \<lparr>hv_data = [], hv_len = 0, hv_capacity = 0\<rparr>\<rparr> of (ok, route) \<Rightarrow>
    ok \<and> map rh_hint (route_hops route) = [1, 2, 0]"
  using route_builder_route [of "[(1, zeros 32), (2, zeros 32)]" _ "\<lparr>rb_relays = \<lparr>hv_data = [], hv_len = 0, hv_capacity = 0\<rparr>\<rparr>"
      3 "\<lparr>or_hops = \<lparr>hv_data = [], hv_len = 0, hv_capacity = 0\<rparr>\<rparr>" zero_hop "\<lparr>hv_data = [], hv_len = 0, hv_capacity = 0\<rparr>", OF _ _ refl]
  by (auto simp: zero_hop_def split: prod.splits)

end
