(* ===== verification/Protocol_Router.thy ===== *)
theory Protocol_Router
  imports Lunar_Prelude "HOL-Library.Sublist"
begin

unbundle bit_operations_syntax

text \<open>
  The host-side router of \<^verbatim>\<open>lunar/protocol_router.c\<close> and \<^verbatim>\<open>protocol_router.h\<close>: one protocol detector per transport, the claim on the
  LoRa radio, and the classifier of received LoRa packets. What the router does over time is a step relation on its state;
  the invariants are shown by rule induction over it.
\<close>

section \<open>Data\<close>

datatype rprotocol = PROTOCOL_UNKNOWN | PROTOCOL_MESHCORE | PROTOCOL_MESHTASTIC | PROTOCOL_RNODE | PROTOCOL_ATCOMMAND

datatype detect_state = DETECT_STATE_IDLE | DETECT_STATE_MESHCORE1 | DETECT_STATE_MESHTASTIC1 | DETECT_STATE_AT1

datatype transport_type = TRANSPORT_TYPE_USB_SERIAL | TRANSPORT_TYPE_BLE | TRANSPORT_TYPE_WIFI

abbreviation MESHCORE_SYNC1 :: byte where "MESHCORE_SYNC1 \<equiv> 0xAA"
abbreviation MESHCORE_SYNC2 :: byte where "MESHCORE_SYNC2 \<equiv> 0x55"
abbreviation MESHTASTIC_SYNC1 :: byte where "MESHTASTIC_SYNC1 \<equiv> 0x94"
abbreviation MESHTASTIC_SYNC2 :: byte where "MESHTASTIC_SYNC2 \<equiv> 0xC3"
abbreviation KISS_FEND :: byte where "KISS_FEND \<equiv> 0xC0"
abbreviation CHAR_A :: byte where "CHAR_A \<equiv> 0x41"
abbreviation CHAR_T :: byte where "CHAR_T \<equiv> 0x54"
abbreviation SYNC_TIMEOUT_BYTES :: u16 where "SYNC_TIMEOUT_BYTES \<equiv> 256"

record protocol_detector =
  pd_state :: detect_state
  pd_detected :: rprotocol
  pd_bytes_seen :: u16
  pd_lock_threshold :: byte
  pd_lock_count :: byte
  pd_state_bytes :: u16
  pd_last_detect_ms :: u32

record transport_state =
  ts_transport :: transport_type
  ts_detector :: protocol_detector
  ts_active :: bool

record protocol_router =
  pr_transports :: "transport_state list"
  pr_lora_protocol :: rprotocol
  pr_lora_shared :: bool
  pr_priority_transport :: "transport_type option"

record transport_status =
  tst_transport :: transport_type
  tst_protocol :: rprotocol
  tst_active :: bool

record unified_packet =
  up_source_protocol :: rprotocol
  up_dest_protocol :: rprotocol
  up_payload :: "bytes \<times> nat"
  up_source_addr :: bytes
  up_dest_addr :: bytes
  up_hops :: byte
  up_rssi :: u16
  up_snr :: byte

definition protocol_name :: "rprotocol \<Rightarrow> string" where
  "protocol_name p = (case p of
     PROTOCOL_UNKNOWN \<Rightarrow> ''Unknown''
   | PROTOCOL_MESHCORE \<Rightarrow> ''MeshCore''
   | PROTOCOL_MESHTASTIC \<Rightarrow> ''Meshtastic''
   | PROTOCOL_RNODE \<Rightarrow> ''RNode/KISS''
   | PROTOCOL_ATCOMMAND \<Rightarrow> ''AT Command'')"

section \<open>The detector\<close>

definition protocol_detector_new :: protocol_detector where
  "protocol_detector_new =
     \<lparr>pd_state = DETECT_STATE_IDLE, pd_detected = PROTOCOL_UNKNOWN, pd_bytes_seen = 0, pd_lock_threshold = 3, pd_lock_count = 0,
      pd_state_bytes = 0, pd_last_detect_ms = 0\<rparr>"

definition protocol_detector_reset :: "protocol_detector \<Rightarrow> protocol_detector" where
  "protocol_detector_reset self =
     self\<lparr>pd_state := DETECT_STATE_IDLE, pd_detected := PROTOCOL_UNKNOWN, pd_bytes_seen := 0, pd_lock_count := 0, pd_state_bytes := 0\<rparr>"

definition protocol_detector_soft_reset :: "protocol_detector \<Rightarrow> protocol_detector" where
  "protocol_detector_soft_reset self = self\<lparr>pd_state := DETECT_STATE_IDLE, pd_state_bytes := 0\<rparr>"

definition protocol_detector_force_protocol :: "protocol_detector \<Rightarrow> rprotocol \<Rightarrow> protocol_detector" where
  "protocol_detector_force_protocol self protocol = self\<lparr>pd_detected := protocol, pd_state := DETECT_STATE_IDLE\<rparr>"

definition protocol_detector_protocol :: "protocol_detector \<Rightarrow> rprotocol" where
  "protocol_detector_protocol self = pd_detected self"

definition protocol_detector_is_locked :: "protocol_detector \<Rightarrow> bool" where
  "protocol_detector_is_locked self \<longleftrightarrow> pd_lock_count self \<ge> pd_lock_threshold self"

definition protocol_detector_confirm_frame :: "protocol_detector \<Rightarrow> protocol_detector" where
  "protocol_detector_confirm_frame self =
     (if pd_lock_count self < 255 then self\<lparr>pd_lock_count := pd_lock_count self + 1\<rparr> else self)"

definition protocol_detector_error_frame :: "protocol_detector \<Rightarrow> protocol_detector" where
  "protocol_detector_error_frame self =
     (let self =
        (if pd_lock_count self > 0
         then let new_count = pd_lock_count self - 2
              in if new_count > pd_lock_count self then self\<lparr>pd_lock_count := 0\<rparr> else self\<lparr>pd_lock_count := new_count\<rparr>
         else self)
      in if pd_lock_count self = 0 \<and> pd_detected self \<noteq> PROTOCOL_UNKNOWN then self\<lparr>pd_detected := PROTOCOL_UNKNOWN\<rparr> else self)"

definition protocol_detector_check_timeout :: "protocol_detector \<Rightarrow> protocol_detector" where
  "protocol_detector_check_timeout self =
     (if pd_state self \<noteq> DETECT_STATE_IDLE \<and> pd_state_bytes self > SYNC_TIMEOUT_BYTES
      then self\<lparr>pd_state := DETECT_STATE_IDLE, pd_state_bytes := 0\<rparr> else self)"

text \<open>The end of \<^verbatim>\<open>feed\<close> for a byte that completes nothing: the detector moves to state \<open>s\<close>.\<close>

definition detect_move :: "protocol_detector \<Rightarrow> detect_state \<Rightarrow> rprotocol option \<times> protocol_detector" where
  "detect_move self s =
     (let prev_state = pd_state self; self = self\<lparr>pd_state := s\<rparr>
      in (None, if pd_state self \<noteq> prev_state then self\<lparr>pd_state_bytes := 0\<rparr> else self))"

definition detect_found :: "protocol_detector \<Rightarrow> rprotocol \<Rightarrow> rprotocol option \<times> protocol_detector" where
  "detect_found self p = (Some p, self\<lparr>pd_detected := p, pd_state := DETECT_STATE_IDLE\<rparr>)"

definition protocol_detector_feed :: "protocol_detector \<Rightarrow> byte \<Rightarrow> rprotocol option \<times> protocol_detector" where
  "protocol_detector_feed self b =
     (let self = self\<lparr>pd_bytes_seen := pd_bytes_seen self + 1, pd_state_bytes := pd_state_bytes self + 1\<rparr>;
          self = protocol_detector_check_timeout self
      in if protocol_detector_is_locked self then (Some (pd_detected self), self)
         else case pd_state self of
           DETECT_STATE_IDLE \<Rightarrow>
             (if b = MESHCORE_SYNC1 then detect_move self DETECT_STATE_MESHCORE1
              else if b = MESHTASTIC_SYNC1 then detect_move self DETECT_STATE_MESHTASTIC1
              else if b = KISS_FEND then
                (if pd_detected self = PROTOCOL_UNKNOWN \<or> pd_detected self = PROTOCOL_RNODE
                 then (Some PROTOCOL_RNODE, self\<lparr>pd_detected := PROTOCOL_RNODE\<rparr>)
                 else detect_move self DETECT_STATE_IDLE)
              else if b = CHAR_A then detect_move self DETECT_STATE_AT1
              else detect_move self DETECT_STATE_IDLE)
         | DETECT_STATE_MESHCORE1 \<Rightarrow>
             (if b = MESHCORE_SYNC2 then detect_found self PROTOCOL_MESHCORE
              else if b = MESHCORE_SYNC1 then detect_move self DETECT_STATE_MESHCORE1
              else detect_move self DETECT_STATE_IDLE)
         | DETECT_STATE_MESHTASTIC1 \<Rightarrow>
             (if b = MESHTASTIC_SYNC2 then detect_found self PROTOCOL_MESHTASTIC else detect_move self DETECT_STATE_IDLE)
         | DETECT_STATE_AT1 \<Rightarrow>
             (if b = CHAR_T then detect_found self PROTOCOL_ATCOMMAND else detect_move self DETECT_STATE_IDLE))"

section \<open>The router\<close>

definition transport_state_new :: "transport_type \<Rightarrow> transport_state" where
  "transport_state_new t = \<lparr>ts_transport = t, ts_detector = protocol_detector_new, ts_active = False\<rparr>"

definition protocol_router_new :: protocol_router where
  "protocol_router_new =
     \<lparr>pr_transports = map transport_state_new [TRANSPORT_TYPE_USB_SERIAL, TRANSPORT_TYPE_BLE, TRANSPORT_TYPE_WIFI],
      pr_lora_protocol = PROTOCOL_UNKNOWN, pr_lora_shared = True, pr_priority_transport = None\<rparr>"

definition transport_index :: "transport_type \<Rightarrow> nat" where
  "transport_index t = (case t of TRANSPORT_TYPE_USB_SERIAL \<Rightarrow> 0 | TRANSPORT_TYPE_BLE \<Rightarrow> 1 | TRANSPORT_TYPE_WIFI \<Rightarrow> 2)"

definition protocol_router_transport_ref :: "protocol_router \<Rightarrow> transport_type \<Rightarrow> transport_state" where
  "protocol_router_transport_ref self t = pr_transports self ! transport_index t"

text \<open>A write through the pointer that \<^verbatim>\<open>protocol_router_transport\<close> returns.\<close>

definition protocol_router_transport :: "protocol_router \<Rightarrow> transport_type \<Rightarrow> (transport_state \<Rightarrow> transport_state) \<Rightarrow> protocol_router" where
  "protocol_router_transport self t f =
     self\<lparr>pr_transports := (pr_transports self)[transport_index t := f (pr_transports self ! transport_index t)]\<rparr>"

definition protocol_router_lora_protocol :: "protocol_router \<Rightarrow> rprotocol" where
  "protocol_router_lora_protocol self = pr_lora_protocol self"

definition protocol_router_set_lora_protocol :: "protocol_router \<Rightarrow> rprotocol \<Rightarrow> protocol_router" where
  "protocol_router_set_lora_protocol self protocol = self\<lparr>pr_lora_protocol := protocol\<rparr>"

definition protocol_router_is_lora_shared :: "protocol_router \<Rightarrow> bool" where
  "protocol_router_is_lora_shared self = pr_lora_shared self"

definition protocol_router_priority_transport :: "protocol_router \<Rightarrow> transport_type option" where
  "protocol_router_priority_transport self = pr_priority_transport self"

definition protocol_router_release_lora_control :: "protocol_router \<Rightarrow> transport_type \<Rightarrow> protocol_router" where
  "protocol_router_release_lora_control self t =
     (let self = (if pr_priority_transport self = Some t then self\<lparr>pr_priority_transport := None\<rparr> else self)
      in protocol_router_transport self t (\<lambda>state. state\<lparr>ts_detector := protocol_detector_reset (ts_detector state), ts_active := False\<rparr>))"

definition protocol_router_can_claim_lora :: "protocol_router \<Rightarrow> transport_type \<Rightarrow> rprotocol \<Rightarrow> bool" where
  "protocol_router_can_claim_lora self t protocol =
     (if pr_priority_transport self = None then True
      else if pr_priority_transport self = Some t then True
      else if pr_lora_protocol self = protocol then True else False)"

definition protocol_router_route_incoming :: "protocol_router \<Rightarrow> transport_type \<Rightarrow> byte \<Rightarrow> rprotocol \<times> protocol_router" where
  "protocol_router_route_incoming self t b =
     (let idx = transport_index t;
          (result, detector) = protocol_detector_feed (ts_detector (pr_transports self ! idx)) b;
          self = protocol_router_transport self t (\<lambda>state. state\<lparr>ts_active := True, ts_detector := detector\<rparr>)
      in case result of
           Some protocol \<Rightarrow>
             (let can_claim = (pr_priority_transport self = None \<or> pr_priority_transport self = Some t \<or> pr_lora_protocol self = protocol);
                  self =
                    (if can_claim
                     then let self = (if pr_lora_protocol self = PROTOCOL_UNKNOWN \<or> pr_lora_protocol self = protocol
                                      then self\<lparr>pr_lora_protocol := protocol\<rparr> else self)
                          in if pr_priority_transport self = None \<and> protocol_detector_is_locked (ts_detector (pr_transports self ! idx))
                             then self\<lparr>pr_priority_transport := Some t\<rparr> else self
                     else self)
              in (protocol, self))
         | None \<Rightarrow> (protocol_detector_protocol (ts_detector (pr_transports self ! idx)), self))"

definition protocol_router_resolve_conflict :: "protocol_router \<Rightarrow> transport_type \<Rightarrow> rprotocol \<Rightarrow> bool" where
  "protocol_router_resolve_conflict self t new_protocol =
     (if new_protocol = PROTOCOL_ATCOMMAND then True
      else if pr_priority_transport self = None then True
      else if pr_priority_transport self = Some t then True
      else if pr_lora_protocol self \<noteq> new_protocol \<and> pr_lora_protocol self \<noteq> PROTOCOL_UNKNOWN then False
      else True)"

definition protocol_router_status :: "protocol_router \<Rightarrow> transport_status list" where
  "protocol_router_status self =
     map (\<lambda>(t, i). \<lparr>tst_transport = t, tst_protocol = protocol_detector_protocol (ts_detector (pr_transports self ! i)),
                      tst_active = ts_active (pr_transports self ! i)\<rparr>)
       [(TRANSPORT_TYPE_USB_SERIAL, 0), (TRANSPORT_TYPE_BLE, 1), (TRANSPORT_TYPE_WIFI, 2)]"

section \<open>Received packets\<close>

definition vec_u8_256_new :: "bytes \<times> nat" where
  "vec_u8_256_new = (zeros 256, 0)"

definition vec_u8_237_new :: "bytes \<times> nat" where
  "vec_u8_237_new = (zeros 237, 0)"

definition unified_packet_new :: unified_packet where
  "unified_packet_new =
     \<lparr>up_source_protocol = PROTOCOL_UNKNOWN, up_dest_protocol = PROTOCOL_UNKNOWN, up_payload = vec_u8_237_new,
      up_source_addr = zeros 32, up_dest_addr = zeros 32, up_hops = 0, up_rssi = 0, up_snr = 0\<rparr>"

text \<open>The three tests of the classifier, in the order of the code; each one that fails falls through to the next.\<close>

definition looks_meshtastic :: "bytes \<Rightarrow> bool" where
  "looks_meshtastic d =
     (if length d \<ge> 20
      then let channel_hash = d ! 3
           in if length d \<ge> 12
              then let hop_limit = d ! 11 AND 0x07 in hop_limit \<ge> 1 \<and> hop_limit \<le> 7 \<and> channel_hash \<noteq> 0
              else False
      else False)"

definition looks_meshcore :: "bytes \<Rightarrow> bool" where
  "looks_meshcore d =
     (if length d \<ge> 9
      then let flags = d ! 8; msg_type = flags AND 0x0F; hop = drop_bit 4 flags AND 0x0F in msg_type \<le> 15 \<and> hop \<le> 7
      else False)"

fun count_zero_bytes :: "nat \<Rightarrow> bytes \<Rightarrow> nat" where
  "count_zero_bytes 0 d = 0"
| "count_zero_bytes (Suc i) d = (if d ! i = 0 then count_zero_bytes i d + 1 else count_zero_bytes i d)"

definition looks_rnode :: "bytes \<Rightarrow> bool" where
  "looks_rnode d =
     (if length d \<ge> 18
      then let context = d ! 16; header_type = drop_bit 6 context AND 0x03; propagation_type = drop_bit 4 context AND 0x03
           in if header_type \<le> 3 \<and> propagation_type \<le> 3 then count_zero_bytes 16 d < 8 else False
      else False)"

definition lora_packet_detect_protocol :: "bytes \<Rightarrow> rprotocol" where
  "lora_packet_detect_protocol d =
     (if length d < 4 then PROTOCOL_UNKNOWN
      else if looks_meshtastic d then PROTOCOL_MESHTASTIC
      else if looks_meshcore d then PROTOCOL_MESHCORE
      else if looks_rnode d then PROTOCOL_RNODE
      else PROTOCOL_UNKNOWN)"

section \<open>The router over time\<close>

text \<open>What can happen to a router: a byte arrives on a transport, the code that parses frames confirms or rejects one, a
  detector is reset, a transport gives up the radio, or the radio's protocol is set from outside.\<close>

datatype router_event =
    ByteIn transport_type byte
  | ConfirmFrame transport_type
  | ErrorFrame transport_type
  | SoftReset transport_type
  | Reset transport_type
  | Release transport_type
  | SetLora rprotocol

definition on_detector :: "transport_type \<Rightarrow> (protocol_detector \<Rightarrow> protocol_detector) \<Rightarrow> protocol_router \<Rightarrow> protocol_router" where
  "on_detector t f r = protocol_router_transport r t (\<lambda>s. s\<lparr>ts_detector := f (ts_detector s)\<rparr>)"

inductive router_step :: "protocol_router \<Rightarrow> router_event \<Rightarrow> protocol_router \<Rightarrow> bool" where
  byte: "protocol_router_route_incoming r t b = (p, r') \<Longrightarrow> router_step r (ByteIn t b) r'"
| confirm: "router_step r (ConfirmFrame t) (on_detector t protocol_detector_confirm_frame r)"
| error: "router_step r (ErrorFrame t) (on_detector t protocol_detector_error_frame r)"
| soft_reset: "router_step r (SoftReset t) (on_detector t protocol_detector_soft_reset r)"
| hard_reset: "router_step r (Reset t) (on_detector t protocol_detector_reset r)"
| release: "router_step r (Release t) (protocol_router_release_lora_control r t)"
| set_lora: "router_step r (SetLora p) (protocol_router_set_lora_protocol r p)"

inductive router_run :: "protocol_router \<Rightarrow> router_event list \<Rightarrow> protocol_router \<Rightarrow> bool" where
  start: "router_run r [] r"
| step: "router_run r evs r' \<Longrightarrow> router_step r' ev r'' \<Longrightarrow> router_run r (evs @ [ev]) r''"

inductive_cases router_step_byte: "router_step r (ByteIn t b) r'"
inductive_simps router_step_simps:
  "router_step r (ConfirmFrame t) r'" "router_step r (ErrorFrame t) r'" "router_step r (SoftReset t) r'" "router_step r (Reset t) r'"
  "router_step r (Release t) r'" "router_step r (SetLora p) r'" "router_step r (ByteIn t b) r'"

text \<open>The bytes that arrived on a transport, and the byte sequence that stands for a protocol.\<close>

fun received :: "transport_type \<Rightarrow> router_event list \<Rightarrow> bytes" where
  "received t [] = []"
| "received t (ByteIn u b # evs) = (if u = t then b # received t evs else received t evs)"
| "received t (_ # evs) = received t evs"

lemma received_append [simp]: "received t (evs @ evs') = received t evs @ received t evs'"
  by (induction t evs rule: received.induct) auto

fun sync_bytes :: "rprotocol \<Rightarrow> bytes" where
  "sync_bytes PROTOCOL_UNKNOWN = []"
| "sync_bytes PROTOCOL_MESHCORE = [MESHCORE_SYNC1, MESHCORE_SYNC2]"
| "sync_bytes PROTOCOL_MESHTASTIC = [MESHTASTIC_SYNC1, MESHTASTIC_SYNC2]"
| "sync_bytes PROTOCOL_RNODE = [KISS_FEND]"
| "sync_bytes PROTOCOL_ATCOMMAND = [CHAR_A, CHAR_T]"

fun pending_byte :: "detect_state \<Rightarrow> bytes" where
  "pending_byte DETECT_STATE_IDLE = []"
| "pending_byte DETECT_STATE_MESHCORE1 = [MESHCORE_SYNC1]"
| "pending_byte DETECT_STATE_MESHTASTIC1 = [MESHTASTIC_SYNC1]"
| "pending_byte DETECT_STATE_AT1 = [CHAR_A]"

section \<open>Detection is sound\<close>

text \<open>After the bytes \<open>bs\<close> the state of the detector is the first half of a sync word that has been seen in \<open>bs\<close>, and the detected
  protocol has its sync word in \<open>bs\<close>, in order. As long as no frame has been confirmed (\<open>c\<close>), the half is the last byte seen and the
  sync word is contiguous; a locked detector ignores bytes and keeps its half of a sync word.\<close>

definition det_inv :: "bool \<Rightarrow> bytes \<Rightarrow> protocol_detector \<Rightarrow> bool" where
  "det_inv c bs d \<longleftrightarrow>
     subseq (pending_byte (pd_state d)) bs \<and> subseq (sync_bytes (pd_detected d)) bs \<and> pd_lock_threshold d = 3 \<and>
     (\<not> c \<longrightarrow> suffix (pending_byte (pd_state d)) bs \<and> sublist (sync_bytes (pd_detected d)) bs \<and> pd_lock_count d = 0)"

lemma det_inv_new [simp]: "det_inv c [] protocol_detector_new"
  by (simp add: det_inv_def protocol_detector_new_def)

lemma det_inv_ops [simp]:
  assumes "det_inv c bs d"
  shows "det_inv c bs (protocol_detector_reset d)" "det_inv c bs (protocol_detector_soft_reset d)"
    "det_inv True bs (protocol_detector_confirm_frame d)" "det_inv c bs (protocol_detector_error_frame d)"
    "det_inv c bs (protocol_detector_check_timeout d)"
  using assms
  by (auto simp: det_inv_def protocol_detector_reset_def protocol_detector_soft_reset_def protocol_detector_confirm_frame_def
      protocol_detector_error_frame_def protocol_detector_check_timeout_def Let_def)

lemma det_inv_counters [simp]: "det_inv c bs (d\<lparr>pd_bytes_seen := n, pd_state_bytes := m\<rparr>) = det_inv c bs d"
  by (simp add: det_inv_def)

lemma sublist_snoc: "sublist xs bs \<Longrightarrow> sublist xs (bs @ [b])"
  by (metis sublist_appendI append_Nil sublist_order.order_trans)

lemma subseq_snoc: "subseq xs bs \<Longrightarrow> subseq xs (bs @ [b])"
  using list_emb_append_mono [of "(=)" xs bs "[]" "[b]"] by simp

lemma pending_completed:
  "subseq [a] bs \<Longrightarrow> subseq [a, b] (bs @ [b])" "suffix [a] bs \<Longrightarrow> sublist [a, b] (bs @ [b])"
  using list_emb_append_mono [of "(=)" "[a]" bs "[b]" "[b]"] by (auto simp: suffix_def sublist_def) (metis append.assoc append_Cons append_Nil append_Nil2)

lemma detect_move_inv:
  assumes "det_inv c bs d" "pending_byte s = [] \<or> pending_byte s = [b]"
  shows "det_inv c (bs @ [b]) (snd (detect_move d s))"
  using assms by (auto simp: detect_move_def det_inv_def Let_def sublist_snoc subseq_snoc)

lemma detect_found_inv:
  assumes "det_inv c bs d" "pending_byte (pd_state d) = [a]" "sync_bytes p = [a, b]"
  shows "det_inv c (bs @ [b]) (snd (detect_found d p))"
  using assms by (auto simp: detect_found_def det_inv_def pending_completed)

lemma feed_inv: "det_inv c bs d \<Longrightarrow> det_inv c (bs @ [b]) (snd (protocol_detector_feed d b))"
proof -
  let ?d = "protocol_detector_check_timeout (d\<lparr>pd_bytes_seen := pd_bytes_seen d + 1, pd_state_bytes := pd_state_bytes d + 1\<rparr>)"
  assume "det_inv c bs d"
  then have d: "det_inv c bs ?d" by simp
  show ?thesis
  proof (cases "protocol_detector_is_locked ?d")
    case True
    then have c using d by (auto simp: det_inv_def protocol_detector_is_locked_def)
    then show ?thesis using d True by (simp add: protocol_detector_feed_def det_inv_def subseq_snoc Let_def)
  next
    case False
    have rnode: "det_inv c (bs @ [KISS_FEND]) (?d\<lparr>pd_detected := PROTOCOL_RNODE\<rparr>)" if "pd_state ?d = DETECT_STATE_IDLE"
      using d that by (auto simp: det_inv_def)
    show ?thesis
      using False d rnode
      by (cases "pd_state ?d")
        (auto simp: protocol_detector_feed_def Let_def intro: detect_move_inv detect_found_inv)
  qed
qed

lemma feed_result: "fst (protocol_detector_feed d b) = Some p \<Longrightarrow> p = pd_detected (snd (protocol_detector_feed d b))"
  by (auto simp: protocol_detector_feed_def Let_def detect_move_def detect_found_def split: detect_state.splits if_splits)

section \<open>Transports\<close>

definition detector_of :: "protocol_router \<Rightarrow> transport_type \<Rightarrow> protocol_detector" where
  "detector_of r t = ts_detector (protocol_router_transport_ref r t)"

definition active_of :: "protocol_router \<Rightarrow> transport_type \<Rightarrow> bool" where
  "active_of r t = ts_active (protocol_router_transport_ref r t)"

lemma transport_index_less [simp]: "transport_index t < 3"
  by (simp add: transport_index_def split: transport_type.splits)

lemma transport_index_eq [simp]: "transport_index t = transport_index u \<longleftrightarrow> t = u"
  by (auto simp: transport_index_def split: transport_type.splits)

lemma transport_update [simp]:
  assumes "length (pr_transports r) = 3"
  shows "protocol_router_transport_ref (protocol_router_transport r t f) u =
      (if u = t then f (protocol_router_transport_ref r t) else protocol_router_transport_ref r u)"
    "length (pr_transports (protocol_router_transport r t f)) = 3"
    "pr_lora_protocol (protocol_router_transport r t f) = pr_lora_protocol r"
    "pr_priority_transport (protocol_router_transport r t f) = pr_priority_transport r"
  using assms by (auto simp: protocol_router_transport_def protocol_router_transport_ref_def nth_list_update)

lemma transport_ref_other [simp]:
  "protocol_router_transport_ref (r\<lparr>pr_lora_protocol := p\<rparr>) t = protocol_router_transport_ref r t"
  "protocol_router_transport_ref (r\<lparr>pr_priority_transport := q\<rparr>) t = protocol_router_transport_ref r t"
  by (simp_all add: protocol_router_transport_ref_def)

text \<open>What one byte changes.\<close>

lemma route_incoming_effect:
  assumes "length (pr_transports r) = 3" "protocol_router_route_incoming r t b = (p, r')"
  shows "length (pr_transports r') = 3"
    and "detector_of r' u = (if u = t then snd (protocol_detector_feed (detector_of r t) b) else detector_of r u)"
    and "active_of r' u = (u = t \<or> active_of r u)"
    and "p = pd_detected (detector_of r' t)"
    and "pr_lora_protocol r' = (if pr_lora_protocol r = PROTOCOL_UNKNOWN \<and> pr_priority_transport r \<in> {None, Some t}
           \<and> fst (protocol_detector_feed (detector_of r t) b) \<noteq> None then p else pr_lora_protocol r)"
    and "pr_priority_transport r' = (if pr_priority_transport r = None \<and> protocol_detector_is_locked (detector_of r' t)
           \<and> fst (protocol_detector_feed (detector_of r t) b) \<noteq> None then Some t else pr_priority_transport r)"
proof -
  let ?f = "protocol_detector_feed (detector_of r t) b"
  let ?r = "protocol_router_transport r t (\<lambda>state. state\<lparr>ts_active := True, ts_detector := snd ?f\<rparr>)"
  have f: "protocol_detector_feed (ts_detector (pr_transports r ! transport_index t)) b = ?f"
    by (simp add: detector_of_def protocol_router_transport_ref_def)
  have d: "ts_detector (pr_transports ?r ! transport_index t) = snd ?f"
    using transport_update(1) [OF assms(1), of t _ t] by (simp add: protocol_router_transport_ref_def)
  have ref: "r' = (case fst ?f of None \<Rightarrow> ?r | Some q \<Rightarrow>
      if pr_priority_transport r = None \<or> pr_priority_transport r = Some t \<or> pr_lora_protocol r = q
      then (let s = (if pr_lora_protocol r = PROTOCOL_UNKNOWN \<or> pr_lora_protocol r = q then ?r\<lparr>pr_lora_protocol := q\<rparr> else ?r)
            in if pr_priority_transport r = None \<and> protocol_detector_is_locked (snd ?f) then s\<lparr>pr_priority_transport := Some t\<rparr> else s)
      else ?r)" "p = (case fst ?f of None \<Rightarrow> pd_detected (snd ?f) | Some q \<Rightarrow> q)"
    using assms d by (auto simp: protocol_router_route_incoming_def f case_prod_beta Let_def protocol_detector_protocol_def
        split: option.splits)
  show "length (pr_transports r') = 3" using assms(1) by (simp add: ref(1) Let_def split: option.splits)
  show det: "detector_of r' u = (if u = t then snd ?f else detector_of r u)" for u
    using assms(1) by (simp add: ref(1) Let_def detector_of_def split: option.splits)
  show "active_of r' u = (u = t \<or> active_of r u)"
    using assms(1) by (simp add: ref(1) Let_def active_of_def split: option.splits)
  show p: "p = pd_detected (detector_of r' t)"
    using feed_result [of "detector_of r t" b] by (simp add: ref(2) det split: option.splits)
  show "pr_lora_protocol r' = (if pr_lora_protocol r = PROTOCOL_UNKNOWN \<and> pr_priority_transport r \<in> {None, Some t}
           \<and> fst ?f \<noteq> None then p else pr_lora_protocol r)"
    using assms(1) by (auto simp: ref Let_def split: option.splits)
  show "pr_priority_transport r' = (if pr_priority_transport r = None \<and> protocol_detector_is_locked (detector_of r' t)
           \<and> fst ?f \<noteq> None then Some t else pr_priority_transport r)"
    unfolding det [of t] using assms(1) by (auto simp: ref(1) Let_def split: option.splits)
qed

text \<open>What the other events change.\<close>

lemma on_detector_effect:
  assumes "length (pr_transports r) = 3"
  shows "length (pr_transports (on_detector t f r)) = 3"
    "detector_of (on_detector t f r) u = (if u = t then f (detector_of r t) else detector_of r u)"
    "active_of (on_detector t f r) u = active_of r u"
    "pr_lora_protocol (on_detector t f r) = pr_lora_protocol r"
    "pr_priority_transport (on_detector t f r) = pr_priority_transport r"
  using assms by (simp_all add: on_detector_def detector_of_def active_of_def)

lemma release_effect:
  assumes "length (pr_transports r) = 3"
  shows "length (pr_transports (protocol_router_release_lora_control r t)) = 3"
    "detector_of (protocol_router_release_lora_control r t) u = (if u = t then protocol_detector_reset (detector_of r t) else detector_of r u)"
    "active_of (protocol_router_release_lora_control r t) u = (u \<noteq> t \<and> active_of r u)"
    "pr_lora_protocol (protocol_router_release_lora_control r t) = pr_lora_protocol r"
    "pr_priority_transport (protocol_router_release_lora_control r t) = (if pr_priority_transport r = Some t then None else pr_priority_transport r)"
  using assms by (auto simp: protocol_router_release_lora_control_def detector_of_def active_of_def Let_def)

lemma set_lora_effect [simp]:
  "length (pr_transports (protocol_router_set_lora_protocol r p)) = length (pr_transports r)"
  "detector_of (protocol_router_set_lora_protocol r p) u = detector_of r u" "active_of (protocol_router_set_lora_protocol r p) u = active_of r u"
  "pr_lora_protocol (protocol_router_set_lora_protocol r p) = p"
  "pr_priority_transport (protocol_router_set_lora_protocol r p) = pr_priority_transport r"
  by (simp_all add: protocol_router_set_lora_protocol_def detector_of_def active_of_def)

lemmas router_effects = route_incoming_effect on_detector_effect release_effect

section \<open>Invariants of a run\<close>

definition router_inv :: "router_event list \<Rightarrow> protocol_router \<Rightarrow> bool" where
  "router_inv evs r \<longleftrightarrow> length (pr_transports r) = 3 \<and>
     (\<forall>t. det_inv (ConfirmFrame t \<in> set evs) (received t evs) (detector_of r t)) \<and>
     (SetLora (pr_lora_protocol r) \<in> set evs \<or> (\<exists>t. subseq (sync_bytes (pr_lora_protocol r)) (received t evs))) \<and>
     (\<forall>t. pr_priority_transport r = Some t \<longrightarrow> active_of r t)"

lemma router_inv_new: "router_inv [] protocol_router_new"
proof -
  have "detector_of protocol_router_new t = protocol_detector_new" for t
    by (cases t) (simp_all add: detector_of_def protocol_router_transport_ref_def protocol_router_new_def transport_index_def transport_state_new_def)
  then show ?thesis by (simp add: router_inv_def protocol_router_new_def)
qed

lemma router_inv_step:
  assumes inv: "router_inv evs r" and step: "router_step r ev r'"
  shows "router_inv (evs @ [ev]) r'"
proof -
  have len: "length (pr_transports r) = 3" using inv by (simp add: router_inv_def)
  have det: "det_inv (ConfirmFrame t \<in> set evs) (received t evs) (detector_of r t)" for t using inv by (simp add: router_inv_def)
  have lora: "SetLora (pr_lora_protocol r) \<in> set evs \<or> (\<exists>t. subseq (sync_bytes (pr_lora_protocol r)) (received t evs))"
    using inv by (simp add: router_inv_def)
  have act: "pr_priority_transport r = Some t \<Longrightarrow> active_of r t" for t using inv by (simp add: router_inv_def)
  from step show ?thesis
  proof cases
    case (byte t b p)
    note eff = route_incoming_effect [OF len byte(2)]
    have dt: "det_inv (ConfirmFrame u \<in> set (evs @ [ev])) (received u (evs @ [ev])) (detector_of r' u)" for u
      using det [of u] feed_inv [OF det [of t], of b] byte(1) by (simp add: eff(2))
    have "subseq (sync_bytes p) (received t (evs @ [ev]))" using dt [of t] eff(4) by (simp add: det_inv_def)
    moreover have "subseq xs (received u evs) \<Longrightarrow> subseq xs (received u (evs @ [ev]))" for xs u
      using byte(1) by (simp add: subseq_snoc)
    ultimately have "SetLora (pr_lora_protocol r') \<in> set (evs @ [ev]) \<or> (\<exists>t. subseq (sync_bytes (pr_lora_protocol r')) (received t (evs @ [ev])))"
      using lora unfolding eff(5) by auto
    then show ?thesis using dt act eff(1) by (auto simp: router_inv_def eff(3) eff(6) split: if_splits)
  next
    case (release t)
    then show ?thesis using det lora act by (auto simp: router_inv_def release_effect [OF len] split: if_splits)
  next
    case (set_lora p)
    then show ?thesis using det act len by (auto simp: router_inv_def)
  qed (use det lora act in \<open>auto simp: router_inv_def on_detector_effect [OF len] intro: det_inv_ops(3) [OF det]\<close>)
qed

lemma router_inv_run: "router_run r0 evs r \<Longrightarrow> r0 = protocol_router_new \<Longrightarrow> router_inv evs r"
  by (induction rule: router_run.induct) (auto intro: router_inv_new router_inv_step)

text \<open>The router is deterministic and every event is possible.\<close>

definition router_next :: "protocol_router \<Rightarrow> router_event \<Rightarrow> protocol_router" where
  "router_next r ev = (case ev of
     ByteIn t b \<Rightarrow> snd (protocol_router_route_incoming r t b)
   | ConfirmFrame t \<Rightarrow> on_detector t protocol_detector_confirm_frame r
   | ErrorFrame t \<Rightarrow> on_detector t protocol_detector_error_frame r
   | SoftReset t \<Rightarrow> on_detector t protocol_detector_soft_reset r
   | Reset t \<Rightarrow> on_detector t protocol_detector_reset r
   | Release t \<Rightarrow> protocol_router_release_lora_control r t
   | SetLora p \<Rightarrow> protocol_router_set_lora_protocol r p)"

lemma router_step_next: "router_step r ev r' \<longleftrightarrow> r' = router_next r ev"
  by (cases ev) (auto simp: router_next_def router_step_simps prod_eq_iff)

lemma router_run_foldl: "router_run r evs r' \<longleftrightarrow> r' = foldl router_next r evs"
proof
  show "router_run r evs r' \<Longrightarrow> r' = foldl router_next r evs"
    by (induction rule: router_run.induct) (auto simp: router_step_next)
  have "router_run r evs (foldl router_next r evs)"
    by (induction evs rule: rev_induct) (auto intro: router_run.intros simp: router_step_next)
  then show "r' = foldl router_next r evs \<Longrightarrow> router_run r evs r'" by simp
qed

section \<open>Claiming the radio\<close>

definition same_lock :: "protocol_detector \<Rightarrow> protocol_detector \<Rightarrow> bool" where
  "same_lock d d' \<longleftrightarrow> pd_lock_count d' = pd_lock_count d \<and> pd_lock_threshold d' = pd_lock_threshold d"

lemma feed_half:
  assumes "\<not> protocol_detector_is_locked d" "pd_state d = DETECT_STATE_IDLE" "pending_byte s = [a]"
  shows "same_lock d (snd (protocol_detector_feed d a)) \<and> pd_state (snd (protocol_detector_feed d a)) = s \<and>
    pd_state_bytes (snd (protocol_detector_feed d a)) = 0 \<and> fst (protocol_detector_feed d a) = None"
  using assms
  by (cases s) (auto simp: protocol_detector_feed_def protocol_detector_check_timeout_def protocol_detector_is_locked_def
      detect_move_def Let_def same_lock_def)

lemma feed_rest:
  assumes "\<not> protocol_detector_is_locked d" "pending_byte (pd_state d) = [a]" "pd_state_bytes d = 0" "sync_bytes p = [a, b]"
  shows "same_lock d (snd (protocol_detector_feed d b)) \<and> pd_detected (snd (protocol_detector_feed d b)) = p"
  using assms
  by (cases p; cases "pd_state d") (auto simp: protocol_detector_feed_def protocol_detector_check_timeout_def protocol_detector_is_locked_def
      detect_found_def Let_def same_lock_def)

lemma feed_fend:
  assumes "\<not> protocol_detector_is_locked d" "pd_state d = DETECT_STATE_IDLE" "pd_detected d \<in> {PROTOCOL_UNKNOWN, PROTOCOL_RNODE}"
  shows "same_lock d (snd (protocol_detector_feed d KISS_FEND)) \<and> pd_detected (snd (protocol_detector_feed d KISS_FEND)) = PROTOCOL_RNODE"
  using assms
  by (auto simp: protocol_detector_feed_def protocol_detector_check_timeout_def protocol_detector_is_locked_def Let_def same_lock_def)

text \<open>An unlocked detector never gives its transport the radio.\<close>

lemma byte_unlocked:
  assumes "length (pr_transports r) = 3" "pr_priority_transport r = None" "pr_lora_protocol r = PROTOCOL_UNKNOWN"
    and "\<not> protocol_detector_is_locked (snd (protocol_detector_feed (detector_of r t) b))" "r' = router_next r (ByteIn t b)"
  shows "length (pr_transports r') = 3" "pr_priority_transport r' = None" "detector_of r' t = snd (protocol_detector_feed (detector_of r t) b)"
    "pr_lora_protocol r' = (if fst (protocol_detector_feed (detector_of r t) b) = None then PROTOCOL_UNKNOWN else pd_detected (detector_of r' t))"
proof -
  obtain p where p: "protocol_router_route_incoming r t b = (p, r')"
    using assms(5) by (cases "protocol_router_route_incoming r t b") (simp add: router_next_def)
  note eff = route_incoming_effect [OF assms(1) p]
  show "length (pr_transports r') = 3" "detector_of r' t = snd (protocol_detector_feed (detector_of r t) b)" using eff(1,2) by simp_all
  then show "pr_priority_transport r' = None"
    "pr_lora_protocol r' = (if fst (protocol_detector_feed (detector_of r t) b) = None then PROTOCOL_UNKNOWN else pd_detected (detector_of r' t))"
    using eff(4,5,6) assms by simp_all
qed

lemma same_lock_locked: "same_lock d d' \<Longrightarrow> protocol_detector_is_locked d' = protocol_detector_is_locked d"
  by (simp add: same_lock_def protocol_detector_is_locked_def)

lemma sync_claims:
  assumes r: "length (pr_transports r) = 3" "pr_priority_transport r = None" "pr_lora_protocol r = PROTOCOL_UNKNOWN"
    and d: "\<not> protocol_detector_is_locked (detector_of r t)" "pd_state (detector_of r t) = DETECT_STATE_IDLE" "p \<noteq> PROTOCOL_UNKNOWN"
    and rnode: "p = PROTOCOL_RNODE \<Longrightarrow> pd_detected (detector_of r t) \<in> {PROTOCOL_UNKNOWN, PROTOCOL_RNODE}"
    and r': "r' = foldl router_next r (map (ByteIn t) (sync_bytes p))"
  shows "length (pr_transports r') = 3 \<and> pr_priority_transport r' = None \<and> pr_lora_protocol r' \<in> {PROTOCOL_UNKNOWN, p} \<and>
    same_lock (detector_of r t) (detector_of r' t) \<and> pd_detected (detector_of r' t) = p"
proof (cases "p = PROTOCOL_RNODE")
  case True
  note f = feed_fend [OF d(1,2) rnode [OF True]]
  have "\<not> protocol_detector_is_locked (snd (protocol_detector_feed (detector_of r t) KISS_FEND))" using f d(1) same_lock_locked by blast
  from byte_unlocked [OF r this refl] f True r' show ?thesis by auto
next
  case False
  then obtain a b s where ab: "sync_bytes p = [a, b]" "pending_byte s = [a]"
    using d(3) by (cases p) (auto intro: that [of _ _ DETECT_STATE_MESHCORE1] that [of _ _ DETECT_STATE_MESHTASTIC1] that [of _ _ DETECT_STATE_AT1])
  note f = feed_half [OF d(1,2) ab(2)]
  have u: "\<not> protocol_detector_is_locked (snd (protocol_detector_feed (detector_of r t) a))" using f d(1) same_lock_locked by blast
  note r1 = byte_unlocked [OF r u refl]
  let ?r1 = "router_next r (ByteIn t a)"
  have l1: "pr_lora_protocol ?r1 = PROTOCOL_UNKNOWN" "pending_byte (pd_state (detector_of ?r1 t)) = [a]" "pd_state_bytes (detector_of ?r1 t) = 0"
    "\<not> protocol_detector_is_locked (detector_of ?r1 t)" using r1 f ab(2) u by auto
  note g = feed_rest [OF l1(4,2,3) ab(1)]
  have "\<not> protocol_detector_is_locked (snd (protocol_detector_feed (detector_of ?r1 t) b))" using g l1(4) same_lock_locked by blast
  from byte_unlocked [OF r1(1,2) l1(1) this refl] g f r1(3) ab(1) r' show ?thesis by (auto simp: same_lock_def)
qed

lemma locked_feed: "protocol_detector_is_locked d \<Longrightarrow> fst (protocol_detector_feed d b) = Some (pd_detected d)
    \<and> pd_detected (snd (protocol_detector_feed d b)) = pd_detected d \<and> protocol_detector_is_locked (snd (protocol_detector_feed d b))"
  by (auto simp: protocol_detector_feed_def protocol_detector_check_timeout_def protocol_detector_is_locked_def Let_def)

lemma confirm_three:
  assumes "pd_lock_count d = 0" "pd_lock_threshold d = 3"
  shows "pd_detected ((protocol_detector_confirm_frame ^^ 3) d) = pd_detected d \<and> protocol_detector_is_locked ((protocol_detector_confirm_frame ^^ 3) d)"
  using assms by (simp add: numeral_3_eq_3 protocol_detector_confirm_frame_def protocol_detector_is_locked_def)

lemma confirms_effect:
  "length (pr_transports r) = 3 \<Longrightarrow>
   length (pr_transports (foldl router_next r (replicate n (ConfirmFrame t)))) = 3 \<and>
   detector_of (foldl router_next r (replicate n (ConfirmFrame t))) t = (protocol_detector_confirm_frame ^^ n) (detector_of r t) \<and>
   pr_lora_protocol (foldl router_next r (replicate n (ConfirmFrame t))) = pr_lora_protocol r \<and>
   pr_priority_transport (foldl router_next r (replicate n (ConfirmFrame t))) = pr_priority_transport r"
proof (induction n arbitrary: r)
  case 0
  then show ?case by simp
next
  case (Suc n)
  have "router_next r (ConfirmFrame t) = on_detector t protocol_detector_confirm_frame r" by (simp add: router_next_def)
  with Suc.IH [of "router_next r (ConfirmFrame t)"] Suc.prems show ?case
    by (simp add: on_detector_effect [OF Suc.prems] funpow_swap1)
qed

section \<open>Properties\<close>

text \<open>C20. Soundness of protocol detection, over every run of the router from its initial state: the protocol a transport is taken to speak is unknown or has its
  sync bytes, in order, among the bytes that arrived on that transport - next to each other as long as no frame of it was confirmed (a locked detector keeps a
  half-seen sync word); the radio's protocol was set from outside or has its sync bytes on some transport; and a transport that holds the radio is active.\<close>

theorem router_detection_sound:
  assumes "router_run protocol_router_new evs r"
  shows "(\<forall>t. subseq (sync_bytes (pd_detected (detector_of r t))) (received t evs) \<and>
            (ConfirmFrame t \<notin> set evs \<longrightarrow> sublist (sync_bytes (pd_detected (detector_of r t))) (received t evs))) \<and>
         (SetLora (pr_lora_protocol r) \<in> set evs \<or> (\<exists>t. subseq (sync_bytes (pr_lora_protocol r)) (received t evs))) \<and>
         (\<forall>t. pr_priority_transport r = Some t \<longrightarrow> active_of r t)"
  using router_inv_run [OF assms refl] by (auto simp: router_inv_def det_inv_def)

theorem router_detection_sound_witness:
  "sublist (sync_bytes (pd_detected (detector_of
       (foldl router_next protocol_router_new [ByteIn TRANSPORT_TYPE_BLE 0xAA, ByteIn TRANSPORT_TYPE_WIFI 0x41, ByteIn TRANSPORT_TYPE_BLE 0x55]) TRANSPORT_TYPE_BLE)))
     [0xAA, 0x55]"
  using router_detection_sound [of "[ByteIn TRANSPORT_TYPE_BLE 0xAA, ByteIn TRANSPORT_TYPE_WIFI 0x41, ByteIn TRANSPORT_TYPE_BLE 0x55]",
      unfolded router_run_foldl, OF refl, THEN conjunct1, THEN spec [of _ TRANSPORT_TYPE_BLE]] by simp

text \<open>C21. Control of the radio. A transport whose detector is idle, with lock count 0 and threshold 3, sends the sync bytes of a protocol (for RNode it must not have
  detected another protocol before) and gets three frames confirmed. With its next byte, whatever that byte is, it takes the radio if that has neither a holder nor
  a protocol. From then on, over every run in which the radio's protocol is not set from outside (\<^verbatim>\<open>protocol_router_set_lora_protocol\<close>), the
  protocol stays what it is - also when the transport releases the radio - and the transport keeps the radio until it releases it.\<close>

theorem router_radio_control:
  assumes "length (pr_transports r) = 3" "pr_priority_transport r = None" "pr_lora_protocol r = PROTOCOL_UNKNOWN"
    and "pd_lock_count (detector_of r t) = 0" "pd_lock_threshold (detector_of r t) = 3" "pd_state (detector_of r t) = DETECT_STATE_IDLE"
    and "p \<noteq> PROTOCOL_UNKNOWN" "p = PROTOCOL_RNODE \<Longrightarrow> pd_detected (detector_of r t) \<in> {PROTOCOL_UNKNOWN, PROTOCOL_RNODE}"
    and "router_run r (map (ByteIn t) (sync_bytes p) @ replicate 3 (ConfirmFrame t) @ [ByteIn t b]) r'"
    and "router_run r' evs r''" "\<forall>q. SetLora q \<notin> set evs"
  shows "pr_lora_protocol r' = p \<and> pr_priority_transport r' = Some t \<and> pr_lora_protocol r'' = p \<and>
    (Release t \<notin> set evs \<longrightarrow> pr_priority_transport r'' = Some t)"
proof -
  let ?r1 = "foldl router_next r (map (ByteIn t) (sync_bytes p))" and ?r2 = "foldl router_next r (map (ByteIn t) (sync_bytes p) @ replicate 3 (ConfirmFrame t))"
  have "\<not> protocol_detector_is_locked (detector_of r t)" using assms(4,5) by (simp add: protocol_detector_is_locked_def)
  from sync_claims [OF assms(1-3) this assms(6-8) refl]
  have r1: "length (pr_transports ?r1) = 3" "pr_priority_transport ?r1 = None" "pr_lora_protocol ?r1 \<in> {PROTOCOL_UNKNOWN, p}"
    "pd_lock_count (detector_of ?r1 t) = 0" "pd_lock_threshold (detector_of ?r1 t) = 3" "pd_detected (detector_of ?r1 t) = p"
    using assms(4,5) by (auto simp: same_lock_def)
  have r2: "length (pr_transports ?r2) = 3" "pr_priority_transport ?r2 = None" "pr_lora_protocol ?r2 \<in> {PROTOCOL_UNKNOWN, p}"
    "protocol_detector_is_locked (detector_of ?r2 t)" "pd_detected (detector_of ?r2 t) = p"
    using confirms_effect [OF r1(1), of 3 t] confirm_three [OF r1(4,5)] r1 by auto
  have "r' = router_next ?r2 (ByteIn t b)" using assms(9) by (simp add: router_run_foldl)
  then obtain q where q: "protocol_router_route_incoming ?r2 t b = (q, r')"
    by (cases "protocol_router_route_incoming ?r2 t b") (simp add: router_next_def)
  note eff = route_incoming_effect [OF r2(1) q]
  have r': "length (pr_transports r') = 3" "pr_lora_protocol r' = p" "pr_priority_transport r' = Some t"
    using eff r2 locked_feed [OF r2(4), of b] by auto
  have "length (pr_transports r'') = 3 \<and> pr_lora_protocol r'' = p \<and> (Release t \<notin> set evs \<longrightarrow> pr_priority_transport r'' = Some t)"
    using assms(10,11) r'
  proof (induction rule: router_run.induct)
    case (step r evs r' ev r'')
    then have "length (pr_transports r') = 3" "pr_lora_protocol r' = p" "Release t \<notin> set evs \<longrightarrow> pr_priority_transport r' = Some t" by auto
    with step.hyps(2) step.prems(1) assms(7) show ?case
      by (cases rule: router_step.cases) (auto simp: router_effects)
  qed simp
  with r' show ?thesis by simp
qed

lemma router_new_facts: "length (pr_transports protocol_router_new) = 3" "pr_priority_transport protocol_router_new = None"
  "pr_lora_protocol protocol_router_new = PROTOCOL_UNKNOWN" "detector_of protocol_router_new t = protocol_detector_new"
  by (cases t; simp add: detector_of_def protocol_router_transport_ref_def protocol_router_new_def transport_index_def transport_state_new_def)+

theorem router_radio_control_witness:
  "let r = foldl router_next protocol_router_new
         (map (ByteIn TRANSPORT_TYPE_BLE) (sync_bytes PROTOCOL_MESHTASTIC) @ replicate 3 (ConfirmFrame TRANSPORT_TYPE_BLE) @ [ByteIn TRANSPORT_TYPE_BLE 9])
   in pr_lora_protocol r = PROTOCOL_MESHTASTIC \<and> pr_priority_transport r = Some TRANSPORT_TYPE_BLE \<and>
      pr_lora_protocol (foldl router_next r [Release TRANSPORT_TYPE_BLE, ByteIn TRANSPORT_TYPE_WIFI 0xC0]) = PROTOCOL_MESHTASTIC"
  unfolding Let_def
  using router_radio_control [of protocol_router_new TRANSPORT_TYPE_BLE PROTOCOL_MESHTASTIC 9 _
      "[Release TRANSPORT_TYPE_BLE, ByteIn TRANSPORT_TYPE_WIFI 0xC0]", unfolded router_run_foldl, OF _ _ _ _ _ _ _ _ refl refl]
  by (simp only: router_new_facts) (simp add: protocol_detector_new_def)

lemma count_zero_bytes_filter: "n \<le> length d \<Longrightarrow> count_zero_bytes n d = length (filter (\<lambda>b. b = 0) (take n d))"
  by (induction n) (auto simp: take_Suc_conv_app_nth)

lemma hop_nibble: "drop_bit 4 f AND 0x0F \<le> 7 \<longleftrightarrow> f < 128" for f :: byte
proof -
  have m: "(0x0F :: byte) = mask 4" by (simp add: mask_eq_exp_minus_1)
  have "unat (drop_bit 4 f AND 0x0F) = unat f div 16"
    unfolding m take_bit_eq_mask [symmetric] using unat_lt2p [of f]
    by (simp add: take_bit_eq_mod drop_bit_eq_div unat_mod_distrib unat_div_distrib)
  then show ?thesis by (auto simp: word_le_nat_alt word_less_nat_alt)
qed

text \<open>What the classifier of received packets decides, for packets of every length: Meshtastic when there are 20 bytes, a non-zero channel byte and a
  non-zero hop limit; otherwise MeshCore when there are nine bytes and the top bit of the ninth is clear; otherwise Reticulum when there are 18
  bytes of which fewer than eight of the first 16 are zero; otherwise unknown. The tests of the code on message type,
  header type and propagation type are always true: no other byte of the packet matters.\<close>

theorem lora_packet_classification:
  "lora_packet_detect_protocol d =
     (if 20 \<le> length d \<and> d ! 3 \<noteq> 0 \<and> d ! 11 AND 7 \<noteq> 0 then PROTOCOL_MESHTASTIC
      else if 9 \<le> length d \<and> d ! 8 < 128 then PROTOCOL_MESHCORE
      else if 18 \<le> length d \<and> length (filter (\<lambda>b. b = 0) (take 16 d)) < 8 then PROTOCOL_RNODE
      else PROTOCOL_UNKNOWN)"
proof -
  have le: "x AND 7 \<le> 7" "x AND 0x0F \<le> 15" "x AND 3 \<le> 3" for x :: byte by (simp_all add: word_and_le1)
  have ge: "x AND 7 \<ge> 1 \<longleftrightarrow> x AND 7 \<noteq> 0" for x :: byte by (metis unat_1 unat_eq_zero word_le_nat_alt less_one not_le)
  show ?thesis
    by (auto simp: lora_packet_detect_protocol_def looks_meshtastic_def looks_meshcore_def looks_rnode_def Let_def le ge hop_nibble
        count_zero_bytes_filter)
qed

end
