(* ===== verification/Kiss.thy ===== *)
theory Kiss
  imports Vec_Helpers
begin

text \<open>
  The KISS framing of \<^verbatim>\<open>lunar/rnode.c\<close>: escaping, the frame encoder and the byte-wise parser. The file defines the codec twice; the definitions
  of its second half carry the suffix \<open>2\<close> here. Both decoders are shown to deliver what the encoder was given, with the exact
  exceptions each of them has.
\<close>

section \<open>Constants and vectors\<close>

abbreviation FEND :: byte where "FEND \<equiv> 0xC0"
abbreviation FESC :: byte where "FESC \<equiv> 0xDB"
abbreviation TFEND :: byte where "TFEND \<equiv> 0xDC"
abbreviation TFESC :: byte where "TFESC \<equiv> 0xDD"
abbreviation MAX_DATA_SIZE :: nat where "MAX_DATA_SIZE \<equiv> 512"
abbreviation MAX_FRAME_SIZE :: nat where "MAX_FRAME_SIZE \<equiv> 1028"

definition vec_u8_max_data_new :: "vec \<Rightarrow> vec" where
  "vec_u8_max_data_new v = v\<lparr>vlen := 0\<rparr>"

definition vec_u8_max_data_push :: "vec \<Rightarrow> byte \<Rightarrow> bool \<times> vec" where
  "vec_u8_max_data_push v b =
     (if vlen v \<ge> MAX_DATA_SIZE then (False, v) else (True, v\<lparr>vdata := (vdata v)[vlen v := b], vlen := vlen v + 1\<rparr>))"

definition vec_u8_max_data_clear :: "vec \<Rightarrow> vec" where
  "vec_u8_max_data_clear v = v\<lparr>vlen := 0\<rparr>"

definition vec_u8_max_data_clone :: "vec \<Rightarrow> vec \<Rightarrow> vec" where
  "vec_u8_max_data_clone src dst = dst\<lparr>vlen := vlen src, vdata := memcpy (vdata dst) 0 (slice (vdata src) 0 (vlen src))\<rparr>"

definition vec_u8_max_frame_new :: "vec \<Rightarrow> vec" where
  "vec_u8_max_frame_new v = v\<lparr>vlen := 0\<rparr>"

definition vec_u8_max_frame_push :: "vec \<Rightarrow> byte \<Rightarrow> bool \<times> vec" where
  "vec_u8_max_frame_push v b =
     (if vlen v \<ge> MAX_FRAME_SIZE then (False, v) else (True, v\<lparr>vdata := (vdata v)[vlen v := b], vlen := vlen v + 1\<rparr>))"

section \<open>Frames\<close>

record kiss_frame =
  kf_command :: byte
  kf_data :: vec

abbreviation KISS_CMD_DATA_FRAME :: byte where "KISS_CMD_DATA_FRAME \<equiv> 0x00"

definition kiss_frame_new :: "kiss_frame \<Rightarrow> byte \<Rightarrow> kiss_frame" where
  "kiss_frame_new frame command = frame\<lparr>kf_command := command, kf_data := vec_u8_max_data_new (kf_data frame)\<rparr>"

definition push_all :: "vec \<Rightarrow> bytes \<Rightarrow> vec" where
  "push_all v bs = foldl (\<lambda>v b. snd (vec_u8_max_data_push v b)) v bs"

definition kiss_frame_data_frame :: "bytes \<Rightarrow> kiss_frame \<Rightarrow> bool \<times> kiss_frame" where
  "kiss_frame_data_frame d out_frame =
     (if length d > MAX_DATA_SIZE then (False, out_frame)
      else let out_frame = kiss_frame_new out_frame KISS_CMD_DATA_FRAME
           in (True, out_frame\<lparr>kf_data := push_all (kf_data out_frame) d\<rparr>))"

definition kiss_frame_command_frame :: "byte \<Rightarrow> bytes \<Rightarrow> kiss_frame \<Rightarrow> bool \<times> kiss_frame" where
  "kiss_frame_command_frame cmd d out_frame =
     (if length d > MAX_DATA_SIZE then (False, out_frame)
      else let out_frame = kiss_frame_new out_frame cmd
           in (True, out_frame\<lparr>kf_data := push_all (kf_data out_frame) d\<rparr>))"

definition escape_byte :: "byte \<Rightarrow> vec \<Rightarrow> vec" where
  "escape_byte b buf =
     (if b = FEND then snd (vec_u8_max_frame_push (snd (vec_u8_max_frame_push buf FESC)) TFEND)
      else if b = FESC then snd (vec_u8_max_frame_push (snd (vec_u8_max_frame_push buf FESC)) TFESC)
      else snd (vec_u8_max_frame_push buf b))"

definition kiss_frame_encode :: "kiss_frame \<Rightarrow> vec \<Rightarrow> vec" where
  "kiss_frame_encode frame buf =
     (let buf = vec_u8_max_frame_new buf;
          buf = snd (vec_u8_max_frame_push buf FEND);
          buf = escape_byte (kf_command frame) buf;
          buf = foldl (\<lambda>buf i. escape_byte (vdata (kf_data frame) ! i) buf) buf [0..<vlen (kf_data frame)]
      in snd (vec_u8_max_frame_push buf FEND))"

definition kiss_frame_port :: "kiss_frame \<Rightarrow> byte" where
  "kiss_frame_port frame = and (drop_bit 4 (kf_command frame)) 0x0F"

definition kiss_frame_cmd_type :: "kiss_frame \<Rightarrow> byte" where
  "kiss_frame_cmd_type frame = and (kf_command frame) 0x0F"

section \<open>The parser\<close>

datatype kiss_state = PARSER_STATE_WAIT_START | PARSER_STATE_WAIT_COMMAND | PARSER_STATE_READ_DATA | PARSER_STATE_ESCAPE

record kiss_parser =
  kp_state :: kiss_state
  kp_command :: byte
  kp_data :: vec

definition kiss_parser_new :: "kiss_parser \<Rightarrow> kiss_parser" where
  "kiss_parser_new parser = parser\<lparr>kp_state := PARSER_STATE_WAIT_START, kp_command := 0, kp_data := vec_u8_max_data_new (kp_data parser)\<rparr>"

definition kiss_parser_reset :: "kiss_parser \<Rightarrow> kiss_parser" where
  "kiss_parser_reset parser = parser\<lparr>kp_state := PARSER_STATE_WAIT_START, kp_command := 0, kp_data := vec_u8_max_data_clear (kp_data parser)\<rparr>"

definition kiss_parser_feed :: "kiss_parser \<Rightarrow> byte \<Rightarrow> kiss_frame \<Rightarrow> bool \<times> kiss_parser \<times> kiss_frame" where
  "kiss_parser_feed parser b out_frame =
     (case kp_state parser of
        PARSER_STATE_WAIT_START \<Rightarrow>
          (False, if b = FEND then parser\<lparr>kp_state := PARSER_STATE_WAIT_COMMAND, kp_data := vec_u8_max_data_clear (kp_data parser)\<rparr> else parser, out_frame)
      | PARSER_STATE_WAIT_COMMAND \<Rightarrow>
          (False,
           if b = FEND then parser
           else if b = FESC then parser\<lparr>kp_state := PARSER_STATE_ESCAPE\<rparr>
           else parser\<lparr>kp_command := b, kp_state := PARSER_STATE_READ_DATA\<rparr>, out_frame)
      | PARSER_STATE_READ_DATA \<Rightarrow>
          (if b = FEND
           then (True, kiss_parser_reset parser,
                 out_frame\<lparr>kf_command := kp_command parser, kf_data := vec_u8_max_data_clone (kp_data parser) (kf_data out_frame)\<rparr>)
           else if b = FESC then (False, parser\<lparr>kp_state := PARSER_STATE_ESCAPE\<rparr>, out_frame)
           else (False, parser\<lparr>kp_data := snd (vec_u8_max_data_push (kp_data parser) b)\<rparr>, out_frame))
      | PARSER_STATE_ESCAPE \<Rightarrow>
          (let unescaped = (if b = TFEND then FEND else if b = TFESC then FESC else b)
           in (False, parser\<lparr>kp_data := snd (vec_u8_max_data_push (kp_data parser) unescaped), kp_state := PARSER_STATE_READ_DATA\<rparr>, out_frame)))"

section \<open>The second codec of the file\<close>

record kiss_frame2 =
  k2_command :: byte
  k2_data :: bytes
  k2_data_len :: nat

abbreviation KissCommandDataFrame :: byte where "KissCommandDataFrame \<equiv> 0x00"
abbreviation KissCommandUnknown :: byte where "KissCommandUnknown \<equiv> 0xFF"
abbreviation MAX_KISS_DATA_LEN :: nat where "MAX_KISS_DATA_LEN \<equiv> 512"

definition kiss_frame_init :: "kiss_frame2 \<Rightarrow> byte \<Rightarrow> kiss_frame2" where
  "kiss_frame_init frame command = frame\<lparr>k2_command := command, k2_data_len := 0\<rparr>"

text \<open>\<open>junk\<close> is the uninitialised frame on the stack.\<close>

definition kiss_frame_new2 :: "kiss_frame2 \<Rightarrow> byte \<Rightarrow> kiss_frame2" where
  "kiss_frame_new2 junk command = kiss_frame_init junk command"

definition kiss_frame_push_data :: "kiss_frame2 \<Rightarrow> byte \<Rightarrow> bool \<times> kiss_frame2" where
  "kiss_frame_push_data frame b =
     (if k2_data_len frame < MAX_KISS_DATA_LEN
      then (True, frame\<lparr>k2_data := (k2_data frame)[k2_data_len frame := b], k2_data_len := k2_data_len frame + 1\<rparr>)
      else (False, frame))"

definition kiss_frame_command_frame2 :: "kiss_frame2 \<Rightarrow> byte \<Rightarrow> bytes \<Rightarrow> bool \<times> kiss_frame2" where
  "kiss_frame_command_frame2 frame command d =
     (if length d > MAX_KISS_DATA_LEN then (False, frame)
      else (True, frame\<lparr>k2_command := command, k2_data := memcpy (k2_data frame) 0 d, k2_data_len := length d\<rparr>))"

definition kiss_frame_data_frame2 :: "kiss_frame2 \<Rightarrow> bytes \<Rightarrow> bool \<times> kiss_frame2" where
  "kiss_frame_data_frame2 frame d =
     (if length d > MAX_KISS_DATA_LEN then (False, frame)
      else (True, frame\<lparr>k2_command := KissCommandDataFrame, k2_data := memcpy (k2_data frame) 0 d, k2_data_len := length d\<rparr>))"

text \<open>\<open>put_out\<close> is \<^verbatim>\<open>if (p < max_out) out[p++] = b\<close>; \<open>put_escaped\<close> is the branch that both the command and every data byte go through.\<close>

definition put_out :: "nat \<Rightarrow> bytes \<times> nat \<Rightarrow> byte \<Rightarrow> bytes \<times> nat" where
  "put_out max_out s b = (case s of (out, p) \<Rightarrow> if p < max_out then (out[p := b], p + 1) else (out, p))"

definition put_escaped :: "nat \<Rightarrow> bytes \<times> nat \<Rightarrow> byte \<Rightarrow> bytes \<times> nat" where
  "put_escaped max_out s b =
     (if b = FEND then put_out max_out (put_out max_out s FESC) TFEND
      else if b = FESC then put_out max_out (put_out max_out s FESC) TFESC
      else put_out max_out s b)"

definition kiss_frame_encode2 :: "kiss_frame2 \<Rightarrow> bytes \<Rightarrow> nat \<Rightarrow> bytes \<times> nat" where
  "kiss_frame_encode2 frame out max_out =
     (let s = put_out max_out (out, 0) FEND;
          s = put_escaped max_out s (k2_command frame);
          s = foldl (\<lambda>s i. put_escaped max_out s (k2_data frame ! i)) s [0..<k2_data_len frame]
      in put_out max_out s FEND)"

record kiss_parser2 =
  kq_current_frame :: kiss_frame2
  kq_in_frame :: bool
  kq_escaped :: bool

definition kiss_parser_init :: "kiss_parser2 \<Rightarrow> kiss_parser2" where
  "kiss_parser_init parser = parser\<lparr>kq_in_frame := False, kq_escaped := False\<rparr>"

text \<open>The flag is \<^verbatim>\<open>*out_ready\<close>; when it is set the result of the C function points to the current frame.\<close>

definition kiss_parser_feed2 :: "kiss_parser2 \<Rightarrow> byte \<Rightarrow> bool \<times> kiss_parser2" where
  "kiss_parser_feed2 parser b =
     (if b = FEND
      then if kq_in_frame parser \<and> k2_data_len (kq_current_frame parser) > 0
           then (True, parser\<lparr>kq_in_frame := False\<rparr>)
           else (False, parser\<lparr>kq_in_frame := True, kq_current_frame := (kq_current_frame parser)\<lparr>k2_data_len := 0, k2_command := KissCommandUnknown\<rparr>\<rparr>)
      else if \<not> kq_in_frame parser then (False, parser)
      else if b = FESC then (False, parser\<lparr>kq_escaped := True\<rparr>)
      else let (b, parser) = (if kq_escaped parser
                              then (if b = TFEND then FEND else if b = TFESC then FESC else b, parser\<lparr>kq_escaped := False\<rparr>)
                              else (b, parser))
           in (False,
               if k2_command (kq_current_frame parser) = KissCommandUnknown
               then parser\<lparr>kq_current_frame := (kq_current_frame parser)\<lparr>k2_command := b\<rparr>\<rparr>
               else parser\<lparr>kq_current_frame := snd (kiss_frame_push_data (kq_current_frame parser) b)\<rparr>))"

section \<open>Vectors that grow byte by byte\<close>

locale push_vec =
  fixes cap :: nat and push :: "vec \<Rightarrow> byte \<Rightarrow> bool \<times> vec"
  assumes push_room: "vec_wf cap v \<Longrightarrow> vlen v < cap \<Longrightarrow> vec_wf cap (snd (push v b)) \<and> vec_bytes (snd (push v b)) = vec_bytes v @ [b]"
    and push_full: "vec_wf cap v \<Longrightarrow> vlen v = cap \<Longrightarrow> snd (push v b) = v"
begin

lemma push_bytes: "vec_wf cap v \<Longrightarrow> vec_wf cap (snd (push v b)) \<and> vec_bytes (snd (push v b)) = take cap (vec_bytes v @ [b])"
  using push_room push_full by (cases "vlen v < cap") (auto simp: vec_wf_def vec_bytes_def)

lemma pushes_bytes:
  "vec_wf cap v \<Longrightarrow> vec_wf cap (foldl (\<lambda>v b. snd (push v b)) v bs) \<and>
   vec_bytes (foldl (\<lambda>v b. snd (push v b)) v bs) = take cap (vec_bytes v @ bs)"
proof (induction bs arbitrary: v)
  case Nil
  then show ?case by (simp add: vec_wf_def vec_bytes_def)
next
  case (Cons b bs)
  have "take cap (take cap (vec_bytes v @ [b]) @ bs) = take cap (vec_bytes v @ b # bs)"
    by (cases "length (vec_bytes v) < cap") (auto simp: not_less)
  with Cons.IH [of "snd (push v b)"] push_bytes [OF Cons.prems, of b] show ?case by simp
qed

end

interpretation data_vec: push_vec MAX_DATA_SIZE vec_u8_max_data_push
  by unfold_locales (auto simp: vec_u8_max_data_push_def vec_wf_def vec_bytes_def take_Suc_conv_app_nth)

interpretation frame_vec: push_vec MAX_FRAME_SIZE vec_u8_max_frame_push
  by unfold_locales (auto simp: vec_u8_max_frame_push_def vec_wf_def vec_bytes_def take_Suc_conv_app_nth)

section \<open>The wire form\<close>

definition escaped :: "byte \<Rightarrow> bytes" where
  "escaped b = (if b = FEND then [FESC, TFEND] else if b = FESC then [FESC, TFESC] else [b])"

definition kiss_bytes :: "byte \<Rightarrow> bytes \<Rightarrow> bytes" where
  "kiss_bytes c d = FEND # escaped c @ concat (map escaped d) @ [FEND]"

lemma length_escaped: "length (concat (map escaped d)) \<le> 2 * length d"
  by (induction d) (auto simp: escaped_def)

lemma escape_byte_pushes: "escape_byte b buf = foldl (\<lambda>v b. snd (vec_u8_max_frame_push v b)) buf (escaped b)"
  by (simp add: escape_byte_def escaped_def)

lemma escape_bytes_pushes:
  "foldl (\<lambda>buf b. escape_byte b buf) buf d = foldl (\<lambda>v b. snd (vec_u8_max_frame_push v b)) buf (concat (map escaped d))"
  by (induction d arbitrary: buf) (simp_all add: escape_byte_pushes)

lemma foldl_index: "n \<le> length xs \<Longrightarrow> foldl (\<lambda>s i. f s (xs ! i)) s [0..<n] = foldl f s (take n xs)"
  by (induction n) (auto simp: take_Suc_conv_app_nth)

lemma kiss_encode_bytes:
  assumes "vec_wf 1028 buf" "vec_wf 512 (kf_data frame)"
  shows "vec_wf 1028 (kiss_frame_encode frame buf) \<and>
    vec_bytes (kiss_frame_encode frame buf) = kiss_bytes (kf_command frame) (vec_bytes (kf_data frame))"
proof -
  let ?d = "vec_bytes (kf_data frame)" and ?push = "\<lambda>v b. snd (vec_u8_max_frame_push v b)"
  let ?new = "vec_u8_max_frame_new buf"
  have len: "length ?d \<le> 512" using assms(2) by (simp add: vec_wf_def vec_bytes_def)
  have "foldl (\<lambda>buf i. escape_byte (vdata (kf_data frame) ! i) buf) v [0..<vlen (kf_data frame)] = foldl ?push v (concat (map escaped ?d))" for v
    using foldl_index [of "vlen (kf_data frame)" "vdata (kf_data frame)" "\<lambda>buf b. escape_byte b buf" v] assms(2)
    by (simp add: escape_bytes_pushes vec_wf_def vec_bytes_def)
  then have enc: "kiss_frame_encode frame buf = foldl ?push ?new (kiss_bytes (kf_command frame) ?d)"
    by (simp add: kiss_frame_encode_def Let_def escape_byte_pushes kiss_bytes_def)
  have new: "vec_wf 1028 ?new" "vec_bytes ?new = []" using assms(1) by (simp_all add: vec_u8_max_frame_new_def vec_wf_def vec_bytes_def)
  have "length (kiss_bytes (kf_command frame) ?d) \<le> 1028"
    using length_escaped [of ?d] len by (simp add: kiss_bytes_def escaped_def)
  then show ?thesis using frame_vec.pushes_bytes [OF new(1), of "kiss_bytes (kf_command frame) ?d"] new(2) enc by simp
qed

section \<open>What the parser delivers\<close>

fun kiss_deliver :: "kiss_parser \<Rightarrow> kiss_frame \<Rightarrow> bytes \<Rightarrow> (byte \<times> bytes) list \<times> kiss_parser" where
  "kiss_deliver p out [] = ([], p)"
| "kiss_deliver p out (b # bs) =
     (let (ready, p, out) = kiss_parser_feed p b out;
          (frames, p) = kiss_deliver p out bs
      in ((if ready then (kf_command out, vec_bytes (kf_data out)) # frames else frames), p))"

definition kiss_inv :: "kiss_parser \<Rightarrow> bool" where
  "kiss_inv p \<longleftrightarrow> vec_wf 512 (kp_data p) \<and> (kp_state p \<in> {PARSER_STATE_WAIT_START, PARSER_STATE_WAIT_COMMAND} \<longrightarrow> kp_command p = 0)
     \<and> (kp_state p = PARSER_STATE_WAIT_COMMAND \<longrightarrow> vlen (kp_data p) = 0)"

lemma data_clear [simp]: "vdata (vec_u8_max_data_clear v) = vdata v" "vlen (vec_u8_max_data_clear v) = 0"
  "vec_bytes (vec_u8_max_data_clear v) = []"
  by (simp_all add: vec_u8_max_data_clear_def vec_wf_def vec_bytes_def)

lemma data_clone:
  "vec_wf 512 src \<Longrightarrow> vec_wf 512 dst \<Longrightarrow> vec_wf 512 (vec_u8_max_data_clone src dst) \<and> vec_bytes (vec_u8_max_data_clone src dst) = vec_bytes src"
  by (auto simp: vec_u8_max_data_clone_def vec_wf_def vec_bytes_def slice_0_take memcpy_def)

lemma kiss_feed_inv:
  assumes "kiss_inv p" "vec_wf 512 (kf_data out)" "kiss_parser_feed p b out = (ready, p', out')"
  shows "kiss_inv p'" "vec_wf 512 (kf_data out')"
  using assms data_clone [of "kp_data p" "kf_data out"] data_vec.push_bytes [of "kp_data p"]
  by (auto simp: kiss_parser_feed_def kiss_inv_def kiss_parser_reset_def Let_def vec_wf_def split: kiss_state.splits if_splits)

text \<open>Feeding an escaped byte while a frame is being read adds the byte; the rest of the parser stays as it is.\<close>

definition kiss_reading :: "byte \<Rightarrow> bytes \<Rightarrow> kiss_parser \<Rightarrow> bool" where
  "kiss_reading c d p \<longleftrightarrow> kp_state p = PARSER_STATE_READ_DATA \<and> kp_command p = c \<and> vec_wf 512 (kp_data p) \<and> vec_bytes (kp_data p) = take 512 d"

lemma take_snoc_take: "take n (take n xs @ ys) = take n (xs @ ys)"
  by (cases "length xs < n") (auto simp: not_less)

lemma kiss_push_reading:
  assumes "kp_command p = c" "vec_wf 512 (kp_data p)" "vec_bytes (kp_data p) = take 512 d"
  shows "kiss_reading c (d @ [b]) (p\<lparr>kp_data := snd (vec_u8_max_data_push (kp_data p) b), kp_state := PARSER_STATE_READ_DATA\<rparr>)"
  using assms data_vec.push_bytes [of "kp_data p" b] take_snoc_take [of 512 d "[b]"] by (simp add: kiss_reading_def)

lemma kiss_deliver_escaped:
  assumes "kiss_reading c d p"
  shows "\<exists>p'. (\<forall>bs. kiss_deliver p out (escaped b @ bs) = kiss_deliver p' out bs) \<and> kiss_reading c (d @ [b]) p'"
proof -
  have p: "kp_state p = PARSER_STATE_READ_DATA" "kp_command p = c" "vec_wf 512 (kp_data p)" "vec_bytes (kp_data p) = take 512 d"
    using assms by (auto simp: kiss_reading_def)
  let ?p = "p\<lparr>kp_data := snd (vec_u8_max_data_push (kp_data p) b), kp_state := PARSER_STATE_READ_DATA\<rparr>"
  have "kiss_deliver p out (escaped b @ bs) = kiss_deliver ?p out bs" for bs
    using p(1) by (cases p) (auto simp: escaped_def kiss_parser_feed_def Let_def split: prod.splits)
  then show ?thesis using kiss_push_reading [OF p(2-4), of b] by blast
qed

lemma kiss_deliver_data:
  assumes "kiss_reading c d p"
  shows "\<exists>p'. (\<forall>bs. kiss_deliver p out (concat (map escaped ds) @ bs) = kiss_deliver p' out bs) \<and> kiss_reading c (d @ ds) p'"
  using assms
proof (induction ds arbitrary: p d)
  case Nil
  then show ?case by auto
next
  case (Cons b ds)
  obtain p1 where p1: "\<forall>bs. kiss_deliver p out (escaped b @ bs) = kiss_deliver p1 out bs" "kiss_reading c (d @ [b]) p1"
    using kiss_deliver_escaped [OF Cons.prems] by blast
  with Cons.IH [OF p1(2)] show ?case by auto
qed

text \<open>An escaped command byte is taken for data of a frame with command 0.\<close>

definition kiss_delivered :: "byte \<times> bytes \<Rightarrow> byte \<times> bytes" where
  "kiss_delivered f = (case f of (c, d) \<Rightarrow> if c = FEND \<or> c = FESC then (0, take 512 (c # d)) else (c, d))"

definition kiss_idle :: "kiss_parser \<Rightarrow> bool" where
  "kiss_idle p \<longleftrightarrow> kiss_inv p \<and> kp_state p = PARSER_STATE_WAIT_START"

lemma kiss_deliver_frame:
  assumes "kiss_idle p" "vec_wf 512 (kf_data out)" "length d \<le> 512"
  shows "\<exists>p' out'. kiss_idle p' \<and> vec_wf 512 (kf_data out') \<and>
    (\<forall>bs. kiss_deliver p out (kiss_bytes c d @ bs) = (let (fs, q) = kiss_deliver p' out' bs in (kiss_delivered (c, d) # fs, q)))"
proof -
  let ?p0 = "p\<lparr>kp_state := PARSER_STATE_WAIT_COMMAND, kp_data := vec_u8_max_data_clear (kp_data p)\<rparr>"
  let ?start = "if c = FEND \<or> c = FESC then (0, [c]) else (c, [])"
  have p: "kp_state p = PARSER_STATE_WAIT_START" "kp_command p = 0" "vec_wf 512 (kp_data p)" using assms(1) by (auto simp: kiss_idle_def kiss_inv_def)
  have clear: "vec_wf 512 (vec_u8_max_data_clear (kp_data p))" using p(3) by (simp add: vec_wf_def)
  have "\<exists>p1. (\<forall>bs. kiss_deliver ?p0 out (escaped c @ bs) = kiss_deliver p1 out bs) \<and> kiss_reading (fst ?start) (snd ?start) p1"
  proof (cases "c = FEND \<or> c = FESC")
    case True
    let ?p1 = "?p0\<lparr>kp_data := snd (vec_u8_max_data_push (kp_data ?p0) c), kp_state := PARSER_STATE_READ_DATA\<rparr>"
    have "kiss_deliver ?p0 out (escaped c @ bs) = kiss_deliver ?p1 out bs" for bs
      using True by (auto simp: escaped_def kiss_parser_feed_def Let_def split: prod.splits)
    moreover have "kiss_reading 0 ([] @ [c]) ?p1" using p(2) clear by (intro kiss_push_reading) auto
    ultimately show ?thesis using True by auto
  next
    case False
    let ?p1 = "?p0\<lparr>kp_command := c, kp_state := PARSER_STATE_READ_DATA\<rparr>"
    have "kiss_deliver ?p0 out (escaped c @ bs) = kiss_deliver ?p1 out bs" for bs
      using False by (auto simp: escaped_def kiss_parser_feed_def Let_def split: prod.splits)
    then show ?thesis using False clear by (auto simp: kiss_reading_def)
  qed
  then obtain p1 where p1: "\<forall>bs. kiss_deliver ?p0 out (escaped c @ bs) = kiss_deliver p1 out bs" "kiss_reading (fst ?start) (snd ?start) p1" by blast
  obtain p2 where p2: "\<forall>bs. kiss_deliver p1 out (concat (map escaped d) @ bs) = kiss_deliver p2 out bs" "kiss_reading (fst ?start) (snd ?start @ d) p2"
    using kiss_deliver_data [OF p1(2)] by blast
  let ?p' = "kiss_parser_reset p2" and ?out = "out\<lparr>kf_command := kp_command p2, kf_data := vec_u8_max_data_clone (kp_data p2) (kf_data out)\<rparr>"
  have cl: "vec_wf 512 (kf_data ?out)" "vec_bytes (kf_data ?out) = take 512 (snd ?start @ d)" "kf_command ?out = fst ?start"
    using p2(2) data_clone [of "kp_data p2" "kf_data out"] assms(2) by (auto simp: kiss_reading_def)
  have fr: "(kf_command ?out, vec_bytes (kf_data ?out)) = kiss_delivered (c, d)" unfolding cl(2,3) using assms(3) by (simp add: kiss_delivered_def)
  have fend: "kiss_deliver p2 out (FEND # bs) = (let (fs, q) = kiss_deliver ?p' ?out bs in (kiss_delivered (c, d) # fs, q))" for bs
    using p2(2) fr by (simp add: kiss_reading_def kiss_parser_feed_def Let_def split: prod.splits)
  have "kiss_deliver p out (kiss_bytes c d @ bs) = (let (fs, q) = kiss_deliver ?p' ?out bs in (kiss_delivered (c, d) # fs, q))" for bs
  proof -
    have "kiss_deliver p out (kiss_bytes c d @ bs) = kiss_deliver ?p0 out (escaped c @ concat (map escaped d) @ FEND # bs)"
      using p(1) by (simp add: kiss_bytes_def kiss_parser_feed_def Let_def split: prod.splits)
    then show ?thesis using p1(1) p2(1) fend by simp
  qed
  moreover have "kiss_idle ?p'" using p2(2) by (simp add: kiss_idle_def kiss_inv_def kiss_parser_reset_def kiss_reading_def vec_wf_def)
  ultimately show ?thesis using cl(1) by blast
qed

lemma kiss_deliver_noise:
  assumes "kiss_idle p" "FEND \<notin> set noise"
  shows "kiss_deliver p out (noise @ bs) = kiss_deliver p out bs"
  using assms(2) by (induction noise) (use assms(1) in \<open>auto simp: kiss_idle_def kiss_parser_feed_def Let_def split: prod.splits\<close>)

lemma kiss_deliver_stream:
  assumes "kiss_idle p" "vec_wf 512 (kf_data out)" "\<forall>(noise, c, d) \<in> set fs. FEND \<notin> set noise \<and> length d \<le> 512"
  shows "fst (kiss_deliver p out (concat (map (\<lambda>(noise, c, d). noise @ kiss_bytes c d) fs))) = map (kiss_delivered \<circ> snd) fs \<and>
    kiss_idle (snd (kiss_deliver p out (concat (map (\<lambda>(noise, c, d). noise @ kiss_bytes c d) fs))))"
  using assms
proof (induction fs arbitrary: p out)
  case Nil
  then show ?case by simp
next
  case (Cons f fs)
  obtain noise c d where f: "f = (noise, c, d)" by (cases f)
  have f': "FEND \<notin> set noise" "length d \<le> 512" using Cons.prems(3) f by auto
  obtain p' out' where p': "kiss_idle p'" "vec_wf 512 (kf_data out')"
    "\<forall>bs. kiss_deliver p out (kiss_bytes c d @ bs) = (let (fs, q) = kiss_deliver p' out' bs in (kiss_delivered (c, d) # fs, q))"
    using kiss_deliver_frame [OF Cons.prems(1,2) f'(2), of c] by blast
  have "\<forall>(noise, c, d) \<in> set fs. FEND \<notin> set noise \<and> length d \<le> 512" using Cons.prems(3) by simp
  from Cons.IH [OF p'(1,2) this] show ?case
    by (simp add: f kiss_deliver_noise [OF Cons.prems(1) f'(1)] p'(3) case_prod_beta Let_def)
qed

section \<open>The second codec\<close>

lemma put_outs:
  assumes "max_out \<le> length out" "p \<le> max_out" "foldl (put_out max_out) (out, p) bs = (out', p')"
  shows "length out' = length out \<and> p' = min max_out (p + length bs) \<and> take p' out' = take max_out (take p out @ bs)"
  using assms
proof (induction bs arbitrary: out p)
  case Nil
  then show ?case by simp
next
  case (Cons b bs)
  show ?case
  proof (cases "p < max_out")
    case True
    then have "put_out max_out (out, p) b = (out[p := b], p + 1)" by (simp add: put_out_def)
    with Cons.IH [of "out[p := b]" "p + 1"] Cons.prems True show ?thesis by (auto simp: take_Suc_conv_app_nth)
  next
    case False
    then have "put_out max_out (out, p) b = (out, p)" by (simp add: put_out_def)
    with Cons.IH [of out p] Cons.prems False show ?thesis by (auto simp: min_def)
  qed
qed

lemma put_escaped_puts: "put_escaped max_out s b = foldl (put_out max_out) s (escaped b)"
  by (simp add: put_escaped_def escaped_def)

lemma put_escapeds: "foldl (put_escaped max_out) s d = foldl (put_out max_out) s (concat (map escaped d))"
  by (induction d arbitrary: s) (simp_all add: put_escaped_puts)

definition k2_bytes :: "kiss_frame2 \<Rightarrow> bytes" where
  "k2_bytes f = take (k2_data_len f) (k2_data f)"

definition k2_wf :: "kiss_frame2 \<Rightarrow> bool" where
  "k2_wf f \<longleftrightarrow> length (k2_data f) = 512 \<and> k2_data_len f \<le> 512"

lemma kiss_encode2_bytes:
  assumes "max_out \<le> length out" "k2_wf frame" "kiss_frame_encode2 frame out max_out = (out', n)"
  shows "take n out' = take max_out (kiss_bytes (k2_command frame) (k2_bytes frame))"
    "n = min max_out (length (kiss_bytes (k2_command frame) (k2_bytes frame)))"
proof -
  have "foldl (\<lambda>s i. put_escaped max_out s (k2_data frame ! i)) s [0..<k2_data_len frame] = foldl (put_out max_out) s (concat (map escaped (k2_bytes frame)))" for s
    using foldl_index [of "k2_data_len frame" "k2_data frame" "put_escaped max_out" s] assms(2) by (simp add: put_escapeds k2_bytes_def k2_wf_def)
  then have "foldl (put_out max_out) (out, 0) (kiss_bytes (k2_command frame) (k2_bytes frame)) = (out', n)"
    using assms(3) by (simp add: kiss_frame_encode2_def Let_def put_escaped_puts kiss_bytes_def)
  from put_outs [OF assms(1) _ this] have r: "n = min max_out (0 + length (kiss_bytes (k2_command frame) (k2_bytes frame)))"
    "take n out' = take max_out (take 0 out @ kiss_bytes (k2_command frame) (k2_bytes frame))" by blast+
  show "take n out' = take max_out (kiss_bytes (k2_command frame) (k2_bytes frame))"
    using r(2) by (simp only: take_0 append_Nil)
  show "n = min max_out (length (kiss_bytes (k2_command frame) (k2_bytes frame)))" using r(1) by simp
qed

fun kiss_deliver2 :: "kiss_parser2 \<Rightarrow> bytes \<Rightarrow> (byte \<times> bytes) list \<times> kiss_parser2" where
  "kiss_deliver2 p [] = ([], p)"
| "kiss_deliver2 p (b # bs) =
     (let (ready, p) = kiss_parser_feed2 p b;
          (frames, q) = kiss_deliver2 p bs
      in ((if ready then (k2_command (kq_current_frame p), k2_bytes (kq_current_frame p)) # frames else frames), q))"

text \<open>The parser inside a frame of which the bytes \<open>xs\<close> have been seen: leading bytes 0xFF do not count, since the parser takes the command
  0xFF for a command that has not been read yet.\<close>

definition content2 :: "bytes \<Rightarrow> byte \<times> bytes" where
  "content2 xs = (case dropWhile (\<lambda>b. b = KissCommandUnknown) xs of [] \<Rightarrow> (KissCommandUnknown, []) | c # d \<Rightarrow> (c, d))"

definition reading2 :: "bytes \<Rightarrow> kiss_parser2 \<Rightarrow> bool" where
  "reading2 xs p \<longleftrightarrow> kq_in_frame p \<and> \<not> kq_escaped p \<and> k2_wf (kq_current_frame p) \<and>
     k2_command (kq_current_frame p) = fst (content2 xs) \<and> k2_bytes (kq_current_frame p) = take 512 (snd (content2 xs))"

lemma push2_bytes:
  "k2_wf f \<Longrightarrow> k2_wf (snd (kiss_frame_push_data f b)) \<and> k2_bytes (snd (kiss_frame_push_data f b)) = take 512 (k2_bytes f @ [b]) \<and>
     k2_command (snd (kiss_frame_push_data f b)) = k2_command f"
  by (auto simp: kiss_frame_push_data_def k2_wf_def k2_bytes_def take_Suc_conv_app_nth)

lemma content2_cases:
  obtains "\<forall>b \<in> set xs. b = KissCommandUnknown" "content2 xs = (KissCommandUnknown, [])"
  | c d where "c \<noteq> KissCommandUnknown" "c \<in> set xs" "dropWhile (\<lambda>b. b = KissCommandUnknown) xs = c # d" "content2 xs = (c, d)"
proof (cases "dropWhile (\<lambda>b. b = KissCommandUnknown) xs")
  case Nil
  then have "content2 xs = (KissCommandUnknown, [])" "\<forall>b \<in> set xs. b = KissCommandUnknown"
    by (simp_all add: content2_def flip: dropWhile_eq_Nil_conv)
  then show thesis by (rule that(1) [rotated])
next
  case (Cons c d)
  then have "c \<noteq> KissCommandUnknown" "c \<in> set xs" using hd_dropWhile [of "\<lambda>b. b = KissCommandUnknown" xs] set_dropWhileD [of c "\<lambda>b. b = KissCommandUnknown" xs] by auto
  then show thesis using that(2) Cons by (simp add: content2_def)
qed

lemma content2_snoc:
  "content2 (xs @ [b]) = (if fst (content2 xs) = KissCommandUnknown then (b, []) else (fst (content2 xs), snd (content2 xs) @ [b]))"
proof (cases xs rule: content2_cases)
  case 1
  then have "dropWhile (\<lambda>b. b = KissCommandUnknown) (xs @ [b]) = dropWhile (\<lambda>b. b = KissCommandUnknown) [b]" by (intro dropWhile_append2) auto
  then show ?thesis using 1(2) by (simp add: content2_def)
next
  case (2 c d)
  then have "dropWhile (\<lambda>b. b = KissCommandUnknown) (xs @ [b]) = (c # d) @ [b]" by (metis (mono_tags, lifting) dropWhile_append1)
  then show ?thesis using 2 by (simp add: content2_def)
qed

lemma content2_empty: "fst (content2 xs) = KissCommandUnknown \<Longrightarrow> snd (content2 xs) = []"
  by (cases xs rule: content2_cases) simp_all

definition take_byte2 :: "kiss_parser2 \<Rightarrow> byte \<Rightarrow> kiss_parser2" where
  "take_byte2 p b = (if k2_command (kq_current_frame p) = KissCommandUnknown
     then p\<lparr>kq_current_frame := (kq_current_frame p)\<lparr>k2_command := b\<rparr>\<rparr>
     else p\<lparr>kq_current_frame := snd (kiss_frame_push_data (kq_current_frame p) b)\<rparr>)"

lemma reading2_take:
  assumes "reading2 xs p"
  shows "reading2 (xs @ [b]) (take_byte2 p b)"
  using assms push2_bytes [of "kq_current_frame p" b] content2_empty [of xs] take_snoc_take [of 512 "snd (content2 xs)" "[b]"]
  by (auto simp: reading2_def take_byte2_def content2_snoc k2_wf_def k2_bytes_def)

lemma deliver2_escaped:
  assumes "reading2 xs p"
  shows "kiss_deliver2 p (escaped b @ bs) = kiss_deliver2 (take_byte2 p b) bs"
  using assms by (cases p) (auto simp: reading2_def escaped_def kiss_parser_feed2_def take_byte2_def Let_def split: prod.splits)

lemma deliver2_data:
  assumes "reading2 xs p"
  shows "\<exists>p'. (\<forall>bs. kiss_deliver2 p (concat (map escaped ds) @ bs) = kiss_deliver2 p' bs) \<and> reading2 (xs @ ds) p'"
  using assms
proof (induction ds arbitrary: p xs)
  case Nil
  then show ?case by auto
next
  case (Cons b ds)
  from Cons.IH [OF reading2_take [OF Cons.prems, of b]] deliver2_escaped [OF Cons.prems, of b] show ?case by auto
qed

definition kiss_delivered2 :: "byte \<times> bytes \<Rightarrow> (byte \<times> bytes) list" where
  "kiss_delivered2 f = (case f of (c, d) \<Rightarrow>
     let (c', d') = content2 (c # d) in if d' = [] then [] else [(c', take 512 d')])"

definition kiss_idle2 :: "kiss_parser2 \<Rightarrow> bool" where
  "kiss_idle2 p \<longleftrightarrow> \<not> kq_escaped p \<and> k2_wf (kq_current_frame p) \<and> (kq_in_frame p \<longrightarrow> k2_data_len (kq_current_frame p) = 0)"

lemma deliver2_frame:
  assumes "kiss_idle2 p"
  shows "\<exists>p'. kiss_idle2 p' \<and> (\<forall>bs. kiss_deliver2 p (kiss_bytes c d @ bs) = (let (fs, q) = kiss_deliver2 p' bs in (kiss_delivered2 (c, d) @ fs, q)))"
proof -
  let ?p0 = "p\<lparr>kq_in_frame := True, kq_current_frame := (kq_current_frame p)\<lparr>k2_data_len := 0, k2_command := KissCommandUnknown\<rparr>\<rparr>"
  have start: "kiss_deliver2 p (FEND # bs) = kiss_deliver2 ?p0 bs" for bs
    using assms by (auto simp: kiss_idle2_def kiss_parser_feed2_def split: prod.splits)
  have "reading2 [] ?p0" using assms by (simp add: kiss_idle2_def reading2_def content2_def k2_wf_def k2_bytes_def)
  from deliver2_data [OF this, of "c # d"] obtain p1 where
    p1: "\<forall>bs. kiss_deliver2 ?p0 (escaped c @ concat (map escaped d) @ bs) = kiss_deliver2 p1 bs" "reading2 (c # d) p1" by auto
  let ?f = "kq_current_frame p1"
  have f: "k2_data_len ?f = 0 \<longleftrightarrow> snd (content2 (c # d)) = []" "k2_command ?f = fst (content2 (c # d))" "k2_bytes ?f = take 512 (snd (content2 (c # d)))"
    using p1(2) by (auto simp: reading2_def k2_wf_def k2_bytes_def)
  let ?p2 = "snd (kiss_parser_feed2 p1 FEND)"
  have fend: "kiss_deliver2 p1 (FEND # bs) = (let (fs, q) = kiss_deliver2 ?p2 bs in (kiss_delivered2 (c, d) @ fs, q))" for bs
    using p1(2) f by (auto simp: reading2_def kiss_parser_feed2_def kiss_delivered2_def case_prod_beta Let_def)
  have "kiss_deliver2 p (kiss_bytes c d @ bs) = (let (fs, q) = kiss_deliver2 ?p2 bs in (kiss_delivered2 (c, d) @ fs, q))" for bs
    using start p1(1) fend unfolding kiss_bytes_def by simp
  moreover have "kiss_idle2 ?p2" using p1(2) by (auto simp: kiss_idle2_def reading2_def kiss_parser_feed2_def k2_wf_def)
  ultimately show ?thesis by blast
qed

lemma deliver2_stream:
  "kiss_idle2 p \<Longrightarrow> fst (kiss_deliver2 p (concat (map (\<lambda>(c, d). kiss_bytes c d) fs))) = concat (map kiss_delivered2 fs)"
proof (induction fs arbitrary: p)
  case Nil
  then show ?case by simp
next
  case (Cons f fs)
  obtain c d where f: "f = (c, d)" by (cases f)
  obtain p' where p': "kiss_idle2 p'"
    "\<forall>bs. kiss_deliver2 p (kiss_bytes c d @ bs) = (let (fs, q) = kiss_deliver2 p' bs in (kiss_delivered2 (c, d) @ fs, q))"
    using deliver2_frame [OF Cons.prems, of c d] by blast
  with Cons.IH [OF p'(1)] show ?case by (simp add: f case_prod_beta Let_def)
qed

section \<open>Properties\<close>

lemma kiss_deliver_safe:
  "kiss_inv p \<Longrightarrow> vec_wf 512 (kf_data out) \<Longrightarrow> kiss_inv (snd (kiss_deliver p out bs)) \<and> (\<forall>(c, d) \<in> set (fst (kiss_deliver p out bs)). length d \<le> 512)"
proof (induction bs arbitrary: p out)
  case Nil
  then show ?case by simp
next
  case (Cons b bs)
  obtain ready p' out' where f: "kiss_parser_feed p b out = (ready, p', out')" by (metis prod_cases3)
  have i: "kiss_inv p'" "vec_wf 512 (kf_data out')" using kiss_feed_inv [OF Cons.prems f] .
  from Cons.IH [OF i] i(2) f show ?case by (auto simp: case_prod_beta Let_def vec_wf_def vec_bytes_def)
qed

text \<open>C22. KISS round trip: the encoder writes every frame completely, in at most 1028 bytes, and the parser that is fed the encoded frames one after the other, with any
  bytes other than FEND between them, delivers exactly these frames in order and ends idle - except that a frame whose command is one of the
  two escaped bytes comes out with command 0 and the command byte in front of its data.\<close>

theorem kiss_stream_roundtrip:
  assumes "\<forall>(noise, f, buf) \<in> set fs. FEND \<notin> set noise \<and> vec_wf 512 (kf_data f) \<and> vec_wf 1028 buf"
    and "length (vdata (kp_data p)) = 512" "vec_wf 512 (kf_data out)"
  shows "fst (kiss_deliver (kiss_parser_new p) out (concat (map (\<lambda>(noise, f, buf). noise @ vec_bytes (kiss_frame_encode f buf)) fs))) =
    map (\<lambda>(noise, f, buf). if kf_command f \<in> {FEND, FESC} then (0, take 512 (kf_command f # vec_bytes (kf_data f))) else (kf_command f, vec_bytes (kf_data f))) fs"
proof -
  let ?g = "\<lambda>(noise, f, buf). (noise, kf_command f, vec_bytes (kf_data f))"
  have "\<forall>(noise, c, d) \<in> set (map ?g fs). FEND \<notin> set noise \<and> length d \<le> 512" using assms(1) by (auto simp: vec_wf_def vec_bytes_def)
  moreover have "kiss_idle (kiss_parser_new p)"
    using assms(2) by (simp add: kiss_idle_def kiss_inv_def kiss_parser_new_def vec_u8_max_data_new_def vec_wf_def)
  ultimately have "fst (kiss_deliver (kiss_parser_new p) out (concat (map (\<lambda>(noise, c, d). noise @ kiss_bytes c d) (map ?g fs)))) =
    map (kiss_delivered \<circ> snd) (map ?g fs)" using kiss_deliver_stream assms(3) by blast
  moreover have "map (\<lambda>(noise, c, d). noise @ kiss_bytes c d) (map ?g fs) = map (\<lambda>(noise, f, buf). noise @ vec_bytes (kiss_frame_encode f buf)) fs"
    using assms(1) kiss_encode_bytes by (auto simp: case_prod_beta)
  moreover have "map (kiss_delivered \<circ> snd) (map ?g fs) =
      map (\<lambda>(noise, f, buf). if kf_command f \<in> {FEND, FESC} then (0, take 512 (kf_command f # vec_bytes (kf_data f))) else (kf_command f, vec_bytes (kf_data f))) fs"
    by (auto simp: kiss_delivered_def)
  ultimately show ?thesis by (simp only:)
qed

abbreviation wframe :: "byte \<Rightarrow> bytes \<Rightarrow> kiss_frame" where
  "wframe c d \<equiv> \<lparr>kf_command = c, kf_data = \<lparr>vdata = d @ zeros (512 - length d), vlen = length d\<rparr>\<rparr>"

theorem kiss_stream_roundtrip_witness:
  "fst (kiss_deliver (kiss_parser_new \<lparr>kp_state = PARSER_STATE_ESCAPE, kp_command = 7, kp_data = \<lparr>vdata = zeros 512, vlen = 9\<rparr>\<rparr>) (wframe 0 [])
     (concat (map (\<lambda>(noise, f, buf). noise @ vec_bytes (kiss_frame_encode f buf))
        [([1, 2], wframe 3 [0xC0, 0xDB, 5], \<lparr>vdata = zeros 1028, vlen = 0\<rparr>), ([], wframe 0xC0 [8], \<lparr>vdata = zeros 1028, vlen = 0\<rparr>)]))) =
   [(3, [0xC0, 0xDB, 5]), (0, [0xC0, 8])]"
  by (subst kiss_stream_roundtrip) (simp_all add: vec_wf_def vec_bytes_def)

text \<open>C23. Type safety of the KISS parser: whatever bytes arrive, the parser stays well formed (its data vector has its 512 bytes and a length within them, a
  parser that waits has command 0), a step never writes outside the vectors of the parser and of the output frame, and
  every delivered frame has at most 512 bytes of data.\<close>

theorem kiss_parser_typed:
  assumes "kiss_inv p" "vec_wf 512 (kf_data out)"
  shows "kiss_inv (snd (kiss_deliver p out bs)) \<and> (\<forall>(c, d) \<in> set (fst (kiss_deliver p out bs)). length d \<le> 512) \<and>
    (case kiss_parser_feed p b out of (ready, p', out') \<Rightarrow> kiss_inv p' \<and> vec_wf 512 (kf_data out') \<and> (\<not> ready \<longrightarrow> out' = out))"
proof -
  obtain ready p' out' where f: "kiss_parser_feed p b out = (ready, p', out')" by (metis prod_cases3)
  then have "\<not> ready \<longrightarrow> out' = out" by (auto simp: kiss_parser_feed_def Let_def split: kiss_state.splits if_splits)
  then show ?thesis using kiss_deliver_safe [OF assms, of bs] kiss_feed_inv [OF assms f] f by simp
qed

theorem kiss_parser_typed_witness:
  "case kiss_parser_feed (kiss_parser_new \<lparr>kp_state = PARSER_STATE_ESCAPE, kp_command = 7, kp_data = \<lparr>vdata = zeros 512, vlen = 9\<rparr>\<rparr>) 0xC0 (wframe 0 [])
   of (ready, p', out') \<Rightarrow> kiss_inv p'"
proof -
  let ?p = "kiss_parser_new \<lparr>kp_state = PARSER_STATE_ESCAPE, kp_command = 7, kp_data = \<lparr>vdata = zeros 512, vlen = 9\<rparr>\<rparr>"
  have "kiss_inv ?p" "vec_wf 512 (kf_data (wframe 0 []))" by (simp_all add: kiss_inv_def kiss_parser_new_def vec_u8_max_data_new_def vec_wf_def)
  from kiss_parser_typed [where bs = "[]" and b = "0xC0", OF this] show ?thesis by (auto split: prod.splits)
qed

text \<open>The second codec of the file: its encoder writes the same wire form cut to the room it is given, and its parser delivers the frames it is fed in order - except
  that a frame without data is dropped, and that bytes 0xFF in the place of the command are skipped, so that the command is
  the first other byte and the frame is dropped when nothing follows that byte.\<close>

theorem kiss_second_codec:
  assumes "\<not> kq_in_frame p" "\<not> kq_escaped p" "k2_wf (kq_current_frame p)" "k2_wf frame" "max_out \<le> length buf" "kiss_frame_encode2 frame buf max_out = (out, n)"
  shows "take n out = take max_out (kiss_bytes (k2_command frame) (k2_bytes frame)) \<and>
    fst (kiss_deliver2 p (concat (map (\<lambda>(c, d). kiss_bytes c d) fs))) =
      concat (map (\<lambda>(c, d). case dropWhile (\<lambda>b. b = 0xFF) (c # d) of [] \<Rightarrow> [] | [c'] \<Rightarrow> [] | c' # d' \<Rightarrow> [(c', take 512 d')]) fs)"
proof -
  have "kiss_idle2 p" using assms(1-3) by (simp add: kiss_idle2_def)
  moreover have "kiss_delivered2 = (\<lambda>(c, d). case dropWhile (\<lambda>b. b = 0xFF) (c # d) of [] \<Rightarrow> [] | [c'] \<Rightarrow> [] | c' # d' \<Rightarrow> [(c', take 512 d')])"
  proof -
    have "(let (c', d') = (case ys of [] \<Rightarrow> (0xFF, []) | c # d \<Rightarrow> (c, d)) in if d' = [] then [] else [(c', take 512 d')]) =
      (case ys of [] \<Rightarrow> [] | [c'] \<Rightarrow> [] | c' # d' \<Rightarrow> [(c', take 512 d')])" for ys :: bytes
      by (cases ys) (simp_all split: list.split)
    then show ?thesis by (intro ext) (simp only: kiss_delivered2_def content2_def)
  qed
  ultimately show ?thesis using deliver2_stream [of p fs] kiss_encode2_bytes(1) [OF assms(5,4,6)] by simp
qed

abbreviation wframe2 :: "byte \<Rightarrow> bytes \<Rightarrow> kiss_frame2" where
  "wframe2 c d \<equiv> \<lparr>k2_command = c, k2_data = d @ zeros (512 - length d), k2_data_len = length d\<rparr>"

theorem kiss_second_codec_witness:
  "fst (kiss_deliver2 \<lparr>kq_current_frame = wframe2 0 [], kq_in_frame = False, kq_escaped = False\<rparr> (concat (map (\<lambda>(c, d). kiss_bytes c d) [(1, []), (0xC0, [0xDB]), (0xFF, [4, 5])]))) =
   [(0xC0, [0xDB]), (4, [5])]"
  using kiss_second_codec [of "\<lparr>kq_current_frame = wframe2 0 [], kq_in_frame = False, kq_escaped = False\<rparr>" "wframe2 0 []" 0 "[]"
      "fst (kiss_frame_encode2 (wframe2 0 []) [] 0)" "snd (kiss_frame_encode2 (wframe2 0 []) [] 0)" "[(1, []), (0xC0, [0xDB]), (0xFF, [4, 5])]"]
  by (simp add: k2_wf_def)

end
