(* ===== verification/Rnode.thy ===== *)
theory Rnode
  imports Kiss Sha256 Hmac
begin

unbundle bit_operations_syntax

text \<open>
  The radio node handler of \<^verbatim>\<open>lunar/rnode.c\<close>: configuration, statistics, identity, and the commands that a host sends in KISS
  frames. The second half of the file defines a smaller handler again; its definitions carry the suffix \<open>2\<close>. The airtime estimates of the two
  halves are floating-point computations: where a handler uses one it is an argument.
\<close>

section \<open>Commands\<close>

datatype rnode_command =
    RNODE_CMD_FREQUENCY | RNODE_CMD_BANDWIDTH | RNODE_CMD_TX_POWER | RNODE_CMD_SPREADING_FACTOR | 
    RNODE_CMD_CODING_RATE | RNODE_CMD_RADIO_STATE | RNODE_CMD_RADIO_LOCK | RNODE_CMD_DETECT | 
    RNODE_CMD_LEAVE | RNODE_CMD_SAVE_CONFIG | RNODE_CMD_RESET_CONFIG | RNODE_CMD_BOOTLOADER | 
    RNODE_CMD_PROMISC | RNODE_CMD_READY | RNODE_CMD_PREAMBLE_LENGTH | RNODE_CMD_SYMBOL_TIMEOUT | 
    RNODE_CMD_SYNC_WORD | RNODE_CMD_CRC_MODE | RNODE_CMD_IMPLICIT_HEADER | RNODE_CMD_LDRO | 
    RNODE_CMD_STAT_RX | RNODE_CMD_STAT_TX | RNODE_CMD_STAT_RSSI | RNODE_CMD_STAT_SNR | 
    RNODE_CMD_STAT_BATTERY | RNODE_CMD_STAT_CHANNEL | RNODE_CMD_AIRTIME_LIMIT | RNODE_CMD_AIRTIME_USAGE | 
    RNODE_CMD_BLINK | RNODE_CMD_LED_INTENSITY | RNODE_CMD_RANDOM | RNODE_CMD_PLATFORM | 
    RNODE_CMD_MCU | RNODE_CMD_BOARD | RNODE_CMD_ROM_INFO | RNODE_CMD_FW_VERSION | 
    RNODE_CMD_PROTOCOL_VERSION | RNODE_CMD_HARDWARE_SERIAL | RNODE_CMD_SIGNATURE | RNODE_CMD_TCXO_VOLTAGE | 
    RNODE_CMD_ERROR | RNODE_CMD_ROM_DATA | RNODE_CMD_INFO | RNODE_CMD_DATA_RSSI

fun rnode_command_byte :: "rnode_command \<Rightarrow> byte" where
  "rnode_command_byte RNODE_CMD_FREQUENCY = 0x01"
| "rnode_command_byte RNODE_CMD_BANDWIDTH = 0x02"
| "rnode_command_byte RNODE_CMD_TX_POWER = 0x03"
| "rnode_command_byte RNODE_CMD_SPREADING_FACTOR = 0x04"
| "rnode_command_byte RNODE_CMD_CODING_RATE = 0x05"
| "rnode_command_byte RNODE_CMD_RADIO_STATE = 0x06"
| "rnode_command_byte RNODE_CMD_RADIO_LOCK = 0x07"
| "rnode_command_byte RNODE_CMD_DETECT = 0x08"
| "rnode_command_byte RNODE_CMD_LEAVE = 0x0A"
| "rnode_command_byte RNODE_CMD_SAVE_CONFIG = 0x0B"
| "rnode_command_byte RNODE_CMD_RESET_CONFIG = 0x0C"
| "rnode_command_byte RNODE_CMD_BOOTLOADER = 0x0D"
| "rnode_command_byte RNODE_CMD_PROMISC = 0x0E"
| "rnode_command_byte RNODE_CMD_READY = 0x0F"
| "rnode_command_byte RNODE_CMD_PREAMBLE_LENGTH = 0x10"
| "rnode_command_byte RNODE_CMD_SYMBOL_TIMEOUT = 0x11"
| "rnode_command_byte RNODE_CMD_SYNC_WORD = 0x12"
| "rnode_command_byte RNODE_CMD_CRC_MODE = 0x13"
| "rnode_command_byte RNODE_CMD_IMPLICIT_HEADER = 0x14"
| "rnode_command_byte RNODE_CMD_LDRO = 0x15"
| "rnode_command_byte RNODE_CMD_STAT_RX = 0x21"
| "rnode_command_byte RNODE_CMD_STAT_TX = 0x22"
| "rnode_command_byte RNODE_CMD_STAT_RSSI = 0x23"
| "rnode_command_byte RNODE_CMD_STAT_SNR = 0x24"
| "rnode_command_byte RNODE_CMD_STAT_BATTERY = 0x25"
| "rnode_command_byte RNODE_CMD_STAT_CHANNEL = 0x26"
| "rnode_command_byte RNODE_CMD_AIRTIME_LIMIT = 0x27"
| "rnode_command_byte RNODE_CMD_AIRTIME_USAGE = 0x28"
| "rnode_command_byte RNODE_CMD_BLINK = 0x30"
| "rnode_command_byte RNODE_CMD_LED_INTENSITY = 0x31"
| "rnode_command_byte RNODE_CMD_RANDOM = 0x40"
| "rnode_command_byte RNODE_CMD_PLATFORM = 0x48"
| "rnode_command_byte RNODE_CMD_MCU = 0x49"
| "rnode_command_byte RNODE_CMD_BOARD = 0x4A"
| "rnode_command_byte RNODE_CMD_ROM_INFO = 0x4B"
| "rnode_command_byte RNODE_CMD_FW_VERSION = 0x50"
| "rnode_command_byte RNODE_CMD_PROTOCOL_VERSION = 0x51"
| "rnode_command_byte RNODE_CMD_HARDWARE_SERIAL = 0x55"
| "rnode_command_byte RNODE_CMD_SIGNATURE = 0x56"
| "rnode_command_byte RNODE_CMD_TCXO_VOLTAGE = 0x60"
| "rnode_command_byte RNODE_CMD_ERROR = 0x90"
| "rnode_command_byte RNODE_CMD_ROM_DATA = 0xA0"
| "rnode_command_byte RNODE_CMD_INFO = 0xB0"
| "rnode_command_byte RNODE_CMD_DATA_RSSI = 0xFE"

definition rnode_command_table :: "(byte \<times> rnode_command) list" where
  "rnode_command_table =
    [(0x01, RNODE_CMD_FREQUENCY), (0x02, RNODE_CMD_BANDWIDTH), (0x03, RNODE_CMD_TX_POWER), 
    (0x04, RNODE_CMD_SPREADING_FACTOR), (0x05, RNODE_CMD_CODING_RATE), (0x06, RNODE_CMD_RADIO_STATE), 
    (0x07, RNODE_CMD_RADIO_LOCK), (0x08, RNODE_CMD_DETECT), (0x0A, RNODE_CMD_LEAVE), 
    (0x0B, RNODE_CMD_SAVE_CONFIG), (0x0C, RNODE_CMD_RESET_CONFIG), (0x0D, RNODE_CMD_BOOTLOADER), 
    (0x0E, RNODE_CMD_PROMISC), (0x0F, RNODE_CMD_READY), (0x10, RNODE_CMD_PREAMBLE_LENGTH), 
    (0x11, RNODE_CMD_SYMBOL_TIMEOUT), (0x12, RNODE_CMD_SYNC_WORD), (0x13, RNODE_CMD_CRC_MODE), 
    (0x14, RNODE_CMD_IMPLICIT_HEADER), (0x15, RNODE_CMD_LDRO), (0x21, RNODE_CMD_STAT_RX), 
    (0x22, RNODE_CMD_STAT_TX), (0x23, RNODE_CMD_STAT_RSSI), (0x24, RNODE_CMD_STAT_SNR), 
    (0x25, RNODE_CMD_STAT_BATTERY), (0x26, RNODE_CMD_STAT_CHANNEL), (0x27, RNODE_CMD_AIRTIME_LIMIT), 
    (0x28, RNODE_CMD_AIRTIME_USAGE), (0x30, RNODE_CMD_BLINK), (0x31, RNODE_CMD_LED_INTENSITY), 
    (0x40, RNODE_CMD_RANDOM), (0x48, RNODE_CMD_PLATFORM), (0x49, RNODE_CMD_MCU), 
    (0x4A, RNODE_CMD_BOARD), (0x4B, RNODE_CMD_ROM_INFO), (0x50, RNODE_CMD_FW_VERSION), 
    (0x51, RNODE_CMD_PROTOCOL_VERSION), (0x55, RNODE_CMD_HARDWARE_SERIAL), (0x56, RNODE_CMD_SIGNATURE), 
    (0x60, RNODE_CMD_TCXO_VOLTAGE), (0x90, RNODE_CMD_ERROR), (0xA0, RNODE_CMD_ROM_DATA), 
    (0xB0, RNODE_CMD_INFO), (0xFE, RNODE_CMD_DATA_RSSI)]"

definition rnode_command_from_byte :: "byte \<Rightarrow> rnode_command option" where
  "rnode_command_from_byte b = map_of rnode_command_table b"

section \<open>Configuration, statistics and identity\<close>

datatype rnode_state = RNODE_STATE_OFFLINE | RNODE_STATE_ONLINE | RNODE_STATE_TRANSMITTING | RNODE_STATE_RECEIVING

record rnode_config =
  rc_frequency :: u32
  rc_bandwidth :: u32
  rc_tx_power :: byte
  rc_spreading_factor :: byte
  rc_coding_rate :: byte
  rc_preamble_length :: u16
  rc_sync_word :: byte
  rc_crc_enabled :: bool
  rc_implicit_header :: bool
  rc_ldro :: bool

definition rnode_config_default :: rnode_config where
  "rnode_config_default =
     \<lparr>rc_frequency = 868100000, rc_bandwidth = 125000, rc_tx_power = 14, rc_spreading_factor = 9, rc_coding_rate = 5,
      rc_preamble_length = 8, rc_sync_word = 0x12, rc_crc_enabled = True, rc_implicit_header = False, rc_ldro = False\<rparr>"

definition rnode_config_eu868 :: rnode_config where
  "rnode_config_eu868 = rnode_config_default\<lparr>rc_frequency := 868100000\<rparr>"

definition rnode_config_us915 :: rnode_config where
  "rnode_config_us915 = rnode_config_default\<lparr>rc_frequency := 915000000\<rparr>"

definition rnode_config_bandwidth_to_hz :: "byte \<Rightarrow> u32" where
  "rnode_config_bandwidth_to_hz bw_value =
     (if bw_value = 0 then 125000 else if bw_value = 1 then 250000 else if bw_value = 2 then 500000 else 125000)"

definition rnode_config_hz_to_bandwidth :: "u32 \<Rightarrow> byte" where
  "rnode_config_hz_to_bandwidth hz = (if hz \<le> 187500 then 0 else if hz \<le> 375000 then 1 else 2)"

definition rnode_config_coding_rate_to_ratio :: "byte \<Rightarrow> byte \<times> byte" where
  "rnode_config_coding_rate_to_ratio cr = (4, cr)"

definition rnode_config_should_enable_ldro :: "rnode_config \<Rightarrow> bool" where
  "rnode_config_should_enable_ldro config =
     (if rc_bandwidth config \<le> 125000 then rc_spreading_factor config \<ge> 11
      else if rc_bandwidth config \<le> 250000 then rc_spreading_factor config \<ge> 12
      else False)"

record rnode_stats =
  rs_rx_count :: u32
  rs_rx_bytes :: u64
  rs_tx_count :: u32
  rs_tx_bytes :: u64
  rs_last_rssi :: u16
  rs_last_snr :: byte
  rs_airtime_used :: u64
  rs_channel_busy :: u64

definition rnode_stats_default :: rnode_stats where
  "rnode_stats_default =
     \<lparr>rs_rx_count = 0, rs_rx_bytes = 0, rs_tx_count = 0, rs_tx_bytes = 0, rs_last_rssi = 0, rs_last_snr = 0,
      rs_airtime_used = 0, rs_channel_busy = 0\<rparr>"

record rnode_identity =
  ri_serial :: bytes
  ri_platform :: bytes
  ri_mcu :: bytes
  ri_board :: bytes
  ri_fw_version :: bytes
  ri_protocol_version :: byte
  ri_hw_revision :: byte

definition rnode_identity_default :: rnode_identity where
  "rnode_identity_default =
     \<lparr>ri_serial = zeros 16, ri_platform = ascii ''ESP32-S3'', ri_mcu = ascii ''ESP32-S3'', ri_board = ascii ''LunarNode'',
      ri_fw_version = ascii ''1.0.0-lunarcore'', ri_protocol_version = 1, ri_hw_revision = 1\<rparr>"

definition rnode_identity_hash :: "rnode_identity \<Rightarrow> bytes" where
  "rnode_identity_hash identity =
     (let d = zeros 64;
          d = memcpy d 0 (slice (ri_serial identity) 0 16);
          platform_len = length (ri_platform identity);
          platform_len = (if platform_len > 8 then 8 else platform_len);
          d = memcpy d 16 (slice (ri_platform identity) 0 platform_len);
          d = d[24 := ri_protocol_version identity];
          d = d[25 := ri_hw_revision identity]
      in sha256_hash d)"

section \<open>The handler\<close>

record rnode_handler =
  rn_parser :: kiss_parser
  rn_config :: rnode_config
  rn_state :: rnode_state
  rn_locked :: bool
  rn_promiscuous :: bool
  rn_stats :: rnode_stats
  rn_identity :: rnode_identity
  rn_random_seed :: u32
  rn_battery_mv :: u16
  rn_led_intensity :: byte
  rn_airtime_limit :: u32

definition rnode_handler_new :: "rnode_handler \<Rightarrow> rnode_handler" where
  "rnode_handler_new handler =
     \<lparr>rn_parser = kiss_parser_new (rn_parser handler), rn_config = rnode_config_default, rn_state = RNODE_STATE_OFFLINE, rn_locked = False,
      rn_promiscuous = False, rn_stats = rnode_stats_default, rn_identity = rnode_identity_default, rn_random_seed = 0,
      rn_battery_mv = 0, rn_led_intensity = 64, rn_airtime_limit = 0\<rparr>"

definition rnode_handler_with_identity :: "rnode_handler \<Rightarrow> rnode_identity \<Rightarrow> rnode_handler" where
  "rnode_handler_with_identity handler identity = (rnode_handler_new handler)\<lparr>rn_identity := identity\<rparr>"

definition rnode_handler_set_serial :: "rnode_handler \<Rightarrow> bytes \<Rightarrow> rnode_handler" where
  "rnode_handler_set_serial handler serial =
     handler\<lparr>rn_identity := (rn_identity handler)\<lparr>ri_serial := memcpy (ri_serial (rn_identity handler)) 0 (slice serial 0 16)\<rparr>\<rparr>"

definition rnode_handler_set_battery_voltage :: "rnode_handler \<Rightarrow> u16 \<Rightarrow> rnode_handler" where
  "rnode_handler_set_battery_voltage handler mv = handler\<lparr>rn_battery_mv := mv\<rparr>"

definition rnode_handler_set_random_seed :: "rnode_handler \<Rightarrow> u32 \<Rightarrow> rnode_handler" where
  "rnode_handler_set_random_seed handler seed = handler\<lparr>rn_random_seed := seed\<rparr>"

definition rnode_handler_next_random :: "rnode_handler \<Rightarrow> u32 \<times> rnode_handler" where
  "rnode_handler_next_random handler =
     (let seed = rn_random_seed handler * 1103515245 + 12345 in (seed, handler\<lparr>rn_random_seed := seed\<rparr>))"

definition rnode_handler_feed_serial :: "rnode_handler \<Rightarrow> byte \<Rightarrow> kiss_frame \<Rightarrow> bool \<times> rnode_handler \<times> kiss_frame" where
  "rnode_handler_feed_serial handler b out_frame =
     (let (ready, parser, out_frame) = kiss_parser_feed (rn_parser handler) b out_frame
      in (ready, handler\<lparr>rn_parser := parser\<rparr>, out_frame))"

definition i8_min :: "byte \<Rightarrow> byte \<Rightarrow> byte" where
  "i8_min a b = (if sint a < sint b then a else b)"

definition i8_max :: "byte \<Rightarrow> byte \<Rightarrow> byte" where
  "i8_max a b = (if sint a > sint b then a else b)"

definition u8_min :: "byte \<Rightarrow> byte \<Rightarrow> byte" where
  "u8_min a b = (if a < b then a else b)"

definition u8_max :: "byte \<Rightarrow> byte \<Rightarrow> byte" where
  "u8_max a b = (if a > b then a else b)"

definition u64_min :: "u64 \<Rightarrow> u64 \<Rightarrow> u64" where
  "u64_min a b = (if a < b then a else b)"

definition get_be32 :: "bytes \<Rightarrow> u32" where
  "get_be32 d = push_bit 24 (ucast (d ! 0)) OR push_bit 16 (ucast (d ! 1)) OR push_bit 8 (ucast (d ! 2)) OR ucast (d ! 3)"

definition put_be32 :: "u32 \<Rightarrow> bytes" where
  "put_be32 w = [ucast (drop_bit 24 w AND 0xFF), ucast (drop_bit 16 w AND 0xFF), ucast (drop_bit 8 w AND 0xFF), ucast (w AND 0xFF)]"

definition get_be16 :: "bytes \<Rightarrow> u16" where
  "get_be16 d = push_bit 8 (ucast (d ! 0)) OR ucast (d ! 1)"

definition put_be16 :: "u16 \<Rightarrow> bytes" where
  "put_be16 w = [ucast (drop_bit 8 w AND 0xFF), ucast (w AND 0xFF)]"

definition bool_byte :: "bool \<Rightarrow> byte" where
  "bool_byte b = (if b then 1 else 0)"

text \<open>The assignments at the head of a case: what a command changes before its reply is built.\<close>

definition set_config :: "rnode_handler \<Rightarrow> bool \<Rightarrow> (rnode_config \<Rightarrow> rnode_config) \<Rightarrow> rnode_handler" where
  "set_config handler c f = (if c \<and> \<not> rn_locked handler then handler\<lparr>rn_config := f (rn_config handler)\<rparr> else handler)"

definition channel_utilization :: "rnode_stats \<Rightarrow> byte" where
  "channel_utilization stats =
     (if rs_channel_busy stats > 0
      then let calc = (rs_airtime_used stats * 100) div rs_channel_busy stats in ucast (u64_min calc 100)
      else 0)"

definition command_effect :: "rnode_handler \<Rightarrow> rnode_command \<Rightarrow> bytes \<Rightarrow> nat \<Rightarrow> rnode_handler" where
  "command_effect handler cmd d len = (case cmd of
     RNODE_CMD_FREQUENCY \<Rightarrow> set_config handler (len \<ge> 4) (\<lambda>c. c\<lparr>rc_frequency := get_be32 d\<rparr>)
   | RNODE_CMD_BANDWIDTH \<Rightarrow> set_config handler (len \<ge> 4) (\<lambda>c. c\<lparr>rc_bandwidth := get_be32 d\<rparr>)
   | RNODE_CMD_TX_POWER \<Rightarrow> set_config handler (len \<ge> 1) (\<lambda>c. c\<lparr>rc_tx_power := i8_min (i8_max (d ! 0) (- 9)) 22\<rparr>)
   | RNODE_CMD_SPREADING_FACTOR \<Rightarrow> set_config handler (len \<ge> 1)
       (\<lambda>c. let c = c\<lparr>rc_spreading_factor := u8_min (u8_max (d ! 0) 7) 12\<rparr> in c\<lparr>rc_ldro := rnode_config_should_enable_ldro c\<rparr>)
   | RNODE_CMD_CODING_RATE \<Rightarrow> set_config handler (len \<ge> 1) (\<lambda>c. c\<lparr>rc_coding_rate := u8_min (u8_max (d ! 0) 5) 8\<rparr>)
   | RNODE_CMD_PREAMBLE_LENGTH \<Rightarrow> set_config handler (len \<ge> 2) (\<lambda>c. c\<lparr>rc_preamble_length := get_be16 d\<rparr>)
   | RNODE_CMD_SYNC_WORD \<Rightarrow> set_config handler (len \<ge> 1) (\<lambda>c. c\<lparr>rc_sync_word := d ! 0\<rparr>)
   | RNODE_CMD_CRC_MODE \<Rightarrow> set_config handler (len \<ge> 1) (\<lambda>c. c\<lparr>rc_crc_enabled := (d ! 0 \<noteq> 0)\<rparr>)
   | RNODE_CMD_IMPLICIT_HEADER \<Rightarrow> set_config handler (len \<ge> 1) (\<lambda>c. c\<lparr>rc_implicit_header := (d ! 0 \<noteq> 0)\<rparr>)
   | RNODE_CMD_LDRO \<Rightarrow> set_config handler (len \<ge> 1) (\<lambda>c. c\<lparr>rc_ldro := (d ! 0 \<noteq> 0)\<rparr>)
   | RNODE_CMD_RADIO_STATE \<Rightarrow>
       (if len \<ge> 1 then handler\<lparr>rn_state := (if d ! 0 \<noteq> 0 then RNODE_STATE_ONLINE else RNODE_STATE_OFFLINE)\<rparr> else handler)
   | RNODE_CMD_RADIO_LOCK \<Rightarrow> (if len \<ge> 1 then handler\<lparr>rn_locked := (d ! 0 \<noteq> 0)\<rparr> else handler)
   | RNODE_CMD_PROMISC \<Rightarrow> (if len \<ge> 1 then handler\<lparr>rn_promiscuous := (d ! 0 \<noteq> 0)\<rparr> else handler)
   | RNODE_CMD_AIRTIME_LIMIT \<Rightarrow> (if len \<ge> 4 then handler\<lparr>rn_airtime_limit := get_be32 d\<rparr> else handler)
   | RNODE_CMD_LED_INTENSITY \<Rightarrow> (if len \<ge> 1 then handler\<lparr>rn_led_intensity := d ! 0\<rparr> else handler)
   | RNODE_CMD_RANDOM \<Rightarrow> snd (rnode_handler_next_random handler)
   | RNODE_CMD_LEAVE \<Rightarrow> handler\<lparr>rn_state := RNODE_STATE_OFFLINE\<rparr>
   | RNODE_CMD_RESET_CONFIG \<Rightarrow> (if \<not> rn_locked handler then handler\<lparr>rn_config := rnode_config_default\<rparr> else handler)
   | _ \<Rightarrow> handler)"

text \<open>The reply of a case, from the handler after its assignments: \<open>None\<close> for \<^verbatim>\<open>return false\<close>.\<close>

definition command_reply :: "rnode_handler \<Rightarrow> rnode_command \<Rightarrow> bytes \<Rightarrow> nat \<Rightarrow> (rnode_command \<times> bytes) option" where
  "command_reply handler cmd d len = (let config = rn_config handler; stats = rn_stats handler; identity = rn_identity handler in case cmd of
     RNODE_CMD_FREQUENCY \<Rightarrow> Some (cmd, put_be32 (rc_frequency config))
   | RNODE_CMD_BANDWIDTH \<Rightarrow> Some (cmd, put_be32 (rc_bandwidth config))
   | RNODE_CMD_TX_POWER \<Rightarrow> Some (cmd, [rc_tx_power config])
   | RNODE_CMD_SPREADING_FACTOR \<Rightarrow> Some (cmd, [rc_spreading_factor config])
   | RNODE_CMD_CODING_RATE \<Rightarrow> Some (cmd, [rc_coding_rate config])
   | RNODE_CMD_PREAMBLE_LENGTH \<Rightarrow> Some (cmd, put_be16 (rc_preamble_length config))
   | RNODE_CMD_SYNC_WORD \<Rightarrow> Some (cmd, [rc_sync_word config])
   | RNODE_CMD_CRC_MODE \<Rightarrow> Some (cmd, [bool_byte (rc_crc_enabled config)])
   | RNODE_CMD_IMPLICIT_HEADER \<Rightarrow> Some (cmd, [bool_byte (rc_implicit_header config)])
   | RNODE_CMD_LDRO \<Rightarrow> Some (cmd, [bool_byte (rc_ldro config)])
   | RNODE_CMD_RADIO_STATE \<Rightarrow> Some (cmd, [bool_byte (rn_state handler \<noteq> RNODE_STATE_OFFLINE)])
   | RNODE_CMD_RADIO_LOCK \<Rightarrow> Some (cmd, [bool_byte (rn_locked handler)])
   | RNODE_CMD_PROMISC \<Rightarrow> Some (cmd, [bool_byte (rn_promiscuous handler)])
   | RNODE_CMD_DETECT \<Rightarrow> Some (cmd, [0x01, ri_hw_revision identity])
   | RNODE_CMD_READY \<Rightarrow> Some (cmd, [0x01])
   | RNODE_CMD_FW_VERSION \<Rightarrow> Some (cmd, ri_fw_version identity)
   | RNODE_CMD_PROTOCOL_VERSION \<Rightarrow> Some (cmd, [ri_protocol_version identity])
   | RNODE_CMD_PLATFORM \<Rightarrow> Some (cmd, ri_platform identity)
   | RNODE_CMD_MCU \<Rightarrow> Some (cmd, ri_mcu identity)
   | RNODE_CMD_BOARD \<Rightarrow> Some (cmd, ri_board identity)
   | RNODE_CMD_HARDWARE_SERIAL \<Rightarrow> Some (cmd, slice (ri_serial identity) 0 16)
   | RNODE_CMD_SIGNATURE \<Rightarrow> Some (cmd, rnode_identity_hash identity)
   | RNODE_CMD_STAT_RX \<Rightarrow> Some (cmd, put_be32 (rs_rx_count stats))
   | RNODE_CMD_STAT_TX \<Rightarrow> Some (cmd, put_be32 (rs_tx_count stats))
   | RNODE_CMD_STAT_RSSI \<Rightarrow> Some (cmd, put_be16 (rs_last_rssi stats))
   | RNODE_CMD_STAT_SNR \<Rightarrow> Some (cmd, [rs_last_snr stats])
   | RNODE_CMD_STAT_BATTERY \<Rightarrow> Some (cmd, put_be16 (rn_battery_mv handler))
   | RNODE_CMD_STAT_CHANNEL \<Rightarrow> Some (cmd, [channel_utilization stats])
   | RNODE_CMD_AIRTIME_LIMIT \<Rightarrow> Some (cmd, put_be32 (rn_airtime_limit handler))
   | RNODE_CMD_AIRTIME_USAGE \<Rightarrow> Some (cmd, put_be32 (ucast (rs_airtime_used stats mod 0xFFFFFFFF)))
   | RNODE_CMD_BLINK \<Rightarrow> Some (cmd, [0x01])
   | RNODE_CMD_LED_INTENSITY \<Rightarrow> Some (cmd, [rn_led_intensity handler])
   | RNODE_CMD_RANDOM \<Rightarrow> Some (cmd, put_be32 (rn_random_seed handler))
   | RNODE_CMD_LEAVE \<Rightarrow> None
   | RNODE_CMD_SAVE_CONFIG \<Rightarrow> Some (cmd, [0x01])
   | RNODE_CMD_RESET_CONFIG \<Rightarrow> Some (cmd, [0x01])
   | RNODE_CMD_BOOTLOADER \<Rightarrow> Some (cmd, [0x01])
   | RNODE_CMD_ERROR \<Rightarrow> (if len > 0 then Some (cmd, slice d 0 len) else None)
   | _ \<Rightarrow> Some (RNODE_CMD_ERROR, [0xFF]))"

definition rnode_handler_process_frame :: "rnode_handler \<Rightarrow> kiss_frame \<Rightarrow> kiss_frame \<Rightarrow> bool \<times> rnode_handler \<times> kiss_frame" where
  "rnode_handler_process_frame handler frame out_frame =
     (if kf_command frame = KISS_CMD_DATA_FRAME then (False, handler, out_frame)
      else case rnode_command_from_byte (kf_command frame) of
        None \<Rightarrow> (let (ok, out_frame) = kiss_frame_command_frame (rnode_command_byte RNODE_CMD_ERROR) [0xFF] out_frame in (ok, handler, out_frame))
      | Some cmd \<Rightarrow>
          (let d = vdata (kf_data frame); len = vlen (kf_data frame);
               handler = command_effect handler cmd d len
           in case command_reply handler cmd d len of
                None \<Rightarrow> (False, handler, out_frame)
              | Some (reply, bs) \<Rightarrow>
                  (let (ok, out_frame) = kiss_frame_command_frame (rnode_command_byte reply) bs out_frame in (ok, handler, out_frame))))"

definition rnode_handler_process_lora_packet :: "rnode_handler \<Rightarrow> bytes \<Rightarrow> u16 \<Rightarrow> byte \<Rightarrow> kiss_frame \<Rightarrow> rnode_handler \<times> kiss_frame" where
  "rnode_handler_process_lora_packet handler d rssi snr out_frame =
     (let stats = rn_stats handler;
          stats = stats\<lparr>rs_rx_count := rs_rx_count stats + 1, rs_rx_bytes := rs_rx_bytes stats + of_nat (length d),
                        rs_last_rssi := rssi, rs_last_snr := snr\<rparr>
      in (handler\<lparr>rn_stats := stats\<rparr>, snd (kiss_frame_data_frame d out_frame)))"

section \<open>The second handler of the file\<close>

datatype rnode_state2 = RNodeStateOffline | RNodeStateOnline | RNodeStateLocked

abbreviation RNodeCommandDetect :: byte where "RNodeCommandDetect \<equiv> 0x01"
abbreviation RNodeCommandFrequency :: byte where "RNodeCommandFrequency \<equiv> 0x02"
abbreviation RNodeCommandSpreadingFactor :: byte where "RNodeCommandSpreadingFactor \<equiv> 0x04"
abbreviation RNodeCommandReady :: byte where "RNodeCommandReady \<equiv> 0x07"
abbreviation RNodeCommandFwVersion :: byte where "RNodeCommandFwVersion \<equiv> 0x08"
abbreviation RNodeCommandPlatform :: byte where "RNodeCommandPlatform \<equiv> 0x09"

record rnode_config2 =
  c2_frequency :: u32
  c2_bandwidth :: u32
  c2_spreading_factor :: byte
  c2_coding_rate :: byte
  c2_tx_power :: byte

record rnode_stats2 =
  s2_rx_count :: u64
  s2_rx_bytes :: u64
  s2_tx_count :: u64
  s2_tx_bytes :: u64
  s2_airtime_used :: u64
  s2_channel_busy :: u64
  s2_last_rssi :: u16
  s2_last_snr :: u16

record rnode_handler2 =
  h2_stats :: rnode_stats2
  h2_config :: rnode_config2
  h2_state :: rnode_state2
  h2_identity :: bytes
  h2_locked :: bool
  h2_promiscuous :: bool
  h2_airtime_limit :: u64

definition rnode_config_default2 :: rnode_config2 where
  "rnode_config_default2 =
     \<lparr>c2_frequency = 868000000, c2_bandwidth = 125000, c2_spreading_factor = 7, c2_coding_rate = 5, c2_tx_power = 20\<rparr>"

definition rnode_stats_default2 :: rnode_stats2 where
  "rnode_stats_default2 =
     \<lparr>s2_rx_count = 0, s2_rx_bytes = 0, s2_tx_count = 0, s2_tx_bytes = 0, s2_airtime_used = 0, s2_channel_busy = 0,
      s2_last_rssi = 0, s2_last_snr = 0\<rparr>"

definition rnode_identity_identity_hash :: "bytes \<Rightarrow> u32" where
  "rnode_identity_identity_hash serial = foldl (\<lambda>hash i. (push_bit 5 hash + hash) + ucast (serial ! i)) 5381 [0..<16]"

definition rnode_handler_init :: rnode_handler2 where
  "rnode_handler_init =
     \<lparr>h2_stats = rnode_stats_default2, h2_config = rnode_config_default2, h2_state = RNodeStateOffline, h2_identity = zeros 16,
      h2_locked = False, h2_promiscuous = False, h2_airtime_limit = 0\<rparr>"

definition rnode_handler_process_lora_packet_raw :: "kiss_frame2 \<Rightarrow> rnode_handler2 \<Rightarrow> bytes \<Rightarrow> rnode_handler2 \<times> kiss_frame2" where
  "rnode_handler_process_lora_packet_raw junk self d =
     (let stats = h2_stats self;
          stats = stats\<lparr>s2_rx_count := s2_rx_count stats + 1, s2_rx_bytes := s2_rx_bytes stats + of_nat (length d)\<rparr>;
          frame = kiss_frame_new2 junk KissCommandDataFrame
      in (self\<lparr>h2_stats := stats\<rparr>, foldl (\<lambda>frame b. snd (kiss_frame_push_data frame b)) frame d))"

definition rnode_handler_process_lora_packet2 :: "kiss_frame2 \<Rightarrow> rnode_handler2 \<Rightarrow> bytes \<Rightarrow> u16 \<Rightarrow> u16 \<Rightarrow> rnode_handler2 \<times> kiss_frame2" where
  "rnode_handler_process_lora_packet2 junk self d rssi snr =
     rnode_handler_process_lora_packet_raw junk (self\<lparr>h2_stats := (h2_stats self)\<lparr>s2_last_rssi := rssi, s2_last_snr := snr\<rparr>\<rparr>) d"

text \<open>\<open>airtime\<close> is \<^verbatim>\<open>rnode_config_packet_airtime_ms\<close>.\<close>

definition rnode_handler_get_tx_data :: "(rnode_config2 \<Rightarrow> nat \<Rightarrow> u64) \<Rightarrow> rnode_handler2 \<Rightarrow> kiss_frame2 \<Rightarrow> bytes option \<times> rnode_handler2" where
  "rnode_handler_get_tx_data airtime self frame =
     (if k2_command frame = KissCommandDataFrame
      then let stats = h2_stats self;
               stats = stats\<lparr>s2_tx_count := s2_tx_count stats + 1, s2_tx_bytes := s2_tx_bytes stats + of_nat (k2_data_len frame)\<rparr>;
               stats = stats\<lparr>s2_airtime_used := s2_airtime_used stats + airtime (h2_config self) (k2_data_len frame)\<rparr>
           in (Some (slice (k2_data frame) 0 (k2_data_len frame)), self\<lparr>h2_stats := stats\<rparr>)
      else (None, self))"

definition rnode_handler_record_channel_busy :: "rnode_handler2 \<Rightarrow> u64 \<Rightarrow> rnode_handler2" where
  "rnode_handler_record_channel_busy self ms =
     self\<lparr>h2_stats := (h2_stats self)\<lparr>s2_channel_busy := s2_channel_busy (h2_stats self) + ms\<rparr>\<rparr>"

definition rnode_handler_set_state :: "rnode_handler2 \<Rightarrow> rnode_state2 \<Rightarrow> rnode_handler2" where
  "rnode_handler_set_state self state = self\<lparr>h2_state := state\<rparr>"

definition rnode_handler_reset_stats :: "rnode_handler2 \<Rightarrow> rnode_handler2" where
  "rnode_handler_reset_stats self = self\<lparr>h2_stats := rnode_stats_default2\<rparr>"

definition rnode_handler_is_online :: "rnode_handler2 \<Rightarrow> bool" where
  "rnode_handler_is_online self \<longleftrightarrow> h2_state self \<noteq> RNodeStateOffline"

definition rnode_handler_check_airtime_limit :: "(rnode_config2 \<Rightarrow> nat \<Rightarrow> u64) \<Rightarrow> rnode_handler2 \<Rightarrow> nat \<Rightarrow> bool" where
  "rnode_handler_check_airtime_limit airtime self packet_len =
     (if h2_airtime_limit self = 0 then True
      else s2_airtime_used (h2_stats self) + airtime (h2_config self) packet_len \<le> h2_airtime_limit self)"

text \<open>The flag tells whether the C function returns the handler (rather than \<^verbatim>\<open>NULL\<close>).\<close>

definition rnode_handler_process_frame2 :: "rnode_handler2 \<Rightarrow> kiss_frame2 \<Rightarrow> bool \<times> rnode_handler2" where
  "rnode_handler_process_frame2 self frame =
     (if k2_command frame = RNodeCommandFrequency
      then let freq = (if k2_data_len frame \<ge> 4 then get_be32 (k2_data frame) else 0)
           in (True, self\<lparr>h2_config := (h2_config self)\<lparr>c2_frequency := freq\<rparr>\<rparr>)
      else if k2_command frame = RNodeCommandSpreadingFactor
      then (True, if k2_data_len frame \<ge> 1 then self\<lparr>h2_config := (h2_config self)\<lparr>c2_spreading_factor := k2_data frame ! 0\<rparr>\<rparr> else self)
      else if k2_command frame = RNodeCommandDetect \<or> k2_command frame = RNodeCommandReady \<or>
              k2_command frame = RNodeCommandFwVersion \<or> k2_command frame = RNodeCommandPlatform
      then (True, self)
      else (False, self))"

section \<open>Lemmas\<close>

lemma command_byte_from [simp]: "rnode_command_from_byte (rnode_command_byte c) = Some c"
  by (cases c) (simp_all add: rnode_command_from_byte_def rnode_command_table_def)

lemma table_bytes: "list_all (\<lambda>(b, c). rnode_command_byte c = b) rnode_command_table"
  by (simp add: rnode_command_table_def)

lemma command_from_byte: "rnode_command_from_byte b = Some c \<longleftrightarrow> b = rnode_command_byte c"
proof
  assume "rnode_command_from_byte b = Some c"
  then have "(b, c) \<in> set rnode_command_table" unfolding rnode_command_from_byte_def by (rule map_of_SomeD)
  then show "b = rnode_command_byte c" using table_bytes by (auto simp: list_all_iff)
qed simp

lemma and_FF: "(0xFF :: 'a::len word) = mask 8"
  by (simp add: mask_eq_exp_minus_1)

lemma put_get_be32: "put_be32 (get_be32 (a # b # c # d # ds)) = [a, b, c, d]"
  unfolding put_be32_def get_be32_def and_FF
  by (simp; intro conjI; rule bit_word_eqI; auto simp: bit_simps)

lemma put_get_be16: "put_be16 (get_be16 (a # b # ds)) = [a, b]"
  unfolding put_be16_def get_be16_def and_FF
  by (simp; intro conjI; rule bit_word_eqI; auto simp: bit_simps)

lemma length_put [simp]: "length (put_be32 w) = 4" "length (put_be16 h) = 2"
  by (simp_all add: put_be32_def put_be16_def)

lemma clamp_u8: "lo \<le> hi \<Longrightarrow> lo \<le> u8_min (u8_max x lo) hi \<and> u8_min (u8_max x lo) hi \<le> hi"
  by (auto simp: u8_min_def u8_max_def)

lemma clamp_i8: "sint lo \<le> sint hi \<Longrightarrow> sint lo \<le> sint (i8_min (i8_max x lo) hi) \<and> sint (i8_min (i8_max x lo) hi) \<le> sint hi"
  by (auto simp: i8_min_def i8_max_def)

section \<open>What every command keeps\<close>

text \<open>The ranges that the radio accepts.\<close>

definition config_ok :: "rnode_config \<Rightarrow> bool" where
  "config_ok c \<longleftrightarrow> 7 \<le> rc_spreading_factor c \<and> rc_spreading_factor c \<le> 12 \<and> 5 \<le> rc_coding_rate c \<and> rc_coding_rate c \<le> 8 \<and>
     - 9 \<le> sint (rc_tx_power c) \<and> sint (rc_tx_power c) \<le> 22"

lemma config_ok_default [simp]: "config_ok rnode_config_default"
  by (simp add: config_ok_def rnode_config_default_def)

lemma set_config_ok: "config_ok (rn_config h) \<Longrightarrow> (\<And>c. config_ok c \<Longrightarrow> config_ok (f c)) \<Longrightarrow> config_ok (rn_config (set_config h g f))"
  by (simp add: set_config_def)

lemma effect_config_ok: "config_ok (rn_config h) \<Longrightarrow> config_ok (rn_config (command_effect h cmd d len))"
  using clamp_u8 [of 7 12 "d ! 0"] clamp_u8 [of 5 8 "d ! 0"] clamp_i8 [of "- 9" 22 "d ! 0"]
  by (cases cmd) (simp_all add: command_effect_def set_config_def config_ok_def rnode_handler_next_random_def Let_def
      rnode_config_default_def)

lemma effect_locked: "rn_locked h \<Longrightarrow> rn_config (command_effect h cmd d len) = rn_config h"
  by (cases cmd) (simp_all add: command_effect_def set_config_def rnode_handler_next_random_def Let_def)

lemma effect_kept: "rn_parser (command_effect h cmd d len) = rn_parser h \<and> rn_stats (command_effect h cmd d len) = rn_stats h \<and>
    rn_identity (command_effect h cmd d len) = rn_identity h \<and> rn_battery_mv (command_effect h cmd d len) = rn_battery_mv h"
  by (cases cmd) (simp_all add: command_effect_def set_config_def rnode_handler_next_random_def Let_def)

lemma reply_command: "command_reply h cmd d len = Some (reply, bs) \<Longrightarrow> reply = cmd \<or> reply = RNODE_CMD_ERROR"
  by (cases cmd) (auto simp: command_reply_def Let_def split: if_splits)

lemma reply_None: "command_reply h cmd d len = None \<longleftrightarrow> cmd = RNODE_CMD_LEAVE \<or> (cmd = RNODE_CMD_ERROR \<and> len = 0)"
  by (cases cmd) (auto simp: command_reply_def Let_def)

definition identity_ok :: "rnode_identity \<Rightarrow> bool" where
  "identity_ok i \<longleftrightarrow> length (ri_platform i) \<le> 512 \<and> length (ri_mcu i) \<le> 512 \<and> length (ri_board i) \<le> 512 \<and> length (ri_fw_version i) \<le> 512"

lemma reply_length: "identity_ok (rn_identity h) \<Longrightarrow> len \<le> 512 \<Longrightarrow> command_reply h cmd d len = Some (reply, bs) \<Longrightarrow> length bs \<le> 512"
  by (cases cmd) (auto simp: command_reply_def Let_def identity_ok_def rnode_identity_hash_def split: if_splits)

lemma command_frame_bytes:
  assumes "length bs \<le> 512" "vec_wf 512 (kf_data out)"
  shows "\<exists>f. kiss_frame_command_frame c bs out = (True, f) \<and> kf_command f = c \<and> vec_wf 512 (kf_data f) \<and> vec_bytes (kf_data f) = bs"
proof -
  let ?v = "vec_u8_max_data_new (kf_data out)"
  have "vec_wf 512 ?v" "vec_bytes ?v = []" using assms(2) by (simp_all add: vec_u8_max_data_new_def vec_wf_def vec_bytes_def)
  with data_vec.pushes_bytes [of ?v bs] assms(1) show ?thesis
    by (simp add: kiss_frame_command_frame_def kiss_frame_new_def push_all_def Let_def)
qed

section \<open>The command interpreter\<close>

text \<open>What the handler promises on frames that are a command byte and data bytes: an optional reply and the new handler. The
  operation on frame structs refines it.\<close>

definition respond :: "rnode_handler \<Rightarrow> byte \<times> bytes \<Rightarrow> (byte \<times> bytes) option \<times> rnode_handler" where
  "respond h f = (case f of (c, d) \<Rightarrow>
     if c = 0 then (None, h)
     else case rnode_command_from_byte c of
       None \<Rightarrow> (Some (0x90, [0xFF]), h)
     | Some cmd \<Rightarrow>
         (let h = command_effect h cmd d (length d)
          in (map_option (\<lambda>(reply, bs). (rnode_command_byte reply, bs)) (command_reply h cmd d (length d)), h)))"

lemma get_be_take: "4 \<le> len \<Longrightarrow> get_be32 (take len d) = get_be32 d" "2 \<le> len \<Longrightarrow> get_be16 (take len d) = get_be16 d"
  by (simp_all add: get_be32_def get_be16_def)

lemma effect_take: "command_effect h cmd (take len d) len = command_effect h cmd d len"
proof -
  have "1 \<le> len \<Longrightarrow> take len d ! 0 = d ! 0" by simp
  then show ?thesis by (cases cmd) (auto simp: command_effect_def set_config_def get_be_take)
qed

lemma reply_take: "command_reply h cmd (take len d) len = command_reply h cmd d len"
  by (cases cmd) (simp_all add: command_reply_def slice_0_take)

lemma process_refines_respond:
  assumes "identity_ok (rn_identity h)" "vec_wf 512 (kf_data f)" "vec_wf 512 (kf_data out)"
    and "rnode_handler_process_frame h f out = (ok, h', out')"
  shows "respond h (kf_command f, vec_bytes (kf_data f)) = (if ok then Some (kf_command out', vec_bytes (kf_data out')) else None, h')"
    and "vec_wf 512 (kf_data out')" and "ok \<or> out' = out" and "identity_ok (rn_identity h')"
proof -
  let ?d = "vdata (kf_data f)" and ?n = "vlen (kf_data f)"
  have n: "length (vec_bytes (kf_data f)) = ?n" "vec_bytes (kf_data f) = take ?n ?d" "?n \<le> 512" using assms(2) by (auto simp: vec_wf_def vec_bytes_def)
  have "respond h (kf_command f, vec_bytes (kf_data f)) = (if ok then Some (kf_command out', vec_bytes (kf_data out')) else None, h')
    \<and> vec_wf 512 (kf_data out') \<and> (ok \<or> out' = out) \<and> identity_ok (rn_identity h')"
  proof (cases "kf_command f = 0 \<or> rnode_command_from_byte (kf_command f) = None")
    case True
    then show ?thesis using assms(1,3,4) command_frame_bytes [of "[0xFF]" out "0x90"]
      by (auto simp: rnode_handler_process_frame_def respond_def)
  next
    case False
    then obtain cmd where cmd: "rnode_command_from_byte (kf_command f) = Some cmd" "kf_command f \<noteq> 0" by blast
    let ?h = "command_effect h cmd ?d ?n"
    have i: "identity_ok (rn_identity ?h)" using assms(1) effect_kept by simp
    show ?thesis
    proof (cases "command_reply ?h cmd ?d ?n")
      case None
      then show ?thesis using assms(3,4) cmd n i effect_take reply_take
        by (auto simp: rnode_handler_process_frame_def respond_def Let_def)
    next
      case (Some r)
      obtain reply bs where r: "r = (reply, bs)" by (cases r)
      obtain g where "kiss_frame_command_frame (rnode_command_byte reply) bs out = (True, g)" "kf_command g = rnode_command_byte reply"
        "vec_wf 512 (kf_data g)" "vec_bytes (kf_data g) = bs"
        using command_frame_bytes [OF reply_length [OF i n(3)] assms(3)] Some r by blast
      then show ?thesis using assms(4) cmd n i Some r effect_take reply_take
        by (auto simp: rnode_handler_process_frame_def respond_def Let_def)
    qed
  qed
  then show "respond h (kf_command f, vec_bytes (kf_data f)) = (if ok then Some (kf_command out', vec_bytes (kf_data out')) else None, h')"
    "vec_wf 512 (kf_data out')" "ok \<or> out' = out" "identity_ok (rn_identity h')" by auto
qed

section \<open>A node on a serial line\<close>

text \<open>The bytes that arrive are fed to the handler; a frame that becomes ready is processed and its reply, if there is one, is sent. \<open>responses\<close> is the
  same on the level of commands.\<close>

fun serve :: "rnode_handler \<Rightarrow> kiss_frame \<Rightarrow> kiss_frame \<Rightarrow> bytes \<Rightarrow> (byte \<times> bytes) list" where
  "serve h frame reply [] = []"
| "serve h frame reply (b # bs) =
     (let (ready, h, frame) = rnode_handler_feed_serial h b frame
      in if ready
         then let (ok, h, reply) = rnode_handler_process_frame h frame reply
              in (if ok then [(kf_command reply, vec_bytes (kf_data reply))] else []) @ serve h frame reply bs
         else serve h frame reply bs)"

fun responses :: "rnode_handler \<Rightarrow> (byte \<times> bytes) list \<Rightarrow> (byte \<times> bytes) list" where
  "responses h [] = []"
| "responses h (f # fs) = (case fst (respond h f) of None \<Rightarrow> [] | Some r \<Rightarrow> [r]) @ responses (snd (respond h f)) fs"

lemma effect_parser: "command_effect (h\<lparr>rn_parser := p\<rparr>) cmd d len = (command_effect h cmd d len)\<lparr>rn_parser := p\<rparr>"
  by (cases cmd) (simp_all add: command_effect_def set_config_def rnode_handler_next_random_def Let_def)

lemma reply_parser: "command_reply (h\<lparr>rn_parser := p\<rparr>) cmd d len = command_reply h cmd d len"
  by (cases cmd) (simp_all add: command_reply_def Let_def)

lemma respond_parser: "respond (h\<lparr>rn_parser := p\<rparr>) f = (fst (respond h f), (snd (respond h f))\<lparr>rn_parser := p\<rparr>)"
  by (simp add: respond_def effect_parser reply_parser Let_def split: prod.splits option.splits)

lemma responses_parser: "responses (h\<lparr>rn_parser := p\<rparr>) fs = responses h fs"
  by (induction fs arbitrary: h) (simp_all add: respond_parser)

lemma process_parser: "rnode_handler_process_frame h f out = (ok, h', out') \<Longrightarrow> rn_parser h' = rn_parser h"
  by (auto simp: rnode_handler_process_frame_def effect_kept Let_def split: if_splits option.splits prod.splits)

lemma serve_responses:
  assumes "kiss_inv (rn_parser h)" "vec_wf 512 (kf_data frame)" "vec_wf 512 (kf_data reply)" "identity_ok (rn_identity h)"
  shows "serve h frame reply bs = responses h (fst (kiss_deliver (rn_parser h) frame bs))"
  using assms
proof (induction bs arbitrary: h frame reply)
  case Nil
  then show ?case by simp
next
  case (Cons b bs)
  obtain ready p' f' where feed: "kiss_parser_feed (rn_parser h) b frame = (ready, p', f')" by (metis prod_cases3)
  have i: "kiss_inv p'" "vec_wf 512 (kf_data f')" using kiss_feed_inv [OF Cons.prems(1,2) feed] .
  let ?h = "h\<lparr>rn_parser := p'\<rparr>"
  show ?case
  proof (cases ready)
    case False
    with Cons.IH [of ?h f' reply] i Cons.prems feed show ?thesis
      by (simp add: rnode_handler_feed_serial_def responses_parser case_prod_beta Let_def)
  next
    case True
    obtain ok h' reply' where pr: "rnode_handler_process_frame ?h f' reply = (ok, h', reply')" by (metis prod_cases3)
    have id: "identity_ok (rn_identity ?h)" using Cons.prems(4) by simp
    note ref = process_refines_respond [OF id i(2) Cons.prems(3) pr]
    have ps: "rn_parser h' = p'" using process_parser [OF pr] by simp
    have "responses ?h ((kf_command f', vec_bytes (kf_data f')) # fs) =
      (if ok then [(kf_command reply', vec_bytes (kf_data reply'))] else []) @ responses h' fs" for fs
      using ref(1) by simp
    moreover have "serve h' f' reply' bs = responses h' (fst (kiss_deliver p' f' bs))"
      using Cons.IH [of h' f' reply'] i ref(2,4) ps by simp
    ultimately show ?thesis using True feed pr responses_parser [of p' h "fst (kiss_deliver (rn_parser h) frame (b # bs))"]
      by (cases ok) (simp_all add: rnode_handler_feed_serial_def case_prod_beta Let_def)
  qed
qed

section \<open>Properties\<close>

text \<open>What the interpreter does with the parameters of the radio, in the bytes of command and reply: a value is set when the node is not
  locked, limited to its range, and the reply is the value in force.\<close>

lemma respond_parameters:
  "fst (respond h (1, [x, y, z, w])) = Some (1, if rn_locked h then put_be32 (rc_frequency (rn_config h)) else [x, y, z, w])"
  "fst (respond h (4, [x])) = Some (4, [if rn_locked h then rc_spreading_factor (rn_config h) else min 12 (max 7 x)])"
  "fst (respond h (5, [x])) = Some (5, [if rn_locked h then rc_coding_rate (rn_config h) else min 8 (max 5 x)])"
  "fst (respond h (3, [x])) = Some (3, [if rn_locked h then rc_tx_power (rn_config h) else word_of_int (min 22 (max (- 9) (sint x)))])"
proof -
  have be: "put_be32 (get_be32 [x, y, z, w]) = [x, y, z, w]"
    by (simp add: put_be32_def get_be32_def) (intro conjI bit_word_eqI; auto simp: bit_simps)
  have "rnode_command_from_byte 1 = Some RNODE_CMD_FREQUENCY" "rnode_command_from_byte 3 = Some RNODE_CMD_TX_POWER"
    "rnode_command_from_byte 4 = Some RNODE_CMD_SPREADING_FACTOR" "rnode_command_from_byte 5 = Some RNODE_CMD_CODING_RATE"
    by (simp_all add: rnode_command_from_byte_def rnode_command_table_def)
  note cmd = this
  have s: "sint (word_of_int i :: byte) = i" if "- 9 \<le> i" "i \<le> 22" for i using that by transfer (simp add: signed_take_bit_int_eq_self)
  have p: "i8_min (i8_max x (- 9)) 22 = word_of_int (min 22 (max (- 9) (sint x)))"
    by (rule signed_word_eqI) (auto simp: i8_min_def i8_max_def s min_def max_def)
  show "fst (respond h (1, [x, y, z, w])) = Some (1, if rn_locked h then put_be32 (rc_frequency (rn_config h)) else [x, y, z, w])"
    by (simp add: respond_def cmd command_effect_def command_reply_def set_config_def be)
  show "fst (respond h (4, [x])) = Some (4, [if rn_locked h then rc_spreading_factor (rn_config h) else min 12 (max 7 x)])"
    by (auto simp: respond_def cmd command_effect_def command_reply_def set_config_def u8_min_def u8_max_def min_def max_def Let_def)
  show "fst (respond h (5, [x])) = Some (5, [if rn_locked h then rc_coding_rate (rn_config h) else min 8 (max 5 x)])"
    by (auto simp: respond_def cmd command_effect_def command_reply_def set_config_def u8_min_def u8_max_def min_def max_def Let_def)
  show "fst (respond h (3, [x])) = Some (3, [if rn_locked h then rc_tx_power (rn_config h) else word_of_int (min 22 (max (- 9) (sint x)))])"
    by (simp add: respond_def cmd command_effect_def command_reply_def set_config_def p)
qed

lemma respond_locked: "rn_locked h \<Longrightarrow> rn_config (snd (respond h f)) = rn_config h"
proof -
  assume l: "rn_locked h"
  have "rn_config (command_effect h cmd d n) = rn_config h" for cmd d n
    using l by (cases cmd) (simp_all add: command_effect_def set_config_def rnode_handler_next_random_def Let_def)
  then show ?thesis by (simp add: respond_def Let_def split: prod.split option.split)
qed

text \<open>C24. A node on a serial line serves the host command by command. A host sends any sequence of KISS frames, each with any command, at most 512
  bytes of data and any noise without frame delimiters before it; what comes back is exactly what the command interpreter replies to these frames one after the
  other. A frame whose command is one of the two bytes that KISS escapes reaches the interpreter as a data frame (command 0), which has no reply. The interpreter
  itself: the frequency is set to the value sent, spreading factor, coding rate and transmission power to the value sent limited to their range, and the
  reply is the value in force; a locked node keeps its whole configuration whatever command comes, and replies the old value.\<close>

theorem rnode_serves_commands:
  assumes "length (vdata (kp_data (rn_parser h0))) = 512" "vec_wf 512 (kf_data frame)" "vec_wf 512 (kf_data reply)"
    and "identity_ok identity" "\<forall>(noise, c, d) \<in> set fs. FEND \<notin> set noise \<and> length d \<le> 512"
  shows "serve (rnode_handler_with_identity h0 identity) frame reply (concat (map (\<lambda>(noise, c, d). noise @ kiss_bytes c d) fs)) =
      responses (rnode_handler_with_identity h0 identity)
        (map (\<lambda>(noise, c, d). if c = FEND \<or> c = FESC then (0, take 512 (c # d)) else (c, d)) fs)
    \<and> respond h (0, d) = (None, h)
    \<and> fst (respond h (1, [x, y, z, w])) = Some (1, if rn_locked h then put_be32 (rc_frequency (rn_config h)) else [x, y, z, w])
    \<and> fst (respond h (4, [x])) = Some (4, [if rn_locked h then rc_spreading_factor (rn_config h) else min 12 (max 7 x)])
    \<and> fst (respond h (5, [x])) = Some (5, [if rn_locked h then rc_coding_rate (rn_config h) else min 8 (max 5 x)])
    \<and> fst (respond h (3, [x])) = Some (3, [if rn_locked h then rc_tx_power (rn_config h) else word_of_int (min 22 (max (- 9) (sint x)))])
    \<and> (rn_locked h \<longrightarrow> rn_config (snd (respond h f)) = rn_config h)"
proof -
  let ?h = "rnode_handler_with_identity h0 identity"
  have p: "kiss_idle (rn_parser ?h)" using assms(1)
    by (simp add: rnode_handler_with_identity_def rnode_handler_new_def kiss_parser_new_def vec_u8_max_data_new_def kiss_idle_def kiss_inv_def vec_wf_def)
  have "serve ?h frame reply bs = responses ?h (fst (kiss_deliver (rn_parser ?h) frame bs))" for bs
    using p assms(2,3,4) by (intro serve_responses) (simp_all add: kiss_idle_def rnode_handler_with_identity_def)
  moreover have "fst (kiss_deliver (rn_parser ?h) frame (concat (map (\<lambda>(noise, c, d). noise @ kiss_bytes c d) fs))) = map (kiss_delivered \<circ> snd) fs"
    using kiss_deliver_stream [OF p assms(2,5)] by blast
  moreover have "kiss_delivered \<circ> snd = (\<lambda>(noise :: bytes, c, d). if c = FEND \<or> c = FESC then (0, take 512 (c # d)) else (c, d))"
    by (simp add: fun_eq_iff kiss_delivered_def)
  moreover have "respond h (0, d) = (None, h)" by (simp add: respond_def)
  moreover have "rn_locked h \<longrightarrow> rn_config (snd (respond h f)) = rn_config h" using respond_locked by blast
  ultimately show ?thesis using respond_parameters [of h] by (simp only: simp_thms)
qed

abbreviation any_handler :: rnode_handler where
  "any_handler \<equiv> \<lparr>rn_parser = \<lparr>kp_state = PARSER_STATE_ESCAPE, kp_command = 0, kp_data = \<lparr>vdata = zeros 512, vlen = 0\<rparr>\<rparr>,
     rn_config = rnode_config_default, rn_state = RNODE_STATE_OFFLINE, rn_locked = False, rn_promiscuous = False, rn_stats = rnode_stats_default,
     rn_identity = rnode_identity_default, rn_random_seed = 0, rn_battery_mv = 0, rn_led_intensity = 0, rn_airtime_limit = 0\<rparr>"

theorem rnode_serves_commands_witness:
  "serve (rnode_handler_with_identity any_handler rnode_identity_default) (wframe 0 []) (wframe 0 [])
     (concat (map (\<lambda>(noise, c, d). noise @ kiss_bytes c d) [([9], 1, [0x33, 0xC0, 0xDB, 4]), ([], 1, []), ([], 4, [200]), ([], 0xC0, [5]), ([], 0x77, [])])) =
   [(1, [0x33, 0xC0, 0xDB, 4]), (1, [0x33, 0xC0, 0xDB, 4]), (4, [12]), (0x90, [0xFF])]"
proof -
  let ?fs = "[([9 :: byte], 1, [0x33, 0xC0, 0xDB, 4]), ([], 1, []), ([], 4, [200]), ([], 0xC0, [5]), ([], 0x77, [])] :: (bytes \<times> byte \<times> bytes) list"
  have r: "responses (rnode_handler_with_identity any_handler rnode_identity_default)
      (map (\<lambda>(noise, c, d). if c = FEND \<or> c = FESC then (0, take 512 (c # d)) else (c, d)) ?fs) =
    [(1, [0x33, 0xC0, 0xDB, 4]), (1, [0x33, 0xC0, 0xDB, 4]), (4, [12]), (0x90, [0xFF])]"
    by (simp add: respond_def rnode_command_from_byte_def rnode_command_table_def command_effect_def command_reply_def set_config_def Let_def
        rnode_handler_with_identity_def rnode_handler_new_def put_get_be32 u8_min_def u8_max_def)
  show ?thesis
    unfolding r [symmetric]
    by (rule rnode_serves_commands [THEN conjunct1]) (simp_all add: vec_wf_def identity_ok_def rnode_identity_default_def ascii_def)
qed

text \<open>C25. What every frame keeps: the spreading factor stays in 7 to 12, the coding rate in 5 to 8 and the power in -9 to 22 dBm whatever the host sends; a locked node does
  not change its radio configuration; statistics, identity and parser are never touched; a frame is answered unless it is a data
  frame, LEAVE or an empty ERROR, and an answer carries the command of the frame or ERROR.\<close>

theorem rnode_frame_invariant:
  assumes "config_ok (rn_config h)" "identity_ok (rn_identity h)" "vec_wf 512 (kf_data f)" "vec_wf 512 (kf_data out)"
    and "rnode_handler_process_frame h f out = (ok, h', out')"
  shows "config_ok (rn_config h') \<and> (rn_locked h \<longrightarrow> rn_config h' = rn_config h) \<and>
    rn_stats h' = rn_stats h \<and> rn_identity h' = rn_identity h \<and> rn_parser h' = rn_parser h \<and> vec_wf 512 (kf_data out') \<and>
    (ok \<longleftrightarrow> kf_command f \<noteq> 0 \<and> kf_command f \<noteq> 0x0A \<and> \<not> (kf_command f = 0x90 \<and> vlen (kf_data f) = 0)) \<and>
    (if ok then kf_command out' \<in> {kf_command f, 0x90} else out' = out)"
proof -
  note ref = process_refines_respond [OF assms(2-5)]
  have len: "length (vec_bytes (kf_data f)) = vlen (kf_data f)" using assms(3) by (simp add: vec_wf_def vec_bytes_def)
  show ?thesis
  proof (cases "kf_command f = 0 \<or> rnode_command_from_byte (kf_command f) = None")
    case True
    moreover have "rnode_command_from_byte (kf_command f) = None \<Longrightarrow> kf_command f \<noteq> rnode_command_byte c" for c by auto
    from this [of RNODE_CMD_LEAVE] this [of RNODE_CMD_ERROR]
    have "rnode_command_from_byte (kf_command f) = None \<Longrightarrow> kf_command f \<noteq> 0x0A \<and> kf_command f \<noteq> 0x90" by simp
    ultimately have "h' = h" "ok \<longleftrightarrow> kf_command f \<noteq> 0 \<and> kf_command f \<noteq> 0x0A \<and> kf_command f \<noteq> 0x90" "ok \<Longrightarrow> kf_command out' = 0x90"
      "kf_command f \<noteq> 0x90"
      using ref(1) by (auto simp: respond_def split: if_splits)
    then show ?thesis using assms(1) ref(2,3) by auto
  next
    case False
    then obtain cmd where cmd: "kf_command f = rnode_command_byte cmd" "kf_command f \<noteq> 0" by (auto simp: command_from_byte)
    let ?d = "vec_bytes (kf_data f)" and ?n = "vlen (kf_data f)"
    have r: "h' = command_effect h cmd ?d ?n"
      "map_option (\<lambda>(reply, bs). (rnode_command_byte reply, bs)) (command_reply h' cmd ?d ?n) = (if ok then Some (kf_command out', vec_bytes (kf_data out')) else None)"
      using ref(1) cmd by (auto simp: respond_def len Let_def)
    have ok: "ok \<longleftrightarrow> command_reply h' cmd ?d ?n \<noteq> None" using r(2) by (cases "command_reply h' cmd ?d ?n"; cases ok) simp_all
    have "rnode_command_byte cmd = 0x0A \<longleftrightarrow> cmd = RNODE_CMD_LEAVE" "rnode_command_byte cmd = 0x90 \<longleftrightarrow> cmd = RNODE_CMD_ERROR"
      by (cases cmd; simp)+
    then have ok': "ok \<longleftrightarrow> kf_command f \<noteq> 0 \<and> kf_command f \<noteq> 0x0A \<and> \<not> (kf_command f = 0x90 \<and> ?n = 0)"
      using cmd ok reply_None by auto
    have "ok \<Longrightarrow> kf_command out' \<in> {kf_command f, 0x90}"
      using r(2) cmd(1) reply_command [of h' cmd ?d ?n] by (auto split: if_splits)
    then have out: "if ok then kf_command out' \<in> {kf_command f, 0x90} else out' = out" using ref(3) by auto
    have "config_ok (rn_config h')" "rn_locked h \<longrightarrow> rn_config h' = rn_config h" "rn_stats h' = rn_stats h"
      "rn_identity h' = rn_identity h" "rn_parser h' = rn_parser h"
      unfolding r(1) using effect_config_ok [OF assms(1)] effect_locked effect_kept by blast+
    then show ?thesis using ok' out ref(2) by (intro conjI)
  qed
qed

theorem rnode_frame_invariant_witness:
  "case rnode_handler_process_frame (any_handler\<lparr>rn_locked := True\<rparr>) (wframe 4 [200]) (wframe 0 []) of (ok, h', out') \<Rightarrow>
     ok \<and> rn_config h' = rnode_config_default"
proof -
  obtain ok h' out' where r: "rnode_handler_process_frame (any_handler\<lparr>rn_locked := True\<rparr>) (wframe 4 [200]) (wframe 0 []) = (ok, h', out')"
    by (metis prod_cases3)
  have "config_ok (rn_config (any_handler\<lparr>rn_locked := True\<rparr>))" "identity_ok (rn_identity (any_handler\<lparr>rn_locked := True\<rparr>))"
    "vec_wf 512 (kf_data (wframe 4 [200]))" "vec_wf 512 (kf_data (wframe 0 []))"
    by (simp_all add: vec_wf_def identity_ok_def rnode_identity_default_def ascii_def)
  from rnode_frame_invariant [OF this r] have "ok \<and> rn_config h' = rnode_config_default" by simp
  then show ?thesis unfolding r by simp
qed

end
