(* ===== verification/Ota.thy ===== *)
theory Ota
  imports Sha256 Crypto_Util
begin

unbundle bit_operations_syntax

text \<open>
  The firmware update of \<^verbatim>\<open>lunar/ota.c\<close>: the signed header, the state machine that receives header and image, and the final verification. The
  flash driver (\<^verbatim>\<open>esp_ota_*\<close>) and Ed25519 are arguments: a driver is a function that decides, from the calls made so far, whether the next
  call succeeds, and the model keeps the list of calls. What is shown is about that list: which image the boot partition
  is ever switched to, and that a signed image arrives however it is cut.
\<close>

section \<open>Headers\<close>

abbreviation MAX_FIRMWARE_SIZE :: u32 where "MAX_FIRMWARE_SIZE \<equiv> 3584000"
abbreviation OTA_HEADER_SIZE :: nat where "OTA_HEADER_SIZE \<equiv> 144"
abbreviation OTA_HEADER_VERSION :: byte where "OTA_HEADER_VERSION \<equiv> 1"

definition OTA_HEADER_MAGIC :: bytes where
  "OTA_HEADER_MAGIC = [0x4C, 0x55, 0x4E, 0x41]"

definition ct_key_eq :: "bytes \<Rightarrow> bytes \<Rightarrow> bool" where
  "ct_key_eq a b \<longleftrightarrow> ct_diff 32 a b = 0"

definition pack_version :: "byte \<Rightarrow> byte \<Rightarrow> byte \<Rightarrow> u32" where
  "pack_version major minor patch = push_bit 16 (ucast major) OR push_bit 8 (ucast minor) OR ucast patch"

record ota_header =
  oh_magic :: bytes
  oh_version :: byte
  oh_header_size :: byte
  oh_fw_major :: byte
  oh_fw_minor :: byte
  oh_fw_patch :: byte
  oh_reserved :: bytes
  oh_firmware_size :: u32
  oh_firmware_hash :: bytes
  oh_signature :: bytes
  oh_public_key :: bytes

definition zero_header :: ota_header where
  "zero_header = \<lparr>oh_magic = zeros 4, oh_version = 0, oh_header_size = 0, oh_fw_major = 0, oh_fw_minor = 0, oh_fw_patch = 0,
     oh_reserved = zeros 3, oh_firmware_size = 0, oh_firmware_hash = zeros 32, oh_signature = zeros 64, oh_public_key = zeros 32\<rparr>"

definition ota_header_from_bytes :: "bytes \<Rightarrow> ota_header option" where
  "ota_header_from_bytes d =
     (if length d < OTA_HEADER_SIZE then None
      else if slice d 0 4 \<noteq> OTA_HEADER_MAGIC then None
      else if d ! 4 \<noteq> OTA_HEADER_VERSION then None
      else Some \<lparr>oh_magic = slice d 0 4, oh_version = d ! 4, oh_header_size = d ! 5, oh_fw_major = d ! 6, oh_fw_minor = d ! 7, oh_fw_patch = d ! 8,
        oh_reserved = slice d 9 3,
        oh_firmware_size = ucast (d ! 12) OR push_bit 8 (ucast (d ! 13)) OR push_bit 16 (ucast (d ! 14)) OR push_bit 24 (ucast (d ! 15)),
        oh_firmware_hash = slice d 16 32, oh_signature = slice d 48 64, oh_public_key = slice d 112 32\<rparr>)"

text \<open>The bytes written at \<^verbatim>\<open>&buf[idx]\<close>, and how many they are.\<close>

definition write_u8_to_buf :: "byte \<Rightarrow> bytes \<Rightarrow> nat \<Rightarrow> nat \<times> bytes" where
  "write_u8_to_buf val buf idx =
     (if val \<ge> 100 then (3, buf[idx := 0x30 + val div 100, idx + 1 := 0x30 + (val div 10) mod 10, idx + 2 := 0x30 + val mod 10])
      else if val \<ge> 10 then (2, buf[idx := 0x30 + val div 10, idx + 1 := 0x30 + val mod 10])
      else (1, buf[idx := 0x30 + val]))"

definition ota_header_version_string :: "ota_header \<Rightarrow> bytes" where
  "ota_header_version_string header =
     (let buf = zeros 12; idx = 0;
          (n, buf) = write_u8_to_buf (oh_fw_major header) buf idx; idx = idx + n;
          buf = buf[idx := 0x2E]; idx = idx + 1;
          (n, buf) = write_u8_to_buf (oh_fw_minor header) buf idx; idx = idx + n;
          buf = buf[idx := 0x2E]; idx = idx + 1
      in snd (write_u8_to_buf (oh_fw_patch header) buf idx))"

section \<open>The manager\<close>

datatype ota_error =
    OTA_ERROR_INVALID_HEADER | OTA_ERROR_SIGNATURE_INVALID | OTA_ERROR_HASH_MISMATCH | OTA_ERROR_TOO_LARGE
  | OTA_ERROR_FLASH_ERROR | OTA_ERROR_PARTITION_ERROR | OTA_ERROR_BUSY | OTA_ERROR_ABORTED | OTA_ERROR_TIMEOUT
  | OTA_ERROR_ROLLED_BACK | OTA_ERROR_DOWNGRADE_REJECTED | OTA_ERROR_NO_TRUSTED_KEYS

text \<open>The enumeration starts at 0, and functions report an error as its negative value.\<close>

fun ota_error_value :: "ota_error \<Rightarrow> int" where
  "ota_error_value OTA_ERROR_INVALID_HEADER = 0"
| "ota_error_value OTA_ERROR_SIGNATURE_INVALID = 1"
| "ota_error_value OTA_ERROR_HASH_MISMATCH = 2"
| "ota_error_value OTA_ERROR_TOO_LARGE = 3"
| "ota_error_value OTA_ERROR_FLASH_ERROR = 4"
| "ota_error_value OTA_ERROR_PARTITION_ERROR = 5"
| "ota_error_value OTA_ERROR_BUSY = 6"
| "ota_error_value OTA_ERROR_ABORTED = 7"
| "ota_error_value OTA_ERROR_TIMEOUT = 8"
| "ota_error_value OTA_ERROR_ROLLED_BACK = 9"
| "ota_error_value OTA_ERROR_DOWNGRADE_REJECTED = 10"
| "ota_error_value OTA_ERROR_NO_TRUSTED_KEYS = 11"

datatype ota_state_type =
    OTA_STATE_IDLE | OTA_STATE_RECEIVING_HEADER | OTA_STATE_RECEIVING | OTA_STATE_VERIFYING | OTA_STATE_WRITING
  | OTA_STATE_COMPLETE | OTA_STATE_ERROR

record ota_state =
  os_type :: ota_state_type
  os_error :: ota_error

record ota_manager =
  om_state :: ota_state
  om_header_buf :: bytes
  om_header_received :: nat
  om_header :: ota_header
  om_header_valid :: bool
  om_bytes_received :: u32
  om_hasher :: sha256
  om_partition_handle :: int
  om_ota_handle :: u32
  om_trusted_keys :: "bytes list"
  om_trusted_key_count :: nat
  om_progress_percent :: byte
  om_min_version :: u32

text \<open>The calls of the flash driver. A driver answers whether a call succeeds (for \<open>GetNextPartition\<close>: whether there is a partition) and which handle
  \<^verbatim>\<open>esp_ota_begin\<close> gives out, from the calls that came before.\<close>

datatype esp_call = GetNextPartition | EspBegin | EspWrite u32 bytes | EspEnd u32 | SetBootPartition | EspAbort u32

record esp_driver =
  esp_ok :: "esp_call list \<Rightarrow> esp_call \<Rightarrow> bool"
  esp_handle :: "esp_call list \<Rightarrow> u32"

definition ota_manager_new :: ota_manager where
  "ota_manager_new =
     \<lparr>om_state = \<lparr>os_type = OTA_STATE_IDLE, os_error = OTA_ERROR_ABORTED\<rparr>, om_header_buf = zeros OTA_HEADER_SIZE, om_header_received = 0,
      om_header = zero_header, om_header_valid = False, om_bytes_received = 0, om_hasher = sha256_new, om_partition_handle = - 1,
      om_ota_handle = 0, om_trusted_keys = [zeros 32, zeros 32], om_trusted_key_count = 0, om_progress_percent = 0, om_min_version = 0\<rparr>"

definition ota_manager_add_trusted_key :: "ota_manager \<Rightarrow> bytes \<Rightarrow> bool \<times> ota_manager" where
  "ota_manager_add_trusted_key mgr key =
     (if om_trusted_key_count mgr \<ge> 2 then (False, mgr)
      else (True, mgr\<lparr>om_trusted_keys := (om_trusted_keys mgr)[om_trusted_key_count mgr := slice key 0 32],
                       om_trusted_key_count := om_trusted_key_count mgr + 1\<rparr>))"

definition ota_manager_set_min_version :: "ota_manager \<Rightarrow> byte \<Rightarrow> byte \<Rightarrow> byte \<Rightarrow> ota_manager" where
  "ota_manager_set_min_version mgr major minor patch = mgr\<lparr>om_min_version := pack_version major minor patch\<rparr>"

definition ota_manager_is_version_allowed :: "ota_manager \<Rightarrow> ota_header \<Rightarrow> bool" where
  "ota_manager_is_version_allowed mgr header =
     (pack_version (oh_fw_major header) (oh_fw_minor header) (oh_fw_patch header) \<ge> om_min_version mgr)"

definition ota_manager_state :: "ota_manager \<Rightarrow> ota_state" where
  "ota_manager_state mgr = om_state mgr"

definition ota_manager_progress :: "ota_manager \<Rightarrow> byte" where
  "ota_manager_progress mgr = om_progress_percent mgr"

definition ota_manager_is_enabled :: "ota_manager \<Rightarrow> bool" where
  "ota_manager_is_enabled mgr \<longleftrightarrow> om_trusted_key_count mgr > 0"

definition set_type :: "ota_manager \<Rightarrow> ota_state_type \<Rightarrow> ota_manager" where
  "set_type mgr t = mgr\<lparr>om_state := (om_state mgr)\<lparr>os_type := t\<rparr>\<rparr>"

definition fail_with :: "ota_manager \<Rightarrow> ota_error \<Rightarrow> ota_manager" where
  "fail_with mgr e = mgr\<lparr>om_state := \<lparr>os_type = OTA_STATE_ERROR, os_error = e\<rparr>\<rparr>"

definition ota_manager_begin :: "esp_driver \<Rightarrow> ota_manager \<Rightarrow> esp_call list \<Rightarrow> int \<times> ota_manager \<times> esp_call list" where
  "ota_manager_begin drv mgr log =
     (if os_type (om_state mgr) \<noteq> OTA_STATE_IDLE then (- ota_error_value OTA_ERROR_BUSY, mgr, log)
      else let mgr = mgr\<lparr>om_header_buf := zeros OTA_HEADER_SIZE, om_header_received := 0, om_header := zero_header, om_header_valid := False,
                          om_bytes_received := 0, om_hasher := sha256_new, om_progress_percent := 0\<rparr>;
               ok = esp_ok drv log GetNextPartition; log = log @ [GetNextPartition]
           in if \<not> ok then (- ota_error_value OTA_ERROR_PARTITION_ERROR, mgr, log)
              else let ok = esp_ok drv log EspBegin; handle = esp_handle drv log; log = log @ [EspBegin]
                   in if \<not> ok then (- ota_error_value OTA_ERROR_FLASH_ERROR, mgr, log)
                      else (0, set_type (mgr\<lparr>om_ota_handle := handle\<rparr>) OTA_STATE_RECEIVING_HEADER, log))"

definition ota_manager_abort :: "ota_manager \<Rightarrow> esp_call list \<Rightarrow> ota_manager \<times> esp_call list" where
  "ota_manager_abort mgr log =
     (let (mgr, log) = (if om_ota_handle mgr \<noteq> 0 then (mgr\<lparr>om_ota_handle := 0\<rparr>, log @ [EspAbort (om_ota_handle mgr)]) else (mgr, log))
      in (set_type mgr OTA_STATE_IDLE, log))"

fun some_trusted :: "(bytes \<Rightarrow> bytes \<Rightarrow> bytes \<Rightarrow> bool) \<Rightarrow> ota_header \<Rightarrow> bytes list \<Rightarrow> bool" where
  "some_trusted ed25519_verify header [] = False"
| "some_trusted ed25519_verify header (k # ks) =
     (if ct_key_eq (oh_public_key header) k
      then if ed25519_verify (oh_public_key header) (oh_firmware_hash header) (oh_signature header) then True
           else some_trusted ed25519_verify header ks
      else some_trusted ed25519_verify header ks)"

definition ota_manager_verify_signature :: "(bytes \<Rightarrow> bytes \<Rightarrow> bytes \<Rightarrow> bool) \<Rightarrow> ota_manager \<Rightarrow> ota_header \<Rightarrow> bool" where
  "ota_manager_verify_signature ed25519_verify mgr header =
     (if om_trusted_key_count mgr = 0 then False
      else some_trusted ed25519_verify header (take (om_trusted_key_count mgr) (om_trusted_keys mgr)))"

definition ota_manager_verify_and_finish :: "esp_driver \<Rightarrow> ota_manager \<Rightarrow> esp_call list \<Rightarrow> int \<times> ota_manager \<times> esp_call list" where
  "ota_manager_verify_and_finish drv mgr log =
     (if \<not> om_header_valid mgr then (- ota_error_value OTA_ERROR_INVALID_HEADER, mgr, log)
      else let computed_hash = snd (sha256_finalize (om_hasher mgr))
      in if computed_hash \<noteq> slice (oh_firmware_hash (om_header mgr)) 0 32
         then let (mgr, log) = ota_manager_abort (fail_with mgr OTA_ERROR_HASH_MISMATCH) log
              in (- ota_error_value OTA_ERROR_HASH_MISMATCH, mgr, log)
         else let c = EspEnd (om_ota_handle mgr); ok = esp_ok drv log c; log = log @ [c]
      in if \<not> ok then (- ota_error_value OTA_ERROR_FLASH_ERROR, fail_with mgr OTA_ERROR_FLASH_ERROR, log)
         else let log = log @ [GetNextPartition]; ok = esp_ok drv log SetBootPartition; log = log @ [SetBootPartition]
      in if \<not> ok then (- ota_error_value OTA_ERROR_PARTITION_ERROR, fail_with mgr OTA_ERROR_PARTITION_ERROR, log)
         else (0, (set_type mgr OTA_STATE_COMPLETE)\<lparr>om_progress_percent := 100\<rparr>, log))"

text \<open>The results of the write functions: the return value, \<^verbatim>\<open>*bytes_written\<close> (0 when the function does not set it), the manager and the calls.\<close>

definition ota_manager_write_firmware :: "esp_driver \<Rightarrow> ota_manager \<Rightarrow> bytes \<Rightarrow> esp_call list \<Rightarrow> int \<times> nat \<times> ota_manager \<times> esp_call list" where
  "ota_manager_write_firmware drv mgr d log =
     (if \<not> om_header_valid mgr then (- ota_error_value OTA_ERROR_INVALID_HEADER, 0, mgr, log)
      else let remaining = unat (oh_firmware_size (om_header mgr) - om_bytes_received mgr);
               to_write = (if length d < remaining then length d else remaining)
      in if to_write = 0 then (0, 0, mgr, log)
         else let mgr = mgr\<lparr>om_hasher := sha256_update (om_hasher mgr) (slice d 0 to_write)\<rparr>;
                  c = EspWrite (om_ota_handle mgr) (slice d 0 to_write); ok = esp_ok drv log c; log = log @ [c]
      in if \<not> ok then (- ota_error_value OTA_ERROR_FLASH_ERROR, 0, fail_with mgr OTA_ERROR_FLASH_ERROR, log)
         else let mgr = mgr\<lparr>om_bytes_received := om_bytes_received mgr + of_nat to_write\<rparr>;
                  mgr = mgr\<lparr>om_progress_percent := ucast ((ucast (om_bytes_received mgr) * 100 :: u64) div ucast (oh_firmware_size (om_header mgr)))\<rparr>
      in if om_bytes_received mgr \<ge> oh_firmware_size (om_header mgr)
         then let (result, mgr, log) = ota_manager_verify_and_finish drv (set_type mgr OTA_STATE_VERIFYING) log
              in if result \<noteq> 0 then (result, 0, mgr, log) else (0, to_write, mgr, log)
         else (0, to_write, mgr, log))"

definition ota_manager_write_header :: "(bytes \<Rightarrow> bytes \<Rightarrow> bytes \<Rightarrow> bool) \<Rightarrow> esp_driver \<Rightarrow> ota_manager \<Rightarrow> bytes \<Rightarrow> esp_call list \<Rightarrow> int \<times> nat \<times> ota_manager \<times> esp_call list" where
  "ota_manager_write_header ed25519_verify drv mgr d log =
     (let needed = OTA_HEADER_SIZE - om_header_received mgr;
          to_copy = (if length d < needed then length d else needed);
          mgr = mgr\<lparr>om_header_buf := memcpy (om_header_buf mgr) (om_header_received mgr) (slice d 0 to_copy),
                     om_header_received := om_header_received mgr + to_copy\<rparr>
      in if om_header_received mgr \<ge> OTA_HEADER_SIZE
         then case ota_header_from_bytes (om_header_buf mgr) of
                None \<Rightarrow> (- ota_error_value OTA_ERROR_INVALID_HEADER, 0, fail_with mgr OTA_ERROR_INVALID_HEADER, log)
              | Some header \<Rightarrow>
                  (let mgr = mgr\<lparr>om_header := header, om_header_valid := True\<rparr>
                   in if oh_firmware_size header > MAX_FIRMWARE_SIZE then (- ota_error_value OTA_ERROR_TOO_LARGE, 0, fail_with mgr OTA_ERROR_TOO_LARGE, log)
                      else if om_trusted_key_count mgr = 0 then (- ota_error_value OTA_ERROR_NO_TRUSTED_KEYS, 0, fail_with mgr OTA_ERROR_NO_TRUSTED_KEYS, log)
                      else if \<not> ota_manager_is_version_allowed mgr header
                      then (- ota_error_value OTA_ERROR_DOWNGRADE_REJECTED, 0, fail_with mgr OTA_ERROR_DOWNGRADE_REJECTED, log)
                      else if \<not> ota_manager_verify_signature ed25519_verify mgr header
                      then (- ota_error_value OTA_ERROR_SIGNATURE_INVALID, 0, fail_with mgr OTA_ERROR_SIGNATURE_INVALID, log)
                      else let mgr = set_type mgr OTA_STATE_RECEIVING
                           in if to_copy < length d
                              then let (result, firmware_written, mgr, log) = ota_manager_write_firmware drv mgr (drop to_copy d) log
                                   in (result, to_copy + firmware_written, mgr, log)
                              else (0, to_copy, mgr, log))
         else (0, to_copy, mgr, log))"

definition ota_manager_write :: "(bytes \<Rightarrow> bytes \<Rightarrow> bytes \<Rightarrow> bool) \<Rightarrow> esp_driver \<Rightarrow> ota_manager \<Rightarrow> bytes \<Rightarrow> esp_call list \<Rightarrow> int \<times> nat \<times> ota_manager \<times> esp_call list" where
  "ota_manager_write ed25519_verify drv mgr d log =
     (case os_type (om_state mgr) of
        OTA_STATE_IDLE \<Rightarrow> (- ota_error_value OTA_ERROR_ABORTED, 0, mgr, log)
      | OTA_STATE_ERROR \<Rightarrow> (- ota_error_value (os_error (om_state mgr)), 0, mgr, log)
      | OTA_STATE_RECEIVING_HEADER \<Rightarrow> ota_manager_write_header ed25519_verify drv mgr d log
      | OTA_STATE_RECEIVING \<Rightarrow> ota_manager_write_firmware drv mgr d log
      | OTA_STATE_WRITING \<Rightarrow> ota_manager_write_firmware drv mgr d log
      | OTA_STATE_VERIFYING \<Rightarrow> (0, 0, mgr, log)
      | OTA_STATE_COMPLETE \<Rightarrow> (0, 0, mgr, log))"

text \<open>The functions that only pass a result of the platform on: \<open>ret_ok\<close> is \<^verbatim>\<open>ret == ESP_OK\<close>.\<close>

definition ota_manager_trusted_key_count :: "ota_manager \<Rightarrow> nat" where
  "ota_manager_trusted_key_count mgr = om_trusted_key_count mgr"

definition ota_manager_confirm :: "bool \<Rightarrow> int" where
  "ota_manager_confirm ret_ok = (if \<not> ret_ok then - ota_error_value OTA_ERROR_PARTITION_ERROR else 0)"

definition ota_manager_rollback :: "bool \<Rightarrow> int" where
  "ota_manager_rollback ret_ok = (if \<not> ret_ok then - ota_error_value OTA_ERROR_ROLLED_BACK else 0)"

record partition_info =
  pi_address :: u32
  pi_size :: u32
  pi_label :: bytes

text \<open>\<open>running\<close> is the result of \<^verbatim>\<open>esp_ota_get_running_partition\<close>: address, size and label.\<close>

definition ota_manager_get_running_partition :: "(u32 \<times> u32 \<times> bytes) option \<Rightarrow> partition_info \<Rightarrow> bool \<times> partition_info" where
  "ota_manager_get_running_partition running info = (case running of
     None \<Rightarrow> (False, info)
   | Some (address, psize, label) \<Rightarrow>
       (let label_len = length label; label_len = (if label_len > 15 then 15 else label_len)
        in (True, info\<lparr>pi_address := address, pi_size := psize, pi_label := memcpy (zeros 16) 0 (slice label 0 label_len)\<rparr>)))"

section \<open>Commands\<close>

datatype ota_command =
    OTA_COMMAND_BEGIN | OTA_COMMAND_DATA | OTA_COMMAND_END | OTA_COMMAND_ABORT | OTA_COMMAND_STATUS | OTA_COMMAND_CONFIRM
  | OTA_COMMAND_ROLLBACK | OTA_COMMAND_REBOOT

definition ota_command_from_u8 :: "byte \<Rightarrow> ota_command" where
  "ota_command_from_u8 v =
     (if v = 0x01 then OTA_COMMAND_BEGIN else if v = 0x02 then OTA_COMMAND_DATA else if v = 0x03 then OTA_COMMAND_END
      else if v = 0x04 then OTA_COMMAND_ABORT else if v = 0x05 then OTA_COMMAND_STATUS else if v = 0x06 then OTA_COMMAND_CONFIRM
      else if v = 0x07 then OTA_COMMAND_ROLLBACK else if v = 0x08 then OTA_COMMAND_REBOOT else OTA_COMMAND_STATUS)"

section \<open>What reaches the flash\<close>

text \<open>The bytes written since the last \<open>EspBegin\<close>, and the images for which the boot partition was switched.\<close>

fun image_step :: "bytes \<Rightarrow> esp_call \<Rightarrow> bytes" where
  "image_step img EspBegin = []"
| "image_step img (EspWrite h d) = img @ d"
| "image_step img _ = img"

definition flash_image :: "esp_call list \<Rightarrow> bytes" where
  "flash_image log = foldl image_step [] log"

lemma flash_image_snoc [simp]: "flash_image (log @ [c]) = image_step (flash_image log) c"
  by (simp add: flash_image_def)

definition boots_step :: "bytes list \<times> bytes \<Rightarrow> esp_call \<Rightarrow> bytes list \<times> bytes" where
  "boots_step s c = (if c = SetBootPartition then fst s @ [snd s] else fst s, image_step (snd s) c)"

definition boots :: "esp_call list \<Rightarrow> bytes list" where
  "boots log = fst (foldl boots_step ([], []) log)"

lemma boots_step_image: "snd (foldl boots_step s log) = foldl image_step (snd s) log"
  by (induction log arbitrary: s) (simp_all add: boots_step_def)

lemma boots_snoc [simp]: "boots (log @ [c]) = (if c = SetBootPartition then boots log @ [flash_image log] else boots log)"
  by (simp add: boots_def boots_step_def boots_step_image flash_image_def)

lemma log_start [simp]: "boots [] = []" "flash_image [] = []"
  by (simp_all add: boots_def flash_image_def)

lemma log_two [simp]:
  "flash_image (log @ [a, b]) = image_step (image_step (flash_image log) a) b"
  "boots (log @ [a, b]) = (if b = SetBootPartition then boots (log @ [a]) @ [flash_image (log @ [a])] else boots (log @ [a]))"
  using flash_image_snoc [of "log @ [a]" b] boots_snoc [of "log @ [a]" b] by simp_all

definition trusted :: "ota_manager \<Rightarrow> bytes set" where
  "trusted mgr = set (take (om_trusted_key_count mgr) (om_trusted_keys mgr))"

definition authentic :: "(bytes \<Rightarrow> bytes \<Rightarrow> bytes \<Rightarrow> bool) \<Rightarrow> bytes set \<Rightarrow> bytes \<Rightarrow> bool" where
  "authentic verify keys img \<longleftrightarrow> (\<exists>k \<in> keys. \<exists>signature. verify k (sha256_spec img) signature) \<and> length img \<le> 3584000"

section \<open>The update over time\<close>

datatype ota_event = OtaBegin | OtaWrite bytes | OtaAbort | OtaAddKey bytes | OtaSetMin byte byte byte

inductive ota_step :: "(bytes \<Rightarrow> bytes \<Rightarrow> bytes \<Rightarrow> bool) \<Rightarrow> esp_driver \<Rightarrow> ota_manager \<times> esp_call list \<Rightarrow> ota_event \<Rightarrow> ota_manager \<times> esp_call list \<Rightarrow> bool"
  for verify drv where
  begin_update: "ota_manager_begin drv m log = (r, m', log') \<Longrightarrow> ota_step verify drv (m, log) OtaBegin (m', log')"
| write_data: "ota_manager_write verify drv m d log = (r, n, m', log') \<Longrightarrow> ota_step verify drv (m, log) (OtaWrite d) (m', log')"
| abort_update: "ota_manager_abort m log = (m', log') \<Longrightarrow> ota_step verify drv (m, log) OtaAbort (m', log')"
| add_key: "length k = 32 \<Longrightarrow> ota_manager_add_trusted_key m k = (ok, m') \<Longrightarrow> ota_step verify drv (m, log) (OtaAddKey k) (m', log)"
| set_min: "ota_step verify drv (m, log) (OtaSetMin a b c) (ota_manager_set_min_version m a b c, log)"

inductive ota_run :: "(bytes \<Rightarrow> bytes \<Rightarrow> bytes \<Rightarrow> bool) \<Rightarrow> esp_driver \<Rightarrow> ota_manager \<times> esp_call list \<Rightarrow> ota_event list \<Rightarrow> ota_manager \<times> esp_call list \<Rightarrow> bool"
  for verify drv where
  start: "ota_run verify drv s [] s"
| step: "ota_run verify drv s evs s' \<Longrightarrow> ota_step verify drv s' ev s'' \<Longrightarrow> ota_run verify drv s (evs @ [ev]) s''"

section \<open>The invariant\<close>

definition keys_ok :: "ota_manager \<Rightarrow> bool" where
  "keys_ok m \<longleftrightarrow> om_trusted_key_count m \<le> 2 \<and> length (om_trusted_keys m) = 2 \<and> (\<forall>k \<in> set (om_trusted_keys m). length k = 32)"

text \<open>The manager has accepted a header: the header names a trusted key and carries its signature of the firmware hash, and what has been written so far is in the
  hasher.\<close>

definition receiving :: "(bytes \<Rightarrow> bytes \<Rightarrow> bytes \<Rightarrow> bool) \<Rightarrow> ota_manager \<Rightarrow> bytes \<Rightarrow> bool" where
  "receiving verify m img \<longleftrightarrow>
     om_header_valid m \<and> oh_public_key (om_header m) \<in> trusted m \<and> length (oh_firmware_hash (om_header m)) = 32 \<and>
     verify (oh_public_key (om_header m)) (oh_firmware_hash (om_header m)) (oh_signature (om_header m)) \<and>
     sha256_inv (om_hasher m) img \<and> unat (om_bytes_received m) = length img \<and> length img \<le> unat (oh_firmware_size (om_header m)) \<and>
     oh_firmware_size (om_header m) \<le> MAX_FIRMWARE_SIZE"

definition ota_inv :: "(bytes \<Rightarrow> bytes \<Rightarrow> bytes \<Rightarrow> bool) \<Rightarrow> ota_manager \<Rightarrow> esp_call list \<Rightarrow> bool" where
  "ota_inv verify m log \<longleftrightarrow>
     keys_ok m \<and> (\<forall>img \<in> set (boots log). authentic verify (trusted m) img) \<and>
     (os_type (om_state m) = OTA_STATE_RECEIVING_HEADER \<longrightarrow>
        flash_image log = [] \<and> om_hasher m = sha256_new \<and> om_bytes_received m = 0 \<and> om_header_received m < 144 \<and> length (om_header_buf m) = 144) \<and>
     (os_type (om_state m) = OTA_STATE_RECEIVING \<longrightarrow> receiving verify m (flash_image log)) \<and>
     os_type (om_state m) \<noteq> OTA_STATE_WRITING \<and> os_type (om_state m) \<noteq> OTA_STATE_VERIFYING"

lemma ota_inv_new: "ota_inv verify ota_manager_new []"
  by (simp add: ota_inv_def ota_manager_new_def keys_ok_def trusted_def)

lemma ct_key_eq_iff: "length a = 32 \<Longrightarrow> length b = 32 \<Longrightarrow> ct_key_eq a b \<longleftrightarrow> a = b"
  using constant_time_eq_iff [of a b] by (simp add: ct_key_eq_def constant_time_eq_def del: constant_time_eq_iff)

lemma some_trusted_iff:
  assumes "length (oh_public_key h) = 32" "\<forall>k \<in> set ks. length k = 32"
  shows "some_trusted verify h ks \<longleftrightarrow> oh_public_key h \<in> set ks \<and> verify (oh_public_key h) (oh_firmware_hash h) (oh_signature h)"
  using assms(2) by (induction ks) (auto simp: ct_key_eq_iff assms(1))

lemma verify_signature_iff:
  assumes "keys_ok m" "length (oh_public_key h) = 32"
  shows "ota_manager_verify_signature verify m h \<longleftrightarrow> oh_public_key h \<in> trusted m \<and> verify (oh_public_key h) (oh_firmware_hash h) (oh_signature h)"
  using assms some_trusted_iff [of h "take (om_trusted_key_count m) (om_trusted_keys m)" verify]
  by (auto simp: ota_manager_verify_signature_def trusted_def keys_ok_def dest: in_set_takeD)

lemma header_lengths:
  "ota_header_from_bytes d = Some h \<Longrightarrow> length (oh_firmware_hash h) = 32 \<and> length (oh_signature h) = 64 \<and> length (oh_public_key h) = 32"
  by (auto simp: ota_header_from_bytes_def split: if_splits)

text \<open>Fields that the operations do not touch.\<close>

lemma trusted_simps [simp]:
  "trusted (set_type m t) = trusted m" "trusted (fail_with m e) = trusted m" "keys_ok (set_type m t) = keys_ok m" "keys_ok (fail_with m e) = keys_ok m"
  "os_type (om_state (set_type m t)) = t" "os_type (om_state (fail_with m e)) = OTA_STATE_ERROR"
  by (simp_all add: trusted_def set_type_def fail_with_def keys_ok_def)

lemma set_type_fields [simp]:
  "om_header (set_type m t) = om_header m" "om_header_valid (set_type m t) = om_header_valid m" "om_hasher (set_type m t) = om_hasher m"
  "om_bytes_received (set_type m t) = om_bytes_received m" "om_ota_handle (set_type m t) = om_ota_handle m"
  "om_header_received (set_type m t) = om_header_received m" "om_header_buf (set_type m t) = om_header_buf m"
  "om_trusted_key_count (set_type m t) = om_trusted_key_count m" "om_min_version (set_type m t) = om_min_version m"
  by (simp_all add: set_type_def)

lemma trusted_updates [simp]:
  "trusted (m\<lparr>om_hasher := x\<rparr>) = trusted m" "trusted (m\<lparr>om_bytes_received := y\<rparr>) = trusted m" "trusted (m\<lparr>om_progress_percent := z\<rparr>) = trusted m"
  "trusted (m\<lparr>om_header_buf := b\<rparr>) = trusted m" "trusted (m\<lparr>om_header_received := n\<rparr>) = trusted m" "trusted (m\<lparr>om_header := h\<rparr>) = trusted m"
  "trusted (m\<lparr>om_header_valid := v\<rparr>) = trusted m" "trusted (m\<lparr>om_ota_handle := w\<rparr>) = trusted m" "trusted (m\<lparr>om_min_version := q\<rparr>) = trusted m"
  by (simp_all add: trusted_def)

lemma keys_updates [simp]:
  "keys_ok (m\<lparr>om_hasher := x\<rparr>) = keys_ok m" "keys_ok (m\<lparr>om_bytes_received := y\<rparr>) = keys_ok m" "keys_ok (m\<lparr>om_progress_percent := z\<rparr>) = keys_ok m"
  "keys_ok (m\<lparr>om_header_buf := b\<rparr>) = keys_ok m" "keys_ok (m\<lparr>om_header_received := n\<rparr>) = keys_ok m" "keys_ok (m\<lparr>om_header := h\<rparr>) = keys_ok m"
  "keys_ok (m\<lparr>om_header_valid := v\<rparr>) = keys_ok m" "keys_ok (m\<lparr>om_ota_handle := w\<rparr>) = keys_ok m" "keys_ok (m\<lparr>om_min_version := q\<rparr>) = keys_ok m"
  by (simp_all add: keys_ok_def)

text \<open>In a state that neither receives nor waits for a header only the keys and the boots matter.\<close>

definition ota_safe :: "(bytes \<Rightarrow> bytes \<Rightarrow> bytes \<Rightarrow> bool) \<Rightarrow> ota_manager \<Rightarrow> esp_call list \<Rightarrow> bool" where
  "ota_safe verify m log \<longleftrightarrow> keys_ok m \<and> (\<forall>img \<in> set (boots log). authentic verify (trusted m) img)"

lemma ota_inv_resting:
  "ota_safe verify m log \<Longrightarrow> os_type (om_state m) \<in> {OTA_STATE_IDLE, OTA_STATE_COMPLETE, OTA_STATE_ERROR} \<Longrightarrow> ota_inv verify m log"
  by (auto simp: ota_inv_def ota_safe_def)

lemma abort_inv:
  assumes "ota_safe verify m log" "ota_manager_abort m log = (m', log')"
  shows "ota_inv verify m' log'"
  using assms by (intro ota_inv_resting) (auto simp: ota_manager_abort_def ota_safe_def Let_def split: if_splits)

lemma finish_inv:
  assumes "ota_safe verify m log" "receiving verify m (flash_image log)" "ota_manager_verify_and_finish drv m log = (r, m', log')"
  shows "ota_inv verify m' log'"
proof (cases "snd (sha256_finalize (om_hasher m)) = oh_firmware_hash (om_header m)")
  case False
  then have "ota_manager_abort (fail_with m OTA_ERROR_HASH_MISMATCH) log = (m', log')"
    using assms(2,3) by (auto simp: ota_manager_verify_and_finish_def receiving_def slice_0_take Let_def split: prod.splits if_splits)
  then show ?thesis using assms(1) by (intro abort_inv) (auto simp: ota_safe_def)
next
  case True
  have "sha256_spec (flash_image log) = oh_firmware_hash (om_header m)"
    using True assms(2) sha256_finalize_spec [of "om_hasher m" "flash_image log"] by (simp add: receiving_def)
  then have "authentic verify (trusted m) (flash_image log)"
    using assms(2) by (auto simp: authentic_def receiving_def word_le_nat_alt)
  then have a: "ota_safe verify m (log @ [EspEnd h])" "ota_safe verify m (log @ [EspEnd h, GetNextPartition, SetBootPartition])" for h
    using assms(1) boots_snoc [of "log @ [EspEnd h, GetNextPartition]" SetBootPartition] boots_snoc [of "log @ [EspEnd h]" GetNextPartition]
      flash_image_snoc [of "log @ [EspEnd h]" GetNextPartition] by (auto simp: ota_safe_def)
  from assms(2,3) True show ?thesis
    by (intro ota_inv_resting)
      (use a in \<open>auto simp: ota_manager_verify_and_finish_def receiving_def slice_0_take Let_def ota_safe_def split: if_splits\<close>)
qed

lemma receiving_write:
  assumes "receiving verify m img" "n \<le> unat (oh_firmware_size (om_header m) - om_bytes_received m)" "n \<le> length d"
  shows "receiving verify (m\<lparr>om_hasher := sha256_update (om_hasher m) (take n d), om_bytes_received := om_bytes_received m + of_nat n\<rparr>) (img @ take n d)"
    and "unat (om_bytes_received m + of_nat n) = length img + n"
proof -
  let ?fs = "oh_firmware_size (om_header m)" and ?br = "om_bytes_received m"
  have br: "unat ?br = length img" "length img \<le> unat ?fs" using assms(1) by (auto simp: receiving_def)
  then have "unat (?fs - ?br) = unat ?fs - length img" by (simp add: unat_sub word_le_nat_alt)
  then have n: "length img + n \<le> unat ?fs" using assms(2) br by simp
  then have "length img + n < 2 ^ 32" using unat_lt2p [of ?fs] by simp
  then show sum: "unat (?br + of_nat n) = length img + n" using br by (simp add: unat_word_ariths unat_of_nat)
  show "receiving verify (m\<lparr>om_hasher := sha256_update (om_hasher m) (take n d), om_bytes_received := ?br + of_nat n\<rparr>) (img @ take n d)"
    using assms(1,3) sum n sha256_update_inv [of "om_hasher m" img "take n d"] by (simp add: receiving_def trusted_def)
qed

lemma receiving_simps [simp]:
  "receiving verify (set_type m t) img = receiving verify m img" "receiving verify (m\<lparr>om_progress_percent := z\<rparr>) img = receiving verify m img"
  by (simp_all add: receiving_def set_type_def trusted_def)

text \<open>The manager after \<open>k\<close> bytes of \<open>d\<close> have been written.\<close>

definition written :: "ota_manager \<Rightarrow> nat \<Rightarrow> bytes \<Rightarrow> ota_manager" where
  "written m k d = m\<lparr>om_hasher := sha256_update (om_hasher m) (take k d), om_bytes_received := om_bytes_received m + of_nat k,
     om_progress_percent := ucast ((ucast (om_bytes_received m + of_nat k) * 100 :: u64) div ucast (oh_firmware_size (om_header m)))\<rparr>"

lemma write_firmware_cases:
  assumes "om_header_valid m" "k = min (length d) (unat (oh_firmware_size (om_header m) - om_bytes_received m))" "c = EspWrite (om_ota_handle m) (take k d)"
  shows "ota_manager_write_firmware drv m d log =
    (if k = 0 then (0, 0, m, log)
     else if \<not> esp_ok drv log c
     then (- 4, 0, fail_with (m\<lparr>om_hasher := sha256_update (om_hasher m) (take k d)\<rparr>) OTA_ERROR_FLASH_ERROR, log @ [c])
     else if om_bytes_received (written m k d) \<ge> oh_firmware_size (om_header m)
     then (case ota_manager_verify_and_finish drv (set_type (written m k d) OTA_STATE_VERIFYING) (log @ [c]) of
             (result, m', log') \<Rightarrow> if result \<noteq> 0 then (result, 0, m', log') else (0, k, m', log'))
     else (0, k, written m k d, log @ [c]))"
proof -
  have k: "(if length d < unat (oh_firmware_size (om_header m) - om_bytes_received m) then length d
      else unat (oh_firmware_size (om_header m) - om_bytes_received m)) = k" using assms(2) by auto
  show ?thesis
    unfolding ota_manager_write_firmware_def Let_def slice_0_take k written_def using assms(1,3) by simp
qed

lemma written_simps [simp]:
  "trusted (written m k d) = trusted m" "keys_ok (written m k d) = keys_ok m" "om_state (written m k d) = om_state m"
  "om_header (written m k d) = om_header m" "om_header_valid (written m k d) = om_header_valid m" "om_ota_handle (written m k d) = om_ota_handle m"
  "om_bytes_received (written m k d) = om_bytes_received m + of_nat k"
  by (simp_all add: written_def trusted_def keys_ok_def)

lemma firmware_inv:
  assumes "ota_safe verify m log" "receiving verify m (flash_image log)" "os_type (om_state m) = OTA_STATE_RECEIVING"
    and "ota_manager_write_firmware drv m d log = (r, n, m', log')"
  shows "ota_inv verify m' log'"
proof -
  define k where "k = min (length d) (unat (oh_firmware_size (om_header m) - om_bytes_received m))"
  define c where "c = EspWrite (om_ota_handle m) (take k d)"
  have valid: "om_header_valid m" using assms(2) by (simp add: receiving_def)
  note w = write_firmware_cases [OF valid k_def c_def, of drv log]
  have log: "flash_image (log @ [c]) = flash_image log @ take k d" "boots (log @ [c]) = boots log" by (simp_all add: c_def)
  have rec: "receiving verify (written m k d) (flash_image (log @ [c]))"
    using receiving_write(1) [OF assms(2), of k d] unfolding log written_def by (simp add: k_def)
  have safe: "ota_safe verify m0 (log @ [c])" if "keys_ok m0 = keys_ok m" "trusted m0 = trusted m" for m0
    using assms(1) that by (simp add: ota_safe_def c_def)
  consider "k = 0" | "k \<noteq> 0" "\<not> esp_ok drv log c" | "k \<noteq> 0" "esp_ok drv log c" "om_bytes_received (written m k d) \<ge> oh_firmware_size (om_header m)"
    | "k \<noteq> 0" "esp_ok drv log c" "\<not> om_bytes_received (written m k d) \<ge> oh_firmware_size (om_header m)" by blast
  then show ?thesis
  proof cases
    case 1
    then have "m' = m" "log' = log" using assms(4) w by auto
    then show ?thesis using assms(1-3) by (simp add: ota_inv_def ota_safe_def)
  next
    case 2
    then have "m' = fail_with (m\<lparr>om_hasher := sha256_update (om_hasher m) (take k d)\<rparr>) OTA_ERROR_FLASH_ERROR" "log' = log @ [c]"
      using assms(4) w by auto
    then show ?thesis using safe [of m'] by (intro ota_inv_resting) simp_all
  next
    case 3
    then obtain r' where "ota_manager_verify_and_finish drv (set_type (written m k d) OTA_STATE_VERIFYING) (log @ [c]) = (r', m', log')"
      using assms(4) w by (auto split: prod.splits if_splits)
    then show ?thesis using safe rec by (intro finish_inv) simp_all
  next
    case 4
    then have "m' = written m k d" "log' = log @ [c]" using assms(4) w by auto
    then show ?thesis using safe [of "written m k d"] rec assms(3) by (simp add: ota_inv_def ota_safe_def)
  qed
qed

lemma header_buffer:
  assumes "om_header_received m \<le> 144" "length (om_header_buf m) = 144" "n \<le> 144 - om_header_received m" "n \<le> length d"
  shows "length (memcpy (om_header_buf m) (om_header_received m) (take n d)) = 144"
  using assms by (subst length_memcpy) auto

text \<open>The checks on a complete header, in the order of the code.\<close>

definition header_verdict :: "(bytes \<Rightarrow> bytes \<Rightarrow> bytes \<Rightarrow> bool) \<Rightarrow> ota_manager \<Rightarrow> bytes \<Rightarrow> ota_error + ota_header" where
  "header_verdict verify m buf = (case ota_header_from_bytes buf of
     None \<Rightarrow> Inl OTA_ERROR_INVALID_HEADER
   | Some h \<Rightarrow>
       if oh_firmware_size h > MAX_FIRMWARE_SIZE then Inl OTA_ERROR_TOO_LARGE
       else if om_trusted_key_count m = 0 then Inl OTA_ERROR_NO_TRUSTED_KEYS
       else if pack_version (oh_fw_major h) (oh_fw_minor h) (oh_fw_patch h) < om_min_version m then Inl OTA_ERROR_DOWNGRADE_REJECTED
       else if \<not> (oh_public_key h \<in> trusted m \<and> verify (oh_public_key h) (oh_firmware_hash h) (oh_signature h)) then Inl OTA_ERROR_SIGNATURE_INVALID
       else Inr h)"

lemma header_verdict_cong:
  assumes "trusted m' = trusted m" "om_trusted_key_count m' = om_trusted_key_count m" "om_min_version m' = om_min_version m"
  shows "header_verdict verify m' buf = header_verdict verify m buf"
  unfolding header_verdict_def assms ..

definition buffered :: "ota_manager \<Rightarrow> nat \<Rightarrow> bytes \<Rightarrow> ota_manager" where
  "buffered m n d = m\<lparr>om_header_buf := memcpy (om_header_buf m) (om_header_received m) (take n d), om_header_received := om_header_received m + n\<rparr>"

lemma buffered_simps [simp]:
  "trusted (buffered m n d) = trusted m" "keys_ok (buffered m n d) = keys_ok m" "om_state (buffered m n d) = om_state m"
  "om_header_received (buffered m n d) = om_header_received m + n" "om_hasher (buffered m n d) = om_hasher m"
  "om_bytes_received (buffered m n d) = om_bytes_received m" "om_trusted_key_count (buffered m n d) = om_trusted_key_count m"
  "om_min_version (buffered m n d) = om_min_version m" "om_ota_handle (buffered m n d) = om_ota_handle m"
  by (simp_all add: buffered_def trusted_def keys_ok_def)

lemma write_header_cases:
  assumes "keys_ok m" "om_header_received m < 144" "n = min (length d) (144 - om_header_received m)" "m1 = buffered m n d"
  shows "om_header_received m1 < 144 \<Longrightarrow> ota_manager_write_header verify drv m d log = (0, n, m1, log)"
    and "\<not> om_header_received m1 < 144 \<Longrightarrow> header_verdict verify m (om_header_buf m1) = Inl e \<Longrightarrow>
      \<exists>m2. ota_manager_write_header verify drv m d log = (- ota_error_value e, 0, fail_with m2 e, log) \<and> keys_ok m2 \<and> trusted m2 = trusted m"
    and "\<not> om_header_received m1 < 144 \<Longrightarrow> header_verdict verify m (om_header_buf m1) = Inr h \<Longrightarrow>
      ota_manager_write_header verify drv m d log =
        (let m2 = set_type (m1\<lparr>om_header := h, om_header_valid := True\<rparr>) OTA_STATE_RECEIVING
         in if n < length d then (case ota_manager_write_firmware drv m2 (drop n d) log of (r, k, m', log') \<Rightarrow> (r, n + k, m', log')) else (0, n, m2, log))"
proof -
  have n: "(if length d < 144 - om_header_received m then length d else 144 - om_header_received m) = n" using assms(3) by auto
  have m1: "m\<lparr>om_header_buf := memcpy (om_header_buf m) (om_header_received m) (take n d), om_header_received := om_header_received m + n\<rparr> = m1"
    using assms(4) by (simp add: buffered_def)
  note def = ota_manager_write_header_def [of verify drv m d log, unfolded Let_def slice_0_take n m1]
  have m1s: "keys_ok m1" "trusted m1 = trusted m" "om_trusted_key_count m1 = om_trusted_key_count m" "om_min_version m1 = om_min_version m"
    using assms(1,4) by simp_all
  show "om_header_received m1 < 144 \<Longrightarrow> ota_manager_write_header verify drv m d log = (0, n, m1, log)" by (simp add: def)
  assume full: "\<not> om_header_received m1 < 144"
  show "\<exists>m2. ota_manager_write_header verify drv m d log = (- ota_error_value e, 0, fail_with m2 e, log) \<and> keys_ok m2 \<and> trusted m2 = trusted m"
    if v: "header_verdict verify m (om_header_buf m1) = Inl e"
  proof (cases "ota_header_from_bytes (om_header_buf m1)")
    case None
    then show ?thesis using full v m1s by (auto simp: def header_verdict_def)
  next
    case (Some h)
    have sig: "ota_manager_verify_signature verify (m1\<lparr>om_header := h, om_header_valid := True\<rparr>) h \<longleftrightarrow>
      oh_public_key h \<in> trusted m \<and> verify (oh_public_key h) (oh_firmware_hash h) (oh_signature h)"
      using m1s header_lengths [OF Some] by (subst verify_signature_iff) simp_all
    let ?m2 = "m1\<lparr>om_header := h, om_header_valid := True\<rparr>"
    have "ota_manager_write_header verify drv m d log = (- ota_error_value e, 0, fail_with ?m2 e, log)"
      using full v m1s Some sig by (auto simp: def header_verdict_def ota_manager_is_version_allowed_def not_le split: if_splits)
    then show ?thesis using m1s by (intro exI [of _ ?m2]) simp
  qed
  show "ota_manager_write_header verify drv m d log =
        (let m2 = set_type (m1\<lparr>om_header := h, om_header_valid := True\<rparr>) OTA_STATE_RECEIVING
         in if n < length d then (case ota_manager_write_firmware drv m2 (drop n d) log of (r, k, m', log') \<Rightarrow> (r, n + k, m', log')) else (0, n, m2, log))"
    if v: "header_verdict verify m (om_header_buf m1) = Inr h"
  proof -
    have h: "ota_header_from_bytes (om_header_buf m1) = Some h" using v by (auto simp: header_verdict_def split: option.splits if_splits)
    have sig: "ota_manager_verify_signature verify (m1\<lparr>om_header := h, om_header_valid := True\<rparr>) h \<longleftrightarrow>
      oh_public_key h \<in> trusted m \<and> verify (oh_public_key h) (oh_firmware_hash h) (oh_signature h)"
      using m1s header_lengths [OF h] by (subst verify_signature_iff) simp_all
    show ?thesis using full v m1s h sig by (auto simp: def Let_def header_verdict_def ota_manager_is_version_allowed_def not_le split: if_splits)
  qed
qed

lemma verdict_accepts:
  assumes "header_verdict verify m b = Inr h"
  shows "oh_public_key h \<in> trusted m" "verify (oh_public_key h) (oh_firmware_hash h) (oh_signature h)" "length (oh_firmware_hash h) = 32"
    "oh_firmware_size h \<le> MAX_FIRMWARE_SIZE" "ota_header_from_bytes b = Some h"
  using assms header_lengths [of b] by (auto simp: header_verdict_def split: option.splits if_splits)

lemma header_inv:
  assumes inv: "ota_inv verify m log" and st: "os_type (om_state m) = OTA_STATE_RECEIVING_HEADER"
    and w: "ota_manager_write_header verify drv m d log = (r, n', m', log')"
  shows "ota_inv verify m' log'"
proof -
  define n where "n = min (length d) (144 - om_header_received m)"
  define m1 where "m1 = buffered m n d"
  have m: "keys_ok m" "flash_image log = []" "om_hasher m = sha256_new" "om_bytes_received m = 0" "om_header_received m < 144" "length (om_header_buf m) = 144"
    and safe: "ota_safe verify m log" using inv st by (auto simp: ota_inv_def ota_safe_def)
  note c = write_header_cases [OF m(1,5) n_def m1_def]
  show ?thesis
  proof (cases "om_header_received m1 < 144")
    case True
    have "length (om_header_buf m1) = 144" using m n_def by (simp add: m1_def buffered_def header_buffer)
    then show ?thesis using c(1) [OF True] w m safe st True by (auto simp: ota_inv_def ota_safe_def m1_def)
  next
    case full: False
    show ?thesis
    proof (cases "header_verdict verify m (om_header_buf m1)")
      case (Inl e)
      from c(2) [OF full this, of drv log] obtain m2 where
        "ota_manager_write_header verify drv m d log = (- ota_error_value e, 0, fail_with m2 e, log)" "keys_ok m2" "trusted m2 = trusted m" by blast
      then show ?thesis using w safe by (intro ota_inv_resting) (auto simp: ota_safe_def)
    next
      case (Inr h)
      let ?m2 = "set_type (m1\<lparr>om_header := h, om_header_valid := True\<rparr>) OTA_STATE_RECEIVING"
      have safe2: "ota_safe verify ?m2 log" using safe by (simp add: ota_safe_def m1_def)
      have rec: "receiving verify ?m2 (flash_image log)"
        using verdict_accepts [OF Inr] m sha256_new_inv by (simp add: receiving_def m1_def)
      from c(3) [OF full Inr] w show ?thesis
        using firmware_inv [OF safe2 rec] safe2 rec
        by (auto simp: Let_def ota_inv_def ota_safe_def split: if_splits prod.splits)
    qed
  qed
qed

lemma add_key_trusted:
  assumes "keys_ok m" "length k = 32" "ota_manager_add_trusted_key m k = (ok, m')"
  shows "keys_ok m'" "trusted m \<subseteq> trusted m'"
proof -
  have "set (take n xs) \<subseteq> set (take (Suc n) (xs[n := y]))" for n and xs :: "bytes list" and y
    using take_update_cancel [of n n xs y] set_take_subset_set_take [of n "Suc n" "xs[n := y]"] by simp
  from this [of "om_trusted_key_count m" "om_trusted_keys m" "slice k 0 32"]
  show "trusted m \<subseteq> trusted m'" using assms(3) by (auto simp: ota_manager_add_trusted_key_def trusted_def split: if_splits)
  show "keys_ok m'" using assms set_update_subset_insert [of "om_trusted_keys m" "om_trusted_key_count m" "slice k 0 32"]
    by (auto simp: ota_manager_add_trusted_key_def keys_ok_def split: if_splits)
qed

lemma authentic_mono: "authentic verify ks img \<Longrightarrow> ks \<subseteq> ks' \<Longrightarrow> authentic verify ks' img"
  by (auto simp: authentic_def)

lemma step_inv:
  assumes "ota_step verify drv s ev s'" "ota_inv verify (fst s) (snd s)"
  shows "ota_inv verify (fst s') (snd s')"
  using assms
proof cases
  case (begin_update m log r m' log')
  have "ota_safe verify m log" using assms(2) begin_update by (simp add: ota_inv_def ota_safe_def)
  then show ?thesis using begin_update assms(2)
    by (auto simp: ota_manager_begin_def Let_def ota_inv_def ota_safe_def set_type_def keys_ok_def trusted_def split: if_splits)
next
  case (write_data m d log r n m' log')
  have safe: "ota_safe verify m log" using assms(2) write_data by (simp add: ota_inv_def ota_safe_def)
  have "ota_inv verify m' log'"
  proof (cases "os_type (om_state m)")
    case OTA_STATE_RECEIVING_HEADER
    then show ?thesis using header_inv [of verify m log drv d] assms(2) write_data by (simp add: ota_manager_write_def)
  next
    case OTA_STATE_RECEIVING
    then have "receiving verify m (flash_image log)" using assms(2) write_data by (simp add: ota_inv_def)
    from firmware_inv [OF safe this OTA_STATE_RECEIVING] OTA_STATE_RECEIVING write_data show ?thesis by (simp add: ota_manager_write_def)
  qed (use assms(2) write_data in \<open>auto simp: ota_manager_write_def ota_inv_def\<close>)
  then show ?thesis using write_data by simp
next
  case (abort_update m log m' log')
  then show ?thesis using abort_inv [of verify m log m' log'] assms(2) by (simp add: ota_inv_def ota_safe_def)
next
  case (add_key k m ok m' log)
  have t: "keys_ok m'" "trusted m \<subseteq> trusted m'" using add_key_trusted [of m k ok m'] add_key assms(2) by (auto simp: ota_inv_def)
  have "om_state m' = om_state m" "om_hasher m' = om_hasher m" "om_bytes_received m' = om_bytes_received m" "om_header_received m' = om_header_received m"
    "om_header_buf m' = om_header_buf m" "om_header m' = om_header m" "om_header_valid m' = om_header_valid m"
    using add_key by (auto simp: ota_manager_add_trusted_key_def split: if_splits)
  moreover have "ota_inv verify m log" using assms(2) add_key by simp
  ultimately have "ota_inv verify m' log" using t by (auto simp: ota_inv_def receiving_def intro: authentic_mono)
  then show ?thesis using add_key by simp
next
  case (set_min m log a b c)
  then show ?thesis using assms(2) by (simp add: ota_inv_def ota_manager_set_min_version_def receiving_def)
qed

lemma run_inv: "ota_run verify drv s evs s' \<Longrightarrow> ota_inv verify (fst s) (snd s) \<Longrightarrow> ota_inv verify (fst s') (snd s')"
  by (induction rule: ota_run.induct) (auto intro: step_inv)

section \<open>A signed image arrives\<close>

definition never_fails :: "esp_driver \<Rightarrow> bool" where
  "never_fails drv \<longleftrightarrow> (\<forall>log c. esp_ok drv log c)"

lemma firmware_step:
  assumes "never_fails drv" "receiving verify m img" "os_type (om_state m) = OTA_STATE_RECEIVING" "flash_image log = img" "d \<noteq> []"
    and "length img + length d \<le> unat (oh_firmware_size (om_header m))" "ota_manager_write_firmware drv m d log = (r, n, m', log')"
  shows "length img + length d < unat (oh_firmware_size (om_header m)) \<Longrightarrow>
      r = 0 \<and> os_type (om_state m') = OTA_STATE_RECEIVING \<and> receiving verify m' (img @ d) \<and> om_header m' = om_header m \<and>
      flash_image log' = img @ d \<and> boots log' = boots log"
    and "length img + length d = unat (oh_firmware_size (om_header m)) \<Longrightarrow> sha256_spec (img @ d) = oh_firmware_hash (om_header m) \<Longrightarrow>
      r = 0 \<and> os_type (om_state m') = OTA_STATE_COMPLETE \<and> om_progress_percent m' = 100 \<and> flash_image log' = img @ d \<and> boots log' = boots log @ [img @ d]"
proof -
  let ?fs = "oh_firmware_size (om_header m)" and ?br = "om_bytes_received m"
  define k where "k = min (length d) (unat (?fs - ?br))"
  define c where "c = EspWrite (om_ota_handle m) (take k d)"
  have rec: "om_header_valid m" "unat ?br = length img" "length img \<le> unat ?fs" "length (oh_firmware_hash (om_header m)) = 32"
    using assms(2) by (auto simp: receiving_def)
  have "unat (?fs - ?br) = unat ?fs - length img" using rec by (simp add: unat_sub word_le_nat_alt)
  then have k: "k = length d" using assms(6) by (simp add: k_def)
  have kle: "k \<le> unat (?fs - ?br)" "k \<le> length d" by (simp_all add: k_def)
  have br: "unat (?br + of_nat k) = length img + length d"
    using receiving_write(2) [OF assms(2), of k d] kle k by simp
  have recw: "receiving verify (written m k d) (img @ d)"
    using receiving_write(1) [OF assms(2) kle] k by (simp add: written_def)
  have w: "ota_manager_write_firmware drv m d log =
    (if om_bytes_received (written m k d) \<ge> ?fs
     then (case ota_manager_verify_and_finish drv (set_type (written m k d) OTA_STATE_VERIFYING) (log @ [c]) of
             (result, m', log') \<Rightarrow> if result \<noteq> 0 then (result, 0, m', log') else (0, k, m', log'))
     else (0, k, written m k d, log @ [c]))"
    using write_firmware_cases [OF rec(1) k_def c_def, of drv log] assms(1,5) k by (simp add: never_fails_def)
  have log: "flash_image (log @ [c]) = img @ d" "boots (log @ [c]) = boots log" using assms(4) k by (simp_all add: c_def)
  have ge: "om_bytes_received (written m k d) \<ge> ?fs \<longleftrightarrow> unat ?fs \<le> length img + length d" using br by (simp add: word_le_nat_alt)
  show "r = 0 \<and> os_type (om_state m') = OTA_STATE_RECEIVING \<and> receiving verify m' (img @ d) \<and> om_header m' = om_header m \<and>
      flash_image log' = img @ d \<and> boots log' = boots log" if "length img + length d < unat ?fs"
    using w assms(3,7) ge that recw log by auto
  show "r = 0 \<and> os_type (om_state m') = OTA_STATE_COMPLETE \<and> om_progress_percent m' = 100 \<and> flash_image log' = img @ d \<and> boots log' = boots log @ [img @ d]"
    if "length img + length d = unat ?fs" and hash: "sha256_spec (img @ d) = oh_firmware_hash (om_header m)"
  proof -
    let ?v = "set_type (written m k d) OTA_STATE_VERIFYING"
    have "snd (sha256_finalize (om_hasher ?v)) = oh_firmware_hash (om_header ?v)" "om_header_valid ?v"
      using recw sha256_finalize_spec [of "om_hasher (written m k d)" "img @ d"] hash by (simp_all add: receiving_def)
    then have "ota_manager_verify_and_finish drv ?v (log @ [c]) =
      (0, (set_type ?v OTA_STATE_COMPLETE)\<lparr>om_progress_percent := 100\<rparr>, ((log @ [c]) @ [EspEnd (om_ota_handle ?v), GetNextPartition]) @ [SetBootPartition])"
      using assms(1) rec(4) by (simp add: ota_manager_verify_and_finish_def never_fails_def slice_0_take Let_def)
    then have "r = 0" "m' = (set_type ?v OTA_STATE_COMPLETE)\<lparr>om_progress_percent := 100\<rparr>"
      "log' = ((log @ [c]) @ [EspEnd (om_ota_handle ?v), GetNextPartition]) @ [SetBootPartition]"
      using w assms(7) ge that(1) by auto
    moreover have "flash_image ((log @ [c]) @ [EspEnd h, GetNextPartition]) = img @ d" "boots ((log @ [c]) @ [EspEnd h, GetNextPartition]) = boots log" for h
      by (simp_all only: log_two log boots_snoc flash_image_snoc) (use log assms(4) k in \<open>simp_all add: c_def\<close>)
    ultimately show ?thesis by (simp only: flash_image_snoc boots_snoc) (simp add: set_type_def)
  qed
qed

text \<open>How far an update is after the bytes \<open>pre\<close> of header \<open>hb\<close> and firmware \<open>fw\<close>.\<close>

definition progress :: "(bytes \<Rightarrow> bytes \<Rightarrow> bytes \<Rightarrow> bool) \<Rightarrow> ota_header \<Rightarrow> bytes \<Rightarrow> bytes \<Rightarrow> bytes list \<Rightarrow> bytes \<Rightarrow> ota_manager \<times> esp_call list \<Rightarrow> bool" where
  "progress verify h hb fw old pre s = (case s of (m, log) \<Rightarrow>
     if length pre < 144
     then os_type (om_state m) = OTA_STATE_RECEIVING_HEADER \<and> keys_ok m \<and> header_verdict verify m hb = Inr h \<and>
       om_header_received m = length pre \<and> length (om_header_buf m) = 144 \<and> take (length pre) (om_header_buf m) = pre \<and>
       om_hasher m = sha256_new \<and> om_bytes_received m = 0 \<and> flash_image log = [] \<and> boots log = old
     else if length pre < 144 + length fw
     then os_type (om_state m) = OTA_STATE_RECEIVING \<and> receiving verify m (drop 144 pre) \<and> om_header m = h \<and> flash_image log = drop 144 pre \<and> boots log = old
     else os_type (om_state m) = OTA_STATE_COMPLETE \<and> om_progress_percent m = 100 \<and> flash_image log = fw \<and> boots log = old @ [fw])"

definition write_next :: "(bytes \<Rightarrow> bytes \<Rightarrow> bytes \<Rightarrow> bool) \<Rightarrow> esp_driver \<Rightarrow> ota_manager \<times> esp_call list \<Rightarrow> bytes \<Rightarrow> ota_manager \<times> esp_call list" where
  "write_next verify drv s d = (case s of (m, log) \<Rightarrow> case ota_manager_write verify drv m d log of (r, n, m', log') \<Rightarrow> (m', log'))"

lemma firmware_progress:
  assumes "never_fails drv" "receiving verify m (drop 144 pre)" "os_type (om_state m) = OTA_STATE_RECEIVING" "flash_image log = drop 144 pre"
    and "boots log = old" "om_header m = h" "d \<noteq> []" "length fw = unat (oh_firmware_size h)" "sha256_spec fw = oh_firmware_hash h"
    and "144 \<le> length pre" "pre @ d @ rest = hb @ fw" "length hb = 144" "ota_manager_write_firmware drv m d log = (r, n, m', log')"
  shows "progress verify h hb fw old (pre @ d) (m', log')"
proof -
  have fw: "drop 144 pre @ d @ rest = fw" using arg_cong [OF assms(11), of "drop 144"] assms(10,12) by simp
  then have len: "length (drop 144 pre) + length d \<le> unat (oh_firmware_size (om_header m))"
    using assms(6,8) by (metis le_add1 length_append add.assoc)
  note s = firmware_step [OF assms(1,2,3,4,7) len assms(13)]
  show ?thesis
  proof (cases "length (drop 144 pre) + length d < unat (oh_firmware_size (om_header m))")
    case True
    then show ?thesis using s(1) assms(5,6,8,10) by (auto simp: progress_def)
  next
    case False
    then have "length (drop 144 pre) + length d = length fw" using len assms(6,8) by simp
    then have "rest = []" "drop 144 pre @ d = fw" using fw by (auto simp: add.assoc dest: arg_cong [of _ _ length])
    then show ?thesis using s(2) False len assms(5,6,8,9,10) by (auto simp: progress_def)
  qed
qed

lemma write_progress:
  assumes "never_fails drv" "progress verify h hb fw old pre s" "fw \<noteq> []" "length fw = unat (oh_firmware_size h)" "sha256_spec fw = oh_firmware_hash h"
    and "pre @ d @ rest = hb @ fw" "length hb = 144"
  shows "progress verify h hb fw old (pre @ d) (write_next verify drv s d)"
proof -
  obtain m log where s: "s = (m, log)" by (cases s)
  obtain r n m' log' where w: "ota_manager_write verify drv m d log = (r, n, m', log')" by (metis prod_cases4)
  then have goal: "write_next verify drv s d = (m', log')" by (simp add: write_next_def s)
  consider "144 + length fw \<le> length pre" | "144 \<le> length pre" "length pre < 144 + length fw" "d = []"
    | "144 \<le> length pre" "length pre < 144 + length fw" "d \<noteq> []" | "length pre < 144" by linarith
  then show ?thesis
  proof cases
    case 1
    then have "length d = 0" using arg_cong [OF assms(6), of length] assms(7) unfolding length_append by linarith
    then have "d = []" by simp
    then show ?thesis unfolding goal using 1 assms(2) w by (simp add: progress_def s ota_manager_write_def)
  next
    case 2
    then have p: "os_type (om_state m) = OTA_STATE_RECEIVING" "om_header_valid m" using assms(2) by (auto simp: progress_def s receiving_def)
    then have "m' = m" "log' = log" using w 2(3) by (auto simp: ota_manager_write_def write_firmware_cases)
    then show ?thesis unfolding goal using 2 assms(2) by (simp add: s)
  next
    case 3
    then show ?thesis using assms w unfolding goal
      by (intro firmware_progress [OF assms(1) _ _ _ _ _ 3(3) assms(4,5) 3(1) assms(6,7)]) (auto simp: progress_def s ota_manager_write_def)
  next
    case 4
    have p: "os_type (om_state m) = OTA_STATE_RECEIVING_HEADER" "keys_ok m" "header_verdict verify m hb = Inr h" "om_header_received m = length pre"
      "length (om_header_buf m) = 144" "take (length pre) (om_header_buf m) = pre" "om_hasher m = sha256_new" "om_bytes_received m = 0"
      "flash_image log = []" "boots log = old" using assms(2) 4 by (auto simp: progress_def s)
    have w': "ota_manager_write_header verify drv m d log = (r, n, m', log')" using w p(1) by (simp add: ota_manager_write_def)
    define n0 where "n0 = min (length d) (144 - om_header_received m)"
    define m1 where "m1 = buffered m n0 d"
    have lt: "om_header_received m < 144" using p(4) 4 by simp
    note c = write_header_cases [OF p(2) lt n0_def m1_def, of verify]
    have buf: "om_header_buf m1 = pre @ take n0 d @ drop (length pre + n0) (om_header_buf m)"
      using p n0_def by (simp add: m1_def buffered_def memcpy_def)
    show ?thesis
    proof (cases "length pre + length d < 144")
      case True
      then have n0: "n0 = length d" using p(4) by (simp add: n0_def)
      then have "m' = m1" "log' = log" using c(1) [of drv log] w' True p(4) by (simp_all add: m1_def)
      moreover have "header_verdict verify m1 hb = Inr h" using p(3) header_verdict_cong [of m1 m verify hb] by (simp add: m1_def)
      ultimately show ?thesis using p True n0 buf unfolding goal by (simp add: progress_def m1_def)
    next
      case False
      have n0: "n0 = 144 - length pre" using False p(4) by (simp add: n0_def)
      have "pre @ take n0 d = hb" using arg_cong [OF assms(6), of "take 144"] assms(7) 4 n0 False by simp
      then have hb: "om_header_buf m1 = hb" using buf p(5) n0 4 by simp
      let ?m2 = "set_type (m1\<lparr>om_header := h, om_header_valid := True\<rparr>) OTA_STATE_RECEIVING"
      have full: "\<not> om_header_received m1 < 144" using n0 p(4) 4 by (simp add: m1_def)
      note w2 = c(3) [OF full, of h drv log, unfolded hb, OF p(3)]
      have rec: "receiving verify ?m2 []"
        using verdict_accepts [OF p(3)] p(7,8) sha256_new_inv by (simp add: receiving_def m1_def)
      show ?thesis
      proof (cases "n0 < length d")
        case True
        then obtain k where "ota_manager_write_firmware drv ?m2 (drop n0 d) log = (r, k, m', log')"
          using w' w2 by (auto simp: Let_def split: prod.splits)
        moreover have "hb @ drop n0 d @ rest = hb @ fw" using assms(6) \<open>pre @ take n0 d = hb\<close> by (metis append.assoc append_take_drop_id)
        ultimately have "progress verify h hb fw old (hb @ drop n0 d) (m', log')"
          using rec p(9,10) True assms(7)
          by (intro firmware_progress [OF assms(1) _ _ _ _ _ _ assms(4,5) _ _ assms(7), of _ _ _ log _ _ rest]) auto
        then show ?thesis unfolding goal using \<open>pre @ take n0 d = hb\<close> by (metis append.assoc append_take_drop_id)
      next
        case no: False
        then have "m' = ?m2" "log' = log" using w' w2 by (auto simp: Let_def)
        moreover have "pre @ d = hb" using \<open>pre @ take n0 d = hb\<close> no by simp
        ultimately show ?thesis unfolding goal using rec p(9,10) assms(3,7) by (simp add: progress_def)
      qed
    qed
  qed
qed

lemma writes_progress:
  assumes "never_fails drv" "fw \<noteq> []" "length fw = unat (oh_firmware_size h)" "sha256_spec fw = oh_firmware_hash h" "length hb = 144"
  shows "progress verify h hb fw old pre s \<Longrightarrow> pre @ concat cs = hb @ fw \<Longrightarrow> progress verify h hb fw old (hb @ fw) (foldl (write_next verify drv) s cs)"
proof (induction cs arbitrary: pre s)
  case Nil
  then show ?case by simp
next
  case (Cons c cs)
  have "pre @ c @ concat cs = hb @ fw" using Cons.prems(2) by simp
  from write_progress [OF assms(1) Cons.prems(1) assms(2-4) this assms(5)] Cons.IH [of "pre @ c"] Cons.prems(2) show ?case by simp
qed

lemma from_bytes_version:
  assumes "length buf = 144"
  shows "ota_header_from_bytes (buf[6 := a, 7 := b, 8 := c]) =
    map_option (\<lambda>h. h\<lparr>oh_fw_major := a, oh_fw_minor := b, oh_fw_patch := c\<rparr>) (ota_header_from_bytes buf)"
  using assms by (simp add: ota_header_from_bytes_def slice_def)

lemma update_completes:
  assumes "never_fails drv" "os_type (om_state m) = OTA_STATE_IDLE" "keys_ok m" "length hb = 144" "header_verdict verify m hb = Inr h"
    and "fw \<noteq> []" "length fw = unat (oh_firmware_size h)" "sha256_hash fw = oh_firmware_hash h" "concat cs = hb @ fw"
    and "ota_manager_begin drv m log = (r, m1, log1)" "foldl (write_next verify drv) (m1, log1) cs = (m2, log2)"
  shows "r = 0 \<and> os_type (om_state m2) = OTA_STATE_COMPLETE \<and> om_progress_percent m2 = 100 \<and> flash_image log2 = fw \<and> boots log2 = boots log @ [fw]"
proof -
  let ?m = "m\<lparr>om_header_buf := zeros OTA_HEADER_SIZE, om_header_received := 0, om_header := zero_header, om_header_valid := False,
      om_bytes_received := 0, om_hasher := sha256_new, om_progress_percent := 0\<rparr>"
  have b: "r = 0" "m1 = set_type (?m\<lparr>om_ota_handle := esp_handle drv (log @ [GetNextPartition])\<rparr>) OTA_STATE_RECEIVING_HEADER"
    "log1 = log @ [GetNextPartition, EspBegin]"
    using assms(1,2,10) by (auto simp: ota_manager_begin_def never_fails_def Let_def)
  have "header_verdict verify m1 hb = Inr h" using assms(5) header_verdict_cong [of m1 m verify hb] by (simp add: b(2))
  then have m1: "r = 0" "progress verify h hb fw (boots log) [] (m1, log1)"
    using assms(3) b by (simp_all add: progress_def)
  have "progress verify h hb fw (boots log) (hb @ fw) (m2, log2)"
    using writes_progress [OF assms(1,6,7) _ assms(4) m1(2), of cs] assms(8,9,11) by (simp add: sha256_hash_spec)
  then show ?thesis using m1(1) assms(4) by (simp add: progress_def)
qed

text \<open>A sample update of a one-byte image, in three pieces.\<close>

definition good_driver :: esp_driver where
  "good_driver = \<lparr>esp_ok = (\<lambda>log c. True), esp_handle = (\<lambda>log. 1)\<rparr>"

definition demo_header :: bytes where
  "demo_header = [0x4C, 0x55, 0x4E, 0x41, 1, 0, 0, 0, 0, 0, 0, 0, 1, 0, 0, 0] @ sha256_hash [7] @ zeros 64 @ zeros 32"

definition demo_chunks :: "bytes list" where
  "demo_chunks = [take 3 demo_header, drop 3 demo_header, [7]]"

definition demo_fields :: ota_header where
  "demo_fields = \<lparr>oh_magic = OTA_HEADER_MAGIC, oh_version = 1, oh_header_size = 0, oh_fw_major = 0, oh_fw_minor = 0, oh_fw_patch = 0,
     oh_reserved = zeros 3, oh_firmware_size = 1, oh_firmware_hash = sha256_hash [7], oh_signature = zeros 64, oh_public_key = zeros 32\<rparr>"

lemma demo_verdict: "header_verdict (\<lambda>k h s. True) (ota_manager_new\<lparr>om_trusted_key_count := 1\<rparr>) demo_header = Inr demo_fields"
proof -
  have len: "length (sha256_hash [7]) = 32" by simp
  have "ota_header_from_bytes demo_header = Some demo_fields"
    using len by (simp add: demo_header_def demo_fields_def ota_header_from_bytes_def slice_def OTA_HEADER_MAGIC_def zeros_def numeral_3_eq_3)
  then show ?thesis by (simp add: header_verdict_def ota_manager_new_def trusted_def pack_version_def demo_fields_def)
qed

lemma demo_simps:
  "length demo_header = 144" "concat demo_chunks = demo_header @ [7]" "oh_firmware_size demo_fields = 1" "oh_firmware_hash demo_fields = sha256_hash [7]"
  "esp_ok good_driver = (\<lambda>log c. True)"
  by (simp_all add: demo_header_def demo_chunks_def demo_fields_def good_driver_def)

lemma run_writes:
  "ota_run verify drv s evs (m, log) \<Longrightarrow> ota_run verify drv s (evs @ map OtaWrite cs) (foldl (write_next verify drv) (m, log) cs)"
proof (induction cs arbitrary: evs m log)
  case (Cons d cs)
  obtain r n m' log' where w: "ota_manager_write verify drv m d log = (r, n, m', log')" by (metis prod_cases4)
  have "ota_run verify drv s (evs @ [OtaWrite d]) (m', log')" by (rule ota_run.step [OF Cons.prems ota_step.write_data [OF w]])
  from Cons.IH [OF this] w show ?case by (simp add: write_next_def)
qed simp

lemma demo_run: "\<exists>evs m log. ota_run (\<lambda>k h s. True) good_driver (ota_manager_new, []) evs (m, log) \<and> boots log = [[7]]"
proof -
  let ?m = "ota_manager_new\<lparr>om_trusted_key_count := 1\<rparr>"
  have "ota_manager_add_trusted_key ota_manager_new (zeros 32) = (True, ?m)"
    by (simp add: ota_manager_add_trusted_key_def ota_manager_new_def)
  then have k: "ota_run (\<lambda>k h s. True) good_driver (ota_manager_new, []) [OtaAddKey (zeros 32)] (?m, [])"
    using ota_run.step [OF ota_run.start ota_step.add_key] by fastforce
  obtain r m1 log1 where b: "ota_manager_begin good_driver ?m [] = (r, m1, log1)" by (metis prod_cases3)
  obtain m2 log2 where f: "foldl (write_next (\<lambda>k h s. True) good_driver) (m1, log1) demo_chunks = (m2, log2)" by fastforce
  have "ota_run (\<lambda>k h s. True) good_driver (ota_manager_new, []) ([OtaAddKey (zeros 32)] @ [OtaBegin]) (m1, log1)"
    by (rule ota_run.step [OF k ota_step.begin_update [OF b]])
  note run_writes [OF this, of demo_chunks, unfolded f]
  moreover have "boots log2 = [[7]]"
    using update_completes [OF _ _ _ _ demo_verdict _ _ _ _ b f, of "[7]"] by (simp add: never_fails_def ota_manager_new_def keys_ok_def demo_simps boots_def)
  ultimately show ?thesis by blast
qed

section \<open>Properties\<close>

text \<open>C26. Only authentic firmware is ever made bootable: over every run of the updater from its initial state - with any sequence of begin, write, abort and configuration calls,
  any data and any failures of the flash driver - each switch of the boot partition happens when the bytes written since the last begin are an image of at most
  3584000 bytes for whose SHA-256 hash a signature of a trusted key was shown.\<close>

theorem ota_boots_only_signed:
  assumes "ota_run verify drv (ota_manager_new, []) evs (m, log)"
  shows "\<forall>img \<in> set (boots log). (\<exists>k \<in> trusted m. \<exists>signature. verify k (sha256_hash img) signature) \<and> length img \<le> 3584000"
  using run_inv [OF assms] ota_inv_new by (auto simp: ota_inv_def authentic_def sha256_hash_spec)

theorem ota_boots_only_signed_witness:
  "\<exists>evs m log. ota_run (\<lambda>k h s. True) good_driver (ota_manager_new, []) evs (m, log) \<and> boots log = [[7]]
     \<and> (\<exists>k \<in> trusted m. \<exists>signature. (\<lambda>k h s. True) k (sha256_hash [7]) signature)"
proof -
  obtain evs m log where r: "ota_run (\<lambda>k h s. True) good_driver (ota_manager_new, []) evs (m, log)" and b: "boots log = [[7]]"
    using demo_run by blast
  from ota_boots_only_signed [OF r] r b show ?thesis by auto
qed

text \<open>C27. A good update completes: with a flash driver that does not fail, an idle manager that is given a header its checks accept, followed by a non-empty image of the announced
  length and hash, in pieces of any sizes, ends complete at 100 percent, has written exactly the image, and has switched the boot partition to it once.\<close>

theorem ota_update_completes:
  assumes "never_fails drv" "os_type (om_state m) = OTA_STATE_IDLE" "keys_ok m" "length hb = 144" "header_verdict verify m hb = Inr h"
    and "fw \<noteq> []" "length fw = unat (oh_firmware_size h)" "sha256_hash fw = oh_firmware_hash h" "concat cs = hb @ fw"
    and "ota_manager_begin drv m log = (r, m1, log1)" "foldl (write_next verify drv) (m1, log1) cs = (m2, log2)"
  shows "r = 0 \<and> os_type (om_state m2) = OTA_STATE_COMPLETE \<and> om_progress_percent m2 = 100 \<and> flash_image log2 = fw \<and> boots log2 = boots log @ [fw]"
  by (rule update_completes [OF assms])

theorem ota_update_completes_witness:
  "case ota_manager_begin good_driver (ota_manager_new\<lparr>om_trusted_key_count := 1\<rparr>) [] of (r, m1, log1) \<Rightarrow>
   case foldl (write_next (\<lambda>k h s. True) good_driver) (m1, log1) demo_chunks of (m2, log2) \<Rightarrow>
   os_type (om_state m2) = OTA_STATE_COMPLETE \<and> boots log2 = [[7]]"
proof -
  let ?m = "ota_manager_new\<lparr>om_trusted_key_count := 1\<rparr>"
  obtain r m1 log1 where b: "ota_manager_begin good_driver ?m [] = (r, m1, log1)" by (metis prod_cases3)
  obtain m2 log2 where f: "foldl (write_next (\<lambda>k h s. True) good_driver) (m1, log1) demo_chunks = (m2, log2)" by fastforce
  have "r = 0 \<and> os_type (om_state m2) = OTA_STATE_COMPLETE \<and> om_progress_percent m2 = 100 \<and> flash_image log2 = [7] \<and> boots log2 = boots [] @ [[7]]"
    by (rule ota_update_completes [OF _ _ _ _ demo_verdict _ _ _ _ b f]) (simp_all add: never_fails_def ota_manager_new_def keys_ok_def demo_simps)
  then show ?thesis unfolding b f prod.case by simp
qed

text \<open>The verdict on a header, error by error: a manager that receives the last bytes of a header answers with the first check that fails - form, size, no keys, version, signature - and
  stops. Since errors are reported as negated enumeration values and INVALID_HEADER is the first of them, a malformed header is answered with 0, the value that
  stands for success. The signature covers the firmware hash alone: a header that is accepted is accepted with any other
  version that is not below the minimum.\<close>

theorem ota_header_verdict:
  assumes "keys_ok m" "os_type (om_state m) = OTA_STATE_RECEIVING_HEADER" "om_header_received m < 144" "length (om_header_buf m) = 144"
    and "length d = 144 - om_header_received m" "buf = take (om_header_received m) (om_header_buf m) @ d"
  shows "(case ota_manager_write verify drv m d log of (r, n, m', log') \<Rightarrow> log' = log \<and>
      (case header_verdict verify m buf of
         Inl e \<Rightarrow> r = - ota_error_value e \<and> n = 0 \<and> om_state m' = \<lparr>os_type = OTA_STATE_ERROR, os_error = e\<rparr> \<and> (r = 0 \<longleftrightarrow> e = OTA_ERROR_INVALID_HEADER)
       | Inr h \<Rightarrow> r = 0 \<and> n = length d \<and> os_type (om_state m') = OTA_STATE_RECEIVING \<and> om_header m' = h)) \<and>
    (\<forall>h a b c. header_verdict verify m buf = Inr h \<and> om_min_version m \<le> pack_version a b c \<longrightarrow>
       header_verdict verify m (buf[6 := a, 7 := b, 8 := c]) = Inr (h\<lparr>oh_fw_major := a, oh_fw_minor := b, oh_fw_patch := c\<rparr>))"
proof -
  define n where "n = min (length d) (144 - om_header_received m)"
  define m1 where "m1 = buffered m n d"
  have n: "n = length d" using assms(5) by (simp add: n_def)
  have buf: "om_header_buf m1 = buf" using assms(3-6) n by (simp add: m1_def buffered_def memcpy_def)
  have full: "\<not> om_header_received m1 < 144" using n assms(3,5) by (simp add: m1_def)
  note c = write_header_cases(2,3) [OF assms(1,3) n_def m1_def full, of verify, unfolded buf]
  have len: "length buf = 144" using assms(3-6) by simp
  have "header_verdict verify m (buf[6 := a, 7 := b, 8 := c]) = Inr (h\<lparr>oh_fw_major := a, oh_fw_minor := b, oh_fw_patch := c\<rparr>)"
    if h: "header_verdict verify m buf = Inr h" "om_min_version m \<le> pack_version a b c" for h a b c
    using h from_bytes_version [OF len, of a b c] verdict_accepts [OF h(1)]
    by (auto simp: header_verdict_def not_less split: if_splits)
  moreover have code: "ota_error_value e = 0 \<longleftrightarrow> e = OTA_ERROR_INVALID_HEADER" for e by (cases e) simp_all
  have w: "ota_manager_write verify drv m d log = ota_manager_write_header verify drv m d log" using assms(2) by (simp add: ota_manager_write_def)
  have "case ota_manager_write verify drv m d log of (r, n, m', log') \<Rightarrow> log' = log \<and>
      (case header_verdict verify m buf of
         Inl e \<Rightarrow> r = - ota_error_value e \<and> n = 0 \<and> om_state m' = \<lparr>os_type = OTA_STATE_ERROR, os_error = e\<rparr> \<and> (r = 0 \<longleftrightarrow> e = OTA_ERROR_INVALID_HEADER)
       | Inr h \<Rightarrow> r = 0 \<and> n = length d \<and> os_type (om_state m') = OTA_STATE_RECEIVING \<and> om_header m' = h)"
  proof (cases "header_verdict verify m buf")
    case (Inl e)
    from c(1) [OF this, of drv log] obtain m2 where "ota_manager_write_header verify drv m d log = (- ota_error_value e, 0, fail_with m2 e, log)" by blast
    then show ?thesis using Inl code w by (simp add: fail_with_def)
  next
    case (Inr h)
    from c(2) [OF this, of drv log] show ?thesis using Inr n w by (simp add: Let_def)
  qed
  ultimately show ?thesis by blast
qed

theorem ota_header_verdict_witness:
  "case ota_manager_write (\<lambda>k h s. True) \<lparr>esp_ok = (\<lambda>log c. True), esp_handle = (\<lambda>log. 1)\<rparr> (set_type ota_manager_new OTA_STATE_RECEIVING_HEADER) (zeros 144) [] of
     (r, n, m', log') \<Rightarrow> r = 0 \<and> n = 0 \<and> om_state m' = \<lparr>os_type = OTA_STATE_ERROR, os_error = OTA_ERROR_INVALID_HEADER\<rparr>"
proof -
  let ?m = "set_type ota_manager_new OTA_STATE_RECEIVING_HEADER" and ?v = "\<lambda>k h s. True"
  have v: "header_verdict ?v ?m (zeros 144) = Inl OTA_ERROR_INVALID_HEADER"
    by (simp add: header_verdict_def ota_header_from_bytes_def slice_def zeros_def OTA_HEADER_MAGIC_def)
  have "keys_ok ?m" "os_type (om_state ?m) = OTA_STATE_RECEIVING_HEADER" "om_header_received ?m < 144" "length (om_header_buf ?m) = 144"
    "length (zeros 144) = 144 - om_header_received ?m" "zeros 144 = take (om_header_received ?m) (om_header_buf ?m) @ zeros 144"
    by (simp_all add: ota_manager_new_def keys_ok_def set_type_def)
  from ota_header_verdict [where verify = ?v and drv = "\<lparr>esp_ok = (\<lambda>log c. True), esp_handle = (\<lambda>log. 1)\<rparr>" and log = "[]", OF this] show ?thesis by (auto simp: v)
qed

end
