(* ===== verification/Protobuf.thy ===== *)
theory Protobuf
  imports Byte_Codec
begin

unbundle bit_operations_syntax

text \<open>
  The first half of the protocol-buffer codec of LunarCore (\<^verbatim>\<open>meshtastic/protobuf.c\<close>, down to
  \<^verbatim>\<open>decode_user\<close>): the encoder on a fixed buffer, the decoder with its cursor, the readers on slices,
  the hexadecimal helpers and the Data, Position and User messages.

  The position and length of the decoder keep the width of \<^verbatim>\<open>size_t\<close> on the target (32 bits), because
  \<^verbatim>\<open>pos + len_sz > len\<close> wraps. A decoding loop can run forever for that reason, so it is a partial
  function: \<open>None\<close> is a loop that does not return. \<open>Some Oob\<close> is a read outside the input,
  \<open>Some (Err ())\<close> is \<^verbatim>\<open>return false\<close>.
\<close>

section \<open>The output vector\<close>

definition MAX_LORA_PAYLOAD :: nat where
  "MAX_LORA_PAYLOAD = 237"

record vec_u8 =
  vu_data :: bytes
  vu_len :: nat
  vu_capacity :: nat

definition vec_u8_init :: "bytes \<Rightarrow> nat \<Rightarrow> vec_u8" where
  "vec_u8_init buffer capacity = \<lparr>vu_data = buffer, vu_len = 0, vu_capacity = capacity\<rparr>"

definition vec_u8_push :: "vec_u8 \<Rightarrow> byte \<Rightarrow> bool \<times> vec_u8" where
  "vec_u8_push vec v =
     (if vu_len vec \<ge> vu_capacity vec then (False, vec)
      else (True, vec\<lparr>vu_data := memcpy (vu_data vec) (vu_len vec) [v], vu_len := vu_len vec + 1\<rparr>))"

definition vec_u8_extend_from_slice :: "vec_u8 \<Rightarrow> bytes \<Rightarrow> bool \<times> vec_u8" where
  "vec_u8_extend_from_slice vec xs =
     (if vu_len vec + length xs > vu_capacity vec then (False, vec)
      else (True, vec\<lparr>vu_data := memcpy (vu_data vec) (vu_len vec) xs, vu_len := vu_len vec + length xs\<rparr>))"

definition vec_u8_is_empty :: "vec_u8 \<Rightarrow> bool" where
  "vec_u8_is_empty vec \<longleftrightarrow> vu_len vec = 0"

section \<open>The encoder\<close>

text \<open>\<^verbatim>\<open>buffer_storage\<close> is the array the vector points to, and part of the vector here.\<close>

type_synonym protobuf_encoder = vec_u8

definition protobuf_encoder_init :: "bytes \<Rightarrow> protobuf_encoder" where
  "protobuf_encoder_init storage = vec_u8_init storage MAX_LORA_PAYLOAD"

text \<open>The C conjunction of two writes: the second one runs only after success of the first.\<close>

definition and_then :: "bool \<times> 'e \<Rightarrow> ('e \<Rightarrow> bool \<times> 'e) \<Rightarrow> bool \<times> 'e" where
  "and_then r f = (if fst r then f (snd r) else (False, snd r))"

lemma drop_bit_7_less:
  assumes "drop_bit 7 (v :: u64) \<noteq> 0"
  shows "unat (drop_bit 7 v) < unat v"
proof -
  have eq: "unat (drop_bit 7 v) = unat v div 128"
    by (simp add: drop_bit_eq_div unat_div)
  have "unat v \<noteq> 0" using assms by (metis bit.conj_zero_left drop_bit_of_0 unsigned_0 word_unat_eq_iff)
  then show ?thesis unfolding eq by simp
qed

function protobuf_encoder_write_varint :: "protobuf_encoder \<Rightarrow> u64 \<Rightarrow> bool \<times> protobuf_encoder" where
  "protobuf_encoder_write_varint encoder v =
     (let b = ucast (v AND 0x7F) :: byte; v = drop_bit 7 v
      in if v = 0 then vec_u8_push encoder b
         else let (ok, encoder) = vec_u8_push encoder (b OR 0x80)
              in if \<not> ok then (False, encoder) else protobuf_encoder_write_varint encoder v)"
  by pat_completeness auto
termination
  by (relation "measure (\<lambda>(_, v). unat v)") (auto intro: drop_bit_7_less)

declare protobuf_encoder_write_varint.simps [simp del]

definition zigzag32 :: "u32 \<Rightarrow> u32" where
  "zigzag32 v = push_bit 1 v XOR signed_drop_bit 31 v"

definition zigzag64 :: "u64 \<Rightarrow> u64" where
  "zigzag64 v = push_bit 1 v XOR signed_drop_bit 63 v"

definition protobuf_encoder_write_sint32 :: "protobuf_encoder \<Rightarrow> u32 \<Rightarrow> bool \<times> protobuf_encoder" where
  "protobuf_encoder_write_sint32 encoder v = protobuf_encoder_write_varint encoder (ucast (zigzag32 v))"

definition protobuf_encoder_write_sint64 :: "protobuf_encoder \<Rightarrow> u64 \<Rightarrow> bool \<times> protobuf_encoder" where
  "protobuf_encoder_write_sint64 encoder v = protobuf_encoder_write_varint encoder (zigzag64 v)"

definition WIRE_TYPE_VARINT :: byte where "WIRE_TYPE_VARINT = 0"

definition WIRE_TYPE_64BIT :: byte where "WIRE_TYPE_64BIT = 1"

definition WIRE_TYPE_LENGTH_DELIMITED :: byte where "WIRE_TYPE_LENGTH_DELIMITED = 2"

definition WIRE_TYPE_32BIT :: byte where "WIRE_TYPE_32BIT = 5"

definition protobuf_encoder_write_tag :: "protobuf_encoder \<Rightarrow> u32 \<Rightarrow> byte \<Rightarrow> bool \<times> protobuf_encoder" where
  "protobuf_encoder_write_tag encoder field_number wire_type =
     (let tag = push_bit 3 field_number OR ucast wire_type in protobuf_encoder_write_varint encoder (ucast tag))"

definition protobuf_encoder_write_varint_field :: "protobuf_encoder \<Rightarrow> u32 \<Rightarrow> u64 \<Rightarrow> bool \<times> protobuf_encoder" where
  "protobuf_encoder_write_varint_field encoder field_number v =
     (if v = 0 then (True, encoder)
      else and_then (protobuf_encoder_write_tag encoder field_number WIRE_TYPE_VARINT)
             (\<lambda>e. protobuf_encoder_write_varint e v))"

definition protobuf_encoder_write_sint32_field :: "protobuf_encoder \<Rightarrow> u32 \<Rightarrow> u32 \<Rightarrow> bool \<times> protobuf_encoder" where
  "protobuf_encoder_write_sint32_field encoder field_number v =
     (if v = 0 then (True, encoder)
      else and_then (protobuf_encoder_write_tag encoder field_number WIRE_TYPE_VARINT)
             (\<lambda>e. protobuf_encoder_write_sint32 e v))"

definition protobuf_encoder_write_bool_field :: "protobuf_encoder \<Rightarrow> u32 \<Rightarrow> bool \<Rightarrow> bool \<times> protobuf_encoder" where
  "protobuf_encoder_write_bool_field encoder field_number v =
     (if \<not> v then (True, encoder)
      else and_then (protobuf_encoder_write_tag encoder field_number WIRE_TYPE_VARINT) (\<lambda>e. vec_u8_push e 1))"

definition protobuf_encoder_write_bytes_field :: "protobuf_encoder \<Rightarrow> u32 \<Rightarrow> bytes \<Rightarrow> bool \<times> protobuf_encoder" where
  "protobuf_encoder_write_bytes_field encoder field_number xs =
     (if length xs = 0 then (True, encoder)
      else and_then (and_then (protobuf_encoder_write_tag encoder field_number WIRE_TYPE_LENGTH_DELIMITED)
             (\<lambda>e. protobuf_encoder_write_varint e (of_nat (length xs))))
             (\<lambda>e. vec_u8_extend_from_slice e xs))"

definition protobuf_encoder_write_string_field :: "protobuf_encoder \<Rightarrow> u32 \<Rightarrow> bytes \<Rightarrow> bool \<times> protobuf_encoder" where
  "protobuf_encoder_write_string_field encoder field_number s = protobuf_encoder_write_bytes_field encoder field_number s"

definition protobuf_encoder_write_fixed32_field :: "protobuf_encoder \<Rightarrow> u32 \<Rightarrow> u32 \<Rightarrow> bool \<times> protobuf_encoder" where
  "protobuf_encoder_write_fixed32_field encoder field_number v =
     (if v = 0 then (True, encoder)
      else and_then (protobuf_encoder_write_tag encoder field_number WIRE_TYPE_32BIT)
             (\<lambda>e. vec_u8_extend_from_slice e (put_le32 v)))"

definition protobuf_encoder_write_fixed64_field :: "protobuf_encoder \<Rightarrow> u32 \<Rightarrow> u64 \<Rightarrow> bool \<times> protobuf_encoder" where
  "protobuf_encoder_write_fixed64_field encoder field_number v =
     (if v = 0 then (True, encoder)
      else and_then (protobuf_encoder_write_tag encoder field_number WIRE_TYPE_64BIT)
             (\<lambda>e. vec_u8_extend_from_slice e (map (\<lambda>i. ucast (drop_bit (i * 8) v AND 0xFF)) [0..<8])))"

text \<open>\<open>junk\<close> is the uninitialised storage of the nested encoder.\<close>

definition protobuf_encoder_write_message_field ::
    "bytes \<Rightarrow> protobuf_encoder \<Rightarrow> u32 \<Rightarrow> (protobuf_encoder \<Rightarrow> bool \<times> protobuf_encoder) \<Rightarrow> bool \<times> protobuf_encoder" where
  "protobuf_encoder_write_message_field junk encoder field_number encode_fn =
     (let (ok, nested) = encode_fn (protobuf_encoder_init junk)
      in if \<not> ok then (False, encoder)
         else if vec_u8_is_empty nested then (True, encoder)
         else protobuf_encoder_write_bytes_field encoder field_number (take (vu_len nested) (vu_data nested)))"

function protobuf_encoder_encode_varint_to_slice :: "u64 \<Rightarrow> vec_u8 \<Rightarrow> vec_u8" where
  "protobuf_encoder_encode_varint_to_slice v output =
     (let b = ucast (v AND 0x7F) :: byte; v = drop_bit 7 v
      in if v = 0 then snd (vec_u8_push output b)
         else protobuf_encoder_encode_varint_to_slice v (snd (vec_u8_push output (b OR 0x80))))"
  by pat_completeness auto
termination
  by (relation "measure (\<lambda>(v, _). unat v)") (auto intro: drop_bit_7_less)

declare protobuf_encoder_encode_varint_to_slice.simps [simp del]

section \<open>The decoder\<close>

record protobuf_decoder =
  pd_data :: bytes
  pd_len :: u32
  pd_pos :: u32

definition protobuf_decoder_init :: "bytes \<Rightarrow> u32 \<Rightarrow> protobuf_decoder" where
  "protobuf_decoder_init d len = \<lparr>pd_data = d, pd_len = len, pd_pos = 0\<rparr>"

definition protobuf_decoder_has_more :: "protobuf_decoder \<Rightarrow> bool" where
  "protobuf_decoder_has_more decoder \<longleftrightarrow> pd_pos decoder < pd_len decoder"

text \<open>The byte at the cursor and the step of the cursor.\<close>

definition cursor_byte :: "protobuf_decoder \<Rightarrow> byte" where
  "cursor_byte decoder = pd_data decoder ! unat (pd_pos decoder)"

definition advance :: "protobuf_decoder \<Rightarrow> u32 \<Rightarrow> protobuf_decoder" where
  "advance decoder n = decoder\<lparr>pd_pos := pd_pos decoder + n\<rparr>"

text \<open>The value read, if the reader returns true, and the decoder after the call.\<close>

function read_varint_loop :: "protobuf_decoder \<Rightarrow> u64 \<Rightarrow> nat \<Rightarrow> u64 option \<times> protobuf_decoder" where
  "read_varint_loop decoder v shift =
     (if pd_pos decoder \<ge> pd_len decoder then (None, decoder)
      else let b = cursor_byte decoder; decoder = advance decoder 1; v = v OR push_bit shift (ucast (b AND 0x7F))
      in if b AND 0x80 = 0 then (Some v, decoder)
         else if shift + 7 \<ge> 64 then (None, decoder) else read_varint_loop decoder v (shift + 7))"
  by pat_completeness auto
termination
  by (relation "measure (\<lambda>(_, _, shift). 64 - shift)") auto

declare read_varint_loop.simps [simp del]

definition protobuf_decoder_read_varint :: "protobuf_decoder \<Rightarrow> u64 option \<times> protobuf_decoder" where
  "protobuf_decoder_read_varint decoder = read_varint_loop decoder 0 0"

definition unzigzag32 :: "u32 \<Rightarrow> u32" where
  "unzigzag32 w = drop_bit 1 w XOR (- (w AND 1))"

definition unzigzag64 :: "u64 \<Rightarrow> u64" where
  "unzigzag64 w = drop_bit 1 w XOR (- (w AND 1))"

definition protobuf_decoder_read_sint32 :: "protobuf_decoder \<Rightarrow> u32 option \<times> protobuf_decoder" where
  "protobuf_decoder_read_sint32 decoder =
     (case protobuf_decoder_read_varint decoder of
        (None, decoder) \<Rightarrow> (None, decoder)
      | (Some encoded, decoder) \<Rightarrow> (Some (unzigzag32 (ucast encoded)), decoder))"

definition protobuf_decoder_read_sint64 :: "protobuf_decoder \<Rightarrow> u64 option \<times> protobuf_decoder" where
  "protobuf_decoder_read_sint64 decoder =
     (case protobuf_decoder_read_varint decoder of
        (None, decoder) \<Rightarrow> (None, decoder)
      | (Some encoded, decoder) \<Rightarrow> (Some (unzigzag64 encoded), decoder))"

definition protobuf_decoder_read_tag :: "protobuf_decoder \<Rightarrow> (u32 \<times> byte) option \<times> protobuf_decoder" where
  "protobuf_decoder_read_tag decoder =
     (case protobuf_decoder_read_varint decoder of
        (None, decoder) \<Rightarrow> (None, decoder)
      | (Some tag, decoder) \<Rightarrow>
          (let tag32 = ucast tag :: u32 in (Some (drop_bit 3 tag32, ucast (tag32 AND 0x07)), decoder)))"

text \<open>A pointer into the input is the offset it points to. The check of the remaining length is the
  wrapping one of the code.\<close>

definition enough :: "protobuf_decoder \<Rightarrow> u32 \<Rightarrow> bool" where
  "enough decoder n \<longleftrightarrow> \<not> pd_pos decoder + n > pd_len decoder"

definition protobuf_decoder_read_bytes :: "protobuf_decoder \<Rightarrow> (u32 \<times> u32) option \<times> protobuf_decoder" where
  "protobuf_decoder_read_bytes decoder =
     (case protobuf_decoder_read_varint decoder of
        (None, decoder) \<Rightarrow> (None, decoder)
      | (Some len, decoder) \<Rightarrow>
          (let length_sz = ucast len :: u32
           in if \<not> enough decoder length_sz then (None, decoder)
              else (Some (pd_pos decoder, length_sz), advance decoder length_sz)))"

function skip_varint_bytes :: "protobuf_decoder \<Rightarrow> protobuf_decoder" where
  "skip_varint_bytes decoder =
     (if pd_pos decoder < pd_len decoder
      then let b = cursor_byte decoder; decoder = advance decoder 1
           in if b AND 0x80 = 0 then decoder else skip_varint_bytes decoder
      else decoder)"
  by pat_completeness auto
termination
proof (relation "measure (\<lambda>d. unat (pd_len d) - unat (pd_pos d))", simp, goal_cases)
  case (1 d b d')
  then have "unat (pd_pos d + 1) = unat (pd_pos d) + 1" "unat (pd_pos d) < unat (pd_len d)"
    by (auto simp: word_less_nat_alt unat_plus_one [of _ "pd_len d"])
  with 1 show ?case by (simp add: advance_def)
qed

declare skip_varint_bytes.simps [simp del]

record field_info =
  fi_field_number :: u32
  fi_wire_type :: byte
  fi_data :: u32
  fi_len :: u32

definition fixed_field :: "u32 \<Rightarrow> byte \<Rightarrow> u32 \<Rightarrow> protobuf_decoder \<Rightarrow> field_info option \<times> protobuf_decoder" where
  "fixed_field n wt k decoder =
     (if \<not> enough decoder k then (None, decoder)
      else (Some \<lparr>fi_field_number = n, fi_wire_type = wt, fi_data = pd_pos decoder, fi_len = k\<rparr>, advance decoder k))"

definition protobuf_decoder_next_field :: "protobuf_decoder \<Rightarrow> field_info option \<times> protobuf_decoder" where
  "protobuf_decoder_next_field decoder =
     (if \<not> protobuf_decoder_has_more decoder then (None, decoder)
      else case protobuf_decoder_read_tag decoder of
        (None, decoder) \<Rightarrow> (None, decoder)
      | (Some (n, wt), decoder) \<Rightarrow>
          (if wt = WIRE_TYPE_VARINT
           then let start = pd_pos decoder; decoder = skip_varint_bytes decoder
                in (Some \<lparr>fi_field_number = n, fi_wire_type = wt, fi_data = start, fi_len = pd_pos decoder - start\<rparr>, decoder)
           else if wt = WIRE_TYPE_64BIT then fixed_field n wt 8 decoder
           else if wt = WIRE_TYPE_LENGTH_DELIMITED
           then (case protobuf_decoder_read_varint decoder of
                   (None, decoder) \<Rightarrow> (None, decoder)
                 | (Some len, decoder) \<Rightarrow> fixed_field n wt (ucast len) decoder)
           else if wt = WIRE_TYPE_32BIT then fixed_field n wt 4 decoder
           else (None, decoder)))"

definition protobuf_decoder_read_fixed32 :: "protobuf_decoder \<Rightarrow> u32 option \<times> protobuf_decoder" where
  "protobuf_decoder_read_fixed32 decoder =
     (if \<not> enough decoder 4 then (None, decoder)
      else (Some (get_le32 (slice (pd_data decoder) (unat (pd_pos decoder)) 4)), advance decoder 4))"

definition protobuf_decoder_read_fixed64 :: "protobuf_decoder \<Rightarrow> u64 option \<times> protobuf_decoder" where
  "protobuf_decoder_read_fixed64 decoder =
     (if \<not> enough decoder 8 then (None, decoder)
      else (Some (get_le64 (slice (pd_data decoder) (unat (pd_pos decoder)) 8)), advance decoder 8))"

definition protobuf_decoder_skip_field :: "protobuf_decoder \<Rightarrow> byte \<Rightarrow> bool \<times> protobuf_decoder" where
  "protobuf_decoder_skip_field decoder wire_type =
     (if wire_type = WIRE_TYPE_VARINT
      then (let (r, decoder) = protobuf_decoder_read_varint decoder in (r \<noteq> None, decoder))
      else if wire_type = WIRE_TYPE_64BIT
      then (if enough decoder 8 then (True, advance decoder 8) else (False, decoder))
      else if wire_type = WIRE_TYPE_LENGTH_DELIMITED
      then (let (r, decoder) = protobuf_decoder_read_bytes decoder in (r \<noteq> None, decoder))
      else if wire_type = WIRE_TYPE_32BIT
      then (if enough decoder 4 then (True, advance decoder 4) else (False, decoder))
      else (False, decoder))"

section \<open>Readers on slices\<close>

text \<open>A slice \<^verbatim>\<open>(data, len)\<close> is the list of its bytes; a reader that advances returns the rest.\<close>

fun varint_from :: "bytes \<Rightarrow> u64 \<Rightarrow> nat \<Rightarrow> (u64 \<times> bytes) option" where
  "varint_from [] v shift = None"
| "varint_from (b # bs) v shift =
     (let v = v OR push_bit shift (ucast (b AND 0x7F))
      in if b AND 0x80 = 0 then Some (v, bs)
         else if shift + 7 \<ge> 64 then None else varint_from bs v (shift + 7))"

definition protobuf_decoder_read_varint_from_slice :: "bytes \<Rightarrow> u64 option" where
  "protobuf_decoder_read_varint_from_slice d = map_option fst (varint_from d 0 0)"

definition protobuf_decoder_read_varint_advancing :: "bytes \<Rightarrow> u64 option \<times> bytes" where
  "protobuf_decoder_read_varint_advancing d =
     (case varint_from d 0 0 of None \<Rightarrow> (None, d) | Some (v, rest) \<Rightarrow> (Some v, rest))"

definition protobuf_decoder_read_bytes_from_slice :: "bytes \<Rightarrow> bytes option \<times> bytes" where
  "protobuf_decoder_read_bytes_from_slice d =
     (case protobuf_decoder_read_varint_advancing d of
        (None, d) \<Rightarrow> (None, d)
      | (Some len, d) \<Rightarrow>
          (let length_sz = unat (ucast len :: u32)
           in if length d < length_sz then (None, d) else (Some (slice d 0 length_sz), drop length_sz d)))"

definition protobuf_decoder_read_tag_from_slice :: "bytes \<Rightarrow> (u32 \<times> byte) option \<times> bytes" where
  "protobuf_decoder_read_tag_from_slice d =
     (case protobuf_decoder_read_varint_advancing d of
        (None, d) \<Rightarrow> (None, d)
      | (Some tag, d) \<Rightarrow> (let tag32 = ucast tag :: u32 in (Some (drop_bit 3 tag32, ucast (tag32 AND 0x07)), d)))"

definition protobuf_decoder_skip_field_from_slice :: "bytes \<Rightarrow> byte \<Rightarrow> bool \<times> bytes" where
  "protobuf_decoder_skip_field_from_slice d wire_type =
     (if wire_type = WIRE_TYPE_VARINT
      then (let (r, d) = protobuf_decoder_read_varint_advancing d in (r \<noteq> None, d))
      else if wire_type = WIRE_TYPE_64BIT then (if length d \<ge> 8 then (True, drop 8 d) else (False, d))
      else if wire_type = WIRE_TYPE_LENGTH_DELIMITED
      then (let (r, d) = protobuf_decoder_read_bytes_from_slice d in (r \<noteq> None, d))
      else if wire_type = WIRE_TYPE_32BIT then (if length d \<ge> 4 then (True, drop 4 d) else (False, d))
      else (False, d))"

section \<open>The wire format\<close>

text \<open>The format the codec implements, stated on numbers: groups of seven bits, the lowest first, with
  the top bit of a byte set when another one follows.\<close>

fun varint_bytes :: "nat \<Rightarrow> bytes" where
  "varint_bytes n = (if n < 128 then [of_nat n] else of_nat (n mod 128 + 128) # varint_bytes (n div 128))"

declare varint_bytes.simps [simp del]

definition tag_bytes :: "u32 \<Rightarrow> byte \<Rightarrow> bytes" where
  "tag_bytes n wt = varint_bytes (8 * unat n + unat wt)"

datatype wire_value = Varint u64 | Fixed64 u64 | Bytes bytes | Fixed32 u32

fun wire_type_of :: "wire_value \<Rightarrow> byte" where
  "wire_type_of (Varint v) = 0"
| "wire_type_of (Fixed64 v) = 1"
| "wire_type_of (Bytes xs) = 2"
| "wire_type_of (Fixed32 v) = 5"

fun value_bytes :: "wire_value \<Rightarrow> bytes" where
  "value_bytes (Varint v) = varint_bytes (unat v)"
| "value_bytes (Fixed64 v) = le_bytes 8 v"
| "value_bytes (Bytes xs) = varint_bytes (length xs) @ xs"
| "value_bytes (Fixed32 v) = le_bytes 4 v"

type_synonym wire_field = "u32 \<times> wire_value"

definition field_bytes :: "wire_field \<Rightarrow> bytes" where
  "field_bytes f = tag_bytes (fst f) (wire_type_of (snd f)) @ value_bytes (snd f)"

definition message_bytes :: "wire_field list \<Rightarrow> bytes" where
  "message_bytes fs = concat (map field_bytes fs)"

lemma message_bytes_simps [simp]:
  "message_bytes [] = []" "message_bytes (f # fs) = field_bytes f @ message_bytes fs"
  "message_bytes (fs @ gs) = message_bytes fs @ message_bytes gs"
  by (simp_all add: message_bytes_def)

lemma mask7: "(0x7F :: 'a::len word) = mask 7"
  by (simp add: mask_eq_exp_minus_1)

lemma low7: "(ucast (v AND 0x7F :: u64) :: byte) = of_nat (unat v mod 128)"
proof -
  have "unat v mod 128 = take_bit 7 (unat v)" by (simp add: take_bit_eq_mod)
  then show ?thesis unfolding mask7 by (intro bit_word_eqI) (auto simp: bit_simps)
qed

lemma bit80: "bit (0x80 :: byte) i \<longleftrightarrow> i = 7"
proof -
  have "(0x80 :: byte) = push_bit 7 1" by simp
  then show ?thesis by (auto simp only: bit_push_bit_iff bit_1_iff) (auto simp: bit_imp_le_length)
qed

lemma continuation:
  assumes "n < 128"
  shows "(of_nat n :: byte) AND 0x80 = 0" "(of_nat n :: byte) OR 0x80 = of_nat (n + 128)" "(of_nat (n + 128) :: byte) AND 0x80 \<noteq> 0"
    "(of_nat n :: byte) AND 0x7F = of_nat n" "(of_nat (n + 128) :: byte) AND 0x7F = of_nat n"
proof -
  have n7: "\<not> bit (of_nat n :: byte) 7" by (rule bit_of_nat_small) (use assms in simp)
  then show z: "(of_nat n :: byte) AND 0x80 = 0" by (intro bit_word_eqI) (metis bit_and_iff bit80 bit_0_eq bot_apply bot_bool_def)
  then show o: "(of_nat n :: byte) OR 0x80 = of_nat (n + 128)" by (simp add: disjunctive_add_eq_or)
  have "bit (of_nat (n + 128) :: byte) 7" unfolding o [symmetric] by (simp add: bit_or_iff bit80)
  then show "(of_nat (n + 128) :: byte) AND 0x80 \<noteq> 0" by (metis bit_and_iff bit80 bit_0_eq bot_apply bot_bool_def)
  have lt: "i < 7" if "bit (of_nat n :: byte) i" for i
    using that n7 bit_imp_le_length [OF that] by (cases "i = 7") auto
  then show "(of_nat n :: byte) AND 0x7F = of_nat n"
    unfolding mask7 by (intro bit_word_eqI) (auto simp: bit_simps)
  show "(of_nat (n + 128) :: byte) AND 0x7F = of_nat n"
    unfolding o [symmetric] mask7 by (intro bit_word_eqI, unfold bit_and_iff bit_or_iff bit80 bit_mask_iff) (use lt n7 in auto)
qed

lemma drop_bit_7: "unat (drop_bit 7 v) = unat (v :: u64) div 128" "drop_bit 7 v = 0 \<longleftrightarrow> unat v < 128"
proof -
  show *: "unat (drop_bit 7 v) = unat v div 128" by (simp add: drop_bit_eq_div unat_div)
  have "drop_bit 7 v = 0 \<longleftrightarrow> unat (drop_bit 7 v) = 0" by (metis unat_eq_zero)
  then show "drop_bit 7 v = 0 \<longleftrightarrow> unat v < 128" unfolding * by auto
qed

lemma length_varint_bytes: "0 < length (varint_bytes n)" "n < 128 ^ Suc k \<Longrightarrow> length (varint_bytes n) \<le> Suc k"
proof -
  show "0 < length (varint_bytes n)" by (subst varint_bytes.simps) simp
  show "n < 128 ^ Suc k \<Longrightarrow> length (varint_bytes n) \<le> Suc k"
  proof (induction k arbitrary: n)
    case 0
    then show ?case by (subst varint_bytes.simps) simp
  next
    case (Suc k)
    then have "n div 128 < 128 ^ Suc k" by (simp add: less_mult_imp_div_less)
    from Suc.IH [OF this] show ?case by (subst varint_bytes.simps) simp
  qed
qed

lemma length_varint_u64: "length (varint_bytes (unat (v :: u64))) \<le> 10"
proof (rule length_varint_bytes(2) [where k = 9, simplified])
  show "unat v < 1180591620717411303424" using unat_lt2p [of v] by simp
qed

section \<open>Writing\<close>

text \<open>The vector after \<open>xs\<close> has been appended.\<close>

definition appended :: "vec_u8 \<Rightarrow> bytes \<Rightarrow> vec_u8" where
  "appended e xs = e\<lparr>vu_data := memcpy (vu_data e) (vu_len e) xs, vu_len := vu_len e + length xs\<rparr>"

definition vec_u8_ok :: "vec_u8 \<Rightarrow> bool" where
  "vec_u8_ok e \<longleftrightarrow> length (vu_data e) = vu_capacity e \<and> vu_len e \<le> vu_capacity e"

definition contents :: "vec_u8 \<Rightarrow> bytes" where
  "contents e = take (vu_len e) (vu_data e)"

abbreviation room :: "vec_u8 \<Rightarrow> nat \<Rightarrow> bool" where
  "room e n \<equiv> vu_len e + n \<le> vu_capacity e"

lemma appended_simps [simp]:
  "vu_len (appended e xs) = vu_len e + length xs" "vu_capacity (appended e xs) = vu_capacity e" "appended e [] = e"
  by (simp_all add: appended_def)

lemma memcpy_append:
  "off \<le> length dst \<Longrightarrow> memcpy (memcpy dst off xs) (off + length xs) ys = memcpy dst off (xs @ ys)"
  by (simp add: memcpy_def ac_simps)

lemma appended_appended [simp]:
  "vec_u8_ok e \<Longrightarrow> appended (appended e xs) ys = appended e (xs @ ys)"
  by (simp add: appended_def vec_u8_ok_def memcpy_append)

lemma appended_ok [simp]: "vec_u8_ok e \<Longrightarrow> room e (length xs) \<Longrightarrow> vec_u8_ok (appended e xs)"
  by (simp add: appended_def vec_u8_ok_def)

lemma contents_appended: "vec_u8_ok e \<Longrightarrow> contents (appended e xs) = contents e @ xs"
  by (simp add: contents_def appended_def vec_u8_ok_def)

lemma push_appended: "room e 1 \<Longrightarrow> vec_u8_push e b = (True, appended e [b])"
  by (simp add: vec_u8_push_def appended_def)

lemma extend_appended: "room e (length xs) \<Longrightarrow> vec_u8_extend_from_slice e xs = (True, appended e xs)"
  by (simp add: vec_u8_extend_from_slice_def appended_def)

lemma write_varint_appended:
  "vec_u8_ok e \<Longrightarrow> room e (length (varint_bytes (unat v))) \<Longrightarrow>
   protobuf_encoder_write_varint e v = (True, appended e (varint_bytes (unat v)))"
proof (induction e v rule: protobuf_encoder_write_varint.induct)
  case (1 e v)
  show ?case
  proof (cases "unat v < 128")
    case True
    then have "varint_bytes (unat v) = [of_nat (unat v)]" by (subst varint_bytes.simps) simp
    with True 1(3) show ?thesis
      by (subst protobuf_encoder_write_varint.simps) (simp add: drop_bit_7(2) low7 push_appended Let_def)
  next
    case False
    then have vb: "varint_bytes (unat v) = of_nat (unat v mod 128 + 128) # varint_bytes (unat (drop_bit 7 v))"
      unfolding drop_bit_7(1) by (subst varint_bytes.simps) simp
    have p: "vec_u8_push e (ucast (v AND 0x7F) OR 0x80) = (True, appended e [of_nat (unat v mod 128 + 128)])"
      using 1(3) vb continuation(2) [of "unat v mod 128"] by (simp add: push_appended low7)
    have "protobuf_encoder_write_varint (appended e [of_nat (unat v mod 128 + 128)]) (drop_bit 7 v)
        = (True, appended (appended e [of_nat (unat v mod 128 + 128)]) (varint_bytes (unat (drop_bit 7 v))))"
      using False 1(2,3) vb p by (intro 1(1)) (auto simp: drop_bit_7(2))
    with False p vb 1(2) show ?thesis
      by (subst protobuf_encoder_write_varint.simps) (simp add: drop_bit_7(2) Let_def)
  qed
qed

lemma unat_of_nat_u32: "n < 2 ^ 32 \<Longrightarrow> unat (of_nat n :: u32) = n"
  by (simp add: unat_of_nat take_bit_nat_eq_self)

lemma unat_ucast_byte: "unat (ucast (b :: byte) :: u32) = unat b" "unat (ucast (b :: byte) :: u64) = unat b"
  using unat_lt2p [of b] by (simp_all add: unsigned_ucast_eq take_bit_nat_eq_self)

lemma tag_word:
  assumes "unat (n :: u32) < 2 ^ 29" "unat (wt :: byte) < 8"
  shows "unat (push_bit 3 n OR ucast wt :: u32) = 8 * unat n + unat wt"
proof -
  have "take_bit 3 wt = wt" using assms(2) by (simp add: word_unat_eq_iff unsigned_take_bit_eq take_bit_nat_eq_self)
  then have "bit wt i \<Longrightarrow> i < 3" for i by (metis bit_take_bit_iff)
  then have "push_bit 3 n AND ucast wt = 0" by (intro bit_word_eqI) (fastforce simp: bit_simps)
  then have "push_bit 3 n OR ucast wt = push_bit 3 n + ucast wt" by (simp add: disjunctive_add_eq_or)
  also have "\<dots> = of_nat (8 * unat n + unat wt)" by (simp add: push_bit_eq_mult mult.commute)
  finally show ?thesis using assms by (simp only:) (rule unat_of_nat_u32, simp)
qed

lemma tag_parts:
  assumes "unat (n :: u32) < 2 ^ 29" "unat (wt :: byte) < 8"
  shows "drop_bit 3 (of_nat (8 * unat n + unat wt) :: u32) = n" "ucast ((of_nat (8 * unat n + unat wt) :: u32) AND 0x07) = wt"
proof -
  have u: "unat (of_nat (8 * unat n + unat wt) :: u32) = 8 * unat n + unat wt"
    by (rule unat_of_nat_u32) (use assms in simp)
  have "unat (drop_bit 3 (of_nat (8 * unat n + unat wt) :: u32)) = unat n"
    using assms(2) by (simp only: drop_bit_eq_div unat_div u) simp
  then show "drop_bit 3 (of_nat (8 * unat n + unat wt) :: u32) = n" by (simp only: word_unat_eq_iff)
  have m: "(0x07 :: u32) = mask 3" by (simp add: mask_eq_exp_minus_1)
  have "unat ((of_nat (8 * unat n + unat wt) :: u32) AND 0x07) = unat wt"
    unfolding m take_bit_eq_mask [symmetric] unsigned_take_bit_eq u using assms(2) by (simp add: take_bit_eq_mod)
  then have "(of_nat (8 * unat n + unat wt) :: u32) AND 0x07 = ucast wt"
    by (simp only: word_unat_eq_iff unat_ucast_byte)
  then show "ucast ((of_nat (8 * unat n + unat wt) :: u32) AND 0x07) = wt" by simp
qed

section \<open>Reading\<close>

text \<open>The decoder behind \<open>pre\<close>, with \<open>post\<close> still to be read.\<close>

definition cursor :: "bytes \<Rightarrow> bytes \<Rightarrow> protobuf_decoder" where
  "cursor pre post = \<lparr>pd_data = pre @ post, pd_len = of_nat (length pre + length post), pd_pos = of_nat (length pre)\<rparr>"

abbreviation addressable :: "bytes \<Rightarrow> bytes \<Rightarrow> bool" where
  "addressable pre post \<equiv> length pre + length post < 2 ^ 32"

lemma cursor_simps:
  "pd_data (cursor pre post) = pre @ post"
  "advance (cursor pre (xs @ post)) (of_nat (length xs)) = cursor (pre @ xs) post"
  "advance (cursor pre (b # post)) 1 = cursor (pre @ [b]) post"
  by (simp_all add: cursor_def advance_def)

lemma cursor_pos:
  assumes "addressable pre post"
  shows "unat (pd_pos (cursor pre post)) = length pre" "unat (pd_len (cursor pre post)) = length pre + length post"
    "pd_pos (cursor pre post) < pd_len (cursor pre post) \<longleftrightarrow> post \<noteq> []" "protobuf_decoder_has_more (cursor pre post) \<longleftrightarrow> post \<noteq> []"
proof -
  show u: "unat (pd_pos (cursor pre post)) = length pre" "unat (pd_len (cursor pre post)) = length pre + length post"
    using assms unat_of_nat_u32 [of "length pre"] unat_of_nat_u32 [of "length pre + length post"] by (auto simp: cursor_def)
  show l: "pd_pos (cursor pre post) < pd_len (cursor pre post) \<longleftrightarrow> post \<noteq> []" unfolding word_less_nat_alt u by auto
  then show "protobuf_decoder_has_more (cursor pre post) \<longleftrightarrow> post \<noteq> []" by (simp add: protobuf_decoder_has_more_def)
qed

lemma cursor_byte_Cons: "addressable pre (b # post) \<Longrightarrow> cursor_byte (cursor pre (b # post)) = b"
  by (simp add: cursor_byte_def cursor_pos cursor_simps)

lemma enough_iff:
  assumes "addressable pre post" "length pre + unat n < 2 ^ 32"
  shows "enough (cursor pre post) n \<longleftrightarrow> unat n \<le> length post"
proof -
  have "unat (pd_pos (cursor pre post) + n) = length pre + unat n"
    using assms(2) by (simp add: unat_word_ariths cursor_pos(1) [OF assms(1)])
  then show ?thesis by (simp add: enough_def word_less_nat_alt cursor_pos [OF assms(1)] not_less)
qed

lemma read_varint_loop_slice:
  "addressable pre bs \<Longrightarrow>
   (case varint_from bs v shift of
      None \<Rightarrow> fst (read_varint_loop (cursor pre bs) v shift) = None
    | Some (w, rest) \<Rightarrow> \<exists>used. bs = used @ rest \<and> read_varint_loop (cursor pre bs) v shift = (Some w, cursor (pre @ used) rest))"
proof (induction bs v shift arbitrary: pre rule: varint_from.induct)
  case (1 v shift)
  then show ?case by (subst read_varint_loop.simps) (simp add: cursor_pos not_less [symmetric])
next
  case (2 b bs v shift)
  define w where "w = v OR push_bit shift (ucast (b AND 0x7F))"
  have step: "read_varint_loop (cursor pre (b # bs)) v shift =
     (if b AND 0x80 = 0 then (Some w, cursor (pre @ [b]) bs)
      else if shift + 7 \<ge> 64 then (None, cursor (pre @ [b]) bs) else read_varint_loop (cursor (pre @ [b]) bs) w (shift + 7))"
    using 2(2) by (subst read_varint_loop.simps)
      (simp add: cursor_pos not_less [symmetric] cursor_byte_Cons cursor_simps Let_def w_def)
  show ?case
  proof (cases "b AND 0x80 = 0 \<or> shift + 7 \<ge> 64")
    case True
    then show ?thesis by (auto simp: step w_def [symmetric] intro!: exI [of _ "[b]"])
  next
    case False
    have "addressable (pre @ [b]) bs" using 2(2) by simp
    note IH = 2(1) [OF w_def _ _ this]
    show ?thesis
    proof (cases "varint_from bs w (shift + 7)")
      case None
      with IH False show ?thesis by (simp add: step w_def [symmetric])
    next
      case (Some r)
      then obtain u rest used where r: "r = (u, rest)" "bs = used @ rest"
        "read_varint_loop (cursor (pre @ [b]) bs) w (shift + 7) = (Some u, cursor ((pre @ [b]) @ used) rest)"
        using IH False by (cases r) auto
      then show ?thesis using Some False step by (auto simp: w_def [symmetric] intro!: exI [of _ "b # used"])
    qed
  qed
qed

lemma take_bit_next: "take_bit k v OR push_bit k (take_bit 7 (drop_bit k v)) = take_bit (k + 7) (v :: u64)"
  by (rule bit_word_eqI) (auto simp: bit_simps)

lemma ucast_of_nat_byte: "n < 128 \<Longrightarrow> (ucast (of_nat n :: byte) :: u64) = of_nat n"
  by (simp only: word_unat_eq_iff unat_ucast_byte) (simp add: unat_of_nat take_bit_nat_eq_self)

lemma low7_u64: "of_nat (unat v mod 128) = take_bit 7 (v :: u64)"
proof -
  have "unat (take_bit 7 v) = unat v mod 128" unfolding unsigned_take_bit_eq by (simp add: take_bit_eq_mod)
  then show ?thesis by (metis of_nat_unat ucast_id)
qed

lemma varint_from_bytes:
  "k < 64 \<Longrightarrow> varint_from (varint_bytes (unat (drop_bit k v)) @ post) (take_bit k v) k = Some (v, post)"
proof (induction "64 - k" arbitrary: k rule: less_induct)
  case less
  define n where "n = unat (drop_bit k v)"
  have acc: "take_bit k v OR push_bit k (of_nat (n mod 128)) = take_bit (k + 7) v"
    unfolding n_def low7_u64 by (rule take_bit_next)
  show ?case
  proof (cases "n < 128")
    case True
    then have "take_bit 7 (drop_bit k v) = drop_bit k v"
      unfolding n_def by (simp only: word_unat_eq_iff unsigned_take_bit_eq) (simp add: take_bit_nat_eq_self)
    then have lt: "i < 7" if "bit (drop_bit k v) i" for i using that by (metis bit_take_bit_iff)
    have "i < k + 7" if "bit v i" for i
      using that lt [of "i - k"] by (cases "i < k") (auto simp: bit_drop_bit_eq)
    then have "take_bit (k + 7) v = v" by (intro bit_word_eqI) (auto simp: bit_simps)
    with True acc show ?thesis unfolding n_def [symmetric]
      by (subst varint_bytes.simps) (simp add: continuation ucast_of_nat_byte Let_def)
  next
    case False
    have "n = unat v div 2 ^ k"
      unfolding n_def unsigned_drop_bit_eq using unat_lt2p [of v] by (simp add: drop_bit_eq_div take_bit_nat_eq_self)
    moreover have "unat v < 2 ^ (64 - k) * 2 ^ k" using unat_lt2p [of v] less(2) by (simp flip: power_add)
    ultimately have "n < 2 ^ (64 - k)" by (simp add: less_mult_imp_div_less)
    moreover have "(2 :: nat) ^ (64 - k) \<le> 2 ^ 7" if "\<not> k + 7 < 64" using that by (intro power_increasing) auto
    ultimately have k: "k + 7 < 64" using False by fastforce
    have d: "n div 128 = unat (drop_bit (k + 7) v)"
      unfolding n_def drop_bit_7(1) [symmetric] by (simp add: drop_bit_drop_bit add.commute)
    have "varint_bytes n = of_nat (n mod 128 + 128) # varint_bytes (n div 128)"
      using False by (subst varint_bytes.simps) simp
    then show ?thesis using less(1) [of "k + 7"] k acc continuation [of "n mod 128"] less(2)
      unfolding n_def [symmetric] d by (simp add: ucast_of_nat_byte Let_def)
  qed
qed

lemma read_varint_bytes:
  assumes "addressable pre (varint_bytes n @ post)" "n < 2 ^ 64"
  shows "protobuf_decoder_read_varint (cursor pre (varint_bytes n @ post)) = (Some (of_nat n), cursor (pre @ varint_bytes n) post)"
proof -
  have n: "unat (of_nat n :: u64) = n" using assms(2) by (simp add: unat_of_nat take_bit_nat_eq_self)
  have "varint_from (varint_bytes n @ post) 0 0 = Some (of_nat n, post)"
    using varint_from_bytes [of 0 "of_nat n" post] by (simp add: n)
  with read_varint_loop_slice [OF assms(1), of 0 0] show ?thesis by (auto simp: protobuf_decoder_read_varint_def)
qed

lemma read_tag_bytes:
  assumes "addressable pre (tag_bytes n wt @ post)" "unat n < 2 ^ 29" "unat wt < 8"
  shows "protobuf_decoder_read_tag (cursor pre (tag_bytes n wt @ post)) = (Some (n, wt), cursor (pre @ tag_bytes n wt) post)"
proof -
  have "protobuf_decoder_read_varint (cursor pre (tag_bytes n wt @ post)) = (Some (of_nat (8 * unat n + unat wt)), cursor (pre @ tag_bytes n wt) post)"
    unfolding tag_bytes_def by (rule read_varint_bytes) (use assms in \<open>auto simp: tag_bytes_def\<close>)
  moreover have "(ucast (of_nat k :: u64) :: u32) = of_nat k" for k by (rule bit_word_eqI) (simp add: bit_simps)
  ultimately show ?thesis using tag_parts [OF assms(2,3)] by (simp add: protobuf_decoder_read_tag_def Let_def del: of_nat_add)
qed


lemma read_bytes_bytes:
  assumes "addressable pre (value_bytes (Bytes xs) @ post)"
  shows "protobuf_decoder_read_bytes (cursor pre (value_bytes (Bytes xs) @ post)) =
    (Some (of_nat (length pre + length (varint_bytes (length xs))), of_nat (length xs)), cursor (pre @ value_bytes (Bytes xs)) post)"
proof -
  let ?v = "varint_bytes (length xs)"
  have len: "length xs < 2 ^ 32" using assms by simp
  have r: "protobuf_decoder_read_varint (cursor pre (?v @ xs @ post)) = (Some (of_nat (length xs)), cursor (pre @ ?v) (xs @ post))"
    by (rule read_varint_bytes) (use assms len in auto)
  have c: "(ucast (of_nat (length xs) :: u64) :: u32) = of_nat (length xs)" by (rule bit_word_eqI) (simp add: bit_simps)
  have "enough (cursor (pre @ ?v) (xs @ post)) (of_nat (length xs))"
    using assms len by (subst enough_iff) (simp_all add: unat_of_nat_u32)
  then show ?thesis using r by (simp add: protobuf_decoder_read_bytes_def c Let_def cursor_simps) (simp add: cursor_def)
qed

lemma slice_cursor: "slice (pd_data (cursor pre (xs @ post))) (length pre) (length xs) = xs"
  by (simp add: cursor_simps slice_def)

lemma read_fixed:
  assumes "addressable pre (value_bytes (Fixed32 w) @ post)"
  shows "protobuf_decoder_read_fixed32 (cursor pre (value_bytes (Fixed32 w) @ post)) = (Some w, cursor (pre @ value_bytes (Fixed32 w)) post)"
proof -
  have "enough (cursor pre (le_bytes 4 w @ post)) 4" using assms by (subst enough_iff) simp_all
  then show ?thesis using slice_cursor [of pre "le_bytes 4 w" post] assms cursor_simps(2) [of pre "le_bytes 4 w" post]
    by (simp add: protobuf_decoder_read_fixed32_def cursor_pos)
qed

lemma read_fixed_64:
  assumes "addressable pre (value_bytes (Fixed64 v) @ post)"
  shows "protobuf_decoder_read_fixed64 (cursor pre (value_bytes (Fixed64 v) @ post)) = (Some v, cursor (pre @ value_bytes (Fixed64 v)) post)"
proof -
  have "enough (cursor pre (le_bytes 8 v @ post)) 8" using assms by (subst enough_iff) simp_all
  then show ?thesis using slice_cursor [of pre "le_bytes 8 v" post] assms cursor_simps(2) [of pre "le_bytes 8 v" post]
    by (simp add: protobuf_decoder_read_fixed64_def cursor_pos)
qed

lemmas wire_types = WIRE_TYPE_VARINT_def WIRE_TYPE_64BIT_def WIRE_TYPE_LENGTH_DELIMITED_def WIRE_TYPE_32BIT_def

lemma skip_field_bytes:
  assumes "addressable pre (value_bytes w @ post)"
  shows "protobuf_decoder_skip_field (cursor pre (value_bytes w @ post)) (wire_type_of w) = (True, cursor (pre @ value_bytes w) post)"
proof (cases w)
  case (Varint v)
  with assms unat_lt2p [of v] show ?thesis
    using read_varint_bytes [of pre "unat v" post] by (simp add: protobuf_decoder_skip_field_def wire_types)
next
  case (Fixed64 v)
  with assms have "enough (cursor pre (le_bytes 8 v @ post)) 8" by (subst enough_iff) simp_all
  with Fixed64 cursor_simps(2) [of pre "le_bytes 8 v" post] show ?thesis by (simp add: protobuf_decoder_skip_field_def wire_types)
next
  case (Bytes xs)
  with assms show ?thesis using read_bytes_bytes [of pre xs post] by (simp add: protobuf_decoder_skip_field_def wire_types)
next
  case (Fixed32 v)
  with assms have "enough (cursor pre (le_bytes 4 v @ post)) 4" by (subst enough_iff) simp_all
  with Fixed32 cursor_simps(2) [of pre "le_bytes 4 v" post] show ?thesis by (simp add: protobuf_decoder_skip_field_def wire_types)
qed

lemma neg_low_bit: "bit (- (w AND 1) :: 'a::len word) i \<longleftrightarrow> i < LENGTH('a) \<and> bit w 0"
proof (cases "odd w")
  case True
  then have "w AND 1 = 1" by (simp add: and_one_eq odd_iff_mod_2_eq_one)
  with True show ?thesis by (simp add: bit_minus_1_iff bit_0)
next
  case False
  then have "w AND 1 = 0" by (simp add: and_one_eq even_iff_mod_2_eq_zero)
  with False show ?thesis by (simp add: bit_0)
qed

lemma zigzag_roundtrip: "unzigzag32 (zigzag32 v) = v" "unzigzag64 (zigzag64 w) = w"
proof -
  have z: "bit (zigzag32 v) i \<longleftrightarrow> i < 32 \<and> ((0 < i \<and> bit v (i - 1)) \<noteq> bit v 31)" for i
    using bit_imp_le_length [of v "31 + i"] bit_imp_le_length [of v "i - 1"]
    unfolding zigzag32_def bit_xor_iff bit_push_bit_iff bit_signed_drop_bit_iff by (cases "i = 0") auto
  show "unzigzag32 (zigzag32 v) = v"
    unfolding unzigzag32_def
    by (rule bit_word_eqI, unfold bit_xor_iff neg_low_bit bit_drop_bit_eq comp_def z) (case_tac "n = 31"; auto)
  have z: "bit (zigzag64 w) i \<longleftrightarrow> i < 64 \<and> ((0 < i \<and> bit w (i - 1)) \<noteq> bit w 63)" for i
    using bit_imp_le_length [of w "63 + i"] bit_imp_le_length [of w "i - 1"]
    unfolding zigzag64_def bit_xor_iff bit_push_bit_iff bit_signed_drop_bit_iff by (cases "i = 0") auto
  show "unzigzag64 (zigzag64 w) = w"
    unfolding unzigzag64_def
    by (rule bit_word_eqI, unfold bit_xor_iff neg_low_bit bit_drop_bit_eq comp_def z) (case_tac "n = 63"; auto)
qed

lemma zigzag32_0: "zigzag32 v = 0 \<longleftrightarrow> v = 0"
proof
  assume "zigzag32 v = 0"
  then have "v = unzigzag32 0" using zigzag_roundtrip(1) [of v] by simp
  then show "v = 0" by (simp add: unzigzag32_def)
qed (simp add: zigzag32_def)

lemma ucast_up_ucast_id_u32: "ucast (ucast (w :: u32) :: u64) = w"
  by (rule bit_word_eqI) (simp add: bit_simps)

section \<open>Writing fields\<close>

text \<open>A field with the default value is left out.\<close>

fun is_default :: "wire_value \<Rightarrow> bool" where
  "is_default (Varint v) \<longleftrightarrow> v = 0"
| "is_default (Fixed64 v) \<longleftrightarrow> v = 0"
| "is_default (Bytes xs) \<longleftrightarrow> xs = []"
| "is_default (Fixed32 v) \<longleftrightarrow> v = 0"

definition present :: "u32 \<Rightarrow> wire_value \<Rightarrow> wire_field list" where
  "present n w = (if is_default w then [] else [(n, w)])"

definition wrote :: "vec_u8 \<Rightarrow> bytes \<Rightarrow> bool \<times> vec_u8 \<Rightarrow> bool" where
  "wrote e xs r \<longleftrightarrow> r = (True, appended e xs)"

lemma wrote_and_then:
  "wrote e xs r \<Longrightarrow> vec_u8_ok e \<Longrightarrow> wrote (appended e xs) ys (f (appended e xs)) \<Longrightarrow> wrote e (xs @ ys) (and_then r f)"
  by (simp add: wrote_def and_then_def)

lemma wrote_basic:
  "room e (length xs) \<Longrightarrow> wrote e xs (vec_u8_extend_from_slice e xs)"
  "room e 1 \<Longrightarrow> wrote e [b] (vec_u8_push e b)"
  "vec_u8_ok e \<Longrightarrow> room e (length (varint_bytes (unat v))) \<Longrightarrow> wrote e (varint_bytes (unat v)) (protobuf_encoder_write_varint e v)"
  by (simp_all add: wrote_def extend_appended push_appended write_varint_appended)

lemma wrote_tag:
  assumes "vec_u8_ok e" "room e (length (tag_bytes n wt))" "unat n < 2 ^ 29" "unat wt < 8"
  shows "wrote e (tag_bytes n wt) (protobuf_encoder_write_tag e n wt)"
proof -
  have "unat (ucast (push_bit 3 n OR ucast wt :: u32) :: u64) = 8 * unat n + unat wt"
    using tag_word [OF assms(3,4)] assms(3,4) by (simp add: unsigned_ucast_eq take_bit_nat_eq_self)
  then show ?thesis using wrote_basic(3) [OF assms(1), of "ucast (push_bit 3 n OR ucast wt :: u32)"] assms(2)
    by (simp add: protobuf_encoder_write_tag_def tag_bytes_def Let_def)
qed

lemma wrote_field:
  assumes "vec_u8_ok e" "room e (length (field_bytes (n, w)))" "unat n < 2 ^ 29" "length xs < 2 ^ 64"
  shows "w = Varint v \<Longrightarrow> v \<noteq> 0 \<Longrightarrow> wrote e (field_bytes (n, w)) (protobuf_encoder_write_varint_field e n v)"
    "w = Bytes xs \<Longrightarrow> xs \<noteq> [] \<Longrightarrow> wrote e (field_bytes (n, w)) (protobuf_encoder_write_bytes_field e n xs)"
    "w = Fixed32 u \<Longrightarrow> u \<noteq> 0 \<Longrightarrow> wrote e (field_bytes (n, w)) (protobuf_encoder_write_fixed32_field e n u)"
    "w = Varint 1 \<Longrightarrow> wrote e (field_bytes (n, w)) (protobuf_encoder_write_bool_field e n True)"
proof -
  note room = assms(2) [unfolded field_bytes_def, simplified]
  show "wrote e (field_bytes (n, w)) (protobuf_encoder_write_varint_field e n v)" if "w = Varint v" "v \<noteq> 0"
    unfolding protobuf_encoder_write_varint_field_def field_bytes_def if_not_P [OF that(2)]
    using that(1) room assms by (auto intro!: wrote_and_then wrote_tag wrote_basic simp: wire_types)
  show "wrote e (field_bytes (n, w)) (protobuf_encoder_write_fixed32_field e n u)" if "w = Fixed32 u" "u \<noteq> 0"
    unfolding protobuf_encoder_write_fixed32_field_def field_bytes_def if_not_P [OF that(2)]
    using that(1) room assms by (auto intro!: wrote_and_then wrote_tag wrote_basic simp: wire_types codec_simps)
  have "varint_bytes 1 = [1]" by (subst varint_bytes.simps) simp
  then show "wrote e (field_bytes (n, w)) (protobuf_encoder_write_bool_field e n True)" if "w = Varint 1"
    unfolding protobuf_encoder_write_bool_field_def field_bytes_def
    using that(1) room assms by (auto intro!: wrote_and_then wrote_tag wrote_basic simp: wire_types)
  have "unat (of_nat (length xs) :: u64) = length xs" using assms(4) by (simp add: unat_of_nat take_bit_nat_eq_self)
  note len = wrote_basic(3) [where v = "of_nat (length xs)", unfolded this]
  show "wrote e (field_bytes (n, w)) (protobuf_encoder_write_bytes_field e n xs)" if "w = Bytes xs" "xs \<noteq> []"
  proof -
    have "protobuf_encoder_write_bytes_field e n xs = and_then (and_then (protobuf_encoder_write_tag e n 2)
        (\<lambda>e. protobuf_encoder_write_varint e (of_nat (length xs)))) (\<lambda>e. vec_u8_extend_from_slice e xs)"
      using that(2) by (simp add: protobuf_encoder_write_bytes_field_def wire_types)
    moreover have "wrote e ((tag_bytes n 2 @ varint_bytes (length xs)) @ xs) \<dots>"
      using that(1) room assms by (intro wrote_and_then wrote_tag len wrote_basic(1)) auto
    ultimately show ?thesis using that(1) by (simp add: field_bytes_def)
  qed
qed

text \<open>Writing the fields of a message one after the other.\<close>

lemma write_present:
  assumes "vec_u8_ok e" "unat n < 2 ^ 29" "room e (length (message_bytes (present n w)))"
  shows "w = Varint v \<Longrightarrow> protobuf_encoder_write_varint_field e n v = (True, appended e (message_bytes (present n w)))"
    "w = Bytes xs \<Longrightarrow> length xs < 2 ^ 64 \<Longrightarrow> protobuf_encoder_write_bytes_field e n xs = (True, appended e (message_bytes (present n w)))"
    "w = Varint (of_bool b) \<Longrightarrow> protobuf_encoder_write_bool_field e n b = (True, appended e (message_bytes (present n w)))"
    "w = Varint (ucast (zigzag32 i)) \<Longrightarrow> protobuf_encoder_write_sint32_field e n i = (True, appended e (message_bytes (present n w)))"
proof -
  show v: "protobuf_encoder_write_varint_field e n v = (True, appended e (message_bytes (present n w)))" if "w = Varint v" for v
    using wrote_field(1) [OF assms(1) _ assms(2), of w "[]" v] assms(3) that
    by (cases "v = 0") (simp_all add: present_def wrote_def protobuf_encoder_write_varint_field_def)
  show "protobuf_encoder_write_bytes_field e n xs = (True, appended e (message_bytes (present n w)))" if "w = Bytes xs" "length xs < 2 ^ 64"
    using wrote_field(2) [OF assms(1) _ assms(2) that(2), of w] assms(3) that(1)
    by (cases "xs = []") (simp_all add: present_def wrote_def protobuf_encoder_write_bytes_field_def)
  show "protobuf_encoder_write_bool_field e n b = (True, appended e (message_bytes (present n w)))" if "w = Varint (of_bool b)"
    using wrote_field(4) [OF assms(1) _ assms(2), of w "[]"] assms(3) that
    by (cases b) (simp_all add: present_def wrote_def protobuf_encoder_write_bool_field_def)
  have "ucast (zigzag32 i) = (0 :: u64) \<longleftrightarrow> i = 0"
    using zigzag32_0 [of i] by (metis ucast_0 ucast_up_ucast_id_u32)
  then have "protobuf_encoder_write_sint32_field e n i = protobuf_encoder_write_varint_field e n (ucast (zigzag32 i))"
    by (simp add: protobuf_encoder_write_sint32_field_def protobuf_encoder_write_varint_field_def protobuf_encoder_write_sint32_def)
  then show "protobuf_encoder_write_sint32_field e n i = (True, appended e (message_bytes (present n w)))" if "w = Varint (ucast (zigzag32 i))"
    using v [OF that] by simp
qed

section \<open>The decoding loop\<close>

datatype ('m, 'r) field_step = Continue 'm protobuf_decoder | Return 'r

partial_function (option) decode_loop ::
    "(protobuf_decoder \<Rightarrow> (u32 \<times> byte) option \<times> protobuf_decoder) \<Rightarrow>
     (u32 \<Rightarrow> byte \<Rightarrow> 'm \<Rightarrow> protobuf_decoder \<Rightarrow> ('m, (unit, 'r) cresult) field_step) \<Rightarrow> ('m \<Rightarrow> (unit, 'r) cresult) \<Rightarrow>
     'm \<Rightarrow> protobuf_decoder \<Rightarrow> (unit, 'r) cresult option" where
  "decode_loop read_tag field fin m decoder =
     (if \<not> protobuf_decoder_has_more decoder then Some (fin m)
      else case read_tag decoder of
        (None, decoder) \<Rightarrow> Some (Err ())
      | (Some (n, wt), decoder) \<Rightarrow>
          (case field n wt m decoder of
             Return r \<Rightarrow> Some r
           | Continue m decoder \<Rightarrow> decode_loop read_tag field fin m decoder))"

text \<open>
  The contract of a message decoder: tags are read in order, and each accepted field changes the
  message as \<open>act\<close> says and leaves the cursor behind it. A message of accepted fields is then decoded by
  performing the actions one after the other, in whatever order the fields come.
\<close>

locale message_decoder =
  fixes read_tag :: "protobuf_decoder \<Rightarrow> (u32 \<times> byte) option \<times> protobuf_decoder"
    and field :: "u32 \<Rightarrow> byte \<Rightarrow> 'm \<Rightarrow> protobuf_decoder \<Rightarrow> ('m, (unit, 'r) cresult) field_step"
    and act :: "wire_field \<Rightarrow> 'm \<Rightarrow> 'm"
    and accepted :: "wire_field \<Rightarrow> bool"
  assumes tag: "addressable pre (tag_bytes n wt @ post) \<Longrightarrow> unat n < 2 ^ 29 \<Longrightarrow> unat wt < 8 \<Longrightarrow>
      read_tag (cursor pre (tag_bytes n wt @ post)) = (Some (n, wt), cursor (pre @ tag_bytes n wt) post)"
    and field: "accepted (n, w) \<Longrightarrow> addressable pre (value_bytes w @ post) \<Longrightarrow>
      field n (wire_type_of w) m (cursor pre (value_bytes w @ post)) = Continue (act (n, w) m) (cursor (pre @ value_bytes w) post)"
    and number: "accepted f \<Longrightarrow> unat (fst f) < 2 ^ 29"
begin

lemma loop_field:
  assumes "accepted f" "addressable pre (field_bytes f @ post)"
  shows "decode_loop read_tag field fin m (cursor pre (field_bytes f @ post)) =
    decode_loop read_tag field fin (act f m) (cursor (pre @ field_bytes f) post)"
proof -
  obtain n w where f: "f = (n, w)" by fastforce
  let ?t = "tag_bytes n (wire_type_of w)"
  have wt: "unat (wire_type_of w) < 8" by (cases w) simp_all
  have t: "read_tag (cursor pre (?t @ value_bytes w @ post)) = (Some (n, wire_type_of w), cursor (pre @ ?t) (value_bytes w @ post))"
    using assms wt number [of f] by (intro tag) (auto simp: f field_bytes_def)
  have "field n (wire_type_of w) m (cursor (pre @ ?t) (value_bytes w @ post)) = Continue (act f m) (cursor ((pre @ ?t) @ value_bytes w) post)"
    using assms field [of n w "pre @ ?t" post m] by (simp add: f field_bytes_def)
  moreover have "?t \<noteq> []" using length_varint_bytes(1) by (simp add: tag_bytes_def)
  ultimately show ?thesis using t assms(2)
    by (subst decode_loop.simps) (simp add: f field_bytes_def cursor_pos)
qed

lemma loop_fields:
  "\<forall>f \<in> set fs. accepted f \<Longrightarrow> addressable pre (message_bytes fs @ post) \<Longrightarrow>
   decode_loop read_tag field fin m (cursor pre (message_bytes fs @ post)) =
   decode_loop read_tag field fin (fold act fs m) (cursor (pre @ message_bytes fs) post)"
proof (induction fs arbitrary: m pre)
  case (Cons f fs)
  have "decode_loop read_tag field fin m (cursor pre (field_bytes f @ message_bytes fs @ post)) =
      decode_loop read_tag field fin (act f m) (cursor (pre @ field_bytes f) (message_bytes fs @ post))"
    using Cons.prems by (intro loop_field) auto
  then show ?case using Cons.IH [of "pre @ field_bytes f" "act f m"] Cons.prems by simp
qed simp

lemma decode_message:
  assumes "\<forall>f \<in> set fs. accepted f" "length (message_bytes fs) < 2 ^ 32"
  shows "decode_loop read_tag field fin m (protobuf_decoder_init (message_bytes fs) (of_nat (length (message_bytes fs)))) = Some (fin (fold act fs m))"
proof -
  have "protobuf_decoder_init (message_bytes fs) (of_nat (length (message_bytes fs))) = cursor [] (message_bytes fs @ [])"
    by (simp add: protobuf_decoder_init_def cursor_def)
  then show ?thesis using loop_fields [of fs "[]" "[]" fin m] assms
    by simp (subst decode_loop.simps, simp add: cursor_pos)
qed

end

section \<open>Progress of the cursor on arbitrary input\<close>

definition dec_ok :: "protobuf_decoder \<Rightarrow> bool" where
  "dec_ok d \<longleftrightarrow> length (pd_data d) = unat (pd_len d) \<and> pd_pos d \<le> pd_len d"

definition reach :: "protobuf_decoder \<Rightarrow> protobuf_decoder \<Rightarrow> bool" where
  "reach d d' \<longleftrightarrow> dec_ok d' \<and> pd_data d' = pd_data d \<and> pd_len d' = pd_len d"

lemma dec_ok_cursor:
  assumes "dec_ok d"
  shows "d = cursor (take (unat (pd_pos d)) (pd_data d)) (drop (unat (pd_pos d)) (pd_data d))"
proof -
  have "unat (pd_pos d) \<le> length (pd_data d)" using assms by (simp add: dec_ok_def word_le_nat_alt)
  then have "length (take (unat (pd_pos d)) (pd_data d)) = unat (pd_pos d)"
    "length (take (unat (pd_pos d)) (pd_data d)) + length (drop (unat (pd_pos d)) (pd_data d)) = unat (pd_len d)"
    using assms by (simp_all add: dec_ok_def)
  then show ?thesis unfolding cursor_def by (simp del: length_take length_drop of_nat_add)
qed

lemma cursor_ok: "addressable pre post \<Longrightarrow> dec_ok (cursor pre post)"
  by (simp add: dec_ok_def word_le_nat_alt cursor_pos cursor_simps)

lemma varint_from_split: "varint_from bs v shift = Some (w, rest) \<Longrightarrow> \<exists>used. bs = used @ rest \<and> used \<noteq> []"
proof (induction bs v shift rule: varint_from.induct)
  case (2 b bs v shift)
  show ?case
  proof (cases "b AND 0x80 = 0")
    case True
    with 2(2) show ?thesis by (auto simp: Let_def)
  next
    case False
    then have "\<exists>used. bs = used @ rest \<and> used \<noteq> []" using 2 by (auto simp: Let_def split: if_splits)
    then obtain used where "b # bs = (b # used) @ rest" by auto
    then show ?thesis by blast
  qed
qed simp

lemma read_varint_step:
  assumes "dec_ok d" "protobuf_decoder_read_varint d = (Some v, d')"
  shows "reach d d'" "pd_pos d < pd_pos d'" "\<exists>rest. varint_from (drop (unat (pd_pos d)) (pd_data d)) 0 0 = Some (v, rest)"
proof -
  define pre post where "pre = take (unat (pd_pos d)) (pd_data d)" and "post = drop (unat (pd_pos d)) (pd_data d)"
  have d: "d = cursor pre post" "pd_data d = pre @ post"
    using dec_ok_cursor [OF assms(1)] by (simp_all add: pre_def post_def)
  have "length (pre @ post) = unat (pd_len d)" using assms(1) d(2) by (simp add: dec_ok_def)
  then have a: "addressable pre post" using unat_lt2p [of "pd_len d"] by simp
  from read_varint_loop_slice [OF a, of 0 0] obtain rest used where
    r: "varint_from post 0 0 = Some (v, rest)" "post = used @ rest" "d' = cursor (pre @ used) rest"
    using assms(2) unfolding d(1) protobuf_decoder_read_varint_def by (auto split: option.splits)
  then have "used \<noteq> []" using varint_from_split [OF r(1)] by auto
  show "\<exists>rest. varint_from (drop (unat (pd_pos d)) (pd_data d)) 0 0 = Some (v, rest)" using r(1) by (auto simp: post_def)
  have a': "addressable (pre @ used) rest" using a r(2) by simp
  show "reach d d'" using cursor_ok [OF a'] r(2,3) d(1) by (simp add: reach_def) (simp add: cursor_def)
  show "pd_pos d < pd_pos d'"
    unfolding r(3) d(1) word_less_nat_alt cursor_pos(1) [OF a] cursor_pos(1) [OF a'] using \<open>used \<noteq> []\<close> by simp
qed

text \<open>The length that a hostile input announces at the cursor: with it the sum \<^verbatim>\<open>pos + len\<close> of 32 bits wraps.\<close>

definition length_wraps :: "protobuf_decoder \<Rightarrow> bool" where
  "length_wraps d \<longleftrightarrow> (case protobuf_decoder_read_varint d of
     (Some v, d') \<Rightarrow> 2 ^ 32 \<le> unat (pd_pos d') + unat (ucast v :: u32)
   | (None, d') \<Rightarrow> False)"

lemma advance_step:
  assumes "dec_ok d" "enough d k"
  shows "reach d (advance d k)" "unat (pd_pos d) + unat k < 2 ^ 32 \<Longrightarrow> pd_pos d \<le> pd_pos (advance d k)"
    "unat (pd_pos d) + unat k < 2 ^ 32 \<Longrightarrow> unat (pd_pos d) + unat k \<le> length (pd_data d)"
proof -
  show "reach d (advance d k)" using assms by (simp add: reach_def dec_ok_def advance_def enough_def not_less)
  assume "unat (pd_pos d) + unat k < 2 ^ 32"
  then have u: "unat (pd_pos d + k) = unat (pd_pos d) + unat k" by (simp add: unat_word_ariths)
  show "pd_pos d \<le> pd_pos (advance d k)" unfolding word_le_nat_alt using u by (simp add: advance_def)
  show "unat (pd_pos d) + unat k \<le> length (pd_data d)"
    using assms u by (simp add: enough_def dec_ok_def not_less word_le_nat_alt)
qed

lemma dec_ok_pos: "dec_ok d \<Longrightarrow> unat (pd_pos d) \<le> length (pd_data d)"
  by (simp add: dec_ok_def word_le_nat_alt)

lemma read_bytes_step:
  assumes "dec_ok d" "protobuf_decoder_read_bytes d = (Some (p, k), d')"
  shows "reach d d'" "\<not> length_wraps d \<Longrightarrow> pd_pos d \<le> pd_pos d'" "unat p \<le> length (pd_data d)" "pd_data d' = pd_data d"
    "unat p + unat k < 2 ^ 32 \<Longrightarrow> unat p + unat k \<le> length (pd_data d)"
proof -
  from assms(2) obtain v d1 where r: "protobuf_decoder_read_varint d = (Some v, d1)" "enough d1 k" "k = ucast v" "p = pd_pos d1" "d' = advance d1 k"
    by (auto simp: protobuf_decoder_read_bytes_def Let_def split: option.splits prod.splits if_splits)
  note s = read_varint_step [OF assms(1) r(1)]
  have d1: "dec_ok d1" "pd_data d1 = pd_data d" "pd_len d1 = pd_len d" using s(1) by (simp_all add: reach_def)
  note a = advance_step [OF d1(1) r(2)]
  show "reach d d'" using a(1) d1 r(5) by (simp add: reach_def)
  show "unat p \<le> length (pd_data d)" using dec_ok_pos [OF d1(1)] d1(2) r(4) by simp
  show "pd_data d' = pd_data d" using d1(2) r(5) by (simp add: advance_def)
  show "unat p + unat k < 2 ^ 32 \<Longrightarrow> unat p + unat k \<le> length (pd_data d)" using a(3) r(4) d1(2) by simp
  assume "\<not> length_wraps d"
  then have "unat (pd_pos d1) + unat k < 2 ^ 32" using r(1,3) by (simp add: length_wraps_def)
  with a(2) s(2) r(5) show "pd_pos d \<le> pd_pos d'" by (simp add: word_le_nat_alt word_less_nat_alt)
qed

lemma skip_field_step:
  assumes "dec_ok d" "protobuf_decoder_skip_field d wt = (True, d')"
  shows "reach d d'" "length (pd_data d) < 2 ^ 32 - 8 \<Longrightarrow> \<not> (wt = 2 \<and> length_wraps d) \<Longrightarrow> pd_pos d \<le> pd_pos d'"
proof -
  let ?fits = "length (pd_data d) < 2 ^ 32 - 8 \<and> \<not> (wt = 2 \<and> length_wraps d)"
  have fixed: "reach d (advance d k) \<and> (?fits \<longrightarrow> pd_pos d \<le> pd_pos (advance d k))" if "enough d k" "unat k \<le> 8" for k
    using advance_step(1,2) [OF assms(1) that(1)] dec_ok_pos [OF assms(1)] that(2) by auto
  have "reach d d' \<and> (?fits \<longrightarrow> pd_pos d \<le> pd_pos d')"
    using assms(2) fixed [of 8] fixed [of 4] read_varint_step(1,2) [OF assms(1)] read_bytes_step(1,2) [OF assms(1)]
    by (auto simp: protobuf_decoder_skip_field_def wire_types split: if_splits prod.splits option.splits dest: less_imp_le)
  then show "reach d d'" "length (pd_data d) < 2 ^ 32 - 8 \<Longrightarrow> \<not> (wt = 2 \<and> length_wraps d) \<Longrightarrow> pd_pos d \<le> pd_pos d'" by simp_all
qed

lemma read_tag_step:
  assumes "dec_ok d" "protobuf_decoder_read_tag d = (Some t, d')"
  shows "reach d d'" "pd_pos d < pd_pos d'"
  using assms(2) read_varint_step(1,2) [OF assms(1)]
  by (auto simp: protobuf_decoder_read_tag_def Let_def split: option.splits prod.splits)

text \<open>
  The states in which a decoding loop begins a turn, and the turn that comes to a length with which the position wraps.
\<close>

inductive loop_reaches :: "(protobuf_decoder \<Rightarrow> (u32 \<times> byte) option \<times> protobuf_decoder) \<Rightarrow>
    (u32 \<Rightarrow> byte \<Rightarrow> 'm \<Rightarrow> protobuf_decoder \<Rightarrow> ('m, (unit, 'r) cresult) field_step) \<Rightarrow>
    'm \<Rightarrow> protobuf_decoder \<Rightarrow> 'm \<Rightarrow> protobuf_decoder \<Rightarrow> bool" for read_tag field m0 d0 where
  start: "loop_reaches read_tag field m0 d0 m0 d0"
| turn: "loop_reaches read_tag field m0 d0 m d \<Longrightarrow> protobuf_decoder_has_more d \<Longrightarrow> read_tag d = (Some (n, wt), d1) \<Longrightarrow>
    field n wt m d1 = Continue m' d' \<Longrightarrow> loop_reaches read_tag field m0 d0 m' d'"

definition turn_wraps :: "(protobuf_decoder \<Rightarrow> (u32 \<times> byte) option \<times> protobuf_decoder) \<Rightarrow> protobuf_decoder \<Rightarrow> bool" where
  "turn_wraps read_tag d \<longleftrightarrow> protobuf_decoder_has_more d \<and>
     (case read_tag d of (Some (n, wt), d1) \<Rightarrow> wt = 2 \<and> length_wraps d1 | (None, d1) \<Rightarrow> False)"

text \<open>
  The contract of a decoding loop that returns: a tag moves the cursor forward, and a field moves it back only when
  it has a length with which the position wraps.
\<close>

locale decoder_progress =
  fixes read_tag :: "protobuf_decoder \<Rightarrow> (u32 \<times> byte) option \<times> protobuf_decoder"
    and field :: "u32 \<Rightarrow> byte \<Rightarrow> 'm \<Rightarrow> protobuf_decoder \<Rightarrow> ('m, (unit, 'r) cresult) field_step"
  assumes tag_forward: "dec_ok d \<Longrightarrow> read_tag d = (Some t, d') \<Longrightarrow> reach d d' \<and> pd_pos d < pd_pos d'"
    and field_forward: "dec_ok d \<Longrightarrow> length (pd_data d) < 2 ^ 32 - 8 \<Longrightarrow> \<not> (wt = 2 \<and> length_wraps d) \<Longrightarrow>
      field n wt m d = Continue m' d' \<Longrightarrow> reach d d' \<and> pd_pos d \<le> pd_pos d'"
begin

lemma loop_returns_from:
  assumes no_wrap: "\<forall>m d. loop_reaches read_tag field m0 d0 m d \<longrightarrow> \<not> turn_wraps read_tag d"
  shows "loop_reaches read_tag field m0 d0 m d \<Longrightarrow> dec_ok d \<Longrightarrow> length (pd_data d) < 2 ^ 32 - 8 \<Longrightarrow>
    \<exists>r. decode_loop read_tag field fin m d = Some r"
proof (induction "unat (pd_len d) - unat (pd_pos d)" arbitrary: d m rule: less_induct)
  case less
  show ?case
  proof (cases "protobuf_decoder_has_more d \<and> fst (read_tag d) \<noteq> None")
    case False
    then show ?thesis by (subst decode_loop.simps) (auto split: prod.splits option.splits)
  next
    case True
    then obtain n wt d1 where t: "protobuf_decoder_has_more d" "read_tag d = (Some (n, wt), d1)" by (cases "read_tag d") auto
    have d1: "dec_ok d1" "pd_data d1 = pd_data d" "pd_len d1 = pd_len d" "pd_pos d < pd_pos d1"
      using tag_forward [OF less(3) t(2)] by (auto simp: reach_def)
    have nw: "\<not> (wt = 2 \<and> length_wraps d1)" using no_wrap [rule_format, OF less(2)] t by (simp add: turn_wraps_def)
    show ?thesis
    proof (cases "field n wt m d1")
      case (Return r)
      with t show ?thesis by (subst decode_loop.simps) simp
    next
      case (Continue m2 d2)
      have d2: "dec_ok d2" "pd_data d2 = pd_data d" "pd_len d2 = pd_len d" "pd_pos d1 \<le> pd_pos d2"
        using field_forward [OF d1(1) _ nw Continue] less(4) d1(2,3) by (auto simp: reach_def)
      have "unat (pd_len d2) - unat (pd_pos d2) < unat (pd_len d) - unat (pd_pos d)"
        using d1(4) d2(4) t(1) unfolding d2(3) word_le_nat_alt word_less_nat_alt protobuf_decoder_has_more_def by linarith
      from less(1) [OF this loop_reaches.turn [OF less(2) t Continue] d2(1)] less(4) d2(2)
      obtain r where "decode_loop read_tag field fin m2 d2 = Some r" by auto
      with t Continue show ?thesis by (subst decode_loop.simps) simp
    qed
  qed
qed

lemma loop_returns:
  assumes "dec_ok d" "length (pd_data d) < 2 ^ 32 - 8"
  shows "(\<exists>r. decode_loop read_tag field fin m d = Some r) \<or> (\<exists>m' d'. loop_reaches read_tag field m d m' d' \<and> turn_wraps read_tag d')"
  using loop_returns_from [of m d m d fin] loop_reaches.start [of read_tag field m d] assms by blast

end

text \<open>The contract of a decoding loop that stays inside its input and keeps an invariant of the message.\<close>

locale decoder_safe =
  fixes read_tag :: "protobuf_decoder \<Rightarrow> (u32 \<times> byte) option \<times> protobuf_decoder"
    and field :: "u32 \<Rightarrow> byte \<Rightarrow> 'm \<Rightarrow> protobuf_decoder \<Rightarrow> ('m, (unit, 'r) cresult) field_step"
    and good :: "'m \<Rightarrow> bool"
    and safe :: "(unit, 'r) cresult \<Rightarrow> bool"
    and bound :: nat
  assumes tag_inside: "dec_ok d \<Longrightarrow> read_tag d = (Some t, d') \<Longrightarrow> reach d d'"
    and field_inside: "dec_ok d \<Longrightarrow> length (pd_data d) \<le> bound \<Longrightarrow> good m \<Longrightarrow> field n wt m d = Continue m' d' \<Longrightarrow> reach d d' \<and> good m'"
    and field_return: "dec_ok d \<Longrightarrow> length (pd_data d) \<le> bound \<Longrightarrow> good m \<Longrightarrow> field n wt m d = Return r \<Longrightarrow> safe r"
    and failure: "safe (Err ())"
begin

lemma loop_safe:
  assumes "decode_loop read_tag field fin m d = Some r" "\<And>m. good m \<Longrightarrow> safe (fin m)"
  shows "dec_ok d \<longrightarrow> length (pd_data d) \<le> bound \<longrightarrow> good m \<longrightarrow> safe r"
proof -
  have "read_tag = read_tag \<longrightarrow> field = field \<longrightarrow> fin = fin \<longrightarrow> dec_ok d \<longrightarrow> length (pd_data d) \<le> bound \<longrightarrow> good m \<longrightarrow> safe r"
  proof (rule decode_loop.raw_induct [where P = "\<lambda>rt fl fi m d r. rt = read_tag \<longrightarrow> fl = field \<longrightarrow> fi = fin \<longrightarrow>
      dec_ok d \<longrightarrow> length (pd_data d) \<le> bound \<longrightarrow> good m \<longrightarrow> safe r", OF _ assms(1)], intro impI, goal_cases)
    case (1 rec rt fl fi m d r)
    show ?case
    proof (cases "protobuf_decoder_has_more d \<and> fst (rt d) \<noteq> None")
      case False
      then show ?thesis using 1(2-) assms(2) failure by (auto split: prod.splits option.splits if_splits)
    next
      case True
      then obtain n wt d1 where t: "protobuf_decoder_has_more d" "rt d = (Some (n, wt), d1)" by (cases "rt d") auto
      have d1: "dec_ok d1" "pd_data d1 = pd_data d"
        using tag_inside [OF 1(6)] t(2) 1(3) by (auto simp: reach_def)
      show ?thesis
      proof (cases "fl n wt m d1")
        case (Return s)
        then show ?thesis using field_return [OF d1(1), of m n wt s] 1(2-) t d1(2) by simp
      next
        case (Continue m2 d2)
        then have "dec_ok d2 \<and> pd_data d2 = pd_data d \<and> good m2"
          using field_inside [OF d1(1), of m n wt m2 d2] 1(4,7,8) d1(2) by (simp add: reach_def)
        moreover have "rec rt fl fi m2 d2 = Some r" using 1(2) t Continue by simp
        ultimately show ?thesis using 1(1) [of rt fl fi m2 d2 r] 1(3-) by simp
      qed
    qed
  qed
  then show ?thesis by simp
qed

end

text \<open>A loop whose field step comes back to the decoder it started from does not return.\<close>

lemma loop_never:
  assumes "protobuf_decoder_has_more d" "read_tag d = (Some (n, wt), d1)" "\<And>m. field n wt m d1 = Continue (f m) d"
  shows "decode_loop read_tag field fin m d = None"
proof (rule ccontr)
  assume "decode_loop read_tag field fin m d \<noteq> None"
  then obtain r where r: "decode_loop read_tag field fin m d = Some r" by blast
  have "\<not> (read_tag = read_tag \<and> field = field \<and> d = d)"
  proof (rule decode_loop.raw_induct [where P = "\<lambda>rt fl fi m d' r. \<not> (rt = read_tag \<and> fl = field \<and> d' = d)", OF _ r], intro notI, goal_cases)
    case (1 rec rt fl fi m d' r)
    then have "rec rt fl fi (f m) d = Some r" using assms by simp
    then show ?case using 1(1) [of rt fl fi "f m" d r] 1(3) by simp
  qed
  then show False by simp
qed

end
