(* ===== verification/Protobuf_Message.thy ===== *)
theory Protobuf_Message
  imports Protobuf
begin

unbundle bit_operations_syntax

text \<open>
  The messages of the first half of \<^verbatim>\<open>meshtastic/protobuf.c\<close>: hexadecimal helpers and the encoders and
  decoders of Data, Position and User, with what they do on any sequence of fields, that they are inverse,
  and where the decoding loop returns.
\<close>

section \<open>Hexadecimal digits\<close>

definition HEX_CHARS :: bytes where
  "HEX_CHARS = [0x30, 0x31, 0x32, 0x33, 0x34, 0x35, 0x36, 0x37, 0x38, 0x39, 0x61, 0x62, 0x63, 0x64, 0x65, 0x66]"

definition hex_encode :: "bytes \<Rightarrow> bytes \<Rightarrow> bytes" where
  "hex_encode d output =
     foldl (\<lambda>out i. if i * 2 + 1 < length out
              then out[i * 2 := HEX_CHARS ! unat (drop_bit 4 (d ! i)), i * 2 + 1 := HEX_CHARS ! unat (d ! i AND 0x0F)]
              else out) output [0..<length d]"

definition hex_char_to_value :: "byte \<Rightarrow> int" where
  "hex_char_to_value c =
     (if c \<ge> 0x30 \<and> c \<le> 0x39 then uint c - 0x30
      else if c \<ge> 0x61 \<and> c \<le> 0x66 then uint c - 0x61 + 10
      else if c \<ge> 0x41 \<and> c \<le> 0x46 then uint c - 0x41 + 10
      else - 1)"

definition hex_decode :: "bytes \<Rightarrow> bytes \<Rightarrow> bytes" where
  "hex_decode d output =
     foldl (\<lambda>out i. let high = hex_char_to_value (d ! (i * 2)); low = hex_char_to_value (d ! (i * 2 + 1))
              in if high \<ge> 0 \<and> low \<ge> 0 then out[i := word_of_int (push_bit 4 high OR low)] else out)
       output [0..<min (length d div 2) (length output)]"

section \<open>Messages\<close>

record data_payload =
  dp_port :: u32
  dp_payload :: bytes
  dp_payload_len :: nat
  dp_want_response :: bool
  dp_dest :: u32
  dp_source :: u32
  dp_request_id :: u32
  dp_reply_id :: u32
  dp_emoji :: u32

datatype location_source = LOCATION_SOURCE_UNSET | LOCATION_SOURCE_MANUAL | LOCATION_SOURCE_INTERNAL_GPS | LOCATION_SOURCE_EXTERNAL_GPS

fun location_source_value :: "location_source \<Rightarrow> u64" where
  "location_source_value LOCATION_SOURCE_UNSET = 0"
| "location_source_value LOCATION_SOURCE_MANUAL = 1"
| "location_source_value LOCATION_SOURCE_INTERNAL_GPS = 2"
| "location_source_value LOCATION_SOURCE_EXTERNAL_GPS = 3"

record position =
  po_latitude_i :: u32
  po_longitude_i :: u32
  po_altitude :: u32
  po_time :: u32
  po_timestamp :: u32
  po_location_source :: location_source
  po_altitude_source :: location_source
  po_pdop :: u32
  po_hdop :: u32
  po_sats_in_view :: u32
  po_ground_speed :: u32
  po_ground_track :: u32
  po_fix_quality :: u32
  po_fix_type :: u32
  po_seq_number :: u32

text \<open>The hardware models that \<^verbatim>\<open>decode_user\<close> knows have names of their own; the others of
  \<^verbatim>\<open>mod.h\<close> are given by their number.\<close>

datatype hardware_model =
    HARDWARE_MODEL_UNSET | HARDWARE_MODEL_TLORA_V2 | HARDWARE_MODEL_TLORA_V1 | HARDWARE_MODEL_TBEAM | HARDWARE_MODEL_HELTEC_V2_0
  | HARDWARE_MODEL_RAK4631 | HARDWARE_MODEL_HELTEC_V2_1 | HARDWARE_MODEL_HELTEC_WIFI_LORA_V3 | HARDWARE_MODEL_PRIVATE_HW
  | HARDWARE_MODEL_OTHER u16

fun hardware_model_value :: "hardware_model \<Rightarrow> u64" where
  "hardware_model_value HARDWARE_MODEL_UNSET = 0"
| "hardware_model_value HARDWARE_MODEL_TLORA_V2 = 1"
| "hardware_model_value HARDWARE_MODEL_TLORA_V1 = 2"
| "hardware_model_value HARDWARE_MODEL_TBEAM = 4"
| "hardware_model_value HARDWARE_MODEL_HELTEC_V2_0 = 5"
| "hardware_model_value HARDWARE_MODEL_RAK4631 = 9"
| "hardware_model_value HARDWARE_MODEL_HELTEC_V2_1 = 10"
| "hardware_model_value HARDWARE_MODEL_HELTEC_WIFI_LORA_V3 = 34"
| "hardware_model_value HARDWARE_MODEL_PRIVATE_HW = 255"
| "hardware_model_value (HARDWARE_MODEL_OTHER v) = ucast v"

datatype role = ROLE_CLIENT | ROLE_CLIENT_MUTE | ROLE_ROUTER | ROLE_ROUTER_CLIENT | ROLE_REPEATER | ROLE_TRACKER
  | ROLE_SENSOR | ROLE_TAK | ROLE_CLIENT_HIDDEN | ROLE_LOST_AND_FOUND | ROLE_TAK_TRACKER

fun role_value :: "role \<Rightarrow> u64" where
  "role_value ROLE_CLIENT = 0"
| "role_value ROLE_CLIENT_MUTE = 1"
| "role_value ROLE_ROUTER = 2"
| "role_value ROLE_ROUTER_CLIENT = 3"
| "role_value ROLE_REPEATER = 4"
| "role_value ROLE_TRACKER = 5"
| "role_value ROLE_SENSOR = 6"
| "role_value ROLE_TAK = 7"
| "role_value ROLE_CLIENT_HIDDEN = 8"
| "role_value ROLE_LOST_AND_FOUND = 9"
| "role_value ROLE_TAK_TRACKER = 10"

record user =
  us_id :: bytes
  us_long_name :: bytes
  us_long_name_len :: nat
  us_short_name :: bytes
  us_short_name_len :: nat
  us_hw_model :: hardware_model
  us_is_licensed :: bool
  us_role :: role

section \<open>Encoding\<close>

text \<open>\<open>junk\<close> is the uninitialised buffer of the encoder. The results of the single writes are ignored, as
  in the code; the result is the part of \<^verbatim>\<open>output\<close> that is written, or \<open>None\<close> for \<^verbatim>\<open>return false\<close>.\<close>

definition finish_output :: "vec_u8 \<Rightarrow> nat \<Rightarrow> bytes option" where
  "finish_output e max_len = (if vu_len e > max_len then None else Some (take (vu_len e) (vu_data e)))"

definition encode_data :: "bytes \<Rightarrow> data_payload \<Rightarrow> nat \<Rightarrow> bytes option" where
  "encode_data junk d max_len =
     (let e = vec_u8_init junk MAX_LORA_PAYLOAD;
          e = snd (protobuf_encoder_write_varint_field e 1 (ucast (dp_port d)));
          e = snd (protobuf_encoder_write_bytes_field e 2 (take (dp_payload_len d) (dp_payload d)));
          e = snd (protobuf_encoder_write_bool_field e 3 (dp_want_response d));
          e = snd (protobuf_encoder_write_varint_field e 4 (ucast (dp_dest d)));
          e = snd (protobuf_encoder_write_varint_field e 5 (ucast (dp_source d)));
          e = snd (protobuf_encoder_write_varint_field e 6 (ucast (dp_request_id d)));
          e = snd (protobuf_encoder_write_varint_field e 7 (ucast (dp_reply_id d)));
          e = snd (protobuf_encoder_write_varint_field e 8 (ucast (dp_emoji d)))
      in finish_output e max_len)"

definition encode_position :: "bytes \<Rightarrow> position \<Rightarrow> nat \<Rightarrow> bytes option" where
  "encode_position junk p max_len =
     (let e = vec_u8_init junk MAX_LORA_PAYLOAD;
          e = snd (protobuf_encoder_write_sint32_field e 1 (po_latitude_i p));
          e = snd (protobuf_encoder_write_sint32_field e 2 (po_longitude_i p));
          e = snd (protobuf_encoder_write_sint32_field e 3 (po_altitude p));
          e = snd (protobuf_encoder_write_varint_field e 4 (ucast (po_time p)));
          e = snd (protobuf_encoder_write_varint_field e 5 (location_source_value (po_location_source p)));
          e = snd (protobuf_encoder_write_varint_field e 6 (location_source_value (po_altitude_source p)));
          e = snd (protobuf_encoder_write_varint_field e 7 (ucast (po_timestamp p)));
          e = snd (protobuf_encoder_write_varint_field e 11 (ucast (po_pdop p)));
          e = snd (protobuf_encoder_write_varint_field e 12 (ucast (po_hdop p)));
          e = snd (protobuf_encoder_write_varint_field e 19 (ucast (po_sats_in_view p)));
          e = snd (protobuf_encoder_write_varint_field e 15 (ucast (po_ground_speed p)));
          e = snd (protobuf_encoder_write_varint_field e 16 (ucast (po_ground_track p)));
          e = snd (protobuf_encoder_write_varint_field e 17 (ucast (po_fix_quality p)));
          e = snd (protobuf_encoder_write_varint_field e 18 (ucast (po_fix_type p)));
          e = snd (protobuf_encoder_write_varint_field e 22 (ucast (po_seq_number p)))
      in finish_output e max_len)"

text \<open>\<open>junk_id\<close> is the uninitialised rest of \<^verbatim>\<open>id_str\<close>.\<close>

definition encode_user :: "bytes \<Rightarrow> bytes \<Rightarrow> user \<Rightarrow> nat \<Rightarrow> bytes option" where
  "encode_user junk junk_id u max_len =
     (let e = vec_u8_init junk MAX_LORA_PAYLOAD;
          id_str = 0x21 # hex_encode (us_id u) junk_id;
          e = snd (protobuf_encoder_write_bytes_field e 1 id_str);
          e = snd (protobuf_encoder_write_bytes_field e 2 (take (us_long_name_len u) (us_long_name u)));
          e = snd (protobuf_encoder_write_bytes_field e 3 (take (us_short_name_len u) (us_short_name u)));
          e = snd (protobuf_encoder_write_bytes_field e 4 (slice (us_id u) 2 6));
          e = snd (protobuf_encoder_write_varint_field e 5 (hardware_model_value (us_hw_model u)));
          e = snd (protobuf_encoder_write_bool_field e 6 (us_is_licensed u));
          e = snd (protobuf_encoder_write_varint_field e 7 (role_value (us_role u)))
      in finish_output e max_len)"

section \<open>Decoding\<close>

text \<open>The two shapes of a case of the decoders' \<^verbatim>\<open>switch\<close> and its default. A field of a known number
  and an unexpected wire type is neither read nor skipped.\<close>

definition varint_case :: "byte \<Rightarrow> 'm \<Rightarrow> protobuf_decoder \<Rightarrow> (u64 \<Rightarrow> 'm) \<Rightarrow> ('m, (unit, 'r) cresult) field_step" where
  "varint_case wt m d upd =
     (if wt = WIRE_TYPE_VARINT
      then case protobuf_decoder_read_varint d of (None, d) \<Rightarrow> Return (Err ()) | (Some v, d) \<Rightarrow> Continue (upd v) d
      else Continue m d)"

definition sint32_case :: "byte \<Rightarrow> 'm \<Rightarrow> protobuf_decoder \<Rightarrow> (u32 \<Rightarrow> 'm) \<Rightarrow> ('m, (unit, 'r) cresult) field_step" where
  "sint32_case wt m d upd =
     (if wt = WIRE_TYPE_VARINT
      then case protobuf_decoder_read_sint32 d of (None, d) \<Rightarrow> Return (Err ()) | (Some v, d) \<Rightarrow> Continue (upd v) d
      else Continue m d)"

text \<open>\<open>use xs k\<close> with the input from \<^verbatim>\<open>bytes\<close> on and \<^verbatim>\<open>bytes_len\<close>.\<close>

definition bytes_case ::
    "byte \<Rightarrow> 'm \<Rightarrow> protobuf_decoder \<Rightarrow> (bytes \<Rightarrow> nat \<Rightarrow> (unit, 'm) cresult) \<Rightarrow> ('m, (unit, 'r) cresult) field_step" where
  "bytes_case wt m d use =
     (if wt = WIRE_TYPE_LENGTH_DELIMITED
      then case protobuf_decoder_read_bytes d of
             (None, d) \<Rightarrow> Return (Err ())
           | (Some (p, k), d) \<Rightarrow>
               (case use (drop (unat p) (pd_data d)) (unat k) of Ok m \<Rightarrow> Continue m d | Err e \<Rightarrow> Return (Err e) | Oob \<Rightarrow> Return Oob)
      else Continue m d)"

definition default_case :: "byte \<Rightarrow> 'm \<Rightarrow> protobuf_decoder \<Rightarrow> ('m, (unit, 'r) cresult) field_step" where
  "default_case wt m d = (case protobuf_decoder_skip_field d wt of (ok, d) \<Rightarrow> if \<not> ok then Return (Err ()) else Continue m d)"

definition data_default :: data_payload where
  "data_default = \<lparr>dp_port = 0, dp_payload = zeros MAX_LORA_PAYLOAD, dp_payload_len = 0, dp_want_response = False, dp_dest = 0, dp_source = 0,
     dp_request_id = 0, dp_reply_id = 0, dp_emoji = 0\<rparr>"

definition data_field :: "u32 \<Rightarrow> byte \<Rightarrow> data_payload \<Rightarrow> protobuf_decoder \<Rightarrow> (data_payload, (unit, data_payload) cresult) field_step" where
  "data_field n wt m d =
     (if n = 1 then varint_case wt m d (\<lambda>v. m\<lparr>dp_port := ucast v\<rparr>)
      else if n = 2 then bytes_case wt m d (\<lambda>xs k.
        if k > MAX_LORA_PAYLOAD then Err ()
        else read_n xs 0 k (\<lambda>ys. Ok (m\<lparr>dp_payload := memcpy (dp_payload m) 0 ys, dp_payload_len := k\<rparr>)))
      else if n = 3 then varint_case wt m d (\<lambda>v. m\<lparr>dp_want_response := (v \<noteq> 0)\<rparr>)
      else if n = 4 then varint_case wt m d (\<lambda>v. m\<lparr>dp_dest := ucast v\<rparr>)
      else if n = 5 then varint_case wt m d (\<lambda>v. m\<lparr>dp_source := ucast v\<rparr>)
      else if n = 6 then varint_case wt m d (\<lambda>v. m\<lparr>dp_request_id := ucast v\<rparr>)
      else if n = 7 then varint_case wt m d (\<lambda>v. m\<lparr>dp_reply_id := ucast v\<rparr>)
      else if n = 8 then varint_case wt m d (\<lambda>v. m\<lparr>dp_emoji := ucast v\<rparr>)
      else default_case wt m d)"

definition decode_data :: "bytes \<Rightarrow> u32 \<Rightarrow> (unit, data_payload) cresult option" where
  "decode_data d len = decode_loop protobuf_decoder_read_tag data_field Ok data_default (protobuf_decoder_init d len)"

definition location_source_of :: "u64 \<Rightarrow> location_source" where
  "location_source_of v =
     (let val_u8 = ucast v :: byte
      in if val_u8 = 1 then LOCATION_SOURCE_MANUAL else if val_u8 = 2 then LOCATION_SOURCE_INTERNAL_GPS
         else if val_u8 = 3 then LOCATION_SOURCE_EXTERNAL_GPS else LOCATION_SOURCE_UNSET)"

definition position_default :: position where
  "position_default = \<lparr>po_latitude_i = 0, po_longitude_i = 0, po_altitude = 0, po_time = 0, po_timestamp = 0,
     po_location_source = LOCATION_SOURCE_UNSET, po_altitude_source = LOCATION_SOURCE_UNSET, po_pdop = 0, po_hdop = 0,
     po_sats_in_view = 0, po_ground_speed = 0, po_ground_track = 0, po_fix_quality = 0, po_fix_type = 0, po_seq_number = 0\<rparr>"

definition position_field :: "u32 \<Rightarrow> byte \<Rightarrow> position \<Rightarrow> protobuf_decoder \<Rightarrow> (position, (unit, position) cresult) field_step" where
  "position_field n wt m d =
     (if n = 1 then sint32_case wt m d (\<lambda>v. m\<lparr>po_latitude_i := v\<rparr>)
      else if n = 2 then sint32_case wt m d (\<lambda>v. m\<lparr>po_longitude_i := v\<rparr>)
      else if n = 3 then sint32_case wt m d (\<lambda>v. m\<lparr>po_altitude := v\<rparr>)
      else if n = 4 then varint_case wt m d (\<lambda>v. m\<lparr>po_time := ucast v\<rparr>)
      else if n = 5 then varint_case wt m d (\<lambda>v. m\<lparr>po_location_source := location_source_of v\<rparr>)
      else if n = 6 then varint_case wt m d (\<lambda>v. m\<lparr>po_altitude_source := location_source_of v\<rparr>)
      else if n = 7 then varint_case wt m d (\<lambda>v. m\<lparr>po_timestamp := ucast v\<rparr>)
      else if n = 11 then varint_case wt m d (\<lambda>v. m\<lparr>po_pdop := ucast v\<rparr>)
      else if n = 12 then varint_case wt m d (\<lambda>v. m\<lparr>po_hdop := ucast v\<rparr>)
      else if n = 19 then varint_case wt m d (\<lambda>v. m\<lparr>po_sats_in_view := ucast v\<rparr>)
      else if n = 15 then varint_case wt m d (\<lambda>v. m\<lparr>po_ground_speed := ucast v\<rparr>)
      else if n = 16 then varint_case wt m d (\<lambda>v. m\<lparr>po_ground_track := ucast v\<rparr>)
      else if n = 17 then varint_case wt m d (\<lambda>v. m\<lparr>po_fix_quality := ucast v\<rparr>)
      else if n = 18 then varint_case wt m d (\<lambda>v. m\<lparr>po_fix_type := ucast v\<rparr>)
      else if n = 22 then varint_case wt m d (\<lambda>v. m\<lparr>po_seq_number := ucast v\<rparr>)
      else default_case wt m d)"

definition decode_position :: "bytes \<Rightarrow> u32 \<Rightarrow> (unit, position) cresult option" where
  "decode_position d len = decode_loop protobuf_decoder_read_tag position_field Ok position_default (protobuf_decoder_init d len)"

definition hardware_model_of :: "u64 \<Rightarrow> hardware_model" where
  "hardware_model_of v =
     (let val_u16 = ucast v :: u16
      in if val_u16 = 1 then HARDWARE_MODEL_TLORA_V2 else if val_u16 = 2 then HARDWARE_MODEL_TLORA_V1
         else if val_u16 = 4 then HARDWARE_MODEL_TBEAM else if val_u16 = 5 then HARDWARE_MODEL_HELTEC_V2_0
         else if val_u16 = 9 then HARDWARE_MODEL_RAK4631 else if val_u16 = 10 then HARDWARE_MODEL_HELTEC_V2_1
         else if val_u16 = 34 then HARDWARE_MODEL_HELTEC_WIFI_LORA_V3 else if val_u16 = 255 then HARDWARE_MODEL_PRIVATE_HW
         else HARDWARE_MODEL_UNSET)"

definition role_of :: "u64 \<Rightarrow> role" where
  "role_of v =
     (let val_u8 = ucast v :: byte
      in if val_u8 = 0 then ROLE_CLIENT else if val_u8 = 1 then ROLE_CLIENT_MUTE else if val_u8 = 2 then ROLE_ROUTER
         else if val_u8 = 3 then ROLE_ROUTER_CLIENT else if val_u8 = 4 then ROLE_REPEATER else if val_u8 = 5 then ROLE_TRACKER
         else if val_u8 = 6 then ROLE_SENSOR else if val_u8 = 7 then ROLE_TAK else if val_u8 = 8 then ROLE_CLIENT_HIDDEN
         else if val_u8 = 9 then ROLE_LOST_AND_FOUND else if val_u8 = 10 then ROLE_TAK_TRACKER else ROLE_CLIENT)"

definition user_default :: user where
  "user_default = \<lparr>us_id = zeros 8, us_long_name = zeros 40, us_long_name_len = 0, us_short_name = zeros 5, us_short_name_len = 0,
     us_hw_model = HARDWARE_MODEL_UNSET, us_is_licensed = False, us_role = ROLE_CLIENT\<rparr>"

definition user_field :: "u32 \<Rightarrow> byte \<Rightarrow> user \<Rightarrow> protobuf_decoder \<Rightarrow> (user, (unit, user) cresult) field_step" where
  "user_field n wt m d =
     (if n = 1 then bytes_case wt m d (\<lambda>xs k.
        if k \<ge> 17 then read_n xs 0 1 (\<lambda>c.
          if c = [0x21] then read_n xs 1 16 (\<lambda>ys. Ok (m\<lparr>us_id := hex_decode ys (us_id m)\<rparr>)) else Ok m)
        else if k = 8 then read_n xs 0 8 (\<lambda>ys. Ok (m\<lparr>us_id := memcpy (us_id m) 0 ys\<rparr>)) else Ok m)
      else if n = 2 then bytes_case wt m d (\<lambda>xs k.
        let k = (if k > length (us_long_name m) then length (us_long_name m) else k)
        in read_n xs 0 k (\<lambda>ys. Ok (m\<lparr>us_long_name := memcpy (us_long_name m) 0 ys, us_long_name_len := k\<rparr>)))
      else if n = 3 then bytes_case wt m d (\<lambda>xs k.
        let k = (if k > length (us_short_name m) then length (us_short_name m) else k)
        in read_n xs 0 k (\<lambda>ys. Ok (m\<lparr>us_short_name := memcpy (us_short_name m) 0 ys, us_short_name_len := k\<rparr>)))
      else if n = 4 then bytes_case wt m d (\<lambda>xs k.
        if k = 6 then read_n xs 0 6 (\<lambda>ys. Ok (m\<lparr>us_id := memcpy (us_id m) 2 ys\<rparr>)) else Ok m)
      else if n = 5 then varint_case wt m d (\<lambda>v. m\<lparr>us_hw_model := hardware_model_of v\<rparr>)
      else if n = 6 then varint_case wt m d (\<lambda>v. m\<lparr>us_is_licensed := (v \<noteq> 0)\<rparr>)
      else if n = 7 then varint_case wt m d (\<lambda>v. m\<lparr>us_role := role_of v\<rparr>)
      else default_case wt m d)"

definition decode_user :: "bytes \<Rightarrow> u32 \<Rightarrow> (unit, user) cresult option" where
  "decode_user d len = decode_loop protobuf_decoder_read_tag user_field Ok user_default (protobuf_decoder_init d len)"

section \<open>What the decoders do with well-formed fields\<close>

lemma case_ok:
  assumes "addressable pre (value_bytes w @ post)"
  shows "w = Varint v \<Longrightarrow> varint_case (wire_type_of w) m (cursor pre (value_bytes w @ post)) upd = Continue (upd v) (cursor (pre @ value_bytes w) post)"
    "w = Varint v \<Longrightarrow> sint32_case (wire_type_of w) m (cursor pre (value_bytes w @ post)) upd' = Continue (upd' (unzigzag32 (ucast v))) (cursor (pre @ value_bytes w) post)"
    "w = Bytes xs \<Longrightarrow> bytes_case (wire_type_of w) m (cursor pre (value_bytes w @ post)) use =
       (case use (xs @ post) (length xs) of Ok m \<Rightarrow> Continue m (cursor (pre @ value_bytes w) post) | Err e \<Rightarrow> Return (Err e) | Oob \<Rightarrow> Return Oob)"
    "default_case (wire_type_of w) m (cursor pre (value_bytes w @ post)) = Continue m (cursor (pre @ value_bytes w) post)"
proof -
  have v: "protobuf_decoder_read_varint (cursor pre (value_bytes w @ post)) = (Some v, cursor (pre @ value_bytes w) post)" if "w = Varint v"
    using read_varint_bytes [of pre "unat v" post] assms that unat_lt2p [of v] by simp
  then show "w = Varint v \<Longrightarrow> varint_case (wire_type_of w) m (cursor pre (value_bytes w @ post)) upd = Continue (upd v) (cursor (pre @ value_bytes w) post)"
    "w = Varint v \<Longrightarrow> sint32_case (wire_type_of w) m (cursor pre (value_bytes w @ post)) upd' = Continue (upd' (unzigzag32 (ucast v))) (cursor (pre @ value_bytes w) post)"
    by (simp_all add: varint_case_def sint32_case_def protobuf_decoder_read_sint32_def wire_types)
  have "unat (of_nat (length xs) :: u32) = length xs" "unat (of_nat (length pre + length (varint_bytes (length xs))) :: u32) = length pre + length (varint_bytes (length xs))" if "w = Bytes xs"
    using assms that by (simp_all add: unat_of_nat_u32 del: of_nat_add)
  then show "w = Bytes xs \<Longrightarrow> bytes_case (wire_type_of w) m (cursor pre (value_bytes w @ post)) use =
       (case use (xs @ post) (length xs) of Ok m \<Rightarrow> Continue m (cursor (pre @ value_bytes w) post) | Err e \<Rightarrow> Return (Err e) | Oob \<Rightarrow> Return Oob)"
    using read_bytes_bytes [of pre xs post] assms by (simp add: bytes_case_def wire_types cursor_simps del: of_nat_add split: cresult.split)
  show "default_case (wire_type_of w) m (cursor pre (value_bytes w @ post)) = Continue m (cursor (pre @ value_bytes w) post)"
    using skip_field_bytes [OF assms] by (simp add: default_case_def)
qed

text \<open>The meaning of the fields of a Data message, and which fields have the form the message defines.\<close>

fun data_act :: "wire_field \<Rightarrow> data_payload \<Rightarrow> data_payload" where
  "data_act (n, Varint v) m =
     (if n = 1 then m\<lparr>dp_port := ucast v\<rparr> else if n = 3 then m\<lparr>dp_want_response := (v \<noteq> 0)\<rparr>
      else if n = 4 then m\<lparr>dp_dest := ucast v\<rparr> else if n = 5 then m\<lparr>dp_source := ucast v\<rparr>
      else if n = 6 then m\<lparr>dp_request_id := ucast v\<rparr> else if n = 7 then m\<lparr>dp_reply_id := ucast v\<rparr>
      else if n = 8 then m\<lparr>dp_emoji := ucast v\<rparr> else m)"
| "data_act (n, Bytes xs) m =
     (if n = 2 then m\<lparr>dp_payload := memcpy (dp_payload m) 0 xs, dp_payload_len := length xs\<rparr> else m)"
| "data_act (n, w) m = m"

fun data_accepted :: "wire_field \<Rightarrow> bool" where
  "data_accepted (n, Varint v) \<longleftrightarrow> unat n < 2 ^ 29 \<and> n \<noteq> 2"
| "data_accepted (n, Bytes xs) \<longleftrightarrow> unat n < 2 ^ 29 \<and> n \<notin> {1, 3, 4, 5, 6, 7, 8} \<and> (n = 2 \<longrightarrow> length xs \<le> MAX_LORA_PAYLOAD)"
| "data_accepted (n, w) \<longleftrightarrow> unat n < 2 ^ 29 \<and> n \<notin> {1, 2, 3, 4, 5, 6, 7, 8}"

interpretation data_message: message_decoder protobuf_decoder_read_tag data_field data_act data_accepted
proof
  fix n w pre post m
  assume a: "data_accepted (n, w)" "addressable pre (value_bytes w @ post)"
  note c = case_ok [OF a(2)]
  show "data_field n (wire_type_of w) m (cursor pre (value_bytes w @ post)) = Continue (data_act (n, w) m) (cursor (pre @ value_bytes w) post)"
  proof (cases w)
    case (Varint v)
    then show ?thesis using a(1) unfolding data_field_def c(1) [OF Varint] c(4) by auto
  next
    case (Bytes xs)
    then show ?thesis using a(1) unfolding data_field_def c(3) [OF Bytes] c(4) by (auto simp: read_n_def slice_0_take)
  qed (use a(1) in \<open>unfold data_field_def c(4), auto\<close>)
next
  fix f
  assume "data_accepted f"
  then show "unat (fst f) < 2 ^ 29" by (cases f rule: data_accepted.cases) auto
qed (rule read_tag_bytes)

fun position_act :: "wire_field \<Rightarrow> position \<Rightarrow> position" where
  "position_act (n, Varint v) m =
     (if n = 1 then m\<lparr>po_latitude_i := unzigzag32 (ucast v)\<rparr> else if n = 2 then m\<lparr>po_longitude_i := unzigzag32 (ucast v)\<rparr>
      else if n = 3 then m\<lparr>po_altitude := unzigzag32 (ucast v)\<rparr> else if n = 4 then m\<lparr>po_time := ucast v\<rparr>
      else if n = 5 then m\<lparr>po_location_source := location_source_of v\<rparr> else if n = 6 then m\<lparr>po_altitude_source := location_source_of v\<rparr>
      else if n = 7 then m\<lparr>po_timestamp := ucast v\<rparr> else if n = 11 then m\<lparr>po_pdop := ucast v\<rparr>
      else if n = 12 then m\<lparr>po_hdop := ucast v\<rparr> else if n = 19 then m\<lparr>po_sats_in_view := ucast v\<rparr>
      else if n = 15 then m\<lparr>po_ground_speed := ucast v\<rparr> else if n = 16 then m\<lparr>po_ground_track := ucast v\<rparr>
      else if n = 17 then m\<lparr>po_fix_quality := ucast v\<rparr> else if n = 18 then m\<lparr>po_fix_type := ucast v\<rparr>
      else if n = 22 then m\<lparr>po_seq_number := ucast v\<rparr> else m)"
| "position_act (n, w) m = m"

fun position_accepted :: "wire_field \<Rightarrow> bool" where
  "position_accepted (n, Varint v) \<longleftrightarrow> unat n < 2 ^ 29"
| "position_accepted (n, w) \<longleftrightarrow> unat n < 2 ^ 29 \<and> n \<notin> {1, 2, 3, 4, 5, 6, 7, 11, 12, 15, 16, 17, 18, 19, 22}"

interpretation position_message: message_decoder protobuf_decoder_read_tag position_field position_act position_accepted
proof
  fix n w pre post m
  assume a: "position_accepted (n, w)" "addressable pre (value_bytes w @ post)"
  note c = case_ok [OF a(2)]
  show "position_field n (wire_type_of w) m (cursor pre (value_bytes w @ post)) = Continue (position_act (n, w) m) (cursor (pre @ value_bytes w) post)"
  proof (cases w)
    case (Varint v)
    then show ?thesis unfolding position_field_def c(1) [OF Varint] c(2) [OF Varint] c(4) by simp
  qed (use a(1) in \<open>unfold position_field_def c(4), auto\<close>)
next
  fix f
  assume "position_accepted f"
  then show "unat (fst f) < 2 ^ 29" by (cases f rule: position_accepted.cases) auto
qed (rule read_tag_bytes)

section \<open>Writing a message and reading it back\<close>

definition data_fields :: "data_payload \<Rightarrow> wire_field list" where
  "data_fields d =
     present 1 (Varint (ucast (dp_port d))) @ present 2 (Bytes (take (dp_payload_len d) (dp_payload d)))
     @ present 3 (Varint (of_bool (dp_want_response d))) @ present 4 (Varint (ucast (dp_dest d))) @ present 5 (Varint (ucast (dp_source d)))
     @ present 6 (Varint (ucast (dp_request_id d))) @ present 7 (Varint (ucast (dp_reply_id d))) @ present 8 (Varint (ucast (dp_emoji d)))"

lemma written_fields:
  assumes "length junk = MAX_LORA_PAYLOAD" "length bs \<le> MAX_LORA_PAYLOAD"
  shows "finish_output (appended (vec_u8_init junk MAX_LORA_PAYLOAD) bs) k = (if length bs \<le> k then Some bs else None)"
  using assms by (simp add: finish_output_def appended_def vec_u8_init_def memcpy_def)

lemma init_ok: "length junk = MAX_LORA_PAYLOAD \<Longrightarrow> vec_u8_ok (vec_u8_init junk MAX_LORA_PAYLOAD)"
  "vu_len (vec_u8_init junk n) = 0" "vu_capacity (vec_u8_init junk n) = n"
  by (simp_all add: vec_u8_ok_def vec_u8_init_def)

lemma write_next:
  assumes "vec_u8_ok e" "unat n < 2 ^ 29" "length xs < 2 ^ 64"
  shows "room e (length bs + length (message_bytes (present n (Varint v)))) \<Longrightarrow>
      snd (protobuf_encoder_write_varint_field (appended e bs) n v) = appended e (bs @ message_bytes (present n (Varint v)))"
    "room e (length bs + length (message_bytes (present n (Bytes xs)))) \<Longrightarrow>
      snd (protobuf_encoder_write_bytes_field (appended e bs) n xs) = appended e (bs @ message_bytes (present n (Bytes xs)))"
    "room e (length bs + length (message_bytes (present n (Varint (of_bool b))))) \<Longrightarrow>
      snd (protobuf_encoder_write_bool_field (appended e bs) n b) = appended e (bs @ message_bytes (present n (Varint (of_bool b))))"
    "room e (length bs + length (message_bytes (present n (Varint (ucast (zigzag32 i)))))) \<Longrightarrow>
      snd (protobuf_encoder_write_sint32_field (appended e bs) n i) = appended e (bs @ message_bytes (present n (Varint (ucast (zigzag32 i)))))"
  using assms by (simp_all add: write_present [OF _ _ _ refl])

lemma encode_data_fields:
  assumes "length junk = MAX_LORA_PAYLOAD" "length (message_bytes (data_fields d)) \<le> MAX_LORA_PAYLOAD"
  shows "encode_data junk d k = (let bs = message_bytes (data_fields d) in if length bs \<le> k then Some bs else None)"
proof -
  define xs where "xs = take (dp_payload_len d) (dp_payload d)"
  have "length xs < 2 ^ 64"
    using assms(2) by (cases "xs = []") (auto simp: data_fields_def xs_def [symmetric] present_def field_bytes_def MAX_LORA_PAYLOAD_def)
  note w = write_next [OF init_ok(1) [OF assms(1)] _ this, unfolded init_ok(2,3), simplified]
  have e: "vec_u8_init junk MAX_LORA_PAYLOAD = appended (vec_u8_init junk MAX_LORA_PAYLOAD) []" by simp
  have "encode_data junk d k = finish_output (appended (vec_u8_init junk MAX_LORA_PAYLOAD) (message_bytes (data_fields d))) k"
    using assms(2) unfolding encode_data_def Let_def xs_def [symmetric] data_fields_def
    by (subst e) (simp add: w del: appended_simps(3))
  then show ?thesis using written_fields [OF assms] by simp
qed

lemma length_present:
  assumes "unat n < 16"
  shows "length (message_bytes (present n (Varint v))) \<le> 11"
    "unat v < 2 ^ 32 \<Longrightarrow> length (message_bytes (present n (Varint v))) \<le> 6"
    "length xs < 2 ^ 14 \<Longrightarrow> length (message_bytes (present n (Bytes xs))) \<le> 3 + length xs"
    "length (message_bytes (present n (Varint (of_bool b)))) \<le> 2"
proof -
  have t: "length (tag_bytes n wt) \<le> 1" if "unat wt < 8" for wt
    using length_varint_bytes(2) [of "8 * unat n + unat wt" 0] assms that by (simp add: tag_bytes_def)
  show "length (message_bytes (present n (Varint v))) \<le> 11"
    using t [of 0] length_varint_u64 [of v] by (simp add: present_def field_bytes_def)
  show "unat v < 2 ^ 32 \<Longrightarrow> length (message_bytes (present n (Varint v))) \<le> 6"
    using t [of 0] length_varint_bytes(2) [of "unat v" 4] by (simp add: present_def field_bytes_def)
  show "length xs < 2 ^ 14 \<Longrightarrow> length (message_bytes (present n (Bytes xs))) \<le> 3 + length xs"
    using t [of 2] length_varint_bytes(2) [of "length xs" 1] by (simp add: present_def field_bytes_def)
  show "length (message_bytes (present n (Varint (of_bool b)))) \<le> 2"
    using t [of 0] length_varint_bytes(2) [of 1 0] by (cases b) (simp_all add: present_def field_bytes_def)
qed

lemma length_present_2:
  assumes "unat n < 2048" "unat v < 2 ^ 32"
  shows "length (message_bytes (present n (Varint v))) \<le> 7"
proof -
  have "length (tag_bytes n 0) \<le> 2"
    using length_varint_bytes(2) [of "8 * unat n" 1] assms by (simp add: tag_bytes_def)
  then show ?thesis using length_varint_bytes(2) [of "unat v" 4] assms(2) by (simp add: present_def field_bytes_def)
qed

lemma unat_ucast_u32: "unat (ucast (w :: u32) :: u64) < 2 ^ 32" "(ucast w :: u64) = 0 \<longleftrightarrow> w = 0" "ucast (ucast w :: u64) = w"
proof -
  show "unat (ucast (w :: u32) :: u64) < 2 ^ 32" using unat_lt2p [of w] by (simp add: unsigned_ucast_eq take_bit_nat_eq_self)
  show u: "ucast (ucast w :: u64) = w" by (rule ucast_up_ucast_id_u32)
  show "(ucast w :: u64) = 0 \<longleftrightarrow> w = 0" by (metis u ucast_0)
qed

lemma data_present:
  "dp_port m = 0 \<Longrightarrow> fold data_act (present 1 (Varint (ucast (x :: u32)))) m = m\<lparr>dp_port := x\<rparr>"
  "dp_payload_len m = 0 \<Longrightarrow> fold data_act (present 2 (Bytes xs)) m = m\<lparr>dp_payload := memcpy (dp_payload m) 0 xs, dp_payload_len := length xs\<rparr>"
  "\<not> dp_want_response m \<Longrightarrow> fold data_act (present 3 (Varint (of_bool b))) m = m\<lparr>dp_want_response := b\<rparr>"
  "dp_dest m = 0 \<Longrightarrow> fold data_act (present 4 (Varint (ucast (x :: u32)))) m = m\<lparr>dp_dest := x\<rparr>"
  "dp_source m = 0 \<Longrightarrow> fold data_act (present 5 (Varint (ucast (x :: u32)))) m = m\<lparr>dp_source := x\<rparr>"
  "dp_request_id m = 0 \<Longrightarrow> fold data_act (present 6 (Varint (ucast (x :: u32)))) m = m\<lparr>dp_request_id := x\<rparr>"
  "dp_reply_id m = 0 \<Longrightarrow> fold data_act (present 7 (Varint (ucast (x :: u32)))) m = m\<lparr>dp_reply_id := x\<rparr>"
  "dp_emoji m = 0 \<Longrightarrow> fold data_act (present 8 (Varint (ucast (x :: u32)))) m = m\<lparr>dp_emoji := x\<rparr>"
  by (simp_all add: present_def unat_ucast_u32)

lemma data_fields_accepted:
  "dp_payload_len d \<le> MAX_LORA_PAYLOAD \<Longrightarrow> \<forall>f \<in> set (data_fields d). data_accepted f"
  by (auto simp: data_fields_def present_def)

lemma data_act_fields:
  assumes "length (dp_payload d) = MAX_LORA_PAYLOAD" "dp_payload_len d \<le> MAX_LORA_PAYLOAD"
  shows "fold data_act (data_fields d) data_default = d\<lparr>dp_payload := memcpy (zeros MAX_LORA_PAYLOAD) 0 (take (dp_payload_len d) (dp_payload d))\<rparr>"
proof -
  have "fold data_act (data_fields d) data_default = \<lparr>dp_port = dp_port d, dp_payload = memcpy (zeros MAX_LORA_PAYLOAD) 0 (take (dp_payload_len d) (dp_payload d)),
      dp_payload_len = dp_payload_len d, dp_want_response = dp_want_response d, dp_dest = dp_dest d, dp_source = dp_source d,
      dp_request_id = dp_request_id d, dp_reply_id = dp_reply_id d, dp_emoji = dp_emoji d\<rparr>"
    unfolding data_fields_def fold_append comp_def using assms by (simp add: data_present data_default_def)
  then show ?thesis by simp
qed

text \<open>The same for Position.\<close>

definition position_fields :: "position \<Rightarrow> wire_field list" where
  "position_fields p =
     present 1 (Varint (ucast (zigzag32 (po_latitude_i p)))) @ present 2 (Varint (ucast (zigzag32 (po_longitude_i p))))
     @ present 3 (Varint (ucast (zigzag32 (po_altitude p)))) @ present 4 (Varint (ucast (po_time p)))
     @ present 5 (Varint (location_source_value (po_location_source p))) @ present 6 (Varint (location_source_value (po_altitude_source p)))
     @ present 7 (Varint (ucast (po_timestamp p))) @ present 11 (Varint (ucast (po_pdop p))) @ present 12 (Varint (ucast (po_hdop p)))
     @ present 19 (Varint (ucast (po_sats_in_view p))) @ present 15 (Varint (ucast (po_ground_speed p)))
     @ present 16 (Varint (ucast (po_ground_track p))) @ present 17 (Varint (ucast (po_fix_quality p)))
     @ present 18 (Varint (ucast (po_fix_type p))) @ present 22 (Varint (ucast (po_seq_number p)))"

lemma length_position_fields: "length (message_bytes (position_fields p)) \<le> 105"
proof -
  have u: "length (message_bytes (present n (Varint (ucast (x :: u32))))) \<le> 7" if "unat n < 2048" for n x
    by (rule length_present_2 [OF that unat_ucast_u32(1)])
  have "unat (location_source_value l) < 2 ^ 32" for l by (cases l) simp_all
  then have l: "length (message_bytes (present n (Varint (location_source_value l)))) \<le> 7" if "unat n < 2048" for n l
    by (rule length_present_2 [OF that])
  show ?thesis
    using u [of 1 "zigzag32 (po_latitude_i p)"] u [of 2 "zigzag32 (po_longitude_i p)"] u [of 3 "zigzag32 (po_altitude p)"]
      u [of 4 "po_time p"] l [of 5 "po_location_source p"] l [of 6 "po_altitude_source p"] u [of 7 "po_timestamp p"] u [of 11 "po_pdop p"]
      u [of 12 "po_hdop p"] u [of 19 "po_sats_in_view p"] u [of 15 "po_ground_speed p"] u [of 16 "po_ground_track p"]
      u [of 17 "po_fix_quality p"] u [of 18 "po_fix_type p"] u [of 22 "po_seq_number p"]
    by (simp add: position_fields_def)
qed

lemma encode_position_fields:
  assumes "length junk = MAX_LORA_PAYLOAD"
  shows "encode_position junk p k = (let bs = message_bytes (position_fields p) in if length bs \<le> k then Some bs else None)"
proof -
  have len: "length (message_bytes (position_fields p)) \<le> MAX_LORA_PAYLOAD"
    using length_position_fields [of p] by (simp add: MAX_LORA_PAYLOAD_def)
  note w = write_next [OF init_ok(1) [OF assms] _, of _ "[]", unfolded init_ok(2,3), simplified]
  have e: "vec_u8_init junk MAX_LORA_PAYLOAD = appended (vec_u8_init junk MAX_LORA_PAYLOAD) []" by simp
  have "encode_position junk p k = finish_output (appended (vec_u8_init junk MAX_LORA_PAYLOAD) (message_bytes (position_fields p))) k"
    using len unfolding encode_position_def Let_def position_fields_def
    by (subst e) (simp add: w del: appended_simps(3))
  then show ?thesis using written_fields [OF assms len] by simp
qed

lemma position_fields_accepted: "\<forall>f \<in> set (position_fields p). position_accepted f"
  by (auto simp: position_fields_def present_def)

lemma location_source_roundtrip [simp]: "location_source_of (location_source_value l) = l"
  "location_source_value l = 0 \<longleftrightarrow> l = LOCATION_SOURCE_UNSET"
  by (cases l; simp add: location_source_of_def)+

lemma ucast_zigzag: "(ucast (zigzag32 v) :: u64) = 0 \<longleftrightarrow> v = 0" "unzigzag32 (ucast (ucast (zigzag32 v) :: u64)) = v"
  by (simp_all add: unat_ucast_u32 zigzag32_0 zigzag_roundtrip)

lemma position_present:
  "po_latitude_i m = 0 \<Longrightarrow> fold position_act (present 1 (Varint (ucast (zigzag32 x)))) m = m\<lparr>po_latitude_i := x\<rparr>"
  "po_longitude_i m = 0 \<Longrightarrow> fold position_act (present 2 (Varint (ucast (zigzag32 x)))) m = m\<lparr>po_longitude_i := x\<rparr>"
  "po_altitude m = 0 \<Longrightarrow> fold position_act (present 3 (Varint (ucast (zigzag32 x)))) m = m\<lparr>po_altitude := x\<rparr>"
  "po_time m = 0 \<Longrightarrow> fold position_act (present 4 (Varint (ucast (x :: u32)))) m = m\<lparr>po_time := x\<rparr>"
  "po_location_source m = LOCATION_SOURCE_UNSET \<Longrightarrow> fold position_act (present 5 (Varint (location_source_value l))) m = m\<lparr>po_location_source := l\<rparr>"
  "po_altitude_source m = LOCATION_SOURCE_UNSET \<Longrightarrow> fold position_act (present 6 (Varint (location_source_value l))) m = m\<lparr>po_altitude_source := l\<rparr>"
  "po_timestamp m = 0 \<Longrightarrow> fold position_act (present 7 (Varint (ucast (x :: u32)))) m = m\<lparr>po_timestamp := x\<rparr>"
  "po_pdop m = 0 \<Longrightarrow> fold position_act (present 11 (Varint (ucast (x :: u32)))) m = m\<lparr>po_pdop := x\<rparr>"
  "po_hdop m = 0 \<Longrightarrow> fold position_act (present 12 (Varint (ucast (x :: u32)))) m = m\<lparr>po_hdop := x\<rparr>"
  "po_sats_in_view m = 0 \<Longrightarrow> fold position_act (present 19 (Varint (ucast (x :: u32)))) m = m\<lparr>po_sats_in_view := x\<rparr>"
  "po_ground_speed m = 0 \<Longrightarrow> fold position_act (present 15 (Varint (ucast (x :: u32)))) m = m\<lparr>po_ground_speed := x\<rparr>"
  "po_ground_track m = 0 \<Longrightarrow> fold position_act (present 16 (Varint (ucast (x :: u32)))) m = m\<lparr>po_ground_track := x\<rparr>"
  "po_fix_quality m = 0 \<Longrightarrow> fold position_act (present 17 (Varint (ucast (x :: u32)))) m = m\<lparr>po_fix_quality := x\<rparr>"
  "po_fix_type m = 0 \<Longrightarrow> fold position_act (present 18 (Varint (ucast (x :: u32)))) m = m\<lparr>po_fix_type := x\<rparr>"
  "po_seq_number m = 0 \<Longrightarrow> fold position_act (present 22 (Varint (ucast (x :: u32)))) m = m\<lparr>po_seq_number := x\<rparr>"
  by (simp_all add: present_def unat_ucast_u32 zigzag32_0 zigzag_roundtrip)

lemma position_act_fields: "fold position_act (position_fields p) position_default = p"
  unfolding position_fields_def fold_append comp_def by (simp add: position_present position_default_def)

section \<open>Hexadecimal round trip\<close>

definition hex_pair :: "byte \<Rightarrow> bytes" where
  "hex_pair b = [HEX_CHARS ! unat (drop_bit 4 b), HEX_CHARS ! unat (b AND 0x0F)]"

lemma list_update_pair: "length p = i \<Longrightarrow> (p @ x # y # r)[i := a, Suc i := b] = p @ a # b # r"
  by (simp add: list_update_append)

lemma length_hex_pairs [simp]: "length (concat (map hex_pair d)) = 2 * length d"
  by (induction d) (simp_all add: hex_pair_def)

lemma hex_encode_pairs:
  assumes "length out = 2 * length d"
  shows "hex_encode d out = concat (map hex_pair d)"
proof -
  let ?step = "\<lambda>out i. if i * 2 + 1 < length out
          then out[i * 2 := HEX_CHARS ! unat (drop_bit 4 (d ! i)), i * 2 + 1 := HEX_CHARS ! unat (d ! i AND 0x0F)] else out"
  have "foldl ?step out [0..<k] = concat (map hex_pair (take k d)) @ drop (2 * k) out" if "k \<le> length d" for k
    using that
  proof (induction k)
    case (Suc k)
    define p where "p = concat (map hex_pair (take k d))"
    have len: "length p = 2 * k" using Suc.prems by (simp add: p_def)
    have k: "2 * k + 1 < length out" using Suc.prems assms by simp
    then have r: "drop (2 * k) out = out ! (2 * k) # out ! (2 * k + 1) # drop (2 * Suc k) out"
      by (simp add: Cons_nth_drop_Suc)
    have u: "(p @ drop (2 * k) out)[k * 2 := a, k * 2 + 1 := b] = p @ a # b # drop (2 * Suc k) out" for a b
      using list_update_pair [of p "2 * k"] len unfolding r by (simp add: mult.commute)
    have "k * 2 + 1 < length (p @ drop (2 * k) out)" using len k by simp
    then have "?step (p @ drop (2 * k) out) k = p @ hex_pair (d ! k) @ drop (2 * Suc k) out"
      by (simp only: if_True u hex_pair_def append_Cons append_Nil)
    moreover have "concat (map hex_pair (take (Suc k) d)) = p @ hex_pair (d ! k)"
      using Suc.prems by (simp add: take_Suc_conv_app_nth p_def)
    moreover have "foldl ?step out [0..<k] = p @ drop (2 * k) out" using Suc by (simp add: p_def)
    moreover have "[0..<Suc k] = [0..<k] @ [k]" by simp
    ultimately show ?case by (simp only: foldl_append foldl_Cons foldl_Nil append_assoc)
  qed simp
  from this [of "length d"] assms show ?thesis unfolding hex_encode_def by simp
qed

lemma hex_digit: "n < 16 \<Longrightarrow> hex_char_to_value (HEX_CHARS ! n) = int n"
proof -
  have "list_all (\<lambda>n. hex_char_to_value (HEX_CHARS ! n) = int n) [0..<16]" by code_simp
  then show "n < 16 \<Longrightarrow> hex_char_to_value (HEX_CHARS ! n) = int n" by (simp add: list_all_iff)
qed

lemma nibbles: "unat (drop_bit 4 b) < 16" "unat (b AND 0x0F) < 16"
    "word_of_int (push_bit 4 (uint (drop_bit 4 b)) OR uint (b AND 0x0F)) = (b :: byte)"
proof -
  have m: "(0x0F :: byte) = mask 4" by (simp add: mask_eq_exp_minus_1)
  have "unat (drop_bit 4 b) = unat b div 16" by (simp add: drop_bit_eq_div unat_div)
  then show "unat (drop_bit 4 b) < 16" using unat_lt2p [of b] by (simp add: less_mult_imp_div_less)
  have "unat (b AND 0x0F) = take_bit 4 (unat b)" unfolding m take_bit_eq_mask [symmetric] unsigned_take_bit_eq ..
  then show "unat (b AND 0x0F) < 16" by (simp add: take_bit_eq_mod)
  show "word_of_int (push_bit 4 (uint (drop_bit 4 b)) OR uint (b AND 0x0F)) = b"
    unfolding m by (rule bit_word_eqI) (auto simp: bit_simps)
qed

lemma hex_pairs_nth:
  "i < length d \<Longrightarrow> concat (map hex_pair d) ! (2 * i) = HEX_CHARS ! unat (drop_bit 4 (d ! i))
     \<and> concat (map hex_pair d) ! (2 * i + 1) = HEX_CHARS ! unat (d ! i AND 0x0F)"
proof (induction d arbitrary: i)
  case (Cons b d)
  then show ?case by (cases i) (simp_all add: hex_pair_def)
qed simp

lemma hex_roundtrip:
  assumes "length junk = 2 * length d" "length out = length d"
  shows "hex_decode (hex_encode d junk) out = d"
proof -
  let ?h = "concat (map hex_pair d)"
  have "foldl (\<lambda>out i. let high = hex_char_to_value (?h ! (i * 2)); low = hex_char_to_value (?h ! (i * 2 + 1))
              in if high \<ge> 0 \<and> low \<ge> 0 then out[i := word_of_int (push_bit 4 high OR low)] else out) out [0..<k]
      = take k d @ drop k out" if "k \<le> length d" for k
    using that
  proof (induction k)
    case (Suc k)
    have r: "drop k out = out ! k # drop (Suc k) out" using Suc.prems assms(2) by (simp add: Cons_nth_drop_Suc)
    have "(take k d @ drop k out)[k := x] = take k d @ x # drop (Suc k) out" for x
      unfolding r using Suc.prems by (simp add: list_update_append)
    then show ?case using Suc hex_pairs_nth [of k d]
      by (simp add: Let_def mult.commute hex_digit nibbles take_Suc_conv_app_nth)
  qed simp
  from this [of "length d"] assms show ?thesis unfolding hex_encode_pairs [OF assms(1)] hex_decode_def by simp
qed

text \<open>User: the identifier goes out as hexadecimal text and once more as hardware address.\<close>

fun user_act :: "wire_field \<Rightarrow> user \<Rightarrow> user" where
  "user_act (n, Bytes xs) m =
     (if n = 1 then
        (if length xs \<ge> 17 then (if hd xs = 0x21 then m\<lparr>us_id := hex_decode (slice xs 1 16) (us_id m)\<rparr> else m)
         else if length xs = 8 then m\<lparr>us_id := memcpy (us_id m) 0 xs\<rparr> else m)
      else if n = 2 then
        (let k = min (length xs) (length (us_long_name m))
         in m\<lparr>us_long_name := memcpy (us_long_name m) 0 (take k xs), us_long_name_len := k\<rparr>)
      else if n = 3 then
        (let k = min (length xs) (length (us_short_name m))
         in m\<lparr>us_short_name := memcpy (us_short_name m) 0 (take k xs), us_short_name_len := k\<rparr>)
      else if n = 4 then (if length xs = 6 then m\<lparr>us_id := memcpy (us_id m) 2 xs\<rparr> else m)
      else m)"
| "user_act (n, Varint v) m =
     (if n = 5 then m\<lparr>us_hw_model := hardware_model_of v\<rparr> else if n = 6 then m\<lparr>us_is_licensed := (v \<noteq> 0)\<rparr>
      else if n = 7 then m\<lparr>us_role := role_of v\<rparr> else m)"
| "user_act (n, w) m = m"

fun user_accepted :: "wire_field \<Rightarrow> bool" where
  "user_accepted (n, Varint v) \<longleftrightarrow> unat n < 2 ^ 29 \<and> n \<notin> {1, 2, 3, 4}"
| "user_accepted (n, Bytes xs) \<longleftrightarrow> unat n < 2 ^ 29 \<and> n \<notin> {5, 6, 7}"
| "user_accepted (n, w) \<longleftrightarrow> unat n < 2 ^ 29 \<and> n \<notin> {1, 2, 3, 4, 5, 6, 7}"

interpretation user_message: message_decoder protobuf_decoder_read_tag user_field user_act user_accepted
proof
  fix n w pre post m
  assume a: "user_accepted (n, w)" "addressable pre (value_bytes w @ post)"
  note c = case_ok [OF a(2)]
  show "user_field n (wire_type_of w) m (cursor pre (value_bytes w @ post)) = Continue (user_act (n, w) m) (cursor (pre @ value_bytes w) post)"
  proof (cases w)
    case (Varint v)
    then show ?thesis using a(1) unfolding user_field_def c(1) [OF Varint] c(4) by auto
  next
    case (Bytes xs)
    have "slice (xs @ post) 0 (Suc 0) = [hd xs]" if "17 \<le> length xs" using that by (cases xs) auto
    then show ?thesis using a(1) Bytes unfolding user_field_def c(3) [OF Bytes] c(4)
      by (auto simp: read_n_def slice_0_take Let_def min_def)
  qed (use a(1) in \<open>unfold user_field_def c(4), auto\<close>)
next
  fix f
  assume "user_accepted f"
  then show "unat (fst f) < 2 ^ 29" by (cases f rule: user_accepted.cases) auto
qed (rule read_tag_bytes)

definition user_fields :: "user \<Rightarrow> wire_field list" where
  "user_fields u =
     present 1 (Bytes (0x21 # concat (map hex_pair (us_id u)))) @ present 2 (Bytes (take (us_long_name_len u) (us_long_name u)))
     @ present 3 (Bytes (take (us_short_name_len u) (us_short_name u))) @ present 4 (Bytes (slice (us_id u) 2 6))
     @ present 5 (Varint (hardware_model_value (us_hw_model u))) @ present 6 (Varint (of_bool (us_is_licensed u)))
     @ present 7 (Varint (role_value (us_role u)))"

text \<open>The arrays of a User and the hardware models the decoder knows.\<close>

definition user_ok :: "user \<Rightarrow> bool" where
  "user_ok u \<longleftrightarrow> length (us_id u) = 8 \<and> length (us_long_name u) = 40 \<and> us_long_name_len u \<le> 40
     \<and> length (us_short_name u) = 5 \<and> us_short_name_len u \<le> 5"

lemma length_user_fields: "user_ok u \<Longrightarrow> length (message_bytes (user_fields u)) \<le> 110"
proof -
  assume u: "user_ok u"
  have "unat (hardware_model_value h) < 2 ^ 32" for h
  proof (cases h)
    case (HARDWARE_MODEL_OTHER v)
    then show ?thesis using unat_lt2p [of v] by (simp add: unsigned_ucast_eq take_bit_nat_eq_self)
  qed simp_all
  moreover have "unat (role_value r) < 2 ^ 32" for r by (cases r) simp_all
  ultimately have v: "length (message_bytes (present 5 (Varint (hardware_model_value (us_hw_model u))))) \<le> 6"
      "length (message_bytes (present 7 (Varint (role_value (us_role u))))) \<le> 6"
    using length_present(2) by simp_all
  have b: "length (message_bytes (present n (Bytes xs))) \<le> 3 + length xs" if "unat n < 16" "length xs \<le> 40" for n xs
    by (rule length_present(3) [OF that(1)]) (use that(2) in simp)
  show ?thesis
    using u v b [of 1 "0x21 # concat (map hex_pair (us_id u))"] b [of 2 "take (us_long_name_len u) (us_long_name u)"]
      b [of 3 "take (us_short_name_len u) (us_short_name u)"] b [of 4 "slice (us_id u) 2 6"] length_present(4) [of 6 "us_is_licensed u"]
    by (simp add: user_fields_def user_ok_def)
qed

lemma encode_user_fields:
  assumes "length junk = MAX_LORA_PAYLOAD" "length junk_id = 16" "user_ok u"
  shows "encode_user junk junk_id u k = (let bs = message_bytes (user_fields u) in if length bs \<le> k then Some bs else None)"
proof -
  have h: "hex_encode (us_id u) junk_id = concat (map hex_pair (us_id u))"
    using assms(2,3) by (intro hex_encode_pairs) (simp add: user_ok_def)
  have len: "length (message_bytes (user_fields u)) \<le> MAX_LORA_PAYLOAD"
    using length_user_fields [OF assms(3)] by (simp add: MAX_LORA_PAYLOAD_def)
  define i l s m where "i = 0x21 # concat (map hex_pair (us_id u))" and "l = take (us_long_name_len u) (us_long_name u)"
    and "s = take (us_short_name_len u) (us_short_name u)" and "m = slice (us_id u) 2 6"
  note xs = i_def [symmetric] l_def [symmetric] s_def [symmetric] m_def [symmetric]
  have short: "length i < 2 ^ 64" "length l < 2 ^ 64" "length s < 2 ^ 64" "length m < 2 ^ 64"
    using assms(3) by (simp_all add: i_def l_def s_def m_def user_ok_def)
  note w1 = write_next [OF init_ok(1) [OF assms(1)], unfolded init_ok(2,3), OF _ short(1), simplified]
  note w = w1 write_next(2) [OF init_ok(1) [OF assms(1)], unfolded init_ok(2,3), OF _ short(2), simplified]
    write_next(2) [OF init_ok(1) [OF assms(1)], unfolded init_ok(2,3), OF _ short(3), simplified]
    write_next(2) [OF init_ok(1) [OF assms(1)], unfolded init_ok(2,3), OF _ short(4), simplified]
  have e: "vec_u8_init junk MAX_LORA_PAYLOAD = appended (vec_u8_init junk MAX_LORA_PAYLOAD) []" by simp
  have "encode_user junk junk_id u k = finish_output (appended (vec_u8_init junk MAX_LORA_PAYLOAD) (message_bytes (user_fields u))) k"
    using len unfolding encode_user_def Let_def user_fields_def h xs
    by (subst e) (simp add: w del: appended_simps(3))
  then show ?thesis using written_fields [OF assms(1) len] by simp
qed

lemma user_fields_accepted: "\<forall>f \<in> set (user_fields u). user_accepted f"
  by (auto simp: user_fields_def present_def)

lemma role_roundtrip [simp]: "role_of (role_value r) = r" "role_value r = 0 \<longleftrightarrow> r = ROLE_CLIENT"
  by (cases r; simp add: role_of_def Let_def)+

text \<open>The hardware models outside the decoder's list are read back as unset.\<close>

definition known_model :: "hardware_model \<Rightarrow> hardware_model" where
  "known_model h = hardware_model_of (hardware_model_value h)"

lemma known_model_simps: "known_model h = (case h of HARDWARE_MODEL_OTHER v \<Rightarrow> hardware_model_of (ucast v) | _ \<Rightarrow> h)"
  by (cases h) (simp_all add: known_model_def hardware_model_of_def Let_def)

lemma memcpy_slice_id: "off + n \<le> length xs \<Longrightarrow> memcpy xs off (slice xs off n) = xs"
  by (simp add: memcpy_def slice_def add.commute flip: drop_drop)

lemma user_present:
  "length (us_id m) = 8 \<Longrightarrow> length xs = 8 \<Longrightarrow> fold user_act (present 1 (Bytes (0x21 # concat (map hex_pair xs)))) m = m\<lparr>us_id := xs\<rparr>"
  "us_long_name_len m = 0 \<Longrightarrow> length xs \<le> length (us_long_name m) \<Longrightarrow>
     fold user_act (present 2 (Bytes xs)) m = m\<lparr>us_long_name := memcpy (us_long_name m) 0 xs, us_long_name_len := length xs\<rparr>"
  "us_short_name_len m = 0 \<Longrightarrow> length xs \<le> length (us_short_name m) \<Longrightarrow>
     fold user_act (present 3 (Bytes xs)) m = m\<lparr>us_short_name := memcpy (us_short_name m) 0 xs, us_short_name_len := length xs\<rparr>"
  "length (us_id m) = 8 \<Longrightarrow> fold user_act (present 4 (Bytes (slice (us_id m) 2 6))) m = m"
  "us_hw_model m = HARDWARE_MODEL_UNSET \<Longrightarrow> fold user_act (present 5 (Varint (hardware_model_value h))) m = m\<lparr>us_hw_model := known_model h\<rparr>"
  "\<not> us_is_licensed m \<Longrightarrow> fold user_act (present 6 (Varint (of_bool b))) m = m\<lparr>us_is_licensed := b\<rparr>"
  "us_role m = ROLE_CLIENT \<Longrightarrow> fold user_act (present 7 (Varint (role_value r))) m = m\<lparr>us_role := r\<rparr>"
proof -
  assume a: "length (us_id m) = 8" "length xs = 8"
  have "hex_decode (concat (map hex_pair xs)) (us_id m) = xs"
    using hex_roundtrip [of "zeros 16" xs "us_id m"] hex_encode_pairs [of "zeros 16" xs] a by simp
  moreover have "slice (0x21 # concat (map hex_pair xs)) (Suc 0) 16 = concat (map hex_pair xs)" using a by simp
  ultimately show "fold user_act (present 1 (Bytes (0x21 # concat (map hex_pair xs)))) m = m\<lparr>us_id := xs\<rparr>"
    using a by (simp add: present_def)
next
  assume a: "length (us_id m) = 8"
  then have "slice (us_id m) 2 6 \<noteq> []" by (auto dest: arg_cong [where f = length])
  with a show "fold user_act (present 4 (Bytes (slice (us_id m) 2 6))) m = m" by (simp add: present_def memcpy_slice_id)
next
  assume a: "us_hw_model m = HARDWARE_MODEL_UNSET"
  have "known_model h = HARDWARE_MODEL_UNSET" if "hardware_model_value h = 0" using that by (simp add: known_model_def hardware_model_of_def)
  with a show "fold user_act (present 5 (Varint (hardware_model_value h))) m = m\<lparr>us_hw_model := known_model h\<rparr>"
    by (simp add: present_def known_model_def)
qed (simp_all add: present_def min_def Let_def)

definition received_user :: "user \<Rightarrow> user" where
  "received_user u = u\<lparr>us_long_name := memcpy (zeros 40) 0 (take (us_long_name_len u) (us_long_name u)),
     us_short_name := memcpy (zeros 5) 0 (take (us_short_name_len u) (us_short_name u)), us_hw_model := known_model (us_hw_model u)\<rparr>"

lemma user_act_fields:
  assumes "user_ok u"
  shows "fold user_act (user_fields u) user_default = received_user u"
proof -
  define m where "m = user_default\<lparr>us_id := us_id u, us_long_name := memcpy (zeros 40) 0 (take (us_long_name_len u) (us_long_name u)), us_long_name_len := us_long_name_len u,
     us_short_name := memcpy (zeros 5) 0 (take (us_short_name_len u) (us_short_name u)), us_short_name_len := us_short_name_len u\<rparr>"
  have four: "fold user_act (present 4 (Bytes (slice (us_id u) 2 6))) m = m"
    using user_present(4) [of m] assms by (simp add: m_def user_ok_def)
  have three: "fold user_act (present 3 (Bytes (take (us_short_name_len u) (us_short_name u))))
      (fold user_act (present 2 (Bytes (take (us_long_name_len u) (us_long_name u))))
        (fold user_act (present 1 (Bytes (0x21 # concat (map hex_pair (us_id u))))) user_default)) = m"
    using assms by (simp add: user_present user_default_def user_ok_def m_def)
  show ?thesis unfolding user_fields_def fold_append comp_def three four
    by (simp add: user_present m_def user_default_def received_user_def)
qed

section \<open>Arbitrary input\<close>

lemma case_forward:
  assumes "dec_ok d" "length (pd_data d) < 2 ^ 32 - 8" "\<not> (wt = 2 \<and> length_wraps d)"
  shows "varint_case wt m d upd = Continue m' d' \<Longrightarrow> reach d d' \<and> pd_pos d \<le> pd_pos d'"
    "sint32_case wt m d upd' = Continue m' d' \<Longrightarrow> reach d d' \<and> pd_pos d \<le> pd_pos d'"
    "bytes_case wt m d use = Continue m' d' \<Longrightarrow> reach d d' \<and> pd_pos d \<le> pd_pos d'"
    "default_case wt m d = Continue m' d' \<Longrightarrow> reach d d' \<and> pd_pos d \<le> pd_pos d'"
proof -
  have same: "reach d d \<and> pd_pos d \<le> pd_pos d" using assms(1) by (simp add: reach_def)
  have v: "reach d d' \<and> pd_pos d \<le> pd_pos d'" if "protobuf_decoder_read_varint d = (Some v, d')" for v
    using read_varint_step(1,2) [OF assms(1) that] by (simp add: less_imp_le)
  show "varint_case wt m d upd = Continue m' d' \<Longrightarrow> reach d d' \<and> pd_pos d \<le> pd_pos d'"
    using v same unfolding varint_case_def by (auto split: if_splits option.splits prod.splits)
  show "sint32_case wt m d upd' = Continue m' d' \<Longrightarrow> reach d d' \<and> pd_pos d \<le> pd_pos d'"
    using v same unfolding sint32_case_def protobuf_decoder_read_sint32_def by (auto split: if_splits option.splits prod.splits)
  show "reach d d' \<and> pd_pos d \<le> pd_pos d'" if c: "bytes_case wt m d use = Continue m' d'"
  proof (cases "wt = WIRE_TYPE_LENGTH_DELIMITED")
    case True
    with c obtain p k where "protobuf_decoder_read_bytes d = (Some (p, k), d')"
      by (auto simp: bytes_case_def split: option.splits prod.splits cresult.splits)
    from read_bytes_step(1,2) [OF assms(1) this] assms(3) True show ?thesis by (simp add: wire_types)
  qed (use c same in \<open>simp add: bytes_case_def\<close>)
  show "reach d d' \<and> pd_pos d \<le> pd_pos d'" if c: "default_case wt m d = Continue m' d'"
  proof -
    from c have "protobuf_decoder_skip_field d wt = (True, d')" by (auto simp: default_case_def split: prod.splits if_splits)
    from skip_field_step [OF assms(1) this] assms(2,3) show ?thesis by simp
  qed
qed

interpretation data_progress: decoder_progress protobuf_decoder_read_tag data_field
proof
  fix d wt n m m' d'
  assume a: "dec_ok d" "length (pd_data d) < 2 ^ 32 - 8" "\<not> (wt = 2 \<and> length_wraps d)" "data_field n wt m d = Continue m' d'"
  then show "reach d d' \<and> pd_pos d \<le> pd_pos d'"
    unfolding data_field_def by (auto split: if_split_asm dest!: case_forward [OF a(1-3)])
qed (simp add: read_tag_step)

interpretation position_progress: decoder_progress protobuf_decoder_read_tag position_field
proof
  fix d wt n m m' d'
  assume a: "dec_ok d" "length (pd_data d) < 2 ^ 32 - 8" "\<not> (wt = 2 \<and> length_wraps d)" "position_field n wt m d = Continue m' d'"
  then show "reach d d' \<and> pd_pos d \<le> pd_pos d'"
    unfolding position_field_def by (auto split: if_split_asm dest!: case_forward [OF a(1-3)])
qed (simp add: read_tag_step)

interpretation user_progress: decoder_progress protobuf_decoder_read_tag user_field
proof
  fix d wt n m m' d'
  assume a: "dec_ok d" "length (pd_data d) < 2 ^ 32 - 8" "\<not> (wt = 2 \<and> length_wraps d)" "user_field n wt m d = Continue m' d'"
  then show "reach d d' \<and> pd_pos d \<le> pd_pos d'"
    unfolding user_field_def by (auto split: if_split_asm dest!: case_forward [OF a(1-3)])
qed (simp add: read_tag_step)

lemma init_dec_ok: "length xs < 2 ^ 32 \<Longrightarrow> dec_ok (protobuf_decoder_init xs (of_nat (length xs)))"
  by (simp add: dec_ok_def protobuf_decoder_init_def unat_of_nat_u32)

lemma case_reach:
  assumes "dec_ok d"
  shows "varint_case wt m d upd = Continue m' d' \<Longrightarrow> reach d d'" "sint32_case wt m d upd' = Continue m' d' \<Longrightarrow> reach d d'"
    "bytes_case wt m d use = Continue m' d' \<Longrightarrow> reach d d'" "default_case wt m d = Continue m' d' \<Longrightarrow> reach d d'"
proof -
  have same: "reach d d" using assms(1) by (simp add: reach_def)
  note v = read_varint_step(1) [OF assms(1)]
  show "varint_case wt m d upd = Continue m' d' \<Longrightarrow> reach d d'"
    using v same unfolding varint_case_def by (auto split: if_splits option.splits prod.splits)
  show "sint32_case wt m d upd' = Continue m' d' \<Longrightarrow> reach d d'"
    using v same unfolding sint32_case_def protobuf_decoder_read_sint32_def by (auto split: if_splits option.splits prod.splits)
  show "bytes_case wt m d use = Continue m' d' \<Longrightarrow> reach d d'"
    using read_bytes_step(1) [OF assms(1)] same unfolding bytes_case_def by (auto split: if_splits option.splits prod.splits cresult.splits)
  show "default_case wt m d = Continue m' d' \<Longrightarrow> reach d d'"
    using skip_field_step(1) [OF assms(1)] unfolding default_case_def by (auto split: prod.splits if_splits)
qed

lemma case_return:
  "varint_case wt m d upd = Return r \<Longrightarrow> r = Err ()" "sint32_case wt m d upd' = Return r \<Longrightarrow> r = Err ()" "default_case wt m d = Return r \<Longrightarrow> r = Err ()"
  by (auto simp: varint_case_def sint32_case_def default_case_def split: if_splits option.splits prod.splits)

lemma varint_case_message: "varint_case wt m d upd = Continue m' d' \<Longrightarrow> m' = m \<or> (\<exists>v. m' = upd v)"
  by (auto simp: varint_case_def split: if_splits option.splits prod.splits)

lemma default_case_message: "default_case wt m d = Continue m' d' \<Longrightarrow> m' = m"
  by (auto simp: default_case_def split: if_splits prod.splits)

text \<open>The payload of a Data message: the copy is bounded by the test of the length, and the test of the rest of
  the input cannot wrap for a length that has passed it.\<close>

definition data_ok :: "data_payload \<Rightarrow> bool" where
  "data_ok m \<longleftrightarrow> length (dp_payload m) = MAX_LORA_PAYLOAD \<and> dp_payload_len m \<le> MAX_LORA_PAYLOAD"

definition data_result_ok :: "(unit, data_payload) cresult \<Rightarrow> bool" where
  "data_result_ok r \<longleftrightarrow> (case r of Ok m \<Rightarrow> data_ok m | Err e \<Rightarrow> True | Oob \<Rightarrow> False)"

lemma payload_case:
  assumes "dec_ok d" "length (pd_data d) \<le> 2 ^ 32 - 238" "data_ok m"
    and "step = bytes_case wt m d (\<lambda>xs k. if k > MAX_LORA_PAYLOAD then Err ()
        else read_n xs 0 k (\<lambda>ys. Ok (m\<lparr>dp_payload := memcpy (dp_payload m) 0 ys, dp_payload_len := k\<rparr>)))"
  shows "step = Continue m' d' \<Longrightarrow> data_ok m'" "step = Return r \<Longrightarrow> data_result_ok r"
proof -
  have inside: "unat k \<le> length (pd_data d') - unat p" if "protobuf_decoder_read_bytes d = (Some (p, k), d')" "unat k \<le> MAX_LORA_PAYLOAD" for p k d'
    using read_bytes_step(3-5) [OF assms(1) that(1)] that(2) assms(2) by (simp add: MAX_LORA_PAYLOAD_def)
  have ok: "data_ok (m\<lparr>dp_payload := memcpy (dp_payload m) 0 (slice xs 0 k), dp_payload_len := k\<rparr>)" if "k \<le> MAX_LORA_PAYLOAD" "k \<le> length xs" for xs k
    using assms(3) that by (simp add: data_ok_def)
  show "step = Continue m' d' \<Longrightarrow> data_ok m'" "step = Return r \<Longrightarrow> data_result_ok r"
    using assms(3) inside ok unfolding assms(4) bytes_case_def
    by (auto simp: read_n_def data_result_ok_def split: if_splits option.splits prod.splits cresult.splits)
qed

interpretation data_safe: decoder_safe protobuf_decoder_read_tag data_field data_ok data_result_ok "2 ^ 32 - 238"
proof
  fix d n wt m m' d'
  assume a: "dec_ok d" "length (pd_data d) \<le> 2 ^ 32 - 238" "data_ok m" "data_field n wt m d = Continue m' d'"
  have "reach d d'" using a(4) unfolding data_field_def by (auto split: if_split_asm dest!: case_reach [OF a(1)])
  moreover have "data_ok m'"
    using a(3,4) payload_case(1) [OF a(1-3) refl, of wt m' d'] unfolding data_field_def
    by (auto split: if_split_asm dest!: varint_case_message default_case_message simp: data_ok_def)
  ultimately show "reach d d' \<and> data_ok m'" ..
next
  fix d n wt m r
  assume a: "dec_ok d" "length (pd_data d) \<le> 2 ^ 32 - 238" "data_ok m" "data_field n wt m d = Return r"
  then show "data_result_ok r"
    using payload_case(2) [OF a(1-3) refl, of wt r] unfolding data_field_def
    by (auto split: if_split_asm dest!: case_return simp: data_result_ok_def)
qed (simp_all add: read_tag_step data_result_ok_def)

lemma decode_data_loops: "decode_data [0x4A, 0xFA, 0xFF, 0xFF, 0xFF, 0x0F] 6 = None"
proof -
  let ?d = "protobuf_decoder_init [0x4A, 0xFA, 0xFF, 0xFF, 0xFF, 0x0F] 6"
  have t: "protobuf_decoder_read_tag ?d = (Some (9, 2), ?d\<lparr>pd_pos := 1\<rparr>)" by code_simp
  have s: "protobuf_decoder_skip_field (?d\<lparr>pd_pos := 1\<rparr>) 2 = (True, ?d)" by code_simp
  have h: "protobuf_decoder_has_more ?d" by code_simp
  have "data_field 9 2 m (?d\<lparr>pd_pos := 1\<rparr>) = Continue m ?d" for m by (simp add: data_field_def default_case_def s)
  from loop_never [where read_tag = protobuf_decoder_read_tag and field = data_field, OF h t this] show ?thesis by (simp add: decode_data_def)
qed

section \<open>Properties\<close>

text \<open>A number survives the wire: an encoder with ten free bytes writes any 64-bit number in one to ten bytes, and the
  decoder and the slice reader placed at these bytes, whatever stands around them, read the number back and stop behind
  them. The same holds for signed numbers of 32 and 64 bits in zig-zag form.\<close>

theorem protobuf_number_roundtrip:
  assumes "vec_u8_ok e" "vu_len e + 10 \<le> vu_capacity e" "length pre + 10 + length post < 2 ^ 32"
  shows "(\<exists>bs e'. protobuf_encoder_write_varint e v = (True, e') \<and> contents e' = contents e @ bs \<and> 1 \<le> length bs \<and> length bs \<le> 10
      \<and> protobuf_decoder_read_varint (cursor pre (bs @ post)) = (Some v, cursor (pre @ bs) post)
      \<and> protobuf_decoder_read_varint_advancing (bs @ post) = (Some v, post))
    \<and> (\<exists>bs e'. protobuf_encoder_write_sint32 e i = (True, e') \<and> contents e' = contents e @ bs
      \<and> protobuf_decoder_read_sint32 (cursor pre (bs @ post)) = (Some i, cursor (pre @ bs) post))
    \<and> (\<exists>bs e'. protobuf_encoder_write_sint64 e j = (True, e') \<and> contents e' = contents e @ bs
      \<and> protobuf_decoder_read_sint64 (cursor pre (bs @ post)) = (Some j, cursor (pre @ bs) post))"
proof (intro conjI)
  have r: "protobuf_decoder_read_varint (cursor pre (varint_bytes (unat v) @ post)) = (Some v, cursor (pre @ varint_bytes (unat v)) post)" for v
    using read_varint_bytes [of pre "unat v" post] assms(3) length_varint_u64 [of v] unat_lt2p [of v] by simp
  have w: "protobuf_encoder_write_varint e v = (True, appended e (varint_bytes (unat v)))" for v
    using write_varint_appended [OF assms(1), of v] assms(2) length_varint_u64 [of v] by simp
  have "varint_from (varint_bytes (unat v) @ post) 0 0 = Some (v, post)" using varint_from_bytes [of 0 v post] by simp
  then show "\<exists>bs e'. protobuf_encoder_write_varint e v = (True, e') \<and> contents e' = contents e @ bs \<and> 1 \<le> length bs \<and> length bs \<le> 10
      \<and> protobuf_decoder_read_varint (cursor pre (bs @ post)) = (Some v, cursor (pre @ bs) post)
      \<and> protobuf_decoder_read_varint_advancing (bs @ post) = (Some v, post)"
    using w [of v] r [of v] length_varint_bytes(1) [of "unat v"] length_varint_u64 [of v] contents_appended [OF assms(1)]
    by (auto simp: protobuf_decoder_read_varint_advancing_def Suc_le_eq simp del: length_greater_0_conv)
  show "\<exists>bs e'. protobuf_encoder_write_sint32 e i = (True, e') \<and> contents e' = contents e @ bs
      \<and> protobuf_decoder_read_sint32 (cursor pre (bs @ post)) = (Some i, cursor (pre @ bs) post)"
    using w [of "ucast (zigzag32 i)"] r [of "ucast (zigzag32 i)"] contents_appended [OF assms(1)]
    by (auto simp: protobuf_encoder_write_sint32_def protobuf_decoder_read_sint32_def zigzag_roundtrip ucast_zigzag)
  show "\<exists>bs e'. protobuf_encoder_write_sint64 e j = (True, e') \<and> contents e' = contents e @ bs
      \<and> protobuf_decoder_read_sint64 (cursor pre (bs @ post)) = (Some j, cursor (pre @ bs) post)"
    using w [of "zigzag64 j"] r [of "zigzag64 j"] contents_appended [OF assms(1)]
    by (auto simp: protobuf_encoder_write_sint64_def protobuf_decoder_read_sint64_def zigzag_roundtrip)
qed

theorem protobuf_number_roundtrip_witness:
  "\<exists>bs e'. protobuf_encoder_write_sint32 (vec_u8_init (zeros 16) 16) (- 3) = (True, e') \<and> contents e' = bs
      \<and> protobuf_decoder_read_sint32 (cursor [1] (bs @ [2])) = (Some (- 3), cursor (1 # bs) [2])"
  using protobuf_number_roundtrip [of "vec_u8_init (zeros 16) 16" "[1]" "[2]" 0 "- 3"]
  by (simp add: vec_u8_ok_def vec_u8_init_def contents_def)

text \<open>C29. What the decoders understand: on the encoding of any sequence of well-formed fields - in any order, with repeated
  fields and with fields of unknown numbers - the decoders of Data, Position and User return the message that results from
  performing the fields one after the other on the default message.\<close>

theorem protobuf_decode_fields:
  assumes "length (message_bytes fs) < 2 ^ 32"
  shows "((\<forall>f \<in> set fs. data_accepted f) \<longrightarrow>
      decode_data (message_bytes fs) (of_nat (length (message_bytes fs))) = Some (Ok (fold data_act fs data_default)))
    \<and> ((\<forall>f \<in> set fs. position_accepted f) \<longrightarrow>
      decode_position (message_bytes fs) (of_nat (length (message_bytes fs))) = Some (Ok (fold position_act fs position_default)))
    \<and> ((\<forall>f \<in> set fs. user_accepted f) \<longrightarrow>
      decode_user (message_bytes fs) (of_nat (length (message_bytes fs))) = Some (Ok (fold user_act fs user_default)))"
  using assms unfolding decode_data_def decode_position_def decode_user_def
  by (intro conjI impI) (simp_all only: data_message.decode_message position_message.decode_message user_message.decode_message)

theorem protobuf_decode_fields_witness:
  "decode_data [0x20, 7, 0xA2, 6, 2, 1, 2, 0x12, 1, 9, 0x20, 8] 12 =
     Some (Ok (data_default\<lparr>dp_dest := 8, dp_payload := 9 # zeros 236, dp_payload_len := 1\<rparr>))"
proof -
  let ?fs = "[(4, Varint 7), (100, Bytes [1, 2]), (2, Bytes [9]), (4, Varint 8)]"
  have z: "memcpy (zeros 237) 0 [9] = 9 # zeros 236" by (simp add: memcpy_def zeros_def)
  have bs: "message_bytes ?fs = [0x20, 7, 0xA2, 6, 2, 1, 2, 0x12, 1, 9, 0x20, 8]" by code_simp
  have "\<forall>f \<in> set ?fs. data_accepted f" by (simp add: MAX_LORA_PAYLOAD_def)
  with protobuf_decode_fields [of ?fs, unfolded bs] show ?thesis
    by (simp add: data_default_def MAX_LORA_PAYLOAD_def z)
qed



text \<open>C30. When the decoders return. On every input that leaves eight bytes of the address space free, each of the three decoding loops
  returns, or one of its turns - reached from the start by decoding the fields before it - comes to a length-delimited field
  whose length makes the 32-bit sum of position and length wrap. That exception is real: the cursor then moves back, and six bytes on the
  air keep the decoder of Data messages busy forever.\<close>

theorem protobuf_decoders_return:
  assumes "length xs < 2 ^ 32 - 8" "d0 = protobuf_decoder_init xs (of_nat (length xs))"
  shows "((\<exists>r. decode_data xs (of_nat (length xs)) = Some r)
      \<or> (\<exists>m d. loop_reaches protobuf_decoder_read_tag data_field data_default d0 m d \<and> turn_wraps protobuf_decoder_read_tag d))
    \<and> ((\<exists>r. decode_position xs (of_nat (length xs)) = Some r)
      \<or> (\<exists>m d. loop_reaches protobuf_decoder_read_tag position_field position_default d0 m d \<and> turn_wraps protobuf_decoder_read_tag d))
    \<and> ((\<exists>r. decode_user xs (of_nat (length xs)) = Some r)
      \<or> (\<exists>m d. loop_reaches protobuf_decoder_read_tag user_field user_default d0 m d \<and> turn_wraps protobuf_decoder_read_tag d))
    \<and> decode_data [0x4A, 0xFA, 0xFF, 0xFF, 0xFF, 0x0F] 6 = None"
proof -
  have ok: "dec_ok d0" "length (pd_data d0) < 2 ^ 32 - 8"
    using assms init_dec_ok [of xs] by (simp_all add: protobuf_decoder_init_def)
  show ?thesis unfolding decode_data_def [of xs] decode_position_def decode_user_def assms(2) [symmetric]
    by (intro conjI data_progress.loop_returns [OF ok] position_progress.loop_returns [OF ok] user_progress.loop_returns [OF ok] decode_data_loops)
qed

text \<open>A Data message to everyone - the destination is the largest 32-bit number - has no length that wraps.\<close>

theorem protobuf_decoders_return_witness: "\<exists>r. decode_data [0x20, 0xFF, 0xFF, 0xFF, 0xFF, 0x0F] 6 = Some r"
proof -
  let ?xs = "[0x20, 0xFF, 0xFF, 0xFF, 0xFF, 0x0F] :: bytes"
  let ?d = "protobuf_decoder_init ?xs 6"
  have t: "protobuf_decoder_read_tag ?d = (Some (4, 0), ?d\<lparr>pd_pos := 1\<rparr>)" by code_simp
  have e: "\<not> protobuf_decoder_has_more (?d\<lparr>pd_pos := 6\<rparr>)" by code_simp
  have v: "protobuf_decoder_read_varint (?d\<lparr>pd_pos := 1\<rparr>) = (Some 0xFFFFFFFF, ?d\<lparr>pd_pos := 6\<rparr>)" by code_simp
  have f: "data_field 4 0 m (?d\<lparr>pd_pos := 1\<rparr>) = Continue (m\<lparr>dp_dest := 0xFFFFFFFF\<rparr>) (?d\<lparr>pd_pos := 6\<rparr>)" for m
    by (simp add: data_field_def varint_case_def v wire_types)
  have states: "d = ?d \<or> d = ?d\<lparr>pd_pos := 6\<rparr>" if "loop_reaches protobuf_decoder_read_tag data_field data_default ?d m d" for m d
    using that
  proof (induction rule: loop_reaches.induct)
    case (turn m d n wt d1 m' d')
    then have "d = ?d" using e by auto
    with turn t f show ?case by auto
  qed simp
  have "\<not> turn_wraps protobuf_decoder_read_tag ?d" "\<not> turn_wraps protobuf_decoder_read_tag (?d\<lparr>pd_pos := 6\<rparr>)"
    using t e by (simp_all add: turn_wraps_def)
  then show ?thesis using protobuf_decoders_return [of ?xs ?d] states by fastforce
qed

text \<open>C31. Decoding a Data message is memory safe: whatever the bytes of an input that leaves 238 bytes of the address space free,
  if the decoder returns it has not read outside the input, and a message it returns has a payload within its array.\<close>

theorem decode_data_memory_safe:
  assumes "length xs \<le> 2 ^ 32 - 238" "decode_data xs (of_nat (length xs)) = Some r"
  shows "r \<noteq> Oob \<and> (\<forall>m. r = Ok m \<longrightarrow> length (dp_payload m) = 237 \<and> dp_payload_len m \<le> 237)"
proof -
  have "data_result_ok r"
    using data_safe.loop_safe [OF assms(2) [unfolded decode_data_def]] init_dec_ok [of xs] assms(1)
    by (simp add: data_result_ok_def data_ok_def data_default_def protobuf_decoder_init_def)
  then show ?thesis by (auto simp: data_result_ok_def data_ok_def MAX_LORA_PAYLOAD_def)
qed

theorem decode_data_memory_safe_witness:
  "\<exists>r. decode_data [0x12, 0xFF, 0x01] 3 = Some r \<and> r \<noteq> Oob"
proof -
  let ?d = "protobuf_decoder_init [0x12, 0xFF, 0x01] 3"
  have t: "protobuf_decoder_read_tag ?d = (Some (2, 2), ?d\<lparr>pd_pos := 1\<rparr>)" by code_simp
  have h: "protobuf_decoder_has_more ?d" by code_simp
  have b: "fst (protobuf_decoder_read_bytes (?d\<lparr>pd_pos := 1\<rparr>)) = None" by code_simp
  then have f: "data_field 2 2 m (?d\<lparr>pd_pos := 1\<rparr>) = Return (Err ())" for m
    by (cases "protobuf_decoder_read_bytes (?d\<lparr>pd_pos := 1\<rparr>)") (simp add: data_field_def bytes_case_def wire_types)
  have "decode_data [0x12, 0xFF, 0x01] 3 = Some (Err ())"
    unfolding decode_data_def by (subst decode_loop.simps) (simp add: h t f)
  then show ?thesis using decode_data_memory_safe [of "[0x12, 0xFF, 0x01]"] by simp
qed

end
