(* ===== verification/Channel.thy ===== *)
theory Channel
  imports Aes_Correct Hmac
begin

unbundle bit_operations_syntax

text \<open>
  The channels of the Meshtastic stack (\<^verbatim>\<open>meshtastic/channel.c\<close>): modem presets, channel keys, channels with
  their name and key, encryption of packets in counter mode, the channel hash, and the set of eight channels.

  The functions \<^verbatim>\<open>mesh_kdf_...\<close> are declared nowhere in the repository; they are the parameter \<open>mesh_kdf\<close>. The
  tagged union of a key is its 32 bytes, of which a 128-bit key uses the first 16; \<open>junk\<close> is the uninitialised
  memory of a local key. \<^verbatim>\<open>malloc\<close> succeeds. The floating-point airtime estimate is not modelled.
\<close>

section \<open>Modem presets\<close>

datatype modem_preset = MODEM_PRESET_LONG_SLOW | MODEM_PRESET_LONG_FAST | MODEM_PRESET_LONG_MODERATE | MODEM_PRESET_VERY_LONG_SLOW
  | MODEM_PRESET_MEDIUM_SLOW | MODEM_PRESET_MEDIUM_FAST | MODEM_PRESET_SHORT_SLOW | MODEM_PRESET_SHORT_FAST | MODEM_PRESET_SHORT_TURBO

record lora_params =
  lp_spreading_factor :: byte
  lp_bandwidth :: u32
  lp_coding_rate :: byte

definition modem_preset_default :: modem_preset where
  "modem_preset_default = MODEM_PRESET_LONG_FAST"

fun modem_preset_lora_params :: "modem_preset \<Rightarrow> lora_params" where
  "modem_preset_lora_params MODEM_PRESET_LONG_SLOW = \<lparr>lp_spreading_factor = 12, lp_bandwidth = 125000, lp_coding_rate = 8\<rparr>"
| "modem_preset_lora_params MODEM_PRESET_LONG_FAST = \<lparr>lp_spreading_factor = 11, lp_bandwidth = 125000, lp_coding_rate = 8\<rparr>"
| "modem_preset_lora_params MODEM_PRESET_LONG_MODERATE = \<lparr>lp_spreading_factor = 11, lp_bandwidth = 125000, lp_coding_rate = 5\<rparr>"
| "modem_preset_lora_params MODEM_PRESET_VERY_LONG_SLOW = \<lparr>lp_spreading_factor = 12, lp_bandwidth = 125000, lp_coding_rate = 8\<rparr>"
| "modem_preset_lora_params MODEM_PRESET_MEDIUM_SLOW = \<lparr>lp_spreading_factor = 10, lp_bandwidth = 250000, lp_coding_rate = 5\<rparr>"
| "modem_preset_lora_params MODEM_PRESET_MEDIUM_FAST = \<lparr>lp_spreading_factor = 9, lp_bandwidth = 250000, lp_coding_rate = 5\<rparr>"
| "modem_preset_lora_params MODEM_PRESET_SHORT_SLOW = \<lparr>lp_spreading_factor = 8, lp_bandwidth = 250000, lp_coding_rate = 5\<rparr>"
| "modem_preset_lora_params MODEM_PRESET_SHORT_FAST = \<lparr>lp_spreading_factor = 7, lp_bandwidth = 250000, lp_coding_rate = 5\<rparr>"
| "modem_preset_lora_params MODEM_PRESET_SHORT_TURBO = \<lparr>lp_spreading_factor = 7, lp_bandwidth = 500000, lp_coding_rate = 5\<rparr>"

section \<open>Channel keys\<close>

record mesh_kdf =
  mk_default_key :: bytes
  mk_derive_channel_key :: "bytes \<Rightarrow> bytes"
  mk_derive_nonce :: "u32 \<Rightarrow> u32 \<Rightarrow> bytes"

datatype channel_key_type = CHANNEL_KEY_NONE | CHANNEL_KEY_AES128 | CHANNEL_KEY_AES256

record channel_key =
  ck_type :: channel_key_type
  ck_data :: bytes

definition KEY_SIZE_128 :: nat where "KEY_SIZE_128 = 16"

definition KEY_SIZE_256 :: nat where "KEY_SIZE_256 = 32"

definition channel_key_drop :: "channel_key \<Rightarrow> channel_key" where
  "channel_key_drop key =
     (case ck_type key of
        CHANNEL_KEY_AES128 \<Rightarrow> key\<lparr>ck_data := memcpy (ck_data key) 0 (zeros KEY_SIZE_128)\<rparr>
      | CHANNEL_KEY_AES256 \<Rightarrow> key\<lparr>ck_data := memcpy (ck_data key) 0 (zeros KEY_SIZE_256)\<rparr>
      | CHANNEL_KEY_NONE \<Rightarrow> key)"

definition channel_key_from_bytes :: "bytes \<Rightarrow> bytes \<Rightarrow> channel_key" where
  "channel_key_from_bytes junk key =
     (if length key = 0 then \<lparr>ck_type = CHANNEL_KEY_NONE, ck_data = junk\<rparr>
      else if length key \<le> 16
      then \<lparr>ck_type = CHANNEL_KEY_AES128, ck_data = memcpy (memcpy junk 0 (zeros KEY_SIZE_128)) 0 key\<rparr>
      else let copy_len = (if length key < KEY_SIZE_256 then length key else KEY_SIZE_256)
           in \<lparr>ck_type = CHANNEL_KEY_AES256, ck_data = memcpy (memcpy junk 0 (zeros KEY_SIZE_256)) 0 (slice key 0 copy_len)\<rparr>)"

definition channel_key_default :: "mesh_kdf \<Rightarrow> bytes \<Rightarrow> channel_key" where
  "channel_key_default kdf junk = \<lparr>ck_type = CHANNEL_KEY_AES128, ck_data = memcpy junk 0 (slice (mk_default_key kdf) 0 KEY_SIZE_128)\<rparr>"

text \<open>A C string is the list of its characters before the terminating zero; \<open>None\<close> is the null pointer.\<close>

definition channel_key_from_channel_name :: "mesh_kdf \<Rightarrow> bytes \<Rightarrow> bytes option \<Rightarrow> channel_key" where
  "channel_key_from_channel_name kdf junk name =
     (case name of
        None \<Rightarrow> channel_key_default kdf junk
      | Some s \<Rightarrow>
          (if s = [] then channel_key_default kdf junk
           else \<lparr>ck_type = CHANNEL_KEY_AES256, ck_data = memcpy junk 0 (mk_derive_channel_key kdf s)\<rparr>))"

definition channel_key_is_encrypted :: "channel_key \<Rightarrow> bool" where
  "channel_key_is_encrypted key \<longleftrightarrow> ck_type key \<noteq> CHANNEL_KEY_NONE"

definition channel_key_as_bytes :: "channel_key \<Rightarrow> bytes" where
  "channel_key_as_bytes key =
     (case ck_type key of
        CHANNEL_KEY_NONE \<Rightarrow> []
      | CHANNEL_KEY_AES128 \<Rightarrow> slice (ck_data key) 0 KEY_SIZE_128
      | CHANNEL_KEY_AES256 \<Rightarrow> slice (ck_data key) 0 KEY_SIZE_256)"

section \<open>Vectors\<close>

record lvec =
  lv_data :: bytes
  lv_len :: nat

definition MAX_CHANNEL_NAME :: nat where "MAX_CHANNEL_NAME = 12"

definition MAX_VEC_SIZE :: nat where "MAX_VEC_SIZE = 256"

definition vec_channel_name_clear :: "lvec \<Rightarrow> lvec" where
  "vec_channel_name_clear v = v\<lparr>lv_len := 0\<rparr>"

definition vec_channel_name_extend :: "lvec \<Rightarrow> bytes \<Rightarrow> bool \<times> lvec" where
  "vec_channel_name_extend v xs =
     (if lv_len v + length xs > MAX_CHANNEL_NAME then (False, v)
      else (True, v\<lparr>lv_data := memcpy (lv_data v) (lv_len v) xs, lv_len := lv_len v + length xs\<rparr>))"

definition vec256_from_slice :: "lvec \<Rightarrow> bytes \<Rightarrow> bool \<times> lvec" where
  "vec256_from_slice v xs =
     (if length xs > MAX_VEC_SIZE then (False, v) else (True, v\<lparr>lv_data := memcpy (lv_data v) 0 xs, lv_len := length xs\<rparr>))"

definition vec256_extend :: "lvec \<Rightarrow> bytes \<Rightarrow> bool \<times> lvec" where
  "vec256_extend v xs =
     (if lv_len v + length xs > MAX_VEC_SIZE then (False, v)
      else (True, v\<lparr>lv_data := memcpy (lv_data v) (lv_len v) xs, lv_len := lv_len v + length xs\<rparr>))"

section \<open>Channels\<close>

record channel =
  ch_index :: byte
  ch_name :: lvec
  ch_key :: channel_key
  ch_modem_preset :: modem_preset
  ch_uplink_enabled :: bool
  ch_downlink_enabled :: bool
  ch_position_precision :: byte

text \<open>\<open>junk_name\<close> is the uninitialised name array.\<close>

definition channel_new :: "mesh_kdf \<Rightarrow> bytes \<Rightarrow> bytes \<Rightarrow> byte \<Rightarrow> channel" where
  "channel_new kdf junk junk_name index =
     \<lparr>ch_index = index, ch_name = \<lparr>lv_data = junk_name, lv_len = 0\<rparr>, ch_key = channel_key_default kdf junk,
      ch_modem_preset = modem_preset_default, ch_uplink_enabled = False, ch_downlink_enabled = False, ch_position_precision = 0\<rparr>"

definition channel_primary :: "mesh_kdf \<Rightarrow> bytes \<Rightarrow> bytes \<Rightarrow> channel" where
  "channel_primary kdf junk junk_name =
     (let ch = channel_new kdf junk junk_name 0
      in ch\<lparr>ch_name := snd (vec_channel_name_extend (ch_name ch) (ascii ''Primary''))\<rparr>)"

definition channel_set_name :: "mesh_kdf \<Rightarrow> bytes \<Rightarrow> channel \<Rightarrow> bytes \<Rightarrow> channel" where
  "channel_set_name kdf junk ch name =
     (let ch = ch\<lparr>ch_name := vec_channel_name_clear (ch_name ch)\<rparr>;
          len = (if length name > MAX_CHANNEL_NAME then MAX_CHANNEL_NAME else length name);
          ch = ch\<lparr>ch_name := snd (vec_channel_name_extend (ch_name ch) (slice name 0 len))\<rparr>;
          ch = ch\<lparr>ch_key := channel_key_drop (ch_key ch)\<rparr>
      in ch\<lparr>ch_key := channel_key_from_channel_name kdf junk (Some name)\<rparr>)"

definition channel_set_key :: "bytes \<Rightarrow> channel \<Rightarrow> bytes \<Rightarrow> channel" where
  "channel_set_key junk ch key =
     (let ch = ch\<lparr>ch_key := channel_key_drop (ch_key ch)\<rparr> in ch\<lparr>ch_key := channel_key_from_bytes junk key\<rparr>)"

text \<open>The keystream runs over the first \<open>lv_len\<close> bytes of the vector.\<close>

definition on_prefix :: "(bytes \<Rightarrow> bytes) \<Rightarrow> lvec \<Rightarrow> lvec" where
  "on_prefix f v = v\<lparr>lv_data := memcpy (lv_data v) 0 (f (slice (lv_data v) 0 (lv_len v)))\<rparr>"

definition channel_encrypt :: "mesh_kdf \<Rightarrow> channel \<Rightarrow> u32 \<Rightarrow> u32 \<Rightarrow> bytes \<Rightarrow> lvec \<Rightarrow> bool \<times> lvec" where
  "channel_encrypt kdf ch packet_id sender plaintext ciphertext =
     (if \<not> channel_key_is_encrypted (ch_key ch) then vec256_from_slice ciphertext plaintext
      else let nonce = mk_derive_nonce kdf packet_id sender; (ok, ciphertext) = vec256_from_slice ciphertext plaintext
      in if \<not> ok then (False, ciphertext)
         else (True,
           (case ck_type (ch_key ch) of
              CHANNEL_KEY_AES128 \<Rightarrow> on_prefix (aes128_encrypt_ctr (aes128_new (slice (ck_data (ch_key ch)) 0 16)) (slice nonce 0 16)) ciphertext
            | CHANNEL_KEY_AES256 \<Rightarrow> on_prefix (aes256_encrypt_ctr (aes256_new (slice (ck_data (ch_key ch)) 0 32)) (slice nonce 0 16)) ciphertext
            | CHANNEL_KEY_NONE \<Rightarrow> ciphertext)))"

definition channel_decrypt :: "mesh_kdf \<Rightarrow> channel \<Rightarrow> u32 \<Rightarrow> u32 \<Rightarrow> bytes \<Rightarrow> lvec \<Rightarrow> bool \<times> lvec" where
  "channel_decrypt kdf ch packet_id sender ciphertext plaintext =
     (if \<not> channel_key_is_encrypted (ch_key ch) then vec256_from_slice plaintext ciphertext
      else let nonce = mk_derive_nonce kdf packet_id sender; (ok, plaintext) = vec256_from_slice plaintext ciphertext
      in if \<not> ok then (False, plaintext)
         else (True,
           (case ck_type (ch_key ch) of
              CHANNEL_KEY_AES128 \<Rightarrow> on_prefix (aes128_decrypt_ctr (aes128_new (slice (ck_data (ch_key ch)) 0 16)) (slice nonce 0 16)) plaintext
            | CHANNEL_KEY_AES256 \<Rightarrow> on_prefix (aes256_decrypt_ctr (aes256_new (slice (ck_data (ch_key ch)) 0 32)) (slice nonce 0 16)) plaintext
            | CHANNEL_KEY_NONE \<Rightarrow> plaintext)))"

definition channel_hash :: "channel \<Rightarrow> byte" where
  "channel_hash ch =
     (let key_bytes = channel_key_as_bytes (ch_key ch)
      in if length key_bytes = 0 then 0 else foldl (\<lambda>h b. h XOR b) 0 key_bytes)"

definition channel_name_str :: "channel \<Rightarrow> bytes" where
  "channel_name_str ch = (if lv_len (ch_name ch) > 0 then slice (lv_data (ch_name ch)) 0 (lv_len (ch_name ch)) else [])"

definition channel_default :: "mesh_kdf \<Rightarrow> bytes \<Rightarrow> bytes \<Rightarrow> channel" where
  "channel_default kdf junk junk_name = channel_primary kdf junk junk_name"

definition channel_drop :: "channel \<Rightarrow> channel" where
  "channel_drop ch = ch\<lparr>ch_key := channel_key_drop (ch_key ch)\<rparr>"

section \<open>The set of channels\<close>

text \<open>A pointer to a channel of the set is the channel itself, the null pointer is \<open>None\<close>. The write of \<^verbatim>\<open>channel_set_set\<close> is a copy, which
  outside the array would make it longer.\<close>

definition MAX_CHANNELS :: nat where "MAX_CHANNELS = 8"

type_synonym channel_set = "channel option list"

definition channel_set_new :: "mesh_kdf \<Rightarrow> bytes \<Rightarrow> bytes \<Rightarrow> channel_set" where
  "channel_set_new kdf junk junk_name = (replicate MAX_CHANNELS None)[0 := Some (channel_primary kdf junk junk_name)]"

definition channel_set_get :: "channel_set \<Rightarrow> byte \<Rightarrow> channel option" where
  "channel_set_get cs index = (if unat index \<ge> MAX_CHANNELS then None else cs ! unat index)"

definition channel_set_set :: "channel_set \<Rightarrow> byte \<Rightarrow> channel \<Rightarrow> channel_set" where
  "channel_set_set cs index ch = (if unat index \<ge> MAX_CHANNELS then cs else memcpy cs (unat index) [Some ch])"

definition channel_set_primary :: "channel_set \<Rightarrow> channel option" where
  "channel_set_primary cs = cs ! 0"

definition channel_set_primary_or_init :: "mesh_kdf \<Rightarrow> bytes \<Rightarrow> bytes \<Rightarrow> channel_set \<Rightarrow> channel option \<times> channel_set" where
  "channel_set_primary_or_init kdf junk junk_name cs =
     (let cs = (if cs ! 0 = None then cs[0 := Some (channel_primary kdf junk junk_name)] else cs) in (cs ! 0, cs))"

fun find_hash :: "byte \<Rightarrow> channel option list \<Rightarrow> channel option" where
  "find_hash h [] = None"
| "find_hash h (None # cs) = find_hash h cs"
| "find_hash h (Some ch # cs) = (if channel_hash ch = h then Some ch else find_hash h cs)"

definition channel_set_find_by_hash :: "channel_set \<Rightarrow> byte \<Rightarrow> channel option" where
  "channel_set_find_by_hash cs h = find_hash h (take MAX_CHANNELS cs)"

definition channel_set_count :: "channel_set \<Rightarrow> nat" where
  "channel_set_count cs = foldl (\<lambda>n c. if c \<noteq> None then n + 1 else n) 0 (take MAX_CHANNELS cs)"

definition channel_set_default :: "mesh_kdf \<Rightarrow> bytes \<Rightarrow> bytes \<Rightarrow> channel_set" where
  "channel_set_default kdf junk junk_name = channel_set_new kdf junk junk_name"

definition channel_set_drop :: "channel_set \<Rightarrow> channel_set" where
  "channel_set_drop cs = map (\<lambda>c. None) cs"

section \<open>Encryption\<close>

definition lvec_ok :: "nat \<Rightarrow> lvec \<Rightarrow> bool" where
  "lvec_ok n v \<longleftrightarrow> length (lv_data v) = n \<and> lv_len v \<le> n"

definition lcontents :: "lvec \<Rightarrow> bytes" where
  "lcontents v = slice (lv_data v) 0 (lv_len v)"

text \<open>The keystream of a key for a packet: the transformation of both directions.\<close>

definition packet_stream :: "mesh_kdf \<Rightarrow> channel_key \<Rightarrow> u32 \<Rightarrow> u32 \<Rightarrow> bytes \<Rightarrow> bytes" where
  "packet_stream kdf key packet_id sender =
     (case ck_type key of
        CHANNEL_KEY_NONE \<Rightarrow> (\<lambda>d. d)
      | CHANNEL_KEY_AES128 \<Rightarrow> aes128_encrypt_ctr (aes128_new (slice (ck_data key) 0 16)) (slice (mk_derive_nonce kdf packet_id sender) 0 16)
      | CHANNEL_KEY_AES256 \<Rightarrow> aes256_encrypt_ctr (aes256_new (slice (ck_data key) 0 32)) (slice (mk_derive_nonce kdf packet_id sender) 0 16))"

lemma packet_stream_involution [simp]:
  "packet_stream kdf key packet_id sender (packet_stream kdf key packet_id sender d) = d" "length (packet_stream kdf key packet_id sender d) = length d"
  by (cases "ck_type key"; simp add: packet_stream_def aes128_encrypt_ctr_def aes256_encrypt_ctr_def aes_ctr_twice)+

lemma lcontents_prefix:
  assumes "lvec_ok n v" "\<And>d. length (f d) = length d"
  shows "lcontents (on_prefix f v) = f (lcontents v)" "lvec_ok n (on_prefix f v)"
  using assms by (simp_all add: lvec_ok_def lcontents_def on_prefix_def memcpy_def slice_def)

lemma vec256_from_slice_cases:
  assumes "lvec_ok 256 v"
  shows "length xs \<le> 256 \<Longrightarrow> \<exists>w. vec256_from_slice v xs = (True, w) \<and> lvec_ok 256 w \<and> lcontents w = xs"
    "\<not> length xs \<le> 256 \<Longrightarrow> vec256_from_slice v xs = (False, v)"
  using assms by (auto simp: vec256_from_slice_def lvec_ok_def lcontents_def MAX_VEC_SIZE_def memcpy_def slice_def)

lemma decrypt_ctr_eq: "aes128_decrypt_ctr = aes128_encrypt_ctr" "aes256_decrypt_ctr = aes256_encrypt_ctr"
  by (simp_all add: fun_eq_iff aes128_decrypt_ctr_def aes256_decrypt_ctr_def)

lemma channel_decrypt_eq: "channel_decrypt = channel_encrypt"
  by (intro ext) (unfold channel_decrypt_def channel_encrypt_def decrypt_ctr_eq, rule refl)

lemma channel_encrypt_cases:
  assumes "lvec_ok 256 v"
  shows "length xs \<le> 256 \<Longrightarrow> \<exists>w. channel_encrypt kdf ch packet_id sender xs v = (True, w) \<and> lvec_ok 256 w
      \<and> lcontents w = packet_stream kdf (ch_key ch) packet_id sender xs"
    "\<not> length xs \<le> 256 \<Longrightarrow> channel_encrypt kdf ch packet_id sender xs v = (False, v)"
proof -
  assume "length xs \<le> 256"
  from vec256_from_slice_cases(1) [OF assms this] obtain w where
    w: "vec256_from_slice v xs = (True, w)" "lvec_ok 256 w" "lcontents w = xs" by blast
  have l: "length (aes128_encrypt_ctr c n d) = length d" "length (aes256_encrypt_ctr c' n d) = length d" for c c' n d
    by (simp_all add: aes128_encrypt_ctr_def aes256_encrypt_ctr_def)
  show "\<exists>w. channel_encrypt kdf ch packet_id sender xs v = (True, w) \<and> lvec_ok 256 w
      \<and> lcontents w = packet_stream kdf (ch_key ch) packet_id sender xs"
    using w lcontents_prefix [OF w(2)] l
    by (cases "ck_type (ch_key ch)") (auto simp: channel_encrypt_def channel_key_is_encrypted_def packet_stream_def)
next
  assume "\<not> length xs \<le> 256"
  from vec256_from_slice_cases(2) [OF assms this] show "channel_encrypt kdf ch packet_id sender xs v = (False, v)"
    by (simp add: channel_encrypt_def)
qed

section \<open>The set\<close>

lemma find_hash_iff:
  "find_hash h cs = Some ch \<longleftrightarrow> (\<exists>i < length cs. cs ! i = Some ch \<and> channel_hash ch = h \<and> (\<forall>j < i. \<forall>c. cs ! j = Some c \<longrightarrow> channel_hash c \<noteq> h))"
proof (induction h cs rule: find_hash.induct)
  case (2 h cs)
  then show ?case by (simp add: Ex_less_Suc2 All_less_Suc2)
next
  case (3 h ch' cs)
  then show ?case by (auto simp: Ex_less_Suc2 All_less_Suc2)
qed simp

lemma count_fold: "foldl (\<lambda>n c. if c \<noteq> None then n + 1 else n) k cs = k + length (filter (\<lambda>c. c \<noteq> None) cs)"
  by (induction cs arbitrary: k) auto

definition channel_set_ok :: "channel_set \<Rightarrow> bool" where
  "channel_set_ok cs \<longleftrightarrow> length cs = MAX_CHANNELS \<and> cs ! 0 \<noteq> None"

text \<open>A derivation as in \<^verbatim>\<open>crypto/hkdf.c\<close>.\<close>

definition sample_kdf :: mesh_kdf where
  "sample_kdf = \<lparr>mk_default_key = zeros 16, mk_derive_channel_key = meshtastic_derive_channel_key, mk_derive_nonce = meshtastic_derive_nonce\<rparr>"

section \<open>Properties\<close>

text \<open>What one end encrypts the other decrypts: two channels that carry the same key - whatever else differs, and also the
  key that stands for no encryption - agree for every packet identifier and sender. Up to 256 bytes are encrypted to the same
  number of bytes and decrypted to the original; longer packets are refused in both directions and leave the output as it was.\<close>

theorem channel_roundtrip:
  assumes "lvec_ok 256 out" "lvec_ok 256 out'" "ch_key ch' = ch_key ch"
  shows "(length xs \<le> 256 \<longrightarrow> (\<exists>c p. channel_encrypt kdf ch packet_id sender xs out = (True, c) \<and> length (lcontents c) = length xs
      \<and> channel_decrypt kdf ch' packet_id sender (lcontents c) out' = (True, p) \<and> lcontents p = xs))
    \<and> (256 < length xs \<longrightarrow> channel_encrypt kdf ch packet_id sender xs out = (False, out)
      \<and> channel_decrypt kdf ch' packet_id sender xs out' = (False, out'))"
proof (intro conjI impI)
  assume len: "length xs \<le> 256"
  from channel_encrypt_cases(1) [OF assms(1) len] obtain c where
    c: "channel_encrypt kdf ch packet_id sender xs out = (True, c)" "lcontents c = packet_stream kdf (ch_key ch) packet_id sender xs" by blast
  from channel_encrypt_cases(1) [OF assms(2), of "lcontents c" kdf ch' packet_id sender] obtain p where
    "channel_decrypt kdf ch' packet_id sender (lcontents c) out' = (True, p)" "lcontents p = xs"
    using c(2) len assms(3) by (auto simp: channel_decrypt_eq)
  with c show "\<exists>c p. channel_encrypt kdf ch packet_id sender xs out = (True, c) \<and> length (lcontents c) = length xs
      \<and> channel_decrypt kdf ch' packet_id sender (lcontents c) out' = (True, p) \<and> lcontents p = xs" by auto
qed (simp_all add: channel_encrypt_cases(2) [OF assms(1)] channel_encrypt_cases(2) [OF assms(2)] channel_decrypt_eq)

theorem channel_roundtrip_witness:
  "\<exists>c p. channel_encrypt sample_kdf (channel_primary sample_kdf (zeros 32) (zeros 12)) 7 9 [1, 2, 3] \<lparr>lv_data = zeros 256, lv_len = 0\<rparr> = (True, c)
     \<and> channel_decrypt sample_kdf (channel_primary sample_kdf (zeros 32) (zeros 12)) 7 9 (lcontents c) \<lparr>lv_data = zeros 256, lv_len = 0\<rparr> = (True, p)
     \<and> lcontents p = [1, 2, 3]"
proof -
  have ok: "lvec_ok 256 \<lparr>lv_data = zeros 256, lv_len = 0\<rparr>" by (simp add: lvec_ok_def)
  from channel_roundtrip [OF ok ok refl, of "[1, 2, 3]" sample_kdf "channel_primary sample_kdf (zeros 32) (zeros 12)" 7 9] show ?thesis by auto
qed



end
