(* ===== verification/Encryption.thy ===== *)
theory Encryption
  imports Channel Poly1305
begin

unbundle bit_operations_syntax

text \<open>
  Packet encryption of the Meshtastic stack (\<^verbatim>\<open>meshtastic/encryption.c\<close>): encryption contexts, integrity codes,
  encryption for a node with X25519, HKDF and ChaCha20-Poly1305, and the key store. The calls of the capitalised
  functions (\<^verbatim>\<open>Aes128_new\<close>, \<^verbatim>\<open>HmacSha256_mac\<close>, \<^verbatim>\<open>Hkdf_derive\<close>, \<^verbatim>\<open>ChaCha20Poly1305_seal\<close>, ...) are read as calls of the
  functions of the same name of the crypto directory, those of \<^verbatim>\<open>ChannelKey_...\<close> as those of \<^verbatim>\<open>channel.c\<close>. X25519 is a
  parameter.
\<close>

section \<open>Vectors\<close>

record pvec =
  pv_data :: bytes
  pv_len :: nat
  pv_capacity :: nat

definition MAX_PAYLOAD_SIZE :: nat where "MAX_PAYLOAD_SIZE = 237"

definition Vec_u8_237_init :: "pvec \<Rightarrow> pvec" where
  "Vec_u8_237_init v = v\<lparr>pv_len := 0, pv_capacity := MAX_PAYLOAD_SIZE, pv_data := zeros MAX_PAYLOAD_SIZE\<rparr>"

definition Vec_u8_237_from_slice :: "pvec \<Rightarrow> bytes \<Rightarrow> bool \<times> pvec" where
  "Vec_u8_237_from_slice v xs =
     (if length xs > MAX_PAYLOAD_SIZE then (False, v)
      else let v = Vec_u8_237_init v in (True, v\<lparr>pv_data := memcpy (pv_data v) 0 xs, pv_len := length xs\<rparr>))"

definition Vec_u8_237_extend_from_slice :: "pvec \<Rightarrow> bytes \<Rightarrow> bool \<times> pvec" where
  "Vec_u8_237_extend_from_slice v xs =
     (if pv_len v + length xs > pv_capacity v then (False, v)
      else (True, v\<lparr>pv_data := memcpy (pv_data v) (pv_len v) xs, pv_len := pv_len v + length xs\<rparr>))"

definition Vec_u8_256_init :: "pvec \<Rightarrow> pvec" where
  "Vec_u8_256_init v = v\<lparr>pv_len := 0, pv_capacity := 256, pv_data := zeros 256\<rparr>"

definition Vec_u8_256_extend_from_slice :: "pvec \<Rightarrow> bytes \<Rightarrow> bool \<times> pvec" where
  "Vec_u8_256_extend_from_slice v xs =
     (if pv_len v + length xs > pv_capacity v then (False, v)
      else (True, v\<lparr>pv_data := memcpy (pv_data v) (pv_len v) xs, pv_len := pv_len v + length xs\<rparr>))"

definition Vec_u8_240_init :: "pvec \<Rightarrow> pvec" where
  "Vec_u8_240_init v = v\<lparr>pv_len := 0, pv_capacity := 240, pv_data := zeros 240\<rparr>"

definition Vec_u8_240_extend_from_slice :: "pvec \<Rightarrow> bytes \<Rightarrow> bool \<times> pvec" where
  "Vec_u8_240_extend_from_slice v xs =
     (if pv_len v + length xs > pv_capacity v then (False, v)
      else (True, v\<lparr>pv_data := memcpy (pv_data v) (pv_len v) xs, pv_len := pv_len v + length xs\<rparr>))"

section \<open>Encryption contexts\<close>

record encryption_context =
  ec_key :: channel_key

definition EncryptionContext_new :: "channel_key \<Rightarrow> encryption_context" where
  "EncryptionContext_new key = \<lparr>ec_key = key\<rparr>"

definition EncryptionContext_with_default_key :: "mesh_kdf \<Rightarrow> bytes \<Rightarrow> encryption_context" where
  "EncryptionContext_with_default_key kdf junk = EncryptionContext_new (channel_key_default kdf junk)"

definition EncryptionContext_from_channel_name :: "mesh_kdf \<Rightarrow> bytes \<Rightarrow> bytes option \<Rightarrow> encryption_context" where
  "EncryptionContext_from_channel_name kdf junk name = EncryptionContext_new (channel_key_from_channel_name kdf junk name)"

definition EncryptionContext_from_key_bytes :: "bytes \<Rightarrow> bytes \<Rightarrow> encryption_context" where
  "EncryptionContext_from_key_bytes junk key = EncryptionContext_new (channel_key_from_bytes junk key)"

definition EncryptionContext_is_encrypted :: "encryption_context \<Rightarrow> bool" where
  "EncryptionContext_is_encrypted ctx \<longleftrightarrow> channel_key_is_encrypted (ec_key ctx)"

definition on_payload :: "(bytes \<Rightarrow> bytes) \<Rightarrow> pvec \<Rightarrow> pvec" where
  "on_payload f v = v\<lparr>pv_data := memcpy (pv_data v) 0 (f (slice (pv_data v) 0 (pv_len v)))\<rparr>"

definition EncryptionContext_encrypt :: "mesh_kdf \<Rightarrow> encryption_context \<Rightarrow> u32 \<Rightarrow> u32 \<Rightarrow> bytes \<Rightarrow> pvec \<Rightarrow> bool \<times> pvec" where
  "EncryptionContext_encrypt kdf ctx packet_id sender plaintext out =
     (if \<not> channel_key_is_encrypted (ec_key ctx) then Vec_u8_237_from_slice out plaintext
      else if length plaintext > MAX_PAYLOAD_SIZE then (False, out)
      else let nonce = mk_derive_nonce kdf packet_id sender;
               (ok, out) = Vec_u8_237_extend_from_slice (Vec_u8_237_init out) plaintext
      in if \<not> ok then (False, out)
         else (True,
           (case ck_type (ec_key ctx) of
              CHANNEL_KEY_AES128 \<Rightarrow> on_payload (aes128_encrypt_ctr (aes128_new (slice (ck_data (ec_key ctx)) 0 16)) nonce) out
            | CHANNEL_KEY_AES256 \<Rightarrow> on_payload (aes256_encrypt_ctr (aes256_new (slice (ck_data (ec_key ctx)) 0 32)) nonce) out
            | CHANNEL_KEY_NONE \<Rightarrow> out)))"

definition EncryptionContext_decrypt :: "mesh_kdf \<Rightarrow> encryption_context \<Rightarrow> u32 \<Rightarrow> u32 \<Rightarrow> bytes \<Rightarrow> pvec \<Rightarrow> bool \<times> pvec" where
  "EncryptionContext_decrypt kdf ctx packet_id sender ciphertext out =
     (if \<not> channel_key_is_encrypted (ec_key ctx) then Vec_u8_237_from_slice out ciphertext
      else if length ciphertext = 0 \<or> length ciphertext > MAX_PAYLOAD_SIZE then (False, out)
      else let nonce = mk_derive_nonce kdf packet_id sender;
               (ok, out) = Vec_u8_237_extend_from_slice (Vec_u8_237_init out) ciphertext
      in if \<not> ok then (False, out)
         else (True,
           (case ck_type (ec_key ctx) of
              CHANNEL_KEY_AES128 \<Rightarrow> on_payload (aes128_decrypt_ctr (aes128_new (slice (ck_data (ec_key ctx)) 0 16)) nonce) out
            | CHANNEL_KEY_AES256 \<Rightarrow> on_payload (aes256_decrypt_ctr (aes256_new (slice (ck_data (ec_key ctx)) 0 32)) nonce) out
            | CHANNEL_KEY_NONE \<Rightarrow> out)))"

definition EncryptionContext_key_hash :: "encryption_context \<Rightarrow> byte" where
  "EncryptionContext_key_hash ctx =
     (let key_bytes = channel_key_as_bytes (ec_key ctx)
      in if length key_bytes = 0 then 0 else foldl (\<lambda>h b. h XOR b) 0 key_bytes)"

definition EncryptionContext_default :: "mesh_kdf \<Rightarrow> bytes \<Rightarrow> encryption_context" where
  "EncryptionContext_default kdf junk = EncryptionContext_with_default_key kdf junk"

section \<open>Integrity codes\<close>

definition MIC_SIZE :: nat where "MIC_SIZE = 4"

definition MIC_SIZE_ENHANCED :: nat where "MIC_SIZE_ENHANCED = 8"

definition packet_mic :: "bytes \<Rightarrow> bytes" where
  "packet_mic d = slice (sha256_hash d) 0 MIC_SIZE"

definition packet_ct_eq :: "bytes \<Rightarrow> bytes \<Rightarrow> nat \<Rightarrow> bool" where
  "packet_ct_eq a b len \<longleftrightarrow> foldl (\<lambda>r i. r OR (a ! i XOR b ! i)) 0 [0..<len] = 0"

definition verify_mic :: "bytes \<Rightarrow> bytes \<Rightarrow> bool" where
  "verify_mic d expected = (if length expected \<noteq> MIC_SIZE then False else packet_ct_eq (packet_mic d) expected MIC_SIZE)"

definition compute_mic_enhanced :: "bytes \<Rightarrow> bytes \<Rightarrow> bytes" where
  "compute_mic_enhanced key d =
     (let hmac_key = (if length key \<ge> 32 then memcpy (zeros 32) 0 (slice key 0 32) else memcpy (zeros 32) 0 key)
      in slice (hmac_sha256_mac hmac_key d) 0 MIC_SIZE_ENHANCED)"

definition verify_mic_enhanced :: "bytes \<Rightarrow> bytes \<Rightarrow> bytes \<Rightarrow> bool" where
  "verify_mic_enhanced key d expected =
     (if length expected \<noteq> MIC_SIZE_ENHANCED then False else packet_ct_eq (compute_mic_enhanced key d) expected MIC_SIZE_ENHANCED)"

datatype mic_mode = MIC_MODE_STANDARD | MIC_MODE_ENHANCED

definition MicMode_default :: mic_mode where
  "MicMode_default = MIC_MODE_STANDARD"

section \<open>Encryption for a node\<close>

record node_dh =
  nd_base :: "bytes \<Rightarrow> bytes"
  nd_mult :: "bytes \<Rightarrow> bytes \<Rightarrow> bytes"

definition PKI_OVERHEAD :: nat where "PKI_OVERHEAD = 32 + 16"

text \<open>A derivation of 32 bytes. The arguments of \<^verbatim>\<open>Hkdf_derive\<close> are those of \<^verbatim>\<open>hkdf_derive\<close> in their order.\<close>

definition derive32 :: "bytes \<Rightarrow> bytes \<Rightarrow> bytes \<Rightarrow> bytes" where
  "derive32 salt ikm info = (case hkdf_derive salt ikm info (zeros 32) of Some k \<Rightarrow> k | None \<Rightarrow> [])"

text \<open>\<open>junk\<close> is the uninitialised key-stream array of the cipher, \<open>cbuf\<close> and \<open>pbuf\<close> are the uninitialised local buffers.\<close>

definition pki_encrypt :: "node_dh \<Rightarrow> bytes \<Rightarrow> bytes \<Rightarrow> bytes \<Rightarrow> bytes \<Rightarrow> bytes \<Rightarrow> bytes \<Rightarrow> pvec \<Rightarrow> bool \<times> pvec" where
  "pki_encrypt dh junk cbuf recipient_pubkey sender_privkey plaintext nonce out =
     (if length plaintext + PKI_OVERHEAD > 256 then (False, out)
      else let ephemeral_seed = derive32 (ascii ''ephemeral'') nonce sender_privkey;
               ephemeral_pubkey = nd_base dh ephemeral_seed;
               shared_secret = nd_mult dh ephemeral_seed recipient_pubkey;
               key = derive32 (ascii ''meshtastic-pki'') shared_secret ephemeral_pubkey
      in if length plaintext > 240 then (False, out)
         else case chacha20poly1305_seal junk key nonce [] plaintext cbuf of
                None \<Rightarrow> (False, out)
              | Some (ciphertext, tag) \<Rightarrow>
                  (let (ok, out) = Vec_u8_256_extend_from_slice (Vec_u8_256_init out) ephemeral_pubkey
                   in if \<not> ok then (False, out)
                      else let (ok, out) = Vec_u8_256_extend_from_slice out (slice ciphertext 0 (length plaintext))
                   in if \<not> ok then (False, out)
                      else let (ok, out) = Vec_u8_256_extend_from_slice out tag
                   in if \<not> ok then (False, out) else (True, out)))"

definition pki_decrypt :: "node_dh \<Rightarrow> bytes \<Rightarrow> bytes \<Rightarrow> bytes \<Rightarrow> bytes \<Rightarrow> bytes \<Rightarrow> pvec \<Rightarrow> bool \<times> pvec" where
  "pki_decrypt dh junk pbuf recipient_privkey encrypted nonce out =
     (if length encrypted < PKI_OVERHEAD then (False, out)
      else let ephemeral_pubkey = slice encrypted 0 32;
               ciphertext_len = length encrypted - 32 - 16;
               ciphertext = slice encrypted 32 ciphertext_len;
               tag = slice encrypted (length encrypted - 16) 16;
               shared_secret = nd_mult dh recipient_privkey ephemeral_pubkey;
               key = derive32 (ascii ''meshtastic-pki'') shared_secret ephemeral_pubkey
      in if ciphertext_len > 240 then (False, out)
         else case chacha20poly1305_open junk key nonce [] ciphertext tag pbuf of
                None \<Rightarrow> (False, out)
              | Some (success, plaintext) \<Rightarrow>
                  (if \<not> success then (False, out)
                   else let (ok, out) = Vec_u8_240_extend_from_slice (Vec_u8_240_init out) (slice plaintext 0 ciphertext_len)
                        in if \<not> ok then (False, out) else (True, out)))"

section \<open>The key store\<close>

definition MAX_CHANNEL_KEYS :: nat where "MAX_CHANNEL_KEYS = 8"

record key_store =
  ks_channel_keys_data :: "encryption_context list"
  ks_channel_keys_present :: "bool list"
  ks_node_privkey :: bytes
  ks_node_privkey_present :: bool
  ks_node_pubkey :: bytes
  ks_node_pubkey_present :: bool

definition KeyStore_new :: key_store where
  "KeyStore_new = \<lparr>ks_channel_keys_data = replicate MAX_CHANNEL_KEYS \<lparr>ec_key = \<lparr>ck_type = CHANNEL_KEY_NONE, ck_data = zeros 32\<rparr>\<rparr>,
     ks_channel_keys_present = replicate MAX_CHANNEL_KEYS False, ks_node_privkey = zeros 32, ks_node_privkey_present = False,
     ks_node_pubkey = zeros 32, ks_node_pubkey_present = False\<rparr>"

definition KeyStore_drop :: "key_store \<Rightarrow> key_store" where
  "KeyStore_drop s = (if ks_node_privkey_present s then s\<lparr>ks_node_privkey := zeros 32\<rparr> else s)"

definition put_context :: "key_store \<Rightarrow> byte \<Rightarrow> encryption_context \<Rightarrow> key_store" where
  "put_context s index ctx =
     (if unat index < MAX_CHANNEL_KEYS
      then s\<lparr>ks_channel_keys_data := (ks_channel_keys_data s)[unat index := ctx],
             ks_channel_keys_present := (ks_channel_keys_present s)[unat index := True]\<rparr>
      else s)"

definition KeyStore_set_channel_key :: "bytes \<Rightarrow> key_store \<Rightarrow> byte \<Rightarrow> bytes \<Rightarrow> key_store" where
  "KeyStore_set_channel_key junk s index key = put_context s index (EncryptionContext_from_key_bytes junk key)"

definition KeyStore_set_channel_name :: "mesh_kdf \<Rightarrow> bytes \<Rightarrow> key_store \<Rightarrow> byte \<Rightarrow> bytes option \<Rightarrow> key_store" where
  "KeyStore_set_channel_name kdf junk s index name = put_context s index (EncryptionContext_from_channel_name kdf junk name)"

definition KeyStore_get_channel :: "key_store \<Rightarrow> byte \<Rightarrow> encryption_context option" where
  "KeyStore_get_channel s index =
     (if unat index \<ge> MAX_CHANNEL_KEYS then None
      else if \<not> ks_channel_keys_present s ! unat index then None
      else Some (ks_channel_keys_data s ! unat index))"

definition KeyStore_set_node_keypair :: "node_dh \<Rightarrow> key_store \<Rightarrow> bytes \<Rightarrow> key_store" where
  "KeyStore_set_node_keypair dh s privkey =
     s\<lparr>ks_node_privkey := memcpy (ks_node_privkey s) 0 privkey, ks_node_privkey_present := True,
       ks_node_pubkey := nd_base dh privkey, ks_node_pubkey_present := True\<rparr>"

definition KeyStore_generate_node_keypair :: "node_dh \<Rightarrow> key_store \<Rightarrow> bytes \<Rightarrow> key_store" where
  "KeyStore_generate_node_keypair dh s entropy =
     (let privkey = derive32 (ascii ''node-key'') (ascii ''meshtastic'') entropy in KeyStore_set_node_keypair dh s privkey)"

definition KeyStore_node_pubkey :: "key_store \<Rightarrow> bytes option" where
  "KeyStore_node_pubkey s = (if \<not> ks_node_pubkey_present s then None else Some (ks_node_pubkey s))"

definition KeyStore_encrypt_for_node :: "node_dh \<Rightarrow> bytes \<Rightarrow> bytes \<Rightarrow> key_store \<Rightarrow> bytes \<Rightarrow> bytes \<Rightarrow> bytes \<Rightarrow> pvec \<Rightarrow> bool \<times> pvec" where
  "KeyStore_encrypt_for_node dh junk cbuf s recipient_pubkey plaintext nonce out =
     (if \<not> ks_node_privkey_present s then (False, out)
      else pki_encrypt dh junk cbuf recipient_pubkey (ks_node_privkey s) plaintext nonce out)"

definition KeyStore_decrypt_from_node :: "node_dh \<Rightarrow> bytes \<Rightarrow> bytes \<Rightarrow> key_store \<Rightarrow> bytes \<Rightarrow> bytes \<Rightarrow> pvec \<Rightarrow> bool \<times> pvec" where
  "KeyStore_decrypt_from_node dh junk pbuf s encrypted nonce out =
     (if \<not> ks_node_privkey_present s then (False, out)
      else pki_decrypt dh junk pbuf (ks_node_privkey s) encrypted nonce out)"

definition KeyStore_default :: key_store where
  "KeyStore_default = KeyStore_new"

section \<open>Contents of vectors\<close>

definition pcontents :: "pvec \<Rightarrow> bytes" where
  "pcontents v = slice (pv_data v) 0 (pv_len v)"

definition pvec_ok :: "nat \<Rightarrow> pvec \<Rightarrow> bool" where
  "pvec_ok n v \<longleftrightarrow> pv_capacity v = n \<and> length (pv_data v) = n \<and> pv_len v \<le> n"

text \<open>The three vector types differ in their size only.\<close>

definition pextend :: "pvec \<Rightarrow> bytes \<Rightarrow> bool \<times> pvec" where
  "pextend v xs =
     (if pv_len v + length xs > pv_capacity v then (False, v)
      else (True, v\<lparr>pv_data := memcpy (pv_data v) (pv_len v) xs, pv_len := pv_len v + length xs\<rparr>))"

lemma extend_eq: "Vec_u8_237_extend_from_slice = pextend" "Vec_u8_256_extend_from_slice = pextend" "Vec_u8_240_extend_from_slice = pextend"
  by (simp_all add: fun_eq_iff pextend_def Vec_u8_237_extend_from_slice_def Vec_u8_256_extend_from_slice_def Vec_u8_240_extend_from_slice_def)

lemma init_pvec [simp]:
  "pvec_ok 237 (Vec_u8_237_init v)" "pcontents (Vec_u8_237_init v) = []"
  "pvec_ok 256 (Vec_u8_256_init v)" "pcontents (Vec_u8_256_init v) = []"
  "pvec_ok 240 (Vec_u8_240_init v)" "pcontents (Vec_u8_240_init v) = []"
  by (simp_all add: pvec_ok_def pcontents_def Vec_u8_237_init_def Vec_u8_256_init_def Vec_u8_240_init_def MAX_PAYLOAD_SIZE_def)

lemma length_pcontents: "pvec_ok n v \<Longrightarrow> length (pcontents v) = pv_len v"
  by (simp add: pvec_ok_def pcontents_def)

lemma pextend_ok:
  assumes "pvec_ok n v" "length (pcontents v) + length xs \<le> n"
  obtains w where "pextend v xs = (True, w)" "pvec_ok n w" "pcontents w = pcontents v @ xs"
proof (rule that)
  have l: "pv_len v + length xs \<le> n" using assms length_pcontents [OF assms(1)] by simp
  show "pextend v xs = (True, v\<lparr>pv_data := memcpy (pv_data v) (pv_len v) xs, pv_len := pv_len v + length xs\<rparr>)"
    using assms(1) l by (simp add: pextend_def pvec_ok_def)
  show "pvec_ok n (v\<lparr>pv_data := memcpy (pv_data v) (pv_len v) xs, pv_len := pv_len v + length xs\<rparr>)"
    "pcontents (v\<lparr>pv_data := memcpy (pv_data v) (pv_len v) xs, pv_len := pv_len v + length xs\<rparr>) = pcontents v @ xs"
    using assms(1) l by (simp_all add: pvec_ok_def pcontents_def slice_0_take)
qed

lemma on_payload_ok:
  assumes "pvec_ok n v" "\<And>d. length (f d) = length d"
  shows "pcontents (on_payload f v) = f (pcontents v)" "pvec_ok n (on_payload f v)"
  using assms by (simp_all add: pvec_ok_def pcontents_def on_payload_def memcpy_def slice_def)

section \<open>Contexts\<close>

definition nonces_ok :: "mesh_kdf \<Rightarrow> bool" where
  "nonces_ok kdf \<longleftrightarrow> (\<forall>p s. length (mk_derive_nonce kdf p s) = 16)"

lemma context_encrypt_cases:
  assumes "nonces_ok kdf"
  shows "length xs \<le> 237 \<Longrightarrow> \<exists>v. EncryptionContext_encrypt kdf ctx p s xs out = (True, v) \<and> pcontents v = packet_stream kdf (ec_key ctx) p s xs"
    "length xs > 237 \<Longrightarrow> EncryptionContext_encrypt kdf ctx p s xs out = (False, out)"
proof -
  have n: "slice (mk_derive_nonce kdf p s) 0 16 = mk_derive_nonce kdf p s" using assms by (simp add: nonces_ok_def)
  have l: "length (aes128_encrypt_ctr c n d) = length d" "length (aes256_encrypt_ctr c' n d) = length d" for c c' n d
    by (simp_all add: aes128_encrypt_ctr_def aes256_encrypt_ctr_def)
  assume len: "length xs \<le> 237"
  then obtain v where v: "pextend (Vec_u8_237_init out) xs = (True, v)" "pvec_ok 237 v" "pcontents v = xs"
    using pextend_ok [of 237 "Vec_u8_237_init out" xs] by auto
  have f: "Vec_u8_237_from_slice out xs = (True, v)"
    using v(1) len by (auto simp: Vec_u8_237_from_slice_def pextend_def Vec_u8_237_init_def MAX_PAYLOAD_SIZE_def)
  show "\<exists>v. EncryptionContext_encrypt kdf ctx p s xs out = (True, v) \<and> pcontents v = packet_stream kdf (ec_key ctx) p s xs"
    using v f len on_payload_ok(1) [OF v(2)] l
    by (cases "ck_type (ec_key ctx)")
      (auto simp: EncryptionContext_encrypt_def channel_key_is_encrypted_def packet_stream_def extend_eq MAX_PAYLOAD_SIZE_def n)
next
  assume "length xs > 237"
  then show "EncryptionContext_encrypt kdf ctx p s xs out = (False, out)"
    by (simp add: EncryptionContext_encrypt_def Vec_u8_237_from_slice_def MAX_PAYLOAD_SIZE_def)
qed

lemma context_decrypt_eq:
  "xs \<noteq> [] \<or> \<not> channel_key_is_encrypted (ec_key ctx) \<Longrightarrow> EncryptionContext_decrypt kdf ctx p s xs out = EncryptionContext_encrypt kdf ctx p s xs out"
  unfolding EncryptionContext_decrypt_def EncryptionContext_encrypt_def decrypt_ctr_eq by auto

section \<open>Nodes\<close>

lemma length_derive32 [simp]: "length (derive32 a b c) = 32"
  by (simp add: derive32_def hkdf_derive_spec)

text \<open>The one-time key pair of an encryption, and the key both sides derive from it.\<close>

definition ephemeral :: "bytes \<Rightarrow> bytes \<Rightarrow> bytes" where
  "ephemeral privkey nonce = derive32 (ascii ''ephemeral'') nonce privkey"

definition pki_key :: "bytes \<Rightarrow> bytes \<Rightarrow> bytes" where
  "pki_key secret public = derive32 (ascii ''meshtastic-pki'') secret public"

lemma pki_encrypt_result:
  assumes "length (nd_base dh (ephemeral priv nonce)) = 32" "length xs \<le> 208"
    and "key = pki_key (nd_mult dh (ephemeral priv nonce) pub) (nd_base dh (ephemeral priv nonce))"
    and "chacha20poly1305_seal junk key nonce [] xs cbuf = Some (ct @ drop (length xs) cbuf, tag)" "length ct = length xs" "length tag = 16"
  obtains v where "pki_encrypt dh junk cbuf pub priv xs nonce out = (True, v)" "pcontents v = nd_base dh (ephemeral priv nonce) @ ct @ tag"
proof -
  let ?e = "nd_base dh (ephemeral priv nonce)"
  obtain v1 where v1: "pextend (Vec_u8_256_init out) ?e = (True, v1)" "pvec_ok 256 v1" "pcontents v1 = ?e"
    using pextend_ok [of 256 "Vec_u8_256_init out" ?e] assms(1) by auto
  obtain v2 where v2: "pextend v1 ct = (True, v2)" "pvec_ok 256 v2" "pcontents v2 = ?e @ ct"
    using pextend_ok [OF v1(2), of ct] v1(3) assms(1,2,5) by auto
  obtain v3 where v3: "pextend v2 tag = (True, v3)" "pcontents v3 = ?e @ ct @ tag"
    using pextend_ok [OF v2(2), of tag] v2(3) assms(1,2,5,6) by auto
  have "pki_encrypt dh junk cbuf pub priv xs nonce out = (True, v3)"
    using v1(1) v2(1) v3(1) assms(2,4,5)
    by (simp add: pki_encrypt_def PKI_OVERHEAD_def Let_def ephemeral_def [symmetric] pki_key_def [symmetric] assms(3) [symmetric] extend_eq slice_0_take)
  with v3(2) show ?thesis using that by blast
qed

lemma pki_decrypt_result:
  assumes "length eph = 32" "length ct \<le> 240" "length tag = 16" "length pbuf = 240"
    and "key = pki_key (nd_mult dh priv eph) eph"
  shows "chacha20poly1305_open junk key nonce [] ct tag pbuf = Some (True, xs @ drop (length ct) pbuf) \<Longrightarrow> length xs = length ct \<Longrightarrow>
      \<exists>v. pki_decrypt dh junk pbuf priv (eph @ ct @ tag) nonce out = (True, v) \<and> pcontents v = xs"
    "chacha20poly1305_open junk key nonce [] ct tag pbuf = Some (False, pbuf) \<Longrightarrow> pki_decrypt dh junk pbuf priv (eph @ ct @ tag) nonce out = (False, out)"
proof -
  have parts: "slice (eph @ ct @ tag) 0 32 = eph" "slice (eph @ ct @ tag) 32 (length ct) = ct" "slice (eph @ ct @ tag) (32 + length ct) 16 = tag"
    using assms(1,3) by (simp_all add: slice_def)
  have unfolded: "pki_decrypt dh junk pbuf priv (eph @ ct @ tag) nonce out =
     (case chacha20poly1305_open junk key nonce [] ct tag pbuf of None \<Rightarrow> (False, out)
      | Some (success, plaintext) \<Rightarrow> (if \<not> success then (False, out)
          else let (ok, out) = pextend (Vec_u8_240_init out) (slice plaintext 0 (length ct)) in if \<not> ok then (False, out) else (True, out)))"
  proof -
    have n: "length (eph @ ct @ tag) - 32 - 16 = length ct" "length (eph @ ct @ tag) - 16 = 32 + length ct"
      "(length (eph @ ct @ tag) < 32 + 16) = False" "(length ct > 240) = False" using assms(1-3) by simp_all
    show ?thesis
      unfolding pki_decrypt_def Let_def PKI_OVERHEAD_def extend_eq n parts pki_key_def [symmetric] assms(5) [symmetric] if_False ..
  qed
  show "\<exists>v. pki_decrypt dh junk pbuf priv (eph @ ct @ tag) nonce out = (True, v) \<and> pcontents v = xs"
    if o: "chacha20poly1305_open junk key nonce [] ct tag pbuf = Some (True, xs @ drop (length ct) pbuf)" "length xs = length ct"
  proof -
    obtain v where "pextend (Vec_u8_240_init out) xs = (True, v)" "pcontents v = xs"
      using pextend_ok [of 240 "Vec_u8_240_init out" xs] o(2) assms(2) by auto
    with o show ?thesis unfolding unfolded by (simp add: slice_0_take)
  qed
  show "pki_decrypt dh junk pbuf priv (eph @ ct @ tag) nonce out = (False, out)"
    if "chacha20poly1305_open junk key nonce [] ct tag pbuf = Some (False, pbuf)"
    unfolding unfolded that by simp
qed

lemma sample_nonces: "nonces_ok sample_kdf"
  by (simp add: nonces_ok_def sample_kdf_def meshtastic_derive_nonce_def)

text \<open>The key pair of a node.\<close>

definition node_store :: "node_dh \<Rightarrow> key_store \<Rightarrow> bytes \<Rightarrow> bool" where
  "node_store dh s priv \<longleftrightarrow> ks_node_privkey_present s \<and> ks_node_privkey s = priv \<and> KeyStore_node_pubkey s = Some (nd_base dh priv)"

lemma set_node_keypair:
  "length (ks_node_privkey s) = 32 \<Longrightarrow> length priv = 32 \<Longrightarrow> node_store dh (KeyStore_set_node_keypair dh s priv) priv"
  by (simp add: node_store_def KeyStore_set_node_keypair_def KeyStore_node_pubkey_def memcpy_def)

text \<open>
  What the stores of two nodes do with each other's packets, for any key agreement whose one-time public key has its 32 bytes: the
  receiver accepts exactly the tag under the key that it derives itself.
\<close>

lemma node_encryption:
  assumes "node_store dh a priv" "ks_node_privkey_present b" "ks_node_privkey b = priv'" "length xs \<le> 208"
    and "length junk = 1024" "length junk' = 1024" "length cbuf = 240" "length pbuf = 240"
    and "e = nd_base dh (ephemeral priv nonce)" "length e = 32"
    and "key = pki_key (nd_mult dh (ephemeral priv nonce) pub) e" "key' = pki_key (nd_mult dh priv' e) e"
    and "ct = chacha20_encrypt (chacha20_new_with_counter key nonce 1) xs" "tag = aead_tag (poly_key junk key nonce) [] ct"
  shows "\<exists>v. KeyStore_encrypt_for_node dh junk cbuf a pub xs nonce out = (True, v) \<and> pcontents v = e @ ct @ tag"
    "length ct = length xs" "length tag = 16"
    "length tag' = 16 \<Longrightarrow> tag' = aead_tag (poly_key junk' key' nonce) [] ct \<Longrightarrow>
      \<exists>w. KeyStore_decrypt_from_node dh junk' pbuf b (e @ ct @ tag') nonce out' = (True, w)
        \<and> pcontents w = chacha20_decrypt (chacha20_new_with_counter key' nonce 1) ct"
    "length tag' = 16 \<Longrightarrow> tag' \<noteq> aead_tag (poly_key junk' key' nonce) [] ct \<Longrightarrow>
      KeyStore_decrypt_from_node dh junk' pbuf b (e @ ct @ tag') nonce out' = (False, out')"
proof -
  have k: "length (poly_key junk key nonce) = 32" by (simp add: poly_key_eq assms(5))
  show lt: "length tag = 16" using aead_tag_cases [OF k, of "[]" ct] by (auto simp: assms(14) poly1305_spec_def poly1305_skewed_def)
  have fits: "length xs \<le> length cbuf" using assms(4,7) by simp
  note seal = seal_result(1) [OF fits assms(13), of junk "[]", folded assms(14)] seal_result(2) [OF fits assms(13)]
  show "length ct = length xs" by (rule seal(2))
  obtain v where "pki_encrypt dh junk cbuf pub priv xs nonce out = (True, v)" "pcontents v = e @ ct @ tag"
    using pki_encrypt_result [OF _ assms(4) assms(11) [unfolded assms(9)] seal(1,2) lt] assms(9,10) by metis
  then show "\<exists>v. KeyStore_encrypt_for_node dh junk cbuf a pub xs nonce out = (True, v) \<and> pcontents v = e @ ct @ tag"
    using assms(1) by (simp add: KeyStore_encrypt_for_node_def node_store_def)
  have dec: "KeyStore_decrypt_from_node dh junk' pbuf b = pki_decrypt dh junk' pbuf priv'"
    using assms(2,3) by (simp add: fun_eq_iff KeyStore_decrypt_from_node_def)
  have ct: "length ct \<le> 240" "length ct \<le> length pbuf" using seal(2) assms(4,8) by simp_all
  assume t: "length tag' = 16"
  note opened = open_result [OF ct(2) t, of junk' key' nonce "[]"]
  show "KeyStore_decrypt_from_node dh junk' pbuf b (e @ ct @ tag') nonce out' = (False, out')" if "tag' \<noteq> aead_tag (poly_key junk' key' nonce) [] ct"
    using pki_decrypt_result(2) [OF assms(10) ct(1) t assms(8,12)] opened that by (simp add: dec)
  show "\<exists>w. KeyStore_decrypt_from_node dh junk' pbuf b (e @ ct @ tag') nonce out' = (True, w)
      \<and> pcontents w = chacha20_decrypt (chacha20_new_with_counter key' nonce 1) ct" if "tag' = aead_tag (poly_key junk' key' nonce) [] ct"
    unfolding dec using opened that
    by (intro pki_decrypt_result(1) [OF assms(10) ct(1) t assms(8,12)]) (simp_all add: chacha20_decrypt_def apply_keystream_spec)
qed

section \<open>Properties\<close>

text \<open>A packet under an encryption context, for nonces of 16 bytes: up to 237 bytes are encrypted to the bytes that a
  channel with the same key puts on the air, and a context with that key decrypts them to the original - unless the packet is
  empty and the key is a real one: encryption then succeeds with no bytes and decryption refuses them. Packets of more than
  237 bytes are refused in both directions.\<close>

theorem context_roundtrip:
  assumes "nonces_ok kdf" "lvec_ok 256 buf" "ec_key ctx' = ec_key ctx" "ch_key ch = ec_key ctx"
  shows "(length xs \<le> 237 \<longrightarrow> (\<exists>c w. EncryptionContext_encrypt kdf ctx p s xs out = (True, c)
        \<and> channel_encrypt kdf ch p s xs buf = (True, w) \<and> pcontents c = lcontents w
        \<and> (if xs = [] \<and> EncryptionContext_is_encrypted ctx then EncryptionContext_decrypt kdf ctx' p s (pcontents c) out' = (False, out')
           else \<exists>d. EncryptionContext_decrypt kdf ctx' p s (pcontents c) out' = (True, d) \<and> pcontents d = xs)))
    \<and> (237 < length xs \<longrightarrow> EncryptionContext_encrypt kdf ctx p s xs out = (False, out)
        \<and> EncryptionContext_decrypt kdf ctx' p s xs out' = (False, out'))"
proof (intro conjI impI)
  assume len: "length xs \<le> 237"
  let ?x = "packet_stream kdf (ec_key ctx) p s xs"
  from context_encrypt_cases(1) [OF assms(1) len] obtain c where c: "EncryptionContext_encrypt kdf ctx p s xs out = (True, c)" "pcontents c = ?x" by blast
  from channel_encrypt_cases(1) [OF assms(2), of xs kdf ch p s] len assms(4) obtain w where
    w: "channel_encrypt kdf ch p s xs buf = (True, w)" "lcontents w = ?x" by auto
  from context_encrypt_cases(1) [OF assms(1), of ?x ctx' p s out'] len assms(3) obtain d where
    d: "EncryptionContext_encrypt kdf ctx' p s ?x out' = (True, d)" "pcontents d = xs" by auto
  have ne: "?x \<noteq> [] \<longleftrightarrow> xs \<noteq> []" by (metis length_0_conv packet_stream_involution(2))
  have "if xs = [] \<and> EncryptionContext_is_encrypted ctx then EncryptionContext_decrypt kdf ctx' p s (pcontents c) out' = (False, out')
        else \<exists>d. EncryptionContext_decrypt kdf ctx' p s (pcontents c) out' = (True, d) \<and> pcontents d = xs"
  proof (cases "xs = [] \<and> EncryptionContext_is_encrypted ctx")
    case True
    with ne c(2) assms(3) show ?thesis by (auto simp: EncryptionContext_decrypt_def EncryptionContext_is_encrypted_def)
  next
    case False
    with ne c(2) d assms(3) context_decrypt_eq [of ?x ctx' kdf p s out'] show ?thesis by (auto simp: EncryptionContext_is_encrypted_def)
  qed
  with c w show "\<exists>c w. EncryptionContext_encrypt kdf ctx p s xs out = (True, c) \<and> channel_encrypt kdf ch p s xs buf = (True, w) \<and> pcontents c = lcontents w
     \<and> (if xs = [] \<and> EncryptionContext_is_encrypted ctx then EncryptionContext_decrypt kdf ctx' p s (pcontents c) out' = (False, out')
        else \<exists>d. EncryptionContext_decrypt kdf ctx' p s (pcontents c) out' = (True, d) \<and> pcontents d = xs)" by auto
next
  assume len: "237 < length xs"
  then have "xs \<noteq> []" by auto
  with len show "EncryptionContext_encrypt kdf ctx p s xs out = (False, out)" "EncryptionContext_decrypt kdf ctx' p s xs out' = (False, out')"
    by (simp_all add: context_encrypt_cases(2) [OF assms(1)] context_decrypt_eq)
qed

theorem context_roundtrip_witness:
  "\<exists>c d. EncryptionContext_encrypt sample_kdf (EncryptionContext_from_key_bytes (zeros 32) [1, 2, 3]) 7 9 [4, 5] \<lparr>pv_data = [], pv_len = 0, pv_capacity = 0\<rparr> = (True, c)
     \<and> EncryptionContext_decrypt sample_kdf (EncryptionContext_from_key_bytes (zeros 32) [1, 2, 3]) 7 9 (pcontents c) \<lparr>pv_data = [], pv_len = 0, pv_capacity = 0\<rparr> = (True, d)
     \<and> pcontents d = [4, 5]"
proof -
  have ok: "lvec_ok 256 \<lparr>lv_data = zeros 256, lv_len = 0\<rparr>" by (simp add: lvec_ok_def)
  let ?c = "EncryptionContext_from_key_bytes (zeros 32) [1, 2, 3]"
  from context_roundtrip [OF sample_nonces ok refl, of "(channel_primary sample_kdf (zeros 32) (zeros 12))\<lparr>ch_key := ec_key ?c\<rparr>" ?c "[4, 5]" 7 9
      "\<lparr>pv_data = [], pv_len = 0, pv_capacity = 0\<rparr>" "\<lparr>pv_data = [], pv_len = 0, pv_capacity = 0\<rparr>"]
  show ?thesis by auto
qed

end
