(* ===== verification/Rng.thy ===== *)
theory Rng
  imports Lunar_Prelude
begin

unbundle bit_operations_syntax

text \<open>
  The random numbers of the board (\<^verbatim>\<open>rng.c\<close>): the health monitor over the samples of the hardware register, the mixing of samples
  and timer values, and the filling of buffers. The values the two registers show at each read are the arguments \<open>hw\<close> and \<open>timer\<close>,
  functions of the number of earlier reads; operations run one at a time.
\<close>

section \<open>State\<close>

definition MAX_REPETITION_COUNT :: u32 where "MAX_REPETITION_COUNT = 8"

definition APT_WINDOW_SIZE :: u32 where "APT_WINDOW_SIZE = 512"

definition MIN_SAMPLES_FOR_HEALTH :: u32 where "MIN_SAMPLES_FOR_HEALTH = 64"

definition MIN_ENTROPY_SCALED :: u32 where "MIN_ENTROPY_SCALED = 24"

record rng =
  rn_healthy :: bool
  rn_sample_count :: u32
  rn_repetition_count :: u32
  rn_last_value :: u32
  rn_failure_count :: u32
  rn_bit_counts :: "u32 list"
  rn_initialized :: bool
  rn_warning_count :: u32
  rn_reads :: nat
  rn_timer_reads :: nat

record registers =
  rg_data :: "nat \<Rightarrow> u32"
  rg_time :: "nat \<Rightarrow> u32"

definition rng_start :: rng where
  "rng_start = \<lparr>rn_healthy = False, rn_sample_count = 0, rn_repetition_count = 0, rn_last_value = 0, rn_failure_count = 0,
     rn_bit_counts = replicate 32 0, rn_initialized = False, rn_warning_count = 0, rn_reads = 0, rn_timer_reads = 0\<rparr>"

section \<open>Health\<close>

definition log_rng_warning :: "rng \<Rightarrow> rng" where
  "log_rng_warning r = r\<lparr>rn_warning_count := rn_warning_count r + 1\<rparr>"

definition warning_count :: "rng \<Rightarrow> u32" where
  "warning_count r = rn_warning_count r"

definition hw_rng_raw :: "registers \<Rightarrow> rng \<Rightarrow> u32 \<times> rng" where
  "hw_rng_raw hw r = (rg_data hw (rn_reads r), r\<lparr>rn_reads := rn_reads r + 1\<rparr>)"

definition bit_entropy :: "u32 \<Rightarrow> u32 \<Rightarrow> u32" where
  "bit_entropy samples ones =
     (let expected = samples div 2;
          diff = (if ones > expected then ones - expected else expected - ones)
      in if diff \<ge> expected then 0
         else let max_val = (if expected > 0 then expected else 1); ratio = (8 * diff) div max_val
              in if 8 > ratio then 8 - ratio else 0)"

definition estimate_entropy :: "rng \<Rightarrow> u32" where
  "estimate_entropy r =
     (let samples = rn_sample_count r
      in if samples < MIN_SAMPLES_FOR_HEALTH then 0
         else foldl (\<lambda>total i. total + bit_entropy samples (rn_bit_counts r ! i)) 0 [0..<32] div 32)"

definition reassess_health :: "rng \<Rightarrow> rng" where
  "reassess_health r =
     (let failures = rn_failure_count r; entropy = estimate_entropy r;
          r = (if failures = 0 \<and> entropy \<ge> MIN_ENTROPY_SCALED then r\<lparr>rn_healthy := True\<rparr>
               else if entropy < MIN_ENTROPY_SCALED then log_rng_warning (r\<lparr>rn_healthy := False\<rparr>)
               else r);
          r = (if failures > 0 then r\<lparr>rn_failure_count := failures - 1\<rparr> else r)
      in if rn_sample_count r mod (APT_WINDOW_SIZE * 4) = 0 then r\<lparr>rn_bit_counts := map (\<lambda>i. 0) [0..<32]\<rparr> else r)"

definition update_health_state :: "rng \<Rightarrow> u32 \<Rightarrow> rng" where
  "update_health_state r v =
     (let count = rn_sample_count r; r = r\<lparr>rn_sample_count := count + 1\<rparr>;
          last' = rn_last_value r; r = r\<lparr>rn_last_value := v\<rparr>;
          r = (if v = last'
               then let rep = rn_repetition_count r + 1; r = r\<lparr>rn_repetition_count := rep\<rparr>
                    in if rep \<ge> MAX_REPETITION_COUNT
                       then log_rng_warning (r\<lparr>rn_failure_count := rn_failure_count r + 1, rn_healthy := False\<rparr>)
                       else r
               else r\<lparr>rn_repetition_count := 0\<rparr>);
          r = r\<lparr>rn_bit_counts := map (\<lambda>i. if drop_bit i v AND 1 = 1 then rn_bit_counts r ! i + 1 else rn_bit_counts r ! i) [0..<32]\<rparr>
      in if count > 0 \<and> count mod APT_WINDOW_SIZE = 0 then reassess_health r else r)"

definition raw_random_u32_with_health :: "registers \<Rightarrow> rng \<Rightarrow> u32 \<times> rng" where
  "raw_random_u32_with_health hw r = (let (v, r) = hw_rng_raw hw r in (v, update_health_state r v))"

definition is_healthy :: "rng \<Rightarrow> bool" where
  "is_healthy r = rn_healthy r"

record rng_health_stats =
  hs_healthy :: bool
  hs_sample_count :: u32
  hs_failure_count :: u32
  hs_estimated_entropy :: u32

definition health_stats :: "rng \<Rightarrow> rng_health_stats" where
  "health_stats r = \<lparr>hs_healthy = rn_healthy r, hs_sample_count = rn_sample_count r, hs_failure_count = rn_failure_count r,
     hs_estimated_entropy = estimate_entropy r\<rparr>"

text \<open>\<open>n\<close> samples whose values are not used.\<close>

definition collect_samples :: "registers \<Rightarrow> nat \<Rightarrow> rng \<Rightarrow> rng" where
  "collect_samples hw n = ((\<lambda>r. snd (raw_random_u32_with_health hw r)) ^^ n)"

definition rng_init :: "registers \<Rightarrow> rng \<Rightarrow> rng" where
  "rng_init hw r =
     (if rn_initialized r then r
      else let r = r\<lparr>rn_initialized := True\<rparr>;
               r = r\<lparr>rn_sample_count := 0, rn_repetition_count := 0, rn_failure_count := 0\<rparr>;
               r = collect_samples hw (unat MIN_SAMPLES_FOR_HEALTH) r;
               failures = rn_failure_count r;
               healthy = (failures = 0 \<and> estimate_entropy r \<ge> MIN_ENTROPY_SCALED);
               r = r\<lparr>rn_healthy := healthy\<rparr>
           in if \<not> healthy then log_rng_warning r else r)"

section \<open>Random numbers\<close>

definition read_timer_entropy :: "registers \<Rightarrow> rng \<Rightarrow> u32 \<times> rng" where
  "read_timer_entropy hw r = (rg_time hw (rn_timer_reads r), r\<lparr>rn_timer_reads := rn_timer_reads r + 1\<rparr>)"

definition mix_entropy :: "u32 \<Rightarrow> u32 \<Rightarrow> u32 \<Rightarrow> u32" where
  "mix_entropy a b c =
     (let h = a;
          h = h XOR (push_bit 13 b OR drop_bit (32 - 13) b);
          h = h * 0x85EBCA6B;
          h = h XOR (drop_bit 7 c OR push_bit (32 - 7) c);
          h = h * 0xC2B2AE35
      in h XOR drop_bit 16 h)"

definition extra_mixing :: "registers \<Rightarrow> u32 \<times> rng \<Rightarrow> nat \<Rightarrow> u32 \<times> rng" where
  "extra_mixing hw st i =
     (let (result, r) = st; (extra, r) = raw_random_u32_with_health hw r; (time, r) = read_timer_entropy hw r
      in (mix_entropy result extra (time + of_nat i), r))"

definition random_u32 :: "registers \<Rightarrow> rng \<Rightarrow> u32 \<times> rng" where
  "random_u32 hw r =
     (let r = (if \<not> rn_initialized r then rng_init hw r else r);
          healthy = rn_healthy r;
          (r1, r) = raw_random_u32_with_health hw r;
          (r2, r) = raw_random_u32_with_health hw r;
          (time_entropy, r) = read_timer_entropy hw r;
          result = mix_entropy r1 r2 time_entropy
      in if \<not> healthy then foldl (extra_mixing hw) (result, log_rng_warning r) [0..<4] else (result, r))"

definition random_u32_checked :: "registers \<Rightarrow> rng \<Rightarrow> u32 option \<times> rng" where
  "random_u32_checked hw r = (if \<not> is_healthy r then (None, r) else let (v, r) = random_u32 hw r in (Some v, r))"

function fill_loop :: "registers \<Rightarrow> bytes \<Rightarrow> nat \<Rightarrow> nat \<Rightarrow> rng \<Rightarrow> bytes \<times> rng" where
  "fill_loop hw dest len offset r =
     (if offset < len
      then let (random, r) = random_u32 hw r;
               bs = [ucast (random AND 0xFF), ucast (drop_bit 8 random AND 0xFF), ucast (drop_bit 16 random AND 0xFF), ucast (drop_bit 24 random AND 0xFF)];
               remaining = len - offset;
               to_copy = (if remaining < 4 then remaining else 4)
           in fill_loop hw (memcpy dest offset (slice bs 0 to_copy)) len (offset + to_copy) r
      else (dest, r))"
  by pat_completeness auto
termination
  by (relation "measure (\<lambda>(hw, dest, len, offset, r). len - offset)") auto

declare fill_loop.simps [simp del]

definition fill_random :: "registers \<Rightarrow> bytes \<Rightarrow> rng \<Rightarrow> bytes \<times> rng" where
  "fill_random hw dest r =
     (let r = (if \<not> rn_initialized r then rng_init hw r else r) in fill_loop hw dest (length dest) 0 r)"

definition fill_random_checked :: "registers \<Rightarrow> bytes \<Rightarrow> rng \<Rightarrow> bool \<times> bytes \<times> rng" where
  "fill_random_checked hw dest r =
     (if \<not> is_healthy r then (False, dest, r) else let (dest, r) = fill_random hw dest r in (True, dest, r))"

definition recheck_health :: "registers \<Rightarrow> rng \<Rightarrow> rng" where
  "recheck_health hw r =
     (let r = r\<lparr>rn_failure_count := 0\<rparr>; r = collect_samples hw (unat MIN_SAMPLES_FOR_HEALTH) r in reassess_health r)"

section \<open>The entropy estimate\<close>

lemma bit_entropy_le: "bit_entropy samples ones \<le> 8"
proof -
  have "8 - x \<le> (8 :: u32)" if "x < 8" for x using that by (simp add: word_le_nat_alt word_less_nat_alt unat_sub)
  then show ?thesis by (simp add: bit_entropy_def Let_def)
qed

lemma entropy_sum:
  assumes "\<And>i. f i \<le> (8 :: u32)" "n \<le> 32"
  shows "unat (foldl (\<lambda>total i. total + f i) 0 [0..<n]) \<le> 8 * n"
  using assms(2)
proof (induction n)
  case (Suc n)
  let ?t = "foldl (\<lambda>total i. total + f i) 0 [0..<n]"
  have "unat ?t \<le> 8 * n" "unat (f n) \<le> 8" using Suc assms(1) [of n] by (simp_all add: word_le_nat_alt)
  then show ?case using Suc.prems by (simp add: unat_word_ariths)
qed simp

text \<open>The estimate is an average of values of at most 8.\<close>

lemma estimate_entropy_le: "estimate_entropy r \<le> 8"
proof -
  let ?t = "foldl (\<lambda>total i. total + bit_entropy (rn_sample_count r) (rn_bit_counts r ! i)) 0 [0..<32]"
  have "unat ?t \<le> 8 * 32" by (rule entropy_sum) (simp_all add: bit_entropy_le)
  then have "unat (?t div 32) \<le> 8" by (simp add: unat_div)
  then show ?thesis by (simp add: estimate_entropy_def Let_def word_le_nat_alt)
qed

lemma not_enough_entropy [simp]: "estimate_entropy r < MIN_ENTROPY_SCALED" "\<not> MIN_ENTROPY_SCALED \<le> estimate_entropy r"
proof -
  have "(8 :: u32) < MIN_ENTROPY_SCALED" by (simp add: MIN_ENTROPY_SCALED_def)
  with estimate_entropy_le [of r] show "estimate_entropy r < MIN_ENTROPY_SCALED" by (rule order.strict_trans1)
  then show "\<not> MIN_ENTROPY_SCALED \<le> estimate_entropy r" by simp
qed

section \<open>Health is never reached\<close>

named_theorems unhealthy \<open>operations that leave the generator unhealthy\<close>

lemma unhealthy_log [unhealthy]: "rn_healthy (log_rng_warning r) = rn_healthy r"
  by (simp add: log_rng_warning_def)

lemma unhealthy_reassess [unhealthy]: "\<not> rn_healthy (reassess_health r)"
  by (simp add: reassess_health_def Let_def unhealthy)

lemma unhealthy_update [unhealthy]: "\<not> rn_healthy r \<Longrightarrow> \<not> rn_healthy (update_health_state r v)"
  by (simp add: update_health_state_def Let_def unhealthy)

lemma unhealthy_raw [unhealthy]: "\<not> rn_healthy r \<Longrightarrow> \<not> rn_healthy (snd (raw_random_u32_with_health hw r))"
  by (simp add: raw_random_u32_with_health_def hw_rng_raw_def unhealthy)

lemma unhealthy_collect [unhealthy]: "\<not> rn_healthy r \<Longrightarrow> \<not> rn_healthy (collect_samples hw n r)"
  by (induction n) (simp_all add: collect_samples_def unhealthy)

lemma unhealthy_init [unhealthy]: "\<not> rn_healthy r \<Longrightarrow> \<not> rn_healthy (rng_init hw r)"
  by (simp add: rng_init_def Let_def unhealthy)

lemma unhealthy_timer [unhealthy]: "rn_healthy (snd (read_timer_entropy hw r)) = rn_healthy r"
  by (simp add: read_timer_entropy_def)

lemma unhealthy_extra [unhealthy]: "\<not> rn_healthy (snd st) \<Longrightarrow> \<not> rn_healthy (snd (foldl (extra_mixing hw) st ts))"
  by (induction ts arbitrary: st) (simp_all add: extra_mixing_def split_beta Let_def unhealthy)

lemma unhealthy_random [unhealthy]: "\<not> rn_healthy r \<Longrightarrow> \<not> rn_healthy (snd (random_u32 hw r))"
  by (simp add: random_u32_def split_beta Let_def unhealthy)

lemma unhealthy_fill_loop [unhealthy]: "\<not> rn_healthy r \<Longrightarrow> \<not> rn_healthy (snd (fill_loop hw dest len offset r))"
proof (induction hw dest len offset r rule: fill_loop.induct)
  case (1 hw dest len offset r)
  then show ?case
    by (subst fill_loop.simps) (auto simp: split_beta Let_def unhealthy)
qed

lemma unhealthy_fill [unhealthy]: "\<not> rn_healthy r \<Longrightarrow> \<not> rn_healthy (snd (fill_random hw dest r))"
  by (simp add: fill_random_def Let_def unhealthy)

lemma unhealthy_recheck [unhealthy]: "\<not> rn_healthy (recheck_health hw r)"
  by (simp add: recheck_health_def Let_def unhealthy)

section \<open>Reachable states\<close>

inductive rng_reachable :: "registers \<Rightarrow> rng \<Rightarrow> bool" for hw where
  start: "rng_reachable hw rng_start"
| init: "rng_reachable hw r \<Longrightarrow> rng_reachable hw (rng_init hw r)"
| random: "rng_reachable hw r \<Longrightarrow> rng_reachable hw (snd (random_u32 hw r))"
| checked: "rng_reachable hw r \<Longrightarrow> rng_reachable hw (snd (random_u32_checked hw r))"
| fill: "rng_reachable hw r \<Longrightarrow> rng_reachable hw (snd (fill_random hw dest r))"
| fill_checked: "rng_reachable hw r \<Longrightarrow> rng_reachable hw (snd (snd (fill_random_checked hw dest r)))"
| recheck: "rng_reachable hw r \<Longrightarrow> rng_reachable hw (recheck_health hw r)"

lemma reachable_unhealthy: "rng_reachable hw r \<Longrightarrow> \<not> rn_healthy r"
  by (induction rule: rng_reachable.induct) (simp_all add: unhealthy rng_start_def random_u32_checked_def fill_random_checked_def is_healthy_def)

lemma fill_checked_fails: "rng_reachable hw r \<Longrightarrow> fill_random_checked hw dest r = (False, dest, r)"
  using reachable_unhealthy [of hw r] by (simp add: fill_random_checked_def is_healthy_def)

section \<open>Filling\<close>

text \<open>The numbers that successive calls of \<^verbatim>\<open>random_u32\<close> return.\<close>

primrec random_words :: "registers \<Rightarrow> nat \<Rightarrow> rng \<Rightarrow> u32 list \<times> rng" where
  "random_words hw 0 r = ([], r)"
| "random_words hw (Suc n) r = (let (v, r) = random_u32 hw r; (vs, r) = random_words hw n r in (v # vs, r))"

lemma le_bytes_4:
  "[ucast (w AND 0xFF), ucast (drop_bit 8 w AND 0xFF), ucast (drop_bit 16 w AND 0xFF), ucast (drop_bit 24 w AND 0xFF)] = le_bytes 4 (w :: u32)"
  by (simp add: numeral_eq_Suc)

lemma fill_loop_step:
  assumes "offset < length dest" "random_u32 hw r = (v, r')"
  shows "fill_loop hw dest (length dest) offset r =
    fill_loop hw (memcpy dest offset (take (length dest - offset) (le_bytes 4 v))) (length dest) (offset + min 4 (length dest - offset)) r'"
  using assms by (subst fill_loop.simps, unfold le_bytes_4) (auto simp: Let_def slice_0_take min_def)

lemma fill_loop_words:
  assumes "offset \<le> length dest"
  shows "fill_loop hw dest (length dest) offset r =
    (let (ws, r') = random_words hw ((length dest - offset + 3) div 4) r in (take offset dest @ take (length dest - offset) (concat (map (le_bytes 4) ws)), r'))"
  using assms
proof (induction "length dest - offset" arbitrary: dest offset r rule: less_induct)
  case less
  show ?case
  proof (cases "offset < length dest")
    case False
    then show ?thesis using less.prems by (subst fill_loop.simps) simp
  next
    case True
    obtain v r' where v: "random_u32 hw r = (v, r')" by (cases "random_u32 hw r")
    let ?n = "length dest - offset"
    let ?dest = "memcpy dest offset (take ?n (le_bytes 4 v))" and ?o = "offset + min 4 ?n"
    have d: "length ?dest = length dest" "take ?o ?dest = take offset dest @ take ?n (le_bytes 4 v)"
      using True by (auto simp: memcpy_def min_def)
    obtain ws r'' where ws: "random_words hw ((length dest - ?o + 3) div 4) r' = (ws, r'')" by fastforce
    have m: "(?n + 3) div 4 = Suc ((length dest - ?o + 3) div 4)" using True by (auto simp: min_def)
    have "length dest - ?o = ?n - 4" using True by (auto simp: min_def)
    then have t: "take ?n (le_bytes 4 v) @ take (length dest - ?o) (concat (map (le_bytes 4) ws)) = take ?n (concat (map (le_bytes 4) (v # ws)))" by simp
    have "fill_loop hw ?dest (length ?dest) ?o r' = (take ?o ?dest @ take (length dest - ?o) (concat (map (le_bytes 4) ws)), r'')"
      using less.hyps [of ?dest ?o r'] True ws by (simp add: d(1))
    then show ?thesis using fill_loop_step [OF True v] ws t unfolding m d by (simp add: v)
  qed
qed

section \<open>Properties\<close>

text \<open>C37. The generator is never healthy: whatever the registers show and whatever operations run, in whatever order, the health flag is
  false in every reachable state, because the entropy estimate is at most 8 and 24 is required. The checked operations therefore
  always fail without touching their output. The unchecked \<^verbatim>\<open>fill_random\<close> delivers: it overwrites the whole buffer, and nothing else, with the
  little-endian bytes of the numbers that successive calls of \<^verbatim>\<open>random_u32\<close> return, the last one cut off at the end of the buffer.\<close>

theorem rng_never_healthy:
  assumes "rng_reachable hw r" "random_words hw ((length dest + 3) div 4) (if rn_initialized r then r else rng_init hw r) = (ws, r')"
  shows "\<not> is_healthy r \<and> estimate_entropy r \<le> 8 \<and> random_u32_checked hw r = (None, r) \<and> fill_random_checked hw dest r = (False, dest, r)
    \<and> fill_random hw dest r = (take (length dest) (concat (map (le_bytes 4) ws)), r') \<and> length dest \<le> length (concat (map (le_bytes 4) ws))"
proof -
  have l: "length (fst (random_words hw n r)) = n" for n r by (induction n arbitrary: r) (simp_all add: split_beta Let_def)
  from l [of "(length dest + 3) div 4" "if rn_initialized r then r else rng_init hw r"] assms(2) have "length ws = (length dest + 3) div 4" by simp
  moreover have "length (concat (map (le_bytes 4) ws)) = 4 * length ws" by (induction ws) simp_all
  moreover have "fill_random hw dest r = (take (length dest) (concat (map (le_bytes 4) ws)), r')"
    using assms(2) fill_loop_words [of 0 dest hw "if rn_initialized r then r else rng_init hw r"] by (simp add: fill_random_def split: if_splits)
  ultimately show ?thesis
    using reachable_unhealthy [OF assms(1)] fill_checked_fails [OF assms(1)] estimate_entropy_le [of r] by (simp add: is_healthy_def random_u32_checked_def)
qed

theorem rng_never_healthy_witness:
  "let hw = \<lparr>rg_data = of_nat, rg_time = of_nat\<rparr>; r = rng_init hw rng_start in
   fill_random_checked hw [0, 0] r = (False, [0, 0], r)
   \<and> fst (fill_random hw [0, 0] r) = take 2 (le_bytes 4 (fst (random_u32 hw (if rn_initialized r then r else rng_init hw r))))"
proof -
  define hw where "hw = \<lparr>rg_data = of_nat :: nat \<Rightarrow> u32, rg_time = of_nat\<rparr>"
  define r where "r = rng_init hw rng_start"
  define r0 where "r0 = (if rn_initialized r then r else rng_init hw r)"
  have "random_words hw ((length [0, 0 :: byte] + 3) div 4) (if rn_initialized r then r else rng_init hw r) = ([fst (random_u32 hw r0)], snd (random_u32 hw r0))"
    by (simp add: r0_def split_beta Let_def)
  from rng_never_healthy [OF rng_reachable.init [OF rng_reachable.start, of hw, folded r_def] this]
  show ?thesis unfolding Let_def hw_def [symmetric] r_def [symmetric] r0_def [symmetric] by (simp add: numeral_2_eq_2)
qed

end
