(* ===== verification/Field25519.thy ===== *)
theory Field25519
  imports Limb_Arith
begin

unbundle bit_operations_syntax

text \<open>
  Arithmetic in the field of \<open>2\<^sup>2\<^sup>5\<^sup>5 - 19\<close> elements with ten signed limbs of alternately 26 and 25 bits, as in
  \<^verbatim>\<open>crypto/x25519.c\<close> (\<^verbatim>\<open>crypto/ed25519.c\<close> repeats the functions). A value of type \<^verbatim>\<open>int64_t\<close> or \<^verbatim>\<open>__int128\<close> is an
  integer; every result of that type is wrapped by \<open>i64\<close> or \<open>i128\<close>. Because wrapping commutes with sums and products, a sum of
  products is wrapped once. That nothing wraps on the way is part of what is proved.
\<close>

section \<open>Machine integers\<close>

definition i64 :: "int \<Rightarrow> int" where
  "i64 x = (x + 2 ^ 63) mod 2 ^ 64 - 2 ^ 63"

definition i128 :: "int \<Rightarrow> int" where
  "i128 x = (x + 2 ^ 127) mod 2 ^ 128 - 2 ^ 127"

section \<open>Field elements\<close>

type_synonym fe = "int list"

definition fe_zero :: fe where
  "fe_zero = replicate 10 0"

definition fe_one :: fe where
  "fe_one = 1 # replicate 9 0"

definition load_4 :: "bytes \<Rightarrow> nat \<Rightarrow> int" where
  "load_4 s i = uint (s ! i) OR push_bit 8 (uint (s ! (i + 1))) OR push_bit 16 (uint (s ! (i + 2))) OR push_bit 24 (uint (s ! (i + 3)))"

definition load_3 :: "bytes \<Rightarrow> nat \<Rightarrow> int" where
  "load_3 s i = uint (s ! i) OR push_bit 8 (uint (s ! (i + 1))) OR push_bit 16 (uint (s ! (i + 2)))"

definition fe_from_bytes :: "bytes \<Rightarrow> fe" where
  "fe_from_bytes bytes =
     [load_4 bytes 0 AND 0x3ffffff,
      drop_bit 2 (load_4 bytes 3) AND 0x1ffffff,
      drop_bit 3 (load_4 bytes 6) AND 0x3ffffff,
      drop_bit 5 (load_4 bytes 9) AND 0x1ffffff,
      drop_bit 6 (load_4 bytes 12) AND 0x3ffffff,
      load_4 bytes 16 AND 0x1ffffff,
      drop_bit 1 (load_4 bytes 19) AND 0x3ffffff,
      drop_bit 3 (load_4 bytes 22) AND 0x1ffffff,
      drop_bit 4 (load_4 bytes 25) AND 0x3ffffff,
      drop_bit 6 (load_3 bytes 28) AND 0x1ffffff]"

text \<open>One limb of the estimate of the quotient, and one limb of the carry that follows.\<close>

definition quotient_limb :: "nat \<Rightarrow> int \<Rightarrow> int \<Rightarrow> int" where
  "quotient_limb w h q = drop_bit w (i64 (h + q))"

definition carry_pass :: "nat \<Rightarrow> int \<Rightarrow> int \<Rightarrow> int \<times> int" where
  "carry_pass w h h' = (let carry = drop_bit w h in (i64 (h - push_bit w carry), i64 (h' + carry)))"

definition fe_quotient :: "fe \<Rightarrow> int" where
  "fe_quotient h =
     (let q = drop_bit 25 (i64 (19 * h ! 9 + push_bit 24 1));
          q = quotient_limb 26 (h ! 0) q; q = quotient_limb 25 (h ! 1) q; q = quotient_limb 26 (h ! 2) q; q = quotient_limb 25 (h ! 3) q; q = quotient_limb 26 (h ! 4) q;
          q = quotient_limb 25 (h ! 5) q; q = quotient_limb 26 (h ! 6) q; q = quotient_limb 25 (h ! 7) q; q = quotient_limb 26 (h ! 8) q; q = quotient_limb 25 (h ! 9) q
      in q)"

definition fe_reduce :: "fe \<Rightarrow> fe" where
  "fe_reduce h =
     (let q = fe_quotient h;
          h0 = i64 (h ! 0 + 19 * q);
          (h0, h1) = carry_pass 26 h0 (h ! 1); (h1, h2) = carry_pass 25 h1 (h ! 2); (h2, h3) = carry_pass 26 h2 (h ! 3);
          (h3, h4) = carry_pass 25 h3 (h ! 4); (h4, h5) = carry_pass 26 h4 (h ! 5); (h5, h6) = carry_pass 25 h5 (h ! 6);
          (h6, h7) = carry_pass 26 h6 (h ! 7); (h7, h8) = carry_pass 25 h7 (h ! 8); (h8, h9) = carry_pass 26 h8 (h ! 9);
          carry9 = drop_bit 25 h9; h9 = i64 (h9 - push_bit 25 carry9)
      in [h0, h1, h2, h3, h4, h5, h6, h7, h8, h9])"

definition fe_pack :: "fe \<Rightarrow> bytes" where
  "fe_pack h =
     (let h0 = h ! 0; h1 = h ! 1; h2 = h ! 2; h3 = h ! 3; h4 = h ! 4; h5 = h ! 5; h6 = h ! 6; h7 = h ! 7; h8 = h ! 8; h9 = h ! 9
      in map word_of_int
        [h0, drop_bit 8 h0, drop_bit 16 h0, drop_bit 24 h0 OR push_bit 2 h1,
         drop_bit 6 h1, drop_bit 14 h1, drop_bit 22 h1 OR push_bit 3 h2, drop_bit 5 h2,
         drop_bit 13 h2, drop_bit 21 h2 OR push_bit 5 h3, drop_bit 3 h3, drop_bit 11 h3,
         drop_bit 19 h3 OR push_bit 6 h4, drop_bit 2 h4, drop_bit 10 h4, drop_bit 18 h4,
         h5, drop_bit 8 h5, drop_bit 16 h5, drop_bit 24 h5 OR push_bit 1 h6,
         drop_bit 7 h6, drop_bit 15 h6, drop_bit 23 h6 OR push_bit 3 h7, drop_bit 5 h7,
         drop_bit 13 h7, drop_bit 21 h7 OR push_bit 4 h8, drop_bit 4 h8, drop_bit 12 h8,
         drop_bit 20 h8 OR push_bit 6 h9, drop_bit 2 h9, drop_bit 10 h9, drop_bit 18 h9])"

definition fe_to_bytes :: "fe \<Rightarrow> bytes" where
  "fe_to_bytes fe = fe_pack (fe_reduce fe)"

definition fe_add :: "fe \<Rightarrow> fe \<Rightarrow> fe" where
  "fe_add a b = [i64 (a ! 0 + b ! 0), i64 (a ! 1 + b ! 1), i64 (a ! 2 + b ! 2), i64 (a ! 3 + b ! 3), i64 (a ! 4 + b ! 4), i64 (a ! 5 + b ! 5), i64 (a ! 6 + b ! 6), i64 (a ! 7 + b ! 7), i64 (a ! 8 + b ! 8), i64 (a ! 9 + b ! 9)]"

definition fe_sub :: "fe \<Rightarrow> fe \<Rightarrow> fe" where
  "fe_sub a b = [i64 (a ! 0 - b ! 0), i64 (a ! 1 - b ! 1), i64 (a ! 2 - b ! 2), i64 (a ! 3 - b ! 3), i64 (a ! 4 - b ! 4), i64 (a ! 5 - b ! 5), i64 (a ! 6 - b ! 6), i64 (a ! 7 - b ! 7), i64 (a ! 8 - b ! 8), i64 (a ! 9 - b ! 9)]"

text \<open>One limb of the chain: the rounded carry into the next limb, and what remains.\<close>

definition carry_limb :: "nat \<Rightarrow> int \<Rightarrow> int \<times> int" where
  "carry_limb w h = (let carry = drop_bit w (i128 (h + push_bit (w - 1) 1)) in (carry, i64 (h - push_bit w carry)))"

definition carry_mul :: "int list \<Rightarrow> fe" where
  "carry_mul h =
     (let (carry, out0) = carry_limb 26 (h ! 0);
          (carry, out1) = carry_limb 25 (i128 (h ! 1 + carry));
          (carry, out2) = carry_limb 26 (i128 (h ! 2 + carry));
          (carry, out3) = carry_limb 25 (i128 (h ! 3 + carry));
          (carry, out4) = carry_limb 26 (i128 (h ! 4 + carry));
          (carry, out5) = carry_limb 25 (i128 (h ! 5 + carry));
          (carry, out6) = carry_limb 26 (i128 (h ! 6 + carry));
          (carry, out7) = carry_limb 25 (i128 (h ! 7 + carry));
          (carry, out8) = carry_limb 26 (i128 (h ! 8 + carry));
          (carry, out9) = carry_limb 25 (i128 (h ! 9 + carry));
          out0 = i64 (out0 + i64 (carry * 19));
          carry = drop_bit 26 (i128 (out0 + push_bit 25 1)); out0 = i64 (out0 - i64 (push_bit 26 carry)); out1 = i64 (out1 + i64 carry)
      in [out0, out1, out2, out3, out4, out5, out6, out7, out8, out9])"

definition fe_mul :: "fe \<Rightarrow> fe \<Rightarrow> fe" where
  "fe_mul a b =
     (let f0 = a ! 0; f1 = a ! 1; f2 = a ! 2; f3 = a ! 3; f4 = a ! 4; f5 = a ! 5; f6 = a ! 6; f7 = a ! 7; f8 = a ! 8; f9 = a ! 9;
          g0 = b ! 0; g1 = b ! 1; g2 = b ! 2; g3 = b ! 3; g4 = b ! 4; g5 = b ! 5; g6 = b ! 6; g7 = b ! 7; g8 = b ! 8; g9 = b ! 9;
          g1_19 = 19 * g1; g2_19 = 19 * g2; g3_19 = 19 * g3; g4_19 = 19 * g4; g5_19 = 19 * g5; g6_19 = 19 * g6; g7_19 = 19 * g7; g8_19 = 19 * g8; g9_19 = 19 * g9;
          f1_2 = 2 * f1; f3_2 = 2 * f3; f5_2 = 2 * f5; f7_2 = 2 * f7; f9_2 = 2 * f9
      in carry_mul
        [i128 (f0 * g0 + f1_2 * g9_19 + f2 * g8_19 + f3_2 * g7_19 + f4 * g6_19 + f5_2 * g5_19 + f6 * g4_19 + f7_2 * g3_19 + f8 * g2_19 + f9_2 * g1_19),
         i128 (f0 * g1 + f1 * g0 + f2 * g9_19 + f3 * g8_19 + f4 * g7_19 + f5 * g6_19 + f6 * g5_19 + f7 * g4_19 + f8 * g3_19 + f9 * g2_19),
         i128 (f0 * g2 + f1_2 * g1 + f2 * g0 + f3_2 * g9_19 + f4 * g8_19 + f5_2 * g7_19 + f6 * g6_19 + f7_2 * g5_19 + f8 * g4_19 + f9_2 * g3_19),
         i128 (f0 * g3 + f1 * g2 + f2 * g1 + f3 * g0 + f4 * g9_19 + f5 * g8_19 + f6 * g7_19 + f7 * g6_19 + f8 * g5_19 + f9 * g4_19),
         i128 (f0 * g4 + f1_2 * g3 + f2 * g2 + f3_2 * g1 + f4 * g0 + f5_2 * g9_19 + f6 * g8_19 + f7_2 * g7_19 + f8 * g6_19 + f9_2 * g5_19),
         i128 (f0 * g5 + f1 * g4 + f2 * g3 + f3 * g2 + f4 * g1 + f5 * g0 + f6 * g9_19 + f7 * g8_19 + f8 * g7_19 + f9 * g6_19),
         i128 (f0 * g6 + f1_2 * g5 + f2 * g4 + f3_2 * g3 + f4 * g2 + f5_2 * g1 + f6 * g0 + f7_2 * g9_19 + f8 * g8_19 + f9_2 * g7_19),
         i128 (f0 * g7 + f1 * g6 + f2 * g5 + f3 * g4 + f4 * g3 + f5 * g2 + f6 * g1 + f7 * g0 + f8 * g9_19 + f9 * g8_19),
         i128 (f0 * g8 + f1_2 * g7 + f2 * g6 + f3_2 * g5 + f4 * g4 + f5_2 * g3 + f6 * g2 + f7_2 * g1 + f8 * g0 + f9_2 * g9_19),
         i128 (f0 * g9 + f1 * g8 + f2 * g7 + f3 * g6 + f4 * g5 + f5 * g4 + f6 * g3 + f7 * g2 + f8 * g1 + f9 * g0)])"

definition fe_square :: "fe \<Rightarrow> fe" where
  "fe_square a = fe_mul a a"

definition fe_mul121666 :: "fe \<Rightarrow> fe" where
  "fe_mul121666 a = carry_mul (map (\<lambda>x. i128 (x * 121666)) a)"

text \<open>\<open>n\<close> squarings in a row.\<close>

definition fe_squares :: "nat \<Rightarrow> fe \<Rightarrow> fe" where
  "fe_squares n = (fe_square ^^ n)"

definition fe_invert :: "fe \<Rightarrow> fe" where
  "fe_invert a =
     (let t0 = fe_square a; t1 = fe_square t0; t1 = fe_square t1; t1 = fe_mul a t1; t0 = fe_mul t0 t1;
          t2 = fe_square t0; t1 = fe_mul t1 t2;
          t2 = fe_square t1; t2 = fe_squares 4 t2; t1 = fe_mul t2 t1;
          t2 = fe_square t1; t2 = fe_squares 9 t2; t2 = fe_mul t2 t1;
          t3 = fe_square t2; t3 = fe_squares 19 t3; t2 = fe_mul t3 t2;
          t2 = fe_square t2; t2 = fe_squares 9 t2; t1 = fe_mul t2 t1;
          t2 = fe_square t1; t2 = fe_squares 49 t2; t2 = fe_mul t2 t1;
          t3 = fe_square t2; t3 = fe_squares 99 t3; t2 = fe_mul t3 t2;
          t2 = fe_square t2; t2 = fe_squares 49 t2; t1 = fe_mul t2 t1;
          t1 = fe_square t1; t1 = fe_square t1; t1 = fe_square t1; t1 = fe_square t1; t1 = fe_square t1
      in fe_mul t0 t1)"

definition fe_cswap :: "fe \<Rightarrow> fe \<Rightarrow> int \<Rightarrow> fe \<times> fe" where
  "fe_cswap a b swap =
     (let swap_mask = i64 (- swap);
          xs = map2 (\<lambda>x y. swap_mask AND (x XOR y)) a b
      in (map2 (\<lambda>x t. x XOR t) a xs, map2 (\<lambda>y t. y XOR t) b xs))"
section \<open>Bounds\<close>

lemma i64_id: "\<bar>x\<bar> < 2 ^ 63 \<Longrightarrow> i64 x = x"
  by (simp add: i64_def abs_less_iff)

lemma i128_id: "\<bar>x\<bar> < 2 ^ 127 \<Longrightarrow> i128 x = x"
  by (simp add: i128_def abs_less_iff)

definition below :: "int \<Rightarrow> int \<Rightarrow> bool" where
  "below B x \<longleftrightarrow> \<bar>x\<bar> \<le> B"

lemma below_add: "below A x \<Longrightarrow> below B y \<Longrightarrow> below (A + B) (x + y)"
  by (simp add: below_def)

lemma below_mult: "below A x \<Longrightarrow> below B y \<Longrightarrow> below (A * B) (x * y)"
  by (simp add: below_def abs_mult mult_mono')

lemma below_const: "below \<bar>c\<bar> c"
  by (simp add: below_def)

lemma below_mono: "below A x \<Longrightarrow> A \<le> B \<Longrightarrow> below B x"
  by (simp add: below_def)

lemma carry_limb_ok:
  assumes "below (2 ^ 69 + 2 ^ 46) x" "w = 26 \<or> w = 25"
  obtains c r where "carry_limb w x = (c, r)" "x = r + 2 ^ w * c" "below (2 ^ (w - 1)) r" "below (2 ^ 45) c" "i128 x = x"
proof -
  define c where "c = (x + 2 ^ (w - 1)) div 2 ^ w"
  define r where "r = x - 2 ^ w * c"
  have x: "- (2 ^ 69 + 2 ^ 46) \<le> x" "x \<le> 2 ^ 69 + 2 ^ 46" using assms(1) by (simp_all add: below_def abs_le_iff)
  have "0 \<le> (x + 2 ^ (w - 1)) mod 2 ^ w" "(x + 2 ^ (w - 1)) mod 2 ^ w < 2 ^ w" by simp_all
  moreover have "(x + 2 ^ (w - 1)) mod 2 ^ w = x + 2 ^ (w - 1) - 2 ^ w * c" by (simp add: c_def minus_mult_div_eq_mod)
  ultimately have r: "- (2 ^ (w - 1)) \<le> r" "r \<le> 2 ^ (w - 1)" and c: "- (2 ^ 45) \<le> c" "c \<le> 2 ^ 45"
    using assms(2) x unfolding r_def by auto
  have "carry_limb w x = (c, r)"
    using assms(2) x r c by (auto simp: carry_limb_def Let_def c_def r_def drop_bit_eq_div push_bit_eq_mult i128_id i64_id mult.commute)
  moreover have "i128 x = x" using x by (intro i128_id) (simp add: abs_less_iff)
  ultimately show ?thesis using r c by (intro that [of c r]) (auto simp: r_def below_def abs_le_iff)
qed

section \<open>Values\<close>

definition P25519 :: int where
  "P25519 = 2 ^ 255 - 19"

definition fe_val :: "fe \<Rightarrow> int" where
  "fe_val f = f ! 0 + 2 ^ 26 * f ! 1 + 2 ^ 51 * f ! 2 + 2 ^ 77 * f ! 3 + 2 ^ 102 * f ! 4 + 2 ^ 128 * f ! 5 + 2 ^ 153 * f ! 6
     + 2 ^ 179 * f ! 7 + 2 ^ 204 * f ! 8 + 2 ^ 230 * f ! 9"

definition fe_ok :: "int \<Rightarrow> fe \<Rightarrow> bool" where
  "fe_ok c f \<longleftrightarrow> length f = 10 \<and> (\<forall>x \<in> set f. below (c * 2 ^ 25) x)"

lemma length_10: "length f = 10 \<Longrightarrow> f = [f ! 0, f ! 1, f ! 2, f ! 3, f ! 4, f ! 5, f ! 6, f ! 7, f ! 8, f ! 9]"
  by (rule nth_equalityI) (auto simp: numeral_eq_Suc less_Suc_eq)

lemma nth_list10:
  "[a0, a1, a2, a3, a4, a5, a6, a7, a8, a9] ! 0 = a0" "[a0, a1, a2, a3, a4, a5, a6, a7, a8, a9] ! 1 = a1"
  "[a0, a1, a2, a3, a4, a5, a6, a7, a8, a9] ! 2 = a2" "[a0, a1, a2, a3, a4, a5, a6, a7, a8, a9] ! 3 = a3"
  "[a0, a1, a2, a3, a4, a5, a6, a7, a8, a9] ! 4 = a4" "[a0, a1, a2, a3, a4, a5, a6, a7, a8, a9] ! 5 = a5"
  "[a0, a1, a2, a3, a4, a5, a6, a7, a8, a9] ! 6 = a6" "[a0, a1, a2, a3, a4, a5, a6, a7, a8, a9] ! 7 = a7"
  "[a0, a1, a2, a3, a4, a5, a6, a7, a8, a9] ! 8 = a8" "[a0, a1, a2, a3, a4, a5, a6, a7, a8, a9] ! 9 = a9"
  by simp_all

lemma fe_ok_nth: "fe_ok c f \<Longrightarrow> i < 10 \<Longrightarrow> below (c * 2 ^ 25) (f ! i)"
  by (simp add: fe_ok_def)

lemma carry_limb_26:
  assumes "below (2 ^ 69 + 2 ^ 46) x"
  obtains c r where "carry_limb 26 (i128 x) = (c, r)" "x = r + 2 ^ 26 * c" "below (2 ^ 25) r" "below (2 ^ 45) c"
proof (rule carry_limb_ok [OF assms, of 26])
  fix c r assume "carry_limb 26 x = (c, r)" "x = r + 2 ^ 26 * c" "below (2 ^ (26 - 1)) r" "below (2 ^ 45) c" "i128 x = x"
  then show thesis by (intro that [of c r]) (simp_all del: power_numeral)
qed simp

lemma carry_limb_25:
  assumes "below (2 ^ 69 + 2 ^ 46) x"
  obtains c r where "carry_limb 25 (i128 x) = (c, r)" "x = r + 2 ^ 25 * c" "below (2 ^ 24) r" "below (2 ^ 45) c"
proof (rule carry_limb_ok [OF assms, of 25])
  fix c r assume "carry_limb 25 x = (c, r)" "x = r + 2 ^ 25 * c" "below (2 ^ (25 - 1)) r" "below (2 ^ 45) c" "i128 x = x"
  then show thesis by (intro that [of c r]) (simp_all del: power_numeral)
qed simp

lemma carry_mul_correct:
  assumes "\<And>i. i < 10 \<Longrightarrow> below (2 ^ 69) (h ! i)"
  shows "fe_ok 1 (carry_mul h)" "\<exists>k. fe_val (carry_mul h) = fe_val h + k * P25519"
proof -
  have step: "below (2 ^ 69 + 2 ^ 46) (h ! i + c)" if "i < 10" "below (2 ^ 45) c" for i c
    using assms [OF that(1)] that(2) by (simp add: below_def)
  have lt: "(1 :: nat) < 10" "(2 :: nat) < 10" "(3 :: nat) < 10" "(4 :: nat) < 10" "(5 :: nat) < 10" "(6 :: nat) < 10" "(7 :: nat) < 10" "(8 :: nat) < 10" "(9 :: nat) < 10" by simp_all
  have h0: "below (2 ^ 69 + 2 ^ 46) (h ! 0)" using assms [of 0] by (simp add: below_def)
  have i0: "i128 (h ! 0) = h ! 0" using h0 by (intro i128_id) (simp add: below_def)
  obtain c0 r0 where s0: "carry_limb 26 (h ! 0) = (c0, r0)" "h ! 0 = r0 + 2 ^ 26 * c0" "below (2 ^ 25) r0" "below (2 ^ 45) c0"
    using carry_limb_26 [OF h0] unfolding i0 by blast
  obtain c1 r1 where s1: "carry_limb 25 (i128 (h ! 1 + c0)) = (c1, r1)" "h ! 1 + c0 = r1 + 2 ^ 25 * c1" "below (2 ^ 24) r1" "below (2 ^ 45) c1"
    using carry_limb_25 [OF step [OF lt(1) s0(4)]] by blast
  obtain c2 r2 where s2: "carry_limb 26 (i128 (h ! 2 + c1)) = (c2, r2)" "h ! 2 + c1 = r2 + 2 ^ 26 * c2" "below (2 ^ 25) r2" "below (2 ^ 45) c2"
    using carry_limb_26 [OF step [OF lt(2) s1(4)]] by blast
  obtain c3 r3 where s3: "carry_limb 25 (i128 (h ! 3 + c2)) = (c3, r3)" "h ! 3 + c2 = r3 + 2 ^ 25 * c3" "below (2 ^ 24) r3" "below (2 ^ 45) c3"
    using carry_limb_25 [OF step [OF lt(3) s2(4)]] by blast
  obtain c4 r4 where s4: "carry_limb 26 (i128 (h ! 4 + c3)) = (c4, r4)" "h ! 4 + c3 = r4 + 2 ^ 26 * c4" "below (2 ^ 25) r4" "below (2 ^ 45) c4"
    using carry_limb_26 [OF step [OF lt(4) s3(4)]] by blast
  obtain c5 r5 where s5: "carry_limb 25 (i128 (h ! 5 + c4)) = (c5, r5)" "h ! 5 + c4 = r5 + 2 ^ 25 * c5" "below (2 ^ 24) r5" "below (2 ^ 45) c5"
    using carry_limb_25 [OF step [OF lt(5) s4(4)]] by blast
  obtain c6 r6 where s6: "carry_limb 26 (i128 (h ! 6 + c5)) = (c6, r6)" "h ! 6 + c5 = r6 + 2 ^ 26 * c6" "below (2 ^ 25) r6" "below (2 ^ 45) c6"
    using carry_limb_26 [OF step [OF lt(6) s5(4)]] by blast
  obtain c7 r7 where s7: "carry_limb 25 (i128 (h ! 7 + c6)) = (c7, r7)" "h ! 7 + c6 = r7 + 2 ^ 25 * c7" "below (2 ^ 24) r7" "below (2 ^ 45) c7"
    using carry_limb_25 [OF step [OF lt(7) s6(4)]] by blast
  obtain c8 r8 where s8: "carry_limb 26 (i128 (h ! 8 + c7)) = (c8, r8)" "h ! 8 + c7 = r8 + 2 ^ 26 * c8" "below (2 ^ 25) r8" "below (2 ^ 45) c8"
    using carry_limb_26 [OF step [OF lt(8) s7(4)]] by blast
  obtain c9 r9 where s9: "carry_limb 25 (i128 (h ! 9 + c8)) = (c9, r9)" "h ! 9 + c8 = r9 + 2 ^ 25 * c9" "below (2 ^ 24) r9" "below (2 ^ 45) c9"
    using carry_limb_25 [OF step [OF lt(9) s8(4)]] by blast
  define e where "e = (r0 + 19 * c9 + 2 ^ 25) div 2 ^ 26"
  define r where "r = r0 + 19 * c9 - 2 ^ 26 * e"
  have "(r0 + 19 * c9 + 2 ^ 25) mod 2 ^ 26 = r + 2 ^ 25" by (simp add: e_def r_def minus_mult_div_eq_mod [symmetric])
  moreover have "0 \<le> (r0 + 19 * c9 + 2 ^ 25) mod 2 ^ 26" "(r0 + 19 * c9 + 2 ^ 25) mod 2 ^ 26 < 2 ^ 26" by simp_all
  ultimately have r: "below (2 ^ 25) r" by (simp add: below_def)
  have e: "below (2 ^ 24) e" using s0(3) s9(4) r unfolding r_def by (simp add: below_def)
  have re: "below (2 ^ 25) (r1 + e)" using e s1(3) by (simp add: below_def)
  have w: "i64 (r0 + i64 (c9 * 19)) = r0 + 19 * c9" using s0(3) s9(4) by (simp add: below_def i64_id mult.commute)
  have w': "drop_bit 26 (i128 (r0 + 19 * c9 + push_bit 25 1)) = e"
    using s0(3) s9(4) by (simp add: below_def i128_id e_def drop_bit_eq_div push_bit_eq_mult)
  have w'': "i64 (r0 + 19 * c9 - i64 (push_bit 26 e)) = r" "i64 (r1 + i64 e) = r1 + e"
    using r e s1(3) s0(3) s9(4) by (simp_all add: below_def i64_id push_bit_eq_mult r_def mult.commute)
  have result: "carry_mul h = [r, r1 + e, r2, r3, r4, r5, r6, r7, r8, r9]"
    unfolding carry_mul_def s0(1) s1(1) s2(1) s3(1) s4(1) s5(1) s6(1) s7(1) s8(1) s9(1) Let_def prod.case w w' w'' ..
  show "fe_ok 1 (carry_mul h)"
    unfolding result fe_ok_def using r re s2(3) s3(3) s4(3) s5(3) s6(3) s7(3) s8(3) s9(3) by (simp add: below_def)
  have "fe_val (carry_mul h) = fe_val h + (- c9) * P25519"
    unfolding result fe_val_def nth_list10 P25519_def
    using s0(2) s1(2) s2(2) s3(2) s4(2) s5(2) s6(2) s7(2) s8(2) s9(2) unfolding r_def by (simp add: algebra_simps)
  then show "\<exists>k. fe_val (carry_mul h) = fe_val h + k * P25519" ..
qed

lemma limb_product:
  fixes f0 :: int
  shows "(f0 * g0 + (2 * f1) * (19 * g9) + f2 * (19 * g8) + (2 * f3) * (19 * g7) + f4 * (19 * g6) + (2 * f5) * (19 * g5) + f6 * (19 * g4) + (2 * f7) * (19 * g3) + f8 * (19 * g2) + (2 * f9) * (19 * g1)) + 2 ^ 26 * (f0 * g1 + f1 * g0 + f2 * (19 * g9) + f3 * (19 * g8) + f4 * (19 * g7) + f5 * (19 * g6) + f6 * (19 * g5) + f7 * (19 * g4) + f8 * (19 * g3) + f9 * (19 * g2)) + 2 ^ 51 * (f0 * g2 + (2 * f1) * g1 + f2 * g0 + (2 * f3) * (19 * g9) + f4 * (19 * g8) + (2 * f5) * (19 * g7) + f6 * (19 * g6) + (2 * f7) * (19 * g5) + f8 * (19 * g4) + (2 * f9) * (19 * g3)) + 2 ^ 77 * (f0 * g3 + f1 * g2 + f2 * g1 + f3 * g0 + f4 * (19 * g9) + f5 * (19 * g8) + f6 * (19 * g7) + f7 * (19 * g6) + f8 * (19 * g5) + f9 * (19 * g4)) + 2 ^ 102 * (f0 * g4 + (2 * f1) * g3 + f2 * g2 + (2 * f3) * g1 + f4 * g0 + (2 * f5) * (19 * g9) + f6 * (19 * g8) + (2 * f7) * (19 * g7) + f8 * (19 * g6) + (2 * f9) * (19 * g5)) + 2 ^ 128 * (f0 * g5 + f1 * g4 + f2 * g3 + f3 * g2 + f4 * g1 + f5 * g0 + f6 * (19 * g9) + f7 * (19 * g8) + f8 * (19 * g7) + f9 * (19 * g6)) + 2 ^ 153 * (f0 * g6 + (2 * f1) * g5 + f2 * g4 + (2 * f3) * g3 + f4 * g2 + (2 * f5) * g1 + f6 * g0 + (2 * f7) * (19 * g9) + f8 * (19 * g8) + (2 * f9) * (19 * g7)) + 2 ^ 179 * (f0 * g7 + f1 * g6 + f2 * g5 + f3 * g4 + f4 * g3 + f5 * g2 + f6 * g1 + f7 * g0 + f8 * (19 * g9) + f9 * (19 * g8)) + 2 ^ 204 * (f0 * g8 + (2 * f1) * g7 + f2 * g6 + (2 * f3) * g5 + f4 * g4 + (2 * f5) * g3 + f6 * g2 + (2 * f7) * g1 + f8 * g0 + (2 * f9) * (19 * g9)) + 2 ^ 230 * (f0 * g9 + f1 * g8 + f2 * g7 + f3 * g6 + f4 * g5 + f5 * g4 + f6 * g3 + f7 * g2 + f8 * g1 + f9 * g0)
    = (f0 + 2 ^ 26 * f1 + 2 ^ 51 * f2 + 2 ^ 77 * f3 + 2 ^ 102 * f4 + 2 ^ 128 * f5 + 2 ^ 153 * f6 + 2 ^ 179 * f7 + 2 ^ 204 * f8 + 2 ^ 230 * f9)
      * (g0 + 2 ^ 26 * g1 + 2 ^ 51 * g2 + 2 ^ 77 * g3 + 2 ^ 102 * g4 + 2 ^ 128 * g5 + 2 ^ 153 * g6 + 2 ^ 179 * g7 + 2 ^ 204 * g8 + 2 ^ 230 * g9)
      - ((2 * f1 * g9 + f2 * g8 + 2 * f3 * g7 + f4 * g6 + 2 * f5 * g5 + f6 * g4 + 2 * f7 * g3 + f8 * g2 + 2 * f9 * g1) + 2 ^ 26 * (f2 * g9 + f3 * g8 + f4 * g7 + f5 * g6 + f6 * g5 + f7 * g4 + f8 * g3 + f9 * g2) + 2 ^ 51 * (2 * f3 * g9 + f4 * g8 + 2 * f5 * g7 + f6 * g6 + 2 * f7 * g5 + f8 * g4 + 2 * f9 * g3) + 2 ^ 77 * (f4 * g9 + f5 * g8 + f6 * g7 + f7 * g6 + f8 * g5 + f9 * g4) + 2 ^ 102 * (2 * f5 * g9 + f6 * g8 + 2 * f7 * g7 + f8 * g6 + 2 * f9 * g5) + 2 ^ 128 * (f6 * g9 + f7 * g8 + f8 * g7 + f9 * g6) + 2 ^ 153 * (2 * f7 * g9 + f8 * g8 + 2 * f9 * g7) + 2 ^ 179 * (f8 * g9 + f9 * g8) + 2 ^ 204 * (2 * f9 * g9)) * (2 ^ 255 - 19)"
  by algebra

definition fe_is :: "int \<Rightarrow> fe \<Rightarrow> int \<Rightarrow> bool" where
  "fe_is c f x \<longleftrightarrow> 0 \<le> c \<and> fe_ok c f \<and> fe_val f mod P25519 = x mod P25519"

lemma fe_is_cong: "fe_is c f x \<Longrightarrow> x mod P25519 = y mod P25519 \<Longrightarrow> fe_is c f y"
  by (simp add: fe_is_def)

lemma fe_is_mono: "fe_is c f x \<Longrightarrow> c \<le> d \<Longrightarrow> fe_is d f x"
  by (auto simp: fe_is_def fe_ok_def intro: below_mono)

text \<open>The product before the carries.\<close>

definition limbs_mul :: "fe \<Rightarrow> fe \<Rightarrow> int list" where
  "limbs_mul f g =
     [f ! 0 * g ! 0 + (2 * f ! 1) * (19 * g ! 9) + f ! 2 * (19 * g ! 8) + (2 * f ! 3) * (19 * g ! 7) + f ! 4 * (19 * g ! 6) + (2 * f ! 5) * (19 * g ! 5) + f ! 6 * (19 * g ! 4) + (2 * f ! 7) * (19 * g ! 3) + f ! 8 * (19 * g ! 2) + (2 * f ! 9) * (19 * g ! 1),
      f ! 0 * g ! 1 + f ! 1 * g ! 0 + f ! 2 * (19 * g ! 9) + f ! 3 * (19 * g ! 8) + f ! 4 * (19 * g ! 7) + f ! 5 * (19 * g ! 6) + f ! 6 * (19 * g ! 5) + f ! 7 * (19 * g ! 4) + f ! 8 * (19 * g ! 3) + f ! 9 * (19 * g ! 2),
      f ! 0 * g ! 2 + (2 * f ! 1) * g ! 1 + f ! 2 * g ! 0 + (2 * f ! 3) * (19 * g ! 9) + f ! 4 * (19 * g ! 8) + (2 * f ! 5) * (19 * g ! 7) + f ! 6 * (19 * g ! 6) + (2 * f ! 7) * (19 * g ! 5) + f ! 8 * (19 * g ! 4) + (2 * f ! 9) * (19 * g ! 3),
      f ! 0 * g ! 3 + f ! 1 * g ! 2 + f ! 2 * g ! 1 + f ! 3 * g ! 0 + f ! 4 * (19 * g ! 9) + f ! 5 * (19 * g ! 8) + f ! 6 * (19 * g ! 7) + f ! 7 * (19 * g ! 6) + f ! 8 * (19 * g ! 5) + f ! 9 * (19 * g ! 4),
      f ! 0 * g ! 4 + (2 * f ! 1) * g ! 3 + f ! 2 * g ! 2 + (2 * f ! 3) * g ! 1 + f ! 4 * g ! 0 + (2 * f ! 5) * (19 * g ! 9) + f ! 6 * (19 * g ! 8) + (2 * f ! 7) * (19 * g ! 7) + f ! 8 * (19 * g ! 6) + (2 * f ! 9) * (19 * g ! 5),
      f ! 0 * g ! 5 + f ! 1 * g ! 4 + f ! 2 * g ! 3 + f ! 3 * g ! 2 + f ! 4 * g ! 1 + f ! 5 * g ! 0 + f ! 6 * (19 * g ! 9) + f ! 7 * (19 * g ! 8) + f ! 8 * (19 * g ! 7) + f ! 9 * (19 * g ! 6),
      f ! 0 * g ! 6 + (2 * f ! 1) * g ! 5 + f ! 2 * g ! 4 + (2 * f ! 3) * g ! 3 + f ! 4 * g ! 2 + (2 * f ! 5) * g ! 1 + f ! 6 * g ! 0 + (2 * f ! 7) * (19 * g ! 9) + f ! 8 * (19 * g ! 8) + (2 * f ! 9) * (19 * g ! 7),
      f ! 0 * g ! 7 + f ! 1 * g ! 6 + f ! 2 * g ! 5 + f ! 3 * g ! 4 + f ! 4 * g ! 3 + f ! 5 * g ! 2 + f ! 6 * g ! 1 + f ! 7 * g ! 0 + f ! 8 * (19 * g ! 9) + f ! 9 * (19 * g ! 8),
      f ! 0 * g ! 8 + (2 * f ! 1) * g ! 7 + f ! 2 * g ! 6 + (2 * f ! 3) * g ! 5 + f ! 4 * g ! 4 + (2 * f ! 5) * g ! 3 + f ! 6 * g ! 2 + (2 * f ! 7) * g ! 1 + f ! 8 * g ! 0 + (2 * f ! 9) * (19 * g ! 9),
      f ! 0 * g ! 9 + f ! 1 * g ! 8 + f ! 2 * g ! 7 + f ! 3 * g ! 6 + f ! 4 * g ! 5 + f ! 5 * g ! 4 + f ! 6 * g ! 3 + f ! 7 * g ! 2 + f ! 8 * g ! 1 + f ! 9 * g ! 0]"

lemma fe_mul_limbs: "fe_mul f g = carry_mul (map i128 (limbs_mul f g))"
  unfolding fe_mul_def limbs_mul_def Let_def list.map ..

lemma limbs_mul_value: "\<exists>k. fe_val (limbs_mul f g) = fe_val f * fe_val g - k * P25519"
  unfolding fe_val_def limbs_mul_def nth_list10 P25519_def limb_product by blast

lemma fe_mul_value:
  assumes f: "fe_ok c f" and g: "fe_ok d g" and cd: "0 \<le> c" "0 \<le> d" "c * d \<le> 2 ^ 10"
  shows "fe_ok 1 (fe_mul f g)" "\<exists>k. fe_val (fe_mul f g) = fe_val f * fe_val g + k * P25519"
proof -
  have "c * 2 ^ 25 * (d * 2 ^ 25) \<le> 2 ^ 60" using cd(3) by simp
  then have p: "below (2 ^ 60) (f ! i * g ! j)" if "i < 10" "j < 10" for i j
    using below_mult [OF fe_ok_nth [OF f that(1)] fe_ok_nth [OF g that(2)]] by (rule below_mono [rotated])
  have t: "below (38 * 2 ^ 60) (f ! i * g ! j)" "below (38 * 2 ^ 60) (2 * f ! i * g ! j)"
    "below (38 * 2 ^ 60) (f ! i * (19 * g ! j))" "below (38 * 2 ^ 60) (2 * f ! i * (19 * g ! j))" if "i < 10" "j < 10" for i j
    using p [OF that] by (simp_all add: below_def abs_mult)
  have r: "below (2 ^ 69) (x0 + x1 + x2 + x3 + x4 + x5 + x6 + x7 + x8 + x9)"
    if "below (38 * 2 ^ 60) x0" "below (38 * 2 ^ 60) x1" "below (38 * 2 ^ 60) x2" "below (38 * 2 ^ 60) x3" "below (38 * 2 ^ 60) x4"
      "below (38 * 2 ^ 60) x5" "below (38 * 2 ^ 60) x6" "below (38 * 2 ^ 60) x7" "below (38 * 2 ^ 60) x8" "below (38 * 2 ^ 60) x9"
    for x0 x1 x2 x3 x4 x5 x6 x7 x8 x9
    by (rule below_mono [OF below_add [OF below_add [OF below_add [OF below_add [OF below_add [OF below_add [OF below_add [OF below_add [OF
      below_add [OF that(1,2)] that(3)] that(4)] that(5)] that(6)] that(7)] that(8)] that(9)] that(10)]]) simp
  have all: "list_all (below (2 ^ 69)) (limbs_mul f g)"
    unfolding limbs_mul_def list.pred_inject(2) by (intro conjI list.pred_inject(1); rule r; rule t; simp)
  then have h: "below (2 ^ 69) (limbs_mul f g ! i)" if "i < 10" for i
    using that by (simp add: list_all_length limbs_mul_def)
  have eq: "fe_mul f g = carry_mul (limbs_mul f g)"
    unfolding fe_mul_limbs using all by (auto simp: list_all_iff below_def intro!: arg_cong [of _ _ carry_mul] map_idI i128_id)
  show "fe_ok 1 (fe_mul f g)" unfolding eq by (rule carry_mul_correct(1)) (rule h)
  from carry_mul_correct(2) [of "limbs_mul f g", OF h] obtain k where "fe_val (fe_mul f g) = fe_val (limbs_mul f g) + k * P25519" unfolding eq by blast
  moreover from limbs_mul_value obtain l where "fe_val (limbs_mul f g) = fe_val f * fe_val g - l * P25519" by blast
  ultimately have "fe_val (fe_mul f g) = fe_val f * fe_val g + (k - l) * P25519" by (simp add: algebra_simps)
  then show "\<exists>k. fe_val (fe_mul f g) = fe_val f * fe_val g + k * P25519" ..
qed

lemma fe_is_mul: "fe_is c f x \<Longrightarrow> fe_is d g y \<Longrightarrow> c * d \<le> 2 ^ 10 \<Longrightarrow> fe_is 1 (fe_mul f g) (x * y)"
proof -
  assume a: "fe_is c f x" "fe_is d g y" "c * d \<le> 2 ^ 10"
  then have ok: "fe_ok c f" "fe_ok d g" "0 \<le> c" "0 \<le> d" and v: "fe_val f mod P25519 = x mod P25519" "fe_val g mod P25519 = y mod P25519"
    by (simp_all only: fe_is_def)
  from fe_mul_value(2) [OF ok a(3)] obtain k where "fe_val (fe_mul f g) = fe_val f * fe_val g + k * P25519" by blast
  then have "fe_val (fe_mul f g) mod P25519 = (x * y) mod P25519" using mod_mult_cong [OF v] by simp
  with fe_mul_value(1) [OF ok a(3)] show ?thesis by (simp add: fe_is_def)
qed

lemma fe_ok_nths: "fe_ok c [a0, a1, a2, a3, a4, a5, a6, a7, a8, a9] \<longleftrightarrow>
    (\<forall>x \<in> {a0, a1, a2, a3, a4, a5, a6, a7, a8, a9}. below (c * 2 ^ 25) x)"
  by (simp add: fe_ok_def)

lemma fe_add_value:
  assumes "fe_ok c f" "fe_ok d g" "c + d \<le> 2 ^ 30"
  shows "fe_ok (c + d) (fe_add f g)" "fe_val (fe_add f g) = fe_val f + fe_val g"
proof -
  have b: "below ((c + d) * 2 ^ 25) (f ! i + g ! i)" if "i < 10" for i
    using below_add [OF fe_ok_nth [OF assms(1) that] fe_ok_nth [OF assms(2) that]] by (simp add: distrib_right)
  moreover have "(c + d) * 2 ^ 25 \<le> 2 ^ 55" using assms(3) by simp
  ultimately have w: "i64 (f ! i + g ! i) = f ! i + g ! i" if "i < 10" for i using that by (intro i64_id) (force simp: below_def)
  show "fe_ok (c + d) (fe_add f g)" using b by (simp add: fe_add_def fe_ok_nths w)
  show "fe_val (fe_add f g) = fe_val f + fe_val g" by (simp add: fe_add_def fe_val_def w)
qed

lemma fe_sub_value:
  assumes "fe_ok c f" "fe_ok d g" "c + d \<le> 2 ^ 30"
  shows "fe_ok (c + d) (fe_sub f g)" "fe_val (fe_sub f g) = fe_val f - fe_val g"
proof -
  have "below (d * 2 ^ 25) (- g ! i)" if "i < 10" for i using fe_ok_nth [OF assms(2) that] by (simp add: below_def)
  then have b: "below ((c + d) * 2 ^ 25) (f ! i - g ! i)" if "i < 10" for i
    using below_add [OF fe_ok_nth [OF assms(1) that], of "d * 2 ^ 25" "- g ! i"] that by (simp add: distrib_right)
  moreover have "(c + d) * 2 ^ 25 \<le> 2 ^ 55" using assms(3) by simp
  ultimately have w: "i64 (f ! i - g ! i) = f ! i - g ! i" if "i < 10" for i using that by (intro i64_id) (force simp: below_def)
  show "fe_ok (c + d) (fe_sub f g)" using b by (simp add: fe_sub_def fe_ok_nths w)
  show "fe_val (fe_sub f g) = fe_val f - fe_val g" by (simp add: fe_sub_def fe_val_def w)
qed

lemma fe_is_add: "fe_is c f x \<Longrightarrow> fe_is d g y \<Longrightarrow> c + d \<le> 2 ^ 30 \<Longrightarrow> fe_is (c + d) (fe_add f g) (x + y)"
  using fe_add_value [of c f d g] mod_add_cong [of "fe_val f" P25519 x "fe_val g" y] by (simp only: fe_is_def add_nonneg_nonneg)

lemma fe_is_sub: "fe_is c f x \<Longrightarrow> fe_is d g y \<Longrightarrow> c + d \<le> 2 ^ 30 \<Longrightarrow> fe_is (c + d) (fe_sub f g) (x - y)"
  using fe_sub_value [of c f d g] mod_diff_cong [of "fe_val f" P25519 x "fe_val g" y] by (simp only: fe_is_def add_nonneg_nonneg)

lemma fe_is_mul121666: "fe_is c f x \<Longrightarrow> c \<le> 2 ^ 20 \<Longrightarrow> fe_is 1 (fe_mul121666 f) (x * 121666)"
proof -
  assume f: "fe_is c f x" and c: "c \<le> 2 ^ 20"
  have ok: "fe_ok c f" "length f = 10" using f by (simp_all add: fe_is_def fe_ok_def)
  have "c * 2 ^ 25 \<le> 2 ^ 45" using c by simp
  then have small: "\<bar>f ! i\<bar> \<le> 2 ^ 45" if "i < 10" for i using fe_ok_nth [OF ok(1) that] by (simp add: below_def)
  have "map (\<lambda>x. i128 (x * 121666)) f = map (\<lambda>x. x * 121666) f"
  proof (intro map_cong refl i128_id)
    fix x assume "x \<in> set f"
    then obtain i where "x = f ! i" "i < 10" using ok(2) by (auto simp: in_set_conv_nth)
    with small [of i] show "\<bar>x * 121666\<bar> < 2 ^ 127" by (simp add: abs_mult)
  qed
  then have eq: "fe_mul121666 f = carry_mul (map (\<lambda>x. x * 121666) f)" by (simp only: fe_mul121666_def)
  have h: "below (2 ^ 69) (map (\<lambda>x. x * 121666) f ! i)" if "i < 10" for i using small [OF that] that ok(2) by (simp add: below_def abs_mult)
  have v: "fe_val (map (\<lambda>x. x * 121666) f) = fe_val f * 121666" using ok(2) by (simp add: fe_val_def algebra_simps)
  obtain k where "fe_val (fe_mul121666 f) = fe_val f * 121666 + k * P25519" using carry_mul_correct(2) [OF h] unfolding eq v by blast
  moreover have "fe_val f * 121666 mod P25519 = x * 121666 mod P25519" using f by (intro mod_mult_cong) (simp_all add: fe_is_def)
  ultimately have "fe_val (fe_mul121666 f) mod P25519 = x * 121666 mod P25519" by simp
  with carry_mul_correct(1) [OF h] show ?thesis by (simp add: fe_is_def eq)
qed

section \<open>Inversion\<close>

lemma fe_is_square: "fe_is c f x \<Longrightarrow> c \<le> 2 ^ 5 \<Longrightarrow> fe_is 1 (fe_square f) (x ^ 2)"
proof -
  assume f: "fe_is c f x" "c \<le> 2 ^ 5"
  then have "c * c \<le> 2 ^ 5 * 2 ^ 5" by (intro mult_mono) (simp_all add: fe_is_def)
  then show ?thesis using fe_is_mul [OF f(1) f(1)] by (simp add: fe_square_def power2_eq_square)
qed

lemma fe_is_pow_square: "fe_is c f (x ^ n) \<Longrightarrow> c \<le> 2 ^ 5 \<Longrightarrow> fe_is 1 (fe_square f) (x ^ (2 * n))"
  using fe_is_square [of c f "x ^ n"] by (simp add: power_mult [symmetric] mult.commute)

lemma fe_is_pow_squares: "fe_is 1 f (x ^ n) \<Longrightarrow> fe_is 1 (fe_squares k f) (x ^ (2 ^ k * n))"
proof (induction k)
  case 0
  then show ?case by (simp add: fe_squares_def)
next
  case (Suc k)
  from fe_is_pow_square [OF Suc.IH [OF Suc.prems]] show ?case by (simp add: fe_squares_def mult.assoc)
qed

lemma fe_is_pow_mul: "fe_is c f (x ^ m) \<Longrightarrow> fe_is d g (x ^ n) \<Longrightarrow> c * d \<le> 2 ^ 10 \<Longrightarrow> fe_is 1 (fe_mul f g) (x ^ (m + n))"
  unfolding power_add by (rule fe_is_mul)

text \<open>The common part of the exponentiations: from the power 31 to the power \<open>2\<^sup>2\<^sup>5\<^sup>0 - 1\<close>.\<close>

definition fe_chain :: "fe \<Rightarrow> fe" where
  "fe_chain u =
     (let v1 = fe_mul (fe_squares 4 (fe_square u)) u; v2 = fe_mul (fe_squares 9 (fe_square v1)) v1;
          w2 = fe_mul (fe_squares 19 (fe_square v2)) v2; w1 = fe_mul (fe_squares 9 (fe_square w2)) v1;
          y2 = fe_mul (fe_squares 49 (fe_square w1)) w1; z2 = fe_mul (fe_squares 99 (fe_square y2)) y2
      in fe_mul (fe_squares 49 (fe_square z2)) w1)"

lemma fe_is_chain:
  assumes "fe_is 1 u (x ^ 31)"
  shows "fe_is 1 (fe_chain u) (x ^ (2 ^ 250 - 1))"
proof -
  have one: "1 * 1 \<le> (2 ^ 10 :: int)" "1 \<le> (2 ^ 5 :: int)" by simp_all
  note step = fe_is_pow_mul [OF fe_is_pow_squares [OF fe_is_pow_square [OF _ one(2)]] _ one(1)]
  define v1 where "v1 = fe_mul (fe_squares 4 (fe_square u)) u"
  define v2 where "v2 = fe_mul (fe_squares 9 (fe_square v1)) v1"
  define w2 where "w2 = fe_mul (fe_squares 19 (fe_square v2)) v2"
  define w1 where "w1 = fe_mul (fe_squares 9 (fe_square w2)) v1"
  define y2 where "y2 = fe_mul (fe_squares 49 (fe_square w1)) w1"
  define z2 where "z2 = fe_mul (fe_squares 99 (fe_square y2)) y2"
  have v1: "fe_is 1 v1 (x ^ (2 ^ 10 - 1))" using step [OF assms assms, of 4] by (simp add: v1_def)
  have v2: "fe_is 1 v2 (x ^ (2 ^ 20 - 1))" using step [OF v1 v1, of 9] by (simp add: v2_def)
  have w2: "fe_is 1 w2 (x ^ (2 ^ 40 - 1))" using step [OF v2 v2, of 19] by (simp add: w2_def)
  have w1: "fe_is 1 w1 (x ^ (2 ^ 50 - 1))" using step [OF w2 v1, of 9] by (simp add: w1_def)
  have y2: "fe_is 1 y2 (x ^ (2 ^ 100 - 1))" using step [OF w1 w1, of 49] by (simp add: y2_def)
  have z2: "fe_is 1 z2 (x ^ (2 ^ 200 - 1))" using step [OF y2 y2, of 99] by (simp add: z2_def)
  have "fe_chain u = fe_mul (fe_squares 49 (fe_square z2)) w1"
    unfolding fe_chain_def Let_def z2_def y2_def w1_def w2_def v2_def v1_def ..
  with step [OF z2 w1, of 49] show ?thesis by simp
qed

lemma fe_is_invert:
  assumes "fe_is c a x" "c \<le> 2 ^ 5"
  shows "fe_is 1 (fe_invert a) (x ^ (2 ^ 255 - 21))"
proof -
  have c: "c * 1 \<le> 2 ^ 10" "1 * 1 \<le> (2 ^ 10 :: int)" "1 \<le> (2 ^ 5 :: int)" using assms by simp_all
  note M = fe_is_pow_mul [OF _ _ c(2)] and S = fe_is_pow_square [OF _ c(3)]
  have a: "fe_is c a (x ^ 1)" using assms(1) by simp
  define t0 t1 u0 u1 where "t0 = fe_square a" and "t1 = fe_mul a (fe_square (fe_square t0))"
    and "u0 = fe_mul t0 t1" and "u1 = fe_mul t1 (fe_square u0)"
  have t0: "fe_is 1 t0 (x ^ (2 * 1))" unfolding t0_def by (rule fe_is_pow_square [OF a assms(2)])
  have t1: "fe_is 1 t1 (x ^ (1 + 2 * (2 * (2 * 1))))" unfolding t1_def by (rule fe_is_pow_mul [OF a S [OF S [OF t0]] c(1)])
  have u0: "fe_is 1 u0 (x ^ 11)" using M [OF t0 t1] by (simp add: u0_def)
  have u1: "fe_is 1 u1 (x ^ 31)" using M [OF t1 S [OF u0]] by (simp add: u1_def)
  have e: "11 + 2 * (2 * (2 * (2 * (2 * (2 ^ 250 - 1))))) = (2 ^ 255 - 21 :: nat)" by simp
  have "fe_invert a = fe_mul u0 (fe_square (fe_square (fe_square (fe_square (fe_square (fe_chain u1))))))"
    unfolding fe_invert_def fe_chain_def Let_def u1_def u0_def t1_def t0_def ..
  with M [OF u0 S [OF S [OF S [OF S [OF S [OF fe_is_chain [OF u1]]]]]]] show ?thesis unfolding e by simp
qed

section \<open>Swapping\<close>

lemma map2_xor_cancel: "length xs = length ys \<Longrightarrow>
    map2 (\<lambda>x t. x XOR t) xs (map2 (\<lambda>x y. - 1 AND (x XOR y)) xs ys) = (ys :: int list)
  \<and> map2 (\<lambda>y t. y XOR t) ys (map2 (\<lambda>x y. - 1 AND (x XOR y)) xs ys) = xs"
  by (induction xs ys rule: list_induct2) (simp_all add: xor.assoc [symmetric], simp add: xor.commute xor.left_commute)

lemma map2_xor_zero: "length xs = length ys \<Longrightarrow>
    map2 (\<lambda>x t. x XOR t) xs (map2 (\<lambda>x y. 0 AND (x XOR y)) xs ys) = (xs :: int list)
  \<and> map2 (\<lambda>y t. y XOR t) ys (map2 (\<lambda>x y. 0 AND (x XOR y)) xs ys) = ys"
  by (induction xs ys rule: list_induct2) simp_all

lemma fe_cswap_eq: "length a = length b \<Longrightarrow> fe_cswap a b 0 = (a, b)" "length a = length b \<Longrightarrow> fe_cswap a b 1 = (b, a)"
  using map2_xor_cancel [of a b] map2_xor_zero [of a b] by (simp_all add: fe_cswap_def i64_id Let_def)

section \<open>From bytes\<close>

lemma le_nat_drop: "le_nat bs div 256 ^ i = le_nat (drop i bs)"
proof (induction i arbitrary: bs)
  case (Suc i)
  show ?case
  proof (cases bs)
    case (Cons b cs)
    have "unat b < 256" using unat_lt2p [of b] by simp
    then have "le_nat bs div 256 ^ Suc i = le_nat cs div 256 ^ i" by (simp add: Cons div_mult2_eq)
    with Suc Cons show ?thesis by simp
  qed simp
qed simp

lemma drop_4: "i + 3 < length s \<Longrightarrow> drop i s = s ! i # s ! (i + 1) # s ! (i + 2) # s ! (i + 3) # drop (i + 4) s"
  by (simp add: Cons_nth_drop_Suc [symmetric] numeral_eq_Suc)

lemma or_int_disjoint: "0 \<le> a \<Longrightarrow> a < 2 ^ s \<Longrightarrow> a OR push_bit s b = a + 2 ^ s * (b :: int)"
proof -
  assume a: "0 \<le> a" "a < 2 ^ s"
  then have "take_bit s a = a" by (simp add: take_bit_int_eq_self)
  then have "a AND push_bit s b = 0" by (metis and.assoc and.commute and_zero_eq bit.conj_zero_left push_bit_and take_bit_and take_bit_push_bit diff_self_eq_0 push_bit_take_bit take_bit_0 take_bit_eq_mask)
  then have "a OR push_bit s b = a + push_bit s b" by (simp add: disjunctive_add_eq_or)
  then show ?thesis by (simp add: push_bit_eq_mult mult.commute)
qed

lemma load_4_eq:
  assumes "i + 3 < length s"
  shows "load_4 s i = take_bit 32 (drop_bit (8 * i) (int (le_nat s)))"
proof -
  let ?a = "uint (s ! i)" and ?b = "uint (s ! (i + 1))" and ?c = "uint (s ! (i + 2))" and ?d = "uint (s ! (i + 3))"
  have b: "0 \<le> ?a" "?a < 2 ^ 8" "0 \<le> ?b" "?b < 2 ^ 8" "0 \<le> ?c" "?c < 2 ^ 8" "0 \<le> ?d" "?d < 2 ^ 8"
    using uint_lt2p [of "s ! i"] uint_lt2p [of "s ! (i + 1)"] uint_lt2p [of "s ! (i + 2)"] uint_lt2p [of "s ! (i + 3)"] by simp_all
  have "load_4 s i = ?a OR push_bit 8 (?b OR push_bit 8 (?c OR push_bit 8 ?d))"
    by (simp add: load_4_def push_bit_or or.assoc)
  also have "\<dots> = ?a + 256 * (?b + 256 * (?c + 256 * ?d))" using b by (simp add: or_int_disjoint)
  finally have l: "load_4 s i = ?a + 256 * (?b + 256 * (?c + 256 * ?d))" .
  have "drop_bit (8 * i) (int (le_nat s)) = int (le_nat (drop i s))"
    by (simp add: drop_bit_eq_div le_nat_drop [symmetric] power_mult zdiv_int)
  also have "\<dots> = ?a + 256 * (?b + 256 * (?c + 256 * (?d + 256 * int (le_nat (drop (i + 4) s)))))"
    by (subst drop_4 [OF assms]) simp
  finally have "drop_bit (8 * i) (int (le_nat s)) = ?a + 256 * (?b + 256 * (?c + 256 * ?d)) + 2 ^ 32 * int (le_nat (drop (i + 4) s))" by simp
  moreover have "?a + 256 * (?b + 256 * (?c + 256 * ?d)) < 2 ^ 32" using b by simp
  ultimately show ?thesis using b by (simp add: l take_bit_eq_mod)
qed

lemma load_3_eq:
  assumes "i + 3 < length s"
  shows "load_3 s i = take_bit 24 (drop_bit (8 * i) (int (le_nat s)))"
proof -
  let ?a = "uint (s ! i)" and ?b = "uint (s ! (i + 1))" and ?c = "uint (s ! (i + 2))"
  have b: "0 \<le> ?a" "?a < 2 ^ 8" "0 \<le> ?b" "?b < 2 ^ 8" "0 \<le> ?c" "?c < 2 ^ 8" 
    using uint_lt2p [of "s ! i"] uint_lt2p [of "s ! (i + 1)"] uint_lt2p [of "s ! (i + 2)"] by simp_all
  have l: "load_3 s i OR push_bit 24 (uint (s ! (i + 3))) = load_4 s i" by (simp add: load_3_def load_4_def or.assoc)
  have "load_3 s i = ?a OR push_bit 8 (?b OR push_bit 8 ?c)" by (simp add: load_3_def push_bit_or or.assoc)
  also have "\<dots> = ?a + 256 * (?b + 256 * ?c)" using b by (simp add: or_int_disjoint)
  finally have "load_3 s i = ?a + 256 * (?b + 256 * ?c)" .
  then have "take_bit 24 (load_3 s i) = load_3 s i" using b by (simp add: take_bit_int_eq_self)
  then have "load_3 s i = take_bit 24 (load_3 s i OR push_bit 24 (uint (s ! (i + 3))))" by (simp add: take_bit_push_bit)
  then show ?thesis unfolding l load_4_eq [OF assms] by (simp add: take_bit_take_bit)
qed

lemma mask_limb:
  assumes "k + w \<le> n" "M = mask w"
  shows "drop_bit k (take_bit n (drop_bit e X)) AND M = take_bit w (drop_bit (e + k) (X :: int))"
  unfolding assms(2) take_bit_eq_mask [symmetric] drop_bit_take_bit take_bit_take_bit drop_bit_drop_bit
  using assms(1) by (simp add: add.commute min_absorb1 le_diff_conv2)

lemma take_bit_split: "take_bit n X + 2 ^ n * take_bit w (drop_bit n X) = take_bit (n + w) (X :: int)"
  by (simp add: take_bit_eq_mod drop_bit_eq_div power_add zmod_zmult2_eq)

text \<open>Nine limbs are the low 230 bits, and the tenth, read from three bytes, has 18 bits: the last byte is not read.\<close>

lemma fe_from_bytes_limbs:
  assumes "length s = 32"
  shows "fe_from_bytes s = map (\<lambda>(w, e). take_bit w (drop_bit e (int (le_nat s))))
    [(26, 0), (25, 26), (26, 51), (25, 77), (26, 102), (25, 128), (26, 153), (25, 179), (26, 204), (18, 230)]"
proof -
  have 1: "load_4 s i AND 0x3ffffff = take_bit 26 (drop_bit (8 * i) (int (le_nat s)))" "load_4 s i AND 0x1ffffff = take_bit 25 (drop_bit (8 * i) (int (le_nat s)))"
    if "i + 3 < length s" for i
    using mask_limb [of 0 26 32 "0x3ffffff" "8 * i"] mask_limb [of 0 25 32 "0x1ffffff" "8 * i"] by (simp_all add: load_4_eq [OF that] mask_eq_exp_minus_1)
  have 2: "drop_bit k (load_4 s i) AND 0x3ffffff = take_bit 26 (drop_bit (8 * i + k) (int (le_nat s)))" if "i + 3 < length s" "k \<le> 6" for i k
    using mask_limb [of k 26 32 "0x3ffffff" "8 * i"] that(2) by (simp add: load_4_eq [OF that(1)] mask_eq_exp_minus_1)
  have 3: "drop_bit k (load_4 s i) AND 0x1ffffff = take_bit 25 (drop_bit (8 * i + k) (int (le_nat s)))" if "i + 3 < length s" "k \<le> 7" for i k
    using mask_limb [of k 25 32 "0x1ffffff" "8 * i"] that(2) by (simp add: load_4_eq [OF that(1)] mask_eq_exp_minus_1)
  have 4: "drop_bit 6 (load_3 s 28) AND 0x1ffffff = take_bit 18 (drop_bit 230 (int (le_nat s)))"
  proof -
    have "drop_bit 6 (load_3 s 28) AND mask 25 = take_bit 25 (take_bit 18 (drop_bit 230 (int (le_nat s))))"
      using assms by (simp add: load_3_eq take_bit_eq_mask [symmetric] drop_bit_take_bit)
    then show ?thesis by (simp add: mask_eq_exp_minus_1 take_bit_take_bit)
  qed
  show ?thesis using assms by (simp add: fe_from_bytes_def 1 2 3 4)
qed

lemma limb_small: "w \<le> 26 \<Longrightarrow> below (2 * 2 ^ 25) (take_bit w (X :: int))"
proof -
  assume "w \<le> 26"
  have "take_bit w X < 2 ^ w" by (rule take_bit_int_less_exp)
  also have "(2 :: int) ^ w \<le> 2 ^ 26" using \<open>w \<le> 26\<close> by (intro power_increasing) auto
  finally show ?thesis by (simp add: below_def)
qed

lemma fe_is_from_bytes:
  assumes "length s = 32"
  shows "fe_is 2 (fe_from_bytes s) (int (le_nat s) mod 2 ^ 248)"
proof -
  let ?N = "int (le_nat s)"
  have ok: "fe_ok 2 (fe_from_bytes s)"
    unfolding fe_from_bytes_limbs [OF assms] using limb_small by (simp add: fe_ok_def del: power_numeral)
  have "fe_val (fe_from_bytes s) = take_bit 248 ?N"
    unfolding fe_from_bytes_limbs [OF assms] fe_val_def list.map prod.case nth_list10
    using take_bit_split [of 0 ?N 26] take_bit_split [of 26 ?N 25] take_bit_split [of 51 ?N 26] take_bit_split [of 77 ?N 25] take_bit_split [of 102 ?N 26] take_bit_split [of 128 ?N 25] take_bit_split [of 153 ?N 26] take_bit_split [of 179 ?N 25] take_bit_split [of 204 ?N 26] take_bit_split [of 230 ?N 18] by simp
  with ok show ?thesis by (simp add: fe_is_def take_bit_eq_mod)
qed

section \<open>To bytes\<close>

text \<open>The bytes of ten limbs that are in their ranges.\<close>

lemma nat_bytes_word: "0 \<le> R \<Longrightarrow> nat_bytes n (nat R) = map (\<lambda>k. word_of_int (drop_bit (8 * k) R)) [0..<n]"
proof (induction n arbitrary: R)
  case (Suc n)
  have "of_nat (nat R mod 256) = (word_of_int R :: byte)"
    using Suc.prems by (simp add: word_of_int_eq_iff take_bit_eq_mod nat_mod_as_int)
  moreover have "nat R div 256 = nat (drop_bit 8 R)" using Suc.prems by (simp add: drop_bit_eq_div nat_div_distrib)
  moreover have "0 \<le> drop_bit 8 R" using Suc.prems by simp
  ultimately show ?case using Suc.IH [of "drop_bit 8 R"] by (simp add: upt_conv_Cons map_Suc_upt [symmetric] drop_bit_drop_bit add.commute del: upt_Suc)
qed simp

lemma byte_cong: "(a :: int) mod 256 = b mod 256 \<Longrightarrow> (word_of_int a :: byte) = word_of_int b"
  by (simp add: word_of_int_eq_iff take_bit_eq_mod)

lemma byte_inside:
  assumes "drop_bit e R = g + 2 ^ w * T" "s + 8 \<le> w" "n = e + s"
  shows "(word_of_int (drop_bit s g) :: byte) = word_of_int (drop_bit n (R :: int))"
proof -
  have p: "(2 :: int) ^ w = 2 ^ s * (256 * 2 ^ (w - s - 8))" 
    using power_add [of "2 :: int" s "8 + (w - s - 8)"] power_add [of "2 :: int" 8 "w - s - 8"] assms(2) by simp
  have "drop_bit n R = drop_bit s (g + 2 ^ w * T)" unfolding assms(3) assms(1) [symmetric] by (simp add: add.commute)
  also have "g + 2 ^ w * T = g + 256 * (2 ^ (w - s - 8) * T) * 2 ^ s" unfolding p by (simp only: mult_ac)
  also have "drop_bit s (g + 256 * (2 ^ (w - s - 8) * T) * 2 ^ s) = drop_bit s g + 256 * (2 ^ (w - s - 8) * T)"
    unfolding drop_bit_eq_div by (subst div_mult_self1) simp_all
  finally have d: "drop_bit n R = drop_bit s g + 256 * (2 ^ (w - s - 8) * T)" .
  show ?thesis unfolding d by (rule byte_cong) simp
qed

lemma byte_across:
  assumes "drop_bit e R = g + 2 ^ w * (g' + 2 ^ v * T)" "0 \<le> g" "g < 2 ^ w" "s \<le> w" "w \<le> s + 8" "m = w - s" "8 \<le> m + v" "n = e + s"
  shows "(word_of_int (drop_bit s g OR push_bit m g') :: byte) = word_of_int (drop_bit n (R :: int))"
proof -
  have p: "(2 :: int) ^ w = 2 ^ s * 2 ^ m" "(2 :: int) ^ m * 2 ^ v = 256 * 2 ^ (m + v - 8)"
    using power_add [of "2 :: int" s m] power_add [of "2 :: int" m v] power_add [of "2 :: int" 8 "m + v - 8"] assms(4,6,7) by simp_all
  have "2 ^ s * (g div 2 ^ s) < 2 ^ s * 2 ^ m"
    using assms(3) mult_div_mod_eq [of "2 ^ s" g] pos_mod_sign [of "2 ^ s" g, OF zero_less_power [OF zero_less_numeral]] unfolding p(1) by linarith
  then have "g div 2 ^ s < 2 ^ m" by simp
  then have or: "drop_bit s g OR push_bit m g' = drop_bit s g + 2 ^ m * g'" using assms(2) by (intro or_int_disjoint) (simp_all add: drop_bit_eq_div pos_imp_zdiv_nonneg_iff)
  have "drop_bit n R = drop_bit s (g + 2 ^ w * (g' + 2 ^ v * T))" unfolding assms(8) assms(1) [symmetric] by (simp add: add.commute)
  also have "g + 2 ^ w * (g' + 2 ^ v * T) = g + 2 ^ m * (g' + 2 ^ v * T) * 2 ^ s" unfolding p(1) by (simp only: mult_ac)
  also have "drop_bit s (g + 2 ^ m * (g' + 2 ^ v * T) * 2 ^ s) = drop_bit s g + 2 ^ m * (g' + 2 ^ v * T)"
    unfolding drop_bit_eq_div by (subst div_mult_self1) simp_all
  also have "\<dots> = drop_bit s g + 2 ^ m * g' + 256 * (2 ^ (m + v - 8) * T)" using p(2) by (simp add: distrib_left mult.assoc [symmetric])
  finally have d: "drop_bit n R = drop_bit s g + 2 ^ m * g' + 256 * (2 ^ (m + v - 8) * T)" .
  show ?thesis unfolding d or by (rule byte_cong) simp
qed

lemma drop_limb: "0 \<le> g \<Longrightarrow> g < 2 ^ w \<Longrightarrow> drop_bit e R = g + 2 ^ w * T \<Longrightarrow> drop_bit (e + w) R = (T :: int)"
  by (simp add: drop_bit_eq_div power_add zdiv_zmult2_eq)

lemma limb_bytes:
  assumes "0 \<le> h0" "h0 < 2 ^ 26" "0 \<le> h1" "h1 < 2 ^ 25" "0 \<le> h2" "h2 < 2 ^ 26" "0 \<le> h3" "h3 < 2 ^ 25" "0 \<le> h4" "h4 < 2 ^ 26"
    "0 \<le> h5" "h5 < 2 ^ 25" "0 \<le> h6" "h6 < 2 ^ 26" "0 \<le> h7" "h7 < 2 ^ 25" "0 \<le> h8" "h8 < 2 ^ 26" "0 \<le> h9" "h9 < 2 ^ 25"
    and R: "R = h0 + 2 ^ 26 * h1 + 2 ^ 51 * h2 + 2 ^ 77 * h3 + 2 ^ 102 * h4 + 2 ^ 128 * h5 + 2 ^ 153 * h6 + 2 ^ 179 * h7 + 2 ^ 204 * h8 + 2 ^ 230 * h9"
  shows "map word_of_int
     [h0, drop_bit 8 h0, drop_bit 16 h0, drop_bit 24 h0 OR push_bit 2 h1,
      drop_bit 6 h1, drop_bit 14 h1, drop_bit 22 h1 OR push_bit 3 h2, drop_bit 5 h2,
      drop_bit 13 h2, drop_bit 21 h2 OR push_bit 5 h3, drop_bit 3 h3, drop_bit 11 h3,
      drop_bit 19 h3 OR push_bit 6 h4, drop_bit 2 h4, drop_bit 10 h4, drop_bit 18 h4,
      h5, drop_bit 8 h5, drop_bit 16 h5, drop_bit 24 h5 OR push_bit 1 h6,
      drop_bit 7 h6, drop_bit 15 h6, drop_bit 23 h6 OR push_bit 3 h7, drop_bit 5 h7,
      drop_bit 13 h7, drop_bit 21 h7 OR push_bit 4 h8, drop_bit 4 h8, drop_bit 12 h8,
      drop_bit 20 h8 OR push_bit 6 h9, drop_bit 2 h9, drop_bit 10 h9, drop_bit 18 h9] = nat_bytes 32 (nat R)"
proof -
  define T9 where "T9 = h9 + 2 ^ 26 * 0"
  define T8 where "T8 = h8 + 2 ^ 26 * T9"
  define T7 where "T7 = h7 + 2 ^ 25 * T8"
  define T6 where "T6 = h6 + 2 ^ 26 * T7"
  define T5 where "T5 = h5 + 2 ^ 25 * T6"
  define T4 where "T4 = h4 + 2 ^ 26 * T5"
  define T3 where "T3 = h3 + 2 ^ 25 * T4"
  define T2 where "T2 = h2 + 2 ^ 26 * T3"
  define T1 where "T1 = h1 + 2 ^ 25 * T2"
  define T0 where "T0 = h0 + 2 ^ 26 * T1"
  have d0: "drop_bit 0 R = T0" unfolding R T0_def T1_def T2_def T3_def T4_def T5_def T6_def T7_def T8_def T9_def by simp
  have d1: "drop_bit 26 R = T1" using drop_limb [OF assms(1,2) d0 [unfolded T0_def]] by simp
  have d2: "drop_bit 51 R = T2" using drop_limb [OF assms(3,4) d1 [unfolded T1_def]] by simp
  have d3: "drop_bit 77 R = T3" using drop_limb [OF assms(5,6) d2 [unfolded T2_def]] by simp
  have d4: "drop_bit 102 R = T4" using drop_limb [OF assms(7,8) d3 [unfolded T3_def]] by simp
  have d5: "drop_bit 128 R = T5" using drop_limb [OF assms(9,10) d4 [unfolded T4_def]] by simp
  have d6: "drop_bit 153 R = T6" using drop_limb [OF assms(11,12) d5 [unfolded T5_def]] by simp
  have d7: "drop_bit 179 R = T7" using drop_limb [OF assms(13,14) d6 [unfolded T6_def]] by simp
  have d8: "drop_bit 204 R = T8" using drop_limb [OF assms(15,16) d7 [unfolded T7_def]] by simp
  have d9: "drop_bit 230 R = T9" using drop_limb [OF assms(17,18) d8 [unfolded T8_def]] by simp
  note inside = byte_inside [OF d0 [unfolded T0_def]] byte_inside [OF d1 [unfolded T1_def]] byte_inside [OF d2 [unfolded T2_def]] byte_inside [OF d3 [unfolded T3_def]] byte_inside [OF d4 [unfolded T4_def]] byte_inside [OF d5 [unfolded T5_def]] byte_inside [OF d6 [unfolded T6_def]] byte_inside [OF d7 [unfolded T7_def]] byte_inside [OF d8 [unfolded T8_def]] byte_inside [OF d9 [unfolded T9_def]]
  note across = byte_across [OF d0 [unfolded T0_def T1_def] assms(1,2)] byte_across [OF d1 [unfolded T1_def T2_def] assms(3,4)] byte_across [OF d2 [unfolded T2_def T3_def] assms(5,6)] byte_across [OF d3 [unfolded T3_def T4_def] assms(7,8)] byte_across [OF d5 [unfolded T5_def T6_def] assms(11,12)] byte_across [OF d6 [unfolded T6_def T7_def] assms(13,14)] byte_across [OF d7 [unfolded T7_def T8_def] assms(15,16)] byte_across [OF d8 [unfolded T8_def T9_def] assms(17,18)]
  note start = byte_inside [where s = 0, OF d0 [unfolded T0_def], unfolded drop_bit_0 id_apply] byte_inside [where s = 0, OF d5 [unfolded T5_def], unfolded drop_bit_0 id_apply]
  have nonneg: "0 \<le> R" using assms by simp
  have upt: "[0..<32] = [0, 1, 2, 3, 4, 5, 6, 7, 8, 9, 10, 11, 12, 13, 14, 15, 16, 17, 18, 19, 20, 21, 22, 23, 24, 25, 26, 27, 28, 29, 30, 31 :: nat]" by (simp add: upt_rec)
  show ?thesis
    unfolding nat_bytes_word [OF nonneg] upt list.map list.inject
    by (intro conjI refl; (rule inside | rule across | rule start); simp)
qed

section \<open>Reduction\<close>

lemma quotient_limb_ok:
  assumes "below (2 ^ 40) h" "below (2 ^ 42) q" "w = 26 \<or> w = 25"
  shows "\<exists>s. h + q = s + 2 ^ w * quotient_limb w h q \<and> 0 \<le> s \<and> s < 2 ^ w" "below (2 ^ 42) (quotient_limb w h q)"
proof -
  have e: "quotient_limb w h q = (h + q) div 2 ^ w" using assms(1,2) by (simp add: quotient_limb_def below_def i64_id drop_bit_eq_div)
  show "\<exists>s. h + q = s + 2 ^ w * quotient_limb w h q \<and> 0 \<le> s \<and> s < 2 ^ w"
    unfolding e by (rule exI [of _ "(h + q) mod 2 ^ w"]) simp
  have "h + q = 2 ^ w * ((h + q) div 2 ^ w) + (h + q) mod 2 ^ w" "0 \<le> (h + q) mod 2 ^ w" "(h + q) mod 2 ^ w < 2 ^ w" by simp_all
  with assms show "below (2 ^ 42) (quotient_limb w h q)" unfolding e below_def abs_le_iff by auto
qed

lemma carry_pass_ok:
  assumes "below (2 ^ 42) h" "below (2 ^ 40) h'" "w = 26 \<or> w = 25"
  obtains g c where "carry_pass w h h' = (g, h' + c)" "h = g + 2 ^ w * c" "0 \<le> g" "g < 2 ^ w" "below (2 ^ 42) (h' + c)"
proof (rule that [of "h mod 2 ^ w" "h div 2 ^ w"])
  have m: "h = 2 ^ w * (h div 2 ^ w) + h mod 2 ^ w" "0 \<le> h mod 2 ^ w" "h mod 2 ^ w < 2 ^ w" by simp_all
  then have c: "below (2 ^ 41) (h div 2 ^ w)" using assms(1,3) unfolding below_def abs_le_iff by auto
  have g: "h - push_bit w (h div 2 ^ w) = h mod 2 ^ w" by (simp add: push_bit_eq_mult minus_div_mult_eq_mod)
  have "\<bar>h mod 2 ^ w\<bar> < 2 ^ 63" using m(2,3) assms(3) by auto
  with c g assms(2) show "carry_pass w h h' = (h mod 2 ^ w, h' + h div 2 ^ w)"
    by (simp add: carry_pass_def Let_def drop_bit_eq_div i64_id below_def)
  show "below (2 ^ 42) (h' + h div 2 ^ w)" using c assms(2) by (simp add: below_def)
qed simp_all

text \<open>The estimate is the quotient by the prime.\<close>

lemma quotient_exact:
  assumes "V + q0 = S + 2 ^ 255 * q" "0 \<le> S" "S < 2 ^ 255" "\<bar>19 * V - P25519 * q0\<bar> < P25519"
  shows "q = V div P25519"
proof -
  define r k where "r = V mod P25519" and "k = V div P25519"
  define X where "X = r - 19 * k + q0"
  have V: "V = k * P25519 + r" "0 \<le> r" "r < P25519" by (simp_all add: r_def k_def P25519_def)
  have X: "V + q0 = 2 ^ 255 * k + X" unfolding X_def V(1) P25519_def by (simp add: algebra_simps)
  have "P25519 * X = 2 ^ 255 * r - (19 * V - P25519 * q0)" unfolding X_def V(1) P25519_def by (simp add: algebra_simps)
  then have "- P25519 < P25519 * X" "P25519 * X < P25519 * 2 ^ 255" using assms(4) V(2,3) unfolding P25519_def abs_less_iff by simp_all
  then have "0 \<le> X" "X < 2 ^ 255" unfolding P25519_def by simp_all
  then have "(V + q0) div 2 ^ 255 = k" unfolding X by simp
  moreover have "(V + q0) div 2 ^ 255 = q" unfolding assms(1) using assms(2,3) by simp
  ultimately have "q = k" by simp
  then show ?thesis unfolding k_def .
qed

lemma fe_quotient_eq:
  assumes "fe_ok c f" "c \<le> 2 ^ 10"
  shows "fe_quotient f = fe_val f div P25519" "below (2 ^ 37) (fe_quotient f)"
proof -
  have "c * 2 ^ 25 \<le> 2 ^ 35" using assms(2) by simp
  then have b: "below (2 ^ 35) (f ! i)" if "i < 10" for i using fe_ok_nth [OF assms(1) that] by (rule below_mono [rotated])
  have b40: "below (2 ^ 40) (f ! i)" if "i < 10" for i using b [OF that] by (rule below_mono) simp
  define q where "q = (19 * f ! 9 + 2 ^ 24) div 2 ^ 25"
  have q: "19 * f ! 9 + 2 ^ 24 = 2 ^ 25 * q + (19 * f ! 9 + 2 ^ 24) mod 2 ^ 25" "0 \<le> (19 * f ! 9 + 2 ^ 24) mod 2 ^ 25"
    "(19 * f ! 9 + 2 ^ 24) mod 2 ^ 25 < 2 ^ 25" by (simp_all add: q_def)
  have q9: "below (2 ^ 42) q" using q b [of 9] by (simp add: below_def)
  define q0 where "q0 = quotient_limb 26 (f ! 0) q"
  define q1 where "q1 = quotient_limb 25 (f ! 1) q0"
  define q2 where "q2 = quotient_limb 26 (f ! 2) q1"
  define q3 where "q3 = quotient_limb 25 (f ! 3) q2"
  define q4 where "q4 = quotient_limb 26 (f ! 4) q3"
  define q5 where "q5 = quotient_limb 25 (f ! 5) q4"
  define q6 where "q6 = quotient_limb 26 (f ! 6) q5"
  define q7 where "q7 = quotient_limb 25 (f ! 7) q6"
  define q8 where "q8 = quotient_limb 26 (f ! 8) q7"
  define q9 where "q9 = quotient_limb 25 (f ! 9) q8"
  obtain s0 where s0: "f ! 0 + q = s0 + 2 ^ 26 * q0" "0 \<le> s0" "s0 < 2 ^ 26"
    using quotient_limb_ok(1) [OF b40 [of 0] q9, of 26] unfolding q0_def by auto
  have b0: "below (2 ^ 42) q0" using quotient_limb_ok(2) [OF b40 [of 0] q9, of 26] unfolding q0_def by simp
  obtain s1 where s1: "f ! 1 + q0 = s1 + 2 ^ 25 * q1" "0 \<le> s1" "s1 < 2 ^ 25"
    using quotient_limb_ok(1) [OF b40 [of 1] b0, of 25] unfolding q1_def by auto
  have b1: "below (2 ^ 42) q1" using quotient_limb_ok(2) [OF b40 [of 1] b0, of 25] unfolding q1_def by simp
  obtain s2 where s2: "f ! 2 + q1 = s2 + 2 ^ 26 * q2" "0 \<le> s2" "s2 < 2 ^ 26"
    using quotient_limb_ok(1) [OF b40 [of 2] b1, of 26] unfolding q2_def by auto
  have b2: "below (2 ^ 42) q2" using quotient_limb_ok(2) [OF b40 [of 2] b1, of 26] unfolding q2_def by simp
  obtain s3 where s3: "f ! 3 + q2 = s3 + 2 ^ 25 * q3" "0 \<le> s3" "s3 < 2 ^ 25"
    using quotient_limb_ok(1) [OF b40 [of 3] b2, of 25] unfolding q3_def by auto
  have b3: "below (2 ^ 42) q3" using quotient_limb_ok(2) [OF b40 [of 3] b2, of 25] unfolding q3_def by simp
  obtain s4 where s4: "f ! 4 + q3 = s4 + 2 ^ 26 * q4" "0 \<le> s4" "s4 < 2 ^ 26"
    using quotient_limb_ok(1) [OF b40 [of 4] b3, of 26] unfolding q4_def by auto
  have b4: "below (2 ^ 42) q4" using quotient_limb_ok(2) [OF b40 [of 4] b3, of 26] unfolding q4_def by simp
  obtain s5 where s5: "f ! 5 + q4 = s5 + 2 ^ 25 * q5" "0 \<le> s5" "s5 < 2 ^ 25"
    using quotient_limb_ok(1) [OF b40 [of 5] b4, of 25] unfolding q5_def by auto
  have b5: "below (2 ^ 42) q5" using quotient_limb_ok(2) [OF b40 [of 5] b4, of 25] unfolding q5_def by simp
  obtain s6 where s6: "f ! 6 + q5 = s6 + 2 ^ 26 * q6" "0 \<le> s6" "s6 < 2 ^ 26"
    using quotient_limb_ok(1) [OF b40 [of 6] b5, of 26] unfolding q6_def by auto
  have b6: "below (2 ^ 42) q6" using quotient_limb_ok(2) [OF b40 [of 6] b5, of 26] unfolding q6_def by simp
  obtain s7 where s7: "f ! 7 + q6 = s7 + 2 ^ 25 * q7" "0 \<le> s7" "s7 < 2 ^ 25"
    using quotient_limb_ok(1) [OF b40 [of 7] b6, of 25] unfolding q7_def by auto
  have b7: "below (2 ^ 42) q7" using quotient_limb_ok(2) [OF b40 [of 7] b6, of 25] unfolding q7_def by simp
  obtain s8 where s8: "f ! 8 + q7 = s8 + 2 ^ 26 * q8" "0 \<le> s8" "s8 < 2 ^ 26"
    using quotient_limb_ok(1) [OF b40 [of 8] b7, of 26] unfolding q8_def by auto
  have b8: "below (2 ^ 42) q8" using quotient_limb_ok(2) [OF b40 [of 8] b7, of 26] unfolding q8_def by simp
  obtain s9 where s9: "f ! 9 + q8 = s9 + 2 ^ 25 * q9" "0 \<le> s9" "s9 < 2 ^ 25"
    using quotient_limb_ok(1) [OF b40 [of 9] b8, of 25] unfolding q9_def by auto
  have b9: "below (2 ^ 42) q9" using quotient_limb_ok(2) [OF b40 [of 9] b8, of 25] unfolding q9_def by simp
  have "i64 (19 * f ! 9 + push_bit 24 1) = 19 * f ! 9 + 2 ^ 24" using b [of 9] by (intro i64_id [THEN trans]) (simp_all add: below_def push_bit_eq_mult)
  then have e: "fe_quotient f = q9"
    unfolding fe_quotient_def Let_def q9_def q8_def q7_def q6_def q5_def q4_def q3_def q2_def q1_def q0_def q_def by (simp add: drop_bit_eq_div)
  show "below (2 ^ 37) (fe_quotient f)" unfolding e using b [of 9] b8 s9 by (simp add: below_def)
  define S where "S = s0 + 2 ^ 26 * s1 + 2 ^ 51 * s2 + 2 ^ 77 * s3 + 2 ^ 102 * s4 + 2 ^ 128 * s5 + 2 ^ 153 * s6 + 2 ^ 179 * s7 + 2 ^ 204 * s8 + 2 ^ 230 * s9"
  have "fe_val f + q = S + 2 ^ 255 * q9" unfolding fe_val_def S_def using s0(1) s1(1) s2(1) s3(1) s4(1) s5(1) s6(1) s7(1) s8(1) s9(1) by simp
  moreover have "0 \<le> S" "S < 2 ^ 255" unfolding S_def using s0(2,3) s1(2,3) s2(2,3) s3(2,3) s4(2,3) s5(2,3) s6(2,3) s7(2,3) s8(2,3) s9(2,3) by simp_all
  moreover have "\<bar>19 * fe_val f - P25519 * q\<bar> < P25519"
  proof -
    have r: "- (2 ^ 35) \<le> f ! i" "f ! i \<le> 2 ^ 35" if "i < 10" for i using b [OF that] by (simp_all add: below_def)
    have "- (2 ^ 42) \<le> q" "q \<le> 2 ^ 42" using q9 by (simp_all add: below_def)
    then show ?thesis unfolding fe_val_def P25519_def abs_less_iff
      using q r [of 0] r [of 1] r [of 2] r [of 3] r [of 4] r [of 5] r [of 6] r [of 7] r [of 8] by (intro conjI) simp_all
  qed
  ultimately show "fe_quotient f = fe_val f div P25519" unfolding e by (rule quotient_exact)
qed

lemma remainder_exact:
  assumes "V + 19 * q = R + 2 ^ 255 * c" "0 \<le> R" "R < 2 ^ 255" "V = q * P25519 + r" "0 \<le> r" "r < P25519"
  shows "R = r"
proof -
  have e: "r + 2 ^ 255 * q = R + 2 ^ 255 * c" using assms(1,4) unfolding P25519_def by (simp add: algebra_simps)
  have "(r + 2 ^ 255 * q) mod 2 ^ 255 = r" using assms(5,6) by (simp add: P25519_def)
  moreover have "(r + 2 ^ 255 * q) mod 2 ^ 255 = R" unfolding e using assms(2,3) by simp
  ultimately show ?thesis by simp
qed

lemma fe_reduce_ok:
  assumes "fe_ok c f" "c \<le> 2 ^ 10"
  obtains g0 g1 g2 g3 g4 g5 g6 g7 g8 g9 where "fe_reduce f = [g0, g1, g2, g3, g4, g5, g6, g7, g8, g9]"
    "0 \<le> g0" "g0 < 2 ^ 26" "0 \<le> g1" "g1 < 2 ^ 25" "0 \<le> g2" "g2 < 2 ^ 26" "0 \<le> g3" "g3 < 2 ^ 25" "0 \<le> g4" "g4 < 2 ^ 26"
    "0 \<le> g5" "g5 < 2 ^ 25" "0 \<le> g6" "g6 < 2 ^ 26" "0 \<le> g7" "g7 < 2 ^ 25" "0 \<le> g8" "g8 < 2 ^ 26" "0 \<le> g9" "g9 < 2 ^ 25"
    "fe_val f mod P25519 = g0 + 2 ^ 26 * g1 + 2 ^ 51 * g2 + 2 ^ 77 * g3 + 2 ^ 102 * g4 + 2 ^ 128 * g5 + 2 ^ 153 * g6 + 2 ^ 179 * g7 + 2 ^ 204 * g8 + 2 ^ 230 * g9"
proof -
  have "c * 2 ^ 25 \<le> 2 ^ 35" using assms(2) by simp
  then have b: "below (2 ^ 35) (f ! i)" if "i < 10" for i using fe_ok_nth [OF assms(1) that] by (rule below_mono [rotated])
  have b40: "below (2 ^ 40) (f ! i)" if "i < 10" for i using b [OF that] by (rule below_mono) simp
  have lt: "(1 :: nat) < 10" "(2 :: nat) < 10" "(3 :: nat) < 10" "(4 :: nat) < 10" "(5 :: nat) < 10" "(6 :: nat) < 10" "(7 :: nat) < 10" "(8 :: nat) < 10" "(9 :: nat) < 10" by simp_all
  have w: "(26 :: nat) = 26 \<or> 26 = (25 :: nat)" "(25 :: nat) = 26 \<or> 25 = (25 :: nat)" by simp_all
  define q where "q = fe_quotient f"
  have q: "q = fe_val f div P25519" "below (2 ^ 37) q" unfolding q_def using fe_quotient_eq [OF assms] by simp_all
  define k0 where "k0 = f ! 0 + 19 * q"
  have k0: "i64 (f ! 0 + 19 * q) = k0" "below (2 ^ 42) k0" using b [of 0] q(2) by (simp_all add: k0_def below_def i64_id)
  obtain g0 c0 where k1: "carry_pass 26 k0 (f ! 1) = (g0, f ! 1 + c0)" "k0 = g0 + 2 ^ 26 * c0" "0 \<le> g0 \<and> g0 < 2 ^ 26" "below (2 ^ 42) (f ! 1 + c0)"
    using carry_pass_ok [OF k0(2) b40 [OF lt(1)] w(1)] by blast
  obtain g1 c1 where k2: "carry_pass 25 (f ! 1 + c0) (f ! 2) = (g1, f ! 2 + c1)" "(f ! 1 + c0) = g1 + 2 ^ 25 * c1" "0 \<le> g1 \<and> g1 < 2 ^ 25" "below (2 ^ 42) (f ! 2 + c1)"
    using carry_pass_ok [OF k1(4) b40 [OF lt(2)] w(2)] by blast
  obtain g2 c2 where k3: "carry_pass 26 (f ! 2 + c1) (f ! 3) = (g2, f ! 3 + c2)" "(f ! 2 + c1) = g2 + 2 ^ 26 * c2" "0 \<le> g2 \<and> g2 < 2 ^ 26" "below (2 ^ 42) (f ! 3 + c2)"
    using carry_pass_ok [OF k2(4) b40 [OF lt(3)] w(1)] by blast
  obtain g3 c3 where k4: "carry_pass 25 (f ! 3 + c2) (f ! 4) = (g3, f ! 4 + c3)" "(f ! 3 + c2) = g3 + 2 ^ 25 * c3" "0 \<le> g3 \<and> g3 < 2 ^ 25" "below (2 ^ 42) (f ! 4 + c3)"
    using carry_pass_ok [OF k3(4) b40 [OF lt(4)] w(2)] by blast
  obtain g4 c4 where k5: "carry_pass 26 (f ! 4 + c3) (f ! 5) = (g4, f ! 5 + c4)" "(f ! 4 + c3) = g4 + 2 ^ 26 * c4" "0 \<le> g4 \<and> g4 < 2 ^ 26" "below (2 ^ 42) (f ! 5 + c4)"
    using carry_pass_ok [OF k4(4) b40 [OF lt(5)] w(1)] by blast
  obtain g5 c5 where k6: "carry_pass 25 (f ! 5 + c4) (f ! 6) = (g5, f ! 6 + c5)" "(f ! 5 + c4) = g5 + 2 ^ 25 * c5" "0 \<le> g5 \<and> g5 < 2 ^ 25" "below (2 ^ 42) (f ! 6 + c5)"
    using carry_pass_ok [OF k5(4) b40 [OF lt(6)] w(2)] by blast
  obtain g6 c6 where k7: "carry_pass 26 (f ! 6 + c5) (f ! 7) = (g6, f ! 7 + c6)" "(f ! 6 + c5) = g6 + 2 ^ 26 * c6" "0 \<le> g6 \<and> g6 < 2 ^ 26" "below (2 ^ 42) (f ! 7 + c6)"
    using carry_pass_ok [OF k6(4) b40 [OF lt(7)] w(1)] by blast
  obtain g7 c7 where k8: "carry_pass 25 (f ! 7 + c6) (f ! 8) = (g7, f ! 8 + c7)" "(f ! 7 + c6) = g7 + 2 ^ 25 * c7" "0 \<le> g7 \<and> g7 < 2 ^ 25" "below (2 ^ 42) (f ! 8 + c7)"
    using carry_pass_ok [OF k7(4) b40 [OF lt(8)] w(2)] by blast
  obtain g8 c8 where k9: "carry_pass 26 (f ! 8 + c7) (f ! 9) = (g8, f ! 9 + c8)" "(f ! 8 + c7) = g8 + 2 ^ 26 * c8" "0 \<le> g8 \<and> g8 < 2 ^ 26" "below (2 ^ 42) (f ! 9 + c8)"
    using carry_pass_ok [OF k8(4) b40 [OF lt(9)] w(1)] by blast
  define c9 g9 where "c9 = (f ! 9 + c8) div 2 ^ 25" and "g9 = (f ! 9 + c8) mod 2 ^ 25"
  have k10: "f ! 9 + c8 = g9 + 2 ^ 25 * c9" "0 \<le> g9" "g9 < 2 ^ 25" by (simp_all add: c9_def g9_def)
  have h9: "i64 (f ! 9 + c8 - push_bit 25 (drop_bit 25 (f ! 9 + c8))) = g9"
    using k10 by (simp add: i64_id drop_bit_eq_div push_bit_eq_mult minus_div_mult_eq_mod g9_def)
  have red: "fe_reduce f = [g0, g1, g2, g3, g4, g5, g6, g7, g8, g9]"
    unfolding fe_reduce_def q_def [symmetric] Let_def k0(1) k1(1) prod.case k2(1) prod.case k3(1) prod.case k4(1) prod.case k5(1) prod.case k6(1) prod.case k7(1) prod.case k8(1) prod.case k9(1) prod.case h9 ..
  define R where "R = g0 + 2 ^ 26 * g1 + 2 ^ 51 * g2 + 2 ^ 77 * g3 + 2 ^ 102 * g4 + 2 ^ 128 * g5 + 2 ^ 153 * g6 + 2 ^ 179 * g7 + 2 ^ 204 * g8 + 2 ^ 230 * g9"
  have "fe_val f + 19 * q = R + 2 ^ 255 * c9" unfolding R_def fe_val_def using k10(1) k1(2) k2(2) k3(2) k4(2) k5(2) k6(2) k7(2) k8(2) k9(2) unfolding k0_def by simp
  moreover have "0 \<le> R" "R < 2 ^ 255" unfolding R_def using k10(2,3) k1(3) k2(3) k3(3) k4(3) k5(3) k6(3) k7(3) k8(3) k9(3) by simp_all
  moreover have "fe_val f = q * P25519 + fe_val f mod P25519" "0 \<le> fe_val f mod P25519" "fe_val f mod P25519 < P25519" by (simp_all add: q(1) P25519_def)
  ultimately have "R = fe_val f mod P25519" by (rule remainder_exact)
  then show ?thesis using that [OF red] k10(2,3) k1(3) k2(3) k3(3) k4(3) k5(3) k6(3) k7(3) k8(3) k9(3) unfolding R_def by simp
qed

lemma fe_to_bytes_eq:
  assumes "fe_is c f x" "c \<le> 2 ^ 10"
  shows "fe_to_bytes f = nat_bytes 32 (nat (x mod P25519))"
proof -
  have ok: "fe_ok c f" "x mod P25519 = fe_val f mod P25519" using assms(1) by (simp_all add: fe_is_def)
  show ?thesis
    unfolding fe_to_bytes_def ok(2) by (rule fe_reduce_ok [OF ok(1) assms(2)]) (simp only: fe_pack_def Let_def nth_list10 limb_bytes)
qed

lemma fe_is_zero_one: "fe_is 1 fe_zero 0" "fe_is 1 fe_one 1"
  by (simp_all add: fe_is_def fe_ok_def fe_zero_def fe_one_def fe_val_def below_def numeral_eq_Suc)

end
