(* ===== verification/X25519.thy ===== *)
theory X25519
  imports Field25519
begin

unbundle bit_operations_syntax

text \<open>
  X25519 (\<^verbatim>\<open>crypto/x25519.c\<close>): the ladder over field elements of ten limbs, and the ladder of RFC 7748 over the integers
  modulo \<open>2\<^sup>2\<^sup>5\<^sup>5 - 19\<close> it computes.
\<close>

section \<open>The function\<close>

definition scalar_bit :: "bytes \<Rightarrow> nat \<Rightarrow> int" where
  "scalar_bit k pos = uint (drop_bit (pos mod 8) (k ! (pos div 8)) AND 1)"

type_synonym ladder_state = "fe \<times> fe \<times> fe \<times> fe \<times> int"

definition ladder_step :: "bytes \<Rightarrow> fe \<Rightarrow> ladder_state \<Rightarrow> nat \<Rightarrow> ladder_state" where
  "ladder_step k x_1 st pos =
     (case st of (x_2, z_2, x_3, z_3, swap) \<Rightarrow>
       let bit' = scalar_bit k pos;
           swap = swap XOR bit';
           (x_2, x_3) = fe_cswap x_2 x_3 swap;
           (z_2, z_3) = fe_cswap z_2 z_3 swap;
           swap = bit';
           a = fe_add x_2 z_2; aa = fe_square a; b = fe_sub x_2 z_2; bb = fe_square b; e = fe_sub aa bb;
           c = fe_add x_3 z_3; d = fe_sub x_3 z_3; da = fe_mul d a; cb = fe_mul c b; sum = fe_add da cb; diff = fe_sub da cb;
           x_3 = fe_square sum; diff_sq = fe_square diff; z_3 = fe_mul x_1 diff_sq; x_2 = fe_mul aa bb;
           e_mul = fe_mul121666 e; aa_plus_e_mul = fe_add aa e_mul; z_2 = fe_mul e aa_plus_e_mul
       in (x_2, z_2, x_3, z_3, swap))"

definition x25519_clamp :: "bytes \<Rightarrow> bytes" where
  "x25519_clamp scalar = (let k = scalar; k = k[0 := k ! 0 AND 248]; k = k[31 := k ! 31 AND 127] in k[31 := k ! 31 OR 64])"

definition x25519 :: "bytes \<Rightarrow> bytes \<Rightarrow> bytes" where
  "x25519 scalar point =
     (let k = x25519_clamp scalar;
          u = fe_from_bytes point;
          (x_2, z_2, x_3, z_3, swap) = foldl (ladder_step k u) (fe_one, fe_zero, u, fe_one, 0) (rev [0..<255]);
          (x_2, x_3) = fe_cswap x_2 x_3 swap;
          (z_2, z_3) = fe_cswap z_2 z_3 swap;
          z_2_inv = fe_invert z_2
      in fe_to_bytes (fe_mul x_2 z_2_inv))"

definition x25519_base :: "bytes \<Rightarrow> bytes" where
  "x25519_base scalar = x25519 scalar (9 # zeros 31)"

section \<open>The ladder of RFC 7748\<close>

text \<open>A point is a pair of projective coordinates modulo the prime. \<open>a24\<close> is the constant of the curve, which is 121665 for
  Curve25519.\<close>

definition xdbl :: "int \<Rightarrow> int \<times> int \<Rightarrow> int \<times> int" where
  "xdbl a24 p =
     (case p of (x, z) \<Rightarrow> let aa = (x + z) ^ 2; bb = (x - z) ^ 2; e = aa - bb in (aa * bb mod P25519, e * (aa + a24 * e) mod P25519))"

definition xadd :: "int \<Rightarrow> int \<times> int \<Rightarrow> int \<times> int \<Rightarrow> int \<times> int" where
  "xadd u p q =
     (case (p, q) of ((x2, z2), (x3, z3)) \<Rightarrow>
       let da = (x3 - z3) * (x2 + z2); cb = (x3 + z3) * (x2 - z2) in ((da + cb) ^ 2 mod P25519, u * (da - cb) ^ 2 mod P25519))"

definition double_add :: "int \<Rightarrow> int \<Rightarrow> nat \<Rightarrow> (int \<times> int) \<times> (int \<times> int) \<Rightarrow> nat \<Rightarrow> (int \<times> int) \<times> (int \<times> int)" where
  "double_add a24 u k st t =
     (case st of (p, q) \<Rightarrow> if odd (k div 2 ^ t) then (xadd u q p, xdbl a24 q) else (xdbl a24 p, xadd u p q))"

definition montgomery :: "int \<Rightarrow> nat \<Rightarrow> int \<Rightarrow> int" where
  "montgomery a24 k u =
     (case foldl (double_add a24 u k) ((1, 0), (u, 1)) (rev [0..<255]) of ((x, z), q) \<Rightarrow> x * z ^ (2 ^ 255 - 21) mod P25519)"

section \<open>Refinement\<close>

lemma scalar_bit_eq:
  assumes "pos < 8 * length k"
  shows "scalar_bit k pos = (if odd (le_nat k div 2 ^ pos) then 1 else 0)"
proof -
  define i j where "i = pos div 8" and "j = pos mod 8"
  have pos: "pos = 8 * i + j" "j < 8" "i < length k" using assms by (auto simp: i_def j_def)
  have "le_nat k div 2 ^ pos = le_nat k div 256 ^ i div 2 ^ j" by (simp add: pos(1) power_add power_mult div_mult2_eq)
  also have "le_nat k div 256 ^ i = unat (k ! i) + 256 * le_nat (drop (Suc i) k)"
    using pos(3) by (simp add: le_nat_drop Cons_nth_drop_Suc [symmetric])
  finally have "odd (le_nat k div 2 ^ pos) = bit (unat (k ! i) + 256 * le_nat (drop (Suc i) k)) j" by (simp add: bit_iff_odd)
  also have "\<dots> = bit (take_bit 8 (unat (k ! i) + 256 * le_nat (drop (Suc i) k))) j" using pos(2) by (simp add: bit_take_bit_iff)
  also have "take_bit 8 (unat (k ! i) + 256 * le_nat (drop (Suc i) k)) = unat (k ! i)" using unat_lt2p [of "k ! i"] by (simp add: take_bit_eq_mod)
  also have "bit (unat (k ! i)) j = bit (k ! i) j" using pos(2) by (simp add: bit_unsigned_iff)
  finally have "odd (le_nat k div 2 ^ pos) = bit (k ! i) j" .
  moreover have "scalar_bit k pos = of_bool (bit (k ! i) j)"
    unfolding scalar_bit_def i_def [symmetric] j_def [symmetric] and_one_eq bit_iff_odd_drop_bit [of "k ! i"] by (simp add: odd_iff_mod_2_eq_one)
  ultimately show ?thesis by simp
qed

text \<open>The state holds the two points of the ladder, exchanged when \<open>swap\<close> is set.\<close>

definition point_is :: "fe \<Rightarrow> fe \<Rightarrow> int \<times> int \<Rightarrow> bool" where
  "point_is x z p \<longleftrightarrow> fe_is 2 x (fst p) \<and> fe_is 2 z (snd p)"

definition ladder_is :: "ladder_state \<Rightarrow> (int \<times> int) \<times> (int \<times> int) \<Rightarrow> bool" where
  "ladder_is st pq \<longleftrightarrow> (case (st, pq) of ((x_2, z_2, x_3, z_3, swap), (p, q)) \<Rightarrow>
     swap = 0 \<and> point_is x_2 z_2 p \<and> point_is x_3 z_3 q \<or> swap = 1 \<and> point_is x_2 z_2 q \<and> point_is x_3 z_3 p)"

lemma fe_is_length: "fe_is c f x \<Longrightarrow> length f = 10"
  by (simp add: fe_is_def fe_ok_def)

lemma fe_is_mod: "fe_is c f x \<Longrightarrow> fe_is c f (x mod P25519)"
  by (simp add: fe_is_def)

lemma point_double:
  assumes "point_is x z p"
  shows "point_is (fe_mul (fe_square (fe_add x z)) (fe_square (fe_sub x z)))
    (fe_mul (fe_sub (fe_square (fe_add x z)) (fe_square (fe_sub x z)))
       (fe_add (fe_square (fe_add x z)) (fe_mul121666 (fe_sub (fe_square (fe_add x z)) (fe_square (fe_sub x z)))))) (xdbl 121666 p)"
proof -
  have p: "fe_is 2 x (fst p)" "fe_is 2 z (snd p)" using assms by (simp_all add: point_is_def)
  note aa = fe_is_square [OF fe_is_add [OF p]] and bb = fe_is_square [OF fe_is_sub [OF p]]
  note e = fe_is_sub [OF aa bb]
  note x' = fe_is_mul [OF aa bb] and z' = fe_is_mul [OF e fe_is_add [OF aa fe_is_mul121666 [OF e]]]
  show ?thesis
    using fe_is_mod [OF fe_is_mono [OF x', of 2]] fe_is_mod [OF fe_is_mono [OF z', of 2]]
    by (simp add: point_is_def xdbl_def Let_def split_beta mult.commute [of _ 121666])
qed

lemma point_add:
  assumes "point_is x z p" "point_is x' z' q" "fe_is 2 x_1 u"
  shows "point_is (fe_square (fe_add (fe_mul (fe_sub x' z') (fe_add x z)) (fe_mul (fe_add x' z') (fe_sub x z))))
    (fe_mul x_1 (fe_square (fe_sub (fe_mul (fe_sub x' z') (fe_add x z)) (fe_mul (fe_add x' z') (fe_sub x z))))) (xadd u p q)"
proof -
  have p: "fe_is 2 x (fst p)" "fe_is 2 z (snd p)" and q: "fe_is 2 x' (fst q)" "fe_is 2 z' (snd q)" using assms by (simp_all add: point_is_def)
  note da = fe_is_mul [OF fe_is_sub [OF q] fe_is_add [OF p]] and cb = fe_is_mul [OF fe_is_add [OF q] fe_is_sub [OF p]]
  note x3 = fe_is_square [OF fe_is_add [OF da cb]] and z3 = fe_is_mul [OF assms(3) fe_is_square [OF fe_is_sub [OF da cb]]]
  show ?thesis
    using fe_is_mod [OF fe_is_mono [OF x3, of 2]] fe_is_mod [OF fe_is_mono [OF z3, of 2]]
    by (simp add: point_is_def xadd_def Let_def split_beta)
qed

lemma ladder_step_ok:
  assumes "ladder_is st pq" "fe_is 2 x_1 u" "pos < 8 * length k"
  shows "ladder_is (ladder_step k x_1 st pos) (double_add 121666 u (le_nat k) pq pos)"
proof -
  obtain x2 z2 x3 z3 s where st: "st = (x2, z2, x3, z3, s)" by (metis surj_pair)
  obtain p q where pq: "pq = (p, q)" by (cases pq)
  define b where "b = odd (le_nat k div 2 ^ pos)"
  have bit: "scalar_bit k pos = of_bool b" using scalar_bit_eq [OF assms(3)] by (simp add: b_def)
  have s: "s = 0 \<or> s = 1" and len: "length x2 = 10" "length x3 = 10" "length z2 = 10" "length z3 = 10"
    using assms(1) by (auto simp: ladder_is_def st pq point_is_def dest: fe_is_length)
  obtain y2 w2 y3 w3 where sw: "fe_cswap x2 x3 (s XOR of_bool b) = (y2, y3)" "fe_cswap z2 z3 (s XOR of_bool b) = (w2, w3)" by (metis surj_pair)
  have pts: "if b then point_is y2 w2 q \<and> point_is y3 w3 p else point_is y2 w2 p \<and> point_is y3 w3 q"
    using assms(1) sw s len by (cases b) (auto simp: ladder_is_def st pq fe_cswap_eq)
  define x2' where "x2' = fe_mul (fe_square (fe_add y2 w2)) (fe_square (fe_sub y2 w2))"
  define z2' where "z2' = fe_mul (fe_sub (fe_square (fe_add y2 w2)) (fe_square (fe_sub y2 w2)))
    (fe_add (fe_square (fe_add y2 w2)) (fe_mul121666 (fe_sub (fe_square (fe_add y2 w2)) (fe_square (fe_sub y2 w2)))))"
  define x3' where "x3' = fe_square (fe_add (fe_mul (fe_sub y3 w3) (fe_add y2 w2)) (fe_mul (fe_add y3 w3) (fe_sub y2 w2)))"
  define z3' where "z3' = fe_mul x_1 (fe_square (fe_sub (fe_mul (fe_sub y3 w3) (fe_add y2 w2)) (fe_mul (fe_add y3 w3) (fe_sub y2 w2))))"
  have step: "ladder_step k x_1 st pos = (x2', z2', x3', z3', of_bool b)"
    unfolding ladder_step_def st prod.case Let_def bit sw x2'_def z2'_def x3'_def z3'_def ..
  have pts': "point_is y2 w2 r \<Longrightarrow> point_is x2' z2' (xdbl 121666 r)"
    "point_is y2 w2 r \<Longrightarrow> point_is y3 w3 r' \<Longrightarrow> point_is x3' z3' (xadd u r r')" for r r'
    unfolding x2'_def z2'_def x3'_def z3'_def by (erule point_double) (erule (1) point_add [OF _ _ assms(2)])
  show ?thesis
    using pts pts' by (cases b) (auto simp: step pq ladder_is_def double_add_def b_def [symmetric])
qed

lemma ladder_run_ok:
  assumes "ladder_is st pq" "fe_is 2 x_1 u" "\<forall>t \<in> set ts. t < 8 * length k"
  shows "ladder_is (foldl (ladder_step k x_1) st ts) (foldl (double_add 121666 u (le_nat k)) pq ts)"
  using assms by (induction ts arbitrary: st pq) (simp_all add: ladder_step_ok)

lemma length_x25519_clamp [simp]: "length (x25519_clamp s) = length s"
  by (simp add: x25519_clamp_def Let_def)

lemma x25519_eq:
  assumes "length scalar = 32" "length point = 32"
  shows "x25519 scalar point = nat_bytes 32 (nat (montgomery 121666 (le_nat (x25519_clamp scalar)) (int (le_nat point) mod 2 ^ 248)))"
proof -
  let ?k = "x25519_clamp scalar" and ?u = "fe_from_bytes point" and ?n = "int (le_nat point) mod 2 ^ 248"
  have u: "fe_is 2 ?u ?n" by (rule fe_is_from_bytes [OF assms(2)])
  have init: "ladder_is (fe_one, fe_zero, ?u, fe_one, 0) ((1, 0), (?n, 1))"
    using u fe_is_mono [OF fe_is_zero_one(1), of 2] fe_is_mono [OF fe_is_zero_one(2), of 2] by (simp add: ladder_is_def point_is_def)
  obtain x2 z2 x3 z3 s where run: "foldl (ladder_step ?k ?u) (fe_one, fe_zero, ?u, fe_one, 0) (rev [0..<255]) = (x2, z2, x3, z3, s)" by (metis surj_pair)
  obtain x z q where spec: "foldl (double_add 121666 ?n (le_nat ?k)) ((1, 0), (?n, 1)) (rev [0..<255]) = ((x, z), q)" by (metis surj_pair)
  have "ladder_is (x2, z2, x3, z3, s) ((x, z), q)"
    using ladder_run_ok [OF init u, of "rev [0..<255]" ?k] assms(1) unfolding run spec by simp
  then have p: "s = 0 \<and> fe_is 2 x2 x \<and> fe_is 2 z2 z \<or> s = 1 \<and> fe_is 2 x3 x \<and> fe_is 2 z3 z"
    and len: "length x2 = 10" "length x3 = 10" "length z2 = 10" "length z3 = 10"
    by (auto simp: ladder_is_def point_is_def dest: fe_is_length)
  obtain y2 w2 y3 w3 where sw: "fe_cswap x2 x3 s = (y2, y3)" "fe_cswap z2 z3 s = (w2, w3)" by (metis surj_pair)
  have y: "fe_is 2 y2 x" "fe_is 2 w2 z" using p sw len by (auto simp: fe_cswap_eq)
  have "x25519 scalar point = fe_to_bytes (fe_mul y2 (fe_invert w2))"
    unfolding x25519_def Let_def run prod.case sw ..
  moreover have "fe_is 1 (fe_mul y2 (fe_invert w2)) (x * z ^ (2 ^ 255 - 21))"
    by (rule fe_is_mul [OF y(1) fe_is_invert [OF y(2)]]) simp_all
  ultimately show ?thesis using fe_to_bytes_eq [of 1 "fe_mul y2 (fe_invert w2)" "x * z ^ (2 ^ 255 - 21)"]
    unfolding montgomery_def spec prod.case by simp
qed

lemma le_nat_last:
  assumes "length p = 32"
  shows "int (le_nat p) mod 2 ^ 248 = int (le_nat (take 31 p))"
proof -
  have "le_nat p = le_nat (take 31 p) + 256 ^ 31 * le_nat (drop 31 p)" using le_nat_append [of "take 31 p" "drop 31 p"] assms by simp
  moreover have "le_nat (take 31 p) < 256 ^ 31" using le_nat_bound [of "take 31 p"] assms by simp
  ultimately have "le_nat p mod 2 ^ 248 = le_nat (take 31 p)" by simp
  then show ?thesis by (metis of_nat_mod of_nat_numeral of_nat_power)
qed

section \<open>Properties\<close>

text \<open>C34. X25519 is the Montgomery ladder of RFC 7748 over the integers modulo \<open>2\<^sup>2\<^sup>5\<^sup>5 - 19\<close>: for every scalar and every point
  of 32 bytes the result is the little-endian encoding of the reduced quotient of the ladder's coordinates, the scalar clamped
  as the RFC prescribes. No limb overflows on the way. It is not the function of the RFC: the constant of the doubling is
  121666, where the RFC has 121665, and the last byte of the point is not read.\<close>

theorem x25519_is_ladder:
  assumes "length scalar = 32" "length point = 32"
  shows "x25519 scalar point = nat_bytes 32 (nat (montgomery 121666 (le_nat (x25519_clamp scalar)) (int (le_nat (take 31 point)))))"
  using x25519_eq [OF assms] unfolding le_nat_last [OF assms(2)] .

theorem x25519_is_ladder_witness:
  "x25519 (zeros 32) (9 # zeros 31) = nat_bytes 32 (nat (montgomery 121666 (le_nat (x25519_clamp (zeros 32))) 9))"
proof -
  have "le_nat (zeros n) = 0" for n by (induction n) (simp_all add: zeros_def)
  then have "le_nat (take 31 (9 # zeros 31)) = 9" by (simp add: take_Cons' zeros_def)
  with x25519_is_ladder [of "zeros 32" "9 # zeros 31"] show ?thesis by simp
qed

text \<open>Two points that differ in the last byte have the same result: seven bits of every public key are ignored.\<close>

theorem x25519_ignores_last_byte:
  assumes "length scalar = 32" "length point = 32"
  shows "x25519 scalar (point[31 := b]) = x25519 scalar point"
proof -
  have "length (point[31 := b]) = 32" using assms(2) by simp
  then show ?thesis unfolding x25519_eq [OF assms(1) \<open>length (point[31 := b]) = 32\<close>] x25519_eq [OF assms] le_nat_last [OF assms(2)]
    le_nat_last [OF \<open>length (point[31 := b]) = 32\<close>] by simp
qed

theorem x25519_ignores_last_byte_witness: "x25519 (zeros 32) ((9 # zeros 31)[31 := 77]) = x25519 (zeros 32) (9 # zeros 31)"
  by (rule x25519_ignores_last_byte) simp_all

end
