(* ===== verification/Sha512.thy ===== *)
theory Sha512
  imports Streaming
begin

unbundle bit_operations_syntax

text \<open>
  SHA-512 of \<^verbatim>\<open>crypto/ed25519.c\<close>: the hasher with its 128-byte buffer and its 128-bit length, and the proof that it computes
  the padded, block-wise hash of the concatenated input. \<^verbatim>\<open>sha512_new\<close>, which the signature functions call, is \<^verbatim>\<open>sha512_init\<close>
  on fresh memory.
\<close>

section \<open>The hasher\<close>

definition K512 :: "u64 list" where
  "K512 =
      [0x428a2f98d728ae22, 0x7137449123ef65cd, 0xb5c0fbcfec4d3b2f, 0xe9b5dba58189dbbc] @
      [0x3956c25bf348b538, 0x59f111f1b605d019, 0x923f82a4af194f9b, 0xab1c5ed5da6d8118] @
      [0xd807aa98a3030242, 0x12835b0145706fbe, 0x243185be4ee4b28c, 0x550c7dc3d5ffb4e2] @
      [0x72be5d74f27b896f, 0x80deb1fe3b1696b1, 0x9bdc06a725c71235, 0xc19bf174cf692694] @
      [0xe49b69c19ef14ad2, 0xefbe4786384f25e3, 0x0fc19dc68b8cd5b5, 0x240ca1cc77ac9c65] @
      [0x2de92c6f592b0275, 0x4a7484aa6ea6e483, 0x5cb0a9dcbd41fbd4, 0x76f988da831153b5] @
      [0x983e5152ee66dfab, 0xa831c66d2db43210, 0xb00327c898fb213f, 0xbf597fc7beef0ee4] @
      [0xc6e00bf33da88fc2, 0xd5a79147930aa725, 0x06ca6351e003826f, 0x142929670a0e6e70] @
      [0x27b70a8546d22ffc, 0x2e1b21385c26c926, 0x4d2c6dfc5ac42aed, 0x53380d139d95b3df] @
      [0x650a73548baf63de, 0x766a0abb3c77b2a8, 0x81c2c92e47edaee6, 0x92722c851482353b] @
      [0xa2bfe8a14cf10364, 0xa81a664bbc423001, 0xc24b8b70d0f89791, 0xc76c51a30654be30] @
      [0xd192e819d6ef5218, 0xd69906245565a910, 0xf40e35855771202a, 0x106aa07032bbd1b8] @
      [0x19a4c116b8d2d0c8, 0x1e376c085141ab53, 0x2748774cdf8eeb99, 0x34b0bcb5e19b48a8] @
      [0x391c0cb3c5c95a63, 0x4ed8aa4ae3418acb, 0x5b9cca4f7763e373, 0x682e6ff3d6b2b8a3] @
      [0x748f82ee5defb2fc, 0x78a5636f43172f60, 0x84c87814a1f0ab72, 0x8cc702081a6439ec] @
      [0x90befffa23631e28, 0xa4506cebde82bde9, 0xbef9a3f7b2c67915, 0xc67178f2e372532b] @
      [0xca273eceea26619c, 0xd186b8c721c0c207, 0xeada7dd6cde0eb1e, 0xf57d4f7fee6ed178] @
      [0x06f067aa72176fba, 0x0a637dc5a2c898a6, 0x113f9804bef90dae, 0x1b710b35131c471b] @
      [0x28db77f523047d84, 0x32caab7b40c72493, 0x3c9ebe0a15c9bebc, 0x431d67c49c100d4c] @
      [0x4cc5d4becb3e42b6, 0x597f299cfc657e2a, 0x5fcb6fab3ad6faec, 0x6c44198c4a475817]"

record sha512 =
  s5_state :: "u64 list"
  s5_total_len :: "128 word"
  s5_buffer :: bytes
  s5_buffer_len :: nat

definition rotr64 :: "u64 \<Rightarrow> nat \<Rightarrow> u64" where
  "rotr64 x n = drop_bit n x OR push_bit (64 - n) x"

definition u64_from_be_bytes :: "bytes \<Rightarrow> u64" where
  "u64_from_be_bytes b =
     push_bit 56 (ucast (b ! 0)) OR push_bit 48 (ucast (b ! 1)) OR push_bit 40 (ucast (b ! 2)) OR push_bit 32 (ucast (b ! 3)) OR
     push_bit 24 (ucast (b ! 4)) OR push_bit 16 (ucast (b ! 5)) OR push_bit 8 (ucast (b ! 6)) OR ucast (b ! 7)"

definition sha512_u64_to_be_bytes :: "u64 \<Rightarrow> bytes" where
  "sha512_u64_to_be_bytes v =
     [ucast (drop_bit 56 v), ucast (drop_bit 48 v), ucast (drop_bit 40 v), ucast (drop_bit 32 v),
      ucast (drop_bit 24 v), ucast (drop_bit 16 v), ucast (drop_bit 8 v), ucast v]"

definition u128_to_be_bytes :: "128 word \<Rightarrow> bytes" where
  "u128_to_be_bytes v = map (\<lambda>i. ucast (drop_bit (120 - i * 8) v)) [0..<16]"

definition schedule512_step :: "u64 list \<Rightarrow> nat \<Rightarrow> u64 list" where
  "schedule512_step w i =
     (let s0 = rotr64 (w ! (i - 15)) 1 XOR rotr64 (w ! (i - 15)) 8 XOR drop_bit 7 (w ! (i - 15));
          s1 = rotr64 (w ! (i - 2)) 19 XOR rotr64 (w ! (i - 2)) 61 XOR drop_bit 6 (w ! (i - 2))
      in w @ [w ! (i - 16) + s0 + w ! (i - 7) + s1])"

definition round512_step :: "u64 list \<Rightarrow> u64 \<times> u64 \<times> u64 \<times> u64 \<times> u64 \<times> u64 \<times> u64 \<times> u64 \<Rightarrow> nat
    \<Rightarrow> u64 \<times> u64 \<times> u64 \<times> u64 \<times> u64 \<times> u64 \<times> u64 \<times> u64" where
  "round512_step w x i =
     (let (a, b, c, d, e, f, g, h) = x;
          s1 = rotr64 e 14 XOR rotr64 e 18 XOR rotr64 e 41;
          ch = (e AND f) XOR (NOT e AND g);
          temp1 = h + s1 + ch + K512 ! i + w ! i;
          s0 = rotr64 a 28 XOR rotr64 a 34 XOR rotr64 a 39;
          maj = (a AND b) XOR (a AND c) XOR (b AND c);
          temp2 = s0 + maj
      in (temp1 + temp2, a, b, c, d + temp1, e, f, g))"

definition compress512 :: "u64 list \<Rightarrow> bytes \<Rightarrow> u64 list" where
  "compress512 st block =
     (let w = foldl schedule512_step (map (\<lambda>i. u64_from_be_bytes (drop (i * 8) block)) [0..<16]) [16..<80];
          (a, b, c, d, e, f, g, h) =
             foldl (round512_step w) (st ! 0, st ! 1, st ! 2, st ! 3, st ! 4, st ! 5, st ! 6, st ! 7) [0..<80]
      in [st ! 0 + a, st ! 1 + b, st ! 2 + c, st ! 3 + d, st ! 4 + e, st ! 5 + f, st ! 6 + g, st ! 7 + h])"

definition sha512_process_block :: "sha512 \<Rightarrow> bytes \<Rightarrow> sha512" where
  "sha512_process_block s block = s\<lparr>s5_state := compress512 (s5_state s) block\<rparr>"

definition sha512_init :: sha512 where
  "sha512_init = \<lparr>s5_state = [0x6a09e667f3bcc908, 0xbb67ae8584caa73b, 0x3c6ef372fe94f82b, 0xa54ff53a5f1d36f1,
     0x510e527fade682d1, 0x9b05688c2b3e6c1f, 0x1f83d9abfb41bd6b, 0x5be0cd19137e2179],
     s5_total_len = 0, s5_buffer = zeros 128, s5_buffer_len = 0\<rparr>"

function sha512_blocks :: "sha512 \<Rightarrow> bytes \<Rightarrow> nat \<Rightarrow> sha512 \<times> nat" where
  "sha512_blocks s xs offset =
     (if offset + 128 \<le> length xs then sha512_blocks (sha512_process_block s (slice xs offset 128)) xs (offset + 128)
      else (s, offset))"
  by pat_completeness auto
termination
  by (relation "measure (\<lambda>(s, xs, offset). length xs - offset)") auto

declare sha512_blocks.simps [simp del]

definition sha512_update_from :: "sha512 \<Rightarrow> bytes \<Rightarrow> nat \<Rightarrow> sha512" where
  "sha512_update_from s xs offset =
     (let (s, offset) = sha512_blocks s xs offset;
          s = (if offset < length xs
               then let remaining = length xs - offset
                    in s\<lparr>s5_buffer := memcpy (s5_buffer s) 0 (slice xs offset remaining), s5_buffer_len := remaining\<rparr>
               else s)
      in s\<lparr>s5_total_len := s5_total_len s + of_nat (length xs)\<rparr>)"

definition sha512_update :: "sha512 \<Rightarrow> bytes \<Rightarrow> sha512" where
  "sha512_update s xs =
     (if s5_buffer_len s > 0 then
        (let needed = 128 - s5_buffer_len s
         in if length xs \<ge> needed then
              (let s = s\<lparr>s5_buffer := memcpy (s5_buffer s) (s5_buffer_len s) (slice xs 0 needed)\<rparr>;
                   s = sha512_process_block s (s5_buffer s);
                   s = s\<lparr>s5_buffer_len := 0\<rparr>
               in sha512_update_from s xs needed)
            else s\<lparr>s5_buffer := memcpy (s5_buffer s) (s5_buffer_len s) xs,
                   s5_buffer_len := s5_buffer_len s + length xs,
                   s5_total_len := s5_total_len s + of_nat (length xs)\<rparr>)
      else sha512_update_from s xs 0)"

definition sha512_finalize :: "sha512 \<Rightarrow> sha512 \<times> bytes" where
  "sha512_finalize s =
     (let total_bits = s5_total_len s * 8;
          s = s\<lparr>s5_buffer := (s5_buffer s)[s5_buffer_len s := 0x80]\<rparr>;
          s = s\<lparr>s5_buffer_len := s5_buffer_len s + 1\<rparr>;
          s = (if s5_buffer_len s > 112 then
                 (let s = s\<lparr>s5_buffer := memcpy (s5_buffer s) (s5_buffer_len s) (zeros (128 - s5_buffer_len s))\<rparr>;
                      s = sha512_process_block s (s5_buffer s)
                  in s\<lparr>s5_buffer_len := 0\<rparr>)
               else s);
          s = s\<lparr>s5_buffer := memcpy (s5_buffer s) (s5_buffer_len s) (zeros (112 - s5_buffer_len s))\<rparr>;
          s = s\<lparr>s5_buffer := memcpy (s5_buffer s) 112 (u128_to_be_bytes total_bits)\<rparr>;
          s = sha512_process_block s (s5_buffer s)
      in (s, concat (map (\<lambda>i. sha512_u64_to_be_bytes (s5_state s ! i)) [0..<8])))"

definition sha512_hash :: "bytes \<Rightarrow> bytes" where
  "sha512_hash xs = snd (sha512_finalize (sha512_update sha512_init xs))"

section \<open>Reference\<close>

definition sha512_pad :: "bytes \<Rightarrow> bytes" where
  "sha512_pad msg =
     msg @ [0x80] @ zeros ((239 - length msg mod 128) mod 128) @ be_bytes 16 (of_nat (8 * length msg) :: 128 word)"

definition sha512_spec :: "bytes \<Rightarrow> bytes" where
  "sha512_spec msg =
     concat (map (be_bytes 8) (take 8 (fst (absorb 128 compress512 (s5_state sha512_init) (sha512_pad msg)))))"

section \<open>The hasher follows the reference\<close>

abbreviation sha512_buffer :: "sha512 \<Rightarrow> u64 list \<times> bytes \<times> nat" where
  "sha512_buffer s \<equiv> (s5_state s, s5_buffer s, s5_buffer_len s)"

definition sha512_inv :: "sha512 \<Rightarrow> bytes \<Rightarrow> bool" where
  "sha512_inv s msg \<longleftrightarrow>
     buffer_inv 128 compress512 (s5_state sha512_init) (sha512_buffer s) msg \<and> s5_total_len s = of_nat (length msg)"

lemma sha512_init_inv: "sha512_inv sha512_init []"
  by (simp add: sha512_inv_def buffer_inv_def sha512_init_def)

lemma sha512_blocks_eq:
  "sha512_blocks s xs offset
     = (let (st, offset) = take_blocks 128 compress512 (s5_state s) xs offset in (s\<lparr>s5_state := st\<rparr>, offset))"
proof (induction s xs offset rule: sha512_blocks.induct)
  case (1 s xs offset)
  then show ?case
    by (cases "offset + 128 \<le> length xs") (simp_all add: sha512_blocks.simps [of s] take_blocks.simps [of _ _ "s5_state s"] sha512_process_block_def split_beta Let_def)
qed

lemma sha512_update_buffer:
  "sha512_buffer (sha512_update s xs) = buffer_update 128 compress512 (sha512_buffer s) xs"
  "s5_total_len (sha512_update s xs) = s5_total_len s + of_nat (length xs)"
  by (simp_all add: sha512_update_def sha512_update_from_def sha512_blocks_eq buffer_update_def buffer_rest_def
      sha512_process_block_def Let_def split_beta)

lemma sha512_update_inv: "sha512_inv s msg \<Longrightarrow> sha512_inv (sha512_update s xs) (msg @ xs)"
  unfolding sha512_inv_def sha512_update_buffer by (auto intro: buffer_update_inv)

lemma sha512_u64_to_be_bytes_eq: "sha512_u64_to_be_bytes v = be_bytes 8 v"
  by (simp add: sha512_u64_to_be_bytes_def be_bytes_def numeral_eq_Suc)

lemma u128_to_be_bytes_eq: "u128_to_be_bytes v = be_bytes 16 v"
  by (simp add: u128_to_be_bytes_def be_bytes_def numeral_eq_Suc)

lemma length_compress512: "length (compress512 st block) = 8"
  by (simp add: compress512_def Let_def split_beta)

lemma sha512_finalize_buffer:
  "snd (sha512_finalize s) =
     concat (map (be_bytes 8) (take 8 (md_finalize 128 16 compress512 (sha512_buffer s) (be_bytes 16 (s5_total_len s * 8)))))"
proof -
  have eight: "map (\<lambda>i. be_bytes 8 (xs ! i)) [0..<8] = map (be_bytes 8) (take 8 xs)" if "length xs = 8" for xs :: "u64 list"
    using that by (intro nth_equalityI) simp_all
  have "length (md_finalize 128 16 compress512 x tb) = 8" for x tb by (simp add: md_finalize_def Let_def split_beta length_compress512)
  moreover have "snd (sha512_finalize s) = concat (map (\<lambda>i. be_bytes 8 (md_finalize 128 16 compress512 (sha512_buffer s) (be_bytes 16 (s5_total_len s * 8)) ! i)) [0..<8])"
    by (simp add: sha512_finalize_def md_finalize_def Let_def sha512_process_block_def sha512_u64_to_be_bytes_eq u128_to_be_bytes_eq)
  ultimately show ?thesis by (simp only: eight)
qed

lemma sha512_finalize_spec:
  assumes "sha512_inv s msg"
  shows "snd (sha512_finalize s) = sha512_spec msg"
proof -
  have inv: "buffer_inv 128 compress512 (s5_state sha512_init) (sha512_buffer s) msg" and tl: "s5_total_len s = of_nat (length msg)"
    using assms by (simp_all add: sha512_inv_def)
  have "sha512_pad msg = msg @ md_pad 128 16 (length msg) @ be_bytes 16 (s5_total_len s * 8)"
    by (simp add: sha512_pad_def md_pad_def tl mult.commute)
  then show ?thesis unfolding sha512_finalize_buffer sha512_spec_def using md_finalize_spec [OF _ _ _ inv, of 16 "be_bytes 16 (s5_total_len s * 8)"] by simp
qed

interpretation sha5: streaming sha512_inv sha512_update "\<lambda>s. snd (sha512_finalize s)" sha512_spec
  by unfold_locales (auto intro: sha512_update_inv sha512_finalize_spec)

lemma sha512_hash_spec: "sha512_hash xs = sha512_spec xs"
  using sha5.stream_spec [OF sha512_init_inv, of "[xs]"] by (simp add: sha512_hash_def)

lemma length_sha512_hash [simp]: "length (sha512_hash xs) = 64"
  by (simp add: sha512_hash_def sha512_finalize_def Let_def sha512_u64_to_be_bytes_eq length_concat comp_def sum_list_triv)

section \<open>Properties\<close>

text \<open>C1. However the input is split over calls of \<^verbatim>\<open>sha512_update\<close>, finalizing gives the SHA-512 construction over the
  concatenated input: the compression folded over the 128-byte blocks of the message padded with its 128-bit length, as 64
  big-endian bytes. One-shot and incremental hashing agree.\<close>

theorem sha512_incremental:
  "snd (sha512_finalize (foldl sha512_update sha512_init pieces)) = sha512_spec (concat pieces)
   \<and> sha512_hash (concat pieces) = sha512_spec (concat pieces)
   \<and> length (sha512_hash (concat pieces)) = 64"
  using sha5.stream_spec [OF sha512_init_inv, of pieces] by (simp add: sha512_hash_spec [symmetric])

end
