(* ===== verification/Ed25519.thy ===== *)
theory Ed25519
  imports X25519 Sha512 Crypto_Util
begin

unbundle bit_operations_syntax

text \<open>
  Ed25519 (\<^verbatim>\<open>crypto/ed25519.c\<close>): points in extended coordinates, their encoding, scalar multiplication, and the public-key,
  signature and verification functions. The field functions that the file shares with \<^verbatim>\<open>x25519.c\<close> are those of
  \<open>Field25519\<close>; the values of field constants are as in the source.
\<close>

section \<open>Field elements\<close>

definition D :: fe where
  "D = [-10913610, 13857413, -15372611, 6949391, 114729, -8787816, -6275908, -3247719, -18696448, -12055116]"

definition D2 :: fe where
  "D2 = [-21827239, -5839606, -30745221, 13898782, 229458, 15978800, -12551817, -6495438, 29715968, 9444199]"

definition SQRT_M1 :: fe where
  "SQRT_M1 = [-32595792, -7943725, 9377950, 3500415, 12389472, -272473, -25146209, -2005654, 326686, 11406482]"

definition BASE_Y :: bytes where
  "BASE_Y = 0x58 # replicate 31 0x66"

definition ed_from_bytes :: "bytes \<Rightarrow> fe" where
  "ed_from_bytes bytes = (fe_from_bytes bytes)[9 := drop_bit 6 (load_4 bytes 28) AND 0x1ffffff]"

definition fe_neg :: "fe \<Rightarrow> fe" where
  "fe_neg a = map (\<lambda>x. i64 (- x)) a"

definition fe_square2 :: "fe \<Rightarrow> fe" where
  "fe_square2 a = (let h = fe_square a in fe_add h h)"

definition fe_pow22523 :: "fe \<Rightarrow> fe" where
  "fe_pow22523 a =
     (let t0 = fe_square a; t1 = fe_square t0; t1 = fe_square t1; t1 = fe_mul a t1; t0 = fe_mul t0 t1;
          t0 = fe_square t0; t0 = fe_mul t1 t0;
          t1 = fe_square t0; t1 = fe_squares 4 t1; t0 = fe_mul t1 t0;
          t1 = fe_square t0; t1 = fe_squares 9 t1; t1 = fe_mul t1 t0;
          t2 = fe_square t1; t2 = fe_squares 19 t2; t1 = fe_mul t2 t1;
          t1 = fe_square t1; t1 = fe_squares 9 t1; t0 = fe_mul t1 t0;
          t1 = fe_square t0; t1 = fe_squares 49 t1; t1 = fe_mul t1 t0;
          t2 = fe_square t1; t2 = fe_squares 99 t2; t1 = fe_mul t2 t1;
          t1 = fe_square t1; t1 = fe_squares 49 t1; t0 = fe_mul t1 t0;
          t0 = fe_square t0; t0 = fe_square t0
      in fe_mul a t0)"

definition fe_is_negative :: "fe \<Rightarrow> bool" where
  "fe_is_negative a \<longleftrightarrow> fe_to_bytes a ! 0 AND 1 = 1"

definition fe_is_zero :: "fe \<Rightarrow> bool" where
  "fe_is_zero a \<longleftrightarrow> fe_to_bytes a = zeros 32"

definition fe_abs :: "fe \<Rightarrow> fe" where
  "fe_abs a = (if fe_is_negative a then fe_neg a else a)"

definition fe_ct_swap :: "fe \<Rightarrow> fe \<Rightarrow> int \<Rightarrow> fe \<times> fe" where
  "fe_ct_swap a b msk =
     (let ts = map2 (\<lambda>x y. msk AND (x XOR y)) a b in (map2 (\<lambda>x t. x XOR t) a ts, map2 (\<lambda>y t. y XOR t) b ts))"

definition fe_ct_select :: "fe \<Rightarrow> fe \<Rightarrow> int \<Rightarrow> fe" where
  "fe_ct_select a b msk = map2 (\<lambda>x y. x XOR (msk AND (x XOR y))) a b"

section \<open>Points\<close>

record extended_point =
  ep_x :: fe
  ep_y :: fe
  ep_z :: fe
  ep_t :: fe

definition extended_point_identity :: extended_point where
  "extended_point_identity = \<lparr>ep_x = fe_zero, ep_y = fe_one, ep_z = fe_one, ep_t = fe_zero\<rparr>"

definition extended_point_from_bytes :: "bytes \<Rightarrow> extended_point option" where
  "extended_point_from_bytes bytes =
     (let y = ed_from_bytes bytes; z = fe_one; y2 = fe_square y;
          u = fe_sub y2 fe_one; v = fe_add (fe_mul y2 D) fe_one;
          v3 = fe_mul (fe_square v) v; v7 = fe_mul (fe_square v3) v; uv7 = fe_mul u v7;
          x = fe_mul (fe_mul (fe_pow22523 uv7) u) v3;
          vx2 = fe_mul (fe_square x) v;
          check = fe_sub vx2 u;
          root = (if \<not> fe_is_zero check
                  then let check2 = fe_add vx2 u in if \<not> fe_is_zero check2 then None else Some (fe_mul x SQRT_M1)
                  else Some x)
      in case root of
           None \<Rightarrow> None
         | Some x \<Rightarrow>
             (let x = (if fe_is_negative x \<noteq> (drop_bit 7 (bytes ! 31) = 1) then fe_neg x else x)
              in Some \<lparr>ep_x = x, ep_y = y, ep_z = z, ep_t = fe_mul x y\<rparr>))"

definition extended_point_to_bytes :: "extended_point \<Rightarrow> bytes" where
  "extended_point_to_bytes p =
     (let z_inv = fe_invert (ep_z p); x = fe_mul (ep_x p) z_inv; y = fe_mul (ep_y p) z_inv; output = fe_to_bytes y
      in output[31 := output ! 31 XOR push_bit 7 (if fe_is_negative x then 1 else 0)])"

definition extended_point_double :: "extended_point \<Rightarrow> extended_point" where
  "extended_point_double p =
     (let a = fe_square (ep_x p); b = fe_square (ep_y p); c = fe_square2 (ep_z p); d = fe_neg a;
          e = fe_sub (fe_sub (fe_square (fe_add (ep_x p) (ep_y p))) a) b;
          g = fe_add d b; f = fe_sub g c; h = fe_sub d b
      in \<lparr>ep_x = fe_mul e f, ep_y = fe_mul g h, ep_z = fe_mul f g, ep_t = fe_mul e h\<rparr>)"

definition extended_point_add :: "extended_point \<Rightarrow> extended_point \<Rightarrow> extended_point" where
  "extended_point_add p q =
     (let a = fe_mul (fe_sub (ep_y p) (ep_x p)) (fe_sub (ep_y q) (ep_x q));
          b = fe_mul (fe_add (ep_y p) (ep_x p)) (fe_add (ep_y q) (ep_x q));
          c = fe_mul (fe_mul (ep_t p) D2) (ep_t q);
          d = fe_add (fe_mul (ep_z p) (ep_z q)) (fe_mul (ep_z p) (ep_z q));
          e = fe_sub b a; f = fe_sub d c; g = fe_add d c; h = fe_add b a
      in \<lparr>ep_x = fe_mul e f, ep_y = fe_mul g h, ep_z = fe_mul f g, ep_t = fe_mul e h\<rparr>)"

definition extended_point_neg :: "extended_point \<Rightarrow> extended_point" where
  "extended_point_neg p = p\<lparr>ep_x := fe_neg (ep_x p), ep_t := fe_neg (ep_t p)\<rparr>"

definition ct_swap :: "extended_point \<Rightarrow> extended_point \<Rightarrow> int \<Rightarrow> extended_point \<times> extended_point" where
  "ct_swap a b choice =
     (let mask = i64 (- choice);
          (ax, bx) = fe_ct_swap (ep_x a) (ep_x b) mask; (ay, by') = fe_ct_swap (ep_y a) (ep_y b) mask;
          (az, bz) = fe_ct_swap (ep_z a) (ep_z b) mask; (at, bt) = fe_ct_swap (ep_t a) (ep_t b) mask
      in (\<lparr>ep_x = ax, ep_y = ay, ep_z = az, ep_t = at\<rparr>, \<lparr>ep_x = bx, ep_y = by', ep_z = bz, ep_t = bt\<rparr>))"

definition extended_point_ct_select :: "extended_point \<Rightarrow> extended_point \<Rightarrow> int \<Rightarrow> extended_point" where
  "extended_point_ct_select a b choice =
     (let mask = i64 (- choice)
      in \<lparr>ep_x = fe_ct_select (ep_x a) (ep_x b) mask, ep_y = fe_ct_select (ep_y a) (ep_y b) mask,
          ep_z = fe_ct_select (ep_z a) (ep_z b) mask, ep_t = fe_ct_select (ep_t a) (ep_t b) mask\<rparr>)"

definition scalar_mul_step :: "bytes \<Rightarrow> extended_point \<times> extended_point \<Rightarrow> nat \<Rightarrow> extended_point \<times> extended_point" where
  "scalar_mul_step scalar st i =
     (let (r0, r1) = st; bit' = scalar_bit scalar i;
          (r0, r1) = ct_swap r0 r1 bit';
          r1 = extended_point_add r0 r1;
          r0 = extended_point_double r0
      in ct_swap r0 r1 bit')"

definition extended_point_scalar_mul :: "extended_point \<Rightarrow> bytes \<Rightarrow> extended_point" where
  "extended_point_scalar_mul p scalar = fst (foldl (scalar_mul_step scalar) (extended_point_identity, p) (rev [0..<256]))"

text \<open>\<open>junk\<close> is the uninitialised point that is left when decoding fails.\<close>

definition basepoint :: "extended_point \<Rightarrow> extended_point" where
  "basepoint junk = (case extended_point_from_bytes BASE_Y of Some p \<Rightarrow> p | None \<Rightarrow> junk)"

section \<open>Scalars\<close>

text \<open>Numbers of 21-bit limbs. Where the products overflow, which C leaves undefined, they wrap.\<close>

definition L_LIMBS :: "int list" where
  "L_LIMBS = [0x1cf5d3ed, 0x009318d2, 0x1de73596, 0x1df3bd45, 0x0000014d, 0, 0, 0, 0, 0, 0, 0x00200000]"

definition sub_at :: "int list \<Rightarrow> nat \<Rightarrow> int \<Rightarrow> int list" where
  "sub_at a i x = a[i := i64 (a ! i - x)]"

definition reduce_limb :: "int list \<Rightarrow> nat \<Rightarrow> int list" where
  "reduce_limb a i =
     (let q = a ! i
      in if q = 0 then a
         else let shift = i - 11;
                  a = sub_at a (shift + 0) (q * 0x1cf5d3ed);
                  a = sub_at a (shift + 1) (q * 0x009318d2);
                  a = sub_at a (shift + 2) (q * 0x1de73596);
                  a = sub_at a (shift + 3) (q * 0x1df3bd45);
                  a = sub_at a (shift + 4) (q * 0x0000014d);
                  a = sub_at a (shift + 11) (q * 0x00200000)
              in a[i := 0])"

definition carry21 :: "int list \<Rightarrow> nat \<Rightarrow> int list" where
  "carry21 a i = (let carry = drop_bit 21 (a ! i); a = a[i := a ! i AND 0x1fffff] in a[i + 1 := i64 (a ! (i + 1) + carry)])"

definition lift_negative :: "int list \<Rightarrow> nat \<Rightarrow> int list" where
  "lift_negative a i = (if a ! i < 0 then let a = a[i := a ! i + 0x200000] in a[i + 1 := i64 (a ! (i + 1) - 1)] else a)"

definition borrow_step :: "int list \<times> int \<Rightarrow> nat \<Rightarrow> int list \<times> int" where
  "borrow_step st i =
     (let (tmp, borrow) = st; tmp = tmp[i := i64 (tmp ! i + borrow)]
      in if tmp ! i < 0 then (tmp[i := tmp ! i + 0x200000], - 1) else (tmp, 0))"

definition sc_reduce_limbs :: "int list \<Rightarrow> int list" where
  "sc_reduce_limbs a =
     (let a = foldl reduce_limb a (rev [12..<24]);
          a = foldl (\<lambda>a j. foldl lift_negative (foldl carry21 a [0..<11]) [0..<11]) a [0..<2::nat];
          tmp = map (\<lambda>i. i64 (a ! i - L_LIMBS ! i)) [0..<12];
          (tmp, borrow) = foldl borrow_step (tmp, 0) [0..<11];
          tmp = tmp[11 := i64 (tmp ! 11 + borrow)];
          mask = NOT (drop_bit 63 (tmp ! 11))
      in map (\<lambda>i. (a ! i AND NOT mask) OR (tmp ! i AND mask)) [0..<12] @ drop 12 a)"

definition sc_load :: "bytes \<Rightarrow> int list" where
  "sc_load s =
     [0x1fffff AND load_3 s 0, 0x1fffff AND drop_bit 5 (load_4 s 2), 0x1fffff AND drop_bit 2 (load_3 s 5),
      0x1fffff AND drop_bit 7 (load_4 s 7), 0x1fffff AND drop_bit 4 (load_4 s 10), 0x1fffff AND drop_bit 1 (load_3 s 13),
      0x1fffff AND drop_bit 6 (load_4 s 15), 0x1fffff AND drop_bit 3 (load_3 s 18), 0x1fffff AND load_3 s 21,
      0x1fffff AND drop_bit 5 (load_4 s 23), 0x1fffff AND drop_bit 2 (load_3 s 26), drop_bit 7 (load_4 s 28)]"

definition sc_load_wide :: "bytes \<Rightarrow> int list" where
  "sc_load_wide s =
     [0x1fffff AND load_3 s 0, 0x1fffff AND drop_bit 5 (load_4 s 2), 0x1fffff AND drop_bit 2 (load_3 s 5),
      0x1fffff AND drop_bit 7 (load_4 s 7), 0x1fffff AND drop_bit 4 (load_4 s 10), 0x1fffff AND drop_bit 1 (load_3 s 13),
      0x1fffff AND drop_bit 6 (load_4 s 15), 0x1fffff AND drop_bit 3 (load_3 s 18), 0x1fffff AND load_3 s 21,
      0x1fffff AND drop_bit 5 (load_4 s 23), 0x1fffff AND drop_bit 2 (load_3 s 26), 0x1fffff AND drop_bit 7 (load_4 s 28),
      0x1fffff AND drop_bit 4 (load_4 s 31), 0x1fffff AND drop_bit 1 (load_3 s 34), 0x1fffff AND drop_bit 6 (load_4 s 36),
      0x1fffff AND drop_bit 3 (load_3 s 39), 0x1fffff AND load_3 s 42, 0x1fffff AND drop_bit 5 (load_4 s 44),
      0x1fffff AND drop_bit 2 (load_3 s 47), 0x1fffff AND drop_bit 7 (load_4 s 49), 0x1fffff AND drop_bit 4 (load_4 s 52),
      0x1fffff AND drop_bit 1 (load_3 s 55), 0x1fffff AND drop_bit 6 (load_4 s 57), drop_bit 3 (load_4 s 60)]"

definition sc_pack :: "int list \<Rightarrow> bytes" where
  "sc_pack a =
     map word_of_int
       [a ! 0, drop_bit 8 (a ! 0), drop_bit 16 (a ! 0) OR push_bit 5 (a ! 1), drop_bit 3 (a ! 1),
        drop_bit 11 (a ! 1), drop_bit 19 (a ! 1) OR push_bit 2 (a ! 2), drop_bit 6 (a ! 2), drop_bit 14 (a ! 2) OR push_bit 7 (a ! 3),
        drop_bit 1 (a ! 3), drop_bit 9 (a ! 3), drop_bit 17 (a ! 3) OR push_bit 4 (a ! 4), drop_bit 4 (a ! 4),
        drop_bit 12 (a ! 4), drop_bit 20 (a ! 4) OR push_bit 1 (a ! 5), drop_bit 7 (a ! 5), drop_bit 15 (a ! 5) OR push_bit 6 (a ! 6),
        drop_bit 2 (a ! 6), drop_bit 10 (a ! 6), drop_bit 18 (a ! 6) OR push_bit 3 (a ! 7), drop_bit 5 (a ! 7),
        drop_bit 13 (a ! 7), a ! 8, drop_bit 8 (a ! 8), drop_bit 16 (a ! 8) OR push_bit 5 (a ! 9),
        drop_bit 3 (a ! 9), drop_bit 11 (a ! 9), drop_bit 19 (a ! 9) OR push_bit 2 (a ! 10), drop_bit 6 (a ! 10),
        drop_bit 14 (a ! 10) OR push_bit 7 (a ! 11), drop_bit 1 (a ! 11), drop_bit 9 (a ! 11), drop_bit 17 (a ! 11)]"

definition sc_reduce :: "bytes \<Rightarrow> bytes" where
  "sc_reduce s = sc_pack (sc_reduce_limbs (sc_load_wide s))"

definition sc_muladd :: "bytes \<Rightarrow> bytes \<Rightarrow> bytes \<Rightarrow> bytes" where
  "sc_muladd a b c =
     (let a_limbs = sc_load a; b_limbs = sc_load b; c_limbs = sc_load c;
          product = foldl (\<lambda>p i. foldl (\<lambda>p j. p[i + j := i64 (p ! (i + j) + a_limbs ! i * b_limbs ! j)]) p [0..<12]) (replicate 24 0) [0..<12];
          product = foldl (\<lambda>p i. p[i := i64 (p ! i + c_limbs ! i)]) product [0..<12];
          product = foldl carry21 product [0..<23]
      in sc_pack (sc_reduce_limbs product))"

text \<open>The loop over the bytes can only return at the last byte; the comparison with the limbs follows.\<close>

definition sc_is_valid :: "bytes \<Rightarrow> bool" where
  "sc_is_valid s =
     (let val = push_bit 24 (ucast (s ! 31)) OR push_bit 16 (ucast (s ! 30)) OR push_bit 8 (ucast (s ! 29)) OR ucast (s ! 28) :: u64;
          val = drop_bit 7 val; top = word_of_int (drop_bit 17 (L_LIMBS ! 11))
      in if drop_bit 17 val > top then False
         else if drop_bit 17 val < top then True
         else let carry = foldl (\<lambda>carry i. drop_bit 63 (word_of_int (sc_load s ! i) - word_of_int (L_LIMBS ! i) - carry) AND 1) (0 :: u64) [0..<12]
              in if carry = 0 then True else carry \<noteq> 0)"

text \<open>The definition of the same name in the second half of the file.\<close>

definition L_BYTES :: bytes where
  "L_BYTES = [0xed, 0xd3, 0xf5, 0x5c, 0x1a, 0x63, 0x12, 0x58, 0xd6, 0x9c, 0xf7, 0xa2, 0xde, 0xf9, 0xde, 0x14,
     0, 0, 0, 0, 0, 0, 0, 0, 0, 0, 0, 0, 0, 0, 0, 0x10]"

definition sc_is_valid2 :: "bytes \<Rightarrow> bool" where
  "sc_is_valid2 s =
     (if length s \<noteq> 32 then False
      else foldl (\<lambda>borrow i. drop_bit 15 (uint (s ! i) - uint (L_BYTES ! i) - borrow) AND 1) 0 [0..<32] = (1 :: int))"

section \<open>Keys and signatures\<close>

definition sha512_all :: "bytes list \<Rightarrow> bytes" where
  "sha512_all pieces = snd (sha512_finalize (foldl sha512_update sha512_init pieces))"

definition ed25519_public_key :: "extended_point \<Rightarrow> bytes \<Rightarrow> bytes" where
  "ed25519_public_key junk private_key =
     (let h = sha512_hash private_key; s = x25519_clamp (slice h 0 32)
      in extended_point_to_bytes (extended_point_scalar_mul (basepoint junk) s))"

definition ed25519_sign :: "extended_point \<Rightarrow> bytes \<Rightarrow> bytes \<Rightarrow> bytes" where
  "ed25519_sign junk private_key message =
     (let h = sha512_hash private_key; s = x25519_clamp (slice h 0 32);
          b = basepoint junk;
          a = extended_point_to_bytes (extended_point_scalar_mul b s);
          r = sc_reduce (sha512_all [slice h 32 32, message]);
          r_bytes = extended_point_to_bytes (extended_point_scalar_mul b r);
          k = sc_reduce (sha512_all [r_bytes, a, message]);
          s_scalar = sc_muladd k s r
      in r_bytes @ s_scalar)"

definition ed25519_verify :: "extended_point \<Rightarrow> bytes \<Rightarrow> bytes \<Rightarrow> bytes \<Rightarrow> bool" where
  "ed25519_verify junk public_key message signature =
     (case extended_point_from_bytes public_key of
        None \<Rightarrow> False
      | Some a_point \<Rightarrow>
          (let s = slice signature 32 32
           in if \<not> sc_is_valid s then False
              else let k = sc_reduce (sha512_all [slice signature 0 32, public_key, message]);
                       sb = extended_point_scalar_mul (basepoint junk) s
                   in case extended_point_from_bytes (slice signature 0 32) of
                        None \<Rightarrow> False
                      | Some r_point \<Rightarrow>
                          (let ka = extended_point_scalar_mul a_point k; rhs = extended_point_add r_point ka
                           in constant_time_eq (extended_point_to_bytes sb) (extended_point_to_bytes rhs))))"


section \<open>The field functions\<close>

lemma fe_is_ed_from_bytes:
  assumes "length s = 32"
  shows "fe_is 2 (ed_from_bytes s) (int (le_nat s) mod 2 ^ 255)"
proof -
  let ?N = "int (le_nat s)"
  have last: "drop_bit 6 (load_4 s 28) AND 0x1ffffff = take_bit 25 (drop_bit 230 ?N)"
    using mask_limb [of 6 25 32 "0x1ffffff" 224 ?N] assms by (simp add: load_4_eq mask_eq_exp_minus_1)
  have limbs: "ed_from_bytes s = map (\<lambda>(w, e). take_bit w (drop_bit e ?N))
    [(26, 0), (25, 26), (26, 51), (25, 77), (26, 102), (25, 128), (26, 153), (25, 179), (26, 204), (25, 230)]"
    by (simp add: ed_from_bytes_def fe_from_bytes_limbs [OF assms] last)
  have ok: "fe_ok 2 (ed_from_bytes s)" unfolding limbs using limb_small by (simp add: fe_ok_def del: power_numeral)
  have "fe_val (ed_from_bytes s) = take_bit 255 ?N"
    unfolding limbs fe_val_def list.map prod.case nth_list10
    using take_bit_split [of 0 ?N 26] take_bit_split [of 26 ?N 25] take_bit_split [of 51 ?N 26] take_bit_split [of 77 ?N 25]
      take_bit_split [of 102 ?N 26] take_bit_split [of 128 ?N 25] take_bit_split [of 153 ?N 26] take_bit_split [of 179 ?N 25]
      take_bit_split [of 204 ?N 26] take_bit_split [of 230 ?N 25] by simp
  with ok show ?thesis by (simp add: fe_is_def take_bit_eq_mod)
qed

lemma fe_is_neg: "fe_is c f x \<Longrightarrow> c \<le> 2 ^ 30 \<Longrightarrow> fe_is c (fe_neg f) (- x)"
proof -
  assume f: "fe_is c f x" and c: "c \<le> 2 ^ 30"
  have ok: "fe_ok c f" "length f = 10" using f by (simp_all add: fe_is_def fe_ok_def)
  have "c * 2 ^ 25 \<le> 2 ^ 55" using c by simp
  then have "i64 (- x) = - x" if "x \<in> set f" for x using ok(1) that by (intro i64_id) (force simp: fe_ok_def below_def)
  then have n: "fe_neg f = map uminus f" by (simp add: fe_neg_def)
  have "fe_val (fe_neg f) = - fe_val f" using ok(2) by (simp add: n fe_val_def)
  moreover have "fe_ok c (fe_neg f)" using ok by (simp add: n fe_ok_def below_def)
  ultimately show ?thesis using f by (simp add: fe_is_def) (metis mod_minus_eq)
qed

lemma fe_is_square2: "fe_is c f x \<Longrightarrow> c \<le> 2 ^ 5 \<Longrightarrow> fe_is 2 (fe_square2 f) (2 * x ^ 2)"
  using fe_is_add [of 1 "fe_square f" "x ^ 2" 1 "fe_square f" "x ^ 2"] fe_is_square [of c f x] by (simp add: fe_square2_def Let_def)

lemma nat_bytes_eq_iff:
  assumes "0 \<le> a" "a < P25519" "0 \<le> b" "b < P25519"
  shows "nat_bytes 32 (nat a) = nat_bytes 32 (nat b) \<longleftrightarrow> a = b"
proof
  have le: "le_nat (nat_bytes k n) = n mod 256 ^ k" for k n
  proof (induction k arbitrary: n)
    case (Suc k)
    have "unat (of_nat (n mod 256) :: byte) = n mod 256" by (simp add: unat_of_nat take_bit_eq_mod)
    with Suc show ?case by (simp add: mod_mult2_eq add.commute)
  qed simp
  assume "nat_bytes 32 (nat a) = nat_bytes 32 (nat b)"
  then have "nat a mod 256 ^ 32 = nat b mod 256 ^ 32" by (metis le)
  moreover have "nat a < 256 ^ 32" "nat b < 256 ^ 32" using assms by (simp_all add: P25519_def nat_less_iff)
  ultimately show "a = b" using assms by (simp add: nat_eq_iff)
qed simp

lemma nat_bytes_0: "nat_bytes k 0 = zeros k"
  by (induction k) (simp_all add: zeros_def)

lemma fe_is_zero_iff:
  assumes "fe_is c f x" "c \<le> 2 ^ 10"
  shows "fe_is_zero f \<longleftrightarrow> P25519 dvd x"
proof -
  have "fe_is_zero f \<longleftrightarrow> nat_bytes 32 (nat (x mod P25519)) = nat_bytes 32 (nat 0)"
    by (simp add: fe_is_zero_def fe_to_bytes_eq [OF assms] nat_bytes_0)
  also have "\<dots> \<longleftrightarrow> x mod P25519 = 0" by (rule nat_bytes_eq_iff) (simp_all add: P25519_def)
  finally show ?thesis by (simp add: dvd_eq_mod_eq_0)
qed

section \<open>The curve\<close>

text \<open>The curve \<open>y\<^sup>2 - x\<^sup>2 = 1 + d x\<^sup>2 y\<^sup>2\<close> with \<open>d = -121665/121666\<close> in extended coordinates.\<close>

definition ed_d :: int where
  "ed_d = fe_val D"

lemma ed_d_value: "P25519 dvd 121666 * ed_d + 121665"
  by (simp add: ed_d_def D_def fe_val_def P25519_def)

type_synonym ed_point = "int \<times> int \<times> int \<times> int"

fun on_curve :: "ed_point \<Rightarrow> bool" where
  "on_curve (X, Y, Z, T) \<longleftrightarrow> P25519 dvd X * Y - Z * T \<and> P25519 dvd Y ^ 2 - X ^ 2 - Z ^ 2 - ed_d * T ^ 2"

fun ed_double :: "ed_point \<Rightarrow> ed_point" where
  "ed_double (X, Y, Z, T) =
     (let e = 2 * X * Y; g = Y ^ 2 - X ^ 2; f = g - 2 * Z ^ 2; h = - (X ^ 2) - Y ^ 2 in (e * f, g * h, f * g, e * h))"

fun ed_add :: "ed_point \<Rightarrow> ed_point \<Rightarrow> ed_point" where
  "ed_add (X1, Y1, Z1, T1) (X2, Y2, Z2, T2) =
     (let e = 2 * (X1 * Y2 + X2 * Y1); h = 2 * (Y1 * Y2 + X1 * X2); f = 2 * (Z1 * Z2 - ed_d * T1 * T2); g = 2 * (Z1 * Z2 + ed_d * T1 * T2)
      in (e * f, g * h, f * g, e * h))"

lemma on_curve_double:
  assumes "on_curve p"
  shows "on_curve (ed_double p)"
proof -
  obtain X Y Z T where p: "p = (X, Y, Z, T)" by (cases p)
  define J K where "J = X * Y - Z * T" and "K = Y ^ 2 - X ^ 2 - Z ^ 2 - ed_d * T ^ 2"
  have d: "P25519 dvd J" "P25519 dvd K" using assms by (simp_all add: p J_def K_def)
  define e g f h where "e = 2 * X * Y" and "g = Y ^ 2 - X ^ 2" and "f = g - 2 * Z ^ 2" and "h = - (X ^ 2) - Y ^ 2"
  have "(g * h) ^ 2 - (e * f) ^ 2 - (f * g) ^ 2 - ed_d * (e * h) ^ 2 = (e ^ 2 + g ^ 2) * 4 * (Z ^ 2 * K - ed_d * (X * Y + Z * T) * J)"
    unfolding e_def f_def g_def h_def J_def K_def by algebra
  moreover have "P25519 dvd (e ^ 2 + g ^ 2) * 4 * (Z ^ 2 * K - ed_d * (X * Y + Z * T) * J)" using d by simp
  moreover have "(e * f) * (g * h) - (f * g) * (e * h) = 0" by simp
  ultimately show ?thesis by (simp add: p Let_def e_def [symmetric] g_def [symmetric] f_def [symmetric] h_def [symmetric])
qed

lemma on_curve_add:
  assumes "on_curve p" "on_curve q"
  shows "on_curve (ed_add p q)"
proof -
  obtain X1 Y1 Z1 T1 X2 Y2 Z2 T2 where p: "p = (X1, Y1, Z1, T1)" and q: "q = (X2, Y2, Z2, T2)" by (cases p, cases q)
  define J1 K1 J2 K2 where "J1 = X1 * Y1 - Z1 * T1" and "K1 = Y1 ^ 2 - X1 ^ 2 - Z1 ^ 2 - ed_d * T1 ^ 2"
    and "J2 = X2 * Y2 - Z2 * T2" and "K2 = Y2 ^ 2 - X2 ^ 2 - Z2 ^ 2 - ed_d * T2 ^ 2"
  have d: "P25519 dvd J1" "P25519 dvd K1" "P25519 dvd J2" "P25519 dvd K2" using assms by (simp_all add: p q J1_def K1_def J2_def K2_def)
  define e h f g w t R where "e = X1 * Y2 + X2 * Y1" and "h = Y1 * Y2 + X1 * X2" and "f = Z1 * Z2 - ed_d * T1 * T2"
    and "g = Z1 * Z2 + ed_d * T1 * T2" and "w = X1 * Y2 - X2 * Y1" and "t = T1 * Z2 - T2 * Z1"
    and "R = J1 * (Y2 ^ 2 - X2 ^ 2) + Z1 * T1 * K2 - J2 * (Y1 ^ 2 - X1 ^ 2) - Z2 * T2 * K1"
  have hw: "h * w = f * t + R" unfolding h_def w_def f_def t_def R_def J1_def J2_def K1_def K2_def by algebra
  have R: "P25519 dvd R" using d by (simp add: R_def)
  define S where "S = K1 * (Y2 ^ 2 - X2 ^ 2) + (Z1 ^ 2 + ed_d * T1 ^ 2) * K2"
  have S: "h ^ 2 - e ^ 2 - g ^ 2 = ed_d * t ^ 2 + S"
    unfolding h_def e_def g_def t_def S_def K1_def K2_def by algebra
  have Q: "4 * (Z1 * T1) * (Z2 * T2) - e ^ 2 = - (w ^ 2) - 4 * (J1 * (Z2 * T2) + X1 * Y1 * J2)"
    unfolding e_def w_def J1_def J2_def by algebra
  have gf: "g ^ 2 = f ^ 2 + 4 * ed_d * (Z1 * T1) * (Z2 * T2)" unfolding g_def f_def by algebra
  have "(g * h) ^ 2 - (e * f) ^ 2 - (f * g) ^ 2 - ed_d * (e * h) ^ 2
      = f ^ 2 * (h ^ 2 - e ^ 2 - g ^ 2) + ed_d * h ^ 2 * (4 * (Z1 * T1) * (Z2 * T2) - e ^ 2)"
    using gf by algebra
  also have "\<dots> = f ^ 2 * S - ed_d * R * (2 * f * t + R) - 4 * ed_d * h ^ 2 * (J1 * (Z2 * T2) + X1 * Y1 * J2)"
    unfolding S Q using hw by algebra
  also have "P25519 dvd \<dots>" using d R by (simp add: S_def)
  finally have c: "P25519 dvd (g * h) ^ 2 - (e * f) ^ 2 - (f * g) ^ 2 - ed_d * (e * h) ^ 2" .
  have 16: "(2 * g * (2 * h)) ^ 2 - (2 * e * (2 * f)) ^ 2 - (2 * f * (2 * g)) ^ 2 - ed_d * (2 * e * (2 * h)) ^ 2
      = 16 * ((g * h) ^ 2 - (e * f) ^ 2 - (f * g) ^ 2 - ed_d * (e * h) ^ 2)" by algebra
  have "P25519 dvd (2 * g * (2 * h)) ^ 2 - (2 * e * (2 * f)) ^ 2 - (2 * f * (2 * g)) ^ 2 - ed_d * (2 * e * (2 * h)) ^ 2"
    unfolding 16 using c by (rule dvd_mult)
  moreover have "2 * e * (2 * f) * (2 * g * (2 * h)) - 2 * f * (2 * g) * (2 * e * (2 * h)) = 0" by simp
  ultimately show ?thesis
    unfolding p q ed_add.simps Let_def on_curve.simps e_def [symmetric] h_def [symmetric] f_def [symmetric] g_def [symmetric] by simp
qed

section \<open>Points and their coordinates\<close>

text \<open>A point of the code holds coordinates that are equal to those of a point of the curve modulo the prime.\<close>

fun ext_is :: "extended_point \<Rightarrow> ed_point \<Rightarrow> bool" where
  "ext_is p (X, Y, Z, T) \<longleftrightarrow> fe_is 2 (ep_x p) X \<and> fe_is 2 (ep_y p) Y \<and> fe_is 2 (ep_z p) Z \<and> fe_is 2 (ep_t p) T"

lemma fe_is_D: "fe_is 1 D ed_d" "fe_is 1 D2 (2 * ed_d)"
  by (simp_all add: fe_is_def fe_ok_def below_def D_def D2_def ed_d_def fe_val_def P25519_def)

lemma extended_point_double_is:
  assumes "ext_is p P"
  shows "ext_is (extended_point_double p) (ed_double P)"
proof -
  obtain X Y Z T where P: "P = (X, Y, Z, T)" by (cases P)
  have c: "fe_is 2 (ep_x p) X" "fe_is 2 (ep_y p) Y" "fe_is 2 (ep_z p) Z" using assms by (simp_all add: P)
  note a = fe_is_square [OF c(1)] and b = fe_is_square [OF c(2)] and z2 = fe_is_square2 [OF c(3)]
  note d = fe_is_neg [OF a]
  note e = fe_is_sub [OF fe_is_sub [OF fe_is_square [OF fe_is_add [OF c(1,2)]] a] b]
  note g = fe_is_add [OF d b] note f = fe_is_sub [OF g z2] note h = fe_is_sub [OF d b]
  have eqs: "((X + Y) ^ 2 - X ^ 2 - Y ^ 2) = 2 * X * Y" "- (X ^ 2) + Y ^ 2 = Y ^ 2 - X ^ 2" by (simp_all add: power2_sum)
  show ?thesis
    using fe_is_mono [OF fe_is_mul [OF e f], of 2] fe_is_mono [OF fe_is_mul [OF g h], of 2]
      fe_is_mono [OF fe_is_mul [OF f g], of 2] fe_is_mono [OF fe_is_mul [OF e h], of 2]
    unfolding P by (simp add: extended_point_double_def Let_def eqs)
qed

lemma extended_point_add_is:
  assumes "ext_is p P" "ext_is q Q"
  shows "ext_is (extended_point_add p q) (ed_add P Q)"
proof -
  obtain X1 Y1 Z1 T1 X2 Y2 Z2 T2 where P: "P = (X1, Y1, Z1, T1)" and Q: "Q = (X2, Y2, Z2, T2)" by (cases P, cases Q)
  have p: "fe_is 2 (ep_x p) X1" "fe_is 2 (ep_y p) Y1" "fe_is 2 (ep_z p) Z1" "fe_is 2 (ep_t p) T1"
    and q: "fe_is 2 (ep_x q) X2" "fe_is 2 (ep_y q) Y2" "fe_is 2 (ep_z q) Z2" "fe_is 2 (ep_t q) T2" using assms by (simp_all add: P Q)
  note a = fe_is_mul [OF fe_is_sub [OF p(2,1)] fe_is_sub [OF q(2,1)]] and b = fe_is_mul [OF fe_is_add [OF p(2,1)] fe_is_add [OF q(2,1)]]
  note c = fe_is_mul [OF fe_is_mul [OF p(4) fe_is_D(2)] q(4)] and d = fe_is_add [OF fe_is_mul [OF p(3) q(3)] fe_is_mul [OF p(3) q(3)]]
  note e = fe_is_sub [OF b a] and f = fe_is_sub [OF d c] and g = fe_is_add [OF d c] and h = fe_is_add [OF b a]
  have eqs: "(Y1 + X1) * (Y2 + X2) - (Y1 - X1) * (Y2 - X2) = 2 * (X1 * Y2 + X2 * Y1)"
    "(Y1 + X1) * (Y2 + X2) + (Y1 - X1) * (Y2 - X2) = 2 * (Y1 * Y2 + X1 * X2)"
    "Z1 * Z2 + Z1 * Z2 - T1 * (2 * ed_d) * T2 = 2 * (Z1 * Z2 - ed_d * T1 * T2)"
    "Z1 * Z2 + Z1 * Z2 + T1 * (2 * ed_d) * T2 = 2 * (Z1 * Z2 + ed_d * T1 * T2)" by (simp_all add: algebra_simps)
  have "ext_is (extended_point_add p q)
    ((2 * (X1 * Y2 + X2 * Y1)) * (2 * (Z1 * Z2 - ed_d * T1 * T2)), (2 * (Z1 * Z2 + ed_d * T1 * T2)) * (2 * (Y1 * Y2 + X1 * X2)),
     (2 * (Z1 * Z2 - ed_d * T1 * T2)) * (2 * (Z1 * Z2 + ed_d * T1 * T2)), (2 * (X1 * Y2 + X2 * Y1)) * (2 * (Y1 * Y2 + X1 * X2)))"
    using fe_is_mono [OF fe_is_mul [OF e f], of 2] fe_is_mono [OF fe_is_mul [OF g h], of 2]
      fe_is_mono [OF fe_is_mul [OF f g], of 2] fe_is_mono [OF fe_is_mul [OF e h], of 2]
    unfolding eqs by (simp add: extended_point_add_def Let_def)
  then show ?thesis unfolding P Q ed_add.simps Let_def .
qed

section \<open>Scalar multiplication\<close>

definition ed_identity :: ed_point where
  "ed_identity = (0, 1, 1, 0)"

definition ed_ladder_step :: "nat \<Rightarrow> ed_point \<times> ed_point \<Rightarrow> nat \<Rightarrow> ed_point \<times> ed_point" where
  "ed_ladder_step k st t =
     (case st of (r0, r1) \<Rightarrow> if odd (k div 2 ^ t) then (ed_add r1 r0, ed_double r1) else (ed_double r0, ed_add r0 r1))"

definition ed_scalar_mul :: "nat \<Rightarrow> ed_point \<Rightarrow> ed_point" where
  "ed_scalar_mul k P = fst (foldl (ed_ladder_step k) (ed_identity, P) (rev [0..<256]))"

lemma ext_is_lengths: "ext_is p P \<Longrightarrow> length (ep_x p) = 10 \<and> length (ep_y p) = 10 \<and> length (ep_z p) = 10 \<and> length (ep_t p) = 10"
  by (cases P) (auto dest: fe_is_length)

lemma fe_ct_swap_eq: "length a = length b \<Longrightarrow> fe_ct_swap a b 0 = (a, b)" "length a = length b \<Longrightarrow> fe_ct_swap a b (- 1) = (b, a)"
  using map2_xor_cancel [of a b] map2_xor_zero [of a b] by (simp_all add: fe_ct_swap_def Let_def)

lemma ct_swap_eq:
  assumes "ext_is p P" "ext_is q Q"
  shows "ct_swap p q (of_bool b) = (if b then (q, p) else (p, q))"
  using ext_is_lengths [OF assms(1)] ext_is_lengths [OF assms(2)] by (cases b) (simp_all add: ct_swap_def Let_def fe_ct_swap_eq i64_id)

lemma scalar_mul_step_is:
  assumes "ext_is r0 R0" "ext_is r1 R1" "i < 8 * length s"
  shows "ext_is (fst (scalar_mul_step s (r0, r1) i)) (fst (ed_ladder_step (le_nat s) (R0, R1) i))
    \<and> ext_is (snd (scalar_mul_step s (r0, r1) i)) (snd (ed_ladder_step (le_nat s) (R0, R1) i))"
proof -
  define b where "b = odd (le_nat s div 2 ^ i)"
  have bit: "scalar_bit s i = of_bool b" using scalar_bit_eq [OF assms(3)] by (simp add: b_def)
  note add = extended_point_add_is and dbl = extended_point_double_is
  show ?thesis
  proof (cases b)
    case True
    then show ?thesis
      using ct_swap_eq [OF assms(1,2), of b] ct_swap_eq [OF dbl [OF assms(2)] add [OF assms(2,1)], of b] add [OF assms(2,1)] dbl [OF assms(2)]
      by (simp add: scalar_mul_step_def bit ed_ladder_step_def b_def [symmetric] Let_def)
  next
    case False
    then show ?thesis
      using ct_swap_eq [OF assms(1,2), of b] ct_swap_eq [OF dbl [OF assms(1)] add [OF assms(1,2)], of b] add [OF assms(1,2)] dbl [OF assms(1)]
      by (simp add: scalar_mul_step_def bit ed_ladder_step_def b_def [symmetric] Let_def)
  qed
qed

lemma scalar_mul_run_is:
  assumes "ext_is r0 R0" "ext_is r1 R1" "\<forall>i \<in> set ts. i < 8 * length s"
  shows "ext_is (fst (foldl (scalar_mul_step s) (r0, r1) ts)) (fst (foldl (ed_ladder_step (le_nat s)) (R0, R1) ts))"
  using assms
proof (induction ts arbitrary: r0 r1 R0 R1)
  case (Cons i ts)
  obtain q0 q1 Q0 Q1 where st: "scalar_mul_step s (r0, r1) i = (q0, q1)" "ed_ladder_step (le_nat s) (R0, R1) i = (Q0, Q1)" by (metis surj_pair)
  have "ext_is q0 Q0" "ext_is q1 Q1" using scalar_mul_step_is [OF Cons.prems(1,2), of i s] Cons.prems(3) st by simp_all
  with Cons.IH [of q0 Q0 q1 Q1] Cons.prems(3) show ?case by (simp add: st)
qed simp

lemma extended_point_scalar_mul_is:
  assumes "ext_is p P" "length s = 32"
  shows "ext_is (extended_point_scalar_mul p s) (ed_scalar_mul (le_nat s) P)"
proof -
  have "ext_is extended_point_identity ed_identity"
    using fe_is_mono [OF fe_is_zero_one(1), of 2] fe_is_mono [OF fe_is_zero_one(2), of 2] by (simp add: extended_point_identity_def ed_identity_def)
  then show ?thesis unfolding extended_point_scalar_mul_def ed_scalar_mul_def
    using assms by (intro scalar_mul_run_is) simp_all
qed

lemma on_curve_scalar_mul:
  assumes "on_curve P"
  shows "on_curve (ed_scalar_mul k P)"
proof -
  have "on_curve (fst (foldl (ed_ladder_step k) (R0, R1) ts))" if "on_curve R0" "on_curve R1" for R0 R1 ts
    using that by (induction ts arbitrary: R0 R1) (simp_all add: ed_ladder_step_def on_curve_add on_curve_double)
  moreover have "on_curve ed_identity" by (simp add: ed_identity_def)
  ultimately show ?thesis using assms by (simp add: ed_scalar_mul_def)
qed

section \<open>Decoding\<close>

lemma fe_pow22523_is:
  assumes "fe_is c a x" "c \<le> 2 ^ 5"
  shows "fe_is 1 (fe_pow22523 a) (x ^ (2 ^ 252 - 3))"
proof -
  have c: "c * 1 \<le> 2 ^ 10" "1 * 1 \<le> (2 ^ 10 :: int)" "1 \<le> (2 ^ 5 :: int)" using assms by simp_all
  note M = fe_is_pow_mul [OF _ _ c(2)] and S = fe_is_pow_square [OF _ c(3)]
  have a: "fe_is c a (x ^ 1)" using assms(1) by simp
  define t0 t1 u0 where "t0 = fe_square a" and "t1 = fe_mul a (fe_square (fe_square t0))" and "u0 = fe_mul t1 (fe_square (fe_mul t0 t1))"
  have t0: "fe_is 1 t0 (x ^ (2 * 1))" unfolding t0_def by (rule fe_is_pow_square [OF a assms(2)])
  have t1: "fe_is 1 t1 (x ^ (1 + 2 * (2 * (2 * 1))))" unfolding t1_def by (rule fe_is_pow_mul [OF a S [OF S [OF t0]] c(1)])
  have u0: "fe_is 1 u0 (x ^ 31)" using M [OF t1 S [OF M [OF t0 t1]]] by (simp add: u0_def)
  have e: "1 + 2 * (2 * (2 ^ 250 - 1)) = (2 ^ 252 - 3 :: nat)" by simp
  have "fe_pow22523 a = fe_mul a (fe_square (fe_square (fe_chain u0)))"
    unfolding fe_pow22523_def fe_chain_def Let_def u0_def t1_def t0_def ..
  with fe_is_pow_mul [OF a S [OF S [OF fe_is_chain [OF u0]]] c(1)] show ?thesis unfolding e by simp
qed

lemma SQRT_M1_is: "fe_is 1 SQRT_M1 (fe_val SQRT_M1)" "P25519 dvd fe_val SQRT_M1 ^ 2 + 1"
  by (simp_all add: fe_is_def fe_ok_def below_def SQRT_M1_def fe_val_def P25519_def power2_eq_square)

lemma decode_on_curve:
  assumes len: "length b = 32" and dec: "extended_point_from_bytes b = Some p"
  obtains X where "ext_is p (X, int (le_nat b) mod 2 ^ 255, 1, X * (int (le_nat b) mod 2 ^ 255))"
    "on_curve (X, int (le_nat b) mod 2 ^ 255, 1, X * (int (le_nat b) mod 2 ^ 255))"
proof -
  let ?Y = "int (le_nat b) mod 2 ^ 255"
  define y y2 u v v3 x vx2 where "y = ed_from_bytes b" and "y2 = fe_square y" and "u = fe_sub y2 fe_one" and "v = fe_add (fe_mul y2 D) fe_one"
    and "v3 = fe_mul (fe_square v) v" and "x = fe_mul (fe_mul (fe_pow22523 (fe_mul u (fe_mul (fe_square v3) v))) u) v3"
    and "vx2 = fe_mul (fe_square x) v"
  define U V where "U = ?Y ^ 2 - 1" and "V = ?Y ^ 2 * ed_d + 1"
  have y: "fe_is 2 y ?Y" unfolding y_def by (rule fe_is_ed_from_bytes [OF len])
  have y2: "fe_is 1 y2 (?Y ^ 2)" unfolding y2_def by (rule fe_is_square [OF y]) simp
  have u: "fe_is 2 u U" using fe_is_sub [OF y2 fe_is_zero_one(2)] by (simp add: u_def U_def)
  have v: "fe_is 2 v V" using fe_is_add [OF fe_is_mul [OF y2 fe_is_D(1)] fe_is_zero_one(2)] by (simp add: v_def V_def)
  have v3: "fe_is 1 v3 (V ^ 2 * V)" using fe_is_mul [OF fe_is_square [OF v] v] by (simp add: v3_def)
  obtain X0 where x: "fe_is 1 x X0"
    using fe_is_mul [OF fe_is_mul [OF fe_pow22523_is [OF fe_is_mul [OF u fe_is_mul [OF fe_is_square [OF v3] v]]] u] v3] unfolding x_def by auto
  have vx2: "fe_is 1 vx2 (X0 ^ 2 * V)" using fe_is_mul [OF fe_is_square [OF x] v] by (simp add: vx2_def)
  have z1: "fe_is_zero (fe_sub vx2 u) \<longleftrightarrow> P25519 dvd X0 ^ 2 * V - U" using fe_is_zero_iff [OF fe_is_sub [OF vx2 u]] by simp
  have z2: "fe_is_zero (fe_add vx2 u) \<longleftrightarrow> P25519 dvd X0 ^ 2 * V + U" using fe_is_zero_iff [OF fe_is_add [OF vx2 u]] by simp
  define root where "root = (if \<not> fe_is_zero (fe_sub vx2 u) then if \<not> fe_is_zero (fe_add vx2 u) then None else Some (fe_mul x SQRT_M1) else Some x)"
  have dec': "(case root of None \<Rightarrow> None | Some x \<Rightarrow> let x = (if fe_is_negative x \<noteq> (drop_bit 7 (b ! 31) = 1) then fe_neg x else x)
      in Some \<lparr>ep_x = x, ep_y = y, ep_z = fe_one, ep_t = fe_mul x y\<rparr>) = Some p"
    using dec unfolding extended_point_from_bytes_def Let_def root_def vx2_def x_def v3_def v_def u_def y2_def y_def .
  obtain r R where r: "root = Some r" "fe_is 1 r R" "P25519 dvd R ^ 2 * V - U"
  proof (cases "fe_is_zero (fe_sub vx2 u)")
    case True
    with x z1 show thesis by (intro that [of x X0]) (simp_all add: root_def)
  next
    case False
    then have 2: "fe_is_zero (fe_add vx2 u)" using dec' by (auto simp: root_def split: if_splits)
    let ?R = "X0 * fe_val SQRT_M1"
    have "?R ^ 2 * V - U = X0 ^ 2 * V * (fe_val SQRT_M1 ^ 2 + 1) - (X0 ^ 2 * V + U)" by (simp add: power_mult_distrib algebra_simps)
    also have "P25519 dvd \<dots>" using SQRT_M1_is(2) 2 z2 by (intro dvd_diff dvd_mult) simp_all
    finally show thesis using False 2 fe_is_mul [OF x SQRT_M1_is(1)] by (intro that [of "fe_mul x SQRT_M1" ?R]) (simp_all add: root_def)
  qed
  define r' where "r' = (if fe_is_negative r \<noteq> (drop_bit 7 (b ! 31) = 1) then fe_neg r else r)"
  obtain X where X: "fe_is 1 r' X" "X ^ 2 = R ^ 2"
    using fe_is_neg [OF r(2)] r(2) by (cases "fe_is_negative r \<noteq> (drop_bit 7 (b ! 31) = 1)") (force simp: r'_def)+
  have p: "p = \<lparr>ep_x = r', ep_y = y, ep_z = fe_one, ep_t = fe_mul r' y\<rparr>" using dec' by (simp add: r(1) r'_def Let_def)
  have "ext_is p (X, ?Y, 1, X * ?Y)"
    unfolding p using X(1) y fe_is_mono [OF X(1), of 2] fe_is_mono [OF fe_is_zero_one(2), of 2] fe_is_mono [OF fe_is_mul [OF X(1) y], of 2] by simp
  moreover have "?Y ^ 2 - X ^ 2 - 1 ^ 2 - ed_d * (X * ?Y) ^ 2 = - (R ^ 2 * V - U)"
    unfolding power_mult_distrib X(2) U_def V_def by (simp add: algebra_simps)
  then have "on_curve (X, ?Y, 1, X * ?Y)" using r(3) unfolding on_curve.simps by (simp only: dvd_minus_iff) simp
  ultimately show thesis by (rule that)
qed

section \<open>Scalars\<close>

definition ED_L :: nat where
  "ED_L = 2 ^ 252 + 27742317777372353535851937790883648493"

lemma sc_is_valid_iff: "sc_is_valid s \<longleftrightarrow> s ! 31 \<le> 16"
proof -
  let ?val = "push_bit 24 (ucast (s ! 31)) OR push_bit 16 (ucast (s ! 30)) OR push_bit 8 (ucast (s ! 29)) OR ucast (s ! 28) :: u64"
  have high: "bit b n \<Longrightarrow> n < 8" for b :: byte and n using bit_imp_le_length [of b n] by auto
  have "drop_bit 24 ?val = ucast (s ! 31)"
    by (rule bit_word_eqI) (auto simp: bit_simps dest: high)
  then have v: "drop_bit 17 (drop_bit 7 ?val) = ucast (s ! 31)" by simp
  have t: "word_of_int (drop_bit 17 (L_LIMBS ! 11)) = (16 :: u64)" by (simp add: L_LIMBS_def)
  have u: "unat (ucast b :: u64) = unat b" for b :: byte using unat_lt2p [of b] by (simp add: unsigned_ucast_eq take_bit_nat_eq_self)
  have lt: "(ucast (s ! 31) :: u64) < 16 \<longleftrightarrow> s ! 31 < 16" "(16 :: u64) < ucast (s ! 31) \<longleftrightarrow> 16 < s ! 31"
    by (simp_all add: word_less_nat_alt u)
  show ?thesis unfolding sc_is_valid_def Let_def v t lt by auto
qed

lemma le_nat_take_Suc: "n < length s \<Longrightarrow> le_nat (take (Suc n) s) = le_nat (take n s) + 256 ^ n * unat (s ! n)"
  by (simp add: take_Suc_conv_app_nth le_nat_append)

lemma less_digits:
  fixes a b :: nat
  assumes "a < B" "b < B"
  shows "a + B * x < b + B * y \<longleftrightarrow> int x - int y - of_bool (a < b) < 0"
proof (cases x y rule: linorder_cases)
  case less
  then have "B * x + B \<le> B * y" by (metis Suc_leI mult_Suc_right add.commute mult_le_mono2)
  with assms less show ?thesis by auto
next
  case greater
  then have "B * y + B \<le> B * x" by (metis Suc_leI mult_Suc_right add.commute mult_le_mono2)
  with assms greater show ?thesis by auto
qed auto

lemma borrow_bytes:
  assumes "n \<le> length s" "n \<le> length l"
  shows "foldl (\<lambda>borrow i. drop_bit 15 (uint (s ! i) - uint (l ! i) - borrow) AND 1) 0 [0..<n] = (of_bool (le_nat (take n s) < le_nat (take n l)) :: int)"
  using assms
proof (induction n)
  case (Suc n)
  define d where "d = uint (s ! n) - uint (l ! n) - of_bool (le_nat (take n s) < le_nat (take n l))"
  have "uint (s ! n) < 256" "uint (l ! n) < 256" using uint_lt2p [of "s ! n"] uint_lt2p [of "l ! n"] by simp_all
  moreover have "0 \<le> uint (s ! n)" "0 \<le> uint (l ! n)" by (rule uint_ge_0)+
  moreover have "0 \<le> (of_bool (le_nat (take n s) < le_nat (take n l)) :: int)" "of_bool (le_nat (take n s) < le_nat (take n l)) \<le> (1 :: int)" by simp_all
  ultimately have b: "- 257 < d" "d < 256" unfolding d_def by linarith+
  have "drop_bit 15 d = (if d < 0 then - 1 else 0)" using b int_div_pos_eq [of d 32768 "- 1" "d + 32768"] by (simp add: drop_bit_eq_div)
  then have bit: "drop_bit 15 d AND 1 = (of_bool (d < 0) :: int)" by simp
  have bd: "le_nat (take n s) < 256 ^ n" "le_nat (take n l) < 256 ^ n" using le_nat_bound [of "take n s"] le_nat_bound [of "take n l"] Suc.prems by simp_all
  have "d < 0 \<longleftrightarrow> le_nat (take (Suc n) s) < le_nat (take (Suc n) l)"
    using less_digits [OF bd, of "unat (s ! n)" "unat (l ! n)"] Suc.prems by (simp add: le_nat_take_Suc d_def)
  with Suc bit show ?case by (simp add: d_def)
qed simp

lemma L_BYTES_eq: "length L_BYTES = 32" "le_nat L_BYTES = ED_L"
  by (simp_all add: L_BYTES_def ED_L_def)

lemma sc_is_valid2_iff: "sc_is_valid2 s \<longleftrightarrow> length s = 32 \<and> le_nat s < ED_L"
  using borrow_bytes [of 32 s L_BYTES] by (auto simp: sc_is_valid2_def L_BYTES_eq)

text \<open>Limbs of 21 bits.\<close>

lemma sc_pack_bytes:
  assumes "\<And>i. i < 12 \<Longrightarrow> 0 \<le> a ! i \<and> a ! i < 2 ^ 21" and R: "R = a ! 0 + 2 ^ 21 * a ! 1 + 2 ^ 42 * a ! 2 + 2 ^ 63 * a ! 3 + 2 ^ 84 * a ! 4 + 2 ^ 105 * a ! 5 + 2 ^ 126 * a ! 6 + 2 ^ 147 * a ! 7 + 2 ^ 168 * a ! 8 + 2 ^ 189 * a ! 9 + 2 ^ 210 * a ! 10 + 2 ^ 231 * a ! 11"
  shows "sc_pack a = nat_bytes 32 (nat R)"
proof -
  have g: "0 \<le> a ! i" "a ! i < 2 ^ 21" if "i < 12" for i using assms(1) [OF that] by simp_all
  define T11 where "T11 = a ! 11 + 2 ^ 26 * 0"
  define T10 where "T10 = a ! 10 + 2 ^ 21 * T11"
  define T9 where "T9 = a ! 9 + 2 ^ 21 * T10"
  define T8 where "T8 = a ! 8 + 2 ^ 21 * T9"
  define T7 where "T7 = a ! 7 + 2 ^ 21 * T8"
  define T6 where "T6 = a ! 6 + 2 ^ 21 * T7"
  define T5 where "T5 = a ! 5 + 2 ^ 21 * T6"
  define T4 where "T4 = a ! 4 + 2 ^ 21 * T5"
  define T3 where "T3 = a ! 3 + 2 ^ 21 * T4"
  define T2 where "T2 = a ! 2 + 2 ^ 21 * T3"
  define T1 where "T1 = a ! 1 + 2 ^ 21 * T2"
  define T0 where "T0 = a ! 0 + 2 ^ 21 * T1"
  have d0: "drop_bit 0 R = T0" unfolding R T0_def T1_def T2_def T3_def T4_def T5_def T6_def T7_def T8_def T9_def T10_def T11_def by simp
  have d1: "drop_bit 21 R = T1" using drop_limb [OF g [of 0] d0 [unfolded T0_def]] by simp
  have d2: "drop_bit 42 R = T2" using drop_limb [OF g [of 1] d1 [unfolded T1_def]] by simp
  have d3: "drop_bit 63 R = T3" using drop_limb [OF g [of 2] d2 [unfolded T2_def]] by simp
  have d4: "drop_bit 84 R = T4" using drop_limb [OF g [of 3] d3 [unfolded T3_def]] by simp
  have d5: "drop_bit 105 R = T5" using drop_limb [OF g [of 4] d4 [unfolded T4_def]] by simp
  have d6: "drop_bit 126 R = T6" using drop_limb [OF g [of 5] d5 [unfolded T5_def]] by simp
  have d7: "drop_bit 147 R = T7" using drop_limb [OF g [of 6] d6 [unfolded T6_def]] by simp
  have d8: "drop_bit 168 R = T8" using drop_limb [OF g [of 7] d7 [unfolded T7_def]] by simp
  have d9: "drop_bit 189 R = T9" using drop_limb [OF g [of 8] d8 [unfolded T8_def]] by simp
  have d10: "drop_bit 210 R = T10" using drop_limb [OF g [of 9] d9 [unfolded T9_def]] by simp
  have d11: "drop_bit 231 R = T11" using drop_limb [OF g [of 10] d10 [unfolded T10_def]] by simp
  note inside = byte_inside [OF d0 [unfolded T0_def]] byte_inside [OF d1 [unfolded T1_def]] byte_inside [OF d2 [unfolded T2_def]] byte_inside [OF d3 [unfolded T3_def]] byte_inside [OF d4 [unfolded T4_def]] byte_inside [OF d5 [unfolded T5_def]] byte_inside [OF d6 [unfolded T6_def]] byte_inside [OF d7 [unfolded T7_def]] byte_inside [OF d8 [unfolded T8_def]] byte_inside [OF d9 [unfolded T9_def]] byte_inside [OF d10 [unfolded T10_def]] byte_inside [OF d11 [unfolded T11_def]]
  note across = byte_across [OF d0 [unfolded T0_def T1_def] g [of 0]] byte_across [OF d1 [unfolded T1_def T2_def] g [of 1]] byte_across [OF d2 [unfolded T2_def T3_def] g [of 2]] byte_across [OF d3 [unfolded T3_def T4_def] g [of 3]] byte_across [OF d4 [unfolded T4_def T5_def] g [of 4]] byte_across [OF d5 [unfolded T5_def T6_def] g [of 5]] byte_across [OF d6 [unfolded T6_def T7_def] g [of 6]] byte_across [OF d8 [unfolded T8_def T9_def] g [of 8]] byte_across [OF d9 [unfolded T9_def T10_def] g [of 9]] byte_across [OF d10 [unfolded T10_def T11_def] g [of 10]]
  note start = byte_inside [where s = 0, OF d0 [unfolded T0_def], unfolded drop_bit_0 id_apply] byte_inside [where s = 0, OF d8 [unfolded T8_def], unfolded drop_bit_0 id_apply]
  have nonneg: "0 \<le> R" using g(1) [of 0] g(1) [of 1] g(1) [of 2] g(1) [of 3] g(1) [of 4] g(1) [of 5] g(1) [of 6] g(1) [of 7] g(1) [of 8] g(1) [of 9] g(1) [of 10] g(1) [of 11] unfolding R by simp
  have upt: "[0..<32] = [0, 1, 2, 3, 4, 5, 6, 7, 8, 9, 10, 11, 12, 13, 14, 15, 16, 17, 18, 19, 20, 21, 22, 23, 24, 25, 26, 27, 28, 29, 30, 31 :: nat]" by (simp add: upt_rec)
  show ?thesis
    unfolding sc_pack_def nat_bytes_word [OF nonneg] upt list.map list.inject
    by (intro conjI refl; (rule inside | rule across | rule start); simp)
qed

lemma nat_bytes_le_nat: "nat_bytes (length s) (le_nat s) = s"
  by (induction s) (simp_all add: unat_lt2p [where 'a = 8, simplified] )

lemma sc_load_wide_limbs:
  assumes "length s = 64"
  shows "sc_load_wide s = map (\<lambda>i. take_bit 21 (drop_bit (21 * i) (int (le_nat s)))) [0..<23] @ [drop_bit 3 (load_4 s 60)]"
proof -
  have 4: "0x1fffff AND drop_bit k (load_4 s i) = take_bit 21 (drop_bit (8 * i + k) (int (le_nat s)))" if "i + 3 < length s" "k \<le> 11" for i k
    using mask_limb [of k 21 32 "0x1fffff" "8 * i"] that(2) by (simp add: load_4_eq [OF that(1)] mask_eq_exp_minus_1 and.commute)
  have 3: "0x1fffff AND drop_bit k (load_3 s i) = take_bit 21 (drop_bit (8 * i + k) (int (le_nat s)))" if "i + 3 < length s" "k \<le> 3" for i k
    using mask_limb [of k 21 24 "0x1fffff" "8 * i"] that(2) by (simp add: load_3_eq [OF that(1)] mask_eq_exp_minus_1 and.commute)
  have 0: "0x1fffff AND load_3 s i = take_bit 21 (drop_bit (8 * i) (int (le_nat s)))" if "i + 3 < length s" for i
    using 3 [OF that, of 0] by simp
  have upt: "[0..<23] = [0, 1, 2, 3, 4, 5, 6, 7, 8, 9, 10, 11, 12, 13, 14, 15, 16, 17, 18, 19, 20, 21, 22 :: nat]" by (simp add: upt_rec)
  show ?thesis using assms unfolding sc_load_wide_def upt by (simp add: 0 3 4)
qed

lemma take_bit_digits: "(\<Sum>i<n. 2 ^ (21 * i) * take_bit 21 (drop_bit (21 * i) X)) = take_bit (21 * n) (X :: int)"
  by (induction n) (simp_all add: take_bit_split add.commute [of 21])

lemma reduce_limbs_id:
  assumes "length a = 24" "\<And>i. i < 12 \<Longrightarrow> 0 \<le> a ! i \<and> a ! i < 2 ^ 21" "\<And>i. 12 \<le> i \<Longrightarrow> i < 24 \<Longrightarrow> a ! i = 0"
  shows "sc_reduce_limbs a = a"
proof -
  have 1: "foldl reduce_limb a is = a" if "set is \<subseteq> {12..<24}" for "is"
    using that by (induction "is") (simp_all add: reduce_limb_def assms(3))
  have "carry21 a i = a" if "i < 11" for i
  proof -
    have "drop_bit 21 (a ! i) = 0" "a ! i AND 0x1fffff = a ! i" "0 \<le> a ! Suc i" "a ! Suc i < 2 ^ 21"
      using assms(2) [of i] assms(2) [of "Suc i"] that take_bit_int_eq_self [of "a ! i" 21] by (simp_all add: drop_bit_eq_div take_bit_eq_mask mask_eq_exp_minus_1)
    then show ?thesis by (simp add: carry21_def i64_id)
  qed
  then have 2: "foldl carry21 a is = a" if "set is \<subseteq> {..<11}" for "is" using that by (induction "is") simp_all
  have "lift_negative a i = a" if "i < 11" for i using assms(2) [of i] that by (simp add: lift_negative_def)
  then have 3: "foldl lift_negative a is = a" if "set is \<subseteq> {..<11}" for "is" using that by (induction "is") simp_all
  have 4: "foldl (\<lambda>a j. foldl lift_negative (foldl carry21 a [0..<11]) [0..<11]) a js = a" for js :: "nat list"
    using 2 [of "[0..<11]"] 3 [of "[0..<11]"] by (induction js) (simp_all add: subset_iff)
  define tmp where "tmp = map (\<lambda>i. i64 (a ! i - L_LIMBS ! i)) [0..<12]"
  have "length (fst (foldl borrow_step (t, b) is)) = length t \<and> fst (foldl borrow_step (t, b) is) ! 11 = t ! 11 \<and> snd (foldl borrow_step (t, b) is) \<in> {- 1, 0}"
    if "set is \<subseteq> {..<11}" "b \<in> {- 1, 0}" for t b "is"
    using that by (induction "is" arbitrary: t b) (simp_all add: borrow_step_def Let_def)
  from this [of "[0..<11]" 0 tmp] subset_refl [of "{..<11}"] obtain t b where t: "foldl borrow_step (tmp, 0) [0..<11] = (t, b)" "length t = 12" "t ! 11 = tmp ! 11" "b \<in> {- 1, 0}"
    by (cases "foldl borrow_step (tmp, 0) [0..<11]") (auto simp: tmp_def lessThan_atLeast0)
  have "tmp ! 11 = a ! 11 - 2 ^ 21" using assms(2) [of 11] by (simp add: tmp_def L_LIMBS_def i64_id)
  then have n: "t ! 11 + b < 0" "- (2 ^ 62) < t ! 11 + b" using t(3,4) assms(2) [of 11] by auto
  then have w: "i64 (t ! 11 + b) = t ! 11 + b" "drop_bit 63 (t ! 11 + b) = - 1"
    using int_div_pos_eq [of "t ! 11 + b" "2 ^ 63" "- 1" "t ! 11 + b + 2 ^ 63"] by (simp_all add: i64_id drop_bit_eq_div)
  have "sc_reduce_limbs a = map (\<lambda>i. a ! i) [0..<12] @ drop 12 a"
    unfolding sc_reduce_limbs_def Let_def using 1 [of "rev [12..<24]"] 4 [of "[0..<2]"] t(2)
    by (simp add: tmp_def [symmetric] t(1) w)
  also have "\<dots> = a" using assms(1) map_nth [of "take 12 a"] by (intro nth_equalityI) (auto simp: nth_append)
  finally show ?thesis .
qed

lemma sc_reduce_small:
  assumes "length s = 64" "le_nat s < 2 ^ 252"
  shows "sc_reduce s = take 32 s"
proof -
  let ?N = "int (le_nat s)"
  let ?a = "sc_load_wide s"
  have N: "?N < 2 ^ 252" using assms(2) by simp
  have top: "load_4 s 60 = 0"
    using N assms(1) by (simp add: load_4_eq drop_bit_eq_div)
  have len: "length ?a = 24" by (simp add: sc_load_wide_def)
  have nth: "?a ! i = take_bit 21 (drop_bit (21 * i) ?N)" if "i < 23" for i
    using that by (simp add: sc_load_wide_limbs [OF assms(1)] nth_append)
  have lo: "0 \<le> ?a ! i \<and> ?a ! i < 2 ^ 21" if "i < 12" for i using that take_bit_int_less_exp [of 21 "drop_bit (21 * i) ?N"] by (simp add: nth)
  have hi: "?a ! i = 0" if "12 \<le> i" "i < 24" for i
  proof (cases "i = 23")
    case True
    then show ?thesis by (simp add: sc_load_wide_limbs [OF assms(1)] nth_append top)
  next
    case False
    have "(2 :: int) ^ 252 \<le> 2 ^ (21 * i)" using that by (intro power_increasing) auto
    then have "?N < 2 ^ (21 * i)" using N by linarith
    then have "drop_bit (21 * i) ?N = 0" by (simp add: drop_bit_eq_div)
    with False that show ?thesis by (simp add: nth)
  qed
  have sum: "?N = ?a ! 0 + 2 ^ 21 * ?a ! 1 + 2 ^ 42 * ?a ! 2 + 2 ^ 63 * ?a ! 3 + 2 ^ 84 * ?a ! 4 + 2 ^ 105 * ?a ! 5 + 2 ^ 126 * ?a ! 6
      + 2 ^ 147 * ?a ! 7 + 2 ^ 168 * ?a ! 8 + 2 ^ 189 * ?a ! 9 + 2 ^ 210 * ?a ! 10 + 2 ^ 231 * ?a ! 11"
  proof -
    have "?N = take_bit (21 * 12) ?N" using N by (simp add: take_bit_int_eq_self)
    also have "\<dots> = (\<Sum>i<12. 2 ^ (21 * i) * ?a ! i)" unfolding take_bit_digits [symmetric] by (intro sum.cong) (simp_all add: nth)
    finally show ?thesis by (simp add: lessThan_Suc numeral_eq_Suc [of num.One] eval_nat_numeral)
  qed
  have "sc_reduce s = nat_bytes 32 (nat ?N)"
  proof -
    have "sc_reduce_limbs ?a = ?a" by (rule reduce_limbs_id [OF len]) (use lo hi in auto)
    moreover have "sc_pack ?a = nat_bytes 32 (nat ?N)" by (rule sc_pack_bytes [OF _ sum]) (use lo in auto)
    ultimately show ?thesis by (simp add: sc_reduce_def)
  qed
  also have "\<dots> = take 32 (nat_bytes (32 + 32) (le_nat s))" by (simp only: nat_bytes_append) simp
  also have "\<dots> = take 32 s" using nat_bytes_le_nat [of s] assms(1) by simp
  finally show ?thesis .
qed

text \<open>The reduction of \<open>2\<^sup>2\<^sup>5\<^sup>2\<close>, step by step.\<close>

lemma i64_code [code]: "i64 x = (x + 9223372036854775808) mod 18446744073709551616 - 9223372036854775808"
  by (simp add: i64_def)

definition reduced252 :: "int list" where
  "reduced252 = [0, 666643, 845382, 1624677, 803275, 2096579, 2097151, 2097151, 2097151, 2097151, 2097151, - 1] @ replicate 12 0"

lemma reduce252_limbs:
  "sc_load_wide (zeros 31 @ [16] @ zeros 32) = replicate 12 0 @ [1] @ replicate 11 0"
  "foldl reduce_limb (replicate 12 0 @ [1] @ replicate 11 0) (rev [12..<24]) = [0, - 485872621, - 9640146, - 501691798, - 502512965, - 333] @ replicate 18 0"
  by code_simp+

lemma reduce252_carry:
  "foldl carry21 ([0, - 485872621, - 9640146, - 501691798, - 502512965, - 333] @ replicate 18 0) [0..<11] = reduced252"
  "foldl carry21 reduced252 [0..<11] = reduced252" "foldl lift_negative reduced252 [0..<11] = reduced252"
  by code_simp+

lemma reduce252_borrow:
  "map (\<lambda>i. i64 (reduced252 ! i - L_LIMBS ! i)) [0..<12] = [- 485872621, - 8973503, - 500846416, - 500888288, 802942, 2096579, 2097151, 2097151, 2097151, 2097151, 2097151, - 2097153]"
  "foldl borrow_step ([- 485872621, - 8973503, - 500846416, - 500888288, 802942, 2096579, 2097151, 2097151, 2097151, 2097151, 2097151, - 2097153], 0) [0..<11]
    = ([- 483775469, - 6876352, - 498749265, - 498791137, 802941, 2096579, 2097151, 2097151, 2097151, 2097151, 2097151, - 2097153], 0)"
  "NOT (drop_bit 63 (i64 (- 2097153 + 0))) = (0 :: int)"
  by code_simp+

lemma sc_reduce_252: "sc_reduce (zeros 31 @ [16] @ zeros 32) ! 2 \<noteq> 0"
proof -
  have two: "[0..<2] = [0, 1 :: nat]" by (simp add: upt_rec)
  have twelve: "map (\<lambda>i. reduced252 ! i) [0..<12] @ drop 12 reduced252 = reduced252" by code_simp
  have "sc_reduce_limbs (replicate 12 0 @ [1] @ replicate 11 0) = reduced252"
    unfolding sc_reduce_limbs_def Let_def reduce252_limbs(2) two foldl_Cons foldl_Nil reduce252_carry reduce252_borrow(1,2) prod.case
    using twelve reduce252_borrow(3) by simp
  moreover have "sc_pack reduced252 ! 2 \<noteq> 0" by code_simp
  ultimately show ?thesis by (simp only: sc_reduce_def reduce252_limbs(1) not_False_eq_True)
qed

section \<open>Properties\<close>

text \<open>C35. Points stay on the curve: when 32 bytes are decoded as a point, its coordinates - the ordinate read from the bytes - satisfy
  the equation of edwards25519 in extended coordinates modulo the prime, and for every scalar of 32 bytes the multiplication computes
  the double-and-add ladder of the curve's addition and doubling formulas, whose result lies on the curve. No limb overflows.\<close>

theorem ed25519_points_on_curve:
  assumes "length b = 32" "extended_point_from_bytes b = Some p" "length s = 32"
  shows "\<exists>X. ext_is p (X, int (le_nat b) mod 2 ^ 255, 1, X * (int (le_nat b) mod 2 ^ 255))
    \<and> on_curve (X, int (le_nat b) mod 2 ^ 255, 1, X * (int (le_nat b) mod 2 ^ 255))
    \<and> ext_is (extended_point_scalar_mul p s) (ed_scalar_mul (le_nat s) (X, int (le_nat b) mod 2 ^ 255, 1, X * (int (le_nat b) mod 2 ^ 255)))
    \<and> on_curve (ed_scalar_mul (le_nat s) (X, int (le_nat b) mod 2 ^ 255, 1, X * (int (le_nat b) mod 2 ^ 255)))"
proof -
  obtain X where X: "ext_is p (X, int (le_nat b) mod 2 ^ 255, 1, X * (int (le_nat b) mod 2 ^ 255))"
    "on_curve (X, int (le_nat b) mod 2 ^ 255, 1, X * (int (le_nat b) mod 2 ^ 255))" by (rule decode_on_curve [OF assms(1,2)])
  with extended_point_scalar_mul_is [OF X(1) assms(3)] on_curve_scalar_mul [OF X(2)] show ?thesis by blast
qed

lemma decode_identity: "\<exists>p. extended_point_from_bytes (1 # zeros 31) = Some p"
proof -
  define y y2 u v v3 x vx2 where "y = ed_from_bytes (1 # zeros 31)" and "y2 = fe_square y" and "u = fe_sub y2 fe_one" and "v = fe_add (fe_mul y2 D) fe_one"
    and "v3 = fe_mul (fe_square v) v" and "x = fe_mul (fe_mul (fe_pow22523 (fe_mul u (fe_mul (fe_square v3) v))) u) v3"
    and "vx2 = fe_mul (fe_square x) v"
  have "le_nat (zeros n) = 0" for n by (induction n) (simp_all add: zeros_def)
  then have y: "fe_is 2 y 1" using fe_is_ed_from_bytes [of "1 # zeros 31"] by (simp add: y_def)
  have y2: "fe_is 1 y2 1" using fe_is_square [OF y] by (simp add: y2_def)
  have u: "fe_is 2 u 0" using fe_is_sub [OF y2 fe_is_zero_one(2)] by (simp add: u_def)
  have v: "fe_is 2 v (ed_d + 1)" using fe_is_add [OF fe_is_mul [OF y2 fe_is_D(1)] fe_is_zero_one(2)] by (simp add: v_def)
  have v3: "fe_is 1 v3 ((ed_d + 1) ^ 2 * (ed_d + 1))" using fe_is_mul [OF fe_is_square [OF v] v] by (simp add: v3_def)
  have x: "fe_is 1 x 0"
    using fe_is_mul [OF fe_is_mul [OF fe_pow22523_is [OF fe_is_mul [OF u fe_is_mul [OF fe_is_square [OF v3] v]]] u] v3] by (simp add: x_def)
  have vx2: "fe_is 1 vx2 0" using fe_is_mul [OF fe_is_square [OF x] v] by (simp add: vx2_def)
  have "fe_is_zero (fe_sub vx2 u)" using fe_is_zero_iff [OF fe_is_sub [OF vx2 u]] by simp
  then show ?thesis
    unfolding extended_point_from_bytes_def Let_def y_def [symmetric] y2_def [symmetric] u_def [symmetric] v_def [symmetric]
      v3_def [symmetric] x_def [symmetric] vx2_def [symmetric] by simp
qed

theorem ed25519_points_on_curve_witness:
  "\<exists>p X. extended_point_from_bytes (1 # zeros 31) = Some p
     \<and> ext_is (extended_point_scalar_mul p (7 # zeros 31)) (ed_scalar_mul (le_nat (7 # zeros 31)) (X, int (le_nat (1 # zeros 31)) mod 2 ^ 255, 1, X * (int (le_nat (1 # zeros 31)) mod 2 ^ 255)))"
proof -
  from decode_identity obtain p where p: "extended_point_from_bytes (1 # zeros 31) = Some p" by blast
  with ed25519_points_on_curve [OF _ p, of "7 # zeros 31"] show ?thesis by auto
qed

text \<open>C36. The test of the scalar of a signature that the verification uses accepts whatever has a last byte of at most 16, which
  includes scalars above the order of the group: a signature can be altered by adding the order to its scalar. The function of the
  same name in the second half of the file accepts exactly the scalars below the order.\<close>

theorem sc_is_valid_accepts:
  "(sc_is_valid s \<longleftrightarrow> s ! 31 \<le> 16) \<and> (sc_is_valid2 s \<longleftrightarrow> length s = 32 \<and> le_nat s < ED_L)
   \<and> sc_is_valid L_BYTES \<and> le_nat L_BYTES = ED_L"
proof -
  have "L_BYTES ! 31 = 16" by (simp add: L_BYTES_def)
  then show ?thesis by (simp add: sc_is_valid_iff sc_is_valid2_iff L_BYTES_eq)
qed

text \<open>C3. The reduction of a scalar leaves every number below \<open>2\<^sup>2\<^sup>5\<^sup>2\<close> as it is; it does not reduce modulo the order of the group:
  \<open>2\<^sup>2\<^sup>5\<^sup>2\<close>, which is below the order, is changed.\<close>

theorem sc_reduce_below:
  "(length s = 64 \<and> le_nat s < 2 ^ 252 \<longrightarrow> sc_reduce s = take 32 s)
   \<and> le_nat (zeros 31 @ [16] @ zeros 32) = 2 ^ 252 \<and> 2 ^ 252 < ED_L
   \<and> sc_reduce (zeros 31 @ [16] @ zeros 32) \<noteq> take 32 (zeros 31 @ [16] @ zeros 32)"
proof -
  have z: "le_nat (zeros n) = 0" for n by (induction n) (simp_all add: zeros_def)
  have "le_nat (zeros 31 @ [16] @ zeros 32) = 2 ^ 252" by (simp add: le_nat_append z)
  moreover have "2 ^ 252 < ED_L" by (simp add: ED_L_def)
  moreover have "sc_reduce (zeros 31 @ [16] @ zeros 32) \<noteq> take 32 (zeros 31 @ [16] @ zeros 32)"
    using sc_reduce_252 by (auto simp: nth_append zeros_def)
  ultimately show ?thesis using sc_reduce_small by blast
qed

theorem sc_reduce_below_witness: "sc_reduce (5 # zeros 63) = 5 # zeros 31"
proof -
  have z: "le_nat (zeros n) = 0" for n by (induction n) (simp_all add: zeros_def)
  have "take 32 (5 # zeros 63) = 5 # zeros 31" by (simp add: take_Cons' zeros_def)
  moreover have "sc_reduce (5 # zeros 63) = take 32 (5 # zeros 63)"
    using sc_reduce_below [of "5 # zeros 63"] by (simp add: z)
  ultimately show ?thesis by simp
qed

end
