(* ===== verification/Identity.thy ===== *)
theory Identity
  imports Rng Ed25519 Chacha20 Contact_Store
begin

unbundle bit_operations_syntax

text \<open>
  The identity of a node (\<^verbatim>\<open>identity.c\<close>): keys derived from a seed, identifiers, storage under a key of the device, and the manager
  with its copy in non-volatile storage. Random bytes come from \<open>Rng\<close>, X25519 and Ed25519 are those of the crypto directory, called by
  the role of their arguments. \<open>None\<close> is \<^verbatim>\<open>abort()\<close>; memory allocation succeeds. What the board provides - whether it is the ESP32, its
  fuses, its registers, the answers of the storage driver - is the record \<open>platform\<close>.
\<close>

section \<open>Identities\<close>

record platform =
  pf_xtensa :: bool
  pf_efuse :: "u32 list"
  pf_hw :: registers
  pf_open_read :: bool
  pf_open_write :: bool
  pf_get_blob :: "string \<Rightarrow> bytes option"
  pf_junk :: extended_point

record identity =
  id_signing_key :: bytes
  id_public_key :: bytes
  id_encryption_key :: bytes
  id_encryption_public :: bytes
  id_created_at :: u32

record encrypted_identity =
  ei_ciphertext :: bytes
  ei_nonce :: bytes
  ei_tag :: bytes

record identity_manager =
  im_current :: "identity option"
  im_storage_key :: bytes

definition identity_cleanup :: "identity \<Rightarrow> identity" where
  "identity_cleanup i = i\<lparr>id_signing_key := secure_zero (id_signing_key i), id_encryption_key := secure_zero (id_encryption_key i)\<rparr>"

definition identity_derive_key :: "bytes \<Rightarrow> bytes \<Rightarrow> bytes" where
  "identity_derive_key seed context =
     (let input = zeros 64;
          input = memcpy input 0 (slice seed 0 32);
          copy_len = (if length context < 32 then length context else 32);
          input = memcpy input 32 (slice context 0 copy_len)
      in sha256_hash input)"

definition KDF_CONTEXT_SIGNING :: bytes where
  "KDF_CONTEXT_SIGNING = ascii ''LunarCore Signing v1''"

definition KDF_CONTEXT_ENCRYPTION :: bytes where
  "KDF_CONTEXT_ENCRYPTION = ascii ''LunarCore Encryption v1''"

definition identity_from_seed :: "platform \<Rightarrow> bytes \<Rightarrow> identity" where
  "identity_from_seed pf seed =
     (let signing = identity_derive_key seed KDF_CONTEXT_SIGNING; enc = identity_derive_key seed KDF_CONTEXT_ENCRYPTION
      in \<lparr>id_signing_key = signing, id_public_key = ed25519_public_key (pf_junk pf) signing,
          id_encryption_key = enc, id_encryption_public = x25519_base enc, id_created_at = 0\<rparr>)"

definition identity_generate :: "platform \<Rightarrow> rng \<Rightarrow> (identity \<times> rng) option" where
  "identity_generate pf r =
     (let (ok, seed, r) = fill_random_checked (pf_hw pf) (zeros 32) r in if \<not> ok then None else Some (identity_from_seed pf seed, r))"

definition identity_public_key :: "identity \<Rightarrow> bytes" where
  "identity_public_key i = id_public_key i"

definition identity_encryption_public_key :: "identity \<Rightarrow> bytes" where
  "identity_encryption_public_key i = id_encryption_public i"

definition identity_node_id :: "identity \<Rightarrow> u32" where
  "identity_node_id i =
     (let hash = sha256_hash (id_public_key i)
      in ucast (hash ! 0) OR push_bit 8 (ucast (hash ! 1)) OR push_bit 16 (ucast (hash ! 2)) OR push_bit 24 (ucast (hash ! 3)))"

definition hex_char :: "byte \<Rightarrow> byte" where
  "hex_char nibble = (if nibble \<le> 9 then 48 + nibble else if nibble \<le> 15 then 97 + (nibble - 10) else 63)"

definition identity_short_id :: "identity \<Rightarrow> bytes" where
  "identity_short_id i =
     (let hash = sha256_hash (id_public_key i)
      in concat (map (\<lambda>k. [hex_char (drop_bit 4 (hash ! k)), hex_char (hash ! k AND 0x0F)]) [0..<4]))"

definition identity_sign :: "platform \<Rightarrow> identity \<Rightarrow> bytes \<Rightarrow> bytes" where
  "identity_sign pf i message = ed25519_sign (pf_junk pf) (id_signing_key i) message"

definition identity_verify :: "platform \<Rightarrow> bytes \<Rightarrow> bytes \<Rightarrow> bytes \<Rightarrow> bool" where
  "identity_verify pf public_key message signature = ed25519_verify (pf_junk pf) public_key message signature"

definition identity_key_agree :: "identity \<Rightarrow> bytes \<Rightarrow> bytes" where
  "identity_key_agree i their_public = x25519 (id_encryption_key i) their_public"

section \<open>Storage\<close>

definition plain_identity :: "identity \<Rightarrow> bytes" where
  "plain_identity i =
     (let plaintext = zeros 128;
          plaintext = memcpy plaintext 0 (slice (id_signing_key i) 0 32);
          plaintext = memcpy plaintext 32 (slice (id_encryption_key i) 0 32);
          plaintext = plaintext[64 := ucast (id_created_at i AND 0xFF)];
          plaintext = plaintext[65 := ucast (drop_bit 8 (id_created_at i) AND 0xFF)];
          plaintext = plaintext[66 := ucast (drop_bit 16 (id_created_at i) AND 0xFF)]
      in plaintext[67 := ucast (drop_bit 24 (id_created_at i) AND 0xFF)])"

text \<open>The part of \<^verbatim>\<open>identity_encrypt_for_storage\<close> after the nonce has been drawn.\<close>

definition encrypt_identity_with :: "identity \<Rightarrow> bytes \<Rightarrow> bytes \<Rightarrow> encrypted_identity" where
  "encrypt_identity_with i storage_key nonce =
     (let cipher = chacha20_new storage_key nonce;
          ciphertext = chacha20_encrypt cipher (plain_identity i)
      in \<lparr>ei_ciphertext = ciphertext, ei_nonce = nonce, ei_tag = sha256_hash (ciphertext @ nonce)\<rparr>)"

definition identity_encrypt_for_storage :: "platform \<Rightarrow> identity \<Rightarrow> bytes \<Rightarrow> rng \<Rightarrow> (encrypted_identity \<times> rng) option" where
  "identity_encrypt_for_storage pf i storage_key r =
     (let (ok, nonce, r) = fill_random_checked (pf_hw pf) (zeros 12) r
      in if \<not> ok then None else Some (encrypt_identity_with i storage_key nonce, r))"

definition identity_decrypt_from_storage :: "platform \<Rightarrow> encrypted_identity \<Rightarrow> bytes \<Rightarrow> identity option" where
  "identity_decrypt_from_storage pf e storage_key =
     (if \<not> constant_time_eq (ei_tag e) (sha256_hash (ei_ciphertext e @ ei_nonce e)) then None
      else let plaintext = chacha20_decrypt (chacha20_new storage_key (ei_nonce e)) (ei_ciphertext e);
               signing = slice plaintext 0 32; enc = slice plaintext 32 32;
               created = ucast (plaintext ! 64) OR push_bit 8 (ucast (plaintext ! 65)) OR push_bit 16 (ucast (plaintext ! 66))
                 OR push_bit 24 (ucast (plaintext ! 67))
           in Some \<lparr>id_signing_key = signing, id_public_key = ed25519_public_key (pf_junk pf) signing,
                id_encryption_key = enc, id_encryption_public = x25519_base enc, id_created_at = created\<rparr>)"

definition identity_export_seed :: "identity \<Rightarrow> bytes" where
  "identity_export_seed i = slice (id_signing_key i) 0 32"

definition encrypted_identity_to_bytes :: "encrypted_identity \<Rightarrow> bytes" where
  "encrypted_identity_to_bytes e = slice (ei_ciphertext e) 0 128 @ slice (ei_nonce e) 0 12 @ slice (ei_tag e) 0 32"

definition encrypted_identity_from_bytes :: "bytes \<Rightarrow> encrypted_identity" where
  "encrypted_identity_from_bytes bs = \<lparr>ei_ciphertext = slice bs 0 128, ei_nonce = slice bs 128 12, ei_tag = slice bs (128 + 12) 32\<rparr>"

section \<open>The manager\<close>

definition identity_manager_cleanup :: "identity_manager \<Rightarrow> identity_manager" where
  "identity_manager_cleanup m = m\<lparr>im_storage_key := secure_zero (im_storage_key m), im_current := None\<rparr>"

definition identity_manager_derive_storage_key :: "platform \<Rightarrow> bytes" where
  "identity_manager_derive_storage_key pf =
     (let efuse_data = (if pf_xtensa pf
            then concat (map (\<lambda>i. let val = pf_efuse pf ! i
                   in [ucast (val AND 0xFF), ucast (drop_bit 8 val AND 0xFF), ucast (drop_bit 16 val AND 0xFF), ucast (drop_bit 24 val AND 0xFF)]) [0..<8])
            else zeros 32)
      in sha256_hash (efuse_data @ ascii ''LunarCore Storage Key v1'' @ zeros 8))"

definition identity_manager_new :: "platform \<Rightarrow> identity_manager" where
  "identity_manager_new pf = \<lparr>im_current = None, im_storage_key = identity_manager_derive_storage_key pf\<rparr>"

definition identity_manager_load_from_flash :: "platform \<Rightarrow> identity_manager \<Rightarrow> identity option" where
  "identity_manager_load_from_flash pf m =
     (if pf_xtensa pf
      then if \<not> pf_open_read pf then None
           else case pf_get_blob pf ''identity'' of
                  None \<Rightarrow> None
                | Some bs \<Rightarrow> if length bs \<noteq> 128 + 12 + 32 then None
                             else identity_decrypt_from_storage pf (encrypted_identity_from_bytes bs) (im_storage_key m)
      else None)"

definition identity_manager_save_to_flash :: "platform \<Rightarrow> identity_manager \<Rightarrow> identity \<Rightarrow> rng \<Rightarrow> (nvs_call list \<times> rng) option" where
  "identity_manager_save_to_flash pf m i r =
     (case identity_encrypt_for_storage pf i (im_storage_key m) r of
        None \<Rightarrow> None
      | Some (e, r) \<Rightarrow>
          (if \<not> pf_xtensa pf \<or> \<not> pf_open_write pf then Some ([], r)
           else Some ([Nvs_set_blob ''identity'' (encrypted_identity_to_bytes e), Nvs_commit, Nvs_close], r)))"

definition identity_manager_init :: "platform \<Rightarrow> identity_manager \<Rightarrow> rng \<Rightarrow> (identity_manager \<times> nvs_call list \<times> rng) option" where
  "identity_manager_init pf m r =
     (case identity_manager_load_from_flash pf m of
        Some loaded \<Rightarrow> Some (m\<lparr>im_current := Some loaded\<rparr>, [], r)
      | None \<Rightarrow>
          (case identity_generate pf r of
             None \<Rightarrow> None
           | Some (i, r) \<Rightarrow>
               (case identity_manager_save_to_flash pf m i r of
                  None \<Rightarrow> None
                | Some (calls, r) \<Rightarrow> Some (m\<lparr>im_current := Some i\<rparr>, calls, r))))"

definition identity_manager_current :: "identity_manager \<Rightarrow> identity option" where
  "identity_manager_current m = im_current m"

definition identity_manager_rotate :: "platform \<Rightarrow> identity_manager \<Rightarrow> rng \<Rightarrow> (identity_manager \<times> nvs_call list \<times> rng) option" where
  "identity_manager_rotate pf m r =
     (case identity_generate pf r of
        None \<Rightarrow> None
      | Some (i, r) \<Rightarrow>
          (case identity_manager_save_to_flash pf m i r of
             None \<Rightarrow> None
           | Some (calls, r) \<Rightarrow> Some (m\<lparr>im_current := Some i\<rparr>, calls, r)))"

definition identity_manager_import_seed :: "platform \<Rightarrow> identity_manager \<Rightarrow> bytes \<Rightarrow> rng \<Rightarrow> (identity_manager \<times> nvs_call list \<times> rng) option" where
  "identity_manager_import_seed pf m seed r =
     (let i = identity_from_seed pf seed
      in case identity_manager_save_to_flash pf m i r of
           None \<Rightarrow> None
         | Some (calls, r) \<Rightarrow> Some (m\<lparr>im_current := Some i\<rparr>, calls, r))"

section \<open>The global identity\<close>

record global_identity =
  gi_manager :: "identity_manager option"
  gi_init :: bool
  gi_rng :: rng
  gi_calls :: "nvs_call list"

definition identity_init :: "platform \<Rightarrow> global_identity \<Rightarrow> global_identity option" where
  "identity_init pf g =
     (if gi_init g then Some g
      else case identity_manager_init pf (identity_manager_new pf) (gi_rng g) of
             None \<Rightarrow> None
           | Some (m, calls, r) \<Rightarrow> Some \<lparr>gi_manager = Some m, gi_init = True, gi_rng = r, gi_calls = gi_calls g @ calls\<rparr>)"

text \<open>The functions below begin with \<^verbatim>\<open>identity_init\<close> and use the current identity when there is one; a missing manager would be a
  null pointer, \<open>None\<close> like an abort.\<close>

definition with_current :: "platform \<Rightarrow> global_identity \<Rightarrow> (identity \<Rightarrow> 'a) \<Rightarrow> ('a option \<times> global_identity) option" where
  "with_current pf g f =
     (case identity_init pf g of
        None \<Rightarrow> None
      | Some g \<Rightarrow>
          (case gi_manager g of
             None \<Rightarrow> None
           | Some m \<Rightarrow> Some (map_option f (identity_manager_current m), g)))"

definition global_node_id :: "platform \<Rightarrow> global_identity \<Rightarrow> (u32 \<times> global_identity) option" where
  "global_node_id pf g =
     (case with_current pf g identity_node_id of None \<Rightarrow> None | Some (Some n, g) \<Rightarrow> Some (n, g) | Some (None, g) \<Rightarrow> Some (0, g))"

definition global_public_key :: "platform \<Rightarrow> global_identity \<Rightarrow> (bytes option \<times> global_identity) option" where
  "global_public_key pf g = with_current pf g identity_public_key"

definition global_encryption_public_key :: "platform \<Rightarrow> global_identity \<Rightarrow> (bytes option \<times> global_identity) option" where
  "global_encryption_public_key pf g = with_current pf g identity_encryption_public_key"

definition global_sign :: "platform \<Rightarrow> global_identity \<Rightarrow> bytes \<Rightarrow> (bytes option \<times> global_identity) option" where
  "global_sign pf g message = with_current pf g (\<lambda>i. identity_sign pf i message)"

definition global_key_agree :: "platform \<Rightarrow> global_identity \<Rightarrow> bytes \<Rightarrow> (bytes option \<times> global_identity) option" where
  "global_key_agree pf g their_public = with_current pf g (\<lambda>i. identity_key_agree i their_public)"

definition global_rotate :: "platform \<Rightarrow> global_identity \<Rightarrow> (u32 option \<times> global_identity) option" where
  "global_rotate pf g =
     (case identity_init pf g of
        None \<Rightarrow> None
      | Some g \<Rightarrow>
          (case gi_manager g of
             None \<Rightarrow> Some (None, g)
           | Some m \<Rightarrow>
               (case identity_manager_rotate pf m (gi_rng g) of
                  None \<Rightarrow> None
                | Some (m, calls, r) \<Rightarrow>
                    Some (map_option identity_node_id (im_current m), g\<lparr>gi_manager := Some m, gi_rng := r, gi_calls := gi_calls g @ calls\<rparr>))))"

section \<open>The plaintext\<close>

definition identity_ok :: "platform \<Rightarrow> identity \<Rightarrow> bool" where
  "identity_ok pf i \<longleftrightarrow> length (id_signing_key i) = 32 \<and> length (id_encryption_key i) = 32
     \<and> id_public_key i = ed25519_public_key (pf_junk pf) (id_signing_key i) \<and> id_encryption_public i = x25519_base (id_encryption_key i)"

lemma identity_bytes:
  "[ucast (w AND 0xFF), ucast (drop_bit 8 w AND 0xFF), ucast (drop_bit 16 w AND 0xFF), ucast (drop_bit 24 w AND 0xFF)] = u32_to_le_bytes w"
  by (simp add: u32_to_le_bytes_def)

lemma update_four:
  assumes "length pre = 64"
  shows "(pre @ a # b # c # d # post)[64 := a', 65 := b', 66 := c', 67 := d'] = pre @ [a', b', c', d'] @ post"
  using assms by (simp add: list_update_append)

lemma plain_identity_eq:
  assumes "length (id_signing_key i) = 32" "length (id_encryption_key i) = 32"
  shows "plain_identity i = id_signing_key i @ id_encryption_key i @ u32_to_le_bytes (id_created_at i) @ zeros 60"
proof -
  have z: "zeros 64 = 0 # 0 # 0 # 0 # zeros 60" by (simp add: zeros_def numeral_eq_Suc)
  have copied: "memcpy (memcpy (zeros 128) 0 (id_signing_key i)) 32 (id_encryption_key i)
      = (id_signing_key i @ id_encryption_key i) @ 0 # 0 # 0 # 0 # zeros 60"
    unfolding z [symmetric] using assms by (simp add: memcpy_def zeros_def)
  have "length (id_signing_key i @ id_encryption_key i) = 64" using assms by simp
  note updated = update_four [OF this]
  have whole: "slice (id_signing_key i) 0 32 = id_signing_key i" "slice (id_encryption_key i) 0 32 = id_encryption_key i" using assms by simp_all
  show ?thesis unfolding plain_identity_def Let_def identity_bytes [symmetric] whole copied updated by simp
qed

lemma length_plain_identity:
  "length (id_signing_key i) = 32 \<Longrightarrow> length (id_encryption_key i) = 32 \<Longrightarrow> length (plain_identity i) = 128"
  by (simp add: plain_identity_eq u32_to_le_bytes_def)

lemma created_at_bytes: "get_le32 (u32_to_le_bytes w) = w"
proof -
  have "u32_to_le_bytes w = put_le32 w" by (simp add: u32_to_le_bytes_def put_le32_def)
  then show ?thesis by (simp add: put_le_bytes)
qed

lemma chacha20_length [simp]: "length (chacha20_encrypt c d) = length d"
  by (simp add: chacha20_encrypt_def apply_keystream_spec)

lemma chacha20_inverse: "chacha20_decrypt c (chacha20_encrypt c d) = d"
  by (simp add: chacha20_encrypt_def chacha20_decrypt_def apply_keystream_spec xor_bytes_cancel)

section \<open>Storage gives back the identity\<close>

text \<open>The fields of an identity that has its keys at their length and the public keys that belong to them.\<close>

lemma identity_okD:
  assumes "identity_ok pf i"
  shows "length (id_signing_key i) = 32" "length (id_encryption_key i) = 32"
    "id_public_key i = ed25519_public_key (pf_junk pf) (id_signing_key i)" "id_encryption_public i = x25519_base (id_encryption_key i)"
  using assms by (simp_all add: identity_ok_def)

lemma identity_from_seed_ok: "identity_ok pf (identity_from_seed pf seed)"
  by (simp add: identity_ok_def identity_from_seed_def identity_derive_key_def Let_def)

lemma decrypt_plain:
  assumes "chacha20_decrypt (chacha20_new key (ei_nonce e)) (ei_ciphertext e) = plain_identity i" "identity_ok pf i"
    "ei_tag e = sha256_hash (ei_ciphertext e @ ei_nonce e)"
  shows "identity_decrypt_from_storage pf e key = Some i"
proof -
  note ok = identity_okD [OF assms(2)]
  have n: "plain_identity i ! (64 + k) = u32_to_le_bytes (id_created_at i) ! k" if "k < 4" for k
    using ok that by (simp add: plain_identity_eq nth_append)
  have s: "slice (plain_identity i) 0 32 = id_signing_key i" "slice (plain_identity i) 32 32 = id_encryption_key i"
    using ok by (simp_all add: plain_identity_eq slice_def)
  have c: "ucast (plain_identity i ! 64) OR push_bit 8 (ucast (plain_identity i ! 65)) OR push_bit 16 (ucast (plain_identity i ! 66))
      OR push_bit 24 (ucast (plain_identity i ! 67)) = id_created_at i"
    using n [of 0] n [of 1] n [of 2] n [of 3] created_at_bytes [of "id_created_at i"] unfolding get_le32_def by simp
  show ?thesis unfolding identity_decrypt_from_storage_def assms(1) Let_def c s using assms(3) ok by simp
qed

lemma decrypt_encrypted:
  assumes "identity_ok pf i"
  shows "identity_decrypt_from_storage pf (encrypt_identity_with i key nonce) key = Some i"
  by (rule decrypt_plain [OF _ assms]) (simp_all add: encrypt_identity_with_def Let_def chacha20_inverse)

lemma encrypted_identity_bytes:
  assumes "identity_ok pf i" "length nonce = 12"
  shows "encrypted_identity_from_bytes (encrypted_identity_to_bytes (encrypt_identity_with i key nonce)) = encrypt_identity_with i key nonce"
    "length (encrypted_identity_to_bytes (encrypt_identity_with i key nonce)) = 128 + 12 + 32"
  using identity_okD [OF assms(1)] assms(2)
  by (simp_all add: encrypted_identity_from_bytes_def encrypted_identity_to_bytes_def encrypt_identity_with_def Let_def slice_def length_plain_identity)

lemma decrypt_none_iff:
  "identity_decrypt_from_storage pf e key = None \<longleftrightarrow> ei_tag e \<noteq> sha256_hash (ei_ciphertext e @ ei_nonce e)"
  by (simp add: identity_decrypt_from_storage_def Let_def)

text \<open>C38. Storing an identity and reading it back. An identity whose keys are consistent, encrypted for storage under a key and a 12-byte nonce,
  serialised to the 172 bytes of the flash entry and parsed again, is the same entry, and decrypting it under the same key is the identity.
  A stored entry is refused exactly when its tag is not the SHA-256 of its ciphertext and nonce; since that tag takes no key, decrypting an
  intact entry under any other key is not refused, although the tests of the file expect it to be.\<close>

theorem identity_storage_roundtrip:
  assumes "identity_ok pf i" "length nonce = 12" "e = encrypt_identity_with i key nonce"
  shows "length (encrypted_identity_to_bytes e) = 172 \<and> encrypted_identity_from_bytes (encrypted_identity_to_bytes e) = e
    \<and> identity_decrypt_from_storage pf e key = Some i
    \<and> (identity_decrypt_from_storage pf e' key' = None \<longleftrightarrow> ei_tag e' \<noteq> sha256_hash (ei_ciphertext e' @ ei_nonce e'))
    \<and> identity_decrypt_from_storage pf e key' \<noteq> None"
  unfolding assms(3)
  using decrypt_encrypted [OF assms(1)] encrypted_identity_bytes [OF assms(1,2)]
  by (simp add: decrypt_none_iff) (simp add: encrypt_identity_with_def Let_def)

section \<open>Start of the node\<close>

definition bare_board :: platform where
  "bare_board = \<lparr>pf_xtensa = True, pf_efuse = replicate 8 0x5A, pf_hw = \<lparr>rg_data = of_nat, rg_time = of_nat\<rparr>, pf_open_read = True, pf_open_write = True,
     pf_get_blob = (\<lambda>_. None), pf_junk = extended_point_identity\<rparr>"

definition stored_identity :: bytes where
  "stored_identity = encrypted_identity_to_bytes
     (encrypt_identity_with (identity_from_seed bare_board (zeros 32)) (identity_manager_derive_storage_key bare_board) (zeros 12))"

theorem identity_storage_roundtrip_witness:
  "identity_decrypt_from_storage bare_board (encrypt_identity_with (identity_from_seed bare_board (zeros 32)) (zeros 32) (zeros 12)) (zeros 32)
     = Some (identity_from_seed bare_board (zeros 32))"
  using identity_storage_roundtrip [OF identity_from_seed_ok _ refl, where nonce = "zeros 12"] by simp

text \<open>C39. A node with an identity in flash starts with it. On the ESP32, when the storage opens and holds the bytes of a consistent identity
  encrypted under the key derived from the fuses, the first call of any of the global functions loads exactly that identity, draws no random
  numbers and writes nothing: the node identifier returned is that of the stored identity, and the global manager holds it afterwards.\<close>

theorem identity_boot_stored:
  assumes "pf_xtensa pf" "pf_open_read pf" "identity_ok pf i" "length nonce = 12" "\<not> gi_init g"
    and "pf_get_blob pf ''identity'' = Some (encrypted_identity_to_bytes (encrypt_identity_with i (identity_manager_derive_storage_key pf) nonce))"
  shows "global_node_id pf g = Some (identity_node_id i,
     g\<lparr>gi_manager := Some \<lparr>im_current = Some i, im_storage_key = identity_manager_derive_storage_key pf\<rparr>, gi_init := True\<rparr>)"
proof -
  have "identity_manager_load_from_flash pf (identity_manager_new pf) = Some i"
    unfolding identity_manager_load_from_flash_def identity_manager_new_def
    using assms(1,2,6) encrypted_identity_bytes [OF assms(3,4)] decrypt_encrypted [OF assms(3)] by simp
  then show ?thesis using assms(5)
    by (simp add: global_node_id_def with_current_def identity_init_def identity_manager_init_def identity_manager_current_def identity_manager_new_def)
qed

theorem identity_boot_stored_witness:
  "\<exists>g. global_node_id (bare_board\<lparr>pf_get_blob := \<lambda>_. Some stored_identity\<rparr>)
       \<lparr>gi_manager = None, gi_init = False, gi_rng = rng_start, gi_calls = []\<rparr>
     = Some (identity_node_id (identity_from_seed bare_board (zeros 32)), g)"
proof -
  let ?pf = "bare_board\<lparr>pf_get_blob := \<lambda>_. Some stored_identity\<rparr>"
  have "identity_ok ?pf (identity_from_seed bare_board (zeros 32))"
    using identity_from_seed_ok [of bare_board] by (simp add: identity_ok_def)
  moreover have "identity_manager_derive_storage_key ?pf = identity_manager_derive_storage_key bare_board"
    by (simp add: identity_manager_derive_storage_key_def)
  ultimately show ?thesis
    using identity_boot_stored [of ?pf "identity_from_seed bare_board (zeros 32)" "zeros 12"] by (simp add: bare_board_def stored_identity_def)
qed

text \<open>C40. Without an identity in flash the node never starts. In every state the random number generator can reach, whatever its registers
  deliver, generating an identity, saving one, rotating to a new one and importing a seed all abort, because they draw their bytes with the
  checked call that the generator always refuses; starting the manager therefore succeeds only with an identity that loads from flash, and
  then leaves the generator and the storage as they were.\<close>

theorem identity_needs_stored:
  assumes "rng_reachable (pf_hw pf) r"
  shows "identity_generate pf r = None \<and> identity_manager_save_to_flash pf m i r = None \<and> identity_manager_rotate pf m r = None
    \<and> identity_manager_import_seed pf m seed r = None
    \<and> identity_manager_init pf m r = map_option (\<lambda>i. (m\<lparr>im_current := Some i\<rparr>, [], r)) (identity_manager_load_from_flash pf m)"
proof -
  note none = fill_checked_fails [OF assms]
  have generate: "identity_generate pf r = None" by (simp add: identity_generate_def none)
  have save: "identity_manager_save_to_flash pf m i r = None" for i
    by (simp add: identity_manager_save_to_flash_def identity_encrypt_for_storage_def none)
  show ?thesis
    by (simp add: generate save identity_manager_rotate_def identity_manager_import_seed_def Let_def identity_manager_init_def split: option.split)
qed

theorem identity_needs_stored_witness:
  "identity_manager_init bare_board (identity_manager_new bare_board) rng_start = None"
  using identity_needs_stored [of bare_board rng_start] by (simp add: rng_reachable.start identity_manager_load_from_flash_def bare_board_def)

end
