(* ===== verification/End_To_End.thy ===== *)
theory End_To_End
  imports Onion Encryption X25519
begin

text \<open>
  Onion routes (\<^verbatim>\<open>onion.c\<close>) and packets for a node (\<^verbatim>\<open>meshtastic/encryption.c\<close>) with the key agreement of
  \<^verbatim>\<open>crypto/x25519.c\<close>. Both clients rely on two parties deriving the same secret. \<^verbatim>\<open>x25519.c\<close> does not promise it, because it
  ignores the last byte of a public key, so the properties say what happens in either case: when the secrets agree the
  content arrives, and when they do not the receiver refuses it.
\<close>

section \<open>The key agreement\<close>

lemma length_x25519 [simp]: "length (x25519 k u) = 32"
  by (simp add: x25519_def Let_def fe_to_bytes_def fe_pack_def split: prod.splits)

lemma length_x25519_base [simp]: "length (x25519_base k) = 32"
  by (simp add: x25519_base_def)

text \<open>\<open>x25519_scalarmult_base\<close> and \<open>x25519_scalarmult\<close> of \<^verbatim>\<open>encryption.c\<close> are read as the two functions of \<^verbatim>\<open>x25519.c\<close>.\<close>

definition lunar_dh :: node_dh where
  "lunar_dh = \<lparr>nd_base = x25519_base, nd_mult = x25519\<rparr>"

lemma lunar_dh_sel [simp]: "nd_base lunar_dh = x25519_base" "nd_mult lunar_dh = x25519"
  by (simp_all add: lunar_dh_def)

section \<open>Properties\<close>

text \<open>C18. Onion delivery with the X25519 of \<^verbatim>\<open>x25519.c\<close>: a sender with private key \<open>s\<close> builds a route of three to seven hops, each given by any
  hint and by the public key of a relay's private key, and wraps a payload that leaves 18 bytes per hop of the 256. Wrapping succeeds. When
  every relay derives the sender's secret and the relays open the packet in route order, each relay learns exactly the hint of the hop after
  it and the last one gets the payload - unless a hop after the first has the hint 0, in which case the relay before it takes the packet for
  a final one and reports NO_MORE_LAYERS. At the first relay with another secret the packet ends with
  AUTHENTICATION_FAILED, unless the 16-byte tags under the two secrets are the same.\<close>

theorem onion_delivery:
  assumes "3 \<le> length keys" "length keys \<le> 7" "length payload + 18 * length keys \<le> 256"
    and "map rh_public_key hops = map x25519_base keys"
  shows "\<exists>route packet. onion_route_new route0 hops = (True, route)
    \<and> onion_router_wrap x25519 junk (onion_router_new x25519_base s) payload route = Inr packet
    \<and> ((\<forall>k \<in> set keys. x25519 k (x25519_base s) = x25519 s (x25519_base k)) \<longrightarrow>
        peel x25519 junk (x25519_base s) (map (onion_router_new x25519_base) keys) packet =
          (if 0 \<in> rh_hint ` set (tl hops) then Inl ONION_ERROR_NO_MORE_LAYERS else Inr (map rh_hint (tl hops), payload)))
    \<and> (\<forall>i < length keys. (\<forall>j < i. x25519 (keys ! j) (x25519_base s) = x25519 s (x25519_base (keys ! j)) \<and> rh_hint (hops ! Suc j) \<noteq> 0)
          \<and> tags_differ (x25519 s) (x25519 (keys ! i) (x25519_base s)) (hops ! i) (drop (Suc i) hops) payload \<longrightarrow>
        peel x25519 junk (x25519_base s) (map (onion_router_new x25519_base) keys) packet = Inl ONION_ERROR_AUTHENTICATION_FAILED)"
proof (rule onion_on_route [where ?x25519.0 = x25519 and junk = junk and s = s and ?route0.0 = route0, OF assms], goal_cases)
  case (1 route packet)
  then show ?case by (intro exI [of _ route] exI [of _ packet]) auto
qed

theorem onion_delivery_witness:
  "\<exists>route packet. onion_route_new \<lparr>or_hops = \<lparr>hv_data = [], hv_len = 0, hv_capacity = 0\<rparr>\<rparr>
      (map (\<lambda>h. \<lparr>rh_hint = h, rh_public_key = x25519_base (zeros 32)\<rparr>) [7, 8, 9]) = (True, route)
    \<and> onion_router_wrap x25519 \<lparr>vdata = [], vlen = 0, vcapacity = 0\<rparr> (onion_router_new x25519_base (zeros 32)) [1, 2, 3] route = Inr packet
    \<and> peel x25519 \<lparr>vdata = [], vlen = 0, vcapacity = 0\<rparr> (x25519_base (zeros 32)) (map (onion_router_new x25519_base) (replicate 3 (zeros 32))) packet
      = Inr ([8, 9], [1, 2, 3])"
proof -
  have "map rh_public_key (map (\<lambda>h. \<lparr>rh_hint = h, rh_public_key = x25519_base (zeros 32)\<rparr>) [7, 8, 9]) = map x25519_base (replicate 3 (zeros 32))"
    by (simp add: numeral_3_eq_3)
  from onion_delivery [OF _ _ _ this, of "[1, 2, 3]" "\<lparr>or_hops = \<lparr>hv_data = [], hv_len = 0, hv_capacity = 0\<rparr>\<rparr>"
      "\<lparr>vdata = [], vlen = 0, vcapacity = 0\<rparr>" "zeros 32"]
  show ?thesis by force
qed

text \<open>C33. Packets for a node with the X25519 of \<^verbatim>\<open>x25519.c\<close>. The sender's store holds a key pair and encrypts a message of up to 208 bytes to a
  public key: the packet is the one-time public key, the ciphertext and the tag. A receiver with a private key accepts exactly
  the tag under the key that it derives itself and leaves its output alone otherwise. When its secret is the sender's, the
  message is recovered from the packet and the packet with any other tag is refused. Longer messages are refused, and a
  store without a key pair neither encrypts nor decrypts.\<close>

theorem node_encryption_roundtrip:
  assumes "node_store lunar_dh a priv" "ks_node_privkey_present b" "ks_node_privkey b = priv'"
    and "length junk = 1024" "length junk' = 1024" "length cbuf = 240" "length pbuf = 240"
    and "e = x25519_base (ephemeral priv nonce)" "key' = pki_key (x25519 priv' e) e"
  shows "(length xs \<le> 208 \<longrightarrow> (\<exists>v ct tag. KeyStore_encrypt_for_node lunar_dh junk cbuf a pub xs nonce out = (True, v)
        \<and> pcontents v = e @ ct @ tag \<and> length e = 32 \<and> length ct = length xs \<and> length tag = 16
        \<and> (\<forall>tag'. length tag' = 16 \<longrightarrow> (if tag' = aead_tag (poly_key junk' key' nonce) [] ct
            then fst (KeyStore_decrypt_from_node lunar_dh junk' pbuf b (e @ ct @ tag') nonce out')
            else KeyStore_decrypt_from_node lunar_dh junk' pbuf b (e @ ct @ tag') nonce out' = (False, out')))
        \<and> (x25519 priv' e = x25519 (ephemeral priv nonce) pub \<longrightarrow>
            (\<exists>w. KeyStore_decrypt_from_node lunar_dh junk' pbuf b (e @ ct @ tag) nonce out' = (True, w) \<and> pcontents w = xs)
          \<and> (\<forall>tag'. length tag' = 16 \<and> tag' \<noteq> tag \<longrightarrow> KeyStore_decrypt_from_node lunar_dh junk' pbuf b (e @ ct @ tag') nonce out' = (False, out')))))
    \<and> (208 < length xs \<longrightarrow> KeyStore_encrypt_for_node lunar_dh junk cbuf a pub xs nonce out = (False, out))
    \<and> KeyStore_encrypt_for_node lunar_dh junk cbuf KeyStore_new pub xs nonce out = (False, out)
    \<and> KeyStore_decrypt_from_node lunar_dh junk' pbuf KeyStore_new xs nonce out' = (False, out')"
proof (intro conjI impI)
  assume len: "length xs \<le> 208"
  define key where "key = pki_key (x25519 (ephemeral priv nonce) pub) e"
  define ct where "ct = chacha20_encrypt (chacha20_new_with_counter key nonce 1) xs"
  define tag where "tag = aead_tag (poly_key junk key nonce) [] ct"
  have e: "length e = 32" by (simp add: assms(8))
  note n = node_encryption [of lunar_dh a priv b priv' xs junk junk' cbuf pbuf e nonce key pub key' ct tag,
      OF assms(1-3) len assms(4-7) _ e _ _ ct_def tag_def, unfolded lunar_dh_sel, OF assms(8) key_def assms(9)]
  have same: "key' = key" "aead_tag (poly_key junk' key' nonce) [] ct = tag" if "x25519 priv' e = x25519 (ephemeral priv nonce) pub"
    using that assms(4,5) by (simp_all add: key_def assms(9) tag_def poly_key_eq)
  have plain: "chacha20_decrypt (chacha20_new_with_counter key nonce 1) ct = xs"
    by (simp add: ct_def chacha20_decrypt_def chacha20_encrypt_def apply_keystream_spec xor_bytes_cancel)
  obtain v where v: "KeyStore_encrypt_for_node lunar_dh junk cbuf a pub xs nonce out = (True, v)" "pcontents v = e @ ct @ tag"
    using n(1) by blast
  have "if tag' = aead_tag (poly_key junk' key' nonce) [] ct
      then fst (KeyStore_decrypt_from_node lunar_dh junk' pbuf b (e @ ct @ tag') nonce out')
      else KeyStore_decrypt_from_node lunar_dh junk' pbuf b (e @ ct @ tag') nonce out' = (False, out')" if "length tag' = 16" for tag'
    using n(4,5) [OF that, of out'] by auto
  moreover have "\<exists>w. KeyStore_decrypt_from_node lunar_dh junk' pbuf b (e @ ct @ tag) nonce out' = (True, w) \<and> pcontents w = xs"
    if "x25519 priv' e = x25519 (ephemeral priv nonce) pub"
    using n(4) [OF n(3)] same [OF that] plain by auto
  moreover have "KeyStore_decrypt_from_node lunar_dh junk' pbuf b (e @ ct @ tag') nonce out' = (False, out')"
    if "x25519 priv' e = x25519 (ephemeral priv nonce) pub" "length tag' = 16" "tag' \<noteq> tag" for tag'
    using n(5) [OF that(2)] same(2) [OF that(1)] that(3) by simp
  ultimately show "\<exists>v ct tag. KeyStore_encrypt_for_node lunar_dh junk cbuf a pub xs nonce out = (True, v)
        \<and> pcontents v = e @ ct @ tag \<and> length e = 32 \<and> length ct = length xs \<and> length tag = 16
        \<and> (\<forall>tag'. length tag' = 16 \<longrightarrow> (if tag' = aead_tag (poly_key junk' key' nonce) [] ct
            then fst (KeyStore_decrypt_from_node lunar_dh junk' pbuf b (e @ ct @ tag') nonce out')
            else KeyStore_decrypt_from_node lunar_dh junk' pbuf b (e @ ct @ tag') nonce out' = (False, out')))
        \<and> (x25519 priv' e = x25519 (ephemeral priv nonce) pub \<longrightarrow>
            (\<exists>w. KeyStore_decrypt_from_node lunar_dh junk' pbuf b (e @ ct @ tag) nonce out' = (True, w) \<and> pcontents w = xs)
          \<and> (\<forall>tag'. length tag' = 16 \<and> tag' \<noteq> tag \<longrightarrow> KeyStore_decrypt_from_node lunar_dh junk' pbuf b (e @ ct @ tag') nonce out' = (False, out')))"
    using v e n(2,3) by blast
next
  assume "208 < length xs"
  then show "KeyStore_encrypt_for_node lunar_dh junk cbuf a pub xs nonce out = (False, out)"
    by (simp add: KeyStore_encrypt_for_node_def pki_encrypt_def PKI_OVERHEAD_def)
qed (simp_all add: KeyStore_encrypt_for_node_def KeyStore_decrypt_from_node_def KeyStore_new_def)

theorem node_encryption_roundtrip_witness:
  "\<exists>v w. KeyStore_encrypt_for_node lunar_dh (zeros 1024) (zeros 240) (KeyStore_set_node_keypair lunar_dh KeyStore_new (zeros 32))
        (x25519_base (ephemeral (zeros 32) (zeros 12))) [4, 5] (zeros 12) \<lparr>pv_data = [], pv_len = 0, pv_capacity = 0\<rparr> = (True, v)
     \<and> KeyStore_decrypt_from_node lunar_dh (zeros 1024) (zeros 240)
        (KeyStore_set_node_keypair lunar_dh KeyStore_new (ephemeral (zeros 32) (zeros 12)))
        (pcontents v) (zeros 12) \<lparr>pv_data = [], pv_len = 0, pv_capacity = 0\<rparr> = (True, w)
     \<and> pcontents w = [4, 5]"
proof -
  let ?p = "ephemeral (zeros 32) (zeros 12)"
  have s: "node_store lunar_dh (KeyStore_set_node_keypair lunar_dh KeyStore_new k) k" if "length k = 32" for k
    by (rule set_node_keypair) (simp_all add: KeyStore_new_def that)
  have b: "ks_node_privkey_present (KeyStore_set_node_keypair lunar_dh KeyStore_new ?p)"
      "ks_node_privkey (KeyStore_set_node_keypair lunar_dh KeyStore_new ?p) = ?p"
    using s [of ?p] by (simp_all add: node_store_def ephemeral_def)
  have "length (zeros 32) = 32" by simp
  from node_encryption_roundtrip [OF s [OF this] b, of "zeros 1024" "zeros 1024" "zeros 240" "zeros 240" "x25519_base ?p" "zeros 12" _ "[4, 5]"
      "x25519_base ?p" "\<lparr>pv_data = [], pv_len = 0, pv_capacity = 0\<rparr>" "\<lparr>pv_data = [], pv_len = 0, pv_capacity = 0\<rparr>", OF _ _ _ _ refl refl]
  show ?thesis by auto
qed

end
