(* ===== verification/Spec2Isabelle.thy ===== *)
theory Spec2Isabelle
  imports Frame_Parser Contact_Store Transport Packet_Id Mesh_Packet Base64 Poly1305 Session_Manager Aes_Alt Onion Protocol_Router Rnode Ota Protobuf_Message Encryption Identity End_To_End
begin

text \<open>
  A verification library for LunarCore (\<^verbatim>\<open>src/lunarcore/lunar\<close>), the C library of the firmware of a LoRa mesh node. Paths below are
  relative to that directory.

  \<^bold>\<open>The program.\<close> A node talks to a host over serial or Bluetooth links and to other nodes by radio. On the host side, \<^verbatim>\<open>protocol.c\<close> is a framed
  command protocol, \<^verbatim>\<open>rnode.c\<close> a KISS-framed one compatible with RNode, and \<^verbatim>\<open>protocol_router.c\<close> detects which protocol a transport
  speaks and which transport holds the radio; \<^verbatim>\<open>ota.c\<close> receives signed firmware. On the radio side, \<^verbatim>\<open>transport.c\<close> has addresses and
  the packets of the universal format, \<^verbatim>\<open>packet_id.c\<close> identifiers that survive sleep, and \<^verbatim>\<open>meshtastic/\<close> the Meshtastic packets, routing,
  acknowledgements, protocol buffers, channels and packet encryption. Between people, \<^verbatim>\<open>identity.c\<close> holds the keys of the node,
  \<^verbatim>\<open>contact.c\<close> the signed introductions and the store of contacts, \<^verbatim>\<open>session.c\<close> the ratcheting sessions and \<^verbatim>\<open>onion.c\<close> layered
  routing. All rest on \<^verbatim>\<open>crypto/\<close> and on the random numbers of \<^verbatim>\<open>rng.c\<close>. Every stored structure - contacts, sessions, the
  identity - has a byte form that goes through the non-volatile storage driver.

  \<^bold>\<open>Foundation.\<close>
  \<^item> \<open>Lunar_Prelude\<close>: bytes, words, \<^verbatim>\<open>memcpy\<close>, slices, little-endian numbers, checked reads, shared lemmas and \<open>named_theorems\<close>.
  \<^item> \<open>Vec_Helpers\<close> (\<^verbatim>\<open>vec_helpers.c\<close>): bounded vectors; locales \<open>bounded_vec\<close> and \<open>bounded_vec_push\<close>, interpreted for every vector type.
  \<^item> \<open>Byte_Codec\<close>, \<open>Streaming\<close>, \<open>Limb_Arith\<close>, \<open>Ctr_Mode\<close>: little-endian fields; block-buffered absorption with Merkle-Damgard padding and the
    locales \<open>stream_update\<close> and \<open>streaming\<close>; sums of limbs; counter mode over an arbitrary block function.

  \<^bold>\<open>Cryptography\<close> (\<^verbatim>\<open>crypto/\<close>).
  \<^item> \<open>Crypto_Util\<close> (\<^verbatim>\<open>mod.c\<close>): constant-time comparison is equality, wiping.
  \<^item> \<open>Sha256\<close>, \<open>Sha512\<close>, \<open>Hmac\<close> (\<^verbatim>\<open>sha256.c\<close>, the end of \<^verbatim>\<open>ed25519.c\<close>, \<^verbatim>\<open>hmac.c\<close>, \<^verbatim>\<open>hkdf.c\<close>): however the input is split, the result is the padded
    construction over the whole input; both hashes and HMAC interpret the same locale; HKDF is its specification, errors included.
  \<^item> \<open>Chacha20\<close>, \<open>Poly1305\<close> (\<^verbatim>\<open>chacha20.c\<close>, \<^verbatim>\<open>poly1305.c\<close>): encryption is its own inverse; the limb arithmetic at word width computes the
    polynomial modulo \<open>2\<^sup>1\<^sup>3\<^sup>0 - 5\<close>; sealing and opening.
  \<^item> \<open>Aes_Field\<close>, \<open>Aes\<close>, \<open>Aes_Correct\<close>, \<open>Aes_Alt\<close> (\<^verbatim>\<open>aes.c\<close>, both halves; suffix 2 marks the second): the inverse of every round step (locale
    \<open>round_functions\<close>), blocks, chaining (locale \<open>block_cipher\<close>), the key schedule against the standard recurrence, and where the
    second half differs.
  \<^item> \<open>Field25519\<close>, \<open>X25519\<close> (\<^verbatim>\<open>x25519.c\<close>): ten-limb field elements; each operation computes modulo \<open>2\<^sup>2\<^sup>5\<^sup>5 - 19\<close> within limb bounds that keep
    every 64- and 128-bit intermediate from overflowing, and the whole function is a Montgomery ladder over the integers.
  \<^item> \<open>Ed25519\<close> (\<^verbatim>\<open>ed25519.c\<close>): decoded points lie on the curve and multiplication stays there; what the scalar functions accept and reduce.

  \<^bold>\<open>Host side.\<close>
  \<^item> \<open>Frame_Protocol\<close>, \<open>Frame_Parser\<close> (\<^verbatim>\<open>protocol.c\<close>): encoder, CRC and byte-wise parser; streams of frames are delivered exactly, only
    received frames are delivered, the buffer is never overrun.
  \<^item> \<open>Kiss\<close>, \<open>Rnode\<close> (\<^verbatim>\<open>rnode.c\<close>): both KISS codecs and both handlers; a handler is split into the effect of a command and its reply.
  \<^item> \<open>Protocol_Router\<close> (\<^verbatim>\<open>protocol_router.c\<close>): the runs of the router are an inductive relation over its events.
  \<^item> \<open>Ota\<close> (\<^verbatim>\<open>ota.c\<close>): the runs of an update; the boot partition is switched only to an image of whose SHA-256 hash a signature by a
    trusted key was shown, and a complete valid upload is installed.

  \<^bold>\<open>Radio side.\<close>
  \<^item> \<open>Transport\<close> (\<^verbatim>\<open>transport.c\<close>) and \<open>Packet_Id\<close> (\<^verbatim>\<open>packet_id.c\<close>): packets, the address table, identifiers that do not repeat.
  \<^item> \<open>Mesh_Packet\<close>, \<open>Base64\<close>, \<open>Channel\<close>, \<open>Encryption\<close> (\<^verbatim>\<open>packet.c\<close>, \<^verbatim>\<open>base64.c\<close>, \<^verbatim>\<open>channel.c\<close>, \<^verbatim>\<open>encryption.c\<close> of \<^verbatim>\<open>meshtastic/\<close>).
  \<^item> \<open>Protobuf\<close>, \<open>Protobuf_Message\<close> (\<^verbatim>\<open>meshtastic/protobuf.c\<close>, first half): what the decoders of Data, Position and User make of any sequence of
    fields, when they return, and that decoding Data is memory safe; locales \<open>message_decoder\<close>, \<open>decoder_progress\<close>, \<open>decoder_safe\<close>.

  \<^bold>\<open>People.\<close>
  \<^item> \<open>Contact\<close>, \<open>Contact_Store\<close> (\<^verbatim>\<open>contact.c\<close>): introductions and the 64-slot store, which refines a bounded map (locale \<open>bounded_map\<close>).
  \<^item> \<open>Session\<close>, \<open>Session_Manager\<close> (\<^verbatim>\<open>session.c\<close>): messages of one chain arrive in any order; why the first message between two new
    sessions is refused; what each failure changes.
  \<^item> \<open>Onion\<close> (\<^verbatim>\<open>onion.c\<close>): what a relay does with any packet, and with the packets of a route it is on.
  \<^item> \<open>End_To_End\<close>: onion routes and encryption for a node with the X25519 of \<^verbatim>\<open>x25519.c\<close>; delivery when the two secrets agree, refusal when they do not.
  \<^item> \<open>Rng\<close>, \<open>Identity\<close> (\<^verbatim>\<open>rng.c\<close>, \<^verbatim>\<open>identity.c\<close>): the reachable states of the generator; the stored identity, and how a node starts.

  \<^bold>\<open>Modelling.\<close> \<^verbatim>\<open>size_t\<close> is \<open>nat\<close>, but a 32-bit word where a sum can wrap (hash keys, the cursor of the protocol-buffer decoder). Arrays are byte
  lists of the declared length, and unchecked writes go through \<open>memcpy\<close> or \<open>put_byte\<close>, so an overrun breaks the length invariant;
  decoders read through checked reads with the result \<open>Oob\<close>; an overrun of a stack array, a failed assertion and \<^verbatim>\<open>abort()\<close> are \<open>None\<close>.
  Uninitialised memory is an argument \<open>junk\<close>. \<^verbatim>\<open>int64_t\<close> and \<^verbatim>\<open>__int128\<close> are integers wrapped by \<open>i64\<close> and \<open>i128\<close>, once per sum of
  products, with no wrap proved; other machine integers are words. Memory allocation succeeds. Operations run one after the other;
  time, hardware entropy, random bytes and registers are arguments. Calls whose argument order disagrees with the function they name
  are read by the role of their arguments, the positional \<^verbatim>\<open>hkdf_derive\<close> calls of \<^verbatim>\<open>session.c\<close>, \<^verbatim>\<open>onion.c\<close> and \<^verbatim>\<open>encryption.c\<close> apart.
  \<^verbatim>\<open>memcpy\<close> of counters and the word view of \<^verbatim>\<open>aes_key_expand\<close> are little-endian. Unreadable code is an argument: the
  storage and update drivers, \<^verbatim>\<open>mesh_kdf_*\<close> (declared nowhere), \<^verbatim>\<open>Sha256_hash\<close> of \<^verbatim>\<open>transport.c\<close>.

  Contacts and updates take the signature functions as arguments, sessions, onion routing and packet encryption X25519. No law of key agreement is
  assumed anywhere, because \<^verbatim>\<open>x25519.c\<close> does not have it: it ignores the last byte of a public key, so two parties usually derive different secrets, and
  its constant is that of another curve than the one of RFC 7748. \<open>X25519\<close> and \<open>Ed25519\<close> model \<^verbatim>\<open>x25519.c\<close> and \<^verbatim>\<open>ed25519.c\<close> as written, \<open>Identity\<close> calls
  them, and \<open>End_To_End\<close> states what onion routes and encrypted packets do with that X25519, for equal secrets and for different ones. In
  \<open>Session\<close> the results hold for every X25519; the delivery of a chain of messages is a statement about a sender that holds the
  receiver's chain key, a state that \<^verbatim>\<open>session_new\<close> with its two salts does not bring about by itself and that a stored session can have.
  \<open>MAX_LORA_PAYLOAD\<close> is the 237 of \<^verbatim>\<open>meshtastic/mod.h\<close>, which also sizes the payload array, not the fallback 256 of \<^verbatim>\<open>protobuf.c\<close>.

  \<^bold>\<open>Loops.\<close> No fuel is used. Every loop is total with a termination proof, except the decoding loop of \<open>Protobuf\<close>, a
  \<open>partial_function\<close> in the option type, where \<open>None\<close> is the value of not returning: it is proved to return unless a turn that it
  reaches comes to a length whose sum with the position wraps, and not to return on a concrete input of six bytes.

  \<^bold>\<open>Not modelled.\<close> \<^verbatim>\<open>meshtastic/mod.c\<close>, the message handler above the Meshtastic components, which includes a header \<^verbatim>\<open>meshtastic.h\<close> that the
  repository does not have, and the second half of \<^verbatim>\<open>meshtastic/protobuf.c\<close>, a second encoder and decoder under capitalised names; the
  floating-point estimates of airtime and low data rate in \<^verbatim>\<open>rnode.c\<close> and \<^verbatim>\<open>channel.c\<close>; \<^verbatim>\<open>main.c\<close>, \<^verbatim>\<open>main_new.c\<close>, \<^verbatim>\<open>cli.c\<close>, display, power, battery, LED
  and UART code, which only drives hardware and prints; the Rust sources; and the other firmware of the repository
  (\<^verbatim>\<open>M665_old\<close>, \<^verbatim>\<open>mesh_sniffer\<close>, \<^verbatim>\<open>testing_projects\<close>, \<^verbatim>\<open>qlrs\<close> and the alternative mesh drafts), mostly vendor libraries and glue around them.
\<close>

end
